(* ===== verification/Prelude.thy ===== *)
theory Prelude
  imports Main "HOL-Library.Word"
begin

unbundle bit_operations_syntax

text \<open>
  What the theories of the development share: the machine types, the faults a C function
  can run into (a failed \<open>assert\<close>, a dereference outside the model's store), results
  that carry them, the big and little endian byte codecs, C strings and the collections of
  facts that the automation of the component theories uses.

  Conventions: a byte string is a \<open>8 word list\<close>; a pointer is a \<open>nat\<close>, the NULL
  pointer is \<open>None\<close>; a function that can fault returns \<open>fault + 'a\<close>. \<open>malloc\<close> never
  fails: \<open>skynet-src/malloc_hook.c\<close> aborts the process when it does.
\<close>

section \<open>Machine types\<close>

type_synonym byte = "8 word"
type_synonym bytes = "8 word list"
type_synonym u16 = "16 word"
type_synonym u32 = "32 word"
type_synonym u64 = "64 word"
type_synonym addr = nat

named_theorems skynet_invs "unfoldings of the invariants of the components"
named_theorems skynet_ops "unfoldings of the operations of the components"

section \<open>Faults and results\<close>

text \<open>
  \<open>Assert_Failed\<close>: an \<open>assert\<close> of the source is false, the process aborts.
  \<open>Bad_Pointer\<close>: a NULL or dangling pointer is dereferenced.
  \<open>Out_Of_Bounds\<close>: an array is accessed outside its bounds. \<open>Uninit_Read\<close>: memory is read that
  nothing was written to since \<open>malloc\<close> returned it. \<open>Int_Overflow\<close>: a signed integer leaves its
  range, which C leaves undefined. \<open>Out_Of_Memory\<close>: more memory is asked for than an address space has, the process aborts.
\<close>

datatype fault = Assert_Failed | Bad_Pointer | Out_Of_Bounds | Uninit_Read | Int_Overflow | Out_Of_Memory

type_synonym 'a res = "fault + 'a"

definition res_bind :: "'e + 'a \<Rightarrow> ('a \<Rightarrow> 'e + 'b) \<Rightarrow> 'e + 'b" where
  "res_bind r f = (case r of Inl e \<Rightarrow> Inl e | Inr x \<Rightarrow> f x)"

lemma res_bind_simps [simp]:
  "res_bind (Inl e) f = Inl e"
  "res_bind (Inr x) f = f x"
  by (simp_all add: res_bind_def)

lemma res_bind_Inr_iff:
  "res_bind r f = Inr y \<longleftrightarrow> (\<exists>x. r = Inr x \<and> f x = Inr y)"
  by (cases r) auto

text \<open>The same for computations that may also not end (\<open>None\<close>).\<close>

definition res_obind :: "('e + 'a) option \<Rightarrow> ('a \<Rightarrow> ('e + 'b) option) \<Rightarrow> ('e + 'b) option" where
  "res_obind r f = (case r of None \<Rightarrow> None | Some (Inl e) \<Rightarrow> Some (Inl e) | Some (Inr x) \<Rightarrow> f x)"

lemma res_obind_simps [simp]:
  "res_obind None f = None"
  "res_obind (Some (Inl e)) f = Some (Inl e)"
  "res_obind (Some (Inr x)) f = f x"
  by (simp_all add: res_obind_def)

text \<open>A function called from Lua raises a Lua error (\<open>luaL_error\<close>, \<open>luaL_check...\<close>), or runs into a fault.\<close>

datatype lua_exn = Lua_Error string | C_Fault fault

type_synonym 'a lua = "lua_exn + 'a"

definition luaL_error :: "string \<Rightarrow> 'a lua" where
  "luaL_error msg = Inl (Lua_Error msg)"

text \<open>C code called from Lua keeps its faults.\<close>

definition lift_fault :: "'a res \<Rightarrow> 'a lua" where
  "lift_fault r = (case r of Inl e \<Rightarrow> Inl (C_Fault e) | Inr x \<Rightarrow> Inr x)"

lemma lift_fault_simps [simp]:
  "lift_fault (Inr x) = Inr x" "lift_fault (Inl e) = Inl (C_Fault e)"
  by (simp_all add: lift_fault_def)

definition deref :: "('k \<Rightarrow> 'v option) \<Rightarrow> 'k \<Rightarrow> 'v res" where
  "deref st a = (case st a of None \<Rightarrow> Inl Bad_Pointer | Some v \<Rightarrow> Inr v)"

lemma deref_Some [simp]: "st a = Some v \<Longrightarrow> deref st a = Inr v"
  by (simp add: deref_def)

lemma deref_None [simp]: "st a = None \<Longrightarrow> deref st a = Inl Bad_Pointer"
  by (simp add: deref_def)

lemma deref_Inr_iff: "deref st a = Inr v \<longleftrightarrow> st a = Some v"
  by (auto simp: deref_def split: option.splits)

section \<open>Memory\<close>

text \<open>Reading \<open>n\<close> bytes at an offset of a buffer, as \<open>memcpy\<close> does.\<close>

definition mem_read :: "bytes option \<Rightarrow> int \<Rightarrow> int \<Rightarrow> bytes res" where
  "mem_read buf off n = (case buf of None \<Rightarrow> Inl Bad_Pointer
     | Some bs \<Rightarrow> if 0 \<le> off \<and> 0 \<le> n \<and> off + n \<le> int (length bs) then Inr (take (nat n) (drop (nat off) bs)) else Inl Out_Of_Bounds)"

lemma take_drop_append_short: "n + k \<le> length xs \<Longrightarrow> take n (drop k (xs @ ys)) = take n (drop k xs)"
  by simp

lemma take_drop_append_long:
  "k \<le> length xs \<Longrightarrow> length xs \<le> n + k \<Longrightarrow>
     take n (drop k (xs @ ys)) = drop k xs @ take (n + k - length xs) ys \<and>
     drop (n + k) (xs @ ys) = drop (n + k - length xs) ys"
  by (simp add: le_diff_conv)

section \<open>Endian codecs\<close>

text \<open>\<open>le_bytes n v\<close>: the low \<open>n\<close> bytes of \<open>v\<close>, least significant first.\<close>

definition byte_at :: "'a::len word \<Rightarrow> nat \<Rightarrow> byte" where
  "byte_at v k = ucast (drop_bit (8 * k) v)"

definition le_bytes :: "nat \<Rightarrow> 'a::len word \<Rightarrow> bytes" where
  "le_bytes n v = map (byte_at v) [0..<n]"

fun le_word :: "bytes \<Rightarrow> 'a::len word" where
  "le_word [] = 0"
| "le_word (b # bs) = ucast b OR push_bit 8 (le_word bs)"

lemma length_le_bytes [simp]: "length (le_bytes n v) = n"
  by (simp add: le_bytes_def)

lemma le_bytes_0 [simp]: "le_bytes 0 v = []"
  by (simp add: le_bytes_def)

lemma byte_at_Suc: "byte_at v (Suc k) = byte_at (drop_bit 8 v) k"
  by (simp add: byte_at_def add.commute)

lemma le_bytes_Suc: "le_bytes (Suc n) v = byte_at v 0 # le_bytes n (drop_bit 8 v)"
  by (simp add: le_bytes_def map_upt_Suc byte_at_Suc del: upt_Suc)

lemma bit_byte_at: "bit (byte_at (v :: 'a::len word) k) i \<longleftrightarrow> i < 8 \<and> bit v (8 * k + i)"
  by (auto simp: byte_at_def bit_ucast_iff bit_drop_bit_eq)

lemma bit_le_word:
  "bit (le_word bs :: 'a::len word) i \<longleftrightarrow>
     i < LENGTH('a) \<and> i div 8 < length bs \<and> bit (bs ! (i div 8)) (i mod 8)"
proof (induction bs arbitrary: i)
  case Nil
  then show ?case by simp
next
  case (Cons b bs)
  show ?case
  proof (cases "i < 8")
    case True
    then show ?thesis
      by (auto simp: bit_or_iff bit_push_bit_iff bit_ucast_iff)
  next
    case False
    have not_b: "\<not> bit b i"
      using False bit_imp_le_length [of b i] by auto
    obtain j where j: "i = j + 8"
      using False by (metis le_add_diff_inverse2 not_less)
    have "i div 8 = Suc (j div 8)" "i mod 8 = j mod 8"
      by (simp_all add: j)
    then show ?thesis
      using not_b Cons.IH [of j]
      by (auto simp: bit_or_iff bit_push_bit_iff bit_ucast_iff j)
  qed
qed

lemma le_word_le_bytes:
  "le_word (le_bytes n v) = (take_bit (8 * n) v :: 'a::len word)"
proof (rule bit_word_eqI)
  fix i
  assume i: "i < LENGTH('a)"
  have "i div 8 < n \<longleftrightarrow> i < 8 * n"
    by auto
  moreover have "8 * (i div 8) + i mod 8 = i"
    by simp
  ultimately show "bit (le_word (le_bytes n v) :: 'a word) i = bit (take_bit (8 * n) v) i"
    using i by (auto simp: bit_le_word bit_take_bit_iff le_bytes_def bit_byte_at)
qed

lemma le_word_le_bytes_full [simp]:
  "LENGTH('a) \<le> 8 * n \<Longrightarrow> le_word (le_bytes n v) = (v :: 'a::len word)"
proof (simp add: le_word_le_bytes)
  assume "LENGTH('a) \<le> 8 * n"
  then show "take_bit (8 * n) v = v"
    by (intro bit_word_eqI) (auto simp: bit_take_bit_iff)
qed

lemma le_bytes_le_word:
  assumes "8 * length bs \<le> LENGTH('a::len)"
  shows "le_bytes (length bs) (le_word bs :: 'a word) = bs"
proof (rule nth_equalityI)
  show "length (le_bytes (length bs) (le_word bs :: 'a word)) = length bs"
    by simp
next
  fix k
  assume "k < length (le_bytes (length bs) (le_word bs :: 'a word))"
  then have k: "k < length bs"
    by simp
  show "le_bytes (length bs) (le_word bs :: 'a word) ! k = bs ! k"
  proof (rule bit_word_eqI)
    fix i
    assume "i < LENGTH(8)"
    then have i: "i < 8"
      by simp
    have "(8 * k + i) div 8 = k" "(8 * k + i) mod 8 = i"
      using i by simp_all
    moreover have "8 * k + i < LENGTH('a)"
      using i k assms by linarith
    ultimately show "bit (le_bytes (length bs) (le_word bs :: 'a word) ! k) i = bit (bs ! k) i"
      using i k by (simp add: le_bytes_def bit_byte_at bit_le_word)
  qed
qed

text \<open>Big endian, as network headers have it: most significant byte first.\<close>

definition be_bytes :: "nat \<Rightarrow> 'a::len word \<Rightarrow> bytes" where
  "be_bytes n v = rev (le_bytes n v)"

definition be_word :: "bytes \<Rightarrow> 'a::len word" where
  "be_word bs = le_word (rev bs)"

lemma length_be_bytes [simp]: "length (be_bytes n v) = n"
  by (simp add: be_bytes_def)

lemma be_word_be_bytes:
  "be_word (be_bytes n v) = (take_bit (8 * n) v :: 'a::len word)"
  by (simp add: be_word_def be_bytes_def le_word_le_bytes)

section \<open>Bit fields as numbers\<close>

lemma unat_drop_div: "unat (drop_bit k (a :: 'a::len word)) = unat a div 2 ^ k"
proof -
  have "unat (drop_bit k a) = drop_bit k (unat a)"
    by (rule bit_eqI) (auto simp: bit_unsigned_iff bit_drop_bit_eq dest: bit_imp_le_length)
  then show ?thesis
    by (simp only: drop_bit_eq_div)
qed

lemma unat_and_mask: "unat ((a :: 'a::len word) AND mask k) = unat a mod 2 ^ k"
proof -
  have "unat (a AND mask k) = unat (take_bit k a)"
    by (simp add: take_bit_eq_mask)
  also have "\<dots> = take_bit k (unat a)"
    by (rule unsigned_take_bit_eq)
  finally show ?thesis
    by (simp only: take_bit_eq_mod)
qed

section \<open>C strings\<close>

text \<open>
  A C string is a \<open>string\<close> without NUL characters. \<open>strcmp\<close> is negative, zero or
  positive; only the sign is specified by C, and only the sign is used by the source.
\<close>

fun strcmp :: "string \<Rightarrow> string \<Rightarrow> int" where
  "strcmp [] [] = 0"
| "strcmp [] (_ # _) = -1"
| "strcmp (_ # _) [] = 1"
| "strcmp (a # as) (b # bs) =
     (if of_char a < (of_char b :: nat) then -1
      else if of_char b < (of_char a :: nat) then 1
      else strcmp as bs)"

lemma strcmp_eq_0_iff [simp]: "strcmp a b = 0 \<longleftrightarrow> a = b"
  by (induction a b rule: strcmp.induct) auto

lemma strcmp_self [simp]: "strcmp a a = 0"
  by simp

lemma strcmp_antisym: "strcmp a b < 0 \<longleftrightarrow> 0 < strcmp b a"
  by (induction a b rule: strcmp.induct) auto

lemma strcmp_less_Nil [simp]: "\<not> strcmp a [] < 0"
  by (cases a) auto

lemma strcmp_trans: "strcmp a b < 0 \<Longrightarrow> strcmp b c < 0 \<Longrightarrow> strcmp a c < 0"
proof (induction a c arbitrary: b rule: strcmp.induct)
  case (4 x xs y ys)
  then show ?case by (cases b) (auto split: if_splits)
qed auto

lemma strcmp_cases: "strcmp a b < 0 \<or> a = b \<or> strcmp b a < 0"
  by (metis linorder_neqE_linordered_idom strcmp_antisym strcmp_eq_0_iff)

section \<open>Lists\<close>

lemma map_nth_upt_drop: "map ((!) xs) [n..<length xs] = drop n xs"
  by (rule nth_equalityI) auto

lemma map_nth_upt_take: "n \<le> length xs \<Longrightarrow> map ((!) xs) [0..<n] = take n xs"
  by (rule nth_equalityI) auto

lemma drop_update_le: "n \<le> i \<Longrightarrow> i < length xs \<Longrightarrow> drop n (xs[i := x]) = (drop n xs)[i - n := x]"
  by (simp add: drop_update_swap)

lemma list_all_nth_Some: "\<forall>x \<in> set xs. x \<noteq> None \<Longrightarrow> map Some (map the xs) = xs"
  by (induction xs) auto

lemma Some_in_set_update:
  assumes "i < length xs" "xs ! i = None"
  shows "Some c \<in> set (xs[i := Some x]) \<longleftrightarrow> c = x \<or> Some c \<in> set xs"
proof
  assume "Some c \<in> set (xs[i := Some x])"
  then show "c = x \<or> Some c \<in> set xs"
    using set_update_subset_insert [of xs i "Some x"] by auto
next
  assume "c = x \<or> Some c \<in> set xs"
  then show "Some c \<in> set (xs[i := Some x])"
  proof
    assume "c = x"
    then show ?thesis
      using assms(1) by (simp add: set_update_memI)
  next
    assume "Some c \<in> set xs"
    then obtain n where n: "n < length xs" "xs ! n = Some c"
      by (auto simp: in_set_conv_nth)
    then have "n \<noteq> i"
      using assms(2) by auto
    then show ?thesis
      using n by (metis length_list_update nth_list_update_neq nth_mem)
  qed
qed

lemma Some_in_set_update_None:
  assumes "i < length xs" "\<And>j. j < length xs \<Longrightarrow> xs ! j = Some c \<Longrightarrow> j = i \<longleftrightarrow> c = x" "xs ! i = Some x"
  shows "Some c \<in> set (xs[i := None]) \<longleftrightarrow> c \<noteq> x \<and> Some c \<in> set xs"
proof
  assume "Some c \<in> set (xs[i := None])"
  then obtain n where n: "n < length xs" "xs[i := None] ! n = Some c"
    by (auto simp: in_set_conv_nth)
  then have "n \<noteq> i"
    by auto
  then show "c \<noteq> x \<and> Some c \<in> set xs"
    using n assms(2) [of n] by (metis nth_list_update_neq nth_mem)
next
  assume c: "c \<noteq> x \<and> Some c \<in> set xs"
  then obtain n where n: "n < length xs" "xs ! n = Some c"
    by (auto simp: in_set_conv_nth)
  then have "n \<noteq> i"
    using assms(3) c by auto
  then show "Some c \<in> set (xs[i := None])"
    using n by (metis length_list_update nth_list_update_neq nth_mem)
qed

end
