(* ===== verification/Fifo.thy ===== *)
theory Fifo
  imports Prelude
begin

text \<open>
  The queue interface of the development. Three components of the program are FIFO queues: the
  message ring of a service (\<open>skynet_mq.c\<close>), the global list of runnable rings (the same
  file) and the package ring of \<open>lua-netpack.c\<close>. The locale \<open>fifo\<close> states what each promises
  through an abstraction to a list; what a client observes (the messages come out in the order
  they went in, none lost, none twice) is proved once inside it. The second half holds the
  facts on ring buffers (a start, an end and an array) the two rings share.
\<close>

section \<open>Observing a queue\<close>

datatype 'a qop = Enq 'a | Deq

text \<open>
  \<open>fifo_run\<close> performs a list of operations and collects what the \<open>Deq\<close>s returned;
  \<open>fifo_adm\<close> says that every \<open>Enq\<close> of the run was admissible when it was made.
\<close>

fun fifo_run :: "('q \<Rightarrow> 'a \<Rightarrow> 'q) \<Rightarrow> ('q \<Rightarrow> 'a option \<times> 'q) \<Rightarrow> 'q \<Rightarrow> 'a qop list \<Rightarrow> 'a list \<times> 'q" where
  "fifo_run enq deq q [] = ([], q)"
| "fifo_run enq deq q (Enq x # ops) = fifo_run enq deq (enq q x) ops"
| "fifo_run enq deq q (Deq # ops) =
     (case deq q of (r, q') \<Rightarrow>
        (case fifo_run enq deq q' ops of (out, q'') \<Rightarrow>
          ((case r of None \<Rightarrow> out | Some x \<Rightarrow> x # out), q'')))"

fun fifo_adm :: "('q \<Rightarrow> 'a \<Rightarrow> bool) \<Rightarrow> ('q \<Rightarrow> 'a \<Rightarrow> 'q) \<Rightarrow> ('q \<Rightarrow> 'a option \<times> 'q) \<Rightarrow> 'q \<Rightarrow> 'a qop list \<Rightarrow> bool" where
  "fifo_adm adm enq deq q [] = True"
| "fifo_adm adm enq deq q (Enq x # ops) = (adm q x \<and> fifo_adm adm enq deq (enq q x) ops)"
| "fifo_adm adm enq deq q (Deq # ops) = fifo_adm adm enq deq (snd (deq q)) ops"

fun enqueued :: "'a qop list \<Rightarrow> 'a list" where
  "enqueued [] = []"
| "enqueued (Enq x # ops) = x # enqueued ops"
| "enqueued (Deq # ops) = enqueued ops"

locale fifo =
  fixes enq :: "'q \<Rightarrow> 'a \<Rightarrow> 'q"
    and deq :: "'q \<Rightarrow> 'a option \<times> 'q"
    and content :: "'q \<Rightarrow> 'a list"
    and inv :: "'q \<Rightarrow> bool"
    and adm :: "'q \<Rightarrow> 'a \<Rightarrow> bool"
  assumes enq_inv: "inv q \<Longrightarrow> adm q x \<Longrightarrow> inv (enq q x)"
    and enq_content: "inv q \<Longrightarrow> adm q x \<Longrightarrow> content (enq q x) = content q @ [x]"
    and deq_inv: "inv q \<Longrightarrow> inv (snd (deq q))"
    and deq_empty: "inv q \<Longrightarrow> content q = [] \<Longrightarrow> fst (deq q) = None \<and> content (snd (deq q)) = []"
    and deq_cons: "inv q \<Longrightarrow> content q = x # xs \<Longrightarrow> fst (deq q) = Some x \<and> content (snd (deq q)) = xs"
begin

lemma deq_returns: "inv q \<Longrightarrow> fst (deq q) = None \<longleftrightarrow> content q = []"
  using deq_empty [of q] deq_cons [of q] by (cases "content q") auto

lemma run_preserves:
  "inv q \<Longrightarrow> fifo_adm adm enq deq q ops \<Longrightarrow> inv (snd (fifo_run enq deq q ops))"
proof (induction ops arbitrary: q rule: enqueued.induct)
  case 1
  then show ?case by simp
next
  case (2 x ops)
  then show ?case by (simp add: enq_inv)
next
  case (3 ops)
  then show ?case
    using deq_inv [of q] by (simp add: case_prod_beta)
qed

text \<open>What came out, followed by what is left, is what was there, followed by what went in.\<close>

lemma run_order:
  "inv q \<Longrightarrow> fifo_adm adm enq deq q ops \<Longrightarrow>
   fst (fifo_run enq deq q ops) @ content (snd (fifo_run enq deq q ops)) = content q @ enqueued ops"
proof (induction ops arbitrary: q rule: enqueued.induct)
  case 1
  then show ?case by simp
next
  case (2 x ops)
  then show ?case by (simp add: enq_inv enq_content)
next
  case (3 ops)
  obtain r q' where d: "deq q = (r, q')"
    by fastforce
  have inv': "inv q'"
    using deq_inv [OF 3(2)] d by simp
  have adm': "fifo_adm adm enq deq q' ops"
    using 3(3) d by simp
  have IH: "fst (fifo_run enq deq q' ops) @ content (snd (fifo_run enq deq q' ops)) = content q' @ enqueued ops"
    using 3(1) [OF inv' adm'] .
  show ?case
  proof (cases "content q")
    case Nil
    then have "r = None \<and> content q' = []"
      using deq_empty [OF 3(2)] d by simp
    then show ?thesis
      using IH Nil d by (simp add: case_prod_beta)
  next
    case (Cons x xs)
    then have "r = Some x \<and> content q' = xs"
      using deq_cons [OF 3(2)] d by simp
    then show ?thesis
      using IH Cons d by (simp add: case_prod_beta)
  qed
qed

end

section \<open>Ring buffers\<close>

text \<open>
  \<open>ring_list buf h t\<close>: the slots from \<open>h\<close> up to, not including, \<open>t\<close>, wrapping at the end of the
  array. \<open>ring_next cap i\<close> is the index after \<open>i\<close>.
\<close>

definition ring_list :: "'a list \<Rightarrow> nat \<Rightarrow> nat \<Rightarrow> 'a list" where
  "ring_list buf h t = (if h \<le> t then take (t - h) (drop h buf) else drop h buf @ take t buf)"

definition ring_next :: "nat \<Rightarrow> nat \<Rightarrow> nat" where
  "ring_next cap i = (if cap \<le> Suc i then 0 else Suc i)"

text \<open>The array seen from \<open>h\<close> on, as an expansion copies it.\<close>

definition ring_unroll :: "'a list \<Rightarrow> nat \<Rightarrow> 'a list" where
  "ring_unroll buf h = map (\<lambda>i. buf ! ((h + i) mod length buf)) [0..<length buf]"

lemma ring_next_less: "i < cap \<Longrightarrow> ring_next cap i < cap"
  by (simp add: ring_next_def)

lemma ring_list_empty [simp]: "ring_list buf h h = []"
  by (simp add: ring_list_def)

lemma length_ring_list:
  "h < length buf \<Longrightarrow> t < length buf \<Longrightarrow>
   length (ring_list buf h t) = (if h \<le> t then t - h else t + length buf - h)"
  by (auto simp: ring_list_def)

lemma ring_list_Nil_iff:
  "h < length buf \<Longrightarrow> t < length buf \<Longrightarrow> ring_list buf h t = [] \<longleftrightarrow> h = t"
  by (auto simp: ring_list_def)

lemma set_ring_list: "set (ring_list buf h t) \<subseteq> set buf"
  by (auto simp: ring_list_def dest: in_set_takeD in_set_dropD)

lemma ring_list_pop:
  assumes "h < length buf" "t < length buf" "h \<noteq> t"
  shows "ring_list buf h t = buf ! h # ring_list buf (ring_next (length buf) h) t"
proof (cases "h < t")
  case True
  then show ?thesis
    using assms
    by (auto simp: ring_list_def ring_next_def Cons_nth_drop_Suc [symmetric] take_Cons' Suc_diff_le)
next
  case False
  have "drop h buf = buf ! h # drop (Suc h) buf"
    using assms by (simp add: Cons_nth_drop_Suc)
  then show ?thesis
    using False assms by (auto simp: ring_list_def ring_next_def)
qed

lemma ring_list_push:
  assumes "h < length buf" "t < length buf" "ring_next (length buf) t \<noteq> h"
  shows "ring_list (buf[t := x]) h (ring_next (length buf) t) = ring_list buf h t @ [x]"
proof (cases "h \<le> t")
  case True
  have seg: "take (Suc t - h) (drop h (buf[t := x])) = take (t - h) (drop h buf) @ [x]"
    using True assms by (simp add: Suc_diff_le take_Suc_conv_app_nth drop_update_swap)
  show ?thesis
  proof (cases "Suc t < length buf")
    case True
    then show ?thesis
      using seg \<open>h \<le> t\<close> by (simp add: ring_list_def ring_next_def)
  next
    case False
    then have "drop h (buf[t := x]) = take (Suc t - h) (drop h (buf[t := x]))"
      using assms by simp
    then show ?thesis
      using False seg \<open>h \<le> t\<close> assms by (auto simp: ring_list_def ring_next_def)
  qed
next
  case False
  then show ?thesis
    using assms by (auto simp: ring_list_def ring_next_def take_Suc_conv_app_nth split: if_splits)
qed

lemma ring_unroll_rotate: "h < length buf \<Longrightarrow> ring_unroll buf h = drop h buf @ take h buf"
proof (rule nth_equalityI)
  assume "h < length buf"
  then show "length (ring_unroll buf h) = length (drop h buf @ take h buf)"
    by (simp add: ring_unroll_def)
next
  fix i
  assume h: "h < length buf" and i: "i < length (ring_unroll buf h)"
  have "ring_unroll buf h ! i = buf ! ((h + i) mod length buf)"
    using i by (simp add: ring_unroll_def)
  then show "ring_unroll buf h ! i = (drop h buf @ take h buf) ! i"
    using h i by (auto simp: nth_append mod_if ring_unroll_def add.commute)
qed

lemma length_ring_unroll [simp]: "length (ring_unroll buf h) = length buf"
  by (simp add: ring_unroll_def)

text \<open>A push that fills the ring: the unrolled array is the old content with the new element.\<close>

lemma ring_list_push_full:
  assumes "h < length buf" "t < length buf" "ring_next (length buf) t = h"
  shows "ring_unroll (buf[t := x]) h = ring_list buf h t @ [x]"
proof (cases "Suc t < length buf")
  case True
  then have h: "h = Suc t"
    using assms by (simp add: ring_next_def)
  have "take (Suc t) (buf[t := x]) = take t buf @ [x]"
    using assms by (simp add: take_Suc_conv_app_nth)
  moreover have "drop (Suc t) (buf[t := x]) = drop (Suc t) buf"
    by simp
  ultimately show ?thesis
    using assms h by (simp add: ring_unroll_rotate ring_list_def)
next
  case False
  then have h: "h = 0" and t: "Suc t = length buf"
    using assms by (simp_all add: ring_next_def)
  have "buf[t := x] = take t buf @ x # drop (Suc t) buf"
    using t by (intro upd_conv_take_nth_drop) simp
  then have "buf[t := x] = take t buf @ [x]"
    using t by simp
  then show ?thesis
    using assms h t by (simp add: ring_unroll_rotate ring_list_def)
qed

text \<open>The content of a ring laid out from index 0, with room left behind it.\<close>

lemma ring_list_fresh: "n \<le> length xs \<Longrightarrow> ring_list (xs @ ys) 0 n = take n xs"
  by (simp add: ring_list_def)

end
