(* ===== verification/SocketMessage.thy ===== *)
theory SocketMessage
  imports Prelude
begin

text \<open>
  \<open>skynet_socket.h\<close>: what a service gets when something happens to one of its sockets. The string of a message without a
  buffer follows the message in memory (the padding).
\<close>

datatype socket_type = T_Data | T_Connect | T_Close | T_Accept | T_Error | T_Udp | T_Warning

record socket_message =
  sm_type :: socket_type
  sm_id :: u32
  sm_ud :: u32
  sm_buffer :: "bytes option"
  sm_padding :: string

definition SIZEOF_SOCKET_MESSAGE :: nat where
  "SIZEOF_SOCKET_MESSAGE = 24"

end
