(* ===== verification/MessageQueue.thy ===== *)
theory MessageQueue
  imports Fifo SocketMessage "HOL-Library.While_Combinator"
begin

text \<open>
  \<open>skynet-src/skynet_mq.c\<close>: the message ring of a service and the global list of rings that
  have something to do. A ring lives in a store of \<open>message_queue\<close> records indexed by address,
  because the global list is threaded through the rings' own \<open>next\<close> fields: pushing a ring
  changes the ring at the tail. Every function of the file runs under a lock from its first to its
  last access, so each is one step of the model. Array cells that \<open>malloc\<close> left
  uninitialised are \<open>None\<close>.

  The integer fields are natural numbers: \<open>cap\<close> doubles only when the ring is full, so it
  stays below \<open>2 ^ 31\<close> unless a single ring holds \<open>2 ^ 30\<close> messages (24 bytes each).
\<close>

section \<open>Data\<close>

text \<open>
  What \<open>void * data\<close> points to: bytes, the \<open>struct remote_message\<close> that the node hands to the
  harbor service (its destination name and handle, the message and its size), or the \<open>struct skynet_socket_message\<close> of the
  socket thread.
\<close>

datatype payload = Raw bytes | Remote string u32 "payload option" u64 | Sock socket_message

record skynet_message =
  msg_source :: u32
  msg_session :: int
  msg_data :: "payload option"
  msg_sz :: u64

record message_queue =
  mq_handle :: u32
  mq_cap :: nat
  mq_head :: nat
  mq_tail :: nat
  mq_release :: nat
  mq_in_global :: nat
  mq_overload :: nat
  mq_overload_threshold :: nat
  mq_queue :: "skynet_message option list"
  mq_next :: "addr option"

record mq_world =
  Q_head :: "addr option"
  Q_tail :: "addr option"
  mqs :: "addr \<Rightarrow> message_queue option"

definition DEFAULT_QUEUE_SIZE :: nat where "DEFAULT_QUEUE_SIZE = 64"
definition MQ_IN_GLOBAL :: nat where "MQ_IN_GLOBAL = 1"
definition MQ_OVERLOAD :: nat where "MQ_OVERLOAD = 1024"

definition mq_store :: "mq_world \<Rightarrow> addr \<Rightarrow> message_queue \<Rightarrow> mq_world" where
  "mq_store w a q = w\<lparr>mqs := (mqs w)(a \<mapsto> q)\<rparr>"

lemma mq_store_simps [simp]:
  "Q_head (mq_store w a q) = Q_head w"
  "Q_tail (mq_store w a q) = Q_tail w"
  "mqs (mq_store w a q) = (mqs w)(a \<mapsto> q)"
  by (simp_all add: mq_store_def)

section \<open>The global list\<close>

definition skynet_globalmq_push :: "mq_world \<Rightarrow> addr \<Rightarrow> mq_world res" where
  "skynet_globalmq_push w a =
     res_bind (deref (mqs w) a) (\<lambda>q.
       if mq_next q \<noteq> None then Inl Assert_Failed
       else case Q_tail w of
              Some t \<Rightarrow> res_bind (deref (mqs w) t) (\<lambda>tq.
                Inr ((mq_store w t (tq\<lparr>mq_next := Some a\<rparr>))\<lparr>Q_tail := Some a\<rparr>))
            | None \<Rightarrow> Inr (w\<lparr>Q_head := Some a, Q_tail := Some a\<rparr>))"

definition skynet_globalmq_pop :: "mq_world \<Rightarrow> (addr option \<times> mq_world) res" where
  "skynet_globalmq_pop w =
     (case Q_head w of
        None \<Rightarrow> Inr (None, w)
      | Some a \<Rightarrow> res_bind (deref (mqs w) a) (\<lambda>q.
          let w1 = w\<lparr>Q_head := mq_next q\<rparr> in
          if mq_next q = None then
            (if Q_tail w = Some a
             then Inr (Some a, mq_store (w1\<lparr>Q_tail := None\<rparr>) a (q\<lparr>mq_next := None\<rparr>))
             else Inl Assert_Failed)
          else Inr (Some a, mq_store w1 a (q\<lparr>mq_next := None\<rparr>))))"

section \<open>One ring\<close>

definition skynet_mq_create :: "mq_world \<Rightarrow> addr \<Rightarrow> u32 \<Rightarrow> mq_world" where
  "skynet_mq_create w a handle = mq_store w a
     \<lparr>mq_handle = handle, mq_cap = DEFAULT_QUEUE_SIZE, mq_head = 0, mq_tail = 0, mq_release = 0,
      mq_in_global = MQ_IN_GLOBAL, mq_overload = 0, mq_overload_threshold = MQ_OVERLOAD,
      mq_queue = replicate DEFAULT_QUEUE_SIZE None, mq_next = None\<rparr>"

definition mq_free :: "mq_world \<Rightarrow> addr \<Rightarrow> mq_world res" where
  "mq_free w a = res_bind (deref (mqs w) a) (\<lambda>q.
     if mq_next q \<noteq> None then Inl Assert_Failed else Inr (w\<lparr>mqs := (mqs w)(a := None)\<rparr>))"

definition skynet_mq_handle :: "message_queue \<Rightarrow> u32" where
  "skynet_mq_handle q = mq_handle q"

definition skynet_mq_length :: "message_queue \<Rightarrow> nat" where
  "skynet_mq_length q =
     (if mq_head q \<le> mq_tail q then mq_tail q - mq_head q
      else mq_tail q + mq_cap q - mq_head q)"

definition skynet_mq_overload :: "message_queue \<Rightarrow> nat \<times> message_queue" where
  "skynet_mq_overload q =
     (if mq_overload q \<noteq> 0 then (mq_overload q, q\<lparr>mq_overload := 0\<rparr>) else (0, q))"

text \<open>The loop of \<open>skynet_mq_pop\<close> on \<open>overload\<close> and \<open>overload_threshold\<close>.\<close>

definition overload_scan :: "nat \<Rightarrow> nat \<times> nat \<Rightarrow> nat \<times> nat" where
  "overload_scan len = while (\<lambda>(ov, th). len > th) (\<lambda>(ov, th). (len, th * 2))"

definition skynet_mq_pop :: "message_queue \<Rightarrow> nat \<times> skynet_message option \<times> message_queue" where
  "skynet_mq_pop q =
     (if mq_head q \<noteq> mq_tail q then
        (let message = mq_queue q ! mq_head q;
             head = mq_head q + 1;
             tail = mq_tail q;
             cap = mq_cap q;
             head = (if head \<ge> cap then 0 else head);
             len = int tail - int head;
             len = (if len < 0 then len + int cap else len);
             ovth = overload_scan (nat len) (mq_overload q, mq_overload_threshold q)
         in (0, message, q\<lparr>mq_head := head, mq_overload := fst ovth,
                           mq_overload_threshold := snd ovth\<rparr>))
      else (1, None, q\<lparr>mq_overload_threshold := MQ_OVERLOAD, mq_in_global := 0\<rparr>))"

definition expand_queue :: "message_queue \<Rightarrow> message_queue" where
  "expand_queue q = q\<lparr>
     mq_queue := map (\<lambda>i. mq_queue q ! ((mq_head q + i) mod mq_cap q)) [0..<mq_cap q]
                 @ replicate (mq_cap q) None,
     mq_head := 0, mq_tail := mq_cap q, mq_cap := mq_cap q * 2\<rparr>"

text \<open>\<open>mq_put\<close>: the part of \<open>skynet_mq_push\<close> that stores the message in the ring.\<close>

definition mq_put :: "message_queue \<Rightarrow> skynet_message \<Rightarrow> message_queue" where
  "mq_put q m =
     (let q1 = q\<lparr>mq_queue := (mq_queue q)[mq_tail q := Some m], mq_tail := mq_tail q + 1\<rparr>;
          q2 = (if mq_tail q1 \<ge> mq_cap q1 then q1\<lparr>mq_tail := 0\<rparr> else q1)
      in if mq_head q2 = mq_tail q2 then expand_queue q2 else q2)"

definition skynet_mq_push :: "mq_world \<Rightarrow> addr \<Rightarrow> skynet_message \<Rightarrow> mq_world res" where
  "skynet_mq_push w a m = res_bind (deref (mqs w) a) (\<lambda>q.
     let q' = mq_put q m in
     if mq_in_global q' = 0
     then skynet_globalmq_push (mq_store w a (q'\<lparr>mq_in_global := MQ_IN_GLOBAL\<rparr>)) a
     else Inr (mq_store w a q'))"

definition skynet_mq_init :: mq_world where
  "skynet_mq_init = \<lparr>Q_head = None, Q_tail = None, mqs = (\<lambda>_. None)\<rparr>"

definition skynet_mq_mark_release :: "mq_world \<Rightarrow> addr \<Rightarrow> mq_world res" where
  "skynet_mq_mark_release w a = res_bind (deref (mqs w) a) (\<lambda>q.
     if mq_release q \<noteq> 0 then Inl Assert_Failed
     else let w' = mq_store w a (q\<lparr>mq_release := 1\<rparr>) in
          if mq_in_global q \<noteq> MQ_IN_GLOBAL then skynet_globalmq_push w' a else Inr w')"

text \<open>
  \<open>_drop_queue\<close> pops until the ring is empty and calls \<open>drop_func\<close> on each message.
  \<open>drop_func\<close> sends messages, so it changes the whole state \<open>'s\<close> the rings are part of
  (\<open>getw\<close>, \<open>putw\<close>). Whether the loop ends depends on \<open>drop_func\<close>: \<open>None\<close> is a loop that
  does not.
\<close>

partial_function (option) drop_loop ::
  "('s \<Rightarrow> mq_world) \<Rightarrow> (mq_world \<Rightarrow> 's \<Rightarrow> 's) \<Rightarrow> (skynet_message \<Rightarrow> 's \<Rightarrow> 's res) \<Rightarrow> addr \<Rightarrow> 's
   \<Rightarrow> 's res option" where
  "drop_loop getw putw drop_func a s =
     (case mqs (getw s) a of
        None \<Rightarrow> Some (Inl Bad_Pointer)
      | Some q \<Rightarrow>
          (case skynet_mq_pop q of (ret, m, q') \<Rightarrow>
             let s' = putw (mq_store (getw s) a q') s in
             if ret \<noteq> 0 then Some (Inr s')
             else (case m of
                    None \<Rightarrow> Some (Inl Uninit_Read)
                  | Some msg \<Rightarrow>
                      (case drop_func msg s' of
                         Inl e \<Rightarrow> Some (Inl e)
                       | Inr s'' \<Rightarrow> drop_loop getw putw drop_func a s''))))"

definition drop_queue ::
  "('s \<Rightarrow> mq_world) \<Rightarrow> (mq_world \<Rightarrow> 's \<Rightarrow> 's) \<Rightarrow> (skynet_message \<Rightarrow> 's \<Rightarrow> 's res) \<Rightarrow> addr \<Rightarrow> 's
   \<Rightarrow> 's res option" where
  "drop_queue getw putw drop_func a s =
     map_option (\<lambda>r. res_bind r (\<lambda>s'. res_bind (mq_free (getw s') a) (\<lambda>w. Inr (putw w s'))))
       (drop_loop getw putw drop_func a s)"

definition skynet_mq_release ::
  "('s \<Rightarrow> mq_world) \<Rightarrow> (mq_world \<Rightarrow> 's \<Rightarrow> 's) \<Rightarrow> (skynet_message \<Rightarrow> 's \<Rightarrow> 's res) \<Rightarrow> addr \<Rightarrow> 's
   \<Rightarrow> 's res option" where
  "skynet_mq_release getw putw drop_func a s =
     (case mqs (getw s) a of
        None \<Rightarrow> Some (Inl Bad_Pointer)
      | Some q \<Rightarrow>
          if mq_release q \<noteq> 0 then drop_queue getw putw drop_func a s
          else Some (res_bind (skynet_globalmq_push (getw s) a) (\<lambda>w. Inr (putw w s))))"

section \<open>The ring is a FIFO queue\<close>

definition mq_inv :: "message_queue \<Rightarrow> bool" where
  "mq_inv q \<longleftrightarrow>
     length (mq_queue q) = mq_cap q \<and> mq_head q < mq_cap q \<and> mq_tail q < mq_cap q \<and>
     0 < mq_overload_threshold q \<and>
     (\<forall>m \<in> set (ring_list (mq_queue q) (mq_head q) (mq_tail q)). m \<noteq> None)"

definition mq_content :: "message_queue \<Rightarrow> skynet_message list" where
  "mq_content q = map the (ring_list (mq_queue q) (mq_head q) (mq_tail q))"

declare mq_inv_def [skynet_invs]

lemma mq_length_content: "mq_inv q \<Longrightarrow> skynet_mq_length q = length (mq_content q)"
  by (auto simp: mq_inv_def mq_content_def skynet_mq_length_def length_ring_list)

lemma mq_content_Nil_iff: "mq_inv q \<Longrightarrow> mq_content q = [] \<longleftrightarrow> mq_head q = mq_tail q"
  by (simp add: mq_inv_def mq_content_def ring_list_Nil_iff)

lemma mq_content_some:
  "mq_inv q \<Longrightarrow> ring_list (mq_queue q) (mq_head q) (mq_tail q) = map Some (mq_content q)"
  unfolding mq_inv_def mq_content_def by (rule list_all_nth_Some [symmetric]) blast

lemma mq_content_frame [simp]:
  "mq_content (q\<lparr>mq_overload_threshold := th\<rparr>) = mq_content q"
  "mq_content (q\<lparr>mq_in_global := g\<rparr>) = mq_content q"
  "mq_content (q\<lparr>mq_release := r\<rparr>) = mq_content q"
  "mq_content (q\<lparr>mq_next := n\<rparr>) = mq_content q"
  "mq_content (q\<lparr>mq_overload := ov\<rparr>) = mq_content q"
  by (simp_all add: mq_content_def)

lemma mq_inv_frame [simp]:
  "mq_inv (q\<lparr>mq_in_global := g\<rparr>) = mq_inv q"
  "mq_inv (q\<lparr>mq_release := r\<rparr>) = mq_inv q"
  "mq_inv (q\<lparr>mq_next := n\<rparr>) = mq_inv q"
  "mq_inv (q\<lparr>mq_overload := ov\<rparr>) = mq_inv q"
  by (simp_all add: mq_inv_def)

lemma mq_inv_threshold: "mq_inv q \<Longrightarrow> mq_inv (q\<lparr>mq_overload_threshold := MQ_OVERLOAD\<rparr>)"
  by (simp add: mq_inv_def MQ_OVERLOAD_def)

text \<open>The overload loop ends because the threshold is positive, and only ever raises it.\<close>

lemma overload_scan_spec:
  assumes "0 < th" "overload_scan len (ov, th) = (ov', th')"
  shows "len \<le> th' \<and> 0 < th' \<and> th \<le> th' \<and> ov' = (if th < len then len else ov)"
proof -
  let ?P = "\<lambda>(o1, t1). th \<le> t1 \<and> (o1, t1) = ((if t1 = th then ov else len), t1) \<and> (t1 = th \<or> th < len)"
  have "case overload_scan len (ov, th) of (o1, t1) \<Rightarrow>
          len \<le> t1 \<and> th \<le> t1 \<and> o1 = (if t1 = th then ov else len) \<and> (t1 = th \<or> th < len)"
    unfolding overload_scan_def
    by (rule while_rule [where P = ?P and r = "measure (\<lambda>(o1, t1). len - t1)"])
      (use assms(1) in auto)
  then show ?thesis
    using assms by (auto split: if_splits)
qed

lemma overload_scan_returns:
  "0 < th \<Longrightarrow> \<exists>r. while_option (\<lambda>(ov :: nat, th :: nat). len > th) (\<lambda>(ov, th). (len, th * 2)) (ov, th) = Some r"
  by (rule measure_while_option_Some [where P = "\<lambda>(ov :: nat, th :: nat). 0 < th"
        and b = "\<lambda>(ov, th). len > th" and c = "\<lambda>(ov, th). (len, th * 2)"
        and f = "\<lambda>(ov, th). len - th" and s = "(ov, th)"]) auto

lemma mq_pop_head: "mq_head q < mq_cap q \<Longrightarrow>
    (if mq_head q + 1 \<ge> mq_cap q then 0 else mq_head q + 1) = ring_next (mq_cap q) (mq_head q)"
  by (simp add: ring_next_def)

lemma mq_pop_cons:
  assumes "mq_inv q" "mq_content q = m # ms"
  obtains q' where "skynet_mq_pop q = (0, Some m, q')" "mq_inv q'" "mq_content q' = ms"
    "mq_in_global q' = mq_in_global q" "mq_next q' = mq_next q" "mq_handle q' = mq_handle q"
    "mq_release q' = mq_release q"
proof -
  let ?buf = "mq_queue q" and ?h = "mq_head q" and ?t = "mq_tail q"
  let ?h' = "ring_next (mq_cap q) ?h"
  have inv: "length ?buf = mq_cap q" "?h < mq_cap q" "?t < mq_cap q" "0 < mq_overload_threshold q"
    using assms(1) by (simp_all add: mq_inv_def)
  have ne: "?h \<noteq> ?t"
    using assms mq_content_Nil_iff by fastforce
  have ring: "ring_list ?buf ?h ?t = ?buf ! ?h # ring_list ?buf ?h' ?t"
    using ring_list_pop [of ?h ?buf ?t] inv ne by simp
  have split: "?buf ! ?h = Some m" "ring_list ?buf ?h' ?t = map Some ms"
    using ring mq_content_some [OF assms(1)] assms(2) by simp_all
  define len where "len = (let l = int ?t - int ?h' in if l < 0 then l + int (mq_cap q) else l)"
  obtain ov th where scan: "overload_scan (nat len) (mq_overload q, mq_overload_threshold q) = (ov, th)"
    by fastforce
  have th: "0 < th"
    using overload_scan_spec [OF inv(4) scan] by simp
  define q' where "q' = q\<lparr>mq_head := ?h', mq_overload := ov, mq_overload_threshold := th\<rparr>"
  have pop: "skynet_mq_pop q = (0, Some m, q')"
    using ne scan split(1) inv(2)
    by (simp add: skynet_mq_pop_def q'_def len_def Let_def ring_next_def)
  have inv': "mq_inv q'"
    using inv th split(2) ring_next_less [OF inv(2)] by (auto simp: mq_inv_def q'_def)
  have content': "mq_content q' = ms"
    by (simp add: mq_content_def q'_def split(2))
  show ?thesis
    by (rule that [OF pop inv' content']) (simp_all add: q'_def)
qed

lemma mq_pop_nil:
  assumes "mq_inv q" "mq_content q = []"
  shows "skynet_mq_pop q = (1, None, q\<lparr>mq_overload_threshold := MQ_OVERLOAD, mq_in_global := 0\<rparr>)"
  using assms mq_content_Nil_iff by (simp add: skynet_mq_pop_def)

lemma mq_put_frame [simp]:
  "mq_in_global (mq_put q m) = mq_in_global q" "mq_next (mq_put q m) = mq_next q"
  "mq_handle (mq_put q m) = mq_handle q" "mq_release (mq_put q m) = mq_release q"
  by (simp_all add: mq_put_def Let_def expand_queue_def)

lemma mq_put_correct:
  assumes "mq_inv q"
  shows "mq_inv (mq_put q m)" "mq_content (mq_put q m) = mq_content q @ [m]"
proof -
  let ?buf = "mq_queue q" and ?h = "mq_head q" and ?t = "mq_tail q"
  let ?t' = "ring_next (mq_cap q) ?t" and ?buf' = "(mq_queue q)[mq_tail q := Some m]"
  have inv: "length ?buf = mq_cap q" "?h < mq_cap q" "?t < mq_cap q" "0 < mq_overload_threshold q"
    using assms by (simp_all add: mq_inv_def)
  define q2 where "q2 = q\<lparr>mq_queue := ?buf', mq_tail := ?t'\<rparr>"
  have put: "mq_put q m = (if ?h = ?t' then expand_queue q2 else q2)"
    by (simp add: mq_put_def q2_def ring_next_def Let_def)
  have some: "ring_list ?buf ?h ?t @ [Some m] = map Some (mq_content q @ [m])"
    using mq_content_some [OF assms] by simp
  have "mq_inv (mq_put q m) \<and> mq_content (mq_put q m) = mq_content q @ [m]"
  proof (cases "?h = ?t'")
    case True
    have full: "ring_unroll ?buf' ?h = map Some (mq_content q @ [m])"
      using ring_list_push_full [of ?h ?buf ?t "Some m"] inv True some by simp
    have len: "length (mq_content q @ [m]) = mq_cap q"
      using full inv by (metis length_list_update length_map length_ring_unroll)
    have eq: "map (\<lambda>i. ?buf' ! ((?h + i) mod mq_cap q)) [0..<mq_cap q] = ring_unroll ?buf' ?h"
      using inv by (simp add: ring_unroll_def)
    have ex: "expand_queue q2 =
        q\<lparr>mq_queue := map Some (mq_content q @ [m]) @ replicate (mq_cap q) None,
          mq_head := 0, mq_tail := mq_cap q, mq_cap := mq_cap q * 2\<rparr>"
      using eq full by (simp add: expand_queue_def q2_def)
    have "ring_list (map Some (mq_content q @ [m]) @ replicate (mq_cap q) None) 0 (mq_cap q)
        = map Some (mq_content q @ [m])"
      using len by (simp add: ring_list_fresh del: map_append)
    then show ?thesis
      using put ex True inv len by (auto simp: mq_inv_def mq_content_def)
  next
    case False
    have ring: "ring_list ?buf' ?h ?t' = map Some (mq_content q @ [m])"
      using ring_list_push [of ?h ?buf ?t "Some m"] inv False some by simp
    show ?thesis
      using put False inv ring ring_next_less [OF inv(3)]
      by (auto simp: mq_inv_def mq_content_def q2_def simp del: map_append)
  qed
  then show "mq_inv (mq_put q m)" "mq_content (mq_put q m) = mq_content q @ [m]"
    by simp_all
qed

definition mq_fresh :: "u32 \<Rightarrow> message_queue" where
  "mq_fresh handle = the (mqs (skynet_mq_create skynet_mq_init 0 handle) 0)"

lemma mq_create_eq: "skynet_mq_create w a handle = mq_store w a (mq_fresh handle)"
  by (simp add: mq_fresh_def skynet_mq_create_def)

lemma mq_fresh_inv [simp]: "mq_inv (mq_fresh h)" "mq_content (mq_fresh h) = []"
  "mq_in_global (mq_fresh h) = MQ_IN_GLOBAL" "mq_next (mq_fresh h) = None" "mq_handle (mq_fresh h) = h"
  "mq_release (mq_fresh h) = 0"
  by (simp_all add: mq_fresh_def skynet_mq_create_def mq_inv_def mq_content_def
      DEFAULT_QUEUE_SIZE_def MQ_OVERLOAD_def)

definition mq_pop_msg :: "message_queue \<Rightarrow> skynet_message option \<times> message_queue" where
  "mq_pop_msg q = (case skynet_mq_pop q of (ret, m, q') \<Rightarrow> (if ret = 0 then m else None, q'))"

interpretation ring: fifo mq_put mq_pop_msg mq_content mq_inv "\<lambda>_ _. True"
proof unfold_locales
  fix q :: message_queue and x :: skynet_message
  assume "mq_inv q"
  then show "mq_inv (mq_put q x)" "mq_content (mq_put q x) = mq_content q @ [x]"
    by (simp_all add: mq_put_correct)
next
  fix q :: message_queue
  assume inv: "mq_inv q"
  show "mq_inv (snd (mq_pop_msg q))"
  proof (cases "mq_content q")
    case Nil
    then show ?thesis
      using mq_pop_nil [OF inv Nil] mq_inv_threshold [OF inv] by (simp add: mq_pop_msg_def)
  next
    case (Cons m ms)
    obtain q' where "skynet_mq_pop q = (0, Some m, q')" "mq_inv q'"
      using mq_pop_cons [OF inv Cons] by metis
    then show ?thesis
      by (simp add: mq_pop_msg_def)
  qed
next
  fix q :: message_queue
  assume inv: "mq_inv q" and nil: "mq_content q = []"
  show "fst (mq_pop_msg q) = None \<and> mq_content (snd (mq_pop_msg q)) = []"
    using mq_pop_nil [OF inv nil] nil by (simp add: mq_pop_msg_def)
next
  fix q :: message_queue and x xs
  assume inv: "mq_inv q" and cons: "mq_content q = x # xs"
  obtain q' where "skynet_mq_pop q = (0, Some x, q')" "mq_content q' = xs"
    using mq_pop_cons [OF inv cons] by metis
  then show "fst (mq_pop_msg q) = Some x \<and> mq_content (snd (mq_pop_msg q)) = xs"
    by (simp add: mq_pop_msg_def)
qed

section \<open>Properties\<close>

lemma fifo_adm_True [simp]: "fifo_adm (\<lambda>_ _. True) enq deq q ops"
  by (induction ops arbitrary: q rule: enqueued.induct) simp_all

text \<open>C7: a service receives its messages in the order they were pushed, none lost, duplicated
  or invented: for every interleaving of pushes and pops on a new ring, what was popped followed by
  what the ring still holds is what was pushed. The ring wraps and doubles on the way.\<close>

theorem skynet_mq_order:
  "case fifo_run mq_put mq_pop_msg (mq_fresh handle) ops of (out, q) \<Rightarrow>
     out @ mq_content q = enqueued ops \<and> skynet_mq_length q = length (mq_content q) \<and>
     (fst (skynet_mq_pop q) = 1 \<longleftrightarrow> mq_content q = [])"
proof -
  let ?r = "fifo_run mq_put mq_pop_msg (mq_fresh handle) ops"
  have inv: "mq_inv (snd ?r)"
    by (rule ring.run_preserves) simp_all
  have "fst ?r @ mq_content (snd ?r) = enqueued ops"
    using ring.run_order [of "mq_fresh handle" ops] by simp
  moreover have "fst (skynet_mq_pop (snd ?r)) = 1 \<longleftrightarrow> mq_content (snd ?r) = []"
    using mq_content_Nil_iff [OF inv] by (simp add: skynet_mq_pop_def Let_def)
  ultimately show ?thesis
    using mq_length_content [OF inv] by (simp add: case_prod_beta)
qed

text \<open>\<open>skynet_mq_pop\<close> always returns (its overload loop ends) and reports an overload
  exactly when the messages left exceed the threshold; the threshold is then doubled until it
  covers them, and an empty pop resets it and takes the ring out of the global list.\<close>

theorem skynet_mq_pop_overload:
  assumes "mq_inv q" "skynet_mq_pop q = (ret, m, q')"
  shows "mq_inv q' \<and>
    (ret = 0 \<longrightarrow> m \<noteq> None \<and> skynet_mq_length q' + 1 = skynet_mq_length q \<and>
       skynet_mq_length q' \<le> mq_overload_threshold q' \<and>
       mq_overload q' = (if mq_overload_threshold q < skynet_mq_length q' then skynet_mq_length q' else mq_overload q)) \<and>
    (ret \<noteq> 0 \<longrightarrow> m = None \<and> skynet_mq_length q = 0 \<and> mq_overload_threshold q' = 1024 \<and> mq_in_global q' = 0)"
proof (cases "mq_content q")
  case Nil
  then show ?thesis
    using assms mq_pop_nil [OF assms(1) Nil] mq_inv_threshold [OF assms(1)] mq_length_content [OF assms(1)]
    by (auto simp: MQ_OVERLOAD_def)
next
  case (Cons x xs)
  obtain q'' where q'': "skynet_mq_pop q = (0, Some x, q'')" "mq_inv q''" "mq_content q'' = xs"
    using mq_pop_cons [OF assms(1) Cons] by metis
  have ne: "mq_head q \<noteq> mq_tail q" and th: "0 < mq_overload_threshold q"
    using Cons mq_content_Nil_iff [OF assms(1)] assms(1) by (auto simp: mq_inv_def)
  have eq: "q' = q''" "ret = 0" "m = Some x"
    using assms(2) q''(1) by simp_all
  let ?h' = "ring_next (mq_cap q) (mq_head q)"
  define len where "len = (let l = int (mq_tail q) - int ?h' in if l < 0 then l + int (mq_cap q) else l)"
  obtain ov t where scan: "overload_scan (nat len) (mq_overload q, mq_overload_threshold q) = (ov, t)"
    by fastforce
  define q1 where "q1 = q\<lparr>mq_head := ?h', mq_overload := ov, mq_overload_threshold := t\<rparr>"
  have "\<exists>m1. skynet_mq_pop q = (0, m1, q1)"
    using ne scan assms(1)
    by (simp add: skynet_mq_pop_def q1_def len_def Let_def ring_next_def mq_inv_def)
  then have q': "q' = q\<lparr>mq_head := ?h', mq_overload := ov, mq_overload_threshold := t\<rparr>"
    using assms(2) by (auto simp: q1_def)
  have "nat len = skynet_mq_length q'"
    using assms(1) ring_next_less [of "mq_head q" "mq_cap q"]
    by (auto simp: q' len_def skynet_mq_length_def mq_inv_def Let_def)
  then have "nat len \<le> t \<and> ov = (if mq_overload_threshold q < nat len then nat len else mq_overload q)"
      "nat len = skynet_mq_length q'"
    using overload_scan_spec [OF th scan] by auto
  moreover have "skynet_mq_length q' + 1 = skynet_mq_length q"
    using mq_length_content [OF assms(1)] mq_length_content [OF q''(2)] Cons q''(3) eq by simp
  moreover have "mq_overload q' = ov" "mq_overload_threshold q' = t"
    by (simp_all add: q')
  ultimately show ?thesis
    using eq q''(2) by auto
qed

theorem skynet_mq_pop_overload_witness:
  "\<exists>m q'. skynet_mq_pop (mq_put (mq_fresh 7) \<lparr>msg_source = 1, msg_session = 2, msg_data = None, msg_sz = 0\<rparr>) = (0, m, q')
     \<and> skynet_mq_length q' = 0"
proof -
  let ?q = "mq_put (mq_fresh 7) \<lparr>msg_source = 1, msg_session = 2, msg_data = None, msg_sz = 0\<rparr>"
  have inv: "mq_inv ?q" and one: "skynet_mq_length ?q = 1"
    using mq_length_content [of ?q] by (simp_all add: mq_put_correct)
  obtain ret m q' where r: "skynet_mq_pop ?q = (ret, m, q')"
    by (metis prod_cases3)
  show ?thesis
    using skynet_mq_pop_overload [OF inv r] one r by (cases "ret = 0") auto
qed

end
