(* ===== verification/GlobalQueue.thy ===== *)
theory GlobalQueue
  imports MessageQueue
begin

text \<open>
  The global list of \<open>skynet_mq.c\<close> as the store holds it: \<open>Q->head\<close>, the chain of \<open>next\<close> fields and
  \<open>Q->tail\<close>. \<open>globalq_rep w as\<close> says that the chain is exactly \<open>as\<close>, without repetition, and that no
  ring outside it has a \<open>next\<close>. Under it push appends and pop takes the first ring, and neither
  runs into an \<open>assert\<close>: the list is a FIFO queue of rings, so runnable services take turns.
\<close>

section \<open>Chains of rings\<close>

fun mq_chain :: "(addr \<Rightarrow> message_queue option) \<Rightarrow> addr option \<Rightarrow> addr list \<Rightarrow> bool" where
  "mq_chain st p [] = (p = None)"
| "mq_chain st p (a # as) =
     (p = Some a \<and> (case st a of None \<Rightarrow> False | Some q \<Rightarrow> mq_chain st (mq_next q) as))"

definition globalq_rep :: "mq_world \<Rightarrow> addr list \<Rightarrow> bool" where
  "globalq_rep w as \<longleftrightarrow>
     mq_chain (mqs w) (Q_head w) as \<and> distinct as \<and>
     Q_tail w = (if as = [] then None else Some (last as)) \<and>
     (\<forall>a q. a \<notin> set as \<longrightarrow> mqs w a = Some q \<longrightarrow> mq_next q = None)"

lemma mq_chain_frame [simp]: "a \<notin> set as \<Longrightarrow> mq_chain (st(a := v)) p as = mq_chain st p as"
  by (induction as arbitrary: p) (auto split: option.splits)

lemma mq_chain_next_frame:
  "st a = Some q \<Longrightarrow> mq_next q' = mq_next q \<Longrightarrow> mq_chain (st(a \<mapsto> q')) p as = mq_chain st p as"
  by (induction as arbitrary: p) (auto split: option.splits)

lemma mq_chain_dom: "mq_chain st p as \<Longrightarrow> a \<in> set as \<Longrightarrow> \<exists>q. st a = Some q"
  by (induction as arbitrary: p) (auto split: option.splits)

lemma mq_chain_unique: "mq_chain st p as \<Longrightarrow> mq_chain st p bs \<Longrightarrow> as = bs"
proof (induction as arbitrary: p bs)
  case Nil
  then show ?case by (cases bs) auto
next
  case (Cons a as)
  then show ?case by (cases bs) (auto split: option.splits)
qed

lemma mq_chain_last: "mq_chain st p (xs @ [t]) \<Longrightarrow> \<exists>tq. st t = Some tq \<and> mq_next tq = None"
  by (induction xs arbitrary: p) (auto split: option.splits)

lemma mq_chain_snoc:
  assumes "mq_chain st p (xs @ [t])" "distinct (xs @ [t])" "st t = Some tq" "a \<notin> set (xs @ [t])"
    "st a = Some q" "mq_next q = None"
  shows "mq_chain (st(t \<mapsto> tq\<lparr>mq_next := Some a\<rparr>)) p (xs @ [t, a])"
  using assms by (induction xs arbitrary: p) (auto split: option.splits)

lemma mq_chain_next_outside:
  "mq_chain st p as \<Longrightarrow> distinct as \<Longrightarrow> p = Some a \<Longrightarrow> \<exists>q as'. as = a # as' \<and> st a = Some q \<and> mq_chain st (mq_next q) as'"
  by (cases as) (auto split: option.splits)

section \<open>Push and pop\<close>

lemma globalq_repD_next:
  "globalq_rep w as \<Longrightarrow> a \<notin> set as \<Longrightarrow> mqs w a = Some q \<Longrightarrow> mq_next q = None"
  by (simp add: globalq_rep_def)

lemma globalq_rep_unique: "globalq_rep w as \<Longrightarrow> globalq_rep w bs \<Longrightarrow> as = bs"
  by (auto simp: globalq_rep_def intro: mq_chain_unique)

lemma globalq_rep_dom: "globalq_rep w as \<Longrightarrow> a \<in> set as \<Longrightarrow> \<exists>q. mqs w a = Some q"
  by (auto simp: globalq_rep_def dest: mq_chain_dom)

text \<open>Storing a ring with its \<open>next\<close> unchanged keeps the list.\<close>

lemma globalq_rep_store:
  "globalq_rep w as \<Longrightarrow> mqs w a = Some q \<Longrightarrow> mq_next q' = mq_next q \<Longrightarrow> globalq_rep (mq_store w a q') as"
  by (auto simp: globalq_rep_def mq_chain_next_frame)

lemma globalq_rep_alloc:
  "globalq_rep w as \<Longrightarrow> mqs w a = None \<Longrightarrow> mq_next q = None \<Longrightarrow> globalq_rep (mq_store w a q) as"
proof -
  assume rep: "globalq_rep w as" and free: "mqs w a = None" and nx: "mq_next q = None"
  have "a \<notin> set as"
    using globalq_rep_dom [OF rep] free by fastforce
  then show "globalq_rep (mq_store w a q) as"
    using rep nx by (auto simp: globalq_rep_def)
qed

lemma globalq_push_spec:
  assumes rep: "globalq_rep w as" and a: "a \<notin> set as" and q: "mqs w a = Some q"
  obtains w' where "skynet_globalmq_push w a = Inr w'" "globalq_rep w' (as @ [a])"
    "\<And>b. map_option (\<lambda>q. q\<lparr>mq_next := None\<rparr>) (mqs w' b) = map_option (\<lambda>q. q\<lparr>mq_next := None\<rparr>) (mqs w b)"
proof (cases as rule: rev_cases)
  case Nil
  let ?w = "w\<lparr>Q_head := Some a, Q_tail := Some a\<rparr>"
  have push: "skynet_globalmq_push w a = Inr ?w"
    using rep q Nil by (auto simp: skynet_globalmq_push_def globalq_rep_def)
  have "globalq_rep ?w (as @ [a])"
    using rep q Nil by (auto simp: globalq_rep_def)
  then show ?thesis
    using that [OF push] by simp
next
  case (snoc xs t)
  obtain tq where tq: "mqs w t = Some tq"
    using globalq_rep_dom [OF rep, of t] snoc by auto
  have nq: "mq_next q = None"
    using globalq_repD_next [OF rep a q] .
  have tail: "Q_tail w = Some t"
    using rep snoc by (simp add: globalq_rep_def)
  let ?w = "(mq_store w t (tq\<lparr>mq_next := Some a\<rparr>))\<lparr>Q_tail := Some a\<rparr>"
  have push: "skynet_globalmq_push w a = Inr ?w"
    using tq q nq tail by (simp add: skynet_globalmq_push_def)
  have "mq_chain (mqs ?w) (Q_head ?w) (xs @ [t, a])"
    using mq_chain_snoc [of "mqs w" "Q_head w" xs t tq a q] rep tq q nq a snoc
    by (simp add: globalq_rep_def)
  then have "globalq_rep ?w (as @ [a])"
    using rep a snoc by (auto simp: globalq_rep_def)
  then show ?thesis
    using that [OF push] tq by auto
qed

lemma globalq_pop_empty: "globalq_rep w [] \<Longrightarrow> skynet_globalmq_pop w = Inr (None, w)"
  by (simp add: globalq_rep_def skynet_globalmq_pop_def)

lemma globalq_pop_cons:
  assumes rep: "globalq_rep w (a # as)"
  obtains w' where "skynet_globalmq_pop w = Inr (Some a, w')" "globalq_rep w' as"
    "\<And>b. map_option (\<lambda>q. q\<lparr>mq_next := None\<rparr>) (mqs w' b) = map_option (\<lambda>q. q\<lparr>mq_next := None\<rparr>) (mqs w b)"
proof -
  obtain q where q: "mqs w a = Some q" and chain: "mq_chain (mqs w) (mq_next q) as"
    and dist: "distinct as" "a \<notin> set as" and hd: "Q_head w = Some a"
    using rep by (auto simp: globalq_rep_def split: option.splits)
  have out: "\<forall>b qb. b \<notin> insert a (set as) \<longrightarrow> mqs w b = Some qb \<longrightarrow> mq_next qb = None"
    using rep by (simp add: globalq_rep_def)
  let ?w1 = "w\<lparr>Q_head := mq_next q\<rparr>"
  show ?thesis
  proof (cases as)
    case Nil
    then have nx: "mq_next q = None" and tl: "Q_tail w = Some a"
      using chain rep by (simp_all add: globalq_rep_def)
    let ?w = "mq_store (?w1\<lparr>Q_tail := None\<rparr>) a (q\<lparr>mq_next := None\<rparr>)"
    have pop: "skynet_globalmq_pop w = Inr (Some a, ?w)"
      using hd q nx tl by (simp add: skynet_globalmq_pop_def)
    have "globalq_rep ?w as"
      using Nil nx out by (auto simp: globalq_rep_def)
    then show ?thesis
      using that [OF pop] q by auto
  next
    case (Cons b bs)
    then have nx: "mq_next q = Some b"
      using chain by simp
    let ?w = "mq_store ?w1 a (q\<lparr>mq_next := None\<rparr>)"
    have pop: "skynet_globalmq_pop w = Inr (Some a, ?w)"
      using hd q nx by (simp add: skynet_globalmq_pop_def)
    have tl: "Q_tail ?w = (if as = [] then None else Some (last as))"
      using rep Cons by (simp add: globalq_rep_def)
    have ch: "mq_chain (mqs ?w) (Q_head ?w) as"
      using mq_chain_frame [OF dist(2)] chain by simp
    have "\<forall>b qb. b \<notin> set as \<longrightarrow> mqs ?w b = Some qb \<longrightarrow> mq_next qb = None"
      using out by auto
    then have "globalq_rep ?w as"
      unfolding globalq_rep_def using tl ch dist(1) by blast
    then show ?thesis
      using that [OF pop] q by auto
  qed
qed

section \<open>Pushing a message\<close>

text \<open>\<open>same_ring\<close>: two rings that differ at most in \<open>next\<close>, the field the global list writes.\<close>

definition same_ring :: "message_queue option \<Rightarrow> message_queue option \<Rightarrow> bool" where
  "same_ring p q \<longleftrightarrow> map_option (\<lambda>q. q\<lparr>mq_next := None\<rparr>) p = map_option (\<lambda>q. q\<lparr>mq_next := None\<rparr>) q"

lemma same_ring_refl [simp]: "same_ring p p"
  by (simp add: same_ring_def)

lemma same_ring_trans: "same_ring p q \<Longrightarrow> same_ring q r \<Longrightarrow> same_ring p r"
  by (simp add: same_ring_def)

lemma same_ring_None [simp]: "same_ring p None \<longleftrightarrow> p = None" "same_ring None p \<longleftrightarrow> p = None"
  by (auto simp: same_ring_def)

lemma same_ringD:
  assumes "same_ring p (Some q)"
  obtains q' where "p = Some q'" "mq_content q' = mq_content q" "mq_inv q' = mq_inv q" "mq_in_global q' = mq_in_global q"
    "mq_release q' = mq_release q" "mq_handle q' = mq_handle q"
proof -
  obtain q' where q': "p = Some q'" "q'\<lparr>mq_next := None\<rparr> = q\<lparr>mq_next := None\<rparr>"
    using assms by (auto simp: same_ring_def)
  show ?thesis
    by (rule that [OF q'(1)])
      (use arg_cong [OF q'(2), of mq_content] arg_cong [OF q'(2), of mq_inv] arg_cong [OF q'(2), of mq_in_global]
         arg_cong [OF q'(2), of mq_release] arg_cong [OF q'(2), of mq_handle] in simp_all)
qed

lemma globalq_push_same:
  assumes "globalq_rep w as" "a \<notin> set as" "mqs w a = Some q"
  obtains w' where "skynet_globalmq_push w a = Inr w'" "globalq_rep w' (as @ [a])" "\<And>b. same_ring (mqs w' b) (mqs w b)"
proof -
  obtain w' where w': "skynet_globalmq_push w a = Inr w'" "globalq_rep w' (as @ [a])"
    and s: "\<And>b. map_option (\<lambda>q. q\<lparr>mq_next := None\<rparr>) (mqs w' b) = map_option (\<lambda>q. q\<lparr>mq_next := None\<rparr>) (mqs w b)"
    by (rule globalq_push_spec [OF assms]) (rule that; assumption)
  show ?thesis
    by (rule that [OF w']) (simp add: same_ring_def s)
qed

lemma globalq_pop_same:
  assumes "globalq_rep w (a # as)"
  obtains w' where "skynet_globalmq_pop w = Inr (Some a, w')" "globalq_rep w' as" "\<And>b. same_ring (mqs w' b) (mqs w b)"
proof -
  obtain w' where w': "skynet_globalmq_pop w = Inr (Some a, w')" "globalq_rep w' as"
    and s: "\<And>b. map_option (\<lambda>q. q\<lparr>mq_next := None\<rparr>) (mqs w' b) = map_option (\<lambda>q. q\<lparr>mq_next := None\<rparr>) (mqs w b)"
    by (rule globalq_pop_cons [OF assms]) (rule that; assumption)
  show ?thesis
    by (rule that [OF w']) (simp add: same_ring_def s)
qed

lemma mq_push_spec:
  assumes rep: "globalq_rep w as" and q: "mqs w a = Some q" "mq_inv q" and out: "mq_in_global q = 0 \<longrightarrow> a \<notin> set as"
  obtains w' q' where "skynet_mq_push w a m = Inr w'" "mqs w' a = Some q'" "mq_inv q'" "mq_content q' = mq_content q @ [m]"
    "mq_in_global q' = (if mq_in_global q = 0 then 1 else mq_in_global q)" "mq_release q' = mq_release q"
    "mq_handle q' = mq_handle q" "globalq_rep w' (if mq_in_global q = 0 then as @ [a] else as)"
    "\<And>b. b \<noteq> a \<Longrightarrow> same_ring (mqs w' b) (mqs w b)"
proof (cases "mq_in_global q = 0")
  case False
  let ?w = "mq_store w a (mq_put q m)"
  have rep': "globalq_rep ?w as"
    by (rule globalq_rep_store [OF rep q(1)]) simp
  have push: "skynet_mq_push w a m = Inr ?w"
    using q(1) False by (simp add: skynet_mq_push_def Let_def)
  show ?thesis
    by (rule that [OF push, of "mq_put q m"]) (use q(2) rep' False in \<open>simp_all add: mq_put_correct\<close>)
next
  case True
  let ?q = "(mq_put q m)\<lparr>mq_in_global := MQ_IN_GLOBAL\<rparr>"
  let ?w = "mq_store w a ?q"
  have rep': "globalq_rep ?w as"
    by (rule globalq_rep_store [OF rep q(1)]) simp
  have at: "mqs ?w a = Some ?q" and na: "a \<notin> set as"
    using out True by simp_all
  obtain w' where w': "skynet_globalmq_push ?w a = Inr w'" "globalq_rep w' (as @ [a])"
    and same: "\<And>b. same_ring (mqs w' b) (mqs ?w b)"
    by (rule globalq_push_same [OF rep' na at]) (rule that; assumption)
  have push: "skynet_mq_push w a m = Inr w'"
    using q(1) True w'(1) by (simp add: skynet_mq_push_def Let_def)
  obtain q' where q': "mqs w' a = Some q'" "mq_content q' = mq_content ?q" "mq_inv q' = mq_inv ?q"
      "mq_in_global q' = mq_in_global ?q" "mq_release q' = mq_release ?q" "mq_handle q' = mq_handle ?q"
    by (rule same_ringD [OF same [of a, unfolded at]]) (rule that; assumption)
  show ?thesis
  proof (rule that [OF push q'(1)])
    show "same_ring (mqs w' b) (mqs w b)" if "b \<noteq> a" for b
      using same [of b] that by simp
  qed (use q(2) w'(2) True q' in \<open>simp_all add: mq_put_correct MQ_IN_GLOBAL_def\<close>)
qed

section \<open>The list as a FIFO queue\<close>

definition globalq_list :: "mq_world \<Rightarrow> addr list" where
  "globalq_list w = (THE as. globalq_rep w as)"

definition globalq_inv :: "mq_world \<Rightarrow> bool" where
  "globalq_inv w \<longleftrightarrow> (\<exists>as. globalq_rep w as)"

lemma globalq_list_eq: "globalq_rep w as \<Longrightarrow> globalq_list w = as"
  unfolding globalq_list_def by (rule the_equality) (auto intro: globalq_rep_unique)

definition globalq_adm :: "mq_world \<Rightarrow> addr \<Rightarrow> bool" where
  "globalq_adm w a \<longleftrightarrow> mqs w a \<noteq> None \<and> a \<notin> set (globalq_list w)"

text \<open>The two functions as queue operations; a fault leaves the world as it was.\<close>

definition globalq_enq :: "mq_world \<Rightarrow> addr \<Rightarrow> mq_world" where
  "globalq_enq w a = (case skynet_globalmq_push w a of Inr w' \<Rightarrow> w' | Inl _ \<Rightarrow> w)"

definition globalq_deq :: "mq_world \<Rightarrow> addr option \<times> mq_world" where
  "globalq_deq w = (case skynet_globalmq_pop w of Inr r \<Rightarrow> r | Inl _ \<Rightarrow> (None, w))"

interpretation globalq: fifo globalq_enq globalq_deq globalq_list globalq_inv globalq_adm
proof unfold_locales
  fix w a
  assume "globalq_inv w" "globalq_adm w a"
  then obtain as q where rep: "globalq_rep w as" and a: "a \<notin> set as" and q: "mqs w a = Some q"
    by (auto simp: globalq_inv_def globalq_adm_def globalq_list_eq)
  obtain w' where "skynet_globalmq_push w a = Inr w'" "globalq_rep w' (as @ [a])"
    using globalq_push_spec [OF rep a q] by metis
  then show "globalq_inv (globalq_enq w a)" "globalq_list (globalq_enq w a) = globalq_list w @ [a]"
    using rep by (auto simp: globalq_enq_def globalq_inv_def globalq_list_eq)
next
  fix w
  assume "globalq_inv w"
  then obtain as where rep: "globalq_rep w as"
    by (auto simp: globalq_inv_def)
  show "globalq_inv (snd (globalq_deq w))"
  proof (cases as)
    case Nil
    then show ?thesis
      using globalq_pop_empty rep by (auto simp: globalq_deq_def globalq_inv_def)
  next
    case (Cons a as')
    obtain w' where "skynet_globalmq_pop w = Inr (Some a, w')" "globalq_rep w' as'"
      using globalq_pop_cons rep Cons by metis
    then show ?thesis
      by (auto simp: globalq_deq_def globalq_inv_def)
  qed
next
  fix w
  assume "globalq_inv w" "globalq_list w = []"
  then have rep: "globalq_rep w []"
    by (auto simp: globalq_inv_def globalq_list_eq)
  then show "fst (globalq_deq w) = None \<and> globalq_list (snd (globalq_deq w)) = []"
    using globalq_pop_empty [OF rep] by (simp add: globalq_deq_def globalq_list_eq)
next
  fix w a as
  assume "globalq_inv w" "globalq_list w = a # as"
  then have rep: "globalq_rep w (a # as)"
    by (auto simp: globalq_inv_def globalq_list_eq)
  obtain w' where "skynet_globalmq_pop w = Inr (Some a, w')" "globalq_rep w' as"
    using globalq_pop_cons [OF rep] by metis
  then show "fst (globalq_deq w) = Some a \<and> globalq_list (snd (globalq_deq w)) = as"
    by (simp add: globalq_deq_def globalq_list_eq)
qed

section \<open>Properties\<close>

text \<open>the global list serves the rings in the order they were pushed: over any sequence of
  pushes (of allocated rings not on the list) and pops, the rings popped followed by the rings left
  are the rings that were there followed by the rings pushed. No push or pop runs into one of its
  assertions.\<close>

theorem skynet_globalmq_order:
  assumes "globalq_inv w" "fifo_adm globalq_adm globalq_enq globalq_deq w ops"
  shows "fst (fifo_run globalq_enq globalq_deq w ops) @ globalq_list (snd (fifo_run globalq_enq globalq_deq w ops))
    = globalq_list w @ enqueued ops \<and>
    (\<forall>a. globalq_adm w a \<longrightarrow> (\<exists>w'. skynet_globalmq_push w a = Inr w')) \<and>
    (\<exists>r. skynet_globalmq_pop w = Inr r)"
proof (intro conjI allI impI)
  show "fst (fifo_run globalq_enq globalq_deq w ops) @ globalq_list (snd (fifo_run globalq_enq globalq_deq w ops))
    = globalq_list w @ enqueued ops"
    using globalq.run_order [OF assms] .
next
  obtain as where rep: "globalq_rep w as"
    using assms(1) by (auto simp: globalq_inv_def)
  show "\<exists>w'. skynet_globalmq_push w a = Inr w'" if "globalq_adm w a" for a
    using that globalq_push_spec [OF rep, of a] rep by (auto simp: globalq_adm_def globalq_list_eq) metis
  show "\<exists>r. skynet_globalmq_pop w = Inr r"
    using globalq_pop_empty [of w] globalq_pop_cons [of w] rep by (cases as) (blast, metis)
qed

theorem skynet_globalmq_order_witness:
  "let w = skynet_mq_create (skynet_mq_create skynet_mq_init 1 10) 2 20;
       r = fifo_run globalq_enq globalq_deq w [Enq 2, Enq 1, Deq]
   in fst r @ globalq_list (snd r) = [2, 1]"
proof -
  let ?w = "skynet_mq_create (skynet_mq_create skynet_mq_init 1 10) 2 20"
  have rep: "globalq_rep ?w []"
    by (simp add: globalq_rep_def skynet_mq_init_def skynet_mq_create_def)
  then have inv: "globalq_inv ?w" and l: "globalq_list ?w = []"
    by (auto simp: globalq_inv_def globalq_list_eq)
  have two: "(2::addr) \<notin> set []" "mqs ?w 2 = Some (mq_fresh 20)"
    by (simp_all add: mq_create_eq)
  obtain w1 where w1: "skynet_globalmq_push ?w 2 = Inr w1" "globalq_rep w1 [2]"
    and frame: "\<And>b. map_option (\<lambda>q. q\<lparr>mq_next := None\<rparr>) (mqs w1 b) = map_option (\<lambda>q. q\<lparr>mq_next := None\<rparr>) (mqs ?w b)"
    by (rule globalq_push_spec [OF rep two, unfolded append_Nil]) (rule that; assumption)
  have "fifo_adm globalq_adm globalq_enq globalq_deq ?w [Enq 2, Enq 1, Deq]"
    using w1 l frame [of 1] by (auto simp: globalq_adm_def globalq_enq_def globalq_list_eq mq_create_eq)
  then show ?thesis
    using skynet_globalmq_order [OF inv, of "[Enq 2, Enq 1, Deq]"] l by (simp add: Let_def)
qed

end
