(* ===== verification/RingStore.thy ===== *)
theory RingStore
  imports GlobalQueue
begin

text \<open>
  The operations of \<open>skynet_mq.c\<close> on the store of rings, described by what the scheduler needs to
  know of a ring: its content, whether it is marked as being in the global list, whether it is
  marked for release, and its handle (\<open>ring_info\<close>). \<open>rings_ok w as\<close> says that the store is
  well formed and the global list is \<open>as\<close>. Each lemma gives the result of one operation under the
  condition that makes its assertions hold.
\<close>

record ring_info =
  ri_content :: "skynet_message list"
  ri_glob :: nat
  ri_rel :: nat
  ri_handle :: u32

definition ring_view :: "message_queue \<Rightarrow> ring_info" where
  "ring_view r = \<lparr>ri_content = mq_content r, ri_glob = mq_in_global r, ri_rel = mq_release r, ri_handle = mq_handle r\<rparr>"

definition rinfo :: "mq_world \<Rightarrow> addr \<Rightarrow> ring_info option" where
  "rinfo w q = map_option ring_view (mqs w q)"

definition rings_ok :: "mq_world \<Rightarrow> addr list \<Rightarrow> bool" where
  "rings_ok w as \<longleftrightarrow> globalq_rep w as \<and> (\<forall>q r. mqs w q = Some r \<longrightarrow> mq_inv r)"

lemma rinfo_store [simp]: "rinfo (mq_store w a q) = (rinfo w)(a \<mapsto> ring_view q)"
  by (rule ext) (simp add: rinfo_def)

lemma rinfo_None_iff [simp]: "rinfo w q = None \<longleftrightarrow> mqs w q = None"
  by (simp add: rinfo_def)

lemma rinfo_SomeE:
  assumes "rinfo w q = Some i"
  obtains r where "mqs w q = Some r" "i = ring_view r"
  using assms by (auto simp: rinfo_def)

lemma rinfo_same_at:
  assumes "same_ring (mqs w' b) (mqs w b)" "\<And>r. mqs w b = Some r \<Longrightarrow> mq_inv r"
  shows "rinfo w' b = rinfo w b \<and> (\<forall>r. mqs w' b = Some r \<longrightarrow> mq_inv r)"
proof (cases "mqs w b")
  case None
  then show ?thesis
    using assms(1) by (simp add: rinfo_def)
next
  case (Some q)
  then have s: "same_ring (mqs w' b) (Some q)"
    using assms(1) by simp
  obtain q' where "mqs w' b = Some q'" "mq_content q' = mq_content q" "mq_inv q' = mq_inv q"
      "mq_in_global q' = mq_in_global q" "mq_release q' = mq_release q" "mq_handle q' = mq_handle q"
    by (rule same_ringD [OF s]) (rule that; assumption)
  then show ?thesis
    using Some assms(2) by (simp add: rinfo_def ring_view_def)
qed

lemma rinfo_same:
  assumes "\<And>b. same_ring (mqs w' b) (mqs w b)" "\<And>q r. mqs w q = Some r \<Longrightarrow> mq_inv r"
  shows "rinfo w' = rinfo w" "mqs w' q = Some r \<Longrightarrow> mq_inv r"
  using rinfo_same_at [OF assms(1) assms(2)] by auto

lemma rings_ok_init: "rings_ok skynet_mq_init []" "rinfo skynet_mq_init = (\<lambda>_. None)"
  by (auto simp: rings_ok_def globalq_rep_def skynet_mq_init_def rinfo_def)

lemma rings_pop_nil: "rings_ok w [] \<Longrightarrow> skynet_globalmq_pop w = Inr (None, w)"
  by (simp add: rings_ok_def globalq_pop_empty)

lemma rings_pop_cons:
  assumes "rings_ok w (a # as)"
  obtains w' where "skynet_globalmq_pop w = Inr (Some a, w')" "rings_ok w' as" "rinfo w' = rinfo w"
proof -
  have rep: "globalq_rep w (a # as)" and inv: "\<And>q r. mqs w q = Some r \<Longrightarrow> mq_inv r"
    using assms by (auto simp: rings_ok_def)
  obtain w' where w': "skynet_globalmq_pop w = Inr (Some a, w')" "globalq_rep w' as" "\<And>b. same_ring (mqs w' b) (mqs w b)"
    by (rule globalq_pop_same [OF rep]) (rule that; assumption)
  show ?thesis
    by (rule that [OF w'(1)]) (use w'(2) rinfo_same [OF w'(3) inv] in \<open>auto simp: rings_ok_def\<close>)
qed

lemma rings_push:
  assumes "rings_ok w as" "a \<notin> set as" "rinfo w a \<noteq> None"
  obtains w' where "skynet_globalmq_push w a = Inr w'" "rings_ok w' (as @ [a])" "rinfo w' = rinfo w"
proof -
  have rep: "globalq_rep w as" and inv: "\<And>q r. mqs w q = Some r \<Longrightarrow> mq_inv r"
    using assms by (auto simp: rings_ok_def)
  obtain q where q: "mqs w a = Some q"
    using assms(3) by auto
  obtain w' where w': "skynet_globalmq_push w a = Inr w'" "globalq_rep w' (as @ [a])" "\<And>b. same_ring (mqs w' b) (mqs w b)"
    by (rule globalq_push_same [OF rep assms(2) q]) (rule that; assumption)
  show ?thesis
    by (rule that [OF w'(1)]) (use w'(2) rinfo_same [OF w'(3) inv] in \<open>auto simp: rings_ok_def\<close>)
qed

lemma rings_mq_push:
  assumes ok: "rings_ok w as" and i: "rinfo w a = Some i" and out: "ri_glob i = 0 \<longrightarrow> a \<notin> set as"
  obtains w' where "skynet_mq_push w a m = Inr w'" "rings_ok w' (if ri_glob i = 0 then as @ [a] else as)"
    "rinfo w' = (rinfo w)(a \<mapsto> i\<lparr>ri_content := ri_content i @ [m], ri_glob := (if ri_glob i = 0 then 1 else ri_glob i)\<rparr>)"
proof -
  have rep: "globalq_rep w as" and inv: "\<And>q r. mqs w q = Some r \<Longrightarrow> mq_inv r"
    using ok by (auto simp: rings_ok_def)
  obtain q where q: "mqs w a = Some q" "i = ring_view q"
    by (rule rinfo_SomeE [OF i]) (rule that; assumption)
  have out': "mq_in_global q = 0 \<longrightarrow> a \<notin> set as"
    using out q(2) by (simp add: ring_view_def)
  obtain w' q' where p: "skynet_mq_push w a m = Inr w'" "mqs w' a = Some q'" "mq_inv q'" "mq_content q' = mq_content q @ [m]"
      "mq_in_global q' = (if mq_in_global q = 0 then 1 else mq_in_global q)" "mq_release q' = mq_release q"
      "mq_handle q' = mq_handle q" "globalq_rep w' (if mq_in_global q = 0 then as @ [a] else as)"
    and same: "\<And>b. b \<noteq> a \<Longrightarrow> same_ring (mqs w' b) (mqs w b)"
    by (rule mq_push_spec [OF rep q(1) inv [OF q(1)] out', of m]) (rule that; assumption)
  have "rinfo w' b = rinfo w b \<and> (\<forall>r. mqs w' b = Some r \<longrightarrow> mq_inv r)" if "b \<noteq> a" for b
    by (rule rinfo_same_at [OF same [OF that] inv])
  note other = this
  have inv': "mq_inv r" if "mqs w' b = Some r" for b r
    using other [of b] that p(2,3) by (cases "b = a") auto
  have "rinfo w' b = ((rinfo w)(a \<mapsto> i\<lparr>ri_content := ri_content i @ [m], ri_glob := (if ri_glob i = 0 then 1 else ri_glob i)\<rparr>)) b" for b
    using other [of b] p q(2) by (cases "b = a") (auto simp: rinfo_def [of w' a] ring_view_def)
  then have "rinfo w' = (rinfo w)(a \<mapsto> i\<lparr>ri_content := ri_content i @ [m], ri_glob := (if ri_glob i = 0 then 1 else ri_glob i)\<rparr>)"
    "\<forall>b r. mqs w' b = Some r \<longrightarrow> mq_inv r"
    using inv' by (auto simp: fun_eq_iff)
  then show ?thesis
    using that [OF p(1)] p(8) q(2) by (simp add: rings_ok_def ring_view_def)
qed

lemma rings_store:
  assumes "rings_ok w as" "mqs w a = Some q" "mq_next q' = mq_next q" "mq_inv q'"
  shows "rings_ok (mq_store w a q') as"
  using assms globalq_rep_store [of w as a q q'] by (auto simp: rings_ok_def)

lemma rings_mq_pop_cons:
  assumes ok: "rings_ok w as" and i: "rinfo w a = Some i" "ri_content i = m # ms"
  obtains r r' where "mqs w a = Some r" "skynet_mq_pop r = (0, Some m, r')" "rings_ok (mq_store w a r') as"
    "rinfo (mq_store w a r') = (rinfo w)(a \<mapsto> i\<lparr>ri_content := ms\<rparr>)"
proof -
  obtain r where r: "mqs w a = Some r" "i = ring_view r"
    by (rule rinfo_SomeE [OF i(1)]) (rule that; assumption)
  have inv: "mq_inv r" "mq_content r = m # ms"
    using ok r i(2) by (auto simp: rings_ok_def ring_view_def)
  obtain r' where r': "skynet_mq_pop r = (0, Some m, r')" "mq_inv r'" "mq_content r' = ms"
      "mq_in_global r' = mq_in_global r" "mq_next r' = mq_next r" "mq_handle r' = mq_handle r" "mq_release r' = mq_release r"
    by (rule mq_pop_cons [OF inv]) (rule that; assumption)
  show ?thesis
    by (rule that [OF r(1) r'(1) rings_store [OF ok r(1) r'(5,2)]]) (use r r' in \<open>simp add: ring_view_def\<close>)
qed

lemma rings_mq_pop_nil:
  assumes ok: "rings_ok w as" and i: "rinfo w a = Some i" "ri_content i = []"
  obtains r r' where "mqs w a = Some r" "skynet_mq_pop r = (1, None, r')" "rings_ok (mq_store w a r') as"
    "rinfo (mq_store w a r') = (rinfo w)(a \<mapsto> i\<lparr>ri_glob := 0\<rparr>)"
proof -
  obtain r where r: "mqs w a = Some r" "i = ring_view r"
    by (rule rinfo_SomeE [OF i(1)]) (rule that; assumption)
  have inv: "mq_inv r" "mq_content r = []"
    using ok r i(2) by (auto simp: rings_ok_def ring_view_def)
  let ?r = "r\<lparr>mq_overload_threshold := MQ_OVERLOAD, mq_in_global := 0\<rparr>"
  have "mq_inv ?r"
    using mq_inv_threshold [OF inv(1)] by simp
  then have "rings_ok (mq_store w a ?r) as"
    by (intro rings_store [OF ok r(1)]) simp_all
  then show ?thesis
    using that [OF r(1) mq_pop_nil [OF inv]] r by (simp add: ring_view_def)
qed

lemma rings_mark_release:
  assumes ok: "rings_ok w as" and i: "rinfo w a = Some i" "ri_rel i = 0" and out: "ri_glob i \<noteq> 1 \<longrightarrow> a \<notin> set as"
  obtains w' where "skynet_mq_mark_release w a = Inr w'" "rings_ok w' (if ri_glob i \<noteq> 1 then as @ [a] else as)"
    "rinfo w' = (rinfo w)(a \<mapsto> i\<lparr>ri_rel := 1\<rparr>)"
proof -
  obtain r where r: "mqs w a = Some r" "i = ring_view r"
    by (rule rinfo_SomeE [OF i(1)]) (rule that; assumption)
  let ?w = "mq_store w a (r\<lparr>mq_release := 1\<rparr>)"
  have ok': "rings_ok ?w as"
    by (rule rings_store [OF ok r(1)]) (use ok r(1) in \<open>auto simp: rings_ok_def\<close>)
  have info: "rinfo ?w = (rinfo w)(a \<mapsto> i\<lparr>ri_rel := 1\<rparr>)"
    using r(2) by (simp add: ring_view_def)
  have rel: "mq_release r = 0" and glob: "ri_glob i = mq_in_global r"
    using i(2) r(2) by (simp_all add: ring_view_def)
  show ?thesis
  proof (cases "mq_in_global r = 1")
    case True
    then show ?thesis
      using that [of ?w] ok' info r(1) rel glob by (simp add: skynet_mq_mark_release_def MQ_IN_GLOBAL_def)
  next
    case False
    have alloc: "a \<notin> set as" "rinfo ?w a \<noteq> None"
      using out glob False by simp_all
    obtain w' where w': "skynet_globalmq_push ?w a = Inr w'" "rings_ok w' (as @ [a])" "rinfo w' = rinfo ?w"
      by (rule rings_push [OF ok' alloc]) (rule that; assumption)
    show ?thesis
      by (rule that [of w']) (use w' info r(1) rel glob False in \<open>simp_all add: skynet_mq_mark_release_def MQ_IN_GLOBAL_def\<close>)
  qed
qed

lemma rings_free:
  assumes ok: "rings_ok w as" and a: "rinfo w a \<noteq> None" "a \<notin> set as"
  obtains w' where "mq_free w a = Inr w'" "rings_ok w' as" "rinfo w' = (rinfo w)(a := None)"
proof -
  obtain r where r: "mqs w a = Some r"
    using a(1) by auto
  have "mq_next r = None"
    using ok a(2) r by (auto simp: rings_ok_def globalq_rep_def)
  then have f: "mq_free w a = Inr (w\<lparr>mqs := (mqs w)(a := None)\<rparr>)"
    using r by (simp add: mq_free_def)
  show ?thesis
    by (rule that [OF f]) (use ok a(2) in \<open>auto simp: rings_ok_def globalq_rep_def rinfo_def fun_eq_iff\<close>)
qed

lemma rings_create:
  assumes ok: "rings_ok w as" and a: "mqs w a = None"
  shows "rings_ok (skynet_mq_create w a h) as"
    "rinfo (skynet_mq_create w a h) = (rinfo w)(a \<mapsto> \<lparr>ri_content = [], ri_glob = 1, ri_rel = 0, ri_handle = h\<rparr>)"
  using ok globalq_rep_alloc [OF _ a, of as "mq_fresh h"]
  by (auto simp: mq_create_eq rings_ok_def ring_view_def MQ_IN_GLOBAL_def)

end
