(* ===== verification/Scheduler.thy ===== *)
theory Scheduler
  imports RingStore "HOL-Library.Multiset"
begin

text \<open>
  The worker threads of \<open>skynet_start.c\<close> running \<open>skynet_context_message_dispatch\<close>
  (\<open>skynet_server.c\<close>), with every other thread that touches contexts and rings, as a step relation.
  Each step is one critical section or one atomic instruction of the source, and the steps of all threads
  interleave freely. The steps call the operations of theory \<open>MessageQueue\<close>; a step whose
  operation hits an assertion or a dangling pointer goes to \<open>Inl\<close> of that fault.

  \<open>sd_tab\<close> is the handle table as a map (theory \<open>HandleStorage\<close> shows that it is one), \<open>sd_wk\<close> the program
  points of the workers with the rings and contexts they hold in local variables, \<open>sd_env\<close> the
  context references other code holds (a sender in \<open>skynet_context_push\<close>, a launcher, a retirer),
  \<open>sd_ini\<close> the rings whose launcher has not yet finished, \<open>sd_drop\<close> the rings some thread is in
  \<open>_drop_queue\<close> with, \<open>sd_del\<close> the contexts whose last reference is gone and whose
  \<open>delete_context\<close> has not yet marked the ring. A batch may end after any message, which covers
  every weight. A new context gets a handle that no live ring still carries: handles count up, so
  one is only reused after 2^24 registrations.
\<close>

section \<open>State and steps\<close>

record sctx =
  sc_queue :: addr
  sc_handle :: u32
  sc_ref :: nat

datatype worker =
    WIdle
  | WHave addr
  | WRun addr addr
  | WEnd addr addr
  | WSwap addr addr addr
  | WRel addr "addr option"
  | WDead addr

record sched =
  sd_w :: mq_world
  sd_ctx :: "addr \<Rightarrow> sctx option"
  sd_tab :: "u32 \<Rightarrow> addr option"
  sd_wk :: "worker multiset"
  sd_env :: "addr multiset"
  sd_ini :: "addr multiset"
  sd_drop :: "addr multiset"
  sd_del :: "addr multiset"

definition wk_move :: "worker \<Rightarrow> worker \<Rightarrow> sched \<Rightarrow> sched" where
  "wk_move s s' st = st\<lparr>sd_wk := sd_wk st - {#s#} + {#s'#}\<rparr>"

definition sched_grab :: "sched \<Rightarrow> addr \<Rightarrow> sched res" where
  "sched_grab st c = res_bind (deref (sd_ctx st) c) (\<lambda>k.
     Inr (st\<lparr>sd_ctx := (sd_ctx st)(c \<mapsto> k\<lparr>sc_ref := sc_ref k + 1\<rparr>)\<rparr>))"

definition sched_release :: "sched \<Rightarrow> addr \<Rightarrow> sched res" where
  "sched_release st c = res_bind (deref (sd_ctx st) c) (\<lambda>k.
     Inr (st\<lparr>sd_ctx := (sd_ctx st)(c \<mapsto> k\<lparr>sc_ref := sc_ref k - 1\<rparr>),
             sd_del := (if sc_ref k - 1 = 0 then add_mset c (sd_del st) else sd_del st)\<rparr>))"

text \<open>\<open>skynet_mq_release\<close>: a marked ring is dropped, another one goes back to the global list.\<close>

definition sched_mq_release :: "sched \<Rightarrow> addr \<Rightarrow> sched res" where
  "sched_mq_release st q = res_bind (deref (mqs (sd_w st)) q) (\<lambda>r.
     if mq_release r \<noteq> 0 then Inr (st\<lparr>sd_drop := add_mset q (sd_drop st)\<rparr>)
     else res_bind (skynet_globalmq_push (sd_w st) q) (\<lambda>w. Inr (st\<lparr>sd_w := w\<rparr>)))"

inductive sstep :: "sched \<Rightarrow> sched res \<Rightarrow> bool" where
  idle_pop: "WIdle \<in># sd_wk st \<Longrightarrow>
    sstep st (res_bind (skynet_globalmq_pop (sd_w st)) (\<lambda>(q, w).
      Inr (wk_move WIdle (case q of None \<Rightarrow> WIdle | Some q \<Rightarrow> WHave q) (st\<lparr>sd_w := w\<rparr>))))"
| have_grab: "WHave q \<in># sd_wk st \<Longrightarrow>
    sstep st (res_bind (deref (mqs (sd_w st)) q) (\<lambda>r.
      case sd_tab st (mq_handle r) of
        None \<Rightarrow> Inr (wk_move (WHave q) (WDead q) st)
      | Some c \<Rightarrow> res_bind (sched_grab st c) (\<lambda>st. Inr (wk_move (WHave q) (WRun q c) st))))"
| run_pop: "WRun q c \<in># sd_wk st \<Longrightarrow>
    sstep st (res_bind (deref (mqs (sd_w st)) q) (\<lambda>r.
      case skynet_mq_pop r of (ret, m, r') \<Rightarrow>
        let st' = st\<lparr>sd_w := mq_store (sd_w st) q r'\<rparr> in
        if ret \<noteq> 0 then Inr (wk_move (WRun q c) (WRel c None) st')
        else if m = None then Inl Uninit_Read else Inr st'))"
| run_end: "WRun q c \<in># sd_wk st \<Longrightarrow>
    sstep st (res_bind (deref (sd_ctx st) c) (\<lambda>k.
      if q \<noteq> sc_queue k then Inl Assert_Failed else Inr (wk_move (WRun q c) (WEnd q c) st)))"
| end_pop: "WEnd q c \<in># sd_wk st \<Longrightarrow>
    sstep st (res_bind (skynet_globalmq_pop (sd_w st)) (\<lambda>(nq, w).
      Inr (wk_move (WEnd q c) (case nq of None \<Rightarrow> WRel c (Some q) | Some n \<Rightarrow> WSwap q n c) (st\<lparr>sd_w := w\<rparr>))))"
| swap_push: "WSwap q n c \<in># sd_wk st \<Longrightarrow>
    sstep st (res_bind (skynet_globalmq_push (sd_w st) q) (\<lambda>w.
      Inr (wk_move (WSwap q n c) (WRel c (Some n)) (st\<lparr>sd_w := w\<rparr>))))"
| wk_release: "WRel c nx \<in># sd_wk st \<Longrightarrow>
    sstep st (res_bind (sched_release st c) (\<lambda>st.
      Inr (wk_move (WRel c nx) (case nx of None \<Rightarrow> WIdle | Some q \<Rightarrow> WHave q) st)))"
| dead_release: "WDead q \<in># sd_wk st \<Longrightarrow>
    sstep st (res_bind (sched_mq_release st q) (\<lambda>st. Inr (wk_move (WDead q) WIdle st)))"
| drop_pop: "q \<in># sd_drop st \<Longrightarrow>
    sstep st (res_bind (deref (mqs (sd_w st)) q) (\<lambda>r.
      case skynet_mq_pop r of (ret, m, r') \<Rightarrow>
        if ret \<noteq> 0 then
          res_bind (mq_free (mq_store (sd_w st) q r') q) (\<lambda>w. Inr (st\<lparr>sd_w := w, sd_drop := sd_drop st - {#q#}\<rparr>))
        else if m = None then Inl Uninit_Read else Inr (st\<lparr>sd_w := mq_store (sd_w st) q r'\<rparr>)))"
| launch: "sd_ctx st c = None \<Longrightarrow> mqs (sd_w st) q = None \<Longrightarrow> sd_tab st h = None \<Longrightarrow>
    (\<forall>p r. mqs (sd_w st) p = Some r \<longrightarrow> mq_handle r \<noteq> h) \<Longrightarrow>
    sstep st (Inr (st\<lparr>sd_w := skynet_mq_create (sd_w st) q h,
      sd_ctx := (sd_ctx st)(c \<mapsto> \<lparr>sc_queue = q, sc_handle = h, sc_ref = 2\<rparr>), sd_tab := (sd_tab st)(h \<mapsto> c),
      sd_env := add_mset c (sd_env st), sd_ini := add_mset q (sd_ini st)\<rparr>))"
| launched: "q \<in># sd_ini st \<Longrightarrow>
    sstep st (res_bind (skynet_globalmq_push (sd_w st) q) (\<lambda>w. Inr (st\<lparr>sd_w := w, sd_ini := sd_ini st - {#q#}\<rparr>)))"
| launch_failed: "q \<in># sd_ini st \<Longrightarrow>
    sstep st (res_bind (sched_mq_release st q) (\<lambda>st. Inr (st\<lparr>sd_ini := sd_ini st - {#q#}\<rparr>)))"
| env_grab: "sd_tab st h = Some c \<Longrightarrow>
    sstep st (res_bind (sched_grab st c) (\<lambda>st. Inr (st\<lparr>sd_env := add_mset c (sd_env st)\<rparr>)))"
| env_push: "c \<in># sd_env st \<Longrightarrow>
    sstep st (res_bind (deref (sd_ctx st) c) (\<lambda>k.
      res_bind (skynet_mq_push (sd_w st) (sc_queue k) m) (\<lambda>w. Inr (st\<lparr>sd_w := w\<rparr>))))"
| env_release: "c \<in># sd_env st \<Longrightarrow>
    sstep st (res_bind (sched_release st c) (\<lambda>st. Inr (st\<lparr>sd_env := sd_env st - {#c#}\<rparr>)))"
| env_retire: "sd_tab st h = Some c \<Longrightarrow>
    sstep st (Inr (st\<lparr>sd_tab := (sd_tab st)(h := None), sd_env := add_mset c (sd_env st)\<rparr>))"
| del_mark: "c \<in># sd_del st \<Longrightarrow>
    sstep st (res_bind (deref (sd_ctx st) c) (\<lambda>k.
      res_bind (skynet_mq_mark_release (sd_w st) (sc_queue k)) (\<lambda>w.
        Inr (st\<lparr>sd_w := w, sd_ctx := (sd_ctx st)(c := None), sd_del := sd_del st - {#c#}\<rparr>))))"

definition sched_start :: "nat \<Rightarrow> sched" where
  "sched_start n = \<lparr>sd_w = skynet_mq_init, sd_ctx = (\<lambda>_. None), sd_tab = (\<lambda>_. None), sd_wk = replicate_mset n WIdle,
     sd_env = {#}, sd_ini = {#}, sd_drop = {#}, sd_del = {#}\<rparr>"

inductive sreach :: "nat \<Rightarrow> sched \<Rightarrow> bool" for n where
  start: "sreach n (sched_start n)"
| step: "sreach n st \<Longrightarrow> sstep st (Inr st') \<Longrightarrow> sreach n st'"

section \<open>The invariant\<close>

text \<open>The rings and the contexts a worker holds in its local variables.\<close>

fun wclaims :: "worker \<Rightarrow> addr multiset" where
  "wclaims WIdle = {#}"
| "wclaims (WHave q) = {#q#}"
| "wclaims (WRun q c) = {#q#}"
| "wclaims (WEnd q c) = {#q#}"
| "wclaims (WSwap q n c) = {#q, n#}"
| "wclaims (WRel c nx) = (case nx of None \<Rightarrow> {#} | Some q \<Rightarrow> {#q#})"
| "wclaims (WDead q) = {#q#}"

fun wrefs :: "worker \<Rightarrow> addr multiset" where
  "wrefs (WRun q c) = {#c#}"
| "wrefs (WEnd q c) = {#c#}"
| "wrefs (WSwap q n c) = {#c#}"
| "wrefs (WRel c nx) = {#c#}"
| "wrefs _ = {#}"

fun wruns :: "worker \<Rightarrow> (addr \<times> addr) option" where
  "wruns (WRun q c) = Some (q, c)"
| "wruns (WEnd q c) = Some (q, c)"
| "wruns (WSwap q n c) = Some (q, c)"
| "wruns _ = None"

definition claimed :: "sched \<Rightarrow> addr list \<Rightarrow> addr multiset" where
  "claimed st as = mset as + sum_mset (image_mset wclaims (sd_wk st)) + sd_ini st + sd_drop st"

definition held :: "sched \<Rightarrow> addr multiset" where
  "held st = sd_env st + sum_mset (image_mset wrefs (sd_wk st))"

definition ring_claims :: "ring_info option \<Rightarrow> nat" where
  "ring_claims i = (case i of None \<Rightarrow> 0 | Some i \<Rightarrow> if ri_glob i = 0 \<and> ri_rel i = 0 then 0 else 1)"

text \<open>
  Every ring is claimed once when it is marked as in the global list or released, and not at all
  otherwise, and then it is empty.
\<close>

definition claims_ok :: "(addr \<Rightarrow> ring_info option) \<Rightarrow> addr multiset \<Rightarrow> bool" where
  "claims_ok ri cl \<longleftrightarrow>
     (\<forall>q. count cl q = ring_claims (ri q)) \<and>
     (\<forall>q i. ri q = Some i \<longrightarrow> ri_glob i \<le> 1 \<and> ri_rel i \<le> 1 \<and> (ri_glob i = 0 \<longrightarrow> ri_rel i = 0 \<longrightarrow> ri_content i = []))"

text \<open>The reference count of a context is the number of its references; the table points to live contexts.\<close>

definition refs_ok :: "(addr \<Rightarrow> sctx option) \<Rightarrow> (u32 \<Rightarrow> addr option) \<Rightarrow> addr multiset \<Rightarrow> addr multiset \<Rightarrow> bool" where
  "refs_ok ctx tab hld del \<longleftrightarrow>
     (\<forall>c. case ctx c of
        None \<Rightarrow> count hld c = 0 \<and> count del c = 0
      | Some k \<Rightarrow> sc_ref k = count hld c + (if tab (sc_handle k) = Some c then 1 else 0) \<and>
          count del c = (if sc_ref k = 0 then 1 else 0)) \<and>
     (\<forall>h c. tab h = Some c \<longrightarrow> (\<exists>k. ctx c = Some k \<and> sc_handle k = h))"

text \<open>A live context has its own ring, not released, with the handle of the context; handles of live rings differ.\<close>

definition links_ok :: "(addr \<Rightarrow> ring_info option) \<Rightarrow> (addr \<Rightarrow> sctx option) \<Rightarrow> bool" where
  "links_ok ri ctx \<longleftrightarrow>
     (\<forall>c k. ctx c = Some k \<longrightarrow> (\<exists>i. ri (sc_queue k) = Some i \<and> ri_rel i = 0 \<and> ri_handle i = sc_handle k)) \<and>
     (\<forall>c c' k k'. ctx c = Some k \<longrightarrow> ctx c' = Some k' \<longrightarrow> sc_queue k = sc_queue k' \<longrightarrow> c = c') \<and>
     (\<forall>q q' i i'. ri q = Some i \<longrightarrow> ri q' = Some i' \<longrightarrow> ri_handle i = ri_handle i' \<longrightarrow> q = q')"

definition local_ok :: "sched \<Rightarrow> bool" where
  "local_ok st \<longleftrightarrow>
     (\<forall>s \<in># sd_wk st. \<forall>q c. wruns s = Some (q, c) \<longrightarrow> (\<exists>k. sd_ctx st c = Some k \<and> sc_queue k = q)) \<and>
     (\<forall>q \<in># sd_drop st. \<exists>i. rinfo (sd_w st) q = Some i \<and> ri_rel i = 1)"

definition sched_inv :: "sched \<Rightarrow> addr list \<Rightarrow> bool" where
  "sched_inv st as \<longleftrightarrow> rings_ok (sd_w st) as \<and> claims_ok (rinfo (sd_w st)) (claimed st as) \<and>
     refs_ok (sd_ctx st) (sd_tab st) (held st) (sd_del st) \<and> links_ok (rinfo (sd_w st)) (sd_ctx st) \<and> local_ok st"

declare sched_inv_def [skynet_invs]

lemma sum_idle:
  "sum_mset (image_mset wclaims (replicate_mset n WIdle)) = {#}" "sum_mset (image_mset wrefs (replicate_mset n WIdle)) = {#}"
  "sum_mset (replicate_mset n ({#} :: addr multiset)) = {#}"
  by (induction n) simp_all

lemma sched_start_inv: "sched_inv (sched_start n) []"
  by (auto simp: sched_inv_def sched_start_def rings_ok_init claims_ok_def claimed_def ring_claims_def refs_ok_def
      held_def links_ok_def local_ok_def sum_idle split: if_splits)

section \<open>Effects of moves on the invariant\<close>

lemma count_claimed:
  "count (claimed st as) q = count (mset as) q + count (sum_mset (image_mset wclaims (sd_wk st))) q +
     count (sd_ini st) q + count (sd_drop st) q"
  by (simp add: claimed_def)

text \<open>Moving a worker exchanges what it holds.\<close>

lemma wk_move_sums:
  assumes "s \<in># sd_wk st"
  shows "sum_mset (image_mset wclaims (sd_wk (wk_move s s' st))) + wclaims s = sum_mset (image_mset wclaims (sd_wk st)) + wclaims s'"
    "sum_mset (image_mset wrefs (sd_wk (wk_move s s' st))) + wrefs s = sum_mset (image_mset wrefs (sd_wk st)) + wrefs s'"
proof -
  obtain W where "sd_wk st = add_mset s W"
    using assms by (metis multi_member_split)
  then show "sum_mset (image_mset wclaims (sd_wk (wk_move s s' st))) + wclaims s = sum_mset (image_mset wclaims (sd_wk st)) + wclaims s'"
    "sum_mset (image_mset wrefs (sd_wk (wk_move s s' st))) + wrefs s = sum_mset (image_mset wrefs (sd_wk st)) + wrefs s'"
    by (simp_all add: wk_move_def)
qed

lemma wk_move_simps [simp]:
  "sd_w (wk_move s s' st) = sd_w st" "sd_ctx (wk_move s s' st) = sd_ctx st" "sd_tab (wk_move s s' st) = sd_tab st"
  "sd_env (wk_move s s' st) = sd_env st" "sd_ini (wk_move s s' st) = sd_ini st" "sd_drop (wk_move s s' st) = sd_drop st"
  "sd_del (wk_move s s' st) = sd_del st"
  by (simp_all add: wk_move_def)

lemma claimed_move:
  assumes "s \<in># sd_wk st"
  shows "claimed (wk_move s s' st) as' + wclaims s + mset as = claimed st as + wclaims s' + mset as'"
  using wk_move_sums(1) [OF assms, of s'] by (simp add: claimed_def ac_simps)

lemma held_move: "s \<in># sd_wk st \<Longrightarrow> held (wk_move s s' st) + wrefs s = held st + wrefs s'"
  using wk_move_sums(2) [of s st s'] by (simp add: held_def ac_simps)

text \<open>What a claim, a held reference and the table each guarantee.\<close>

lemma claims_okD:
  assumes "claims_ok ri cl"
  shows "count cl q = ring_claims (ri q)"
    "ri q = Some i \<Longrightarrow> ri_glob i \<le> 1 \<and> ri_rel i \<le> 1"
    "ri q = Some i \<Longrightarrow> ri_glob i = 0 \<Longrightarrow> ri_rel i = 0 \<Longrightarrow> ri_content i = []"
proof -
  show "count cl q = ring_claims (ri q)"
    using assms by (simp only: claims_ok_def)
  show "ri q = Some i \<Longrightarrow> ri_glob i \<le> 1 \<and> ri_rel i \<le> 1"
    "ri q = Some i \<Longrightarrow> ri_glob i = 0 \<Longrightarrow> ri_rel i = 0 \<Longrightarrow> ri_content i = []"
    using assms by (simp_all add: claims_ok_def)
qed

lemma claim_ring:
  assumes "claims_ok ri cl" "q \<in># cl"
  shows "\<exists>i. ri q = Some i \<and> (ri_glob i = 1 \<or> ri_rel i = 1)" "count cl q = 1"
proof -
  have "0 < count cl q"
    using assms(2) by simp
  then have pos: "0 < ring_claims (ri q)"
    unfolding claims_okD(1) [OF assms(1)] .
  then obtain i where i: "ri q = Some i" "ri_glob i \<noteq> 0 \<or> ri_rel i \<noteq> 0"
    by (auto simp: ring_claims_def split: option.splits if_splits)
  then have "ri_glob i = 1 \<or> ri_rel i = 1"
    using claims_okD(2) [OF assms(1) i(1)] by linarith
  then show "\<exists>i. ri q = Some i \<and> (ri_glob i = 1 \<or> ri_rel i = 1)"
    using i(1) by blast
  show "count cl q = 1"
    unfolding claims_okD(1) [OF assms(1)] using i by (simp add: ring_claims_def)
qed

lemma refs_okD:
  assumes "refs_ok ctx tab hld del"
  shows "ctx c = Some k \<Longrightarrow> sc_ref k = count hld c + (if tab (sc_handle k) = Some c then 1 else 0)"
    "ctx c = Some k \<Longrightarrow> count del c = (if sc_ref k = 0 then 1 else 0)"
    "ctx c = None \<Longrightarrow> count hld c = 0 \<and> count del c = 0"
    "tab h = Some c \<Longrightarrow> \<exists>k. ctx c = Some k \<and> sc_handle k = h"
proof -
  have c: "case ctx c of None \<Rightarrow> count hld c = 0 \<and> count del c = 0
      | Some k \<Rightarrow> sc_ref k = count hld c + (if tab (sc_handle k) = Some c then 1 else 0) \<and>
          count del c = (if sc_ref k = 0 then 1 else 0)" for c
    using assms by (simp only: refs_ok_def)
  show "ctx c = Some k \<Longrightarrow> sc_ref k = count hld c + (if tab (sc_handle k) = Some c then 1 else 0)"
    "ctx c = Some k \<Longrightarrow> count del c = (if sc_ref k = 0 then 1 else 0)"
    "ctx c = None \<Longrightarrow> count hld c = 0 \<and> count del c = 0"
    using c [of c] by simp_all
  show "tab h = Some c \<Longrightarrow> \<exists>k. ctx c = Some k \<and> sc_handle k = h"
    using assms by (simp add: refs_ok_def)
qed

lemma held_ctx:
  assumes "refs_ok ctx tab hld del" "c \<in># hld"
  shows "\<exists>k. ctx c = Some k \<and> 0 < sc_ref k"
proof (cases "ctx c")
  case None
  then show ?thesis
    using refs_okD(3) [OF assms(1) None] assms(2) by (simp add: count_eq_zero_iff)
next
  case (Some k)
  have "0 < count hld c"
    using assms(2) by simp
  then show ?thesis
    using refs_okD(1) [OF assms(1) Some] Some by simp
qed

lemma tab_ctx:
  assumes "refs_ok ctx tab hld del" "tab h = Some c"
  shows "\<exists>k. ctx c = Some k \<and> sc_handle k = h \<and> 0 < sc_ref k"
  using refs_okD(4) [OF assms] refs_okD(1) [OF assms(1), of c] assms(2) by auto

lemma del_ctx:
  assumes "refs_ok ctx tab hld del" "c \<in># del"
  shows "\<exists>k. ctx c = Some k \<and> sc_ref k = 0 \<and> count hld c = 0 \<and> tab (sc_handle k) \<noteq> Some c \<and> count del c = 1"
proof (cases "ctx c")
  case None
  then show ?thesis
    using refs_okD(3) [OF assms(1) None] assms(2) by (simp add: count_eq_zero_iff)
next
  case (Some k)
  have "0 < count del c"
    using assms(2) by simp
  then have "sc_ref k = 0" "count del c = 1"
    using refs_okD(2) [OF assms(1) Some] by (simp_all split: if_splits)
  then show ?thesis
    using refs_okD(1) [OF assms(1) Some] Some by (auto split: if_splits)
qed

text \<open>References: taking, dropping and handing over.\<close>

lemma refs_okI:
  assumes "\<And>c k. ctx c = Some k \<Longrightarrow> sc_ref k = count hld c + (if tab (sc_handle k) = Some c then 1 else 0) \<and>
      count del c = (if sc_ref k = 0 then 1 else 0)"
    "\<And>c. ctx c = None \<Longrightarrow> count hld c = 0 \<and> count del c = 0"
    "\<And>h c. tab h = Some c \<Longrightarrow> \<exists>k. ctx c = Some k \<and> sc_handle k = h"
  shows "refs_ok ctx tab hld del"
  unfolding refs_ok_def using assms by (auto simp only: split: option.splits)

lemma refs_grab:
  assumes "refs_ok ctx tab hld del" "ctx c = Some k" "0 < sc_ref k"
  shows "refs_ok (ctx(c \<mapsto> k\<lparr>sc_ref := sc_ref k + 1\<rparr>)) tab (add_mset c hld) del"
proof (rule refs_okI)
  fix d j
  assume "(ctx(c \<mapsto> k\<lparr>sc_ref := sc_ref k + 1\<rparr>)) d = Some j"
  then show "sc_ref j = count (add_mset c hld) d + (if tab (sc_handle j) = Some d then 1 else 0) \<and>
      count del d = (if sc_ref j = 0 then 1 else 0)"
    using refs_okD(1,2) [OF assms(1), of d] assms(2,3) by (cases "d = c") (auto simp: count_eq_zero_iff)
next
  fix d
  assume "(ctx(c \<mapsto> k\<lparr>sc_ref := sc_ref k + 1\<rparr>)) d = None"
  then show "count (add_mset c hld) d = 0 \<and> count del d = 0"
    using refs_okD(3) [OF assms(1), of d] by (auto split: if_splits)
next
  fix h d
  assume "tab h = Some d"
  then show "\<exists>j. (ctx(c \<mapsto> k\<lparr>sc_ref := sc_ref k + 1\<rparr>)) d = Some j \<and> sc_handle j = h"
    using refs_okD(4) [OF assms(1)] assms(2) by fastforce
qed

lemma refs_release:
  assumes "refs_ok ctx tab (add_mset c hld) del" "ctx c = Some k"
  shows "refs_ok (ctx(c \<mapsto> k\<lparr>sc_ref := sc_ref k - 1\<rparr>)) tab hld (if sc_ref k - 1 = 0 then add_mset c del else del)"
proof (rule refs_okI)
  fix d j
  assume "(ctx(c \<mapsto> k\<lparr>sc_ref := sc_ref k - 1\<rparr>)) d = Some j"
  then show "sc_ref j = count hld d + (if tab (sc_handle j) = Some d then 1 else 0) \<and>
      count (if sc_ref k - 1 = 0 then add_mset c del else del) d = (if sc_ref j = 0 then 1 else 0)"
    using refs_okD(1,2) [OF assms(1), of d] assms(2) by (cases "d = c") (auto simp: count_eq_zero_iff)
next
  fix d
  assume "(ctx(c \<mapsto> k\<lparr>sc_ref := sc_ref k - 1\<rparr>)) d = None"
  then show "count hld d = 0 \<and> count (if sc_ref k - 1 = 0 then add_mset c del else del) d = 0"
    using refs_okD(3) [OF assms(1), of d] by (auto split: if_splits)
next
  fix h d
  assume "tab h = Some d"
  then show "\<exists>j. (ctx(c \<mapsto> k\<lparr>sc_ref := sc_ref k - 1\<rparr>)) d = Some j \<and> sc_handle j = h"
    using refs_okD(4) [OF assms(1)] assms(2) by fastforce
qed

lemma refs_retire:
  assumes "refs_ok ctx tab hld del" "tab h = Some c"
  shows "refs_ok ctx (tab(h := None)) (add_mset c hld) del"
proof (rule refs_okI)
  obtain k where k: "ctx c = Some k" "sc_handle k = h"
    using refs_okD(4) [OF assms] by blast
  fix d j
  assume j: "ctx d = Some j"
  show "sc_ref j = count (add_mset c hld) d + (if (tab(h := None)) (sc_handle j) = Some d then 1 else 0) \<and>
      count del d = (if sc_ref j = 0 then 1 else 0)"
    using refs_okD(1,2) [OF assms(1) j] assms(2) j k by (cases "d = c") auto
next
  fix d
  assume d: "ctx d = None"
  then have "d \<noteq> c"
    using refs_okD(4) [OF assms] by auto
  then show "count (add_mset c hld) d = 0 \<and> count del d = 0"
    using refs_okD(3) [OF assms(1) d] by simp
next
  fix x d
  assume "(tab(h := None)) x = Some d"
  then show "\<exists>j. ctx d = Some j \<and> sc_handle j = x"
    using refs_okD(4) [OF assms(1)] by (auto split: if_splits)
qed

lemma refs_launch:
  assumes "refs_ok ctx tab hld del" "ctx c = None" "tab h = None"
  shows "refs_ok (ctx(c \<mapsto> \<lparr>sc_queue = q, sc_handle = h, sc_ref = 2\<rparr>)) (tab(h \<mapsto> c)) (add_mset c hld) del"
proof (rule refs_okI)
  have nc: "count hld c = 0" "count del c = 0" and nt: "tab x \<noteq> Some c" for x
    using refs_okD(3) [OF assms(1,2)] refs_okD(4) [OF assms(1), of x c] assms(2) by auto
  fix d j
  assume j: "(ctx(c \<mapsto> \<lparr>sc_queue = q, sc_handle = h, sc_ref = 2\<rparr>)) d = Some j"
  show "sc_ref j = count (add_mset c hld) d + (if (tab(h \<mapsto> c)) (sc_handle j) = Some d then 1 else 0) \<and>
      count del d = (if sc_ref j = 0 then 1 else 0)"
  proof (cases "d = c")
    case True
    then show ?thesis
      using j nc by auto
  next
    case False
    then have "ctx d = Some j"
      using j by simp
    then show ?thesis
      using refs_okD(1,2) [OF assms(1)] False assms(3) by auto
  qed
next
  fix d
  assume "(ctx(c \<mapsto> \<lparr>sc_queue = q, sc_handle = h, sc_ref = 2\<rparr>)) d = None"
  then show "count (add_mset c hld) d = 0 \<and> count del d = 0"
    using refs_okD(3) [OF assms(1), of d] by (auto split: if_splits)
next
  fix x d
  assume "(tab(h \<mapsto> c)) x = Some d"
  then show "\<exists>j. (ctx(c \<mapsto> \<lparr>sc_queue = q, sc_handle = h, sc_ref = 2\<rparr>)) d = Some j \<and> sc_handle j = x"
    using refs_okD(4) [OF assms(1), of x d] assms(2) by (auto split: if_splits)
qed

lemma refs_delete:
  assumes "refs_ok ctx tab hld (add_mset c del)"
  shows "refs_ok (ctx(c := None)) tab hld del"
proof -
  obtain k where k: "ctx c = Some k" "sc_ref k = 0" "count hld c = 0" "tab (sc_handle k) \<noteq> Some c"
      "count (add_mset c del) c = 1"
    using del_ctx [OF assms, of c] by auto
  show ?thesis
  proof (rule refs_okI)
    fix d j
    assume "(ctx(c := None)) d = Some j"
    then show "sc_ref j = count hld d + (if tab (sc_handle j) = Some d then 1 else 0) \<and>
        count del d = (if sc_ref j = 0 then 1 else 0)"
      using refs_okD(1,2) [OF assms, of d j] by (cases "d = c") auto
  next
    fix d
    assume "(ctx(c := None)) d = None"
    then show "count hld d = 0 \<and> count del d = 0"
      using refs_okD(3) [OF assms, of d] k by (cases "d = c") auto
  next
    fix x e
    assume "tab x = Some e"
    then show "\<exists>j. (ctx(c := None)) e = Some j \<and> sc_handle j = x"
      using refs_okD(4) [OF assms, of x e] k by auto
  qed
qed

text \<open>Claims, links and local variables under the updates of the steps.\<close>

lemma claims_upd:
  assumes "claims_ok ri cl" "\<And>p. p \<noteq> q \<Longrightarrow> count cl' p = count cl p" "count cl' q = ring_claims x"
    "\<And>i. x = Some i \<Longrightarrow> ri_glob i \<le> 1 \<and> ri_rel i \<le> 1 \<and> (ri_glob i = 0 \<longrightarrow> ri_rel i = 0 \<longrightarrow> ri_content i = [])"
  shows "claims_ok (ri(q := x)) cl'"
proof -
  have "count cl' p = ring_claims ((ri(q := x)) p)" for p
    using claims_okD(1) [OF assms(1), of p] assms(2,3) by (cases "p = q") simp_all
  moreover have "ri_glob i \<le> 1 \<and> ri_rel i \<le> 1 \<and> (ri_glob i = 0 \<longrightarrow> ri_rel i = 0 \<longrightarrow> ri_content i = [])"
    if "(ri(q := x)) p = Some i" for p i
    using claims_okD(2,3) [OF assms(1), of p i] assms(4) that by (cases "p = q") auto
  ultimately show ?thesis
    unfolding claims_ok_def by blast
qed

lemma links_okD:
  assumes "links_ok ri ctx"
  shows "ctx c = Some k \<Longrightarrow> \<exists>i. ri (sc_queue k) = Some i \<and> ri_rel i = 0 \<and> ri_handle i = sc_handle k"
    "ctx c = Some k \<Longrightarrow> ctx c' = Some k' \<Longrightarrow> sc_queue k = sc_queue k' \<Longrightarrow> c = c'"
    "ri q = Some i \<Longrightarrow> ri q' = Some i' \<Longrightarrow> ri_handle i = ri_handle i' \<Longrightarrow> q = q'"
  using assms unfolding links_ok_def by blast+

lemma links_ring:
  assumes "links_ok ri ctx" "ri q = Some i" "ri_handle i' = ri_handle i" "ri_rel i' = ri_rel i"
  shows "links_ok (ri(q \<mapsto> i')) ctx"
  unfolding links_ok_def
proof (intro conjI allI impI)
  fix c k
  assume "ctx c = Some k"
  then show "\<exists>j. (ri(q \<mapsto> i')) (sc_queue k) = Some j \<and> ri_rel j = 0 \<and> ri_handle j = sc_handle k"
    using links_okD(1) [OF assms(1)] assms(2-4) by (cases "sc_queue k = q") fastforce+
next
  show "c = c'" if "ctx c = Some k" "ctx c' = Some k'" "sc_queue k = sc_queue k'" for c c' k k'
    using links_okD(2) [OF assms(1)] that by blast
next
  fix p p' j j'
  assume "(ri(q \<mapsto> i')) p = Some j" "(ri(q \<mapsto> i')) p' = Some j'" "ri_handle j = ri_handle j'"
  then show "p = p'"
    using links_okD(3) [OF assms(1)] assms(2,3) by (cases "p = q"; cases "p' = q") auto
qed

lemma links_ctx:
  assumes "links_ok ri ctx" "ctx c = Some k" "sc_queue k' = sc_queue k" "sc_handle k' = sc_handle k"
  shows "links_ok ri (ctx(c \<mapsto> k'))"
  unfolding links_ok_def
proof (intro conjI allI impI)
  show "\<exists>i. ri (sc_queue j) = Some i \<and> ri_rel i = 0 \<and> ri_handle i = sc_handle j" if "(ctx(c \<mapsto> k')) d = Some j" for d j
    using links_okD(1) [OF assms(1)] assms(2-4) that by (cases "d = c") fastforce+
next
  show "d = d'" if "(ctx(c \<mapsto> k')) d = Some j" "(ctx(c \<mapsto> k')) d' = Some j'" "sc_queue j = sc_queue j'" for d d' j j'
    using links_okD(2) [OF assms(1)] assms(2,3) that by (cases "d = c"; cases "d' = c") auto
next
  show "q = q'" if "ri q = Some i" "ri q' = Some i'" "ri_handle i = ri_handle i'" for q q' i i'
    using links_okD(3) [OF assms(1)] that by blast
qed

text \<open>A ring without a context may be freed or marked.\<close>

lemma links_unlinked:
  assumes "links_ok ri ctx" "\<And>c k. ctx c = Some k \<Longrightarrow> sc_queue k \<noteq> q" "\<And>i'. x = Some i' \<Longrightarrow> \<exists>i. ri q = Some i \<and> ri_handle i = ri_handle i'"
  shows "links_ok (ri(q := x)) ctx"
  unfolding links_ok_def
proof (intro conjI allI impI)
  show "\<exists>i. (ri(q := x)) (sc_queue k) = Some i \<and> ri_rel i = 0 \<and> ri_handle i = sc_handle k" if "ctx c = Some k" for c k
    using links_okD(1) [OF assms(1) that] assms(2) [OF that] by simp
next
  show "c = c'" if "ctx c = Some k" "ctx c' = Some k'" "sc_queue k = sc_queue k'" for c c' k k'
    using links_okD(2) [OF assms(1)] that by blast
next
  fix p p' j j'
  assume h: "(ri(q := x)) p = Some j" "(ri(q := x)) p' = Some j'" "ri_handle j = ri_handle j'"
  have "\<exists>i. ri r = Some i \<and> ri_handle i = ri_handle l" if "(ri(q := x)) r = Some l" for r l
    using that assms(3) by (cases "r = q") auto
  then show "p = p'"
    using links_okD(3) [OF assms(1)] h by metis
qed

lemma links_drop_ctx: "links_ok ri ctx \<Longrightarrow> links_ok ri (ctx(c := None))"
  unfolding links_ok_def by (auto split: if_splits)

lemma local_move:
  assumes "local_ok st" "\<And>q c. wruns s' = Some (q, c) \<Longrightarrow> \<exists>k. sd_ctx st c = Some k \<and> sc_queue k = q"
  shows "local_ok (wk_move s s' st)"
proof -
  have "set_mset (sd_wk (wk_move s s' st)) \<subseteq> insert s' (set_mset (sd_wk st))"
    by (auto simp: wk_move_def dest: in_diffD)
  then show ?thesis
    using assms unfolding local_ok_def by (auto simp: subset_eq)
qed

lemma local_ctx:
  assumes "local_ok st" "sd_ctx st c = Some k" "sc_queue k' = sc_queue k"
  shows "local_ok (st\<lparr>sd_ctx := (sd_ctx st)(c \<mapsto> k')\<rparr>)"
  using assms unfolding local_ok_def by fastforce

lemma local_w:
  assumes "local_ok st" "\<And>q i. q \<in># sd_drop st \<Longrightarrow> rinfo (sd_w st) q = Some i \<Longrightarrow> ri_rel i = 1 \<Longrightarrow> \<exists>j. rinfo w q = Some j \<and> ri_rel j = 1"
  shows "local_ok (st\<lparr>sd_w := w\<rparr>)"
  using assms unfolding local_ok_def by fastforce

lemma local_frame [simp]:
  "local_ok (st\<lparr>sd_env := e\<rparr>) = local_ok st" "local_ok (st\<lparr>sd_ini := e\<rparr>) = local_ok st"
  "local_ok (st\<lparr>sd_del := e\<rparr>) = local_ok st" "local_ok (st\<lparr>sd_tab := t\<rparr>) = local_ok st"
  by (simp_all add: local_ok_def)

lemma claimed_frame [simp]:
  "claimed (st\<lparr>sd_w := w\<rparr>) as = claimed st as" "claimed (st\<lparr>sd_ctx := x\<rparr>) as = claimed st as"
  "claimed (st\<lparr>sd_tab := t\<rparr>) as = claimed st as" "claimed (st\<lparr>sd_env := e\<rparr>) as = claimed st as"
  "claimed (st\<lparr>sd_del := e\<rparr>) as = claimed st as"
  by (simp_all add: claimed_def)

lemma held_frame [simp]:
  "held (st\<lparr>sd_w := w\<rparr>) = held st" "held (st\<lparr>sd_ctx := x\<rparr>) = held st" "held (st\<lparr>sd_tab := t\<rparr>) = held st"
  "held (st\<lparr>sd_ini := e\<rparr>) = held st" "held (st\<lparr>sd_drop := e\<rparr>) = held st" "held (st\<lparr>sd_del := e\<rparr>) = held st"
  by (simp_all add: held_def)

definition sched_good :: "sched res \<Rightarrow> bool" where
  "sched_good r \<longleftrightarrow> (\<exists>st as. r = Inr st \<and> sched_inv st as)"

lemma sched_goodI: "r = Inr st \<Longrightarrow> sched_inv st as \<Longrightarrow> sched_good r"
  by (auto simp: sched_good_def)

lemma sched_invD:
  assumes "sched_inv st as"
  shows "rings_ok (sd_w st) as" "claims_ok (rinfo (sd_w st)) (claimed st as)"
    "refs_ok (sd_ctx st) (sd_tab st) (held st) (sd_del st)" "links_ok (rinfo (sd_w st)) (sd_ctx st)" "local_ok st"
  using assms by (simp_all add: sched_inv_def)

text \<open>A worker's ring exists; a claimed ring that is not in the list may be pushed.\<close>

lemma wclaims_claimed: "s \<in># sd_wk st \<Longrightarrow> q \<in># wclaims s \<Longrightarrow> q \<in># claimed st as"
  by (auto simp: claimed_def)

lemma worker_claim:
  assumes "sched_inv st as" "s \<in># sd_wk st" "q \<in># wclaims s"
  shows "q \<notin> set as" "\<exists>i. rinfo (sd_w st) q = Some i \<and> (ri_glob i = 1 \<or> ri_rel i = 1)" "count (claimed st as) q = 1"
proof -
  have q: "q \<in># claimed st as"
    by (rule wclaims_claimed [OF assms(2,3)])
  show one: "count (claimed st as) q = 1"
    by (rule claim_ring(2) [OF sched_invD(2) [OF assms(1)] q])
  show "\<exists>i. rinfo (sd_w st) q = Some i \<and> (ri_glob i = 1 \<or> ri_rel i = 1)"
    by (rule claim_ring(1) [OF sched_invD(2) [OF assms(1)] q])
  obtain W where W: "sd_wk st = add_mset s W"
    using assms(2) by (metis multi_member_split)
  have pos: "0 < count (wclaims s) q"
    using assms(3) by simp
  have "count (mset as) q + count (wclaims s) q \<le> 1"
    using one unfolding count_claimed W by simp
  then have "count (mset as) q = 0"
    using pos by linarith
  then show "q \<notin> set as"
    by (simp add: count_eq_zero_iff)
qed

lemma worker_alloc: "sched_inv st as \<Longrightarrow> s \<in># sd_wk st \<Longrightarrow> q \<in># wclaims s \<Longrightarrow> rinfo (sd_w st) q \<noteq> None"
  using worker_claim(2) [of st as s q] by (metis option.distinct(1))

section \<open>Every step keeps the invariant and meets no fault\<close>

lemma step_idle_pop:
  assumes inv: "sched_inv st as" and s: "WIdle \<in># sd_wk st"
  shows "sched_good (res_bind (skynet_globalmq_pop (sd_w st)) (\<lambda>(q, w).
      Inr (wk_move WIdle (case q of None \<Rightarrow> WIdle | Some q \<Rightarrow> WHave q) (st\<lparr>sd_w := w\<rparr>))))"
proof (cases as)
  case Nil
  have "claimed (wk_move WIdle WIdle (st\<lparr>sd_w := sd_w st\<rparr>)) [] = claimed st []"
    "held (wk_move WIdle WIdle (st\<lparr>sd_w := sd_w st\<rparr>)) = held st"
    using claimed_move [of WIdle st WIdle "[]" "[]"] held_move [of WIdle st WIdle] s by simp_all
  then have "sched_inv (wk_move WIdle WIdle (st\<lparr>sd_w := sd_w st\<rparr>)) []"
    using inv Nil local_move [of st WIdle WIdle] by (simp add: sched_inv_def)
  then show ?thesis
    using rings_pop_nil sched_invD(1) [OF inv] Nil by (intro sched_goodI) simp_all
next
  case (Cons a as')
  obtain w where w: "skynet_globalmq_pop (sd_w st) = Inr (Some a, w)" "rings_ok w as'" "rinfo w = rinfo (sd_w st)"
    by (rule rings_pop_cons [OF sched_invD(1) [OF inv, unfolded Cons]]) (rule that; assumption)
  let ?st = "wk_move WIdle (WHave a) (st\<lparr>sd_w := w\<rparr>)"
  have "claimed ?st as' = claimed st as" "held ?st = held st"
    using claimed_move [of WIdle "st\<lparr>sd_w := w\<rparr>" "WHave a" as' as] held_move [of WIdle "st\<lparr>sd_w := w\<rparr>" "WHave a"] s Cons
    by simp_all
  moreover have "local_ok ?st"
    by (rule local_move [OF local_w [OF sched_invD(5) [OF inv]]]) (simp_all add: w(3))
  ultimately have "sched_inv ?st as'"
    using inv w by (simp add: sched_inv_def)
  then show ?thesis
    using w(1) by (intro sched_goodI) simp_all
qed

lemma step_end_pop:
  assumes inv: "sched_inv st as" and s: "WEnd q c \<in># sd_wk st"
  shows "sched_good (res_bind (skynet_globalmq_pop (sd_w st)) (\<lambda>(nq, w).
      Inr (wk_move (WEnd q c) (case nq of None \<Rightarrow> WRel c (Some q) | Some n \<Rightarrow> WSwap q n c) (st\<lparr>sd_w := w\<rparr>))))"
proof (cases as)
  case Nil
  let ?st = "wk_move (WEnd q c) (WRel c (Some q)) (st\<lparr>sd_w := sd_w st\<rparr>)"
  have "claimed ?st [] = claimed st []" "held ?st = held st"
    using claimed_move [of "WEnd q c" st "WRel c (Some q)" "[]" "[]"] held_move [of "WEnd q c" st "WRel c (Some q)"] s
    by simp_all
  then have "sched_inv ?st []"
    using inv Nil local_move [of st "WRel c (Some q)"] by (simp add: sched_inv_def)
  then show ?thesis
    using rings_pop_nil sched_invD(1) [OF inv] Nil by (intro sched_goodI) simp_all
next
  case (Cons a as')
  obtain w where w: "skynet_globalmq_pop (sd_w st) = Inr (Some a, w)" "rings_ok w as'" "rinfo w = rinfo (sd_w st)"
    by (rule rings_pop_cons [OF sched_invD(1) [OF inv, unfolded Cons]]) (rule that; assumption)
  let ?st = "wk_move (WEnd q c) (WSwap q a c) (st\<lparr>sd_w := w\<rparr>)"
  have "claimed ?st as' + {#q#} = claimed st as + {#q#}" "held ?st + {#c#} = held st + {#c#}"
    using claimed_move [of "WEnd q c" "st\<lparr>sd_w := w\<rparr>" "WSwap q a c" as' as]
      held_move [of "WEnd q c" "st\<lparr>sd_w := w\<rparr>" "WSwap q a c"] s Cons by simp_all
  then have "claimed ?st as' = claimed st as" "held ?st = held st"
    by simp_all
  moreover have "\<exists>k. sd_ctx st c = Some k \<and> sc_queue k = q"
    using sched_invD(5) [OF inv] s by (force simp: local_ok_def)
  then have "local_ok ?st"
    by (intro local_move [OF local_w [OF sched_invD(5) [OF inv]]]) (auto simp: w(3))
  ultimately have "sched_inv ?st as'"
    using inv w by (simp add: sched_inv_def)
  then show ?thesis
    using w(1) by (intro sched_goodI) simp_all
qed

lemma step_swap_push:
  assumes inv: "sched_inv st as" and s: "WSwap q n c \<in># sd_wk st"
  shows "sched_good (res_bind (skynet_globalmq_push (sd_w st) q) (\<lambda>w.
      Inr (wk_move (WSwap q n c) (WRel c (Some n)) (st\<lparr>sd_w := w\<rparr>))))"
proof -
  have out: "q \<notin> set as" "rinfo (sd_w st) q \<noteq> None"
    using worker_claim(1) [OF inv s, of q] worker_alloc [OF inv s, of q] by simp_all
  obtain w where w: "skynet_globalmq_push (sd_w st) q = Inr w" "rings_ok w (as @ [q])" "rinfo w = rinfo (sd_w st)"
    by (rule rings_push [OF sched_invD(1) [OF inv] out]) (rule that; assumption)
  let ?st = "wk_move (WSwap q n c) (WRel c (Some n)) (st\<lparr>sd_w := w\<rparr>)"
  have "claimed ?st (as @ [q]) + {#n#} = claimed st as + {#n#}" "held ?st + {#c#} = held st + {#c#}"
    using claimed_move [of "WSwap q n c" "st\<lparr>sd_w := w\<rparr>" "WRel c (Some n)" "as @ [q]" as]
      held_move [of "WSwap q n c" "st\<lparr>sd_w := w\<rparr>" "WRel c (Some n)"] s by simp_all
  then have "claimed ?st (as @ [q]) = claimed st as" "held ?st = held st"
    by simp_all
  moreover have "local_ok ?st"
    by (rule local_move [OF local_w [OF sched_invD(5) [OF inv]]]) (auto simp: w(3))
  ultimately have "sched_inv ?st (as @ [q])"
    using inv w by (simp add: sched_inv_def)
  then show ?thesis
    using w(1) by (intro sched_goodI) simp_all
qed

lemma step_run_end:
  assumes inv: "sched_inv st as" and s: "WRun q c \<in># sd_wk st"
  shows "sched_good (res_bind (deref (sd_ctx st) c) (\<lambda>k.
      if q \<noteq> sc_queue k then Inl Assert_Failed else Inr (wk_move (WRun q c) (WEnd q c) st)))"
proof -
  obtain k where k: "sd_ctx st c = Some k" "sc_queue k = q"
    using sched_invD(5) [OF inv] s by (force simp: local_ok_def)
  let ?st = "wk_move (WRun q c) (WEnd q c) st"
  have "claimed ?st as + {#q#} = claimed st as + {#q#}" "held ?st + {#c#} = held st + {#c#}"
    using claimed_move [of "WRun q c" st "WEnd q c" as as] held_move [of "WRun q c" st "WEnd q c"] s by simp_all
  then have "claimed ?st as = claimed st as" "held ?st = held st"
    by simp_all
  moreover have "local_ok ?st"
    by (rule local_move [OF sched_invD(5) [OF inv]]) (use k in auto)
  ultimately have "sched_inv ?st as"
    using inv by (simp add: sched_inv_def)
  then show ?thesis
    using k by (intro sched_goodI) simp_all
qed

lemma sched_grab_good:
  assumes inv: "sched_inv st as" and k: "sd_ctx st c = Some k" "0 < sc_ref k"
  obtains st' where "sched_grab st c = Inr st'" "rings_ok (sd_w st') as" "claims_ok (rinfo (sd_w st')) (claimed st' as)"
    "refs_ok (sd_ctx st') (sd_tab st') (add_mset c (held st')) (sd_del st')" "links_ok (rinfo (sd_w st')) (sd_ctx st')"
    "local_ok st'" "sd_wk st' = sd_wk st" "claimed st' as = claimed st as" "held st' = held st"
    "\<And>d. map_option sc_queue (sd_ctx st' d) = map_option sc_queue (sd_ctx st d)"
proof -
  let ?st = "st\<lparr>sd_ctx := (sd_ctx st)(c \<mapsto> k\<lparr>sc_ref := sc_ref k + 1\<rparr>)\<rparr>"
  show ?thesis
    by (rule that [of ?st])
      (use inv k refs_grab [OF sched_invD(3) [OF inv] k] links_ctx [OF sched_invD(4) [OF inv] k(1)]
         local_ctx [OF sched_invD(5) [OF inv] k(1)] in \<open>auto simp: sched_grab_def sched_inv_def\<close>)
qed

lemma step_have_grab:
  assumes inv: "sched_inv st as" and s: "WHave q \<in># sd_wk st"
  shows "sched_good (res_bind (deref (mqs (sd_w st)) q) (\<lambda>r.
      case sd_tab st (mq_handle r) of
        None \<Rightarrow> Inr (wk_move (WHave q) (WDead q) st)
      | Some c \<Rightarrow> res_bind (sched_grab st c) (\<lambda>st. Inr (wk_move (WHave q) (WRun q c) st))))"
proof -
  obtain i where i: "rinfo (sd_w st) q = Some i"
    using worker_claim(2) [OF inv s, of q] by auto
  obtain r where r: "mqs (sd_w st) q = Some r" "i = ring_view r"
    by (rule rinfo_SomeE [OF i]) (rule that; assumption)
  show ?thesis
  proof (cases "sd_tab st (mq_handle r)")
    case None
    let ?st = "wk_move (WHave q) (WDead q) st"
    have "claimed ?st as + {#q#} = claimed st as + {#q#}" "held ?st = held st"
      using claimed_move [of "WHave q" st "WDead q" as as] held_move [of "WHave q" st "WDead q"] s by simp_all
    moreover have "local_ok ?st"
      by (rule local_move [OF sched_invD(5) [OF inv]]) simp
    ultimately have "sched_inv ?st as"
      using inv by (simp add: sched_inv_def)
    then show ?thesis
      using None r by (intro sched_goodI) simp_all
  next
    case (Some c)
    obtain k where k: "sd_ctx st c = Some k" "sc_handle k = mq_handle r" "0 < sc_ref k"
      using tab_ctx [OF sched_invD(3) [OF inv] Some] by blast
    obtain j where j: "rinfo (sd_w st) (sc_queue k) = Some j" "ri_handle j = sc_handle k"
      using links_okD(1) [OF sched_invD(4) [OF inv] k(1)] by blast
    have q: "sc_queue k = q"
      by (rule links_okD(3) [OF sched_invD(4) [OF inv] j(1) i]) (simp add: j(2) k(2) r(2) ring_view_def)
    obtain st' where st': "sched_grab st c = Inr st'" "rings_ok (sd_w st') as" "claims_ok (rinfo (sd_w st')) (claimed st' as)"
        "refs_ok (sd_ctx st') (sd_tab st') (add_mset c (held st')) (sd_del st')" "links_ok (rinfo (sd_w st')) (sd_ctx st')"
        "local_ok st'" "sd_wk st' = sd_wk st"
      and queues: "\<And>d. map_option sc_queue (sd_ctx st' d) = map_option sc_queue (sd_ctx st d)"
      by (rule sched_grab_good [OF inv k(1,3)]) (rule that; assumption)
    let ?st = "wk_move (WHave q) (WRun q c) st'"
    have "claimed ?st as + {#q#} = claimed st' as + {#q#}" "held ?st = add_mset c (held st')"
      using claimed_move [of "WHave q" st' "WRun q c" as as] held_move [of "WHave q" st' "WRun q c"] s st'(7) by simp_all
    moreover have "local_ok ?st"
      by (rule local_move [OF st'(6)]) (use queues [of c] k(1) q in auto)
    ultimately have "sched_inv ?st as"
      using st' by (simp add: sched_inv_def)
    then show ?thesis
      using Some r st'(1) by (intro sched_goodI) simp_all
  qed
qed

lemma step_run_pop:
  assumes inv: "sched_inv st as" and s: "WRun q c \<in># sd_wk st"
  shows "sched_good (res_bind (deref (mqs (sd_w st)) q) (\<lambda>r.
      case skynet_mq_pop r of (ret, m, r') \<Rightarrow>
        let st' = st\<lparr>sd_w := mq_store (sd_w st) q r'\<rparr> in
        if ret \<noteq> 0 then Inr (wk_move (WRun q c) (WRel c None) st')
        else if m = None then Inl Uninit_Read else Inr st'))"
proof -
  obtain k where k: "sd_ctx st c = Some k" "sc_queue k = q"
    using sched_invD(5) [OF inv] s by (force simp: local_ok_def)
  obtain i where i: "rinfo (sd_w st) q = Some i" "ri_rel i = 0"
    using links_okD(1) [OF sched_invD(4) [OF inv] k(1)] k(2) by blast
  have g: "ri_glob i = 1" and one: "count (claimed st as) q = 1"
    using worker_claim(2,3) [OF inv s, of q] i by auto
  show ?thesis
  proof (cases "ri_content i")
    case Nil
    obtain r r' where r: "mqs (sd_w st) q = Some r" "skynet_mq_pop r = (1, None, r')" "rings_ok (mq_store (sd_w st) q r') as"
        "rinfo (mq_store (sd_w st) q r') = (rinfo (sd_w st))(q \<mapsto> i\<lparr>ri_glob := 0\<rparr>)"
      by (rule rings_mq_pop_nil [OF sched_invD(1) [OF inv] i(1) Nil]) (rule that; assumption)
    let ?w = "mq_store (sd_w st) q r'"
    let ?st = "wk_move (WRun q c) (WRel c None) (st\<lparr>sd_w := ?w\<rparr>)"
    have cl: "claimed ?st as + {#q#} = claimed st as" and hd: "held ?st + {#c#} = held st + {#c#}"
      using claimed_move [of "WRun q c" "st\<lparr>sd_w := ?w\<rparr>" "WRel c None" as as]
        held_move [of "WRun q c" "st\<lparr>sd_w := ?w\<rparr>" "WRel c None"] s by simp_all
    have "claims_ok ((rinfo (sd_w st))(q \<mapsto> i\<lparr>ri_glob := 0\<rparr>)) (claimed ?st as)"
    proof (rule claims_upd [OF sched_invD(2) [OF inv]])
      show "count (claimed ?st as) p = count (claimed st as) p" if "p \<noteq> q" for p
        using arg_cong [OF cl, of "\<lambda>M. count M p"] that by simp
      show "count (claimed ?st as) q = ring_claims (Some (i\<lparr>ri_glob := 0\<rparr>))"
        using arg_cong [OF cl, of "\<lambda>M. count M q"] one i(2) by (simp add: ring_claims_def)
    qed (use i(2) Nil in auto)
    moreover have "links_ok ((rinfo (sd_w st))(q \<mapsto> i\<lparr>ri_glob := 0\<rparr>)) (sd_ctx st)"
      by (rule links_ring [OF sched_invD(4) [OF inv] i(1)]) simp_all
    moreover have "local_ok ?st"
      by (rule local_move [OF local_w [OF sched_invD(5) [OF inv]]]) (use r(4) i in \<open>auto split: if_splits\<close>)
    moreover have "held ?st = held st"
      using hd by simp
    ultimately have "sched_inv ?st as"
      using inv r(3,4) by (simp add: sched_inv_def)
    then show ?thesis
      using r(1,2) by (intro sched_goodI) (simp_all add: Let_def)
  next
    case (Cons m ms)
    obtain r r' where r: "mqs (sd_w st) q = Some r" "skynet_mq_pop r = (0, Some m, r')" "rings_ok (mq_store (sd_w st) q r') as"
        "rinfo (mq_store (sd_w st) q r') = (rinfo (sd_w st))(q \<mapsto> i\<lparr>ri_content := ms\<rparr>)"
      by (rule rings_mq_pop_cons [OF sched_invD(1) [OF inv] i(1) Cons]) (rule that; assumption)
    let ?st = "st\<lparr>sd_w := mq_store (sd_w st) q r'\<rparr>"
    have "claims_ok ((rinfo (sd_w st))(q \<mapsto> i\<lparr>ri_content := ms\<rparr>)) (claimed ?st as)"
      by (rule claims_upd [OF sched_invD(2) [OF inv]]) (use one g i(2) in \<open>auto simp: ring_claims_def\<close>)
    moreover have "links_ok ((rinfo (sd_w st))(q \<mapsto> i\<lparr>ri_content := ms\<rparr>)) (sd_ctx st)"
      by (rule links_ring [OF sched_invD(4) [OF inv] i(1)]) simp_all
    moreover have "local_ok ?st"
      by (rule local_w [OF sched_invD(5) [OF inv]]) (use r(4) i in \<open>auto split: if_splits\<close>)
    ultimately have "sched_inv ?st as"
      using inv r(3,4) by (simp add: sched_inv_def)
    then show ?thesis
      using r(1,2) by (intro sched_goodI) (simp_all add: Let_def)
  qed
qed

text \<open>Dropping a reference somebody holds.\<close>

lemma sched_release_good:
  assumes inv: "rings_ok (sd_w st) as" "claims_ok (rinfo (sd_w st)) (claimed st as)"
    "refs_ok (sd_ctx st) (sd_tab st) (add_mset c hld) (sd_del st)" "links_ok (rinfo (sd_w st)) (sd_ctx st)" "local_ok st"
  obtains st' where "sched_release st c = Inr st'" "rings_ok (sd_w st') as" "claims_ok (rinfo (sd_w st')) (claimed st' as)"
    "refs_ok (sd_ctx st') (sd_tab st') hld (sd_del st')" "links_ok (rinfo (sd_w st')) (sd_ctx st')" "local_ok st'"
    "sd_wk st' = sd_wk st" "sd_env st' = sd_env st" "held st' = held st" "claimed st' as = claimed st as"
proof -
  obtain k where k: "sd_ctx st c = Some k"
    using held_ctx [OF inv(3), of c] by auto
  let ?st = "st\<lparr>sd_ctx := (sd_ctx st)(c \<mapsto> k\<lparr>sc_ref := sc_ref k - 1\<rparr>),
    sd_del := (if sc_ref k - 1 = 0 then add_mset c (sd_del st) else sd_del st)\<rparr>"
  have rel: "sched_release st c = Inr ?st"
    using k by (simp add: sched_release_def)
  have refs: "refs_ok (sd_ctx ?st) (sd_tab ?st) hld (sd_del ?st)"
    using refs_release [OF inv(3) k] by simp
  have loc: "local_ok ?st"
    using local_ctx [OF inv(5) k] by simp
  have links: "links_ok (rinfo (sd_w ?st)) (sd_ctx ?st)"
    using links_ctx [OF inv(4) k] by simp
  show ?thesis
    by (rule that [OF rel _ _ refs links loc]) (use inv in simp_all)
qed

lemma step_wk_release:
  assumes inv: "sched_inv st as" and s: "WRel c nx \<in># sd_wk st"
  shows "sched_good (res_bind (sched_release st c) (\<lambda>st.
      Inr (wk_move (WRel c nx) (case nx of None \<Rightarrow> WIdle | Some q \<Rightarrow> WHave q) st)))"
proof -
  let ?s' = "case nx of None \<Rightarrow> WIdle | Some q \<Rightarrow> WHave q"
  let ?h = "held (wk_move (WRel c nx) ?s' st)"
  have h: "held st = add_mset c ?h"
    using held_move [OF s, of ?s'] by (cases nx) simp_all
  obtain st' where st': "sched_release st c = Inr st'" "rings_ok (sd_w st') as" "claims_ok (rinfo (sd_w st')) (claimed st' as)"
      "refs_ok (sd_ctx st') (sd_tab st') ?h (sd_del st')" "links_ok (rinfo (sd_w st')) (sd_ctx st')" "local_ok st'"
      "sd_wk st' = sd_wk st" "sd_env st' = sd_env st"
    by (rule sched_release_good [OF sched_invD(1,2) [OF inv] sched_invD(3) [OF inv, unfolded h] sched_invD(4,5) [OF inv]])
      (rule that; assumption)
  let ?st = "wk_move (WRel c nx) ?s' st'"
  have "claimed ?st as = claimed st' as"
    using claimed_move [of "WRel c nx" st' ?s' as as] s st'(7) by (cases nx) simp_all
  moreover have "held ?st = ?h"
    using st'(7,8) by (simp add: held_def wk_move_def)
  moreover have "local_ok ?st"
    by (rule local_move [OF st'(6)]) (auto split: option.splits)
  ultimately have "sched_inv ?st as"
    using st' by (simp add: sched_inv_def)
  then show ?thesis
    using st'(1) by (intro sched_goodI) simp_all
qed

lemma step_env_release:
  assumes inv: "sched_inv st as" and c: "c \<in># sd_env st"
  shows "sched_good (res_bind (sched_release st c) (\<lambda>st. Inr (st\<lparr>sd_env := sd_env st - {#c#}\<rparr>)))"
proof -
  let ?h = "held (st\<lparr>sd_env := sd_env st - {#c#}\<rparr>)"
  have h: "held st = add_mset c ?h"
    using c by (simp add: held_def)
  obtain st' where st': "sched_release st c = Inr st'" "rings_ok (sd_w st') as" "claims_ok (rinfo (sd_w st')) (claimed st' as)"
      "refs_ok (sd_ctx st') (sd_tab st') ?h (sd_del st')" "links_ok (rinfo (sd_w st')) (sd_ctx st')" "local_ok st'"
      "sd_wk st' = sd_wk st" "sd_env st' = sd_env st"
    by (rule sched_release_good [OF sched_invD(1,2) [OF inv] sched_invD(3) [OF inv, unfolded h] sched_invD(4,5) [OF inv]])
      (rule that; assumption)
  have "held (st'\<lparr>sd_env := sd_env st' - {#c#}\<rparr>) = ?h"
    using st'(7,8) by (simp add: held_def)
  then have "sched_inv (st'\<lparr>sd_env := sd_env st' - {#c#}\<rparr>) as"
    using st' by (simp add: sched_inv_def)
  then show ?thesis
    using st'(1) by (intro sched_goodI) simp_all
qed

lemma step_env_grab:
  assumes inv: "sched_inv st as" and h: "sd_tab st h = Some c"
  shows "sched_good (res_bind (sched_grab st c) (\<lambda>st. Inr (st\<lparr>sd_env := add_mset c (sd_env st)\<rparr>)))"
proof -
  obtain k where k: "sd_ctx st c = Some k" "0 < sc_ref k"
    using tab_ctx [OF sched_invD(3) [OF inv] h] by blast
  obtain st' where st': "sched_grab st c = Inr st'" "rings_ok (sd_w st') as" "claims_ok (rinfo (sd_w st')) (claimed st' as)"
      "refs_ok (sd_ctx st') (sd_tab st') (add_mset c (held st')) (sd_del st')" "links_ok (rinfo (sd_w st')) (sd_ctx st')"
      "local_ok st'"
    by (rule sched_grab_good [OF inv k]) (rule that; assumption)
  have "held (st'\<lparr>sd_env := add_mset c (sd_env st')\<rparr>) = add_mset c (held st')"
    by (simp add: held_def)
  then have "sched_inv (st'\<lparr>sd_env := add_mset c (sd_env st')\<rparr>) as"
    using st' by (simp add: sched_inv_def)
  then show ?thesis
    using st'(1) by (intro sched_goodI) simp_all
qed

lemma step_env_retire:
  assumes inv: "sched_inv st as" and h: "sd_tab st h = Some c"
  shows "sched_good (Inr (st\<lparr>sd_tab := (sd_tab st)(h := None), sd_env := add_mset c (sd_env st)\<rparr>))"
proof -
  let ?st = "st\<lparr>sd_tab := (sd_tab st)(h := None), sd_env := add_mset c (sd_env st)\<rparr>"
  have "held ?st = add_mset c (held st)"
    by (simp add: held_def)
  then have "sched_inv ?st as"
    using inv refs_retire [OF sched_invD(3) [OF inv] h] by (simp add: sched_inv_def)
  then show ?thesis
    by (intro sched_goodI) simp_all
qed

text \<open>\<open>skynet_mq_release\<close> by the thread that claims the ring: the claim passes to the list or to the drop loop.\<close>

lemma sched_mq_release_good:
  assumes inv: "sched_inv st as" and q: "rinfo (sd_w st) q \<noteq> None" "q \<notin> set as"
  obtains st' as' where "sched_mq_release st q = Inr st'" "rings_ok (sd_w st') as'" "rinfo (sd_w st') = rinfo (sd_w st)"
    "\<And>M. claimed (st'\<lparr>sd_ini := M\<rparr>) as' = add_mset q (claimed (st\<lparr>sd_ini := M\<rparr>) as)"
    "claimed st' as' = add_mset q (claimed st as)" "local_ok st'" "held st' = held st"
    "sd_ctx st' = sd_ctx st" "sd_tab st' = sd_tab st" "sd_wk st' = sd_wk st" "sd_ini st' = sd_ini st" "sd_del st' = sd_del st"
proof -
  obtain i where i: "rinfo (sd_w st) q = Some i"
    using q(1) by blast
  obtain r where r: "mqs (sd_w st) q = Some r" "i = ring_view r"
    by (rule rinfo_SomeE [OF i]) (rule that; assumption)
  show ?thesis
  proof (cases "mq_release r = 0")
    case False
    let ?st = "st\<lparr>sd_drop := add_mset q (sd_drop st)\<rparr>"
    have "ri_rel i = 1"
      using claims_okD(2) [OF sched_invD(2) [OF inv] i] False r(2) by (simp add: ring_view_def)
    then have loc: "local_ok ?st"
      using sched_invD(5) [OF inv] i by (auto simp: local_ok_def)
    show ?thesis
      by (rule that [of ?st as]) (use r False loc sched_invD(1) [OF inv] in \<open>simp_all add: sched_mq_release_def claimed_def\<close>)
  next
    case True
    obtain w where w: "skynet_globalmq_push (sd_w st) q = Inr w" "rings_ok w (as @ [q])" "rinfo w = rinfo (sd_w st)"
      by (rule rings_push [OF sched_invD(1) [OF inv] q(2,1)]) (rule that; assumption)
    have loc: "local_ok (st\<lparr>sd_w := w\<rparr>)"
      by (rule local_w [OF sched_invD(5) [OF inv]]) (simp add: w(3))
    show ?thesis
      by (rule that [of "st\<lparr>sd_w := w\<rparr>" "as @ [q]"])
        (use r True loc w in \<open>simp_all add: sched_mq_release_def claimed_def held_def\<close>)
  qed
qed

lemma step_dead_release:
  assumes inv: "sched_inv st as" and s: "WDead q \<in># sd_wk st"
  shows "sched_good (res_bind (sched_mq_release st q) (\<lambda>st. Inr (wk_move (WDead q) WIdle st)))"
proof -
  have q: "rinfo (sd_w st) q \<noteq> None" "q \<notin> set as"
    using worker_claim(1) [OF inv s, of q] worker_alloc [OF inv s, of q] by simp_all
  obtain st' as' where st': "sched_mq_release st q = Inr st'" "rings_ok (sd_w st') as'" "rinfo (sd_w st') = rinfo (sd_w st)"
    and cl: "claimed st' as' = add_mset q (claimed st as)" and loc: "local_ok st'" and hd: "held st' = held st"
    and fr: "sd_ctx st' = sd_ctx st" "sd_tab st' = sd_tab st" "sd_wk st' = sd_wk st" "sd_del st' = sd_del st"
    by (rule sched_mq_release_good [OF inv q]) (rule that; assumption)
  let ?st = "wk_move (WDead q) WIdle st'"
  have "claimed ?st as' + {#q#} = claimed st' as'" "held ?st = held st'"
    using claimed_move [of "WDead q" st' WIdle as' as'] held_move [of "WDead q" st' WIdle] s fr by simp_all
  then have "claimed ?st as' = claimed st as" "held ?st = held st"
    using cl hd by simp_all
  moreover have "local_ok ?st"
    by (rule local_move [OF loc]) simp
  ultimately have "sched_inv ?st as'"
    using inv st'(2,3) fr by (simp add: sched_inv_def)
  then show ?thesis
    using st'(1) by (intro sched_goodI) simp_all
qed

text \<open>The launcher's claim.\<close>

lemma ini_claim:
  assumes "sched_inv st as" "q \<in># sd_ini st"
  shows "rinfo (sd_w st) q \<noteq> None" "q \<notin> set as"
    "add_mset q (claimed (st\<lparr>sd_ini := sd_ini st - {#q#}\<rparr>) as) = claimed st as"
proof -
  have q: "q \<in># claimed st as"
    using assms(2) by (simp add: claimed_def)
  show "rinfo (sd_w st) q \<noteq> None"
    using claim_ring(1) [OF sched_invD(2) [OF assms(1)] q] by (metis option.distinct(1))
  have pos: "0 < count (sd_ini st) q"
    using assms(2) by simp
  have "count (mset as) q + count (sd_ini st) q \<le> 1"
    using claim_ring(2) [OF sched_invD(2) [OF assms(1)] q] unfolding count_claimed by linarith
  then have "count (mset as) q = 0"
    using pos by linarith
  then show "q \<notin> set as"
    by (simp add: count_eq_zero_iff)
  obtain M where "sd_ini st = add_mset q M"
    using assms(2) by (metis multi_member_split)
  then show "add_mset q (claimed (st\<lparr>sd_ini := sd_ini st - {#q#}\<rparr>) as) = claimed st as"
    by (simp add: claimed_def)
qed

lemma step_launched:
  assumes inv: "sched_inv st as" and q: "q \<in># sd_ini st"
  shows "sched_good (res_bind (skynet_globalmq_push (sd_w st) q) (\<lambda>w. Inr (st\<lparr>sd_w := w, sd_ini := sd_ini st - {#q#}\<rparr>)))"
proof -
  note cl = ini_claim [OF inv q]
  obtain w where w: "skynet_globalmq_push (sd_w st) q = Inr w" "rings_ok w (as @ [q])" "rinfo w = rinfo (sd_w st)"
    by (rule rings_push [OF sched_invD(1) [OF inv] cl(2,1)]) (rule that; assumption)
  let ?st = "st\<lparr>sd_w := w, sd_ini := sd_ini st - {#q#}\<rparr>"
  have "claimed ?st (as @ [q]) = claimed st as"
    using cl(3) by (simp add: claimed_def)
  moreover have "local_ok ?st"
    using local_w [OF sched_invD(5) [OF inv], of w] w(3) by simp
  ultimately have "sched_inv ?st (as @ [q])"
    using inv w by (simp add: sched_inv_def)
  then show ?thesis
    using w(1) by (intro sched_goodI) simp_all
qed

lemma step_launch_failed:
  assumes inv: "sched_inv st as" and q: "q \<in># sd_ini st"
  shows "sched_good (res_bind (sched_mq_release st q) (\<lambda>st. Inr (st\<lparr>sd_ini := sd_ini st - {#q#}\<rparr>)))"
proof -
  note cl = ini_claim [OF inv q]
  obtain st' as' where st': "sched_mq_release st q = Inr st'" "rings_ok (sd_w st') as'" "rinfo (sd_w st') = rinfo (sd_w st)"
    and clm: "\<And>M. claimed (st'\<lparr>sd_ini := M\<rparr>) as' = add_mset q (claimed (st\<lparr>sd_ini := M\<rparr>) as)" and loc: "local_ok st'" and hd: "held st' = held st"
    and fr: "sd_ctx st' = sd_ctx st" "sd_tab st' = sd_tab st" "sd_ini st' = sd_ini st" "sd_del st' = sd_del st"
    by (rule sched_mq_release_good [OF inv cl(1,2)]) (rule that; assumption)
  let ?st = "st'\<lparr>sd_ini := sd_ini st' - {#q#}\<rparr>"
  have "claimed ?st as' = claimed st as"
    using clm [of "sd_ini st - {#q#}"] cl(3) fr(3) by simp
  then have "sched_inv ?st as'"
    using inv st'(2,3) fr loc hd by (simp add: sched_inv_def)
  then show ?thesis
    using st'(1) by (intro sched_goodI) simp_all
qed

lemma step_launch:
  assumes inv: "sched_inv st as" and new: "sd_ctx st c = None" "mqs (sd_w st) q = None" "sd_tab st h = None"
    and h: "\<forall>p r. mqs (sd_w st) p = Some r \<longrightarrow> mq_handle r \<noteq> h"
  shows "sched_good (Inr (st\<lparr>sd_w := skynet_mq_create (sd_w st) q h,
      sd_ctx := (sd_ctx st)(c \<mapsto> \<lparr>sc_queue = q, sc_handle = h, sc_ref = 2\<rparr>), sd_tab := (sd_tab st)(h \<mapsto> c),
      sd_env := add_mset c (sd_env st), sd_ini := add_mset q (sd_ini st)\<rparr>))"
proof -
  let ?i = "\<lparr>ri_content = [], ri_glob = 1, ri_rel = 0, ri_handle = h\<rparr>"
  let ?w = "skynet_mq_create (sd_w st) q h"
  let ?k = "\<lparr>sc_queue = q, sc_handle = h, sc_ref = 2\<rparr>"
  let ?st = "st\<lparr>sd_w := ?w, sd_ctx := (sd_ctx st)(c \<mapsto> ?k), sd_tab := (sd_tab st)(h \<mapsto> c),
      sd_env := add_mset c (sd_env st), sd_ini := add_mset q (sd_ini st)\<rparr>"
  note w = rings_create [OF sched_invD(1) [OF inv] new(2), of h]
  have ri: "rinfo (sd_w st) q = None"
    using new(2) by simp
  have cl: "claimed ?st as = add_mset q (claimed st as)" and hd: "held ?st = add_mset c (held st)"
    by (simp_all add: claimed_def held_def)
  have zero: "count (claimed st as) q = 0"
    using claims_okD(1) [OF sched_invD(2) [OF inv], of q] ri by (simp add: ring_claims_def)
  have "claims_ok ((rinfo (sd_w st))(q \<mapsto> ?i)) (claimed ?st as)"
    unfolding cl by (rule claims_upd [OF sched_invD(2) [OF inv]]) (use zero in \<open>auto simp: ring_claims_def\<close>)
  moreover have "refs_ok (sd_ctx ?st) (sd_tab ?st) (held ?st) (sd_del ?st)"
    unfolding hd using refs_launch [OF sched_invD(3) [OF inv] new(1,3), of q] by simp
  moreover have "links_ok ((rinfo (sd_w st))(q \<mapsto> ?i)) ((sd_ctx st)(c \<mapsto> ?k))"
  proof -
    note L = links_okD [OF sched_invD(4) [OF inv]]
    have nq: "sc_queue k \<noteq> q" if "sd_ctx st d = Some k" for d k
      using L(1) [OF that] ri by (metis option.distinct(1))
    have nh: "ri_handle j \<noteq> h" if j: "rinfo (sd_w st) p = Some j" for p j
    proof -
      obtain r where "mqs (sd_w st) p = Some r" "j = ring_view r"
        by (rule rinfo_SomeE [OF j]) (rule that; assumption)
      then show ?thesis
        using h by (simp add: ring_view_def)
    qed
    have updc: "(d = c \<and> k = ?k) \<or> sd_ctx st d = Some k" if "((sd_ctx st)(c \<mapsto> ?k)) d = Some k" for d k
      using that by (auto split: if_splits)
    have upd: "(p = q \<and> j = ?i) \<or> rinfo (sd_w st) p = Some j" if "((rinfo (sd_w st))(q \<mapsto> ?i)) p = Some j" for p j
      using that by (auto split: if_splits)
    show ?thesis
      unfolding links_ok_def
    proof (intro conjI allI impI)
      show "\<exists>i. ((rinfo (sd_w st))(q \<mapsto> ?i)) (sc_queue k) = Some i \<and> ri_rel i = 0 \<and> ri_handle i = sc_handle k"
        if "((sd_ctx st)(c \<mapsto> ?k)) d = Some k" for d k
        using that L(1) [of d k] nq [of d k] by (cases "d = c") auto
    next
      show "d = d'" if "((sd_ctx st)(c \<mapsto> ?k)) d = Some k" "((sd_ctx st)(c \<mapsto> ?k)) d' = Some k'" "sc_queue k = sc_queue k'" for d d' k k'
        using updc [OF that(1)] updc [OF that(2)]
      proof (elim disjE conjE)
        show ?thesis if "sd_ctx st d = Some k" "sd_ctx st d' = Some k'"
          by (rule L(2) [OF that \<open>sc_queue k = sc_queue k'\<close>])
      qed (use nq \<open>sc_queue k = sc_queue k'\<close> in auto)
    next
      show "p = p'" if "((rinfo (sd_w st))(q \<mapsto> ?i)) p = Some j" "((rinfo (sd_w st))(q \<mapsto> ?i)) p' = Some j'" "ri_handle j = ri_handle j'" for p p' j j'
        using upd [OF that(1)] upd [OF that(2)]
      proof (elim disjE conjE)
        show ?thesis if "rinfo (sd_w st) p = Some j" "rinfo (sd_w st) p' = Some j'"
          by (rule L(3) [OF that \<open>ri_handle j = ri_handle j'\<close>])
      qed (use nh \<open>ri_handle j = ri_handle j'\<close> in auto)
    qed
  qed
  moreover have "local_ok ?st"
    unfolding local_ok_def
  proof (intro conjI ballI allI impI)
    fix s p d
    assume "s \<in># sd_wk ?st" "wruns s = Some (p, d)"
    then obtain k where "sd_ctx st d = Some k" "sc_queue k = p"
      using sched_invD(5) [OF inv] by (fastforce simp: local_ok_def)
    then show "\<exists>k. sd_ctx ?st d = Some k \<and> sc_queue k = p"
      using new(1) by (cases "d = c") simp_all
  next
    fix p
    assume "p \<in># sd_drop ?st"
    then obtain i where "rinfo (sd_w st) p = Some i" "ri_rel i = 1"
      using sched_invD(5) [OF inv] by (auto simp: local_ok_def)
    then show "\<exists>i. rinfo (sd_w ?st) p = Some i \<and> ri_rel i = 1"
      using ri w(2) by (cases "p = q") simp_all
  qed
  ultimately have "sched_inv ?st as"
    using w by (simp add: sched_inv_def)
  then show ?thesis
    by (intro sched_goodI) simp_all
qed

lemma step_env_push:
  assumes inv: "sched_inv st as" and c: "c \<in># sd_env st"
  shows "sched_good (res_bind (deref (sd_ctx st) c) (\<lambda>k.
      res_bind (skynet_mq_push (sd_w st) (sc_queue k) m) (\<lambda>w. Inr (st\<lparr>sd_w := w\<rparr>))))"
proof -
  have "c \<in># held st"
    using c by (simp add: held_def)
  then obtain k where k: "sd_ctx st c = Some k"
    using held_ctx [OF sched_invD(3) [OF inv]] by blast
  let ?q = "sc_queue k"
  obtain i where i: "rinfo (sd_w st) ?q = Some i" "ri_rel i = 0"
    using links_okD(1) [OF sched_invD(4) [OF inv] k] by blast
  have cnt: "count (claimed st as) ?q = ring_claims (Some i)"
    using claims_okD(1) [OF sched_invD(2) [OF inv], of ?q] i(1) by simp
  have le: "ri_glob i \<le> 1"
    using claims_okD(2) [OF sched_invD(2) [OF inv] i(1)] by simp
  have out: "ri_glob i = 0 \<longrightarrow> ?q \<notin> set as"
    using cnt i(2) by (auto simp: ring_claims_def claimed_def)
  let ?i = "i\<lparr>ri_content := ri_content i @ [m], ri_glob := (if ri_glob i = 0 then 1 else ri_glob i)\<rparr>"
  obtain w where w: "skynet_mq_push (sd_w st) ?q m = Inr w" "rings_ok w (if ri_glob i = 0 then as @ [?q] else as)"
      "rinfo w = (rinfo (sd_w st))(?q \<mapsto> ?i)"
    by (rule rings_mq_push [OF sched_invD(1) [OF inv] i(1) out, of m]) (rule that; assumption)
  let ?as = "if ri_glob i = 0 then as @ [?q] else as"
  let ?st = "st\<lparr>sd_w := w\<rparr>"
  have "claims_ok ((rinfo (sd_w st))(?q \<mapsto> ?i)) (claimed ?st ?as)"
    by (rule claims_upd [OF sched_invD(2) [OF inv]]) (use cnt le i(2) in \<open>auto simp: ring_claims_def claimed_def split: if_splits\<close>)
  moreover have "links_ok ((rinfo (sd_w st))(?q \<mapsto> ?i)) (sd_ctx st)"
    by (rule links_ring [OF sched_invD(4) [OF inv] i(1)]) simp_all
  moreover have "local_ok ?st"
    by (rule local_w [OF sched_invD(5) [OF inv]]) (use w(3) i in \<open>auto split: if_splits\<close>)
  ultimately have "sched_inv ?st ?as"
    using inv w(2,3) by (simp add: sched_inv_def)
  then show ?thesis
    using k w(1) by (intro sched_goodI) simp_all
qed

lemma in_drop:
  assumes inv: "sched_inv st as" and q: "q \<in># sd_drop st"
  obtains i where "rinfo (sd_w st) q = Some i" "ri_rel i = 1" "q \<notin> set as" "count (claimed st as) q = 1"
    "count (sd_drop st) q = 1"
proof -
  obtain i where i: "rinfo (sd_w st) q = Some i" "ri_rel i = 1"
    using sched_invD(5) [OF inv] q by (auto simp: local_ok_def)
  have one: "count (claimed st as) q = 1"
    using claims_okD(1) [OF sched_invD(2) [OF inv], of q] i by (simp add: ring_claims_def)
  have "1 \<le> count (sd_drop st) q"
    using q by (metis count_greater_eq_one_iff)
  then have "count (mset as) q = 0" "count (sd_drop st) q = 1"
    using one unfolding count_claimed by linarith+
  then have "q \<notin> set as" "count (sd_drop st) q = 1"
    by (simp_all add: count_eq_zero_iff)
  then show ?thesis
    using that i one by blast
qed

lemma step_drop_pop:
  assumes inv: "sched_inv st as" and q: "q \<in># sd_drop st"
  shows "sched_good (res_bind (deref (mqs (sd_w st)) q) (\<lambda>r.
      case skynet_mq_pop r of (ret, m, r') \<Rightarrow>
        if ret \<noteq> 0 then
          res_bind (mq_free (mq_store (sd_w st) q r') q) (\<lambda>w. Inr (st\<lparr>sd_w := w, sd_drop := sd_drop st - {#q#}\<rparr>))
        else if m = None then Inl Uninit_Read else Inr (st\<lparr>sd_w := mq_store (sd_w st) q r'\<rparr>)))"
proof -
  obtain i where i: "rinfo (sd_w st) q = Some i" "ri_rel i = 1" "q \<notin> set as" "count (claimed st as) q = 1"
      "count (sd_drop st) q = 1"
    by (rule in_drop [OF inv q]) (rule that; assumption)
  have unlinked: "sc_queue k \<noteq> q" if "sd_ctx st c = Some k" for c k
    using links_okD(1) [OF sched_invD(4) [OF inv] that] i(1,2) by auto
  show ?thesis
  proof (cases "ri_content i")
    case Nil
    obtain r r' where r: "mqs (sd_w st) q = Some r" "skynet_mq_pop r = (1, None, r')" "rings_ok (mq_store (sd_w st) q r') as"
        "rinfo (mq_store (sd_w st) q r') = (rinfo (sd_w st))(q \<mapsto> i\<lparr>ri_glob := 0\<rparr>)"
      by (rule rings_mq_pop_nil [OF sched_invD(1) [OF inv] i(1) Nil]) (rule that; assumption)
    have "rinfo (mq_store (sd_w st) q r') q \<noteq> None"
      by (simp add: r(4))
    then obtain w where w: "mq_free (mq_store (sd_w st) q r') q = Inr w" "rings_ok w as"
        "rinfo w = (rinfo (mq_store (sd_w st) q r'))(q := None)"
      by (rule rings_free [OF r(3) _ i(3)]) (rule that; assumption)
    let ?st = "st\<lparr>sd_w := w, sd_drop := sd_drop st - {#q#}\<rparr>"
    have info: "rinfo w = (rinfo (sd_w st))(q := None)"
      by (simp add: w(3) r(4))
    have "claims_ok ((rinfo (sd_w st))(q := None)) (claimed ?st as)"
      by (rule claims_upd [OF sched_invD(2) [OF inv]]) (use i(4,5) in \<open>auto simp: count_claimed ring_claims_def\<close>)
    moreover have "links_ok ((rinfo (sd_w st))(q := None)) (sd_ctx st)"
      by (rule links_unlinked [OF sched_invD(4) [OF inv] unlinked]) simp_all
    moreover have "q \<notin># sd_drop st - {#q#}"
      using i(5) by (simp add: not_in_iff)
    then have "local_ok ?st"
      using sched_invD(5) [OF inv] info unfolding local_ok_def by (auto dest: in_diffD)
    ultimately have "sched_inv ?st as"
      using inv w(2) info by (simp add: sched_inv_def held_def)
    then show ?thesis
      using r(1,2) w(1) by (intro sched_goodI) simp_all
  next
    case (Cons m ms)
    obtain r r' where r: "mqs (sd_w st) q = Some r" "skynet_mq_pop r = (0, Some m, r')" "rings_ok (mq_store (sd_w st) q r') as"
        "rinfo (mq_store (sd_w st) q r') = (rinfo (sd_w st))(q \<mapsto> i\<lparr>ri_content := ms\<rparr>)"
      by (rule rings_mq_pop_cons [OF sched_invD(1) [OF inv] i(1) Cons]) (rule that; assumption)
    let ?st = "st\<lparr>sd_w := mq_store (sd_w st) q r'\<rparr>"
    have "claims_ok ((rinfo (sd_w st))(q \<mapsto> i\<lparr>ri_content := ms\<rparr>)) (claimed ?st as)"
      by (rule claims_upd [OF sched_invD(2) [OF inv]])
        (use i(2,4) claims_okD(2) [OF sched_invD(2) [OF inv] i(1)] in \<open>auto simp: ring_claims_def\<close>)
    moreover have "links_ok ((rinfo (sd_w st))(q \<mapsto> i\<lparr>ri_content := ms\<rparr>)) (sd_ctx st)"
      by (rule links_ring [OF sched_invD(4) [OF inv] i(1)]) simp_all
    moreover have "local_ok ?st"
      by (rule local_w [OF sched_invD(5) [OF inv]]) (use r(4) i in \<open>auto split: if_splits\<close>)
    ultimately have "sched_inv ?st as"
      using inv r(3,4) by (simp add: sched_inv_def)
    then show ?thesis
      using r(1,2) by (intro sched_goodI) simp_all
  qed
qed

text \<open>\<open>delete_context\<close> marks the ring; from then on nothing refers to the context.\<close>

lemma held_run:
  assumes "s \<in># sd_wk st" "wruns s = Some (q, c)"
  shows "c \<in># held st"
proof -
  have "c \<in># wrefs s"
    using assms(2) by (cases s) auto
  then show ?thesis
    using assms(1) by (auto simp: held_def)
qed

lemma local_drop_ctx:
  assumes "local_ok st" "count (held st) c = 0"
  shows "local_ok (st\<lparr>sd_ctx := (sd_ctx st)(c := None)\<rparr>)"
proof -
  have "d \<noteq> c" if "s \<in># sd_wk st" "wruns s = Some (q, d)" for s q d
    using held_run [OF that] assms(2) by (auto simp: count_eq_zero_iff)
  then show ?thesis
    using assms(1) unfolding local_ok_def by auto
qed

lemma step_del_mark:
  assumes inv: "sched_inv st as" and c: "c \<in># sd_del st"
  shows "sched_good (res_bind (deref (sd_ctx st) c) (\<lambda>k.
      res_bind (skynet_mq_mark_release (sd_w st) (sc_queue k)) (\<lambda>w.
        Inr (st\<lparr>sd_w := w, sd_ctx := (sd_ctx st)(c := None), sd_del := sd_del st - {#c#}\<rparr>))))"
proof -
  obtain k where k: "sd_ctx st c = Some k" "count (held st) c = 0"
    using del_ctx [OF sched_invD(3) [OF inv] c] by blast
  let ?q = "sc_queue k"
  obtain i where i: "rinfo (sd_w st) ?q = Some i" "ri_rel i = 0"
    using links_okD(1) [OF sched_invD(4) [OF inv] k(1)] by blast
  have cnt: "count (claimed st as) ?q = ring_claims (Some i)"
    using claims_okD(1) [OF sched_invD(2) [OF inv], of ?q] i(1) by simp
  have le: "ri_glob i \<le> 1"
    using claims_okD(2) [OF sched_invD(2) [OF inv] i(1)] by simp
  have out: "ri_glob i \<noteq> 1 \<longrightarrow> ?q \<notin> set as"
    using cnt i(2) le by (auto simp: ring_claims_def claimed_def)
  let ?as = "if ri_glob i \<noteq> 1 then as @ [?q] else as"
  let ?i = "i\<lparr>ri_rel := 1\<rparr>"
  obtain w where w: "skynet_mq_mark_release (sd_w st) ?q = Inr w" "rings_ok w ?as" "rinfo w = (rinfo (sd_w st))(?q \<mapsto> ?i)"
    by (rule rings_mark_release [OF sched_invD(1) [OF inv] i out]) (rule that; assumption)
  let ?ctx = "(sd_ctx st)(c := None)"
  let ?st = "st\<lparr>sd_w := w, sd_ctx := ?ctx, sd_del := sd_del st - {#c#}\<rparr>"
  have "claims_ok ((rinfo (sd_w st))(?q \<mapsto> ?i)) (claimed ?st ?as)"
    by (rule claims_upd [OF sched_invD(2) [OF inv]]) (use cnt le i(2) in \<open>auto simp: ring_claims_def claimed_def split: if_splits\<close>)
  moreover have unlinked: "sc_queue j \<noteq> ?q" if "?ctx d = Some j" for d j
    using links_okD(2) [OF sched_invD(4) [OF inv], of d j c k] that k(1) by (auto split: if_splits)
  have "links_ok ((rinfo (sd_w st))(?q \<mapsto> ?i)) ?ctx"
    by (rule links_unlinked [OF links_drop_ctx [OF sched_invD(4) [OF inv]] unlinked]) (use i(1) in auto)
  moreover have "refs_ok ?ctx (sd_tab st) (held st) (sd_del st - {#c#})"
    by (rule refs_delete) (use sched_invD(3) [OF inv] c in simp)
  moreover have "local_ok (st\<lparr>sd_w := w\<rparr>)"
    by (rule local_w [OF sched_invD(5) [OF inv]]) (use w(3) in \<open>auto split: if_splits\<close>)
  then have "local_ok ?st"
    using local_drop_ctx [of "st\<lparr>sd_w := w\<rparr>" c] k(2) by simp
  ultimately have "sched_inv ?st ?as"
    using w(2,3) by (simp add: sched_inv_def)
  then show ?thesis
    using k(1) w(1) by (intro sched_goodI) simp_all
qed

theorem sstep_good:
  assumes "sstep st r" "sched_inv st as"
  shows "sched_good r"
  using assms
  by (induction rule: sstep.induct)
    (rule step_idle_pop step_have_grab step_run_pop step_run_end step_end_pop step_swap_push step_wk_release
      step_dead_release step_drop_pop step_launch step_launched step_launch_failed step_env_grab step_env_push
      step_env_release step_env_retire step_del_mark; assumption)+

lemma sreach_inv: "sreach n st \<Longrightarrow> \<exists>as. sched_inv st as"
proof (induction rule: sreach.induct)
  case start
  then show ?case
    using sched_start_inv by blast
next
  case (step st st')
  then show ?case
    using sstep_good [of st "Inr st'"] by (auto simp: sched_good_def)
qed

section \<open>Properties of the running system\<close>

inductive_cases sstep_faultE: "sstep st (Inl e)"

inductive_simps sreach_simps: "sreach n st"

lemma sreach_run: "sreach n st \<Longrightarrow> sstep st r \<Longrightarrow> r = Inr st' \<Longrightarrow> sreach n st'"
  using sreach.step by blast

text \<open>A run that reaches a worker with a message to dispatch, the launcher still holding its reference.\<close>

definition demo_message :: skynet_message where
  "demo_message = \<lparr>msg_source = 3, msg_session = 0, msg_data = None, msg_sz = 0\<rparr>"

lemma sched_demo:
  "\<exists>st r. sreach 2 st \<and> WRun 1 1 \<in># sd_wk st \<and> 1 \<in># sd_env st \<and> mqs (sd_w st) 1 = Some r \<and>
     mq_content r = [demo_message]"
proof -
  let ?k = "\<lparr>sc_queue = 1, sc_handle = 5, sc_ref = 2\<rparr>"
  let ?r = "mq_put (mq_fresh 5) demo_message"
  let ?w = "\<lambda>g. \<lparr>Q_head = g, Q_tail = g, mqs = [1 \<mapsto> ?r]\<rparr>"
  let ?st = "\<lambda>g n wk ini. \<lparr>sd_w = ?w g, sd_ctx = [1 \<mapsto> ?k\<lparr>sc_ref := n\<rparr>], sd_tab = [5 \<mapsto> 1], sd_wk = wk,
    sd_env = {#1#}, sd_ini = ini, sd_drop = {#}, sd_del = {#}\<rparr>"
  have put: "mq_inv ?r" "mq_content ?r = [demo_message]" "mq_in_global ?r = 1" "mq_next ?r = None" "mq_handle ?r = 5"
    by (simp_all add: mq_put_correct MQ_IN_GLOBAL_def)
  then have unlink: "?r\<lparr>mq_next := None\<rparr> = ?r"
    by (simp add: message_queue.equality)
  let ?s1 = "\<lparr>sd_w = \<lparr>Q_head = None, Q_tail = None, mqs = [1 \<mapsto> mq_fresh 5]\<rparr>, sd_ctx = [1 \<mapsto> ?k], sd_tab = [5 \<mapsto> 1],
    sd_wk = {#WIdle, WIdle#}, sd_env = {#1#}, sd_ini = {#1#}, sd_drop = {#}, sd_del = {#}\<rparr>"
  have "sreach 2 ?s1"
    by (rule sreach_run [OF sreach.start launch [of _ 1 1 5]])
      (simp_all add: sched_start_def skynet_mq_init_def mq_create_eq mq_store_def numeral_2_eq_2)
  then have "sreach 2 (?st None 2 {#WIdle, WIdle#} {#1#})"
    by (rule sreach_run [OF _ env_push [of 1 _ demo_message]]) (simp_all add: skynet_mq_push_def put mq_store_def MQ_IN_GLOBAL_def Let_def)
  then have "sreach 2 (?st (Some 1) 2 {#WIdle, WIdle#} {#})"
    by (rule sreach_run [OF _ launched [of 1]]) (simp_all add: skynet_globalmq_push_def put)
  then have "sreach 2 (?st None 2 {#WIdle, WHave 1#} {#})"
    by (rule sreach_run [OF _ idle_pop]) (simp_all add: skynet_globalmq_pop_def put wk_move_def mq_store_def unlink)
  then have "sreach 2 (?st None 3 {#WIdle, WRun 1 1#} {#})"
    by (rule sreach_run [OF _ have_grab [of 1]]) (simp_all add: sched_grab_def put wk_move_def)
  then show ?thesis
    using put(2) by fastforce
qed



text \<open>C1: A ring is dispatched by one worker at a time, so the messages of a service never run
  concurrently: in every reachable state the global list and the local variables of all the workers
  together hold a ring at most once.\<close>

theorem sched_exclusive:
  assumes "sreach n st"
  shows "\<exists>as. globalq_rep (sd_w st) as \<and>
    (\<forall>q. count (mset as) q + count (sum_mset (image_mset wclaims (sd_wk st))) q \<le> 1)"
proof -
  obtain as where inv: "sched_inv st as"
    using sreach_inv [OF assms] by blast
  have "count (mset as) q + count (sum_mset (image_mset wclaims (sd_wk st))) q \<le> 1" for q
  proof -
    have "count (claimed st as) q \<le> 1"
      unfolding claims_okD(1) [OF sched_invD(2) [OF inv]] by (simp add: ring_claims_def split: option.splits)
    then show ?thesis
      unfolding count_claimed by linarith
  qed
  then show ?thesis
    using sched_invD(1) [OF inv] by (auto simp: rings_ok_def)
qed

theorem sched_exclusive_witness:
  "\<exists>st as. sreach 2 st \<and> WRun 1 1 \<in># sd_wk st \<and> globalq_rep (sd_w st) as \<and>
    count (mset as) 1 + count (sum_mset (image_mset wclaims (sd_wk st))) 1 \<le> 1"
proof -
  obtain st where st: "sreach 2 st" "WRun 1 1 \<in># sd_wk st"
    using sched_demo by blast
  show ?thesis
    using sched_exclusive [OF st(1)] st by blast
qed

text \<open>C2: No wakeup is lost and no released ring leaks: in every reachable state a ring
  that has messages or is marked for release is in the global list, or in the local variables of a
  worker, or of the thread that is still launching its service, or of the thread that drops it.\<close>

theorem sched_no_lost_message:
  assumes "sreach n st" "mqs (sd_w st) q = Some r" "mq_content r \<noteq> [] \<or> mq_release r \<noteq> 0"
  shows "\<exists>as. globalq_rep (sd_w st) as \<and>
    (q \<in> set as \<or> q \<in># sum_mset (image_mset wclaims (sd_wk st)) + sd_ini st + sd_drop st)"
proof -
  obtain as where inv: "sched_inv st as"
    using sreach_inv [OF assms(1)] by blast
  have i: "rinfo (sd_w st) q = Some (ring_view r)"
    using assms(2) by (simp add: rinfo_def)
  have "\<not> (mq_in_global r = 0 \<and> mq_release r = 0)"
    using claims_okD(3) [OF sched_invD(2) [OF inv] i] assms(3) by (auto simp: ring_view_def)
  then have "count (claimed st as) q = 1"
    unfolding claims_okD(1) [OF sched_invD(2) [OF inv]] i by (auto simp: ring_claims_def ring_view_def)
  then have "q \<in># claimed st as"
    by (metis count_greater_eq_one_iff order_refl)
  then show ?thesis
    using sched_invD(1) [OF inv] by (auto simp: claimed_def rings_ok_def)
qed

theorem sched_no_lost_message_witness:
  "\<exists>st r as. sreach 2 st \<and> mqs (sd_w st) 1 = Some r \<and> mq_content r = [demo_message] \<and> globalq_rep (sd_w st) as \<and>
    (1 \<in> set as \<or> 1 \<in># sum_mset (image_mset wclaims (sd_wk st)) + sd_ini st + sd_drop st)"
proof -
  obtain st r where st: "sreach 2 st" "mqs (sd_w st) 1 = Some r" "mq_content r = [demo_message]"
    using sched_demo by blast
  then have "mq_content r \<noteq> [] \<or> mq_release r \<noteq> 0"
    by simp
  then show ?thesis
    using sched_no_lost_message [OF st(1,2)] st by blast
qed

text \<open>C11: Reference counting is exact and safe: in every reachable state a context some
  thread holds a reference of is allocated, its count is the number of references that threads hold
  plus one while it is in the handle table, and its ring is allocated and not marked for release.\<close>

theorem sched_references:
  assumes "sreach n st" "c \<in># sd_env st + sum_mset (image_mset wrefs (sd_wk st))"
  shows "\<exists>k r. sd_ctx st c = Some k \<and> mqs (sd_w st) (sc_queue k) = Some r \<and> mq_release r = 0 \<and>
    sc_ref k = count (sd_env st) c + count (sum_mset (image_mset wrefs (sd_wk st))) c +
      (if sd_tab st (sc_handle k) = Some c then 1 else 0)"
proof -
  obtain as where inv: "sched_inv st as"
    using sreach_inv [OF assms(1)] by blast
  have "c \<in># held st"
    using assms(2) by (simp add: held_def)
  then obtain k where k: "sd_ctx st c = Some k"
    using held_ctx [OF sched_invD(3) [OF inv]] by blast
  obtain i where i: "rinfo (sd_w st) (sc_queue k) = Some i" "ri_rel i = 0"
    using links_okD(1) [OF sched_invD(4) [OF inv] k] by blast
  obtain r where "mqs (sd_w st) (sc_queue k) = Some r" "i = ring_view r"
    by (rule rinfo_SomeE [OF i(1)]) (rule that; assumption)
  then show ?thesis
    using refs_okD(1) [OF sched_invD(3) [OF inv] k] i(2) k by (simp add: held_def ring_view_def)
qed

theorem sched_references_witness:
  "\<exists>st k. sreach 2 st \<and> sd_ctx st 1 = Some k \<and>
    sc_ref k = count (sd_env st) 1 + count (sum_mset (image_mset wrefs (sd_wk st))) 1 +
      (if sd_tab st (sc_handle k) = Some 1 then 1 else 0)"
proof -
  obtain st where st: "sreach 2 st" "1 \<in># sd_env st + sum_mset (image_mset wrefs (sd_wk st))"
    using sched_demo by fastforce
  show ?thesis
    using sched_references [OF st] st(1) by blast
qed

end
