(* ===== verification/Calendar.thy ===== *)
theory Calendar
  imports Prelude
begin

text \<open>
  The interface of a timer: events are added with a delay in ticks, and each tick returns the events
  that are due. The locale states it through \<open>due s k\<close>, the list of events that the \<open>k\<close>-th tick
  from now returns; the history lemma says that every event fires on exactly its tick, once, and
  that events of the same tick fire in the order they were added. The timing wheel of
  \<open>skynet_timer.c\<close> (theory \<open>Timer\<close>) is an interpretation.
\<close>

datatype 'n cal_op = Schedule 'n nat | Tick

fun cal_run :: "('s \<Rightarrow> 'n \<Rightarrow> nat \<Rightarrow> 's) \<Rightarrow> ('s \<Rightarrow> 'n list \<times> 's) \<Rightarrow> 's \<Rightarrow> 'n cal_op list \<Rightarrow> 'n list list" where
  "cal_run add tick s [] = []"
| "cal_run add tick s (Schedule x d # ops) = cal_run add tick (add s x d) ops"
| "cal_run add tick s (Tick # ops) = (case tick s of (out, s') \<Rightarrow> out # cal_run add tick s' ops)"

text \<open>The events a history of operations schedules for the \<open>k\<close>-th tick from its start.\<close>

fun scheduled :: "'n cal_op list \<Rightarrow> nat \<Rightarrow> 'n list" where
  "scheduled [] k = []"
| "scheduled (Schedule x d # ops) k = (if d = k then [x] else []) @ scheduled ops k"
| "scheduled (Tick # ops) k = (if k \<le> 1 then [] else scheduled ops (k - 1))"

fun cal_delays :: "'n cal_op list \<Rightarrow> nat list" where
  "cal_delays [] = []"
| "cal_delays (Schedule x d # ops) = d # cal_delays ops"
| "cal_delays (Tick # ops) = cal_delays ops"

locale calendar =
  fixes add :: "'s \<Rightarrow> 'n \<Rightarrow> nat \<Rightarrow> 's"
    and tick :: "'s \<Rightarrow> 'n list \<times> 's"
    and due :: "'s \<Rightarrow> nat \<Rightarrow> 'n list"
    and inv :: "'s \<Rightarrow> bool"
    and bound :: nat
  assumes add_inv: "inv s \<Longrightarrow> 0 < d \<Longrightarrow> d < bound \<Longrightarrow> inv (add s x d)"
    and add_due: "inv s \<Longrightarrow> 0 < d \<Longrightarrow> d < bound \<Longrightarrow> 0 < k \<Longrightarrow>
      due (add s x d) k = due s k @ (if k = d then [x] else [])"
    and tick_inv: "inv s \<Longrightarrow> inv (snd (tick s))"
    and tick_out: "inv s \<Longrightarrow> fst (tick s) = due s 1"
    and tick_due: "inv s \<Longrightarrow> 0 < k \<Longrightarrow> due (snd (tick s)) k = due s (Suc k)"
begin

lemma history:
  assumes "inv s" "\<forall>d \<in> set (cal_delays ops). 0 < d \<and> d < bound" "j < length (cal_run add tick s ops)"
  shows "cal_run add tick s ops ! j = due s (Suc j) @ scheduled ops (Suc j)"
  using assms
proof (induction ops arbitrary: s j rule: cal_delays.induct)
  case 1
  then show ?case by simp
next
  case (2 x d ops)
  then show ?case
    by (simp add: add_inv add_due)
next
  case (3 ops)
  obtain out s' where t: "tick s = (out, s')"
    by fastforce
  have s': "inv s'" "out = due s 1" "\<And>k. 0 < k \<Longrightarrow> due s' k = due s (Suc k)"
    using tick_inv [OF 3(2)] tick_out [OF 3(2)] tick_due [OF 3(2)] t by simp_all
  show ?case
  proof (cases j)
    case 0
    then show ?thesis
      using t s'(2) by simp
  next
    case (Suc i)
    then show ?thesis
      using 3(1) [OF s'(1), of i] 3(3,4) t s'(3) [of "Suc i"] by simp
  qed
qed

end

end
