(* ===== verification/Timer.thy ===== *)
theory Timer
  imports Calendar
begin

text \<open>
  \<open>skynet-src/skynet_timer.c\<close>: the hierarchical timing wheel. A node waits in one of 256 lists for
  the current block of 256 ticks (\<open>near\<close>) or in one of 4 levels of 64 lists for coarser blocks;
  a tick that enters a new block redistributes one list. Lists are HOL lists: \<open>link\<close> appends,
  \<open>link_clear\<close> empties. Time, expiry and their wrap-around are 32-bit words. The functions run
  under the timer's spin lock; \<open>timer_execute\<close> releases it while it dispatches the list it has
  already cleared. The clocks (\<open>systime\<close>, \<open>gettime\<close>) are arguments.
\<close>

section \<open>Data\<close>

record timer_node =
  tn_expire :: u32
  tn_handle :: u32
  tn_session :: int

record timer =
  tm_near :: "timer_node list list"
  tm_t :: "timer_node list list list"
  tm_time :: u32
  tm_starttime :: u32
  tm_current :: u64
  tm_current_point :: u64

definition TIME_NEAR_SHIFT :: nat where "TIME_NEAR_SHIFT = 8"
definition TIME_NEAR :: nat where "TIME_NEAR = 256"
definition TIME_LEVEL_SHIFT :: nat where "TIME_LEVEL_SHIFT = 6"
definition TIME_LEVEL :: nat where "TIME_LEVEL = 64"
definition TIME_NEAR_MASK :: u32 where "TIME_NEAR_MASK = 255"
definition TIME_LEVEL_MASK :: u32 where "TIME_LEVEL_MASK = 63"

lemmas timer_consts = TIME_NEAR_SHIFT_def TIME_NEAR_def TIME_LEVEL_SHIFT_def TIME_LEVEL_def
  TIME_NEAR_MASK_def TIME_LEVEL_MASK_def

section \<open>Operations\<close>

text \<open>The loop of \<open>add_node\<close> that looks for the level.\<close>

function add_level :: "u32 \<Rightarrow> u32 \<Rightarrow> u32 \<Rightarrow> nat \<Rightarrow> nat" where
  "add_level time current_time msk i =
     (if i < 3 then
        (if time OR (msk - 1) = current_time OR (msk - 1) then i
         else add_level time current_time (push_bit TIME_LEVEL_SHIFT msk) (i + 1))
      else i)"
  by pat_completeness auto
termination
  by (relation "measure (\<lambda>(time, current_time, msk, i). 3 - i)") auto

declare add_level.simps [simp del]

definition add_node :: "timer \<Rightarrow> timer_node \<Rightarrow> timer" where
  "add_node T node =
     (let time = tn_expire node;
          current_time = tm_time T
      in if time OR TIME_NEAR_MASK = current_time OR TIME_NEAR_MASK then
           (let j = unat (time AND TIME_NEAR_MASK)
            in T\<lparr>tm_near := (tm_near T)[j := tm_near T ! j @ [node]]\<rparr>)
         else
           (let i = add_level time current_time (push_bit TIME_LEVEL_SHIFT (word_of_nat TIME_NEAR)) 0;
                j = unat (drop_bit (TIME_NEAR_SHIFT + i * TIME_LEVEL_SHIFT) time AND TIME_LEVEL_MASK)
            in T\<lparr>tm_t := (tm_t T)[i := (tm_t T ! i)[j := tm_t T ! i ! j @ [node]]]\<rparr>))"

definition timer_add :: "timer \<Rightarrow> u32 \<Rightarrow> int \<Rightarrow> int \<Rightarrow> timer" where
  "timer_add T handle session time =
     add_node T \<lparr>tn_expire = word_of_int time + tm_time T, tn_handle = handle, tn_session = session\<rparr>"

definition move_list :: "timer \<Rightarrow> nat \<Rightarrow> nat \<Rightarrow> timer" where
  "move_list T level idx =
     foldl add_node (T\<lparr>tm_t := (tm_t T)[level := (tm_t T ! level)[idx := []]]\<rparr>) (tm_t T ! level ! idx)"

text \<open>
  The loop of \<open>timer_shift\<close>. A fourth shift of \<open>mask\<close> would overflow the \<open>int\<close> and a fifth level
  would be outside the array: the model faults there, and \<open>timer_shift_correct\<close> shows it never does.
\<close>

function shift_loop :: "timer \<Rightarrow> u32 \<Rightarrow> u32 \<Rightarrow> u32 \<Rightarrow> nat \<Rightarrow> timer res" where
  "shift_loop T ct msk time i =
     (if ct AND (msk - 1) = 0 then
        (let idx = unat (time AND TIME_LEVEL_MASK) in
         if idx \<noteq> 0 then Inr (move_list T i idx)
         else if i \<ge> 3 then Inl Out_Of_Bounds
         else shift_loop T ct (push_bit TIME_LEVEL_SHIFT msk) (drop_bit TIME_LEVEL_SHIFT time) (i + 1))
      else Inr T)"
  by pat_completeness auto
termination
  by (relation "measure (\<lambda>(T, ct, msk, time, i). 4 - i)") auto

declare shift_loop.simps [simp del]

definition timer_shift :: "timer \<Rightarrow> timer res" where
  "timer_shift T =
     (let T = T\<lparr>tm_time := tm_time T + 1\<rparr>; ct = tm_time T in
      if ct = 0 then Inr (move_list T 3 0)
      else shift_loop T ct (word_of_nat TIME_NEAR) (drop_bit TIME_NEAR_SHIFT ct) 0)"

text \<open>The nodes to dispatch, in order; their list is cleared before they are dispatched.\<close>

definition timer_execute :: "timer \<Rightarrow> timer_node list \<times> timer" where
  "timer_execute T =
     (let idx = unat (tm_time T AND TIME_NEAR_MASK)
      in (tm_near T ! idx, T\<lparr>tm_near := (tm_near T)[idx := []]\<rparr>))"

definition timer_update :: "timer \<Rightarrow> (timer_node list \<times> timer) res" where
  "timer_update T =
     (case timer_execute T of (ev0, T0) \<Rightarrow>
        res_bind (timer_shift T0) (\<lambda>T1.
          case timer_execute T1 of (ev1, T2) \<Rightarrow> Inr (ev0 @ ev1, T2)))"

definition timer_create_timer :: timer where
  "timer_create_timer =
     \<lparr>tm_near = replicate TIME_NEAR [], tm_t = replicate 4 (replicate TIME_LEVEL []),
      tm_time = 0, tm_starttime = 0, tm_current = 0, tm_current_point = 0\<rparr>"

fun timer_updates :: "nat \<Rightarrow> timer \<Rightarrow> (timer_node list \<times> timer) res" where
  "timer_updates 0 T = Inr ([], T)"
| "timer_updates (Suc n) T =
     res_bind (timer_update T) (\<lambda>(ev, T').
       res_bind (timer_updates n T') (\<lambda>(evs, T''). Inr (ev @ evs, T'')))"

text \<open>\<open>cp\<close> is what \<open>gettime\<close> returns.\<close>

definition skynet_updatetime :: "u64 \<Rightarrow> timer \<Rightarrow> (timer_node list \<times> timer) res" where
  "skynet_updatetime cp T =
     (if cp < tm_current_point T then Inr ([], T\<lparr>tm_current_point := cp\<rparr>)
      else if cp \<noteq> tm_current_point T then
        (let diff = (ucast (cp - tm_current_point T) :: u32)
         in timer_updates (unat diff) (T\<lparr>tm_current_point := cp, tm_current := tm_current T + ucast diff\<rparr>))
      else Inr ([], T))"

definition skynet_starttime :: "timer \<Rightarrow> u32" where
  "skynet_starttime T = tm_starttime T"

definition skynet_now :: "timer \<Rightarrow> u64" where
  "skynet_now T = tm_current T"

definition skynet_timer_init :: "u32 \<Rightarrow> u32 \<Rightarrow> u64 \<Rightarrow> timer" where
  "skynet_timer_init sec cs cp =
     timer_create_timer\<lparr>tm_starttime := sec, tm_current := ucast cs, tm_current_point := cp\<rparr>"

section \<open>Where a node waits\<close>

datatype slot_id = Near nat | Lvl nat nat

definition place :: "u32 \<Rightarrow> u32 \<Rightarrow> slot_id" where
  "place current_time time =
     (if time OR TIME_NEAR_MASK = current_time OR TIME_NEAR_MASK then Near (unat (time AND TIME_NEAR_MASK))
      else let i = add_level time current_time (push_bit TIME_LEVEL_SHIFT (word_of_nat TIME_NEAR)) 0
           in Lvl i (unat (drop_bit (TIME_NEAR_SHIFT + i * TIME_LEVEL_SHIFT) time AND TIME_LEVEL_MASK)))"

text \<open>The same on unbounded time.\<close>

definition place_nat :: "nat \<Rightarrow> nat \<Rightarrow> slot_id" where
  "place_nat N E =
     (if N div 2 ^ 8 = E div 2 ^ 8 then Near (E mod 2 ^ 8)
      else if N div 2 ^ 14 = E div 2 ^ 14 then Lvl 0 (E div 2 ^ 8 mod 64)
      else if N div 2 ^ 20 = E div 2 ^ 20 then Lvl 1 (E div 2 ^ 14 mod 64)
      else if N div 2 ^ 26 = E div 2 ^ 26 then Lvl 2 (E div 2 ^ 20 mod 64)
      else Lvl 3 (E div 2 ^ 26 mod 64))"

text \<open>The list a tick to time \<open>M\<close> redistributes.\<close>

definition moved_slot :: "nat \<Rightarrow> slot_id option" where
  "moved_slot M =
     (if M mod 2 ^ 8 \<noteq> 0 then None
      else if M div 2 ^ 8 mod 64 \<noteq> 0 then Some (Lvl 0 (M div 2 ^ 8 mod 64))
      else if M div 2 ^ 14 mod 64 \<noteq> 0 then Some (Lvl 1 (M div 2 ^ 14 mod 64))
      else if M div 2 ^ 20 mod 64 \<noteq> 0 then Some (Lvl 2 (M div 2 ^ 20 mod 64))
      else Some (Lvl 3 (M div 2 ^ 26 mod 64)))"

lemma or_mask_eq_iff:
  "(a :: u32) OR mask k = b OR mask k \<longleftrightarrow> unat a div 2 ^ k = unat b div 2 ^ k"
proof -
  have "a OR mask k = b OR mask k \<longleftrightarrow> drop_bit k a = drop_bit k b"
  proof
    assume eq: "a OR mask k = b OR mask k"
    show "drop_bit k a = drop_bit k b"
    proof (rule bit_word_eqI)
      fix n
      assume "n < LENGTH(32)"
      have "bit (a OR mask k) (k + n) = bit (b OR mask k) (k + n)"
        using eq by simp
      then show "bit (drop_bit k a) n = bit (drop_bit k b) n"
        by (simp add: bit_drop_bit_eq bit_or_iff bit_mask_iff)
    qed
  next
    assume eq: "drop_bit k a = drop_bit k b"
    have "bit a n = bit b n" if "k \<le> n" for n
      using arg_cong [OF eq, of "\<lambda>x. bit x (n - k)"] that by (simp add: bit_drop_bit_eq)
    then show "a OR mask k = b OR mask k"
      by (intro bit_word_eqI) (auto simp: bit_or_iff bit_mask_iff)
  qed
  also have "\<dots> \<longleftrightarrow> unat (drop_bit k a) = unat (drop_bit k b)"
    by (simp only: word_unat_eq_iff)
  finally show ?thesis
    by (simp only: unat_drop_div)
qed

lemma mask_numerals:
  "(255 :: u32) = mask 8" "(63 :: u32) = mask 6" "(0x3FFF :: u32) = mask 14" "(0xFFFFF :: u32) = mask 20"
  "(0x3FFFFFF :: u32) = mask 26"
  by (simp_all add: mask_eq_exp_minus_1)

lemma add_level_eq:
  "add_level time cur 0x4000 0 =
     (if unat cur div 2 ^ 14 = unat time div 2 ^ 14 then 0
      else if unat cur div 2 ^ 20 = unat time div 2 ^ 20 then 1
      else if unat cur div 2 ^ 26 = unat time div 2 ^ 26 then 2 else 3)"
  using or_mask_eq_iff [of time 14 cur] or_mask_eq_iff [of time 20 cur] or_mask_eq_iff [of time 26 cur]
  unfolding mask_numerals [symmetric]
  by (simp add: add_level.simps [of _ _ _ 0] add_level.simps [of _ _ _ 1] add_level.simps [of _ _ _ 2]
      add_level.simps [of _ _ _ "Suc (Suc 0)"] add_level.simps [of _ _ _ "Suc (Suc (Suc 0))"] add_level.simps [of _ _ _ "Suc 0"] push_bit_eq_mult TIME_LEVEL_SHIFT_def numeral_3_eq_3)

lemma wrap_div:
  assumes "k \<le> 26"
  shows "(E + 2 ^ 32) div 2 ^ k = E div 2 ^ k + 2 ^ (32 - k)"
    and "(E + 2 ^ 32) div 2 ^ k mod 64 = E div 2 ^ k mod (64 :: nat)"
proof -
  have eq: "(2::nat) ^ 32 = 2 ^ (32 - k) * 2 ^ k"
    using assms by (simp flip: power_add)
  show div: "(E + 2 ^ 32) div 2 ^ k = E div 2 ^ k + 2 ^ (32 - k)"
    by (subst eq) simp
  have "32 - k = (26 - k) + 6"
    using assms by simp
  then have "(2::nat) ^ (32 - k) = 2 ^ (26 - k) * 64"
    by (simp only: power_add) simp
  then show "(E + 2 ^ 32) div 2 ^ k mod 64 = E div 2 ^ k mod 64"
    using div by simp
qed

lemma lvl_if:
  "Lvl (if a then 0 else if b then 1 else if c then 2 else 3)
     (x div 2 ^ (8 + (if a then 0 else if b then 1 else if c then 2 else 3) * 6) mod 64) =
   (if a then Lvl 0 (x div 2 ^ 8 mod 64) else if b then Lvl 1 (x div 2 ^ 14 mod 64)
    else if c then Lvl 2 (x div 2 ^ 20 mod 64) else Lvl 3 (x div 2 ^ 26 mod 64))"
  by (cases a; cases b; cases c) simp_all

lemma place_eq_nat:
  assumes "unat (e - T) < 2 ^ 31"
  shows "place T e = place_nat (unat T) (unat T + unat (e - T))"
proof -
  have near: "e OR 255 = T OR 255 \<longleftrightarrow> unat T div 2 ^ 8 = unat e div 2 ^ 8" "unat (e AND 255) = unat e mod 2 ^ 8"
    using or_mask_eq_iff [of e 8 T] unat_and_mask [of e 8] unfolding mask_numerals [symmetric] by auto
  have lvl: "unat (drop_bit k e AND 63) = unat e div 2 ^ k mod 64" for k
    using unat_and_mask [of "drop_bit k e" 6] unfolding mask_numerals [symmetric] by (simp add: unat_drop_div)
  have add: "add_level e T (push_bit 6 (word_of_nat 256)) 0 = (if unat T div 2 ^ 14 = unat e div 2 ^ 14 then 0
      else if unat T div 2 ^ 20 = unat e div 2 ^ 20 then 1 else if unat T div 2 ^ 26 = unat e div 2 ^ 26 then 2 else 3)"
    using add_level_eq [of e T] by (simp add: push_bit_eq_mult)
  have cur: "place T e = (if unat T div 2 ^ 8 = unat e div 2 ^ 8 then Near (unat e mod 2 ^ 8)
      else if unat T div 2 ^ 14 = unat e div 2 ^ 14 then Lvl 0 (unat e div 2 ^ 8 mod 64)
      else if unat T div 2 ^ 20 = unat e div 2 ^ 20 then Lvl 1 (unat e div 2 ^ 14 mod 64)
      else if unat T div 2 ^ 26 = unat e div 2 ^ 26 then Lvl 2 (unat e div 2 ^ 20 mod 64)
      else Lvl 3 (unat e div 2 ^ 26 mod 64))"
    unfolding place_def timer_consts near add lvl Let_def
    by (subst lvl_if) (rule refl)
  let ?E = "unat T + unat (e - T)"
  have e: "unat e = ?E mod 2 ^ 32"
    using unat_word_ariths(1) [of T "e - T"] by simp
  have T: "unat T < 2 ^ 32"
    by (rule order_less_le_trans [OF unsigned_less]) simp
  show ?thesis
  proof (cases "?E < 2 ^ 32")
    case True
    then have eE: "unat e = ?E"
      using e by simp
    show ?thesis
      unfolding cur place_nat_def eE by (rule refl)
  next
    case False
    then obtain F where F: "?E = F + 2 ^ 32"
      by (metis add.commute le_Suc_ex not_less)
    have "F < 2 ^ 31"
      using F T assms by simp
    then have eF: "unat e = F"
      using e F by simp
    have small: "F + 2 ^ 31 < unat T"
      using F assms by simp
    have blk: "unat T div 2 ^ k \<noteq> ?E div 2 ^ k \<and> unat T div 2 ^ k \<noteq> F div 2 ^ k" if "k \<le> 26" for k
    proof -
      have "?E div 2 ^ k = F div 2 ^ k + 2 ^ (32 - k)"
        unfolding F by (rule wrap_div(1) [OF that])
      moreover have "unat T div 2 ^ k < 2 ^ (32 - k)"
        using T that by (simp add: div_less_iff_less_mult flip: power_add)
      moreover have "F div 2 ^ k + 1 \<le> unat T div 2 ^ k"
      proof -
        have "(2::nat) ^ k \<le> 2 ^ 31"
          using that by (intro power_increasing) simp_all
        then have "F + 2 ^ k \<le> unat T"
          using small by linarith
        then have "(F + 2 ^ k) div 2 ^ k \<le> unat T div 2 ^ k"
          by (rule div_le_mono)
        moreover have "(F + 2 ^ k) div 2 ^ k = F div 2 ^ k + 1"
          by (rule div_add_self2) simp
        ultimately show ?thesis
          by (simp only:)
      qed
      ultimately show ?thesis
        by simp
    qed
    have "?E div 2 ^ 26 mod 64 = F div 2 ^ 26 mod 64"
      unfolding F by (rule wrap_div(2)) simp
    then show ?thesis
      using blk [of 8] blk [of 14] blk [of 20] blk [of 26] unfolding cur place_nat_def eF by (simp only: le_refl simp_thms if_False)
  qed
qed

lemma place_nat_wrap: "place_nat (2 ^ 32) (E + 2 ^ 32) = place_nat 0 E"
proof -
  have m: "(E + 2 ^ 32) mod 2 ^ 8 = E mod 2 ^ 8"
    using mod_mult_self1 [of E "2 ^ 24" "2 ^ 8"] by simp
  have b: "2 ^ 32 div 2 ^ k = (E + 2 ^ 32) div 2 ^ k \<longleftrightarrow> 0 div 2 ^ k = E div 2 ^ k" if "k \<le> 26" for k
    using wrap_div(1) [OF that, of 0] wrap_div(1) [OF that, of E] by (simp only: add_0 add_right_cancel)
  have le: "(8::nat) \<le> 26" "(14::nat) \<le> 26" "(20::nat) \<le> 26" "(26::nat) \<le> 26"
    by simp_all
  show ?thesis
    unfolding place_nat_def m b [OF le(1)] b [OF le(2)] b [OF le(3)] b [OF le(4)]
      wrap_div(2) [OF le(1)] wrap_div(2) [OF le(2)] wrap_div(2) [OF le(3)] wrap_div(2) [OF le(4)]
    by (rule refl)
qed

text \<open>A tick changes the place of the nodes of one list only.\<close>

lemma tick_block:
  "Suc N mod m \<noteq> 0 \<Longrightarrow> Suc N div m = N div m"
  "0 < m \<Longrightarrow> Suc N mod m = 0 \<Longrightarrow> N < E \<Longrightarrow> N div m \<noteq> E div m"
proof -
  show "Suc N mod m \<noteq> 0 \<Longrightarrow> Suc N div m = N div m"
    by (simp add: div_Suc)
  assume m: "0 < m" "Suc N mod m = 0" "N < E"
  then have "Suc N div m \<le> E div m"
    by (intro div_le_mono) simp
  then show "N div m \<noteq> E div m"
    using m by (simp add: div_Suc)
qed

lemma mod_block: "M mod 2 ^ (k + 6) = 0 \<longleftrightarrow> M mod 2 ^ k = 0 \<and> M div 2 ^ k mod 64 = (0::nat)"
proof -
  have "M mod (2 ^ k * 64) = 2 ^ k * (M div 2 ^ k mod 64) + M mod 2 ^ k"
    by (rule mod_mult2_eq)
  then show ?thesis
    by (auto simp: power_add)
qed

lemma div_block: "M div 2 ^ k = E div 2 ^ k \<Longrightarrow> M div 2 ^ (k + 6) = E div (2 ^ (k + 6) :: nat)"
  by (simp add: power_add div_mult2_eq)

lemma place_nat_tick:
  assumes "N < E" "moved_slot (Suc N) \<noteq> Some (place_nat N E)"
  shows "place_nat (Suc N) E = place_nat N E"
proof -
  obtain M where M: "M = Suc N"
    by simp
  have same: "M mod 2 ^ k \<noteq> 0 \<Longrightarrow> (M div 2 ^ k = E div 2 ^ k \<longleftrightarrow> N div 2 ^ k = E div 2 ^ k)" for k
    using tick_block(1) [of N "2 ^ k"] M by simp
  have last: "M mod 2 ^ k = 0 \<Longrightarrow> N div 2 ^ k \<noteq> E div 2 ^ k" for k
    using tick_block(2) [of "2 ^ k" N E] assms(1) M by simp
  have Z14: "M mod 2 ^ 14 = 0 \<longleftrightarrow> M mod 2 ^ 8 = 0 \<and> M div 2 ^ 8 mod 64 = 0"
    using mod_block [of M 8] by simp
  have Z20: "M mod 2 ^ 20 = 0 \<longleftrightarrow> M mod 2 ^ 14 = 0 \<and> M div 2 ^ 14 mod 64 = 0"
    using mod_block [of M 14] by simp
  have Z26: "M mod 2 ^ 26 = 0 \<longleftrightarrow> M mod 2 ^ 20 = 0 \<and> M div 2 ^ 20 mod 64 = 0"
    using mod_block [of M 20] by simp
  have B: "M div 2 ^ 8 = E div 2 ^ 8 \<Longrightarrow> M div 2 ^ 14 = E div 2 ^ 14"
    "M div 2 ^ 14 = E div 2 ^ 14 \<Longrightarrow> M div 2 ^ 20 = E div 2 ^ 20"
    "M div 2 ^ 20 = E div 2 ^ 20 \<Longrightarrow> M div 2 ^ 26 = E div 2 ^ 26"
    using div_block [of M 8 E] div_block [of M 14 E] div_block [of M 20 E] by simp_all
  have D: "x mod 64 \<noteq> y mod 64 \<Longrightarrow> x \<noteq> y" for x y :: nat
    by auto
  consider (near) "M mod 2 ^ 8 \<noteq> 0" | (l0) "M mod 2 ^ 8 = 0" "M div 2 ^ 8 mod 64 \<noteq> 0"
    | (l1) "M mod 2 ^ 14 = 0" "M div 2 ^ 14 mod 64 \<noteq> 0" | (l2) "M mod 2 ^ 20 = 0" "M div 2 ^ 20 mod 64 \<noteq> 0"
    | (l3) "M mod 2 ^ 26 = 0"
    using Z14 Z20 Z26 by (metis (no_types))
  then have "place_nat M E = place_nat N E"
  proof cases
    case near
    then have nz: "M mod 2 ^ 14 \<noteq> 0" "M mod 2 ^ 20 \<noteq> 0" "M mod 2 ^ 26 \<noteq> 0"
      using Z14 Z20 Z26 by (metis (no_types))+
    show ?thesis
      unfolding place_nat_def by (simp only: same [OF near] same [OF nz(1)] same [OF nz(2)] same [OF nz(3)])
  next
    case l0
    then have nz: "M mod 2 ^ 14 \<noteq> 0" "M mod 2 ^ 20 \<noteq> 0" "M mod 2 ^ 26 \<noteq> 0"
      using Z14 Z20 Z26 by (metis (no_types))+
    have ne: "N div 2 ^ 8 \<noteq> E div 2 ^ 8"
      using l0 by (simp_all only: last not_False_eq_True)
    have mv: "moved_slot M = Some (Lvl 0 (M div 2 ^ 8 mod 64))"
      unfolding moved_slot_def by (simp only: l0 simp_thms if_True if_False)
    have top: "M div 2 ^ 8 \<noteq> E div 2 ^ 8"
    proof
      assume eq: "M div 2 ^ 8 = E div 2 ^ 8"
      have "N div 2 ^ 14 = E div 2 ^ 14"
        using B(1) [OF eq] same [OF nz(1)] by blast
      then have "place_nat N E = Lvl 0 (E div 2 ^ 8 mod 64)"
        unfolding place_nat_def by (simp only: ne if_True if_False simp_thms)
      then show False
        using assms(2) mv eq M by simp
    qed
    show ?thesis
      unfolding place_nat_def by (simp only: ne top same [OF nz(1)] same [OF nz(2)] same [OF nz(3)] if_False)
  next
    case l1
    then have nz: "M mod 2 ^ 20 \<noteq> 0" "M mod 2 ^ 26 \<noteq> 0" and z: "M mod 2 ^ 8 = 0" "M div 2 ^ 8 mod 64 = 0"
      using Z14 Z20 Z26 by (metis (no_types))+
    have ne: "N div 2 ^ 8 \<noteq> E div 2 ^ 8" "N div 2 ^ 14 \<noteq> E div 2 ^ 14"
      using l1 z by (simp_all only: last not_False_eq_True)
    have mv: "moved_slot M = Some (Lvl 1 (M div 2 ^ 14 mod 64))"
      unfolding moved_slot_def by (simp only: l1 z simp_thms if_True if_False)
    have top: "M div 2 ^ 14 \<noteq> E div 2 ^ 14"
    proof
      assume eq: "M div 2 ^ 14 = E div 2 ^ 14"
      have "N div 2 ^ 20 = E div 2 ^ 20"
        using B(2) [OF eq] same [OF nz(1)] by blast
      then have "place_nat N E = Lvl 1 (E div 2 ^ 14 mod 64)"
        unfolding place_nat_def by (simp only: ne if_True if_False simp_thms)
      then show False
        using assms(2) mv eq M by simp
    qed
    have tops: "M div 2 ^ 8 \<noteq> E div 2 ^ 8"
      using top B by blast+
    show ?thesis
      unfolding place_nat_def by (simp only: ne top tops same [OF nz(1)] same [OF nz(2)] if_False)
  next
    case l2
    then have nz: "M mod 2 ^ 26 \<noteq> 0" and z: "M mod 2 ^ 8 = 0" "M div 2 ^ 8 mod 64 = 0" "M mod 2 ^ 14 = 0" "M div 2 ^ 14 mod 64 = 0"
      using Z14 Z20 Z26 by (metis (no_types))+
    have ne: "N div 2 ^ 8 \<noteq> E div 2 ^ 8" "N div 2 ^ 14 \<noteq> E div 2 ^ 14" "N div 2 ^ 20 \<noteq> E div 2 ^ 20"
      using l2 z by (simp_all only: last not_False_eq_True)
    have mv: "moved_slot M = Some (Lvl 2 (M div 2 ^ 20 mod 64))"
      unfolding moved_slot_def by (simp only: l2 z simp_thms if_True if_False)
    have top: "M div 2 ^ 20 \<noteq> E div 2 ^ 20"
    proof
      assume eq: "M div 2 ^ 20 = E div 2 ^ 20"
      have "N div 2 ^ 26 = E div 2 ^ 26"
        using B(3) [OF eq] same [OF nz(1)] by blast
      then have "place_nat N E = Lvl 2 (E div 2 ^ 20 mod 64)"
        unfolding place_nat_def by (simp only: ne if_True if_False simp_thms)
      then show False
        using assms(2) mv eq M by simp
    qed
    have tops: "M div 2 ^ 8 \<noteq> E div 2 ^ 8" "M div 2 ^ 14 \<noteq> E div 2 ^ 14"
      using top B by blast+
    show ?thesis
      unfolding place_nat_def by (simp only: ne top tops same [OF nz(1)] if_False)
  next
    case l3
    then have z: "M mod 2 ^ 8 = 0" "M div 2 ^ 8 mod 64 = 0" "M mod 2 ^ 14 = 0" "M div 2 ^ 14 mod 64 = 0" "M mod 2 ^ 20 = 0" "M div 2 ^ 20 mod 64 = 0"
      using Z14 Z20 Z26 by (metis (no_types))+
    have ne: "N div 2 ^ 8 \<noteq> E div 2 ^ 8" "N div 2 ^ 14 \<noteq> E div 2 ^ 14" "N div 2 ^ 20 \<noteq> E div 2 ^ 20" "N div 2 ^ 26 \<noteq> E div 2 ^ 26"
      using l3 z by (simp_all only: last not_False_eq_True)
    have mv: "moved_slot M = Some (Lvl 3 (M div 2 ^ 26 mod 64))"
      unfolding moved_slot_def by (simp only: l3 z simp_thms if_True if_False)
    have top: "M div 2 ^ 26 \<noteq> E div 2 ^ 26"
    proof
      assume eq: "M div 2 ^ 26 = E div 2 ^ 26"
      have "place_nat N E = Lvl 3 (E div 2 ^ 26 mod 64)"
        unfolding place_nat_def by (simp only: ne if_False)
      then show False
        using assms(2) mv eq M by simp
    qed
    have tops: "M div 2 ^ 8 \<noteq> E div 2 ^ 8" "M div 2 ^ 14 \<noteq> E div 2 ^ 14" "M div 2 ^ 20 \<noteq> E div 2 ^ 20"
      using top B by blast+
    show ?thesis
      unfolding place_nat_def by (simp only: ne top tops if_False)
  qed
  then show ?thesis
    using M by simp
qed

section \<open>The wheel as a calendar\<close>

fun slot_of :: "timer \<Rightarrow> slot_id \<Rightarrow> timer_node list" where
  "slot_of T (Near j) = tm_near T ! j"
| "slot_of T (Lvl i j) = tm_t T ! i ! j"

fun valid_slot :: "slot_id \<Rightarrow> bool" where
  "valid_slot (Near j) = (j < 256)"
| "valid_slot (Lvl i j) = (i < 4 \<and> j < 64)"

definition wheel :: "timer \<Rightarrow> bool" where
  "wheel T \<longleftrightarrow> length (tm_near T) = 256 \<and> length (tm_t T) = 4 \<and> (\<forall>l \<in> set (tm_t T). length l = 64)"

text \<open>\<open>placed\<close>: every node is in its list and due within \<open>2 ^ 31\<close> ticks; \<open>timer_inv\<close>: none is due now.\<close>

definition placed :: "timer \<Rightarrow> bool" where
  "placed T \<longleftrightarrow> wheel T \<and>
     (\<forall>s. valid_slot s \<longrightarrow> (\<forall>n \<in> set (slot_of T s).
        place (tm_time T) (tn_expire n) = s \<and> unat (tn_expire n - tm_time T) < 2 ^ 31))"

definition timer_inv :: "timer \<Rightarrow> bool" where
  "timer_inv T \<longleftrightarrow> placed T \<and>
     (\<forall>s. valid_slot s \<longrightarrow> (\<forall>n \<in> set (slot_of T s). tn_expire n \<noteq> tm_time T))"

declare timer_inv_def [skynet_invs]

definition pending :: "timer \<Rightarrow> u32 \<Rightarrow> timer_node list" where
  "pending T e = filter (\<lambda>n. tn_expire n = e) (slot_of T (place (tm_time T) e))"

lemma valid_place [simp]: "valid_slot (place T e)"
proof -
  have "unat (x AND 255) < 256" "unat (x AND 63) < 64" for x :: u32
    using unat_and_mask [of x 8] unat_and_mask [of x 6] unfolding mask_numerals [symmetric] by simp_all
  moreover have "add_level e T 0x4000 0 < 4"
    by (simp add: add_level_eq)
  ultimately show ?thesis
    by (simp add: place_def timer_consts push_bit_eq_mult Let_def)
qed

lemma add_node_spec:
  assumes "wheel T"
  shows "wheel (add_node T n)" "tm_time (add_node T n) = tm_time T"
    "tm_current (add_node T n) = tm_current T" "tm_current_point (add_node T n) = tm_current_point T"
    "tm_starttime (add_node T n) = tm_starttime T"
    "valid_slot s \<Longrightarrow> slot_of (add_node T n) s =
       (if s = place (tm_time T) (tn_expire n) then slot_of T s @ [n] else slot_of T s)"
proof -
  have v: "valid_slot (place (tm_time T) (tn_expire n))"
    by simp
  have len: "i < 4 \<Longrightarrow> length (tm_t T ! i) = 64" for i
    using assms by (simp add: wheel_def)
  have "wheel (add_node T n) \<and> tm_time (add_node T n) = tm_time T \<and> tm_current (add_node T n) = tm_current T \<and>
    tm_current_point (add_node T n) = tm_current_point T \<and> tm_starttime (add_node T n) = tm_starttime T \<and>
    (valid_slot s \<longrightarrow> slot_of (add_node T n) s =
      (if s = place (tm_time T) (tn_expire n) then slot_of T s @ [n] else slot_of T s))"
  proof (cases "tn_expire n OR TIME_NEAR_MASK = tm_time T OR TIME_NEAR_MASK")
    case True
    let ?j = "unat (tn_expire n AND TIME_NEAR_MASK)"
    have p: "place (tm_time T) (tn_expire n) = Near ?j"
      using True by (simp add: place_def)
    have a: "add_node T n = T\<lparr>tm_near := (tm_near T)[?j := tm_near T ! ?j @ [n]]\<rparr>"
      using True by (simp add: add_node_def Let_def)
    show ?thesis
      using v assms unfolding p a by (cases s) (auto simp: wheel_def)
  next
    case False
    let ?i = "add_level (tn_expire n) (tm_time T) (push_bit TIME_LEVEL_SHIFT (word_of_nat TIME_NEAR)) 0"
    let ?j = "unat (drop_bit (TIME_NEAR_SHIFT + ?i * TIME_LEVEL_SHIFT) (tn_expire n) AND TIME_LEVEL_MASK)"
    have p: "place (tm_time T) (tn_expire n) = Lvl ?i ?j"
      using False by (simp add: place_def Let_def)
    have a: "add_node T n = T\<lparr>tm_t := (tm_t T)[?i := (tm_t T ! ?i)[?j := tm_t T ! ?i ! ?j @ [n]]]\<rparr>"
      using False by (simp add: add_node_def Let_def)
    show ?thesis
      using v assms len [of ?i] unfolding p a
      by (cases s) (auto simp: wheel_def nth_list_update set_update_memI dest!: set_update_subset_insert [THEN subsetD])
  qed
  then show "wheel (add_node T n)" "tm_time (add_node T n) = tm_time T"
    "tm_current (add_node T n) = tm_current T" "tm_current_point (add_node T n) = tm_current_point T"
    "tm_starttime (add_node T n) = tm_starttime T"
    "valid_slot s \<Longrightarrow> slot_of (add_node T n) s =
       (if s = place (tm_time T) (tn_expire n) then slot_of T s @ [n] else slot_of T s)"
    by blast+
qed

lemma add_nodes_spec:
  assumes "wheel T"
  shows "wheel (foldl add_node T ns) \<and> tm_time (foldl add_node T ns) = tm_time T \<and>
    tm_current (foldl add_node T ns) = tm_current T \<and> tm_current_point (foldl add_node T ns) = tm_current_point T \<and>
    tm_starttime (foldl add_node T ns) = tm_starttime T \<and>
    (\<forall>s. valid_slot s \<longrightarrow> slot_of (foldl add_node T ns) s =
       slot_of T s @ filter (\<lambda>n. place (tm_time T) (tn_expire n) = s) ns)"
  using assms
proof (induction ns arbitrary: T)
  case Nil
  then show ?case by simp
next
  case (Cons n ns)
  show ?case
    using Cons.IH [OF add_node_spec(1) [OF Cons.prems]] add_node_spec(2-6) [OF Cons.prems] by auto
qed

definition clear_slot :: "timer \<Rightarrow> nat \<Rightarrow> nat \<Rightarrow> timer" where
  "clear_slot T i j = T\<lparr>tm_t := (tm_t T)[i := (tm_t T ! i)[j := []]]\<rparr>"

lemma move_list_spec:
  assumes "wheel T" "i < 4" "j < 64"
  shows "wheel (move_list T i j) \<and> tm_time (move_list T i j) = tm_time T \<and>
    tm_current (move_list T i j) = tm_current T \<and> tm_current_point (move_list T i j) = tm_current_point T \<and>
    tm_starttime (move_list T i j) = tm_starttime T \<and>
    (\<forall>s. valid_slot s \<longrightarrow> slot_of (move_list T i j) s =
       (if s = Lvl i j then [] else slot_of T s) @
         filter (\<lambda>n. place (tm_time T) (tn_expire n) = s) (slot_of T (Lvl i j)))"
proof -
  have len: "length (tm_t T ! i) = 64"
    using assms by (simp add: wheel_def)
  have w: "wheel (clear_slot T i j)"
    using assms len by (auto simp: wheel_def clear_slot_def dest!: set_update_subset_insert [THEN subsetD])
  have c: "valid_slot s \<Longrightarrow> slot_of (clear_slot T i j) s = (if s = Lvl i j then [] else slot_of T s)" for s
    using assms len by (cases s) (auto simp: clear_slot_def wheel_def nth_list_update)
  have m: "move_list T i j = foldl add_node (clear_slot T i j) (slot_of T (Lvl i j))"
    by (simp add: move_list_def clear_slot_def)
  show ?thesis
    using add_nodes_spec [OF w, of "slot_of T (Lvl i j)"] c unfolding m by (simp add: clear_slot_def)
qed

definition move_to :: "timer \<Rightarrow> slot_id option \<Rightarrow> timer" where
  "move_to T m = (case m of Some (Lvl i j) \<Rightarrow> move_list T i j | _ \<Rightarrow> T)"

lemma shift_loop_step:
  assumes "k = 8 + 6 * i" "i \<le> 3" "m = push_bit k 1" "tm = drop_bit k (ct :: u32)"
  shows "shift_loop T ct m tm i =
    (if unat ct mod 2 ^ k = 0 then
       (if unat ct div 2 ^ k mod 64 \<noteq> 0 then Inr (move_list T i (unat ct div 2 ^ k mod 64))
        else if i \<ge> 3 then Inl Out_Of_Bounds
        else shift_loop T ct (push_bit (k + 6) 1) (drop_bit (k + 6) ct) (i + 1))
     else Inr T)"
proof -
  have "m - 1 = mask k"
    using assms(3) by (simp add: mask_eq_exp_minus_1 push_bit_eq_mult)
  then have c: "ct AND (m - 1) = 0 \<longleftrightarrow> unat ct mod 2 ^ k = 0"
    using unat_and_mask [of ct k] by (simp only: unat_eq_0 [symmetric])
  have d: "unat (tm AND TIME_LEVEL_MASK) = unat ct div 2 ^ k mod 64"
    using unat_and_mask [of tm 6] unfolding mask_numerals [symmetric]
    by (simp add: assms(4) unat_drop_div TIME_LEVEL_MASK_def)
  have s: "push_bit TIME_LEVEL_SHIFT m = push_bit (k + 6) 1" "drop_bit TIME_LEVEL_SHIFT tm = drop_bit (k + 6) ct"
    by (simp_all add: assms(3,4) TIME_LEVEL_SHIFT_def add.commute push_bit_eq_mult power_add)
  show ?thesis
    by (subst shift_loop.simps) (simp only: c d s Let_def)
qed

lemma shift_loop_eq:
  assumes "ct \<noteq> 0"
  shows "shift_loop T ct (word_of_nat TIME_NEAR) (drop_bit TIME_NEAR_SHIFT ct) 0 = Inr (move_to T (moved_slot (unat ct)))"
proof -
  have z: "unat ct mod 2 ^ 14 = 0 \<longleftrightarrow> unat ct mod 2 ^ 8 = 0 \<and> unat ct div 2 ^ 8 mod 64 = 0"
    "unat ct mod 2 ^ 20 = 0 \<longleftrightarrow> unat ct mod 2 ^ 14 = 0 \<and> unat ct div 2 ^ 14 mod 64 = 0"
    "unat ct mod 2 ^ 26 = 0 \<longleftrightarrow> unat ct mod 2 ^ 20 = 0 \<and> unat ct div 2 ^ 20 mod 64 = 0"
    "unat ct mod 2 ^ 32 = 0 \<longleftrightarrow> unat ct mod 2 ^ 26 = 0 \<and> unat ct div 2 ^ 26 mod 64 = 0"
    using mod_block [of "unat ct" 8] mod_block [of "unat ct" 14] mod_block [of "unat ct" 20] mod_block [of "unat ct" 26]
    by simp_all
  have "unat ct < 2 ^ 32"
    by (rule order_less_le_trans [OF unsigned_less]) simp
  then have nz: "unat ct mod 2 ^ 32 \<noteq> 0"
    using assms by (simp add: unat_eq_0)
  have start: "shift_loop T ct (word_of_nat TIME_NEAR) (drop_bit TIME_NEAR_SHIFT ct) 0 =
      shift_loop T ct (push_bit 8 1) (drop_bit 8 ct) 0"
    by (simp add: timer_consts push_bit_eq_mult)
  have s0: "shift_loop T ct (push_bit 8 1) (drop_bit 8 ct) 0 = (if unat ct mod 2 ^ 8 = 0 then
      if unat ct div 2 ^ 8 mod 64 \<noteq> 0 then Inr (move_list T 0 (unat ct div 2 ^ 8 mod 64))
      else shift_loop T ct (push_bit 14 1) (drop_bit 14 ct) 1 else Inr T)"
    using shift_loop_step [of 8 0 "push_bit 8 1" "drop_bit 8 ct" ct T] by simp
  have s1: "shift_loop T ct (push_bit 14 1) (drop_bit 14 ct) 1 = (if unat ct mod 2 ^ 14 = 0 then
      if unat ct div 2 ^ 14 mod 64 \<noteq> 0 then Inr (move_list T 1 (unat ct div 2 ^ 14 mod 64))
      else shift_loop T ct (push_bit 20 1) (drop_bit 20 ct) 2 else Inr T)"
    using shift_loop_step [of 14 1 "push_bit 14 1" "drop_bit 14 ct" ct T] by (simp add: numeral_2_eq_2)
  have s2: "shift_loop T ct (push_bit 20 1) (drop_bit 20 ct) 2 = (if unat ct mod 2 ^ 20 = 0 then
      if unat ct div 2 ^ 20 mod 64 \<noteq> 0 then Inr (move_list T 2 (unat ct div 2 ^ 20 mod 64))
      else shift_loop T ct (push_bit 26 1) (drop_bit 26 ct) 3 else Inr T)"
    using shift_loop_step [of 20 2 "push_bit 20 1" "drop_bit 20 ct" ct T] by simp
  have s3: "shift_loop T ct (push_bit 26 1) (drop_bit 26 ct) 3 = (if unat ct mod 2 ^ 26 = 0 then
      if unat ct div 2 ^ 26 mod 64 \<noteq> 0 then Inr (move_list T 3 (unat ct div 2 ^ 26 mod 64))
      else Inl Out_Of_Bounds else Inr T)"
    using shift_loop_step [of 26 3 "push_bit 26 1" "drop_bit 26 ct" ct T] by simp
  show ?thesis
    unfolding start s0 s1 s2 s3 moved_slot_def move_to_def
    by (cases "unat ct mod 2 ^ 8 = 0"; cases "unat ct div 2 ^ 8 mod 64 = 0"; cases "unat ct div 2 ^ 14 mod 64 = 0";
        cases "unat ct div 2 ^ 20 mod 64 = 0"; cases "unat ct div 2 ^ 26 mod 64 = 0")
      (use z nz in \<open>simp_all only: simp_thms if_True if_False option.case slot_id.case\<close>)
qed

lemma unat_max_word: "unat (- 1 :: u32) = 2 ^ 32 - 1"
  by (simp add: unsigned_minus_1_eq_mask mask_eq_exp_minus_1)

lemma timer_shift_eq:
  "timer_shift T = Inr (move_to (T\<lparr>tm_time := tm_time T + 1\<rparr>) (moved_slot (Suc (unat (tm_time T)))))"
proof (cases "tm_time T + 1 = 0")
  case True
  then have "Suc (unat (tm_time T)) = 2 ^ 32"
    by (simp add: eq_neg_iff_add_eq_0 [symmetric] unat_max_word)
  then show ?thesis
    using True by (simp add: timer_shift_def Let_def moved_slot_def move_to_def)
next
  case False
  then have "unat (tm_time T + 1) = Suc (unat (tm_time T))"
    by (simp add: unatSuc add.commute)
  then show ?thesis
    using False shift_loop_eq [OF False, of "T\<lparr>tm_time := tm_time T + 1\<rparr>"] by (simp add: timer_shift_def Let_def)
qed

lemma unat_diff_tick:
  assumes "e \<noteq> (t :: u32)"
  shows "Suc (unat (e - (t + 1))) = unat (e - t)"
proof -
  have "e - t = (e - (t + 1)) + 1"
    by simp
  moreover have "(e - (t + 1)) + 1 \<noteq> 0"
    using assms by simp
  ultimately show ?thesis
    by (metis add.commute unatSuc)
qed

text \<open>The tick on words: only the nodes of the moved list change place.\<close>

lemma place_tick:
  assumes "e \<noteq> t" "unat (e - t) < 2 ^ 31" "moved_slot (Suc (unat t)) \<noteq> Some (place t e)"
  shows "place (t + 1) e = place t e"
proof -
  let ?N = "unat t" and ?E = "unat t + unat (e - t)"
  have d: "unat (e - (t + 1)) + 1 = unat (e - t)"
    using unat_diff_tick [OF assms(1)] by simp
  have p: "place t e = place_nat ?N ?E"
    by (rule place_eq_nat [OF assms(2)])
  have pos: "?N < ?E"
    using d by linarith
  have p': "place (t + 1) e = place_nat (unat (t + 1)) (unat (t + 1) + unat (e - (t + 1)))"
    by (rule place_eq_nat) (use d assms(2) in linarith)
  have step: "place_nat (Suc ?N) ?E = place_nat ?N ?E"
    using assms(3) p by (intro place_nat_tick [OF pos]) simp
  show ?thesis
  proof (cases "t + 1 = 0")
    case True
    then have "t = - 1"
      by (simp add: eq_neg_iff_add_eq_0)
    then have w: "Suc ?N = 2 ^ 32"
      by (simp add: unat_max_word)
    have "place (t + 1) e = place_nat 0 (unat (e - (t + 1)))"
      unfolding p' by (simp only: True) simp
    also have "\<dots> = place_nat (2 ^ 32) (unat (e - (t + 1)) + 2 ^ 32)"
      by (rule place_nat_wrap [symmetric])
    also have "\<dots> = place_nat (Suc ?N) ?E"
    proof -
      have "unat (e - (t + 1)) + Suc ?N = ?E"
        using d by linarith
      then show ?thesis
        by (simp only: w [symmetric])
    qed
    finally show ?thesis
      using step p by simp
  next
    case False
    then have u: "unat (t + 1) = Suc ?N"
      by (simp add: unatSuc add.commute)
    then have E: "unat (t + 1) + unat (e - (t + 1)) = ?E"
      using d by linarith
    show ?thesis
      unfolding p' E unfolding u using step p by (simp only:)
  qed
qed

lemma place_now: "place t t = Near (unat (t AND TIME_NEAR_MASK))"
  by (simp add: place_def)

lemma place_nat_Near: "place_nat N E = Near j \<Longrightarrow> N div 2 ^ 8 = E div 2 ^ 8 \<and> E mod 2 ^ 8 = j"
proof -
  have "(if a then Near x else if b then Lvl i1 j1 else if c then Lvl i2 j2 else if d then Lvl i3 j3 else Lvl i4 j4) = Near j
    \<Longrightarrow> a \<and> x = j" for a b c d and x i1 j1 i2 j2 i3 j3 i4 j4 :: nat
    by (auto split: if_splits)
  then show "place_nat N E = Near j \<Longrightarrow> N div 2 ^ 8 = E div 2 ^ 8 \<and> E mod 2 ^ 8 = j"
    unfolding place_nat_def .
qed

text \<open>Whatever waits in the list of the current tick is due now.\<close>

lemma place_near_due:
  assumes "place t e = place t t" "unat (e - t) < 2 ^ 31"
  shows "e = t"
proof -
  let ?E = "unat t + unat (e - t)"
  have "place t e = place_nat (unat t) ?E" "place t t = place_nat (unat t) (unat t)"
    using place_eq_nat [OF assms(2)] place_eq_nat [of t t] by simp_all
  moreover have "place_nat N N = Near (N mod 2 ^ 8)" for N
    unfolding place_nat_def by (simp only: simp_thms if_True)
  ultimately have "unat t div 2 ^ 8 = ?E div 2 ^ 8" "?E mod 2 ^ 8 = unat t mod 2 ^ 8"
    using place_nat_Near [of "unat t" ?E "unat t mod 2 ^ 8"] assms(1) by (simp_all only:)
  then have "?E = unat t"
    by (metis div_mod_decomp)
  then show ?thesis
    by (simp add: unat_eq_0)
qed

lemma moved_slot_valid: "moved_slot M = Some s \<Longrightarrow> \<exists>i j. s = Lvl i j \<and> i < 4 \<and> j < 64"
proof -
  have "(if a then None else if b then Some (Lvl 0 (x mod 64)) else if c then Some (Lvl 1 (y mod 64))
      else if d then Some (Lvl 2 (z mod 64)) else Some (Lvl 3 (w mod 64))) = Some s \<Longrightarrow>
    \<exists>i j. s = Lvl i j \<and> i < 4 \<and> j < 64" for a b c d and x y z w :: nat
    by (auto split: if_splits)
  then show "moved_slot M = Some s \<Longrightarrow> \<exists>i j. s = Lvl i j \<and> i < 4 \<and> j < 64"
    unfolding moved_slot_def .
qed

lemma move_to_spec:
  assumes "wheel T" "m = moved_slot M"
  shows "wheel (move_to T m) \<and> tm_time (move_to T m) = tm_time T \<and>
    tm_current (move_to T m) = tm_current T \<and> tm_current_point (move_to T m) = tm_current_point T \<and>
    tm_starttime (move_to T m) = tm_starttime T \<and>
    (\<forall>s. valid_slot s \<longrightarrow> slot_of (move_to T m) s =
       (if m = Some s then [] else slot_of T s) @
         filter (\<lambda>n. place (tm_time T) (tn_expire n) = s) (case m of None \<Rightarrow> [] | Some s' \<Rightarrow> slot_of T s'))"
proof (cases m)
  case None
  then show ?thesis
    using assms(1) by (simp add: move_to_def)
next
  case (Some s0)
  then obtain i j where ij: "s0 = Lvl i j" "i < 4" "j < 64"
    using moved_slot_valid [of M s0] assms(2) by auto
  then show ?thesis
    using move_list_spec [OF assms(1) ij(2,3)] Some by (auto simp: move_to_def)
qed

lemma slot_of_time [simp]: "slot_of (T\<lparr>tm_time := t\<rparr>) s = slot_of T s"
  by (cases s) simp_all

lemma wheel_time [simp]: "wheel (T\<lparr>tm_time := t\<rparr>) = wheel T"
  by (simp add: wheel_def)

lemma timer_shift_correct:
  assumes "timer_inv T"
  shows "\<exists>T'. timer_shift T = Inr T' \<and> placed T' \<and> tm_time T' = tm_time T + 1 \<and>
    tm_current T' = tm_current T \<and> tm_current_point T' = tm_current_point T \<and> tm_starttime T' = tm_starttime T \<and>
    (\<forall>s n. valid_slot s \<longrightarrow> n \<in> set (slot_of T' s) \<longrightarrow> unat (tn_expire n - tm_time T) < 2 ^ 31) \<and>
    (\<forall>e. unat (e - tm_time T) < 2 ^ 31 \<longrightarrow> e \<noteq> tm_time T \<longrightarrow> pending T' e = pending T e)"
proof -
  let ?t = "tm_time T"
  let ?m = "moved_slot (Suc (unat ?t))"
  let ?T1 = "T\<lparr>tm_time := ?t + 1\<rparr>"
  let ?T' = "move_to ?T1 ?m"
  have wheel: "wheel T"
    and at: "\<And>s n. valid_slot s \<Longrightarrow> n \<in> set (slot_of T s) \<Longrightarrow> place ?t (tn_expire n) = s"
    and near: "\<And>s n. valid_slot s \<Longrightarrow> n \<in> set (slot_of T s) \<Longrightarrow> unat (tn_expire n - ?t) < 2 ^ 31"
    and ne: "\<And>s n. valid_slot s \<Longrightarrow> n \<in> set (slot_of T s) \<Longrightarrow> tn_expire n \<noteq> ?t"
    using assms by (auto simp: timer_inv_def placed_def)
  define moved where "moved = (case ?m of None \<Rightarrow> [] | Some s' \<Rightarrow> slot_of T s')"
  have spec: "wheel ?T' \<and> tm_time ?T' = ?t + 1 \<and> tm_current ?T' = tm_current T \<and>
      tm_current_point ?T' = tm_current_point T \<and> tm_starttime ?T' = tm_starttime T"
    and slots: "\<And>s. valid_slot s \<Longrightarrow> slot_of ?T' s = (if ?m = Some s then [] else slot_of T s) @
      filter (\<lambda>n. place (?t + 1) (tn_expire n) = s) moved"
    using move_to_spec [of ?T1 ?m] wheel unfolding moved_def by (auto split: option.splits)
  have moved: "\<exists>s0. ?m = Some s0 \<and> valid_slot s0 \<and> n \<in> set (slot_of T s0)" if "n \<in> set moved" for n
  proof (cases ?m)
    case None
    then show ?thesis
      using that by (simp add: moved_def)
  next
    case (Some s0)
    then show ?thesis
      using that moved_slot_valid [OF Some] by (auto simp: moved_def)
  qed
  have placed: "place (?t + 1) (tn_expire n) = s \<and> unat (tn_expire n - (?t + 1)) < 2 ^ 31"
    if s: "valid_slot s" and n: "n \<in> set (slot_of ?T' s)" for s n
  proof -
    have "(?m \<noteq> Some s \<and> n \<in> set (slot_of T s)) \<or> (n \<in> set moved \<and> place (?t + 1) (tn_expire n) = s)"
      using n unfolding slots [OF s] by (auto split: if_splits)
    then show ?thesis
    proof
      assume n: "?m \<noteq> Some s \<and> n \<in> set (slot_of T s)"
      then show ?thesis
        using place_tick [of "tn_expire n" ?t] unat_diff_tick [of "tn_expire n" ?t] at [OF s] near [OF s] ne [OF s]
        by (metis Suc_lessD)
    next
      assume n: "n \<in> set moved \<and> place (?t + 1) (tn_expire n) = s"
      then obtain s0 where "valid_slot s0" "n \<in> set (slot_of T s0)"
        using moved by blast
      then show ?thesis
        using n unat_diff_tick [of "tn_expire n" ?t] near ne by (metis Suc_lessD)
    qed
  qed
  have range: "unat (tn_expire n - ?t) < 2 ^ 31" if s: "valid_slot s" and n: "n \<in> set (slot_of ?T' s)" for s n
    using n moved near unfolding slots [OF s] by (auto split: if_splits) (use s in blast)
  have pend: "pending ?T' e = pending T e" if e: "unat (e - ?t) < 2 ^ 31" "e \<noteq> ?t" for e
  proof (cases "?m = Some (place ?t e)")
    case True
    then have mv: "moved = slot_of T (place ?t e)"
      by (simp add: moved_def)
    have "filter (\<lambda>n. tn_expire n = e) (if ?m = Some (place (?t + 1) e) then [] else slot_of T (place (?t + 1) e)) = []"
      using True at [OF valid_place] by (auto simp: filter_empty_conv)
    then show ?thesis
      using spec unfolding pending_def slots [OF valid_place]
      by (auto simp: slots mv filter_filter intro!: filter_cong)
  next
    case False
    then have same: "place (?t + 1) e = place ?t e"
      by (rule place_tick [OF e(2,1)])
    have "filter (\<lambda>n. tn_expire n = e) moved = []"
      using moved False at by (auto simp: filter_empty_conv)
    then have "filter (\<lambda>n. tn_expire n = e) (filter (\<lambda>n. place (?t + 1) (tn_expire n) = place ?t e) moved) = []"
      by (auto simp: filter_empty_conv)
    then show ?thesis
      using spec False same by (simp add: pending_def slots)
  qed
  show ?thesis
    using spec placed pend range timer_shift_eq [of T] unfolding placed_def by (intro exI [of _ ?T']) auto
qed

lemma slot_of_near: "slot_of T (place t t) = tm_near T ! unat (t AND TIME_NEAR_MASK)"
  by (simp add: place_now)

lemma near_index: "unat (t AND TIME_NEAR_MASK) < 256"
  using valid_place [of t t] by (simp add: place_now)

lemma timer_execute_correct:
  assumes "placed T"
  shows "\<exists>T'. timer_execute T = (pending T (tm_time T), T') \<and> timer_inv T' \<and> tm_time T' = tm_time T \<and>
    tm_current T' = tm_current T \<and> tm_current_point T' = tm_current_point T \<and> tm_starttime T' = tm_starttime T \<and>
    (\<forall>s. valid_slot s \<longrightarrow> slot_of T' s = (if s = place (tm_time T) (tm_time T) then [] else slot_of T s))"
proof -
  let ?t = "tm_time T"
  let ?i = "unat (?t AND TIME_NEAR_MASK)"
  let ?T' = "T\<lparr>tm_near := (tm_near T)[?i := []]\<rparr>"
  have wheel: "wheel T"
    and at: "\<And>s n. valid_slot s \<Longrightarrow> n \<in> set (slot_of T s) \<Longrightarrow> place ?t (tn_expire n) = s \<and> unat (tn_expire n - ?t) < 2 ^ 31"
    using assms by (auto simp: placed_def)
  have slots: "slot_of ?T' s = (if s = place ?t ?t then [] else slot_of T s)" if "valid_slot s" for s
    using that wheel near_index by (cases s) (auto simp: place_now wheel_def nth_list_update)
  have "tn_expire n = ?t" if "n \<in> set (slot_of T (place ?t ?t))" for n
    using at [OF valid_place that] place_near_due by blast
  then have ev: "tm_near T ! ?i = pending T ?t"
    by (simp add: pending_def slot_of_near filter_id_conv)
  have "tn_expire n \<noteq> ?t" if "valid_slot s" "s \<noteq> place ?t ?t" "n \<in> set (slot_of T s)" for s n
    using at that by metis
  then have "timer_inv ?T'"
    using wheel at slots by (auto simp: timer_inv_def placed_def wheel_def)
  then show ?thesis
    using ev slots by (auto simp: timer_execute_def Let_def)
qed

lemma timer_inv_placed: "timer_inv T \<Longrightarrow> placed T"
  by (simp add: timer_inv_def)

lemma timer_inv_later: "timer_inv T \<Longrightarrow> n \<in> set (slot_of T (place t e)) \<Longrightarrow> tn_expire n \<noteq> tm_time T"
  unfolding timer_inv_def using valid_place by blast

lemma placedD:
  "placed T \<Longrightarrow> n \<in> set (slot_of T (place t e)) \<Longrightarrow>
    place (tm_time T) (tn_expire n) = place t e \<and> unat (tn_expire n - tm_time T) < 2 ^ 31"
  unfolding placed_def using valid_place by blast

lemma pending_now: "timer_inv T \<Longrightarrow> pending T (tm_time T) = []"
  using timer_inv_later by (auto simp: pending_def filter_empty_conv)

text \<open>The first \<open>timer_execute\<close> of an update finds nothing: no delay is 0.\<close>

lemma timer_execute_idle: "timer_inv T \<Longrightarrow> timer_execute T = ([], T)"
proof -
  assume inv: "timer_inv T"
  have "fst (timer_execute T) = []"
    using timer_execute_correct [OF timer_inv_placed [OF inv]] pending_now [OF inv] by auto
  then have "tm_near T ! unat (tm_time T AND TIME_NEAR_MASK) = []"
    by (simp add: timer_execute_def Let_def)
  then show ?thesis
    by (simp add: timer_execute_def Let_def) (metis list_update_id timer.surjective timer.update_convs(1))
qed

lemma timer_update_spec:
  assumes inv: "timer_inv T"
  shows "\<exists>T'. timer_update T = Inr (pending T (tm_time T + 1), T') \<and> timer_inv T' \<and> tm_time T' = tm_time T + 1 \<and>
    tm_current T' = tm_current T \<and> tm_current_point T' = tm_current_point T \<and> tm_starttime T' = tm_starttime T \<and>
    (\<forall>s n. valid_slot s \<longrightarrow> n \<in> set (slot_of T' s) \<longrightarrow> unat (tn_expire n - tm_time T) < 2 ^ 31) \<and>
    (\<forall>e. unat (e - tm_time T) < 2 ^ 31 \<longrightarrow> e \<noteq> tm_time T \<longrightarrow> e \<noteq> tm_time T + 1 \<longrightarrow> pending T' e = pending T e)"
proof -
  obtain T1 where T1: "timer_shift T = Inr T1" "placed T1" "tm_time T1 = tm_time T + 1"
      "tm_current T1 = tm_current T" "tm_current_point T1 = tm_current_point T" "tm_starttime T1 = tm_starttime T"
    and range: "\<forall>s n. valid_slot s \<longrightarrow> n \<in> set (slot_of T1 s) \<longrightarrow> unat (tn_expire n - tm_time T) < 2 ^ 31"
    and pend: "\<forall>e. unat (e - tm_time T) < 2 ^ 31 \<longrightarrow> e \<noteq> tm_time T \<longrightarrow> pending T1 e = pending T e"
    using timer_shift_correct [OF inv] by blast
  obtain T2 where T2: "timer_execute T1 = (pending T1 (tm_time T1), T2)" "timer_inv T2" "tm_time T2 = tm_time T1"
      "tm_current T2 = tm_current T1" "tm_current_point T2 = tm_current_point T1" "tm_starttime T2 = tm_starttime T1"
    and slots: "\<And>s. valid_slot s \<Longrightarrow> slot_of T2 s = (if s = place (tm_time T1) (tm_time T1) then [] else slot_of T1 s)"
    using timer_execute_correct [OF T1(2)] by blast
  have now: "pending T1 (tm_time T + 1) = pending T (tm_time T + 1)"
    using pend by simp
  have upd: "timer_update T = Inr (pending T (tm_time T + 1), T2)"
    using T1(1,3) T2(1) now by (simp add: timer_update_def timer_execute_idle [OF inv])
  have "pending T2 e = pending T e" if e: "unat (e - tm_time T) < 2 ^ 31" "e \<noteq> tm_time T" "e \<noteq> tm_time T + 1" for e
  proof -
    have "unat (e - (tm_time T + 1)) < 2 ^ 31"
      using unat_diff_tick [OF e(2)] e(1) by linarith
    then have "place (tm_time T + 1) e \<noteq> place (tm_time T + 1) (tm_time T + 1)"
      using place_near_due e(3) by blast
    then have "pending T2 e = pending T1 e"
      using T2(3) T1(3) by (simp add: pending_def slots)
    then show ?thesis
      using pend e by simp
  qed
  moreover have "\<forall>s n. valid_slot s \<longrightarrow> n \<in> set (slot_of T2 s) \<longrightarrow> unat (tn_expire n - tm_time T) < 2 ^ 31"
    using range slots by (auto split: if_splits)
  ultimately show ?thesis
    using upd T1 T2 by (intro exI [of _ T2]) auto
qed

lemma create_slot: "valid_slot s \<Longrightarrow> slot_of (timer_create_timer\<lparr>tm_time := t\<rparr>) s = []"
  by (cases s) (auto simp: timer_create_timer_def timer_consts)

lemma create_inv: "timer_inv (timer_create_timer\<lparr>tm_time := t\<rparr>)"
  unfolding timer_inv_def placed_def by (auto simp: create_slot simp del: slot_of_time)
    (auto simp: wheel_def timer_create_timer_def timer_consts)

lemma timer_add_spec:
  assumes inv: "timer_inv T" and d: "0 < d" "d < 2 ^ 31"
  shows "timer_inv (timer_add T h sess d) \<and> tm_time (timer_add T h sess d) = tm_time T \<and>
    tm_current (timer_add T h sess d) = tm_current T \<and>
    pending (timer_add T h sess d) e = pending T e @
      (if e = tm_time T + word_of_int d then [\<lparr>tn_expire = e, tn_handle = h, tn_session = sess\<rparr>] else [])"
proof -
  let ?n = "\<lparr>tn_expire = word_of_int d + tm_time T, tn_handle = h, tn_session = sess\<rparr>"
  have wheel: "wheel T"
    using inv by (simp add: timer_inv_def placed_def)
  note spec = add_node_spec [OF wheel, where n = ?n]
  have off: "unat (word_of_int d :: u32) = nat d"
    using d by (simp add: unat_eq_nat_uint uint_word_of_int)
  then have "tn_expire ?n \<noteq> tm_time T" "unat (tn_expire ?n - tm_time T) < 2 ^ 31"
    using d by (auto simp: unat_eq_0 [symmetric] nat_less_iff)
  then have "timer_inv (add_node T ?n)"
    using inv spec timer_inv_later [OF inv] placedD [OF timer_inv_placed [OF inv]]
    unfolding timer_inv_def placed_def by (auto split: if_splits)
  then show ?thesis
    using spec by (auto simp: timer_add_def pending_def add.commute)
qed

definition wheel_due :: "timer \<Rightarrow> nat \<Rightarrow> (u32 \<times> int) list" where
  "wheel_due T k = (if 0 < k \<and> k < 2 ^ 31
     then map (\<lambda>n. (tn_handle n, tn_session n)) (pending T (tm_time T + word_of_nat k)) else [])"

definition wheel_add :: "timer \<Rightarrow> u32 \<times> int \<Rightarrow> nat \<Rightarrow> timer" where
  "wheel_add T ev d = timer_add T (fst ev) (snd ev) (int d)"

definition wheel_tick :: "timer \<Rightarrow> (u32 \<times> int) list \<times> timer" where
  "wheel_tick T = (case timer_update T of
     Inl _ \<Rightarrow> ([], T) | Inr (ev, T') \<Rightarrow> (map (\<lambda>n. (tn_handle n, tn_session n)) ev, T'))"

interpretation wheel: calendar wheel_add wheel_tick wheel_due timer_inv "2 ^ 31"
proof unfold_locales
  fix T ev and d k :: nat
  assume inv: "timer_inv T" and d: "0 < d" "d < 2 ^ 31"
  note spec = timer_add_spec [OF inv, of "int d" "fst ev" "snd ev"]
  show "timer_inv (wheel_add T ev d)"
    using spec d by (simp add: wheel_add_def)
  assume "0 < k"
  have "(word_of_nat k :: u32) = word_of_nat d \<longleftrightarrow> k = d" if "k < 2 ^ 31"
    using that d by (simp add: word_unat_eq_iff unat_of_nat)
  then show "wheel_due (wheel_add T ev d) k = wheel_due T k @ (if k = d then [ev] else [])"
    using spec [of "tm_time T + word_of_nat k"] d \<open>0 < k\<close> by (auto simp: wheel_due_def wheel_add_def)
next
  fix T
  assume inv: "timer_inv T"
  obtain T' where T': "timer_update T = Inr (pending T (tm_time T + 1), T')" "timer_inv T'" "tm_time T' = tm_time T + 1"
    and range: "\<forall>s n. valid_slot s \<longrightarrow> n \<in> set (slot_of T' s) \<longrightarrow> unat (tn_expire n - tm_time T) < 2 ^ 31"
    and pend: "\<forall>e. unat (e - tm_time T) < 2 ^ 31 \<longrightarrow> e \<noteq> tm_time T \<longrightarrow> e \<noteq> tm_time T + 1 \<longrightarrow> pending T' e = pending T e"
    using timer_update_spec [OF inv] by blast
  show "timer_inv (snd (wheel_tick T))" "fst (wheel_tick T) = wheel_due T 1"
    using T' by (simp_all add: wheel_tick_def wheel_due_def)
  fix k :: nat
  assume k: "0 < k"
  let ?e = "tm_time T + 1 + word_of_nat k"
  have e: "tm_time T + word_of_nat (Suc k) = ?e"
    by simp
  have u: "unat (?e - tm_time T) = Suc k" if "k < 2 ^ 31"
  proof -
    have "?e - tm_time T = word_of_nat (Suc k)"
      by simp
    then show ?thesis
      using that by (simp only: unat_of_nat) simp
  qed
  have "wheel_due T' k = wheel_due T (Suc k)"
  proof (cases "Suc k < 2 ^ 31")
    case True
    have uk: "unat (?e - tm_time T) = Suc k"
      using True by (intro u) simp
    have "?e \<noteq> tm_time T" "?e \<noteq> tm_time T + 1"
    proof -
      show "?e \<noteq> tm_time T"
      proof
        assume "?e = tm_time T"
        then have "?e - tm_time T = 0"
          by (simp only: diff_self)
        then show False
          using uk by (simp only: unsigned_0)
      qed
      show "?e \<noteq> tm_time T + 1"
      proof
        assume "?e = tm_time T + 1"
        then have "?e - tm_time T = 1"
          by (simp only: add_diff_cancel_left')
        then show False
          using uk k by (simp only: unsigned_1)
      qed
    qed
    then have "pending T' ?e = pending T ?e"
      using pend uk True by simp
    then show ?thesis
      using True k unfolding wheel_due_def e T'(3) by (simp only: if_True simp_thms) simp
  next
    case False
    have "pending T' ?e = []" if "k < 2 ^ 31"
    proof (rule ccontr)
      assume "pending T' ?e \<noteq> []"
      then obtain n where n: "n \<in> set (slot_of T' (place (tm_time T') ?e))" "tn_expire n = ?e"
        by (auto simp: pending_def filter_empty_conv)
      have "unat (tn_expire n - tm_time T) < 2 ^ 31"
        by (rule range [rule_format, OF valid_place n(1)])
      then show False
        unfolding n(2) u [OF that] using False by simp
    qed
    then show ?thesis
      using False T'(3) by (auto simp: wheel_due_def)
  qed
  then show "wheel_due (snd (wheel_tick T)) k = wheel_due T (Suc k)"
    using T' by (simp add: wheel_tick_def)
qed

section \<open>The clock\<close>

definition node_event :: "timer_node \<Rightarrow> u32 \<times> int" where
  "node_event n = (tn_handle n, tn_session n)"

lemma timer_updates_spec:
  assumes "timer_inv T"
  shows "\<exists>ev T'. timer_updates n T = Inr (ev, T') \<and> timer_inv T' \<and> tm_time T' = tm_time T + word_of_nat n \<and>
    tm_current T' = tm_current T \<and> tm_current_point T' = tm_current_point T \<and>
    map node_event ev = concat (map (wheel_due T) [1..<Suc n]) \<and>
    (\<forall>k > 0. wheel_due T' k = wheel_due T (n + k))"
  using assms
proof (induction n arbitrary: T)
  case 0
  then show ?case by simp
next
  case (Suc n)
  obtain T1 where T1: "timer_update T = Inr (pending T (tm_time T + 1), T1)" "timer_inv T1" "tm_time T1 = tm_time T + 1"
      "tm_current T1 = tm_current T" "tm_current_point T1 = tm_current_point T"
    using timer_update_spec [OF Suc.prems] by blast
  have due1: "map node_event (pending T (tm_time T + 1)) = wheel_due T 1"
    using wheel.tick_out [OF Suc.prems] T1(1) by (simp add: wheel_tick_def node_event_def [abs_def])
  have shift: "wheel_due T1 k = wheel_due T (Suc k)" if "0 < k" for k
    using wheel.tick_due [OF Suc.prems that] T1(1) by (simp add: wheel_tick_def)
  obtain ev T2 where T2: "timer_updates n T1 = Inr (ev, T2)" "timer_inv T2" "tm_time T2 = tm_time T1 + word_of_nat n"
      "tm_current T2 = tm_current T1" "tm_current_point T2 = tm_current_point T1"
      "map node_event ev = concat (map (wheel_due T1) [1..<Suc n])"
      "\<forall>k > 0. wheel_due T2 k = wheel_due T1 (n + k)"
    using Suc.IH [OF T1(2)] by blast
  have "map (wheel_due T1) [1..<Suc n] = map (wheel_due T) [2..<Suc (Suc n)]"
    using shift by (intro nth_equalityI) (auto simp del: upt_Suc)
  moreover have "[1..<Suc (Suc n)] = 1 # [2..<Suc (Suc n)]"
    by (simp add: upt_conv_Cons numeral_2_eq_2 del: upt_Suc)
  ultimately have "map node_event (pending T (tm_time T + 1) @ ev) = concat (map (wheel_due T) [1..<Suc (Suc n)])"
    using due1 T2(6) by simp
  then show ?case
    using T1 T2 shift by (auto simp: add.assoc simp del: upt_Suc)
qed

section \<open>Properties\<close>

text \<open>C8: a timeout of \<open>d\<close> ticks, \<open>0 < d < 2 ^ 31\<close>, fires on exactly the \<open>d\<close>-th tick after
  it was set, once, with its handle and session, whatever else is set or fires and whether or not
  the 32-bit clock wraps; timeouts of the same tick fire in the order they were set. For every
  sequence of timeouts and ticks from an empty wheel at any time, the output of each tick is the
  list the sequence schedules for it.\<close>

theorem timer_fires_on_its_tick:
  assumes "\<forall>d \<in> set (cal_delays ops). 0 < d \<and> d < 2 ^ 31"
    "j < length (cal_run wheel_add wheel_tick (timer_create_timer\<lparr>tm_time := t0\<rparr>) ops)"
  shows "cal_run wheel_add wheel_tick (timer_create_timer\<lparr>tm_time := t0\<rparr>) ops ! j = scheduled ops (Suc j)"
proof -
  have "wheel_due (timer_create_timer\<lparr>tm_time := t0\<rparr>) k = []" for k
    using create_slot [OF valid_place] by (simp add: wheel_due_def pending_def)
  then show ?thesis
    using wheel.history [OF create_inv assms] by simp
qed

theorem timer_fires_on_its_tick_witness:
  "cal_run wheel_add wheel_tick (timer_create_timer\<lparr>tm_time := 0xFFFFFFFF\<rparr>)
     [Schedule (7, 1) 2, Schedule (8, 2) 2, Tick, Schedule (9, 3) 1, Tick] ! 1 = [(7, 1), (8, 2), (9, 3)]"
proof -
  let ?ops = "[Schedule (7, 1) 2, Schedule (8, 2) 2, Tick, Schedule (9, 3) 1, Tick] :: (u32 \<times> int) cal_op list"
  have "1 < length (cal_run wheel_add wheel_tick (timer_create_timer\<lparr>tm_time := 0xFFFFFFFF\<rparr>) ?ops)"
    by (simp add: case_prod_beta)
  then show ?thesis
    using timer_fires_on_its_tick [of ?ops 1 "0xFFFFFFFF"] by simp
qed

text \<open>an update of a wheel in its invariant returns (no level index past the array, no
  overflowing shift), dispatches exactly the nodes that expire at the next tick, in the order they
  wait, keeps every other pending node at its own expiry in its order, and keeps the invariant: each
  node is in the list that \<open>add_node\<close> would choose now.\<close>

theorem timer_update_correct:
  assumes "timer_inv T"
  shows "\<exists>T'. timer_update T = Inr (pending T (tm_time T + 1), T') \<and> timer_inv T' \<and> tm_time T' = tm_time T + 1 \<and>
    pending T' (tm_time T + 1) = [] \<and>
    (\<forall>e. unat (e - tm_time T) < 2 ^ 31 \<longrightarrow> e \<noteq> tm_time T + 1 \<longrightarrow> e \<noteq> tm_time T \<longrightarrow> pending T' e = pending T e)"
  using timer_update_spec [OF assms] pending_now by metis

theorem timer_update_correct_witness:
  "\<exists>T'. timer_update (timer_add timer_create_timer 7 5 1) = Inr ([\<lparr>tn_expire = 1, tn_handle = 7, tn_session = 5\<rparr>], T')"
proof -
  have inv: "timer_inv timer_create_timer"
    using create_inv [of 0] by (simp add: timer_create_timer_def)
  have "tm_time timer_create_timer = 0" "pending timer_create_timer 1 = []"
    using create_slot [OF valid_place, of 0 0 1] by (simp_all add: timer_create_timer_def pending_def)
  then show ?thesis
    using timer_add_spec [OF inv, of 1 7 5 1] timer_update_correct [of "timer_add timer_create_timer 7 5 1"] by auto
qed

text \<open>\<open>skynet_updatetime\<close> runs one tick per elapsed centisecond. When the monotonic clock
  went from \<open>current_point\<close> to \<open>cp\<close>, the wheel advances by the difference modulo 2^32, \<open>skynet_now\<close>
  by the same amount, and the events dispatched are those of all the ticks in between, in the order of their
  expiry; when the clock did not move or went back, nothing fires and no time passes.\<close>

theorem skynet_updatetime_correct:
  assumes "timer_inv T"
  shows "\<exists>ev T'. skynet_updatetime cp T = Inr (ev, T') \<and> timer_inv T' \<and> tm_current_point T' = cp \<and>
    (let n = (if cp < tm_current_point T then 0 else unat (cp - tm_current_point T) mod 2 ^ 32) in
      tm_time T' = tm_time T + word_of_nat n \<and> skynet_now T' = skynet_now T + word_of_nat n \<and>
      map node_event ev = concat (map (wheel_due T) [1..<Suc n]))"
proof -
  let ?d = "ucast (cp - tm_current_point T) :: u32"
  let ?T = "T\<lparr>tm_current_point := cp, tm_current := tm_current T + ucast ?d\<rparr>"
  have slot: "slot_of (T\<lparr>tm_current_point := x, tm_current := y\<rparr>) s = slot_of T s"
    "slot_of (T\<lparr>tm_current_point := x\<rparr>) s = slot_of T s" for x y s
    by (cases s; simp)+
  have inv: "timer_inv ?T" "timer_inv (T\<lparr>tm_current_point := cp\<rparr>)"
    using assms unfolding timer_inv_def placed_def slot wheel_def by simp_all
  have due: "wheel_due ?T = wheel_due T"
    by (simp add: wheel_due_def pending_def slot fun_eq_iff)
  have n: "unat ?d = unat (cp - tm_current_point T) mod 2 ^ 32"
    by (simp add: unsigned_ucast_eq take_bit_eq_mod)
  show ?thesis
  proof (cases "cp \<le> tm_current_point T")
    case True
    then show ?thesis
      using inv assms by (auto simp: skynet_updatetime_def skynet_now_def Let_def)
  next
    case False
    then have upd: "skynet_updatetime cp T = timer_updates (unat ?d) ?T"
      by (auto simp: skynet_updatetime_def Let_def)
    obtain ev T' where T': "timer_updates (unat ?d) ?T = Inr (ev, T')" "timer_inv T'"
        "tm_time T' = tm_time ?T + word_of_nat (unat ?d)" "tm_current T' = tm_current ?T"
        "tm_current_point T' = tm_current_point ?T" "map node_event ev = concat (map (wheel_due ?T) [1..<Suc (unat ?d)])"
      using timer_updates_spec [OF inv(1), of "unat ?d"] by blast
    have uc: "(ucast ?d :: u64) = word_of_nat (unat ?d)"
      by simp
    have nn: "(if cp < tm_current_point T then 0 else unat (cp - tm_current_point T) mod 2 ^ 32) = unat ?d"
      using False n by simp
    have "tm_time T' = tm_time T + word_of_nat (unat ?d)" "tm_current_point T' = cp"
      using T'(3,5) by simp_all
    moreover have "skynet_now T' = skynet_now T + word_of_nat (unat ?d)"
      unfolding skynet_now_def T'(4) uc [symmetric] by simp
    moreover have "map node_event ev = concat (map (wheel_due T) [1..<Suc (unat ?d)])"
      using T'(6) unfolding due .
    ultimately show ?thesis
      unfolding Let_def nn upd using T'(1,2) by blast
  qed
qed

theorem skynet_updatetime_correct_witness:
  "\<exists>ev T'. skynet_updatetime 102 (timer_add (skynet_timer_init 0 0 100) 7 5 2) = Inr (ev, T') \<and> skynet_now T' = 2"
proof -
  have i: "skynet_timer_init 0 0 100 = (timer_create_timer\<lparr>tm_time := 0\<rparr>)\<lparr>tm_current_point := 100\<rparr>"
    by (simp add: skynet_timer_init_def timer_create_timer_def)
  have slot: "slot_of (T\<lparr>tm_current_point := x\<rparr>) s = slot_of T s" for T x s
    by (cases s; simp)
  have "timer_inv (skynet_timer_init 0 0 100)"
    using create_inv [of 0] unfolding i timer_inv_def placed_def slot wheel_def by simp
  then have "timer_inv (timer_add (skynet_timer_init 0 0 100) 7 5 2)" 
      "tm_current (timer_add (skynet_timer_init 0 0 100) 7 5 2) = 0"
    using timer_add_spec [of "skynet_timer_init 0 0 100" 2 7 5] by (auto simp: skynet_timer_init_def timer_create_timer_def)
  moreover have "tm_current_point (timer_add (skynet_timer_init 0 0 100) 7 5 2) = 100"
    by (simp add: timer_add_def add_node_def skynet_timer_init_def timer_create_timer_def Let_def)
  ultimately show ?thesis
    using skynet_updatetime_correct [of "timer_add (skynet_timer_init 0 0 100) 7 5 2" 102] 
    by (auto simp: skynet_now_def Let_def)
qed

end
