(* ===== verification/Table.thy ===== *)
theory Table
  imports Prelude
begin

text \<open>
  The table interface. The handle storage of a node (\<open>skynet_handle.c\<close>), the connection table of the
  gate (\<open>hashid.h\<close>) and the table of unfinished packages (\<open>lua-netpack.c\<close>) are hash
  tables that promise the same: a key that was added is found until it is deleted. What an entry is
  made from differs (a handle is chosen by the table, an index by the hash), so \<open>add\<close> returns the
  key and the value it entered. The locale proves once what a client sees of a whole run.
\<close>

datatype ('a, 'k) top = Add 'a | Del 'k

text \<open>
  \<open>table_run\<close> performs the operations and collects the entries \<open>add\<close> made; \<open>Inl\<close> marks a deletion.
  \<open>table_ref\<close> replays such a history on a map.
\<close>

fun table_run :: "('s \<Rightarrow> 'a \<Rightarrow> 'k \<times> 'v \<times> 's) \<Rightarrow> ('s \<Rightarrow> 'k \<Rightarrow> 's) \<Rightarrow> 's \<Rightarrow> ('a, 'k) top list
    \<Rightarrow> ('k + 'k \<times> 'v) list \<times> 's" where
  "table_run add del s [] = ([], s)"
| "table_run add del s (Add a # ops) =
     (case add s a of (k, v, s') \<Rightarrow> case table_run add del s' ops of (h, s'') \<Rightarrow> (Inr (k, v) # h, s''))"
| "table_run add del s (Del k # ops) =
     (case table_run add del (del s k) ops of (h, s'') \<Rightarrow> (Inl k # h, s''))"

fun table_adm :: "('s \<Rightarrow> 'a \<Rightarrow> bool) \<Rightarrow> ('s \<Rightarrow> 'a \<Rightarrow> 'k \<times> 'v \<times> 's) \<Rightarrow> ('s \<Rightarrow> 'k \<Rightarrow> 's) \<Rightarrow> 's
    \<Rightarrow> ('a, 'k) top list \<Rightarrow> bool" where
  "table_adm adm add del s [] = True"
| "table_adm adm add del s (Add a # ops) = (adm s a \<and> table_adm adm add del (snd (snd (add s a))) ops)"
| "table_adm adm add del s (Del k # ops) = table_adm adm add del (del s k) ops"

fun table_ref :: "('k \<Rightarrow> 'v option) \<Rightarrow> ('k + 'k \<times> 'v) list \<Rightarrow> 'k \<Rightarrow> 'v option" where
  "table_ref m [] = m"
| "table_ref m (Inr (k, v) # h) = table_ref (m(k \<mapsto> v)) h"
| "table_ref m (Inl k # h) = table_ref (m(k := None)) h"

text \<open>A history enters a key only while it is free.\<close>

fun fresh_history :: "('k \<Rightarrow> 'v option) \<Rightarrow> ('k + 'k \<times> 'v) list \<Rightarrow> bool" where
  "fresh_history m [] = True"
| "fresh_history m (Inr (k, v) # h) = (m k = None \<and> fresh_history (m(k \<mapsto> v)) h)"
| "fresh_history m (Inl k # h) = fresh_history (m(k := None)) h"

locale table =
  fixes lookup :: "'s \<Rightarrow> 'k \<Rightarrow> 'v option"
    and add :: "'s \<Rightarrow> 'a \<Rightarrow> 'k \<times> 'v \<times> 's"
    and del :: "'s \<Rightarrow> 'k \<Rightarrow> 's"
    and tbl :: "'s \<Rightarrow> 'k \<Rightarrow> 'v option"
    and inv :: "'s \<Rightarrow> bool"
    and adm :: "'s \<Rightarrow> 'a \<Rightarrow> bool"
  assumes lookup_tbl: "inv s \<Longrightarrow> lookup s k = tbl s k"
    and add_inv: "inv s \<Longrightarrow> adm s a \<Longrightarrow> add s a = (k, v, s') \<Longrightarrow> inv s'"
    and add_fresh: "inv s \<Longrightarrow> adm s a \<Longrightarrow> add s a = (k, v, s') \<Longrightarrow> tbl s k = None"
    and add_tbl: "inv s \<Longrightarrow> adm s a \<Longrightarrow> add s a = (k, v, s') \<Longrightarrow> tbl s' = (tbl s)(k \<mapsto> v)"
    and del_inv: "inv s \<Longrightarrow> inv (del s k)"
    and del_tbl: "inv s \<Longrightarrow> tbl (del s k) = (tbl s)(k := None)"
begin

lemma run_history:
  assumes "inv s" "table_adm adm add del s ops" "table_run add del s ops = (h, s')"
  shows "inv s' \<and> tbl s' = table_ref (tbl s) h \<and> fresh_history (tbl s) h"
  using assms
proof (induction ops arbitrary: s h)
  case Nil
  then show ?case by simp
next
  case (Cons x ops)
  show ?case
  proof (cases x)
    case (Add a)
    obtain k v s1 where a: "add s a = (k, v, s1)"
      by (metis prod_cases3)
    obtain h1 where h1: "table_run add del s1 ops = (h1, s')" "h = Inr (k, v) # h1"
      using Cons.prems(3) Add a by (auto split: prod.splits)
    have "inv s' \<and> tbl s' = table_ref (tbl s1) h1 \<and> fresh_history (tbl s1) h1"
      using Cons.prems Add a h1(1) add_inv by (intro Cons.IH) auto
    then show ?thesis
      using Cons.prems Add a h1(2) add_tbl [of s a k v s1] add_fresh [of s a k v s1] by simp
  next
    case (Del k)
    obtain h1 where h1: "table_run add del (del s k) ops = (h1, s')" "h = Inl k # h1"
      using Cons.prems(3) Del by (auto split: prod.splits)
    have "inv s' \<and> tbl s' = table_ref (tbl (del s k)) h1 \<and> fresh_history (tbl (del s k)) h1"
      using Cons.prems Del h1(1) del_inv by (intro Cons.IH) auto
    then show ?thesis
      using Cons.prems(1) h1(2) del_tbl by simp
  qed
qed

text \<open>What a lookup answers after a run is what the history says.\<close>

lemma run_lookup:
  assumes "inv s" "table_adm adm add del s ops" "table_run add del s ops = (h, s')"
  shows "lookup s' k = table_ref (tbl s) h k"
  using run_history [OF assms] lookup_tbl by simp

end

end
