(* ===== verification/HandleStorage.thy ===== *)
theory HandleStorage
  imports Table
begin

text \<open>
  \<open>skynet-src/skynet_handle.c\<close>: the table from service handles to contexts (a power-of-two array of
  slots indexed by the low bits of the handle, doubled when full) and the table of local names (an
  array sorted by \<open>strcmp\<close>, searched by bisection). Contexts are addresses; \<open>hof c\<close> is the \<open>handle\<close>
  field of the context at \<open>c\<close> at the time of the call (\<open>skynet_context_handle\<close>). The functions run
  under the read-write lock of the storage. \<open>skynet_handle_retire\<close> returns the context whose
  reference the caller drops after the lock; the theory \<open>Server\<close> composes the two.
\<close>

section \<open>Data\<close>

record handle_name =
  hn_name :: string
  hn_handle :: u32

record handle_storage =
  hs_harbor :: u32
  handle_index :: u32
  slot_size :: nat
  slot :: "addr option list"
  name_cap :: nat
  name_count :: nat
  hs_name :: "handle_name option list"

definition DEFAULT_SLOT_SIZE :: nat where "DEFAULT_SLOT_SIZE = 4"
definition MAX_SLOT_SIZE :: nat where "MAX_SLOT_SIZE = 0x40000000"
definition HANDLE_MASK :: u32 where "HANDLE_MASK = 0xffffff"
definition HANDLE_REMOTE_SHIFT :: nat where "HANDLE_REMOTE_SHIFT = 24"

definition skynet_handle_init :: "int \<Rightarrow> handle_storage" where
  "skynet_handle_init harbor =
     \<lparr>hs_harbor = push_bit HANDLE_REMOTE_SHIFT (word_of_int harbor AND 0xff), handle_index = 1,
      slot_size = DEFAULT_SLOT_SIZE, slot = replicate DEFAULT_SLOT_SIZE None,
      name_cap = 2, name_count = 0, hs_name = replicate 2 None\<rparr>"

section \<open>Slots\<close>

text \<open>\<open>handle & (slot_size - 1)\<close>\<close>

definition slot_hash :: "nat \<Rightarrow> u32 \<Rightarrow> nat" where
  "slot_hash n h = unat (h AND word_of_nat (n - 1))"

definition register_handle :: "handle_storage \<Rightarrow> nat \<Rightarrow> u32" where
  "register_handle s i = (word_of_nat i + handle_index s) AND HANDLE_MASK"

text \<open>The copy loop of an expansion: the old slots in order, into an array of twice the size.\<close>

fun rehash :: "(addr \<Rightarrow> u32) \<Rightarrow> nat \<Rightarrow> addr option list \<Rightarrow> addr option list \<Rightarrow> addr option list res" where
  "rehash hof size2 [] new_slot = Inr new_slot"
| "rehash hof size2 (None # cs) new_slot = Inl Bad_Pointer"
| "rehash hof size2 (Some c # cs) new_slot =
     (let hash = slot_hash size2 (hof c) in
      if new_slot ! hash \<noteq> None then Inl Assert_Failed
      else rehash hof size2 cs (new_slot[hash := Some c]))"

text \<open>The outer loop scans all slots, and expands when none is free.\<close>

partial_function (option) skynet_handle_register ::
  "(addr \<Rightarrow> u32) \<Rightarrow> handle_storage \<Rightarrow> addr \<Rightarrow> (u32 \<times> handle_storage) res option" where
  "skynet_handle_register hof s ctx =
     (case find (\<lambda>i. slot s ! slot_hash (slot_size s) (register_handle s i) = None) [0..<slot_size s] of
        Some i \<Rightarrow>
          (let handle = register_handle s i in
           Some (Inr (handle OR hs_harbor s,
             s\<lparr>slot := (slot s)[slot_hash (slot_size s) handle := Some ctx], handle_index := handle + 1\<rparr>)))
      | None \<Rightarrow>
          if \<not> int (slot_size s) * 2 - 1 \<le> uint HANDLE_MASK then Some (Inl Assert_Failed)
          else (case rehash hof (slot_size s * 2) (slot s) (replicate (slot_size s * 2) None) of
                  Inl e \<Rightarrow> Some (Inl e)
                | Inr new_slot \<Rightarrow>
                    skynet_handle_register hof (s\<lparr>slot := new_slot, slot_size := slot_size s * 2\<rparr>) ctx))"

declare skynet_handle_register.simps [code]

definition skynet_handle_grab :: "(addr \<Rightarrow> u32) \<Rightarrow> handle_storage \<Rightarrow> u32 \<Rightarrow> addr option" where
  "skynet_handle_grab hof s handle =
     (case slot s ! slot_hash (slot_size s) handle of
        None \<Rightarrow> None
      | Some ctx \<Rightarrow> if hof ctx = handle then Some ctx else None)"

text \<open>The loop of \<open>skynet_handle_retire\<close> that removes the names of a handle, in place.\<close>

function compact_names :: "u32 \<Rightarrow> nat \<Rightarrow> nat \<Rightarrow> nat \<Rightarrow> handle_name option list
    \<Rightarrow> (nat \<times> handle_name option list) res" where
  "compact_names handle n i j name =
     (if i < n then
        (case name ! i of
           None \<Rightarrow> Inl Uninit_Read
         | Some nm \<Rightarrow>
             if hn_handle nm = handle then compact_names handle n (i + 1) j name
             else compact_names handle n (i + 1) (j + 1) (if i \<noteq> j then name[j := name ! i] else name))
      else Inr (j, name))"
  by pat_completeness auto
termination
  by (relation "measure (\<lambda>(handle, n, i, j, name). n - i)") auto

declare compact_names.simps [simp del]

definition skynet_handle_retire ::
  "(addr \<Rightarrow> u32) \<Rightarrow> handle_storage \<Rightarrow> u32 \<Rightarrow> (nat \<times> addr option \<times> handle_storage) res" where
  "skynet_handle_retire hof s handle =
     (let hash = slot_hash (slot_size s) handle in
      case slot s ! hash of
        None \<Rightarrow> Inr (0, None, s)
      | Some ctx \<Rightarrow>
          if hof ctx = handle then
            res_bind (compact_names handle (name_count s) 0 0 (hs_name s)) (\<lambda>(j, name).
              Inr (1, Some ctx, s\<lparr>slot := (slot s)[hash := None], name_count := j, hs_name := name\<rparr>))
          else Inr (0, None, s))"

section \<open>Names\<close>

datatype name_pos = Found nat | Missing nat

text \<open>The bisection shared by \<open>skynet_handle_findname\<close> and \<open>_insert_name\<close>.\<close>

function name_search :: "handle_name option list \<Rightarrow> string \<Rightarrow> int \<Rightarrow> int \<Rightarrow> name_pos res" where
  "name_search arr name b e =
     (if b \<le> e then
        (let mid = (b + e) div 2 in
         case arr ! nat mid of
           None \<Rightarrow> Inl Uninit_Read
         | Some n \<Rightarrow>
             (let c = strcmp (hn_name n) name in
              if c = 0 then Inr (Found (nat mid))
              else if c < 0 then name_search arr name (mid + 1) e
              else name_search arr name b (mid - 1)))
      else Inr (Missing (nat b)))"
  by pat_completeness auto
termination
  by (relation "measure (\<lambda>(arr, name, b, e). nat (e + 1 - b))") auto

declare name_search.simps [simp del]

definition skynet_handle_findname :: "handle_storage \<Rightarrow> string \<Rightarrow> u32 res" where
  "skynet_handle_findname s name =
     res_bind (name_search (hs_name s) name 0 (int (name_count s) - 1)) (\<lambda>p.
       case p of
         Found mid \<Rightarrow> (case hs_name s ! mid of None \<Rightarrow> Inl Uninit_Read | Some n \<Rightarrow> Inr (hn_handle n))
       | Missing _ \<Rightarrow> Inr 0)"

text \<open>
  \<open>_insert_name_before\<close>: in a full array the two halves are copied into one of twice the capacity;
  otherwise the tail moves up one place, from the end.
\<close>

definition insert_name_before :: "handle_storage \<Rightarrow> string \<Rightarrow> u32 \<Rightarrow> nat \<Rightarrow> handle_storage res" where
  "insert_name_before s name handle before =
     res_bind
       (if name_count s \<ge> name_cap s then
          (if \<not> name_cap s * 2 \<le> MAX_SLOT_SIZE then Inl Assert_Failed
           else
             (let n0 = replicate (name_cap s * 2) None;
                  n1 = foldl (\<lambda>n i. n[i := hs_name s ! i]) n0 [0..<before];
                  n2 = foldl (\<lambda>n i. n[i + 1 := hs_name s ! i]) n1 [before..<name_count s]
              in Inr (s\<lparr>name_cap := name_cap s * 2, hs_name := n2\<rparr>)))
        else
          Inr (s\<lparr>hs_name := foldl (\<lambda>n i. n[i := n ! (i - 1)]) (hs_name s)
                             (rev [before + 1..<name_count s + 1])\<rparr>))
       (\<lambda>s1. Inr (s1\<lparr>hs_name := (hs_name s1)[before := Some \<lparr>hn_name = name, hn_handle = handle\<rparr>],
                     name_count := name_count s1 + 1\<rparr>))"

text \<open>The result is the stored name, or \<open>None\<close> (NULL) when the name is taken.\<close>

definition insert_name :: "handle_storage \<Rightarrow> string \<Rightarrow> u32 \<Rightarrow> (string option \<times> handle_storage) res" where
  "insert_name s name handle =
     res_bind (name_search (hs_name s) name 0 (int (name_count s) - 1)) (\<lambda>p.
       case p of
         Found _ \<Rightarrow> Inr (None, s)
       | Missing b \<Rightarrow> res_bind (insert_name_before s name handle b) (\<lambda>s'. Inr (Some name, s')))"

definition skynet_handle_namehandle :: "handle_storage \<Rightarrow> u32 \<Rightarrow> string \<Rightarrow> (string option \<times> handle_storage) res" where
  "skynet_handle_namehandle s handle name = insert_name s name handle"

section \<open>The slots hold a map from handles to contexts\<close>

text \<open>
  \<open>slots_inv\<close>: the array has \<open>2 ^ k\<close> slots, \<open>k \<le> 24\<close>, and a context sits in the slot of the low
  bits of its handle; the handles of the node carry its harbor id in their high byte.
\<close>

definition slots_inv :: "(addr \<Rightarrow> u32) \<Rightarrow> handle_storage \<Rightarrow> bool" where
  "slots_inv hof s \<longleftrightarrow>
     (\<exists>k \<le> 24. slot_size s = 2 ^ k) \<and> length (slot s) = slot_size s \<and>
     (\<forall>i < slot_size s. \<forall>c. slot s ! i = Some c \<longrightarrow> unat (hof c) mod slot_size s = i) \<and>
     (\<forall>c. Some c \<in> set (slot s) \<longrightarrow> hof c AND NOT HANDLE_MASK = hs_harbor s) \<and>
     hs_harbor s AND HANDLE_MASK = 0"

definition handle_map :: "(addr \<Rightarrow> u32) \<Rightarrow> handle_storage \<Rightarrow> u32 \<Rightarrow> addr option" where
  "handle_map hof s h = find (\<lambda>c. hof c = h) (map the (filter (\<lambda>c. c \<noteq> None) (slot s)))"

declare slots_inv_def [skynet_invs]

lemma slot_hash_mod: "k \<le> 31 \<Longrightarrow> slot_hash (2 ^ k) h = unat h mod 2 ^ k"
proof -
  have "(word_of_nat (2 ^ k - 1) :: u32) = mask k"
    by (simp add: mask_eq_exp_minus_1 of_nat_diff)
  then have "slot_hash (2 ^ k) h = unat (take_bit k h)"
    by (simp add: slot_hash_def take_bit_eq_mask)
  also have "unat (take_bit k h) = take_bit k (unat h)"
    by (rule unsigned_take_bit_eq)
  finally show ?thesis
    by (simp only: take_bit_eq_mod)
qed

lemma slots_invE:
  assumes "slots_inv hof s"
  obtains k where "k \<le> 24" "slot_size s = 2 ^ k" "length (slot s) = 2 ^ k"
    "\<And>h. slot_hash (slot_size s) h = unat h mod 2 ^ k"
    "\<And>i c. i < 2 ^ k \<Longrightarrow> slot s ! i = Some c \<Longrightarrow> unat (hof c) mod 2 ^ k = i"
  using assms slot_hash_mod unfolding slots_inv_def by fastforce

text \<open>A context is stored once, and the handle determines it.\<close>

lemma slots_inv_unique:
  assumes "slots_inv hof s" "Some c \<in> set (slot s)" "Some d \<in> set (slot s)" "hof c = hof d"
  shows "c = d"
proof -
  obtain k where k: "length (slot s) = 2 ^ k" "\<And>i c. i < 2 ^ k \<Longrightarrow> slot s ! i = Some c \<Longrightarrow> unat (hof c) mod 2 ^ k = i"
    by (rule slots_invE [OF assms(1)]) (rule that; assumption)
  obtain i j where ij: "i < 2 ^ k" "slot s ! i = Some c" "j < 2 ^ k" "slot s ! j = Some d"
    using assms(2,3) k(1) by (auto simp: in_set_conv_nth)
  have "i = j"
    using k(2) [OF ij(1,2)] k(2) [OF ij(3,4)] assms(4) by simp
  then show ?thesis
    using ij by simp
qed

lemma find_live: "find P (map the (filter (\<lambda>c. c \<noteq> None) xs)) = Some c \<Longrightarrow> Some c \<in> set xs \<and> P c"
  by (induction xs) (auto split: if_splits)

lemma handle_map_None_iff:
  "handle_map hof s h = None \<longleftrightarrow> (\<forall>c. Some c \<in> set (slot s) \<longrightarrow> hof c \<noteq> h)"
  by (force simp: handle_map_def find_None_iff)

lemma handle_map_Some_iff:
  assumes "slots_inv hof s"
  shows "handle_map hof s h = Some c \<longleftrightarrow> Some c \<in> set (slot s) \<and> hof c = h"
proof
  assume "handle_map hof s h = Some c"
  then show "Some c \<in> set (slot s) \<and> hof c = h"
    unfolding handle_map_def by (rule find_live)
next
  assume c: "Some c \<in> set (slot s) \<and> hof c = h"
  then obtain d where d: "handle_map hof s h = Some d"
    by (metis handle_map_None_iff not_None_eq)
  then have "Some d \<in> set (slot s) \<and> hof d = h"
    unfolding handle_map_def by (rule find_live)
  then show "handle_map hof s h = Some c"
    using slots_inv_unique [OF assms] c d by metis
qed

lemma slot_of_member:
  assumes "slots_inv hof s" "Some c \<in> set (slot s)"
  shows "slot s ! slot_hash (slot_size s) (hof c) = Some c"
proof -
  obtain k where k: "slot_size s = 2 ^ k" "length (slot s) = 2 ^ k"
    "\<And>h. slot_hash (slot_size s) h = unat h mod 2 ^ k"
    "\<And>i c. i < 2 ^ k \<Longrightarrow> slot s ! i = Some c \<Longrightarrow> unat (hof c) mod 2 ^ k = i"
    by (rule slots_invE [OF assms(1)]) (rule that; assumption)
  obtain i where "i < 2 ^ k" "slot s ! i = Some c"
    using assms(2) k(2) by (auto simp: in_set_conv_nth)
  then show ?thesis
    using k by simp
qed

lemma slot_hash_bound: "slots_inv hof s \<Longrightarrow> slot_hash (slot_size s) h < length (slot s)"
  by (erule slots_invE) simp

lemma grab_eq_map: "slots_inv hof s \<Longrightarrow> skynet_handle_grab hof s h = handle_map hof s h"
proof -
  assume inv: "slots_inv hof s"
  have "skynet_handle_grab hof s h = Some c \<longleftrightarrow> handle_map hof s h = Some c" for c
  proof
    assume "skynet_handle_grab hof s h = Some c"
    then have "slot s ! slot_hash (slot_size s) h = Some c" "hof c = h"
      by (auto simp: skynet_handle_grab_def split: option.splits if_splits)
    then show "handle_map hof s h = Some c"
      using slot_hash_bound [OF inv, of h] by (simp add: handle_map_Some_iff [OF inv]) (metis nth_mem)
  next
    assume "handle_map hof s h = Some c"
    then show "skynet_handle_grab hof s h = Some c"
      using slot_of_member [OF inv, of c] by (auto simp: skynet_handle_grab_def handle_map_Some_iff [OF inv])
  qed
  then show ?thesis
    by (metis not_None_eq)
qed

section \<open>Registration\<close>

lemma HANDLE_MASK_mask: "HANDLE_MASK = mask 24"
  by (simp add: HANDLE_MASK_def mask_eq_exp_minus_1)

lemma unat_register_handle:
  assumes "i < 2 ^ 24"
  shows "unat (register_handle s i) = (i + unat (handle_index s)) mod 2 ^ 24"
proof -
  let ?w = "word_of_nat i + handle_index s"
  have "unat (register_handle s i) = unat ?w mod 2 ^ 24"
  proof -
    have "register_handle s i = take_bit 24 ?w"
      by (simp add: register_handle_def HANDLE_MASK_mask take_bit_eq_mask)
    also have "unat (take_bit 24 ?w) = take_bit 24 (unat ?w)"
      by (rule unsigned_take_bit_eq)
    finally show ?thesis
      by (simp only: take_bit_eq_mod)
  qed
  also have "unat ?w = (i + unat (handle_index s)) mod 2 ^ 32"
    using assms by (simp add: unat_word_ariths unat_of_nat mod_simps)
  also have "\<dots> mod 2 ^ 24 = (i + unat (handle_index s)) mod 2 ^ 24"
    by (rule mod_mod_cancel) simp
  finally show ?thesis .
qed

text \<open>The scan visits every slot, so it finds a free one if there is one.\<close>

lemma register_scan_complete:
  assumes inv: "slots_inv hof s" and free: "None \<in> set (slot s)"
  shows "\<exists>i < slot_size s. slot s ! slot_hash (slot_size s) (register_handle s i) = None"
proof -
  obtain k where k: "k \<le> 24" "slot_size s = 2 ^ k" "length (slot s) = 2 ^ k"
    "\<And>h. slot_hash (slot_size s) h = unat h mod 2 ^ k"
    by (rule slots_invE [OF inv]) (rule that; assumption)
  obtain j where j: "j < 2 ^ k" "slot s ! j = None"
    using free k(3) by (auto simp: in_set_conv_nth)
  let ?x = "unat (handle_index s) mod 2 ^ k"
  let ?i = "(j + (2 ^ k - ?x)) mod 2 ^ k"
  have i: "?i < 2 ^ k" and x: "?x < 2 ^ k"
    by simp_all
  have "(2 :: nat) ^ k \<le> 2 ^ 24"
    using k(1) by (simp only: power_increasing)
  then have "?i < 2 ^ 24"
    using i by linarith
  then have "slot_hash (slot_size s) (register_handle s ?i) = (?i + unat (handle_index s)) mod 2 ^ 24 mod 2 ^ k"
    by (simp only: k(4) unat_register_handle)
  also have "\<dots> = (?i + unat (handle_index s)) mod 2 ^ k"
    using k(1) by (intro mod_mod_cancel le_imp_power_dvd)
  also have "\<dots> = (j + (2 ^ k - ?x) + ?x) mod 2 ^ k"
    by (simp only: mod_simps)
  also have "j + (2 ^ k - ?x) + ?x = j + 2 ^ k"
    using x by linarith
  also have "(j + 2 ^ k) mod 2 ^ k = j"
    using j by simp
  finally have hash: "slot_hash (slot_size s) (register_handle s ?i) = j" .
  show ?thesis
  proof (intro exI conjI)
    show "?i < slot_size s"
      using i k(2) by simp
    show "slot s ! slot_hash (slot_size s) (register_handle s ?i) = None"
      unfolding hash by (rule j(2))
  qed
qed

lemma low_bits_or_harbor:
  assumes "h AND HANDLE_MASK = h" "b AND HANDLE_MASK = 0" "k \<le> 24"
  shows "unat (h OR b) mod 2 ^ k = unat h mod 2 ^ k" "(h OR b) AND NOT HANDLE_MASK = b"
proof -
  have "take_bit 24 b = 0"
    using assms(2) by (simp add: HANDLE_MASK_mask take_bit_eq_mask)
  then have "take_bit k b = 0"
    using take_bit_take_bit [of k 24 b] assms(3) by (simp add: min_def)
  then have "take_bit k (h OR b) = take_bit k h"
    by simp
  then have "unat (take_bit k (h OR b)) = unat (take_bit k h)"
    by (rule arg_cong)
  then show "unat (h OR b) mod 2 ^ k = unat h mod 2 ^ k"
    by (simp only: unsigned_take_bit_eq) (simp only: take_bit_eq_mod)
  have "bit h i \<Longrightarrow> bit HANDLE_MASK i" "bit b i \<Longrightarrow> \<not> bit HANDLE_MASK i" for i
    using assms(1,2) by (metis bit_and_iff, metis bit_0_eq bit_and_iff bot_apply bot_bool_def)
  then show "(h OR b) AND NOT HANDLE_MASK = b"
    by (intro bit_word_eqI) (auto simp: bit_and_iff bit_or_iff bit_not_iff)
qed

lemma register_handle_masked [simp]: "register_handle s i AND HANDLE_MASK = register_handle s i"
  by (simp add: register_handle_def and.assoc)

text \<open>Storing a context in a free slot, with the handle of that slot, extends the map.\<close>

lemma register_store:
  assumes inv: "slots_inv hof s" and new: "Some ctx \<notin> set (slot s)"
    and free: "slot s ! slot_hash (slot_size s) h = None" and hm: "h AND HANDLE_MASK = h"
    and s': "s' = s\<lparr>slot := (slot s)[slot_hash (slot_size s) h := Some ctx], handle_index := hi\<rparr>"
    and h': "h' = h OR hs_harbor s"
  shows "slots_inv (hof(ctx := h')) s' \<and> handle_map hof s h' = None \<and>
    handle_map (hof(ctx := h')) s' = (handle_map hof s)(h' \<mapsto> ctx) \<and> h' AND NOT HANDLE_MASK = hs_harbor s"
proof -
  obtain k where k: "k \<le> 24" "slot_size s = 2 ^ k" "length (slot s) = 2 ^ k"
    "\<And>h. slot_hash (slot_size s) h = unat h mod 2 ^ k"
    "\<And>i c. i < 2 ^ k \<Longrightarrow> slot s ! i = Some c \<Longrightarrow> unat (hof c) mod 2 ^ k = i"
    by (rule slots_invE [OF inv]) (rule that; assumption)
  have hb: "hs_harbor s AND HANDLE_MASK = 0"
    and hbs: "\<And>c. Some c \<in> set (slot s) \<Longrightarrow> hof c AND NOT HANDLE_MASK = hs_harbor s"
    using inv by (simp_all add: slots_inv_def)
  let ?i = "unat h mod 2 ^ k"
  have hash: "unat h' mod 2 ^ k = ?i" and high: "h' AND NOT HANDLE_MASK = hs_harbor s"
    using low_bits_or_harbor [OF hm hb k(1)] h' by simp_all
  have free': "slot s ! ?i = None"
    using free k(4) by simp
  have none: "handle_map hof s h' = None"
  proof (rule ccontr)
    assume "handle_map hof s h' \<noteq> None"
    then obtain c where "Some c \<in> set (slot s)" "hof c = h'"
      by (auto simp: handle_map_Some_iff [OF inv])
    then have "slot s ! slot_hash (slot_size s) h' = Some c"
      using slot_of_member [OF inv] by auto
    then show False
      using k(4) hash free' by simp
  qed
  have slot': "slot s' = (slot s)[?i := Some ctx]"
    using s' k(4) by simp
  have mem: "Some c \<in> set (slot s') \<longleftrightarrow> c = ctx \<or> Some c \<in> set (slot s)" for c
    unfolding slot' using free' k(3) by (intro Some_in_set_update) simp_all
  have inv': "slots_inv (hof(ctx := h')) s'"
  proof -
    have "unat ((hof(ctx := h')) c) mod 2 ^ k = i"
      if "i < 2 ^ k" "slot s' ! i = Some c" for i c
    proof (cases "i = ?i")
      case True
      then show ?thesis
        using that slot' k(3) hash by simp
    next
      case False
      then have "slot s ! i = Some c"
        using that slot' by simp
      moreover from this have "c \<noteq> ctx"
        using new that(1) k(3) by (metis nth_mem)
      ultimately show ?thesis
        using k(5) that(1) by simp
    qed
    moreover have "(hof(ctx := h')) c AND NOT HANDLE_MASK = hs_harbor s" if "Some c \<in> set (slot s')" for c
      using that mem high hbs by auto
    ultimately show ?thesis
      using k(1-3) hb slot' s' by (auto simp: slots_inv_def)
  qed
  have "handle_map (hof(ctx := h')) s' x = Some c \<longleftrightarrow> ((handle_map hof s)(h' \<mapsto> ctx)) x = Some c" for x c
    using none new unfolding handle_map_Some_iff [OF inv'] mem
    by (auto simp: handle_map_Some_iff [OF inv] handle_map_None_iff)
  then have "handle_map (hof(ctx := h')) s' = (handle_map hof s)(h' \<mapsto> ctx)"
    by (intro ext) (metis not_None_eq)
  then show ?thesis
    using inv' none high by blast
qed

text \<open>The copy loop of an expansion never trips its assertion on distinct hashes.\<close>

lemma rehash_correct:
  assumes "k \<le> 30" "length new = 2 ^ Suc k"
    "\<forall>c \<in> set cs. c \<noteq> None"
    "distinct (map (\<lambda>c. unat (hof (the c)) mod 2 ^ Suc k) cs)"
    "\<forall>c \<in> set cs. new ! (unat (hof (the c)) mod 2 ^ Suc k) = None"
  shows "\<exists>new'. rehash hof (2 ^ Suc k) cs new = Inr new' \<and> length new' = length new \<and>
    (\<forall>j < 2 ^ Suc k. \<forall>c. new' ! j = Some c \<longleftrightarrow>
       new ! j = Some c \<or> (Some c \<in> set cs \<and> unat (hof c) mod 2 ^ Suc k = j))"
  using assms(2-)
proof (induction cs arbitrary: new)
  case Nil
  then show ?case by simp
next
  case (Cons co cs)
  obtain c where c: "co = Some c"
    using Cons.prems(2) by auto
  let ?j = "unat (hof c) mod 2 ^ Suc k"
  have hash: "slot_hash (2 ^ Suc k) (hof c) = ?j"
    using assms(1) by (intro slot_hash_mod) simp
  have j: "?j < length new"
    using Cons.prems(1) by simp
  have "\<forall>d \<in> set cs. (new[?j := Some c]) ! (unat (hof (the d)) mod 2 ^ Suc k) = None"
  proof
    fix d
    assume d: "d \<in> set cs"
    then have "unat (hof (the d)) mod 2 ^ Suc k \<noteq> ?j"
      using Cons.prems(3) c by (force simp del: power_Suc)
    then show "(new[?j := Some c]) ! (unat (hof (the d)) mod 2 ^ Suc k) = None"
      using Cons.prems(4) d by (metis list.set_intros(2) nth_list_update_neq)
  qed
  then obtain new' where new': "rehash hof (2 ^ Suc k) cs (new[?j := Some c]) = Inr new'"
    "length new' = length new"
    "\<forall>j < 2 ^ Suc k. \<forall>d. new' ! j = Some d \<longleftrightarrow>
       (new[?j := Some c]) ! j = Some d \<or> (Some d \<in> set cs \<and> unat (hof d) mod 2 ^ Suc k = j)"
    using Cons.IH [of "new[?j := Some c]"] Cons.prems by auto
  have "rehash hof (2 ^ Suc k) (co # cs) new = Inr new'"
    using new'(1) c hash Cons.prems(4) by simp
  moreover have "new' ! j = Some d \<longleftrightarrow>
       new ! j = Some d \<or> (Some d \<in> set (co # cs) \<and> unat (hof d) mod 2 ^ Suc k = j)"
    if "j < 2 ^ Suc k" for j d
    using new'(3) that c j Cons.prems(4) by (auto simp: nth_list_update)
  ultimately show ?case
    using new'(2) by blast
qed

lemma register_free_slot:
  assumes inv: "slots_inv hof s" and free: "None \<in> set (slot s)" and new: "Some ctx \<notin> set (slot s)"
  shows "\<exists>h s'. skynet_handle_register hof s ctx = Some (Inr (h, s')) \<and>
    handle_map hof s h = None \<and> slots_inv (hof(ctx := h)) s' \<and>
    handle_map (hof(ctx := h)) s' = (handle_map hof s)(h \<mapsto> ctx) \<and> h AND NOT HANDLE_MASK = hs_harbor s \<and>
    hs_name s' = hs_name s \<and> name_count s' = name_count s \<and> name_cap s' = name_cap s \<and> hs_harbor s' = hs_harbor s"
proof -
  let ?P = "\<lambda>i. slot s ! slot_hash (slot_size s) (register_handle s i) = None"
  have "find ?P [0..<slot_size s] \<noteq> None"
    using register_scan_complete [OF inv free] by (auto simp: find_None_iff)
  then obtain i where i: "find ?P [0..<slot_size s] = Some i"
    by blast
  then have P: "?P i"
    by (auto simp: find_Some_iff)
  let ?h = "register_handle s i OR hs_harbor s"
  let ?s = "s\<lparr>slot := (slot s)[slot_hash (slot_size s) (register_handle s i) := Some ctx],
               handle_index := register_handle s i + 1\<rparr>"
  have reg: "skynet_handle_register hof s ctx = Some (Inr (?h, ?s))"
    using i by (simp add: skynet_handle_register.simps Let_def)
  have "slots_inv (hof(ctx := ?h)) ?s \<and> handle_map hof s ?h = None \<and>
      handle_map (hof(ctx := ?h)) ?s = (handle_map hof s)(?h \<mapsto> ctx) \<and> ?h AND NOT HANDLE_MASK = hs_harbor s"
    by (rule register_store [OF inv new P register_handle_masked refl refl])
  then show ?thesis
    using reg by (intro exI [of _ ?h] exI [of _ ?s]) simp
qed

text \<open>An expansion keeps the map and leaves free slots.\<close>

lemma register_expand:
  assumes inv: "slots_inv hof s" and full: "None \<notin> set (slot s)" and small: "slot_size s < 2 ^ 24"
  shows "\<exists>new. rehash hof (slot_size s * 2) (slot s) (replicate (slot_size s * 2) None) = Inr new \<and>
    slots_inv hof (s\<lparr>slot := new, slot_size := slot_size s * 2\<rparr>) \<and> None \<in> set new \<and>
    (\<forall>c. Some c \<in> set new \<longleftrightarrow> Some c \<in> set (slot s)) \<and> slot_size s * 2 \<le> 2 ^ 24"
proof -
  obtain k where k: "k \<le> 24" "slot_size s = 2 ^ k" "length (slot s) = 2 ^ k"
    "\<And>i c. i < 2 ^ k \<Longrightarrow> slot s ! i = Some c \<Longrightarrow> unat (hof c) mod 2 ^ k = i"
    by (rule slots_invE [OF inv]) (rule that; assumption)
  have k24: "k < 24"
    using small k(2) by (intro power_less_imp_less_exp [of 2]) simp_all
  let ?new = "replicate (2 ^ Suc k) None :: addr option list"
  let ?hash = "\<lambda>c. unat (hof (the c)) mod 2 ^ Suc k"
  have all: "\<forall>c \<in> set (slot s). c \<noteq> None"
    using full by metis
  have dist: "distinct (map ?hash (slot s))"
  proof (unfold distinct_conv_nth, intro allI impI)
    fix i j
    assume ij: "i < length (map ?hash (slot s))" "j < length (map ?hash (slot s))" "i \<noteq> j"
    have *: "unat (hof (the (slot s ! i))) mod 2 ^ k = i" if "i < 2 ^ k" for i
      using that k(3,4) all nth_mem by (metis option.collapse)
    have "?hash (slot s ! i) mod 2 ^ k \<noteq> ?hash (slot s ! j) mod 2 ^ k"
      using * [of i] * [of j] ij k(3) by (simp add: mod_mod_cancel)
    then show "map ?hash (slot s) ! i \<noteq> map ?hash (slot s) ! j"
      using ij by auto
  qed
  have "\<exists>new'. rehash hof (2 ^ Suc k) (slot s) ?new = Inr new' \<and> length new' = length ?new \<and>
    (\<forall>j < 2 ^ Suc k. \<forall>c. new' ! j = Some c \<longleftrightarrow>
       ?new ! j = Some c \<or> (Some c \<in> set (slot s) \<and> unat (hof c) mod 2 ^ Suc k = j))"
    using k24 all dist by (intro rehash_correct) (simp_all del: power_Suc)
  then obtain new where new: "rehash hof (2 ^ Suc k) (slot s) ?new = Inr new" "length new = 2 ^ Suc k"
    "\<And>j c. j < 2 ^ Suc k \<Longrightarrow> new ! j = Some c \<longleftrightarrow> Some c \<in> set (slot s) \<and> unat (hof c) mod 2 ^ Suc k = j"
    by (auto simp del: power_Suc)
  have mem: "Some c \<in> set new \<longleftrightarrow> Some c \<in> set (slot s)" for c
    using new(2,3) by (auto simp: in_set_conv_nth simp del: power_Suc)
      (metis mod_less_divisor zero_less_numeral zero_less_power nth_mem)
  have "None \<in> set new"
  proof (rule ccontr)
    assume "None \<notin> set new"
    then have sub: "set new \<subseteq> set (slot s)"
      using mem by (metis not_None_eq subsetI)
    have "distinct new"
      unfolding distinct_conv_nth using new(2,3) \<open>None \<notin> set new\<close>
      by (metis nth_mem option.collapse)
    then have "card (set new) = 2 * 2 ^ k"
      using new(2) distinct_card by fastforce
    moreover have "card (set new) \<le> card (set (slot s))"
      using sub by (intro card_mono) simp_all
    moreover have "card (set (slot s)) \<le> 2 ^ k"
      using card_length [of "slot s"] k(3) by simp
    moreover have "(0 :: nat) < 2 ^ k"
      by simp
    ultimately show False
      by linarith
  qed
  moreover have "slots_inv hof (s\<lparr>slot := new, slot_size := slot_size s * 2\<rparr>)"
    using inv new(2,3) mem k(2) k24
    by (auto simp: slots_inv_def mult.commute [of _ 2] intro: exI [of _ "Suc k"])
  moreover have "slot_size s * 2 \<le> 2 ^ 24"
  proof -
    have "(2 :: nat) ^ Suc k \<le> 2 ^ 24"
      using k24 by (intro power_increasing) simp_all
    then show ?thesis
      using k(2) by simp
  qed
  moreover have "rehash hof (slot_size s * 2) (slot s) (replicate (slot_size s * 2) None) = Inr new"
    using new(1) k(2) by (simp add: mult.commute)
  ultimately show ?thesis
    using mem by blast
qed

lemma handle_map_cong:
  assumes "slots_inv hof s" "slots_inv hof s'" "\<And>c. Some c \<in> set (slot s') \<longleftrightarrow> Some c \<in> set (slot s)"
  shows "handle_map hof s' = handle_map hof s"
proof
  fix h
  have "handle_map hof s' h = Some c \<longleftrightarrow> handle_map hof s h = Some c" for c
    by (simp add: handle_map_Some_iff assms)
  then show "handle_map hof s' h = handle_map hof s h"
    by (metis not_None_eq)
qed

lemma register_correct:
  assumes inv: "slots_inv hof s" and new: "Some ctx \<notin> set (slot s)"
    and room: "None \<in> set (slot s) \<or> slot_size s < 2 ^ 24"
  shows "\<exists>h s'. skynet_handle_register hof s ctx = Some (Inr (h, s')) \<and>
    handle_map hof s h = None \<and> slots_inv (hof(ctx := h)) s' \<and>
    handle_map (hof(ctx := h)) s' = (handle_map hof s)(h \<mapsto> ctx) \<and> h AND NOT HANDLE_MASK = hs_harbor s \<and>
    hs_name s' = hs_name s \<and> name_count s' = name_count s \<and> name_cap s' = name_cap s \<and> hs_harbor s' = hs_harbor s"
proof (cases "None \<in> set (slot s)")
  case True
  then show ?thesis
    by (rule register_free_slot [OF inv _ new])
next
  case False
  then have small: "slot_size s < 2 ^ 24"
    using room by simp
  obtain n where n: "rehash hof (slot_size s * 2) (slot s) (replicate (slot_size s * 2) None) = Inr n"
    "slots_inv hof (s\<lparr>slot := n, slot_size := slot_size s * 2\<rparr>)" "None \<in> set n"
    "\<And>c. Some c \<in> set n \<longleftrightarrow> Some c \<in> set (slot s)" "slot_size s * 2 \<le> 2 ^ 24"
    using register_expand [OF inv False small] by metis
  let ?s = "s\<lparr>slot := n, slot_size := slot_size s * 2\<rparr>"
  have none: "find (\<lambda>i. slot s ! slot_hash (slot_size s) (register_handle s i) = None) [0..<slot_size s] = None"
    using False slot_hash_bound [OF inv] by (metis (mono_tags, lifting) find_None_iff nth_mem)
  have ok: "int (slot_size s) * 2 - 1 \<le> uint HANDLE_MASK"
    using n(5) by (simp add: HANDLE_MASK_def)
  have "skynet_handle_register hof s ctx = skynet_handle_register hof ?s ctx"
    using none ok n(1) by (subst skynet_handle_register.simps) simp
  moreover have "handle_map hof ?s = handle_map hof s"
    using n(2,4) by (intro handle_map_cong [OF inv]) simp_all
  ultimately show ?thesis
    using register_free_slot [OF n(2), of ctx] n(3,4) new by simp
qed

section \<open>Retirement\<close>

lemma compact_names_spec:
  assumes "j \<le> i" "i \<le> n" "n \<le> length name" "\<forall>k. i \<le> k \<longrightarrow> k < n \<longrightarrow> name ! k \<noteq> None"
  shows "\<exists>j' name'. compact_names h n i j name = Inr (j', name') \<and> length name' = length name \<and> j' \<le> n \<and>
    take j' name' = take j name @ filter (\<lambda>x. hn_handle (the x) \<noteq> h) (drop i (take n name))"
  using assms
proof (induction h n i j name rule: compact_names.induct)
  case (1 h n i j name)
  show ?case
  proof (cases "i < n")
    case False
    then show ?thesis
      using "1.prems" by (subst compact_names.simps) simp
  next
    case True
    then obtain nm where nm: "name ! i = Some nm"
      using "1.prems"(4) by fastforce
    have split: "drop i (take n name) = Some nm # drop (i + 1) (take n name)"
      using True "1.prems"(3) nm by (metis Cons_nth_drop_Suc Suc_eq_plus1 length_take min.absorb2 nth_take)
    show ?thesis
    proof (cases "hn_handle nm = h")
      case hit: True
      have "compact_names h n i j name = compact_names h n (i + 1) j name"
        using True nm hit by (subst compact_names.simps) simp
      then show ?thesis
        using "1.IH"(1) [OF True nm hit] "1.prems" True split hit by simp
    next
      case miss: False
      let ?name = "if i \<noteq> j then name[j := name ! i] else name"
      have step: "compact_names h n i j name = compact_names h n (i + 1) (j + 1) ?name"
        using True nm miss by (subst compact_names.simps) simp
      have ji: "j \<le> i" "j < length name"
        using "1.prems" True by simp_all
      have drop: "drop (i + 1) (take n ?name) = drop (i + 1) (take n name)"
        using ji by (simp add: take_update_swap)
      have take: "take (j + 1) ?name = take j name @ [Some nm]"
        using ji nm by (auto simp: take_Suc_conv_app_nth)
      have rest: "\<forall>k. i + 1 \<le> k \<longrightarrow> k < n \<longrightarrow> ?name ! k \<noteq> None"
        using "1.prems" ji by auto
      have "\<exists>j' name'. compact_names h n (i + 1) (j + 1) ?name = Inr (j', name') \<and> length name' = length ?name \<and>
          j' \<le> n \<and> take j' name' = take (j + 1) ?name @
            filter (\<lambda>x. hn_handle (the x) \<noteq> h) (drop (i + 1) (take n ?name))"
        by (rule "1.IH"(2) [OF True nm miss]) (use "1.prems" True rest in auto)
      then show ?thesis
        unfolding step drop take split using miss by auto
    qed
  qed
qed

lemma retire_slots:
  assumes inv: "slots_inv hof s"
    and s': "s' = s\<lparr>slot := (slot s)[slot_hash (slot_size s) h := None], name_count := j, hs_name := nm\<rparr>"
    and c: "slot s ! slot_hash (slot_size s) h = Some c" "hof c = h"
  shows "slots_inv hof s' \<and> handle_map hof s' = (handle_map hof s)(h := None)"
proof -
  let ?i = "slot_hash (slot_size s) h"
  have i: "?i < length (slot s)"
    by (rule slot_hash_bound [OF inv])
  have slot': "slot s' = (slot s)[?i := None]"
    using s' by simp
  have mem: "Some d \<in> set (slot s') \<longleftrightarrow> d \<noteq> c \<and> Some d \<in> set (slot s)" for d
    unfolding slot'
  proof (rule Some_in_set_update_None [OF i _ c(1)])
    fix k
    assume k: "k < length (slot s)" "slot s ! k = Some d"
    show "k = ?i \<longleftrightarrow> d = c"
      using k c slot_of_member [OF inv, of d] i
      by (metis inv nth_mem option.inject slots_invE)
  qed
  have cells: "slot s ! k = Some d" if "slot s' ! k = Some d" for k d
    using that i unfolding slot' by (cases "k = ?i") auto
  have inv': "slots_inv hof s'"
    using inv mem cells s' unfolding slots_inv_def by simp
  have "handle_map hof s' x = Some d \<longleftrightarrow> ((handle_map hof s)(h := None)) x = Some d" for x d
    unfolding handle_map_Some_iff [OF inv'] mem
    using c i slots_inv_unique [OF inv, of d c] by (auto simp: handle_map_Some_iff [OF inv]) (metis nth_mem)
  then have "handle_map hof s' = (handle_map hof s)(h := None)"
    by (intro ext) (metis not_None_eq)
  then show ?thesis
    using inv' by simp
qed

section \<open>The names are a map\<close>

definition names :: "handle_storage \<Rightarrow> handle_name list" where
  "names s = map the (take (name_count s) (hs_name s))"

definition names_map :: "handle_storage \<Rightarrow> string \<Rightarrow> u32 option" where
  "names_map s = map_of (map (\<lambda>n. (hn_name n, hn_handle n)) (names s))"

definition name_less :: "handle_name \<Rightarrow> handle_name \<Rightarrow> bool" where
  "name_less a b \<longleftrightarrow> strcmp (hn_name a) (hn_name b) < 0"

definition names_inv :: "handle_storage \<Rightarrow> bool" where
  "names_inv s \<longleftrightarrow>
     length (hs_name s) = name_cap s \<and> name_count s \<le> name_cap s \<and> 0 < name_cap s \<and>
     (\<forall>x \<in> set (take (name_count s) (hs_name s)). x \<noteq> None) \<and>
     sorted_wrt name_less (names s)"

declare names_inv_def [skynet_invs]

lemma names_some: "names_inv s \<Longrightarrow> take (name_count s) (hs_name s) = map Some (names s)"
  unfolding names_inv_def names_def by (rule list_all_nth_Some [symmetric]) blast

lemma length_names: "names_inv s \<Longrightarrow> length (names s) = name_count s"
  by (simp add: names_inv_def names_def)

lemma names_nth: "names_inv s \<Longrightarrow> i < name_count s \<Longrightarrow> hs_name s ! i = Some (names s ! i)"
  by (metis length_names names_some nth_map nth_take)

lemma names_distinct: "sorted_wrt name_less xs \<Longrightarrow> distinct (map hn_name xs)"
  by (induction xs) (auto simp: name_less_def)

lemma name_search_spec:
  assumes "names_inv s" "0 \<le> b" "b \<le> e + 1" "e < int (name_count s)"
    "\<forall>k < nat b. strcmp (hn_name (names s ! k)) nm < 0"
    "\<forall>k. e < int k \<longrightarrow> k < name_count s \<longrightarrow> strcmp nm (hn_name (names s ! k)) < 0"
  shows "(\<exists>m. name_search (hs_name s) nm b e = Inr (Found m) \<and> m < name_count s \<and> hn_name (names s ! m) = nm) \<or>
    (\<exists>p. name_search (hs_name s) nm b e = Inr (Missing p) \<and> p \<le> name_count s \<and>
      (\<forall>k < p. strcmp (hn_name (names s ! k)) nm < 0) \<and>
      (\<forall>k. p \<le> k \<longrightarrow> k < name_count s \<longrightarrow> strcmp nm (hn_name (names s ! k)) < 0))"
  using assms(2-)
proof (induction "hs_name s" nm b e rule: name_search.induct)
  case (1 nm b e)
  show ?case
  proof (cases "b \<le> e")
    case False
    then have b: "nat b \<le> name_count s" "\<forall>k. nat b \<le> k \<longrightarrow> k < name_count s \<longrightarrow> strcmp nm (hn_name (names s ! k)) < 0"
      using "1.prems" by auto
    have "name_search (hs_name s) nm b e = Inr (Missing (nat b))"
      using False by (subst name_search.simps) simp
    then show ?thesis
      using b "1.prems"(4) by blast
  next
    case True
    let ?m = "(b + e) div 2"
    have m: "b \<le> ?m" "?m \<le> e" "nat ?m < name_count s"
      using True "1.prems" by auto
    have nm: "hs_name s ! nat ?m = Some (names s ! nat ?m)"
      using names_nth [OF assms(1) m(3)] .
    have sorted: "sorted_wrt name_less (names s)"
      using assms(1) by (simp add: names_inv_def)
    have lt: "strcmp (hn_name (names s ! i)) (hn_name (names s ! j)) < 0" if "i < j" "j < name_count s" for i j
      using sorted_wrt_nth_less [OF sorted that(1)] that length_names [OF assms(1)] by (simp add: name_less_def)
    let ?c = "strcmp (hn_name (names s ! nat ?m)) nm"
    consider "?c = 0" | "?c < 0" | "0 < ?c"
      by linarith
    then show ?thesis
    proof cases
      case 1
      then have "name_search (hs_name s) nm b e = Inr (Found (nat ?m))"
        using True nm by (subst name_search.simps) (simp add: Let_def)
      then show ?thesis
        using 1 m(3) by simp
    next
      case 2
      then have ne: "hn_name (names s ! nat ?m) \<noteq> nm"
        by auto
      have "strcmp (hn_name (names s ! k)) nm < 0" if "k < nat (?m + 1)" for k
      proof (cases "k = nat ?m")
        case False
        then have "k < nat ?m"
          using that m "1.prems"(1) by linarith
        then show ?thesis
          using lt [of k "nat ?m"] m(3) 2 strcmp_trans by blast
      qed (use 2 in simp)
      moreover have "name_search (hs_name s) nm b e = name_search (hs_name s) nm (?m + 1) e"
        using True nm 2 by (subst name_search.simps) (auto simp: Let_def)
      ultimately show ?thesis
        using "1.hyps"(1) [OF True refl nm refl] ne 2 "1.prems" m by simp
    next
      case 3
      then have ne: "hn_name (names s ! nat ?m) \<noteq> nm"
        by auto
      have gt: "strcmp nm (hn_name (names s ! nat ?m)) < 0"
        using 3 by (simp add: strcmp_antisym)
      have "strcmp nm (hn_name (names s ! k)) < 0" if "?m - 1 < int k" "k < name_count s" for k
      proof (cases "k = nat ?m")
        case False
        then have "nat ?m < k"
          using that m "1.prems"(1) by linarith
        then show ?thesis
          using lt [of "nat ?m" k] that gt strcmp_trans by blast
      qed (use gt in simp)
      moreover have "name_search (hs_name s) nm b e = name_search (hs_name s) nm b (?m - 1)"
        using True nm 3 by (subst name_search.simps) (auto simp: Let_def)
      ultimately show ?thesis
        using "1.hyps"(2) [OF True refl nm refl] ne 3 "1.prems" m by simp
    qed
  qed
qed

section \<open>Arrays moved by loops\<close>

lemma foldl_update_offset:
  fixes g :: "nat \<Rightarrow> 'a"
  assumes "b + d \<le> length xs"
  shows "length (foldl (\<lambda>n i. n[i + d := g i]) xs [a..<b]) = length xs \<and>
    (\<forall>k < length xs. foldl (\<lambda>n i. n[i + d := g i]) xs [a..<b] ! k =
       (if a + d \<le> k \<and> k < b + d then g (k - d) else xs ! k))"
  using assms
proof (induction b)
  case 0
  then show ?case by auto
next
  case (Suc b)
  show ?case
  proof (cases "a \<le> b")
    case True
    then show ?thesis
      using Suc by (auto simp: nth_list_update less_Suc_eq)
  qed (use Suc in auto)
qed

lemma foldl_shift_up:
  assumes "c < length xs"
  shows "length (foldl (\<lambda>n i. n[i := n ! (i - 1)]) xs (rev [p + 1..<c + 1])) = length xs \<and>
    (\<forall>k < length xs. foldl (\<lambda>n i. n[i := n ! (i - 1)]) xs (rev [p + 1..<c + 1]) ! k =
       (if p < k \<and> k \<le> c then xs ! (k - 1) else xs ! k))"
  using assms
proof (induction c arbitrary: xs)
  case 0
  then show ?case by simp
next
  case (Suc c)
  show ?case
  proof (cases "p \<le> c")
    case True
    let ?ys = "xs[Suc c := xs ! c]"
    have "foldl (\<lambda>n i. n[i := n ! (i - 1)]) xs (rev [p + 1..<Suc c + 1]) =
        foldl (\<lambda>n i. n[i := n ! (i - 1)]) ?ys (rev [p + 1..<c + 1])"
      using True by simp
    moreover have "(if p < k \<and> k \<le> c then ?ys ! (k - 1) else ?ys ! k) =
        (if p < k \<and> k \<le> Suc c then xs ! (k - 1) else xs ! k)" for k
      using True Suc.prems by (cases "k = Suc c") (auto simp: nth_list_update)
    ultimately show ?thesis
      using Suc.IH [of ?ys] Suc.prems by simp
  qed (use Suc in auto)
qed

lemma insert_name_before_spec:
  assumes inv: "names_inv s" and p: "p \<le> name_count s"
    and room: "name_count s < name_cap s \<or> name_cap s * 2 \<le> MAX_SLOT_SIZE"
  shows "\<exists>s'. insert_name_before s nm h p = Inr s' \<and>
    names s' = take p (names s) @ \<lparr>hn_name = nm, hn_handle = h\<rparr> # drop p (names s) \<and>
    length (hs_name s') = name_cap s' \<and> name_count s' = name_count s + 1 \<and> name_count s' \<le> name_cap s' \<and>
    (\<forall>x \<in> set (take (name_count s') (hs_name s')). x \<noteq> None) \<and>
    slot s' = slot s \<and> slot_size s' = slot_size s \<and> hs_harbor s' = hs_harbor s \<and> handle_index s' = handle_index s"
proof -
  let ?x = "\<lparr>hn_name = nm, hn_handle = h\<rparr>"
  let ?c = "name_count s"
  have len: "length (hs_name s) = name_cap s" "?c \<le> name_cap s" "0 < name_cap s"
    using inv by (simp_all add: names_inv_def)
  obtain s1 where s1: "insert_name_before s nm h p =
      Inr (s1\<lparr>hs_name := (hs_name s1)[p := Some ?x], name_count := name_count s1 + 1\<rparr>)"
    "length (hs_name s1) = name_cap s1" "?c < name_cap s1" "name_count s1 = ?c"
    "\<And>k. k < p \<Longrightarrow> hs_name s1 ! k = hs_name s ! k"
    "\<And>k. p < k \<Longrightarrow> k \<le> ?c \<Longrightarrow> hs_name s1 ! k = hs_name s ! (k - 1)"
    "slot s1 = slot s" "slot_size s1 = slot_size s" "hs_harbor s1 = hs_harbor s" "handle_index s1 = handle_index s"
  proof (cases "name_cap s \<le> ?c")
    case True
    let ?n0 = "replicate (name_cap s * 2) (None :: handle_name option)"
    let ?n1 = "foldl (\<lambda>n i. n[i := hs_name s ! i]) ?n0 [0..<p]"
    let ?n2 = "foldl (\<lambda>n i. n[i + 1 := hs_name s ! i]) ?n1 [p..<?c]"
    have n1: "length ?n1 = name_cap s * 2" "\<And>k. k < p \<Longrightarrow> ?n1 ! k = hs_name s ! k"
      using foldl_update_offset [of p 0 ?n0 "\<lambda>i. hs_name s ! i" 0] p len by simp_all
    have n2: "length ?n2 = name_cap s * 2"
        "\<And>k. k < name_cap s * 2 \<Longrightarrow> ?n2 ! k = (if p + 1 \<le> k \<and> k < ?c + 1 then hs_name s ! (k - 1) else ?n1 ! k)"
      using foldl_update_offset [of ?c 1 ?n1 "\<lambda>i. hs_name s ! i" p] n1(1) len by simp_all
    show ?thesis
      by (rule that [of "s\<lparr>name_cap := name_cap s * 2, hs_name := ?n2\<rparr>"])
        (use True room len p n1 n2 in \<open>auto simp: insert_name_before_def Let_def\<close>)
  next
    case False
    let ?n = "foldl (\<lambda>n i. n[i := n ! (i - 1)]) (hs_name s) (rev [p + 1..<?c + 1])"
    have n: "length ?n = name_cap s"
        "\<And>k. k < name_cap s \<Longrightarrow> ?n ! k = (if p < k \<and> k \<le> ?c then hs_name s ! (k - 1) else hs_name s ! k)"
      using foldl_shift_up [of ?c "hs_name s" p] False len by simp_all
    show ?thesis
      by (rule that [of "s\<lparr>hs_name := ?n\<rparr>"])
        (use False len p n in \<open>auto simp: insert_name_before_def\<close>)
  qed
  let ?s' = "s1\<lparr>hs_name := (hs_name s1)[p := Some ?x], name_count := name_count s1 + 1\<rparr>"
  have "take (?c + 1) (hs_name ?s') = map Some (take p (names s) @ ?x # drop p (names s))"
  proof (rule nth_equalityI)
    show "length (take (?c + 1) (hs_name ?s')) = length (map Some (take p (names s) @ ?x # drop p (names s)))"
      using s1 p by (simp add: length_names [OF inv])
  next
    fix k
    assume "k < length (take (?c + 1) (hs_name ?s'))"
    then have k: "k \<le> ?c"
      by simp
    consider "k < p" | "k = p" | "p < k"
      by linarith
    then show "take (?c + 1) (hs_name ?s') ! k = map Some (take p (names s) @ ?x # drop p (names s)) ! k"
    proof cases
      case 1
      then show ?thesis
        using k p s1 names_nth [OF inv, of k] by (simp add: nth_append length_names [OF inv])
    next
      case 2
      then show ?thesis
        using k p s1 by (simp add: nth_append length_names [OF inv])
    next
      case 3
      then obtain j where j: "k = p + Suc j"
        using less_iff_Suc_add by auto
      show ?thesis
        using 3 k p s1 names_nth [OF inv, of "p + j"] j by (simp add: nth_append length_names [OF inv])
    qed
  qed
  then have "names ?s' = take p (names s) @ ?x # drop p (names s)"
    "\<forall>x \<in> set (take (name_count ?s') (hs_name ?s')). x \<noteq> None"
    using s1(4) unfolding names_def by (simp, auto)
  then show ?thesis
    using s1 by auto
qed

section \<open>The table of names\<close>

lemma names_map_Some_iff:
  assumes "names_inv s"
  shows "names_map s nm = Some h \<longleftrightarrow> (\<exists>n \<in> set (names s). hn_name n = nm \<and> hn_handle n = h)"
proof -
  have "distinct (map hn_name (names s))"
    using assms by (intro names_distinct) (simp add: names_inv_def)
  then have "distinct (map fst (map (\<lambda>n. (hn_name n, hn_handle n)) (names s)))"
    by (simp add: comp_def)
  then show ?thesis
    unfolding names_map_def by (subst map_of_eq_Some_iff) auto
qed

lemma names_map_None_iff: "names_map s nm = None \<longleftrightarrow> (\<forall>n \<in> set (names s). hn_name n \<noteq> nm)"
  by (force simp: names_map_def map_of_eq_None_iff)

lemma name_search_start:
  assumes inv: "names_inv s"
  shows "(\<exists>m. name_search (hs_name s) nm 0 (int (name_count s) - 1) = Inr (Found m) \<and> m < name_count s \<and>
      hn_name (names s ! m) = nm \<and> names_map s nm = Some (hn_handle (names s ! m))) \<or>
    (\<exists>p. name_search (hs_name s) nm 0 (int (name_count s) - 1) = Inr (Missing p) \<and> p \<le> name_count s \<and>
      names_map s nm = None \<and>
      (\<forall>n \<in> set (take p (names s)). strcmp (hn_name n) nm < 0) \<and>
      (\<forall>n \<in> set (drop p (names s)). strcmp nm (hn_name n) < 0))"
proof -
  have "(\<exists>m. name_search (hs_name s) nm 0 (int (name_count s) - 1) = Inr (Found m) \<and> m < name_count s \<and>
      hn_name (names s ! m) = nm) \<or>
    (\<exists>p. name_search (hs_name s) nm 0 (int (name_count s) - 1) = Inr (Missing p) \<and> p \<le> name_count s \<and>
      (\<forall>k < p. strcmp (hn_name (names s ! k)) nm < 0) \<and>
      (\<forall>k. p \<le> k \<longrightarrow> k < name_count s \<longrightarrow> strcmp nm (hn_name (names s ! k)) < 0))"
    by (rule name_search_spec [OF inv]) auto
  then show ?thesis
  proof (elim disjE exE conjE)
    fix m
    assume m: "name_search (hs_name s) nm 0 (int (name_count s) - 1) = Inr (Found m)" "m < name_count s"
      "hn_name (names s ! m) = nm"
    have "names_map s nm = Some (hn_handle (names s ! m))"
      unfolding names_map_Some_iff [OF inv] using m length_names [OF inv] by (metis nth_mem)
    then show ?thesis
      using m by simp
  next
    fix p
    assume p: "name_search (hs_name s) nm 0 (int (name_count s) - 1) = Inr (Missing p)" "p \<le> name_count s"
      and lo: "\<forall>k < p. strcmp (hn_name (names s ! k)) nm < 0"
      and hi: "\<forall>k. p \<le> k \<longrightarrow> k < name_count s \<longrightarrow> strcmp nm (hn_name (names s ! k)) < 0"
    have below: "\<forall>n \<in> set (take p (names s)). strcmp (hn_name n) nm < 0"
      using lo p(2) length_names [OF inv] by (auto simp: in_set_conv_nth)
    have above: "\<forall>n \<in> set (drop p (names s)). strcmp nm (hn_name n) < 0"
      using hi p(2) length_names [OF inv] by (auto simp: in_set_conv_nth)
    have "n \<in> set (take p (names s)) \<or> n \<in> set (drop p (names s))" if "n \<in> set (names s)" for n
      using that by (metis Un_iff append_take_drop_id set_append)
    then have "names_map s nm = None"
      unfolding names_map_None_iff using below above by fastforce
    then show ?thesis
      using p below above by simp
  qed
qed

lemma findname_spec:
  "names_inv s \<Longrightarrow> skynet_handle_findname s nm = Inr (case names_map s nm of None \<Rightarrow> 0 | Some h \<Rightarrow> h)"
  using name_search_start [of s nm] names_nth [of s] by (auto simp: skynet_handle_findname_def)

lemma namehandle_taken:
  "names_inv s \<Longrightarrow> names_map s nm = Some h' \<Longrightarrow> skynet_handle_namehandle s h nm = Inr (None, s)"
  using name_search_start [of s nm] by (auto simp: skynet_handle_namehandle_def insert_name_def)

lemma namehandle_free:
  assumes inv: "names_inv s" and free: "names_map s nm = None"
    and room: "name_count s < name_cap s \<or> name_cap s * 2 \<le> MAX_SLOT_SIZE"
  shows "\<exists>s'. skynet_handle_namehandle s h nm = Inr (Some nm, s') \<and> names_inv s' \<and>
    names_map s' = (names_map s)(nm \<mapsto> h) \<and> slot s' = slot s \<and> slot_size s' = slot_size s \<and>
    hs_harbor s' = hs_harbor s \<and> handle_index s' = handle_index s"
proof -
  obtain p where p: "name_search (hs_name s) nm 0 (int (name_count s) - 1) = Inr (Missing p)" "p \<le> name_count s"
      "\<forall>n \<in> set (take p (names s)). strcmp (hn_name n) nm < 0"
      "\<forall>n \<in> set (drop p (names s)). strcmp nm (hn_name n) < 0"
    using name_search_start [OF inv, of nm] free by auto
  obtain s' where s': "insert_name_before s nm h p = Inr s'"
    and n: "names s' = take p (names s) @ \<lparr>hn_name = nm, hn_handle = h\<rparr> # drop p (names s)"
    and arr: "length (hs_name s') = name_cap s'" "name_count s' = name_count s + 1" "name_count s' \<le> name_cap s'"
      "\<forall>x \<in> set (take (name_count s') (hs_name s')). x \<noteq> None"
      "slot s' = slot s" "slot_size s' = slot_size s" "hs_harbor s' = hs_harbor s" "handle_index s' = handle_index s"
    using insert_name_before_spec [OF inv p(2) room, of nm h] by blast
  have "sorted_wrt name_less (take p (names s) @ drop p (names s))"
    using inv by (simp add: names_inv_def)
  then have "sorted_wrt name_less (names s')"
    using p(3,4) unfolding n sorted_wrt_append by (auto simp: name_less_def)
  then have inv': "names_inv s'"
    using arr by (simp add: names_inv_def)
  have "set (names s') = insert \<lparr>hn_name = nm, hn_handle = h\<rparr> (set (names s))"
    unfolding n by (metis Un_insert_right append_take_drop_id list.simps(15) set_append)
  then have "names_map s' x = Some g \<longleftrightarrow> ((names_map s)(nm \<mapsto> h)) x = Some g" for x g
    using free unfolding names_map_Some_iff [OF inv'] fun_upd_apply names_map_None_iff
    by (auto simp: names_map_Some_iff [OF inv])
  then have "names_map s' = (names_map s)(nm \<mapsto> h)"
    by (intro ext) (metis not_None_eq)
  then show ?thesis
    using s' arr inv' p(1) by (auto simp: skynet_handle_namehandle_def insert_name_def)
qed

text \<open>Retirement drops the names of the handle and keeps the order of the others.\<close>

lemma retire_names:
  assumes inv: "names_inv s" and c: "compact_names h (name_count s) 0 0 (hs_name s) = Inr (j, nm)"
    and s': "s' = s\<lparr>slot := sl, name_count := j, hs_name := nm\<rparr>"
  shows "names_inv s' \<and> names s' = filter (\<lambda>n. hn_handle n \<noteq> h) (names s)"
proof -
  have "\<exists>j' name'. compact_names h (name_count s) 0 0 (hs_name s) = Inr (j', name') \<and>
      length name' = length (hs_name s) \<and> j' \<le> name_count s \<and>
      take j' name' = take 0 (hs_name s) @ filter (\<lambda>x. hn_handle (the x) \<noteq> h) (drop 0 (take (name_count s) (hs_name s)))"
    by (rule compact_names_spec) (use inv names_nth [OF inv] in \<open>auto simp: names_inv_def\<close>)
  then have j: "length nm = length (hs_name s)" "j \<le> name_count s"
    "take j nm = filter (\<lambda>x. hn_handle (the x) \<noteq> h) (map Some (names s))"
    using c names_some [OF inv] by simp_all
  then have n: "names s' = filter (\<lambda>n. hn_handle n \<noteq> h) (names s)"
    using arg_cong [OF j(3), of "map the"] by (simp add: s' names_def filter_map comp_def)
  have "\<forall>x \<in> set (take j nm). x \<noteq> None"
    unfolding j(3) by auto
  moreover have "sorted_wrt name_less (names s')"
    unfolding n using inv by (simp add: names_inv_def sorted_wrt_filter)
  ultimately show ?thesis
    using j n inv by (auto simp: names_inv_def s')
qed

lemma retire_correct:
  assumes inv: "slots_inv hof s" "names_inv s" and c: "handle_map hof s h = Some c"
  shows "\<exists>s'. skynet_handle_retire hof s h = Inr (1, Some c, s') \<and> slots_inv hof s' \<and> names_inv s' \<and>
    handle_map hof s' = (handle_map hof s)(h := None) \<and>
    (\<forall>nm. names_map s' nm = (if names_map s nm = Some h then None else names_map s nm))"
proof -
  let ?i = "slot_hash (slot_size s) h"
  have c': "slot s ! ?i = Some c" "hof c = h"
    using slot_of_member [OF inv(1), of c] c by (auto simp: handle_map_Some_iff [OF inv(1)])
  obtain j nm where jn: "compact_names h (name_count s) 0 0 (hs_name s) = Inr (j, nm)"
    using compact_names_spec [of 0 0 "name_count s" "hs_name s" h] inv(2) names_nth [OF inv(2)]
    by (auto simp: names_inv_def)
  let ?s' = "s\<lparr>slot := (slot s)[?i := None], name_count := j, hs_name := nm\<rparr>"
  have sl: "slots_inv hof ?s' \<and> handle_map hof ?s' = (handle_map hof s)(h := None)"
    by (rule retire_slots [OF inv(1) refl c'])
  have nm': "names_inv ?s'" "names ?s' = filter (\<lambda>n. hn_handle n \<noteq> h) (names s)"
    using retire_names [OF inv(2) jn refl] by blast+
  have "names_map ?s' x = Some g \<longleftrightarrow> names_map s x = Some g \<and> g \<noteq> h" for x g
    unfolding names_map_Some_iff [OF nm'(1)] names_map_Some_iff [OF inv(2)] nm'(2) by auto
  then have "names_map ?s' x = (if names_map s x = Some h then None else names_map s x)" for x
    by (metis not_None_eq option.inject)
  then show ?thesis
    using sl nm'(1) c' jn by (auto simp: skynet_handle_retire_def Let_def)
qed

lemma retire_unknown:
  assumes inv: "slots_inv hof s" and c: "handle_map hof s h = None"
  shows "skynet_handle_retire hof s h = Inr (0, None, s)"
  using grab_eq_map [OF inv, of h] c
  by (auto simp: skynet_handle_retire_def skynet_handle_grab_def Let_def split: option.splits if_splits)

section \<open>The storage as a table\<close>

text \<open>
  The state is the storage with the \<open>handle\<close> fields of the contexts. \<open>handle_add\<close> is what
  \<open>skynet_context_new\<close> does: \<open>ctx->handle = skynet_handle_register(ctx)\<close>.
\<close>

definition handle_add :: "(addr \<Rightarrow> u32) \<times> handle_storage \<Rightarrow> addr \<Rightarrow> u32 \<times> addr \<times> (addr \<Rightarrow> u32) \<times> handle_storage" where
  "handle_add st ctx =
     (case st of (hof, s) \<Rightarrow>
        case skynet_handle_register hof s ctx of
          Some (Inr (h, s')) \<Rightarrow> (h, ctx, hof(ctx := h), s')
        | _ \<Rightarrow> (0, ctx, hof, s))"

definition handle_del :: "(addr \<Rightarrow> u32) \<times> handle_storage \<Rightarrow> u32 \<Rightarrow> (addr \<Rightarrow> u32) \<times> handle_storage" where
  "handle_del st h =
     (case st of (hof, s) \<Rightarrow>
        case skynet_handle_retire hof s h of Inr (_, _, s') \<Rightarrow> (hof, s') | Inl _ \<Rightarrow> (hof, s))"

definition storage_inv :: "(addr \<Rightarrow> u32) \<times> handle_storage \<Rightarrow> bool" where
  "storage_inv st \<longleftrightarrow> slots_inv (fst st) (snd st) \<and> names_inv (snd st)"

definition can_register :: "(addr \<Rightarrow> u32) \<times> handle_storage \<Rightarrow> addr \<Rightarrow> bool" where
  "can_register st ctx \<longleftrightarrow> Some ctx \<notin> set (slot (snd st)) \<and>
     (None \<in> set (slot (snd st)) \<or> slot_size (snd st) < 2 ^ 24)"

lemma handle_add_correct:
  assumes "storage_inv st" "can_register st ctx" "handle_add st ctx = (h, v, st')"
  shows "storage_inv st' \<and> v = ctx \<and> handle_map (fst st) (snd st) h = None \<and>
    handle_map (fst st') (snd st') = (handle_map (fst st) (snd st))(h \<mapsto> v)"
proof -
  obtain hof s where st: "st = (hof, s)"
    by fastforce
  have inv: "slots_inv hof s" "names_inv s"
    using assms(1) st by (simp_all add: storage_inv_def)
  obtain h' s' where r: "skynet_handle_register hof s ctx = Some (Inr (h', s'))" "handle_map hof s h' = None"
      "slots_inv (hof(ctx := h')) s'" "handle_map (hof(ctx := h')) s' = (handle_map hof s)(h' \<mapsto> ctx)"
      "hs_name s' = hs_name s" "name_count s' = name_count s" "name_cap s' = name_cap s"
    using register_correct [OF inv(1), of ctx] assms(2) st by (auto simp: can_register_def)
  have "names_inv s'"
    using inv(2) r(5-7) by (simp add: names_inv_def names_def)
  then show ?thesis
    using assms(3) r st by (auto simp: handle_add_def storage_inv_def)
qed

lemma handle_del_correct:
  assumes "storage_inv st"
  shows "storage_inv (handle_del st h) \<and>
    handle_map (fst (handle_del st h)) (snd (handle_del st h)) = (handle_map (fst st) (snd st))(h := None)"
proof -
  obtain hof s where st: "st = (hof, s)"
    by fastforce
  have inv: "slots_inv hof s" "names_inv s"
    using assms st by (simp_all add: storage_inv_def)
  show ?thesis
  proof (cases "handle_map hof s h")
    case None
    then show ?thesis
      using retire_unknown [OF inv(1)] inv st by (auto simp: handle_del_def storage_inv_def)
  next
    case (Some c)
    then show ?thesis
      using retire_correct [OF inv, of h c] st by (auto simp: handle_del_def storage_inv_def)
  qed
qed

interpretation handles: table "\<lambda>st. skynet_handle_grab (fst st) (snd st)" handle_add handle_del
  "\<lambda>st. handle_map (fst st) (snd st)" storage_inv can_register
proof unfold_locales
  fix st h a v st'
  show "skynet_handle_grab (fst st) (snd st) h = handle_map (fst st) (snd st) h" if "storage_inv st"
    using that by (simp add: storage_inv_def grab_eq_map)
  assume "storage_inv st" "can_register st a" "handle_add st a = (h, v, st')"
  note add = handle_add_correct [OF this]
  show "storage_inv st'" "handle_map (fst st) (snd st) h = None"
    "handle_map (fst st') (snd st') = (handle_map (fst st) (snd st))(h \<mapsto> v)"
    using add by blast+
qed (simp_all add: handle_del_correct)

lemma init_harbor:
  "push_bit 24 (x AND 0xff :: u32) AND HANDLE_MASK = 0"
  by (rule bit_word_eqI) (auto simp: HANDLE_MASK_mask bit_and_iff bit_push_bit_iff bit_mask_iff)

lemma init_storage_inv: "storage_inv (hof, skynet_handle_init n)"
proof -
  have "\<exists>k::nat. k \<le> 24 \<and> (4::nat) = 2 ^ k"
    by (rule exI [of _ 2]) simp
  then have "slots_inv hof (skynet_handle_init n)"
    using init_harbor
    by (auto simp: slots_inv_def skynet_handle_init_def DEFAULT_SLOT_SIZE_def HANDLE_REMOTE_SHIFT_def)
  then show ?thesis
    by (simp add: storage_inv_def names_inv_def names_def skynet_handle_init_def)
qed

lemma init_empty: "handle_map hof (skynet_handle_init n) = Map.empty"
  by (rule ext) (simp add: handle_map_def skynet_handle_init_def)

section \<open>Properties\<close>

text \<open>C9: from an initialised storage, after any sequence of registrations (each
  followed by the assignment of the handle field) and retirements that stays within 2^24 services,
  \<open>skynet_handle_grab\<close> finds for every 32-bit handle exactly the context the sequence left there,
  and no registration ever handed out a handle that was in use.\<close>

theorem handle_storage_history:
  assumes "table_adm can_register handle_add handle_del (hof, skynet_handle_init n) ops"
    "table_run handle_add handle_del (hof, skynet_handle_init n) ops = (h, hof', s)"
  shows "skynet_handle_grab hof' s x = table_ref Map.empty h x \<and> fresh_history Map.empty h"
  using handles.run_lookup [OF init_storage_inv assms] handles.run_history [OF init_storage_inv assms]
  by (simp add: init_empty)

theorem handle_storage_history_witness:
  "\<exists>h hof' s. table_run handle_add handle_del ((\<lambda>_. 0), skynet_handle_init 3) [Add 70, Add 71, Del 0x3000001, Add 72]
     = (h, hof', s) \<and> skynet_handle_grab hof' s 0x3000002 = table_ref Map.empty h 0x3000002"
proof -
  let ?ops = "[Add 70, Add 71, Del 0x3000001, Add 72] :: (addr, u32) top list"
  have adm: "table_adm can_register handle_add handle_del ((\<lambda>_. 0), skynet_handle_init 3) ?ops"
    by code_simp
  obtain h hof' s where r: "table_run handle_add handle_del ((\<lambda>_. 0), skynet_handle_init 3) ?ops = (h, hof', s)"
    by (metis prod_cases3)
  show ?thesis
    using handle_storage_history [OF adm r, of "0x3000002"] r by blast
qed

text \<open>a registration below 2^24 services returns, without a failed assertion and
  however often the array is doubled, a handle of this harbor that was free; it then maps to the
  new context, every other handle keeps its context and the names do not change.\<close>

theorem skynet_handle_register_returns:
  assumes "slots_inv hof s" "Some ctx \<notin> set (slot s)" "None \<in> set (slot s) \<or> slot_size s < 2 ^ 24"
  shows "\<exists>h s'. skynet_handle_register hof s ctx = Some (Inr (h, s')) \<and>
    skynet_handle_grab hof s h = None \<and> slots_inv (hof(ctx := h)) s' \<and>
    skynet_handle_grab (hof(ctx := h)) s' = (skynet_handle_grab hof s)(h \<mapsto> ctx) \<and>
    h AND NOT HANDLE_MASK = hs_harbor s \<and> names s' = names s"
proof -
  obtain h s' where r: "skynet_handle_register hof s ctx = Some (Inr (h, s'))" "handle_map hof s h = None"
      "slots_inv (hof(ctx := h)) s'" "handle_map (hof(ctx := h)) s' = (handle_map hof s)(h \<mapsto> ctx)"
      "h AND NOT HANDLE_MASK = hs_harbor s" "hs_name s' = hs_name s" "name_count s' = name_count s"
    using register_correct [OF assms] by blast
  then have "names s' = names s"
    by (simp add: names_def)
  moreover have "skynet_handle_grab (hof(ctx := h)) s' = handle_map (hof(ctx := h)) s'"
    "skynet_handle_grab hof s = handle_map hof s"
    using grab_eq_map [OF r(3)] grab_eq_map [OF assms(1)] by blast+
  ultimately show ?thesis
    using r by (intro exI [of _ h] exI [of _ s']) simp
qed

theorem skynet_handle_register_returns_witness:
  "\<exists>h s'. skynet_handle_register (\<lambda>_. 0) (skynet_handle_init 7) 70 = Some (Inr (h, s')) \<and> h AND NOT HANDLE_MASK = 0x7000000"
proof -
  have "slots_inv (\<lambda>_. 0) (skynet_handle_init 7)"
    using init_storage_inv [of "\<lambda>_. 0" 7] by (simp add: storage_inv_def)
  moreover have "Some 70 \<notin> set (slot (skynet_handle_init 7))" "slot_size (skynet_handle_init 7) < 2 ^ 24"
      "hs_harbor (skynet_handle_init 7) = 0x7000000"
    by (simp_all add: skynet_handle_init_def DEFAULT_SLOT_SIZE_def HANDLE_REMOTE_SHIFT_def push_bit_eq_mult)
  ultimately show ?thesis
    using skynet_handle_register_returns [of "\<lambda>_. 0" "skynet_handle_init 7" 70] by metis
qed

text \<open>retiring a registered handle frees it and every name bound to it, in place and
  without reading a cell past the names; other handles and names stay. Retiring an unknown handle
  returns 0 and changes nothing.\<close>

theorem skynet_handle_retire_correct:
  assumes "slots_inv hof s" "names_inv s"
  shows "case skynet_handle_grab hof s h of
      None \<Rightarrow> skynet_handle_retire hof s h = Inr (0, None, s)
    | Some c \<Rightarrow> (\<exists>s'. skynet_handle_retire hof s h = Inr (1, Some c, s') \<and> slots_inv hof s' \<and> names_inv s' \<and>
        skynet_handle_grab hof s' = (skynet_handle_grab hof s)(h := None) \<and>
        names s' = filter (\<lambda>n. hn_handle n \<noteq> h) (names s))"
proof (cases "handle_map hof s h")
  case None
  then show ?thesis
    using retire_unknown [OF assms(1) None] grab_eq_map [OF assms(1)] by simp
next
  case (Some c)
  obtain s' where s': "skynet_handle_retire hof s h = Inr (1, Some c, s')" "slots_inv hof s'" "names_inv s'"
      "handle_map hof s' = (handle_map hof s)(h := None)"
    using retire_correct [OF assms Some] by blast
  have "names s' = filter (\<lambda>n. hn_handle n \<noteq> h) (names s)"
    using s'(1) retire_names [OF assms(2), of h _ _ s'] by (auto simp: skynet_handle_retire_def Let_def res_bind_Inr_iff split: option.splits if_splits)
  moreover have "skynet_handle_grab hof s' = handle_map hof s'" "skynet_handle_grab hof s = handle_map hof s"
    using grab_eq_map [OF s'(2)] grab_eq_map [OF assms(1)] by blast+
  ultimately show ?thesis
    using s' Some by simp
qed

theorem skynet_handle_retire_correct_witness:
  "skynet_handle_retire (\<lambda>_. 0) (skynet_handle_init 1) 5 = Inr (0, None, skynet_handle_init 1)"
proof -
  have "slots_inv (\<lambda>_. 0) (skynet_handle_init 1)" "names_inv (skynet_handle_init 1)"
    using init_storage_inv [of "\<lambda>_. 0" 1] by (simp_all add: storage_inv_def)
  from skynet_handle_retire_correct [OF this, of 5] show ?thesis
    by (simp add: skynet_handle_grab_def skynet_handle_init_def DEFAULT_SLOT_SIZE_def slot_hash_def)
qed

text \<open>C25: the sorted array of names is a map. \<open>findname\<close> by bisection answers what the map
  holds (0 for a name it does not); \<open>namehandle\<close> leaves a taken name alone and returns NULL,
  and otherwise adds exactly that binding, doubling the array or shifting its tail, and keeps it
  sorted.\<close>

theorem skynet_handle_names_correct:
  assumes "names_inv s" "name_count s < name_cap s \<or> name_cap s * 2 \<le> MAX_SLOT_SIZE"
  shows "skynet_handle_findname s nm = Inr (case names_map s nm of None \<Rightarrow> 0 | Some h \<Rightarrow> h) \<and>
    (case names_map s nm of
        Some _ \<Rightarrow> skynet_handle_namehandle s h nm = Inr (None, s)
      | None \<Rightarrow> (\<exists>s'. skynet_handle_namehandle s h nm = Inr (Some nm, s') \<and> names_inv s' \<and>
          names_map s' = (names_map s)(nm \<mapsto> h) \<and> slot s' = slot s))"
proof (cases "names_map s nm")
  case None
  then show ?thesis
    using findname_spec [OF assms(1)] namehandle_free [OF assms(1) None assms(2), of h] by auto
next
  case (Some h')
  then show ?thesis
    using findname_spec [OF assms(1)] namehandle_taken [OF assms(1) Some] by simp
qed

theorem skynet_handle_names_correct_witness:
  "\<exists>s'. skynet_handle_namehandle (skynet_handle_init 1) 5 ''db'' = Inr (Some ''db'', s') \<and>
     names_map s' ''db'' = Some 5"
proof -
  have "names_inv (skynet_handle_init 1)"
    using init_storage_inv [of "\<lambda>_. 0" 1] by (simp add: storage_inv_def)
  moreover have "name_count (skynet_handle_init 1) < name_cap (skynet_handle_init 1)"
      "names_map (skynet_handle_init 1) ''db'' = None"
    by (simp_all add: skynet_handle_init_def names_map_def names_def)
  ultimately show ?thesis
    using skynet_handle_names_correct [of "skynet_handle_init 1" "''db''" 5] by auto
qed

text \<open>C39: once the handle counter has passed 0xffffff, a node of harbor 0 whose slot 0 is free
  gives the reserved handle 0 to an ordinary service, the value every caller reads as "no such
  handle".\<close>

theorem skynet_handle_register_zero:
  assumes "0 < slot_size s" "handle_index s = 0x1000000" "hs_harbor s = 0" "slot s ! 0 = None"
  shows "\<exists>s'. skynet_handle_register hof s ctx = Some (Inr (0, s'))"
proof -
  have 0: "register_handle s 0 = 0" "slot_hash (slot_size s) 0 = 0"
    using assms by (simp_all add: register_handle_def HANDLE_MASK_def slot_hash_def)
  then have "find (\<lambda>i. slot s ! slot_hash (slot_size s) (register_handle s i) = None) [0..<slot_size s] = Some 0"
    using assms by (simp add: upt_conv_Cons)
  then show ?thesis
    using 0 assms by (subst skynet_handle_register.simps) (simp add: Let_def)
qed

theorem skynet_handle_register_zero_witness:
  "\<exists>s'. skynet_handle_register (\<lambda>_. 0) ((skynet_handle_init 0)\<lparr>handle_index := 0x1000000\<rparr>) 70 = Some (Inr (0, s'))"
  by (rule skynet_handle_register_zero) (simp_all add: skynet_handle_init_def DEFAULT_SLOT_SIZE_def)



end
