(* ===== verification/CText.thy ===== *)
theory CText
  imports Prelude
begin

text \<open>
  The text conversions of the C library the node uses on handles and sessions: \<open>strtoul\<close> with base
  16, \<open>strtol\<close> with base 10, \<open>%x\<close> and \<open>%d\<close> of \<open>sprintf\<close>, and \<open>id_to_hex\<close> of \<open>skynet_server.c\<close>. The
  lemmas show that a handle printed by the node is read back as the same handle.
\<close>

section \<open>Digits\<close>

definition char_code :: "char \<Rightarrow> nat" where
  "char_code c = of_char c"

definition hex_val :: "char \<Rightarrow> nat option" where
  "hex_val c = (let x = char_code c in
     if 48 \<le> x \<and> x \<le> 57 then Some (x - 48)
     else if 97 \<le> x \<and> x \<le> 102 then Some (x - 87)
     else if 65 \<le> x \<and> x \<le> 70 then Some (x - 55) else None)"

definition hex_lower :: "nat \<Rightarrow> char" where
  "hex_lower d = char_of (if d < 10 then 48 + d else 87 + d)"

definition hex_upper :: "nat \<Rightarrow> char" where
  "hex_upper d = char_of (if d < 10 then 48 + d else 55 + d)"

definition is_space :: "char \<Rightarrow> bool" where
  "is_space c = (char_code c = 32 \<or> (9 \<le> char_code c \<and> char_code c \<le> 13))"

lemma char_code_of [simp]: "n < 256 \<Longrightarrow> char_code (char_of n) = n"
  by (simp add: char_code_def)

lemma hex_val_lower [simp]: "d < 16 \<Longrightarrow> hex_val (hex_lower d) = Some d"
  by (auto simp: hex_val_def hex_lower_def Let_def)

lemma hex_val_upper [simp]: "d < 16 \<Longrightarrow> hex_val (hex_upper d) = Some d"
  by (auto simp: hex_val_def hex_upper_def Let_def)

section \<open>Reading\<close>

fun strip_sign :: "string \<Rightarrow> bool \<times> string" where
  "strip_sign (c # s) = (if char_code c = 45 then (True, s) else if char_code c = 43 then (False, s) else (False, c # s))"
| "strip_sign [] = (False, [])"

fun strip_0x :: "string \<Rightarrow> string" where
  "strip_0x (a # b # c # s) =
     (if char_code a = 48 \<and> (char_code b = 120 \<or> char_code b = 88) \<and> hex_val c \<noteq> None then c # s else a # b # c # s)"
| "strip_0x s = s"

fun digits_value :: "nat \<Rightarrow> nat \<Rightarrow> string \<Rightarrow> nat \<times> string" where
  "digits_value base v [] = (v, [])"
| "digits_value base v (c # s) =
     (case hex_val c of
        Some d \<Rightarrow> if d < base then digits_value base (v * base + d) s else (v, c # s)
      | None \<Rightarrow> (v, c # s))"

definition strtoul16 :: "string \<Rightarrow> u64" where
  "strtoul16 s =
     (case strip_sign (dropWhile is_space s) of (neg, s1) \<Rightarrow>
        let v = fst (digits_value 16 0 (strip_0x s1)) in
        if v > 2 ^ 64 - 1 then - 1 else if neg then - word_of_nat v else word_of_nat v)"

text \<open>\<open>strtol\<close> with base 10: the clamped value and the rest of the text, the whole text when there
  are no digits.\<close>

definition strtol10 :: "string \<Rightarrow> int \<times> string" where
  "strtol10 s =
     (case strip_sign (dropWhile is_space s) of (neg, s1) \<Rightarrow>
        case digits_value 10 0 s1 of (v, rest) \<Rightarrow>
          if rest = s1 then (0, s)
          else (if neg then max (- (2 ^ 63)) (- int v) else min (2 ^ 63 - 1) (int v), rest))"

text \<open>\<open>strtol\<close> with base 0: a \<open>0x\<close> prefix selects 16, a leading 0 selects 8, otherwise 10.\<close>

definition strtol0 :: "string \<Rightarrow> int" where
  "strtol0 s =
     (case strip_sign (dropWhile is_space s) of (neg, s1) \<Rightarrow>
        let v = (if strip_0x s1 \<noteq> s1 then fst (digits_value 16 0 (strip_0x s1))
                 else if take 1 s1 = ''0'' then fst (digits_value 8 0 s1)
                 else fst (digits_value 10 0 s1))
        in if neg then max (- (2 ^ 63)) (- int v) else min (2 ^ 63 - 1) (int v))"

definition parse_handle :: "string \<Rightarrow> u32" where
  "parse_handle s = ucast (strtoul16 s)"

section \<open>Writing\<close>

fun number_text :: "(nat \<Rightarrow> char) \<Rightarrow> nat \<Rightarrow> nat \<Rightarrow> string" where
  "number_text dig base n =
     (if n < base \<or> base < 2 then [dig n] else number_text dig base (n div base) @ [dig (n mod base)])"

declare number_text.simps [simp del]

definition hex_text :: "u32 \<Rightarrow> string" where
  "hex_text h = number_text hex_lower 16 (unat h)"

definition dec_text :: "int \<Rightarrow> string" where
  "dec_text i = (if i < 0 then CHR ''-'' # number_text hex_lower 10 (nat (- i)) else number_text hex_lower 10 (nat i))"

text \<open>\<open>id_to_hex\<close>: a colon and the eight nibbles, most significant first.\<close>

definition id_to_hex :: "u32 \<Rightarrow> string" where
  "id_to_hex h = CHR '':'' # map (\<lambda>i. hex_upper (unat (drop_bit ((7 - i) * 4) h AND 0xf))) [0..<8]"

section \<open>A printed handle is read back\<close>

lemma ucast_ucast_handle: "ucast (ucast (h :: u32) :: u64) = h"
  by (rule bit_word_eqI) (simp add: bit_ucast_iff)

lemma digits_value_app:
  "digits_value b v s = (v1, []) \<Longrightarrow> digits_value b v (s @ t) = digits_value b v1 t"
  by (induction b v s rule: digits_value.induct) (auto split: option.splits if_splits)

lemma digits_value_number:
  assumes "2 \<le> b" "b \<le> 16"
  shows "digits_value b v (number_text hex_lower b n) = (v * b ^ length (number_text hex_lower b n) + n, [])"
  using assms
proof (induction n arbitrary: v rule: less_induct)
  case (less n)
  show ?case
  proof (cases "n < b")
    case True
    then show ?thesis
      using less.prems by (simp add: number_text.simps)
  next
    case False
    have div: "n div b < n"
      using False less.prems by simp
    have unfold: "number_text hex_lower b n = number_text hex_lower b (n div b) @ [hex_lower (n mod b)]"
      using False less.prems by (subst number_text.simps) simp
    let ?l = "length (number_text hex_lower b (n div b))"
    have m: "n mod b < b" "n mod b < 16"
      using less.prems mod_less_divisor [of b n] by linarith+
    have "digits_value b v (number_text hex_lower b n) = digits_value b (v * b ^ ?l + n div b) [hex_lower (n mod b)]"
      unfolding unfold by (rule digits_value_app [OF less.IH [OF div less.prems]])
    also have "\<dots> = (v * b ^ Suc ?l + n, [])"
      using m by (simp add: algebra_simps)
    finally show ?thesis
      by (simp add: unfold)
  qed
qed

lemma number_text_hex: "2 \<le> b \<Longrightarrow> b \<le> 16 \<Longrightarrow> c \<in> set (number_text hex_lower b n) \<Longrightarrow> \<exists>d < 16. c = hex_lower d"
proof (induction n rule: less_induct)
  case (less n)
  show ?case
  proof (cases "n < b")
    case True
    then have "c = hex_lower n"
      using less.prems by (simp add: number_text.simps)
    then show ?thesis
      using True less.prems by (auto intro!: exI [of _ n])
  next
    case False
    have "n mod b < 16"
      using less.prems(1,2) mod_less_divisor [of b n] by linarith
    moreover have "c \<in> set (number_text hex_lower b (n div b)) \<or> c = hex_lower (n mod b)"
      using less.prems(1,3) False number_text.simps [of hex_lower b n] by auto
    ultimately show ?thesis
      using less.IH [of "n div b"] False less.prems by auto
  qed
qed

lemma hex_digit_code:
  "d < 16 \<Longrightarrow> char_code (hex_lower d) \<noteq> 45 \<and> char_code (hex_lower d) \<noteq> 43 \<and> \<not> is_space (hex_lower d) \<and>
     char_code (hex_lower d) \<noteq> 120 \<and> char_code (hex_lower d) \<noteq> 88"
  "d < 16 \<Longrightarrow> char_code (hex_upper d) \<noteq> 45 \<and> char_code (hex_upper d) \<noteq> 43 \<and> \<not> is_space (hex_upper d) \<and>
     char_code (hex_upper d) \<noteq> 120 \<and> char_code (hex_upper d) \<noteq> 88"
  by (auto simp: hex_lower_def hex_upper_def is_space_def)

lemma strtoul16_plain:
  assumes "\<forall>c \<in> set s. char_code c \<noteq> 45 \<and> char_code c \<noteq> 43 \<and> \<not> is_space c \<and> char_code c \<noteq> 120 \<and> char_code c \<noteq> 88"
    "digits_value 16 0 s = (v, r)" "v < 2 ^ 64"
  shows "strtoul16 s = word_of_nat v"
proof -
  have "dropWhile is_space s = s"
    using assms(1) by (cases s) auto
  moreover have "strip_sign s = (False, s)"
    using assms(1) by (cases s) auto
  moreover have "strip_0x s = s"
    using assms(1) by (cases s rule: strip_0x.cases) auto
  ultimately show ?thesis
    using assms(2,3) by (simp add: strtoul16_def)
qed

lemma parse_hex_text: "parse_handle (hex_text h) = h"
proof -
  have "unat h < 2 ^ 64"
    by (rule order_less_le_trans [OF unsigned_less]) simp
  moreover have "digits_value 16 0 (hex_text h) = (unat h, [])"
    using digits_value_number [of 16 0 "unat h"] by (simp add: hex_text_def)
  moreover have "\<forall>c \<in> set (hex_text h). char_code c \<noteq> 45 \<and> char_code c \<noteq> 43 \<and> \<not> is_space c \<and>
      char_code c \<noteq> 120 \<and> char_code c \<noteq> 88"
    using number_text_hex [of 16 _ "unat h"] hex_digit_code(1) unfolding hex_text_def by fastforce
  ultimately have "strtoul16 (hex_text h) = word_of_nat (unat h)"
    using strtoul16_plain by blast
  then show ?thesis
    by (simp add: parse_handle_def ucast_ucast_handle)
qed

lemma nibbles_value:
  fixes n :: nat
  shows "foldl (\<lambda>a d. a * 16 + d) 0 (map (\<lambda>i. n div 16 ^ (k - 1 - i) mod 16) [0..<k]) = n mod 16 ^ k"
proof (induction k)
  case (Suc k)
  have start: "foldl (\<lambda>a d. a * 16 + d) v ds = v * 16 ^ length ds + foldl (\<lambda>a d. a * 16 + d) 0 ds" for v and ds :: "nat list"
  proof (induction ds arbitrary: v rule: rev_induct)
    case (snoc d ds)
    show ?case
      using snoc.IH [of v] by (simp add: algebra_simps)
  qed simp
  have "map (\<lambda>i. n div 16 ^ (Suc k - 1 - i) mod 16) [0..<Suc k] =
      (n div 16 ^ k mod 16) # map (\<lambda>i. n div 16 ^ (k - 1 - i) mod 16) [0..<k]"
    by (simp add: map_upt_Suc del: upt_Suc)
  then have "foldl (\<lambda>a d. a * 16 + d) 0 (map (\<lambda>i. n div 16 ^ (Suc k - 1 - i) mod 16) [0..<Suc k]) =
      (n div 16 ^ k mod 16) * 16 ^ k + n mod 16 ^ k"
    using start [of "n div 16 ^ k mod 16"] Suc by simp
  also have "\<dots> = n mod 16 ^ Suc k"
    using mod_mult2_eq [of n "16 ^ k" 16] by (simp add: mult.commute)
  finally show ?case .
qed simp

lemma parse_id_to_hex: "parse_handle (tl (id_to_hex h)) = h"
proof -
  let ?d = "\<lambda>i. unat (drop_bit ((7 - i) * 4) h AND 0xf)"
  have m: "(0xf :: u32) = mask 4"
    by (simp add: mask_eq_exp_minus_1)
  have d: "?d i < 16" for i
  by (simp only: m unat_and_mask) simp
  have all: "\<forall>c \<in> set (tl (id_to_hex h)). char_code c \<noteq> 45 \<and> char_code c \<noteq> 43 \<and> \<not> is_space c \<and>
      char_code c \<noteq> 120 \<and> char_code c \<noteq> 88"
    using hex_digit_code(2) d by (auto simp: id_to_hex_def)
  have fold: "digits_value 16 v (map hex_upper ds) = (foldl (\<lambda>a d. a * 16 + d) v ds, [])" if "\<forall>d \<in> set ds. d < 16" for v ds
    using that by (induction ds arbitrary: v) auto
  let ?v = "foldl (\<lambda>a d. a * 16 + d) 0 (map ?d [0..<8])"
  have v: "digits_value 16 0 (tl (id_to_hex h)) = (?v, [])"
    using fold [of "map ?d [0..<8]" 0] d by (simp add: id_to_hex_def comp_def del: upt_rec_numeral)
  have lt: "foldl (\<lambda>a d. a * 16 + d) v ds < (v + 1) * 16 ^ length ds" if "\<forall>d \<in> set ds. d < 16" for v and ds :: "nat list"
    using that
  proof (induction ds arbitrary: v)
    case (Cons d ds)
    have "foldl (\<lambda>a d. a * 16 + d) (v * 16 + d) ds < (v * 16 + d + 1) * 16 ^ length ds"
      using Cons by simp
    also have "\<dots> \<le> (v * 16 + 16) * 16 ^ length ds"
      using Cons.prems by (intro mult_right_mono) auto
    finally show ?case
      by (simp add: algebra_simps)
  qed simp
  have "?v < (0 + 1) * 16 ^ length (map ?d [0..<8])"
    by (rule lt) (use d in auto)
  then have "?v < 2 ^ 64"
    by simp
  then have s: "strtoul16 (tl (id_to_hex h)) = word_of_nat ?v"
    using strtoul16_plain [OF all v] by blast
  have "?d i = unat h div 16 ^ (7 - i) mod 16" for i
  proof -
    have "?d i = unat h div 2 ^ ((7 - i) * 4) mod 2 ^ 4"
      by (simp only: m unat_and_mask unat_drop_div)
    then show ?thesis
      by (simp add: mult.commute [of _ 4] power_mult)
  qed
  then have "?v = unat h mod 16 ^ 8"
    using nibbles_value [of "unat h" 8] by simp
  also have "\<dots> = unat h"
  proof -
    have "unat h < 16 ^ 8"
      by (rule order_less_le_trans [OF unsigned_less]) simp
    then show ?thesis
      by simp
  qed
  finally have "strtoul16 (tl (id_to_hex h)) = word_of_nat (unat h)"
    using s by simp
  then show ?thesis
    by (simp add: parse_handle_def ucast_ucast_handle)
qed

end
