(* ===== verification/Server.thy ===== *)
theory Server
  imports GlobalQueue HandleStorage Timer CText
begin

text \<open>
  \<open>skynet-src/skynet_server.c\<close> with the parts of \<open>skynet_harbor.c\<close>, \<open>skynet_error.c\<close>,
  \<open>skynet_env.c\<close>, \<open>skynet_module.c\<close>, \<open>skynet_handle.c\<close> and \<open>skynet_timer.c\<close> that work on the whole
  node: contexts with their reference counts, sending, dispatching and the text commands. A node is
  one record; contexts and rings live in stores indexed by address. The services themselves are
  loaded at run time and are not part of the sources: their entry points (\<open>create\<close>, \<open>init\<close>,
  \<open>release\<close>, \<open>signal\<close> and the message callback) are the record \<open>services\<close>, an argument of every function that
  calls them; a callback may do anything to the node. Output to log files is not modelled.
\<close>

section \<open>Data\<close>

record skynet_context =
  cx_mod :: string
  cx_instance :: addr
  cx_cb :: "nat option"
  cx_queue :: addr
  cx_logfile :: "nat option"
  cx_result :: string
  cx_handle :: u32
  cx_session_id :: u32
  cx_ref :: int
  cx_init :: bool
  cx_endless :: bool

record node =
  nd_total :: int
  nd_monitor_exit :: u32
  nd_harbor :: u32
  nd_remote :: "addr option"
  nd_logger :: u32
  nd_current :: u32
  nd_storage :: handle_storage
  nd_mq :: mq_world
  nd_ctx :: "addr \<Rightarrow> skynet_context option"
  nd_env :: "string \<Rightarrow> string option"
  nd_timer :: timer
  nd_modules :: "string list"
  nd_brk :: addr

record services =
  sv_load :: "string \<Rightarrow> bool"
  sv_create :: "string \<Rightarrow> addr option"
  sv_init :: "string \<Rightarrow> addr \<Rightarrow> addr \<Rightarrow> string option \<Rightarrow> node \<Rightarrow> (int \<times> node) res"
  sv_release :: "string \<Rightarrow> addr \<Rightarrow> node \<Rightarrow> node res"
  sv_signal :: "string \<Rightarrow> addr \<Rightarrow> int \<Rightarrow> node \<Rightarrow> node res"
  sv_cb :: "nat \<Rightarrow> addr \<Rightarrow> nat \<Rightarrow> int \<Rightarrow> u32 \<Rightarrow> payload option \<Rightarrow> u64 \<Rightarrow> node \<Rightarrow> (int \<times> node) res"

definition MESSAGE_TYPE_SHIFT :: nat where "MESSAGE_TYPE_SHIFT = 56"
definition MESSAGE_TYPE_MASK :: u64 where "MESSAGE_TYPE_MASK = 0x00FFFFFFFFFFFFFF"
definition PTYPE_TEXT :: u64 where "PTYPE_TEXT = 0"
definition PTYPE_RESPONSE :: u64 where "PTYPE_RESPONSE = 1"
definition PTYPE_CLIENT :: u32 where "PTYPE_CLIENT = 3"
definition PTYPE_SYSTEM :: u64 where "PTYPE_SYSTEM = 4"
definition PTYPE_HARBOR :: u64 where "PTYPE_HARBOR = 5"
definition PTYPE_ERROR :: u32 where "PTYPE_ERROR = 7"
definition PTYPE_TAG_DONTCOPY :: u32 where "PTYPE_TAG_DONTCOPY = 0x10000"
definition PTYPE_TAG_ALLOCSESSION :: u32 where "PTYPE_TAG_ALLOCSESSION = 0x20000"
definition GLOBALNAME_LENGTH :: nat where "GLOBALNAME_LENGTH = 16"
definition MAX_MODULE_TYPE :: nat where "MAX_MODULE_TYPE = 32"

definition text_bytes :: "string \<Rightarrow> bytes" where
  "text_bytes s = map of_char s"

definition hof_of :: "node \<Rightarrow> addr \<Rightarrow> u32" where
  "hof_of nd a = (case nd_ctx nd a of None \<Rightarrow> 0 | Some c \<Rightarrow> cx_handle c)"

definition put_ctx :: "node \<Rightarrow> addr \<Rightarrow> skynet_context \<Rightarrow> node" where
  "put_ctx nd a c = nd\<lparr>nd_ctx := (nd_ctx nd)(a \<mapsto> c)\<rparr>"

definition set_result :: "node \<Rightarrow> addr \<Rightarrow> string \<Rightarrow> (string option \<times> node) res" where
  "set_result nd a s = res_bind (deref (nd_ctx nd) a) (\<lambda>c. Inr (Some s, put_ctx nd a (c\<lparr>cx_result := s\<rparr>)))"

section \<open>Contexts and references\<close>

definition skynet_context_total :: "node \<Rightarrow> int" where
  "skynet_context_total nd = nd_total nd"

definition skynet_context_newsession :: "node \<Rightarrow> addr \<Rightarrow> (u32 \<times> node) res" where
  "skynet_context_newsession nd a = res_bind (deref (nd_ctx nd) a) (\<lambda>c.
     let session = cx_session_id c + 1 in
     if sint session \<le> 0 then Inr (1, put_ctx nd a (c\<lparr>cx_session_id := 1\<rparr>))
     else Inr (session, put_ctx nd a (c\<lparr>cx_session_id := session\<rparr>)))"

definition skynet_context_grab :: "node \<Rightarrow> addr \<Rightarrow> node res" where
  "skynet_context_grab nd a = res_bind (deref (nd_ctx nd) a) (\<lambda>c. Inr (put_ctx nd a (c\<lparr>cx_ref := cx_ref c + 1\<rparr>)))"

definition skynet_context_reserve :: "node \<Rightarrow> addr \<Rightarrow> node res" where
  "skynet_context_reserve nd a = res_bind (skynet_context_grab nd a) (\<lambda>nd. Inr (nd\<lparr>nd_total := nd_total nd - 1\<rparr>))"

definition delete_context :: "services \<Rightarrow> node \<Rightarrow> addr \<Rightarrow> node res" where
  "delete_context sv nd a = res_bind (deref (nd_ctx nd) a) (\<lambda>c.
     res_bind (sv_release sv (cx_mod c) (cx_instance c) nd) (\<lambda>nd.
     res_bind (skynet_mq_mark_release (nd_mq nd) (cx_queue c)) (\<lambda>w.
       Inr (nd\<lparr>nd_mq := w, nd_ctx := (nd_ctx nd)(a := None), nd_total := nd_total nd - 1\<rparr>))))"

definition skynet_context_release :: "services \<Rightarrow> node \<Rightarrow> addr \<Rightarrow> (addr option \<times> node) res" where
  "skynet_context_release sv nd a = res_bind (deref (nd_ctx nd) a) (\<lambda>c.
     let nd = put_ctx nd a (c\<lparr>cx_ref := cx_ref c - 1\<rparr>) in
     if cx_ref c - 1 = 0 then res_bind (delete_context sv nd a) (\<lambda>nd. Inr (None, nd))
     else Inr (Some a, nd))"

definition skynet_context_handle :: "node \<Rightarrow> addr \<Rightarrow> u32 res" where
  "skynet_context_handle nd a = res_bind (deref (nd_ctx nd) a) (\<lambda>c. Inr (cx_handle c))"

text \<open>\<open>skynet_handle_grab\<close> with the reference it takes.\<close>

definition handle_grab :: "node \<Rightarrow> u32 \<Rightarrow> (addr option \<times> node) res" where
  "handle_grab nd h =
     (case skynet_handle_grab (hof_of nd) (nd_storage nd) h of
        None \<Rightarrow> Inr (None, nd)
      | Some a \<Rightarrow> res_bind (skynet_context_grab nd a) (\<lambda>nd. Inr (Some a, nd)))"

text \<open>\<open>skynet_handle_retire\<close> with the release of the context it removed.\<close>

definition handle_retire :: "services \<Rightarrow> node \<Rightarrow> u32 \<Rightarrow> (nat \<times> node) res" where
  "handle_retire sv nd h =
     res_bind (skynet_handle_retire (hof_of nd) (nd_storage nd) h) (\<lambda>(ret, ctx, s).
       let nd = nd\<lparr>nd_storage := s\<rparr> in
       case ctx of
         None \<Rightarrow> Inr (ret, nd)
       | Some a \<Rightarrow> res_bind (skynet_context_release sv nd a) (\<lambda>(_, nd). Inr (ret, nd)))"

text \<open>
  One pass of \<open>skynet_handle_retireall\<close> over the slots; a release callback may replace the array while
  it runs, so the size is read in each round.
\<close>

partial_function (option) retire_pass :: "services \<Rightarrow> nat \<Rightarrow> nat \<Rightarrow> node \<Rightarrow> (nat \<times> node) res option" where
  "retire_pass sv i n nd =
     (if i < slot_size (nd_storage nd) then
        (let h = (case slot (nd_storage nd) ! i of None \<Rightarrow> 0 | Some a \<Rightarrow> hof_of nd a) in
         if h \<noteq> 0 then
           (case handle_retire sv nd h of
              Inl e \<Rightarrow> Some (Inl e)
            | Inr (r, nd') \<Rightarrow> retire_pass sv (i + 1) (if r \<noteq> 0 then n + 1 else n) nd')
         else retire_pass sv (i + 1) n nd)
      else Some (Inr (n, nd)))"

partial_function (option) skynet_handle_retireall :: "services \<Rightarrow> node \<Rightarrow> node res option" where
  "skynet_handle_retireall sv nd =
     (case retire_pass sv 0 0 nd of
        None \<Rightarrow> None
      | Some (Inl e) \<Rightarrow> Some (Inl e)
      | Some (Inr (n, nd')) \<Rightarrow> if n = 0 then Some (Inr nd') else skynet_handle_retireall sv nd')"

declare retire_pass.simps [code] skynet_handle_retireall.simps [code]

section \<open>Pushing messages\<close>

definition node_mq_push :: "node \<Rightarrow> addr \<Rightarrow> skynet_message \<Rightarrow> node res" where
  "node_mq_push nd q m = res_bind (skynet_mq_push (nd_mq nd) q m) (\<lambda>w. Inr (nd\<lparr>nd_mq := w\<rparr>))"

definition skynet_context_push :: "services \<Rightarrow> node \<Rightarrow> u32 \<Rightarrow> skynet_message \<Rightarrow> (int \<times> node) res" where
  "skynet_context_push sv nd h m =
     res_bind (handle_grab nd h) (\<lambda>(r, nd).
       case r of
         None \<Rightarrow> Inr (-1, nd)
       | Some a \<Rightarrow>
           res_bind (deref (nd_ctx nd) a) (\<lambda>c.
           res_bind (node_mq_push nd (cx_queue c) m) (\<lambda>nd.
           res_bind (skynet_context_release sv nd a) (\<lambda>(_, nd). Inr (0, nd)))))"

definition skynet_context_endless :: "services \<Rightarrow> node \<Rightarrow> u32 \<Rightarrow> node res" where
  "skynet_context_endless sv nd h =
     res_bind (handle_grab nd h) (\<lambda>(r, nd).
       case r of
         None \<Rightarrow> Inr nd
       | Some a \<Rightarrow>
           res_bind (deref (nd_ctx nd) a) (\<lambda>c.
           res_bind (skynet_context_release sv (put_ctx nd a (c\<lparr>cx_endless := True\<rparr>)) a) (\<lambda>(_, nd). Inr nd)))"

definition skynet_context_send ::
  "node \<Rightarrow> addr \<Rightarrow> payload option \<Rightarrow> u64 \<Rightarrow> u32 \<Rightarrow> u64 \<Rightarrow> int \<Rightarrow> node res" where
  "skynet_context_send nd a msg sz source type session = res_bind (deref (nd_ctx nd) a) (\<lambda>c.
     node_mq_push nd (cx_queue c)
       \<lparr>msg_source = source, msg_session = session, msg_data = msg,
        msg_sz = sz OR push_bit MESSAGE_TYPE_SHIFT type\<rparr>)"

text \<open>\<open>skynet_error\<close>: the formatted text goes to the service named \<open>logger\<close>, looked up once.\<close>

definition skynet_error :: "services \<Rightarrow> node \<Rightarrow> addr option \<Rightarrow> string \<Rightarrow> node res" where
  "skynet_error sv nd ctx txt =
     res_bind (if nd_logger nd = 0 then skynet_handle_findname (nd_storage nd) ''logger'' else Inr (nd_logger nd)) (\<lambda>lg.
       let nd = nd\<lparr>nd_logger := lg\<rparr> in
       if lg = 0 then Inr nd
       else res_bind (case ctx of None \<Rightarrow> Inr 0 | Some a \<Rightarrow> skynet_context_handle nd a) (\<lambda>source.
         res_bind (skynet_context_push sv nd lg
           \<lparr>msg_source = source, msg_session = 0, msg_data = Some (Raw (text_bytes txt @ [0])),
            msg_sz = word_of_nat (length txt) OR push_bit MESSAGE_TYPE_SHIFT PTYPE_TEXT\<rparr>) (\<lambda>(_, nd). Inr nd)))"

section \<open>Harbor\<close>

definition skynet_harbor_message_isremote :: "node \<Rightarrow> u32 \<Rightarrow> bool res" where
  "skynet_harbor_message_isremote nd handle =
     (if nd_harbor nd = - 1 then Inl Assert_Failed
      else let h = handle AND NOT HANDLE_MASK in Inr (h \<noteq> nd_harbor nd \<and> h \<noteq> 0))"

definition skynet_harbor_init :: "node \<Rightarrow> int \<Rightarrow> node" where
  "skynet_harbor_init nd harbor = nd\<lparr>nd_harbor := push_bit HANDLE_REMOTE_SHIFT (word_of_int harbor)\<rparr>"

definition skynet_harbor_start :: "node \<Rightarrow> addr \<Rightarrow> node res" where
  "skynet_harbor_start nd a = res_bind (skynet_context_reserve nd a) (\<lambda>nd. Inr (nd\<lparr>nd_remote := Some a\<rparr>))"

definition skynet_harbor_exit :: "services \<Rightarrow> node \<Rightarrow> node res" where
  "skynet_harbor_exit sv nd =
     (let r = nd_remote nd; nd = nd\<lparr>nd_remote := None\<rparr> in
      case r of None \<Rightarrow> Inr nd
      | Some a \<Rightarrow> res_bind (skynet_context_release sv nd a) (\<lambda>(_, nd). Inr nd))"

definition sizeof_remote_message :: u64 where "sizeof_remote_message = 40"

definition skynet_harbor_send ::
  "node \<Rightarrow> string \<Rightarrow> u32 \<Rightarrow> payload option \<Rightarrow> u64 \<Rightarrow> u32 \<Rightarrow> int \<Rightarrow> node res" where
  "skynet_harbor_send nd rname rhandle rmsg rsz source session =
     (let type = drop_bit MESSAGE_TYPE_SHIFT rsz; sz = rsz AND MESSAGE_TYPE_MASK in
      case nd_remote nd of
        None \<Rightarrow> Inl Assert_Failed
      | Some a \<Rightarrow>
          if type = PTYPE_SYSTEM \<or> type = PTYPE_HARBOR then Inl Assert_Failed
          else skynet_context_send nd a (Some (Remote rname rhandle rmsg sz)) sizeof_remote_message source type session)"

section \<open>Sending\<close>

text \<open>\<open>_filter_args\<close>: the session, the data (a copy of \<open>sz\<close> bytes and a terminating 0 unless the caller gave its
  buffer away) and the size with the type in its top byte.\<close>

definition filter_args ::
  "node \<Rightarrow> addr option \<Rightarrow> u32 \<Rightarrow> int \<Rightarrow> payload option \<Rightarrow> u64 \<Rightarrow> (int \<times> payload option \<times> u64 \<times> node) res" where
  "filter_args nd ctx type session data sz =
     (let needcopy = (type AND PTYPE_TAG_DONTCOPY = 0);
          allocsession = (type AND PTYPE_TAG_ALLOCSESSION \<noteq> 0);
          type8 = type AND 0xff
      in res_bind
        (if allocsession then
           (if session \<noteq> 0 then Inl Assert_Failed
            else case ctx of
                   None \<Rightarrow> Inl Bad_Pointer
                 | Some a \<Rightarrow> res_bind (skynet_context_newsession nd a) (\<lambda>(s, nd). Inr (sint s, nd)))
         else Inr (session, nd)) (\<lambda>(session, nd).
      res_bind
        (case data of
           None \<Rightarrow> Inr None
         | Some p \<Rightarrow>
             if needcopy then
               (case p of
                  Raw bs \<Rightarrow> if length bs < unat sz then Inl Out_Of_Bounds else Inr (Some (Raw (take (unat sz) bs @ [0])))
                | Remote _ _ _ _ \<Rightarrow> Inr (Some p)
                | Sock m \<Rightarrow> if unat sz < SIZEOF_SOCKET_MESSAGE \<or> SIZEOF_SOCKET_MESSAGE + length (sm_padding m) < unat sz then Inl Out_Of_Bounds
                    else Inr (Some (Sock (m\<lparr>sm_padding := take (unat sz - SIZEOF_SOCKET_MESSAGE) (sm_padding m)\<rparr>))))
             else Inr (Some p)) (\<lambda>data.
        Inr (session, data, sz OR push_bit MESSAGE_TYPE_SHIFT (ucast type8), nd))))"

definition skynet_send ::
  "services \<Rightarrow> node \<Rightarrow> addr option \<Rightarrow> u32 \<Rightarrow> u32 \<Rightarrow> u32 \<Rightarrow> int \<Rightarrow> payload option \<Rightarrow> u64 \<Rightarrow> (int \<times> node) res" where
  "skynet_send sv nd ctx source destination type session data sz =
     (if sz AND MESSAGE_TYPE_MASK \<noteq> sz then
        res_bind (skynet_error sv nd ctx (''The message to '' @ hex_text destination @ '' is too large'')) (\<lambda>nd.
          Inr (-1, nd))
      else
        res_bind (filter_args nd ctx type session data sz) (\<lambda>(session, data, sz, nd).
        res_bind (if source = 0 then (case ctx of None \<Rightarrow> Inl Bad_Pointer | Some a \<Rightarrow> skynet_context_handle nd a)
                  else Inr source) (\<lambda>source.
          if destination = 0 then Inr (session, nd)
          else res_bind (skynet_harbor_message_isremote nd destination) (\<lambda>remote.
            if remote then
              res_bind (skynet_harbor_send nd [] destination data sz source session) (\<lambda>nd. Inr (session, nd))
            else
              res_bind (skynet_context_push sv nd destination
                \<lparr>msg_source = source, msg_session = session, msg_data = data, msg_sz = sz\<rparr>) (\<lambda>(r, nd).
                if r \<noteq> 0 then Inr (-1, nd) else Inr (session, nd))))))"

text \<open>\<open>copy_name\<close>: at most 16 characters; the name field is then padded with 0.\<close>

definition copy_name :: "string \<Rightarrow> string" where
  "copy_name s = take GLOBALNAME_LENGTH s"

fun skynet_sendname ::
  "services \<Rightarrow> node \<Rightarrow> addr option \<Rightarrow> u32 \<Rightarrow> string \<Rightarrow> u32 \<Rightarrow> int \<Rightarrow> payload option \<Rightarrow> u64 \<Rightarrow> (int \<times> node) res" where
  "skynet_sendname sv nd ctx source ad type session data sz =
     res_bind (if source = 0 then (case ctx of None \<Rightarrow> Inl Bad_Pointer | Some a \<Rightarrow> skynet_context_handle nd a)
               else Inr source) (\<lambda>source.
       case ad of
         CHR '':'' # hex \<Rightarrow> skynet_send sv nd ctx source (parse_handle hex) type session data sz
       | CHR ''.'' # nm \<Rightarrow>
           res_bind (skynet_handle_findname (nd_storage nd) nm) (\<lambda>des.
             if des = 0 then Inr (-1, nd) else skynet_send sv nd ctx source des type session data sz)
       | _ \<Rightarrow>
           res_bind (filter_args nd ctx type session data sz) (\<lambda>(session, data, sz, nd).
           res_bind (skynet_harbor_send nd (copy_name ad) 0 data sz source session) (\<lambda>nd. Inr (session, nd))))"

definition skynet_isremote :: "node \<Rightarrow> u32 \<Rightarrow> (bool \<times> u32) res" where
  "skynet_isremote nd handle = res_bind (skynet_harbor_message_isremote nd handle) (\<lambda>r.
     Inr (r, drop_bit HANDLE_REMOTE_SHIFT handle))"

definition drop_message :: "services \<Rightarrow> u32 \<Rightarrow> skynet_message \<Rightarrow> node \<Rightarrow> node res" where
  "drop_message sv source m nd =
     (if source = 0 then Inl Assert_Failed
      else res_bind (skynet_send sv nd None source (msg_source m) PTYPE_ERROR 0 None 0) (\<lambda>(_, nd). Inr nd))"

definition release_queue :: "services \<Rightarrow> u32 \<Rightarrow> addr \<Rightarrow> node \<Rightarrow> node res option" where
  "release_queue sv handle q nd =
     skynet_mq_release nd_mq (\<lambda>w nd. nd\<lparr>nd_mq := w\<rparr>) (drop_message sv handle) q nd"

section \<open>Launching a service\<close>

text \<open>\<open>skynet_module_query\<close>: a loaded module, or one that \<open>dlopen\<close> finds while there is room.\<close>

definition skynet_module_query :: "services \<Rightarrow> node \<Rightarrow> string \<Rightarrow> string option \<times> node" where
  "skynet_module_query sv nd name =
     (if name \<in> set (nd_modules nd) then (Some name, nd)
      else if length (nd_modules nd) < MAX_MODULE_TYPE \<and> sv_load sv name
      then (Some name, nd\<lparr>nd_modules := nd_modules nd @ [name]\<rparr>)
      else (None, nd))"

definition skynet_context_new :: "services \<Rightarrow> node \<Rightarrow> string \<Rightarrow> string option \<Rightarrow> (addr option \<times> node) res option" where
  "skynet_context_new sv nd name param =
     (case skynet_module_query sv nd name of
        (None, nd) \<Rightarrow> Some (Inr (None, nd))
      | (Some md, nd) \<Rightarrow>
        (case sv_create sv md of
           None \<Rightarrow> Some (Inr (None, nd))
         | Some inst \<Rightarrow>
           (let ctx = nd_brk nd; queue = nd_brk nd + 1;
                nd = put_ctx (nd\<lparr>nd_brk := nd_brk nd + 2\<rparr>) ctx
                  \<lparr>cx_mod = md, cx_instance = inst, cx_cb = None, cx_queue = queue, cx_logfile = None,
                   cx_result = [], cx_handle = 0, cx_session_id = 0, cx_ref = 2, cx_init = False, cx_endless = False\<rparr>
            in res_obind (skynet_handle_register (hof_of nd) (nd_storage nd) ctx) (\<lambda>(h, st).
               let nd = nd\<lparr>nd_storage := st,
                           nd_ctx := (nd_ctx nd)(ctx := map_option (\<lambda>c. c\<lparr>cx_handle := h\<rparr>) (nd_ctx nd ctx)),
                           nd_mq := skynet_mq_create (nd_mq nd) queue h,
                           nd_total := nd_total nd + 1\<rparr>
               in res_obind (Some (sv_init sv md inst ctx param nd)) (\<lambda>(r, nd).
                 if r = 0 then
                   res_obind (Some (skynet_context_release sv nd ctx)) (\<lambda>(ret, nd).
                   let nd = (case ret of None \<Rightarrow> nd
                             | Some a \<Rightarrow> nd\<lparr>nd_ctx := (nd_ctx nd)(a := map_option (\<lambda>c. c\<lparr>cx_init := True\<rparr>) (nd_ctx nd a))\<rparr>) in
                   res_obind (Some (skynet_globalmq_push (nd_mq nd) queue)) (\<lambda>w.
                   let nd = nd\<lparr>nd_mq := w\<rparr> in
                   res_obind (Some (case ret of None \<Rightarrow> Inr nd
                     | Some a \<Rightarrow> skynet_error sv nd (Some a)
                         (''LAUNCH '' @ name @ '' '' @ (case param of None \<Rightarrow> [] | Some p \<Rightarrow> p)))) (\<lambda>nd.
                   Some (Inr (ret, nd)))))
                 else
                   res_obind (Some (skynet_error sv nd (Some ctx) (''FAILED launch '' @ name))) (\<lambda>nd.
                   res_obind (Some (skynet_context_handle nd ctx)) (\<lambda>handle.
                   res_obind (Some (skynet_context_release sv nd ctx)) (\<lambda>(_, nd).
                   res_obind (Some (handle_retire sv nd handle)) (\<lambda>(_, nd).
                   res_obind (release_queue sv handle queue nd) (\<lambda>nd.
                   Some (Inr (None, nd))))))))))))"

section \<open>Dispatching\<close>

definition dispatch_message :: "services \<Rightarrow> node \<Rightarrow> addr \<Rightarrow> skynet_message \<Rightarrow> node res" where
  "dispatch_message sv nd a m = res_bind (deref (nd_ctx nd) a) (\<lambda>c.
     if \<not> cx_init c then Inl Assert_Failed
     else
       (let nd = nd\<lparr>nd_current := cx_handle c\<rparr>;
            type = unat (drop_bit MESSAGE_TYPE_SHIFT (msg_sz m));
            sz = msg_sz m AND MESSAGE_TYPE_MASK
        in case cx_cb c of
             None \<Rightarrow> Inl Bad_Pointer
           | Some f \<Rightarrow> res_bind (sv_cb sv f a type (msg_session m) (msg_source m) (msg_data m) sz nd) (\<lambda>(_, nd). Inr nd)))"

text \<open>One pop from the ring of a context.\<close>

definition node_mq_pop :: "node \<Rightarrow> addr \<Rightarrow> (nat \<times> skynet_message option \<times> node) res" where
  "node_mq_pop nd q = res_bind (deref (mqs (nd_mq nd)) q) (\<lambda>r.
     case skynet_mq_pop r of (ret, m, r') \<Rightarrow> Inr (ret, m, nd\<lparr>nd_mq := mq_store (nd_mq nd) q r'\<rparr>))"

partial_function (option) skynet_context_dispatchall :: "services \<Rightarrow> node \<Rightarrow> addr \<Rightarrow> node res option" where
  "skynet_context_dispatchall sv nd a =
     (case res_bind (deref (nd_ctx nd) a) (\<lambda>c. node_mq_pop nd (cx_queue c)) of
        Inl e \<Rightarrow> Some (Inl e)
      | Inr (ret, m, nd1) \<Rightarrow>
          if ret \<noteq> 0 then Some (Inr nd1)
          else (case m of
                  None \<Rightarrow> Some (Inl Uninit_Read)
                | Some msg \<Rightarrow>
                    (case dispatch_message sv nd1 a msg of
                       Inl e \<Rightarrow> Some (Inl e)
                     | Inr nd2 \<Rightarrow> skynet_context_dispatchall sv nd2 a)))"

declare skynet_context_dispatchall.simps [code]

text \<open>
  The body of the loop of \<open>skynet_context_message_dispatch\<close>: \<open>None\<close> when the ring was empty, else the
  number of rounds, which the first round sets from the length of the ring.
\<close>

definition dispatch_round ::
  "services \<Rightarrow> node \<Rightarrow> addr \<Rightarrow> addr \<Rightarrow> int \<Rightarrow> nat \<Rightarrow> nat \<Rightarrow> (nat option \<times> node) res" where
  "dispatch_round sv nd ctx q weight i n =
     res_bind (node_mq_pop nd q) (\<lambda>(ret, m, nd).
       if ret \<noteq> 0 then Inr (None, nd)
       else res_bind (deref (mqs (nd_mq nd)) q) (\<lambda>r.
         let n = (if i = 0 \<and> weight \<ge> 0 then skynet_mq_length r div 2 ^ nat weight else n);
             (overload, r') = skynet_mq_overload r;
             nd = nd\<lparr>nd_mq := mq_store (nd_mq nd) q r'\<rparr>
         in res_bind (if overload \<noteq> 0 then skynet_error sv nd (Some ctx)
                        (''May overload, message queue length = '' @ dec_text (int overload)) else Inr nd) (\<lambda>nd.
            case m of
              None \<Rightarrow> Inl Uninit_Read
            | Some msg \<Rightarrow>
                res_bind (deref (nd_ctx nd) ctx) (\<lambda>c.
                  if cx_cb c = None then Inr (Some n, nd)
                  else res_bind (dispatch_message sv nd ctx msg) (\<lambda>nd. Inr (Some n, nd))))))"

text \<open>The rounds: \<open>True\<close> when the loop ran to its end.\<close>

fun dispatch_rounds ::
  "services \<Rightarrow> node \<Rightarrow> addr \<Rightarrow> addr \<Rightarrow> int \<Rightarrow> nat \<Rightarrow> nat \<Rightarrow> (bool \<times> node) res" where
  "dispatch_rounds sv nd ctx q weight i 0 = Inr (True, nd)"
| "dispatch_rounds sv nd ctx q weight i (Suc k) =
     res_bind (dispatch_round sv nd ctx q weight i (i + Suc k)) (\<lambda>(r, nd).
       case r of None \<Rightarrow> Inr (False, nd) | Some _ \<Rightarrow> dispatch_rounds sv nd ctx q weight (i + 1) k)"

definition dispatch_batch :: "services \<Rightarrow> node \<Rightarrow> addr \<Rightarrow> addr \<Rightarrow> int \<Rightarrow> (bool \<times> node) res" where
  "dispatch_batch sv nd ctx q weight =
     res_bind (dispatch_round sv nd ctx q weight 0 1) (\<lambda>(r, nd).
       case r of None \<Rightarrow> Inr (False, nd) | Some n \<Rightarrow> dispatch_rounds sv nd ctx q weight 1 (n - 1))"

definition node_globalmq_pop :: "node \<Rightarrow> (addr option \<times> node) res" where
  "node_globalmq_pop nd = res_bind (skynet_globalmq_pop (nd_mq nd)) (\<lambda>(q, w). Inr (q, nd\<lparr>nd_mq := w\<rparr>))"

definition skynet_context_message_dispatch ::
  "services \<Rightarrow> node \<Rightarrow> addr option \<Rightarrow> int \<Rightarrow> (addr option \<times> node) res option" where
  "skynet_context_message_dispatch sv nd q0 weight =
     res_obind (Some (case q0 of None \<Rightarrow> node_globalmq_pop nd | Some q \<Rightarrow> Inr (Some q, nd))) (\<lambda>(q, nd).
       case q of
         None \<Rightarrow> Some (Inr (None, nd))
       | Some q \<Rightarrow>
         res_obind (Some (deref (mqs (nd_mq nd)) q)) (\<lambda>r.
         let handle = skynet_mq_handle r in
         res_obind (Some (handle_grab nd handle)) (\<lambda>(ctx, nd).
         case ctx of
           None \<Rightarrow> res_obind (release_queue sv handle q nd) (\<lambda>nd. Some (node_globalmq_pop nd))
         | Some ctx \<Rightarrow>
             Some (res_bind (dispatch_batch sv nd ctx q weight) (\<lambda>(ended, nd).
               if \<not> ended then
                 res_bind (skynet_context_release sv nd ctx) (\<lambda>(_, nd). node_globalmq_pop nd)
               else
                 res_bind (deref (nd_ctx nd) ctx) (\<lambda>c.
                 if q \<noteq> cx_queue c then Inl Assert_Failed
                 else
                   res_bind (node_globalmq_pop nd) (\<lambda>(nq, nd).
                   res_bind (case nq of None \<Rightarrow> Inr (q, nd)
                             | Some nq \<Rightarrow> res_bind (skynet_globalmq_push (nd_mq nd) q) (\<lambda>w. Inr (nq, nd\<lparr>nd_mq := w\<rparr>))) (\<lambda>(q, nd).
                   res_bind (skynet_context_release sv nd ctx) (\<lambda>(_, nd). Inr (Some q, nd))))))))))"

section \<open>Timeouts\<close>

definition skynet_timeout :: "services \<Rightarrow> node \<Rightarrow> u32 \<Rightarrow> int \<Rightarrow> int \<Rightarrow> (int \<times> node) res" where
  "skynet_timeout sv nd handle time session =
     (if time \<le> 0 then
        res_bind (skynet_context_push sv nd handle
          \<lparr>msg_source = 0, msg_session = session, msg_data = None, msg_sz = push_bit MESSAGE_TYPE_SHIFT PTYPE_RESPONSE\<rparr>)
          (\<lambda>(r, nd). if r \<noteq> 0 then Inr (-1, nd) else Inr (session, nd))
      else Inr (session, nd\<lparr>nd_timer := timer_add (nd_timer nd) handle session time\<rparr>))"

text \<open>\<open>dispatch_list\<close>: every node of the list becomes a message to its handle.\<close>

fun dispatch_list :: "services \<Rightarrow> timer_node list \<Rightarrow> node \<Rightarrow> node res" where
  "dispatch_list sv [] nd = Inr nd"
| "dispatch_list sv (n # ns) nd =
     res_bind (skynet_context_push sv nd (tn_handle n)
       \<lparr>msg_source = 0, msg_session = tn_session n, msg_data = None, msg_sz = push_bit MESSAGE_TYPE_SHIFT PTYPE_RESPONSE\<rparr>)
       (\<lambda>(_, nd). dispatch_list sv ns nd)"

definition node_timer_update :: "services \<Rightarrow> node \<Rightarrow> node res" where
  "node_timer_update sv nd = res_bind (timer_update (nd_timer nd)) (\<lambda>(ev, T).
     dispatch_list sv ev (nd\<lparr>nd_timer := T\<rparr>))"

section \<open>Commands\<close>

definition skynet_callback :: "node \<Rightarrow> addr \<Rightarrow> nat option \<Rightarrow> node res" where
  "skynet_callback nd a f = res_bind (deref (nd_ctx nd) a) (\<lambda>c. Inr (put_ctx nd a (c\<lparr>cx_cb := f\<rparr>)))"

fun skynet_queryname :: "services \<Rightarrow> node \<Rightarrow> addr option \<Rightarrow> string \<Rightarrow> (u32 \<times> node) res" where
  "skynet_queryname sv nd ctx name =
     (case name of
        CHR '':'' # hex \<Rightarrow> Inr (parse_handle hex, nd)
      | CHR ''.'' # nm \<Rightarrow> res_bind (skynet_handle_findname (nd_storage nd) nm) (\<lambda>h. Inr (h, nd))
      | _ \<Rightarrow> res_bind (skynet_error sv nd ctx (''Don't support query global name '' @ name)) (\<lambda>nd. Inr (0, nd)))"

fun tohandle :: "services \<Rightarrow> node \<Rightarrow> addr \<Rightarrow> string \<Rightarrow> (u32 \<times> node) res" where
  "tohandle sv nd ctx param =
     (case param of
        CHR '':'' # hex \<Rightarrow> Inr (parse_handle hex, nd)
      | CHR ''.'' # nm \<Rightarrow> res_bind (skynet_handle_findname (nd_storage nd) nm) (\<lambda>h. Inr (h, nd))
      | _ \<Rightarrow> res_bind (skynet_error sv nd (Some ctx) (''Can't convert '' @ param @ '' to handle'')) (\<lambda>nd. Inr (0, nd)))"

definition handle_exit :: "services \<Rightarrow> node \<Rightarrow> addr \<Rightarrow> u32 \<Rightarrow> node res" where
  "handle_exit sv nd ctx handle =
     res_bind (if handle = 0 then
                 res_bind (skynet_context_handle nd ctx) (\<lambda>h.
                 res_bind (skynet_error sv nd (Some ctx) ''KILL self'') (\<lambda>nd. Inr (h, nd)))
               else res_bind (skynet_error sv nd (Some ctx) (''KILL :'' @ hex_text handle)) (\<lambda>nd. Inr (handle, nd)))
       (\<lambda>(handle, nd).
       res_bind (if nd_monitor_exit nd \<noteq> 0
                 then skynet_send sv nd (Some ctx) handle (nd_monitor_exit nd) PTYPE_CLIENT 0 None 0
                 else Inr (0, nd)) (\<lambda>(_, nd).
       res_bind (handle_retire sv nd handle) (\<lambda>(_, nd). Inr nd)))"

text \<open>A command gets its context and its parameter text, and answers a text or NULL.\<close>

type_synonym command = "services \<Rightarrow> node \<Rightarrow> addr \<Rightarrow> string \<Rightarrow> (string option \<times> node) res"

definition cmd_timeout :: command where
  "cmd_timeout sv nd ctx param =
     (let ti = sint (word_of_int (fst (strtol10 param)) :: u32) in
      res_bind (skynet_context_newsession nd ctx) (\<lambda>(session, nd).
      res_bind (skynet_context_handle nd ctx) (\<lambda>h.
      res_bind (skynet_timeout sv nd h ti (sint session)) (\<lambda>(_, nd).
      set_result nd ctx (dec_text (sint session))))))"

fun cmd_reg :: command where
  "cmd_reg sv nd ctx param = res_bind (skynet_context_handle nd ctx) (\<lambda>h.
     case param of
       [] \<Rightarrow> set_result nd ctx (CHR '':'' # hex_text h)
     | CHR ''.'' # nm \<Rightarrow> res_bind (skynet_handle_namehandle (nd_storage nd) h nm) (\<lambda>(r, st). Inr (r, nd\<lparr>nd_storage := st\<rparr>))
     | _ \<Rightarrow> res_bind (skynet_error sv nd (Some ctx) (''Can't register global name '' @ param @ '' in C'')) (\<lambda>nd. Inr (None, nd)))"

fun cmd_query :: command where
  "cmd_query sv nd ctx param =
     (case param of
       CHR ''.'' # nm \<Rightarrow> res_bind (skynet_handle_findname (nd_storage nd) nm) (\<lambda>h.
          if h \<noteq> 0 then set_result nd ctx (CHR '':'' # hex_text h) else Inr (None, nd))
     | _ \<Rightarrow> Inr (None, nd))"

text \<open>\<open>sscanf(param, "%s %s", name, handle)\<close>: two words; the arrays are uninitialised when a word is missing.\<close>

definition scan_words :: "string \<Rightarrow> string \<times> string" where
  "scan_words s =
     (let s1 = dropWhile is_space s;
          w1 = takeWhile (\<lambda>c. \<not> is_space c) s1;
          s2 = dropWhile is_space (drop (length w1) s1)
      in (w1, takeWhile (\<lambda>c. \<not> is_space c) s2))"

definition cmd_name :: command where
  "cmd_name sv nd ctx param =
     (case scan_words param of (name, handle) \<Rightarrow>
        if handle = [] then Inl Uninit_Read
        else if hd handle \<noteq> CHR '':'' then Inr (None, nd)
        else let handle_id = parse_handle (tl handle) in
          if handle_id = 0 then Inr (None, nd)
          else if hd name = CHR ''.'' then
            res_bind (skynet_handle_namehandle (nd_storage nd) handle_id (tl name)) (\<lambda>(r, st). Inr (r, nd\<lparr>nd_storage := st\<rparr>))
          else res_bind (skynet_error sv nd (Some ctx) (''Can't set global name '' @ name @ '' in C'')) (\<lambda>nd. Inr (None, nd)))"

definition cmd_exit :: command where
  "cmd_exit sv nd ctx param = res_bind (handle_exit sv nd ctx 0) (\<lambda>nd. Inr (None, nd))"

definition cmd_kill :: command where
  "cmd_kill sv nd ctx param = res_bind (tohandle sv nd ctx param) (\<lambda>(handle, nd).
     if handle \<noteq> 0 then res_bind (handle_exit sv nd ctx handle) (\<lambda>nd. Inr (None, nd)) else Inr (None, nd))"

text \<open>\<open>strsep\<close>: the text up to the first delimiter and the rest after it, NULL when there is none.\<close>

definition str_sep :: "(char \<Rightarrow> bool) \<Rightarrow> string \<Rightarrow> string \<times> string option" where
  "str_sep delim s = (let w = takeWhile (\<lambda>c. \<not> delim c) s in
     (w, if length w < length s then Some (drop (length w + 1) s) else None))"

definition launch_space :: "char \<Rightarrow> bool" where
  "launch_space c = (char_code c \<in> {32, 9, 13, 10})"

definition launch_eol :: "char \<Rightarrow> bool" where
  "launch_eol c = (char_code c \<in> {13, 10})"

definition cmd_launch :: "services \<Rightarrow> node \<Rightarrow> addr \<Rightarrow> string \<Rightarrow> (string option \<times> node) res option" where
  "cmd_launch sv nd ctx param =
     (case str_sep launch_space param of (md, rest) \<Rightarrow>
        res_obind (skynet_context_new sv nd md (map_option (\<lambda>r. fst (str_sep launch_eol r)) rest)) (\<lambda>(inst, nd).
          case inst of
            None \<Rightarrow> Some (Inr (None, nd))
          | Some i \<Rightarrow> Some (res_bind (skynet_context_handle nd i) (\<lambda>h. set_result nd ctx (id_to_hex h)))))"

definition cmd_getenv :: command where
  "cmd_getenv sv nd ctx param = Inr (nd_env nd param, nd)"

definition skynet_setenv :: "node \<Rightarrow> string \<Rightarrow> string \<Rightarrow> node res" where
  "skynet_setenv nd key val =
     (if nd_env nd key \<noteq> None then Inl Assert_Failed else Inr (nd\<lparr>nd_env := (nd_env nd)(key \<mapsto> val)\<rparr>))"

definition cmd_setenv :: command where
  "cmd_setenv sv nd ctx param =
     (let key = takeWhile (\<lambda>c. c \<noteq> CHR '' '') param in
      if length key = length param then Inr (None, nd)
      else res_bind (skynet_setenv nd key (drop (length key + 1) param)) (\<lambda>nd. Inr (None, nd)))"

definition cmd_starttime :: command where
  "cmd_starttime sv nd ctx param = set_result nd ctx (dec_text (uint (skynet_starttime (nd_timer nd))))"

definition cmd_endless :: command where
  "cmd_endless sv nd ctx param = res_bind (deref (nd_ctx nd) ctx) (\<lambda>c.
     if cx_endless c then Inr (Some ''1'', put_ctx nd ctx (c\<lparr>cx_result := ''1'', cx_endless := False\<rparr>))
     else Inr (None, nd))"

definition cmd_abort :: "services \<Rightarrow> node \<Rightarrow> addr \<Rightarrow> string \<Rightarrow> (string option \<times> node) res option" where
  "cmd_abort sv nd ctx param = res_obind (skynet_handle_retireall sv nd) (\<lambda>nd. Some (Inr (None, nd)))"

definition cmd_monitor :: command where
  "cmd_monitor sv nd ctx param =
     (if param = [] then
        (if nd_monitor_exit nd \<noteq> 0 then set_result nd ctx (CHR '':'' # hex_text (nd_monitor_exit nd)) else Inr (None, nd))
      else res_bind (tohandle sv nd ctx param) (\<lambda>(handle, nd). Inr (None, nd\<lparr>nd_monitor_exit := handle\<rparr>)))"

definition cmd_mqlen :: command where
  "cmd_mqlen sv nd ctx param = res_bind (deref (nd_ctx nd) ctx) (\<lambda>c.
     res_bind (deref (mqs (nd_mq nd)) (cx_queue c)) (\<lambda>q. set_result nd ctx (dec_text (int (skynet_mq_length q)))))"

definition cmd_signal :: command where
  "cmd_signal sv nd ctx param = res_bind (tohandle sv nd ctx param) (\<lambda>(handle, nd).
     if handle = 0 then Inr (None, nd)
     else res_bind (handle_grab nd handle) (\<lambda>(r, nd).
       case r of
         None \<Rightarrow> Inr (None, nd)
       | Some a \<Rightarrow>
           (let rest = dropWhile (\<lambda>c. c \<noteq> CHR '' '') param;
                sg = (if rest = [] then 0 else sint (word_of_int (strtol0 rest) :: u32))
            in res_bind (deref (nd_ctx nd) a) (\<lambda>c.
               res_bind (sv_signal sv (cx_mod c) (cx_instance c) sg nd) (\<lambda>nd.
               res_bind (skynet_context_release sv nd a) (\<lambda>(_, nd). Inr (None, nd)))))))"

text \<open>The table of commands; \<open>LOGON\<close> and \<open>LOGOFF\<close> only open and close files and are left out.\<close>

definition cmd_funcs :: "(string \<times> (services \<Rightarrow> node \<Rightarrow> addr \<Rightarrow> string \<Rightarrow> (string option \<times> node) res option)) list" where
  "cmd_funcs = [
     (''TIMEOUT'', \<lambda>sv nd ctx p. Some (cmd_timeout sv nd ctx p)), (''REG'', \<lambda>sv nd ctx p. Some (cmd_reg sv nd ctx p)),
     (''QUERY'', \<lambda>sv nd ctx p. Some (cmd_query sv nd ctx p)), (''NAME'', \<lambda>sv nd ctx p. Some (cmd_name sv nd ctx p)),
     (''EXIT'', \<lambda>sv nd ctx p. Some (cmd_exit sv nd ctx p)), (''KILL'', \<lambda>sv nd ctx p. Some (cmd_kill sv nd ctx p)),
     (''LAUNCH'', cmd_launch), (''GETENV'', \<lambda>sv nd ctx p. Some (cmd_getenv sv nd ctx p)),
     (''SETENV'', \<lambda>sv nd ctx p. Some (cmd_setenv sv nd ctx p)),
     (''STARTTIME'', \<lambda>sv nd ctx p. Some (cmd_starttime sv nd ctx p)),
     (''ENDLESS'', \<lambda>sv nd ctx p. Some (cmd_endless sv nd ctx p)), (''ABORT'', cmd_abort),
     (''MONITOR'', \<lambda>sv nd ctx p. Some (cmd_monitor sv nd ctx p)), (''MQLEN'', \<lambda>sv nd ctx p. Some (cmd_mqlen sv nd ctx p)),
     (''SIGNAL'', \<lambda>sv nd ctx p. Some (cmd_signal sv nd ctx p))]"

definition skynet_command :: "services \<Rightarrow> node \<Rightarrow> addr \<Rightarrow> string \<Rightarrow> string \<Rightarrow> (string option \<times> node) res option" where
  "skynet_command sv nd ctx cmd param =
     (case map_of cmd_funcs cmd of None \<Rightarrow> Some (Inr (None, nd)) | Some f \<Rightarrow> f sv nd ctx param)"

declare tohandle.simps [simp del] skynet_queryname.simps [simp del] skynet_sendname.simps [simp del]
  cmd_reg.simps [simp del] cmd_query.simps [simp del]

lemma tohandle_colon: "tohandle sv nd b (CHR '':'' # hex) = Inr (parse_handle hex, nd)"
  by (simp add: tohandle.simps)

lemma queryname_colon: "skynet_queryname sv nd b (CHR '':'' # hex) = Inr (parse_handle hex, nd)"
  by (simp add: skynet_queryname.simps)

section \<open>The message word\<close>

text \<open>Type and size share one word: the top byte is the type.\<close>

lemma type_mask: "MESSAGE_TYPE_MASK = mask 56"
  by (simp add: MESSAGE_TYPE_MASK_def mask_eq_exp_minus_1)

lemma msg_sz_split:
  assumes "sz AND MESSAGE_TYPE_MASK = sz" "type AND 0xff = (type :: u64)"
  shows "drop_bit MESSAGE_TYPE_SHIFT (sz OR push_bit MESSAGE_TYPE_SHIFT type) = type"
    "(sz OR push_bit MESSAGE_TYPE_SHIFT type) AND MESSAGE_TYPE_MASK = sz"
proof -
  have sz: "bit sz n \<Longrightarrow> n < 56" for n
    using arg_cong [OF assms(1), of "\<lambda>x. bit x n"] by (simp add: type_mask bit_and_iff bit_mask_iff)
  have m: "(0xff :: u64) = mask 8"
    by (simp add: mask_eq_exp_minus_1)
  have ty: "bit type n \<Longrightarrow> n < 8" for n
    using arg_cong [OF assms(2), of "\<lambda>x. bit x n"] by (simp add: m bit_and_iff bit_mask_iff)
  show "drop_bit MESSAGE_TYPE_SHIFT (sz OR push_bit MESSAGE_TYPE_SHIFT type) = type"
    by (rule bit_word_eqI) (auto simp: MESSAGE_TYPE_SHIFT_def bit_drop_bit_eq bit_or_iff bit_push_bit_iff dest: sz ty)
  show "(sz OR push_bit MESSAGE_TYPE_SHIFT type) AND MESSAGE_TYPE_MASK = sz"
    by (rule bit_word_eqI) (auto simp: MESSAGE_TYPE_SHIFT_def type_mask bit_and_iff bit_or_iff bit_push_bit_iff bit_mask_iff dest: sz)
qed

section \<open>Delivery\<close>

text \<open>\<open>deliverable\<close>: the handle is registered, its context holds a reference and its ring is well formed.\<close>

definition deliverable :: "node \<Rightarrow> u32 \<Rightarrow> addr \<Rightarrow> skynet_context \<Rightarrow> message_queue \<Rightarrow> addr list \<Rightarrow> bool" where
  "deliverable nd h a c q as \<longleftrightarrow>
     skynet_handle_grab (hof_of nd) (nd_storage nd) h = Some a \<and> nd_ctx nd a = Some c \<and> 0 < cx_ref c \<and>
     mqs (nd_mq nd) (cx_queue c) = Some q \<and> mq_inv q \<and> globalq_rep (nd_mq nd) as \<and>
     (mq_in_global q = 0 \<longrightarrow> cx_queue c \<notin> set as)"

definition delivered :: "node \<Rightarrow> node \<Rightarrow> skynet_context \<Rightarrow> message_queue \<Rightarrow> addr list \<Rightarrow> skynet_message \<Rightarrow> bool" where
  "delivered nd nd' c q as m \<longleftrightarrow>
     (\<exists>q'. mqs (nd_mq nd') (cx_queue c) = Some q' \<and> mq_inv q' \<and> mq_content q' = mq_content q @ [m] \<and>
       mq_in_global q' \<noteq> 0) \<and>
     globalq_rep (nd_mq nd') (if mq_in_global q = 0 then as @ [cx_queue c] else as) \<and>
     (\<forall>b. b \<noteq> cx_queue c \<longrightarrow> same_ring (mqs (nd_mq nd') b) (mqs (nd_mq nd) b)) \<and>
     nd_ctx nd' = nd_ctx nd \<and> nd_storage nd' = nd_storage nd \<and> nd_total nd' = nd_total nd"

lemma context_push_spec:
  assumes "deliverable nd h a c q as"
  shows "\<exists>nd'. skynet_context_push sv nd h m = Inr (0, nd') \<and> delivered nd nd' c q as m"
proof -
  have d: "skynet_handle_grab (hof_of nd) (nd_storage nd) h = Some a" "nd_ctx nd a = Some c" "0 < cx_ref c"
      "mqs (nd_mq nd) (cx_queue c) = Some q" "mq_inv q" "globalq_rep (nd_mq nd) as" "mq_in_global q = 0 \<longrightarrow> cx_queue c \<notin> set as"
    using assms by (simp_all add: deliverable_def)
  obtain w' q' where p: "skynet_mq_push (nd_mq nd) (cx_queue c) m = Inr w'" "mqs w' (cx_queue c) = Some q'" "mq_inv q'"
      "mq_content q' = mq_content q @ [m]" "mq_in_global q' = (if mq_in_global q = 0 then 1 else mq_in_global q)"
      "globalq_rep w' (if mq_in_global q = 0 then as @ [cx_queue c] else as)"
    and same: "\<And>b. b \<noteq> cx_queue c \<Longrightarrow> same_ring (mqs w' b) (mqs (nd_mq nd) b)"
    by (rule mq_push_spec [OF d(6,4,5,7), of m]) (rule that; assumption)
  have restore: "(nd_ctx nd)(a \<mapsto> c) = nd_ctx nd"
    using d(2) by (simp add: fun_upd_idem)
  have "skynet_context_push sv nd h m = Inr (0, nd\<lparr>nd_mq := w', nd_ctx := nd_ctx nd\<rparr>)"
    using d(1-3) p(1) restore
    by (simp add: skynet_context_push_def handle_grab_def skynet_context_grab_def put_ctx_def node_mq_push_def
        skynet_context_release_def Let_def)
  then show ?thesis
    using p same by (auto simp: delivered_def)
qed

lemma context_push_unknown:
  "skynet_handle_grab (hof_of nd) (nd_storage nd) h = None \<Longrightarrow> skynet_context_push sv nd h m = Inr (-1, nd)"
  by (simp add: skynet_context_push_def handle_grab_def)

lemma isremote_local:
  "nd_harbor nd \<noteq> - 1 \<Longrightarrow> h AND NOT HANDLE_MASK = nd_harbor nd \<or> h AND NOT HANDLE_MASK = 0 \<Longrightarrow>
    skynet_harbor_message_isremote nd h = Inr False"
  by (auto simp: skynet_harbor_message_isremote_def Let_def)

definition sent_data :: "u32 \<Rightarrow> bytes \<Rightarrow> u64 \<Rightarrow> payload option" where
  "sent_data type bs sz = Some (Raw (if type AND PTYPE_TAG_DONTCOPY = 0 then take (unat sz) bs @ [0] else bs))"

lemma filter_args_plain:
  assumes "type AND PTYPE_TAG_ALLOCSESSION = 0" "unat sz \<le> length bs"
  shows "filter_args nd ctx type session (Some (Raw bs)) sz =
    Inr (session, sent_data type bs sz, sz OR push_bit MESSAGE_TYPE_SHIFT (ucast (type AND 0xff)), nd)"
  using assms by (auto simp: filter_args_def sent_data_def)

section \<open>Properties\<close>


definition demo_context :: skynet_context where
  "demo_context = \<lparr>cx_mod = ''snlua'', cx_instance = 1, cx_cb = Some 0, cx_queue = 71, cx_logfile = None, cx_result = [],
     cx_handle = 1, cx_session_id = 0, cx_ref = 1, cx_init = True, cx_endless = False\<rparr>"

definition demo_node :: node where
  "demo_node = \<lparr>nd_total = 1, nd_monitor_exit = 0, nd_harbor = 0, nd_remote = None, nd_logger = 0, nd_current = 0,
     nd_storage = (skynet_handle_init 0)\<lparr>slot := [None, Some 70, None, None], handle_index := 2\<rparr>,
     nd_mq = skynet_mq_create skynet_mq_init 71 1, nd_ctx = (\<lambda>_. None)(70 \<mapsto> demo_context), nd_env = (\<lambda>_. None),
     nd_timer = timer_create_timer, nd_modules = [''snlua''], nd_brk = 72\<rparr>"

lemma demo_deliverable: "deliverable demo_node 1 70 demo_context (mq_fresh 1) []"
  by (simp add: deliverable_def demo_node_def demo_context_def skynet_handle_grab_def skynet_handle_init_def slot_hash_def
      hof_of_def DEFAULT_SLOT_SIZE_def mq_create_eq globalq_rep_def skynet_mq_init_def MQ_IN_GLOBAL_def)


text \<open>a message to a local handle nobody has registered, or larger than 2^56 - 1 bytes, is refused with
  -1 and changes nothing (with no logger registered to be told); a message to handle 0 returns its
  session and is not sent.\<close>

theorem skynet_send_refused:
  assumes "source \<noteq> 0" "nd_harbor nd \<noteq> - 1" "dest AND NOT HANDLE_MASK = nd_harbor nd \<or> dest AND NOT HANDLE_MASK = 0"
    "type AND PTYPE_TAG_ALLOCSESSION = 0" "unat sz \<le> length bs" "nd_logger nd = 0"
    "skynet_handle_findname (nd_storage nd) ''logger'' = Inr 0"
  shows "(sz AND MESSAGE_TYPE_MASK \<noteq> sz \<longrightarrow>
      skynet_send sv nd ctx source dest type session (Some (Raw bs)) sz = Inr (-1, nd)) \<and>
    (sz AND MESSAGE_TYPE_MASK = sz \<longrightarrow> dest \<noteq> 0 \<longrightarrow> skynet_handle_grab (hof_of nd) (nd_storage nd) dest = None \<longrightarrow>
      skynet_send sv nd ctx source dest type session (Some (Raw bs)) sz = Inr (-1, nd)) \<and>
    (sz AND MESSAGE_TYPE_MASK = sz \<longrightarrow> skynet_send sv nd ctx source 0 type session (Some (Raw bs)) sz = Inr (session, nd))"
proof -
  have "skynet_error sv nd ctx s = Inr nd" for s
    using assms(6,7) by (simp add: skynet_error_def)
  then show ?thesis
    using assms(1) isremote_local [OF assms(2,3)] context_push_unknown
    by (auto simp: skynet_send_def filter_args_plain [OF assms(4,5)])
qed

theorem skynet_send_refused_witness:
  "\<forall>sv. skynet_send sv demo_node None 9 3 10 5 (Some (Raw [104, 105])) 2 = Inr (-1, demo_node)"
proof -
  have h: "(3 :: u32) AND NOT HANDLE_MASK = 0" "nd_harbor demo_node \<noteq> - 1" "(2 :: u64) AND MESSAGE_TYPE_MASK = 2"
      "(10 :: u32) AND PTYPE_TAG_ALLOCSESSION = 0" "nd_logger demo_node = 0"
    by (simp_all add: HANDLE_MASK_def demo_node_def MESSAGE_TYPE_MASK_def PTYPE_TAG_ALLOCSESSION_def)
  have "skynet_handle_findname (nd_storage demo_node) ''logger'' = Inr 0"
    by (simp add: demo_node_def skynet_handle_init_def skynet_handle_findname_def name_search.simps)
  moreover have "skynet_handle_grab (hof_of demo_node) (nd_storage demo_node) 3 = None"
    by (simp add: demo_node_def skynet_handle_init_def skynet_handle_grab_def slot_hash_def DEFAULT_SLOT_SIZE_def)
  ultimately show ?thesis
    using skynet_send_refused [of 9 demo_node 3 10 2 "[104, 105]" _ None 5] h by simp
qed

text \<open>\<open>skynet_context_newsession\<close> never gives a session that is not positive: it counts up by one and
  starts again at 1 when the 32-bit counter would turn negative; nothing else of the context changes.\<close>

theorem skynet_context_newsession_positive:
  assumes "nd_ctx nd a = Some c"
  shows "\<exists>s. skynet_context_newsession nd a = Inr (s, put_ctx nd a (c\<lparr>cx_session_id := s\<rparr>)) \<and> 0 < sint s \<and>
    (if 0 < sint (cx_session_id c + 1) then s = cx_session_id c + 1 else s = 1)"
  using assms by (auto simp: skynet_context_newsession_def Let_def)

theorem skynet_context_newsession_positive_witness:
  "\<exists>nd'. skynet_context_newsession (put_ctx demo_node 70 (demo_context\<lparr>cx_session_id := 0x7FFFFFFF\<rparr>)) 70 = Inr (1, nd')"
  using skynet_context_newsession_positive [of "put_ctx demo_node 70 (demo_context\<lparr>cx_session_id := 0x7FFFFFFF\<rparr>)" 70
    "demo_context\<lparr>cx_session_id := 0x7FFFFFFF\<rparr>"]
  by (auto simp: put_ctx_def)

text \<open>the text the node gives out for a handle, by REG without a name (\<open>:%x\<close>) or by LAUNCH
  (\<open>id_to_hex\<close>), is read back as that handle by every command that takes one and by
  \<open>skynet_queryname\<close>.\<close>

theorem handle_text_roundtrip:
  assumes "nd_ctx nd a = Some c"
  shows "\<exists>txt nd'. cmd_reg sv nd a [] = Inr (Some txt, nd') \<and> tohandle sv nd2 b txt = Inr (cx_handle c, nd2) \<and>
    tohandle sv nd2 b (id_to_hex (cx_handle c)) = Inr (cx_handle c, nd2) \<and>
    skynet_queryname sv nd2 o2 txt = Inr (cx_handle c, nd2)"
proof -
  have "id_to_hex (cx_handle c) = CHR '':'' # tl (id_to_hex (cx_handle c))"
    by (simp add: id_to_hex_def)
  then have "tohandle sv nd2 b (id_to_hex (cx_handle c)) = Inr (cx_handle c, nd2)"
    by (metis tohandle_colon parse_id_to_hex)
  moreover have "cmd_reg sv nd a [] =
      Inr (Some (CHR '':'' # hex_text (cx_handle c)), put_ctx nd a (c\<lparr>cx_result := CHR '':'' # hex_text (cx_handle c)\<rparr>))"
    using assms by (simp add: cmd_reg.simps skynet_context_handle_def set_result_def)
  ultimately show ?thesis
    using tohandle_colon queryname_colon parse_hex_text by metis
qed

theorem handle_text_roundtrip_witness:
  "\<forall>sv. \<exists>txt nd'. cmd_reg sv demo_node 70 [] = Inr (Some txt, nd') \<and> tohandle sv demo_node 70 txt = Inr (1, demo_node)"
proof -
  have "nd_ctx demo_node 70 = Some demo_context" "cx_handle demo_context = 1"
    by (simp_all add: demo_node_def demo_context_def)
  then have "\<exists>txt nd'. cmd_reg sv demo_node 70 [] = Inr (Some txt, nd') \<and> tohandle sv demo_node 70 txt = Inr (1, demo_node)" for sv
    using handle_text_roundtrip [of demo_node 70 demo_context sv demo_node 70 None] by auto
  then show ?thesis
    by blast
qed

end
