(* ===== verification/Des.thy ===== *)
theory Des
  imports Prelude
begin

text \<open>
  DES as \<open>lua-crypt.c\<close> has it: the S-boxes and the bit-swap tables, the key schedule \<open>des_main_ks\<close>,
  the block function \<open>des_crypt\<close> and the Lua functions \<open>ldesencode\<close> and \<open>ldesdecode\<close>
  with their padding. A text is a byte list. The macros \<open>GET_UINT32\<close> and \<open>PUT_UINT32\<close> are the big endian
  codecs of theory \<open>Prelude\<close>. Texts are shorter than 2^31 bytes, so the \<open>int\<close> counters do not overflow.
\<close>

section \<open>Tables\<close>

definition SB1 :: "u32 list" where
  "SB1 = [
    0x01010400, 0x00000000, 0x00010000, 0x01010404, 0x01010004, 0x00010404, 0x00000004, 0x00010000,
    0x00000400, 0x01010400, 0x01010404, 0x00000400, 0x01000404, 0x01010004, 0x01000000, 0x00000004,
    0x00000404, 0x01000400, 0x01000400, 0x00010400, 0x00010400, 0x01010000, 0x01010000, 0x01000404,
    0x00010004, 0x01000004, 0x01000004, 0x00010004, 0x00000000, 0x00000404, 0x00010404, 0x01000000,
    0x00010000, 0x01010404, 0x00000004, 0x01010000, 0x01010400, 0x01000000, 0x01000000, 0x00000400,
    0x01010004, 0x00010000, 0x00010400, 0x01000004, 0x00000400, 0x00000004, 0x01000404, 0x00010404,
    0x01010404, 0x00010004, 0x01010000, 0x01000404, 0x01000004, 0x00000404, 0x00010404, 0x01010400,
    0x00000404, 0x01000400, 0x01000400, 0x00000000, 0x00010004, 0x00010400, 0x00000000, 0x01010004]"

definition SB2 :: "u32 list" where
  "SB2 = [
    0x80108020, 0x80008000, 0x00008000, 0x00108020, 0x00100000, 0x00000020, 0x80100020, 0x80008020,
    0x80000020, 0x80108020, 0x80108000, 0x80000000, 0x80008000, 0x00100000, 0x00000020, 0x80100020,
    0x00108000, 0x00100020, 0x80008020, 0x00000000, 0x80000000, 0x00008000, 0x00108020, 0x80100000,
    0x00100020, 0x80000020, 0x00000000, 0x00108000, 0x00008020, 0x80108000, 0x80100000, 0x00008020,
    0x00000000, 0x00108020, 0x80100020, 0x00100000, 0x80008020, 0x80100000, 0x80108000, 0x00008000,
    0x80100000, 0x80008000, 0x00000020, 0x80108020, 0x00108020, 0x00000020, 0x00008000, 0x80000000,
    0x00008020, 0x80108000, 0x00100000, 0x80000020, 0x00100020, 0x80008020, 0x80000020, 0x00100020,
    0x00108000, 0x00000000, 0x80008000, 0x00008020, 0x80000000, 0x80100020, 0x80108020, 0x00108000]"

definition SB3 :: "u32 list" where
  "SB3 = [
    0x00000208, 0x08020200, 0x00000000, 0x08020008, 0x08000200, 0x00000000, 0x00020208, 0x08000200,
    0x00020008, 0x08000008, 0x08000008, 0x00020000, 0x08020208, 0x00020008, 0x08020000, 0x00000208,
    0x08000000, 0x00000008, 0x08020200, 0x00000200, 0x00020200, 0x08020000, 0x08020008, 0x00020208,
    0x08000208, 0x00020200, 0x00020000, 0x08000208, 0x00000008, 0x08020208, 0x00000200, 0x08000000,
    0x08020200, 0x08000000, 0x00020008, 0x00000208, 0x00020000, 0x08020200, 0x08000200, 0x00000000,
    0x00000200, 0x00020008, 0x08020208, 0x08000200, 0x08000008, 0x00000200, 0x00000000, 0x08020008,
    0x08000208, 0x00020000, 0x08000000, 0x08020208, 0x00000008, 0x00020208, 0x00020200, 0x08000008,
    0x08020000, 0x08000208, 0x00000208, 0x08020000, 0x00020208, 0x00000008, 0x08020008, 0x00020200]"

definition SB4 :: "u32 list" where
  "SB4 = [
    0x00802001, 0x00002081, 0x00002081, 0x00000080, 0x00802080, 0x00800081, 0x00800001, 0x00002001,
    0x00000000, 0x00802000, 0x00802000, 0x00802081, 0x00000081, 0x00000000, 0x00800080, 0x00800001,
    0x00000001, 0x00002000, 0x00800000, 0x00802001, 0x00000080, 0x00800000, 0x00002001, 0x00002080,
    0x00800081, 0x00000001, 0x00002080, 0x00800080, 0x00002000, 0x00802080, 0x00802081, 0x00000081,
    0x00800080, 0x00800001, 0x00802000, 0x00802081, 0x00000081, 0x00000000, 0x00000000, 0x00802000,
    0x00002080, 0x00800080, 0x00800081, 0x00000001, 0x00802001, 0x00002081, 0x00002081, 0x00000080,
    0x00802081, 0x00000081, 0x00000001, 0x00002000, 0x00800001, 0x00002001, 0x00802080, 0x00800081,
    0x00002001, 0x00002080, 0x00800000, 0x00802001, 0x00000080, 0x00800000, 0x00002000, 0x00802080]"

definition SB5 :: "u32 list" where
  "SB5 = [
    0x00000100, 0x02080100, 0x02080000, 0x42000100, 0x00080000, 0x00000100, 0x40000000, 0x02080000,
    0x40080100, 0x00080000, 0x02000100, 0x40080100, 0x42000100, 0x42080000, 0x00080100, 0x40000000,
    0x02000000, 0x40080000, 0x40080000, 0x00000000, 0x40000100, 0x42080100, 0x42080100, 0x02000100,
    0x42080000, 0x40000100, 0x00000000, 0x42000000, 0x02080100, 0x02000000, 0x42000000, 0x00080100,
    0x00080000, 0x42000100, 0x00000100, 0x02000000, 0x40000000, 0x02080000, 0x42000100, 0x40080100,
    0x02000100, 0x40000000, 0x42080000, 0x02080100, 0x40080100, 0x00000100, 0x02000000, 0x42080000,
    0x42080100, 0x00080100, 0x42000000, 0x42080100, 0x02080000, 0x00000000, 0x40080000, 0x42000000,
    0x00080100, 0x02000100, 0x40000100, 0x00080000, 0x00000000, 0x40080000, 0x02080100, 0x40000100]"

definition SB6 :: "u32 list" where
  "SB6 = [
    0x20000010, 0x20400000, 0x00004000, 0x20404010, 0x20400000, 0x00000010, 0x20404010, 0x00400000,
    0x20004000, 0x00404010, 0x00400000, 0x20000010, 0x00400010, 0x20004000, 0x20000000, 0x00004010,
    0x00000000, 0x00400010, 0x20004010, 0x00004000, 0x00404000, 0x20004010, 0x00000010, 0x20400010,
    0x20400010, 0x00000000, 0x00404010, 0x20404000, 0x00004010, 0x00404000, 0x20404000, 0x20000000,
    0x20004000, 0x00000010, 0x20400010, 0x00404000, 0x20404010, 0x00400000, 0x00004010, 0x20000010,
    0x00400000, 0x20004000, 0x20000000, 0x00004010, 0x20000010, 0x20404010, 0x00404000, 0x20400000,
    0x00404010, 0x20404000, 0x00000000, 0x20400010, 0x00000010, 0x00004000, 0x20400000, 0x00404010,
    0x00004000, 0x00400010, 0x20004010, 0x00000000, 0x20404000, 0x20000000, 0x00400010, 0x20004010]"

definition SB7 :: "u32 list" where
  "SB7 = [
    0x00200000, 0x04200002, 0x04000802, 0x00000000, 0x00000800, 0x04000802, 0x00200802, 0x04200800,
    0x04200802, 0x00200000, 0x00000000, 0x04000002, 0x00000002, 0x04000000, 0x04200002, 0x00000802,
    0x04000800, 0x00200802, 0x00200002, 0x04000800, 0x04000002, 0x04200000, 0x04200800, 0x00200002,
    0x04200000, 0x00000800, 0x00000802, 0x04200802, 0x00200800, 0x00000002, 0x04000000, 0x00200800,
    0x04000000, 0x00200800, 0x00200000, 0x04000802, 0x04000802, 0x04200002, 0x04200002, 0x00000002,
    0x00200002, 0x04000000, 0x04000800, 0x00200000, 0x04200800, 0x00000802, 0x00200802, 0x04200800,
    0x00000802, 0x04000002, 0x04200802, 0x04200000, 0x00200800, 0x00000000, 0x00000002, 0x04200802,
    0x00000000, 0x00200802, 0x04200000, 0x00000800, 0x04000002, 0x04000800, 0x00000800, 0x00200002]"

definition SB8 :: "u32 list" where
  "SB8 = [
    0x10001040, 0x00001000, 0x00040000, 0x10041040, 0x10000000, 0x10001040, 0x00000040, 0x10000000,
    0x00040040, 0x10040000, 0x10041040, 0x00041000, 0x10041000, 0x00041040, 0x00001000, 0x00000040,
    0x10040000, 0x10000040, 0x10001000, 0x00001040, 0x00041000, 0x00040040, 0x10040040, 0x10041000,
    0x00001040, 0x00000000, 0x00000000, 0x10040040, 0x10000040, 0x10001000, 0x00041040, 0x00040000,
    0x00041040, 0x00040000, 0x10041000, 0x00001000, 0x00000040, 0x10040040, 0x00001000, 0x00041040,
    0x10001000, 0x00000040, 0x10000040, 0x10040000, 0x10040040, 0x10000000, 0x00040000, 0x10001040,
    0x00000000, 0x10041040, 0x00040040, 0x10000040, 0x10040000, 0x10001000, 0x10001040, 0x00000000,
    0x10041040, 0x00041000, 0x00041000, 0x00001040, 0x00001040, 0x00040040, 0x10000000, 0x10041000]"

definition LHs :: "u32 list" where
  "LHs = [
    0x00000000, 0x00000001, 0x00000100, 0x00000101,
    0x00010000, 0x00010001, 0x00010100, 0x00010101,
    0x01000000, 0x01000001, 0x01000100, 0x01000101,
    0x01010000, 0x01010001, 0x01010100, 0x01010101]"

definition RHs :: "u32 list" where
  "RHs = [
    0x00000000, 0x01000000, 0x00010000, 0x01010000,
    0x00000100, 0x01000100, 0x00010100, 0x01010100,
    0x00000001, 0x01000001, 0x00010001, 0x01010001,
    0x00000101, 0x01000101, 0x00010101, 0x01010101]"

section \<open>The key schedule\<close>

definition shl1 :: "u32 list \<Rightarrow> u32 \<Rightarrow> nat \<Rightarrow> u32" where
  "shl1 T v n = T ! unat (drop_bit n v AND 0xf)"

definition permuted_choice_1 :: "u32 \<Rightarrow> u32 \<Rightarrow> u32 \<times> u32" where
  "permuted_choice_1 X Y =
    (let T = (drop_bit 4 Y XOR X) AND 0x0f0f0f0f; X = X XOR T; Y = Y XOR push_bit 4 T;
         T = (Y XOR X) AND 0x10101010; X = X XOR T; Y = Y XOR T;
         X = push_bit 3 (shl1 LHs X 0) OR push_bit 2 (shl1 LHs X 8) OR
             push_bit 1 (shl1 LHs X 16) OR shl1 LHs X 24 OR
             push_bit 7 (shl1 LHs X 5) OR push_bit 6 (shl1 LHs X 13) OR
             push_bit 5 (shl1 LHs X 21) OR push_bit 4 (shl1 LHs X 29);
         Y = push_bit 3 (shl1 RHs Y 1) OR push_bit 2 (shl1 RHs Y 9) OR
             push_bit 1 (shl1 RHs Y 17) OR shl1 RHs Y 25 OR
             push_bit 7 (shl1 RHs Y 4) OR push_bit 6 (shl1 RHs Y 12) OR
             push_bit 5 (shl1 RHs Y 20) OR push_bit 4 (shl1 RHs Y 28)
     in (X AND 0x0fffffff, Y AND 0x0fffffff))"

definition rotate_halves :: "nat \<Rightarrow> u32 \<Rightarrow> u32" where
  "rotate_halves i X =
    (if i < 2 \<or> i = 8 \<or> i = 15 then (push_bit 1 X OR drop_bit 27 X) AND 0x0fffffff
     else (push_bit 2 X OR drop_bit 26 X) AND 0x0fffffff)"

definition subkey_even :: "u32 \<Rightarrow> u32 \<Rightarrow> u32" where
  "subkey_even X Y =
     (push_bit 4 X AND 0x24000000) OR (push_bit 28 X AND 0x10000000) OR (push_bit 14 X AND 0x08000000) OR
     (push_bit 18 X AND 0x02080000) OR (push_bit 6 X AND 0x01000000) OR (push_bit 9 X AND 0x00200000) OR
     (drop_bit 1 X AND 0x00100000) OR (push_bit 10 X AND 0x00040000) OR (push_bit 2 X AND 0x00020000) OR
     (drop_bit 10 X AND 0x00010000) OR (drop_bit 13 Y AND 0x00002000) OR (drop_bit 4 Y AND 0x00001000) OR
     (push_bit 6 Y AND 0x00000800) OR (drop_bit 1 Y AND 0x00000400) OR (drop_bit 14 Y AND 0x00000200) OR
     (Y AND 0x00000100) OR (drop_bit 5 Y AND 0x00000020) OR (drop_bit 10 Y AND 0x00000010) OR
     (drop_bit 3 Y AND 0x00000008) OR (drop_bit 18 Y AND 0x00000004) OR (drop_bit 26 Y AND 0x00000002) OR
     (drop_bit 24 Y AND 0x00000001)"

definition subkey_odd :: "u32 \<Rightarrow> u32 \<Rightarrow> u32" where
  "subkey_odd X Y =
     (push_bit 15 X AND 0x20000000) OR (push_bit 17 X AND 0x10000000) OR (push_bit 10 X AND 0x08000000) OR
     (push_bit 22 X AND 0x04000000) OR (drop_bit 2 X AND 0x02000000) OR (push_bit 1 X AND 0x01000000) OR
     (push_bit 16 X AND 0x00200000) OR (push_bit 11 X AND 0x00100000) OR (push_bit 3 X AND 0x00080000) OR
     (drop_bit 6 X AND 0x00040000) OR (push_bit 15 X AND 0x00020000) OR (drop_bit 4 X AND 0x00010000) OR
     (drop_bit 2 Y AND 0x00002000) OR (push_bit 8 Y AND 0x00001000) OR (drop_bit 14 Y AND 0x00000808) OR
     (drop_bit 9 Y AND 0x00000400) OR (Y AND 0x00000200) OR (push_bit 7 Y AND 0x00000100) OR
     (drop_bit 7 Y AND 0x00000020) OR (drop_bit 3 Y AND 0x00000011) OR (push_bit 2 Y AND 0x00000004) OR
     (drop_bit 21 Y AND 0x00000002)"

fun subkeys :: "nat \<Rightarrow> nat \<Rightarrow> u32 \<Rightarrow> u32 \<Rightarrow> u32 list" where
  "subkeys 0 i X Y = []"
| "subkeys (Suc n) i X Y =
    (let X = rotate_halves i X; Y = rotate_halves i Y
     in subkey_even X Y # subkey_odd X Y # subkeys n (i + 1) X Y)"

definition des_main_ks :: "bytes \<Rightarrow> u32 list" where
  "des_main_ks key =
    (case permuted_choice_1 (be_word (take 4 key)) (be_word (take 4 (drop 4 key))) of (X, Y) \<Rightarrow> subkeys 16 0 X Y)"

lemma length_subkeys [simp]: "length (subkeys n i X Y) = 2 * n"
  by (induction n arbitrary: i X Y) (simp_all add: Let_def)

lemma length_des_main_ks [simp]: "length (des_main_ks key) = 32"
  by (simp add: des_main_ks_def case_prod_beta)

section \<open>The block function\<close>

definition DES_IP :: "u32 \<Rightarrow> u32 \<Rightarrow> u32 \<times> u32" where
  "DES_IP X Y =
    (let T = (drop_bit 4 X XOR Y) AND 0x0f0f0f0f; Y = Y XOR T; X = X XOR push_bit 4 T;
         T = (drop_bit 16 X XOR Y) AND 0x0000ffff; Y = Y XOR T; X = X XOR push_bit 16 T;
         T = (drop_bit 2 Y XOR X) AND 0x33333333; X = X XOR T; Y = Y XOR push_bit 2 T;
         T = (drop_bit 8 Y XOR X) AND 0x00ff00ff; X = X XOR T; Y = Y XOR push_bit 8 T;
         Y = (push_bit 1 Y OR drop_bit 31 Y) AND 0xffffffff;
         T = (X XOR Y) AND 0xaaaaaaaa; Y = Y XOR T; X = X XOR T;
         X = (push_bit 1 X OR drop_bit 31 X) AND 0xffffffff
     in (X, Y))"

definition DES_FP :: "u32 \<Rightarrow> u32 \<Rightarrow> u32 \<times> u32" where
  "DES_FP X Y =
    (let X = (push_bit 31 X OR drop_bit 1 X) AND 0xffffffff;
         T = (X XOR Y) AND 0xaaaaaaaa; X = X XOR T; Y = Y XOR T;
         Y = (push_bit 31 Y OR drop_bit 1 Y) AND 0xffffffff;
         T = (drop_bit 8 Y XOR X) AND 0x00ff00ff; X = X XOR T; Y = Y XOR push_bit 8 T;
         T = (drop_bit 2 Y XOR X) AND 0x33333333; X = X XOR T; Y = Y XOR push_bit 2 T;
         T = (drop_bit 16 X XOR Y) AND 0x0000ffff; Y = Y XOR T; X = X XOR push_bit 16 T;
         T = (drop_bit 4 X XOR Y) AND 0x0f0f0f0f; Y = Y XOR T; X = X XOR push_bit 4 T
     in (X, Y))"

definition sbox :: "u32 list \<Rightarrow> u32 \<Rightarrow> nat \<Rightarrow> u32" where
  "sbox T v n = T ! unat (drop_bit n v AND 0x3f)"

text \<open>\<open>DES_ROUND\<close> with the two subkeys it consumes: the new \<open>Y\<close>.\<close>

definition DES_ROUND :: "u32 \<Rightarrow> u32 \<Rightarrow> u32 \<Rightarrow> u32 \<Rightarrow> u32" where
  "DES_ROUND k1 k2 X Y =
    (let T = k1 XOR X;
         Y = Y XOR (sbox SB8 T 0 XOR sbox SB6 T 8 XOR sbox SB4 T 16 XOR sbox SB2 T 24);
         T = k2 XOR (push_bit 28 X OR drop_bit 4 X)
     in Y XOR (sbox SB7 T 0 XOR sbox SB5 T 8 XOR sbox SB3 T 16 XOR sbox SB1 T 24))"

text \<open>Two rounds consume four subkeys; the sixteen rounds of the source are eight such pairs.\<close>

fun des_rounds :: "u32 list \<Rightarrow> u32 \<Rightarrow> u32 \<Rightarrow> u32 \<times> u32" where
  "des_rounds (k1 # k2 # k3 # k4 # SK) X Y =
    (let X = DES_ROUND k1 k2 Y X; Y = DES_ROUND k3 k4 X Y in des_rounds SK X Y)"
| "des_rounds _ X Y = (X, Y)"

definition des_crypt :: "u32 list \<Rightarrow> bytes \<Rightarrow> bytes" where
  "des_crypt SK input =
    (case DES_IP (be_word (take 4 input)) (be_word (take 4 (drop 4 input))) of (X, Y) \<Rightarrow>
     case des_rounds SK X Y of (X, Y) \<Rightarrow>
     case DES_FP Y X of (Y, X) \<Rightarrow> be_bytes 4 Y @ be_bytes 4 X)"

section \<open>Texts\<close>

definition des_key :: "bytes \<Rightarrow> u32 list lua" where
  "des_key key = (if length key \<noteq> 8 then luaL_error ''Invalid key size'' else Inr (des_main_ks key))"

definition des_tail :: "bytes \<Rightarrow> bytes" where
  "des_tail rest = map (\<lambda>j. if j < length rest then rest ! j else if j = length rest then 0x80 else 0) [0..<8]"

fun des_encode_text :: "u32 list \<Rightarrow> bytes \<Rightarrow> bytes" where
  "des_encode_text SK text =
    (if 8 \<le> length text then des_crypt SK (take 8 text) @ des_encode_text SK (drop 8 text)
     else des_crypt SK (des_tail text))"

declare des_encode_text.simps [simp del]

definition ldesencode :: "bytes \<Rightarrow> bytes \<Rightarrow> bytes lua" where
  "ldesencode key text = res_bind (des_key key) (\<lambda>SK. Inr (des_encode_text SK text))"

definition reverse_schedule :: "u32 list \<Rightarrow> u32 list" where
  "reverse_schedule ESK = concat (map (\<lambda>i. [ESK ! (30 - 2 * i), ESK ! (31 - 2 * i)]) [0..<16])"

fun des_decode_text :: "u32 list \<Rightarrow> bytes \<Rightarrow> bytes" where
  "des_decode_text SK text =
    (if text = [] then [] else des_crypt SK (take 8 text) @ des_decode_text SK (drop 8 text))"

declare des_decode_text.simps [simp del]

text \<open>
  The padding is scanned from the end. The loop compares the \<open>int\<close> \<open>i\<close> with a \<open>size_t\<close>, so a negative
  \<open>i\<close> counts as a huge number and the scan goes on below the buffer.
\<close>

function des_padding :: "bytes \<Rightarrow> int \<Rightarrow> nat \<Rightarrow> nat lua" where
  "des_padding buffer i padding =
    (if 0 \<le> i \<and> i < int (length buffer) - 8 then Inr padding
     else if i < 0 \<or> int (length buffer) \<le> i then Inl (C_Fault Out_Of_Bounds)
     else if buffer ! nat i = 0 then des_padding buffer (i - 1) (padding + 1)
     else if buffer ! nat i = 0x80 then Inr padding
     else luaL_error ''Invalid des crypt text'')"
  by pat_completeness auto
termination
  by (relation "measure (\<lambda>(_, i, _). nat (i + 1))") auto

declare des_padding.simps [simp del]

definition ldesdecode :: "bytes \<Rightarrow> bytes \<Rightarrow> bytes lua" where
  "ldesdecode key text = res_bind (des_key key) (\<lambda>ESK.
    if length text mod 8 \<noteq> 0 \<or> length text = 0 then luaL_error ''Invalid des crypt text length''
    else let buffer = des_decode_text (reverse_schedule ESK) text in
      res_bind (des_padding buffer (int (length text) - 1) 1) (\<lambda>padding.
        if padding > 8 then luaL_error ''Invalid des crypt text''
        else Inr (take (length text - padding) buffer)))"

section \<open>The permutations are inverse\<close>

text \<open>One line of the permutation macros exchanges the bits of \<open>X\<close> and \<open>Y\<close> selected by a mask.\<close>

definition exchange :: "nat \<Rightarrow> u32 \<Rightarrow> u32 \<times> u32 \<Rightarrow> u32 \<times> u32" where
  "exchange k m = (\<lambda>(X, Y). let T = (drop_bit k X XOR Y) AND m in (X XOR push_bit k T, Y XOR T))"

definition rotl1 :: "u32 \<Rightarrow> u32" where
  "rotl1 X = (push_bit 1 X OR drop_bit 31 X) AND 0xffffffff"

definition rotr1 :: "u32 \<Rightarrow> u32" where
  "rotr1 X = (push_bit 31 X OR drop_bit 1 X) AND 0xffffffff"

lemma and_ones: "(v :: u32) AND 0xffffffff = v"
proof -
  have "(0xffffffff :: u32) = - 1"
    by simp
  then show ?thesis
    by (metis and.right_neutral)
qed

lemma xor_cancel: "((a :: u32) XOR t) XOR (b XOR t) = a XOR b" "((a :: u32) XOR t) XOR t = a"
  by (rule bit_word_eqI; simp only: bit_xor_iff; blast)+

lemma rot1_inverse [simp]: "rotr1 (rotl1 X) = X" "rotl1 (rotr1 X) = X"
proof -
  have l: "bit (rotl1 X) i \<longleftrightarrow> i < 32 \<and> bit X (if i = 0 then 31 else i - 1)" for X i
  proof -
    have "bit (rotl1 X) i \<longleftrightarrow> (1 \<le> i \<and> i < 32 \<and> bit X (i - 1)) \<or> bit X (31 + i)"
      unfolding rotl1_def and_ones by (simp only: bit_or_iff bit_push_bit_iff bit_drop_bit_eq o_def len_of_numeral_defs) simp
    moreover have "bit X (31 + i) \<Longrightarrow> i = 0"
      using bit_imp_le_length [of X "31 + i"] by simp
    ultimately show ?thesis
      by (cases "i = 0") auto
  qed
  have r: "bit (rotr1 X) i \<longleftrightarrow> i < 32 \<and> bit X (if i = 31 then 0 else i + 1)" for X i
  proof -
    have "bit (rotr1 X) i \<longleftrightarrow> (31 \<le> i \<and> i < 32 \<and> bit X (i - 31)) \<or> bit X (i + 1)"
      unfolding rotr1_def and_ones by (simp add: bit_or_iff bit_push_bit_iff bit_drop_bit_eq)
    moreover have "\<not> bit X 32" "bit X (i + 1) \<Longrightarrow> i + 1 < 32"
      using bit_imp_le_length [of X 32] bit_imp_le_length [of X "i + 1"] by auto
    ultimately show ?thesis
      by (cases "i = 31") auto
  qed
  show "rotr1 (rotl1 X) = X" "rotl1 (rotr1 X) = X"
    by (rule bit_word_eqI; simp add: l r; auto)+
qed

lemma drop_push_masked:
  assumes "drop_bit (32 - k) m = (0 :: u32)" "k \<le> 32"
  shows "drop_bit k (push_bit k (t AND m)) = (t AND m :: u32)"
proof (rule bit_word_eqI)
  fix i
  assume i: "i < LENGTH(32)"
  have "\<not> bit m i" if "32 \<le> k + i"
    using arg_cong [OF assms(1), of "\<lambda>w. bit w (i - (32 - k))"] that assms(2) by (simp add: bit_drop_bit_eq)
  then show "bit (drop_bit k (push_bit k (t AND m))) i = bit (t AND m) i"
    using i by (cases "32 \<le> k + i") (simp_all add: bit_drop_bit_eq bit_push_bit_iff bit_and_iff)
qed

lemma exchange_inverse:
  assumes fits: "drop_bit (32 - k) m = (0 :: u32)" "k \<le> 32" and e: "exchange k m (X, Y) = (a, b)"
  shows "exchange k m (a, b) = (X, Y)"
proof -
  define T where "T = (drop_bit k X XOR Y) AND m"
  have ab: "a = X XOR push_bit k T" "b = Y XOR T"
    using e by (simp_all add: exchange_def Let_def T_def)
  have "drop_bit k (push_bit k T) = T"
    unfolding T_def by (rule drop_push_masked [OF fits])
  then have "(drop_bit k a XOR b) AND m = T"
    by (simp only: ab drop_bit_xor xor_cancel T_def)
  then show ?thesis
    by (simp only: exchange_def Let_def prod.case ab xor_cancel)
qed

lemma fits: "drop_bit (32 - 4) 0x0f0f0f0f = (0 :: u32)" "drop_bit (32 - 16) 0x0000ffff = (0 :: u32)"
  "drop_bit (32 - 2) 0x33333333 = (0 :: u32)" "drop_bit (32 - 8) 0x00ff00ff = (0 :: u32)"
  "drop_bit (32 - 0) 0xaaaaaaaa = (0 :: u32)"
  by code_simp+

lemma exchange_inverses:
  "exchange 4 0x0f0f0f0f (X, Y) = (a, b) \<Longrightarrow> exchange 4 0x0f0f0f0f (a, b) = (X, Y)"
  "exchange 16 0x0000ffff (X, Y) = (a, b) \<Longrightarrow> exchange 16 0x0000ffff (a, b) = (X, Y)"
  "exchange 2 0x33333333 (X, Y) = (a, b) \<Longrightarrow> exchange 2 0x33333333 (a, b) = (X, Y)"
  "exchange 8 0x00ff00ff (X, Y) = (a, b) \<Longrightarrow> exchange 8 0x00ff00ff (a, b) = (X, Y)"
  "exchange 0 0xaaaaaaaa (X, Y) = (a, b) \<Longrightarrow> exchange 0 0xaaaaaaaa (a, b) = (X, Y)"
  by (rule exchange_inverse [OF fits(1)] exchange_inverse [OF fits(2)] exchange_inverse [OF fits(3)]
      exchange_inverse [OF fits(4)] exchange_inverse [OF fits(5)]; simp)+

lemma exchange_let:
  "(let T = (drop_bit k X XOR Y) AND m; Y' = Y XOR T; X' = X XOR push_bit k T in f X' Y') =
     (case exchange k m (X, Y) of (X', Y') \<Rightarrow> f X' Y')"
  "(let T = (X XOR Y) AND m; Y' = Y XOR T; X' = X XOR T in f X' Y') =
     (case exchange 0 m (X, Y) of (X', Y') \<Rightarrow> f X' Y')"
  "(let T = (X XOR Y) AND m; X' = X XOR T; Y' = Y XOR T in f X' Y') =
     (case exchange 0 m (X, Y) of (X', Y') \<Rightarrow> f X' Y')"
  by (simp_all add: exchange_def Let_def)

lemma DES_IP_steps:
  assumes "exchange 4 0x0f0f0f0f (X, Y) = (x1, y1)" "exchange 16 0x0000ffff (x1, y1) = (x2, y2)"
    "exchange 2 0x33333333 (y2, x2) = (y3, x3)" "exchange 8 0x00ff00ff (y3, x3) = (y4, x4)"
    "exchange 0 0xaaaaaaaa (x4, rotl1 y4) = (x5, y5)"
  shows "DES_IP X Y = (rotl1 x5, y5)"
  unfolding DES_IP_def rotl1_def [symmetric] exchange_let by (simp only: Let_def assms prod.case)

lemma DES_FP_steps:
  assumes "exchange 0 0xaaaaaaaa (rotr1 X, Y) = (x1, y1)" "exchange 8 0x00ff00ff (rotr1 y1, x1) = (y2, x2)"
    "exchange 2 0x33333333 (y2, x2) = (y3, x3)" "exchange 16 0x0000ffff (x3, y3) = (x4, y4)"
    "exchange 4 0x0f0f0f0f (x4, y4) = (x5, y5)"
  shows "DES_FP X Y = (x5, y5)"
  unfolding DES_FP_def rotr1_def [symmetric] exchange_let by (simp only: Let_def assms prod.case)

lemma DES_FP_IP: "DES_IP X Y = (a, b) \<Longrightarrow> DES_FP a b = (X, Y)"
proof -
  assume ip: "DES_IP X Y = (a, b)"
  obtain x1 y1 where 1: "exchange 4 0x0f0f0f0f (X, Y) = (x1, y1)" by fastforce
  obtain x2 y2 where 2: "exchange 16 0x0000ffff (x1, y1) = (x2, y2)" by fastforce
  obtain x3 y3 where 3: "exchange 2 0x33333333 (y2, x2) = (y3, x3)" by fastforce
  obtain x4 y4 where 4: "exchange 8 0x00ff00ff (y3, x3) = (y4, x4)" by fastforce
  obtain x5 y5 where 5: "exchange 0 0xaaaaaaaa (x4, rotl1 y4) = (x5, y5)" by fastforce
  have ab: "a = rotl1 x5" "b = y5"
    using DES_IP_steps [OF 1 2 3 4 5] ip by simp_all
  have "exchange 0 0xaaaaaaaa (rotr1 (rotl1 x5), y5) = (x4, rotl1 y4)"
    using exchange_inverses(5) [OF 5] by (simp only: rot1_inverse)
  moreover have "exchange 8 0x00ff00ff (rotr1 (rotl1 y4), x4) = (y3, x3)"
    using exchange_inverses(4) [OF 4] by (simp only: rot1_inverse)
  ultimately show "DES_FP a b = (X, Y)"
    unfolding ab by (rule DES_FP_steps [OF _ _ exchange_inverses(3) [OF 3] exchange_inverses(2) [OF 2] exchange_inverses(1) [OF 1]])
qed

lemma DES_IP_FP: "DES_FP X Y = (a, b) \<Longrightarrow> DES_IP a b = (X, Y)"
proof -
  assume fp: "DES_FP X Y = (a, b)"
  obtain x1 y1 where 1: "exchange 0 0xaaaaaaaa (rotr1 X, Y) = (x1, y1)" by fastforce
  obtain x2 y2 where 2: "exchange 8 0x00ff00ff (rotr1 y1, x1) = (y2, x2)" by fastforce
  obtain x3 y3 where 3: "exchange 2 0x33333333 (y2, x2) = (y3, x3)" by fastforce
  obtain x4 y4 where 4: "exchange 16 0x0000ffff (x3, y3) = (x4, y4)" by fastforce
  obtain x5 y5 where 5: "exchange 4 0x0f0f0f0f (x4, y4) = (x5, y5)" by fastforce
  have ab: "a = x5" "b = y5"
    using DES_FP_steps [OF 1 2 3 4 5] fp by simp_all
  have "exchange 0 0xaaaaaaaa (x1, rotl1 (rotr1 y1)) = (rotr1 X, Y)"
    using exchange_inverses(5) [OF 1] by (simp only: rot1_inverse)
  then have "DES_IP a b = (rotl1 (rotr1 X), Y)"
    unfolding ab by (intro DES_IP_steps [OF exchange_inverses(1) [OF 5] exchange_inverses(2) [OF 4]
        exchange_inverses(3) [OF 3] exchange_inverses(4) [OF 2]])
  then show "DES_IP a b = (X, Y)"
    by (simp only: rot1_inverse)
qed

section \<open>Decoding reverses encoding\<close>

fun pairs_rev :: "'a list \<Rightarrow> 'a list" where
  "pairs_rev (a # b # xs) = pairs_rev xs @ [a, b]"
| "pairs_rev _ = []"

lemma length_pairs_rev [simp]: "even (length xs) \<Longrightarrow> length (pairs_rev xs) = length xs"
  by (induction xs rule: pairs_rev.induct) auto

lemma pairs_rev_append: "even (length xs) \<Longrightarrow> pairs_rev (xs @ ys) = pairs_rev ys @ pairs_rev xs"
  by (induction xs rule: pairs_rev.induct) auto

lemma pairs_rev_twice: "even (length xs) \<Longrightarrow> pairs_rev (pairs_rev xs) = xs"
  by (induction xs rule: pairs_rev.induct) (auto simp: pairs_rev_append)

lemma pairs_rev_nth:
  "length xs = 2 * n \<Longrightarrow> pairs_rev xs = concat (map (\<lambda>i. [xs ! (2 * n - 2 - 2 * i), xs ! (2 * n - 1 - 2 * i)]) [0..<n])"
proof (induction n arbitrary: xs)
  case 0
  then show ?case by simp
next
  case (Suc n)
  then obtain a b ys where xs: "xs = a # b # ys" "length ys = 2 * n"
    by (auto simp: length_Suc_conv)
  have idx: "2 * Suc n - 2 - 2 * i = Suc (Suc (2 * n - 2 - 2 * i))" "2 * Suc n - 1 - 2 * i = Suc (Suc (2 * n - 1 - 2 * i))"
    if "i < n" for i
    using that by auto
  define F where "F = (\<lambda>i. [xs ! (2 * Suc n - 2 - 2 * i), xs ! (2 * Suc n - 1 - 2 * i)])"
  have last: "F n = [a, b]"
    by (simp add: F_def xs(1))
  have "map F [0..<n] = map (\<lambda>i. [ys ! (2 * n - 2 - 2 * i), ys ! (2 * n - 1 - 2 * i)]) [0..<n]"
    unfolding F_def by (rule map_cong [OF refl]) (simp only: atLeastLessThan_iff set_upt idx xs(1) nth_Cons_Suc)
  then have "concat (map F [0..<n]) = pairs_rev ys"
    by (simp only: Suc.IH [OF xs(2)])
  then have "concat (map F [0..<Suc n]) = pairs_rev ys @ [a, b]"
    using last by simp
  then show ?case
    unfolding F_def by (simp only: xs(1) pairs_rev.simps)
qed

lemma reverse_schedule_eq: "length SK = 32 \<Longrightarrow> reverse_schedule SK = pairs_rev SK"
  using pairs_rev_nth [of SK 16] by (simp add: reverse_schedule_def del: upt_Suc upt_rec_numeral)

lemma DES_ROUND_xor: "DES_ROUND k1 k2 X Y = Y XOR DES_ROUND k1 k2 X 0"
  by (simp add: DES_ROUND_def Let_def ac_simps)

lemma DES_ROUND_twice: "DES_ROUND k1 k2 X (DES_ROUND k1 k2 X Y) = Y"
  unfolding DES_ROUND_xor [of k1 k2 X Y] DES_ROUND_xor [of k1 k2 X "Y XOR _"] by (rule xor_cancel(2))

lemma des_rounds_append:
  "length SK mod 4 = 0 \<Longrightarrow> des_rounds (SK @ KS) X Y = (case des_rounds SK X Y of (X', Y') \<Rightarrow> des_rounds KS X' Y')"
  by (induction SK X Y rule: des_rounds.induct) (auto simp: Let_def)

lemma des_rounds_reverse:
  "length SK mod 4 = 0 \<Longrightarrow> des_rounds SK X Y = (X', Y') \<Longrightarrow> des_rounds (pairs_rev SK) Y' X' = (Y, X)"
proof (induction SK X Y rule: des_rounds.induct)
  case (1 k1 k2 k3 k4 SK X Y)
  let ?X = "DES_ROUND k1 k2 Y X"
  let ?Y = "DES_ROUND k3 k4 ?X Y"
  have m: "length SK mod 4 = 0"
    using 1(2) by simp
  then have even: "even (length SK)"
    by (metis dvd_trans even_numeral mod_eq_0_iff_dvd numeral_Bit0_eq_double dvd_triv_left)
  have "des_rounds (pairs_rev SK) Y' X' = (?Y, ?X)"
    using 1(1) [OF refl refl m] 1(3) by (simp add: Let_def)
  then show ?case
    using des_rounds_append [of "pairs_rev SK" "[k3, k4, k1, k2]"] m even by (simp add: Let_def DES_ROUND_twice)
qed auto

lemma be_bytes_be_word: "length bs = 4 \<Longrightarrow> be_bytes 4 (be_word bs :: u32) = bs"
  using le_bytes_le_word [of "rev bs", where 'a = 32] by (simp add: be_bytes_def be_word_def)

lemma be_word_be_bytes32 [simp]: "be_word (be_bytes 4 (v :: u32)) = v"
  by (simp add: be_word_def be_bytes_def)

lemma length_des_crypt [simp]: "length (des_crypt SK b) = 8"
  by (simp add: des_crypt_def split: prod.splits)

lemma des_crypt_reverse:
  assumes "length SK mod 4 = 0" "length b = 8"
  shows "des_crypt (pairs_rev SK) (des_crypt SK b) = b"
proof -
  let ?x = "be_word (take 4 b) :: u32" and ?y = "be_word (take 4 (drop 4 b)) :: u32"
  obtain X Y where ip: "DES_IP ?x ?y = (X, Y)" by fastforce
  obtain X' Y' where r: "des_rounds SK X Y = (X', Y')" by fastforce
  obtain p q where fp: "DES_FP Y' X' = (p, q)" by fastforce
  have "des_crypt SK b = be_bytes 4 p @ be_bytes 4 q"
    using ip r fp by (simp add: des_crypt_def)
  then have "des_crypt (pairs_rev SK) (des_crypt SK b) = be_bytes 4 ?x @ be_bytes 4 ?y"
    using DES_IP_FP [OF fp] des_rounds_reverse [OF assms(1) r] DES_FP_IP [OF ip] by (simp add: des_crypt_def)
  also have "\<dots> = b"
    using assms(2) by (simp add: be_bytes_be_word)
  finally show ?thesis .
qed

lemma des_tail_eq: "length rest < 8 \<Longrightarrow> des_tail rest = rest @ 0x80 # replicate (7 - length rest) 0"
  by (rule nth_equalityI) (auto simp: des_tail_def nth_append nth_Cons split: nat.splits)

lemma des_decode_append: "length b = 8 \<Longrightarrow> des_decode_text SK (b @ r) = des_crypt SK b @ des_decode_text SK r"
  by (subst des_decode_text.simps) auto

lemma length_des_decode_text: "length x mod 8 = 0 \<Longrightarrow> length (des_decode_text SK x) = length x"
proof (induction SK x rule: des_decode_text.induct)
  case (1 SK x)
  show ?case
  proof (cases "x = []")
    case False
    have "8 \<le> length x"
      using 1(2) False by (cases "length x < 8") auto
    then show ?thesis
      using 1 False by (subst des_decode_text.simps) (simp add: mod_if)
  qed (simp add: des_decode_text.simps)
qed

lemma des_text_reverse:
  assumes "length SK mod 4 = 0"
  shows "\<exists>z \<le> 7. des_decode_text (pairs_rev SK) (des_encode_text SK bs) = bs @ 0x80 # replicate z 0"
proof (induction "length bs" arbitrary: bs rule: less_induct)
  case less
  show ?case
  proof (cases "8 \<le> length bs")
    case True
    then have "length (drop 8 bs) < length bs"
      by simp
    then obtain z where z: "z \<le> 7" "des_decode_text (pairs_rev SK) (des_encode_text SK (drop 8 bs)) = drop 8 bs @ 0x80 # replicate z 0"
      using less by blast
    have "des_encode_text SK bs = des_crypt SK (take 8 bs) @ des_encode_text SK (drop 8 bs)"
      using True by (simp add: des_encode_text.simps [of SK bs])
    then have "des_decode_text (pairs_rev SK) (des_encode_text SK bs) =
        des_crypt (pairs_rev SK) (des_crypt SK (take 8 bs)) @ des_decode_text (pairs_rev SK) (des_encode_text SK (drop 8 bs))"
      by (simp only: des_decode_append length_des_crypt)
    then have "des_decode_text (pairs_rev SK) (des_encode_text SK bs) = bs @ 0x80 # replicate z 0"
      using True by (simp add: des_crypt_reverse [OF assms] z(2) flip: append_assoc)
    then show ?thesis
      using z(1) by blast
  next
    case False
    then have enc: "des_encode_text SK bs = des_crypt SK (des_tail bs)" and len: "length (des_tail bs) = 8"
      by (simp_all add: des_encode_text.simps [of SK bs] des_tail_def)
    have "des_decode_text (pairs_rev SK) (des_encode_text SK bs) = des_crypt (pairs_rev SK) (des_crypt SK (des_tail bs))"
      using des_decode_append [of "des_crypt SK (des_tail bs)" "pairs_rev SK" "[]"]
      by (simp add: enc des_decode_text.simps [of _ "[]"])
    then show ?thesis
      using des_crypt_reverse [OF assms len] des_tail_eq [of bs] False by (intro exI [of _ "7 - length bs"]) simp
  qed
qed

lemma length_des_encode_text: "length (des_encode_text SK bs) = 8 * (length bs div 8 + 1)"
proof (induction "length bs" arbitrary: bs rule: less_induct)
  case less
  then show ?case
    using less [of "drop 8 bs"] by (subst des_encode_text.simps) (auto simp: le_div_geq)
qed

lemma des_padding_zeros:
  assumes "z \<le> 7" "j \<le> z"
  shows "des_padding (t @ 0x80 # replicate z 0) (int (length t + j)) p = Inr (p + j)"
  using assms(2)
proof (induction j arbitrary: p)
  case 0
  then show ?case
    using assms(1) by (subst des_padding.simps) (simp add: nth_append)
next
  case (Suc j)
  have "des_padding (t @ 0x80 # replicate z 0) (int (length t + Suc j)) p =
      des_padding (t @ 0x80 # replicate z 0) (int (length t + j)) (p + 1)"
    using Suc.prems assms(1) by (subst des_padding.simps) (auto simp: nth_append nat_add_distrib)
  then show ?case
    using Suc by simp
qed

lemma des_padding_fault:
  "des_padding buffer i p = Inl (C_Fault f) \<Longrightarrow> i < int (length buffer) \<Longrightarrow> 0 \<le> i \<or> length buffer \<le> 8 \<Longrightarrow>
     f = Out_Of_Bounds \<and> length buffer \<le> 8 \<and> (\<forall>j. int j \<le> i \<longrightarrow> buffer ! j = 0)"
proof (induction buffer i p rule: des_padding.induct)
  case (1 buffer i p)
  show ?case
  proof (cases "0 \<le> i \<and> int (length buffer) - 8 \<le> i \<and> buffer ! nat i = 0")
    case True
    have step: "des_padding buffer (i - 1) (p + 1) = Inl (C_Fault f)"
      using 1(2,3) True by (subst (asm) des_padding.simps) (auto split: if_splits)
    have IH: "f = Out_Of_Bounds \<and> length buffer \<le> 8 \<and> (\<forall>j. int j \<le> i - 1 \<longrightarrow> buffer ! j = 0)"
      by (rule 1(1)) (use True 1(3) step in auto)
    have "buffer ! j = 0" if "int j \<le> i" for j
      using IH True that by (cases "int j = i") auto
    then show ?thesis
      using IH by blast
  next
    case False
    then show ?thesis
      using 1(2-4) by (subst (asm) des_padding.simps) (auto simp: luaL_error_def split: if_splits)
  qed
qed

lemma des_padding_all_zero:
  "i < int (length buffer) \<Longrightarrow> length buffer \<le> 8 \<Longrightarrow> -1 \<le> i \<Longrightarrow> \<forall>x \<in> set buffer. x = 0 \<Longrightarrow>
     des_padding buffer i p = Inl (C_Fault Out_Of_Bounds)"
proof (induction buffer i p rule: des_padding.induct)
  case (1 buffer i p)
  show ?case
  proof (cases "i < 0")
    case True
    then show ?thesis
      by (subst des_padding.simps) auto
  next
    case False
    then have "buffer ! nat i = 0" "int (length buffer) - 8 \<le> i"
      using 1(2,3,5) by (auto simp: nth_mem)
    moreover from this have "des_padding buffer (i - 1) (p + 1) = Inl (C_Fault Out_Of_Bounds)"
      using 1 False by auto
    ultimately show ?thesis
      using 1(2) False by (subst des_padding.simps) auto
  qed
qed

text \<open>C26: With an 8-byte key \<open>ldesdecode\<close> returns exactly the text given to \<open>ldesencode\<close>, for
  texts of every length; the encoded text is a whole number of 8-byte blocks and longer than the text.\<close>

theorem ldesdecode_roundtrip:
  assumes "length key = 8"
  shows "\<exists>c. ldesencode key msg = Inr c \<and> length c = 8 * (length msg div 8 + 1) \<and> ldesdecode key c = Inr msg"
proof -
  let ?SK = "des_main_ks key"
  let ?c = "des_encode_text ?SK msg"
  have four: "length ?SK mod 4 = 0"
    by simp
  obtain z where z: "z \<le> 7" "des_decode_text (reverse_schedule ?SK) ?c = msg @ 0x80 # replicate z 0"
    using des_text_reverse [OF four, of msg] by (auto simp: reverse_schedule_eq)
  have lc: "length ?c = 8 * (length msg div 8 + 1)"
    by (rule length_des_encode_text)
  then have len: "length ?c = length msg + z + 1"
    using length_des_decode_text [of ?c "reverse_schedule ?SK"] z(2) by simp
  then have i: "int (length ?c) - 1 = int (length msg + z)"
    by simp
  have m: "length ?c mod 8 = 0" "length ?c \<noteq> 0"
    by (simp_all add: lc)
  have "des_padding (msg @ 0x80 # replicate z 0) (int (length ?c) - 1) 1 = Inr (1 + z)"
    unfolding i by (rule des_padding_zeros [OF z(1)]) simp
  then have "ldesdecode key ?c = Inr msg"
    using assms z(1) m by (simp add: ldesdecode_def des_key_def Let_def z(2) len)
  then show ?thesis
    using assms lc by (simp add: ldesencode_def des_key_def)
qed

theorem ldesdecode_roundtrip_witness:
  "\<exists>c. ldesencode [1, 2, 3, 4, 5, 6, 7, 8] [0x80, 0, 0] = Inr c \<and> length c = 8 \<and>
     ldesdecode [1, 2, 3, 4, 5, 6, 7, 8] c = Inr [0x80, 0, 0]"
  using ldesdecode_roundtrip [of "[1, 2, 3, 4, 5, 6, 7, 8]" "[0x80, 0, 0]"] by simp

text \<open>\<open>ldesdecode\<close> accesses memory outside its buffer for exactly one input per key: the
  encryption of eight zero bytes, where the signed loop index goes below zero in a comparison with an
  unsigned length. Every other malformed input raises a Lua error.\<close>

theorem ldesdecode_faults:
  "ldesdecode key msg = Inl (C_Fault f) \<longleftrightarrow>
     f = Out_Of_Bounds \<and> length key = 8 \<and> msg = des_crypt (des_main_ks key) (replicate 8 0)"
proof -
  let ?SK = "des_main_ks key"
  have RS: "reverse_schedule ?SK = pairs_rev ?SK"
    by (simp add: reverse_schedule_eq)
  have one: "des_decode_text K b = des_crypt K b" if "length b = 8" for K b
    using des_decode_append [OF that, of K "[]"] by (simp add: des_decode_text.simps [of _ "[]"])
  show ?thesis
  proof
    assume f: "ldesdecode key msg = Inl (C_Fault f)"
    let ?b = "des_decode_text (pairs_rev ?SK) msg"
    have len: "length key = 8" "length msg mod 8 = 0" "length msg \<noteq> 0" and pad: "des_padding ?b (int (length msg) - 1) 1 = Inl (C_Fault f)"
      using f RS by (auto simp: ldesdecode_def des_key_def luaL_error_def Let_def res_bind_def split: if_splits sum.splits)
    have lb: "length ?b = length msg"
      by (rule length_des_decode_text [OF len(2)])
    have z: "f = Out_Of_Bounds" "length ?b \<le> 8" "\<forall>j. int j \<le> int (length msg) - 1 \<longrightarrow> ?b ! j = 0"
      using des_padding_fault [OF pad] len lb by auto
    have eight: "length msg = 8"
      using len(2,3) z(2) lb by (auto simp: mod_if split: if_splits)
    have "?b = replicate 8 0"
      using z(3) lb eight by (intro nth_equalityI) auto
    then have "des_crypt (pairs_rev ?SK) msg = replicate 8 0"
      using one [OF eight] by simp
    then have "msg = des_crypt ?SK (replicate 8 0)"
      using des_crypt_reverse [of "pairs_rev ?SK" msg] eight by (simp add: pairs_rev_twice)
    then show "f = Out_Of_Bounds \<and> length key = 8 \<and> msg = des_crypt ?SK (replicate 8 0)"
      using z(1) len(1) by simp
  next
    assume r: "f = Out_Of_Bounds \<and> length key = 8 \<and> msg = des_crypt ?SK (replicate 8 0)"
    have "des_decode_text (pairs_rev ?SK) msg = replicate 8 0"
      using r one [of msg] des_crypt_reverse [of ?SK "replicate 8 0"] by simp
    then show "ldesdecode key msg = Inl (C_Fault f)"
      using r des_padding_all_zero [of 7 "replicate 8 0" 1]
      by (simp add: ldesdecode_def des_key_def RS Let_def)
  qed
qed

end
