(* ===== verification/Crypt.thy ===== *)
theory Crypt
  imports Des
begin

text \<open>
  More of \<open>lua-crypt.c\<close>: the key hash, hexadecimal text, the MD5-like \<open>hmac\<close>, the Diffie-Hellman
  exchange over the biggest 64-bit prime and \<open>randomkey\<close>. Strings of Lua are byte lists;
  the characters of the result texts are the bytes of the source's literals. \<open>random\<close> is an argument.
  Texts are shorter than 2^31 bytes, so the \<open>int\<close> counters do not overflow.
\<close>

section \<open>Random keys and the key hash\<close>

text \<open>The eight values are those of \<open>random() & 0xff\<close>.\<close>

definition lrandomkey :: "bytes \<Rightarrow> bytes" where
  "lrandomkey rnd = (let tmp = take 8 rnd; x = fold (\<lambda>t x. x XOR t) tmp 0
     in if x = 0 then tmp[0 := tmp ! 0 OR 1] else tmp)"

fun Hash_loop :: "bytes \<Rightarrow> u32 \<Rightarrow> u32 \<Rightarrow> u32 \<times> u32" where
  "Hash_loop [] djb js = (djb, js)"
| "Hash_loop (c # str) djb js =
     Hash_loop str (djb + (push_bit 5 djb + ucast c)) (js XOR (push_bit 5 js + ucast c + drop_bit 2 js))"

definition Hash :: "bytes \<Rightarrow> bytes" where
  "Hash str = (case Hash_loop str 5381 1315423911 of (djb, js) \<Rightarrow>
     map (\<lambda>n. ucast (drop_bit n djb AND 0xff)) [0, 8, 16, 24] @ map (\<lambda>n. ucast (drop_bit n js AND 0xff)) [0, 8, 16, 24])"

definition lhashkey :: "bytes \<Rightarrow> bytes" where
  "lhashkey key = Hash key"

section \<open>Hexadecimal text\<close>

definition hex_digits :: bytes where
  "hex_digits = map of_char ''0123456789abcdef''"

fun ltohex :: "bytes \<Rightarrow> bytes" where
  "ltohex [] = []"
| "ltohex (t # ts) = hex_digits ! unat (drop_bit 4 t) # hex_digits ! unat (t AND 0xf) # ltohex ts"

text \<open>The macro \<open>HEX\<close>: \<open>char\<close> is signed, the result is stored in a \<open>uint8_t\<close>.\<close>

definition HEX :: "byte \<Rightarrow> byte" where
  "HEX c = (if 48 \<le> sint c \<and> sint c \<le> 57 then c - 48 else c - 97 + 10)"

definition hex_pair :: "byte \<Rightarrow> byte \<Rightarrow> byte lua" where
  "hex_pair a b = (let hi = HEX a; low = HEX b in
     if hi > 16 \<or> low > 16 then luaL_error ''Invalid hex text'' else Inr (push_bit 4 hi OR low))"

text \<open>The byte after the last one of a Lua string is NUL; an odd last digit is paired with it.\<close>

fun fromhex_loop :: "bytes \<Rightarrow> bytes lua" where
  "fromhex_loop [] = Inr []"
| "fromhex_loop [a] = res_bind (hex_pair a 0) (\<lambda>v. Inr [v])"
| "fromhex_loop (a # b # ts) = res_bind (hex_pair a b) (\<lambda>v. res_bind (fromhex_loop ts) (\<lambda>rest. Inr (v # rest)))"

definition lfromhex :: "bytes \<Rightarrow> bytes lua" where
  "lfromhex s = (if length s AND 2 \<noteq> 0 then luaL_error ''Invalid hex text size'' else fromhex_loop s)"

section \<open>The 64-bit message authentication code\<close>

definition hmac_k :: "u32 list" where
  "hmac_k = [
    0xd76aa478, 0xe8c7b756, 0x242070db, 0xc1bdceee, 0xf57c0faf, 0x4787c62a, 0xa8304613, 0xfd469501,
    0x698098d8, 0x8b44f7af, 0xffff5bb1, 0x895cd7be, 0x6b901122, 0xfd987193, 0xa679438e, 0x49b40821,
    0xf61e2562, 0xc040b340, 0x265e5a51, 0xe9b6c7aa, 0xd62f105d, 0x02441453, 0xd8a1e681, 0xe7d3fbc8,
    0x21e1cde6, 0xc33707d6, 0xf4d50d87, 0x455a14ed, 0xa9e3e905, 0xfcefa3f8, 0x676f02d9, 0x8d2a4c8a,
    0xfffa3942, 0x8771f681, 0x6d9d6122, 0xfde5380c, 0xa4beea44, 0x4bdecfa9, 0xf6bb4b60, 0xbebfbc70,
    0x289b7ec6, 0xeaa127fa, 0xd4ef3085, 0x04881d05, 0xd9d4d039, 0xe6db99e5, 0x1fa27cf8, 0xc4ac5665,
    0xf4292244, 0x432aff97, 0xab9423a7, 0xfc93a039, 0x655b59c3, 0x8f0ccc92, 0xffeff47d, 0x85845dd1,
    0x6fa87e4f, 0xfe2ce6e0, 0xa3014314, 0x4e0811a1, 0xf7537e82, 0xbd3af235, 0x2ad7d2bb, 0xeb86d391]"

definition hmac_r :: "nat list" where
  "hmac_r = [
    7, 12, 17, 22, 7, 12, 17, 22, 7, 12, 17, 22, 7, 12, 17, 22,
    5, 9, 14, 20, 5, 9, 14, 20, 5, 9, 14, 20, 5, 9, 14, 20,
    4, 11, 16, 23, 4, 11, 16, 23, 4, 11, 16, 23, 4, 11, 16, 23,
    6, 10, 15, 21, 6, 10, 15, 21, 6, 10, 15, 21, 6, 10, 15, 21]"


definition LEFTROTATE :: "u32 \<Rightarrow> nat \<Rightarrow> u32" where
  "LEFTROTATE x c = push_bit c x OR drop_bit (32 - c) x"

definition hmac_step :: "u32 list \<Rightarrow> nat \<Rightarrow> u32 \<times> u32 \<times> u32 \<times> u32 \<Rightarrow> u32 \<times> u32 \<times> u32 \<times> u32" where
  "hmac_step w i = (\<lambda>(a, b, c, d).
    (let (f, g) = (if i < 16 then ((b AND c) OR (NOT b AND d), i)
                   else if i < 32 then ((d AND b) OR (NOT d AND c), (5 * i + 1) mod 16)
                   else if i < 48 then (b XOR c XOR d, (3 * i + 5) mod 16)
                   else (c XOR (b OR NOT d), (7 * i) mod 16))
     in (d, b + LEFTROTATE (a + f + hmac_k ! i + w ! g) (hmac_r ! i), b, c)))"

definition hmac :: "u32 \<times> u32 \<Rightarrow> u32 \<times> u32 \<Rightarrow> u32 \<times> u32" where
  "hmac x y =
    (let w = concat (replicate 4 [snd x, fst x, snd y, fst y]) in
     case fold (hmac_step w) [0..<64] (0x67452301, 0xefcdab89, 0x98badcfe, 0x10325476) of
       (a, b, c, d) \<Rightarrow> (c XOR d, a XOR b))"

definition words_of :: "bytes \<Rightarrow> u32 \<times> u32" where
  "words_of x = (le_word (take 4 x), le_word (take 4 (drop 4 x)))"

definition read64 :: "bytes \<Rightarrow> bytes \<Rightarrow> ((u32 \<times> u32) \<times> (u32 \<times> u32)) lua" where
  "read64 x y = (if length x \<noteq> 8 then luaL_error ''Invalid uint64 x''
     else if length y \<noteq> 8 then luaL_error ''Invalid uint64 y''
     else Inr (words_of x, words_of y))"

definition pushqword :: "u32 \<times> u32 \<Rightarrow> bytes" where
  "pushqword result = le_bytes 4 (fst result) @ le_bytes 4 (snd result)"

definition lhmac64 :: "bytes \<Rightarrow> bytes \<Rightarrow> bytes lua" where
  "lhmac64 x y = res_bind (read64 x y) (\<lambda>(x, y). Inr (pushqword (hmac x y)))"

definition lhmac_hash :: "bytes \<Rightarrow> bytes \<Rightarrow> bytes lua" where
  "lhmac_hash x s = (if length x \<noteq> 8 then luaL_error ''Invalid uint64 key''
     else Inr (pushqword (hmac (words_of (Hash s)) (words_of x))))"

section \<open>The key exchange\<close>

definition P :: u64 where
  "P = 0xffffffffffffffc5"

function mul_mod_p_loop :: "u64 \<Rightarrow> u64 \<Rightarrow> u64 \<Rightarrow> u64" where
  "mul_mod_p_loop m a b =
    (if b = 0 then m
     else let m = (if b AND 1 \<noteq> 0 then (let t = P - a in if m \<ge> t then m - t else m + a) else m);
              a = (if a \<ge> P - a then a * 2 - P else a * 2)
          in mul_mod_p_loop m a (drop_bit 1 b))"
  by pat_completeness auto

lemma unat_half: "unat (drop_bit 1 (b :: u64)) = unat b div 2"
  using unat_drop_div [of 1 b] by simp

lemma unat_half_less: "b \<noteq> 0 \<Longrightarrow> unat (drop_bit 1 (b :: u64)) < unat b"
  unfolding unat_half by (simp add: unat_gt_0)

termination mul_mod_p_loop
proof (relation "measure (\<lambda>(m, a, b). unat b)")
  fix m a b x y :: u64
  assume "b \<noteq> 0"
  then show "((x, y, drop_bit 1 b), m, a, b) \<in> measure (\<lambda>(m, a, b). unat b)"
    unfolding in_measure prod.case by (rule unat_half_less)
qed simp

declare mul_mod_p_loop.simps [simp del]

definition mul_mod_p :: "u64 \<Rightarrow> u64 \<Rightarrow> u64" where
  "mul_mod_p a b = mul_mod_p_loop 0 a b"

text \<open>For the exponent 0 the recursion of the source does not end; its callers exclude it.\<close>

partial_function (option) pow_mod_p :: "u64 \<Rightarrow> u64 \<Rightarrow> u64 option" where
  "pow_mod_p a b =
    (if b = 1 then Some a
     else Option.bind (pow_mod_p a (drop_bit 1 b)) (\<lambda>t.
       let t = mul_mod_p t t in Some (if b mod 2 \<noteq> 0 then mul_mod_p t a else t)))"

declare pow_mod_p.simps [code]

definition powmodp :: "u64 \<Rightarrow> u64 \<Rightarrow> u64 option" where
  "powmodp a b = pow_mod_p (if a > P then a mod P else a) b"

definition push64 :: "u64 \<Rightarrow> bytes" where
  "push64 r = map (\<lambda>n. ucast (drop_bit n r AND 0xff)) [0, 8, 16, 24, 32, 40, 48, 56]"

definition join64 :: "u32 \<times> u32 \<Rightarrow> u64" where
  "join64 x = ucast (fst x) OR push_bit 32 (ucast (snd x))"

definition ldhsecret :: "bytes \<Rightarrow> bytes \<Rightarrow> bytes lua option" where
  "ldhsecret x y = res_obind (Some (read64 x y)) (\<lambda>(x, y).
    let xx = join64 x; yy = join64 y in
    if xx = 0 \<or> yy = 0 then Some (luaL_error (''Can'' @ CHR 0x27 # ''t be 0''))
    else map_option (\<lambda>r. Inr (push64 r)) (powmodp xx yy))"

definition G :: u64 where
  "G = 5"

definition ldhexchange :: "bytes \<Rightarrow> bytes lua option" where
  "ldhexchange x = (if length x \<noteq> 8 then Some (luaL_error ''Invalid dh uint64 key'')
    else let x64 = join64 (words_of x) in
      if x64 = 0 then Some (luaL_error (''Can'' @ CHR 0x27 # ''t be 0''))
      else map_option (\<lambda>r. Inr (push64 r)) (powmodp G x64))"

section \<open>Hexadecimal text is read back\<close>

lemma hex_digits_HEX:
  assumes "n < 16"
  shows "HEX (hex_digits ! n) = of_nat n"
proof -
  have "list_all (\<lambda>n. HEX (hex_digits ! n) = of_nat n) [0..<16]"
    by code_simp
  then show ?thesis
    using assms by (simp add: list_all_iff)
qed

lemma hex_pair_digits: "hex_pair (hex_digits ! unat (drop_bit 4 t)) (hex_digits ! unat (t AND 0xf)) = Inr t"
proof -
  have m: "t AND 0xf = t AND mask 4"
    by (simp add: mask_eq_exp_minus_1)
  have hi: "unat (drop_bit 4 t) < 16"
    using unsigned_less [of t, where 'a = nat] unfolding unat_drop_div by simp
  have lo: "unat (t AND 0xf) < 16"
    unfolding m unat_and_mask by simp
  have "push_bit 4 (drop_bit 4 t) OR (t AND 0xf) = t"
    unfolding m by (rule bit_word_eqI) (auto simp: bit_or_iff bit_push_bit_iff bit_drop_bit_eq bit_and_iff bit_mask_iff)
  moreover have "\<not> 16 < drop_bit 4 t" "\<not> 16 < t AND 0xf"
    using hi lo by (simp_all add: word_less_nat_alt)
  ultimately show ?thesis
    by (simp add: hex_pair_def hex_digits_HEX [OF hi] hex_digits_HEX [OF lo] Let_def)
qed

lemma fromhex_ltohex: "fromhex_loop (ltohex ts) = Inr ts"
  by (induction ts) (simp_all add: hex_pair_digits)

lemma length_ltohex: "length (ltohex ts) = 2 * length ts"
  by (induction ts) simp_all

lemma twice_and_2: "(2 * n) AND (2 :: nat) \<noteq> 0 \<longleftrightarrow> odd n"
  using and_exp_eq_0_iff_not_bit [of "2 * n" 1] by (simp add: bit_double_iff bit_0)

text \<open>\<open>hexdecode\<close> reverses \<open>hexencode\<close> for texts with an even number of bytes. For an odd number
  it refuses the text that \<open>hexencode\<close> produced: the check of the length tests bit 1 where the
  parity is bit 0.\<close>

theorem lfromhex_ltohex:
  "lfromhex (ltohex ts) = (if even (length ts) then Inr ts else luaL_error ''Invalid hex text size'')"
  using twice_and_2 [of "length ts"] by (simp add: lfromhex_def length_ltohex fromhex_ltohex)

text \<open>Beside the digits \<open>hexdecode\<close> accepts other characters: the limit of a digit is 16 and not
  15, and the characters from \<open>W\<close> to the backquote, which precede \<open>a\<close>, count as 0 to 9. So distinct texts
  that are not hexadecimal decode without an error.\<close>

theorem lfromhex_accepts:
  "lfromhex (map of_char ''gg00'') = Inr [0x10, 0] \<and> lfromhex (map of_char ''WX_a'') = Inr [0x01, 0x8a]"
  by code_simp

section \<open>Powers modulo the prime\<close>

abbreviation p64 :: nat where
  "p64 \<equiv> unat P"

lemma p64_eq: "p64 = 0xffffffffffffffc5"
  by (simp add: P_def)

lemma unat_P_minus: "unat a \<le> p64 \<Longrightarrow> unat (P - a) = p64 - unat a"
  by (simp add: unat_sub word_le_nat_alt)

lemma mul_step:
  assumes "unat m < p64" "unat a \<le> p64"
  defines "m' \<equiv> (let t = P - a in if m \<ge> t then m - t else m + a)"
  shows "unat m' < p64 \<and> (\<exists>i. unat m + unat a = unat m' + i * p64)"
proof (cases "P - a \<le> m")
  case True
  then have "unat m' = unat m - (p64 - unat a)"
    by (simp add: m'_def unat_sub unat_P_minus [OF assms(2)])
  moreover have "p64 - unat a \<le> unat m"
    using True unat_P_minus [OF assms(2)] by (simp add: word_le_nat_alt)
  ultimately show ?thesis
    using assms(1,2) by (intro conjI exI [of _ 1]) linarith+
next
  case False
  then have lt: "unat m < p64 - unat a"
    using unat_P_minus [OF assms(2)] by (simp add: word_le_nat_alt)
  then have "unat m + unat a < 2 ^ 64"
    by (simp add: p64_eq)
  then have "unat m' = unat m + unat a"
    using False unat_add_lem [of m a] by (simp add: m'_def)
  then show ?thesis
    using lt by (intro conjI exI [of _ 0]) linarith+
qed

lemma double_step:
  assumes "unat a \<le> p64"
  defines "a' \<equiv> (if a \<ge> P - a then a * 2 - P else a * 2)"
  shows "unat a' \<le> p64 \<and> (\<exists>j. 2 * unat a = unat a' + j * p64)"
proof (cases "P - a \<le> a")
  case True
  have "a * 2 - P = a - (P - a)"
    by (simp add: algebra_simps)
  then have e: "a' = a - (P - a)"
    using True by (simp only: a'_def if_True)
  have "unat a' = unat a - (p64 - unat a)"
    unfolding e using unat_sub [OF True] by (simp only: unat_P_minus [OF assms(1)])
  moreover have "p64 - unat a \<le> unat a"
    using True unat_P_minus [OF assms(1)] by (simp add: word_le_nat_alt)
  ultimately show ?thesis
    using assms(1) by (intro conjI exI [of _ 1]) linarith+
next
  case False
  then have lt: "unat a < p64 - unat a"
    using unat_P_minus [OF assms(1)] by (simp add: word_le_nat_alt)
  then have "unat a + unat a < 2 ^ 64"
    by (simp add: p64_eq)
  then have "unat a' = 2 * unat a"
    using False unat_add_lem [of a a] by (simp add: a'_def mult_2_right)
  then show ?thesis
    using lt by (intro conjI exI [of _ 0]) linarith+
qed

lemma odd_unat: "((b :: u64) AND 1 \<noteq> 0) = odd (unat b)"
  using and_exp_eq_0_iff_not_bit [of b 0] bit_unsigned_iff [of b 0, where 'a = nat] by (simp add: bit_0)

lemma unat_eq_iff: "unat (a :: u64) = unat b \<longleftrightarrow> a = b"
  by (simp add: word_unat_eq_iff)

lemma mul_mod_p_loop_correct:
  "unat m < p64 \<Longrightarrow> unat a \<le> p64 \<Longrightarrow> unat (mul_mod_p_loop m a b) = (unat m + unat a * unat b) mod p64"
proof (induction m a b rule: mul_mod_p_loop.induct)
  case (1 m a b)
  show ?case
  proof (cases "b = 0")
    case True
    then show ?thesis
      using 1(2) by (subst mul_mod_p_loop.simps) simp
  next
    case False
    define m' where "m' = (if b AND 1 \<noteq> 0 then (let t = P - a in if m \<ge> t then m - t else m + a) else m)"
    define a' where "a' = (if a \<ge> P - a then a * 2 - P else a * 2)"
    have odd: "(b AND 1 \<noteq> 0) = odd (unat b)"
      by (rule odd_unat)
    have m': "unat m' < p64 \<and> (\<exists>i. unat m + unat a * (unat b mod 2) = unat m' + i * p64)"
      using mul_step [OF 1(2,3)] 1(2) odd by (auto simp: m'_def odd_iff_mod_2_eq_one)
    then obtain i where i: "unat m + unat a * (unat b mod 2) = unat m' + i * p64"
      by blast
    have a': "unat a' \<le> p64 \<and> (\<exists>j. 2 * unat a = unat a' + j * p64)"
      using double_step [OF 1(3)] by (simp add: a'_def)
    then obtain j where j: "2 * unat a = unat a' + j * p64"
      by blast
    have step: "mul_mod_p_loop m a b = mul_mod_p_loop m' a' (drop_bit 1 b)"
      using False by (subst mul_mod_p_loop.simps) (simp only: m'_def a'_def Let_def if_False)
    have "unat m + unat a * unat b = unat m + unat a * (unat b mod 2) + (2 * unat a) * (unat b div 2)"
      by (metis (no_types, lifting) add.assoc add.commute distrib_left mult.assoc mult.commute mult_div_mod_eq)
    also have "\<dots> = (unat m' + unat a' * (unat b div 2)) + (i + j * (unat b div 2)) * p64"
      unfolding i j by (simp add: algebra_simps)
    finally have "(unat m + unat a * unat b) mod p64 = (unat m' + unat a' * (unat b div 2)) mod p64"
      by simp
    moreover have "unat (mul_mod_p_loop m' a' (drop_bit 1 b)) = (unat m' + unat a' * unat (drop_bit 1 b)) mod p64"
      unfolding m'_def a'_def
      by (rule 1(1) [OF False refl refl]) (use m' a' in \<open>simp_all only: m'_def a'_def\<close>)
    ultimately show ?thesis
      unfolding step unat_half by simp
  qed
qed

lemma mul_mod_p_correct: "unat a \<le> p64 \<Longrightarrow> unat (mul_mod_p a b) = (unat a * unat b) mod p64"
  using mul_mod_p_loop_correct [of 0 a b] by (simp add: mul_mod_p_def p64_eq)

lemma pow_mod_p_correct:
  assumes "unat a \<le> p64" "b \<noteq> 0"
  shows "\<exists>r. pow_mod_p a b = Some r \<and> unat r \<le> p64 \<and> unat r mod p64 = unat a ^ unat b mod p64 \<and>
    (b = 1 \<longrightarrow> r = a) \<and> (b \<noteq> 1 \<longrightarrow> unat r < p64)"
  using assms(2)
proof (induction "unat b" arbitrary: b rule: less_induct)
  case less
  show ?case
  proof (cases "b = 1")
    case True
    then show ?thesis
      using assms(1) by (subst pow_mod_p.simps) simp
  next
    case False
    have "unat b \<noteq> 0" "unat b \<noteq> 1"
      using less(2) False unat_eq_iff [of b 0] unat_eq_iff [of b 1] by simp_all
    then have "unat b div 2 \<noteq> 0"
      by auto
    then have nz: "drop_bit 1 b \<noteq> 0"
      by (metis unat_0 unat_half)
    obtain t where t: "pow_mod_p a (drop_bit 1 b) = Some t" "unat t \<le> p64" "unat t mod p64 = unat a ^ (unat b div 2) mod p64"
      using less(1) [OF unat_half_less [OF less(2)] nz] unat_half [of b] by auto
    let ?s = "mul_mod_p t t"
    have s: "unat ?s = unat a ^ (2 * (unat b div 2)) mod p64"
    proof -
      have "unat ?s = (unat t mod p64) * (unat t mod p64) mod p64"
        using mul_mod_p_correct [OF t(2), of t] by (simp only: mod_mult_eq)
      also have "\<dots> = unat a ^ (unat b div 2) * unat a ^ (unat b div 2) mod p64"
        unfolding t(3) by (rule mod_mult_eq)
      finally show ?thesis
        by (simp only: mult_2 power_add)
    qed
    then have sp: "unat ?s < p64"
      by (simp add: p64_eq)
    have sa: "unat (mul_mod_p ?s a) = unat a ^ (2 * (unat b div 2) + 1) mod p64"
      using mul_mod_p_correct [of ?s a] s sp by (simp add: mod_mult_left_eq mod_mult_right_eq mult.commute)
    have bm: "b mod 2 \<noteq> 0 \<longleftrightarrow> odd (unat b)"
      using odd_unat [of b] by (simp add: and_one_eq)
    let ?r = "if b mod 2 \<noteq> 0 then mul_mod_p ?s a else ?s"
    have r: "unat ?r = unat a ^ unat b mod p64"
      using s sa bm by (cases "odd (unat b)") simp_all
    moreover have "pow_mod_p a b = Some ?r"
      using False t(1) by (simp add: pow_mod_p.simps [of a b] Let_def)
    ultimately show ?thesis
      using False by (simp add: p64_eq)
  qed
qed

lemma powmodp_result:
  assumes "b \<noteq> 0"
  shows "\<exists>r. powmodp a b = Some r \<and> unat r = (if a = P \<and> b = 1 then p64 else unat a ^ unat b mod p64)"
proof -
  let ?a = "if a > P then a mod P else a"
  have le: "unat ?a \<le> p64" and m: "unat ?a mod p64 = unat a mod p64"
    by (simp_all add: unat_mod word_less_nat_alt p64_eq)
  obtain r where r: "pow_mod_p ?a b = Some r" "unat r mod p64 = unat ?a ^ unat b mod p64" "b = 1 \<longrightarrow> r = ?a" "b \<noteq> 1 \<longrightarrow> unat r < p64"
    using pow_mod_p_correct [OF le assms] by blast
  have pm: "unat ?a ^ unat b mod p64 = unat a ^ unat b mod p64"
    using m by (metis power_mod)
  show ?thesis
  proof (cases "b = 1")
    case True
    then have "unat r = (if a = P then p64 else unat a mod p64)"
      using r(3) le m by (cases "a = P") (auto simp: unat_mod word_less_nat_alt not_less p64_eq word_unat_eq_iff mod_less dest!: order.not_eq_order_implies_strict)
    then show ?thesis
      using r(1) True by (simp add: powmodp_def)
  next
    case False
    then show ?thesis
      using r pm by (simp add: powmodp_def)
  qed
qed

lemma bit_le_word8: "length bs = 8 \<Longrightarrow> bit (le_word bs :: u64) i \<longleftrightarrow> i < 64 \<and> bit (bs ! (i div 8)) (i mod 8)"
  by (auto simp: bit_le_word)

lemma join64_words: "length bs = 8 \<Longrightarrow> join64 (words_of bs) = le_word bs"
proof (rule bit_word_eqI)
  fix i
  assume l: "length bs = 8" and "i < LENGTH(64)"
  then have i: "i < 64"
    by simp
  have "bit (join64 (words_of bs)) i \<longleftrightarrow> bit (fst (words_of bs)) i \<or> 32 \<le> i \<and> bit (snd (words_of bs)) (i - 32)"
    using i by (auto simp: join64_def bit_or_iff bit_push_bit_iff bit_ucast_iff dest: bit_imp_le_length)
  also have "\<dots> \<longleftrightarrow> bit (bs ! (i div 8)) (i mod 8)"
  proof (cases "i < 32")
    case True
    then have "i div 8 < 4"
      by presburger
    then show ?thesis
      using l True by (simp add: words_of_def bit_le_word)
  next
    case False
    then obtain j where j: "i = j + 32"
      by (metis le_add_diff_inverse2 not_less)
    have "(j + 4 * 8) div 8 = j div 8 + 4" "(j + 4 * 8) mod 8 = j mod 8"
      by (simp_all only: div_mult_self1 mod_mult_self1 numeral_neq_zero simp_thms)
    then have "(j + 32) div 8 = j div 8 + 4" "(j + 32) mod 8 = j mod 8"
      by simp_all
    moreover have "j < 32" "j div 8 < 4"
      using i j by (simp_all add: less_mult_imp_div_less)
    ultimately show ?thesis
      using l by (simp add: words_of_def bit_le_word j add.commute)
  qed
  finally show "bit (join64 (words_of bs)) i = bit (le_word bs :: u64) i"
    using i l by (simp add: bit_le_word8)
qed

lemma ucast_low_byte: "ucast (w AND 0xff) = (ucast (w :: 'a::len word) :: byte)"
proof -
  have "(w AND 0xff) = w AND mask 8"
    by (simp add: mask_eq_exp_minus_1)
  then show ?thesis
    by (intro bit_word_eqI) (auto simp: bit_ucast_iff bit_and_iff bit_mask_iff dest: bit_imp_le_length)
qed

lemma push64_le_bytes: "push64 r = le_bytes 8 r"
  by (simp add: push64_def le_bytes_def byte_at_def ucast_low_byte upt_rec)

lemma length_push64 [simp]: "length (push64 r) = 8"
  by (simp add: push64_le_bytes)

lemma join64_push64: "join64 (words_of (push64 r)) = r"
  by (simp add: join64_words push64_le_bytes)

text \<open>For every exponent but 0 \<open>powmodp\<close> returns and gives \<open>a^b mod P\<close> without overflow,
  with one exception: \<open>P\<close> to the power 1 gives \<open>P\<close>, since the reduction of the base tests \<open>a > P\<close>.\<close>

theorem powmodp_correct:
  assumes "b \<noteq> 0"
  shows "\<exists>r. powmodp a b = Some r \<and> unat r = (if a = P \<and> b = 1 then unat P else unat a ^ unat b mod unat P)"
  using powmodp_result [OF assms] .

theorem powmodp_correct_witness:
  "(\<exists>r. powmodp 3 5 = Some r \<and> unat r = 243) \<and> (\<exists>r. powmodp P 1 = Some r \<and> unat r = unat P)"
  using powmodp_correct [of 5 3] powmodp_correct [of 1 P] by (simp_all add: P_def)

lemma coprime_5: "coprime 5 p64"
proof -
  have "p64 mod 5 = 2"
    by (simp add: p64_eq)
  then have "gcd p64 5 = gcd 5 2"
    by (metis gcd_red_nat)
  moreover have "gcd 5 (2 :: nat) = 1"
    by code_simp
  ultimately have "gcd 5 p64 = 1"
    by (simp only: gcd.commute [of 5 p64])
  then show ?thesis
    by (simp only: coprime_iff_gcd_eq_1)
qed

lemma power_5_nonzero: "5 ^ n mod p64 \<noteq> 0"
proof
  assume "5 ^ n mod p64 = 0"
  then have "p64 dvd 5 ^ n"
    by (rule mod_0_imp_dvd)
  moreover have "coprime (5 ^ n) p64"
    using coprime_5 by (simp only: coprime_power_left_iff simp_thms)
  ultimately have "is_unit p64"
    by (metis coprime_common_divisor dvd_refl)
  then have "p64 = 1"
    by (simp only: nat_dvd_1_iff_1)
  then show False
    unfolding p64_eq by simp
qed

lemma ldhexchange_result:
  assumes "length x = 8" "le_word x \<noteq> (0 :: u64)"
  obtains r where "ldhexchange x = Some (Inr (push64 r))" "unat r = 5 ^ unat (le_word x :: u64) mod p64"
proof -
  obtain r where r: "powmodp G (le_word x) = Some r" "unat r = 5 ^ unat (le_word x :: u64) mod p64"
    using powmodp_result [OF assms(2), of G] by (auto simp: G_def P_def)
  show ?thesis
    by (rule that [OF _ r(2)]) (use r(1) assms in \<open>simp add: ldhexchange_def join64_words Let_def\<close>)
qed

lemma ldhsecret_result:
  assumes "length x = 8" "le_word x \<noteq> (0 :: u64)" "unat a = 5 ^ n mod p64"
  obtains r where "ldhsecret (push64 a) x = Some (Inr (push64 r))" "unat r = 5 ^ (n * unat (le_word x :: u64)) mod p64"
proof -
  have "unat a < p64"
    unfolding assms(3) by (simp add: p64_eq)
  then have "a \<noteq> P"
    by auto
  then obtain r where r: "powmodp a (le_word x) = Some r" "unat r = unat a ^ unat (le_word x :: u64) mod p64"
    using powmodp_result [OF assms(2), of a] by auto
  have "a \<noteq> 0"
    using assms(3) power_5_nonzero [of n] by auto
  then show ?thesis
    by (intro that [of r])
      (use r assms in \<open>simp_all add: ldhsecret_def read64_def join64_words join64_push64 Let_def power_mod power_mult\<close>)
qed

text \<open>Diffie and Hellman's exchange: two parties whose 8-byte secrets are not zero each send the
  result of \<open>dhexchange\<close>; \<open>dhsecret\<close> of the other's value and the own secret returns on both sides,
  with the same key, \<open>5^(xy) mod P\<close>.\<close>

theorem dh_agreement:
  assumes "length x = 8" "length y = 8" "le_word x \<noteq> (0 :: u64)" "le_word y \<noteq> (0 :: u64)"
  shows "\<exists>a b s. ldhexchange x = Some (Inr a) \<and> ldhexchange y = Some (Inr b) \<and>
    ldhsecret b x = Some (Inr s) \<and> ldhsecret a y = Some (Inr s) \<and>
    unat (le_word s :: u64) = 5 ^ (unat (le_word x :: u64) * unat (le_word y :: u64)) mod unat P"
proof -
  obtain a where a: "ldhexchange x = Some (Inr (push64 a))" "unat a = 5 ^ unat (le_word x :: u64) mod p64"
    by (rule ldhexchange_result [OF assms(1,3)])
  obtain b where b: "ldhexchange y = Some (Inr (push64 b))" "unat b = 5 ^ unat (le_word y :: u64) mod p64"
    by (rule ldhexchange_result [OF assms(2,4)])
  obtain s where s: "ldhsecret (push64 b) x = Some (Inr (push64 s))"
      "unat s = 5 ^ (unat (le_word y :: u64) * unat (le_word x :: u64)) mod p64"
    by (rule ldhsecret_result [OF assms(1,3) b(2)])
  obtain s' where s': "ldhsecret (push64 a) y = Some (Inr (push64 s'))"
      "unat s' = 5 ^ (unat (le_word x :: u64) * unat (le_word y :: u64)) mod p64"
    by (rule ldhsecret_result [OF assms(2,4) a(2)])
  have "s = s'"
    using s(2) s'(2) by (metis mult.commute unsigned_word_eqI)
  then show ?thesis
    using a(1) b(1) s s'(1) by (intro exI [of _ "push64 a"] exI [of _ "push64 b"] exI [of _ "push64 s"])
      (simp add: push64_le_bytes mult.commute)
qed

theorem dh_agreement_witness:
  "\<exists>a b s. ldhexchange [1, 0, 0, 0, 0, 0, 0, 9] = Some (Inr a) \<and> ldhexchange [2, 0, 0, 0, 0, 0, 0, 7] = Some (Inr b) \<and>
    ldhsecret b [1, 0, 0, 0, 0, 0, 0, 9] = Some (Inr s) \<and> ldhsecret a [2, 0, 0, 0, 0, 0, 0, 7] = Some (Inr s)"
proof -
  let ?x = "[1, 0, 0, 0, 0, 0, 0, 9] :: bytes" and ?y = "[2, 0, 0, 0, 0, 0, 0, 7] :: bytes"
  have len: "length ?x = 8" "length ?y = 8"
    by simp_all
  have nz: "le_word ?x \<noteq> (0 :: u64)" "le_word ?y \<noteq> (0 :: u64)"
    by code_simp+
  show ?thesis
    using dh_agreement [OF len nz] by blast
qed

text \<open>\<open>randomkey\<close> returns eight bytes that are not all zero, whatever \<open>random\<close> gives, so its
  result is a valid secret for \<open>dhexchange\<close> and \<open>dhsecret\<close>.\<close>

theorem lrandomkey_nonzero:
  assumes "8 \<le> length rnd"
  shows "length (lrandomkey rnd) = 8 \<and> le_word (lrandomkey rnd) \<noteq> (0 :: u64) \<and>
    (\<exists>a. ldhexchange (lrandomkey rnd) = Some (Inr a))"
proof -
  let ?k = "lrandomkey rnd"
  have l8: "length (take 8 rnd) = 8"
    using assms by simp
  have l: "length ?k = 8"
    using assms by (simp add: lrandomkey_def Let_def)
  have zero: "fold (\<lambda>t x. x XOR t) (replicate n 0) 0 = (0 :: byte)" for n
    by (induction n) simp_all
  let ?t = "take 8 rnd"
  have k: "?k \<noteq> replicate 8 0"
  proof (cases "fold (\<lambda>t x. x XOR t) ?t 0 = 0")
    case True
    have "(?t[0 := ?t ! 0 OR 1]) ! 0 \<noteq> 0"
      using assms by (auto simp: or_eq_0_iff)
    then have "?t[0 := ?t ! 0 OR 1] \<noteq> replicate 8 0"
      by (metis nth_replicate zero_less_numeral)
    then show ?thesis
      using True by (simp add: lrandomkey_def Let_def)
  next
    case False
    then have "?t \<noteq> replicate 8 0"
      using zero [of 8] by metis
    then show ?thesis
      using False by (simp add: lrandomkey_def Let_def)
  qed
  have "?k = le_bytes 8 (le_word ?k :: u64)"
    using le_bytes_le_word [of ?k, where 'a = 64] l by simp
  moreover have "le_bytes 8 (0 :: u64) = replicate 8 0"
    by (rule nth_equalityI) (simp_all add: le_bytes_def byte_at_def)
  ultimately have nz: "le_word ?k \<noteq> (0 :: u64)"
    using k by metis
  obtain r where "ldhexchange ?k = Some (Inr (push64 r))"
    by (rule ldhexchange_result [OF l nz])
  then show ?thesis
    using l nz by blast
qed

theorem lrandomkey_nonzero_witness: "le_word (lrandomkey (replicate 8 0)) \<noteq> (0 :: u64)"
  using lrandomkey_nonzero [of "replicate 8 0"] by simp

end
