(* ===== verification/Base64.thy ===== *)
theory Base64
  imports Prelude
begin

text \<open>
  Base64 and \<open>xor_str\<close> of \<open>lua-crypt.c\<close>. Strings of Lua are byte lists, shorter than 2^31 bytes; the
  decoder skips characters outside the alphabet, and both its errors and its three kinds of groups are
  branches of the definitions.
\<close>

section \<open>Base64\<close>

definition b64_encoding :: bytes where
  "b64_encoding = map of_char ''ABCDEFGHIJKLMNOPQRSTUVWXYZabcdefghijklmnopqrstuvwxyz0123456789+/''"

definition b64_char :: "u32 \<Rightarrow> byte" where
  "b64_char v = b64_encoding ! unat v"

definition b64_pad :: byte where
  "b64_pad = 61"

fun lb64encode :: "bytes \<Rightarrow> bytes" where
  "lb64encode (a # b # c # rest) =
    (let v = push_bit 16 (ucast a) OR push_bit 8 (ucast b) OR ucast c :: u32
     in b64_char (drop_bit 18 v) # b64_char (drop_bit 12 v AND 0x3f) # b64_char (drop_bit 6 v AND 0x3f) #
        b64_char (v AND 0x3f) # lb64encode rest)"
| "lb64encode [a] =
    (let v = ucast a in [b64_char (drop_bit 2 v), b64_char (push_bit 4 (v AND 3)), b64_pad, b64_pad])"
| "lb64encode [a, b] =
    (let v = push_bit 8 (ucast a) OR ucast b
     in [b64_char (drop_bit 10 v), b64_char (drop_bit 4 v AND 0x3f), b64_char (push_bit 2 (v AND 0xf)), b64_pad])"
| "lb64encode [] = []"

definition b64_decoding :: "int list" where
  "b64_decoding = [62,-1,-1,-1,63,52,53,54,55,56,57,58,59,60,61,-1,-1,-1,-2,-1,-1,-1,0,1,2,3,4,5,6,7,8,9,10,11,12,
    13,14,15,16,17,18,19,20,21,22,23,24,25,-1,-1,-1,-1,-1,-1,26,27,28,29,30,31,32,33,34,35,36,37,38,39,40,41,42,43,
    44,45,46,47,48,49,50,51]"

definition b64index :: "byte \<Rightarrow> int" where
  "b64index c = (if c < 43 then -1
     else let c = c - 43 in if unat c \<ge> length b64_decoding then -1 else b64_decoding ! unat c)"

text \<open>Four characters with an index, the others skipped; the number of padding characters among them is
  counted by the caller.\<close>

fun b64_group :: "nat \<Rightarrow> bytes \<Rightarrow> (int list \<times> bytes) lua" where
  "b64_group 0 s = Inr ([], s)"
| "b64_group (Suc n) [] = luaL_error ''Invalid base64 text''"
| "b64_group (Suc n) (x # s) =
    (if b64index x = -1 then b64_group (Suc n) s
     else res_bind (b64_group n s) (\<lambda>(c, s). Inr (b64index x # c, s)))"

definition b64_bytes :: "int list \<Rightarrow> bytes lua" where
  "b64_bytes c = (let w = \<lambda>i. word_of_int (c ! i) :: u32; padding = length [x \<leftarrow> c. x = -2] in
     if padding = 0 then
       (let v = push_bit 18 (w 0) OR push_bit 12 (w 1) OR push_bit 6 (w 2) OR w 3
        in Inr [ucast (drop_bit 16 v), ucast (drop_bit 8 v AND 0xff), ucast (v AND 0xff)])
     else if padding = 1 then
       (if c ! 3 \<noteq> -2 \<or> c ! 2 AND 3 \<noteq> 0 then luaL_error ''Invalid base64 text''
        else let v = push_bit 10 (w 0) OR push_bit 4 (w 1) OR drop_bit 2 (w 2)
             in Inr [ucast (drop_bit 8 v), ucast (v AND 0xff)])
     else if padding = 2 then
       (if c ! 3 \<noteq> -2 \<or> c ! 2 \<noteq> -2 \<or> c ! 1 AND 0xf \<noteq> 0 then luaL_error ''Invalid base64 text''
        else let v = push_bit 2 (w 0) OR drop_bit 4 (w 1) in Inr [ucast v])
     else luaL_error ''Invalid base64 text'')"

lemma b64_group_shorter: "b64_group n s = Inr (c, rest) \<Longrightarrow> 0 < n \<Longrightarrow> length rest < length s"
proof (induction n s arbitrary: c rest rule: b64_group.induct)
  case (3 n x s)
  then show ?case
    by (cases n) (fastforce simp: res_bind_def split: if_splits sum.splits)+
qed (auto simp: luaL_error_def)

function lb64decode :: "bytes \<Rightarrow> bytes lua" where
  "lb64decode s = (if s = [] then Inr []
     else case b64_group 4 s of
       Inl e \<Rightarrow> Inl e
     | Inr (c, rest) \<Rightarrow> res_bind (b64_bytes c) (\<lambda>out. res_bind (lb64decode rest) (\<lambda>more. Inr (out @ more))))"
  by pat_completeness auto
termination
  by (relation "measure length") (auto dest: b64_group_shorter)

declare lb64decode.simps [simp del]

section \<open>Exclusive or of strings\<close>

definition lxor_str :: "bytes \<Rightarrow> bytes \<Rightarrow> bytes lua" where
  "lxor_str s1 s2 = (if s2 = [] then luaL_error (''Can'' @ CHR 0x27 # ''t xor empty string'')
     else Inr (map (\<lambda>i. s1 ! i XOR s2 ! (i mod length s2)) [0..<length s1]))"

section \<open>Base64 is read back\<close>

lemma b64index_char:
  assumes "unat v < 64"
  shows "b64index (b64_char v) = uint v"
proof -
  have "list_all (\<lambda>n. b64index (b64_encoding ! n) = int n) [0..<64]"
    by code_simp
  then have "b64index (b64_encoding ! unat v) = int (unat v)"
    using assms by (simp add: list_all_iff)
  then show ?thesis
    by (simp add: b64_char_def)
qed

lemma b64index_pad: "b64index b64_pad = -2"
  by code_simp

lemma b64_group_cons:
  "b64index x \<noteq> -1 \<Longrightarrow> b64_group (Suc n) (x # s) = res_bind (b64_group n s) (\<lambda>(c, s). Inr (b64index x # c, s))"
  by simp

lemma uint_simps: "uint v \<noteq> -1" "uint v \<noteq> -2"
  using uint_ge_0 [of v] by linarith+

lemma b64_group_chars:
  assumes "unat a < 64" "unat b < 64" "unat c < 64" "unat d < 64"
  shows "b64_group 4 (b64_char a # b64_char b # b64_char c # b64_char d # rest) = Inr ([uint a, uint b, uint c, uint d], rest)"
    "b64_group 4 (b64_char a # b64_char b # b64_char c # b64_pad # rest) = Inr ([uint a, uint b, uint c, -2], rest)"
    "b64_group 4 (b64_char a # b64_char b # b64_pad # b64_pad # rest) = Inr ([uint a, uint b, -2, -2], rest)"
  using assms by (simp_all add: eval_nat_numeral b64index_char b64index_pad uint_simps)

lemma b64_bytes_simps:
  "b64_bytes [uint a, uint b, uint c, uint d] =
     (let v = push_bit 18 a OR push_bit 12 b OR push_bit 6 c OR (d :: u32)
      in Inr [ucast (drop_bit 16 v), ucast (drop_bit 8 v AND 0xff), ucast (v AND 0xff)])"
  "b64_bytes [uint a, uint b, uint c, -2] =
     (if uint c AND 3 \<noteq> 0 then luaL_error ''Invalid base64 text''
      else let v = push_bit 10 a OR push_bit 4 b OR drop_bit 2 (c :: u32) in Inr [ucast (drop_bit 8 v), ucast (v AND 0xff)])"
  "b64_bytes [uint a, uint b, -2, -2] =
     (if uint b AND 0xf \<noteq> 0 then luaL_error ''Invalid base64 text''
      else let v = push_bit 2 a OR drop_bit 4 (b :: u32) in Inr [ucast v])"
  by (simp_all add: b64_bytes_def uint_simps Let_def numeral_2_eq_2 numeral_3_eq_3)

lemma ands:
  "v AND 0x3f = take_bit 6 (v :: u32)" "v AND 3 = take_bit 2 (v :: u32)" "v AND 0xf = take_bit 4 (v :: u32)"
  "v AND 0xff = take_bit 8 (v :: u32)"
  by (simp_all add: take_bit_eq_mask mask_eq_exp_minus_1)

lemma unat_take_bit_less: "unat (take_bit n (v :: u32)) < 2 ^ n"
  by (simp add: unsigned_take_bit_eq)

lemmas word_bits = bit_or_iff bit_push_bit_iff bit_drop_bit_eq bit_take_bit_iff bit_ucast_iff

lemma sextets_join:
  assumes "\<And>i. 24 \<le> i \<Longrightarrow> \<not> bit (v :: u32) i"
  shows "push_bit 18 (drop_bit 18 v) OR push_bit 12 (take_bit 6 (drop_bit 12 v)) OR
    push_bit 6 (take_bit 6 (drop_bit 6 v)) OR take_bit 6 v = v"
proof (rule bit_word_eqI)
  fix i
  assume i: "i < LENGTH(32)"
  consider "18 \<le> i" | "12 \<le> i" "i < 18" | "6 \<le> i" "i < 12" | "i < 6"
    by linarith
  then show "bit (push_bit 18 (drop_bit 18 v) OR push_bit 12 (take_bit 6 (drop_bit 12 v)) OR
      push_bit 6 (take_bit 6 (drop_bit 6 v)) OR take_bit 6 v) i = bit v i"
    using i by cases (auto simp: word_bits)
qed

lemma byte_bit_less: "bit (a :: byte) i \<Longrightarrow> i < 8"
  using bit_imp_le_length [of a i] by simp

lemma octets_join:
  fixes a b c :: byte
  defines "v \<equiv> push_bit 16 (ucast a) OR push_bit 8 (ucast b) OR ucast c :: u32"
  shows "ucast (drop_bit 16 v) = a" "ucast (take_bit 8 (drop_bit 8 v)) = b" "ucast (take_bit 8 v) = c"
    "24 \<le> i \<Longrightarrow> \<not> bit v i"
proof -
  have v: "bit v i \<longleftrightarrow> (16 \<le> i \<and> bit a (i - 16)) \<or> (8 \<le> i \<and> bit b (i - 8)) \<or> bit c i" for i
    by (auto simp: v_def word_bits dest: byte_bit_less)
  show "ucast (drop_bit 16 v) = a" "ucast (take_bit 8 (drop_bit 8 v)) = b" "ucast (take_bit 8 v) = c"
    by (rule bit_word_eqI; auto simp: word_bits v dest: byte_bit_less)+
  show "24 \<le> i \<Longrightarrow> \<not> bit v i"
    by (auto simp: v dest: byte_bit_less)
qed

lemma octets_join2:
  fixes a b :: byte
  defines "v \<equiv> push_bit 8 (ucast a) OR ucast b :: u32"
  shows "ucast (drop_bit 8 v) = a" "ucast (take_bit 8 v) = b" "16 \<le> i \<Longrightarrow> \<not> bit v i"
proof -
  have v: "bit v i \<longleftrightarrow> (8 \<le> i \<and> bit a (i - 8)) \<or> bit b i" for i
    by (auto simp: v_def word_bits dest: byte_bit_less)
  show "ucast (drop_bit 8 v) = a" "ucast (take_bit 8 v) = b"
    by (rule bit_word_eqI; auto simp: word_bits v dest: byte_bit_less)+
  show "16 \<le> i \<Longrightarrow> \<not> bit v i"
    by (auto simp: v dest: byte_bit_less)
qed

lemma sextets_join2:
  assumes "\<And>i. 16 \<le> i \<Longrightarrow> \<not> bit (v :: u32) i"
  shows "push_bit 10 (drop_bit 10 v) OR push_bit 4 (take_bit 6 (drop_bit 4 v)) OR
    drop_bit 2 (push_bit 2 (take_bit 4 v)) = v"
proof (rule bit_word_eqI)
  fix i
  assume i: "i < LENGTH(32)"
  consider "10 \<le> i" | "4 \<le> i" "i < 10" | "i < 4"
    by linarith
  then show "bit (push_bit 10 (drop_bit 10 v) OR push_bit 4 (take_bit 6 (drop_bit 4 v)) OR
      drop_bit 2 (push_bit 2 (take_bit 4 v))) i = bit v i"
    using i by cases (auto simp: word_bits)
qed

lemma sextets_join1: "push_bit 2 (drop_bit 2 v) OR drop_bit 4 (push_bit 4 (take_bit 2 v)) = (v :: u32)"
proof (rule bit_word_eqI)
  fix i
  assume "i < LENGTH(32)"
  then show "bit (push_bit 2 (drop_bit 2 v) OR drop_bit 4 (push_bit 4 (take_bit 2 v))) i = bit v i"
    using le_add_diff_inverse [of 2 i] by (cases "i < 2") (auto simp: word_bits)
qed

lemma ucast_byte_u32: "ucast (ucast (a :: byte) :: u32) = a"
  by (rule bit_word_eqI) (auto simp: word_bits)

lemma drop_less_64: "(\<And>i. n + 6 \<le> i \<Longrightarrow> \<not> bit v i) \<Longrightarrow> unat (drop_bit n (v :: u32)) < 64"
proof -
  assume h: "\<And>i. n + 6 \<le> i \<Longrightarrow> \<not> bit v i"
  have "k < 6" if "bit v (n + k)" for k
    using h [of "n + k"] that by (cases "k < 6") simp_all
  then have "drop_bit n v = take_bit 6 (drop_bit n v)"
    by (intro bit_word_eqI) (auto simp: word_bits)
  then show ?thesis
    using unat_take_bit_less [of 6 "drop_bit n v"] by simp
qed

lemma push_low_less: "n + k = 6 \<Longrightarrow> unat (push_bit n (take_bit k (v :: u32))) < 64"
proof -
  assume nk: "n + k = 6"
  have "push_bit n (take_bit k v) = take_bit 6 (push_bit n v)"
    by (rule bit_word_eqI) (use nk in \<open>auto simp: word_bits\<close>)
  then show ?thesis
    using unat_take_bit_less [of 6 "push_bit n v"] by simp
qed

lemma low_zero: "uint (push_bit n (v :: u32)) AND mask n = 0"
proof (rule bit_eqI)
  fix i
  show "bit (uint (push_bit n v) AND mask n) i = bit (0 :: int) i"
    by (auto simp: bit_and_iff bit_mask_iff bit_unsigned_iff word_bits)
qed

lemma b64_triple:
  "lb64decode (lb64encode (a # b # c # rest)) = res_bind (lb64decode (lb64encode rest)) (\<lambda>more. Inr (a # b # c # more))"
proof -
  define v :: u32 where "v = push_bit 16 (ucast a) OR push_bit 8 (ucast b) OR ucast c"
  note v = octets_join [where a = a and b = b and c = c, folded v_def]
  have enc: "lb64encode (a # b # c # rest) = b64_char (drop_bit 18 v) # b64_char (take_bit 6 (drop_bit 12 v)) #
      b64_char (take_bit 6 (drop_bit 6 v)) # b64_char (take_bit 6 v) # lb64encode rest"
    by (simp add: v_def ands Let_def)
  have less: "unat (drop_bit 18 v) < 64" "unat (take_bit 6 w) < 64" for w :: u32
    using drop_less_64 [of 18 v] v(4) unat_take_bit_less [of 6 w] by simp_all
  have "b64_bytes [uint (drop_bit 18 v), uint (take_bit 6 (drop_bit 12 v)), uint (take_bit 6 (drop_bit 6 v)), uint (take_bit 6 v)] =
      Inr [a, b, c]"
    by (simp only: b64_bytes_simps Let_def sextets_join [OF v(4)] ands v(1-3))
  then show ?thesis
    unfolding enc by (subst lb64decode.simps) (simp add: b64_group_chars(1) [OF less(1) less(2) less(2) less(2)])
qed

lemma b64_one: "lb64decode (lb64encode [a]) = Inr [a]"
proof -
  define v :: u32 where "v = ucast a"
  have enc: "lb64encode [a] = [b64_char (drop_bit 2 v), b64_char (push_bit 4 (take_bit 2 v)), b64_pad, b64_pad]"
    by (simp add: v_def ands Let_def)
  have less: "unat (drop_bit 2 v) < 64" "unat (push_bit 4 (take_bit 2 v)) < 64"
    by (rule drop_less_64, auto simp: v_def word_bits dest: byte_bit_less) (rule push_low_less, simp)
  have "uint (push_bit 4 (take_bit 2 v)) AND 0xf = 0"
    using low_zero [of 4] by (simp add: mask_eq_exp_minus_1)
  then have "b64_bytes [uint (drop_bit 2 v), uint (push_bit 4 (take_bit 2 v)), -2, -2] = Inr [a]"
    by (simp only: b64_bytes_simps Let_def sextets_join1 simp_thms if_False) (simp add: v_def ucast_byte_u32)
  then show ?thesis
    unfolding enc by (subst lb64decode.simps) (simp add: b64_group_chars(3) [OF less less] lb64decode.simps [of "[]"])
qed

lemma b64_two: "lb64decode (lb64encode [a, b]) = Inr [a, b]"
proof -
  define v :: u32 where "v = push_bit 8 (ucast a) OR ucast b"
  note v = octets_join2 [where a = a and b = b, folded v_def]
  have enc: "lb64encode [a, b] =
      [b64_char (drop_bit 10 v), b64_char (take_bit 6 (drop_bit 4 v)), b64_char (push_bit 2 (take_bit 4 v)), b64_pad]"
    by (simp add: v_def ands Let_def)
  have less: "unat (drop_bit 10 v) < 64" "unat (take_bit 6 (drop_bit 4 v)) < 64" "unat (push_bit 2 (take_bit 4 v)) < 64"
    using drop_less_64 [of 10 v] v(3) unat_take_bit_less [of 6 "drop_bit 4 v"] push_low_less [of 2 4 v] by simp_all
  have "uint (push_bit 2 (take_bit 4 v)) AND 3 = 0"
    using low_zero [of 2] by (simp add: mask_eq_exp_minus_1)
  then have "b64_bytes [uint (drop_bit 10 v), uint (take_bit 6 (drop_bit 4 v)), uint (push_bit 2 (take_bit 4 v)), -2] = Inr [a, b]"
    by (simp only: b64_bytes_simps Let_def sextets_join2 [OF v(3)] ands(4) v(1,2) simp_thms if_False)
  then show ?thesis
    unfolding enc by (subst lb64decode.simps) (simp add: b64_group_chars(2) [OF less less(1)] lb64decode.simps [of "[]"])
qed

text \<open>C27: \<open>base64decode\<close> returns exactly the bytes given to \<open>base64encode\<close>, for every length and
  padding; the encoded text has four characters for every three bytes begun.\<close>

theorem lb64decode_lb64encode:
  "lb64decode (lb64encode s) = Inr s \<and> length (lb64encode s) = (length s + 2) div 3 * 4"
proof (induction s rule: lb64encode.induct)
  case (1 a b c rest)
  then show ?case
    using div_add_self2 [of 3 "length rest + 2"] unfolding b64_triple by (simp add: Let_def)
next
  case (2 a)
  then show ?case
    unfolding b64_one by (simp add: Let_def)
next
  case (3 a b)
  then show ?case
    unfolding b64_two by (simp add: Let_def)
next
  case 4
  then show ?case
    by (simp add: lb64decode.simps)
qed

end
