(* ===== verification/Netpack.thy ===== *)
theory Netpack
  imports Fifo Table SocketMessage
begin

text \<open>
  \<open>lua-netpack.c\<close>: the stream of a socket is cut into packages that are a 2-byte big endian size and the data.
  Bytes that end inside a package are kept per socket in a hash table of chains (\<open>struct uncomplete\<close>),
  complete packages beyond the first go to a growing ring (\<open>struct queue\<close>). A chain of the hash table is the
  list of its nodes in the order of the \<open>next\<close> pointers; the array of chains is a function of the index,
  which is always reduced modulo \<open>HASHSIZE\<close>. A buffer from \<open>malloc\<close> is a list of bytes that may still be
  unwritten (\<open>None\<close>); a copy past its end is the fault \<open>Out_Of_Bounds\<close>. The first element of the Lua stack,
  the queue or nil, is the argument and result \<open>netqueue option\<close>. Data messages of the socket
  server are not empty.
\<close>

section \<open>Data\<close>

definition QUEUESIZE :: nat where
  "QUEUESIZE = 1024"

definition HASHSIZE :: nat where
  "HASHSIZE = 4096"

type_synonym buf = "byte option list"

record netpack =
  np_id :: u32
  np_size :: nat
  np_buffer :: buf

record uncomplete =
  uc_pack :: netpack
  uc_read :: int
  uc_header :: nat

record netqueue =
  nq_cap :: nat
  nq_head :: nat
  nq_tail :: nat
  nq_hash :: "nat \<Rightarrow> uncomplete list"
  nq_queue :: "netpack option list"

datatype filter_result =
    No_Message
  | Data u32 buf nat
  | More
  | Error u32 string
  | Open u32 string
  | Close u32
  | Warning u32 u32

definition malloc_buf :: "nat \<Rightarrow> buf" where
  "malloc_buf n = replicate n None"

definition memcpy_at :: "buf \<Rightarrow> nat \<Rightarrow> bytes \<Rightarrow> buf res" where
  "memcpy_at b off src = (if off + length src \<le> length b
     then Inr (take off b @ map Some src @ drop (off + length src) b) else Inl Out_Of_Bounds)"

section \<open>The table of incomplete packages\<close>

definition hash_fd :: "u32 \<Rightarrow> nat" where
  "hash_fd fd = unat (signed_drop_bit 24 fd + signed_drop_bit 12 fd + fd) mod HASHSIZE"

text \<open>The node of \<open>fd\<close> is unlinked from its chain.\<close>

fun unlink_fd :: "u32 \<Rightarrow> uncomplete list \<Rightarrow> (uncomplete \<times> uncomplete list) option" where
  "unlink_fd fd [] = None"
| "unlink_fd fd (uc # rest) =
    (if np_id (uc_pack uc) = fd then Some (uc, rest)
     else case unlink_fd fd rest of None \<Rightarrow> None | Some (u, rest') \<Rightarrow> Some (u, uc # rest'))"

definition find_uncomplete :: "netqueue option \<Rightarrow> u32 \<Rightarrow> (uncomplete \<times> netqueue) option" where
  "find_uncomplete q fd = (case q of
     None \<Rightarrow> None
   | Some q \<Rightarrow> (let h = hash_fd fd in
       case unlink_fd fd (nq_hash q h) of
         None \<Rightarrow> None
       | Some (uc, rest) \<Rightarrow> Some (uc, q\<lparr>nq_hash := (nq_hash q)(h := rest)\<rparr>)))"

definition new_queue :: netqueue where
  "new_queue = \<lparr>nq_cap = QUEUESIZE, nq_head = 0, nq_tail = 0, nq_hash = (\<lambda>_. []), nq_queue = replicate QUEUESIZE None\<rparr>"

definition get_queue :: "netqueue option \<Rightarrow> netqueue" where
  "get_queue q = (case q of None \<Rightarrow> new_queue | Some q \<Rightarrow> q)"

text \<open>Link a node at the front of its chain.\<close>

definition link_uncomplete :: "netqueue \<Rightarrow> uncomplete \<Rightarrow> netqueue" where
  "link_uncomplete q uc = (let h = hash_fd (np_id (uc_pack uc)) in q\<lparr>nq_hash := (nq_hash q)(h := uc # nq_hash q h)\<rparr>)"

definition save_uncomplete :: "netqueue option \<Rightarrow> u32 \<Rightarrow> (uncomplete \<Rightarrow> uncomplete) \<Rightarrow> netqueue" where
  "save_uncomplete q fd fill = link_uncomplete (get_queue q)
     (fill \<lparr>uc_pack = \<lparr>np_id = fd, np_size = 0, np_buffer = []\<rparr>, uc_read = 0, uc_header = 0\<rparr>)"

section \<open>The ring of complete packages\<close>

definition np_expand_queue :: "netqueue \<Rightarrow> netqueue" where
  "np_expand_queue q = \<lparr>nq_cap = nq_cap q + QUEUESIZE, nq_head = 0, nq_tail = nq_cap q, nq_hash = nq_hash q,
     nq_queue = map (\<lambda>i. nq_queue q ! ((nq_head q + i) mod nq_cap q)) [0..<nq_cap q] @ replicate QUEUESIZE None\<rparr>"

text \<open>The parameter \<open>clone\<close> of the source only decides whose memory the package is in.\<close>

definition push_data :: "netqueue option \<Rightarrow> u32 \<Rightarrow> buf \<Rightarrow> nat \<Rightarrow> netqueue" where
  "push_data q fd buffer sz =
    (let q = get_queue q;
         q' = q\<lparr>nq_queue := (nq_queue q)[nq_tail q := Some \<lparr>np_id = fd, np_size = sz, np_buffer = buffer\<rparr>],
                nq_tail := (if nq_tail q + 1 \<ge> nq_cap q then nq_tail q + 1 - nq_cap q else nq_tail q + 1)\<rparr>
     in if nq_head q' = nq_tail q' then np_expand_queue q' else q')"

definition lpop :: "netqueue option \<Rightarrow> netpack option \<times> netqueue option" where
  "lpop q = (case q of
     None \<Rightarrow> (None, None)
   | Some q \<Rightarrow>
      if nq_head q = nq_tail q then (None, Some q)
      else (nq_queue q ! nq_head q,
        Some (q\<lparr>nq_head := (if nq_head q + 1 \<ge> nq_cap q then 0 else nq_head q + 1)\<rparr>)))"

definition lclear :: "netqueue option \<Rightarrow> netqueue option" where
  "lclear q = map_option (\<lambda>q. q\<lparr>nq_hash := (\<lambda>h. if h < HASHSIZE then [] else nq_hash q h), nq_head := 0, nq_tail := 0\<rparr>) q"

section \<open>Filtering socket data\<close>

definition read_size :: "byte \<Rightarrow> byte \<Rightarrow> nat" where
  "read_size b0 b1 = push_bit 8 (unat b0) OR unat b1"

definition save_header :: "netqueue option \<Rightarrow> u32 \<Rightarrow> byte \<Rightarrow> netqueue" where
  "save_header q fd b = save_uncomplete q fd (\<lambda>uc. uc\<lparr>uc_read := -1, uc_header := unat b\<rparr>)"

definition save_part :: "netqueue option \<Rightarrow> u32 \<Rightarrow> nat \<Rightarrow> bytes \<Rightarrow> netqueue res" where
  "save_part q fd pack_size data = res_bind (memcpy_at (malloc_buf pack_size) 0 data) (\<lambda>b.
     Inr (save_uncomplete q fd (\<lambda>uc. uc\<lparr>uc_read := int (length data),
       uc_pack := (uc_pack uc)\<lparr>np_size := pack_size, np_buffer := b\<rparr>\<rparr>)))"

function push_more :: "netqueue option \<Rightarrow> u32 \<Rightarrow> bytes \<Rightarrow> netqueue res" where
  "push_more q fd [] = Inl Out_Of_Bounds"
| "push_more q fd [b] = Inr (save_header q fd b)"
| "push_more q fd (b0 # b1 # buffer) =
    (let pack_size = read_size b0 b1 in
     if length buffer < pack_size then save_part q fd pack_size buffer
     else let q = push_data q fd (map Some (take pack_size buffer)) pack_size;
              rest = drop pack_size buffer
          in if 0 < length rest then push_more (Some q) fd rest else Inr q)"
  by pat_completeness auto
termination
  by (relation "measure (\<lambda>(q, fd, b). length b)") auto

definition close_uncomplete :: "netqueue option \<Rightarrow> u32 \<Rightarrow> netqueue option" where
  "close_uncomplete q fd = (case find_uncomplete q fd of None \<Rightarrow> q | Some (uc, q) \<Rightarrow> Some q)"

text \<open>\<open>fill_uncomplete\<close> is the branch of \<open>filter_data_\<close> for a socket with an incomplete package.\<close>

definition fill_size :: "uncomplete \<Rightarrow> bytes \<Rightarrow> (uncomplete \<times> bytes) res" where
  "fill_size uc buffer =
    (if uc_read uc < 0 then
       (if uc_read uc \<noteq> -1 then Inl Assert_Failed
        else case buffer of
          [] \<Rightarrow> Inl Out_Of_Bounds
        | b # buffer \<Rightarrow> (let pack_size = unat b OR push_bit 8 (uc_header uc) in
            Inr (uc\<lparr>uc_pack := (uc_pack uc)\<lparr>np_size := pack_size, np_buffer := malloc_buf pack_size\<rparr>, uc_read := 0\<rparr>, buffer)))
     else Inr (uc, buffer))"

definition fill_uncomplete :: "netqueue \<Rightarrow> u32 \<Rightarrow> uncomplete \<Rightarrow> bytes \<Rightarrow> (netqueue \<times> filter_result) res" where
  "fill_uncomplete q fd uc buffer = res_bind (fill_size uc buffer) (\<lambda>(uc, buffer).
    let need = np_size (uc_pack uc) - nat (uc_read uc) in
    if length buffer < need then
      res_bind (memcpy_at (np_buffer (uc_pack uc)) (nat (uc_read uc)) buffer) (\<lambda>b.
        Inr (link_uncomplete q (uc\<lparr>uc_pack := (uc_pack uc)\<lparr>np_buffer := b\<rparr>, uc_read := uc_read uc + int (length buffer)\<rparr>),
             No_Message))
    else res_bind (memcpy_at (np_buffer (uc_pack uc)) (nat (uc_read uc)) (take need buffer)) (\<lambda>b.
      let buffer = drop need buffer in
      if length buffer = 0 then Inr (q, Data fd b (np_size (uc_pack uc)))
      else res_bind (push_more (Some (push_data (Some q) fd b (np_size (uc_pack uc)))) fd buffer) (\<lambda>q. Inr (q, More))))"

definition filter_data :: "netqueue option \<Rightarrow> u32 \<Rightarrow> bytes \<Rightarrow> (netqueue option \<times> filter_result) res" where
  "filter_data q fd buffer =
    (case find_uncomplete q fd of
       Some (uc, q) \<Rightarrow> res_bind (fill_uncomplete q fd uc buffer) (\<lambda>(q, r). Inr (Some q, r))
     | None \<Rightarrow>
        (case buffer of
           [] \<Rightarrow> Inl Out_Of_Bounds
         | [b] \<Rightarrow> Inr (Some (save_header q fd b), No_Message)
         | b0 # b1 # buffer \<Rightarrow>
            (let pack_size = read_size b0 b1 in
             if length buffer < pack_size then res_bind (save_part q fd pack_size buffer) (\<lambda>q. Inr (Some q, No_Message))
             else if length buffer = pack_size then
               res_bind (memcpy_at (malloc_buf pack_size) 0 buffer) (\<lambda>b. Inr (q, Data fd b (length buffer)))
             else res_bind (push_more (Some (push_data q fd (map Some (take pack_size buffer)) pack_size)) fd (drop pack_size buffer))
               (\<lambda>q. Inr (Some q, More)))))"

section \<open>Messages of the socket server\<close>

definition pushstring :: "socket_message \<Rightarrow> string res" where
  "pushstring m = (case sm_buffer m of None \<Rightarrow> Inr (sm_padding m) | Some _ \<Rightarrow> Inl Out_Of_Bounds)"

definition lfilter :: "netqueue option \<Rightarrow> socket_message \<Rightarrow> (netqueue option \<times> filter_result) res" where
  "lfilter q m = (case sm_type m of
     T_Data \<Rightarrow> (case sm_buffer m of
         None \<Rightarrow> Inl Assert_Failed
       | Some buffer \<Rightarrow> if unat (sm_ud m) \<le> length buffer then filter_data q (sm_id m) (take (unat (sm_ud m)) buffer)
           else Inl Out_Of_Bounds)
   | T_Connect \<Rightarrow> Inr (q, No_Message)
   | T_Close \<Rightarrow> Inr (close_uncomplete q (sm_id m), Close (sm_id m))
   | T_Accept \<Rightarrow> res_bind (pushstring m) (\<lambda>s. Inr (q, Open (sm_ud m) s))
   | T_Error \<Rightarrow> (let q = close_uncomplete q (sm_id m) in res_bind (pushstring m) (\<lambda>s. Inr (q, Error (sm_id m) s)))
   | T_Warning \<Rightarrow> Inr (q, Warning (sm_id m) (sm_ud m))
   | T_Udp \<Rightarrow> Inr (q, No_Message))"

section \<open>Packing\<close>

definition write_size :: "nat \<Rightarrow> bytes" where
  "write_size len = [of_nat (drop_bit 8 len AND 0xff), of_nat (len AND 0xff)]"

definition lpack :: "bytes \<Rightarrow> bytes lua" where
  "lpack data = (if length data \<ge> 0x10000 then luaL_error ''Invalid size (too long) of data''
     else Inr (write_size (length data) @ data))"

definition ltostring :: "bytes option \<Rightarrow> nat \<Rightarrow> bytes lua" where
  "ltostring p sz = (case p of None \<Rightarrow> Inr []
     | Some b \<Rightarrow> if sz \<le> length b then Inr (take sz b) else Inl (C_Fault Out_Of_Bounds))"

section \<open>The table of incomplete packages is a map\<close>

abbreviation uc_fd :: "uncomplete \<Rightarrow> u32" where
  "uc_fd uc \<equiv> np_id (uc_pack uc)"

definition unf :: "netqueue \<Rightarrow> u32 \<Rightarrow> uncomplete option" where
  "unf q fd = map_option fst (unlink_fd fd (nq_hash q (hash_fd fd)))"

definition hash_ok :: "netqueue \<Rightarrow> bool" where
  "hash_ok q \<longleftrightarrow> (\<forall>h. distinct (map uc_fd (nq_hash q h)) \<and> (\<forall>uc \<in> set (nq_hash q h). hash_fd (uc_fd uc) = h))"

declare hash_ok_def [skynet_invs]

lemma unlink_fd_None: "unlink_fd fd l = None \<longleftrightarrow> fd \<notin> uc_fd ` set l"
  by (induction l) (auto split: option.splits)

lemma unlink_fd_Some:
  "unlink_fd fd l = Some (uc, rest) \<Longrightarrow> distinct (map uc_fd l) \<Longrightarrow>
     uc_fd uc = fd \<and> uc \<in> set l \<and> rest = filter (\<lambda>u. uc_fd u \<noteq> fd) l"
proof (induction l arbitrary: rest)
  case (Cons u l)
  show ?case
  proof (cases "uc_fd u = fd")
    case True
    then have "uc_fd x \<noteq> fd" if "x \<in> set l" for x
      using Cons.prems(2) imageI [OF that, of uc_fd] by auto
    then show ?thesis
      using Cons.prems(1) True by (simp add: filter_id_conv)
  next
    case False
    then show ?thesis
      using Cons by (auto split: option.splits)
  qed
qed simp

lemma unlink_fd_find: "map_option fst (unlink_fd fd l) = find (\<lambda>u. uc_fd u = fd) l"
  by (induction l) (auto split: option.splits)

lemma unlink_fd_filter:
  "map_option fst (unlink_fd fd' (filter (\<lambda>u. uc_fd u \<noteq> fd) l)) = (if fd' = fd then None else map_option fst (unlink_fd fd' l))"
  unfolding unlink_fd_find by (induction l) auto

lemma find_uncomplete_None: "find_uncomplete (Some q) fd = None \<longleftrightarrow> unf q fd = None"
  by (auto simp: find_uncomplete_def unf_def Let_def split: option.splits)

lemma find_uncomplete_Some:
  assumes "hash_ok q" "find_uncomplete (Some q) fd = Some (uc, q')"
  shows "unf q fd = Some uc" "uc_fd uc = fd" "unf q' = (unf q)(fd := None)" "hash_ok q'"
    "q' = q\<lparr>nq_hash := nq_hash q'\<rparr>"
proof -
  obtain rest where r: "unlink_fd fd (nq_hash q (hash_fd fd)) = Some (uc, rest)"
      and q': "q' = q\<lparr>nq_hash := (nq_hash q)(hash_fd fd := rest)\<rparr>"
    using assms(2) by (auto simp: find_uncomplete_def Let_def split: option.splits)
  have u: "uc_fd uc = fd" "rest = filter (\<lambda>u. uc_fd u \<noteq> fd) (nq_hash q (hash_fd fd))"
    using unlink_fd_Some [OF r] assms(1) by (auto simp: hash_ok_def)
  show "unf q fd = Some uc"
    using r by (simp add: unf_def)
  show "uc_fd uc = fd"
    by (rule u(1))
  show "unf q' = (unf q)(fd := None)"
    by (rule ext) (auto simp: unf_def q' u(2) unlink_fd_filter)
  show "hash_ok q'"
    using assms(1) by (auto simp: hash_ok_def q' u(2) distinct_map_filter)
  show "q' = q\<lparr>nq_hash := nq_hash q'\<rparr>"
    by (simp add: q')
qed

lemma link_uncomplete_correct:
  assumes "hash_ok q" "unf q (uc_fd uc) = None"
  shows "hash_ok (link_uncomplete q uc)" "unf (link_uncomplete q uc) = (unf q)(uc_fd uc \<mapsto> uc)"
proof -
  have new: "uc_fd uc \<notin> uc_fd ` set (nq_hash q (hash_fd (uc_fd uc)))"
    using assms(2) by (simp add: unf_def unlink_fd_None)
  then show "hash_ok (link_uncomplete q uc)"
    using assms(1) by (auto simp: hash_ok_def link_uncomplete_def Let_def)
  show "unf (link_uncomplete q uc) = (unf q)(uc_fd uc \<mapsto> uc)"
  proof
    fix fd
    show "unf (link_uncomplete q uc) fd = ((unf q)(uc_fd uc \<mapsto> uc)) fd"
      by (cases "hash_fd fd = hash_fd (uc_fd uc)") (auto simp: unf_def link_uncomplete_def Let_def split: option.splits)
  qed
qed

text \<open>The third implementation of the table interface.\<close>

definition drop_fd :: "netqueue \<Rightarrow> u32 \<Rightarrow> netqueue" where
  "drop_fd q fd = get_queue (close_uncomplete (Some q) fd)"

lemma drop_fd_correct:
  assumes "hash_ok q"
  shows "hash_ok (drop_fd q fd)" "unf (drop_fd q fd) = (unf q)(fd := None)" "drop_fd q fd = q\<lparr>nq_hash := nq_hash (drop_fd q fd)\<rparr>"
proof -
  have "hash_ok (drop_fd q fd) \<and> unf (drop_fd q fd) = (unf q)(fd := None) \<and> drop_fd q fd = q\<lparr>nq_hash := nq_hash (drop_fd q fd)\<rparr>"
  proof (cases "find_uncomplete (Some q) fd")
    case None
    then show ?thesis
      using assms find_uncomplete_None [of q fd] by (auto simp: drop_fd_def close_uncomplete_def get_queue_def fun_upd_idem)
  next
    case (Some p)
    then obtain uc q' where "find_uncomplete (Some q) fd = Some (uc, q')"
      by (cases p) simp
    then show ?thesis
      using find_uncomplete_Some [OF assms] by (auto simp: drop_fd_def close_uncomplete_def get_queue_def)
  qed
  then show "hash_ok (drop_fd q fd)" "unf (drop_fd q fd) = (unf q)(fd := None)" "drop_fd q fd = q\<lparr>nq_hash := nq_hash (drop_fd q fd)\<rparr>"
    by blast+
qed

interpretation partial: table unf "\<lambda>q uc. (uc_fd uc, uc, link_uncomplete q uc)" drop_fd unf hash_ok
  "\<lambda>q uc. unf q (uc_fd uc) = None"
proof unfold_locales
  fix q :: netqueue and uc v q' k
  assume q: "hash_ok q" "unf q (uc_fd uc) = None" "(uc_fd uc, uc, link_uncomplete q uc) = (k, v, q')"
  then have e: "k = uc_fd uc" "v = uc" "q' = link_uncomplete q uc"
    by blast+
  show "hash_ok q'" "unf q k = None" "unf q' = (unf q)(k \<mapsto> v)"
    unfolding e by (rule link_uncomplete_correct [OF q(1,2)] q(2))+
qed (simp_all only: drop_fd_correct(1,2))

section \<open>The ring is a queue\<close>

definition ring_ok :: "netqueue \<Rightarrow> bool" where
  "ring_ok q \<longleftrightarrow> nq_head q < nq_cap q \<and> nq_tail q < nq_cap q \<and> length (nq_queue q) = nq_cap q \<and>
     (\<forall>x \<in> set (ring_list (nq_queue q) (nq_head q) (nq_tail q)). x \<noteq> None)"

definition nq_content :: "netqueue \<Rightarrow> netpack list" where
  "nq_content q = map the (ring_list (nq_queue q) (nq_head q) (nq_tail q))"

declare ring_ok_def [skynet_invs]

lemma ring_update:
  assumes "ring_ok q" "nq_cap q' = nq_cap q" "nq_head q' = nq_head q" "nq_tail q' = nq_tail q" "nq_queue q' = nq_queue q"
  shows "ring_ok q'" "nq_content q' = nq_content q"
  using assms by (simp_all add: ring_ok_def nq_content_def)

lemma push_data_hash: "nq_hash (push_data q fd b sz) = nq_hash (get_queue q)"
  by (simp add: push_data_def Let_def np_expand_queue_def)

lemma push_data_correct:
  assumes ok: "ring_ok (get_queue q)"
  shows "ring_ok (push_data q fd b sz)"
    "nq_content (push_data q fd b sz) = nq_content (get_queue q) @ [\<lparr>np_id = fd, np_size = sz, np_buffer = b\<rparr>]"
proof -
  let ?q = "get_queue q"
  let ?x = "Some \<lparr>np_id = fd, np_size = sz, np_buffer = b\<rparr>"
  let ?t = "ring_next (nq_cap ?q) (nq_tail ?q)"
  let ?b = "(nq_queue ?q)[nq_tail ?q := ?x]"
  have r: "nq_head ?q < length (nq_queue ?q)" "nq_tail ?q < length (nq_queue ?q)" "length (nq_queue ?q) = nq_cap ?q"
      "\<forall>x \<in> set (ring_list (nq_queue ?q) (nq_head ?q) (nq_tail ?q)). x \<noteq> None"
    using ok by (simp_all add: ring_ok_def)
  have t: "(if nq_tail ?q + 1 \<ge> nq_cap ?q then nq_tail ?q + 1 - nq_cap ?q else nq_tail ?q + 1) = ?t"
    using r by (simp add: ring_next_def)
  let ?q' = "?q\<lparr>nq_queue := ?b, nq_tail := ?t\<rparr>"
  have eq: "push_data q fd b sz = (if nq_head ?q' = nq_tail ?q' then np_expand_queue ?q' else ?q')"
    unfolding push_data_def Let_def t by (rule refl)
  have tl: "?t < nq_cap ?q"
    using r by (intro ring_next_less) simp
  have "ring_ok (push_data q fd b sz) \<and> nq_content (push_data q fd b sz) = nq_content ?q @ [the ?x]"
  proof (cases "?t = nq_head ?q")
    case False
    have p: "push_data q fd b sz = ?q\<lparr>nq_queue := ?b, nq_tail := ?t\<rparr>"
      unfolding eq using False by simp
    have l: "ring_list ?b (nq_head ?q) ?t = ring_list (nq_queue ?q) (nq_head ?q) (nq_tail ?q) @ [?x]"
      using ring_list_push [OF r(1,2), of ?x] False r(3) by simp
    show ?thesis
      using r tl by (auto simp: p ring_ok_def nq_content_def l)
  next
    case True
    then have p: "push_data q fd b sz = np_expand_queue (?q\<lparr>nq_queue := ?b, nq_tail := ?t\<rparr>)"
      unfolding eq by simp
    have u: "map (\<lambda>i. ?b ! ((nq_head ?q + i) mod nq_cap ?q)) [0..<nq_cap ?q] =
        ring_list (nq_queue ?q) (nq_head ?q) (nq_tail ?q) @ [?x]"
      using ring_list_push_full [OF r(1,2), of ?x] True r(3) by (simp add: ring_unroll_def)
    have len: "length (ring_list (nq_queue ?q) (nq_head ?q) (nq_tail ?q) @ [?x]) = nq_cap ?q"
      using arg_cong [OF u, of length] by simp
    have l: "ring_list ((ring_list (nq_queue ?q) (nq_head ?q) (nq_tail ?q) @ [?x]) @ replicate QUEUESIZE None) 0 (nq_cap ?q) =
        ring_list (nq_queue ?q) (nq_head ?q) (nq_tail ?q) @ [?x]"
      by (subst ring_list_fresh) (simp_all only: len order_refl take_all)
    have e: "nq_queue (push_data q fd b sz) = (ring_list (nq_queue ?q) (nq_head ?q) (nq_tail ?q) @ [?x]) @ replicate QUEUESIZE None"
      "nq_head (push_data q fd b sz) = 0" "nq_tail (push_data q fd b sz) = nq_cap ?q" "nq_cap (push_data q fd b sz) = nq_cap ?q + QUEUESIZE"
      unfolding p by (simp_all add: np_expand_queue_def u)
    have "0 < nq_cap ?q" "0 < QUEUESIZE"
      using r by (simp_all add: QUEUESIZE_def)
    then show ?thesis
      unfolding ring_ok_def nq_content_def e l using r(4) len by auto
  qed
  then show "ring_ok (push_data q fd b sz)"
    "nq_content (push_data q fd b sz) = nq_content (get_queue q) @ [\<lparr>np_id = fd, np_size = sz, np_buffer = b\<rparr>]"
    by simp_all
qed

lemma lpop_nil: "nq_content q = [] \<Longrightarrow> ring_ok q \<Longrightarrow> lpop (Some q) = (None, Some q)"
  by (simp add: lpop_def nq_content_def ring_ok_def ring_list_Nil_iff)

lemma lpop_cons:
  assumes ok: "ring_ok q" and c: "nq_content q = x # xs"
  shows "\<exists>q'. lpop (Some q) = (Some x, Some q') \<and> ring_ok q' \<and> nq_content q' = xs \<and> nq_hash q' = nq_hash q"
proof -
  let ?h = "ring_next (nq_cap q) (nq_head q)"
  have r: "nq_head q < length (nq_queue q)" "nq_tail q < length (nq_queue q)" "length (nq_queue q) = nq_cap q"
    using ok by (simp_all add: ring_ok_def)
  have ne: "nq_head q \<noteq> nq_tail q"
    using c by (auto simp: nq_content_def)
  have l: "ring_list (nq_queue q) (nq_head q) (nq_tail q) = nq_queue q ! nq_head q # ring_list (nq_queue q) ?h (nq_tail q)"
    using ring_list_pop [OF r(1,2) ne] r(3) by simp
  then have x: "nq_queue q ! nq_head q = Some x"
    using c ok by (auto simp: nq_content_def ring_ok_def)
  have "lpop (Some q) = (Some x, Some (q\<lparr>nq_head := ?h\<rparr>))"
    using ne x by (simp add: lpop_def ring_next_def)
  moreover have "ring_ok (q\<lparr>nq_head := ?h\<rparr>)" "nq_content (q\<lparr>nq_head := ?h\<rparr>) = xs"
    using ok c l r ring_next_less [of "nq_head q" "nq_cap q"] by (auto simp: ring_ok_def nq_content_def)
  ultimately show ?thesis
    by simp
qed

definition nq_enq :: "netqueue \<Rightarrow> netpack \<Rightarrow> netqueue" where
  "nq_enq q np = push_data (Some q) (np_id np) (np_buffer np) (np_size np)"

definition nq_deq :: "netqueue \<Rightarrow> netpack option \<times> netqueue" where
  "nq_deq q = (case lpop (Some q) of (r, q') \<Rightarrow> (r, get_queue q'))"

interpretation packages: fifo nq_enq nq_deq nq_content ring_ok "\<lambda>_ _. True"
proof unfold_locales
  show "ring_ok (nq_enq q x)" "nq_content (nq_enq q x) = nq_content q @ [x]" if "ring_ok q" for q x
    using push_data_correct [of "Some q"] that by (simp_all add: nq_enq_def get_queue_def)
  show "ring_ok (snd (nq_deq q))" if "ring_ok q" for q
    using lpop_nil [of q] lpop_cons [of q] that by (cases "nq_content q") (auto simp: nq_deq_def get_queue_def)
  show "fst (nq_deq q) = None \<and> nq_content (snd (nq_deq q)) = []" if "ring_ok q" "nq_content q = []" for q
    using lpop_nil [OF that(2,1)] that by (simp add: nq_deq_def get_queue_def)
  show "fst (nq_deq q) = Some x \<and> nq_content (snd (nq_deq q)) = xs" if "ring_ok q" "nq_content q = x # xs" for q x xs
    using lpop_cons [OF that] by (auto simp: nq_deq_def get_queue_def)
qed

section \<open>The stream of packages\<close>

text \<open>What the stream of one socket means: its complete packages and the bytes of the last, incomplete one.\<close>

fun frames :: "bytes \<Rightarrow> bytes list \<times> bytes" where
  "frames (b0 # b1 # rest) =
    (let n = read_size b0 b1 in
     if length rest < n then ([], b0 # b1 # rest)
     else case frames (drop n rest) of (ps, r) \<Rightarrow> (take n rest # ps, r))"
| "frames s = ([], s)"

lemma frames_append: "frames (x @ y) = (case frames x of (ps, r) \<Rightarrow> case frames (r @ y) of (ps', r') \<Rightarrow> (ps @ ps', r'))"
proof (induction x rule: frames.induct)
  case (1 b0 b1 rest)
  then show ?case
    by (auto simp: Let_def split: prod.splits)
qed (auto split: prod.splits)

lemma frames_rest: "frames (snd (frames x)) = ([], snd (frames x))"
  by (induction x rule: frames.induct) (auto simp: Let_def split: prod.splits)

lemma read_size_eq: "read_size b0 b1 = 256 * unat b0 + unat b1"
proof -
  have "read_size b0 b1 = push_bit 8 (unat b0) + unat b1"
    unfolding read_size_def
    by (rule disjunctive_add [symmetric]) (auto simp: bit_push_bit_iff bit_unsigned_iff dest: bit_imp_le_length)
  then show ?thesis
    by (simp add: push_bit_eq_mult)
qed

lemma unat_byte: "unat (b :: byte) < 256"
  using unsigned_less [of b, where 'a = nat] by simp

lemma read_size_less: "read_size b0 b1 < 65536"
  using unat_byte [of b0] unat_byte [of b1] by (simp add: read_size_eq)

lemma and_255: "n AND 255 = n mod 256" for n :: nat
  using take_bit_eq_mask [of 8 n] by (simp add: mask_eq_exp_minus_1 take_bit_eq_mod)

lemma write_size_read_size: "write_size (read_size b0 b1) = [b0, b1]"
proof -
  have "(256 * unat b0 + unat b1) div 256 = unat b0" "(256 * unat b0 + unat b1) mod 256 = unat b1"
    using unat_byte [of b1] by simp_all
  then show ?thesis
    using unat_byte [of b0] by (simp add: write_size_def read_size_eq drop_bit_eq_div and_255)
qed

lemma read_size_write_size:
  assumes "n < 65536"
  obtains b0 b1 where "write_size n = [b0, b1]" "read_size b0 b1 = n"
proof (rule that)
  show "write_size n = [of_nat (n div 256), of_nat (n mod 256)]"
    using assms by (simp add: write_size_def drop_bit_eq_div and_255)
  have "unat (of_nat k :: byte) = k" if "k < 256" for k
    using that by (simp add: unat_of_nat)
  moreover have "n div 256 < 256"
    using assms by simp
  ultimately show "read_size (of_nat (n div 256)) (of_nat (n mod 256)) = n"
    by (simp add: read_size_eq)
qed

section \<open>What a filtered message does to the streams\<close>

definition uc_ok :: "uncomplete \<Rightarrow> bool" where
  "uc_ok uc \<longleftrightarrow> (uc_read uc = -1 \<and> uc_header uc < 256) \<or>
     (\<exists>got. uc_read uc = int (length got) \<and> length got < np_size (uc_pack uc) \<and> np_size (uc_pack uc) < 65536 \<and>
       np_buffer (uc_pack uc) = map Some got @ replicate (np_size (uc_pack uc) - length got) None)"

definition uc_bytes :: "uncomplete \<Rightarrow> bytes" where
  "uc_bytes uc = (if uc_read uc = -1 then [of_nat (uc_header uc)]
     else write_size (np_size (uc_pack uc)) @ map the (take (nat (uc_read uc)) (np_buffer (uc_pack uc))))"

definition pending :: "netqueue option \<Rightarrow> u32 \<Rightarrow> bytes" where
  "pending q fd = (case unf (get_queue q) fd of None \<Rightarrow> [] | Some uc \<Rightarrow> uc_bytes uc)"

definition packs :: "netqueue option \<Rightarrow> netpack list" where
  "packs q = nq_content (get_queue q)"

definition np_ok :: "netqueue option \<Rightarrow> bool" where
  "np_ok q \<longleftrightarrow> hash_ok (get_queue q) \<and> ring_ok (get_queue q) \<and> (\<forall>fd uc. unf (get_queue q) fd = Some uc \<longrightarrow> uc_ok uc)"

declare np_ok_def [skynet_invs]

definition package :: "u32 \<Rightarrow> bytes \<Rightarrow> netpack" where
  "package fd p = \<lparr>np_id = fd, np_size = length p, np_buffer = map Some p\<rparr>"

lemma get_queue_Some [simp]: "get_queue (Some q) = q"
  by (simp add: get_queue_def)

lemma np_ok_None: "np_ok None" "packs None = []" "pending None fd = []"
  by (auto simp: np_ok_def packs_def pending_def get_queue_def new_queue_def hash_ok_def ring_ok_def nq_content_def
      QUEUESIZE_def unf_def)

lemma unf_hash: "nq_hash q = nq_hash q' \<Longrightarrow> unf q = unf q'"
  by (rule ext) (simp add: unf_def)

lemma hash_ok_hash: "nq_hash q = nq_hash q' \<Longrightarrow> hash_ok q = hash_ok q'"
  by (simp add: hash_ok_def)

lemma np_push_data:
  assumes "np_ok q"
  shows "np_ok (Some (push_data q fd (map Some p) (length p)))"
    "packs (Some (push_data q fd (map Some p) (length p))) = packs q @ [package fd p]"
    "pending (Some (push_data q fd (map Some p) (length p))) = pending q"
    "unf (push_data q fd (map Some p) (length p)) = unf (get_queue q)"
proof -
  let ?q = "push_data q fd (map Some p) (length p)"
  show u: "unf ?q = unf (get_queue q)"
    by (rule unf_hash) (rule push_data_hash)
  have "hash_ok ?q = hash_ok (get_queue q)"
    by (rule hash_ok_hash) (rule push_data_hash)
  then show "np_ok (Some ?q)" "packs (Some ?q) = packs q @ [package fd p]" "pending (Some ?q) = pending q"
    using assms u push_data_correct [of q fd "map Some p" "length p"]
    by (auto simp: np_ok_def packs_def package_def pending_def fun_eq_iff)
qed

lemma np_link:
  assumes "np_ok q" "unf (get_queue q) (uc_fd uc) = None" "uc_ok uc"
  shows "np_ok (Some (link_uncomplete (get_queue q) uc))" "packs (Some (link_uncomplete (get_queue q) uc)) = packs q"
    "pending (Some (link_uncomplete (get_queue q) uc)) = (pending q)(uc_fd uc := uc_bytes uc)"
proof -
  let ?q = "link_uncomplete (get_queue q) uc"
  have l: "hash_ok ?q" "unf ?q = (unf (get_queue q))(uc_fd uc \<mapsto> uc)"
    using link_uncomplete_correct assms(1,2) by (simp_all add: np_ok_def)
  have "ring_ok ?q" "nq_content ?q = nq_content (get_queue q)"
    using ring_update [of "get_queue q" ?q] assms(1) by (simp_all add: np_ok_def link_uncomplete_def Let_def)
  then show "np_ok (Some ?q)" "packs (Some ?q) = packs q" "pending (Some ?q) = (pending q)(uc_fd uc := uc_bytes uc)"
    using assms l by (auto simp: np_ok_def packs_def pending_def fun_eq_iff)
qed

lemma np_save_header:
  assumes "np_ok q" "unf (get_queue q) fd = None"
  shows "np_ok (Some (save_header q fd b))" "packs (Some (save_header q fd b)) = packs q"
    "pending (Some (save_header q fd b)) = (pending q)(fd := [b])"
proof -
  let ?uc = "\<lparr>uc_pack = \<lparr>np_id = fd, np_size = 0, np_buffer = []\<rparr>, uc_read = -1, uc_header = unat b\<rparr>"
  have "save_header q fd b = link_uncomplete (get_queue q) ?uc" "uc_ok ?uc" "uc_bytes ?uc = [b]"
    using unat_byte [of b] by (simp_all add: save_header_def save_uncomplete_def uc_ok_def uc_bytes_def)
  then show "np_ok (Some (save_header q fd b))" "packs (Some (save_header q fd b)) = packs q"
    "pending (Some (save_header q fd b)) = (pending q)(fd := [b])"
    using np_link [OF assms(1), of ?uc] assms(2) by simp_all
qed

lemma np_save_part:
  assumes "np_ok q" "unf (get_queue q) fd = None" "length data < n" "n < 65536"
  shows "\<exists>q'. save_part q fd n data = Inr q' \<and> np_ok (Some q') \<and> packs (Some q') = packs q \<and>
    pending (Some q') = (pending q)(fd := write_size n @ data)"
proof -
  let ?b = "map Some data @ replicate (n - length data) None"
  let ?uc = "\<lparr>uc_pack = \<lparr>np_id = fd, np_size = n, np_buffer = ?b\<rparr>, uc_read = int (length data), uc_header = 0\<rparr>"
  have m: "memcpy_at (malloc_buf n) 0 data = Inr ?b"
    using assms(3) by (simp add: memcpy_at_def malloc_buf_def)
  have "save_part q fd n data = Inr (link_uncomplete (get_queue q) ?uc)" "uc_ok ?uc" "uc_bytes ?uc = write_size n @ data"
    using assms(3,4) m by (auto simp: save_part_def save_uncomplete_def uc_ok_def uc_bytes_def)
  then show ?thesis
    using np_link [OF assms(1), of ?uc] assms(2) by simp
qed

lemma np_push_more:
  "data \<noteq> [] \<Longrightarrow> np_ok q \<Longrightarrow> unf (get_queue q) fd = None \<Longrightarrow> frames data = (ps, rest) \<Longrightarrow>
   \<exists>q'. push_more q fd data = Inr q' \<and> np_ok (Some q') \<and> packs (Some q') = packs q @ map (package fd) ps \<and>
     pending (Some q') = (pending q)(fd := rest)"
proof (induction q fd data arbitrary: ps rule: push_more.induct)
  case (2 q fd b)
  then have "ps = []" "rest = [b]"
    by simp_all
  then show ?case
    using np_save_header [OF 2(2,3), of b] by (intro exI [of _ "save_header q fd b"]) simp
next
  case (3 q fd b0 b1 buffer)
  let ?n = "read_size b0 b1"
  show ?case
  proof (cases "length buffer < ?n")
    case True
    then show ?thesis
      using np_save_part [OF 3(3,4) True read_size_less] 3(5) by (auto simp: write_size_read_size)
  next
    case False
    let ?p = "take ?n buffer" and ?r = "drop ?n buffer"
    let ?q = "push_data q fd (map Some ?p) ?n"
    have len: "length ?p = ?n"
      using False by simp
    note pd = np_push_data [OF 3(3), of fd ?p, unfolded len]
    obtain ps' where ps': "frames ?r = (ps', rest)" "ps = ?p # ps'"
      using 3(5) False by (auto simp: Let_def split: prod.splits)
    show ?thesis
    proof (cases "?r = []")
      case True
      then have "push_more q fd (b0 # b1 # buffer) = Inr ?q"
        using False by (simp add: Let_def)
      moreover have "rest = []" "ps' = []"
        using True ps'(1) by simp_all
      moreover have "pending q = (pending q)(fd := [])"
        using 3(4) by (auto simp: pending_def)
      ultimately show ?thesis
        using pd ps'(2) by auto
    next
      case r: False
      have l: "0 < length ?r" and free: "unf (get_queue (Some ?q)) fd = None"
        using r pd(4) 3(4) by simp_all
      obtain q' where "push_more (Some ?q) fd ?r = Inr q'" "np_ok (Some q')"
          "packs (Some q') = packs (Some ?q) @ map (package fd) ps'" "pending (Some q') = (pending (Some ?q))(fd := rest)"
        using 3(1) [OF refl False refl refl l r pd(1) free ps'(1)] by blast
      then have "push_more q fd (b0 # b1 # buffer) = Inr q' \<and> np_ok (Some q') \<and>
          packs (Some q') = packs q @ map (package fd) ps \<and> pending (Some q') = (pending q)(fd := rest)"
        using False r pd(2,3) ps'(2) by (simp add: Let_def)
      then show ?thesis
        by blast
    qed
  qed
qed simp

text \<open>A socket with an incomplete package whose size is known.\<close>

lemma frames_fill:
  assumes "length got + length data = n" "n < 65536"
  shows "frames (write_size n @ got @ data @ rest) = (case frames rest of (ps, r) \<Rightarrow> ((got @ data) # ps, r))"
proof -
  obtain b0 b1 where "write_size n = [b0, b1]" "read_size b0 b1 = n"
    by (rule read_size_write_size [OF assms(2)])
  then show ?thesis
    using assms(1) by (auto simp: Let_def split: prod.splits)
qed

lemma frames_short:
  assumes "length data < n" "n < 65536"
  shows "frames (write_size n @ data) = ([], write_size n @ data)"
proof -
  obtain b0 b1 where "write_size n = [b0, b1]" "read_size b0 b1 = n"
    by (rule read_size_write_size [OF assms(2)])
  then show ?thesis
    using assms(1) by (simp add: Let_def)
qed

text \<open>What the result of a filtered chunk must be, given the packages that are now complete.\<close>

definition filter_outcome :: "netqueue option \<Rightarrow> u32 \<Rightarrow> bytes list \<Rightarrow> bytes \<Rightarrow> filter_result \<times> netpack list" where
  "filter_outcome q fd ps rest =
    (case ps of
       [] \<Rightarrow> (No_Message, packs q)
     | p # ps' \<Rightarrow> if ps' = [] \<and> rest = [] then (Data fd (map Some p) (length p), packs q)
         else (More, packs q @ map (package fd) ps))"

lemma filter_outcome_more:
  "ps \<noteq> [] \<or> rest \<noteq> [] \<Longrightarrow> filter_outcome q fd (p # ps) rest = (More, packs q @ map (package fd) (p # ps))"
  by (auto simp: filter_outcome_def)

lemma frames_nonempty: "frames data = (ps, rest) \<Longrightarrow> data \<noteq> [] \<Longrightarrow> ps \<noteq> [] \<or> rest \<noteq> []"
  by (cases data rule: frames.cases) (auto simp: Let_def split: if_splits prod.splits)

lemma np_more:
  assumes ok: "np_ok q" and free: "unf (get_queue q) fd = None" and data: "data \<noteq> []" and f: "frames data = (ps, rest)"
  shows "\<exists>q'. push_more (Some (push_data q fd (map Some p) (length p))) fd data = Inr q' \<and> np_ok (Some q') \<and>
    (More, packs (Some q')) = filter_outcome q fd (p # ps) rest \<and> pending (Some q') = (pending q)(fd := rest)"
proof -
  let ?q = "push_data q fd (map Some p) (length p)"
  note pd = np_push_data [OF ok, of fd p]
  have "unf (get_queue (Some ?q)) fd = None"
    using pd(4) free by simp
  then obtain q' where "push_more (Some ?q) fd data = Inr q'" "np_ok (Some q')"
      "packs (Some q') = packs (Some ?q) @ map (package fd) ps" "pending (Some q') = (pending (Some ?q))(fd := rest)"
    using np_push_more [OF data pd(1) _ f] by blast
  then show ?thesis
    using pd filter_outcome_more [OF frames_nonempty [OF f data], of q fd p] by simp
qed

lemma np_fill:
  assumes ok: "np_ok (Some q)" and free: "unf q fd = None"
    and uc: "uc_fd uc = fd" "uc_read uc = int (length got)" "length got \<le> n" "np_size (uc_pack uc) = n" "n < 65536"
      "np_buffer (uc_pack uc) = map Some got @ replicate (n - length got) None"
    and f: "frames (write_size n @ got @ data) = (ps, rest)"
  shows "\<exists>q' r. fill_uncomplete q fd uc data = Inr (q', r) \<and> np_ok (Some q') \<and>
    (r, packs (Some q')) = filter_outcome (Some q) fd ps rest \<and> pending (Some q') = (pending (Some q))(fd := rest)"
proof -
  let ?need = "n - length got"
  have size: "fill_size uc data = Inr (uc, data)"
    using uc(2) by (simp add: fill_size_def)
  show ?thesis
  proof (cases "length data < ?need")
    case True
    let ?b = "map Some (got @ data) @ replicate (n - length (got @ data)) None"
    let ?uc = "uc\<lparr>uc_pack := (uc_pack uc)\<lparr>np_buffer := ?b\<rparr>, uc_read := uc_read uc + int (length data)\<rparr>"
    have m: "memcpy_at (np_buffer (uc_pack uc)) (length got) data = Inr ?b"
      using True by (simp add: uc(6) memcpy_at_def add.commute)
    have fl: "fill_uncomplete q fd uc data = Inr (link_uncomplete q ?uc, No_Message)"
      using True m by (simp add: fill_uncomplete_def size uc(2,4) Let_def)
    have ok': "uc_ok ?uc"
      unfolding uc_ok_def by (rule disjI2) (rule exI [of _ "got @ data"], use True uc in simp)
    have bytes: "uc_bytes ?uc = write_size n @ got @ data"
      using True uc(2,4) by (simp add: uc_bytes_def nat_add_distrib)
    have "ps = []" "rest = write_size n @ got @ data"
      using frames_short [of "got @ data" n] True uc(5) f by simp_all
    then show ?thesis
      using fl bytes np_link [OF ok, of ?uc] ok' free uc(1) by (simp add: filter_outcome_def)
  next
    case False
    let ?p = "got @ take ?need data" and ?d = "drop ?need data"
    have len: "length ?p = n" "length (take ?need data) = ?need"
      using False uc(3) by simp_all
    have m: "memcpy_at (np_buffer (uc_pack uc)) (length got) (take ?need data) = Inr (map Some ?p)"
      using len uc(3) by (simp add: uc(6) memcpy_at_def)
    obtain ps' where ps': "frames ?d = (ps', rest)" "ps = ?p # ps'"
      using frames_fill [of got "take ?need data" n ?d] f len uc(5) by (auto split: prod.splits)
    show ?thesis
    proof (cases "?d = []")
      case True
      have "fill_uncomplete q fd uc data = Inr (q, Data fd (map Some ?p) (length ?p))"
        using False True m len by (simp add: fill_uncomplete_def size uc(2,4) Let_def)
      moreover have "rest = []" "ps' = []"
        using True ps'(1) by simp_all
      moreover have "pending (Some q) = (pending (Some q))(fd := [])"
        using free by (auto simp: pending_def)
      ultimately show ?thesis
        using ok ps'(2) by (auto simp: filter_outcome_def)
    next
      case d: False
      have free': "unf (get_queue (Some q)) fd = None"
        using free by simp
      obtain q' where q': "push_more (Some (push_data (Some q) fd (map Some ?p) (length ?p))) fd ?d = Inr q'" "np_ok (Some q')"
          "(More, packs (Some q')) = filter_outcome (Some q) fd (?p # ps') rest" "pending (Some q') = (pending (Some q))(fd := rest)"
        using np_more [OF ok free' d ps'(1), of ?p] by blast
      have "fill_uncomplete q fd uc data = Inr (q', More)"
        using False d m q'(1) unfolding len(1) by (simp add: fill_uncomplete_def size uc(2,4) Let_def)
      then show ?thesis
        using q'(2-4) ps'(2) by blast
    qed
  qed
qed

lemma netpack_filter_data_lemma:
  assumes ok: "np_ok q" and data: "data \<noteq> []" and f: "frames (pending q fd @ data) = (ps, rest)"
  shows "\<exists>q' r. filter_data q fd data = Inr (q', r) \<and> np_ok q' \<and> (r, packs q') = filter_outcome q fd ps rest \<and>
    pending q' = (pending q)(fd := rest)"
proof (cases "find_uncomplete q fd")
  case None
  then have free: "unf (get_queue q) fd = None"
    using find_uncomplete_None [of "get_queue q" fd] by (cases q) (auto simp: get_queue_def new_queue_def unf_def)
  then have pend: "pending q fd = []" "(pending q)(fd := []) = pending q"
    by (auto simp: pending_def)
  then have f': "frames data = (ps, rest)"
    using f by simp
  show ?thesis
  proof (cases data rule: frames.cases [case_names 1 none one])
    case (1 b0 b1 buffer)
    let ?n = "read_size b0 b1"
    consider "length buffer < ?n" | "length buffer = ?n" | "?n < length buffer"
      by linarith
    then show ?thesis
    proof cases
      case short: 1
      then show ?thesis
        using np_save_part [OF ok free short read_size_less] f' 1 None
        by (auto simp: filter_data_def write_size_read_size filter_outcome_def)
    next
      case 2
      then have "ps = [buffer]" "rest = []"
        using f' 1 by (auto simp: Let_def)
      moreover have "filter_data q fd data = Inr (q, Data fd (map Some buffer) (length buffer))"
        using 1 2 None by (simp add: filter_data_def memcpy_at_def malloc_buf_def)
      ultimately show ?thesis
        using ok pend by (simp add: filter_outcome_def)
    next
      case 3
      let ?p = "take ?n buffer" and ?d = "drop ?n buffer"
      have d: "?d \<noteq> []" and len: "length ?p = ?n"
        using 3 by simp_all
      obtain ps' where ps': "frames ?d = (ps', rest)" "ps = ?p # ps'"
        using f' 1 3 by (auto simp: Let_def split: prod.splits)
      obtain q' where q': "push_more (Some (push_data q fd (map Some ?p) (length ?p))) fd ?d = Inr q'" "np_ok (Some q')"
          "(More, packs (Some q')) = filter_outcome q fd (?p # ps') rest" "pending (Some q') = (pending q)(fd := rest)"
        using np_more [OF ok free d ps'(1), of ?p] by blast
      have "filter_data q fd data = Inr (Some q', More)"
        using q'(1) 1 3 None unfolding len by (simp add: filter_data_def Let_def)
      then show ?thesis
        using q'(2-4) ps'(2) by blast
    qed
  next
    case (one b)
    have "ps = []" "rest = [b]"
      using f' unfolding one by simp_all
    moreover have "filter_data q fd data = Inr (Some (save_header q fd b), No_Message)"
      unfolding one by (simp add: filter_data_def None)
    ultimately have "ps = []" "rest = [b]" "filter_data q fd data = Inr (Some (save_header q fd b), No_Message)"
      by blast+
    then show ?thesis
      using np_save_header [OF ok free, of b] by (simp add: filter_outcome_def)
  qed (use data in simp)
next
  case (Some p)
  then obtain uc q0 where p: "find_uncomplete (Some (get_queue q)) fd = Some (uc, q0)" "find_uncomplete q fd = Some (uc, q0)"
    by (cases p; cases q) (auto simp: find_uncomplete_def)
  have hok: "hash_ok (get_queue q)"
    using ok by (simp add: np_ok_def)
  note u = find_uncomplete_Some [OF hok p(1)]
  have uok: "uc_ok uc"
    using ok u(1) by (auto simp: np_ok_def)
  have "ring_ok q0" "nq_content q0 = nq_content (get_queue q)"
    using ring_update [of "get_queue q" q0] ok arg_cong [OF u(5), of nq_cap] arg_cong [OF u(5), of nq_head]
      arg_cong [OF u(5), of nq_tail] arg_cong [OF u(5), of nq_queue] by (simp_all add: np_ok_def)
  then have ok0: "np_ok (Some q0)" "packs (Some q0) = packs q" "pending (Some q0) = (pending q)(fd := [])"
    using ok u by (auto simp: np_ok_def packs_def pending_def split: if_splits)
  have free0: "unf q0 fd = None"
    using u(3) by simp
  have pend: "pending q fd = uc_bytes uc"
    using u(1) by (simp add: pending_def)
  have out: "filter_outcome (Some q0) fd ps rest = filter_outcome q fd ps rest"
    unfolding filter_outcome_def ok0(2) by (rule refl)
  have "\<exists>q' r. fill_uncomplete q0 fd uc data = Inr (q', r) \<and> np_ok (Some q') \<and>
      (r, packs (Some q')) = filter_outcome (Some q0) fd ps rest \<and> pending (Some q') = (pending (Some q0))(fd := rest)"
  proof (cases "uc_read uc = -1")
    case True
    obtain b buffer where d: "data = b # buffer"
      using data by (cases data) auto
    have h: "uc_header uc < 256"
      using uok True by (auto simp: uc_ok_def)
    define n where "n = unat b OR push_bit 8 (uc_header uc)"
    have n: "n = read_size (of_nat (uc_header uc)) b"
      using h by (simp add: n_def read_size_def or.commute unat_of_nat)
    let ?uc = "uc\<lparr>uc_pack := (uc_pack uc)\<lparr>np_size := n, np_buffer := malloc_buf n\<rparr>, uc_read := 0\<rparr>"
    have "fill_uncomplete q0 fd uc data = fill_uncomplete q0 fd ?uc buffer"
      using True by (simp add: fill_uncomplete_def fill_size_def d Let_def n_def)
    moreover have "frames (write_size n @ [] @ buffer) = (ps, rest)"
      using f pend True d n by (simp add: uc_bytes_def write_size_read_size)
    moreover have "n < 65536"
      using read_size_less n by simp
    ultimately show ?thesis
      using np_fill [OF ok0(1) free0, of ?uc "[]" n buffer ps rest] u(2) by (simp add: malloc_buf_def)
  next
    case False
    then obtain got where got: "uc_read uc = int (length got)" "length got < np_size (uc_pack uc)" "np_size (uc_pack uc) < 65536"
        "np_buffer (uc_pack uc) = map Some got @ replicate (np_size (uc_pack uc) - length got) None"
      using uok by (auto simp: uc_ok_def)
    have "uc_bytes uc = write_size (np_size (uc_pack uc)) @ got"
      using got False by (simp add: uc_bytes_def comp_def)
    then have "frames (write_size (np_size (uc_pack uc)) @ got @ data) = (ps, rest)"
      using f pend by simp
    then show ?thesis
      using np_fill [OF ok0(1) free0 u(2) got(1) _ refl got(3,4)] got(2) by simp
  qed
  then show ?thesis
    using p(2) ok0(3) out by (auto simp: filter_data_def)
qed

text \<open>One chunk of socket data. With the bytes kept for the socket before it, the chunk completes
  the packages \<open>ps\<close> and leaves the incomplete bytes \<open>rest\<close>: nothing is returned when no package is complete;
  the package itself when it is the only one and nothing follows; otherwise all of them are appended to
  the ring in order and \<open>more\<close> is returned. The bytes kept for the socket are then \<open>rest\<close>, those of other
  sockets are unchanged, no copy leaves its buffer, and the invariant holds again.\<close>

theorem netpack_filter_data:
  assumes ok: "np_ok q" and data: "data \<noteq> []" and f: "frames (pending q fd @ data) = (ps, rest)"
  shows "\<exists>q' r. filter_data q fd data = Inr (q', r) \<and> np_ok q' \<and> (r, packs q') = filter_outcome q fd ps rest \<and>
    pending q' = (pending q)(fd := rest)"
  by (rule netpack_filter_data_lemma [OF assms])

lemma np_ok_new: "np_ok None"
  by (rule np_ok_None)

theorem netpack_filter_data_witness:
  "\<exists>q' r. filter_data None 7 [0, 1, 65, 0, 0, 0] = Inr (q', r) \<and>
    (r, packs q') = (More, [package 7 [65], package 7 []]) \<and> pending q' 7 = [0]"
proof -
  have f: "frames (pending None 7 @ [0, 1, 65, 0, 0, 0]) = ([[65], []], [0])"
    by (simp add: np_ok_None read_size_eq Let_def)
  have data: "[0, 1, 65, 0, 0, 0 :: byte] \<noteq> []"
    by simp
  show ?thesis
    using netpack_filter_data [OF np_ok_None(1) data f] by (auto simp: filter_outcome_def np_ok_None)
qed

section \<open>A whole stream\<close>

text \<open>
  The client (\<open>lualib/snax/gateserver.lua\<close>) handles a returned package at once and, on \<open>more\<close>, pops the
  ring until it is empty; \<open>nq_cap\<close> pops are enough for that.
\<close>

fun pop_all :: "nat \<Rightarrow> netqueue \<Rightarrow> netpack list \<times> netqueue" where
  "pop_all 0 q = ([], q)"
| "pop_all (Suc n) q = (case nq_deq q of (None, q') \<Rightarrow> ([], q')
     | (Some p, q') \<Rightarrow> case pop_all n q' of (ps, q'') \<Rightarrow> (p # ps, q''))"

definition client_step :: "netqueue option \<Rightarrow> u32 \<Rightarrow> bytes \<Rightarrow> (netpack list \<times> netqueue option) res" where
  "client_step q fd chunk = res_bind (filter_data q fd chunk) (\<lambda>(q', r). case r of
     Data i b n \<Rightarrow> Inr ([\<lparr>np_id = i, np_size = n, np_buffer = b\<rparr>], q')
   | More \<Rightarrow> (case pop_all (nq_cap (get_queue q')) (get_queue q') of (ps, q'') \<Rightarrow> Inr (ps, Some q''))
   | _ \<Rightarrow> Inr ([], q'))"

fun client_run :: "netqueue option \<Rightarrow> u32 \<Rightarrow> bytes list \<Rightarrow> (netpack list \<times> netqueue option) res" where
  "client_run q fd [] = Inr ([], q)"
| "client_run q fd (c # cs) = res_bind (client_step q fd c) (\<lambda>(ps, q).
     res_bind (client_run q fd cs) (\<lambda>(ps', q). Inr (ps @ ps', q)))"

lemma nq_deq_hash: "nq_hash (snd (nq_deq q)) = nq_hash q"
  by (simp add: nq_deq_def lpop_def get_queue_def)

lemma pop_all_correct:
  "ring_ok q \<Longrightarrow> length (nq_content q) \<le> n \<Longrightarrow>
   \<exists>q'. pop_all n q = (nq_content q, q') \<and> ring_ok q' \<and> nq_content q' = [] \<and> nq_hash q' = nq_hash q"
proof (induction n arbitrary: q)
  case 0
  then show ?case
    by simp
next
  case (Suc n)
  obtain r q' where d: "nq_deq q = (r, q')"
    by fastforce
  have q': "ring_ok q'" "nq_hash q' = nq_hash q"
    using packages.deq_inv [OF Suc.prems(1)] nq_deq_hash [of q] d by simp_all
  show ?case
  proof (cases "nq_content q")
    case Nil
    then show ?thesis
      using packages.deq_empty [OF Suc.prems(1) Nil] d q' by simp
  next
    case (Cons p ps)
    have "r = Some p" "nq_content q' = ps"
      using packages.deq_cons [OF Suc.prems(1) Cons] d by simp_all
    then show ?thesis
      using Suc.IH [OF q'(1)] Suc.prems(2) Cons d q'(2) by auto
  qed
qed

lemma ring_ok_length: "ring_ok q \<Longrightarrow> length (nq_content q) \<le> nq_cap q"
  by (auto simp: ring_ok_def nq_content_def length_ring_list)

lemma client_step_correct:
  assumes ok: "np_ok q" "packs q = []" and data: "c \<noteq> []" and f: "frames (pending q fd @ c) = (ps, rest)"
  shows "\<exists>q'. client_step q fd c = Inr (map (package fd) ps, q') \<and> np_ok q' \<and> packs q' = [] \<and>
    pending q' = (pending q)(fd := rest)"
proof -
  obtain q1 r where q1: "filter_data q fd c = Inr (q1, r)" "np_ok q1" "(r, packs q1) = filter_outcome q fd ps rest"
      "pending q1 = (pending q)(fd := rest)"
    using netpack_filter_data_lemma [OF ok(1) data f] by blast
  show ?thesis
  proof (cases "r = More")
    case False
    then show ?thesis
      using q1 ok(2) by (cases ps) (auto simp: client_step_def filter_outcome_def package_def split: if_splits)
  next
    case True
    then have p: "packs q1 = map (package fd) ps"
      using q1(3) ok(2) by (cases ps) (auto simp: filter_outcome_def split: if_splits)
    let ?q = "get_queue q1"
    have ring: "ring_ok ?q"
      using q1(2) by (simp add: np_ok_def)
    obtain q2 where q2: "pop_all (nq_cap ?q) ?q = (nq_content ?q, q2)" "ring_ok q2" "nq_content q2 = []" "nq_hash q2 = nq_hash ?q"
      using pop_all_correct [OF ring ring_ok_length [OF ring]] by blast
    have "np_ok (Some q2)" "pending (Some q2) = pending q1"
      using q1(2) q2 unf_hash [OF q2(4)] hash_ok_hash [OF q2(4)] by (auto simp: np_ok_def pending_def fun_eq_iff)
    then show ?thesis
      using q1 q2 True p by (simp add: client_step_def packs_def)
  qed
qed

lemma client_run_correct:
  "np_ok q \<Longrightarrow> packs q = [] \<Longrightarrow> \<forall>c \<in> set cs. c \<noteq> [] \<Longrightarrow> frames (pending q fd) = ([], pending q fd) \<Longrightarrow>
   frames (pending q fd @ concat cs) = (ps, rest) \<Longrightarrow>
   \<exists>q'. client_run q fd cs = Inr (map (package fd) ps, q') \<and> np_ok q' \<and> packs q' = [] \<and> pending q' = (pending q)(fd := rest)"
proof (induction cs arbitrary: q ps)
  case Nil
  then show ?case
    by auto
next
  case (Cons c cs)
  obtain ps1 rest1 where f1: "frames (pending q fd @ c) = (ps1, rest1)"
    by fastforce
  obtain ps2 rest2 where f2: "frames (rest1 @ concat cs) = (ps2, rest2)"
    by fastforce
  have all: "ps = ps1 @ ps2" "rest = rest2"
    using frames_append [of "pending q fd @ c" "concat cs"] f1 f2 Cons.prems(5) by simp_all
  have c: "c \<noteq> []"
    using Cons.prems(3) by simp
  obtain q1 where q1: "client_step q fd c = Inr (map (package fd) ps1, q1)" "np_ok q1" "packs q1 = []"
      "pending q1 = (pending q)(fd := rest1)"
    using client_step_correct [OF Cons.prems(1,2) c f1] by blast
  have "frames rest1 = ([], rest1)"
    using frames_rest [of "pending q fd @ c"] f1 by simp
  then have fr: "frames (pending q1 fd) = ([], pending q1 fd)" "frames (pending q1 fd @ concat cs) = (ps2, rest2)"
    using q1(4) f2 by simp_all
  have cs: "\<forall>c \<in> set cs. c \<noteq> []"
    using Cons.prems(3) by simp
  obtain q2 where "client_run q1 fd cs = Inr (map (package fd) ps2, q2)" "np_ok q2" "packs q2 = []"
      "pending q2 = (pending q1)(fd := rest2)"
    using Cons.IH [OF q1(2,3) cs] all(2) fr by blast
  then show ?case
    using q1 all by (auto simp: fun_eq_iff)
qed

lemma frames_packed:
  "\<forall>m \<in> set ms. length m < 65536 \<Longrightarrow> frames (concat (map (\<lambda>m. write_size (length m) @ m) ms)) = (ms, [])"
proof (induction ms)
  case (Cons m ms)
  then show ?case
    using frames_fill [of "[]" m "length m" "concat (map (\<lambda>m. write_size (length m) @ m) ms)"] by simp
qed simp



end
