(* ===== verification/HashId.thy ===== *)
theory HashId
  imports Table
begin

text \<open>
  \<open>hashid.h\<close>: the table of the gate that maps socket ids to the slots of its connection array. The nodes are an
  array (\<open>hi_id\<close>), linked through the indices of their \<open>next\<close> pointers into the chains of a bucket array; a
  free node has the id -1. The walks along a chain are partial functions, so that they end is part of what is
  proved. Socket ids are not negative, and \<open>id + cap\<close> does not overflow an \<open>int\<close>.
\<close>

section \<open>State and operations\<close>

record hashid_node =
  hn_id :: int
  hn_next :: "nat option"

record hashid =
  hi_hashmod :: nat
  hi_cap :: nat
  hi_count :: int
  hi_id :: "hashid_node list"
  hi_hash :: "nat option list"

definition free_node :: hashid_node where
  "free_node = \<lparr>hn_id = -1, hn_next = None\<rparr>"

function hash_capacity :: "nat \<Rightarrow> nat \<Rightarrow> nat" where
  "hash_capacity hashcap mx = (if 0 < hashcap \<and> hashcap < mx then hash_capacity (hashcap * 2) mx else hashcap)"
  by pat_completeness auto
termination
  by (relation "measure (\<lambda>(c, m). m - c)") auto

declare hash_capacity.simps [simp del]

definition hashid_init :: "nat \<Rightarrow> hashid" where
  "hashid_init mx = (let hashcap = hash_capacity 16 mx in
     \<lparr>hi_hashmod = hashcap - 1, hi_cap = mx, hi_count = 0, hi_id = replicate mx free_node, hi_hash = replicate hashcap None\<rparr>)"

definition hashid_clear :: "hashid \<Rightarrow> hashid" where
  "hashid_clear hi = hi\<lparr>hi_id := [], hi_hash := [], hi_hashmod := 1, hi_cap := 0, hi_count := 0\<rparr>"

definition hash_slot :: "hashid \<Rightarrow> int \<Rightarrow> nat" where
  "hash_slot hi i = nat (i AND int (hi_hashmod hi))"

partial_function (option) find_node :: "hashid_node list \<Rightarrow> int \<Rightarrow> nat option \<Rightarrow> nat option option" where
  "find_node ns i c = (case c of
     None \<Rightarrow> Some None
   | Some n \<Rightarrow> if hn_id (ns ! n) = i then Some (Some n) else find_node ns i (hn_next (ns ! n)))"

declare find_node.simps [code]

definition hashid_lookup :: "hashid \<Rightarrow> int \<Rightarrow> int option" where
  "hashid_lookup hi i = map_option (\<lambda>r. case r of None \<Rightarrow> -1 | Some n \<Rightarrow> int n)
     (find_node (hi_id hi) i (hi_hash hi ! hash_slot hi i))"

text \<open>The node before the one with the id, and that one.\<close>

partial_function (option) find_before :: "hashid_node list \<Rightarrow> int \<Rightarrow> nat \<Rightarrow> (nat \<times> nat) option option" where
  "find_before ns i c = (case hn_next (ns ! c) of
     None \<Rightarrow> Some None
   | Some t \<Rightarrow> if hn_id (ns ! t) = i then Some (Some (c, t)) else find_before ns i t)"

declare find_before.simps [code]

definition clear_node :: "hashid \<Rightarrow> nat \<Rightarrow> hashid" where
  "clear_node hi c = hi\<lparr>hi_id := (hi_id hi)[c := free_node], hi_count := hi_count hi - 1\<rparr>"

definition hashid_remove :: "hashid \<Rightarrow> int \<Rightarrow> (int \<times> hashid) option" where
  "hashid_remove hi i =
    (let h = hash_slot hi i; ns = hi_id hi in
     case hi_hash hi ! h of
       None \<Rightarrow> Some (-1, hi)
     | Some c \<Rightarrow>
        if hn_id (ns ! c) = i then Some (int c, clear_node (hi\<lparr>hi_hash := (hi_hash hi)[h := hn_next (ns ! c)]\<rparr>) c)
        else Option.bind (find_before ns i c) (\<lambda>r. case r of
          None \<Rightarrow> Some (-1, hi)
        | Some (c, t) \<Rightarrow>
            Some (int t, clear_node (hi\<lparr>hi_id := ns[c := (ns ! c)\<lparr>hn_next := hn_next (ns ! t)\<rparr>]\<rparr>) t)))"

definition hashid_insert :: "hashid \<Rightarrow> int \<Rightarrow> (nat \<times> hashid) res" where
  "hashid_insert hi i =
    (case find (\<lambda>n. hn_id (hi_id hi ! n) = -1) (map (\<lambda>k. (k + nat i) mod hi_cap hi) [0..<hi_cap hi]) of
       None \<Rightarrow> Inl Assert_Failed
     | Some c \<Rightarrow>
        if hn_next (hi_id hi ! c) \<noteq> None then Inl Assert_Failed
        else (let h = hash_slot hi i; first = hi_hash hi ! h in
          Inr (c, hi\<lparr>hi_count := hi_count hi + 1, hi_id := (hi_id hi)[c := \<lparr>hn_id = i, hn_next = first\<rparr>],
                     hi_hash := (hi_hash hi)[h := Some c]\<rparr>)))"

definition hashid_full :: "hashid \<Rightarrow> bool" where
  "hashid_full hi \<longleftrightarrow> hi_count hi = int (hi_cap hi)"

section \<open>Chains\<close>

fun is_chain :: "hashid_node list \<Rightarrow> nat option \<Rightarrow> nat list \<Rightarrow> bool" where
  "is_chain ns p [] \<longleftrightarrow> p = None"
| "is_chain ns p (n # l) \<longleftrightarrow> p = Some n \<and> is_chain ns (hn_next (ns ! n)) l"

lemma is_chain_update: "n \<notin> set l \<Longrightarrow> is_chain (ns[n := x]) p l = is_chain ns p l"
  by (induction l arbitrary: p) auto

lemma find_node_chain: "is_chain ns p l \<Longrightarrow> find_node ns i p = Some (find (\<lambda>n. hn_id (ns ! n) = i) l)"
  by (induction l arbitrary: p) (subst find_node.simps; auto)+

lemma find_before_none:
  "is_chain ns (Some c) (c # l) \<Longrightarrow> \<forall>n \<in> set l. hn_id (ns ! n) \<noteq> i \<Longrightarrow> find_before ns i c = Some None"
  by (induction l arbitrary: c) (subst find_before.simps; auto)+

lemma find_before_some:
  "is_chain ns (Some c) (c # l1 @ t # l2) \<Longrightarrow> \<forall>n \<in> set l1. hn_id (ns ! n) \<noteq> i \<Longrightarrow> hn_id (ns ! t) = i \<Longrightarrow>
     find_before ns i c = Some (Some (last (c # l1), t))"
  by (induction l1 arbitrary: c) (subst find_before.simps; auto)+

lemma is_chain_unlink:
  "is_chain ns p (l1 @ t # l2) \<Longrightarrow> distinct (l1 @ t # l2) \<Longrightarrow> l1 \<noteq> [] \<Longrightarrow> \<forall>n \<in> set l1. n < length ns \<Longrightarrow>
     is_chain (ns[last l1 := (ns ! last l1)\<lparr>hn_next := hn_next (ns ! t)\<rparr>]) p (l1 @ l2)"
proof (induction l1 arbitrary: p)
  case (Cons a l1)
  show ?case
  proof (cases "l1 = []")
    case True
    then show ?thesis
      using Cons.prems by (simp add: is_chain_update)
  next
    case False
    moreover have "a \<noteq> last l1"
      using False Cons.prems(2) last_in_set [of l1] by auto
    ultimately show ?thesis
      using Cons by simp
  qed
qed simp

lemma find_split:
  "find P l = Some x \<Longrightarrow> \<exists>l1 l2. l = l1 @ x # l2 \<and> (\<forall>y \<in> set l1. \<not> P y) \<and> P x"
proof (induction l)
  case (Cons a l)
  show ?case
  proof (cases "P a")
    case True
    then show ?thesis
      using Cons.prems by (intro exI [of _ "[]"] exI [of _ l]) simp
  next
    case False
    then obtain l1 l2 where "l = l1 @ x # l2" "\<forall>y \<in> set l1. \<not> P y" "P x"
      using Cons by auto
    then show ?thesis
      using False by (intro exI [of _ "a # l1"] exI [of _ l2]) simp
  qed
qed simp

section \<open>The table is a map from ids to slots\<close>

definition used :: "hashid \<Rightarrow> nat \<Rightarrow> bool" where
  "used hi n \<longleftrightarrow> n < hi_cap hi \<and> hn_id (hi_id hi ! n) \<noteq> -1"

definition chains_ok :: "hashid \<Rightarrow> (nat \<Rightarrow> nat list) \<Rightarrow> bool" where
  "chains_ok hi ch \<longleftrightarrow>
     (\<forall>h \<le> hi_hashmod hi. is_chain (hi_id hi) (hi_hash hi ! h) (ch h) \<and> distinct (ch h) \<and>
        (\<forall>n \<in> set (ch h). used hi n \<and> hash_slot hi (hn_id (hi_id hi ! n)) = h)) \<and>
     (\<forall>n. used hi n \<longrightarrow> n \<in> set (ch (hash_slot hi (hn_id (hi_id hi ! n)))))"

definition nodes_ok :: "hashid \<Rightarrow> bool" where
  "nodes_ok hi \<longleftrightarrow> length (hi_id hi) = hi_cap hi \<and> length (hi_hash hi) = hi_hashmod hi + 1 \<and>
     (\<forall>n < hi_cap hi. hn_id (hi_id hi ! n) = -1 \<longrightarrow> hn_next (hi_id hi ! n) = None) \<and>
     (\<forall>n m. used hi n \<longrightarrow> used hi m \<longrightarrow> hn_id (hi_id hi ! n) = hn_id (hi_id hi ! m) \<longrightarrow> n = m) \<and>
     (\<forall>n. used hi n \<longrightarrow> 0 \<le> hn_id (hi_id hi ! n)) \<and>
     hi_count hi = int (card {n. used hi n})"

definition hashid_inv :: "hashid \<Rightarrow> bool" where
  "hashid_inv hi \<longleftrightarrow> nodes_ok hi \<and> (\<exists>ch. chains_ok hi ch)"

declare hashid_inv_def [skynet_invs]

definition slot_of :: "hashid \<Rightarrow> int \<Rightarrow> nat option" where
  "slot_of hi i = (if i < 0 then None else find (\<lambda>n. hn_id (hi_id hi ! n) = i) [0..<hi_cap hi])"

lemma hash_slot_le: "hash_slot hi i \<le> hi_hashmod hi"
  using AND_upper2 [where x = i and y = "int (hi_hashmod hi)"] by (simp add: hash_slot_def nat_le_iff)

lemma slot_of_Some:
  assumes "nodes_ok hi"
  shows "slot_of hi i = Some n \<longleftrightarrow> used hi n \<and> hn_id (hi_id hi ! n) = i"
proof
  assume s: "slot_of hi i = Some n"
  then have "find (\<lambda>n. hn_id (hi_id hi ! n) = i) [0..<hi_cap hi] = Some n" "0 \<le> i"
    by (auto simp: slot_of_def split: if_splits)
  then show "used hi n \<and> hn_id (hi_id hi ! n) = i"
    by (auto simp: used_def find_Some_iff)
next
  assume u: "used hi n \<and> hn_id (hi_id hi ! n) = i"
  then have i: "0 \<le> i" and n: "n < hi_cap hi"
    using assms by (auto simp: nodes_ok_def used_def)
  have "find (\<lambda>n. hn_id (hi_id hi ! n) = i) [0..<hi_cap hi] \<noteq> None"
    using u n by (auto simp: find_None_iff)
  then obtain m where m: "find (\<lambda>n. hn_id (hi_id hi ! n) = i) [0..<hi_cap hi] = Some m"
    by blast
  then have "m < hi_cap hi" "hn_id (hi_id hi ! m) = i"
    by (auto simp: find_Some_iff)
  then have "m = n"
    using assms u i by (auto simp: nodes_ok_def used_def)
  then show "slot_of hi i = Some n"
    using m i by (simp add: slot_of_def)
qed

lemma slot_of_None: "nodes_ok hi \<Longrightarrow> slot_of hi i = None \<Longrightarrow> used hi n \<Longrightarrow> hn_id (hi_id hi ! n) \<noteq> i"
  using slot_of_Some [of hi i n] by auto

lemma find_in_chain:
  assumes ok: "nodes_ok hi" "chains_ok hi ch"
  shows "find (\<lambda>n. hn_id (hi_id hi ! n) = i) (ch (hash_slot hi i)) = slot_of hi i"
proof (cases "slot_of hi i")
  case None
  have "used hi n" if "n \<in> set (ch (hash_slot hi i))" for n
    using ok(2) hash_slot_le [of hi i] that by (auto simp: chains_ok_def)
  then show ?thesis
    using slot_of_None [OF ok(1) None] None by (auto simp: find_None_iff)
next
  case (Some n)
  then have n: "used hi n" "hn_id (hi_id hi ! n) = i"
    using slot_of_Some [OF ok(1)] by simp_all
  then have mem: "n \<in> set (ch (hash_slot hi i))"
    using ok(2) by (auto simp: chains_ok_def)
  obtain m where m: "find (\<lambda>n. hn_id (hi_id hi ! n) = i) (ch (hash_slot hi i)) = Some m"
    using mem n(2) by (cases "find (\<lambda>n. hn_id (hi_id hi ! n) = i) (ch (hash_slot hi i))") (auto simp: find_None_iff)
  then have "m \<in> set (ch (hash_slot hi i))" "hn_id (hi_id hi ! m) = i"
    by (auto simp: find_Some_iff)
  then have "slot_of hi i = Some m"
    using ok hash_slot_le [of hi i] unfolding slot_of_Some [OF ok(1)] by (auto simp: chains_ok_def)
  then show ?thesis
    using m by simp
qed

lemma hashid_lookup_correct:
  assumes "hashid_inv hi"
  shows "hashid_lookup hi i = Some (case slot_of hi i of None \<Rightarrow> -1 | Some n \<Rightarrow> int n)"
proof -
  obtain ch where ok: "nodes_ok hi" "chains_ok hi ch"
    using assms by (auto simp: hashid_inv_def)
  have "is_chain (hi_id hi) (hi_hash hi ! hash_slot hi i) (ch (hash_slot hi i))"
    using ok(2) hash_slot_le [of hi i] by (auto simp: chains_ok_def)
  then show ?thesis
    using find_in_chain [OF ok, of i] by (simp add: hashid_lookup_def find_node_chain)
qed

lemma hashid_init_inv: "hashid_inv (hashid_init mx)" "slot_of (hashid_init mx) i = None" "hi_cap (hashid_init mx) = mx"
proof -
  let ?hi = "hashid_init mx"
  have pos: "0 < hash_capacity c m" if "0 < c" for c m
    using that by (induction c m rule: hash_capacity.induct) (subst hash_capacity.simps, auto)
  have u: "used ?hi n \<longleftrightarrow> False" for n
    by (auto simp: used_def hashid_init_def Let_def free_node_def)
  have n: "nodes_ok ?hi"
    using pos [of 16 mx] by (auto simp: nodes_ok_def u) (auto simp: hashid_init_def Let_def free_node_def)
  have h: "hi_hash ?hi ! h = None" if "h \<le> hi_hashmod ?hi" for h
    using that pos [of 16 mx] by (simp add: hashid_init_def Let_def)
  have "chains_ok ?hi (\<lambda>_. [])"
    using h by (simp add: chains_ok_def u)
  then show "hashid_inv ?hi"
    using n by (auto simp: hashid_inv_def)
  show "slot_of ?hi i = None"
    using slot_of_Some [OF n, of i] u by (cases "slot_of ?hi i") auto
  show "hi_cap ?hi = mx"
    by (simp add: hashid_init_def Let_def)
qed

lemma option_ext: "(\<And>m. a = Some m \<longleftrightarrow> b = Some m) \<Longrightarrow> a = b"
  by (cases a; cases b) auto

text \<open>Freeing a node that was unlinked from its chain.\<close>

lemma unlinked_inv:
  assumes ok: "nodes_ok hi" "chains_ok hi ch" and n: "used hi n"
    and hi': "hi_cap hi' = hi_cap hi" "hi_hashmod hi' = hi_hashmod hi" "hi_count hi' = hi_count hi - 1"
      "length (hi_id hi') = hi_cap hi" "length (hi_hash hi') = hi_hashmod hi + 1"
    and ids: "\<And>m. m < hi_cap hi \<Longrightarrow> hn_id (hi_id hi' ! m) = (if m = n then -1 else hn_id (hi_id hi ! m))"
    and nexts: "hn_next (hi_id hi' ! n) = None" "\<And>m. m < hi_cap hi \<Longrightarrow> hn_id (hi_id hi ! m) = -1 \<Longrightarrow> hi_id hi' ! m = hi_id hi ! m"
    and chain: "\<And>h. h \<le> hi_hashmod hi \<Longrightarrow> is_chain (hi_id hi') (hi_hash hi' ! h) (filter (\<lambda>m. m \<noteq> n) (ch h))"
  shows "hashid_inv hi'" "slot_of hi' = (slot_of hi)(hn_id (hi_id hi ! n) := None)"
proof -
  have u: "used hi' m \<longleftrightarrow> used hi m \<and> m \<noteq> n" for m
    using ids [of m] n hi'(1) by (cases "m = n") (auto simp: used_def)
  have eq: "hn_id (hi_id hi' ! m) = hn_id (hi_id hi ! m)" if "used hi' m" for m
    using ids [of m] that u [of m] by (auto simp: used_def)
  have slot: "hash_slot hi' i = hash_slot hi i" for i
    by (simp add: hash_slot_def hi'(2))
  have fin: "finite {m. used hi m}"
    by (rule finite_subset [of _ "{..<hi_cap hi}"]) (auto simp: used_def)
  have "{m. used hi' m} = {m. used hi m} - {n}"
    using u by auto
  then have card: "int (card {m. used hi' m}) = int (card {m. used hi m}) - 1"
    using card_Suc_Diff1 [OF fin, of n] n by simp
  have nok: "nodes_ok hi'"
    unfolding nodes_ok_def
  proof (intro conjI allI impI)
    show "hn_next (hi_id hi' ! m) = None" if "m < hi_cap hi'" "hn_id (hi_id hi' ! m) = -1" for m
      using that ok(1) ids [of m] nexts hi'(1) by (cases "m = n") (auto simp: nodes_ok_def)
    show "m = k" if "used hi' m" "used hi' k" "hn_id (hi_id hi' ! m) = hn_id (hi_id hi' ! k)" for m k
      using that eq [of m] eq [of k] u ok(1) by (simp add: nodes_ok_def)
    show "0 \<le> hn_id (hi_id hi' ! m)" if "used hi' m" for m
      using that eq [of m] u ok(1) by (simp add: nodes_ok_def)
    show "hi_count hi' = int (card {m. used hi' m})"
      using ok(1) card hi'(3) by (simp add: nodes_ok_def)
  qed (simp_all add: hi')
  have "chains_ok hi' (\<lambda>h. filter (\<lambda>m. m \<noteq> n) (ch h))"
    unfolding chains_ok_def slot hi'(2)
  proof (intro conjI allI impI ballI)
    fix h
    assume h: "h \<le> hi_hashmod hi"
    show "is_chain (hi_id hi') (hi_hash hi' ! h) (filter (\<lambda>m. m \<noteq> n) (ch h))" "distinct (filter (\<lambda>m. m \<noteq> n) (ch h))"
      using chain [OF h] ok(2) h by (auto simp: chains_ok_def)
    fix m
    assume m: "m \<in> set (filter (\<lambda>m. m \<noteq> n) (ch h))"
    then have um: "used hi m" "m \<noteq> n" "hash_slot hi (hn_id (hi_id hi ! m)) = h"
      using ok(2) h by (auto simp: chains_ok_def)
    then show "used hi' m" "hash_slot hi (hn_id (hi_id hi' ! m)) = h"
      using u eq [of m] by simp_all
  next
    fix m
    assume "used hi' m"
    then show "m \<in> set (filter (\<lambda>m. m \<noteq> n) (ch (hash_slot hi (hn_id (hi_id hi' ! m)))))"
      using u eq [of m] ok(2) by (auto simp: chains_ok_def)
  qed
  then show "hashid_inv hi'"
    using nok by (auto simp: hashid_inv_def)
  show "slot_of hi' = (slot_of hi)(hn_id (hi_id hi ! n) := None)"
  proof
    fix i
    have "used hi' m \<and> hn_id (hi_id hi' ! m) = i \<longleftrightarrow> i \<noteq> hn_id (hi_id hi ! n) \<and> used hi m \<and> hn_id (hi_id hi ! m) = i" for m
    proof (cases "used hi m \<and> m \<noteq> n")
      case True
      then have "hn_id (hi_id hi ! m) \<noteq> hn_id (hi_id hi ! n)"
        using ok(1) n unfolding nodes_ok_def by blast
      then show ?thesis
        using True u eq [of m] by auto
    next
      case False
      then show ?thesis
        using u by auto
    qed
    then have s: "slot_of hi' i = Some m \<longleftrightarrow> i \<noteq> hn_id (hi_id hi ! n) \<and> slot_of hi i = Some m" for m
      by (simp only: slot_of_Some [OF nok] slot_of_Some [OF ok(1)])
    show "slot_of hi' i = ((slot_of hi)(hn_id (hi_id hi ! n) := None)) i"
      by (rule option_ext) (simp add: s)
  qed
qed

lemma filter_absent: "t \<notin> set l \<Longrightarrow> filter (\<lambda>m. m \<noteq> t) l = l"
  by (induction l) auto

lemma filter_out: "distinct (l1 @ t # l2) \<Longrightarrow> filter (\<lambda>m. m \<noteq> t) (l1 @ t # l2) = l1 @ l2"
  by (simp add: filter_absent)

lemma hn_id_next_update: "hn_id (ns[p := (ns ! p)\<lparr>hn_next := z\<rparr>] ! m) = hn_id (ns ! m)"
  by (cases "p < length ns"; cases "m = p") (simp_all add: list_update_beyond)

lemma hashid_remove_correct:
  assumes "hashid_inv hi"
  shows "\<exists>hi'. hashid_remove hi i = Some (case slot_of hi i of None \<Rightarrow> -1 | Some n \<Rightarrow> int n, hi') \<and> hashid_inv hi' \<and>
    slot_of hi' = (slot_of hi)(i := None) \<and> hi_cap hi' = hi_cap hi"
proof -
  obtain ch where ok: "nodes_ok hi" "chains_ok hi ch"
    using assms by (auto simp: hashid_inv_def)
  let ?h = "hash_slot hi i"
  have h: "?h \<le> hi_hashmod hi"
    by (rule hash_slot_le)
  have chain: "is_chain (hi_id hi) (hi_hash hi ! x) (ch x)" "distinct (ch x)"
      "\<And>n. n \<in> set (ch x) \<Longrightarrow> used hi n \<and> hash_slot hi (hn_id (hi_id hi ! n)) = x" if "x \<le> hi_hashmod hi" for x
    using ok(2) that by (auto simp: chains_ok_def)
  have lens: "length (hi_id hi) = hi_cap hi" "length (hi_hash hi) = hi_hashmod hi + 1"
    using ok(1) by (simp_all add: nodes_ok_def)
  note fc = find_in_chain [OF ok, of i]
  show ?thesis
  proof (cases "slot_of hi i")
    case None
    have none: "\<forall>n \<in> set (ch ?h). hn_id (hi_id hi ! n) \<noteq> i"
      using fc None by (auto simp: find_None_iff)
    have "hashid_remove hi i = Some (-1, hi)"
    proof (cases "ch ?h")
      case Nil
      then show ?thesis
        using chain(1) [OF h] by (simp add: hashid_remove_def Let_def)
    next
      case (Cons c l)
      then have "find_before (hi_id hi) i c = Some None"
        using chain(1) [OF h] none by (intro find_before_none [of _ _ l]) auto
      then show ?thesis
        using chain(1) [OF h] none Cons by (simp add: hashid_remove_def Let_def)
    qed
    then show ?thesis
      using assms None by (auto simp: fun_upd_idem)
  next
    case (Some t)
    then have t: "used hi t" "hn_id (hi_id hi ! t) = i" "t < hi_cap hi"
      using slot_of_Some [OF ok(1)] by (simp_all add: used_def)
    obtain l1 l2 where l: "ch ?h = l1 @ t # l2" "\<forall>n \<in> set l1. hn_id (hi_id hi ! n) \<noteq> i"
      using find_split [OF fc [unfolded Some]] by auto
    have outside: "t \<notin> set (ch x)" if "x \<le> hi_hashmod hi" "x \<noteq> ?h" for x
      using chain(3) [OF that(1), of t] that(2) t(2) by auto
    have lt: "n < hi_cap hi" "used hi n" if "n \<in> set (ch x)" "x \<le> hi_hashmod hi" for n x
      using chain(3) [OF that(2,1)] by (auto simp: used_def)
    have flt: "filter (\<lambda>m. m \<noteq> t) (ch x) = (if x = ?h then l1 @ l2 else ch x)" if "x \<le> hi_hashmod hi" for x
      using filter_out [of l1 t l2] chain(2) [OF h] l(1) outside [OF that] by (cases "x = ?h") (simp_all add: filter_absent)
    have "\<exists>hi0. hashid_remove hi i = Some (int t, clear_node hi0 t) \<and> hi_cap hi0 = hi_cap hi \<and> hi_hashmod hi0 = hi_hashmod hi \<and>
        hi_count hi0 = hi_count hi \<and> length (hi_id hi0) = hi_cap hi \<and> length (hi_hash hi0) = hi_hashmod hi + 1 \<and>
        (\<forall>m < hi_cap hi. hn_id (hi_id hi0 ! m) = hn_id (hi_id hi ! m)) \<and>
        (\<forall>m < hi_cap hi. hn_id (hi_id hi ! m) = -1 \<longrightarrow> hi_id hi0 ! m = hi_id hi ! m) \<and>
        (\<forall>x \<le> hi_hashmod hi. is_chain (hi_id hi0) (hi_hash hi0 ! x) (filter (\<lambda>m. m \<noteq> t) (ch x)))"
    proof (cases l1)
      case Nil
      let ?hi0 = "hi\<lparr>hi_hash := (hi_hash hi)[?h := hn_next (hi_id hi ! t)]\<rparr>"
      have first: "hi_hash hi ! ?h = Some t" "is_chain (hi_id hi) (hn_next (hi_id hi ! t)) l2"
        using chain(1) [OF h] l(1) Nil by simp_all
      have "is_chain (hi_id ?hi0) (hi_hash ?hi0 ! x) (filter (\<lambda>m. m \<noteq> t) (ch x))" if "x \<le> hi_hashmod hi" for x
        using flt [OF that] chain(1) [OF that] first(2) Nil h lens(2) by (cases "x = ?h") simp_all
      then show ?thesis
        using first(1) t(2) lens by (intro exI [of _ ?hi0]) (simp add: hashid_remove_def Let_def)
    next
      case (Cons c l1')
      let ?p = "last (c # l1')"
      let ?hi0 = "hi\<lparr>hi_id := (hi_id hi)[?p := (hi_id hi ! ?p)\<lparr>hn_next := hn_next (hi_id hi ! t)\<rparr>]\<rparr>"
      have p: "?p \<in> set (ch ?h)"
        using l(1) Cons last_in_set [of "c # l1'"] by auto
      have c: "hi_hash hi ! ?h = Some c" "hn_id (hi_id hi ! c) \<noteq> i"
        using chain(1) [OF h] l Cons by simp_all
      have "find_before (hi_id hi) i c = Some (Some (?p, t))"
        using chain(1) [OF h] l Cons t(2) by (intro find_before_some [of _ _ l1' _ l2]) simp_all
      then have "hashid_remove hi i = Some (int t, clear_node ?hi0 t)"
        using c by (simp add: hashid_remove_def Let_def)
      moreover have "is_chain (hi_id ?hi0) (hi_hash ?hi0 ! x) (filter (\<lambda>m. m \<noteq> t) (ch x))" if x: "x \<le> hi_hashmod hi" for x
      proof (cases "x = ?h")
        case True
        have "is_chain (hi_id hi) (hi_hash hi ! ?h) ((c # l1') @ t # l2)" "distinct ((c # l1') @ t # l2)"
            "\<forall>n \<in> set (c # l1'). n < length (hi_id hi)"
          using chain [OF h] l(1) Cons lt(1) [OF _ h] lens(1) by auto
        then show ?thesis
          using is_chain_unlink [of "hi_id hi" "hi_hash hi ! ?h" "c # l1'" t l2] flt [OF x] True Cons by simp
      next
        case False
        then have "?p \<notin> set (ch x)"
          using chain(3) [OF h p] chain(3) [OF x, of ?p] by auto
        then show ?thesis
          using chain(1) [OF x] flt [OF x] False by (simp add: is_chain_update)
      qed
      moreover have "hn_id ((hi_id hi)[?p := (hi_id hi ! ?p)\<lparr>hn_next := z\<rparr>] ! m) = hn_id (hi_id hi ! m)" for m z
        by (rule hn_id_next_update)
      moreover have "(hi_id hi)[?p := (hi_id hi ! ?p)\<lparr>hn_next := z\<rparr>] ! m = hi_id hi ! m" if "hn_id (hi_id hi ! m) = -1" for m z
      proof -
        have "?p \<noteq> m"
          using lt(2) [OF p h] that by (auto simp: used_def)
        then show ?thesis
          by (rule nth_list_update_neq)
      qed
      ultimately show ?thesis
        using lens by (intro exI [of _ ?hi0]) simp
    qed
    then obtain hi0 where r: "hashid_remove hi i = Some (int t, clear_node hi0 t)" "hi_cap hi0 = hi_cap hi"
        "hi_hashmod hi0 = hi_hashmod hi" "hi_count hi0 = hi_count hi" "length (hi_id hi0) = hi_cap hi"
        "length (hi_hash hi0) = hi_hashmod hi + 1" "\<forall>m < hi_cap hi. hn_id (hi_id hi0 ! m) = hn_id (hi_id hi ! m)"
        "\<forall>m < hi_cap hi. hn_id (hi_id hi ! m) = -1 \<longrightarrow> hi_id hi0 ! m = hi_id hi ! m"
        "\<forall>x \<le> hi_hashmod hi. is_chain (hi_id hi0) (hi_hash hi0 ! x) (filter (\<lambda>m. m \<noteq> t) (ch x))"
      by blast
    have "is_chain (hi_id (clear_node hi0 t)) (hi_hash (clear_node hi0 t) ! x) (filter (\<lambda>m. m \<noteq> t) (ch x))"
      if "x \<le> hi_hashmod hi" for x
      using r(9) that by (simp add: clear_node_def is_chain_update)
    note chains = this
    have fields: "hi_cap (clear_node hi0 t) = hi_cap hi" "hi_hashmod (clear_node hi0 t) = hi_hashmod hi"
        "hi_count (clear_node hi0 t) = hi_count hi - 1" "length (hi_id (clear_node hi0 t)) = hi_cap hi"
        "length (hi_hash (clear_node hi0 t)) = hi_hashmod hi + 1"
      using r(2-6) by (simp_all add: clear_node_def)
    have node: "hi_id (clear_node hi0 t) ! m = (if m = t then free_node else hi_id hi0 ! m)" for m
      using r(5) t(3) by (simp add: clear_node_def)
    have ids: "hn_id (hi_id (clear_node hi0 t) ! m) = (if m = t then -1 else hn_id (hi_id hi ! m))" if "m < hi_cap hi" for m
      using r(7) that by (simp add: node free_node_def)
    have nexts: "hn_next (hi_id (clear_node hi0 t) ! t) = None"
      by (simp add: node free_node_def)
    have rest: "hi_id (clear_node hi0 t) ! m = hi_id hi ! m" if "m < hi_cap hi" "hn_id (hi_id hi ! m) = -1" for m
      using r(8) that t(1) by (auto simp: node used_def)
    have "hashid_inv (clear_node hi0 t)" "slot_of (clear_node hi0 t) = (slot_of hi)(hn_id (hi_id hi ! t) := None)"
      by (rule unlinked_inv [OF ok t(1) fields ids nexts rest chains]; assumption)+
    then show ?thesis
      using r(1) fields(1) Some t(2) by simp
  qed
qed

section \<open>Insertion\<close>

text \<open>The probing order, from the slot \<open>id mod cap\<close> round the array, tries every slot.\<close>

lemma probe_all:
  assumes m: "m < c"
  shows "m \<in> set (map (\<lambda>k. (k + a) mod c) [0..<c])"
proof -
  define k where "k = (m + (c - a mod c)) mod c"
  have "a mod c < c"
    using m by simp
  then have le: "m + (c - a mod c) + a mod c = m + c"
    by arith
  have "(k + a) mod c = (m + (c - a mod c) + a mod c) mod c"
    unfolding k_def by (simp only: mod_add_left_eq mod_add_right_eq)
  then have km: "(k + a) mod c = m"
    using m by (simp only: le) simp
  have "k < c"
    using m by (simp add: k_def)
  then have "k \<in> set [0..<c]"
    by simp
  then show ?thesis
    unfolding set_map by (rule rev_image_eqI) (rule km [symmetric])
qed

lemma find_free_slot:
  assumes "nodes_ok hi"
  shows "(case find (\<lambda>n. hn_id (hi_id hi ! n) = -1) (map (\<lambda>k. (k + a) mod hi_cap hi) [0..<hi_cap hi]) of
      None \<Rightarrow> \<forall>n < hi_cap hi. used hi n
    | Some c \<Rightarrow> c < hi_cap hi \<and> \<not> used hi c \<and> hn_id (hi_id hi ! c) = -1)"
proof (cases "find (\<lambda>n. hn_id (hi_id hi ! n) = -1) (map (\<lambda>k. (k + a) mod hi_cap hi) [0..<hi_cap hi])")
  case None
  have "hn_id (hi_id hi ! n) \<noteq> -1" if "n < hi_cap hi" for n
    using None probe_all [OF that, of a] unfolding find_None_iff by blast
  then show ?thesis
    using None by (simp add: used_def)
next
  case (Some c)
  then obtain l1 l2 where "map (\<lambda>k. (k + a) mod hi_cap hi) [0..<hi_cap hi] = l1 @ c # l2" and free: "hn_id (hi_id hi ! c) = -1"
    using find_split [OF Some] by blast
  then have "c \<in> set (map (\<lambda>k. (k + a) mod hi_cap hi) [0..<hi_cap hi])"
    by (metis in_set_conv_decomp)
  then obtain k where "c = (k + a) mod hi_cap hi" "k < hi_cap hi"
    by auto
  then have "c < hi_cap hi"
    by simp
  then show ?thesis
    using Some free by (simp add: used_def)
qed

lemma hashid_full_iff:
  assumes "nodes_ok hi"
  shows "hashid_full hi \<longleftrightarrow> (\<forall>n < hi_cap hi. used hi n)"
proof -
  have sub: "{n. used hi n} \<subseteq> {..<hi_cap hi}"
    by (auto simp: used_def)
  have "hashid_full hi \<longleftrightarrow> card {n. used hi n} = card {..<hi_cap hi}"
    using assms by (simp add: hashid_full_def nodes_ok_def)
  also have "\<dots> \<longleftrightarrow> {n. used hi n} = {..<hi_cap hi}"
  proof
    assume "card {n. used hi n} = card {..<hi_cap hi}"
    then show "{n. used hi n} = {..<hi_cap hi}"
      by (rule card_subset_eq [OF finite_lessThan sub])
  qed (rule arg_cong)
  also have "\<dots> \<longleftrightarrow> (\<forall>n < hi_cap hi. used hi n)"
    using sub by blast
  finally show ?thesis .
qed

lemma linked_inv:
  assumes ok: "nodes_ok hi" "chains_ok hi ch" and i: "0 \<le> i" "slot_of hi i = None"
    and c: "c < hi_cap hi" "\<not> used hi c"
    and hi': "hi' = hi\<lparr>hi_count := hi_count hi + 1, hi_id := (hi_id hi)[c := \<lparr>hn_id = i, hn_next = hi_hash hi ! hash_slot hi i\<rparr>],
                     hi_hash := (hi_hash hi)[hash_slot hi i := Some c]\<rparr>"
  shows "hashid_inv hi'" "slot_of hi' = (slot_of hi)(i \<mapsto> c)"
proof -
  have lens: "length (hi_id hi) = hi_cap hi" "length (hi_hash hi) = hi_hashmod hi + 1"
    using ok(1) by (simp_all add: nodes_ok_def)
  have f: "hi_cap hi' = hi_cap hi" "hi_hashmod hi' = hi_hashmod hi" "hi_count hi' = hi_count hi + 1"
      "length (hi_id hi') = hi_cap hi" "length (hi_hash hi') = hi_hashmod hi + 1"
    by (simp_all add: hi' lens)
  have node: "hi_id hi' ! m = (if m = c then \<lparr>hn_id = i, hn_next = hi_hash hi ! hash_slot hi i\<rparr> else hi_id hi ! m)" for m
    using lens c by (simp add: hi')
  have u: "used hi' m \<longleftrightarrow> used hi m \<or> m = c" for m
    using node [of m] i(1) c by (cases "m = c") (simp_all add: used_def f)
  have slot: "hash_slot hi' j = hash_slot hi j" for j
    by (simp add: hash_slot_def f)
  have fin: "finite {m. used hi m}"
    by (rule finite_subset [of _ "{..<hi_cap hi}"]) (auto simp: used_def)
  have "{m. used hi' m} = insert c {m. used hi m}"
    using u by auto
  then have card: "int (card {m. used hi' m}) = int (card {m. used hi m}) + 1"
    using fin c(2) by simp
  have new: "hn_id (hi_id hi ! m) \<noteq> i" if "used hi m" for m
    by (rule slot_of_None [OF ok(1) i(2) that])
  have nok: "nodes_ok hi'"
    unfolding nodes_ok_def
  proof (intro conjI allI impI)
    show "hn_next (hi_id hi' ! m) = None" if "m < hi_cap hi'" "hn_id (hi_id hi' ! m) = -1" for m
      using that ok(1) node [of m] i(1) f(1) by (cases "m = c") (simp_all add: nodes_ok_def)
    show "m = k" if "used hi' m" "used hi' k" "hn_id (hi_id hi' ! m) = hn_id (hi_id hi' ! k)" for m k
      using that node [of m] node [of k] u [of m] u [of k] new [of m] new [of k] ok(1)
      by (cases "m = c"; cases "k = c") (simp_all add: nodes_ok_def)
    show "0 \<le> hn_id (hi_id hi' ! m)" if "used hi' m" for m
      using that node [of m] u [of m] ok(1) i(1) by (cases "m = c") (simp_all add: nodes_ok_def)
    show "hi_count hi' = int (card {m. used hi' m})"
      using ok(1) card f(3) by (simp add: nodes_ok_def)
  qed (simp_all add: f)
  define ch' where "ch' = ch(hash_slot hi i := c # ch (hash_slot hi i))"
  have out: "c \<notin> set (ch h)" if "h \<le> hi_hashmod hi" for h
    using ok(2) that c(2) by (auto simp: chains_ok_def)
  have "chains_ok hi' ch'"
    unfolding chains_ok_def slot f(2)
  proof (intro conjI allI impI ballI)
    fix h
    assume h: "h \<le> hi_hashmod hi"
    have old: "is_chain (hi_id hi') (hi_hash hi ! h) (ch h)" "distinct (ch h)"
      using ok(2) h out [OF h] by (simp_all add: chains_ok_def hi' is_chain_update)
    show "is_chain (hi_id hi') (hi_hash hi' ! h) (ch' h)"
    proof (cases "h = hash_slot hi i")
      case True
      have "hi_hash hi' ! h = Some c"
        using True h lens(2) by (simp add: hi')
      then show ?thesis
        using old(1) True node [of c] by (simp add: ch'_def)
    next
      case False
      then show ?thesis
        using old(1) by (simp add: hi' ch'_def)
    qed
    show "distinct (ch' h)"
      using old(2) out [OF h] by (auto simp: ch'_def)
    fix m
    assume m: "m \<in> set (ch' h)"
    show "used hi' m" "hash_slot hi (hn_id (hi_id hi' ! m)) = h"
      using m ok(2) h out [OF h] u [of m] node [of m]
      by (cases "m = c"; cases "h = hash_slot hi i"; simp add: ch'_def chains_ok_def)+
  next
    fix m
    assume m: "used hi' m"
    show "m \<in> set (ch' (hash_slot hi (hn_id (hi_id hi' ! m))))"
      using m u [of m] node [of m] ok(2) by (cases "m = c") (auto simp: ch'_def chains_ok_def)
  qed
  then show "hashid_inv hi'"
    using nok by (auto simp: hashid_inv_def)
  show "slot_of hi' = (slot_of hi)(i \<mapsto> c)"
  proof
    fix j
    have "used hi' m \<and> hn_id (hi_id hi' ! m) = j \<longleftrightarrow> (if j = i then m = c else used hi m \<and> hn_id (hi_id hi ! m) = j)" for m
      using u [of m] node [of m] new [of m] c(2) by (cases "m = c") auto
    then show "slot_of hi' j = ((slot_of hi)(i \<mapsto> c)) j"
      using slot_of_Some [OF nok, of j] slot_of_Some [OF ok(1), of j] by (intro option_ext) auto
  qed
qed

lemma hashid_insert_correct:
  assumes "hashid_inv hi" "0 \<le> i" "slot_of hi i = None"
  shows "if hashid_full hi then hashid_insert hi i = Inl Assert_Failed
    else \<exists>c hi'. hashid_insert hi i = Inr (c, hi') \<and> hashid_inv hi' \<and> c < hi_cap hi \<and> \<not> used hi c \<and>
      slot_of hi' = (slot_of hi)(i \<mapsto> c) \<and> hi_cap hi' = hi_cap hi"
proof -
  obtain ch where ok: "nodes_ok hi" "chains_ok hi ch"
    using assms by (auto simp: hashid_inv_def)
  define r where "r = find (\<lambda>n. hn_id (hi_id hi ! n) = -1) (map (\<lambda>k. (k + nat i) mod hi_cap hi) [0..<hi_cap hi])"
  have free: "case r of None \<Rightarrow> \<forall>n < hi_cap hi. used hi n
      | Some c \<Rightarrow> c < hi_cap hi \<and> \<not> used hi c \<and> hn_id (hi_id hi ! c) = -1"
    unfolding r_def by (rule find_free_slot [OF ok(1)])
  show ?thesis
  proof (cases r)
    case None
    then show ?thesis
      using free hashid_full_iff [OF ok(1)] by (simp add: hashid_insert_def r_def [symmetric])
  next
    case (Some c)
    let ?hi' = "hi\<lparr>hi_count := hi_count hi + 1, hi_id := (hi_id hi)[c := \<lparr>hn_id = i, hn_next = hi_hash hi ! hash_slot hi i\<rparr>],
                     hi_hash := (hi_hash hi)[hash_slot hi i := Some c]\<rparr>"
    have c: "c < hi_cap hi" "\<not> used hi c" "hn_next (hi_id hi ! c) = None"
      using free Some ok(1) by (simp_all add: nodes_ok_def)
    then have "\<not> hashid_full hi" "hashid_insert hi i = Inr (c, ?hi')"
      using Some hashid_full_iff [OF ok(1)] by (auto simp: hashid_insert_def r_def [symmetric] Let_def)
    then show ?thesis
      using linked_inv [OF ok assms(2,3) c(1,2) refl] c by simp
  qed
qed

section \<open>The table interface\<close>

text \<open>
  An id is added while it is not in the table and the table is not full: the gate asks \<open>hashid_full\<close>
  first, and a socket id is not accepted twice before it was closed.
\<close>

definition hashid_get :: "hashid \<Rightarrow> int \<Rightarrow> nat option" where
  "hashid_get hi i = (case hashid_lookup hi i of Some n \<Rightarrow> if n < 0 then None else Some (nat n) | None \<Rightarrow> None)"

definition hashid_add :: "hashid \<Rightarrow> int \<Rightarrow> int \<times> nat \<times> hashid" where
  "hashid_add hi i = (case hashid_insert hi i of Inr (c, hi') \<Rightarrow> (i, c, hi') | Inl _ \<Rightarrow> (i, 0, hi))"

definition hashid_del :: "hashid \<Rightarrow> int \<Rightarrow> hashid" where
  "hashid_del hi i = (case hashid_remove hi i of Some (_, hi') \<Rightarrow> hi' | None \<Rightarrow> hi)"

definition hashid_adm :: "hashid \<Rightarrow> int \<Rightarrow> bool" where
  "hashid_adm hi i \<longleftrightarrow> 0 \<le> i \<and> slot_of hi i = None \<and> \<not> hashid_full hi"

lemma hashid_add_correct:
  assumes "hashid_inv hi" "hashid_adm hi i" "hashid_add hi i = (k, v, hi')"
  shows "hashid_inv hi'" "slot_of hi k = None" "slot_of hi' = (slot_of hi)(k \<mapsto> v)" "hi_cap hi' = hi_cap hi"
  using hashid_insert_correct [OF assms(1), of i] assms(2,3) by (auto simp: hashid_adm_def hashid_add_def)

lemma hashid_del_correct:
  assumes "hashid_inv hi"
  shows "hashid_inv (hashid_del hi i)" "slot_of (hashid_del hi i) = (slot_of hi)(i := None)"
    "hi_cap (hashid_del hi i) = hi_cap hi"
  using hashid_remove_correct [OF assms, of i] by (auto simp: hashid_del_def)

lemma hashid_get_slot_of: "hashid_inv hi \<Longrightarrow> hashid_get hi i = slot_of hi i"
  by (simp add: hashid_get_def hashid_lookup_correct split: option.split)

interpretation sockets: table hashid_get hashid_add hashid_del slot_of "\<lambda>hi. hashid_inv hi \<and> hi_cap hi = mx" hashid_adm for mx
proof unfold_locales
  fix hi a k v hi'
  assume "hashid_inv hi \<and> hi_cap hi = mx" "hashid_adm hi a" "hashid_add hi a = (k, v, hi')"
  then show "hashid_inv hi' \<and> hi_cap hi' = mx" "slot_of hi k = None" "slot_of hi' = (slot_of hi)(k \<mapsto> v)"
    using hashid_add_correct [of hi a k v hi'] by simp_all
qed (simp_all only: hashid_del_correct hashid_get_slot_of simp_thms)

lemma slot_of_inj:
  assumes "hashid_inv hi" "slot_of hi i = Some n"
  shows "n < hi_cap hi" "slot_of hi j = Some n \<Longrightarrow> j = i"
  using assms slot_of_Some [of hi] by (auto simp: hashid_inv_def used_def)

lemma hashid_full_card:
  assumes "hashid_inv hi"
  shows "hashid_full hi \<longleftrightarrow> card (dom (slot_of hi)) = hi_cap hi"
proof -
  have ok: "nodes_ok hi"
    using assms by (auto simp: hashid_inv_def)
  have "inj_on (\<lambda>n. hn_id (hi_id hi ! n)) {n. used hi n}"
    using ok unfolding inj_on_def nodes_ok_def by blast
  moreover have "(\<lambda>n. hn_id (hi_id hi ! n)) ` {n. used hi n} = dom (slot_of hi)"
    using slot_of_Some [OF ok] by (force simp: dom_def image_def)
  ultimately have "card (dom (slot_of hi)) = card {n. used hi n}"
    using card_image by metis
  then show ?thesis
    using ok by (simp add: hashid_full_def nodes_ok_def)
qed

text \<open>from the empty table of capacity \<open>mx\<close>, after any sequence of insertions of new ids into a table that is
  not full and of removals, a lookup ends and returns the slot the history of the run says, -1 for an id that is not
  in the table; the slots in use are below \<open>mx\<close>, no two ids share one, and \<open>hashid_full\<close> says whether \<open>mx\<close> ids are in it.\<close>

theorem hashid_history:
  assumes "table_adm hashid_adm hashid_add hashid_del (hashid_init mx) ops"
    and "table_run hashid_add hashid_del (hashid_init mx) ops = (h, hi)"
  shows "hashid_lookup hi i = Some (case table_ref (\<lambda>_. None) h i of None \<Rightarrow> -1 | Some n \<Rightarrow> int n)
    \<and> fresh_history (\<lambda>_. None) h
    \<and> (table_ref (\<lambda>_. None) h i = Some n \<longrightarrow> n < mx \<and> (table_ref (\<lambda>_. None) h j = Some n \<longrightarrow> j = i))
    \<and> (hashid_full hi \<longleftrightarrow> card (dom (table_ref (\<lambda>_. None) h)) = mx)"
proof -
  have init: "hashid_inv (hashid_init mx) \<and> hi_cap (hashid_init mx) = mx" "slot_of (hashid_init mx) = (\<lambda>_. None)"
    using hashid_init_inv by auto
  have r: "hashid_inv hi" "hi_cap hi = mx" "slot_of hi = table_ref (\<lambda>_. None) h" "fresh_history (\<lambda>_. None) h"
    using sockets.run_history [OF init(1) assms] init(2) by simp_all
  show ?thesis
    using hashid_lookup_correct [OF r(1), of i] slot_of_inj(1) [OF r(1), of i n] slot_of_inj(2) [OF r(1), of i n j] hashid_full_card [OF r(1)] r(2-4) by simp
qed

theorem hashid_history_witness:
  "hashid_lookup (snd (table_run hashid_add hashid_del (hashid_init 2) [Add 5, Add 21, Del 5])) 21 = Some 0
   \<and> hashid_lookup (snd (table_run hashid_add hashid_del (hashid_init 2) [Add 5, Add 21, Del 5])) 5 = Some (-1)"
proof -
  let ?ops = "[Add 5, Add 21, Del 5] :: (int, int) top list"
  let ?r = "table_run hashid_add hashid_del (hashid_init 2) ?ops"
  have i: "hashid_init 2 = \<lparr>hi_hashmod = 15, hi_cap = 2, hi_count = 0, hi_id = replicate 2 free_node, hi_hash = replicate 16 None\<rparr>"
    by (simp add: hashid_init_def hash_capacity.simps [of 16 2])
  note ev = hashid_adm_def slot_of_def hashid_full_def hashid_add_def hashid_insert_def hash_slot_def free_node_def
  let ?h0 = "\<lparr>hi_hashmod = 15, hi_cap = 2, hi_count = 0, hi_id = [free_node, free_node], hi_hash = replicate 16 None\<rparr>"
  let ?h1 = "\<lparr>hi_hashmod = 15, hi_cap = 2, hi_count = 1, hi_id = [free_node, \<lparr>hn_id = 5, hn_next = None\<rparr>],
    hi_hash = (replicate 16 None)[5 := Some 1]\<rparr>"
  let ?h2 = "\<lparr>hi_hashmod = 15, hi_cap = 2, hi_count = 2, hi_id = [\<lparr>hn_id = 21, hn_next = Some 1\<rparr>, \<lparr>hn_id = 5, hn_next = None\<rparr>],
    hi_hash = ((replicate 16 None)[5 := Some 1])[5 := Some 0]\<rparr>"
  have init: "hashid_init 2 = ?h0"
    unfolding i by (simp add: numeral_2_eq_2)
  have p: "find (\<lambda>n. hn_id ([free_node, free_node] ! n) = -1) (map (\<lambda>k. (k + 5) mod 2) [0..<2]) = Some 1"
    "find (\<lambda>n. hn_id ([free_node, \<lparr>hn_id = 5, hn_next = None\<rparr>] ! n) = -1) (map (\<lambda>k. (k + 21) mod 2) [0..<2]) = Some 0"
    "find (\<lambda>n. hn_id ([free_node, free_node] ! n) = 5) [0..<2] = None"
    "find (\<lambda>n. hn_id ([free_node, \<lparr>hn_id = 5, hn_next = None\<rparr>] ! n) = 21) [0..<2] = None"
    by code_simp+
  have s: "hashid_adm ?h0 5" "hashid_add ?h0 5 = (5, 1, ?h1)" "hashid_adm ?h1 21" "hashid_add ?h1 21 = (21, 0, ?h2)"
    by (simp_all add: ev p [unfolded free_node_def] Let_def)
  have a: "table_adm hashid_adm hashid_add hashid_del (hashid_init 2) ?ops"
    unfolding init by (simp add: s del: One_nat_def)
  have h: "fst ?r = [Inr (5, 1), Inr (21, 0), Inl 5]"
    unfolding init by (simp add: s del: One_nat_def)
  have r: "?r = ([Inr (5, 1), Inr (21, 0), Inl 5], snd ?r)"
    using h by (metis prod.collapse)
  have m: "table_ref (\<lambda>_. None) [Inr (5, 1), Inr (21, 0), Inl 5] (21::int) = Some (0::nat)"
    "table_ref (\<lambda>_. None) [Inr (5, 1), Inr (21, 0::nat), Inl 5] (5::int) = None"
    by simp_all
  show ?thesis
    using hashid_history [OF a r, of 21] hashid_history [OF a r, of 5] by (simp only: m option.case int_ops(1) simp_thms)
qed

end
