(* ===== verification/DataBuffer.thy ===== *)
theory DataBuffer
  imports Prelude
begin

text \<open>
  \<open>databuffer.h\<close>: the bytes a connection of the gate has received and not yet forwarded, as a linked list of the
  blocks the socket thread handed over. The list nodes come from a pool all connections share: its free list is
  threaded through the same \<open>next\<close> pointers. The model keeps the nodes in a store, so that a node on two lists
  would show; a node address is valid while its block of 1023 nodes is allocated. Who frees a byte buffer is not
  tracked.
\<close>

section \<open>State\<close>

definition MESSAGEPOOL :: nat where "MESSAGEPOOL = 1023"

record message =
  m_buffer :: "bytes option"
  m_size :: int
  m_next :: "addr option"

record databuffer =
  db_header :: int
  db_offset :: int
  db_size :: int
  db_head :: "addr option"
  db_tail :: "addr option"

record messagepool =
  mp_store :: "addr \<Rightarrow> message"
  mp_blocks :: nat
  mp_freelist :: "addr option"

definition db_empty :: databuffer where
  "db_empty = \<lparr>db_header = 0, db_offset = 0, db_size = 0, db_head = None, db_tail = None\<rparr>"

definition mp_limit :: "messagepool \<Rightarrow> addr" where
  "mp_limit mp = MESSAGEPOOL * mp_blocks mp"

definition msg_at :: "messagepool \<Rightarrow> addr option \<Rightarrow> message res" where
  "msg_at mp p = (case p of Some a \<Rightarrow> if a < mp_limit mp then Inr (mp_store mp a) else Inl Bad_Pointer | None \<Rightarrow> Inl Bad_Pointer)"

section \<open>Operations\<close>

definition messagepool_free :: "messagepool \<Rightarrow> messagepool" where
  "messagepool_free mp = mp\<lparr>mp_blocks := 0, mp_freelist := None\<rparr>"

definition return_message :: "databuffer \<Rightarrow> messagepool \<Rightarrow> (databuffer \<times> messagepool) res" where
  "return_message db mp =
    (case db_head db of None \<Rightarrow> Inl Bad_Pointer | Some a \<Rightarrow>
      res_bind (msg_at mp (Some a)) (\<lambda>m.
        res_bind (if m_next m = None
                  then (if db_tail db = Some a then Inr (db\<lparr>db_head := None, db_tail := None\<rparr>) else Inl Assert_Failed)
                  else Inr (db\<lparr>db_head := m_next m\<rparr>)) (\<lambda>db.
          Inr (db, mp\<lparr>mp_store := (mp_store mp)(a := \<lparr>m_buffer = None, m_size = 0, m_next = mp_freelist mp\<rparr>),
                      mp_freelist := Some a\<rparr>))))"

text \<open>The loop of \<open>databuffer_read\<close>; \<open>out\<close> is what was copied to \<open>buffer\<close> so far.\<close>

partial_function (option) read_loop ::
    "databuffer \<Rightarrow> messagepool \<Rightarrow> bytes \<Rightarrow> int \<Rightarrow> (bytes \<times> databuffer \<times> messagepool) res option" where
  "read_loop db mp out sz =
    (case msg_at mp (db_head db) of Inl e \<Rightarrow> Some (Inl e) | Inr current \<Rightarrow>
      let bsz = m_size current - db_offset db in
      if bsz > sz then
        Some (res_bind (mem_read (m_buffer current) (db_offset db) sz) (\<lambda>d.
          Inr (out @ d, db\<lparr>db_offset := db_offset db + sz\<rparr>, mp)))
      else if bsz = sz then
        Some (res_bind (mem_read (m_buffer current) (db_offset db) sz) (\<lambda>d.
          res_bind (return_message (db\<lparr>db_offset := 0\<rparr>) mp) (\<lambda>(db, mp). Inr (out @ d, db, mp))))
      else
        (case res_bind (mem_read (m_buffer current) (db_offset db) bsz) (\<lambda>d.
            res_bind (return_message db mp) (\<lambda>(db, mp). Inr (out @ d, db\<lparr>db_offset := 0\<rparr>, mp))) of
           Inl e \<Rightarrow> Some (Inl e)
         | Inr (out, db, mp) \<Rightarrow> read_loop db mp out (sz - bsz)))"

declare read_loop.simps [code]

definition databuffer_read :: "databuffer \<Rightarrow> messagepool \<Rightarrow> int \<Rightarrow> (bytes \<times> databuffer \<times> messagepool) res option" where
  "databuffer_read db mp sz =
    (if db_size db < sz then Some (Inl Assert_Failed) else read_loop (db\<lparr>db_size := db_size db - sz\<rparr>) mp [] sz)"

text \<open>Allocating a block: the first node is used at once, the others form the free list.\<close>

definition new_block :: "messagepool \<Rightarrow> addr \<times> messagepool" where
  "new_block mp = (let base = mp_limit mp in
     (base, mp\<lparr>mp_store := (\<lambda>a. if base < a \<and> a < base + MESSAGEPOOL
                 then \<lparr>m_buffer = None, m_size = 0, m_next = (if a = base + MESSAGEPOOL - 1 then None else Some (a + 1))\<rparr>
                 else mp_store mp a),
               mp_blocks := mp_blocks mp + 1, mp_freelist := Some (base + 1)\<rparr>))"

definition take_message :: "messagepool \<Rightarrow> (addr \<times> messagepool) res" where
  "take_message mp = (case mp_freelist mp of
     Some a \<Rightarrow> res_bind (msg_at mp (Some a)) (\<lambda>m. Inr (a, mp\<lparr>mp_freelist := m_next m\<rparr>))
   | None \<Rightarrow> Inr (new_block mp))"

definition databuffer_push :: "databuffer \<Rightarrow> messagepool \<Rightarrow> bytes option \<Rightarrow> int \<Rightarrow> (databuffer \<times> messagepool) res" where
  "databuffer_push db mp data sz =
    res_bind (take_message mp) (\<lambda>(a, mp).
      let mp = mp\<lparr>mp_store := (mp_store mp)(a := \<lparr>m_buffer = data, m_size = sz, m_next = None\<rparr>)\<rparr> in
      if db_size db + sz \<ge> 2 ^ 31 then Inl Int_Overflow
      else let db = db\<lparr>db_size := db_size db + sz\<rparr> in
        case db_head db of
          None \<Rightarrow> if db_tail db \<noteq> None then Inl Assert_Failed
                  else Inr (db\<lparr>db_head := Some a, db_tail := Some a\<rparr>, mp)
        | Some _ \<Rightarrow>
            (case db_tail db of None \<Rightarrow> Inl Bad_Pointer | Some t \<Rightarrow>
              res_bind (msg_at mp (Some t)) (\<lambda>m.
                Inr (db\<lparr>db_tail := Some a\<rparr>, mp\<lparr>mp_store := (mp_store mp)(t := m\<lparr>m_next := Some a\<rparr>)\<rparr>))))"

text \<open>The value of a header, big endian; four bytes are shifted into a signed 32-bit \<open>int\<close>.\<close>

definition header_value :: "nat \<Rightarrow> bytes \<Rightarrow> int" where
  "header_value header_size plen =
    (if header_size = 2 then uint (be_word plen :: u32) else sint (be_word plen :: u32))"

definition databuffer_readheader ::
    "databuffer \<Rightarrow> messagepool \<Rightarrow> nat \<Rightarrow> (int \<times> databuffer \<times> messagepool) res option" where
  "databuffer_readheader db mp header_size =
    (let finish = (\<lambda>(db, mp). Some (Inr (if db_size db < db_header db then -1 else db_header db, db, mp))) in
     if db_header db = 0 then
       (if db_size db < int header_size then Some (Inr (-1, db, mp))
        else res_obind (databuffer_read db mp (int header_size)) (\<lambda>(plen, db, mp).
          finish (db\<lparr>db_header := header_value header_size plen\<rparr>, mp)))
     else finish (db, mp))"

definition databuffer_reset :: "databuffer \<Rightarrow> databuffer" where
  "databuffer_reset db = db\<lparr>db_header := 0\<rparr>"

partial_function (option) clear_loop :: "databuffer \<Rightarrow> messagepool \<Rightarrow> (databuffer \<times> messagepool) res option" where
  "clear_loop db mp =
    (case db_head db of
       None \<Rightarrow> Some (Inr (db, mp))
     | Some _ \<Rightarrow> (case return_message db mp of Inl e \<Rightarrow> Some (Inl e) | Inr (db, mp) \<Rightarrow> clear_loop db mp))"

declare clear_loop.simps [code]

definition databuffer_clear :: "databuffer \<Rightarrow> messagepool \<Rightarrow> (databuffer \<times> messagepool) res option" where
  "databuffer_clear db mp = res_obind (clear_loop db mp) (\<lambda>(db, mp). Some (Inr (db_empty, mp)))"

section \<open>What a buffer holds\<close>

fun msg_chain :: "messagepool \<Rightarrow> addr option \<Rightarrow> addr list \<Rightarrow> bool" where
  "msg_chain mp p [] \<longleftrightarrow> p = None"
| "msg_chain mp p (a # l) \<longleftrightarrow> p = Some a \<and> a < mp_limit mp \<and> msg_chain mp (m_next (mp_store mp a)) l"

definition node_ok :: "messagepool \<Rightarrow> addr \<Rightarrow> bool" where
  "node_ok mp a \<longleftrightarrow> (\<exists>b. m_buffer (mp_store mp a) = Some b \<and> 0 \<le> m_size (mp_store mp a) \<and> m_size (mp_store mp a) \<le> int (length b))"

definition node_data :: "messagepool \<Rightarrow> addr \<Rightarrow> bytes" where
  "node_data mp a = (case m_buffer (mp_store mp a) of None \<Rightarrow> [] | Some b \<Rightarrow> take (nat (m_size (mp_store mp a))) b)"

definition stored :: "messagepool \<Rightarrow> addr list \<Rightarrow> bytes" where
  "stored mp l = concat (map (node_data mp) l)"

text \<open>\<open>db_list\<close>: the buffer's nodes are \<open>l\<close>. \<open>db_stream\<close>: the bytes not read yet.\<close>

definition db_list :: "messagepool \<Rightarrow> databuffer \<Rightarrow> addr list \<Rightarrow> bool" where
  "db_list mp db l \<longleftrightarrow> msg_chain mp (db_head db) l \<and> distinct l \<and> db_tail db = (if l = [] then None else Some (last l)) \<and>
     (\<forall>a \<in> set l. node_ok mp a) \<and> 0 \<le> db_offset db \<and>
     (db_offset db = 0 \<or> l \<noteq> [] \<and> db_offset db < m_size (mp_store mp (hd l)))"

definition db_stream :: "messagepool \<Rightarrow> databuffer \<Rightarrow> addr list \<Rightarrow> bytes" where
  "db_stream mp db l = drop (nat (db_offset db)) (stored mp l)"

text \<open>The buffer beside the free list, and what an operation may touch.\<close>

definition buf_inv :: "messagepool \<Rightarrow> databuffer \<Rightarrow> addr list \<Rightarrow> addr list \<Rightarrow> bool" where
  "buf_inv mp db fl l \<longleftrightarrow> db_list mp db l \<and> msg_chain mp (mp_freelist mp) fl \<and> distinct (fl @ l)"

definition pool_frame :: "messagepool \<Rightarrow> addr set \<Rightarrow> messagepool \<Rightarrow> addr set \<Rightarrow> bool" where
  "pool_frame mp A mp' A' \<longleftrightarrow> mp_limit mp \<le> mp_limit mp' \<and> (\<forall>a < mp_limit mp. a \<notin> A \<longrightarrow> mp_store mp' a = mp_store mp a) \<and>
     (\<forall>a \<in> A'. a \<in> A \<or> mp_limit mp \<le> a)"

lemma pool_frame_refl: "pool_frame mp A mp A"
  by (simp add: pool_frame_def)

lemma pool_frame_trans:
  assumes "pool_frame mp A mp' A'" "pool_frame mp' A' mp'' A''"
  shows "pool_frame mp A mp'' A''"
  unfolding pool_frame_def
proof (intro conjI allI impI ballI)
  show "mp_limit mp \<le> mp_limit mp''"
    using assms by (simp add: pool_frame_def)
  fix a
  show "mp_store mp'' a = mp_store mp a" if a: "a < mp_limit mp" "a \<notin> A"
  proof -
    have "mp_store mp' a = mp_store mp a" "a \<notin> A'" "a < mp_limit mp'"
      using assms(1) a by (auto simp: pool_frame_def)
    then show ?thesis
      using assms(2) by (simp add: pool_frame_def)
  qed
  show "a \<in> A \<or> mp_limit mp \<le> a" if a: "a \<in> A''"
  proof -
    have "a \<in> A' \<or> mp_limit mp' \<le> a"
      using assms(2) a by (simp add: pool_frame_def)
    then show ?thesis
      using assms(1) by (auto simp: pool_frame_def)
  qed
qed

lemma msg_chain_less: "msg_chain mp p l \<Longrightarrow> a \<in> set l \<Longrightarrow> a < mp_limit mp"
  by (induction l arbitrary: p) auto

lemma msg_chain_head: "msg_chain mp p l \<Longrightarrow> p = (case l of [] \<Rightarrow> None | a # _ \<Rightarrow> Some a)"
  by (cases l) simp_all

lemma msg_chain_cong:
  "msg_chain mp p l \<Longrightarrow> mp_limit mp \<le> mp_limit mp' \<Longrightarrow> \<forall>a \<in> set l. mp_store mp' a = mp_store mp a \<Longrightarrow> msg_chain mp' p l"
  by (induction l arbitrary: p) auto

lemma node_cong: "mp_store mp' a = mp_store mp a \<Longrightarrow> node_ok mp' a = node_ok mp a"
  "mp_store mp' a = mp_store mp a \<Longrightarrow> node_data mp' a = node_data mp a"
  unfolding node_ok_def node_data_def by (simp_all only:)

lemma stored_cong: "\<forall>a \<in> set l. mp_store mp' a = mp_store mp a \<Longrightarrow> stored mp' l = stored mp l"
  unfolding stored_def by (rule arg_cong [of _ _ concat], rule map_cong [OF refl], rule node_cong(2)) blast

lemma stored_simps [simp]: "stored mp [] = []" "stored mp (a # l) = node_data mp a @ stored mp l"
  "stored mp (l1 @ l2) = stored mp l1 @ stored mp l2"
  by (simp_all add: stored_def)

lemma length_node_data: "node_ok mp a \<Longrightarrow> int (length (node_data mp a)) = m_size (mp_store mp a)"
  by (auto simp: node_ok_def node_data_def)

lemma db_list_frame:
  assumes "db_list mp db l" "pool_frame mp A mp' A'" "A \<inter> set l = {}"
  shows "db_list mp' db l" "db_stream mp' db l = db_stream mp db l" "A' \<inter> set l = {}"
proof -
  have lt: "a < mp_limit mp" if "a \<in> set l" for a
    using msg_chain_less [of mp "db_head db" l a] that assms(1) by (simp add: db_list_def)
  have same: "\<forall>a \<in> set l. mp_store mp' a = mp_store mp a"
    using assms(2,3) lt by (auto simp: pool_frame_def)
  have "msg_chain mp' (db_head db) l"
    using msg_chain_cong [of mp "db_head db" l mp'] assms(1,2) same by (simp add: db_list_def pool_frame_def)
  moreover have "\<forall>a \<in> set l. node_ok mp' a"
    using assms(1) same node_cong(1) [of mp' _ mp] by (simp add: db_list_def)
  moreover have "l \<noteq> [] \<longrightarrow> mp_store mp' (hd l) = mp_store mp (hd l)"
    using same by simp
  ultimately show "db_list mp' db l"
    using assms(1) by (auto simp: db_list_def)
  show "db_stream mp' db l = db_stream mp db l"
    using stored_cong [OF same] by (simp add: db_stream_def)
  show "A' \<inter> set l = {}"
  proof (rule ccontr)
    assume "A' \<inter> set l \<noteq> {}"
    then obtain a where "a \<in> A'" "a \<in> set l"
      by blast
    then show False
      using assms(2,3) lt [of a] by (auto simp: pool_frame_def)
  qed
qed

section \<open>Each operation\<close>

lemma db_list_head:
  assumes "db_list mp db (a # l)"
  shows "db_head db = Some a" "a < mp_limit mp" "msg_chain mp (m_next (mp_store mp a)) l" "a \<notin> set l" "node_ok mp a"
    "db_tail db = Some (last (a # l))"
  using assms by (simp_all add: db_list_def)

lemma buf_inv_offset: "buf_inv mp db fl l \<Longrightarrow> buf_inv mp (db\<lparr>db_offset := 0\<rparr>) fl l"
  by (simp add: buf_inv_def db_list_def)

lemma return_message_spec:
  assumes "buf_inv mp (db\<lparr>db_offset := 0\<rparr>) fl (a # l)"
  defines "db' \<equiv> db\<lparr>db_head := m_next (mp_store mp a), db_tail := (if l = [] then None else db_tail db), db_offset := 0\<rparr>"
    and "mp' \<equiv> mp\<lparr>mp_store := (mp_store mp)(a := \<lparr>m_buffer = None, m_size = 0, m_next = mp_freelist mp\<rparr>), mp_freelist := Some a\<rparr>"
  shows "return_message db mp = Inr (db'\<lparr>db_offset := db_offset db\<rparr>, mp')"
    "buf_inv mp' db' (a # fl) l" "stored mp' l = stored mp l" "pool_frame mp (set (fl @ a # l)) mp' (set ((a # fl) @ l))"
    "mp_limit mp' = mp_limit mp"
proof -
  have l: "db_list mp (db\<lparr>db_offset := 0\<rparr>) (a # l)" and fl: "msg_chain mp (mp_freelist mp) fl" and d: "distinct (fl @ a # l)"
    using assms(1) by (simp_all add: buf_inv_def)
  note h = db_list_head [OF l, simplified databuffer.simps]
  have lim: "mp_limit mp' = mp_limit mp"
    by (simp add: mp'_def mp_limit_def)
  have next_None: "m_next (mp_store mp a) = None \<longleftrightarrow> l = []"
    using msg_chain_head [OF h(3)] by (cases l) simp_all
  show "return_message db mp = Inr (db'\<lparr>db_offset := db_offset db\<rparr>, mp')"
    using h next_None by (cases "l = []"; cases "m_next (mp_store mp a)") (simp_all add: return_message_def msg_at_def db'_def mp'_def)
  have same: "\<forall>x \<in> set l \<union> set fl. mp_store mp' x = mp_store mp x"
    using d by (auto simp: mp'_def)
  have "msg_chain mp' (m_next (mp_store mp a)) l" "msg_chain mp' (mp_freelist mp) fl"
    using msg_chain_cong [OF h(3), of mp'] msg_chain_cong [OF fl, of mp'] same lim by simp_all
  moreover have "\<forall>x \<in> set l. node_ok mp' x"
    using l same node_cong(1) [of mp' _ mp] by (simp add: db_list_def)
  ultimately show "buf_inv mp' db' (a # fl) l"
    using d h(2,6) lim by (auto simp: buf_inv_def db_list_def db'_def mp'_def)
  show "stored mp' l = stored mp l"
    using stored_cong [of l mp' mp] same by simp
  show "pool_frame mp (set (fl @ a # l)) mp' (set ((a # fl) @ l))"
    using lim by (auto simp: pool_frame_def mp'_def)
  show "mp_limit mp' = mp_limit mp"
    by (rule lim)
qed

lemma mem_read_node:
  assumes "node_ok mp a" "0 \<le> off" "0 \<le> n" "off + n \<le> m_size (mp_store mp a)"
  shows "mem_read (m_buffer (mp_store mp a)) off n = Inr (take (nat n) (drop (nat off) (node_data mp a)))"
proof -
  obtain b where b: "m_buffer (mp_store mp a) = Some b" "m_size (mp_store mp a) \<le> int (length b)"
    using assms(1) by (auto simp: node_ok_def)
  have "nat n + nat off \<le> nat (m_size (mp_store mp a))"
    using assms by linarith
  then have "take (nat n) (drop (nat off) (take (nat (m_size (mp_store mp a))) b)) = take (nat n) (drop (nat off) b)"
    by (simp add: take_drop min_def)
  then show ?thesis
    using assms b by (simp add: mem_read_def node_data_def)
qed

text \<open>
  What reading does: the bytes are the next ones of the stream, the stream is shortened by them, the buffer's and the
  free list's nodes stay the same set.
\<close>

definition read_done :: "databuffer \<Rightarrow> messagepool \<Rightarrow> addr list \<Rightarrow> addr list \<Rightarrow> nat \<Rightarrow> databuffer \<Rightarrow> messagepool
    \<Rightarrow> addr list \<Rightarrow> addr list \<Rightarrow> bool" where
  "read_done db mp fl l n db' mp' fl' l' \<longleftrightarrow> buf_inv mp' db' fl' l' \<and> db_stream mp' db' l' = drop n (db_stream mp db l) \<and>
     pool_frame mp (set (fl @ l)) mp' (set (fl' @ l')) \<and> db_header db' = db_header db \<and> db_size db' = db_size db"

lemma read_loop_correct:
  assumes "buf_inv mp db fl l" "0 < sz" "nat sz \<le> length (db_stream mp db l)"
  shows "\<exists>db' mp' fl' l'. read_loop db mp out sz = Some (Inr (out @ take (nat sz) (db_stream mp db l), db', mp')) \<and>
    read_done db mp fl l (nat sz) db' mp' fl' l'"
  using assms
proof (induction l arbitrary: db mp fl out sz)
  case Nil
  then show ?case
    by (simp add: db_stream_def)
next
  case (Cons a l)
  have dl: "db_list mp db (a # l)"
    using Cons.prems(1) by (simp add: buf_inv_def)
  note h = db_list_head [OF dl]
  define sa where "sa = m_size (mp_store mp a)"
  define off where "off = db_offset db"
  define D where "D = node_data mp a"
  have D: "int (length D) = sa" "0 \<le> sa"
    using length_node_data [OF h(5)] h(5) by (auto simp: D_def sa_def node_ok_def)
  have off: "0 \<le> off" "off \<le> sa"
    using dl D(2) by (auto simp: db_list_def off_def sa_def)
  have at: "msg_at mp (db_head db) = Inr (mp_store mp a)"
    using h by (simp add: msg_at_def)
  note ret = return_message_spec [OF buf_inv_offset [OF Cons.prems(1)]]
  define db1 where "db1 = db\<lparr>db_head := m_next (mp_store mp a), db_tail := (if l = [] then None else db_tail db), db_offset := 0\<rparr>"
  define mp1 where "mp1 = mp\<lparr>mp_store := (mp_store mp)(a := \<lparr>m_buffer = None, m_size = 0, m_next = mp_freelist mp\<rparr>), mp_freelist := Some a\<rparr>"
  have r: "return_message db mp = Inr (db1\<lparr>db_offset := db_offset db\<rparr>, mp1)" "buf_inv mp1 db1 (a # fl) l"
      "stored mp1 l = stored mp l" "pool_frame mp (set (fl @ a # l)) mp1 (set ((a # fl) @ l))"
    using ret(1-4) unfolding db1_def mp1_def by blast+
  have str: "db_stream mp db (a # l) = drop (nat off) (D @ stored mp l)" "db_stream mp1 db1 l = stored mp l"
    using r(3) by (simp_all add: db_stream_def off_def D_def db1_def)
  consider "sa - off > sz" | "sa - off = sz" | "sa - off < sz"
    by linarith
  then show ?case
  proof cases
    case 1
    let ?db' = "db\<lparr>db_offset := off + sz\<rparr>"
    have n: "nat (off + sz) = nat sz + nat off" "nat sz + nat off \<le> length D"
      using 1 off Cons.prems(2) D by linarith+
    have "read_loop db mp out sz = Some (Inr (out @ take (nat sz) (drop (nat off) D), ?db', mp))"
      using 1 at mem_read_node [OF h(5), of off sz] off Cons.prems(2)
      by (subst read_loop.simps) (simp add: Let_def sa_def off_def D_def)
    moreover have "take (nat sz) (drop (nat off) D) = take (nat sz) (db_stream mp db (a # l))"
      unfolding str(1) by (rule take_drop_append_short [OF n(2), symmetric])
    moreover have "db_list mp ?db' (a # l)"
      using dl 1 off Cons.prems(2) by (auto simp: db_list_def sa_def)
    moreover have "db_stream mp ?db' (a # l) = drop (nat sz) (db_stream mp db (a # l))"
      by (simp add: db_stream_def n(1) off_def [symmetric] add.commute del: stored_simps)
    ultimately show ?thesis
      using Cons.prems(1) pool_frame_refl
      by (intro exI [of _ ?db'] exI [of _ mp] exI [of _ fl] exI [of _ "a # l"]) (simp add: read_done_def buf_inv_def)
  next
    case 2
    have n: "nat sz + nat off = length D" "nat off \<le> length D" "nat sz = length D - nat off"
      using 2 off D by linarith+
    have rd: "return_message (db\<lparr>db_offset := 0\<rparr>) mp = Inr (db1, mp1)"
      using return_message_spec(1) [of mp "db\<lparr>db_offset := 0\<rparr>" fl a l] buf_inv_offset [OF Cons.prems(1)]
      by (simp add: db1_def mp1_def)
    have "read_loop db mp out sz = Some (Inr (out @ take (nat sz) (drop (nat off) D), db1, mp1))"
      using 2 at mem_read_node [OF h(5), of off sz] off Cons.prems(2) rd
      by (subst read_loop.simps) (simp add: Let_def sa_def off_def D_def)
    moreover have "take (nat sz) (drop (nat off) D) = take (nat sz) (db_stream mp db (a # l))"
      unfolding str(1) using n by simp
    moreover have "db_stream mp1 db1 l = drop (nat sz) (db_stream mp db (a # l))"
      unfolding str using n by simp
    ultimately show ?thesis
      using r(2,4) by (intro exI [of _ db1] exI [of _ mp1] exI [of _ "a # fl"] exI [of _ l]) (simp add: read_done_def db1_def)
  next
    case 3
    have n: "nat off \<le> length D" "nat (sa - off) = length D - nat off" "nat sz = (length D - nat off) + nat (sz - (sa - off))"
      using 3 off D by linarith+
    let ?d = "drop (nat off) D"
    have step: "read_loop db mp out sz = read_loop db1 mp1 (out @ ?d) (sz - (sa - off))"
      using 3 at mem_read_node [OF h(5), of off "sa - off"] off r(1) n
      by (subst read_loop.simps) (simp add: Let_def sa_def off_def D_def db1_def)
    have "nat (sz - (sa - off)) \<le> length (db_stream mp1 db1 l)"
      using Cons.prems(3) n unfolding str length_drop length_append by linarith
    then obtain db' mp' fl' l' where i:
        "read_loop db1 mp1 (out @ ?d) (sz - (sa - off)) = Some (Inr ((out @ ?d) @ take (nat (sz - (sa - off))) (db_stream mp1 db1 l), db', mp'))"
        "read_done db1 mp1 (a # fl) l (nat (sz - (sa - off))) db' mp' fl' l'"
      using Cons.IH [OF r(2), of "sz - (sa - off)" "out @ ?d"] 3 by auto
    have "nat sz = length ?d + nat (sz - (sa - off))" "db_stream mp db (a # l) = ?d @ db_stream mp1 db1 l"
      using n unfolding str by simp_all
    then have "?d @ take (nat (sz - (sa - off))) (db_stream mp1 db1 l) = take (nat sz) (db_stream mp db (a # l))"
        "drop (nat sz) (db_stream mp db (a # l)) = drop (nat (sz - (sa - off))) (db_stream mp1 db1 l)"
      by simp_all
    moreover have "db_header db1 = db_header db" "db_size db1 = db_size db"
      by (simp_all add: db1_def)
    ultimately show ?thesis
      using step i pool_frame_trans [OF r(4)]
      by (intro exI [of _ db'] exI [of _ mp'] exI [of _ fl'] exI [of _ l']) (simp add: read_done_def)
  qed
qed

lemma databuffer_read_correct:
  assumes inv: "buf_inv mp db fl l" and sz: "db_size db = int (length (db_stream mp db l))" "0 < sz" "sz \<le> db_size db"
  shows "\<exists>db' mp' fl' l'. databuffer_read db mp sz = Some (Inr (take (nat sz) (db_stream mp db l), db', mp')) \<and>
    buf_inv mp' db' fl' l' \<and> db_stream mp' db' l' = drop (nat sz) (db_stream mp db l) \<and>
    pool_frame mp (set (fl @ l)) mp' (set (fl' @ l')) \<and> db_header db' = db_header db \<and>
    db_size db' = int (length (db_stream mp' db' l'))"
proof -
  let ?db = "db\<lparr>db_size := db_size db - sz\<rparr>"
  have s: "db_stream mp ?db l = db_stream mp db l" and i: "buf_inv mp ?db fl l"
    using inv by (simp_all add: db_stream_def buf_inv_def db_list_def)
  have "nat sz \<le> length (db_stream mp ?db l)"
    using sz s by simp
  then obtain db' mp' fl' l' where
      r: "read_loop ?db mp [] sz = Some (Inr ([] @ take (nat sz) (db_stream mp ?db l), db', mp'))" "read_done ?db mp fl l (nat sz) db' mp' fl' l'"
    using read_loop_correct [OF i sz(2)] by blast
  then show ?thesis
    using sz s by (intro exI [of _ db'] exI [of _ mp'] exI [of _ fl'] exI [of _ l'])
      (simp add: databuffer_read_def read_done_def)
qed

lemma take_message_spec:
  assumes "msg_chain mp (mp_freelist mp) fl" "distinct (fl @ l)" "\<forall>a \<in> set l. a < mp_limit mp"
  shows "\<exists>a mp' fl'. take_message mp = Inr (a, mp') \<and> a < mp_limit mp' \<and> msg_chain mp' (mp_freelist mp') fl' \<and>
    distinct (a # fl' @ l) \<and> pool_frame mp (set (fl @ l)) mp' (set (a # fl' @ l)) \<and>
    (\<forall>x \<in> set l. mp_store mp' x = mp_store mp x)"
proof (cases fl)
  case (Cons a fl')
  let ?mp = "mp\<lparr>mp_freelist := m_next (mp_store mp a)\<rparr>"
  have lim: "mp_limit ?mp = mp_limit mp"
    by (simp add: mp_limit_def)
  have c: "mp_freelist mp = Some a" "a < mp_limit mp" "msg_chain mp (m_next (mp_store mp a)) fl'"
    using assms(1) Cons by simp_all
  moreover have "msg_chain ?mp (m_next (mp_store mp a)) fl'"
    by (rule msg_chain_cong [OF c(3)]) (simp_all add: lim)
  ultimately show ?thesis
    using assms Cons lim
    by (intro exI [of _ a] exI [of _ ?mp] exI [of _ fl']) (auto simp: take_message_def msg_at_def pool_frame_def)
next
  case Nil
  define base where "base = mp_limit mp"
  define mp' where "mp' = snd (new_block mp)"
  have st: "mp_store mp' a = (if base < a \<and> a < base + MESSAGEPOOL
        then \<lparr>m_buffer = None, m_size = 0, m_next = (if a = base + MESSAGEPOOL - 1 then None else Some (a + 1))\<rparr>
        else mp_store mp a)" for a
    by (simp add: mp'_def new_block_def Let_def base_def)
  have lim: "mp_limit mp' = base + MESSAGEPOOL"
    by (simp add: mp'_def new_block_def Let_def base_def mp_limit_def)
  have chain: "k < MESSAGEPOOL \<Longrightarrow> 0 < k \<Longrightarrow> msg_chain mp' (Some (base + k)) [base + k..<base + MESSAGEPOOL]" for k
  proof (induction "MESSAGEPOOL - k" arbitrary: k)
    case (Suc n)
    have split: "[base + k..<base + MESSAGEPOOL] = (base + k) # [base + Suc k..<base + MESSAGEPOOL]"
      using Suc.prems by (simp add: upt_conv_Cons)
    show ?case
    proof (cases "Suc k < MESSAGEPOOL")
      case True
      then have "msg_chain mp' (Some (base + Suc k)) [base + Suc k..<base + MESSAGEPOOL]"
        using Suc.hyps by (intro Suc.hyps(1)) simp_all
      then show ?thesis
        using Suc.prems True unfolding split by (simp add: st lim)
    next
      case False
      then have "Suc k = MESSAGEPOOL"
        using Suc.prems by simp
      then show ?thesis
        using Suc.prems unfolding split by (simp add: st lim)
    qed
  qed simp
  have none: "mp_freelist mp = None"
    using assms(1) Nil by simp
  have free: "msg_chain mp' (mp_freelist mp') [base + 1..<base + MESSAGEPOOL]"
    using chain [of 1] by (simp add: MESSAGEPOOL_def mp'_def new_block_def Let_def base_def)
  have r: "take_message mp = Inr (base, mp')"
    using none by (simp add: take_message_def mp'_def new_block_def Let_def base_def)
  have same: "mp_store mp' x = mp_store mp x" if "x < base" for x
    using that by (simp add: st)
  have "distinct (base # [base + 1..<base + MESSAGEPOOL] @ l)"
    using assms(2,3) by (auto simp: base_def)
  moreover have "pool_frame mp (set (fl @ l)) mp' (set (base # [base + 1..<base + MESSAGEPOOL] @ l))"
    using same lim by (auto simp: pool_frame_def base_def)
  ultimately show ?thesis
    using r free assms(3) same lim unfolding base_def [symmetric]
    by (intro exI [of _ base] exI [of _ mp'] exI [of _ "[base + 1..<base + MESSAGEPOOL]"]) (simp add: MESSAGEPOOL_def)
qed

lemma mp_limit_store [simp]: "mp_limit (mp\<lparr>mp_store := st\<rparr>) = mp_limit mp" "mp_limit (mp\<lparr>mp_freelist := f\<rparr>) = mp_limit mp"
  by (simp_all add: mp_limit_def)

lemma msg_chain_snoc:
  "msg_chain mp p l \<Longrightarrow> l \<noteq> [] \<Longrightarrow> distinct l \<Longrightarrow> a \<notin> set l \<Longrightarrow> a < mp_limit mp \<Longrightarrow> m_next (mp_store mp a) = None \<Longrightarrow>
     msg_chain (mp\<lparr>mp_store := (mp_store mp)(last l := (mp_store mp (last l))\<lparr>m_next := Some a\<rparr>)\<rparr>) p (l @ [a])"
proof (induction l arbitrary: p)
  case (Cons x l)
  show ?case
  proof (cases "l = []")
    case True
    then show ?thesis
      using Cons.prems by auto
  next
    case False
    then have "x \<noteq> last l"
      using Cons.prems(3) last_in_set [of l] by auto
    then show ?thesis
      using Cons False by simp
  qed
qed simp

lemma db_list_node:
  "db_list mp db l \<Longrightarrow> a \<in> set l \<Longrightarrow> node_ok mp a"
  by (simp add: db_list_def)

lemma db_offset_le: "db_list mp db l \<Longrightarrow> nat (db_offset db) \<le> length (stored mp l)"
  using length_node_data [of mp "hd l"] by (cases l) (auto simp: db_list_def)

lemma push_append:
  assumes inv: "db_list mp db l" and st: "st = (mp_store mp)(a := \<lparr>m_buffer = Some b, m_size = sz, m_next = None\<rparr>)"
    and a: "a \<notin> set l" "a < mp_limit mp" and sz: "0 \<le> sz" "sz \<le> int (length b)"
  defines "st' \<equiv> (case l of [] \<Rightarrow> st | _ \<Rightarrow> st(last l := (st (last l))\<lparr>m_next := Some a\<rparr>))"
    and "db' \<equiv> db\<lparr>db_head := Some (hd (l @ [a])), db_tail := Some a\<rparr>"
  shows "db_list (mp\<lparr>mp_store := st'\<rparr>) db' (l @ [a])"
    "db_stream (mp\<lparr>mp_store := st'\<rparr>) db' (l @ [a]) = db_stream mp db l @ take (nat sz) b"
proof -
  let ?mp = "mp\<lparr>mp_store := st\<rparr>" and ?mp' = "mp\<lparr>mp_store := st'\<rparr>"
  have data: "m_buffer (st' x) = (if x = a then Some b else m_buffer (mp_store mp x))"
    "m_size (st' x) = (if x = a then sz else m_size (mp_store mp x))" for x
    by (simp_all add: st'_def st split: list.split)
  have nodes: "node_ok ?mp' x = (if x = a then True else node_ok mp x)"
    "node_data ?mp' x = (if x = a then take (nat sz) b else node_data mp x)" for x
    using sz by (auto simp: node_ok_def node_data_def data split: option.split)
  have same: "stored ?mp' l = stored mp l"
    using a(1) unfolding stored_def by (intro arg_cong [of _ _ concat] map_cong) (auto simp: nodes)
  have chain: "msg_chain mp (db_head db) l"
    using inv by (simp add: db_list_def)
  have "msg_chain ?mp (db_head db) l"
    by (rule msg_chain_cong [OF chain]) (use a in \<open>auto simp: st\<close>)
  then have "msg_chain ?mp' (Some (hd (l @ [a]))) (l @ [a])"
    using msg_chain_snoc [of ?mp "db_head db" l a] inv a msg_chain_head [of ?mp "db_head db" l]
    by (cases l) (simp_all add: st'_def st db_list_def split: if_splits)
  then show "db_list ?mp' db' (l @ [a])"
    using inv a by (cases l) (auto simp: db_list_def db'_def nodes data)
  show "db_stream ?mp' db' (l @ [a]) = db_stream mp db l @ take (nat sz) b"
    using db_offset_le [OF inv] by (simp add: db_stream_def db'_def same nodes)
qed

lemma databuffer_push_correct:
  assumes inv: "buf_inv mp db fl l" and sz: "0 \<le> sz" "sz \<le> int (length b)" "db_size db + sz < 2 ^ 31"
    and size: "db_size db = int (length (db_stream mp db l))"
  shows "\<exists>db' mp' fl' l'. databuffer_push db mp (Some b) sz = Inr (db', mp') \<and> buf_inv mp' db' fl' l' \<and>
    db_stream mp' db' l' = db_stream mp db l @ take (nat sz) b \<and> pool_frame mp (set (fl @ l)) mp' (set (fl' @ l')) \<and>
    db_header db' = db_header db \<and> db_size db' = int (length (db_stream mp' db' l'))"
proof -
  have i: "db_list mp db l" "msg_chain mp (mp_freelist mp) fl" "distinct (fl @ l)"
    using inv by (simp_all add: buf_inv_def)
  have lt: "\<forall>a \<in> set l. a < mp_limit mp"
    using msg_chain_less i(1) by (auto simp: db_list_def)
  obtain a mp1 fl' where t: "take_message mp = Inr (a, mp1)" "a < mp_limit mp1" "msg_chain mp1 (mp_freelist mp1) fl'"
      "distinct (a # fl' @ l)" "pool_frame mp (set (fl @ l)) mp1 (set (a # fl' @ l))" "\<forall>x \<in> set l. mp_store mp1 x = mp_store mp x"
    using take_message_spec [OF i(2,3) lt] by blast
  define st where "st = (mp_store mp1)(a := \<lparr>m_buffer = Some b, m_size = sz, m_next = None\<rparr>)"
  define st' where "st' = (case l of [] \<Rightarrow> st | _ \<Rightarrow> st(last l := (st (last l))\<lparr>m_next := Some a\<rparr>))"
  let ?mp' = "mp1\<lparr>mp_store := st'\<rparr>"
  define db0 where "db0 = db\<lparr>db_head := Some (hd (l @ [a])), db_tail := Some a\<rparr>"
  define db' where "db' = db0\<lparr>db_size := db_size db + sz\<rparr>"
  have l1: "db_list mp1 db l" "db_stream mp1 db l = db_stream mp db l"
  proof -
    have "mp_limit mp \<le> mp_limit mp1"
      using t(5) by (simp add: pool_frame_def)
    then have "msg_chain mp1 (db_head db) l"
      using msg_chain_cong [of mp "db_head db" l mp1] i(1) t(6) by (simp add: db_list_def)
    moreover have "\<forall>x \<in> set l. node_ok mp1 x"
      using i(1) t(6) node_cong(1) [of mp1 _ mp] by (simp add: db_list_def)
    moreover have "l \<noteq> [] \<longrightarrow> mp_store mp1 (hd l) = mp_store mp (hd l)"
      using t(6) by simp
    ultimately show "db_list mp1 db l"
      using i(1) by (auto simp: db_list_def)
    show "db_stream mp1 db l = db_stream mp db l"
      using stored_cong [of l mp1 mp] t(6) by (simp add: db_stream_def)
  qed
  have al: "a \<notin> set l"
    using t(4) by simp
  note p = push_append [OF l1(1) st_def al t(2) sz(1,2), folded st'_def db0_def]
  have str: "db_list ?mp' db' (l @ [a])" "db_stream ?mp' db' (l @ [a]) = db_stream mp db l @ take (nat sz) b"
    using p l1(2) by (simp_all add: db_list_def db_stream_def db'_def)
  have other: "st' x = mp_store mp1 x" if "x \<noteq> a" "x \<notin> set l" for x
    using that last_in_set [of l] by (auto simp: st'_def st_def split: list.split)
  have "st' x = mp_store mp1 x" if "x \<in> set fl'" for x
    using that t(4) by (intro other) auto
  then have "msg_chain ?mp' (mp_freelist mp1) fl'"
    by (intro msg_chain_cong [OF t(3)]) simp_all
  then have b: "buf_inv ?mp' db' fl' (l @ [a])"
    using str(1) t(4) by (auto simp: buf_inv_def)
  have "pool_frame mp1 (set (a # fl' @ l)) ?mp' (set (fl' @ l @ [a]))"
    using other by (auto simp: pool_frame_def)
  then have f: "pool_frame mp (set (fl @ l)) ?mp' (set (fl' @ l @ [a]))"
    by (rule pool_frame_trans [OF t(5)])
  have nl: "l \<noteq> [] \<Longrightarrow> st' = st(last l := (st (last l))\<lparr>m_next := Some a\<rparr>)" "l = [] \<Longrightarrow> st' = st"
    by (cases l; simp add: st'_def)+
  have tl: "l \<noteq> [] \<Longrightarrow> last l < mp_limit mp1"
    using lt t(5) last_in_set [of l] by (auto simp: pool_frame_def intro: less_le_trans)
  have head: "db_head db = (case l of [] \<Rightarrow> None | x # _ \<Rightarrow> Some x)" "db_tail db = (if l = [] then None else Some (last l))"
    using i(1) msg_chain_head [of mp "db_head db" l] by (simp_all add: db_list_def)
  have "databuffer_push db mp (Some b) sz = Inr (db', ?mp')"
  proof (cases "l = []")
    case True
    then show ?thesis
      using t(1) sz(3) head nl(2) by (simp add: databuffer_push_def Let_def db'_def db0_def st_def)
  next
    case False
    then show ?thesis
      using t(1) sz(3) head nl(1) tl
      by (cases l) (simp_all add: databuffer_push_def Let_def db'_def db0_def st_def msg_at_def)
  qed
  then show ?thesis
    using b str f size sz
    by (intro exI [of _ db'] exI [of _ ?mp'] exI [of _ fl'] exI [of _ "l @ [a]"]) (simp add: db'_def db0_def)
qed

text \<open>Reading a header: nothing while it is incomplete; it is kept until the bytes it announces have come.\<close>

lemma databuffer_readheader_short:
  "db_header db = 0 \<Longrightarrow> db_size db < int hs \<Longrightarrow> databuffer_readheader db mp hs = Some (Inr (-1, db, mp))"
  by (simp add: databuffer_readheader_def)

lemma databuffer_readheader_again:
  "db_header db \<noteq> 0 \<Longrightarrow> databuffer_readheader db mp hs =
     Some (Inr (if db_size db < db_header db then -1 else db_header db, db, mp))"
  by (simp add: databuffer_readheader_def Let_def)

lemma databuffer_readheader_correct:
  assumes inv: "buf_inv mp db fl l" and size: "db_size db = int (length (db_stream mp db l))"
    and "db_header db = 0" "0 < hs" "int hs \<le> db_size db"
  shows "\<exists>db' mp' fl' l'. let n = header_value hs (take hs (db_stream mp db l)) in
    databuffer_readheader db mp hs = Some (Inr (if db_size db' < n then -1 else n, db', mp')) \<and> buf_inv mp' db' fl' l' \<and>
    db_stream mp' db' l' = drop hs (db_stream mp db l) \<and> pool_frame mp (set (fl @ l)) mp' (set (fl' @ l')) \<and>
    db_header db' = n \<and> db_size db' = int (length (db_stream mp' db' l'))"
proof -
  obtain db1 mp' fl' l' where r: "databuffer_read db mp (int hs) = Some (Inr (take hs (db_stream mp db l), db1, mp'))"
      "buf_inv mp' db1 fl' l'" "db_stream mp' db1 l' = drop hs (db_stream mp db l)"
      "pool_frame mp (set (fl @ l)) mp' (set (fl' @ l'))" "db_size db1 = int (length (db_stream mp' db1 l'))"
    using databuffer_read_correct [OF inv size, of "int hs"] assms(4,5) by auto
  let ?db' = "db1\<lparr>db_header := header_value hs (take hs (db_stream mp db l))\<rparr>"
  have "buf_inv mp' ?db' fl' l'" "db_stream mp' ?db' l' = db_stream mp' db1 l'"
    using r(2) by (simp_all add: buf_inv_def db_list_def db_stream_def)
  then show ?thesis
    using r assms(3,5)
    by (intro exI [of _ ?db'] exI [of _ mp'] exI [of _ fl'] exI [of _ l']) (simp add: databuffer_readheader_def Let_def)
qed

lemma buf_inv_fields:
  "buf_inv mp (db\<lparr>db_header := h\<rparr>) fl l = buf_inv mp db fl l" "buf_inv mp (db\<lparr>db_size := n\<rparr>) fl l = buf_inv mp db fl l"
  "db_stream mp (db\<lparr>db_header := h\<rparr>) l = db_stream mp db l" "db_stream mp (db\<lparr>db_size := n\<rparr>) l = db_stream mp db l"
  by (simp_all add: buf_inv_def db_list_def db_stream_def)

lemma clear_loop_correct:
  assumes "buf_inv mp (db\<lparr>db_offset := 0\<rparr>) fl l"
  shows "\<exists>db' mp' fl'. clear_loop db mp = Some (Inr (db', mp')) \<and> buf_inv mp' db_empty fl' [] \<and>
    pool_frame mp (set (fl @ l)) mp' (set fl')"
  using assms
proof (induction l arbitrary: db mp fl)
  case Nil
  then have "db_head db = None" "buf_inv mp db_empty fl []"
    by (simp_all add: buf_inv_def db_list_def db_empty_def)
  moreover from this have "clear_loop db mp = Some (Inr (db, mp))"
    by (subst clear_loop.simps) simp
  ultimately have "clear_loop db mp = Some (Inr (db, mp))" "buf_inv mp db_empty fl []"
    by blast+
  then show ?case
    using pool_frame_refl by (intro exI [of _ db] exI [of _ mp] exI [of _ fl]) simp
next
  case (Cons a l)
  let ?db0 = "db\<lparr>db_offset := 0\<rparr>"
  note r = return_message_spec [OF Cons.prems]
  let ?db1 = "db\<lparr>db_head := m_next (mp_store mp a), db_tail := (if l = [] then None else db_tail db)\<rparr>"
  let ?mp1 = "mp\<lparr>mp_store := (mp_store mp)(a := \<lparr>m_buffer = None, m_size = 0, m_next = mp_freelist mp\<rparr>), mp_freelist := Some a\<rparr>"
  have h: "db_head db = Some a"
    using Cons.prems by (simp add: buf_inv_def db_list_def)
  have "return_message db mp = Inr (?db1, ?mp1)"
    using r(1) by simp
  then have "clear_loop db mp = clear_loop ?db1 ?mp1"
    using h by (subst clear_loop.simps) simp
  moreover have "buf_inv ?mp1 (?db1\<lparr>db_offset := 0\<rparr>) (a # fl) l"
    using r(2) by simp
  moreover obtain db' mp' fl' where "clear_loop ?db1 ?mp1 = Some (Inr (db', mp'))" "buf_inv mp' db_empty fl' []"
      "pool_frame ?mp1 (set ((a # fl) @ l)) mp' (set fl')"
    using Cons.IH [OF \<open>buf_inv ?mp1 (?db1\<lparr>db_offset := 0\<rparr>) (a # fl) l\<close>] by blast
  ultimately show ?case
    using pool_frame_trans [OF r(4)] by auto
qed

lemma databuffer_clear_correct:
  assumes "buf_inv mp db fl l"
  shows "\<exists>mp' fl'. databuffer_clear db mp = Some (Inr (db_empty, mp')) \<and> buf_inv mp' db_empty fl' [] \<and>
    pool_frame mp (set (fl @ l)) mp' (set fl')"
  using clear_loop_correct [OF buf_inv_offset [OF assms]] by (auto simp: databuffer_clear_def)

section \<open>Connections sharing the pool\<close>

definition pool_inv :: "messagepool \<Rightarrow> databuffer list \<Rightarrow> addr list \<Rightarrow> addr list list \<Rightarrow> bool" where
  "pool_inv mp dbs fl ls \<longleftrightarrow> length ls = length dbs \<and> msg_chain mp (mp_freelist mp) fl \<and> distinct fl \<and>
     (\<forall>i < length dbs. buf_inv mp (dbs ! i) fl (ls ! i) \<and> db_size (dbs ! i) = int (length (db_stream mp (dbs ! i) (ls ! i)))) \<and>
     (\<forall>i < length dbs. \<forall>j < length dbs. i \<noteq> j \<longrightarrow> set (ls ! i) \<inter> set (ls ! j) = {})"

definition pool_streams :: "messagepool \<Rightarrow> databuffer list \<Rightarrow> addr list list \<Rightarrow> bytes list" where
  "pool_streams mp dbs ls = map (\<lambda>(db, l). db_stream mp db l) (zip dbs ls)"

declare buf_inv_def [skynet_invs] pool_inv_def [skynet_invs]

lemma length_pool_streams: "pool_inv mp dbs fl ls \<Longrightarrow> length (pool_streams mp dbs ls) = length dbs"
  by (simp add: pool_streams_def pool_inv_def)

lemma pool_streams_nth: "pool_inv mp dbs fl ls \<Longrightarrow> i < length dbs \<Longrightarrow> pool_streams mp dbs ls ! i = db_stream mp (dbs ! i) (ls ! i)"
  by (simp add: pool_streams_def pool_inv_def)

text \<open>An operation on one buffer leaves the others alone.\<close>

lemma pool_step:
  assumes inv: "pool_inv mp dbs fl ls" and i: "i < length dbs"
    and op: "buf_inv mp' db' fl' l'" "pool_frame mp (set (fl @ ls ! i)) mp' (set (fl' @ l'))"
      "db_size db' = int (length (db_stream mp' db' l'))"
  shows "pool_inv mp' (dbs[i := db']) fl' (ls[i := l'])"
    "pool_streams mp' (dbs[i := db']) (ls[i := l']) = (pool_streams mp dbs ls)[i := db_stream mp' db' l']"
proof -
  have len: "length ls = length dbs"
    using inv by (simp add: pool_inv_def)
  have other: "buf_inv mp' (dbs ! j) fl' (ls ! j) \<and> db_stream mp' (dbs ! j) (ls ! j) = db_stream mp (dbs ! j) (ls ! j) \<and>
      set l' \<inter> set (ls ! j) = {}" if j: "j < length dbs" "j \<noteq> i" for j
  proof -
    have l: "db_list mp (dbs ! j) (ls ! j)" "distinct (fl @ ls ! j)" "set (ls ! i) \<inter> set (ls ! j) = {}"
      using inv i j by (auto simp: pool_inv_def buf_inv_def)
    then have "set (fl @ ls ! i) \<inter> set (ls ! j) = {}"
      by auto
    note f = db_list_frame [OF l(1) op(2) this]
    have "distinct (ls ! j)" "distinct fl'" "msg_chain mp' (mp_freelist mp') fl'"
      using l(1) op(1) by (simp_all add: db_list_def buf_inv_def)
    then show ?thesis
      using f by (auto simp: buf_inv_def)
  qed
  show "pool_inv mp' (dbs[i := db']) fl' (ls[i := l'])"
    unfolding pool_inv_def
  proof (intro conjI allI impI)
    fix j
    assume j: "j < length (dbs[i := db'])"
    show "buf_inv mp' (dbs[i := db'] ! j) fl' (ls[i := l'] ! j)"
      using j other [of j] op(1) len by (cases "j = i") simp_all
    show "db_size (dbs[i := db'] ! j) = int (length (db_stream mp' (dbs[i := db'] ! j) (ls[i := l'] ! j)))"
      using j other [of j] op(3) len inv by (cases "j = i") (simp_all add: pool_inv_def)
    fix k
    assume k: "k < length (dbs[i := db'])" "j \<noteq> k"
    show "set (ls[i := l'] ! j) \<inter> set (ls[i := l'] ! k) = {}"
      using j k other [of j] other [of k] len inv
      by (cases "j = i"; cases "k = i") (auto simp: pool_inv_def)
  qed (use op(1) len in \<open>simp_all add: buf_inv_def\<close>)
  show "pool_streams mp' (dbs[i := db']) (ls[i := l']) = (pool_streams mp dbs ls)[i := db_stream mp' db' l']"
  proof (rule nth_equalityI)
    fix j
    assume "j < length (pool_streams mp' (dbs[i := db']) (ls[i := l']))"
    then have "j < length dbs"
      using len by (simp add: pool_streams_def)
    then show "pool_streams mp' (dbs[i := db']) (ls[i := l']) ! j = (pool_streams mp dbs ls)[i := db_stream mp' db' l'] ! j"
      using other [of j] len by (cases "j = i") (simp_all add: pool_streams_def)
  qed (simp add: pool_streams_def)
qed

lemma pool_at:
  assumes "pool_inv mp dbs fl ls" "i < length dbs"
  shows "buf_inv mp (dbs ! i) fl (ls ! i)" "db_size (dbs ! i) = int (length (db_stream mp (dbs ! i) (ls ! i)))"
  using assms by (simp_all add: pool_inv_def)

text \<open>A run of operations of several connections, and the same on byte strings.\<close>

datatype buf_op = Push_Op nat bytes | Read_Op nat nat | Clear_Op nat

fun pool_exec :: "databuffer list \<Rightarrow> messagepool \<Rightarrow> buf_op list \<Rightarrow> (bytes list \<times> databuffer list \<times> messagepool) res option" where
  "pool_exec dbs mp [] = Some (Inr ([], dbs, mp))"
| "pool_exec dbs mp (Push_Op i d # ops) =
     res_obind (Some (databuffer_push (dbs ! i) mp (Some d) (int (length d)))) (\<lambda>(db, mp). pool_exec (dbs[i := db]) mp ops)"
| "pool_exec dbs mp (Read_Op i n # ops) =
     res_obind (databuffer_read (dbs ! i) mp (int n)) (\<lambda>(d, db, mp).
       res_obind (pool_exec (dbs[i := db]) mp ops) (\<lambda>(out, dbs, mp). Some (Inr (d # out, dbs, mp))))"
| "pool_exec dbs mp (Clear_Op i # ops) =
     res_obind (databuffer_clear (dbs ! i) mp) (\<lambda>(db, mp). pool_exec (dbs[i := db]) mp ops)"

fun stream_exec :: "bytes list \<Rightarrow> buf_op list \<Rightarrow> (bytes list \<times> bytes list) option" where
  "stream_exec ss [] = Some ([], ss)"
| "stream_exec ss (Push_Op i d # ops) =
     (if i < length ss \<and> length (ss ! i) + length d < 2 ^ 31 then stream_exec (ss[i := ss ! i @ d]) ops else None)"
| "stream_exec ss (Read_Op i n # ops) =
     (if i < length ss \<and> 0 < n \<and> n \<le> length (ss ! i)
      then map_option (\<lambda>(out, ss'). (take n (ss ! i) # out, ss')) (stream_exec (ss[i := drop n (ss ! i)]) ops) else None)"
| "stream_exec ss (Clear_Op i # ops) = (if i < length ss then stream_exec (ss[i := []]) ops else None)"

definition pool_create :: messagepool where
  "pool_create = \<lparr>mp_store = (\<lambda>_. \<lparr>m_buffer = None, m_size = 0, m_next = None\<rparr>), mp_blocks = 0, mp_freelist = None\<rparr>"

lemma pool_exec_correct:
  assumes "pool_inv mp dbs fl ls" "stream_exec (pool_streams mp dbs ls) ops = Some (out, ss)"
  shows "\<exists>dbs' mp' fl' ls'. pool_exec dbs mp ops = Some (Inr (out, dbs', mp')) \<and> pool_inv mp' dbs' fl' ls' \<and>
    pool_streams mp' dbs' ls' = ss"
  using assms
proof (induction ops arbitrary: dbs mp fl ls out)
  case Nil
  then show ?case
    by auto
next
  case (Cons op ops)
  note len = length_pool_streams [OF Cons.prems(1)]
  show ?case
  proof (cases op)
    case (Push_Op i d)
    then have i: "i < length dbs" "db_size (dbs ! i) + int (length d) < 2 ^ 31"
      using Cons.prems(2) len pool_at(2) [OF Cons.prems(1), of i] pool_streams_nth [OF Cons.prems(1), of i]
      by (auto split: if_splits)
    note p = pool_at [OF Cons.prems(1) i(1)]
    obtain db' mp' fl' l' where r: "databuffer_push (dbs ! i) mp (Some d) (int (length d)) = Inr (db', mp')" "buf_inv mp' db' fl' l'"
        "db_stream mp' db' l' = db_stream mp (dbs ! i) (ls ! i) @ d" "pool_frame mp (set (fl @ ls ! i)) mp' (set (fl' @ l'))"
        "db_size db' = int (length (db_stream mp' db' l'))"
      using databuffer_push_correct [OF p(1) _ _ i(2) p(2), of d] by auto
    note s = pool_step [OF Cons.prems(1) i(1) r(2,4,5)]
    have "stream_exec (pool_streams mp' (dbs[i := db']) (ls[i := l'])) ops = Some (out, ss)"
      using Cons.prems(2) Push_Op r(3) pool_streams_nth [OF Cons.prems(1) i(1)] by (simp add: s(2) split: if_splits)
    then show ?thesis
      using Cons.IH [OF s(1)] Push_Op r(1) by simp
  next
    case (Read_Op i n)
    then obtain out' where i: "i < length dbs" "0 < n" "n \<le> length (db_stream mp (dbs ! i) (ls ! i))"
        "out = take n (db_stream mp (dbs ! i) (ls ! i)) # out'"
        "stream_exec ((pool_streams mp dbs ls)[i := drop n (db_stream mp (dbs ! i) (ls ! i))]) ops = Some (out', ss)"
      using Cons.prems(2) len pool_streams_nth [OF Cons.prems(1), of i] by (auto split: if_splits)
    note p = pool_at [OF Cons.prems(1) i(1)]
    obtain db' mp' fl' l' where r: "databuffer_read (dbs ! i) mp (int n) = Some (Inr (take n (db_stream mp (dbs ! i) (ls ! i)), db', mp'))"
        "buf_inv mp' db' fl' l'" "db_stream mp' db' l' = drop n (db_stream mp (dbs ! i) (ls ! i))"
        "pool_frame mp (set (fl @ ls ! i)) mp' (set (fl' @ l'))" "db_size db' = int (length (db_stream mp' db' l'))"
      using databuffer_read_correct [OF p, of "int n"] i(2,3) p(2) by auto
    note s = pool_step [OF Cons.prems(1) i(1) r(2,4,5)]
    have "stream_exec (pool_streams mp' (dbs[i := db']) (ls[i := l'])) ops = Some (out', ss)"
      using i(5) r(3) by (simp add: s(2))
    then show ?thesis
      using Cons.IH [OF s(1)] Read_Op r(1) i(4) by force
  next
    case (Clear_Op i)
    then have i: "i < length dbs"
      using Cons.prems(2) len by (auto split: if_splits)
    note p = pool_at [OF Cons.prems(1) i(1)]
    obtain mp' fl' where r: "databuffer_clear (dbs ! i) mp = Some (Inr (db_empty, mp'))" "buf_inv mp' db_empty fl' []"
        "pool_frame mp (set (fl @ ls ! i)) mp' (set (fl' @ []))"
      using databuffer_clear_correct [OF p(1)] by auto
    have z: "db_stream mp' db_empty [] = []" "db_size db_empty = int (length (db_stream mp' db_empty []))"
      by (simp_all add: db_stream_def db_empty_def)
    note s = pool_step [OF Cons.prems(1) i r(2,3) z(2)]
    have "stream_exec (pool_streams mp' (dbs[i := db_empty]) (ls[i := []])) ops = Some (out, ss)"
      using Cons.prems(2) Clear_Op z(1) by (simp add: s(2) split: if_splits)
    then show ?thesis
      using Cons.IH [OF s(1)] Clear_Op r(1) by simp
  qed
qed

lemma pool_create_inv:
  "pool_inv pool_create (replicate n db_empty) [] (replicate n [])"
  "pool_streams pool_create (replicate n db_empty) (replicate n []) = replicate n []"
  by (simp_all add: pool_inv_def buf_inv_def db_list_def db_empty_def pool_create_def db_stream_def pool_streams_def
    zip_replicate map_replicate)

text \<open>C21: connections that share a message pool behave as independent byte streams: for every sequence of
  pushes, reads and clears that never reads more than was pushed and never holds 2^31 bytes in one buffer, no assertion
  fails and no dead node is touched, every read ends and returns the next bytes of its own connection, whatever the other
  connections did to the pool in between, and each \<open>size\<close> is the number of bytes left.\<close>

theorem databuffer_streams:
  assumes "stream_exec (replicate n []) ops = Some (out, ss)"
  shows "\<exists>dbs mp. pool_exec (replicate n db_empty) pool_create ops = Some (Inr (out, dbs, mp)) \<and>
    length dbs = n \<and> map db_size dbs = map (int \<circ> length) ss"
proof -
  obtain dbs mp fl ls where r: "pool_exec (replicate n db_empty) pool_create ops = Some (Inr (out, dbs, mp))"
      "pool_inv mp dbs fl ls" "pool_streams mp dbs ls = ss"
    using pool_exec_correct [OF pool_create_inv(1) [of n]] assms pool_create_inv(2) [of n] by metis
  have "length ss = n"
    using assms
  proof -
    have "length ss = length ss0" if "stream_exec ss0 ops = Some (out, ss)" for ss0
      using that by (induction ss0 ops arbitrary: out rule: stream_exec.induct) (auto split: if_splits)
    from this [OF assms] show ?thesis
      by simp
  qed
  moreover have "map db_size dbs = map (int \<circ> length) ss"
    using r(2,3) pool_streams_nth [OF r(2)] length_pool_streams [OF r(2)] by (intro nth_equalityI) (auto simp: pool_inv_def)
  ultimately show ?thesis
    using r(1) length_pool_streams [OF r(2)] r(3) by (intro exI [of _ dbs] exI [of _ mp]) simp
qed

theorem databuffer_streams_witness:
  "\<exists>dbs mp. pool_exec (replicate 2 db_empty) pool_create [Push_Op 0 [1, 2], Push_Op 1 [9], Push_Op 0 [3], Read_Op 0 3, Clear_Op 1, Push_Op 1 [7], Read_Op 1 1]
     = Some (Inr ([[1, 2, 3], [7]], dbs, mp)) \<and> length dbs = 2 \<and> map db_size dbs = map (int \<circ> length) ([[], []] :: bytes list)"
proof (rule databuffer_streams)
  have "replicate 2 ([] :: bytes) = [[], []]"
    by (simp add: numeral_2_eq_2)
  then show "stream_exec (replicate 2 []) [Push_Op 0 [1, 2], Push_Op 1 [9], Push_Op 0 [3], Read_Op 0 3, Clear_Op 1, Push_Op 1 [7], Read_Op 1 1]
      = Some ([[1, 2, 3], [7]], [[], []])"
    by simp
qed

end
