(* ===== verification/Gate.thy ===== *)
theory Gate
  imports Server Netpack HashId DataBuffer
begin

text \<open>
  \<open>service_gate.c\<close>: the service between the sockets of the clients and the agents that serve them. A
  connection has a slot of an array, found through \<open>hashid.h\<close>; its bytes are cut into packages (\<open>databuffer.h\<close>),
  each of which goes to the broker, the agent of the connection or the watchdog. What the gate asks of the
  socket layer and of \<open>skynet_send\<close> is recorded as a list of events; the answers it gets
  (\<open>skynet_queryname\<close>, \<open>skynet_socket_listen\<close>) are the arguments \<open>ge_queryname\<close> and \<open>ge_listen\<close>.
\<close>

section \<open>State and effects\<close>

record connection =
  c_id :: int
  c_agent :: u32
  c_client :: u32
  c_remote_name :: string
  c_buffer :: databuffer

record gate =
  g_listen_id :: int
  g_watchdog :: u32
  g_broker :: u32
  g_client_tag :: u32
  g_header_size :: nat
  g_max_connection :: nat
  g_hash :: hashid
  g_conn :: "connection list"
  g_mp :: messagepool

datatype gate_event =
    Socket_Close int
  | Socket_Start int
  | Socket_Send int bytes
  | Send u32 u32 u32 bytes
  | Error_Log string
  | Set_Callback

record gate_env =
  ge_queryname :: "string \<Rightarrow> u32"
  ge_listen :: "string \<Rightarrow> int \<Rightarrow> int"

definition no_connection :: connection where
  "no_connection = \<lparr>c_id = -1, c_agent = 0, c_client = 0, c_remote_name = [], c_buffer = db_empty\<rparr>"

definition gate_create :: gate where
  "gate_create = \<lparr>g_listen_id = -1, g_watchdog = 0, g_broker = 0, g_client_tag = 0, g_header_size = 0, g_max_connection = 0,
     g_hash = \<lparr>hi_hashmod = 0, hi_cap = 0, hi_count = 0, hi_id = [], hi_hash = []\<rparr>, g_conn = [], g_mp = pool_create\<rparr>"

definition gate_release :: "gate \<Rightarrow> gate_event list" where
  "gate_release g = map (Socket_Close \<circ> c_id) (filter (\<lambda>c. c_id c \<ge> 0) (take (g_max_connection g) (g_conn g)))
     @ (if g_listen_id g \<ge> 0 then [Socket_Close (g_listen_id g)] else [])"

section \<open>Text commands\<close>

text \<open>A conversion to \<open>int\<close>, and the C string that starts at a position of an array.\<close>

definition to_int :: "int \<Rightarrow> int" where
  "to_int v = sint (word_of_int v :: u32)"

definition NUL :: char where "NUL = CHR 0x00"

definition cstr :: "string \<Rightarrow> nat \<Rightarrow> string res" where
  "cstr arr p = (if NUL \<in> set (drop p arr) then Inr (takeWhile (\<lambda>c. c \<noteq> NUL) (drop p arr)) else Inl Out_Of_Bounds)"

text \<open>\<open>memcmp(command, lit, i) == 0\<close> on a literal; the comparison ends at the first difference.\<close>

definition memcmp_literal :: "string \<Rightarrow> string \<Rightarrow> nat \<Rightarrow> bool res" where
  "memcmp_literal command lit i = (let l = lit @ [NUL] in
     if i \<le> length l then Inr (take i command = take i l)
     else if take (length l) command \<noteq> l then Inr False else Inl Out_Of_Bounds)"

text \<open>\<open>_parm\<close>: the array after the parameter was moved to its front; what was behind it stays.\<close>

definition parm :: "string \<Rightarrow> nat \<Rightarrow> nat \<Rightarrow> string" where
  "parm msg sz command_sz =
    (let p = dropWhile (\<lambda>c. c = CHR '' '') (drop command_sz (take sz msg))
     in p @ [NUL] @ drop (length p + 1) msg)"

text \<open>\<open>strsep(&client, " ")\<close> on the string at a position: the array with the separator overwritten and where the
  rest starts.\<close>

definition strsep_space :: "string \<Rightarrow> nat \<Rightarrow> (string \<times> nat option) res" where
  "strsep_space arr p = res_bind (cstr arr p) (\<lambda>s.
     let w = length (takeWhile (\<lambda>c. c \<noteq> CHR '' '') s) in
     if w < length s then Inr (arr[p + w := NUL], Some (p + w + 1)) else Inr (arr, None))"

definition strtol_int :: "string \<Rightarrow> nat \<Rightarrow> int res" where
  "strtol_int arr p = res_bind (cstr arr p) (\<lambda>s. Inr (to_int (fst (strtol10 s))))"

definition strtoul_handle :: "string \<Rightarrow> nat \<Rightarrow> u32 res" where
  "strtoul_handle arr p = res_bind (cstr arr p) (\<lambda>s. Inr (parse_handle s))"

definition gate_lookup :: "gate \<Rightarrow> int \<Rightarrow> int res option" where
  "gate_lookup g i = map_option Inr (hashid_lookup (g_hash g) i)"

definition forward_agent :: "gate \<Rightarrow> int \<Rightarrow> u32 \<Rightarrow> u32 \<Rightarrow> gate res option" where
  "forward_agent g fd agentaddr clientaddr = res_obind (gate_lookup g fd) (\<lambda>i.
     if i \<ge> 0 then (let n = nat i in
       Some (Inr (g\<lparr>g_conn := (g_conn g)[n := (g_conn g ! n)\<lparr>c_agent := agentaddr, c_client := clientaddr\<rparr>]\<rparr>)))
     else Some (Inr g))"

text \<open>The parameters of \<open>forward\<close>: socket id, agent and client; \<open>None\<close> when one is missing.\<close>

definition forward_parms :: "string \<Rightarrow> (int \<times> u32 \<times> u32) option res" where
  "forward_parms tmp = res_bind (strsep_space tmp 0) (\<lambda>(tmp, client). case client of None \<Rightarrow> Inr None | Some agent \<Rightarrow>
     res_bind (strtol_int tmp 0) (\<lambda>i.
       res_bind (strsep_space tmp agent) (\<lambda>(tmp, client). case client of None \<Rightarrow> Inr None | Some client \<Rightarrow>
         res_bind (strtoul_handle tmp (agent + 1)) (\<lambda>agent_handle.
           res_bind (strtoul_handle tmp (client + 1)) (\<lambda>client_handle. Inr (Some (i, agent_handle, client_handle)))))))"

definition ctrl :: "gate_env \<Rightarrow> gate \<Rightarrow> string \<Rightarrow> (gate_event list \<times> gate) res option" where
  "ctrl ev g msg =
    (let sz = length msg; tmp = msg @ [NUL]; i = length (takeWhile (\<lambda>c. c \<noteq> CHR '' '') msg);
         is = (\<lambda>lit. Some (memcmp_literal tmp lit i)) in
     if sz = 0 then Some (Inr ([], g))
     else res_obind (is ''kick'') (\<lambda>b. if b then
         res_obind (Some (strtol_int (parm tmp sz i) 0)) (\<lambda>uid. res_obind (gate_lookup g uid) (\<lambda>n.
           Some (Inr (if n \<ge> 0 then [Socket_Close uid] else [], g))))
       else res_obind (is ''forward'') (\<lambda>b. if b then
         res_obind (Some (forward_parms (parm tmp sz i))) (\<lambda>p. case p of
             None \<Rightarrow> Some (Inr ([], g))
           | Some (fd, agent, client) \<Rightarrow> res_obind (forward_agent g fd agent client) (\<lambda>g. Some (Inr ([], g))))
       else res_obind (is ''broker'') (\<lambda>b. if b then
         res_obind (Some (cstr (parm tmp sz i) 0)) (\<lambda>name. Some (Inr ([], g\<lparr>g_broker := ge_queryname ev name\<rparr>)))
       else res_obind (is ''start'') (\<lambda>b. if b then
         res_obind (Some (strtol_int (parm tmp sz i) 0)) (\<lambda>uid. res_obind (gate_lookup g uid) (\<lambda>n.
           Some (Inr (if n \<ge> 0 then [Socket_Start uid] else [], g))))
       else res_obind (is ''close'') (\<lambda>b. if b then
         Some (Inr (if g_listen_id g \<ge> 0 then ([Socket_Close (g_listen_id g)], g\<lparr>g_listen_id := -1\<rparr>) else ([], g)))
       else res_obind (Some (cstr tmp 0)) (\<lambda>command.
         Some (Inr ([Error_Log (''[gate] Unkown command : '' @ command)], g)))))))))"

section \<open>Packages\<close>

definition report :: "gate \<Rightarrow> string \<Rightarrow> gate_event list res" where
  "report g txt = (if g_watchdog g = 0 then Inr []
     else if length txt \<ge> 1024 then Inl Out_Of_Bounds
     else Inr [Send 0 (g_watchdog g) (ucast PTYPE_TEXT) (text_bytes txt)])"

definition put_buffer :: "gate \<Rightarrow> nat \<Rightarrow> databuffer \<Rightarrow> messagepool \<Rightarrow> gate" where
  "put_buffer g n db mp = g\<lparr>g_conn := (g_conn g)[n := (g_conn g ! n)\<lparr>c_buffer := db\<rparr>], g_mp := mp\<rparr>"

definition forward :: "gate \<Rightarrow> nat \<Rightarrow> int \<Rightarrow> (gate_event list \<times> gate) res option" where
  "forward g n len =
    (let c = g_conn g ! n; read = databuffer_read (c_buffer c) (g_mp g) len in
     if g_broker g \<noteq> 0 then
       res_obind read (\<lambda>(temp, db, mp).
         Some (Inr ([Send 0 (g_broker g) (g_client_tag g OR PTYPE_TAG_DONTCOPY) temp], put_buffer g n db mp)))
     else if c_agent c \<noteq> 0 then
       res_obind read (\<lambda>(temp, db, mp).
         Some (Inr ([Send (c_client c) (c_agent c) (g_client_tag g OR PTYPE_TAG_DONTCOPY) temp], put_buffer g n db mp)))
     else if g_watchdog g \<noteq> 0 then
       res_obind read (\<lambda>(temp, db, mp).
         Some (Inr ([Send 0 (g_watchdog g) (ucast PTYPE_TEXT OR PTYPE_TAG_DONTCOPY)
           (text_bytes (dec_text (c_id c) @ '' data '') @ temp)], put_buffer g n db mp)))
     else Some (Inr ([], g)))"

text \<open>The loop of \<open>dispatch_message\<close>; \<open>out\<close> is what was sent so far.\<close>

partial_function (option) dispatch_loop :: "gate \<Rightarrow> nat \<Rightarrow> int \<Rightarrow> gate_event list \<Rightarrow> (gate_event list \<times> gate) res option" where
  "dispatch_loop g n fd out =
    (case databuffer_readheader (c_buffer (g_conn g ! n)) (g_mp g) (g_header_size g) of
       None \<Rightarrow> None
     | Some (Inl e) \<Rightarrow> Some (Inl e)
     | Some (Inr (len, db, mp)) \<Rightarrow>
        (let g = put_buffer g n db mp in
         if len < 0 then Some (Inr (out, g))
         else if len > 0 then
           (if len \<ge> 0x1000000 then
              res_obind (databuffer_clear db mp) (\<lambda>(db, mp).
                Some (Inr (out @ [Socket_Close fd, Error_Log ''Recv socket message > 16M''], put_buffer g n db mp)))
            else
              (case forward g n len of
                 None \<Rightarrow> None
               | Some (Inl e) \<Rightarrow> Some (Inl e)
               | Some (Inr (evs, g)) \<Rightarrow>
                  dispatch_loop (put_buffer g n (databuffer_reset (c_buffer (g_conn g ! n))) (g_mp g)) n fd (out @ evs)))
         else dispatch_loop g n fd out))"

declare dispatch_loop.simps [code]

definition gate_dispatch_message :: "gate \<Rightarrow> nat \<Rightarrow> int \<Rightarrow> bytes option \<Rightarrow> int \<Rightarrow> (gate_event list \<times> gate) res option" where
  "gate_dispatch_message g n fd data sz =
     res_obind (Some (databuffer_push (c_buffer (g_conn g ! n)) (g_mp g) data sz)) (\<lambda>(db, mp).
       dispatch_loop (put_buffer g n db mp) n fd [])"

section \<open>Messages of the socket layer\<close>

text \<open>\<open>remote_name\<close> holds 32 bytes with the terminator; \<open>%x\<close> and \<open>%d\<close> print the \<open>int\<close> id.\<close>

definition gate_accept :: "gate \<Rightarrow> socket_message \<Rightarrow> (gate_event list \<times> gate) res option" where
  "gate_accept g m =
    (let ud = sint (sm_ud m) in
     if g_listen_id g \<noteq> sint (sm_id m) then Some (Inl Assert_Failed)
     else if hashid_full (g_hash g) then Some (Inr ([Socket_Close ud], g))
     else res_obind (Some (hashid_insert (g_hash g) ud)) (\<lambda>(n, hash).
       let name = take 31 (sm_padding m);
           c = (g_conn g ! n)\<lparr>c_id := ud, c_remote_name := name\<rparr>;
           g = g\<lparr>g_hash := hash, g_conn := (g_conn g)[n := c]\<rparr> in
       res_obind (Some (report g (dec_text ud @ '' open '' @ dec_text ud @ '' '' @ takeWhile (\<lambda>c. c \<noteq> NUL) name @ '':0''))) (\<lambda>evs.
         Some (Inr (evs @ [Error_Log (''socket open: '' @ hex_text (word_of_int ud))], g)))))"

definition gate_close :: "gate \<Rightarrow> socket_message \<Rightarrow> (gate_event list \<times> gate) res option" where
  "gate_close g m = res_obind (map_option Inr (hashid_remove (g_hash g) (sint (sm_id m)))) (\<lambda>(i, hash).
     let g = g\<lparr>g_hash := hash\<rparr> in
     if i \<ge> 0 then
       (let n = nat i in
        res_obind (databuffer_clear (c_buffer (g_conn g ! n)) (g_mp g)) (\<lambda>(db, mp).
          let g = g\<lparr>g_conn := (g_conn g)[n := no_connection], g_mp := mp\<rparr> in
          res_obind (Some (report g (dec_text (sint (sm_id m)) @ '' close''))) (\<lambda>evs. Some (Inr (evs, g)))))
     else Some (Inr ([], g)))"

definition dispatch_socket_message :: "gate \<Rightarrow> socket_message \<Rightarrow> (gate_event list \<times> gate) res option" where
  "dispatch_socket_message g m =
    (let fd = sint (sm_id m) in
     case sm_type m of
       T_Data \<Rightarrow> res_obind (gate_lookup g fd) (\<lambda>i.
         if i \<ge> 0 then gate_dispatch_message g (nat i) fd (sm_buffer m) (sint (sm_ud m))
         else Some (Inr ([Error_Log (''Drop unknown connection '' @ dec_text fd @ '' message''), Socket_Close fd], g)))
     | T_Connect \<Rightarrow>
         if fd = g_listen_id g then Some (Inr ([], g))
         else res_obind (gate_lookup g fd) (\<lambda>i.
           Some (Inr (if i < 0 then [Error_Log (''Close unknown connection '' @ dec_text fd), Socket_Close fd] else [], g)))
     | T_Close \<Rightarrow> gate_close g m
     | T_Error \<Rightarrow> gate_close g m
     | T_Accept \<Rightarrow> gate_accept g m
     | T_Warning \<Rightarrow> Some (Inr ([Error_Log (''fd ('' @ dec_text fd @ '') send buffer ('' @ dec_text (sint (sm_ud m)) @ '')K'')], g))
     | T_Udp \<Rightarrow> Some (Inr ([], g)))"

section \<open>The callback\<close>

datatype gate_message =
    Text_Message string
  | Client_Message u32 bytes
  | Socket_Message socket_message
  | Other_Message

text \<open>The last four bytes of a client message are the socket id, least significant first.\<close>

definition client_uid :: "bytes \<Rightarrow> int" where
  "client_uid msg = sint (le_word (drop (length msg - 4) msg) :: u32)"

definition gate_cb :: "gate_env \<Rightarrow> gate \<Rightarrow> gate_message \<Rightarrow> (int \<times> gate_event list \<times> gate) res option" where
  "gate_cb ev g msg =
    (let keep = (\<lambda>r. res_obind r (\<lambda>(evs, g). Some (Inr (0, evs, g)))) in
     case msg of
       Text_Message txt \<Rightarrow> keep (ctrl ev g txt)
     | Client_Message source data \<Rightarrow>
         if length data \<le> 4 then Some (Inr (0, [Error_Log (''Invalid client message from '' @ hex_text source)], g))
         else res_obind (gate_lookup g (client_uid data)) (\<lambda>i.
           if i \<ge> 0 then Some (Inr (1, [Socket_Send (client_uid data) (take (length data - 4) data)], g))
           else Some (Inr (0, [Error_Log (''Invalid client id '' @ dec_text (client_uid data) @ '' from '' @ hex_text source)], g)))
     | Socket_Message m \<Rightarrow> keep (dispatch_socket_message g m)
     | Other_Message \<Rightarrow> Some (Inr (0, [], g)))"

section \<open>Start\<close>

definition start_listen :: "gate_env \<Rightarrow> gate \<Rightarrow> string \<Rightarrow> int \<times> gate_event list \<times> gate" where
  "start_listen ev g addr =
    (let host = takeWhile (\<lambda>c. c \<noteq> CHR '':'') addr;
         colon = (length host < length addr);
         port = to_int (fst (strtol10 (if colon then drop (length host + 1) addr else addr)));
         g' = g\<lparr>g_listen_id := ge_listen ev (if colon then host else []) port\<rparr> in
     if port \<le> 0 then (1, [Error_Log (''Invalid gate address '' @ addr)], g)
     else if g_listen_id g' < 0 then (1, [], g')
     else (0, [Socket_Start (g_listen_id g')], g'))"

text \<open>\<open>sscanf(parm, "%c %s %s %d %d", ...)\<close>: the items it could convert, in order.\<close>

definition scan_word :: "string \<Rightarrow> (string \<times> string) option" where
  "scan_word s = (let s1 = dropWhile is_space s; w = takeWhile (\<lambda>c. \<not> is_space c) s1 in
     if w = [] then None else Some (w, drop (length w) s1))"

definition scan_int :: "string \<Rightarrow> (int \<times> string) option" where
  "scan_int s = (case strtol10 s of (v, rest) \<Rightarrow> if rest = s then None else Some (to_int v, rest))"

definition scan_parm :: "string \<Rightarrow> (char \<times> string \<times> string \<times> int \<times> int option) option" where
  "scan_parm s = (case s of [] \<Rightarrow> None | header # s \<Rightarrow>
     Option.bind (scan_word s) (\<lambda>(watchdog, s). Option.bind (scan_word s) (\<lambda>(binding, s).
       Option.bind (scan_int s) (\<lambda>(tag, s). Some (header, watchdog, binding, tag, map_option fst (scan_int s))))))"

definition gate_init :: "gate_env \<Rightarrow> gate \<Rightarrow> string option \<Rightarrow> int \<times> gate_event list \<times> gate" where
  "gate_init ev g p =
    (case p of None \<Rightarrow> (1, [], g) | Some p \<Rightarrow>
      (case scan_parm p of None \<Rightarrow> (1, [Error_Log (''Invalid gate parm '' @ p)], g)
       | Some (header, watchdog, binding, tag, mx) \<Rightarrow>
         let mx = (case mx of None \<Rightarrow> 0 | Some m \<Rightarrow> m) in
         if mx \<le> 0 then (1, [Error_Log ''Need max connection''], g)
         else if header \<noteq> CHR ''S'' \<and> header \<noteq> CHR ''L'' then (1, [Error_Log ''Invalid data header style''], g)
         else
           let client_tag = (if tag = 0 then PTYPE_CLIENT else word_of_int tag);
               g1 = g\<lparr>g_watchdog := (if hd watchdog = CHR ''!'' then 0 else ge_queryname ev watchdog)\<rparr> in
           if hd watchdog \<noteq> CHR ''!'' \<and> g_watchdog g1 = 0 then (1, [Error_Log (''Invalid watchdog '' @ watchdog)], g1)
           else
             let n = nat mx;
                 g2 = g1\<lparr>g_hash := hashid_init n, g_conn := replicate n no_connection, g_max_connection := n,
                         g_client_tag := client_tag, g_header_size := (if header = CHR ''S'' then 2 else 4)\<rparr>;
                 r = start_listen ev g2 binding in
             (fst r, Set_Callback # fst (snd r), snd (snd r))))"

section \<open>Cutting a stream into packages\<close>

text \<open>
  What the loop of \<open>dispatch_message\<close> does to the announced length \<open>h\<close> (0: the header is still to come) and the
  bytes \<open>s\<close> of a connection, as a function of its own: the packages it forwards or drops, and what is left.
  Without a destination (\<open>dest\<close>) the payload stays in the stream.
\<close>

datatype gate_item = Package bytes | Too_Big

function dispatch_ref :: "nat \<Rightarrow> bool \<Rightarrow> int \<Rightarrow> bytes \<Rightarrow> gate_item list \<times> int \<times> bytes" where
  "dispatch_ref hs dest h s =
    (if h = 0 \<and> (hs = 0 \<or> length s < hs) then ([], h, s)
     else let h' = (if h = 0 then header_value hs (take hs s) else h); s' = (if h = 0 then drop hs s else s) in
       if h' < 0 \<or> int (length s') < h' then ([], h', s')
       else if h' = 0 then dispatch_ref hs dest 0 s'
       else if h' \<ge> 0x1000000 then ([Too_Big], 0, [])
       else if dest then
         (case dispatch_ref hs dest 0 (drop (nat h') s') of (items, r) \<Rightarrow> (Package (take (nat h') s') # items, r))
       else dispatch_ref hs dest 0 s')"
  by pat_completeness auto
termination
  by (relation "measure (\<lambda>(hs, dest, h, s). 2 * length s + (if h = 0 then 0 else 1))") (auto simp: Let_def split: if_splits)

declare dispatch_ref.simps [simp del]

definition has_dest :: "gate \<Rightarrow> nat \<Rightarrow> bool" where
  "has_dest g n \<longleftrightarrow> g_broker g \<noteq> 0 \<or> c_agent (g_conn g ! n) \<noteq> 0 \<or> g_watchdog g \<noteq> 0"

text \<open>Where a package goes.\<close>

definition package_event :: "gate \<Rightarrow> nat \<Rightarrow> bytes \<Rightarrow> gate_event" where
  "package_event g n p =
    (let c = g_conn g ! n in
     if g_broker g \<noteq> 0 then Send 0 (g_broker g) (g_client_tag g OR PTYPE_TAG_DONTCOPY) p
     else if c_agent c \<noteq> 0 then Send (c_client c) (c_agent c) (g_client_tag g OR PTYPE_TAG_DONTCOPY) p
     else Send 0 (g_watchdog g) (ucast PTYPE_TEXT OR PTYPE_TAG_DONTCOPY) (text_bytes (dec_text (c_id c) @ '' data '') @ p))"

definition item_events :: "gate \<Rightarrow> nat \<Rightarrow> int \<Rightarrow> gate_item \<Rightarrow> gate_event list" where
  "item_events g n fd it = (case it of Package p \<Rightarrow> [package_event g n p]
     | Too_Big \<Rightarrow> [Socket_Close fd, Error_Log ''Recv socket message > 16M''])"

section \<open>The buffers of the connections\<close>

text \<open>\<open>g_buffers\<close>: the buffers are in order, with the announced lengths and pending bytes they hold.\<close>

definition g_bufs :: "gate \<Rightarrow> addr list \<Rightarrow> addr list list \<Rightarrow> bool" where
  "g_bufs g fl ls \<longleftrightarrow> pool_inv (g_mp g) (map c_buffer (g_conn g)) fl ls"

definition g_pend :: "gate \<Rightarrow> addr list list \<Rightarrow> nat \<Rightarrow> int \<times> bytes" where
  "g_pend g ls n = (if n < length (g_conn g)
     then (db_header (c_buffer (g_conn g ! n)), db_stream (g_mp g) (c_buffer (g_conn g ! n)) (ls ! n)) else (0, []))"

text \<open>\<open>g_moved g n fl ls g' fl' ls' h s\<close>: only connection \<open>n\<close> and the pool changed, it is left with \<open>(h, s)\<close>.\<close>

definition g_moved :: "gate \<Rightarrow> nat \<Rightarrow> addr list list \<Rightarrow> gate \<Rightarrow> addr list list \<Rightarrow> int \<Rightarrow> bytes \<Rightarrow> bool" where
  "g_moved g n ls g' ls' h s \<longleftrightarrow> (\<exists>db mp. g' = put_buffer g n db mp) \<and> (\<exists>fl. g_bufs g' fl ls') \<and>
     g_pend g' ls' = (g_pend g ls)(n := (h, s))"

lemma put_buffer_simps [simp]:
  "g_listen_id (put_buffer g n db mp) = g_listen_id g" "g_watchdog (put_buffer g n db mp) = g_watchdog g"
  "g_broker (put_buffer g n db mp) = g_broker g" "g_client_tag (put_buffer g n db mp) = g_client_tag g"
  "g_header_size (put_buffer g n db mp) = g_header_size g" "g_max_connection (put_buffer g n db mp) = g_max_connection g"
  "g_hash (put_buffer g n db mp) = g_hash g" "g_mp (put_buffer g n db mp) = mp"
  "length (g_conn (put_buffer g n db mp)) = length (g_conn g)"
  by (simp_all add: put_buffer_def)

lemma put_buffer_nth:
  "n < length (g_conn g) \<Longrightarrow> g_conn (put_buffer g n db mp) ! n = (g_conn g ! n)\<lparr>c_buffer := db\<rparr>"
  by (simp add: put_buffer_def)

lemma put_buffer_twice [simp]:
  "n < length (g_conn g) \<Longrightarrow> put_buffer (put_buffer g n db mp) n db' mp' = put_buffer g n db' mp'"
  by (simp add: put_buffer_def)

lemma put_buffer_dest:
  "n < length (g_conn g) \<Longrightarrow> has_dest (put_buffer g n db mp) n = has_dest g n"
  "n < length (g_conn g) \<Longrightarrow> package_event (put_buffer g n db mp) n = package_event g n"
  "n < length (g_conn g) \<Longrightarrow> item_events (put_buffer g n db mp) n = item_events g n"
  by (auto simp: has_dest_def package_event_def item_events_def put_buffer_nth Let_def fun_eq_iff split: gate_item.split)

lemma map_put_buffer: "map c_buffer (g_conn (put_buffer g n db mp)) = (map c_buffer (g_conn g))[n := db]"
  by (simp add: put_buffer_def map_update)

text \<open>A buffer operation lifts to the gate.\<close>

lemma g_lift:
  assumes "g_bufs g fl ls" "n < length (g_conn g)" "buf_inv mp' db' fl' l'"
    "pool_frame (g_mp g) (set (fl @ ls ! n)) mp' (set (fl' @ l'))" "db_size db' = int (length (db_stream mp' db' l'))"
  shows "g_bufs (put_buffer g n db' mp') fl' (ls[n := l'])"
    "g_moved g n ls (put_buffer g n db' mp') (ls[n := l']) (db_header db') (db_stream mp' db' l')"
proof -
  let ?dbs = "map c_buffer (g_conn g)"
  have inv: "pool_inv (g_mp g) ?dbs fl ls"
    using assms(1) by (simp add: g_bufs_def)
  have n: "n < length ?dbs" and fr: "pool_frame (g_mp g) (set (fl @ ls ! n)) mp' (set (fl' @ l'))"
    using assms(2,4) by simp_all
  note s = pool_step [OF inv n assms(3) fr assms(5)]
  show b: "g_bufs (put_buffer g n db' mp') fl' (ls[n := l'])"
    using s(1) by (simp add: g_bufs_def map_put_buffer)
  have "g_pend (put_buffer g n db' mp') (ls[n := l']) m = ((g_pend g ls)(n := (db_header db', db_stream mp' db' l'))) m" for m
  proof (cases "m < length (g_conn g)")
    case True
    have "pool_streams mp' (?dbs[n := db']) (ls[n := l']) ! m = ((pool_streams (g_mp g) ?dbs ls)[n := db_stream mp' db' l']) ! m"
      using s(2) by simp
    moreover have "pool_streams mp' (?dbs[n := db']) (ls[n := l']) ! m = db_stream mp' (?dbs[n := db'] ! m) (ls[n := l'] ! m)"
      using True by (intro pool_streams_nth [OF s(1)]) simp
    moreover have "pool_streams (g_mp g) ?dbs ls ! m = db_stream (g_mp g) (?dbs ! m) (ls ! m)"
      using True by (intro pool_streams_nth [OF inv]) simp
    moreover have "length (pool_streams (g_mp g) ?dbs ls) = length (g_conn g)"
      using length_pool_streams [OF inv] by simp
    ultimately show ?thesis
      using True assms(2) by (cases "m = n") (simp_all add: g_pend_def put_buffer_def)
  next
    case False
    then show ?thesis
      using assms(2) by (simp add: g_pend_def)
  qed
  then show "g_moved g n ls (put_buffer g n db' mp') (ls[n := l']) (db_header db') (db_stream mp' db' l')"
    using b by (auto simp: g_moved_def)
qed

lemma g_buf:
  assumes "g_bufs g fl ls" "n < length (g_conn g)"
  shows "buf_inv (g_mp g) (c_buffer (g_conn g ! n)) fl (ls ! n)"
    "db_size (c_buffer (g_conn g ! n)) = int (length (snd (g_pend g ls n)))"
    "db_stream (g_mp g) (c_buffer (g_conn g ! n)) (ls ! n) = snd (g_pend g ls n)"
    "db_header (c_buffer (g_conn g ! n)) = fst (g_pend g ls n)"
  using pool_at [of "g_mp g" "map c_buffer (g_conn g)" fl ls n] assms by (simp_all add: g_bufs_def g_pend_def)

lemma g_moved_trans:
  assumes "g_moved g n ls g1 ls1 h1 s1" "g_moved g1 n ls1 g2 ls2 h2 s2" "n < length (g_conn g)"
  shows "g_moved g n ls g2 ls2 h2 s2"
proof -
  obtain db mp where g1: "g1 = put_buffer g n db mp"
    using assms(1) by (auto simp: g_moved_def)
  obtain db' mp' where "g2 = put_buffer g1 n db' mp'"
    using assms(2) by (auto simp: g_moved_def)
  then have "g2 = put_buffer g n db' mp'"
    using assms(3) by (simp add: g1)
  then show ?thesis
    using assms(1,2) unfolding g_moved_def by auto
qed

lemma g_moved_gate:
  assumes "g_moved g n ls g' ls' h s" "n < length (g_conn g)"
  shows "g_header_size g' = g_header_size g" "has_dest g' n = has_dest g n" "item_events g' n = item_events g n"
    "package_event g' n = package_event g n" "n < length (g_conn g')" "g_pend g' ls' n = (h, s)"
    "length (g_conn g') = length (g_conn g)" "\<exists>fl'. g_bufs g' fl' ls'"
  using assms by (auto simp: g_moved_def put_buffer_dest)

lemma g_header:
  assumes "g_bufs g fl ls" "n < length (g_conn g)"
    and db_def: "db = (c_buffer (g_conn g ! n))\<lparr>db_header := h\<rparr>"
  shows "\<exists>fl' ls'. g_bufs (put_buffer g n db (g_mp g)) fl' ls' \<and>
    g_moved g n ls (put_buffer g n db (g_mp g)) ls' h (snd (g_pend g ls n))"
proof -
  note b = g_buf [OF assms(1,2)]
  have "buf_inv (g_mp g) db fl (ls ! n)" "db_size db = int (length (db_stream (g_mp g) db (ls ! n)))"
      "db_stream (g_mp g) db (ls ! n) = snd (g_pend g ls n)" "db_header db = h"
    using b by (simp_all add: db_def buf_inv_fields)
  then show ?thesis
    using g_lift [OF assms(1,2), of "g_mp g" db fl "ls ! n"] pool_frame_refl by metis
qed

lemma put_buffer_same: "n < length (g_conn g) \<Longrightarrow> put_buffer g n (c_buffer (g_conn g ! n)) (g_mp g) = g"
  by (simp add: put_buffer_def)

text \<open>Reading the header: either nothing changes, or the header is consumed and the bytes shortened.\<close>

lemma g_readheader:
  assumes "g_bufs g fl ls" "n < length (g_conn g)" "0 < g_header_size g" "g_pend g ls n = (h, s)"
    and d: "\<not> (h = 0 \<and> length s < g_header_size g)"
  defines "h' \<equiv> if h = 0 then header_value (g_header_size g) (take (g_header_size g) s) else h"
    and "s' \<equiv> if h = 0 then drop (g_header_size g) s else s"
  shows "\<exists>db mp fl' ls'. databuffer_readheader (c_buffer (g_conn g ! n)) (g_mp g) (g_header_size g) =
      Some (Inr (if int (length s') < h' then -1 else h', db, mp)) \<and>
    g_bufs (put_buffer g n db mp) fl' ls' \<and> g_moved g n ls (put_buffer g n db mp) ls' h' s'"
proof (cases "h = 0")
  case True
  note b = g_buf [OF assms(1,2)]
  obtain db' mp' fl' l' where r: "databuffer_readheader (c_buffer (g_conn g ! n)) (g_mp g) (g_header_size g) =
        Some (Inr (if db_size db' < h' then -1 else h', db', mp'))" "buf_inv mp' db' fl' l'" "db_stream mp' db' l' = s'"
      "pool_frame (g_mp g) (set (fl @ ls ! n)) mp' (set (fl' @ l'))" "db_header db' = h'" "db_size db' = int (length (db_stream mp' db' l'))"
    using databuffer_readheader_correct [OF b(1), of "g_header_size g"] b(2-4) assms(3,4) d True
    unfolding Let_def h'_def s'_def by auto
  then show ?thesis
    using g_lift [OF assms(1,2) r(2,4,6)] by (intro exI [of _ db'] exI [of _ mp']) auto
next
  case False
  note b = g_buf [OF assms(1,2)]
  let ?db = "c_buffer (g_conn g ! n)"
  have "databuffer_readheader ?db (g_mp g) (g_header_size g) = Some (Inr (if int (length s') < h' then -1 else h', ?db, g_mp g))"
    using databuffer_readheader_again [of ?db "g_mp g" "g_header_size g"] b assms(4) False by (simp add: h'_def s'_def)
  moreover have "g_moved g n ls g ls h' s'"
    using assms(1,2,4) False put_buffer_same [OF assms(2)] by (auto simp: g_moved_def h'_def s'_def fun_upd_idem intro: sym)
  ultimately show ?thesis
    using assms(1) put_buffer_same [OF assms(2)] by (intro exI [of _ ?db] exI [of _ "g_mp g"] exI [of _ fl] exI [of _ ls]) simp
qed

lemma g_forward:
  assumes "g_bufs g fl ls" "n < length (g_conn g)" "g_pend g ls n = (h, s)" "0 < len" "len \<le> int (length s)"
  shows "\<exists>g' fl' ls'. forward g n len = Some (Inr (if has_dest g n then [package_event g n (take (nat len) s)] else [], g')) \<and>
    g_bufs g' fl' ls' \<and> g_moved g n ls g' ls' h (if has_dest g n then drop (nat len) s else s)"
proof (cases "has_dest g n")
  case False
  moreover have "g_moved g n ls g ls h s"
    using assms(1-3) put_buffer_same [OF assms(2)] by (auto simp: g_moved_def fun_upd_idem intro: sym)
  ultimately show ?thesis
    using assms(1) by (intro exI [of _ g] exI [of _ fl] exI [of _ ls]) (simp add: forward_def has_dest_def Let_def)
next
  case True
  note b = g_buf [OF assms(1,2)]
  obtain db' mp' fl' l' where r: "databuffer_read (c_buffer (g_conn g ! n)) (g_mp g) len = Some (Inr (take (nat len) s, db', mp'))"
      "buf_inv mp' db' fl' l'" "db_stream mp' db' l' = drop (nat len) s"
      "pool_frame (g_mp g) (set (fl @ ls ! n)) mp' (set (fl' @ l'))" "db_header db' = h" "db_size db' = int (length (db_stream mp' db' l'))"
    using databuffer_read_correct [OF b(1), of len] b(2-4) assms(3-5) by auto
  have "forward g n len = Some (Inr ([package_event g n (take (nat len) s)], put_buffer g n db' mp'))"
    using True r(1) by (auto simp: forward_def has_dest_def package_event_def Let_def)
  then show ?thesis
    using True g_lift [OF assms(1,2) r(2,4,6)] r(3,5) by auto
qed

lemma dispatch_loop_correct:
  assumes "g_bufs g fl ls" "n < length (g_conn g)" "0 < g_header_size g" "g_pend g ls n = (h, s)"
    "dispatch_ref (g_header_size g) (has_dest g n) h s = (items, h', s')"
  shows "\<exists>g' ls'. dispatch_loop g n fd out = Some (Inr (out @ concat (map (item_events g n fd) items), g')) \<and>
    g_moved g n ls g' ls' h' s'"
  using assms
proof (induction "2 * length s + (if h = 0 then 0 else 1)" arbitrary: g fl ls h s out items rule: less_induct)
  case less
  let ?hs = "g_header_size g"
  let ?db = "c_buffer (g_conn g ! n)"
  note prems = less.prems
  note b = g_buf [OF prems(1,2)]
  show ?case
  proof (cases "h = 0 \<and> length s < ?hs")
    case True
    then have "databuffer_readheader ?db (g_mp g) ?hs = Some (Inr (-1, ?db, g_mp g))"
      using b prems(4) by (intro databuffer_readheader_short) simp_all
    then have "dispatch_loop g n fd out = Some (Inr (out, g))"
      using put_buffer_same [OF prems(2)] by (subst dispatch_loop.simps) simp
    moreover have "items = []" "h' = h" "s' = s"
      using prems(5) [unfolded dispatch_ref.simps [of ?hs _ h s]] True by simp_all
    moreover have "g_moved g n ls g ls h s"
      using prems(1,2,4) put_buffer_same [OF prems(2)] by (auto simp: g_moved_def fun_upd_idem intro: sym)
    ultimately show ?thesis
      by (intro exI [of _ g] exI [of _ ls]) simp
  next
    case False
    define h1 where "h1 = (if h = 0 then header_value ?hs (take ?hs s) else h)"
    define s1 where "s1 = (if h = 0 then drop ?hs s else s)"
    have ref: "dispatch_ref ?hs (has_dest g n) h s = (if h1 < 0 \<or> int (length s1) < h1 then ([], h1, s1)
       else if h1 = 0 then dispatch_ref ?hs (has_dest g n) 0 s1
       else if h1 \<ge> 0x1000000 then ([Too_Big], 0, [])
       else if has_dest g n then
         (case dispatch_ref ?hs (has_dest g n) 0 (drop (nat h1) s1) of (items, r) \<Rightarrow> (Package (take (nat h1) s1) # items, r))
       else dispatch_ref ?hs (has_dest g n) 0 s1)"
      using False prems(3) unfolding h1_def s1_def by (subst dispatch_ref.simps) (simp only: Let_def, auto)
    have smaller: "2 * length s1 < 2 * length s + (if h = 0 then 0 else 1)"
      using False prems(3) by (auto simp: s1_def)
    obtain db mp fl1 ls1 where rh: "databuffer_readheader ?db (g_mp g) ?hs = Some (Inr (if int (length s1) < h1 then -1 else h1, db, mp))"
        "g_bufs (put_buffer g n db mp) fl1 ls1" "g_moved g n ls (put_buffer g n db mp) ls1 h1 s1"
      using g_readheader [OF prems(1-4) False] unfolding h1_def s1_def by blast
    define g1 where "g1 = put_buffer g n db mp"
    note m1 = rh(3) [folded g1_def] and b1 = rh(2) [folded g1_def]
    note e1 = g_moved_gate [OF m1 prems(2)]
    consider "h1 < 0 \<or> int (length s1) < h1" | "h1 = 0" | "h1 \<ge> 0x1000000" "h1 \<le> int (length s1)"
      | "0 < h1" "h1 < 0x1000000" "h1 \<le> int (length s1)"
      by linarith
    then show ?thesis
    proof cases
      case a: 1
      then have "dispatch_loop g n fd out = Some (Inr (out, g1))"
        using rh(1) by (subst dispatch_loop.simps) (auto simp: g1_def)
      moreover have "items = []" "h' = h1" "s' = s1"
        using prems(5) a ref by simp_all
      ultimately show ?thesis
        using m1 by (intro exI [of _ g1] exI [of _ ls1]) simp
    next
      case a: 2
      have step: "dispatch_loop g n fd out = dispatch_loop g1 n fd out"
        using rh(1) a by (subst dispatch_loop.simps) (simp add: g1_def)
      have "dispatch_ref ?hs (has_dest g n) 0 s1 = (items, h', s')"
        using prems(5) ref a by simp
      then obtain g' ls' where "dispatch_loop g1 n fd out = Some (Inr (out @ concat (map (item_events g1 n fd) items), g'))"
          "g_moved g1 n ls1 g' ls' h' s'"
        using less.hyps [of s1 0 g1 fl1 ls1 items out] smaller b1 e1 prems(3) a by auto
      note i = this
      have "g_moved g n ls g' ls' h' s'"
        by (rule g_moved_trans [OF m1 i(2) prems(2)])
      then show ?thesis
        using step e1(3) i(1) by (intro exI [of _ g'] exI [of _ ls']) simp
    next
      case a: 3
      obtain mp' fl' where r: "databuffer_clear db mp = Some (Inr (db_empty, mp'))" "buf_inv mp' db_empty fl' []"
          "pool_frame mp (set (fl1 @ ls1 ! n)) mp' (set (fl' @ []))"
        using databuffer_clear_correct [OF g_buf(1) [OF b1 e1(5)]] prems(2) by (auto simp: g1_def put_buffer_nth)
      have z: "db_size db_empty = int (length (db_stream mp' db_empty []))" "db_header db_empty = 0" "db_stream mp' db_empty [] = []"
        by (simp_all add: db_stream_def db_empty_def)
      have "g_moved g1 n ls1 (put_buffer g1 n db_empty mp') (ls1[n := []]) 0 []"
        using g_lift(2) [OF b1 e1(5) r(2) _ z(1)] r(3) z by (simp add: g1_def)
      then have "g_moved g n ls (put_buffer g1 n db_empty mp') (ls1[n := []]) 0 []"
        by (rule g_moved_trans [OF m1 _ prems(2)])
      moreover have "dispatch_loop g n fd out =
          Some (Inr (out @ [Socket_Close fd, Error_Log ''Recv socket message > 16M''], put_buffer g1 n db_empty mp'))"
        using rh(1) a r(1) by (subst dispatch_loop.simps) (simp add: g1_def)
      moreover have "items = [Too_Big]" "h' = 0" "s' = []"
        using prems(5) ref a by simp_all
      ultimately show ?thesis
        by (intro exI) (simp add: item_events_def)
    next
      case a: 4
      obtain g2 fl2 ls2 where f: "forward g1 n h1 = Some (Inr (if has_dest g n then [package_event g n (take (nat h1) s1)] else [], g2))"
          "g_bufs g2 fl2 ls2" "g_moved g1 n ls1 g2 ls2 h1 (if has_dest g n then drop (nat h1) s1 else s1)"
        using g_forward [OF b1 e1(5,6) a(1,3)] e1(2,4) by auto
      define s2 where "s2 = (if has_dest g n then drop (nat h1) s1 else s1)"
      note m2 = g_moved_trans [OF m1 f(3) prems(2)]
      note e2 = g_moved_gate [OF m2 prems(2)]
      define g3 where "g3 = put_buffer g2 n (databuffer_reset (c_buffer (g_conn g2 ! n))) (g_mp g2)"
      obtain fl3 ls3 where r: "g_bufs g3 fl3 ls3" "g_moved g2 n ls2 g3 ls3 0 s2"
        using g_header [OF f(2) e2(5), of _ 0] e2(6) unfolding g3_def databuffer_reset_def s2_def by auto
      note m3 = g_moved_trans [OF m2 r(2) prems(2)]
      note e3 = g_moved_gate [OF m3 prems(2)]
      let ?evs = "if has_dest g n then [package_event g n (take (nat h1) s1)] else []"
      have step: "dispatch_loop g n fd out = dispatch_loop g3 n fd (out @ ?evs)"
        using rh(1) a f(1) by (subst dispatch_loop.simps) (simp add: g1_def g3_def)
      obtain items' where it: "dispatch_ref ?hs (has_dest g n) 0 s2 = (items', h', s')"
          "items = (if has_dest g n then [Package (take (nat h1) s1)] else []) @ items'"
        using prems(5) ref a unfolding s2_def by (auto split: if_splits prod.splits)
      have "length s2 \<le> length s1"
        by (simp add: s2_def)
      then have "2 * length s2 < 2 * length s + (if h = 0 then 0 else 1)"
        using smaller by linarith
      then obtain g' ls' where i: "dispatch_loop g3 n fd (out @ ?evs) = Some (Inr ((out @ ?evs) @ concat (map (item_events g3 n fd) items'), g'))"
          "g_moved g3 n ls3 g' ls' h' s'"
        using less.hyps [of s2 0 g3 fl3 ls3 items' "out @ ?evs"] r(1) e3 prems(3) it(1) by auto
      then show ?thesis
        using step e3(3) it(2) g_moved_trans [OF m3 i(2) prems(2)]
        by (intro exI [of _ g'] exI [of _ ls']) (simp add: item_events_def)
    qed
  qed
qed

section \<open>The text commands never fault\<close>

lemma cstr_ok:
  assumes "arr ! q = NUL" "p \<le> q" "q < length arr"
  shows "\<exists>s. cstr arr p = Inr s \<and> p + length s \<le> q"
proof -
  have q: "drop p arr ! (q - p) = NUL" "q - p < length (drop p arr)"
    using assms by simp_all
  then have "NUL \<in> set (drop p arr)"
    using nth_mem by metis
  moreover have "length (takeWhile (\<lambda>c. c \<noteq> NUL) (drop p arr)) \<le> q - p"
  proof (rule ccontr)
    define t where "t = takeWhile (\<lambda>c. c \<noteq> NUL) (drop p arr)"
    assume "\<not> length (takeWhile (\<lambda>c. c \<noteq> NUL) (drop p arr)) \<le> q - p"
    then have l: "q - p < length t"
      by (simp add: t_def)
    then have "t ! (q - p) = NUL"
      using q(1) takeWhile_nth [of "q - p" "\<lambda>c. c \<noteq> NUL" "drop p arr"] by (simp add: t_def)
    then have "NUL \<in> set t"
      using nth_mem [OF l] by simp
    then show False
      unfolding t_def by (auto dest: set_takeWhileD)
  qed
  ultimately show ?thesis
    using assms(2) by (simp add: cstr_def)
qed

lemma nth_update_same: "xs ! j = x \<Longrightarrow> xs[i := x] ! j = x"
  by (cases "i < length xs"; cases "j = i") (simp_all add: list_update_beyond)

lemma strsep_space_ok:
  assumes "arr ! q = NUL" "p \<le> q" "q < length arr" "arr ! z = NUL" "z < length arr"
  shows "\<exists>arr' r. strsep_space arr p = Inr (arr', r) \<and> length arr' = length arr \<and> arr' ! q = NUL \<and> arr' ! z = NUL \<and>
    (\<forall>k. r = Some k \<longrightarrow> k \<le> q)"
proof -
  obtain s where s: "cstr arr p = Inr s" "p + length s \<le> q"
    using cstr_ok [OF assms(1-3)] by blast
  let ?w = "length (takeWhile (\<lambda>c. c \<noteq> CHR '' '') s)"
  have "arr[p + ?w := NUL] ! q = NUL" "arr[p + ?w := NUL] ! z = NUL"
    by (rule nth_update_same; rule assms)+
  then show ?thesis
    using s assms by (cases "?w < length s") (simp_all add: strsep_space_def Let_def)
qed

lemma forward_parms_ok:
  assumes "arr ! q = NUL" "q < z" "z < length arr" "arr ! z = NUL"
  shows "\<exists>r. forward_parms arr = Inr r"
proof -
  obtain arr1 r1 where r1: "strsep_space arr 0 = Inr (arr1, r1)" "length arr1 = length arr" "arr1 ! q = NUL" "arr1 ! z = NUL"
      "\<forall>k. r1 = Some k \<longrightarrow> k \<le> q"
    using strsep_space_ok [of arr q 0 z] assms by auto
  show ?thesis
  proof (cases r1)
    case (Some agent)
    then have a: "agent \<le> q" "q < length arr1" "z < length arr1"
      using r1 assms by auto
    obtain arr2 r2 where r2: "strsep_space arr1 agent = Inr (arr2, r2)" "length arr2 = length arr1" "arr2 ! z = NUL"
        "\<forall>k. r2 = Some k \<longrightarrow> k \<le> q"
      using strsep_space_ok [OF r1(3) a(1,2) r1(4) a(3)] by auto
    obtain i where i: "strtol_int arr1 0 = Inr i"
      using cstr_ok [of arr1 q 0] r1(3) a by (auto simp: strtol_int_def)
    have "\<exists>h. strtoul_handle arr2 (k + 1) = Inr h" if "k \<le> q" for k
      using cstr_ok [of arr2 z "k + 1"] r2(2,3) a assms(2) that by (auto simp: strtoul_handle_def)
    then obtain ah ch where "strtoul_handle arr2 (agent + 1) = Inr ah" "\<forall>k. r2 = Some k \<longrightarrow> strtoul_handle arr2 (k + 1) = Inr (ch k)"
      using a(1) r2(4) by metis
    then show ?thesis
      using r1(1) r2(1) i Some by (cases r2) (simp_all add: forward_parms_def)
  qed (simp add: forward_parms_def r1(1))
qed

lemma memcmp_literal_ok: "NUL \<notin> set txt \<Longrightarrow> i \<le> length txt \<Longrightarrow> \<exists>b. memcmp_literal (txt @ [NUL]) lit i = Inr b"
proof -
  assume a: "NUL \<notin> set txt" "i \<le> length txt"
  have "take (length (lit @ [NUL])) (txt @ [NUL]) \<noteq> lit @ [NUL]" if "length (lit @ [NUL]) < i"
  proof
    assume "take (length (lit @ [NUL])) (txt @ [NUL]) = lit @ [NUL]"
    then have "NUL \<in> set (take (length (lit @ [NUL])) (txt @ [NUL]))"
      by simp
    moreover have "take (length (lit @ [NUL])) (txt @ [NUL]) = take (length (lit @ [NUL])) txt"
      using that a(2) by simp
    ultimately show False
      using a(1) set_take_subset by fastforce
  qed
  then show ?thesis
    by (auto simp: memcmp_literal_def Let_def)
qed

lemma parm_ends:
  assumes "i \<le> length txt"
  defines "arr \<equiv> parm (txt @ [NUL]) (length txt) i"
  shows "\<exists>q. q + i \<le> length txt \<and> arr ! q = NUL \<and> arr ! (length txt) = NUL \<and> length arr = length txt + 1"
proof -
  define p where "p = dropWhile (\<lambda>c. c = CHR '' '') (drop i txt)"
  have arr: "arr = p @ [NUL] @ drop (length p + 1) (txt @ [NUL])"
    by (simp add: arr_def parm_def p_def Let_def)
  have p: "length p + i \<le> length txt"
    using assms(1) length_dropWhile_le [of "\<lambda>c. c = CHR '' ''" "drop i txt"] by (simp add: p_def)
  have "length arr = length txt + 1"
    using p by (simp add: arr)
  moreover have "arr ! length p = NUL"
    by (simp add: arr nth_append)
  moreover have "arr ! length txt = NUL"
    using p by (cases "length p = length txt") (simp_all add: arr nth_append nth_Cons')
  ultimately show ?thesis
    using p by (intro exI [of _ "length p"]) simp
qed

section \<open>The gate at a glance\<close>

text \<open>
  \<open>gate_inv\<close>: slots of the table and connections agree, a slot not in use is blank, the buffers share the pool in
  order. \<open>gate_pending\<close>: what each connected socket has pending.
\<close>

definition gate_inv :: "gate \<Rightarrow> addr list list \<Rightarrow> bool" where
  "gate_inv g ls \<longleftrightarrow> hashid_inv (g_hash g) \<and> hi_cap (g_hash g) = length (g_conn g) \<and> g_max_connection g = length (g_conn g) \<and>
     0 < g_header_size g \<and> (\<exists>fl. g_bufs g fl ls) \<and>
     (\<forall>n < length (g_conn g). \<forall>i. slot_of (g_hash g) i = Some n \<longleftrightarrow> 0 \<le> i \<and> c_id (g_conn g ! n) = i) \<and>
     (\<forall>n < length (g_conn g). c_id (g_conn g ! n) < 0 \<longrightarrow> g_conn g ! n = no_connection)"

declare gate_inv_def [skynet_invs]

definition gate_pending :: "gate \<Rightarrow> addr list list \<Rightarrow> int \<Rightarrow> (int \<times> bytes) option" where
  "gate_pending g ls fd = map_option (g_pend g ls) (slot_of (g_hash g) fd)"

lemma gate_lookup_inv: "gate_inv g ls \<Longrightarrow>
  gate_lookup g i = Some (Inr (case slot_of (g_hash g) i of None \<Rightarrow> -1 | Some n \<Rightarrow> int n))"
  by (simp add: gate_lookup_def gate_inv_def hashid_lookup_correct)

lemma gate_slot: "gate_inv g ls \<Longrightarrow> slot_of (g_hash g) i = Some n \<Longrightarrow> n < length (g_conn g) \<and> c_id (g_conn g ! n) = i \<and> 0 \<le> i"
  using slot_of_inj(1) [of "g_hash g" i n] by (simp add: gate_inv_def)

lemma gate_slot_iff: "gate_inv g ls \<Longrightarrow> k < length (g_conn g) \<Longrightarrow>
    slot_of (g_hash g) i = Some k \<longleftrightarrow> 0 \<le> i \<and> c_id (g_conn g ! k) = i"
  by (simp add: gate_inv_def)

lemma gate_invI:
  assumes "hashid_inv (g_hash g)" "hi_cap (g_hash g) = length (g_conn g)" "g_max_connection g = length (g_conn g)"
    "0 < g_header_size g" "g_bufs g fl ls"
    "\<And>k i. k < length (g_conn g) \<Longrightarrow> slot_of (g_hash g) i = Some k \<longleftrightarrow> 0 \<le> i \<and> c_id (g_conn g ! k) = i"
    "\<And>k. k < length (g_conn g) \<Longrightarrow> c_id (g_conn g ! k) < 0 \<Longrightarrow> g_conn g ! k = no_connection"
  shows "gate_inv g ls"
  using assms by (auto simp: gate_inv_def)

lemma gate_inv_cong:
  assumes "gate_inv g ls" "g_hash g' = g_hash g" "g_max_connection g' = g_max_connection g" "g_header_size g' = g_header_size g"
    "g_mp g' = g_mp g" "map c_buffer (g_conn g') = map c_buffer (g_conn g)" "map c_id (g_conn g') = map c_id (g_conn g)"
    "\<And>n. n < length (g_conn g) \<Longrightarrow> c_id (g_conn g ! n) < 0 \<Longrightarrow> g_conn g' ! n = g_conn g ! n"
  shows "gate_inv g' ls" "gate_pending g' ls = gate_pending g ls"
proof -
  have len: "length (g_conn g') = length (g_conn g)"
    by (rule map_eq_imp_length_eq [OF assms(6)])
  have i: "c_id (g_conn g' ! n) = c_id (g_conn g ! n)" "c_buffer (g_conn g' ! n) = c_buffer (g_conn g ! n)" if "n < length (g_conn g)" for n
    using arg_cong [OF assms(7), of "\<lambda>l. l ! n"] arg_cong [OF assms(6), of "\<lambda>l. l ! n"] that len by simp_all
  show "gate_inv g' ls"
    using assms(1-6,8) len i by (simp add: gate_inv_def g_bufs_def)
  have "g_pend g' ls = g_pend g ls"
    using len i assms(5) by (auto simp: g_pend_def fun_eq_iff)
  then show "gate_pending g' ls = gate_pending g ls"
    by (intro ext) (simp only: gate_pending_def assms(2))
qed

lemma gate_moved_inv:
  assumes inv: "gate_inv g ls" and slot: "slot_of (g_hash g) fd = Some n" and m: "g_moved g n ls g' ls' h s"
  shows "gate_inv g' ls'" "gate_pending g' ls' = (gate_pending g ls)(fd \<mapsto> (h, s))" "g_hash g' = g_hash g"
proof -
  note n = gate_slot [OF inv slot]
  obtain db mp fl where g': "g' = put_buffer g n db mp" "g_bufs g' fl ls'" "g_pend g' ls' = (g_pend g ls)(n := (h, s))"
    using m by (auto simp: g_moved_def)
  have conn: "g_conn g' ! k = (if k = n then (g_conn g ! n)\<lparr>c_buffer := db\<rparr> else g_conn g ! k)" if "k < length (g_conn g)" for k
    using that n by (simp add: g'(1) put_buffer_def)
  show "gate_inv g' ls'"
    using inv g'(2) n by (auto simp: gate_inv_def g'(1) conn [unfolded g'(1)])
  show "gate_pending g' ls' = (gate_pending g ls)(fd \<mapsto> (h, s))"
  proof
    fix i
    have "k \<noteq> n" if "slot_of (g_hash g) i = Some k" "i \<noteq> fd" for k
      using gate_slot [OF inv that(1)] that(2) n by auto
    moreover have "g_hash g' = g_hash g"
      by (simp add: g'(1))
    ultimately show "gate_pending g' ls' i = ((gate_pending g ls)(fd \<mapsto> (h, s))) i"
      using slot g'(3) by (cases "slot_of (g_hash g) i"; cases "i = fd") (simp_all add: gate_pending_def)
  qed
  show "g_hash g' = g_hash g"
    by (simp add: g'(1))
qed

text \<open>A chunk of a known connection.\<close>

lemma gate_data:
  assumes inv: "gate_inv g ls" and slot: "slot_of (g_hash g) fd = Some n" and pend: "g_pend g ls n = (h, s)"
    and k: "0 \<le> k" "k \<le> int (length b)" "int (length s) + k < 2 ^ 31"
    and ref: "dispatch_ref (g_header_size g) (has_dest g n) h (s @ take (nat k) b) = (items, h', s')"
  shows "\<exists>g' ls'. gate_dispatch_message g n fd (Some b) k = Some (Inr (concat (map (item_events g n fd) items), g')) \<and>
    g_moved g n ls g' ls' h' s'"
proof -
  have n: "n < length (g_conn g)"
    using gate_slot [OF inv slot] by simp
  obtain fl where b: "g_bufs g fl ls" and hs: "0 < g_header_size g"
    using inv by (auto simp: gate_inv_def)
  note gb = g_buf [OF b n]
  obtain db mp fl' l' where p: "databuffer_push (c_buffer (g_conn g ! n)) (g_mp g) (Some b) k = Inr (db, mp)" "buf_inv mp db fl' l'"
      "db_stream mp db l' = s @ take (nat k) b" "pool_frame (g_mp g) (set (fl @ ls ! n)) mp (set (fl' @ l'))"
      "db_header db = h" "db_size db = int (length (db_stream mp db l'))"
    using databuffer_push_correct [OF gb(1) k(1,2)] gb(2-4) k(3) pend by auto
  define g1 where "g1 = put_buffer g n db mp"
  have b1: "g_bufs g1 fl' (ls[n := l'])" and m1: "g_moved g n ls g1 (ls[n := l']) h (s @ take (nat k) b)"
    using g_lift [OF b n p(2,4,6)] p(3,5) by (simp_all add: g1_def)
  note e1 = g_moved_gate [OF m1 n]
  have r1: "dispatch_ref (g_header_size g1) (has_dest g1 n) h (s @ take (nat k) b) = (items, h', s')" "0 < g_header_size g1"
    using ref hs e1(1,2) by simp_all
  obtain g' ls' where d: "dispatch_loop g1 n fd [] = Some (Inr ([] @ concat (map (item_events g1 n fd) items), g'))"
      "g_moved g1 n (ls[n := l']) g' ls' h' s'"
    using dispatch_loop_correct [OF b1 e1(5) r1(2) e1(6) r1(1)] by blast
  then show ?thesis
    using p(1) e1(3) g_moved_trans [OF m1 d(2) n]
    by (intro exI [of _ g'] exI [of _ ls']) (simp add: gate_dispatch_message_def g1_def)
qed

lemma g_bufs_cong:
  assumes "g_mp g' = g_mp g" "map c_buffer (g_conn g') = map c_buffer (g_conn g)"
  shows "g_bufs g' fl ls = g_bufs g fl ls" "g_pend g' ls = g_pend g ls"
proof -
  have len: "length (g_conn g') = length (g_conn g)"
    by (rule map_eq_imp_length_eq [OF assms(2)])
  have "c_buffer (g_conn g' ! n) = c_buffer (g_conn g ! n)" if "n < length (g_conn g)" for n
    using arg_cong [OF assms(2), of "\<lambda>l. l ! n"] that len by simp
  then show "g_pend g' ls = g_pend g ls"
    using assms(1) len by (auto simp: g_pend_def fun_eq_iff)
  show "g_bufs g' fl ls = g_bufs g fl ls"
    by (simp add: g_bufs_def assms)
qed

lemma length_number_text: "n < 10 ^ Suc k \<Longrightarrow> length (number_text dig 10 n) \<le> Suc k"
proof (induction k arbitrary: n)
  case 0
  then show ?case
    by (simp add: number_text.simps)
next
  case (Suc k)
  show ?case
  proof (cases "n < 10")
    case False
    have "n div 10 < 10 ^ Suc k"
      using Suc.prems by (simp add: less_mult_imp_div_less mult.commute)
    then show ?thesis
      using Suc.IH [of "n div 10"] False by (subst number_text.simps) simp
  qed (simp add: number_text.simps)
qed

lemma length_dec_text:
  assumes "- (2 ^ 31) \<le> v" "v < 2 ^ 31"
  shows "length (dec_text v) \<le> 11"
proof -
  have "nat v < 10 ^ Suc 9" "nat (- v) < 10 ^ Suc 9"
    using assms by (simp_all add: nat_less_iff)
  note l = length_number_text [OF this(1), of hex_lower] length_number_text [OF this(2), of hex_lower]
  then show ?thesis
    by (cases "v < 0") (simp_all add: dec_text_def)
qed

lemma sint_range: "- (2 ^ 31) \<le> sint (w :: u32)" "sint (w :: u32) < 2 ^ 31"
  using sint_range_size [of w] by (simp_all add: word_size)

lemma report_ok: "length txt < 1024 \<Longrightarrow>
  report g txt = Inr (if g_watchdog g = 0 then [] else [Send 0 (g_watchdog g) (ucast PTYPE_TEXT) (text_bytes txt)])"
  by (simp add: report_def)

text \<open>A free slot is blank and its buffer has no nodes.\<close>

lemma gate_free_slot:
  assumes inv: "gate_inv g ls" and n: "n < length (g_conn g)" "\<not> used (g_hash g) n"
  shows "g_conn g ! n = no_connection" "g_pend g ls n = (0, [])" "slot_of (g_hash g) i \<noteq> Some n"
proof -
  have ok: "nodes_ok (g_hash g)"
    using inv by (auto simp: gate_inv_def hashid_inv_def)
  have not: "slot_of (g_hash g) j \<noteq> Some n" for j
    using slot_of_Some [OF ok, of j n] n(2) by simp
  moreover have "slot_of (g_hash g) (c_id (g_conn g ! n)) = Some n" if "0 \<le> c_id (g_conn g ! n)"
    using inv n(1) that by (simp add: gate_inv_def)
  ultimately have "c_id (g_conn g ! n) < 0"
    by (meson not_le)
  then show c: "g_conn g ! n = no_connection"
    using inv n(1) by (simp add: gate_inv_def)
  obtain fl where "g_bufs g fl ls"
    using inv by (auto simp: gate_inv_def)
  then have "db_list (g_mp g) db_empty (ls ! n)"
    using g_buf(1) [of g fl ls n] n(1) c by (simp add: buf_inv_def no_connection_def)
  then have "ls ! n = []"
    by (cases "ls ! n") (simp_all add: db_list_def db_empty_def)
  then show "g_pend g ls n = (0, [])"
    using n(1) c by (simp add: g_pend_def no_connection_def db_stream_def db_empty_def)
  show "slot_of (g_hash g) i \<noteq> Some n"
    by (rule not)
qed

lemma gate_accept_correct:
  assumes inv: "gate_inv g ls" and m: "g_listen_id g = sint (sm_id m)" "0 \<le> sint (sm_ud m)"
    "slot_of (g_hash g) (sint (sm_ud m)) = None"
  shows "\<exists>evs g'. gate_accept g m = Some (Inr (evs, g')) \<and> gate_inv g' ls \<and>
    gate_pending g' ls = (if hashid_full (g_hash g) then gate_pending g ls else (gate_pending g ls)(sint (sm_ud m) \<mapsto> (0, [])))"
proof (cases "hashid_full (g_hash g)")
  case True
  then show ?thesis
    using inv m(1) by (simp add: gate_accept_def Let_def)
next
  case False
  let ?ud = "sint (sm_ud m)"
  have h: "hashid_inv (g_hash g)" "hi_cap (g_hash g) = length (g_conn g)"
    using inv by (simp_all add: gate_inv_def)
  obtain n hash where r: "hashid_insert (g_hash g) ?ud = Inr (n, hash)" "hashid_inv hash" "n < length (g_conn g)" "\<not> used (g_hash g) n"
      "slot_of hash = (slot_of (g_hash g))(?ud \<mapsto> n)" "hi_cap hash = length (g_conn g)"
    using hashid_insert_correct [OF h(1) m(2,3)] False h(2) by auto
  note free = gate_free_slot [OF inv r(3,4)]
  define c where "c = (g_conn g ! n)\<lparr>c_id := ?ud, c_remote_name := take 31 (sm_padding m)\<rparr>"
  define g' where "g' = g\<lparr>g_hash := hash, g_conn := (g_conn g)[n := c]\<rparr>"
  define name where "name = takeWhile (\<lambda>c. c \<noteq> NUL) (take 31 (sm_padding m))"
  have "length name \<le> 31"
    using length_takeWhile_le [of "\<lambda>c. c \<noteq> NUL" "take 31 (sm_padding m)"] by (simp add: name_def)
  then have "length (dec_text ?ud @ '' open '' @ dec_text ?ud @ '' '' @ name @ '':0'') < 1024"
    using length_dec_text [OF sint_range, of "sm_ud m"] by simp
  then obtain evs where "report g' (dec_text ?ud @ '' open '' @ dec_text ?ud @ '' '' @ name @ '':0'') = Inr evs"
    using report_ok by blast
  then have "\<exists>evs. gate_accept g m = Some (Inr (evs, g'))"
    using m(1) False r(1) by (simp add: gate_accept_def Let_def g'_def c_def name_def)
  moreover have buf: "map c_buffer (g_conn g') = map c_buffer (g_conn g)"
  proof -
    have "c_buffer c = map c_buffer (g_conn g) ! n"
      using r(3) by (simp add: c_def)
    then show ?thesis
      by (simp add: g'_def map_update list_update_id)
  qed
  note same = g_bufs_cong [of g' g, OF _ buf]
  have mp: "g_mp g' = g_mp g"
    by (simp add: g'_def)
  have conn: "length (g_conn g') = length (g_conn g)" "g_conn g' ! k = (if k = n then c else g_conn g ! k)" if "k < length (g_conn g)" for k
    using that by (simp_all add: g'_def)
  have slots: "slot_of hash i = Some k \<longleftrightarrow> 0 \<le> i \<and> c_id (g_conn g' ! k) = i" if "k < length (g_conn g)" for i k
  proof (cases "k = n")
    case True
    then show ?thesis
      using m(2) free(3) [of i] conn(2) [OF that] by (auto simp: r(5) c_def)
  next
    case False
    then show ?thesis
      using m(3) gate_slot_iff [OF inv that, of i] conn(2) [OF that] by (cases "i = ?ud") (auto simp: r(5))
  qed
  obtain fl where b: "g_bufs g fl ls"
    using inv by (auto simp: gate_inv_def)
  have f: "g_hash g' = hash" "g_max_connection g' = g_max_connection g" "g_header_size g' = g_header_size g"
      "length (g_conn g') = length (g_conn g)"
    by (simp_all add: g'_def)
  have blank: "g_conn g' ! k = no_connection" if "k < length (g_conn g)" "c_id (g_conn g' ! k) < 0" for k
    using inv conn(2) [OF that(1)] that m(2) by (cases "k = n") (simp_all add: c_def gate_inv_def)
  have "gate_inv g' ls"
  proof (rule gate_invI)
    show "g_bufs g' fl ls"
      using b same(1) [OF mp] by simp
    show "slot_of (g_hash g') i = Some k \<longleftrightarrow> 0 \<le> i \<and> c_id (g_conn g' ! k) = i" if "k < length (g_conn g')" for i k
      using slots [of k i] that f by simp
    show "g_conn g' ! k = no_connection" if "k < length (g_conn g')" "c_id (g_conn g' ! k) < 0" for k
      using blank [of k] that f by simp
  qed (use inv r(2,6) f in \<open>simp_all add: gate_inv_def\<close>)
  moreover have "gate_pending g' ls = (gate_pending g ls)(?ud \<mapsto> (0, []))"
    using same(2) [OF mp] free(2) by (intro ext) (simp add: gate_pending_def g'_def r(5))
  ultimately show ?thesis
    using False by auto
qed

lemma gate_close_correct:
  assumes inv: "gate_inv g ls" and fd_def: "fd = sint (sm_id m)"
  shows "\<exists>evs g' ls'. gate_close g m = Some (Inr (evs, g')) \<and> gate_inv g' ls' \<and> gate_pending g' ls' = (gate_pending g ls)(fd := None)"
proof -
  have h: "hashid_inv (g_hash g)" "hi_cap (g_hash g) = length (g_conn g)"
    using inv by (simp_all add: gate_inv_def)
  obtain hash where r: "hashid_remove (g_hash g) fd = Some (case slot_of (g_hash g) fd of None \<Rightarrow> -1 | Some n \<Rightarrow> int n, hash)"
      "hashid_inv hash" "slot_of hash = (slot_of (g_hash g))(fd := None)" "hi_cap hash = length (g_conn g)"
    using hashid_remove_correct [OF h(1), of fd] h(2) by auto
  show ?thesis
  proof (cases "slot_of (g_hash g) fd")
    case None
    let ?g' = "g\<lparr>g_hash := hash\<rparr>"
    have same: "slot_of hash = slot_of (g_hash g)"
      using r(3) None by (simp add: fun_upd_idem)
    have b: "g_bufs ?g' fl ls = g_bufs g fl ls" "g_pend ?g' ls = g_pend g ls" for fl
      by (rule g_bufs_cong; simp)+
    have "gate_inv ?g' ls" "gate_pending ?g' ls = (gate_pending g ls)(fd := None)"
      using inv r(2,4) None by (auto simp: gate_inv_def same gate_pending_def b fun_eq_iff)
    then show ?thesis
      using r(1) None unfolding fd_def by (intro exI [of _ "[]"] exI [of _ ?g'] exI [of _ ls]) (simp add: gate_close_def)
  next
    case (Some n)
    note n = gate_slot [OF inv Some]
    obtain fl where b: "g_bufs g fl ls"
      using inv by (auto simp: gate_inv_def)
    obtain mp' fl' where c: "databuffer_clear (c_buffer (g_conn g ! n)) (g_mp g) = Some (Inr (db_empty, mp'))" "buf_inv mp' db_empty fl' []"
        "pool_frame (g_mp g) (set (fl @ ls ! n)) mp' (set (fl' @ []))"
      using databuffer_clear_correct [OF g_buf(1) [OF b conjunct1 [OF n]]] unfolding append_Nil2 by blast
    have z: "db_size db_empty = int (length (db_stream mp' db_empty []))"
      by (simp add: db_stream_def db_empty_def)
    define g1 where "g1 = put_buffer g n db_empty mp'"
    have b1: "g_bufs g1 fl' (ls[n := []])" and m1: "g_moved g n ls g1 (ls[n := []]) (db_header db_empty) (db_stream mp' db_empty [])"
      using g_lift [OF b _ c(2,3) z] n by (simp_all add: g1_def)
    define g' where "g' = g\<lparr>g_hash := hash, g_conn := (g_conn g)[n := no_connection], g_mp := mp'\<rparr>"
    have buf: "g_mp g' = g_mp g1" "map c_buffer (g_conn g') = map c_buffer (g_conn g1)"
      using n by (simp_all add: g'_def g1_def put_buffer_def map_update no_connection_def)
    note same = g_bufs_cong [OF buf]
    have "length (dec_text fd @ '' close'') < 1024"
      using length_dec_text [OF sint_range, of "sm_id m"] by (simp add: fd_def)
    then obtain evs where "report g' (dec_text fd @ '' close'') = Inr evs"
      using report_ok by blast
    then have "gate_close g m = Some (Inr (evs, g'))"
      using r(1) Some c(1) unfolding fd_def by (simp add: gate_close_def Let_def g'_def)
    moreover have conn: "g_conn g' ! k = (if k = n then no_connection else g_conn g ! k)" if "k < length (g_conn g)" for k
      using that by (simp add: g'_def)
    have slots: "slot_of hash i = Some k \<longleftrightarrow> 0 \<le> i \<and> c_id (g_conn g' ! k) = i" if "k < length (g_conn g)" for i k
    proof (cases "k = n")
      case True
      then show ?thesis
        using gate_slot_iff [OF inv that, of i] n conn [OF that] by (auto simp: r(3) no_connection_def)
    next
      case False
      then show ?thesis
        using Some gate_slot_iff [OF inv that, of i] conn [OF that] by (cases "i = fd") (auto simp: r(3))
    qed
    have f: "g_hash g' = hash" "g_max_connection g' = g_max_connection g" "g_header_size g' = g_header_size g"
        "length (g_conn g') = length (g_conn g)"
      by (simp_all add: g'_def)
    have blank: "g_conn g' ! k = no_connection" if "k < length (g_conn g)" "c_id (g_conn g' ! k) < 0" for k
      using inv conn [OF that(1)] that by (cases "k = n") (simp_all add: gate_inv_def)
    have "gate_inv g' (ls[n := []])"
    proof (rule gate_invI)
      show "g_bufs g' fl' (ls[n := []])"
        using b1 same(1) by simp
      show "slot_of (g_hash g') i = Some k \<longleftrightarrow> 0 \<le> i \<and> c_id (g_conn g' ! k) = i" if "k < length (g_conn g')" for i k
        using slots [of k i] that f by simp
      show "g_conn g' ! k = no_connection" if "k < length (g_conn g')" "c_id (g_conn g' ! k) < 0" for k
        using blank [of k] that f by simp
    qed (use inv r(2,4) f in \<open>simp_all add: gate_inv_def\<close>)
    moreover have "gate_pending g' (ls[n := []]) = (gate_pending g ls)(fd := None)"
    proof
      fix i
      have "k \<noteq> n" if "slot_of (g_hash g) i = Some k" "i \<noteq> fd" for k
        using gate_slot [OF inv that(1)] that(2) n by auto
      moreover have "g_pend g' (ls[n := []]) k = g_pend g ls k" if "k \<noteq> n" for k
        using m1 that same(2) by (auto simp: g_moved_def)
      moreover have "g_hash g' = hash"
        by (simp add: g'_def)
      ultimately show "gate_pending g' (ls[n := []]) i = ((gate_pending g ls)(fd := None)) i"
        by (cases "slot_of (g_hash g) i"; cases "i = fd") (simp_all add: gate_pending_def r(3))
    qed
    ultimately show ?thesis
      by blast
  qed
qed

lemma forward_agent_correct:
  assumes inv: "gate_inv g ls"
  shows "\<exists>g'. forward_agent g fd a c = Some (Inr g') \<and> gate_inv g' ls \<and> gate_pending g' ls = gate_pending g ls"
proof (cases "slot_of (g_hash g) fd")
  case None
  then show ?thesis
    using inv by (simp add: forward_agent_def gate_lookup_inv [OF inv])
next
  case (Some n)
  note n = gate_slot [OF inv Some]
  define g' where "g' = g\<lparr>g_conn := (g_conn g)[n := (g_conn g ! n)\<lparr>c_agent := a, c_client := c\<rparr>]\<rparr>"
  have f: "g_hash g' = g_hash g" "g_max_connection g' = g_max_connection g" "g_header_size g' = g_header_size g" "g_mp g' = g_mp g"
    by (simp_all add: g'_def)
  have m: "map c_buffer (g_conn g') = map c_buffer (g_conn g)" "map c_id (g_conn g') = map c_id (g_conn g)"
    using n by (auto simp: g'_def map_update intro!: nth_equalityI simp: nth_list_update)
  have k: "g_conn g' ! k = g_conn g ! k" if "k < length (g_conn g)" "c_id (g_conn g ! k) < 0" for k
    using that n by (cases "k = n") (simp_all add: g'_def)
  have "forward_agent g fd a c = Some (Inr g')"
    using Some by (simp add: forward_agent_def gate_lookup_inv [OF inv] g'_def)
  then show ?thesis
    using gate_inv_cong [OF inv f m k] by blast
qed

lemma ctrl_correct:
  assumes inv: "gate_inv g ls" and nn: "NUL \<notin> set txt"
  shows "\<exists>evs g'. ctrl ev g txt = Some (Inr (evs, g')) \<and> gate_inv g' ls \<and> gate_pending g' ls = gate_pending g ls"
proof (cases "txt = []")
  case True
  then show ?thesis
    using inv by (simp add: ctrl_def Let_def)
next
  case False
  define i where "i = length (takeWhile (\<lambda>c. c \<noteq> CHR '' '') txt)"
  have il: "i \<le> length txt"
    unfolding i_def by (rule length_takeWhile_le)
  define arr where "arr = parm (txt @ [NUL]) (length txt) i"
  obtain q where q: "q + i \<le> length txt" "arr ! q = NUL" "arr ! length txt = NUL" "length arr = length txt + 1"
    using parm_ends [OF il] by (auto simp: arr_def)
  obtain b1 b2 b3 b4 b5 where b: "memcmp_literal (txt @ [NUL]) ''kick'' i = Inr b1" "memcmp_literal (txt @ [NUL]) ''forward'' i = Inr b2"
      "memcmp_literal (txt @ [NUL]) ''broker'' i = Inr b3" "memcmp_literal (txt @ [NUL]) ''start'' i = Inr b4"
      "memcmp_literal (txt @ [NUL]) ''close'' i = Inr b5"
    using memcmp_literal_ok [OF nn il] by metis
  have "b1" if "i = 0"
    using b(1) that by (simp add: memcmp_literal_def)
  note i0 = this
  obtain s0 where s0: "cstr arr 0 = Inr s0"
    using cstr_ok [of arr q 0] q by auto
  obtain s1 where s1: "cstr (txt @ [NUL]) 0 = Inr s1"
    using cstr_ok [of "txt @ [NUL]" "length txt" 0] by auto
  have fp: "\<exists>r. forward_parms arr = Inr r" if "\<not> b1"
    using forward_parms_ok [of arr q "length txt"] q that i0 by (cases "i = 0") auto
  have cong: "gate_inv (g\<lparr>g_broker := x\<rparr>) ls" "gate_pending (g\<lparr>g_broker := x\<rparr>) ls = gate_pending g ls"
      "gate_inv (g\<lparr>g_listen_id := y\<rparr>) ls" "gate_pending (g\<lparr>g_listen_id := y\<rparr>) ls = gate_pending g ls" for x y
    by (rule gate_inv_cong [OF inv]; simp)+
  consider "b1" | "\<not> b1" "b2" | "\<not> b1" "\<not> b2" "b3" | "\<not> b1" "\<not> b2" "\<not> b3" "b4" | "\<not> b1" "\<not> b2" "\<not> b3" "\<not> b4"
    by blast
  then show ?thesis
  proof cases
    case 1
    then show ?thesis
      using False inv b(1) s0 by (simp add: ctrl_def Let_def i_def [symmetric] arr_def [symmetric] strtol_int_def gate_lookup_inv [OF inv])
  next
    case 2
    then obtain r where r: "forward_parms arr = Inr r"
      using fp by blast
    have c: "ctrl ev g txt = (case r of None \<Rightarrow> Some (Inr ([], g)) | Some (fd, agent, client) \<Rightarrow>
        res_obind (forward_agent g fd agent client) (\<lambda>g. Some (Inr ([], g))))"
      using False 2 b(1,2) r by (simp add: ctrl_def Let_def i_def [symmetric] arr_def [symmetric])
    show ?thesis
    proof (cases r)
      case None
      then show ?thesis
        using c inv by simp
    next
      case (Some p)
      obtain fd agent client where p: "p = (fd, agent, client)"
        by (rule prod_cases3)
      obtain g' where "forward_agent g fd agent client = Some (Inr g')" "gate_inv g' ls" "gate_pending g' ls = gate_pending g ls"
        using forward_agent_correct [OF inv] by blast
      then show ?thesis
        using c Some p by simp
    qed
  next
    case 3
    then show ?thesis
      using False inv b(1-3) s0 cong by (simp add: ctrl_def Let_def i_def [symmetric] arr_def [symmetric])
  next
    case 4
    then show ?thesis
      using False inv b(1-4) s0 by (simp add: ctrl_def Let_def i_def [symmetric] arr_def [symmetric] strtol_int_def gate_lookup_inv [OF inv])
  next
    case 5
    then show ?thesis
      using False inv b s1 cong by (simp add: ctrl_def Let_def i_def [symmetric])
  qed
qed

text \<open>
  What may reach the callback: a text without a NUL; a chunk that fits its buffer and does not make more than
  2^31 bytes pending; an accepted socket of the listener that is not connected already.
\<close>

definition gate_admissible :: "gate \<Rightarrow> addr list list \<Rightarrow> gate_message \<Rightarrow> bool" where
  "gate_admissible g ls msg = (case msg of
     Text_Message txt \<Rightarrow> NUL \<notin> set txt
   | Socket_Message m \<Rightarrow>
       (case sm_type m of
          T_Data \<Rightarrow> (case sm_buffer m of None \<Rightarrow> False
            | Some b \<Rightarrow> 0 \<le> sint (sm_ud m) \<and> sint (sm_ud m) \<le> int (length b) \<and>
                (case gate_pending g ls (sint (sm_id m)) of None \<Rightarrow> True | Some (h, s) \<Rightarrow> int (length s) + sint (sm_ud m) < 2 ^ 31))
        | T_Accept \<Rightarrow> g_listen_id g = sint (sm_id m) \<and> 0 \<le> sint (sm_ud m) \<and> gate_pending g ls (sint (sm_ud m)) = None
        | _ \<Rightarrow> True)
   | _ \<Rightarrow> True)"

text \<open>What is pending afterwards.\<close>

definition pending_after :: "gate \<Rightarrow> addr list list \<Rightarrow> gate_message \<Rightarrow> int \<Rightarrow> (int \<times> bytes) option" where
  "pending_after g ls msg = (let P = gate_pending g ls in case msg of
     Socket_Message m \<Rightarrow> (let fd = sint (sm_id m) in
       case sm_type m of
         T_Data \<Rightarrow> (case (slot_of (g_hash g) fd, sm_buffer m) of
             (Some n, Some b) \<Rightarrow> P(fd \<mapsto> snd (dispatch_ref (g_header_size g) (has_dest g n) (fst (g_pend g ls n))
                 (snd (g_pend g ls n) @ take (nat (sint (sm_ud m))) b)))
           | _ \<Rightarrow> P)
       | T_Close \<Rightarrow> P(fd := None)
       | T_Error \<Rightarrow> P(fd := None)
       | T_Accept \<Rightarrow> if hashid_full (g_hash g) then P else P(sint (sm_ud m) \<mapsto> (0, []))
       | _ \<Rightarrow> P)
   | _ \<Rightarrow> P)"

lemma gate_cb_lemma:
  assumes inv: "gate_inv g ls" and adm: "gate_admissible g ls msg"
  shows "\<exists>r evs g' ls'. gate_cb ev g msg = Some (Inr (r, evs, g')) \<and> gate_inv g' ls' \<and> gate_pending g' ls' = pending_after g ls msg"
proof (cases msg)
  case (Text_Message t)
  then show ?thesis
    using ctrl_correct [OF inv, of t ev] adm by (auto simp: gate_cb_def gate_admissible_def pending_after_def Let_def)
next
  case (Client_Message source data)
  then show ?thesis
    using inv by (auto simp: gate_cb_def gate_lookup_inv [OF inv] pending_after_def Let_def split: option.split)
next
  case Other_Message
  then show ?thesis
    using inv by (auto simp: gate_cb_def pending_after_def)
next
  case (Socket_Message m)
  let ?fd = "sint (sm_id m)"
  show ?thesis
  proof (cases "sm_type m")
    case T_Data
    obtain b where b: "sm_buffer m = Some b" "0 \<le> sint (sm_ud m)" "sint (sm_ud m) \<le> int (length b)"
        "\<And>h s. gate_pending g ls ?fd = Some (h, s) \<Longrightarrow> int (length s) + sint (sm_ud m) < 2 ^ 31"
      using adm Socket_Message T_Data by (auto simp: gate_admissible_def split: option.splits)
    show ?thesis
    proof (cases "slot_of (g_hash g) ?fd")
      case None
      then show ?thesis
        using inv Socket_Message T_Data b(1)
        by (auto simp: gate_cb_def dispatch_socket_message_def gate_lookup_inv [OF inv] pending_after_def Let_def)
    next
      case (Some n)
      obtain h s where p: "g_pend g ls n = (h, s)"
        by (rule prod.exhaust)
      then have "gate_pending g ls ?fd = Some (h, s)"
        using Some by (simp add: gate_pending_def)
      note lim = b(4) [OF this]
      obtain items h' s' where ref: "dispatch_ref (g_header_size g) (has_dest g n) h (s @ take (nat (sint (sm_ud m))) b) = (items, h', s')"
        by (rule prod_cases3)
      obtain g' ls' where d: "gate_dispatch_message g n ?fd (Some b) (sint (sm_ud m)) = Some (Inr (concat (map (item_events g n ?fd) items), g'))"
          "g_moved g n ls g' ls' h' s'"
        using gate_data [OF inv Some p b(2,3) lim ref] by blast
      have "pending_after g ls msg = (gate_pending g ls)(?fd \<mapsto> (h', s'))"
        using Socket_Message T_Data b(1) Some p ref by (simp add: pending_after_def Let_def)
      moreover have "gate_cb ev g msg = Some (Inr (0, concat (map (item_events g n ?fd) items), g'))"
        using Socket_Message T_Data b(1) Some d(1)
        by (simp add: gate_cb_def dispatch_socket_message_def gate_lookup_inv [OF inv] Let_def)
      ultimately show ?thesis
        using gate_moved_inv(1,2) [OF inv Some d(2)] by auto
    qed
  next
    case T_Accept
    have "g_listen_id g = ?fd" "0 \<le> sint (sm_ud m)" "slot_of (g_hash g) (sint (sm_ud m)) = None"
      using adm Socket_Message T_Accept by (simp_all add: gate_admissible_def gate_pending_def)
    then obtain evs g' where "gate_accept g m = Some (Inr (evs, g'))" "gate_inv g' ls"
        "gate_pending g' ls = (if hashid_full (g_hash g) then gate_pending g ls else (gate_pending g ls)(sint (sm_ud m) \<mapsto> (0, [])))"
      using gate_accept_correct [OF inv] by blast
    then show ?thesis
      using Socket_Message T_Accept by (auto simp: gate_cb_def dispatch_socket_message_def pending_after_def Let_def)
  next
    case T_Connect
    then show ?thesis
      using inv Socket_Message
      by (auto simp: gate_cb_def dispatch_socket_message_def gate_lookup_inv [OF inv] pending_after_def Let_def split: option.split)
  next
    case T_Close
    then show ?thesis
      using gate_close_correct [OF inv refl, of m] Socket_Message
      by (auto simp: gate_cb_def dispatch_socket_message_def pending_after_def Let_def)
  next
    case T_Error
    then show ?thesis
      using gate_close_correct [OF inv refl, of m] Socket_Message
      by (auto simp: gate_cb_def dispatch_socket_message_def pending_after_def Let_def)
  qed (use inv Socket_Message in \<open>auto simp: gate_cb_def dispatch_socket_message_def pending_after_def Let_def\<close>)
qed

section \<open>Packages do not depend on the chunks\<close>

text \<open>The packages of a whole stream and the incomplete rest; \<open>None\<close> when a header is not a length below 16M.\<close>

function gate_frames :: "nat \<Rightarrow> bytes \<Rightarrow> (bytes list \<times> bytes) option" where
  "gate_frames hs s =
    (if hs = 0 \<or> length s < hs then Some ([], s)
     else let h = header_value hs (take hs s); r = drop hs s in
       if h < 0 \<or> h \<ge> 0x1000000 then None
       else if int (length r) < h then Some ([], s)
       else if h = 0 then gate_frames hs r
       else map_option (\<lambda>(ps, rest). (take (nat h) r # ps, rest)) (gate_frames hs (drop (nat h) r)))"
  by pat_completeness auto
termination
  by (relation "measure (\<lambda>(hs, s). length s)") (auto simp: Let_def)

declare gate_frames.simps [simp del]

text \<open>A connection with \<open>(h, s)\<close> pending is at the incomplete rest \<open>rest\<close> of its stream.\<close>

definition pend_rest :: "nat \<Rightarrow> int \<times> bytes \<Rightarrow> bytes \<Rightarrow> bool" where
  "pend_rest hs p rest \<longleftrightarrow> (case p of (h, s) \<Rightarrow>
     if h = 0 then rest = s \<and> length s < hs
     else 0 < h \<and> h < 0x1000000 \<and> int (length s) < h \<and> (\<exists>hd. length hd = hs \<and> header_value hs hd = h \<and> rest = hd @ s))"

lemma gate_frames_step:
  assumes "0 < hs" "\<not> length s < hs"
  defines "h \<equiv> header_value hs (take hs s)" and "r \<equiv> drop hs s"
  shows "gate_frames hs s = (if h < 0 \<or> h \<ge> 0x1000000 then None else if int (length r) < h then Some ([], s)
     else if h = 0 then gate_frames hs r
     else map_option (\<lambda>(ps, rest). (take (nat h) r # ps, rest)) (gate_frames hs (drop (nat h) r)))"
  using assms(1,2) unfolding h_def r_def by (subst gate_frames.simps) (simp only: Let_def, simp)

lemma gate_frames_short: "0 < hs \<Longrightarrow> gate_frames hs a = Some (ps, rest) \<Longrightarrow> gate_frames hs rest = Some ([], rest)"
proof (induction hs a arbitrary: ps rest rule: gate_frames.induct)
  case (1 hs s)
  note orig = 1(4)
  note unfolded = orig [unfolded gate_frames.simps [of hs s]]
  show ?case
  proof (cases "length s < hs")
    case True
    then show ?thesis
      using unfolded by (auto simp: gate_frames.simps [of hs rest])
  next
    case False
    define h where "h = header_value hs (take hs s)"
    define r where "r = drop hs s"
    have u: "(if h < 0 \<or> h \<ge> 0x1000000 then None else if int (length r) < h then Some ([], s)
        else if h = 0 then gate_frames hs r
        else map_option (\<lambda>(ps, rest). (take (nat h) r # ps, rest)) (gate_frames hs (drop (nat h) r))) = Some (ps, rest)"
      using gate_frames_step [OF 1(3) False] 1(4) by (simp only: h_def r_def)
    consider "int (length r) < h" | "h = 0" | "0 < h" "h \<le> int (length r)" | "h < 0"
      by linarith
    then show ?thesis
    proof cases
      case 1
      then show ?thesis
        using u orig by (auto split: if_splits)
    next
      case 2
      then have "gate_frames hs r = Some (ps, rest)"
        using u by simp
      then show ?thesis
        using "1.IH"(1) [OF _ h_def r_def] False 2 "1.prems"(1) by simp
    next
      case 3
      then obtain ps' where "gate_frames hs (drop (nat h) r) = Some (ps', rest)"
        using u by (auto split: if_splits)
      then show ?thesis
        using "1.IH"(2) [OF _ h_def r_def] False 3 "1.prems"(1) u by (auto split: if_splits)
    next
      case 4
      then show ?thesis
        using u by simp
    qed
  qed
qed

lemma gate_frames_append:
  "0 < hs \<Longrightarrow> gate_frames hs a = Some (ps, rest) \<Longrightarrow>
     gate_frames hs (a @ b) = map_option (\<lambda>(qs, r). (ps @ qs, r)) (gate_frames hs (rest @ b))"
proof (induction hs a arbitrary: ps rest rule: gate_frames.induct)
  case (1 hs s)
  show ?case
  proof (cases "length s < hs")
    case True
    then show ?thesis
      using 1(3,4) by (auto simp: gate_frames.simps [of hs s] option.map_ident prod.case_eq_if)
  next
    case False
    define h where "h = header_value hs (take hs s)"
    define r where "r = drop hs s"
    have u: "(if h < 0 \<or> h \<ge> 0x1000000 then None else if int (length r) < h then Some ([], s)
        else if h = 0 then gate_frames hs r
        else map_option (\<lambda>(ps, rest). (take (nat h) r # ps, rest)) (gate_frames hs (drop (nat h) r))) = Some (ps, rest)"
      using gate_frames_step [OF 1(3) False] 1(4) by (simp only: h_def r_def)
    have same: "header_value hs (take hs (s @ b)) = h" "drop hs (s @ b) = r @ b" "\<not> length (s @ b) < hs"
      using False by (simp_all add: h_def r_def)
    have v: "gate_frames hs (s @ b) = (if h < 0 \<or> h \<ge> 0x1000000 then None else if int (length (r @ b)) < h then Some ([], s @ b)
        else if h = 0 then gate_frames hs (r @ b)
        else map_option (\<lambda>(ps, rest). (take (nat h) (r @ b) # ps, rest)) (gate_frames hs (drop (nat h) (r @ b))))"
      using gate_frames_step [OF 1(3) same(3)] by (simp only: same)
    consider "int (length r) < h" | "h = 0" | "0 < h" "h \<le> int (length r)" | "h < 0"
      by linarith
    then show ?thesis
    proof cases
      case 1
      then have "ps = []" "rest = s"
        using u by (auto split: if_splits)
      then show ?thesis
        by (simp add: option.map_ident prod.case_eq_if)
    next
      case 2
      then show ?thesis
        using "1.IH"(1) [OF _ h_def r_def] False "1.prems"(1) u v by simp
    next
      case 3
      then obtain ps' where ps': "gate_frames hs (drop (nat h) r) = Some (ps', rest)" "ps = take (nat h) r # ps'" "h < 0x1000000"
        using u by (auto split: if_splits)
      have "gate_frames hs (drop (nat h) r @ b) = map_option (\<lambda>(qs, r). (ps' @ qs, r)) (gate_frames hs (rest @ b))"
        using "1.IH"(2) [OF _ h_def r_def] False "1.prems"(1) 3 ps' by auto
      moreover have "drop (nat h) (r @ b) = drop (nat h) r @ b" "take (nat h) (r @ b) = take (nat h) r"
        using 3 by simp_all
      ultimately show ?thesis
        using v 3 ps'(2,3) by (simp add: option.map_comp comp_def prod.case_eq_if)
    next
      case 4
      then show ?thesis
        using u by simp
    qed
  qed
qed

lemma gate_frames_prefix: "0 < hs \<Longrightarrow> gate_frames hs (a @ b) \<noteq> None \<Longrightarrow> gate_frames hs a \<noteq> None"
proof (induction hs a rule: gate_frames.induct)
  case (1 hs s)
  note prems = 1(3,4)
  show ?case
  proof (cases "length s < hs")
    case True
    then show ?thesis
      by (simp add: gate_frames.simps [of hs s])
  next
    case False
    define h where "h = header_value hs (take hs s)"
    define r where "r = drop hs s"
    have same: "header_value hs (take hs (s @ b)) = h" "drop hs (s @ b) = r @ b" "\<not> length (s @ b) < hs"
      using False by (simp_all add: h_def r_def)
    note v = gate_frames_step [OF prems(1) same(3), unfolded same(1,2)]
    note u = gate_frames_step [OF prems(1) False, folded h_def r_def]
    consider "int (length r) < h" | "h = 0" | "0 < h" "h \<le> int (length r)" | "h < 0"
      by linarith
    then show ?thesis
    proof cases
      case 1
      then show ?thesis
        using u v prems(2) by (auto split: if_splits)
    next
      case 2
      then show ?thesis
        using "1.IH"(1) [OF _ h_def r_def] False prems u v by simp
    next
      case 3
      then have "drop (nat h) (r @ b) = drop (nat h) r @ b" "h < 0x1000000"
        using v prems(2) by (auto split: if_splits)
      then have "gate_frames hs (drop (nat h) r) \<noteq> None"
        using "1.IH"(2) [OF _ h_def r_def] False 3 prems v by (auto split: if_splits)
      then show ?thesis
        using u 3 \<open>h < 0x1000000\<close> by simp
    next
      case 4
      then show ?thesis
        using v prems(2) by simp
    qed
  qed
qed

lemma header_value_2: "0 \<le> header_value 2 (take 2 s) \<and> header_value 2 (take 2 s) < 0x10000"
proof -
  define w where "w = (be_word (take 2 s) :: u32)"
  have "uint w < 2 ^ 16"
  proof -
    have "\<not> bit w i" if "16 \<le> i" for i
      using that by (simp add: w_def be_word_def bit_le_word) (auto simp: min_def split: if_splits)
    then have "w = take_bit 16 w"
      by (intro bit_word_eqI) (auto simp: bit_take_bit_iff not_less intro: leI)
    then show ?thesis
      by (metis unsigned_take_bit_eq take_bit_int_less_exp)
  qed
  then show ?thesis
    by (simp add: header_value_def w_def [symmetric])
qed

lemma gate_frames_2: "gate_frames 2 s \<noteq> None"
proof (induction "2 :: nat" s rule: gate_frames.induct)
  case (1 s)
  show ?case
  proof (cases "length s < 2")
    case False
    define h where "h = header_value 2 (take 2 s)"
    define r where "r = drop 2 s"
    have h: "0 \<le> h" "h < 0x1000000"
      using header_value_2 [of s] by (simp_all add: h_def)
    have "gate_frames 2 r \<noteq> None" if "h = 0" "\<not> int (length r) < h"
      using 1(1) [OF _ h_def r_def] False h that by simp
    moreover have "gate_frames 2 (drop (nat h) r) \<noteq> None" if "h \<noteq> 0" "\<not> int (length r) < h"
      using 1(2) [OF _ h_def r_def] False h that by simp
    ultimately show ?thesis
      using gate_frames_step [of 2 s, folded h_def r_def] False h by auto
  qed (simp add: gate_frames.simps [of 2 s])
qed

lemma dispatch_ref_step:
  assumes "0 < hs" "\<not> (h = 0 \<and> length s < hs)"
  defines "h' \<equiv> if h = 0 then header_value hs (take hs s) else h" and "s' \<equiv> if h = 0 then drop hs s else s"
  shows "dispatch_ref hs dest h s = (if h' < 0 \<or> int (length s') < h' then ([], h', s')
       else if h' = 0 then dispatch_ref hs dest 0 s'
       else if h' \<ge> 0x1000000 then ([Too_Big], 0, [])
       else if dest then (case dispatch_ref hs dest 0 (drop (nat h') s') of (items, r) \<Rightarrow> (Package (take (nat h') s') # items, r))
       else dispatch_ref hs dest 0 s')"
  using assms(1,2) unfolding h'_def s'_def by (subst dispatch_ref.simps) (simp only: Let_def, auto)

lemma dispatch_ref_header:
  assumes "0 < hs" "length hb = hs" "header_value hs hb = h" "h \<noteq> 0"
  shows "dispatch_ref hs dest 0 (hb @ s) = dispatch_ref hs dest h s"
proof -
  have "\<not> (0 = (0::int) \<and> length (hb @ s) < hs)" "\<not> (h = 0 \<and> length s < hs)"
    using assms by simp_all
  then show ?thesis
    using dispatch_ref_step [OF assms(1), of 0 "hb @ s" dest] dispatch_ref_step [OF assms(1), of h s dest] assms by simp
qed

lemma dispatch_frames:
  "0 < hs \<Longrightarrow> gate_frames hs s = Some (ps, rest) \<Longrightarrow>
     \<exists>p. dispatch_ref hs True 0 s = (map Package ps, p) \<and> pend_rest hs p rest"
proof (induction hs s arbitrary: ps rest rule: gate_frames.induct)
  case (1 hs s)
  note prems = 1(3,4)
  show ?case
  proof (cases "length s < hs")
    case True
    then show ?thesis
      using prems by (intro exI [of _ "(0, s)"]) (auto simp: gate_frames.simps [of hs s] dispatch_ref.simps [of hs True 0 rest] pend_rest_def)
  next
    case False
    define h where "h = header_value hs (take hs s)"
    define r where "r = drop hs s"
    note u = gate_frames_step [OF prems(1) False, folded h_def r_def, unfolded prems(2)]
    have d: "dispatch_ref hs True 0 s = (if h < 0 \<or> int (length r) < h then ([], h, r)
       else if h = 0 then dispatch_ref hs True 0 r
       else if h \<ge> 0x1000000 then ([Too_Big], 0, [])
       else (case dispatch_ref hs True 0 (drop (nat h) r) of (items, p) \<Rightarrow> (Package (take (nat h) r) # items, p)))"
      using dispatch_ref_step [OF prems(1), of 0 s True] False by (simp only: h_def r_def simp_thms if_True)
    consider "int (length r) < h" | "h = 0" | "0 < h" "h \<le> int (length r)" | "h < 0"
      by linarith
    then show ?thesis
    proof cases
      case 1
      then have "ps = []" "rest = s" "h < 0x1000000"
        using u by (auto split: if_splits)
      moreover have "pend_rest hs (h, r) s"
        using 1 False \<open>h < 0x1000000\<close> by (auto simp: pend_rest_def h_def r_def intro!: exI [of _ "take hs s"])
      ultimately show ?thesis
        using d 1 by simp
    next
      case 2
      then show ?thesis
        using "1.IH"(1) [OF _ h_def r_def] False prems(1) u d by simp
    next
      case 3
      then obtain ps' where p: "gate_frames hs (drop (nat h) r) = Some (ps', rest)" "ps = take (nat h) r # ps'" "h < 0x1000000"
        using u by (cases "gate_frames hs (drop (nat h) r)") (auto split: if_splits)
      then obtain p where "dispatch_ref hs True 0 (drop (nat h) r) = (map Package ps', p)" "pend_rest hs p rest"
        using "1.IH"(2) [OF _ h_def r_def] False 3 prems(1) by force
      then show ?thesis
        using d 3 p by simp
    next
      case 4
      then show ?thesis
        using u by simp
    qed
  qed
qed

lemma dispatch_frames_pend:
  assumes "0 < hs" "pend_rest hs (h, s) rest" "gate_frames hs (rest @ d) = Some (ps, rest')"
  shows "\<exists>p. dispatch_ref hs True h (s @ d) = (map Package ps, p) \<and> pend_rest hs p rest'"
proof (cases "h = 0")
  case True
  then show ?thesis
    using dispatch_frames [OF assms(1,3)] assms(2) by (simp add: pend_rest_def)
next
  case False
  then obtain hb where hb: "length hb = hs" "header_value hs hb = h" "rest = hb @ s"
    using assms(2) by (auto simp: pend_rest_def)
  then show ?thesis
    using dispatch_frames [OF assms(1,3)] dispatch_ref_header [OF assms(1) hb(1,2) False, of True "s @ d"] by simp
qed

section \<open>What the gate promises\<close>

definition data_message :: "u32 \<Rightarrow> bytes \<Rightarrow> gate_message" where
  "data_message w d = Socket_Message \<lparr>sm_type = T_Data, sm_id = w, sm_ud = word_of_nat (length d), sm_buffer = Some d, sm_padding = []\<rparr>"

fun gate_run :: "gate_env \<Rightarrow> gate \<Rightarrow> gate_message list \<Rightarrow> (gate_event list \<times> gate) res option" where
  "gate_run ev g [] = Some (Inr ([], g))"
| "gate_run ev g (m # ms) = res_obind (gate_cb ev g m) (\<lambda>(_, evs, g).
     res_obind (gate_run ev g ms) (\<lambda>(evs', g). Some (Inr (evs @ evs', g))))"

lemma sint_of_length: "length d < 2 ^ 31 \<Longrightarrow> sint (word_of_nat (length d) :: u32) = int (length d)"
  by (simp add: signed_of_nat signed_take_bit_int_eq_self)

lemma gate_cb_data:
  assumes inv: "gate_inv g ls" and slot: "slot_of (g_hash g) (sint w) = Some n" and p: "g_pend g ls n = (h, s)"
    and len: "length s + length d < 2 ^ 31"
    and ref: "dispatch_ref (g_header_size g) (has_dest g n) h (s @ d) = (items, h', s')"
  shows "\<exists>g' ls'. gate_cb ev g (data_message w d) = Some (Inr (0, concat (map (item_events g n (sint w)) items), g')) \<and>
    g_moved g n ls g' ls' h' s'"
proof -
  have k: "sint (word_of_nat (length d) :: u32) = int (length d)"
    using len by (intro sint_of_length) simp
  obtain g' ls' where "gate_dispatch_message g n (sint w) (Some d) (int (length d)) = Some (Inr (concat (map (item_events g n (sint w)) items), g'))"
      "g_moved g n ls g' ls' h' s'"
    using gate_data [OF inv slot p, of "int (length d)" d items h' s'] len ref by auto
  then show ?thesis
    using slot k by (auto simp: gate_cb_def data_message_def dispatch_socket_message_def gate_lookup_inv [OF inv] Let_def)
qed

lemma pend_frames: "0 < hs \<Longrightarrow> pend_rest hs p rest \<Longrightarrow> gate_frames hs rest = Some ([], rest)"
proof (cases p)
  case (Pair h s)
  assume a: "0 < hs" "pend_rest hs p rest"
  show ?thesis
  proof (cases "h = 0")
    case True
    then show ?thesis
      using a Pair by (auto simp: pend_rest_def gate_frames.simps [of hs s])
  next
    case False
    then obtain hb where hb: "length hb = hs" "header_value hs hb = h" "rest = hb @ s" "0 < h" "h < 0x1000000" "int (length s) < h"
      using a(2) Pair by (auto simp: pend_rest_def)
    then show ?thesis
      using gate_frames_step [OF a(1), of rest] by simp
  qed
qed

lemma gate_frames_rest_length: "gate_frames hs s = Some (ps, rest) \<Longrightarrow> length rest \<le> length s"
proof (induction hs s arbitrary: ps rest rule: gate_frames.induct)
  case (1 hs s)
  show ?case
  proof (cases "hs = 0 \<or> length s < hs")
    case True
    then show ?thesis
      using 1(3) by (auto simp: gate_frames.simps [of hs s])
  next
    case False
    define h where "h = header_value hs (take hs s)"
    define r where "r = drop hs s"
    have hs: "0 < hs" "\<not> length s < hs" and lr: "length r \<le> length s"
      using False by (simp_all add: r_def)
    note u = gate_frames_step [OF hs, folded h_def r_def, unfolded 1(3)]
    consider "int (length r) < h" | "h = 0" | "0 < h" "h \<le> int (length r)" | "h < 0"
      by linarith
    then show ?thesis
    proof cases
      case 1
      then show ?thesis
        using u by (auto split: if_splits)
    next
      case 2
      then have "gate_frames hs r = Some (ps, rest)"
        using u by simp
      then have "length rest \<le> length r"
        using "1.IH"(1) [OF _ h_def r_def, of ps rest] False 2 by simp
      then show ?thesis
        using lr by simp
    next
      case 3
      then obtain ps' where p: "gate_frames hs (drop (nat h) r) = Some (ps', rest)" "h < 0x1000000"
        using u by (cases "gate_frames hs (drop (nat h) r)") (auto split: if_splits)
      then have "length rest \<le> length (drop (nat h) r)"
        using "1.IH"(2) [OF _ h_def r_def, of ps' rest] False 3 by simp
      then show ?thesis
        using lr by simp
    next
      case 4
      then show ?thesis
        using u by simp
    qed
  qed
qed

lemma pend_rest_length: "pend_rest hs (h, s) rest \<Longrightarrow> length s \<le> length rest"
  by (auto simp: pend_rest_def split: if_splits)

lemma gate_run_data:
  assumes "gate_inv g ls" "slot_of (g_hash g) (sint w) = Some n" "has_dest g n"
    "pend_rest (g_header_size g) (g_pend g ls n) rest" "gate_frames (g_header_size g) (rest @ concat ds) = Some (ps, rest')"
    "length (rest @ concat ds) < 2 ^ 31"
  shows "\<exists>g' ls'. gate_run ev g (map (data_message w) ds) = Some (Inr (map (package_event g n) ps, g')) \<and>
    gate_inv g' ls' \<and> pend_rest (g_header_size g) (g_pend g' ls' n) rest'"
  using assms
proof (induction ds arbitrary: g ls rest ps)
  case Nil
  have "0 < g_header_size g"
    using Nil(1) by (simp add: gate_inv_def)
  then have "ps = []" "rest' = rest"
    using pend_frames [OF _ Nil(4)] Nil(5) by simp_all
  then show ?case
    using Nil by auto
next
  case (Cons d ds)
  note prems = Cons.prems
  let ?hs = "g_header_size g"
  have n: "n < length (g_conn g)"
    using gate_slot [OF prems(1,2)] by simp
  have hs: "0 < ?hs"
    using prems(1) by (simp add: gate_inv_def)
  have all: "gate_frames ?hs ((rest @ d) @ concat ds) = Some (ps, rest')"
    using prems(5) by simp
  then obtain ps1 rest1 where f1: "gate_frames ?hs (rest @ d) = Some (ps1, rest1)"
    using gate_frames_prefix [OF hs, of "rest @ d" "concat ds"] by auto
  obtain ps2 where f2: "gate_frames ?hs (rest1 @ concat ds) = Some (ps2, rest')" "ps = ps1 @ ps2"
    using gate_frames_append [OF hs f1, of "concat ds"] all by auto
  obtain h s where p: "g_pend g ls n = (h, s)"
    by (rule prod.exhaust)
  obtain h' s' where ref: "dispatch_ref ?hs (has_dest g n) h (s @ d) = (map Package ps1, h', s')" and pr: "pend_rest ?hs (h', s') rest1"
    using dispatch_frames_pend [OF hs _ f1, of h s] prems(3,4) p by auto
  have len: "length s + length d < 2 ^ 31"
    using pend_rest_length [of ?hs h s rest] prems(4,6) p by simp
  obtain g1 ls1 where c: "gate_cb ev g (data_message w d) = Some (Inr (0, concat (map (item_events g n (sint w)) (map Package ps1)), g1))"
      "g_moved g n ls g1 ls1 h' s'"
    using gate_cb_data [OF prems(1,2) p len ref] by blast
  note e = g_moved_gate [OF c(2) n]
  note i = gate_moved_inv [OF prems(1,2) c(2)]
  have rl: "length rest1 \<le> length (rest @ d)"
    using gate_frames_rest_length [OF f1] .
  have s1: "slot_of (g_hash g1) (sint w) = Some n" "has_dest g1 n" "pend_rest (g_header_size g1) (g_pend g1 ls1 n) rest1"
      "gate_frames (g_header_size g1) (rest1 @ concat ds) = Some (ps2, rest')" "length (rest1 @ concat ds) < 2 ^ 31"
    using i(3) prems(2,3,6) e pr f2(1) rl by simp_all
  obtain g' ls' where r: "gate_run ev g1 (map (data_message w) ds) = Some (Inr (map (package_event g1 n) ps2, g'))" "gate_inv g' ls'"
      "pend_rest (g_header_size g1) (g_pend g' ls' n) rest'"
    using Cons.IH [OF i(1) s1] by blast
  have "concat (map (item_events g n (sint w)) (map Package ps1)) = map (package_event g n) ps1"
    by (induction ps1) (simp_all add: item_events_def)
  then show ?case
    using c(1) r e(1,4) f2(2) by auto
qed

lemma gate_stuck_run:
  assumes "gate_inv g ls" "slot_of (g_hash g) (sint w) = Some n" "g_pend g ls n = (h, s)" "h < 0"
    "length (s @ concat ds) < 2 ^ 31"
  shows "\<exists>g' ls'. gate_run ev g (map (data_message w) ds) = Some (Inr ([], g')) \<and> gate_inv g' ls' \<and>
    g_pend g' ls' n = (h, s @ concat ds)"
  using assms
proof (induction ds arbitrary: g ls s)
  case Nil
  then show ?case
    by auto
next
  case (Cons d ds)
  note prems = Cons.prems
  have n: "n < length (g_conn g)"
    using gate_slot [OF prems(1,2)] by simp
  have ref: "dispatch_ref (g_header_size g) (has_dest g n) h (s @ d) = ([], h, s @ d)"
    using prems(4) by (simp add: dispatch_ref.simps [of _ _ h])
  have len: "length s + length d < 2 ^ 31"
    using prems(5) by simp
  obtain g1 ls1 where c: "gate_cb ev g (data_message w d) = Some (Inr (0, concat (map (item_events g n (sint w)) []), g1))"
      "g_moved g n ls g1 ls1 h (s @ d)"
    using gate_cb_data [OF prems(1-3) len ref] by blast
  note i = gate_moved_inv [OF prems(1,2) c(2)]
  have s1: "slot_of (g_hash g1) (sint w) = Some n" "g_pend g1 ls1 n = (h, s @ d)" "length ((s @ d) @ concat ds) < 2 ^ 31"
    using i(3) prems(2,5) g_moved_gate(6) [OF c(2) n] by simp_all
  show ?case
    using Cons.IH [OF i(1) s1(1,2) prems(4) s1(3)] c(1) by auto
qed

lemma header_value_4_negative:
  assumes "128 \<le> b0"
  shows "header_value 4 [b0, b1, b2, b3] < 0"
proof -
  have "bit b0 7"
  proof (rule ccontr)
    assume n: "\<not> bit b0 7"
    have "b0 = take_bit 7 b0"
      using n bit_imp_le_length [of b0] by (intro bit_word_eqI) (auto simp: bit_take_bit_iff less_Suc_eq numeral_eq_Suc)
    then have "uint b0 < 2 ^ 7"
      by (metis unsigned_take_bit_eq take_bit_int_less_exp)
    then show False
      using assms by (simp add: word_le_def)
  qed
  then have "bit (be_word [b0, b1, b2, b3] :: u32) 31"
    by (simp add: be_word_def bit_le_word nth_append del: le_word.simps)
  then show ?thesis
    by (simp add: header_value_def bit_last_iff [symmetric])
qed

text \<open>A gate as \<open>gate_init\<close> leaves it, and one with a connected client.\<close>

definition fresh_gate :: "nat \<Rightarrow> nat \<Rightarrow> gate" where
  "fresh_gate n hs = gate_create\<lparr>g_max_connection := n, g_header_size := hs, g_hash := hashid_init n, g_conn := replicate n no_connection\<rparr>"

lemma fresh_gate_inv: "0 < hs \<Longrightarrow> gate_inv (fresh_gate n hs) (replicate n [])"
proof (rule gate_invI)
  assume hs: "0 < hs"
  let ?g = "fresh_gate n hs"
  have f: "g_hash ?g = hashid_init n" "g_conn ?g = replicate n no_connection" "g_mp ?g = pool_create" "g_max_connection ?g = n"
      "g_header_size ?g = hs"
    by (simp_all add: fresh_gate_def gate_create_def)
  show "hashid_inv (g_hash ?g)" "hi_cap (g_hash ?g) = length (g_conn ?g)" "g_max_connection ?g = length (g_conn ?g)" "0 < g_header_size ?g"
    using hs by (simp_all add: f hashid_init_inv)
  show "g_bufs ?g [] (replicate n [])"
    using pool_create_inv(1) [of n] by (simp add: g_bufs_def f no_connection_def)
  show "slot_of (g_hash ?g) i = Some k \<longleftrightarrow> 0 \<le> i \<and> c_id (g_conn ?g ! k) = i" if "k < length (g_conn ?g)" for k i
    using that by (auto simp: f hashid_init_inv no_connection_def)
  show "g_conn ?g ! k = no_connection" if "k < length (g_conn ?g)" for k
    using that by (simp add: f)
qed

definition demo_hash :: hashid where
  "demo_hash = \<lparr>hi_hashmod = 15, hi_cap = 1, hi_count = 1, hi_id = [\<lparr>hn_id = 7, hn_next = None\<rparr>], hi_hash = (replicate 16 None)[7 := Some 0]\<rparr>"

definition demo_gate :: "nat \<Rightarrow> gate" where
  "demo_gate hs = gate_create\<lparr>g_max_connection := 1, g_header_size := hs, g_hash := demo_hash,
     g_conn := [no_connection\<lparr>c_id := 7, c_agent := 5, c_client := 6\<rparr>]\<rparr>"

lemma demo_hash_inv: "hashid_inv demo_hash" "slot_of demo_hash = [7 \<mapsto> 0]"
proof -
  have init: "hashid_init 1 = \<lparr>hi_hashmod = 15, hi_cap = 1, hi_count = 0, hi_id = [free_node], hi_hash = replicate 16 None\<rparr>"
    using hash_capacity.simps [of 16 1] by (simp add: hashid_init_def)
  have full: "\<not> hashid_full (hashid_init 1)"
    unfolding init hashid_full_def by simp
  have "hashid_insert (hashid_init 1) 7 = Inr (0, demo_hash)"
    unfolding init by (simp add: hashid_insert_def demo_hash_def hash_slot_def free_node_def)
  then show "hashid_inv demo_hash" "slot_of demo_hash = [7 \<mapsto> 0]"
    using hashid_insert_correct [OF hashid_init_inv(1), of 7 1] full hashid_init_inv(2) by (auto simp: fun_eq_iff)
qed

lemma demo_gate_inv:
  assumes "0 < hs"
  shows "gate_inv (demo_gate hs) [[]]" "slot_of (g_hash (demo_gate hs)) 7 = Some 0" "g_pend (demo_gate hs) [[]] 0 = (0, [])"
    "has_dest (demo_gate hs) 0" "g_header_size (demo_gate hs) = hs"
    "package_event (demo_gate hs) 0 p = Send 6 5 PTYPE_TAG_DONTCOPY p"
proof -
  let ?g = "demo_gate hs"
  have f: "g_hash ?g = demo_hash" "g_conn ?g = [no_connection\<lparr>c_id := 7, c_agent := 5, c_client := 6\<rparr>]" "g_mp ?g = pool_create"
      "g_max_connection ?g = 1" "g_header_size ?g = hs"
    by (simp_all add: demo_gate_def gate_create_def)
  show "gate_inv ?g [[]]"
  proof (rule gate_invI)
    show "hashid_inv (g_hash ?g)" "hi_cap (g_hash ?g) = length (g_conn ?g)" "g_max_connection ?g = length (g_conn ?g)" "0 < g_header_size ?g"
      using assms by (simp_all add: f demo_hash_inv) (simp add: demo_hash_def)
    show "g_bufs ?g [] [[]]"
      using pool_create_inv(1) [of 1] by (simp add: g_bufs_def f no_connection_def)
    show "slot_of (g_hash ?g) i = Some k \<longleftrightarrow> 0 \<le> i \<and> c_id (g_conn ?g ! k) = i" if "k < length (g_conn ?g)" for k i
      using that by (auto simp: f demo_hash_inv)
    show "g_conn ?g ! k = no_connection" if "k < length (g_conn ?g)" "c_id (g_conn ?g ! k) < 0" for k
      using that by (simp add: f)
  qed
  show "slot_of (g_hash ?g) 7 = Some 0" "g_header_size ?g = hs"
    by (simp_all add: f demo_hash_inv)
  show "g_pend ?g [[]] 0 = (0, [])"
    by (simp add: g_pend_def f no_connection_def db_stream_def db_empty_def)
  show "has_dest ?g 0"
    by (simp add: has_dest_def f)
  show "package_event ?g 0 p = Send 6 5 PTYPE_TAG_DONTCOPY p"
    by (simp add: package_event_def f) (simp add: demo_gate_def gate_create_def)
qed



text \<open>C10: the packages a gate sends on for a connection with a destination depend only on the bytes received,
  not on the chunks they came in: whatever the chunks \<open>ds\<close>, the events are one message per package of the whole stream, in
  order, to the broker, else the agent, else the watchdog; what is left is the incomplete last package. (With a two-byte
  header every stream has such a reading; with four bytes the announced lengths have to be below 16M.)\<close>

theorem gate_packages:
  assumes "gate_inv g ls" "slot_of (g_hash g) (sint w) = Some n" "has_dest g n" "g_pend g ls n = (0, [])"
    and "gate_frames (g_header_size g) (concat ds) = Some (ps, rest)" "length (concat ds) < 2 ^ 31"
  shows "(\<exists>g' ls'. gate_run ev g (map (data_message w) ds) = Some (Inr (map (package_event g n) ps, g')) \<and>
      gate_inv g' ls' \<and> pend_rest (g_header_size g) (g_pend g' ls' n) rest) \<and> gate_frames 2 s \<noteq> None"
proof -
  have "pend_rest (g_header_size g) (g_pend g ls n) []"
    using assms(1,4) by (simp add: pend_rest_def gate_inv_def)
  then show ?thesis
    using gate_run_data [OF assms(1-3), of "[]" ds ps rest ev] assms(5,6) gate_frames_2 by simp
qed

theorem gate_packages_witness:
  "\<forall>ev. \<exists>g'. gate_run ev (demo_gate 2) (map (data_message 7) [[0], [1, 65, 0, 2, 66], [67, 0]])
     = Some (Inr ([Send 6 5 PTYPE_TAG_DONTCOPY [65], Send 6 5 PTYPE_TAG_DONTCOPY [66, 67]], g'))"
proof
  fix ev
  note i = demo_gate_inv [of 2]
  have h: "header_value 2 [0, 1] = 1" "header_value 2 [0, 2] = 2"
    by (simp_all add: header_value_def be_word_def)
  have f: "gate_frames (g_header_size (demo_gate 2)) (concat [[0], [1, 65, 0, 2, 66], [67, 0]]) = Some ([[65], [66, 67]], [0])"
    using h by (simp add: i(5) gate_frames.simps [of 2 "[]"] gate_frames.simps [of 2 "[0]"]
      gate_frames.simps [of 2 "[0, 2, 66, 67, 0]"] gate_frames.simps [of 2 "[0, 1, 65, 0, 2, 66, 67, 0]"])
  have "slot_of (g_hash (demo_gate 2)) (sint (7 :: u32)) = Some 0"
    using i(2) by simp
  then show "\<exists>g'. gate_run ev (demo_gate 2) (map (data_message 7) [[0], [1, 65, 0, 2, 66], [67, 0]])
     = Some (Inr ([Send 6 5 PTYPE_TAG_DONTCOPY [65], Send 6 5 PTYPE_TAG_DONTCOPY [66, 67]], g'))"
    using gate_packages [OF i(1) _ i(4) i(3) f, of 7 ev] i(6) by auto
qed

text \<open>with four-byte headers, a client that announces 2^31 bytes or more (the length turns negative as
  an \<open>int\<close>) is never cut off: no package of that connection is sent any more, no error is logged, the socket is not closed,
  and everything it sends is kept in memory.\<close>

theorem gate_negative_header:
  assumes "gate_inv g ls" "slot_of (g_hash g) (sint w) = Some n" "g_pend g ls n = (0, [])" "g_header_size g = 4"
    and "128 \<le> b0" "length (concat ds) < 2 ^ 30"
  shows "\<exists>g' ls' h. gate_run ev g (map (data_message w) ([b0, b1, b2, b3] # ds)) = Some (Inr ([], g')) \<and>
    gate_inv g' ls' \<and> g_pend g' ls' n = (h, concat ds) \<and> h < 0"
proof -
  define h where "h = header_value 4 [b0, b1, b2, b3]"
  have neg: "h < 0"
    unfolding h_def by (rule header_value_4_negative [OF assms(5)])
  have n: "n < length (g_conn g)"
    using gate_slot [OF assms(1,2)] by simp
  have ref: "dispatch_ref (g_header_size g) (has_dest g n) 0 ([] @ [b0, b1, b2, b3]) = ([], h, [])"
    using dispatch_ref_step [of 4 0 "[b0, b1, b2, b3]" "has_dest g n"] neg assms(4) by (simp add: h_def)
  have len: "length ([] :: bytes) + length [b0, b1, b2, b3] < 2 ^ 31"
    by simp
  obtain g1 ls1 where c: "gate_cb ev g (data_message w [b0, b1, b2, b3]) = Some (Inr (0, concat (map (item_events g n (sint w)) []), g1))"
      "g_moved g n ls g1 ls1 h []"
    using gate_cb_data [OF assms(1-3) len ref] by blast
  note i = gate_moved_inv [OF assms(1,2) c(2)]
  have "slot_of (g_hash g1) (sint w) = Some n" "g_pend g1 ls1 n = (h, [])"
    using i(3) assms(2) g_moved_gate(6) [OF c(2) n] by simp_all
  moreover have "length ([] @ concat ds) < 2 ^ 31"
    using assms(6) by simp
  ultimately obtain g' ls' where "gate_run ev g1 (map (data_message w) ds) = Some (Inr ([], g'))" "gate_inv g' ls'"
      "g_pend g' ls' n = (h, [] @ concat ds)"
    using gate_stuck_run [OF i(1) _ _ neg] by blast
  then show ?thesis
    using c(1) neg by (intro exI [of _ g'] exI [of _ ls'] exI [of _ h]) simp
qed

theorem gate_negative_header_witness:
  "\<forall>ev. \<exists>g' ls' h. gate_run ev (demo_gate 4) (map (data_message 7) ([255, 0, 0, 0] # [[1, 2, 3]])) = Some (Inr ([], g')) \<and>
    gate_inv g' ls' \<and> g_pend g' ls' 0 = (h, concat [[1, 2, 3]]) \<and> h < 0"
proof
  fix ev
  note i = demo_gate_inv [of 4]
  have s: "slot_of (g_hash (demo_gate 4)) (sint (7 :: u32)) = Some 0"
    using i(2) by simp
  show "\<exists>g' ls' h. gate_run ev (demo_gate 4) (map (data_message 7) ([255, 0, 0, 0] # [[1, 2, 3]])) = Some (Inr ([], g')) \<and>
    gate_inv g' ls' \<and> g_pend g' ls' 0 = (h, concat [[1, 2, 3]]) \<and> h < 0"
    by (rule gate_negative_header [OF i(1) s i(3) i(5)]) simp_all
qed

end
