(* ===== verification/Rwlock.thy ===== *)
theory Rwlock
  imports Prelude "HOL-Library.Multiset"
begin

text \<open>
  \<open>rwlock.h\<close> (the version on atomic operations): the lock of the handle storage. A step of the relation is one atomic
  access of one thread; a thread is where it is in \<open>rwlock_rlock\<close> or \<open>rwlock_wlock\<close>, holds the lock, or is outside.
  Fewer than 2^31 threads use a lock, so the counter does not overflow.
\<close>

section \<open>The lock and its threads\<close>

record rwlock =
  rw_write :: int
  rw_read :: int

definition rwlock_init :: rwlock where
  "rwlock_init = \<lparr>rw_write = 0, rw_read = 0\<rparr>"

text \<open>
  \<open>RSpin\<close>: in the \<open>while(lock->write)\<close> loop; \<open>RInc\<close>: before the increment; \<open>RCheck\<close>: after it, before the second look at
  \<open>write\<close>; \<open>RUndo\<close>: before the decrement. \<open>WSpin\<close>: before the test-and-set; \<open>WWait\<close>: in the \<open>while(lock->read)\<close> loop.
\<close>

datatype rw_pc = Outside | RSpin | RInc | RCheck | RUndo | Reading | WSpin | WWait | Writing

text \<open>One atomic step of a thread at a program point: where it goes and the lock afterwards.\<close>

fun rlock_step :: "rwlock \<Rightarrow> rw_pc \<Rightarrow> rw_pc \<times> rwlock" where
  "rlock_step l RSpin = (if rw_write l \<noteq> 0 then RSpin else RInc, l)"
| "rlock_step l RInc = (RCheck, l\<lparr>rw_read := rw_read l + 1\<rparr>)"
| "rlock_step l RCheck = (if rw_write l \<noteq> 0 then RUndo else Reading, l)"
| "rlock_step l RUndo = (RSpin, l\<lparr>rw_read := rw_read l - 1\<rparr>)"
| "rlock_step l p = (p, l)"

fun wlock_step :: "rwlock \<Rightarrow> rw_pc \<Rightarrow> rw_pc \<times> rwlock" where
  "wlock_step l WSpin = (if rw_write l \<noteq> 0 then WSpin else WWait, l\<lparr>rw_write := 1\<rparr>)"
| "wlock_step l WWait = (if rw_read l \<noteq> 0 then WWait else Writing, l)"
| "wlock_step l p = (p, l)"

definition rwlock_runlock :: "rwlock \<Rightarrow> rwlock" where
  "rwlock_runlock l = l\<lparr>rw_read := rw_read l - 1\<rparr>"

definition rwlock_wunlock :: "rwlock \<Rightarrow> rwlock" where
  "rwlock_wunlock l = l\<lparr>rw_write := 0\<rparr>"

definition rw_move :: "rw_pc multiset \<Rightarrow> rw_pc \<Rightarrow> rw_pc \<Rightarrow> rw_pc multiset" where
  "rw_move T p p' = add_mset p' (T - {#p#})"

text \<open>\<open>rw_run\<close>: the steps of threads that are inside; \<open>rw_step\<close> adds the threads that begin.\<close>

inductive rw_run :: "rwlock \<times> rw_pc multiset \<Rightarrow> rwlock \<times> rw_pc multiset \<Rightarrow> bool" where
  rlock: "p \<in># T \<Longrightarrow> p \<in> {RSpin, RInc, RCheck, RUndo} \<Longrightarrow> rlock_step l p = (p', l') \<Longrightarrow> rw_run (l, T) (l', rw_move T p p')"
| wlock: "p \<in># T \<Longrightarrow> p \<in> {WSpin, WWait} \<Longrightarrow> wlock_step l p = (p', l') \<Longrightarrow> rw_run (l, T) (l', rw_move T p p')"
| runlock: "Reading \<in># T \<Longrightarrow> rw_run (l, T) (rwlock_runlock l, rw_move T Reading Outside)"
| wunlock: "Writing \<in># T \<Longrightarrow> rw_run (l, T) (rwlock_wunlock l, rw_move T Writing Outside)"

inductive rw_step :: "rwlock \<times> rw_pc multiset \<Rightarrow> rwlock \<times> rw_pc multiset \<Rightarrow> bool" where
  run: "rw_run s s' \<Longrightarrow> rw_step s s'"
| begin_read: "Outside \<in># T \<Longrightarrow> rw_step (l, T) (l, rw_move T Outside RSpin)"
| begin_write: "Outside \<in># T \<Longrightarrow> rw_step (l, T) (l, rw_move T Outside WSpin)"

definition rw_start :: "nat \<Rightarrow> rwlock \<times> rw_pc multiset" where
  "rw_start n = (rwlock_init, replicate_mset n Outside)"

section \<open>The invariant\<close>

definition rw_readers :: "rw_pc multiset \<Rightarrow> nat" where
  "rw_readers T = count T RCheck + count T RUndo + count T Reading"

definition rw_inv :: "rwlock \<times> rw_pc multiset \<Rightarrow> bool" where
  "rw_inv s \<longleftrightarrow> (case s of (l, T) \<Rightarrow> rw_read l = int (rw_readers T) \<and> rw_write l = int (count T WWait + count T Writing) \<and>
     count T WWait + count T Writing \<le> 1 \<and> (Writing \<in># T \<longrightarrow> Reading \<notin># T))"

declare rw_inv_def [skynet_invs]

lemma count_move: "p \<in># T \<Longrightarrow> count (rw_move T p p') x = (if x = p' then 1 else 0) + (count T x - (if x = p then 1 else 0))"
  by (simp add: rw_move_def)

declare count_greater_zero_iff [simp del] count_eq_zero_iff [simp del] count_greater_eq_one_iff [simp del]

lemma mem_count: "p \<in># T \<longleftrightarrow> 0 < count T p"
  by (simp only: count_greater_zero_iff)

lemma count_pos: "p \<in># T \<Longrightarrow> 0 < count T p"
  by (simp only: count_greater_zero_iff)

lemma rw_inv_start: "rw_inv (rw_start n)"
  by (simp add: rw_inv_def rw_start_def rwlock_init_def rw_readers_def)

lemma rw_inv_move:
  assumes "rw_inv (l, T)" "p \<in># T"
    and "rw_read l' - rw_read l = (if p' \<in> {RCheck, RUndo, Reading} then 1 else 0) - (if p \<in> {RCheck, RUndo, Reading} then 1 else 0)"
    and "rw_write l' - rw_write l = (if p' \<in> {WWait, Writing} then 1 else 0) - (if p \<in> {WWait, Writing} then 1 else 0)"
    and "p' \<in> {WWait, Writing} \<Longrightarrow> p \<notin> {WWait, Writing} \<Longrightarrow> rw_write l = 0"
    and "p' = Writing \<Longrightarrow> rw_read l = 0" "p' = Reading \<Longrightarrow> rw_write l = 0"
  shows "rw_inv (l', rw_move T p p')"
proof -
  have pos: "0 < count T p"
    by (rule count_pos [OF assms(2)])
  note c = count_move and mem = assms(2)
  have r: "rw_read l = int (count T RCheck) + int (count T RUndo) + int (count T Reading)"
      "rw_write l = int (count T WWait) + int (count T Writing)" "count T WWait + count T Writing \<le> 1"
      "0 < count T Writing \<longrightarrow> count T Reading = 0"
    using assms(1) by (auto simp: rw_inv_def rw_readers_def mem_count)
  have "rw_read l' = int (rw_readers (rw_move T p p'))"
    using r(1) assms(3) pos mem by (cases p; cases p') (simp_all add: rw_readers_def c)
  moreover have "rw_write l' = int (count (rw_move T p p') WWait + count (rw_move T p p') Writing)"
    using r(2) assms(4) pos mem by (cases p; cases p') (simp_all add: c)
  moreover have "count (rw_move T p p') WWait + count (rw_move T p p') Writing \<le> 1"
    using r(2,3) assms(5) pos mem by (cases p; cases p') (simp_all add: c)
  moreover have "0 < count (rw_move T p p') Writing \<longrightarrow> count (rw_move T p p') Reading = 0"
    using r assms(6,7) pos mem by (cases p; cases p') (simp_all add: c)
  ultimately show ?thesis
    by (simp add: rw_inv_def mem_count)
qed

lemma rw_run_inv: "rw_run s s' \<Longrightarrow> rw_inv s \<Longrightarrow> rw_inv s'"
proof (induction rule: rw_run.induct)
  case (rlock p T l p' l')
  then show ?case
    by (intro rw_inv_move [of l T]) (auto split: if_splits)
next
  case (wlock p T l p' l')
  have "rw_write l \<in> {0, 1}"
    using wlock.prems by (auto simp: rw_inv_def)
  then show ?case
    using wlock by (intro rw_inv_move [of l T]) (auto split: if_splits)
next
  case (runlock T l)
  then show ?case
    by (intro rw_inv_move [of l T]) (simp_all add: rwlock_runlock_def)
next
  case (wunlock T l)
  then have "rw_write l = 1"
    using count_pos [of Writing T] by (auto simp: rw_inv_def)
  then show ?case
    using wunlock by (intro rw_inv_move [of l T]) (simp_all add: rwlock_wunlock_def)
qed

lemma rw_step_inv: "rw_step s s' \<Longrightarrow> rw_inv s \<Longrightarrow> rw_inv s'"
proof (induction rule: rw_step.induct)
  case (run s s')
  then show ?case
    by (blast intro: rw_run_inv)
next
  case (begin_read T l)
  then show ?case
    by (intro rw_inv_move [of l T]) simp_all
next
  case (begin_write T l)
  then show ?case
    by (intro rw_inv_move [of l T]) simp_all
qed

lemma rw_reach_inv: "rw_step\<^sup>*\<^sup>* (rw_start n) s \<Longrightarrow> rw_inv s"
  by (induction rule: rtranclp_induct) (blast intro: rw_inv_start rw_step_inv)+

section \<open>Threads can always leave\<close>

text \<open>The steps still needed: writers first, then readers; while a writer is in, readers back off.\<close>

definition writer_work :: "rw_pc multiset \<Rightarrow> nat" where
  "writer_work T = 3 * count T WSpin + 2 * count T WWait + count T Writing"

definition reader_work :: "rw_pc multiset \<Rightarrow> nat" where
  "reader_work T = (if writer_work T = 0 then 5 * count T RUndo + 4 * count T RSpin + 3 * count T RInc + 2 * count T RCheck + count T Reading
     else 2 * count T RCheck + count T RUndo + count T Reading)"

lemma rw_progress:
  assumes "rw_inv (l, T)" "writer_work T + reader_work T \<noteq> 0"
  shows "\<exists>l' T'. rw_run (l, T) (l', T') \<and> (writer_work T' < writer_work T \<or> writer_work T' = writer_work T \<and> reader_work T' < reader_work T)"
proof -
  have step: "\<exists>l' T'. rw_run (l, T) (l', T') \<and> (writer_work T' < writer_work T \<or> writer_work T' = writer_work T \<and> reader_work T' < reader_work T)"
    if "rw_run (l, T) (l', rw_move T p p')" "writer_work (rw_move T p p') < writer_work T \<or>
      writer_work (rw_move T p p') = writer_work T \<and> reader_work (rw_move T p p') < reader_work T" for l' p p'
    using that by blast
  have w: "rw_write l = int (count T WWait + count T Writing)" "count T WWait + count T Writing \<le> 1"
      "rw_read l = int (count T RCheck + count T RUndo + count T Reading)"
    using assms(1) by (simp_all add: rw_inv_def rw_readers_def)
  note defs = writer_work_def reader_work_def count_move mem_count
  consider "Writing \<in># T" | "Writing \<notin># T" "WWait \<in># T" | "Writing \<notin># T" "WWait \<notin># T" "WSpin \<in># T"
    | "Writing \<notin># T" "WWait \<notin># T" "WSpin \<notin># T"
    by blast
  then show ?thesis
  proof cases
    case 1
    then show ?thesis
      using count_pos [OF 1] by (intro step [OF rw_run.wunlock]) (auto simp: defs)
  next
    case 2
    then have free: "rw_write l \<noteq> 0"
      using count_pos [OF 2(2)] w(1) by simp
    have "rw_read l = 0 \<or> 0 < count T RCheck \<or> 0 < count T RUndo \<or> 0 < count T Reading"
      using w(3) by arith
    then consider "rw_read l = 0" | "RCheck \<in># T" | "RUndo \<in># T" | "Reading \<in># T"
      unfolding mem_count by metis
    then show ?thesis
    proof cases
      case a: 1
      then have "rw_run (l, T) (l, rw_move T WWait Writing)"
        using 2 by (intro rw_run.wlock) simp_all
      then show ?thesis
        using count_pos [OF 2(2)] 2 by (intro step) (auto simp: defs)
    next
      case a: 2
      then have "rw_run (l, T) (l, rw_move T RCheck RUndo)"
        using free by (intro rw_run.rlock) simp_all
      then show ?thesis
        using count_pos [OF 2(2)] count_pos [OF a] a by (intro step) (auto simp: defs)
    next
      case a: 3
      then have "rw_run (l, T) (l\<lparr>rw_read := rw_read l - 1\<rparr>, rw_move T RUndo RSpin)"
        by (intro rw_run.rlock) simp_all
      then show ?thesis
        using count_pos [OF 2(2)] count_pos [OF a] a by (intro step) (auto simp: defs)
    next
      case a: 4
      then show ?thesis
        using count_pos [OF 2(2)] count_pos [OF a] by (intro step [OF rw_run.runlock]) (auto simp: defs)
    qed
  next
    case 3
    then have "rw_write l = 0"
      using w(1) by (simp add: mem_count)
    then have "rw_run (l, T) (l\<lparr>rw_write := 1\<rparr>, rw_move T WSpin WWait)"
      using 3 by (intro rw_run.wlock) simp_all
    then show ?thesis
      using count_pos [OF 3(3)] 3 by (intro step) (auto simp: defs)
  next
    case 4
    then have none: "count T Writing = 0" "count T WWait = 0" "count T WSpin = 0" and free: "rw_write l = 0"
      using w(1) by (simp_all add: mem_count)
    consider "RUndo \<in># T" | "RSpin \<in># T" | "RInc \<in># T" | "RCheck \<in># T" | "Reading \<in># T"
      using assms(2) none by (auto simp: writer_work_def reader_work_def mem_count)
    then show ?thesis
    proof cases
      case a: 1
      then have "rw_run (l, T) (l\<lparr>rw_read := rw_read l - 1\<rparr>, rw_move T RUndo RSpin)"
        by (intro rw_run.rlock) simp_all
      then show ?thesis
        using count_pos [OF a] none a by (intro step) (auto simp: defs)
    next
      case a: 2
      then have "rw_run (l, T) (l, rw_move T RSpin RInc)"
        using free by (intro rw_run.rlock) simp_all
      then show ?thesis
        using count_pos [OF a] none a by (intro step) (auto simp: defs)
    next
      case a: 3
      then have "rw_run (l, T) (l\<lparr>rw_read := rw_read l + 1\<rparr>, rw_move T RInc RCheck)"
        by (intro rw_run.rlock) simp_all
      then show ?thesis
        using count_pos [OF a] none a by (intro step) (auto simp: defs)
    next
      case a: 4
      then have "rw_run (l, T) (l, rw_move T RCheck Reading)"
        using free by (intro rw_run.rlock) simp_all
      then show ?thesis
        using count_pos [OF a] none a by (intro step) (auto simp: defs)
    next
      case a: 5
      then show ?thesis
        using count_pos [OF a] none by (intro step [OF rw_run.runlock]) (auto simp: defs)
    qed
  qed
qed

lemma rw_can_leave:
  assumes "rw_inv s"
  shows "\<exists>l T. rw_run\<^sup>*\<^sup>* s (l, T) \<and> rw_inv (l, T) \<and> writer_work T + reader_work T = 0"
  using assms
proof (induction "(writer_work (snd s), reader_work (snd s))" arbitrary: s rule: wf_induct_rule [OF wf_lex_prod [OF wf_less_than wf_less_than]])
  case (1 s)
  obtain l T where s: "s = (l, T)"
    by (rule prod.exhaust)
  show ?case
  proof (cases "writer_work T + reader_work T = 0")
    case True
    then show ?thesis
      using 1(2) s by auto
  next
    case False
    obtain l' T' where step: "rw_run (l, T) (l', T')"
        "writer_work T' < writer_work T \<or> writer_work T' = writer_work T \<and> reader_work T' < reader_work T"
      using rw_progress [OF 1(2) [unfolded s] False] by blast
    have inv: "rw_inv (l', T')"
      by (rule rw_run_inv [OF step(1) 1(2) [unfolded s]])
    obtain l2 T2 where "rw_run\<^sup>*\<^sup>* (l', T') (l2, T2)" "rw_inv (l2, T2)" "writer_work T2 + reader_work T2 = 0"
      using 1(1) [of "(l', T')"] inv step(2) s by auto
    then show ?thesis
      using step(1) s converse_rtranclp_into_rtranclp [of rw_run] by blast
  qed
qed

lemma no_work: "writer_work T + reader_work T = 0 \<longleftrightarrow> (\<forall>p \<in># T. p = Outside)"
proof
  assume "writer_work T + reader_work T = 0"
  then have "p = Outside" if "p \<in># T" for p
    using count_pos [OF that] by (cases p) (simp_all add: writer_work_def reader_work_def split: if_splits)
  then show "\<forall>p \<in># T. p = Outside"
    by blast
next
  assume "\<forall>p \<in># T. p = Outside"
  then have "count T p = 0" if "p \<noteq> Outside" for p
    using that by (auto simp: mem_count)
  then show "writer_work T + reader_work T = 0"
    by (simp add: writer_work_def reader_work_def)
qed

text \<open>C19: in every state threads can reach, at most one thread writes, and while one writes nobody reads; the
  counter is the number of threads between its increment and decrement, and \<open>write\<close> is 1 exactly while a writer has it.\<close>

theorem rwlock_exclusion:
  assumes "rw_step\<^sup>*\<^sup>* (rw_start n) (l, T)"
  shows "count T Writing \<le> 1 \<and> (Writing \<in># T \<longrightarrow> Reading \<notin># T) \<and> rw_read l = int (rw_readers T) \<and>
    (rw_write l = 1 \<longleftrightarrow> WWait \<in># T \<or> Writing \<in># T) \<and> rw_write l \<in> {0, 1}"
proof -
  have i: "rw_read l = int (rw_readers T)" "rw_write l = int (count T WWait + count T Writing)"
      "count T WWait + count T Writing \<le> 1" "Writing \<in># T \<longrightarrow> Reading \<notin># T"
    using rw_reach_inv [OF assms] by (simp_all add: rw_inv_def)
  then show ?thesis
    unfolding mem_count by (auto simp: not_less)
qed

text \<open>C20: no interleaving of threads can block the lock for good: from every reachable state the threads inside can
  run to the end of what they began, without a new one entering, and then the lock is free.\<close>

theorem rwlock_release:
  assumes "rw_step\<^sup>*\<^sup>* (rw_start n) s"
  shows "\<exists>T. rw_run\<^sup>*\<^sup>* s (rwlock_init, T) \<and> (\<forall>p \<in># T. p = Outside)"
proof -
  obtain l T where r: "rw_run\<^sup>*\<^sup>* s (l, T)" "rw_inv (l, T)" "writer_work T + reader_work T = 0"
    using rw_can_leave [OF rw_reach_inv [OF assms]] by (elim exE conjE) (rule that; assumption)
  have out: "\<forall>p \<in># T. p = Outside"
    using r(3) by (simp only: no_work)
  then have "count T p = 0" if "p \<noteq> Outside" for p
    using that by (auto simp: mem_count)
  then have "l = rwlock_init"
    using r(2) by (cases l) (simp add: rw_inv_def rw_readers_def rwlock_init_def)
  then show ?thesis
    using r(1) out by blast
qed

theorem rwlock_exclusion_witness:
  "count {#Reading, Outside#} Writing \<le> (1::nat) \<and> rw_read \<lparr>rw_write = 0, rw_read = 1\<rparr> = int (rw_readers {#Reading, Outside#})"
proof -
  let ?l0 = "\<lparr>rw_write = 0, rw_read = 0\<rparr>" and ?l1 = "\<lparr>rw_write = 0, rw_read = 1\<rparr>"
  have "rw_start 2 = (?l0, {#Outside, Outside#})"
    by (simp add: rw_start_def rwlock_init_def numeral_2_eq_2)
  moreover have "rw_step (?l0, {#Outside, Outside#}) (?l0, rw_move {#Outside, Outside#} Outside RSpin)"
    by (rule rw_step.begin_read) simp
  moreover have "rw_step (?l0, {#RSpin, Outside#}) (?l0, rw_move {#RSpin, Outside#} RSpin RInc)"
    by (intro rw_step.run rw_run.rlock) simp_all
  moreover have "rw_step (?l0, {#RInc, Outside#}) (?l1, rw_move {#RInc, Outside#} RInc RCheck)"
    by (intro rw_step.run rw_run.rlock) simp_all
  moreover have "rw_step (?l1, {#RCheck, Outside#}) (?l1, rw_move {#RCheck, Outside#} RCheck Reading)"
    by (intro rw_step.run rw_run.rlock) simp_all
  ultimately have "rw_step\<^sup>*\<^sup>* (rw_start 2) (?l1, {#Reading, Outside#})"
    by (simp add: rw_move_def rtranclp.rtrancl_into_rtrancl)
  then show ?thesis
    using rwlock_exclusion [of 2 ?l1 "{#Reading, Outside#}"] by simp
qed

theorem rwlock_release_witness:
  "\<exists>T. rw_run\<^sup>*\<^sup>* (\<lparr>rw_write = 0, rw_read = 0\<rparr>, {#WSpin, Outside#}) (rwlock_init, T) \<and> (\<forall>p \<in># T. p = Outside)"
proof -
  let ?l0 = "\<lparr>rw_write = 0, rw_read = 0\<rparr>"
  have "rw_start 2 = (?l0, {#Outside, Outside#})"
    by (simp add: rw_start_def rwlock_init_def numeral_2_eq_2)
  moreover have "rw_step (?l0, {#Outside, Outside#}) (?l0, rw_move {#Outside, Outside#} Outside WSpin)"
    by (rule rw_step.begin_write) simp
  ultimately have "rw_step\<^sup>*\<^sup>* (rw_start 2) (?l0, {#WSpin, Outside#})"
    by (simp add: rw_move_def)
  then show ?thesis
    by (rule rwlock_release)
qed

end
