(* ===== verification/Seri.thy ===== *)
theory Seri
  imports Netpack DataBuffer
begin

text \<open>
  \<open>lua-seri.c\<close>: the encoding of Lua values in messages between services. A value is written into a chain of blocks of
  128 bytes, which is then copied into one buffer; it is read back from a buffer.

  A Lua table is what the code can ask of it: the elements \<open>1..lua_rawlen\<close> (a border, there may be nils below it), the
  pairs \<open>lua_next\<close> goes through, and, when it has a \<open>__pairs\<close> metamethod, the pairs its iterator yields. Reals and
  pointers are their 64 bits. The tables the reader builds are lists of entries in the order they were made.
  \<open>lua_rawset\<close> puts a key in its normal form (a float with an integer value becomes the integer) or raises an error
  (NaN): that is the argument \<open>norm\<close>.
\<close>

section \<open>Writing bytes\<close>

definition BLOCK_SIZE :: nat where "BLOCK_SIZE = 128"

record write_block =
  wb_blocks :: "buf list"
  wb_len :: nat
  wb_ptr :: nat

definition blk_alloc :: buf where
  "blk_alloc = malloc_buf BLOCK_SIZE"

definition wb_init :: write_block where
  "wb_init = \<lparr>wb_blocks = [blk_alloc], wb_len = 0, wb_ptr = 0\<rparr>"

text \<open>Writing at \<open>ptr\<close> of the current block, the last of the chain.\<close>

definition wb_store :: "write_block \<Rightarrow> bytes \<Rightarrow> write_block res" where
  "wb_store b data = (if wb_blocks b = [] then Inl Bad_Pointer
     else res_bind (memcpy_at (last (wb_blocks b)) (wb_ptr b) data) (\<lambda>blk.
       Inr (b\<lparr>wb_blocks := butlast (wb_blocks b) @ [blk], wb_ptr := wb_ptr b + length data, wb_len := wb_len b + length data\<rparr>)))"

definition wb_next :: "write_block \<Rightarrow> write_block" where
  "wb_next b = b\<lparr>wb_blocks := wb_blocks b @ [blk_alloc], wb_ptr := 0\<rparr>"

function wb_copy :: "write_block \<Rightarrow> bytes \<Rightarrow> write_block res" where
  "wb_copy b data =
    (if wb_ptr b + length data \<le> BLOCK_SIZE then wb_store b data
     else let copy = BLOCK_SIZE - wb_ptr b in
       case wb_store b (take copy data) of
         Inl e \<Rightarrow> Inl e
       | Inr b' \<Rightarrow> wb_copy (wb_next b') (drop copy data))"
  by pat_completeness auto
termination
  by (relation "measure (\<lambda>(b, data). 2 * length data + (if wb_ptr b = 0 then 0 else 1))")
    (auto simp: wb_next_def BLOCK_SIZE_def)

declare wb_copy.simps [simp del]

definition wb_push :: "write_block \<Rightarrow> bytes \<Rightarrow> write_block res" where
  "wb_push b data = (if wb_ptr b = BLOCK_SIZE then wb_copy (wb_next b) data else wb_copy b data)"

text \<open>\<open>seri\<close>: the first \<open>len\<close> bytes of the chain.\<close>

fun seri :: "buf list \<Rightarrow> nat \<Rightarrow> buf res" where
  "seri [] len = (if len = 0 then Inr [] else Inl Bad_Pointer)"
| "seri (b # bs) len =
     (if len = 0 then Inr []
      else if len \<ge> BLOCK_SIZE then res_bind (seri bs (len - BLOCK_SIZE)) (\<lambda>r. Inr (take BLOCK_SIZE b @ r))
      else Inr (take len b))"

section \<open>Writing values\<close>

definition TYPE_NIL :: nat where "TYPE_NIL = 0"
definition TYPE_BOOLEAN :: nat where "TYPE_BOOLEAN = 1"
definition TYPE_NUMBER :: nat where "TYPE_NUMBER = 2"
definition TYPE_USERDATA :: nat where "TYPE_USERDATA = 3"
definition TYPE_SHORT_STRING :: nat where "TYPE_SHORT_STRING = 4"
definition TYPE_LONG_STRING :: nat where "TYPE_LONG_STRING = 5"
definition TYPE_TABLE :: nat where "TYPE_TABLE = 6"
definition NUMBER_ZERO :: nat where "NUMBER_ZERO = 0"
definition NUMBER_BYTE :: nat where "NUMBER_BYTE = 1"
definition NUMBER_WORD :: nat where "NUMBER_WORD = 2"
definition NUMBER_DWORD :: nat where "NUMBER_DWORD = 4"
definition NUMBER_QWORD :: nat where "NUMBER_QWORD = 6"
definition NUMBER_REAL :: nat where "NUMBER_REAL = 8"
definition MAX_COOKIE :: nat where "MAX_COOKIE = 32"
definition MAX_DEPTH :: nat where "MAX_DEPTH = 32"

definition COMBINE_TYPE :: "nat \<Rightarrow> nat \<Rightarrow> byte" where
  "COMBINE_TYPE t v = word_of_nat t OR push_bit 3 (word_of_nat v)"

datatype lua_value =
    LNil
  | LBool bool
  | LInt u64
  | LReal u64
  | LString bytes
  | LPointer u64
  | LTable "lua_value list" "(lua_value \<times> lua_value) list" "(lua_value \<times> lua_value) list option"
  | LOther string

type_synonym wb_state = "write_block lua"

text \<open>The bytes of one header and its payload are pushed one after the other.\<close>

definition wb_pushes :: "write_block \<Rightarrow> bytes list \<Rightarrow> write_block lua" where
  "wb_pushes b ds = lift_fault (foldl (\<lambda>r d. res_bind r (\<lambda>b. wb_push b d)) (Inr b) ds)"

definition wb_nil :: "write_block \<Rightarrow> write_block lua" where
  "wb_nil b = wb_pushes b [[word_of_nat TYPE_NIL]]"

definition wb_boolean :: "write_block \<Rightarrow> bool \<Rightarrow> write_block lua" where
  "wb_boolean b v = wb_pushes b [[COMBINE_TYPE TYPE_BOOLEAN (if v then 1 else 0)]]"

definition wb_integer :: "write_block \<Rightarrow> u64 \<Rightarrow> write_block lua" where
  "wb_integer b v =
    (if v = 0 then wb_pushes b [[COMBINE_TYPE TYPE_NUMBER NUMBER_ZERO]]
     else if sint v \<noteq> sint (ucast v :: u32) then wb_pushes b [[COMBINE_TYPE TYPE_NUMBER NUMBER_QWORD], le_bytes 8 v]
     else if sint v < 0 then wb_pushes b [[COMBINE_TYPE TYPE_NUMBER NUMBER_DWORD], le_bytes 4 (ucast v :: u32)]
     else if sint v < 0x100 then wb_pushes b [[COMBINE_TYPE TYPE_NUMBER NUMBER_BYTE], [ucast v]]
     else if sint v < 0x10000 then wb_pushes b [[COMBINE_TYPE TYPE_NUMBER NUMBER_WORD], le_bytes 2 (ucast v :: u16)]
     else wb_pushes b [[COMBINE_TYPE TYPE_NUMBER NUMBER_DWORD], le_bytes 4 (ucast v :: u32)])"

definition wb_real :: "write_block \<Rightarrow> u64 \<Rightarrow> write_block lua" where
  "wb_real b v = wb_pushes b [[COMBINE_TYPE TYPE_NUMBER NUMBER_REAL], le_bytes 8 v]"

definition wb_pointer :: "write_block \<Rightarrow> u64 \<Rightarrow> write_block lua" where
  "wb_pointer b v = wb_pushes b [[word_of_nat TYPE_USERDATA], le_bytes 8 v]"

text \<open>The length is an \<open>int\<close>; strings of 2^31 bytes and more are beyond the model (they fault).\<close>

definition wb_string :: "write_block \<Rightarrow> bytes \<Rightarrow> write_block lua" where
  "wb_string b str = (let len = length str in
     if len \<ge> 2 ^ 31 then Inl (C_Fault Int_Overflow)
     else if len < MAX_COOKIE then
       wb_pushes b ([COMBINE_TYPE TYPE_SHORT_STRING len] # (if len > 0 then [str] else []))
     else if len < 0x10000 then wb_pushes b [[COMBINE_TYPE TYPE_LONG_STRING 2], le_bytes 2 (word_of_nat len :: u16), str]
     else wb_pushes b [[COMBINE_TYPE TYPE_LONG_STRING 4], le_bytes 4 (word_of_nat len :: u32), str])"

text \<open>The header of a table with its array size.\<close>

definition wb_array_size :: "write_block \<Rightarrow> nat \<Rightarrow> write_block lua" where
  "wb_array_size b array_size =
    (if array_size \<ge> MAX_COOKIE - 1
     then res_bind (wb_pushes b [[COMBINE_TYPE TYPE_TABLE (MAX_COOKIE - 1)]]) (\<lambda>b. wb_integer b (word_of_nat array_size))
     else wb_pushes b [[COMBINE_TYPE TYPE_TABLE array_size]])"

text \<open>A key that was written with the array.\<close>

definition array_key :: "nat \<Rightarrow> lua_value \<Rightarrow> bool" where
  "array_key array_size k = (case k of LInt x \<Rightarrow> 0 < sint x \<and> sint x \<le> int array_size | _ \<Rightarrow> False)"

text \<open>
  \<open>pack_one\<close> with the loops of \<open>wb_table_array\<close>, \<open>wb_table_hash\<close> and \<open>wb_table_metapairs\<close>. A table is packed one level
  deeper, its size is below 2^31.
\<close>

function (sequential) pack_one :: "write_block \<Rightarrow> lua_value \<Rightarrow> nat \<Rightarrow> write_block lua"
  and pack_value :: "write_block \<Rightarrow> lua_value \<Rightarrow> nat \<Rightarrow> write_block lua"
  and pack_array :: "write_block \<Rightarrow> lua_value list \<Rightarrow> nat \<Rightarrow> write_block lua"
  and pack_pairs :: "write_block \<Rightarrow> (lua_value \<times> lua_value) list \<Rightarrow> nat \<Rightarrow> nat \<Rightarrow> write_block lua" where
  "pack_one b v depth =
    (if depth > MAX_DEPTH then luaL_error ''serialize can't pack too depth table'' else pack_value b v depth)"
| "pack_value b LNil depth = wb_nil b"
| "pack_value b (LInt x) depth = wb_integer b x"
| "pack_value b (LReal x) depth = wb_real b x"
| "pack_value b (LBool x) depth = wb_boolean b x"
| "pack_value b (LString s) depth = wb_string b s"
| "pack_value b (LPointer p) depth = wb_pointer b p"
| "pack_value b (LTable arr kvs (Some mkvs)) depth =
     res_bind (wb_pushes b [[COMBINE_TYPE TYPE_TABLE 0]]) (\<lambda>b.
     res_bind (pack_pairs b mkvs 0 (depth + 1)) (\<lambda>b. wb_nil b))"
| "pack_value b (LTable arr kvs None) depth =
     (if length arr \<ge> 2 ^ 31 then Inl (C_Fault Int_Overflow) else
      res_bind (wb_array_size b (length arr)) (\<lambda>b.
      res_bind (pack_array b arr (depth + 1)) (\<lambda>b.
      res_bind (pack_pairs b kvs (length arr) (depth + 1)) (\<lambda>b. wb_nil b))))"
| "pack_value b (LOther t) depth = luaL_error (''Unsupport type '' @ t @ '' to serialize'')"
| "pack_array b [] depth = Inr b"
| "pack_array b (v # vs) depth = res_bind (pack_one b v depth) (\<lambda>b. pack_array b vs depth)"
| "pack_pairs b [] array_size depth = Inr b"
| "pack_pairs b ((k, v) # kvs) array_size depth =
     (if array_key array_size k then pack_pairs b kvs array_size depth
      else res_bind (pack_one b k depth) (\<lambda>b. res_bind (pack_one b v depth) (\<lambda>b. pack_pairs b kvs array_size depth)))"
  by pat_completeness auto
termination
  by (relation "measure (case_sum (case_sum (\<lambda>(b, v, d). 2 * size v + 1) (\<lambda>(b, v, d). 2 * size v))
    (case_sum (\<lambda>(b, vs, d). 2 * size_list size vs + 1) (\<lambda>(b, kvs, n, d). 2 * size_list (size_prod size size) kvs + 1)))")
    (auto simp: size_option_def)

declare pack_one.simps [simp del]

text \<open>\<open>pack_from\<close> writes the arguments, \<open>luaseri_pack\<close> copies the chain out.\<close>

fun pack_from :: "write_block \<Rightarrow> lua_value list \<Rightarrow> write_block lua" where
  "pack_from b [] = Inr b"
| "pack_from b (v # vs) = res_bind (pack_one b v 0) (\<lambda>b. pack_from b vs)"

definition luaseri_pack :: "lua_value list \<Rightarrow> buf lua" where
  "luaseri_pack vs = res_bind (pack_from wb_init vs) (\<lambda>wb. lift_fault (seri (wb_blocks wb) (wb_len wb)))"

section \<open>Reading values\<close>

record read_block =
  rb_buffer :: bytes
  rb_len :: int
  rb_ptr :: int

definition rball_init :: "bytes \<Rightarrow> int \<Rightarrow> read_block" where
  "rball_init buffer sz = \<lparr>rb_buffer = buffer, rb_len = sz, rb_ptr = 0\<rparr>"

text \<open>\<open>rb_read\<close> answers where the bytes are; NULL is \<open>None\<close>.\<close>

definition rb_read :: "read_block \<Rightarrow> int \<Rightarrow> (int \<times> read_block) option" where
  "rb_read rb sz = (if rb_len rb < sz then None
     else Some (rb_ptr rb, rb\<lparr>rb_ptr := rb_ptr rb + sz, rb_len := rb_len rb - sz\<rparr>))"

definition invalid_stream :: "'a lua" where
  "invalid_stream = luaL_error ''Invalid serialize stream''"

definition rb_bytes :: "read_block \<Rightarrow> int \<Rightarrow> (bytes \<times> read_block) lua" where
  "rb_bytes rb sz = (case rb_read rb sz of None \<Rightarrow> invalid_stream
     | Some (p, rb') \<Rightarrow> lift_fault (res_bind (mem_read (Some (rb_buffer rb)) p sz) (\<lambda>d. Inr (d, rb'))))"

datatype read_value =
    RNil
  | RBool bool
  | RInt u64
  | RReal u64
  | RString bytes
  | RPointer u64
  | RTable "(read_value \<times> read_value) list"

definition get_integer :: "read_block \<Rightarrow> nat \<Rightarrow> (u64 \<times> read_block) lua" where
  "get_integer rb cookie =
    (if cookie = NUMBER_ZERO then Inr (0, rb)
     else if cookie = NUMBER_BYTE then res_bind (rb_bytes rb 1) (\<lambda>(d, rb). Inr (ucast (le_word d :: byte), rb))
     else if cookie = NUMBER_WORD then res_bind (rb_bytes rb 2) (\<lambda>(d, rb). Inr (ucast (le_word d :: u16), rb))
     else if cookie = NUMBER_DWORD then res_bind (rb_bytes rb 4) (\<lambda>(d, rb). Inr (scast (le_word d :: u32), rb))
     else if cookie = NUMBER_QWORD then res_bind (rb_bytes rb 8) (\<lambda>(d, rb). Inr (le_word d, rb))
     else invalid_stream)"

definition get_real :: "read_block \<Rightarrow> (u64 \<times> read_block) lua" where
  "get_real rb = res_bind (rb_bytes rb 8) (\<lambda>(d, rb). Inr (le_word d, rb))"

definition get_pointer :: "read_block \<Rightarrow> (u64 \<times> read_block) lua" where
  "get_pointer rb = res_bind (rb_bytes rb 8) (\<lambda>(d, rb). Inr (le_word d, rb))"

text \<open>A negative length passes the check of \<open>rb_read\<close>; \<open>lua_pushlstring\<close> then refuses the size.\<close>

definition get_buffer :: "read_block \<Rightarrow> int \<Rightarrow> (bytes \<times> read_block) lua" where
  "get_buffer rb len = (if len < 0 \<and> rb_read rb len \<noteq> None then luaL_error ''memory allocation error: block too big'' else rb_bytes rb len)"

text \<open>Tables: a key that is a table is a new object, so never equal to a key that is there.\<close>

definition is_table :: "read_value \<Rightarrow> bool" where
  "is_table k = (case k of RTable _ \<Rightarrow> True | _ \<Rightarrow> False)"

definition set_entry :: "(read_value \<times> read_value) list \<Rightarrow> read_value \<Rightarrow> read_value \<Rightarrow> (read_value \<times> read_value) list" where
  "set_entry t k v =
    (if \<not> is_table k \<and> k \<in> fst ` set t
     then (if v = RNil then filter (\<lambda>(k', _). k' \<noteq> k) t else map (\<lambda>(k', v'). if k' = k then (k', v) else (k', v')) t)
     else if v = RNil then t else t @ [(k, v)])"

definition rawset :: "(read_value \<Rightarrow> read_value option) \<Rightarrow> (read_value \<times> read_value) list \<Rightarrow> read_value \<Rightarrow> read_value
    \<Rightarrow> (read_value \<times> read_value) list lua" where
  "rawset norm t k v = (case norm k of None \<Rightarrow> luaL_error ''index is NaN'' | Some k \<Rightarrow> Inr (set_entry t k v))"

text \<open>\<open>push_value\<close> but for its case of a table, and the array size at the head of \<open>unpack_table\<close>.\<close>

definition push_atom :: "read_block \<Rightarrow> nat \<Rightarrow> nat \<Rightarrow> (read_value \<times> read_block) lua" where
  "push_atom rb type cookie =
     (if type = TYPE_NIL then Inr (RNil, rb)
      else if type = TYPE_BOOLEAN then Inr (RBool (cookie \<noteq> 0), rb)
      else if type = TYPE_NUMBER then
        (if cookie = NUMBER_REAL then res_bind (get_real rb) (\<lambda>(x, rb). Inr (RReal x, rb))
         else res_bind (get_integer rb cookie) (\<lambda>(x, rb). Inr (RInt x, rb)))
      else if type = TYPE_USERDATA then res_bind (get_pointer rb) (\<lambda>(x, rb). Inr (RPointer x, rb))
      else if type = TYPE_SHORT_STRING then res_bind (get_buffer rb (int cookie)) (\<lambda>(s, rb). Inr (RString s, rb))
      else if type = TYPE_LONG_STRING then
        (if cookie = 2 then res_bind (rb_bytes rb 2) (\<lambda>(d, rb).
           res_bind (get_buffer rb (uint (le_word d :: u16))) (\<lambda>(s, rb). Inr (RString s, rb)))
         else if cookie \<noteq> 4 then invalid_stream
         else res_bind (rb_bytes rb 4) (\<lambda>(d, rb).
           res_bind (get_buffer rb (sint (le_word d :: u32))) (\<lambda>(s, rb). Inr (RString s, rb))))
      else invalid_stream)"

definition table_size :: "read_block \<Rightarrow> nat \<Rightarrow> (int \<times> read_block) lua" where
  "table_size rb array_size =
     (if array_size = MAX_COOKIE - 1 then
        res_bind (rb_bytes rb 1) (\<lambda>(d, rb).
          let type = unat (hd d); cookie = type div 8 in
          if type mod 8 \<noteq> TYPE_NUMBER \<or> cookie = NUMBER_REAL then invalid_stream
          else res_bind (get_integer rb cookie) (\<lambda>(x, rb). Inr (sint (ucast x :: u32), rb)))
      else Inr (int array_size, rb))"

text \<open>
  \<open>unpack_one\<close>, \<open>push_value\<close> and the two loops of \<open>unpack_table\<close> with fuel; \<open>unpack_total\<close> shows that four units
  per byte are enough.
\<close>

function (sequential) unpack_one :: "(read_value \<Rightarrow> read_value option) \<Rightarrow> nat \<Rightarrow> read_block \<Rightarrow> (read_value \<times> read_block) lua option"
  and push_value :: "(read_value \<Rightarrow> read_value option) \<Rightarrow> nat \<Rightarrow> read_block \<Rightarrow> nat \<Rightarrow> nat \<Rightarrow> (read_value \<times> read_block) lua option"
  and unpack_array :: "(read_value \<Rightarrow> read_value option) \<Rightarrow> nat \<Rightarrow> read_block \<Rightarrow> (read_value \<times> read_value) list \<Rightarrow> nat \<Rightarrow> int
    \<Rightarrow> (read_value \<times> read_block) lua option"
  and unpack_hash :: "(read_value \<Rightarrow> read_value option) \<Rightarrow> nat \<Rightarrow> read_block \<Rightarrow> (read_value \<times> read_value) list
    \<Rightarrow> (read_value \<times> read_block) lua option" where
  "unpack_one norm 0 rb = None"
| "unpack_one norm (Suc f) rb = res_obind (Some (rb_bytes rb 1)) (\<lambda>(d, rb).
     push_value norm f rb (unat (hd d) mod 8) (unat (hd d) div 8))"
| "push_value norm 0 rb type cookie = None"
| "push_value norm (Suc f) rb type cookie =
     (if type = TYPE_TABLE then res_obind (Some (table_size rb cookie)) (\<lambda>(n, rb). unpack_array norm f rb [] 1 n)
      else Some (push_atom rb type cookie))"
| "unpack_array norm 0 rb t i n = None"
| "unpack_array norm (Suc f) rb t i n =
     (if int i \<le> n then res_obind (unpack_one norm f rb) (\<lambda>(v, rb).
        unpack_array norm f rb (set_entry t (RInt (word_of_nat i)) v) (i + 1) n)
      else unpack_hash norm f rb t)"
| "unpack_hash norm 0 rb t = None"
| "unpack_hash norm (Suc f) rb t = res_obind (unpack_one norm f rb) (\<lambda>(k, rb).
     if k = RNil then Some (Inr (RTable t, rb))
     else res_obind (unpack_one norm f rb) (\<lambda>(v, rb).
       res_obind (Some (rawset norm t k v)) (\<lambda>t. unpack_hash norm f rb t)))"
  by pat_completeness auto
termination
  by (relation "measure (case_sum (case_sum (\<lambda>(norm, f, rb). f) (\<lambda>(norm, f, rb, type, cookie). f))
    (case_sum (\<lambda>(norm, f, rb, t, i, n). f) (\<lambda>(norm, f, rb, t). f)))") auto

text \<open>The loop of \<open>luaseri_unpack\<close> and the whole.\<close>

fun unpack_all :: "(read_value \<Rightarrow> read_value option) \<Rightarrow> nat \<Rightarrow> read_block \<Rightarrow> read_value list \<Rightarrow> read_value list lua option" where
  "unpack_all norm 0 rb out = None"
| "unpack_all norm (Suc f) rb out =
     (if rb_read rb 1 = None then Some (Inr out)
      else res_obind (unpack_one norm f rb) (\<lambda>(v, rb). unpack_all norm f rb (out @ [v])))"

definition luaseri_unpack :: "(read_value \<Rightarrow> read_value option) \<Rightarrow> nat \<Rightarrow> bytes option \<Rightarrow> int \<Rightarrow> read_value list lua option" where
  "luaseri_unpack norm fuel buffer len =
    (if len = 0 then Some (Inr [])
     else case buffer of None \<Rightarrow> Some (luaL_error ''deserialize null pointer'')
     | Some bs \<Rightarrow> unpack_all norm fuel (rball_init bs len) [])"

section \<open>Reading any bytes\<close>

text \<open>A read block lies in its buffer; a step of the reader keeps it there and moves on by at least \<open>k\<close> bytes.\<close>

definition rb_ok :: "read_block \<Rightarrow> bool" where
  "rb_ok rb \<longleftrightarrow> 0 \<le> rb_ptr rb \<and> 0 \<le> rb_len rb \<and> rb_ptr rb + rb_len rb \<le> int (length (rb_buffer rb))"

definition no_fault :: "'a lua \<Rightarrow> bool" where
  "no_fault r \<longleftrightarrow> (\<forall>e. r \<noteq> Inl (C_Fault e))"

definition step_ok :: "read_block \<Rightarrow> int \<Rightarrow> ('a \<times> read_block) lua \<Rightarrow> bool" where
  "step_ok rb k r \<longleftrightarrow> (case r of Inl e \<Rightarrow> no_fault r | Inr (x, rb') \<Rightarrow> rb_ok rb' \<and> rb_len rb' + k \<le> rb_len rb)"

lemma no_fault_simps [simp]:
  "no_fault (Inr x)" "no_fault (Inl (Lua_Error m))" "\<not> no_fault (Inl (C_Fault e))" "no_fault (luaL_error m)" "no_fault invalid_stream"
  by (simp_all add: no_fault_def luaL_error_def invalid_stream_def)

lemma step_ok_Inr [simp]: "step_ok rb k (Inr (x, rb')) \<longleftrightarrow> rb_ok rb' \<and> rb_len rb' + k \<le> rb_len rb"
  by (simp add: step_ok_def)

lemma step_ok_error [simp]: "step_ok rb k (luaL_error m)" "step_ok rb k invalid_stream"
  by (simp_all add: step_ok_def luaL_error_def invalid_stream_def)

lemma step_ok_Inl [simp]: "step_ok rb k (Inl (Lua_Error m))" "\<not> step_ok rb k (Inl (C_Fault e))"
  by (simp_all add: step_ok_def)

lemma step_ok_bind:
  assumes "step_ok rb k r" and "\<And>x rb'. rb_ok rb' \<Longrightarrow> rb_len rb' + k \<le> rb_len rb \<Longrightarrow> step_ok rb' j (g x rb')" and "0 \<le> k" "0 \<le> j"
  shows "step_ok rb (k + j) (res_bind r (\<lambda>(x, rb). g x rb))"
proof (cases r)
  case (Inl e)
  then show ?thesis
    using assms(1) by (simp add: step_ok_def no_fault_def)
next
  case (Inr y)
  obtain x rb' where y: "y = (x, rb')"
    by (cases y)
  have rb': "rb_ok rb'" "rb_len rb' + k \<le> rb_len rb"
    using assms(1) by (simp_all add: Inr y)
  have "step_ok rb' j (g x rb')"
    by (rule assms(2) [OF rb'])
  then have "step_ok rb (k + j) (g x rb')"
    using rb'(2) by (auto simp: step_ok_def no_fault_def split: sum.splits)
  then show ?thesis
    by (simp add: Inr y)
qed

lemma step_ok_bind0:
  assumes "step_ok rb k r" and "\<And>x rb'. rb_ok rb' \<Longrightarrow> rb_len rb' + k \<le> rb_len rb \<Longrightarrow> step_ok rb' 0 (g x rb')" and "0 \<le> k"
  shows "step_ok rb 0 (res_bind r (\<lambda>(x, rb). g x rb))"
proof -
  have "step_ok rb (k + 0) (res_bind r (\<lambda>(x, rb). g x rb))"
    by (rule step_ok_bind [OF assms]) simp_all
  then show ?thesis
    using assms(3) by (auto simp: step_ok_def split: sum.splits)
qed

lemma rb_bytes_ok:
  assumes "rb_ok rb" "0 \<le> sz"
  shows "step_ok rb sz (rb_bytes rb sz)"
  using assms by (auto simp: rb_bytes_def rb_read_def rb_ok_def mem_read_def lift_fault_def)

lemma get_integer_ok: "rb_ok rb \<Longrightarrow> step_ok rb 0 (get_integer rb cookie)"
  unfolding get_integer_def by (auto intro!: step_ok_bind0 [OF rb_bytes_ok])

lemma get_buffer_ok: "rb_ok rb \<Longrightarrow> step_ok rb 0 (get_buffer rb len)"
proof (cases "len < 0")
  case True
  then show "rb_ok rb \<Longrightarrow> ?thesis"
    by (cases "rb_read rb len") (simp_all add: get_buffer_def rb_bytes_def)
next
  case False
  assume "rb_ok rb"
  then have "step_ok rb len (rb_bytes rb len)"
    using False by (intro rb_bytes_ok) simp_all
  then show ?thesis
    using False by (auto simp: get_buffer_def step_ok_def split: sum.splits)
qed

lemma step_ok_if:
  "(c \<Longrightarrow> step_ok rb k a) \<Longrightarrow> (\<not> c \<Longrightarrow> step_ok rb k b) \<Longrightarrow> step_ok rb k (if c then a else b)"
  by simp

lemma get_real_ok: "rb_ok rb \<Longrightarrow> step_ok rb 0 (get_real rb)" "rb_ok rb \<Longrightarrow> step_ok rb 0 (get_pointer rb)"
  by (simp_all add: get_real_def get_pointer_def step_ok_bind0 [OF rb_bytes_ok])

lemmas step_ok_rules = step_ok_if step_ok_bind0 [OF rb_bytes_ok] step_ok_bind0 [OF get_integer_ok] step_ok_bind0 [OF get_buffer_ok]
  step_ok_bind0 [OF get_real_ok(1)] step_ok_bind0 [OF get_real_ok(2)]

lemma push_atom_ok: "rb_ok rb \<Longrightarrow> step_ok rb 0 (push_atom rb type cookie)"
  unfolding push_atom_def
  by (assumption | rule step_ok_rules | simp split del: if_split)+

lemma table_size_ok: "rb_ok rb \<Longrightarrow> step_ok rb 0 (table_size rb cookie)"
  unfolding table_size_def Let_def
  by (assumption | rule step_ok_rules | simp split del: if_split)+

text \<open>Enough fuel gives a result, for each of the mutually recursive functions; the bounds differ by where in a byte they are.\<close>

lemma step_ok_obind:
  assumes "step_ok rb k r" and "0 \<le> k"
    and "\<And>x rb'. rb_ok rb' \<Longrightarrow> rb_len rb' + k \<le> rb_len rb \<Longrightarrow> \<exists>r'. g x rb' = Some r' \<and> step_ok rb' 0 r'"
  shows "\<exists>r'. res_obind (Some r) (\<lambda>(x, rb). g x rb) = Some r' \<and> step_ok rb k r'"
proof (cases r)
  case (Inl e)
  then show ?thesis
    using assms(1) by (simp add: step_ok_def no_fault_def)
next
  case (Inr y)
  obtain x rb' where y: "y = (x, rb')"
    by (cases y)
  have rb': "rb_ok rb'" "rb_len rb' + k \<le> rb_len rb"
    using assms(1) by (simp_all add: Inr y)
  obtain r' where "g x rb' = Some r'" "step_ok rb' 0 r'"
    using assms(3) [OF rb'] by blast
  then show ?thesis
    using rb'(2) by (auto simp: Inr y step_ok_def no_fault_def split: sum.splits)
qed

lemma step_ok_weaken: "step_ok rb k r \<Longrightarrow> j \<le> k \<Longrightarrow> step_ok rb j r"
  by (auto simp: step_ok_def split: sum.splits)

lemma rb_ok_len: "rb_ok rb \<Longrightarrow> 0 \<le> rb_len rb"
  by (simp add: rb_ok_def)

lemma unpack_total:
  "rb_ok rb \<Longrightarrow> 4 * nat (rb_len rb) + 1 \<le> f \<Longrightarrow> \<exists>r. unpack_one norm f rb = Some r \<and> step_ok rb 1 r"
  "rb_ok rb \<Longrightarrow> 4 * nat (rb_len rb) + 4 \<le> f \<Longrightarrow> \<exists>r. push_value norm f rb type cookie = Some r \<and> step_ok rb 0 r"
  "rb_ok rb \<Longrightarrow> 4 * nat (rb_len rb) + 3 \<le> f \<Longrightarrow> \<exists>r. unpack_array norm f rb t i n = Some r \<and> step_ok rb 0 r"
  "rb_ok rb \<Longrightarrow> 4 * nat (rb_len rb) + 2 \<le> f \<Longrightarrow> \<exists>r. unpack_hash norm f rb t = Some r \<and> step_ok rb 0 r"
proof (induction f arbitrary: rb type cookie t i n)
  case 0
  { case 1 then show ?case by simp }
  { case 2 then show ?case by simp }
  { case 3 then show ?case by simp }
  { case 4 then show ?case by simp }
next
  case (Suc f)
  { case 1
    show ?case
      unfolding unpack_one.simps
    proof (rule step_ok_obind [OF rb_bytes_ok])
      fix d :: bytes and rb' :: read_block
      assume rb': "rb_ok rb'" "rb_len rb' + 1 \<le> rb_len rb"
      have "4 * nat (rb_len rb') + 4 \<le> f"
        using 1(2) rb_ok_len [OF rb'(1)] rb'(2) by linarith
      then show "\<exists>r. push_value norm f rb' (unat (hd d) mod 8) (unat (hd d) div 8) = Some r \<and> step_ok rb' 0 r"
        by (rule Suc.IH(2) [OF rb'(1)])
    qed (use 1 in simp_all) }
  { case 2
    show ?case
    proof (cases "type = TYPE_TABLE")
      case False
      then show ?thesis
        using push_atom_ok [OF 2(1)] by simp
    next
      case True
      have "\<exists>r. res_obind (Some (table_size rb cookie)) (\<lambda>(n, rb). unpack_array norm f rb [] 1 n) = Some r \<and> step_ok rb 0 r"
      proof (rule step_ok_obind [OF table_size_ok [OF 2(1)]])
        fix n and rb' :: read_block
        assume rb': "rb_ok rb'" "rb_len rb' + 0 \<le> rb_len rb"
        have "4 * nat (rb_len rb') + 3 \<le> f"
          using 2(2) rb_ok_len [OF rb'(1)] rb'(2) by linarith
        then show "\<exists>r. unpack_array norm f rb' [] 1 n = Some r \<and> step_ok rb' 0 r"
          by (rule Suc.IH(3) [OF rb'(1)])
      qed simp
      then show ?thesis
        using True by simp
    qed }
  { case 3
    show ?case
    proof (cases "int i \<le> n")
      case False
      have "4 * nat (rb_len rb) + 2 \<le> f"
        using 3(2) by linarith
      then show ?thesis
        using False Suc.IH(4) [OF 3(1)] by simp
    next
      case True
      have "4 * nat (rb_len rb) + 1 \<le> f"
        using 3(2) by linarith
      then obtain r where r: "unpack_one norm f rb = Some r" "step_ok rb 1 r"
        using Suc.IH(1) [OF 3(1)] by blast
      have "\<exists>r'. res_obind (Some r) (\<lambda>(v, rb). unpack_array norm f rb (set_entry t (RInt (word_of_nat i)) v) (i + 1) n) = Some r' \<and>
          step_ok rb 1 r'"
      proof (rule step_ok_obind [OF r(2)])
        fix v and rb' :: read_block
        assume rb': "rb_ok rb'" "rb_len rb' + 1 \<le> rb_len rb"
        have "4 * nat (rb_len rb') + 3 \<le> f"
          using 3(2) rb_ok_len [OF rb'(1)] rb'(2) by linarith
        then show "\<exists>r'. unpack_array norm f rb' (set_entry t (RInt (word_of_nat i)) v) (i + 1) n = Some r' \<and> step_ok rb' 0 r'"
          by (rule Suc.IH(3) [OF rb'(1)])
      qed simp
      then obtain r' where "res_obind (Some r) (\<lambda>(v, rb). unpack_array norm f rb (set_entry t (RInt (word_of_nat i)) v) (i + 1) n) = Some r'"
          "step_ok rb 1 r'" by blast
      then show ?thesis
        using True step_ok_weaken [of rb 1 r' 0] by (simp add: r(1))
    qed }
  { case 4
    have "4 * nat (rb_len rb) + 1 \<le> f"
      using 4(2) by linarith
    then obtain r where r: "unpack_one norm f rb = Some r" "step_ok rb 1 r"
      using Suc.IH(1) [OF 4(1)] by blast
    let ?set = "\<lambda>k v rb. res_obind (Some (rawset norm t k v)) (\<lambda>t. unpack_hash norm f rb t)"
    let ?rest = "\<lambda>k rb. if k = RNil then Some (Inr (RTable t, rb)) else res_obind (unpack_one norm f rb) (\<lambda>(v, rb). ?set k v rb)"
    have "\<exists>r'. res_obind (Some r) (\<lambda>(k, rb). ?rest k rb) = Some r' \<and> step_ok rb 1 r'"
    proof (rule step_ok_obind [OF r(2)])
      fix k and rb' :: read_block
      assume rb': "rb_ok rb'" "rb_len rb' + 1 \<le> rb_len rb"
      have len: "4 * nat (rb_len rb') + 4 \<le> Suc f"
        using 4(2) rb_ok_len [OF rb'(1)] rb'(2) by linarith
      then have "4 * nat (rb_len rb') + 1 \<le> f"
        by linarith
      then obtain r1 where r1: "unpack_one norm f rb' = Some r1" "step_ok rb' 1 r1"
        using Suc.IH(1) [OF rb'(1)] by blast
      have "\<exists>r'. res_obind (Some r1) (\<lambda>(v, rb). ?set k v rb) = Some r' \<and> step_ok rb' 1 r'"
      proof (rule step_ok_obind [OF r1(2)])
        fix v and rb'' :: read_block
        assume rb'': "rb_ok rb''" "rb_len rb'' + 1 \<le> rb_len rb'"
        have "4 * nat (rb_len rb'') + 2 \<le> f"
          using len rb_ok_len [OF rb''(1)] rb''(2) by linarith
        then have "\<exists>r. unpack_hash norm f rb'' t' = Some r \<and> step_ok rb'' 0 r" for t'
          by (rule Suc.IH(4) [OF rb''(1)])
        then show "\<exists>r'. ?set k v rb'' = Some r' \<and> step_ok rb'' 0 r'"
          by (cases "norm k") (simp_all add: rawset_def luaL_error_def)
      qed simp
      then obtain r' where "res_obind (Some r1) (\<lambda>(v, rb). ?set k v rb) = Some r'" "step_ok rb' 1 r'"
        by blast
      then show "\<exists>r'. ?rest k rb' = Some r' \<and> step_ok rb' 0 r'"
        using step_ok_weaken [of rb' 1 r' 0] rb'(1) by (simp add: r1(1))
    qed simp
    then obtain r' where "res_obind (Some r) (\<lambda>(k, rb). ?rest k rb) = Some r'" "step_ok rb 1 r'"
      by blast
    then show ?case
      using step_ok_weaken [of rb 1 r' 0] by (simp add: r(1)) }
qed

text \<open>More fuel does not change a result.\<close>

lemma res_obind_mono:
  assumes "res_obind r g = Some y" and "\<And>z. r = Some z \<Longrightarrow> r' = Some z" and "\<And>x z. g x = Some z \<Longrightarrow> g' x = Some z"
  shows "res_obind r' g' = Some y"
proof (cases r)
  case None
  then show ?thesis using assms(1) by simp
next
  case (Some z)
  then show ?thesis
    using assms by (cases z) auto
qed

lemma unpack_mono:
  "unpack_one norm f rb = Some r \<Longrightarrow> f \<le> f' \<Longrightarrow> unpack_one norm f' rb = Some r"
  "push_value norm f rb type cookie = Some r \<Longrightarrow> f \<le> f' \<Longrightarrow> push_value norm f' rb type cookie = Some r"
  "unpack_array norm f rb t i n = Some r \<Longrightarrow> f \<le> f' \<Longrightarrow> unpack_array norm f' rb t i n = Some r"
  "unpack_hash norm f rb t = Some r \<Longrightarrow> f \<le> f' \<Longrightarrow> unpack_hash norm f' rb t = Some r"
proof (induction f arbitrary: f' rb type cookie t i n r)
  case 0
  { case 1 then show ?case by simp }
  { case 2 then show ?case by simp }
  { case 3 then show ?case by simp }
  { case 4 then show ?case by simp }
next
  case (Suc f)
  note mono1 = Suc.IH(1) and mono2 = Suc.IH(2) and mono3 = Suc.IH(3) and mono4 = Suc.IH(4)
  { case 1
    then obtain f'' where f'': "f' = Suc f''" "f \<le> f''"
      by (cases f') auto
    show ?case
      using 1(1) unfolding f''(1) unpack_one.simps
      by (elim res_obind_mono) (auto intro: mono2 f''(2))  }
  { case 2
    then obtain f'' where f'': "f' = Suc f''" "f \<le> f''"
      by (cases f') auto
    show ?case
    proof (cases "type = TYPE_TABLE")
      case False
      then show ?thesis using 2(1) f'' by simp
    next
      case True
      have "res_obind (Some (table_size rb cookie)) (\<lambda>(n, rb). unpack_array norm f rb [] 1 n) = Some r"
        using 2(1) True by simp
      then have "res_obind (Some (table_size rb cookie)) (\<lambda>(n, rb). unpack_array norm f'' rb [] 1 n) = Some r"
        by (elim res_obind_mono) (auto intro: mono3 f''(2))
      then show ?thesis
        using True f'' by simp
    qed }
  { case 3
    then obtain f'' where f'': "f' = Suc f''" "f \<le> f''"
      by (cases f') auto
    show ?case
    proof (cases "int i \<le> n")
      case False
      then show ?thesis
        using 3(1) f'' by (auto intro: mono4)
    next
      case True
      have "res_obind (unpack_one norm f rb) (\<lambda>(v, rb). unpack_array norm f rb (set_entry t (RInt (word_of_nat i)) v) (i + 1) n) = Some r"
        using 3(1) True by simp
      then have "res_obind (unpack_one norm f'' rb) (\<lambda>(v, rb). unpack_array norm f'' rb (set_entry t (RInt (word_of_nat i)) v) (i + 1) n) = Some r"
        by (elim res_obind_mono) (auto intro: mono1 mono3 f''(2))
      then show ?thesis
        using True f'' by simp
    qed }
  { case 4
    then obtain f'' where f'': "f' = Suc f''" "f \<le> f''"
      by (cases f') auto
    have set_mono: "res_obind (Some (rawset norm t k v)) (\<lambda>t. unpack_hash norm f rb t) = Some z \<Longrightarrow>
        res_obind (Some (rawset norm t k v)) (\<lambda>t. unpack_hash norm f'' rb t) = Some z" for k v rb z
      by (elim res_obind_mono) (auto intro: mono4 f''(2))
    have val_mono: "res_obind (unpack_one norm f rb) (\<lambda>(v, rb). res_obind (Some (rawset norm t k v)) (\<lambda>t. unpack_hash norm f rb t)) = Some z \<Longrightarrow>
        res_obind (unpack_one norm f'' rb) (\<lambda>(v, rb). res_obind (Some (rawset norm t k v)) (\<lambda>t. unpack_hash norm f'' rb t)) = Some z" for k rb z
      by (elim res_obind_mono) (auto intro: mono1 set_mono f''(2))
    show ?case
      using 4(1) unfolding f''(1) unpack_hash.simps
      by (elim res_obind_mono) (auto intro: mono1 val_mono f''(2) split: if_splits) }
qed

lemma unpack_all_mono:
  "unpack_all norm f rb vs = Some r \<Longrightarrow> f \<le> f' \<Longrightarrow> unpack_all norm f' rb vs = Some r"
proof (induction f arbitrary: f' rb vs r)
  case 0
  then show ?case by simp
next
  case (Suc f)
  then obtain f'' where f'': "f' = Suc f''" "f \<le> f''"
    by (cases f') auto
  show ?case
  proof (cases "rb_read rb 1")
    case None
    then show ?thesis
      using Suc.prems(1) f'' by simp
  next
    case (Some y)
    have "res_obind (unpack_one norm f rb) (\<lambda>(v, rb). unpack_all norm f rb (vs @ [v])) = Some r"
      using Suc.prems(1) Some by simp
    then have "res_obind (unpack_one norm f'' rb) (\<lambda>(v, rb). unpack_all norm f'' rb (vs @ [v])) = Some r"
      by (elim res_obind_mono) (auto intro: Suc.IH unpack_mono(1) f''(2))
    then show ?thesis
      using Some f'' by simp
  qed
qed

lemma unpack_all_total:
  "rb_ok rb \<Longrightarrow> 4 * nat (rb_len rb) + 2 \<le> f \<Longrightarrow> \<exists>r. unpack_all norm f rb vs = Some r \<and> no_fault r"
proof (induction f arbitrary: rb vs)
  case 0
  then show ?case by simp
next
  case (Suc f)
  show ?case
  proof (cases "rb_read rb 1")
    case None
    then show ?thesis by simp
  next
    case (Some y)
    have "4 * nat (rb_len rb) + 1 \<le> f"
      using Suc.prems(2) by linarith
    then obtain r where r: "unpack_one norm f rb = Some r" "step_ok rb 1 r"
      using unpack_total(1) [OF Suc.prems(1)] by blast
    have "\<exists>r'. res_obind (Some r) (\<lambda>(v, rb). unpack_all norm f rb (vs @ [v])) = Some r' \<and> no_fault r'"
    proof (cases r)
      case (Inl e)
      then show ?thesis
        using r(2) by (simp add: step_ok_def no_fault_def)
    next
      case (Inr y)
      obtain v rb' where y: "y = (v, rb')"
        by (cases y)
      have rb': "rb_ok rb'" "rb_len rb' + 1 \<le> rb_len rb"
        using r(2) by (simp_all add: Inr y)
      have "4 * nat (rb_len rb') + 2 \<le> f"
        using Suc.prems(2) rb_ok_len [OF rb'(1)] rb'(2) by linarith
      then show ?thesis
        using Suc.IH [OF rb'(1)] by (simp add: Inr y)
    qed
    then show ?thesis
      by (simp add: Some r(1))
  qed
qed

text \<open>C15: any bytes can be unpacked, also malformed or malicious ones. When the buffer has the announced size,
  \<open>luaseri_unpack\<close> ends (its recursion and its loops run at most four steps per byte, so a bound on the fuel exists
  and more does not change the result) and answers values or a Lua error; it never reads outside the buffer.\<close>

theorem luaseri_unpack_total:
  assumes "len \<le> int (length bs)"
  shows "\<exists>r. (\<forall>fuel \<ge> 4 * nat len + 2. luaseri_unpack norm fuel (Some bs) len = Some r) \<and> (\<forall>e. r \<noteq> Inl (C_Fault e))"
proof (cases "len \<le> 0")
  case True
  have "luaseri_unpack norm fuel (Some bs) len = Some (Inr [])" if "2 \<le> fuel" for fuel
    using that True by (cases fuel) (auto simp: luaseri_unpack_def rball_init_def rb_read_def)
  then show ?thesis by auto
next
  case False
  let ?rb = "rball_init bs len"
  have "rb_ok ?rb"
    using assms False by (simp add: rball_init_def rb_ok_def)
  then obtain r where r: "unpack_all norm (4 * nat len + 2) ?rb [] = Some r" "no_fault r"
    using unpack_all_total [of ?rb "4 * nat len + 2" norm "[]"] by (auto simp: rball_init_def)
  have "luaseri_unpack norm fuel (Some bs) len = Some r" if "4 * nat len + 2 \<le> fuel" for fuel
    using unpack_all_mono [OF r(1) that] False by (simp add: luaseri_unpack_def)
  then show ?thesis
    using r(2) by (auto simp: no_fault_def)
qed

theorem luaseri_unpack_total_witness:
  "\<exists>r. (\<forall>fuel \<ge> 22. luaseri_unpack Some fuel (Some [0x36, 0xff, 0xff, 0xff, 0xff]) 5 = Some r) \<and> (\<forall>e. r \<noteq> Inl (C_Fault e))"
  using luaseri_unpack_total [of 5 "[0x36, 0xff, 0xff, 0xff, 0xff]" Some] by simp

section \<open>The chain of blocks\<close>

text \<open>The chain holds \<open>bs\<close>: all blocks are of the full size, and the bytes written are at its front.\<close>

definition wb_repr :: "write_block \<Rightarrow> bytes \<Rightarrow> bool" where
  "wb_repr b bs \<longleftrightarrow> wb_blocks b \<noteq> [] \<and> (\<forall>blk \<in> set (wb_blocks b). length blk = BLOCK_SIZE) \<and> wb_ptr b \<le> BLOCK_SIZE \<and>
     wb_len b = length bs \<and> length bs = length (concat (butlast (wb_blocks b))) + wb_ptr b \<and>
     concat (butlast (wb_blocks b)) @ take (wb_ptr b) (last (wb_blocks b)) = map Some bs"

lemma wb_init_repr: "wb_repr wb_init []"
  by (simp add: wb_repr_def wb_init_def blk_alloc_def malloc_buf_def)

lemma wb_store_repr:
  assumes "wb_repr b bs" and "wb_ptr b + length d \<le> BLOCK_SIZE"
  shows "\<exists>b'. wb_store b d = Inr b' \<and> wb_repr b' (bs @ d) \<and> wb_ptr b' = wb_ptr b + length d"
proof -
  let ?last = "last (wb_blocks b)"
  let ?blk = "take (wb_ptr b) ?last @ map Some d @ drop (wb_ptr b + length d) ?last"
  have ne: "wb_blocks b \<noteq> []" and blocks: "\<forall>blk \<in> set (wb_blocks b). length blk = BLOCK_SIZE" and
    len: "length ?last = BLOCK_SIZE"
    using assms(1) by (auto simp: wb_repr_def)
  have "wb_store b d = Inr (b\<lparr>wb_blocks := butlast (wb_blocks b) @ [?blk], wb_ptr := wb_ptr b + length d, wb_len := wb_len b + length d\<rparr>)"
    using assms(2) len ne by (simp add: wb_store_def memcpy_at_def)
  moreover have "\<forall>blk \<in> set (butlast (wb_blocks b)). length blk = BLOCK_SIZE"
    using blocks in_set_butlastD by fastforce
  ultimately show ?thesis
    using assms len ne by (simp add: wb_repr_def)
qed

lemma wb_next_repr: "wb_repr b bs \<Longrightarrow> wb_ptr b = BLOCK_SIZE \<Longrightarrow> wb_repr (wb_next b) bs \<and> wb_ptr (wb_next b) = 0"
proof -
  assume repr: "wb_repr b bs" and full: "wb_ptr b = BLOCK_SIZE"
  have "concat (wb_blocks b) = concat (butlast (wb_blocks b)) @ last (wb_blocks b)"
    using repr append_butlast_last_id [of "wb_blocks b"]
    by (metis concat_append concat.simps(1) concat.simps(2) append_Nil2 wb_repr_def)
  then show ?thesis
    using repr full by (auto simp: wb_repr_def wb_next_def blk_alloc_def malloc_buf_def)
qed

lemma wb_copy_repr:
  "wb_repr b bs \<Longrightarrow> wb_ptr b < BLOCK_SIZE \<or> d = [] \<Longrightarrow> \<exists>b'. wb_copy b d = Inr b' \<and> wb_repr b' (bs @ d)"
proof (induction "length d" arbitrary: b bs d rule: less_induct)
  case less
  show ?case
  proof (cases "wb_ptr b + length d \<le> BLOCK_SIZE")
    case True
    then show ?thesis
      using wb_store_repr [OF less.prems(1) True] by (auto simp: wb_copy.simps)
  next
    case False
    let ?c = "BLOCK_SIZE - wb_ptr b"
    have ptr: "wb_ptr b < BLOCK_SIZE"
      using less.prems False by (auto simp: wb_repr_def)
    then have "length (take ?c d) = ?c"
      using False by simp
    then obtain b1 where b1: "wb_store b (take ?c d) = Inr b1" "wb_repr b1 (bs @ take ?c d)" "wb_ptr b1 = BLOCK_SIZE"
      using wb_store_repr [OF less.prems(1), of "take ?c d"] ptr by auto
    have shorter: "length (drop ?c d) < length d"
      using ptr False by simp
    note next_repr = wb_next_repr [OF b1(2,3)]
    have "wb_ptr (wb_next b1) < BLOCK_SIZE \<or> drop ?c d = []"
      using next_repr by (simp add: BLOCK_SIZE_def)
    then obtain b2 where "wb_copy (wb_next b1) (drop ?c d) = Inr b2" "wb_repr b2 ((bs @ take ?c d) @ drop ?c d)"
      using less.hyps [OF shorter, of "wb_next b1" "bs @ take ?c d"] next_repr by blast
    then show ?thesis
      using False b1(1) by (simp add: wb_copy.simps [of b d])
  qed
qed

lemma wb_push_repr:
  assumes "wb_repr b bs"
  shows "\<exists>b'. wb_push b d = Inr b' \<and> wb_repr b' (bs @ d)"
proof (cases "wb_ptr b = BLOCK_SIZE")
  case True
  note next_repr = wb_next_repr [OF assms True]
  then show ?thesis
    using wb_copy_repr [of "wb_next b" bs d] True by (simp add: wb_push_def BLOCK_SIZE_def)
next
  case False
  then have "wb_ptr b < BLOCK_SIZE"
    using assms by (simp add: wb_repr_def)
  then show ?thesis
    using wb_copy_repr [OF assms, of d] False by (simp add: wb_push_def)
qed

lemma wb_pushes_repr: "wb_repr b bs \<Longrightarrow> \<exists>b'. wb_pushes b ds = Inr b' \<and> wb_repr b' (bs @ concat ds)"
proof -
  assume repr: "wb_repr b bs"
  have "\<exists>b'. foldl (\<lambda>r d. res_bind r (\<lambda>b. wb_push b d)) (Inr b) ds = Inr b' \<and> wb_repr b' (bs @ concat ds)"
    using repr
  proof (induction ds arbitrary: b bs)
    case Nil
    then show ?case by simp
  next
    case (Cons d ds)
    obtain b1 where b1: "wb_push b d = Inr b1" "wb_repr b1 (bs @ d)"
      using wb_push_repr [OF Cons.prems] by blast
    show ?case
      using Cons.IH [OF b1(2)] b1(1) by simp
  qed
  then show ?thesis
    by (auto simp: wb_pushes_def lift_fault_def)
qed

lemma seri_take:
  "\<forall>blk \<in> set bs. length blk = BLOCK_SIZE \<Longrightarrow> len \<le> length (concat bs) \<Longrightarrow> seri bs len = Inr (take len (concat bs))"
proof (induction bs arbitrary: len)
  case Nil
  then show ?case by simp
next
  case (Cons b bs)
  have b: "length b = BLOCK_SIZE" and bs: "\<forall>blk \<in> set bs. length blk = BLOCK_SIZE"
    using Cons.prems(1) by simp_all
  have "seri bs (len - BLOCK_SIZE) = Inr (take (len - BLOCK_SIZE) (concat bs))"
    using Cons.prems(2) b by (intro Cons.IH [OF bs]) simp
  then show ?case
    using b by simp
qed

lemma seri_repr:
  assumes "wb_repr b bs"
  shows "seri (wb_blocks b) (wb_len b) = Inr (map Some bs)"
proof -
  have blocks: "\<forall>blk \<in> set (wb_blocks b). length blk = BLOCK_SIZE" "wb_blocks b \<noteq> []"
    using assms by (simp_all add: wb_repr_def)
  have split: "concat (wb_blocks b) = concat (butlast (wb_blocks b)) @ last (wb_blocks b)"
    using append_butlast_last_id [OF blocks(2)] by (metis concat_append concat.simps(1) concat.simps(2) append_Nil2)
  have "length (last (wb_blocks b)) = BLOCK_SIZE"
    using blocks by simp
  then have "take (wb_len b) (concat (wb_blocks b)) = map Some bs" and "wb_len b \<le> length (concat (wb_blocks b))"
    using assms unfolding split by (simp_all add: wb_repr_def)
  then show ?thesis
    using seri_take [OF blocks(1)] by simp
qed

section \<open>What is read back\<close>

text \<open>The reader in the middle of a buffer: \<open>l\<close> is read, \<open>r\<close> is ahead.\<close>

definition rb_at :: "bytes \<Rightarrow> bytes \<Rightarrow> read_block" where
  "rb_at l r = \<lparr>rb_buffer = l @ r, rb_len = int (length r), rb_ptr = int (length l)\<rparr>"

lemma rb_bytes_at: "rb_bytes (rb_at l (d @ r)) (int (length d)) = Inr (d, rb_at (l @ d) r)"
  by (simp add: rb_bytes_def rb_read_def rb_at_def mem_read_def lift_fault_def nat_add_distrib)

lemma rb_bytes_at_1: "rb_bytes (rb_at l (d # r)) 1 = Inr ([d], rb_at (l @ [d]) r)"
  using rb_bytes_at [of l "[d]" r] by simp

lemma rb_bytes_at': "sz = int (length d) \<Longrightarrow> rb_bytes (rb_at l (d @ r)) sz = Inr (d, rb_at (l @ d) r)"
  using rb_bytes_at by simp

text \<open>\<open>e\<close> is an encoding of \<open>x\<close>: wherever it stands, it is read as \<open>x\<close>, and nothing after it.\<close>

definition reads :: "(read_value \<Rightarrow> read_value option) \<Rightarrow> bytes \<Rightarrow> read_value \<Rightarrow> bool" where
  "reads norm e x \<longleftrightarrow> e \<noteq> [] \<and> (\<forall>l r f. 4 * length e + 1 \<le> f \<longrightarrow> unpack_one norm f (rb_at l (e @ r)) = Some (Inr (x, rb_at (l @ e) r)))"

lemma unat_COMBINE_TYPE:
  assumes "t < 8" "c < 32"
  shows "unat (COMBINE_TYPE t c) = t + 8 * c"
proof -
  have "unat (push_bit 3 (word_of_nat c) :: byte) = 8 * c"
    using assms(2) by (simp add: push_bit_eq_mult unat_word_ariths(2) unsigned_of_nat take_bit_nat_eq_self)
  then have "unat (COMBINE_TYPE t c) = t OR (8 * c)"
    using assms(1) by (simp add: COMBINE_TYPE_def unsigned_or_eq unsigned_of_nat take_bit_nat_eq_self)
  moreover have "t AND (8 * c) = 0"
  proof (rule bit_eqI)
    fix n
    have "\<not> bit t n" if "3 \<le> n"
    proof -
      have "(8::nat) \<le> 2 ^ n"
        using power_increasing [OF that, of "2::nat"] by simp
      then show ?thesis
        using assms(1) by (simp add: bit_iff_odd)
    qed
    moreover have "\<not> bit (8 * c) n" if "n < 3"
      using that bit_push_bit_iff [of 3 c n] by (simp add: push_bit_eq_mult mult.commute)
    ultimately show "bit (t AND (8 * c)) n = bit 0 n"
      by (cases "n < 3") (auto simp: bit_and_iff)
  qed
  ultimately show ?thesis
    using disjunctive_add_eq_or [of t "8 * c"] by simp
qed

lemma unpack_one_at:
  assumes "t < 8" "c < 32"
  shows "unpack_one norm (Suc f) (rb_at l (COMBINE_TYPE t c # r)) = push_value norm f (rb_at (l @ [COMBINE_TYPE t c]) r) t c"
  using rb_bytes_at [of l "[COMBINE_TYPE t c]" r] assms by (simp add: unat_COMBINE_TYPE)

lemma reads_atom:
  assumes "t < 8" "c < 32" "t \<noteq> TYPE_TABLE" and "\<And>l r. push_atom (rb_at l (p @ r)) t c = Inr (x, rb_at (l @ p) r)"
  shows "reads norm (COMBINE_TYPE t c # p) x"
  unfolding reads_def
proof (intro conjI allI impI)
  fix l r :: bytes and f
  assume "4 * length (COMBINE_TYPE t c # p) + 1 \<le> f"
  then obtain f' where f: "f = Suc (Suc f')"
    by (cases f; cases "f - 1") auto
  show "unpack_one norm f (rb_at l ((COMBINE_TYPE t c # p) @ r)) = Some (Inr (x, rb_at (l @ COMBINE_TYPE t c # p) r))"
    using assms(3) by (simp add: f unpack_one_at [OF assms(1,2)] assms(4) del: unpack_one.simps)
qed simp

lemmas seri_types = TYPE_NIL_def TYPE_BOOLEAN_def TYPE_NUMBER_def TYPE_USERDATA_def TYPE_SHORT_STRING_def TYPE_LONG_STRING_def TYPE_TABLE_def
  NUMBER_ZERO_def NUMBER_BYTE_def NUMBER_WORD_def NUMBER_DWORD_def NUMBER_QWORD_def NUMBER_REAL_def MAX_COOKIE_def

lemma TYPE_NIL_COMBINE: "(word_of_nat TYPE_NIL :: byte) = COMBINE_TYPE TYPE_NIL 0"
  "(word_of_nat TYPE_USERDATA :: byte) = COMBINE_TYPE TYPE_USERDATA 0"
  by (simp_all add: COMBINE_TYPE_def)

lemma reads_nil: "reads norm [COMBINE_TYPE TYPE_NIL 0] RNil"
  by (rule reads_atom) (simp_all add: push_atom_def seri_types)

lemma reads_boolean: "reads norm [COMBINE_TYPE TYPE_BOOLEAN (if v then 1 else 0)] (RBool v)"
  by (rule reads_atom) (simp_all add: push_atom_def seri_types)

lemma reads_pointer: "reads norm (COMBINE_TYPE TYPE_USERDATA 0 # le_bytes 8 v) (RPointer v)"
  by (rule reads_atom) (simp_all add: push_atom_def get_pointer_def seri_types rb_bytes_at')

lemma reads_real: "reads norm (COMBINE_TYPE TYPE_NUMBER NUMBER_REAL # le_bytes 8 v) (RReal v)"
  by (rule reads_atom) (simp_all add: push_atom_def get_real_def seri_types rb_bytes_at')

text \<open>\<open>w\<close> writes the bytes \<open>e\<close>.\<close>

definition writes :: "(write_block \<Rightarrow> write_block lua) \<Rightarrow> bytes \<Rightarrow> bool" where
  "writes w e \<longleftrightarrow> (\<forall>b bs. wb_repr b bs \<longrightarrow> (\<exists>b'. w b = Inr b' \<and> wb_repr b' (bs @ e)))"

lemma writes_pushes: "e = concat ds \<Longrightarrow> writes (\<lambda>b. wb_pushes b ds) e"
  using wb_pushes_repr by (auto simp: writes_def)

lemma writes_return: "writes Inr []"
  by (simp add: writes_def)

lemma writes_bind:
  assumes "writes w e" and "writes w' e'"
  shows "writes (\<lambda>b. res_bind (w b) w') (e @ e')"
  unfolding writes_def
proof (intro allI impI)
  fix b bs
  assume "wb_repr b bs"
  then obtain b1 where b1: "w b = Inr b1" "wb_repr b1 (bs @ e)"
    using assms(1) unfolding writes_def by blast
  then obtain b2 where "w' b1 = Inr b2" "wb_repr b2 ((bs @ e) @ e')"
    using assms(2) unfolding writes_def by blast
  then show "\<exists>b'. res_bind (w b) w' = Inr b' \<and> wb_repr b' (bs @ e @ e')"
    using b1(1) by simp
qed

lemma u32_of_small:
  fixes v :: u64
  assumes "sint v = sint (ucast v :: u32)"
  shows "scast (ucast v :: u32) = v"
  unfolding scast_eq by (simp only: assms [symmetric] of_int_sint scast_id)

lemma nonneg_word:
  fixes v :: u64
  assumes "0 \<le> sint v" "sint v < 2 ^ k"
  obtains n where "v = word_of_nat n" "n < 2 ^ k"
proof (rule that)
  have "v = word_of_int (int (nat (sint v)))"
    using assms(1) by simp
  then show "v = word_of_nat (nat (sint v))"
    by (simp only: of_int_of_nat_eq)
  show "nat (sint v) < 2 ^ k"
    using assms by (simp add: nat_less_iff)
qed

text \<open>An integer takes the shortest of its forms, and each is read back.\<close>

lemma wb_integer_reads:
  "\<exists>c p. c < 32 \<and> c \<noteq> NUMBER_REAL \<and> writes (\<lambda>b. wb_integer b v) (COMBINE_TYPE TYPE_NUMBER c # p) \<and>
     (\<forall>l r. get_integer (rb_at l (p @ r)) c = Inr (v, rb_at (l @ p) r))" (is "\<exists>c p. ?P c p")
proof -
  have pushed: "writes (\<lambda>b. wb_pushes b [[COMBINE_TYPE TYPE_NUMBER c], p]) (COMBINE_TYPE TYPE_NUMBER c # p)" for c p
    by (rule writes_pushes) simp
  consider (zero) "v = 0" | (qword) "v \<noteq> 0" "sint v \<noteq> sint (ucast v :: u32)"
    | (neg) "v \<noteq> 0" "sint v = sint (ucast v :: u32)" "sint v < 0"
    | (byte) "v \<noteq> 0" "sint v = sint (ucast v :: u32)" "0 \<le> sint v" "sint v < 0x100"
    | (word) "v \<noteq> 0" "sint v = sint (ucast v :: u32)" "0x100 \<le> sint v" "sint v < 0x10000"
    | (dword) "v \<noteq> 0" "sint v = sint (ucast v :: u32)" "0x10000 \<le> sint v"
    by linarith
  then show ?thesis
  proof cases
    case zero
    have "writes (\<lambda>b. wb_pushes b [[COMBINE_TYPE TYPE_NUMBER NUMBER_ZERO]]) [COMBINE_TYPE TYPE_NUMBER NUMBER_ZERO]"
      by (rule writes_pushes) simp
    then have "?P NUMBER_ZERO []"
      using zero by (simp add: wb_integer_def get_integer_def seri_types)
    then show ?thesis by blast
  next
    case qword
    then have "?P NUMBER_QWORD (le_bytes 8 v)"
      using pushed [of NUMBER_QWORD "le_bytes 8 v"] by (simp add: wb_integer_def get_integer_def seri_types rb_bytes_at')
    then show ?thesis by blast
  next
    case neg
    then have "?P NUMBER_DWORD (le_bytes 4 (ucast v :: u32))"
      using pushed [of NUMBER_DWORD "le_bytes 4 (ucast v :: u32)"] u32_of_small [OF neg(2)]
      by (simp add: wb_integer_def get_integer_def seri_types rb_bytes_at')
    then show ?thesis by blast
  next
    case byte
    obtain n where "v = word_of_nat n" "n < 2 ^ 8"
      using nonneg_word [of v 8] byte by auto
    then have "ucast (ucast v :: byte) = v"
      by (simp add: unsigned_of_nat take_bit_nat_eq_self)
    then have "?P NUMBER_BYTE [ucast v]"
      using pushed [of NUMBER_BYTE "[ucast v]"] byte
      by (simp add: wb_integer_def get_integer_def seri_types rb_bytes_at_1)
    then show ?thesis by blast
  next
    case word
    obtain n where "v = word_of_nat n" "n < 2 ^ 16"
      using nonneg_word [of v 16] word by auto
    then have "ucast (ucast v :: u16) = v"
      by (simp add: unsigned_of_nat take_bit_nat_eq_self)
    then have "?P NUMBER_WORD (le_bytes 2 (ucast v :: u16))"
      using pushed [of NUMBER_WORD "le_bytes 2 (ucast v :: u16)"] word
      by (simp add: wb_integer_def get_integer_def seri_types rb_bytes_at')
    then show ?thesis by blast
  next
    case dword
    then have "?P NUMBER_DWORD (le_bytes 4 (ucast v :: u32))"
      using pushed [of NUMBER_DWORD "le_bytes 4 (ucast v :: u32)"] u32_of_small [OF dword(2)]
      by (simp add: wb_integer_def get_integer_def seri_types rb_bytes_at')
    then show ?thesis by blast
  qed
qed

lemma wb_integer_encodes: "\<exists>e. writes (\<lambda>b. wb_integer b v) e \<and> reads norm e (RInt v)"
proof -
  obtain c p where c: "c < 32" "c \<noteq> NUMBER_REAL" "writes (\<lambda>b. wb_integer b v) (COMBINE_TYPE TYPE_NUMBER c # p)"
      "\<forall>l r. get_integer (rb_at l (p @ r)) c = Inr (v, rb_at (l @ p) r)"
    using wb_integer_reads by blast
  have "reads norm (COMBINE_TYPE TYPE_NUMBER c # p) (RInt v)"
    using c(2,4) by (intro reads_atom c(1)) (simp_all add: push_atom_def seri_types)
  then show ?thesis
    using c(3) by blast
qed

lemma get_buffer_at: "n = int (length s) \<Longrightarrow> get_buffer (rb_at l (s @ r)) n = Inr (s, rb_at (l @ s) r)"
  by (simp add: get_buffer_def rb_bytes_at)

lemma wb_string_encodes:
  assumes "length s < 2 ^ 31"
  shows "\<exists>e. writes (\<lambda>b. wb_string b s) e \<and> reads norm e (RString s)"
proof -
  consider (short) "length s < MAX_COOKIE" | (word) "MAX_COOKIE \<le> length s" "length s < 0x10000" | (dword) "0x10000 \<le> length s"
    by linarith
  then show ?thesis
  proof cases
    case short
    have "writes (\<lambda>b. wb_pushes b ([COMBINE_TYPE TYPE_SHORT_STRING (length s)] # (if length s > 0 then [s] else [])))
        (COMBINE_TYPE TYPE_SHORT_STRING (length s) # s)"
      by (rule writes_pushes) simp
    then have "writes (\<lambda>b. wb_string b s) (COMBINE_TYPE TYPE_SHORT_STRING (length s) # s)"
      using assms short by (simp add: wb_string_def)
    moreover have "reads norm (COMBINE_TYPE TYPE_SHORT_STRING (length s) # s) (RString s)"
      using short by (intro reads_atom) (simp_all add: push_atom_def seri_types get_buffer_at)
    ultimately show ?thesis by blast
  next
    case word
    let ?n = "word_of_nat (length s) :: u16"
    let ?e = "COMBINE_TYPE TYPE_LONG_STRING 2 # le_bytes 2 ?n @ s"
    have n: "uint ?n = int (length s)"
      using word(2) by (simp add: unsigned_of_nat take_bit_nat_eq_self)
    have "writes (\<lambda>b. wb_pushes b [[COMBINE_TYPE TYPE_LONG_STRING 2], le_bytes 2 ?n, s]) ?e"
      by (rule writes_pushes) simp
    then have "writes (\<lambda>b. wb_string b s) ?e"
      using assms word by (simp add: wb_string_def)
    moreover have "reads norm ?e (RString s)"
      using n by (intro reads_atom) (simp_all add: push_atom_def seri_types get_buffer_at rb_bytes_at')
    ultimately show ?thesis by blast
  next
    case dword
    let ?n = "word_of_nat (length s) :: u32"
    let ?e = "COMBINE_TYPE TYPE_LONG_STRING 4 # le_bytes 4 ?n @ s"
    have n: "sint ?n = int (length s)"
      using assms by (simp add: signed_of_nat signed_take_bit_int_eq_self)
    have "writes (\<lambda>b. wb_pushes b [[COMBINE_TYPE TYPE_LONG_STRING 4], le_bytes 4 ?n, s]) ?e"
      by (rule writes_pushes) simp
    then have "writes (\<lambda>b. wb_string b s) ?e"
      using assms dword by (simp add: wb_string_def MAX_COOKIE_def)
    moreover have "reads norm ?e (RString s)"
      using n by (intro reads_atom) (simp_all add: push_atom_def seri_types get_buffer_at rb_bytes_at')
    ultimately show ?thesis by blast
  qed
qed

text \<open>Tables: the bytes \<open>e\<close> of the pairs turn the table \<open>t\<close> into \<open>t'\<close>; those of the elements from \<open>i\<close> to \<open>n\<close> and of all
  pairs give the table \<open>t'\<close>.\<close>

definition reads_hash :: "(read_value \<Rightarrow> read_value option) \<Rightarrow> bytes \<Rightarrow> (read_value \<times> read_value) list \<Rightarrow> (read_value \<times> read_value) list \<Rightarrow> bool" where
  "reads_hash norm e t t' \<longleftrightarrow> (\<forall>l r f. 4 * length e + 2 \<le> f \<longrightarrow>
     unpack_hash norm f (rb_at l (e @ r)) t = Some (Inr (RTable t', rb_at (l @ e) r)))"

definition reads_array :: "(read_value \<Rightarrow> read_value option) \<Rightarrow> bytes \<Rightarrow> (read_value \<times> read_value) list \<Rightarrow> nat \<Rightarrow> int \<Rightarrow>
    (read_value \<times> read_value) list \<Rightarrow> bool" where
  "reads_array norm e t i n t' \<longleftrightarrow> (\<forall>l r f. 4 * length e + 3 \<le> f \<longrightarrow>
     unpack_array norm f (rb_at l (e @ r)) t i n = Some (Inr (RTable t', rb_at (l @ e) r)))"

lemma readsD: "reads norm e x \<Longrightarrow> 4 * length e + 1 \<le> f \<Longrightarrow> unpack_one norm f (rb_at l (e @ r)) = Some (Inr (x, rb_at (l @ e) r))"
  by (simp add: reads_def)

lemma reads_length: "reads norm e x \<Longrightarrow> 1 \<le> length e"
  by (cases e) (auto simp: reads_def)

lemma reads_hash_end: "reads_hash norm [COMBINE_TYPE TYPE_NIL 0] t t"
  unfolding reads_hash_def
proof (intro allI impI)
  fix l r :: bytes and f
  assume f: "4 * length [COMBINE_TYPE TYPE_NIL 0] + 2 \<le> f"
  then obtain f' where f': "f = Suc f'"
    by (cases f) auto
  have "unpack_one norm f' (rb_at l ([COMBINE_TYPE TYPE_NIL 0] @ r)) = Some (Inr (RNil, rb_at (l @ [COMBINE_TYPE TYPE_NIL 0]) r))"
    using f f' by (intro readsD [OF reads_nil]) simp
  then show "unpack_hash norm f (rb_at l ([COMBINE_TYPE TYPE_NIL 0] @ r)) t =
      Some (Inr (RTable t, rb_at (l @ [COMBINE_TYPE TYPE_NIL 0]) r))"
    by (simp add: f')
qed

lemma reads_hash_pair:
  assumes k: "reads norm ek k" and v: "reads norm ev v" and key: "k \<noteq> RNil" "norm k = Some k" and "reads_hash norm e (set_entry t k v) t'"
  shows "reads_hash norm (ek @ ev @ e) t t'"
  unfolding reads_hash_def
proof (intro allI impI)
  fix l r :: bytes and f
  assume f: "4 * length (ek @ ev @ e) + 2 \<le> f"
  then obtain f' where f': "f = Suc f'"
    by (cases f) auto
  have "unpack_one norm f' (rb_at l (ek @ ev @ e @ r)) = Some (Inr (k, rb_at (l @ ek) (ev @ e @ r)))"
    using f f' by (intro readsD [OF k]) simp
  moreover have "unpack_one norm f' (rb_at (l @ ek) (ev @ e @ r)) = Some (Inr (v, rb_at ((l @ ek) @ ev) (e @ r)))"
    using f f' by (intro readsD [OF v]) simp
  moreover have "unpack_hash norm f' (rb_at ((l @ ek) @ ev) (e @ r)) (set_entry t k v) = Some (Inr (RTable t', rb_at (((l @ ek) @ ev) @ e) r))"
    using assms(5) f f' reads_length [OF k] unfolding reads_hash_def by simp
  ultimately show "unpack_hash norm f (rb_at l ((ek @ ev @ e) @ r)) t = Some (Inr (RTable t', rb_at (l @ ek @ ev @ e) r))"
    using key by (simp add: f' rawset_def)
qed

lemma reads_array_end: "n < int i \<Longrightarrow> reads_hash norm e t t' \<Longrightarrow> reads_array norm e t i n t'"
  unfolding reads_array_def
proof (intro allI impI)
  fix l r :: bytes and f
  assume n: "n < int i" and e: "reads_hash norm e t t'" and f: "4 * length e + 3 \<le> f"
  then obtain f' where f': "f = Suc f'"
    by (cases f) auto
  have "unpack_hash norm f' (rb_at l (e @ r)) t = Some (Inr (RTable t', rb_at (l @ e) r))"
    using e f f' unfolding reads_hash_def by simp
  then show "unpack_array norm f (rb_at l (e @ r)) t i n = Some (Inr (RTable t', rb_at (l @ e) r))"
    using n by (simp add: f')
qed

lemma reads_array_next:
  assumes v: "reads norm ev v" and "int i \<le> n" and e: "reads_array norm e (set_entry t (RInt (word_of_nat i)) v) (i + 1) n t'"
  shows "reads_array norm (ev @ e) t i n t'"
  unfolding reads_array_def
proof (intro allI impI)
  fix l r :: bytes and f
  assume f: "4 * length (ev @ e) + 3 \<le> f"
  then obtain f' where f': "f = Suc f'"
    by (cases f) auto
  have "unpack_one norm f' (rb_at l (ev @ e @ r)) = Some (Inr (v, rb_at (l @ ev) (e @ r)))"
    using f f' by (intro readsD [OF v]) simp
  moreover have "unpack_array norm f' (rb_at (l @ ev) (e @ r)) (set_entry t (RInt (word_of_nat i)) v) (i + 1) n =
      Some (Inr (RTable t', rb_at ((l @ ev) @ e) r))"
    using e f f' reads_length [OF v] unfolding reads_array_def by simp
  ultimately show "unpack_array norm f (rb_at l ((ev @ e) @ r)) t i n = Some (Inr (RTable t', rb_at (l @ ev @ e) r))"
    using assms(2) by (simp add: f')
qed

lemma reads_table:
  assumes c: "c < 32" and head: "\<And>l r. table_size (rb_at l (p @ r)) c = Inr (n, rb_at (l @ p) r)" and e: "reads_array norm e [] 1 n t"
  shows "reads norm (COMBINE_TYPE TYPE_TABLE c # p @ e) (RTable t)"
  unfolding reads_def
proof (intro conjI allI impI)
  fix l r :: bytes and f
  let ?h = "COMBINE_TYPE TYPE_TABLE c"
  assume f: "4 * length (?h # p @ e) + 1 \<le> f"
  then obtain f' where f': "f = Suc (Suc f')"
    by (cases f; cases "f - 1") auto
  have "unpack_array norm f' (rb_at ((l @ [?h]) @ p) (e @ r)) [] 1 n = Some (Inr (RTable t, rb_at (((l @ [?h]) @ p) @ e) r))"
    using e f f' unfolding reads_array_def by simp
  then show "unpack_one norm f (rb_at l ((?h # p @ e) @ r)) = Some (Inr (RTable t, rb_at (l @ ?h # p @ e) r))"
    using head [of "l @ [?h]" "e @ r"] c by (simp add: f' unpack_one_at TYPE_TABLE_def del: unpack_one.simps)
qed simp

text \<open>The header of a table of \<open>n\<close> array elements.\<close>

lemma wb_array_size_head:
  assumes "n < 2 ^ 31"
  shows "\<exists>c p. c < 32 \<and> writes (\<lambda>b. wb_array_size b n) (COMBINE_TYPE TYPE_TABLE c # p) \<and>
    (\<forall>l r. table_size (rb_at l (p @ r)) c = Inr (int n, rb_at (l @ p) r))"
proof (cases "n \<ge> MAX_COOKIE - 1")
  case False
  have "writes (\<lambda>b. wb_pushes b [[COMBINE_TYPE TYPE_TABLE n]]) (COMBINE_TYPE TYPE_TABLE n # [])"
    by (rule writes_pushes) simp
  then have "n < 32 \<and> writes (\<lambda>b. wb_array_size b n) (COMBINE_TYPE TYPE_TABLE n # []) \<and>
      (\<forall>l r. table_size (rb_at l ([] @ r)) n = Inr (int n, rb_at (l @ []) r))"
    using False by (simp add: wb_array_size_def table_size_def MAX_COOKIE_def)
  then show ?thesis by blast
next
  case True
  obtain c p where c: "c < 32" "c \<noteq> NUMBER_REAL" "writes (\<lambda>b. wb_integer b (word_of_nat n)) (COMBINE_TYPE TYPE_NUMBER c # p)"
      "\<forall>l r. get_integer (rb_at l (p @ r)) c = Inr (word_of_nat n, rb_at (l @ p) r)"
    using wb_integer_reads by blast
  have "writes (\<lambda>b. wb_pushes b [[COMBINE_TYPE TYPE_TABLE (MAX_COOKIE - 1)]]) [COMBINE_TYPE TYPE_TABLE (MAX_COOKIE - 1)]"
    by (rule writes_pushes) simp
  then have "writes (\<lambda>b. wb_array_size b n) ([COMBINE_TYPE TYPE_TABLE (MAX_COOKIE - 1)] @ COMBINE_TYPE TYPE_NUMBER c # p)"
    using True by (auto simp: wb_array_size_def dest: writes_bind [OF _ c(3)])
  moreover have "table_size (rb_at l ((COMBINE_TYPE TYPE_NUMBER c # p) @ r)) (MAX_COOKIE - 1) = Inr (int n, rb_at (l @ COMBINE_TYPE TYPE_NUMBER c # p) r)" for l r
  proof -
    have "sint (ucast (word_of_nat n :: u64) :: u32) = int n"
      using assms by (simp add: unsigned_of_nat signed_of_nat take_bit_nat_eq_self signed_take_bit_int_eq_self)
    moreover have "unat (COMBINE_TYPE TYPE_NUMBER c) = 2 + 8 * c"
      using c(1) unat_COMBINE_TYPE [of TYPE_NUMBER c] by (simp add: TYPE_NUMBER_def)
    then have "unat (COMBINE_TYPE TYPE_NUMBER c) mod 8 = TYPE_NUMBER" "unat (COMBINE_TYPE TYPE_NUMBER c) div 8 = c"
      unfolding TYPE_NUMBER_def by presburger+
    moreover have "get_integer (rb_at (l @ [COMBINE_TYPE TYPE_NUMBER c]) (p @ r)) c =
        Inr (word_of_nat n, rb_at ((l @ [COMBINE_TYPE TYPE_NUMBER c]) @ p) r)"
      using c(4) by blast
    ultimately show ?thesis
      using c(2) by (simp add: table_size_def rb_bytes_at_1)
  qed
  moreover have "MAX_COOKIE - 1 < 32"
    by (simp add: MAX_COOKIE_def)
  ultimately show ?thesis
    by (metis append_Cons append_Nil)
qed

section \<open>Values come back\<close>

text \<open>
  What the reader makes of a value. A table becomes the entries of its elements that are not nil, numbered, and
  of its other pairs.
\<close>

definition numbered :: "nat \<Rightarrow> read_value list \<Rightarrow> (read_value \<times> read_value) list" where
  "numbered i vs = zip (map (\<lambda>j. RInt (word_of_nat j)) [i..<i + length vs]) vs"

definition in_array :: "nat \<Rightarrow> read_value \<Rightarrow> bool" where
  "in_array n k = (case k of RInt x \<Rightarrow> 0 < sint x \<and> sint x \<le> int n | _ \<Rightarrow> False)"

definition non_nil :: "(read_value \<times> read_value) list \<Rightarrow> (read_value \<times> read_value) list" where
  "non_nil = filter (\<lambda>(k, v). v \<noteq> RNil)"

primrec plain :: "lua_value \<Rightarrow> read_value" where
  "plain LNil = RNil"
| "plain (LBool b) = RBool b"
| "plain (LInt x) = RInt x"
| "plain (LReal x) = RReal x"
| "plain (LString s) = RString s"
| "plain (LPointer p) = RPointer p"
| "plain (LOther t) = RNil"
| "plain (LTable arr kvs m) = RTable (case map_option (map (map_prod plain plain)) m of
     Some ps \<Rightarrow> non_nil ps
   | None \<Rightarrow> non_nil (numbered 1 (map plain arr)) @
       non_nil (filter (\<lambda>(k, v). \<not> in_array (length arr) k) (map (map_prod plain plain) kvs)))"

text \<open>
  What can be packed at a depth: at most 32 levels of tables, sizes below 2^31, no functions. The keys of the pairs are
  not nil, in their normal form, and no two are equal (two tables never are).
\<close>

definition keys_ok :: "(read_value \<Rightarrow> read_value option) \<Rightarrow> read_value list \<Rightarrow> bool" where
  "keys_ok norm ks \<longleftrightarrow> (\<forall>k \<in> set ks. k \<noteq> RNil \<and> norm k = Some k) \<and> distinct (filter (\<lambda>k. \<not> is_table k) ks)"

primrec packable :: "(read_value \<Rightarrow> read_value option) \<Rightarrow> lua_value \<Rightarrow> nat \<Rightarrow> bool" where
  "packable norm LNil d = (d \<le> MAX_DEPTH)"
| "packable norm (LBool b) d = (d \<le> MAX_DEPTH)"
| "packable norm (LInt x) d = (d \<le> MAX_DEPTH)"
| "packable norm (LReal x) d = (d \<le> MAX_DEPTH)"
| "packable norm (LString s) d = (d \<le> MAX_DEPTH \<and> length s < 2 ^ 31)"
| "packable norm (LPointer p) d = (d \<le> MAX_DEPTH)"
| "packable norm (LOther t) d = False"
| "packable norm (LTable arr kvs m) d = (d \<le> MAX_DEPTH \<and>
     (case m of
       Some ps \<Rightarrow> keys_ok norm (map (plain \<circ> fst) ps)
     | None \<Rightarrow> length arr < 2 ^ 31 \<and> keys_ok norm (map (plain \<circ> fst) (filter (\<lambda>(k, v). \<not> array_key (length arr) k) kvs))) \<and>
     (case map_option (map (map_prod (packable norm) (packable norm))) m of
       Some qs \<Rightarrow> \<forall>(p, q) \<in> set qs. p (d + 1) \<and> q (d + 1)
     | None \<Rightarrow> (\<forall>p \<in> set (map (packable norm) arr). p (d + 1)) \<and>
         (\<forall>(p, q) \<in> set (map (map_prod (packable norm) (packable norm)) kvs). p (d + 1) \<and> q (d + 1))))"

text \<open>Setting entries one after the other, when no key is there twice.\<close>

definition set_entries :: "(read_value \<times> read_value) list \<Rightarrow> (read_value \<times> read_value) list \<Rightarrow> (read_value \<times> read_value) list" where
  "set_entries t kvs = foldl (\<lambda>t (k, v). set_entry t k v) t kvs"

lemma set_entries_simps [simp]:
  "set_entries t [] = t"
  "set_entries t ((k, v) # kvs) = set_entries (set_entry t k v) kvs"
  by (simp_all add: set_entries_def)

lemma set_entries_append: "set_entries t (xs @ ys) = set_entries (set_entries t xs) ys"
  by (simp add: set_entries_def)

lemma set_entries_fresh:
  "distinct (filter (\<lambda>k. \<not> is_table k) (map fst kvs)) \<Longrightarrow> (\<forall>k \<in> fst ` set kvs. \<not> is_table k \<longrightarrow> k \<notin> fst ` set t) \<Longrightarrow>
    set_entries t kvs = t @ non_nil kvs"
proof (induction kvs arbitrary: t)
  case Nil
  then show ?case by (simp add: non_nil_def)
next
  case (Cons kv kvs)
  obtain k v where kv: "kv = (k, v)"
    by (cases kv)
  have entry: "set_entry t k v = (if v = RNil then t else t @ [(k, v)])"
    using Cons.prems(2) by (auto simp: kv set_entry_def)
  have "distinct (filter (\<lambda>k. \<not> is_table k) (map fst kvs))"
    using Cons.prems(1) by (auto simp: kv split: if_splits)
  moreover have "k' \<notin> fst ` set (set_entry t k v)" if "k' \<in> fst ` set kvs" "\<not> is_table k'" for k'
    using Cons.prems that by (auto simp: kv entry split: if_splits)
  ultimately show ?case
    using Cons.IH [of "set_entry t k v"] by (auto simp: kv entry non_nil_def)
qed

lemma numbered_simps [simp]:
  "numbered i [] = []"
  "numbered i (v # vs) = (RInt (word_of_nat i), v) # numbered (i + 1) vs"
  by (simp_all add: numbered_def upt_rec)

lemma numbered_keys:
  assumes "0 < i" "i + length vs \<le> 2 ^ 31 + 1"
  shows "distinct (map fst (numbered i vs))" and "k \<in> fst ` set (numbered i vs) \<Longrightarrow> \<not> is_table k \<and> in_array (i + length vs - 1) k"
proof -
  have keys: "map fst (numbered i vs) = map (\<lambda>j. RInt (word_of_nat j)) [i..<i + length vs]"
    by (simp add: numbered_def)
  have "inj_on (\<lambda>j. RInt (word_of_nat j)) {i..<i + length vs}"
    using assms by (auto simp: inj_on_def word_of_nat_eq_iff take_bit_nat_eq_self)
  then show "distinct (map fst (numbered i vs))"
    by (simp add: keys distinct_map)
  assume "k \<in> fst ` set (numbered i vs)"
  then have "k \<in> set (map fst (numbered i vs))"
    by simp
  then obtain j where j: "i \<le> j" "j < i + length vs" "k = RInt (word_of_nat j)"
    unfolding keys by auto
  have "sint (word_of_nat j :: u64) = int j"
    using j(2) assms(2) by (simp add: signed_of_nat signed_take_bit_int_eq_self)
  then show "\<not> is_table k \<and> in_array (i + length vs - 1) k"
    using j assms by (simp add: is_table_def in_array_def)
qed

lemma distinct_filter_append:
  assumes "\<forall>k \<in> set xs. Q k" "distinct xs" "\<forall>k \<in> set ys. \<not> Q k" "distinct (filter P ys)"
  shows "distinct (filter P (xs @ ys))"
  using assms by auto

text \<open>The writer's loops, given that the elements are encoded.\<close>

definition encoded :: "(read_value \<Rightarrow> read_value option) \<Rightarrow> nat \<Rightarrow> lua_value \<Rightarrow> bool" where
  "encoded norm d v \<longleftrightarrow> (\<exists>e. writes (\<lambda>b. pack_one b v d) e \<and> reads norm e (plain v))"

lemma pack_array_encodes:
  "\<forall>v \<in> set vs. encoded norm d v \<Longrightarrow> \<exists>e. writes (\<lambda>b. pack_array b vs d) e \<and>
     (\<forall>t i n e' t'. int (i + length vs) \<le> n + 1 \<longrightarrow> reads_array norm e' (set_entries t (numbered i (map plain vs))) (i + length vs) n t' \<longrightarrow>
        reads_array norm (e @ e') t i n t')"
proof (induction vs)
  case Nil
  have "writes (\<lambda>b. pack_array b [] d) []"
    using writes_return by simp
  moreover have "\<forall>t i n e' t'. int (i + length []) \<le> n + 1 \<longrightarrow> reads_array norm e' (set_entries t (numbered i (map plain []))) (i + length []) n t' \<longrightarrow>
      reads_array norm ([] @ e') t i n t'"
    by simp
  ultimately show ?case
    by blast
next
  case (Cons v vs)
  obtain ev where ev: "writes (\<lambda>b. pack_one b v d) ev" "reads norm ev (plain v)"
    using Cons.prems by (auto simp: encoded_def)
  obtain e where e: "writes (\<lambda>b. pack_array b vs d) e"
      "\<forall>t i n e' t'. int (i + length vs) \<le> n + 1 \<longrightarrow> reads_array norm e' (set_entries t (numbered i (map plain vs))) (i + length vs) n t' \<longrightarrow>
         reads_array norm (e @ e') t i n t'"
    using Cons.IH Cons.prems by auto
  have "writes (\<lambda>b. pack_array b (v # vs) d) (ev @ e)"
    using writes_bind [OF ev(1) e(1)] by simp
  moreover have "reads_array norm ((ev @ e) @ e') t i n t'" if i: "int (i + length (v # vs)) \<le> n + 1"
      and e': "reads_array norm e' (set_entries t (numbered i (map plain (v # vs)))) (i + length (v # vs)) n t'" for t i n e' t'
  proof -
    have "reads_array norm (e @ e') (set_entry t (RInt (word_of_nat i)) (plain v)) (i + 1) n t'"
      using e(2) i e' by simp
    then have "reads_array norm (ev @ e @ e') t i n t'"
      by (rule reads_array_next [OF ev(2), rotated]) (use i in simp)
    then show ?thesis by simp
  qed
  ultimately show ?case by blast
qed

lemma pack_pairs_encodes:
  "\<forall>(k, v) \<in> set kvs. \<not> array_key n k \<longrightarrow> encoded norm d k \<and> encoded norm d v \<and> plain k \<noteq> RNil \<and> norm (plain k) = Some (plain k) \<Longrightarrow>
    \<exists>e. writes (\<lambda>b. pack_pairs b kvs n d) e \<and>
      (\<forall>t e' t'. reads_hash norm e' (set_entries t (map (map_prod plain plain) (filter (\<lambda>(k, v). \<not> array_key n k) kvs))) t' \<longrightarrow> reads_hash norm (e @ e') t t')"
proof (induction kvs)
  case Nil
  have "writes (\<lambda>b. pack_pairs b [] n d) []"
    using writes_return by simp
  moreover have "\<forall>t e' t'. reads_hash norm e' (set_entries t (map (map_prod plain plain) (filter (\<lambda>(k, v). \<not> array_key n k) []))) t' \<longrightarrow>
      reads_hash norm ([] @ e') t t'"
    by simp
  ultimately show ?case by blast
next
  case (Cons kv kvs)
  obtain k v where kv: "kv = (k, v)"
    by (cases kv)
  obtain e where e: "writes (\<lambda>b. pack_pairs b kvs n d) e"
      "\<forall>t e' t'. reads_hash norm e' (set_entries t (map (map_prod plain plain) (filter (\<lambda>(k, v). \<not> array_key n k) kvs))) t' \<longrightarrow> reads_hash norm (e @ e') t t'"
    using Cons.IH Cons.prems by auto
  show ?case
  proof (cases "array_key n k")
    case True
    then show ?thesis
      using e by (auto simp: kv)
  next
    case False
    obtain ek where ek: "writes (\<lambda>b. pack_one b k d) ek" "reads norm ek (plain k)"
      using Cons.prems False by (auto simp: kv encoded_def)
    obtain ev where ev: "writes (\<lambda>b. pack_one b v d) ev" "reads norm ev (plain v)"
      using Cons.prems False by (auto simp: kv encoded_def)
    have "writes (\<lambda>b. pack_pairs b (kv # kvs) n d) (ek @ ev @ e)"
      using writes_bind [OF ek(1) writes_bind [OF ev(1) e(1)]] False by (simp add: kv)
    moreover have "reads_hash norm ((ek @ ev @ e) @ e') t t'"
        if e': "reads_hash norm e' (set_entries t (map (map_prod plain plain) (filter (\<lambda>(k, v). \<not> array_key n k) (kv # kvs)))) t'" for t e' t'
    proof -
      have "reads_hash norm (e @ e') (set_entry t (plain k) (plain v)) t'"
        using e(2) e' False by (simp add: kv)
      then have "reads_hash norm (ek @ ev @ e @ e') t t'"
        using Cons.prems False by (intro reads_hash_pair [OF ek(2) ev(2)]) (simp_all add: kv)
      then show ?thesis by simp
    qed
    ultimately show ?thesis by blast
  qed
qed

lemma encodedI:
  assumes "d \<le> MAX_DEPTH" and "\<exists>e. writes (\<lambda>b. pack_value b v d) e \<and> reads norm e (plain v)"
  shows "encoded norm d v"
  using assms by (simp add: encoded_def pack_one.simps)

lemma wb_nil_writes: "writes wb_nil [COMBINE_TYPE TYPE_NIL 0]"
  using writes_pushes [of "[COMBINE_TYPE TYPE_NIL 0]" "[[COMBINE_TYPE TYPE_NIL 0]]"]
  by (simp add: wb_nil_def [abs_def] TYPE_NIL_COMBINE)

lemma in_array_plain: "packable norm k d \<Longrightarrow> in_array n (plain k) = array_key n k"
  by (cases k) (simp_all add: in_array_def array_key_def)

text \<open>A table with its elements and pairs.\<close>

lemma pack_table_encodes:
  assumes depth: "d \<le> MAX_DEPTH" and arr: "\<forall>v \<in> set arr. encoded norm (d + 1) v" "length arr < 2 ^ 31"
    and kvs: "\<forall>(k, v) \<in> set kvs. encoded norm (d + 1) k \<and> encoded norm (d + 1) v \<and> in_array (length arr) (plain k) = array_key (length arr) k"
    and keys: "keys_ok norm (map (plain \<circ> fst) (filter (\<lambda>(k, v). \<not> array_key (length arr) k) kvs))"
  shows "encoded norm d (LTable arr kvs None)"
proof (rule encodedI [OF depth])
  let ?n = "length arr" and ?rest = "filter (\<lambda>(k, v). \<not> array_key (length arr) k) kvs"
  let ?elems = "numbered 1 (map plain arr)" and ?pairs = "map (map_prod plain plain) ?rest"
  obtain c p where c: "c < 32" "writes (\<lambda>b. wb_array_size b ?n) (COMBINE_TYPE TYPE_TABLE c # p)"
      "\<forall>l r. table_size (rb_at l (p @ r)) c = Inr (int ?n, rb_at (l @ p) r)"
    using wb_array_size_head [OF arr(2)] by blast
  obtain ea where ea: "writes (\<lambda>b. pack_array b arr (d + 1)) ea"
      "\<forall>t i n e' t'. int (i + ?n) \<le> n + 1 \<longrightarrow> reads_array norm e' (set_entries t (numbered i (map plain arr))) (i + ?n) n t' \<longrightarrow>
         reads_array norm (ea @ e') t i n t'"
    using pack_array_encodes [OF arr(1)] by blast
  have "\<forall>(k, v) \<in> set kvs. \<not> array_key ?n k \<longrightarrow> encoded norm (d + 1) k \<and> encoded norm (d + 1) v \<and> plain k \<noteq> RNil \<and> norm (plain k) = Some (plain k)"
    using kvs keys by (force simp: keys_ok_def)
  then obtain ep where ep: "writes (\<lambda>b. pack_pairs b kvs ?n (d + 1)) ep"
      "\<forall>t e' t'. reads_hash norm e' (set_entries t ?pairs) t' \<longrightarrow> reads_hash norm (ep @ e') t t'"
    using pack_pairs_encodes [of kvs ?n norm "d + 1"] by blast
  let ?nil = "[COMBINE_TYPE TYPE_NIL 0]"
  have "writes (\<lambda>b. pack_value b (LTable arr kvs None) d) ((COMBINE_TYPE TYPE_TABLE c # p) @ ea @ ep @ ?nil)"
    using writes_bind [OF c(2) writes_bind [OF ea(1) writes_bind [OF ep(1) wb_nil_writes]]] arr(2) by simp
  moreover have "reads norm (COMBINE_TYPE TYPE_TABLE c # p @ ea @ ep @ ?nil) (RTable (set_entries [] (?elems @ ?pairs)))"
  proof (rule reads_table [OF c(1)])
    have "reads_hash norm (ep @ ?nil) (set_entries [] ?elems) (set_entries (set_entries [] ?elems) ?pairs)"
      using ep(2) reads_hash_end by blast
    then have "reads_array norm (ep @ ?nil) (set_entries [] ?elems) (1 + ?n) (int ?n) (set_entries (set_entries [] ?elems) ?pairs)"
      by (intro reads_array_end) simp_all
    then show "reads_array norm (ea @ ep @ ?nil) [] 1 (int ?n) (set_entries [] (?elems @ ?pairs))"
      using ea(2) by (simp add: set_entries_append)
  qed (use c(3) in blast)
  moreover have "RTable (set_entries [] (?elems @ ?pairs)) = plain (LTable arr kvs None)"
  proof -
    have rest: "?pairs = filter (\<lambda>(k, v). \<not> in_array ?n k) (map (map_prod plain plain) kvs)"
      using kvs by (induction kvs) auto
    have "map fst ?pairs = map (plain \<circ> fst) ?rest"
      by (simp add: comp_def case_prod_unfold)
    then have pairs: "distinct (filter (\<lambda>k. \<not> is_table k) (map fst ?pairs))"
      using keys by (simp add: keys_ok_def)
    have "\<forall>k \<in> set (map fst ?elems). in_array ?n k" "distinct (map fst ?elems)"
      using numbered_keys [of 1 "map plain arr"] arr(2) by auto
    moreover have "\<forall>k \<in> set (map fst ?pairs). \<not> in_array ?n k"
      unfolding rest by auto
    ultimately have "distinct (filter (\<lambda>k. \<not> is_table k) (map fst (?elems @ ?pairs)))"
      unfolding map_append by (intro distinct_filter_append pairs)
    then show ?thesis
      using rest set_entries_fresh [of "?elems @ ?pairs" "[]"] by (simp add: non_nil_def)
  qed
  ultimately show "\<exists>e. writes (\<lambda>b. pack_value b (LTable arr kvs None) d) e \<and> reads norm e (plain (LTable arr kvs None))"
    by (metis append_Cons)
qed

lemma pack_metapairs_encodes:
  assumes depth: "d \<le> MAX_DEPTH" and ps: "\<forall>(k, v) \<in> set ps. encoded norm (d + 1) k \<and> encoded norm (d + 1) v"
    and keys: "keys_ok norm (map (plain \<circ> fst) ps)"
  shows "encoded norm d (LTable arr kvs (Some ps))"
proof (rule encodedI [OF depth])
  let ?pairs = "map (map_prod plain plain) ps" and ?nil = "[COMBINE_TYPE TYPE_NIL 0]"
  have all: "filter (\<lambda>(k, v). \<not> array_key 0 k) ps = ps"
    by (auto simp: array_key_def filter_id_conv split: lua_value.splits)
  have "\<forall>(k, v) \<in> set ps. \<not> array_key 0 k \<longrightarrow> encoded norm (d + 1) k \<and> encoded norm (d + 1) v \<and> plain k \<noteq> RNil \<and> norm (plain k) = Some (plain k)"
    using ps keys by (force simp: keys_ok_def)
  then obtain ep where ep: "writes (\<lambda>b. pack_pairs b ps 0 (d + 1)) ep"
      "\<forall>t e' t'. reads_hash norm e' (set_entries t ?pairs) t' \<longrightarrow> reads_hash norm (ep @ e') t t'"
    using pack_pairs_encodes [of ps 0 norm "d + 1"] unfolding all by blast
  have "writes (\<lambda>b. wb_pushes b [[COMBINE_TYPE TYPE_TABLE 0]]) [COMBINE_TYPE TYPE_TABLE 0]"
    by (rule writes_pushes) simp
  from writes_bind [OF this writes_bind [OF ep(1) wb_nil_writes]]
  have "writes (\<lambda>b. pack_value b (LTable arr kvs (Some ps)) d) (COMBINE_TYPE TYPE_TABLE 0 # [] @ ep @ ?nil)"
    by simp
  moreover have "reads norm (COMBINE_TYPE TYPE_TABLE 0 # [] @ ep @ ?nil) (RTable (set_entries [] ?pairs))"
  proof (rule reads_table)
    have "reads_hash norm (ep @ ?nil) [] (set_entries [] ?pairs)"
      using ep(2) reads_hash_end by blast
    then show "reads_array norm (ep @ ?nil) [] 1 0 (set_entries [] ?pairs)"
      by (intro reads_array_end) simp_all
  qed (simp_all add: table_size_def MAX_COOKIE_def)
  moreover have "set_entries [] ?pairs = non_nil ?pairs"
  proof -
    have "map fst ?pairs = map (plain \<circ> fst) ps"
      by (simp add: comp_def case_prod_unfold)
    then show ?thesis
      using keys set_entries_fresh [of ?pairs "[]"] by (simp add: keys_ok_def)
  qed
  ultimately show "\<exists>e. writes (\<lambda>b. pack_value b (LTable arr kvs (Some ps)) d) e \<and> reads norm e (plain (LTable arr kvs (Some ps)))"
    by (metis option.simps(5) option.map(2) plain.simps(8))
qed

lemma packable_encoded: "packable norm v d \<Longrightarrow> encoded norm d v"
proof (induction v arbitrary: d)
  case LNil
  then show ?case
    using wb_nil_writes reads_nil by (intro encodedI) auto
next
  case (LBool b)
  have "writes (\<lambda>w. wb_boolean w b) [COMBINE_TYPE TYPE_BOOLEAN (if b then 1 else 0)]"
    unfolding wb_boolean_def by (rule writes_pushes) simp
  then show ?case
    using LBool reads_boolean by (intro encodedI) auto
next
  case (LInt x)
  then show ?case
    using wb_integer_encodes by (intro encodedI) auto
next
  case (LReal x)
  have "writes (\<lambda>w. wb_real w x) (COMBINE_TYPE TYPE_NUMBER NUMBER_REAL # le_bytes 8 x)"
    unfolding wb_real_def by (rule writes_pushes) simp
  then show ?case
    using LReal reads_real by (intro encodedI) auto
next
  case (LString s)
  then show ?case
    using wb_string_encodes by (intro encodedI) auto
next
  case (LPointer p)
  have "writes (\<lambda>w. wb_pointer w p) (COMBINE_TYPE TYPE_USERDATA 0 # le_bytes 8 p)"
    unfolding wb_pointer_def TYPE_NIL_COMBINE by (rule writes_pushes) simp
  then show ?case
    using LPointer reads_pointer by (intro encodedI) auto
next
  case (LTable arr kvs m)
  have depth: "d \<le> MAX_DEPTH"
    using LTable.prems by simp
  show ?case
  proof (cases m)
    case None
    have arr: "\<forall>v \<in> set arr. encoded norm (d + 1) v"
      using LTable.IH(1) LTable.prems by (simp add: None)
    have pk: "packable norm k (d + 1) \<and> packable norm v (d + 1)" if "(k, v) \<in> set kvs" for k v
      using LTable.prems that by (force simp: None)
    have kvs: "\<forall>(k, v) \<in> set kvs. encoded norm (d + 1) k \<and> encoded norm (d + 1) v \<and> in_array (length arr) (plain k) = array_key (length arr) k"
      using LTable.IH(2,3) pk in_array_plain by fastforce
    show ?thesis
      unfolding None using LTable.prems by (intro pack_table_encodes [OF depth arr _ kvs]) (simp_all add: None)
  next
    case (Some ps)
    have pk: "packable norm k (d + 1) \<and> packable norm v (d + 1)" if "(k, v) \<in> set ps" for k v
      using LTable.prems that by (force simp: Some)
    have "\<forall>(k, v) \<in> set ps. encoded norm (d + 1) k \<and> encoded norm (d + 1) v"
      using LTable.IH(4,5) pk by (fastforce simp: Some)
    then show ?thesis
      unfolding Some using LTable.prems by (intro pack_metapairs_encodes [OF depth]) (simp_all add: Some)
  qed
next
  case (LOther t)
  then show ?case by simp
qed

text \<open>The arguments one after the other, and the reader's loop over them.\<close>

lemma pack_from_encodes:
  "\<forall>v \<in> set vs. packable norm v 0 \<Longrightarrow> \<exists>e. writes (\<lambda>b. pack_from b vs) e \<and>
     (\<forall>l f out. 4 * length e + 2 \<le> f \<longrightarrow> unpack_all norm f (rb_at l e) out = Some (Inr (out @ map plain vs)))"
proof (induction vs)
  case Nil
  have "unpack_all norm f (rb_at l []) out = Some (Inr (out @ map plain []))" if "4 * length [] + 2 \<le> f" for l f out
    using that by (cases f) (simp_all add: rb_read_def rb_at_def)
  moreover have "writes (\<lambda>b. pack_from b []) []"
    using writes_return by simp
  ultimately show ?case by blast
next
  case (Cons v vs)
  obtain e where e: "writes (\<lambda>b. pack_from b vs) e"
      "\<forall>l f out. 4 * length e + 2 \<le> f \<longrightarrow> unpack_all norm f (rb_at l e) out = Some (Inr (out @ map plain vs))"
    using Cons.IH Cons.prems by auto
  obtain ev where ev: "writes (\<lambda>b. pack_one b v 0) ev" "reads norm ev (plain v)"
    using packable_encoded [of norm v 0] Cons.prems by (auto simp: encoded_def)
  have "unpack_all norm f (rb_at l (ev @ e)) out = Some (Inr (out @ map plain (v # vs)))" if f: "4 * length (ev @ e) + 2 \<le> f" for l f out
  proof -
    obtain f' where f': "f = Suc f'"
      using f by (cases f) auto
    have one: "1 \<le> length ev"
      by (rule reads_length [OF ev(2)])
    have "rb_read (rb_at l (ev @ e)) 1 \<noteq> None"
      using one by (auto simp: rb_read_def rb_at_def)
    moreover have "unpack_one norm f' (rb_at l (ev @ e)) = Some (Inr (plain v, rb_at (l @ ev) e))"
      using f f' by (intro readsD [OF ev(2)]) simp
    moreover have "unpack_all norm f' (rb_at (l @ ev) e) (out @ [plain v]) = Some (Inr ((out @ [plain v]) @ map plain vs))"
      using e(2) f f' one by simp
    ultimately show ?thesis
      by (simp add: f')
  qed
  moreover have "writes (\<lambda>b. pack_from b (v # vs)) (ev @ e)"
    using writes_bind [OF ev(1) e(1)] by simp
  ultimately show ?case by blast
qed

text \<open>C14: what one service packs, another unpacks unchanged. For any list of packable values \<open>luaseri_pack\<close>
  gives a buffer that is written in full, and \<open>luaseri_unpack\<close> of it gives the same values in the same order: booleans, integers,
  reals, strings of any bytes and pointers are equal, a table has the same elements and pairs (entries with nil excepted),
  also where it crosses the blocks of 128 bytes.\<close>

theorem luaseri_roundtrip:
  assumes "\<forall>v \<in> set vs. packable norm v 0"
  shows "\<exists>bs. luaseri_pack vs = Inr (map Some bs) \<and>
    (\<forall>fuel \<ge> 4 * length bs + 2. luaseri_unpack norm fuel (Some bs) (int (length bs)) = Some (Inr (map plain vs)))"
proof -
  obtain e where e: "writes (\<lambda>b. pack_from b vs) e"
      "\<forall>l f out. 4 * length e + 2 \<le> f \<longrightarrow> unpack_all norm f (rb_at l e) out = Some (Inr (out @ map plain vs))"
    using pack_from_encodes [OF assms] by blast
  obtain b where b: "pack_from wb_init vs = Inr b" "wb_repr b e"
    using e(1) wb_init_repr unfolding writes_def by fastforce
  have "luaseri_pack vs = Inr (map Some e)"
    using seri_repr [OF b(2)] by (simp add: luaseri_pack_def b(1) lift_fault_def)
  moreover have "luaseri_unpack norm fuel (Some e) (int (length e)) = Some (Inr (map plain vs))" if "4 * length e + 2 \<le> fuel" for fuel
  proof -
    have all: "unpack_all norm fuel (rball_init e (int (length e))) [] = Some (Inr (map plain vs))"
      using e(2) that by (auto simp: rball_init_def rb_at_def dest: spec [of _ "[]"])
    show ?thesis
    proof (cases "e = []")
      case False
      then show ?thesis using all by (simp add: luaseri_unpack_def)
    next
      case True
      have "fuel \<noteq> 0"
        using that by simp
      then obtain f where "fuel = Suc f"
        by (cases fuel) auto
      then have "map plain vs = []"
        using all True by (simp add: rball_init_def rb_read_def)
      then show ?thesis using True by (simp add: luaseri_unpack_def)
    qed
  qed
  ultimately show ?thesis by blast
qed

text \<open>A boolean, a string, and a table with two elements and a named pair.\<close>

theorem luaseri_roundtrip_witness:
  "\<exists>bs. luaseri_pack [LBool True, LString [104, 105], LTable [LInt 7, LNil] [(LInt 1, LInt 7), (LString [120], LInt 300)] None] = Inr (map Some bs) \<and>
    (\<forall>fuel \<ge> 4 * length bs + 2. luaseri_unpack Some fuel (Some bs) (int (length bs)) =
       Some (Inr [RBool True, RString [104, 105], RTable [(RInt 1, RInt 7), (RString [120], RInt 300)]]))"
proof -
  let ?vs = "[LBool True, LString [104, 105], LTable [LInt 7, LNil] [(LInt 1, LInt 7), (LString [120], LInt 300)] None]"
  have "\<forall>v \<in> set ?vs. packable Some v 0"
    by (simp add: MAX_DEPTH_def keys_ok_def array_key_def is_table_def)
  from luaseri_roundtrip [OF this] show ?thesis
    by (simp add: non_nil_def in_array_def)
qed

end
