(* ===== verification/Cluster.thy ===== *)
theory Cluster
  imports Netpack DataBuffer
begin

text \<open>
  \<open>lua-cluster.c\<close>: requests and responses between the nodes of a cluster. A message of up to 32 KB is one package, a
  longer one is a header package with its size and parts of 32 KB. A package starts with its size in two bytes. Packages are built in
  a buffer of \<open>TEMP_LENGTH\<close> bytes on the stack, whose cells are written one after the other; \<open>push_buf\<close> gives the bytes
  and checks that they fit. A message is a pointer with a size, \<open>mem_read\<close> checks every access. Lua integers are \<open>int\<close>.
\<close>

section \<open>Packing requests\<close>

definition TEMP_LENGTH :: nat where "TEMP_LENGTH = 0x8200"
definition MULTI_PART :: nat where "MULTI_PART = 0x8000"

definition fill_uint32 :: "u32 \<Rightarrow> bytes" where
  "fill_uint32 n = [ucast (n AND 0xff), ucast (drop_bit 8 n AND 0xff), ucast (drop_bit 16 n AND 0xff), ucast (drop_bit 24 n AND 0xff)]"

definition fill_header :: "nat \<Rightarrow> bytes res" where
  "fill_header sz = (if sz < 0x10000 then Inr [of_nat (drop_bit 8 sz AND 0xff), of_nat (sz AND 0xff)] else Inl Assert_Failed)"

definition push_buf :: "nat \<Rightarrow> bytes list \<Rightarrow> bytes res" where
  "push_buf header pieces = res_bind (fill_header header) (\<lambda>h.
     let buf = h @ concat pieces in if length buf \<le> TEMP_LENGTH then Inr buf else Inl Out_Of_Bounds)"

text \<open>The first argument of a request: an id, a name (numbers and strings convert), or something else.\<close>

datatype cluster_addr = Addr_Id u32 | Addr_Name bytes | Addr_None

type_synonym packed = "bytes \<times> nat"

definition packreq_number :: "u32 \<Rightarrow> u32 \<Rightarrow> bytes option \<Rightarrow> nat \<Rightarrow> packed lua" where
  "packreq_number addr session msg sz = lift_fault (
     if sz < MULTI_PART then
       res_bind (mem_read msg 0 (int sz)) (\<lambda>data.
       res_bind (push_buf (sz + 9) [[0], fill_uint32 addr, fill_uint32 session, data]) (\<lambda>p. Inr (p, 0)))
     else
       res_bind (push_buf 13 [[1], fill_uint32 addr, fill_uint32 session, fill_uint32 (of_nat sz)]) (\<lambda>p.
       Inr (p, (sz - 1) div MULTI_PART + 1)))"

definition packreq_string :: "cluster_addr \<Rightarrow> u32 \<Rightarrow> bytes option \<Rightarrow> nat \<Rightarrow> packed lua" where
  "packreq_string addr session msg sz = (case addr of
     Addr_Name name \<Rightarrow>
       (let namelen = length name in
        if namelen < 1 \<or> namelen > 255 then luaL_error ''name is too long''
        else lift_fault (
          if sz < MULTI_PART then
            res_bind (mem_read msg 0 (int sz)) (\<lambda>data.
            res_bind (push_buf (sz + 6 + namelen) [[0x80], [of_nat namelen], name, fill_uint32 session, data]) (\<lambda>p. Inr (p, 0)))
          else
            res_bind (push_buf (10 + namelen) [[0x81], [of_nat namelen], name, fill_uint32 session, fill_uint32 (of_nat sz)]) (\<lambda>p.
            Inr (p, (sz - 1) div MULTI_PART + 1))))
   | _ \<Rightarrow> luaL_error ''name is too long'')"

text \<open>The loop of \<open>packreq_multi\<close>, \<open>part\<close> packages from \<open>ptr\<close> on.\<close>

fun packreq_parts :: "u32 \<Rightarrow> bytes option \<Rightarrow> nat \<Rightarrow> nat \<Rightarrow> nat \<Rightarrow> bytes list res" where
  "packreq_parts session msg ptr sz 0 = Inr []"
| "packreq_parts session msg ptr sz (Suc part) =
     (let s = (if sz > MULTI_PART then MULTI_PART else sz); kind = (if sz > MULTI_PART then 2 else 3) in
      res_bind (mem_read msg (int ptr) (int s)) (\<lambda>data.
      res_bind (push_buf (s + 5) [[kind], fill_uint32 session, data]) (\<lambda>p.
      res_bind (packreq_parts session msg (ptr + s) (sz - s) part) (\<lambda>ps. Inr (p # ps)))))"

definition packreq_multi :: "u32 \<Rightarrow> bytes option \<Rightarrow> nat \<Rightarrow> bytes list res" where
  "packreq_multi session msg sz = packreq_parts session msg 0 sz ((sz - 1) div MULTI_PART + 1)"

text \<open>
  The Lua integers are cut to \<open>int\<close> and \<open>uint32_t\<close>. \<open>++session\<close> at the largest \<open>int\<close> is undefined in C.
\<close>

definition lpackrequest :: "cluster_addr \<Rightarrow> int \<Rightarrow> bytes option \<Rightarrow> int \<Rightarrow> (bytes \<times> int \<times> bytes list option) lua" where
  "lpackrequest addr session_arg msg sz_arg =
    (if msg = None then luaL_error ''Invalid request message''
     else let sz = unat (word_of_int sz_arg :: u32); session = sint (word_of_int session_arg :: u32); s = word_of_int session in
       if session \<le> 0 then luaL_error ''Invalid request session''
       else res_bind (case addr of Addr_Id a \<Rightarrow> packreq_number a s msg sz | _ \<Rightarrow> packreq_string addr s msg sz) (\<lambda>(p, multipak).
         if session + 1 > 2 ^ 31 - 1 then Inl (C_Fault Int_Overflow)
         else let next_session = (if session + 1 < 0 then 1 else session + 1) in
           if multipak \<noteq> 0 then res_bind (lift_fault (packreq_multi s msg sz)) (\<lambda>ps. Inr (p, next_session, Some ps))
           else Inr (p, next_session, None)))"

section \<open>Unpacking requests\<close>

text \<open>What is returned to Lua: a request, the header of one in parts, or a part (with whether more follow).\<close>

datatype cluster_request =
    Request cluster_addr u32 bytes
  | Multi_Request cluster_addr u32 u32
  | Multi_Part u32 bytes bool

definition unpack_uint32 :: "bytes \<Rightarrow> int \<Rightarrow> u32 lua" where
  "unpack_uint32 buf off = lift_fault (res_bind (mem_read (Some buf) off 4) (\<lambda>d.
     Inr (ucast (d ! 0) OR push_bit 8 (ucast (d ! 1)) OR push_bit 16 (ucast (d ! 2)) OR push_bit 24 (ucast (d ! 3)))))"

definition pushlstring :: "bytes \<Rightarrow> int \<Rightarrow> int \<Rightarrow> bytes lua" where
  "pushlstring buf off n = lift_fault (mem_read (Some buf) off n)"

definition unpackreq_number :: "bytes \<Rightarrow> int \<Rightarrow> cluster_request lua" where
  "unpackreq_number buf sz = (if sz < 9 then luaL_error ''Invalid cluster message''
     else res_bind (unpack_uint32 buf 1) (\<lambda>address. res_bind (unpack_uint32 buf 5) (\<lambda>session.
       res_bind (pushlstring buf 9 (sz - 9)) (\<lambda>d. Inr (Request (Addr_Id address) session d)))))"

definition unpackmreq_number :: "bytes \<Rightarrow> int \<Rightarrow> cluster_request lua" where
  "unpackmreq_number buf sz = (if sz \<noteq> 13 then luaL_error ''Invalid cluster message size (multi req must be 13)''
     else res_bind (unpack_uint32 buf 1) (\<lambda>address. res_bind (unpack_uint32 buf 5) (\<lambda>session.
       res_bind (unpack_uint32 buf 9) (\<lambda>n. Inr (Multi_Request (Addr_Id address) session n)))))"

definition unpackmreq_part :: "bytes \<Rightarrow> int \<Rightarrow> cluster_request lua" where
  "unpackmreq_part buf sz = (if sz < 5 then luaL_error ''Invalid cluster multi part message''
     else res_bind (pushlstring buf 0 1) (\<lambda>t. res_bind (unpack_uint32 buf 1) (\<lambda>session.
       res_bind (pushlstring buf 5 (sz - 5)) (\<lambda>d. Inr (Multi_Part session d (hd t = 2))))))"

definition unpackreq_string :: "bytes \<Rightarrow> int \<Rightarrow> cluster_request lua" where
  "unpackreq_string buf sz = (if sz < 2 then luaL_error ''Invalid cluster message''
     else res_bind (pushlstring buf 1 1) (\<lambda>n. let namesz = uint (hd n) in
       if sz < namesz + 6 then luaL_error ''Invalid cluster message''
       else res_bind (pushlstring buf 2 namesz) (\<lambda>name. res_bind (unpack_uint32 buf (namesz + 2)) (\<lambda>session.
         res_bind (pushlstring buf (2 + namesz + 4) (sz - namesz - 6)) (\<lambda>d. Inr (Request (Addr_Name name) session d))))))"

definition unpackmreq_string :: "bytes \<Rightarrow> int \<Rightarrow> cluster_request lua" where
  "unpackmreq_string buf sz = (if sz < 2 then luaL_error ''Invalid cluster message''
     else res_bind (pushlstring buf 1 1) (\<lambda>n. let namesz = uint (hd n) in
       if sz < namesz + 10 then luaL_error ''Invalid cluster message''
       else res_bind (pushlstring buf 2 namesz) (\<lambda>name. res_bind (unpack_uint32 buf (namesz + 2)) (\<lambda>session.
         res_bind (unpack_uint32 buf (namesz + 6)) (\<lambda>n. Inr (Multi_Request (Addr_Name name) session n))))))"

text \<open>A Lua string has a NUL behind its bytes, so the type of the empty one is 0; strings are shorter than 2^31 bytes.\<close>

definition lunpackrequest :: "bytes \<Rightarrow> cluster_request lua" where
  "lunpackrequest msg = (let sz = int (length msg); t = hd (msg @ [0]) in
     if t = 0 then unpackreq_number msg sz
     else if t = 1 then unpackmreq_number msg sz
     else if t = 2 \<or> t = 3 then unpackmreq_part msg sz
     else if t = 0x80 then unpackreq_string msg sz
     else if t = 0x81 then unpackmreq_string msg sz
     else luaL_error ''Invalid req package type'')"

section \<open>Responses\<close>

datatype packed_response = One_Package bytes | Packages "bytes list"

fun packresponse_parts :: "u32 \<Rightarrow> bytes option \<Rightarrow> nat \<Rightarrow> nat \<Rightarrow> nat \<Rightarrow> bytes list res" where
  "packresponse_parts session msg ptr sz 0 = Inr []"
| "packresponse_parts session msg ptr sz (Suc part) =
     (let s = (if sz > MULTI_PART then MULTI_PART else sz); kind = (if sz > MULTI_PART then 3 else 4) in
      res_bind (mem_read msg (int ptr) (int s)) (\<lambda>data.
      res_bind (push_buf (s + 5) [fill_uint32 session, [kind], data]) (\<lambda>p.
      res_bind (packresponse_parts session msg (ptr + s) (sz - s) part) (\<lambda>ps. Inr (p # ps)))))"

definition lpackresponse :: "int \<Rightarrow> bool \<Rightarrow> bytes option \<Rightarrow> nat \<Rightarrow> packed_response lua" where
  "lpackresponse session_arg ok msg sz = lift_fault (
     let session = word_of_int session_arg :: u32 in
     if ok \<and> sz > MULTI_PART then
       (let part = (sz - 1) div MULTI_PART + 1 in
        res_bind (push_buf 9 [fill_uint32 session, [2], fill_uint32 (of_nat sz)]) (\<lambda>p.
        res_bind (packresponse_parts session msg 0 sz part) (\<lambda>ps. Inr (Packages (p # ps)))))
     else
       (let sz = (if \<not> ok \<and> sz > MULTI_PART then MULTI_PART else sz) in
        res_bind (mem_read msg 0 (int sz)) (\<lambda>data.
        res_bind (push_buf (sz + 5) [fill_uint32 session, [if ok then 1 else 0], data]) (\<lambda>p. Inr (One_Package p)))))"

text \<open>The answer of \<open>lunpackresponse\<close>: session, success, data or size, and whether more follows; \<open>None\<close> for no result.\<close>

datatype cluster_response =
    Response_Data u32 bool bytes bool
  | Response_Size u32 u32

definition lunpackresponse :: "bytes \<Rightarrow> cluster_response option lua" where
  "lunpackresponse buf = (let sz = int (length buf) in
     if sz < 5 then Inr None
     else res_bind (unpack_uint32 buf 0) (\<lambda>session. res_bind (pushlstring buf 4 1) (\<lambda>t. let t = hd t in
       if t = 0 then res_bind (pushlstring buf 5 (sz - 5)) (\<lambda>d. Inr (Some (Response_Data session False d False)))
       else if t = 1 \<or> t = 4 then res_bind (pushlstring buf 5 (sz - 5)) (\<lambda>d. Inr (Some (Response_Data session True d False)))
       else if t = 2 then
         (if sz \<noteq> 9 then Inr None else res_bind (unpack_uint32 buf 5) (\<lambda>n. Inr (Some (Response_Size session n))))
       else if t = 3 then res_bind (pushlstring buf 5 (sz - 5)) (\<lambda>d. Inr (Some (Response_Data session True d True)))
       else Inr None)))"

text \<open>
  \<open>lconcat\<close> of a table whose elements are numbers and strings: the announced size, then the parts up to the first element
  that is no string. The size is an \<open>int\<close> that becomes a \<open>size_t\<close>: a negative one asks for almost 2^64 bytes.
\<close>

datatype table_item = Item_Number int | Item_String bytes

fun concat_loop :: "buf \<Rightarrow> nat \<Rightarrow> nat \<Rightarrow> table_item list \<Rightarrow> (buf \<times> nat) option res" where
  "concat_loop buff offset sz (Item_String str # items) =
     (if length str + offset > sz then Inr None
      else res_bind (memcpy_at buff offset str) (\<lambda>buff. concat_loop buff (offset + length str) sz items))"
| "concat_loop buff offset sz items = Inr (Some (buff, offset))"

definition lconcat :: "table_item list \<Rightarrow> (buf \<times> nat) option lua" where
  "lconcat items = (case items of
     Item_Number n # strs \<Rightarrow>
       (let sz = sint (word_of_int n :: u32) in
        if sz < 0 then Inl (C_Fault Out_Of_Memory)
        else lift_fault (res_bind (concat_loop (malloc_buf (nat sz)) 0 (nat sz) strs) (\<lambda>r. case r of
          None \<Rightarrow> Inr None
        | Some (buff, offset) \<Rightarrow> Inr (if offset \<noteq> nat sz then None else Some (buff, nat sz)))))
   | _ \<Rightarrow> Inr None)"

section \<open>The receiving services\<close>

text \<open>
  \<open>command.socket\<close> of \<open>clusterd.lua\<close> on the data of one package: parts are collected by session (\<open>large_request\<close>), and a
  complete request is passed on to its address. \<open>Addr_None\<close> is the address \<open>false\<close> of a part.
\<close>

record large_req =
  lr_addr :: cluster_addr
  lr_items :: "table_item list"

type_synonym large_request = "u32 \<Rightarrow> large_req option"

datatype delivery = Stored u32 | Deliver cluster_addr u32 buf | Invalid_Large u32

definition add_item :: "cluster_addr \<Rightarrow> table_item \<Rightarrow> large_req option \<Rightarrow> large_req" where
  "add_item addr item req = (case req of None \<Rightarrow> \<lparr>lr_addr = addr, lr_items = [item]\<rparr>
     | Some r \<Rightarrow> r\<lparr>lr_items := lr_items r @ [item]\<rparr>)"

definition clusterd_complete :: "large_request \<Rightarrow> cluster_addr \<Rightarrow> u32 \<Rightarrow> bytes \<Rightarrow> (delivery \<times> large_request) lua" where
  "clusterd_complete large addr session msg = (case large session of
     None \<Rightarrow> Inr (Deliver addr session (map Some msg), large)
   | Some req \<Rightarrow> res_bind (lconcat (lr_items req @ [Item_String msg])) (\<lambda>r. Inr (case r of
       None \<Rightarrow> Invalid_Large session
     | Some (buff, sz) \<Rightarrow> Deliver (lr_addr req) session buff, large(session := None))))"

definition clusterd_data :: "large_request \<Rightarrow> bytes \<Rightarrow> (delivery \<times> large_request) lua" where
  "clusterd_data large pkg = res_bind (lunpackrequest pkg) (\<lambda>r. case r of
     Request addr session d \<Rightarrow> clusterd_complete large addr session d
   | Multi_Request addr session n \<Rightarrow>
       Inr (Stored session, large(session := Some (add_item addr (Item_Number (uint n)) (large session))))
   | Multi_Part session d True \<Rightarrow>
       Inr (Stored session, large(session := Some (add_item Addr_None (Item_String d) (large session))))
   | Multi_Part session d False \<Rightarrow> clusterd_complete large Addr_None session d)"

fun clusterd_run :: "large_request \<Rightarrow> bytes list \<Rightarrow> (delivery list \<times> large_request) lua" where
  "clusterd_run large [] = Inr ([], large)"
| "clusterd_run large (p # ps) = res_bind (clusterd_data large p) (\<lambda>(d, large).
     res_bind (clusterd_run large ps) (\<lambda>(ds, large). Inr (d # ds, large)))"

text \<open>
  The requesting side: \<open>dispatch_by_session\<close> of \<open>socketchannel.lua\<close> collects the parts of a response for the waiting
  request, and \<open>command.req\<close> of \<open>clusterd.lua\<close> joins them.
\<close>

datatype channel_result = Waiting "table_item list option" | Result bool "table_item list option" bytes

fun channel_response :: "table_item list option \<Rightarrow> cluster_response \<Rightarrow> channel_result" where
  "channel_response data (Response_Size s n) = Waiting (Some ((case data of None \<Rightarrow> [] | Some t \<Rightarrow> t) @ [Item_Number (uint n)]))"
| "channel_response data (Response_Data s ok d padding) =
     (if padding \<and> ok then Waiting (Some ((case data of None \<Rightarrow> [] | Some t \<Rightarrow> t) @ [Item_String d]))
      else Result ok (if ok then map_option (\<lambda>t. t @ [Item_String d]) data else None) d)"

fun response_session :: "cluster_response \<Rightarrow> u32" where
  "response_session (Response_Size s n) = s"
| "response_session (Response_Data s ok d padding) = s"

text \<open>The responses for one session, to the first that completes: success and the data, \<open>None\<close> for a failed join.\<close>

fun cluster_call :: "u32 \<Rightarrow> table_item list option \<Rightarrow> bytes list \<Rightarrow> (bool \<times> buf option) option lua" where
  "cluster_call session data [] = Inr None"
| "cluster_call session data (p # ps) = res_bind (lunpackresponse p) (\<lambda>r. case r of
     None \<Rightarrow> luaL_error ''socket error''
   | Some r \<Rightarrow>
       if response_session r \<noteq> session then cluster_call session data ps
       else (case channel_response data r of
         Waiting data \<Rightarrow> cluster_call session data ps
       | Result ok (Some t) d \<Rightarrow> res_bind (lconcat t) (\<lambda>r. Inr (Some (ok, map_option fst r)))
       | Result ok None d \<Rightarrow> Inr (Some (ok, Some (map Some d)))))"

section \<open>Fields\<close>

lemma mem_read_at: "buf = l @ d @ r \<Longrightarrow> off = int (length l) \<Longrightarrow> n = int (length d) \<Longrightarrow> mem_read (Some buf) off n = Inr d"
  by (simp add: mem_read_def nat_add_distrib)

lemma pushlstring_at: "buf = l @ d @ r \<Longrightarrow> off = int (length l) \<Longrightarrow> n = int (length d) \<Longrightarrow> pushlstring buf off n = Inr d"
  by (simp add: pushlstring_def mem_read_at)

lemma length_fill_uint32 [simp]: "length (fill_uint32 n) = 4"
  by (simp add: fill_uint32_def)

lemma byte_and_mask: "ucast (w AND 0xff) = (ucast w :: byte)" for w :: u32
proof -
  have "(mask 8 :: u32) = 0xff"
    by (simp add: mask_eq_exp_minus_1)
  then have "w AND 0xff = take_bit 8 w"
    by (simp add: take_bit_eq_mask)
  then show ?thesis
    by (simp only:) (intro bit_word_eqI, auto simp: bit_simps)
qed

lemma bytes_of_u32:
  "ucast (ucast n :: byte) OR push_bit 8 (ucast (ucast (drop_bit 8 n) :: byte)) OR push_bit 16 (ucast (ucast (drop_bit 16 n) :: byte)) OR
   push_bit 24 (ucast (ucast (drop_bit 24 n) :: byte)) = (n :: u32)"
proof (rule bit_word_eqI)
  fix i
  assume i: "i < LENGTH(32)"
  then consider "i < 8" | "8 \<le> i" "i < 16" | "16 \<le> i" "i < 24" | "24 \<le> i" "i < 32"
    by fastforce
  then show "bit (ucast (ucast n :: byte) OR push_bit 8 (ucast (ucast (drop_bit 8 n) :: byte)) OR
      push_bit 16 (ucast (ucast (drop_bit 16 n) :: byte)) OR push_bit 24 (ucast (ucast (drop_bit 24 n) :: byte)) :: u32) i = bit n i"
    by cases (use i in \<open>auto simp: bit_simps\<close>)
qed

lemma unpack_uint32_at:
  assumes "buf = l @ fill_uint32 n @ r" "off = int (length l)"
  shows "unpack_uint32 buf off = Inr n"
proof -
  have "mem_read (Some buf) off 4 = Inr (fill_uint32 n)"
    using assms by (intro mem_read_at) simp_all
  then show ?thesis
    using bytes_of_u32 [of n] by (simp add: unpack_uint32_def fill_uint32_def byte_and_mask numeral_3_eq_3)
qed

text \<open>A package is its size and its bytes.\<close>

definition package :: "bytes \<Rightarrow> bytes" where
  "package d = write_size (length d) @ d"

lemma package_inject [simp]: "package a = package b \<longleftrightarrow> a = b"
  by (auto simp: package_def write_size_def)

lemma push_buf_package:
  assumes "d = concat ds" "n = length d" "length d + 2 \<le> TEMP_LENGTH"
  shows "push_buf n ds = Inr (package d)"
  using assms by (simp add: push_buf_def fill_header_def write_size_def package_def TEMP_LENGTH_def)

lemma lpack_package: "length d < 0x10000 \<Longrightarrow> lpack d = Inr (package d)"
  by (simp add: lpack_def package_def)

section \<open>Joining parts\<close>

lemma concat_loop_strings:
  "offset + length (concat ss) \<le> sz \<Longrightarrow> length buff = sz \<Longrightarrow> concat_loop buff offset sz (map Item_String ss) =
    Inr (Some (take offset buff @ map Some (concat ss) @ drop (offset + length (concat ss)) buff, offset + length (concat ss)))"
proof (induction ss arbitrary: buff offset)
  case Nil
  then show ?case by simp
next
  case (Cons s ss)
  let ?buff = "take offset buff @ map Some s @ drop (offset + length s) buff"
  have "memcpy_at buff offset s = Inr ?buff"
    using Cons.prems by (simp add: memcpy_at_def)
  moreover have "concat_loop ?buff (offset + length s) sz (map Item_String ss) =
      Inr (Some (take (offset + length s) ?buff @ map Some (concat ss) @ drop (offset + length s + length (concat ss)) ?buff,
        offset + length s + length (concat ss)))"
    using Cons.prems by (intro Cons.IH) simp_all
  ultimately show ?case
    using Cons.prems by (simp add: ac_simps)
qed

lemma lconcat_strings:
  assumes "length (concat ss) < 2 ^ 31"
  shows "lconcat (Item_Number (int (length (concat ss))) # map Item_String ss) = Inr (Some (map Some (concat ss), length (concat ss)))"
proof -
  have "sint (word_of_int (int (length (concat ss))) :: u32) = int (length (concat ss))"
    using assms by (simp add: signed_of_nat signed_take_bit_int_eq_self)
  then show ?thesis
    using concat_loop_strings [of 0 ss "length (concat ss)" "malloc_buf (length (concat ss))"]
    by (simp add: lconcat_def malloc_buf_def)
qed

text \<open>A message cut into parts of 32 KB, each with whether more follow.\<close>

function parts :: "bytes \<Rightarrow> (bool \<times> bytes) list" where
  "parts msg = (if length msg > MULTI_PART then (True, take MULTI_PART msg) # parts (drop MULTI_PART msg) else [(False, msg)])"
  by pat_completeness auto
termination
  by (relation "measure length") (auto simp: MULTI_PART_def)

declare parts.simps [simp del]

lemma parts_induct [case_names last more]:
  fixes P :: "bytes \<Rightarrow> bool"
  assumes "\<And>msg. length msg \<le> MULTI_PART \<Longrightarrow> P msg"
    and "\<And>msg. MULTI_PART < length msg \<Longrightarrow> P (drop MULTI_PART msg) \<Longrightarrow> P msg"
  shows "P msg"
  by (induction msg rule: parts.induct) (metis assms not_less)

lemma concat_parts: "concat (map snd (parts msg)) = msg"
  by (induction msg rule: parts_induct) (simp_all add: parts.simps)

lemma parts_count:
  "0 < n \<Longrightarrow> (n - 1) div MULTI_PART + 1 = (if MULTI_PART < n then Suc ((n - MULTI_PART - 1) div MULTI_PART + 1) else 1)"
proof (cases "MULTI_PART < n")
  case True
  then have "(n - 1) div MULTI_PART = Suc ((n - 1 - MULTI_PART) div MULTI_PART)"
    by (simp add: MULTI_PART_def le_div_geq)
  then show ?thesis
    using True by (simp add: diff_commute)
qed (simp add: MULTI_PART_def)

section \<open>Requests and responses in bytes\<close>

definition request_bytes :: "cluster_addr \<Rightarrow> u32 \<Rightarrow> bytes \<Rightarrow> bytes" where
  "request_bytes addr s msg = (case addr of
     Addr_Name name \<Rightarrow> [0x80] @ [of_nat (length name)] @ name @ fill_uint32 s @ msg
   | Addr_Id a \<Rightarrow> [0] @ fill_uint32 a @ fill_uint32 s @ msg
   | Addr_None \<Rightarrow> [])"

definition request_head :: "cluster_addr \<Rightarrow> u32 \<Rightarrow> nat \<Rightarrow> bytes" where
  "request_head addr s n = (case addr of
     Addr_Name name \<Rightarrow> [0x81] @ [of_nat (length name)] @ name @ fill_uint32 s @ fill_uint32 (of_nat n)
   | Addr_Id a \<Rightarrow> [1] @ fill_uint32 a @ fill_uint32 s @ fill_uint32 (of_nat n)
   | Addr_None \<Rightarrow> [])"

definition request_part :: "u32 \<Rightarrow> bool \<times> bytes \<Rightarrow> bytes" where
  "request_part s p = [if fst p then 2 else 3] @ fill_uint32 s @ snd p"

definition response_part :: "u32 \<Rightarrow> bool \<times> bytes \<Rightarrow> bytes" where
  "response_part s p = fill_uint32 s @ [if fst p then 3 else 4] @ snd p"

definition valid_addr :: "cluster_addr \<Rightarrow> bool" where
  "valid_addr addr = (case addr of Addr_Name name \<Rightarrow> 1 \<le> length name \<and> length name \<le> 255 | Addr_Id a \<Rightarrow> True | Addr_None \<Rightarrow> False)"

lemmas cluster_sizes = TEMP_LENGTH_def MULTI_PART_def

lemma packreq_parts_packages:
  "0 < length msg \<Longrightarrow> packreq_parts s (Some (pre @ msg)) (length pre) (length msg) ((length msg - 1) div MULTI_PART + 1) =
     Inr (map (package \<circ> request_part s) (parts msg))"
proof (induction msg arbitrary: pre rule: parts_induct)
  case (last msg)
  have data: "mem_read (Some (pre @ msg)) (int (length pre)) (int (length msg)) = Inr msg"
    by (rule mem_read_at [of _ _ _ "[]"]) simp_all
  have "push_buf (length msg + 5) [[3], fill_uint32 s, msg] = Inr (package (request_part s (False, msg)))"
    using last.hyps by (intro push_buf_package) (simp_all add: request_part_def cluster_sizes)
  moreover have "length msg - Suc 0 < MULTI_PART"
    using last by (cases msg) (simp_all add: MULTI_PART_def)
  ultimately show ?case
    using last data by (simp add: parts.simps Let_def)
next
  case (more msg)
  let ?d = "take MULTI_PART msg" and ?r = "drop MULTI_PART msg"
  have len: "length ?d = MULTI_PART"
    using more.hyps by simp
  have data: "mem_read (Some (pre @ msg)) (int (length pre)) (int MULTI_PART) = Inr ?d"
    by (rule mem_read_at [of _ _ _ ?r]) (simp_all add: len del: length_take)
  have "push_buf (MULTI_PART + 5) [[2], fill_uint32 s, ?d] = Inr (package (request_part s (True, ?d)))"
    using len by (intro push_buf_package) (simp_all add: request_part_def cluster_sizes)
  moreover have "packreq_parts s (Some ((pre @ ?d) @ ?r)) (length (pre @ ?d)) (length ?r) ((length ?r - 1) div MULTI_PART + 1) =
      Inr (map (package \<circ> request_part s) (parts ?r))"
    using more.hyps by (intro more.IH) simp
  moreover have "(length msg - 1) div MULTI_PART + 1 = Suc ((length ?r - 1) div MULTI_PART + 1)"
    using more.hyps more.prems parts_count [of "length msg"] by simp
  ultimately show ?case
    using more.hyps data by (simp add: parts.simps [of msg] len min_absorb2)
qed

lemma packresponse_parts_packages:
  "0 < length msg \<Longrightarrow> packresponse_parts s (Some (pre @ msg)) (length pre) (length msg) ((length msg - 1) div MULTI_PART + 1) =
     Inr (map (package \<circ> response_part s) (parts msg))"
proof (induction msg arbitrary: pre rule: parts_induct)
  case (last msg)
  have data: "mem_read (Some (pre @ msg)) (int (length pre)) (int (length msg)) = Inr msg"
    by (rule mem_read_at [of _ _ _ "[]"]) simp_all
  have "push_buf (length msg + 5) [fill_uint32 s, [4], msg] = Inr (package (response_part s (False, msg)))"
    using last.hyps by (intro push_buf_package) (simp_all add: response_part_def cluster_sizes)
  moreover have "length msg - Suc 0 < MULTI_PART"
    using last by (cases msg) (simp_all add: MULTI_PART_def)
  ultimately show ?case
    using last data by (simp add: parts.simps Let_def)
next
  case (more msg)
  let ?d = "take MULTI_PART msg" and ?r = "drop MULTI_PART msg"
  have len: "length ?d = MULTI_PART"
    using more.hyps by simp
  have data: "mem_read (Some (pre @ msg)) (int (length pre)) (int MULTI_PART) = Inr ?d"
    by (rule mem_read_at [of _ _ _ ?r]) (simp_all add: len del: length_take)
  have "push_buf (MULTI_PART + 5) [fill_uint32 s, [3], ?d] = Inr (package (response_part s (True, ?d)))"
    using len by (intro push_buf_package) (simp_all add: response_part_def cluster_sizes)
  moreover have "packresponse_parts s (Some ((pre @ ?d) @ ?r)) (length (pre @ ?d)) (length ?r) ((length ?r - 1) div MULTI_PART + 1) =
      Inr (map (package \<circ> response_part s) (parts ?r))"
    using more.hyps by (intro more.IH) simp
  moreover have "(length msg - 1) div MULTI_PART + 1 = Suc ((length ?r - 1) div MULTI_PART + 1)"
    using more.hyps more.prems parts_count [of "length msg"] by simp
  ultimately show ?case
    using more.hyps data by (simp add: parts.simps [of msg] len min_absorb2)
qed

text \<open>Each package of a request is read back.\<close>

lemma uint_length_byte: "length name \<le> 255 \<Longrightarrow> uint (of_nat (length name) :: byte) = int (length name)"
  by (simp add: unsigned_of_nat take_bit_nat_eq_self)

lemma lunpackrequest_part: "lunpackrequest (request_part s (m, d)) = Inr (Multi_Part s d m)"
proof -
  define b where "b = request_part s (m, d)"
  let ?t = "if m then 2 else 3 :: byte"
  have b: "b = [?t] @ fill_uint32 s @ d"
    by (simp add: b_def request_part_def)
  have "pushlstring b 0 1 = Inr [?t]"
    by (rule pushlstring_at [of _ "[]" _ "fill_uint32 s @ d"]) (simp_all add: b)
  moreover have "unpack_uint32 b 1 = Inr s"
    by (rule unpack_uint32_at [of _ "[?t]" _ d]) (simp_all add: b)
  moreover have "pushlstring b 5 (int (length b) - 5) = Inr d"
    by (rule pushlstring_at [of _ "[?t] @ fill_uint32 s" _ "[]"]) (simp_all add: b)
  moreover have "hd (b @ [0]) = ?t" "\<not> int (length b) < 5"
    by (simp_all add: b)
  ultimately have "lunpackrequest b = Inr (Multi_Part s d m)"
    by (cases m) (simp_all add: lunpackrequest_def unpackmreq_part_def)
  then show ?thesis
    by (simp add: b_def)
qed

lemma lunpackrequest_request:
  assumes "valid_addr addr"
  shows "lunpackrequest (request_bytes addr s d) = Inr (Request addr s d)"
proof (cases addr)
  case (Addr_Id a)
  define b where "b = request_bytes addr s d"
  have b: "b = [0] @ fill_uint32 a @ fill_uint32 s @ d"
    by (simp add: b_def request_bytes_def Addr_Id)
  have "unpack_uint32 b 1 = Inr a"
    by (rule unpack_uint32_at [of _ "[0]" _ "fill_uint32 s @ d"]) (simp_all add: b)
  moreover have "unpack_uint32 b 5 = Inr s"
    by (rule unpack_uint32_at [of _ "[0] @ fill_uint32 a" _ d]) (simp_all add: b)
  moreover have "pushlstring b 9 (int (length b) - 9) = Inr d"
    by (rule pushlstring_at [of _ "[0] @ fill_uint32 a @ fill_uint32 s" _ "[]"]) (simp_all add: b)
  moreover have "hd (b @ [0]) = 0" "\<not> int (length b) < 9"
    by (simp_all add: b)
  ultimately have "lunpackrequest b = Inr (Request addr s d)"
    by (simp add: lunpackrequest_def unpackreq_number_def Addr_Id)
  then show ?thesis
    by (simp add: b_def)
next
  case (Addr_Name name)
  define b where "b = request_bytes addr s d"
  let ?n = "of_nat (length name) :: byte"
  have b: "b = [0x80] @ [?n] @ name @ fill_uint32 s @ d"
    by (simp add: b_def request_bytes_def Addr_Name)
  have n: "uint ?n = int (length name)"
    using assms by (intro uint_length_byte) (simp add: valid_addr_def Addr_Name)
  have "pushlstring b 1 1 = Inr [?n]"
    by (rule pushlstring_at [of _ "[0x80]" _ "name @ fill_uint32 s @ d"]) (simp_all add: b)
  moreover have "pushlstring b 2 (int (length name)) = Inr name"
    by (rule pushlstring_at [of _ "[0x80] @ [?n]" _ "fill_uint32 s @ d"]) (simp_all add: b)
  moreover have "unpack_uint32 b (int (length name) + 2) = Inr s"
    by (rule unpack_uint32_at [of _ "[0x80] @ [?n] @ name" _ d]) (simp_all add: b)
  moreover have "pushlstring b (2 + int (length name) + 4) (int (length b) - int (length name) - 6) = Inr d"
    by (rule pushlstring_at [of _ "[0x80] @ [?n] @ name @ fill_uint32 s" _ "[]"]) (simp_all add: b)
  moreover have "hd (b @ [0]) = 0x80" "\<not> int (length b) < 2" "\<not> int (length b) < int (length name) + 6"
    by (simp_all add: b)
  ultimately have "lunpackrequest b = Inr (Request addr s d)"
    by (simp add: lunpackrequest_def unpackreq_string_def Addr_Name n)
  then show ?thesis
    by (simp add: b_def)
next
  case Addr_None
  then show ?thesis
    using assms by (simp add: valid_addr_def)
qed

lemma lunpackrequest_head:
  assumes "valid_addr addr"
  shows "lunpackrequest (request_head addr s n) = Inr (Multi_Request addr s (of_nat n))"
proof (cases addr)
  case (Addr_Id a)
  define b where "b = request_head addr s n"
  have b: "b = [1] @ fill_uint32 a @ fill_uint32 s @ fill_uint32 (of_nat n)"
    by (simp add: b_def request_head_def Addr_Id)
  have "unpack_uint32 b 1 = Inr a"
    by (rule unpack_uint32_at [of _ "[1]" _ "fill_uint32 s @ fill_uint32 (of_nat n)"]) (simp_all add: b)
  moreover have "unpack_uint32 b 5 = Inr s"
    by (rule unpack_uint32_at [of _ "[1] @ fill_uint32 a" _ "fill_uint32 (of_nat n)"]) (simp_all add: b)
  moreover have "unpack_uint32 b 9 = Inr (of_nat n)"
    by (rule unpack_uint32_at [of _ "[1] @ fill_uint32 a @ fill_uint32 s" _ "[]"]) (simp_all add: b)
  moreover have "hd (b @ [0]) = 1" "int (length b) = 13"
    by (simp_all add: b)
  ultimately have "lunpackrequest b = Inr (Multi_Request addr s (of_nat n))"
    by (simp add: lunpackrequest_def unpackmreq_number_def Addr_Id)
  then show ?thesis
    by (simp add: b_def)
next
  case (Addr_Name name)
  define b where "b = request_head addr s n"
  let ?n = "of_nat (length name) :: byte" and ?sz = "fill_uint32 (of_nat n)"
  have b: "b = [0x81] @ [?n] @ name @ fill_uint32 s @ ?sz"
    by (simp add: b_def request_head_def Addr_Name)
  have n: "uint ?n = int (length name)"
    using assms by (intro uint_length_byte) (simp add: valid_addr_def Addr_Name)
  have "pushlstring b 1 1 = Inr [?n]"
    by (rule pushlstring_at [of _ "[0x81]" _ "name @ fill_uint32 s @ ?sz"]) (simp_all add: b)
  moreover have "pushlstring b 2 (int (length name)) = Inr name"
    by (rule pushlstring_at [of _ "[0x81] @ [?n]" _ "fill_uint32 s @ ?sz"]) (simp_all add: b)
  moreover have "unpack_uint32 b (int (length name) + 2) = Inr s"
    by (rule unpack_uint32_at [of _ "[0x81] @ [?n] @ name" _ ?sz]) (simp_all add: b)
  moreover have "unpack_uint32 b (int (length name) + 6) = Inr (of_nat n)"
    by (rule unpack_uint32_at [of _ "[0x81] @ [?n] @ name @ fill_uint32 s" _ "[]"]) (simp_all add: b)
  moreover have "hd (b @ [0]) = 0x81" "\<not> int (length b) < 2" "\<not> int (length b) < int (length name) + 10"
    by (simp_all add: b)
  ultimately have "lunpackrequest b = Inr (Multi_Request addr s (of_nat n))"
    by (simp add: lunpackrequest_def unpackmreq_string_def Addr_Name n)
  then show ?thesis
    by (simp add: b_def)
next
  case Addr_None
  then show ?thesis
    using assms by (simp add: valid_addr_def)
qed

lemma lunpackresponse_data:
  assumes "k \<in> {0, 1, 3, 4}"
  shows "lunpackresponse (fill_uint32 s @ [k] @ d) = Inr (Some (Response_Data s (k \<noteq> 0) d (k = 3)))"
proof -
  define b where "b = fill_uint32 s @ [k] @ d"
  have "unpack_uint32 b 0 = Inr s"
    by (rule unpack_uint32_at [of _ "[]" _ "[k] @ d"]) (simp_all add: b_def)
  moreover have "pushlstring b 4 1 = Inr [k]"
    by (rule pushlstring_at [of _ "fill_uint32 s" _ d]) (simp_all add: b_def)
  moreover have "pushlstring b 5 (int (length b) - 5) = Inr d"
    by (rule pushlstring_at [of _ "fill_uint32 s @ [k]" _ "[]"]) (simp_all add: b_def)
  moreover have "\<not> int (length b) < 5"
    by (simp add: b_def)
  ultimately have "lunpackresponse b = Inr (Some (Response_Data s (k \<noteq> 0) d (k = 3)))"
    using assms by (auto simp: lunpackresponse_def)
  then show ?thesis
    by (simp only: b_def)
qed

lemma lunpackresponse_size: "lunpackresponse (fill_uint32 s @ [2] @ fill_uint32 n) = Inr (Some (Response_Size s n))"
proof -
  define b where "b = fill_uint32 s @ [2] @ fill_uint32 n"
  have "unpack_uint32 b 0 = Inr s"
    by (rule unpack_uint32_at [of _ "[]" _ "[2] @ fill_uint32 n"]) (simp_all add: b_def)
  moreover have "pushlstring b 4 1 = Inr [2]"
    by (rule pushlstring_at [of _ "fill_uint32 s" _ "fill_uint32 n"]) (simp_all add: b_def)
  moreover have "unpack_uint32 b 5 = Inr n"
    by (rule unpack_uint32_at [of _ "fill_uint32 s @ [2]" _ "[]"]) (simp_all add: b_def)
  moreover have "int (length b) = 9"
    by (simp add: b_def)
  ultimately have "lunpackresponse b = Inr (Some (Response_Size s n))"
    by (simp add: lunpackresponse_def)
  then show ?thesis
    by (simp only: b_def)
qed

lemma lunpackresponse_part: "lunpackresponse (response_part s (m, d)) = Inr (Some (Response_Data s True d m))"
  using lunpackresponse_data [of "if m then 3 else 4" s d] by (cases m) (simp_all add: response_part_def)

section \<open>A request arrives\<close>

text \<open>What the sender makes of a request: its packages in bytes.\<close>

definition request_packages :: "cluster_addr \<Rightarrow> u32 \<Rightarrow> bytes \<Rightarrow> bytes list" where
  "request_packages addr s msg = (if length msg < MULTI_PART then [request_bytes addr s msg]
     else request_head addr s (length msg) # map (request_part s) (parts msg))"

lemma mem_read_all: "mem_read (Some msg) 0 (int (length msg)) = Inr msg"
  by (rule mem_read_at [of _ "[]" _ "[]"]) simp_all

lemma lpackrequest_packages:
  assumes addr: "valid_addr addr" and session: "0 < session" "session < 2 ^ 31 - 1" and len: "length msg < 2 ^ 32"
  shows "lpackrequest addr session (Some msg) (int (length msg)) =
    (let bodies = request_packages addr (word_of_int session) msg in
     Inr (package (hd bodies), session + 1, if length msg < MULTI_PART then None else Some (map package (tl bodies))))"
proof -
  let ?s = "word_of_int session :: u32"
  have s: "sint ?s = session"
    using session by (simp add: signed_of_int signed_take_bit_int_eq_self)
  have sz: "unat (word_of_nat (length msg) :: u32) = length msg"
    using len by (simp add: unsigned_of_nat take_bit_nat_eq_self)
  let ?pack = "case addr of Addr_Id a \<Rightarrow> packreq_number a ?s (Some msg) (length msg) | _ \<Rightarrow> packreq_string addr ?s (Some msg) (length msg)"
  have "lpackrequest addr session (Some msg) (int (length msg)) = res_bind ?pack (\<lambda>(p, multipak).
      if multipak \<noteq> 0 then res_bind (lift_fault (packreq_multi ?s (Some msg) (length msg))) (\<lambda>ps. Inr (p, session + 1, Some ps))
      else Inr (p, session + 1, None))"
    using session by (simp add: lpackrequest_def s sz Let_def)
  moreover have small: "?pack = Inr (package (request_bytes addr ?s msg), 0)" if "length msg < MULTI_PART"
  proof (cases addr)
    case (Addr_Id a)
    have "push_buf (length msg + 9) [[0], fill_uint32 a, fill_uint32 ?s, msg] = Inr (package (request_bytes addr ?s msg))"
      using that by (intro push_buf_package) (simp_all add: request_bytes_def Addr_Id cluster_sizes)
    then show ?thesis
      using that by (simp add: Addr_Id packreq_number_def mem_read_all)
  next
    case (Addr_Name name)
    have "push_buf (length msg + 6 + length name) [[0x80], [of_nat (length name)], name, fill_uint32 ?s, msg] =
        Inr (package (request_bytes addr ?s msg))"
      using that addr by (intro push_buf_package) (simp_all add: request_bytes_def Addr_Name valid_addr_def cluster_sizes)
    then show ?thesis
      using that addr by (auto simp: Addr_Name packreq_string_def mem_read_all valid_addr_def Let_def)
  qed (use addr in \<open>simp add: valid_addr_def\<close>)
  moreover have large: "?pack = Inr (package (request_head addr ?s (length msg)), (length msg - 1) div MULTI_PART + 1)"
    if "\<not> length msg < MULTI_PART"
  proof (cases addr)
    case (Addr_Id a)
    have "push_buf 13 [[1], fill_uint32 a, fill_uint32 ?s, fill_uint32 (of_nat (length msg))] = Inr (package (request_head addr ?s (length msg)))"
      by (intro push_buf_package) (simp_all add: request_head_def Addr_Id cluster_sizes)
    then show ?thesis
      using that by (simp add: Addr_Id packreq_number_def)
  next
    case (Addr_Name name)
    have "push_buf (10 + length name) [[0x81], [of_nat (length name)], name, fill_uint32 ?s, fill_uint32 (of_nat (length msg))] =
        Inr (package (request_head addr ?s (length msg)))"
      using addr by (intro push_buf_package) (simp_all add: request_head_def Addr_Name valid_addr_def cluster_sizes)
    then show ?thesis
      using that addr by (auto simp: Addr_Name packreq_string_def valid_addr_def Let_def)
  qed (use addr in \<open>simp add: valid_addr_def\<close>)
  moreover have "packreq_multi ?s (Some msg) (length msg) = Inr (map (package \<circ> request_part ?s) (parts msg))"
    if "\<not> length msg < MULTI_PART"
  proof -
    have "0 < length msg"
      using that by (cases msg) (simp_all add: MULTI_PART_def)
    from packreq_parts_packages [OF this, of ?s "[]"] show ?thesis
      by (simp add: packreq_multi_def del: packreq_parts.simps)
  qed
  ultimately show ?thesis
    by (cases "length msg < MULTI_PART") (simp_all add: request_packages_def)
qed

text \<open>The packages of one session touch only its entry.\<close>

fun request_session :: "cluster_request \<Rightarrow> u32" where
  "request_session (Request addr s d) = s"
| "request_session (Multi_Request addr s n) = s"
| "request_session (Multi_Part s d padding) = s"

fun delivery_session :: "delivery \<Rightarrow> u32" where
  "delivery_session (Stored s) = s"
| "delivery_session (Deliver addr s d) = s"
| "delivery_session (Invalid_Large s) = s"

definition package_session :: "bytes \<Rightarrow> u32 option" where
  "package_session m = (case lunpackrequest m of Inl e \<Rightarrow> None | Inr r \<Rightarrow> Some (request_session r))"

lemma clusterd_complete_local:
  assumes "clusterd_complete large addr s d = Inr (x, large1)"
  shows "delivery_session x = s" and "t \<noteq> s \<Longrightarrow> large1 t = large t"
    and "large2 s = large s \<Longrightarrow> \<exists>large2'. clusterd_complete large2 addr s d = Inr (x, large2') \<and> large2' s = large1 s"
proof -
  show "delivery_session x = s" and "t \<noteq> s \<Longrightarrow> large1 t = large t"
    using assms by (auto simp: clusterd_complete_def res_bind_Inr_iff split: option.splits)
  assume same: "large2 s = large s"
  show "\<exists>large2'. clusterd_complete large2 addr s d = Inr (x, large2') \<and> large2' s = large1 s"
  proof (cases "large s")
    case None
    then show ?thesis
      using assms same by (auto simp: clusterd_complete_def)
  next
    case (Some req)
    then obtain r where "lconcat (lr_items req @ [Item_String d]) = Inr r"
      using assms by (auto simp: clusterd_complete_def res_bind_Inr_iff)
    then show ?thesis
      using assms same Some by (auto simp: clusterd_complete_def)
  qed
qed

lemma clusterd_data_local:
  assumes "clusterd_data large m = Inr (x, large1)"
  shows "package_session m = Some (delivery_session x)" and "t \<noteq> delivery_session x \<Longrightarrow> large1 t = large t"
    and "large2 (delivery_session x) = large (delivery_session x) \<Longrightarrow>
      \<exists>large2'. clusterd_data large2 m = Inr (x, large2') \<and> large2' (delivery_session x) = large1 (delivery_session x)"
proof -
  obtain r where r: "lunpackrequest m = Inr r"
    using assms by (auto simp: clusterd_data_def res_bind_Inr_iff)
  have ses: "delivery_session x = request_session r"
    using assms clusterd_complete_local(1)
    by (cases r) (auto simp: clusterd_data_def r split: bool.splits)
  then show "package_session m = Some (delivery_session x)"
    by (simp add: package_session_def r)
  show "t \<noteq> delivery_session x \<Longrightarrow> large1 t = large t"
    using assms clusterd_complete_local(2) unfolding ses
    by (cases r) (auto simp: clusterd_data_def r split: bool.splits)
  show "large2 (delivery_session x) = large (delivery_session x) \<Longrightarrow>
      \<exists>large2'. clusterd_data large2 m = Inr (x, large2') \<and> large2' (delivery_session x) = large1 (delivery_session x)"
    using assms clusterd_complete_local(3) unfolding ses
    by (cases r) (auto simp: clusterd_data_def r split: bool.splits)
qed

lemma clusterd_run_local:
  "clusterd_run large ms = Inr (out, large') \<Longrightarrow> large2 s = large s \<Longrightarrow>
    \<exists>large2'. clusterd_run large2 (filter (\<lambda>m. package_session m = Some s) ms) = Inr (filter (\<lambda>x. delivery_session x = s) out, large2') \<and>
      large2' s = large' s"
proof (induction ms arbitrary: large large2 out)
  case Nil
  then show ?case by auto
next
  case (Cons m ms)
  obtain x large1 where x: "clusterd_data large m = Inr (x, large1)"
    using Cons.prems(1) by (auto simp: res_bind_Inr_iff)
  obtain out1 where out1: "clusterd_run large1 ms = Inr (out1, large')" "out = x # out1"
    using Cons.prems(1) by (auto simp: x res_bind_Inr_iff)
  note facts = clusterd_data_local [OF x]
  show ?case
  proof (cases "delivery_session x = s")
    case True
    obtain large3 where large3: "clusterd_data large2 m = Inr (x, large3)" "large3 s = large1 s"
      using facts(3) Cons.prems(2) True by auto
    show ?thesis
      using Cons.IH [of large1 out1 large3, OF out1(1) large3(2)] True facts(1) by (auto simp: out1(2) large3(1))
  next
    case False
    have "large2 s = large1 s"
      using facts(2) False Cons.prems(2) by auto
    from Cons.IH [of large1 out1 large2, OF out1(1) this] show ?thesis
      using False facts(1) by (auto simp: out1(2))
  qed
qed

lemma parts_ne [simp]: "parts msg \<noteq> []"
  by (simp add: parts.simps)

lemma clusterd_run_parts:
  "large s = Some r \<Longrightarrow> lconcat (lr_items r @ map Item_String (map snd (parts msg))) = Inr res \<Longrightarrow>
    clusterd_run large (map (request_part s) (parts msg)) = Inr (replicate (length (parts msg) - 1) (Stored s) @
      [case res of None \<Rightarrow> Invalid_Large s | Some (buff, sz) \<Rightarrow> Deliver (lr_addr r) s buff], large(s := None))"
proof (induction msg arbitrary: large r rule: parts_induct)
  case (last msg)
  then show ?case
    by (simp add: parts.simps clusterd_data_def lunpackrequest_part clusterd_complete_def fun_eq_iff)
next
  case (more msg)
  let ?d = "take MULTI_PART msg" and ?rest = "drop MULTI_PART msg"
  let ?r = "add_item Addr_None (Item_String ?d) (Some r)"
  have "lr_addr ?r = lr_addr r" "lr_items ?r = lr_items r @ [Item_String ?d]"
    by (simp_all add: add_item_def)
  then have "lconcat (lr_items ?r @ map Item_String (map snd (parts ?rest))) = Inr res"
    using more.prems(2) more.hyps by (simp add: parts.simps [of msg])
  then have "clusterd_run (large(s := Some ?r)) (map (request_part s) (parts ?rest)) = Inr (replicate (length (parts ?rest) - 1) (Stored s) @
      [case res of None \<Rightarrow> Invalid_Large s | Some (buff, sz) \<Rightarrow> Deliver (lr_addr ?r) s buff], (large(s := Some ?r))(s := None))"
    by (intro more.IH) simp_all
  moreover obtain n where "length (parts ?rest) = Suc n"
    by (cases "parts ?rest") auto
  ultimately show ?case
    using more.hyps more.prems(1) \<open>lr_addr ?r = lr_addr r\<close>
    by (cases res) (auto simp: parts.simps [of msg] clusterd_data_def lunpackrequest_part fun_eq_iff)
qed

lemma clusterd_run_append:
  "clusterd_run large xs = Inr (out1, large1) \<Longrightarrow> clusterd_run large1 ys = Inr (out2, large2) \<Longrightarrow>
    clusterd_run large (xs @ ys) = Inr (out1 @ out2, large2)"
  by (induction xs arbitrary: large out1) (auto simp: res_bind_Inr_iff split: prod.splits)

text \<open>Parts whose header is gone are collected and then refused.\<close>

lemma clusterd_run_headless:
  assumes "MULTI_PART < length msg" and "large s = None"
  shows "clusterd_run large (map (request_part s) (parts msg)) =
    Inr (replicate (length (parts msg) - 1) (Stored s) @ [Invalid_Large s], large(s := None))"
proof -
  let ?r = "add_item Addr_None (Item_String (take MULTI_PART msg)) None" and ?rest = "drop MULTI_PART msg"
  have "lconcat (lr_items ?r @ map Item_String (map snd (parts ?rest))) = Inr None"
    by (simp add: add_item_def lconcat_def)
  from clusterd_run_parts [OF _ this, of "large(s := Some ?r)" s]
  have "clusterd_run (large(s := Some ?r)) (map (request_part s) (parts ?rest)) =
      Inr (replicate (length (parts ?rest) - 1) (Stored s) @ [Invalid_Large s], large(s := None))"
    by simp
  moreover obtain n where "length (parts ?rest) = Suc n"
    by (cases "parts ?rest") auto
  ultimately show ?thesis
    using assms by (simp add: parts.simps [of msg] clusterd_data_def lunpackrequest_part)
qed

lemma clusterd_run_request:
  assumes addr: "valid_addr addr" and len: "length msg < 2 ^ 31" and "large s = None"
  shows "clusterd_run large (request_packages addr s msg) =
    Inr (replicate (length (request_packages addr s msg) - 1) (Stored s) @ [Deliver addr s (map Some msg)], large)"
proof (cases "length msg < MULTI_PART")
  case True
  then show ?thesis
    using assms by (simp add: request_packages_def clusterd_data_def lunpackrequest_request clusterd_complete_def)
next
  case False
  let ?r = "add_item addr (Item_Number (int (length msg))) None"
  have n: "uint (of_nat (length msg) :: u32) = int (length msg)"
    using len by (simp add: unsigned_of_nat take_bit_nat_eq_self)
  have "lconcat (lr_items ?r @ map Item_String (map snd (parts msg))) = Inr (Some (map Some msg, length msg))"
    using lconcat_strings [of "map snd (parts msg)"] len by (simp add: concat_parts add_item_def)
  then have "clusterd_run (large(s := Some ?r)) (map (request_part s) (parts msg)) =
      Inr (replicate (length (parts msg) - 1) (Stored s) @ [Deliver addr s (map Some msg)], large(s := None))"
    using clusterd_run_parts [of "large(s := Some ?r)" s ?r msg] by (simp add: add_item_def)
  moreover obtain k where "length (parts msg) = Suc k"
    by (cases "parts msg") auto
  moreover have "large(s := None) = large"
    using assms(3) by auto
  ultimately show ?thesis
    using False assms by (simp add: request_packages_def clusterd_data_def lunpackrequest_head n)
qed

section \<open>A response arrives\<close>

definition response_for :: "u32 \<Rightarrow> bytes \<Rightarrow> bool" where
  "response_for s m = (case lunpackresponse m of Inr (Some r) \<Rightarrow> response_session r = s | _ \<Rightarrow> False)"

lemma cluster_call_filter:
  "\<forall>m \<in> set ms. \<exists>r. lunpackresponse m = Inr (Some r) \<Longrightarrow> cluster_call s data ms = cluster_call s data (filter (response_for s) ms)"
proof (induction ms arbitrary: data)
  case Nil
  then show ?case by simp
next
  case (Cons m ms)
  obtain r where r: "lunpackresponse m = Inr (Some r)"
    using Cons.prems by auto
  have "cluster_call s data' ms = cluster_call s data' (filter (response_for s) ms)" for data'
    using Cons by simp
  moreover have "response_for s m = (response_session r = s)"
    by (simp add: r response_for_def)
  ultimately show ?case
    by (cases "channel_response data r") (auto simp: r)
qed

lemma cluster_call_parts:
  "lconcat (items @ map Item_String (map snd (parts msg))) = Inr res \<Longrightarrow>
    cluster_call s (Some items) (map (response_part s) (parts msg)) = Inr (Some (True, map_option fst res))"
proof (induction msg arbitrary: items rule: parts_induct)
  case (last msg)
  then show ?case
    by (simp add: parts.simps lunpackresponse_part)
next
  case (more msg)
  let ?items = "items @ [Item_String (take MULTI_PART msg)]"
  have "cluster_call s (Some ?items) (map (response_part s) (parts (drop MULTI_PART msg))) = Inr (Some (True, map_option fst res))"
    using more.prems more.hyps by (intro more.IH) (simp add: parts.simps [of msg])
  then show ?case
    using more.hyps by (simp add: parts.simps [of msg] lunpackresponse_part)
qed

definition response_packages :: "u32 \<Rightarrow> bool \<Rightarrow> bytes \<Rightarrow> bytes list" where
  "response_packages s ok msg =
    (if ok \<and> MULTI_PART < length msg
     then (fill_uint32 s @ [2] @ fill_uint32 (of_nat (length msg))) # map (response_part s) (parts msg)
     else [fill_uint32 s @ [if ok then 1 else 0] @ take MULTI_PART msg])"

lemma lpackresponse_packages:
  "lpackresponse session ok (Some msg) (length msg) =
    (let bodies = response_packages (word_of_int session) ok msg in
     Inr (if ok \<and> MULTI_PART < length msg then Packages (map package bodies) else One_Package (package (hd bodies))))"
proof (cases "ok \<and> MULTI_PART < length msg")
  case True
  let ?s = "word_of_int session :: u32"
  have "push_buf 9 [fill_uint32 ?s, [2], fill_uint32 (of_nat (length msg))] =
      Inr (package (fill_uint32 ?s @ [2] @ fill_uint32 (of_nat (length msg))))"
    by (intro push_buf_package) (simp_all add: cluster_sizes)
  moreover have "0 < length msg"
    using True by auto
  from packresponse_parts_packages [OF this, of ?s "[]"]
  have "packresponse_parts ?s (Some msg) 0 (length msg) ((length msg - 1) div MULTI_PART + 1) = Inr (map (package \<circ> response_part ?s) (parts msg))"
    by (simp del: packresponse_parts.simps)
  ultimately show ?thesis
    using True by (simp add: lpackresponse_def response_packages_def Let_def del: packresponse_parts.simps)
next
  case False
  let ?s = "word_of_int session :: u32" and ?d = "take MULTI_PART msg"
  have cond: "(ok \<and> MULTI_PART < length msg) = False"
    using False by simp
  have len: "(if \<not> ok \<and> MULTI_PART < length msg then MULTI_PART else length msg) = length ?d"
    using False by auto
  have "mem_read (Some msg) 0 (int (length ?d)) = Inr ?d"
    by (rule mem_read_at [of _ "[]" _ "drop MULTI_PART msg"]) simp_all
  moreover have "push_buf (length ?d + 5) [fill_uint32 ?s, [if ok then 1 else 0], ?d] = Inr (package (fill_uint32 ?s @ [if ok then 1 else 0] @ ?d))"
    by (intro push_buf_package) (simp_all add: cluster_sizes)
  ultimately show ?thesis
    unfolding lpackresponse_def len Let_def response_packages_def cond if_False by (simp del: length_take)
qed

lemma cluster_call_response:
  assumes "length msg < 2 ^ 31"
  shows "cluster_call s None (response_packages s ok msg) = Inr (Some (ok, Some (map Some (if ok then msg else take MULTI_PART msg))))"
proof (cases "ok \<and> MULTI_PART < length msg")
  case True
  have n: "uint (of_nat (length msg) :: u32) = int (length msg)"
    using assms by (simp add: unsigned_of_nat take_bit_nat_eq_self)
  have "lconcat ([Item_Number (int (length msg))] @ map Item_String (map snd (parts msg))) = Inr (Some (map Some msg, length msg))"
    using lconcat_strings [of "map snd (parts msg)"] assms by (simp add: concat_parts)
  from cluster_call_parts [OF this, of s]
  have "cluster_call s (Some [Item_Number (int (length msg))]) (map (response_part s) (parts msg)) = Inr (Some (True, Some (map Some msg)))"
    by simp
  then show ?thesis
    using True lunpackresponse_size [of s "of_nat (length msg)"] by (simp add: response_packages_def n)
next
  case False
  have "lunpackresponse (fill_uint32 s @ [if ok then 1 else 0] @ take MULTI_PART msg) = Inr (Some (Response_Data s ok (take MULTI_PART msg) False))"
    using lunpackresponse_data [of "if ok then 1 else 0" s "take MULTI_PART msg"] by (cases ok) simp_all
  then show ?thesis
    using False by (auto simp: response_packages_def)
qed

section \<open>Properties\<close>

text \<open>C23: a request arrives once, whole and at its address. For every address (a number, or a name of 1 to
  255 bytes), session and message below 2^31 bytes, \<open>lpackrequest\<close> succeeds within its stack buffer; the packages, each behind
  its 16-bit size, make the receiving service store all but the last and then pass on exactly the message, to the address
  and with the session it was sent with, also when packages of any other sessions come in between.\<close>

theorem cluster_request_roundtrip:
  assumes "valid_addr addr" "0 < session" "session < 2 ^ 31 - 1" "length msg < 2 ^ 31"
  shows "\<exists>h t. lpackrequest addr session (Some msg) (int (length msg)) =
      Inr (package h, session + 1, if length msg < MULTI_PART then None else Some (map package t)) \<and>
    (length msg < MULTI_PART \<longrightarrow> t = []) \<and>
    (\<forall>large. large (word_of_int session) = None \<longrightarrow>
       clusterd_run large (h # t) = Inr (replicate (length t) (Stored (word_of_int session)) @ [Deliver addr (word_of_int session) (map Some msg)], large)) \<and>
    (\<forall>large ms out large'. large (word_of_int session) = None \<longrightarrow> filter (\<lambda>m. package_session m = Some (word_of_int session)) ms = h # t \<longrightarrow>
       clusterd_run large ms = Inr (out, large') \<longrightarrow>
       filter (\<lambda>x. delivery_session x = word_of_int session) out =
         replicate (length t) (Stored (word_of_int session)) @ [Deliver addr (word_of_int session) (map Some msg)])"
proof -
  let ?s = "word_of_int session :: u32"
  obtain h t where ht: "request_packages addr ?s msg = h # t"
    by (cases "request_packages addr ?s msg") (auto simp: request_packages_def split: if_splits)
  note run = clusterd_run_request [OF assms(1,4), of _ ?s, unfolded ht]
  have mixed: "filter (\<lambda>x. delivery_session x = ?s) out = replicate (length t) (Stored ?s) @ [Deliver addr ?s (map Some msg)]"
    if none: "large ?s = None" and ms: "filter (\<lambda>m. package_session m = Some ?s) ms = h # t" and res: "clusterd_run large ms = Inr (out, large')"
    for large ms out large'
  proof -
    obtain large2' where "clusterd_run large (filter (\<lambda>m. package_session m = Some ?s) ms) = Inr (filter (\<lambda>x. delivery_session x = ?s) out, large2')"
      using clusterd_run_local [OF res, of large ?s] by blast
    then show ?thesis
      using run [of large, OF none] by (simp add: ms)
  qed
  have "length msg < MULTI_PART \<longrightarrow> t = []"
    using ht by (auto simp: request_packages_def)
  moreover have "lpackrequest addr session (Some msg) (int (length msg)) =
      Inr (package h, session + 1, if length msg < MULTI_PART then None else Some (map package t))"
    using lpackrequest_packages [OF assms(1-3), of msg] assms(4) by (simp add: ht)
  ultimately show ?thesis
    using run mixed by (intro exI [of _ h] exI [of _ t] conjI allI impI) simp_all
qed



theorem cluster_request_roundtrip_witness:
  "\<exists>h. lpackrequest (Addr_Name [100, 98]) 5 (Some [1, 2, 3]) 3 = Inr (package h, 6, None) \<and>
    clusterd_run (\<lambda>_. None) [h] = Inr ([Deliver (Addr_Name [100, 98]) 5 [Some 1, Some 2, Some 3]], \<lambda>_. None)"
proof -
  have addr: "valid_addr (Addr_Name [100, 98])" and len: "length [1, 2, 3 :: byte] < 2 ^ 31"
    by (simp_all add: valid_addr_def)
  have small: "(length [1, 2, 3 :: byte] < MULTI_PART) = True"
    by (simp add: MULTI_PART_def)
  from cluster_request_roundtrip [OF addr _ _ len, of 5, unfolded small if_True]
  show ?thesis by fastforce
qed

text \<open>the response of a request reaches its caller whole. The packages \<open>lpackresponse\<close> makes of the
  result of a call, up to 2^31 bytes, fit its stack buffer; the caller that collects those of its session, whatever
  responses of other sessions come in between, gets success and exactly the result; of an error message longer than 32 KB it gets the
  first 32 KB.\<close>

theorem cluster_response_roundtrip:
  assumes "length msg < 2 ^ 31"
  shows "\<exists>bodies r. lpackresponse session ok (Some msg) (length msg) = Inr r \<and>
    (case r of One_Package p \<Rightarrow> [p] | Packages ps \<Rightarrow> ps) = map package bodies \<and>
    (\<forall>ms. (\<forall>m \<in> set ms. \<exists>r. lunpackresponse m = Inr (Some r)) \<longrightarrow> filter (response_for (word_of_int session)) ms = bodies \<longrightarrow>
       cluster_call (word_of_int session) None ms = Inr (Some (ok, Some (map Some (if ok then msg else take MULTI_PART msg)))))"
proof -
  let ?s = "word_of_int session :: u32"
  let ?bodies = "response_packages ?s ok msg"
  define r where "r = (if ok \<and> MULTI_PART < length msg then Packages (map package ?bodies) else One_Package (package (hd ?bodies)))"
  have "lpackresponse session ok (Some msg) (length msg) = Inr r"
    by (simp add: lpackresponse_packages r_def Let_def)
  moreover have "(case r of One_Package p \<Rightarrow> [p] | Packages ps \<Rightarrow> ps) = map package ?bodies"
    by (cases "ok \<and> MULTI_PART < length msg") (auto simp: r_def response_packages_def)
  moreover have "cluster_call ?s None ms = Inr (Some (ok, Some (map Some (if ok then msg else take MULTI_PART msg))))"
    if "\<forall>m \<in> set ms. \<exists>r. lunpackresponse m = Inr (Some r)" "filter (response_for ?s) ms = ?bodies" for ms
    using cluster_call_filter [OF that(1), of ?s None] cluster_call_response [OF assms, of ?s ok] by (simp only: that(2))
  ultimately show ?thesis
    by blast
qed

theorem cluster_response_roundtrip_witness:
  "\<exists>m. lpackresponse 7 True (Some [1, 2]) 2 = Inr (One_Package (package m)) \<and> cluster_call 7 None [m] = Inr (Some (True, Some [Some 1, Some 2]))"
proof -
  have len: "length [1, 2 :: byte] < 2 ^ 31"
    by simp
  obtain bodies r where b: "lpackresponse 7 True (Some [1, 2]) 2 = Inr r" "(case r of One_Package p \<Rightarrow> [p] | Packages ps \<Rightarrow> ps) = map package bodies"
      "\<forall>ms. (\<forall>m \<in> set ms. \<exists>r. lunpackresponse m = Inr (Some r)) \<longrightarrow> filter (response_for 7) ms = bodies \<longrightarrow>
        cluster_call 7 None ms = Inr (Some (True, Some [Some 1, Some 2]))"
    using cluster_response_roundtrip [OF len, of 7 True] by (auto simp: numeral_2_eq_2)
  let ?m = "fill_uint32 7 @ [1] @ [1, 2]"
  have r: "r = One_Package (package ?m)"
    using b(1) lpackresponse_packages [of 7 True "[1, 2]"] by (simp add: response_packages_def MULTI_PART_def numeral_2_eq_2)
  have "map package bodies = [package ?m]"
    unfolding b(2) [symmetric] r by simp
  then have "bodies = [?m]"
    by (cases bodies) auto
  moreover have "lunpackresponse ?m = Inr (Some (Response_Data 7 True [1, 2] False))"
    using lunpackresponse_data [of 1 7 "[1, 2]"] by simp
  ultimately show ?thesis
    using b r by (intro exI [of _ ?m]) (simp add: response_for_def)
qed

end
