(* ===== verification/SocketServer.thy ===== *)
theory SocketServer
  imports Prelude
begin

text \<open>
  \<open>socket_server.c\<close>: the socket thread. Services ask for something through a pipe (\<open>send_request\<close>), the thread works off
  the requests (\<open>ctrl_cmd\<close>) and the events of the poller, and gives results to \<open>skynet_socket.c\<close>. The model keeps the table
  of sockets with their send buffers, the counter of ids, the pipe and the events that are not worked off yet (from \<open>event_index\<close> on). What the
  operating system answers (how many bytes \<open>write\<close> took, what \<open>read\<close> returned, ...) is an argument of each function, a record
  \<open>sys\<close>; what is written to a socket is logged.

  A list of write buffers is a HOL list (its \<open>tail\<close> is the last one, NULL exactly when the list is empty). The fields of the
  union \<open>p\<close> are kept apart; \<open>size\<close> is used for TCP, \<open>udp_address\<close> for UDP. Nobody calls
  \<open>socket_server_userobject\<close>, so a negative size calls a NULL function. The registration of a socket with the poller
  is part of the socket: \<open>None\<close> when it is not registered, \<open>Some w\<close> when it is, with write events on when \<open>w\<close>.
\<close>

section \<open>State\<close>

definition MAX_SOCKET :: nat where "MAX_SOCKET = 65536"
definition MIN_READ_BUFFER :: nat where "MIN_READ_BUFFER = 64"

datatype socket_type_code =
    SOCKET_TYPE_INVALID | SOCKET_TYPE_RESERVE | SOCKET_TYPE_PLISTEN | SOCKET_TYPE_LISTEN | SOCKET_TYPE_CONNECTING
  | SOCKET_TYPE_CONNECTED | SOCKET_TYPE_HALFCLOSE | SOCKET_TYPE_PACCEPT | SOCKET_TYPE_BIND

datatype protocol = PROTOCOL_TCP | PROTOCOL_UDP | PROTOCOL_UDPv6

datatype priority = PRIORITY_HIGH | PRIORITY_LOW

record write_buffer =
  wbuf_buffer :: bytes
  wbuf_ptr :: nat
  wbuf_sz :: nat
  wbuf_udp_address :: bytes

record socket =
  sk_opaque :: u64
  sk_high :: "write_buffer list"
  sk_low :: "write_buffer list"
  sk_wb_size :: int
  sk_fd :: int
  sk_id :: int
  sk_protocol :: protocol
  sk_type :: socket_type_code
  sk_size :: nat
  sk_udp_address :: bytes
  sk_poll :: "bool option"

text \<open>The requests of the pipe.\<close>

datatype ctrl_request =
    Ctrl_Start int u64
  | Ctrl_Bind int int u64
  | Ctrl_Listen int int u64
  | Ctrl_Close int bool u64
  | Ctrl_Open int u64
  | Ctrl_Exit
  | Ctrl_Send int bytes int priority
  | Ctrl_Send_Udp int bytes int bytes
  | Ctrl_Set_Udp int bytes
  | Ctrl_Setopt int int int
  | Ctrl_Udp int int bool u64

record poll_event =
  ev_slot :: "nat option"
  ev_read :: bool
  ev_write :: bool

datatype sys_call = Sys_Write int bytes | Sys_Sendto int "bytes option" bytes | Sys_Close int

record socket_server =
  ss_slot :: "nat \<Rightarrow> socket"
  ss_alloc_id :: u32
  ss_checkctrl :: bool
  ss_ev :: "poll_event list"
  ss_pipe :: "ctrl_request list"
  ss_log :: "sys_call list"

text \<open>Results: the type and the message of \<open>socket_server_poll\<close>; a function that returns -1 gives \<open>None\<close>.\<close>

datatype poll_type = SOCKET_DATA | SOCKET_CLOSE | SOCKET_OPEN | SOCKET_ACCEPT | SOCKET_ERROR | SOCKET_EXIT | SOCKET_UDP

datatype poll_data = No_Data | Text string | Sys_Text string | Buffer bytes

record poll_message =
  pm_id :: int
  pm_opaque :: u64
  pm_ud :: int
  pm_data :: poll_data

type_synonym poll_result = "(poll_type \<times> poll_message) option"

text \<open>Answers of the operating system. \<open>Wrote n\<close> takes at most what was offered; \<open>W_Intr\<close>, \<open>W_Again\<close> are EINTR and EAGAIN.\<close>

datatype write_answer = Wrote nat | W_Intr | W_Again | W_Error

datatype read_answer = Got bytes | R_Intr | R_Again | R_Error string

datatype connect_answer = Resolve_Failed string | No_Socket string | Connected int string | In_Progress int

datatype accept_answer = Accepted int string | Accept_Limit string | Accept_Failed

record sys =
  os_writes :: "write_answer list"
  os_add_fails :: bool
  os_errno :: string
  os_read :: read_answer
  os_peer :: bytes
  os_connect :: connect_answer
  os_connected :: "string option"
  os_accept :: accept_answer

section \<open>Ids and slots\<close>

definition HASH_ID :: "int \<Rightarrow> nat" where
  "HASH_ID i = nat (i mod int MAX_SOCKET)"

definition put_slot :: "socket_server \<Rightarrow> nat \<Rightarrow> socket \<Rightarrow> socket_server" where
  "put_slot ss i s = ss\<lparr>ss_slot := (ss_slot ss)(i := s)\<rparr>"

definition log_call :: "socket_server \<Rightarrow> sys_call \<Rightarrow> socket_server" where
  "log_call ss c = ss\<lparr>ss_log := ss_log ss @ [c]\<rparr>"

text \<open>\<open>reserve_id\<close>: one round of the loop takes the next id; without another thread the compare-and-swap succeeds.\<close>

definition next_id :: "u32 \<Rightarrow> int \<times> u32" where
  "next_id alloc = (let v = alloc + 1; v = (if sint v < 0 then v AND 0x7fffffff else v) in (sint v, v))"

fun reserve_loop :: "nat \<Rightarrow> socket_server \<Rightarrow> int option \<times> socket_server" where
  "reserve_loop 0 ss = (None, ss)"
| "reserve_loop (Suc n) ss = (case next_id (ss_alloc_id ss) of (id', alloc) \<Rightarrow>
     let ss = ss\<lparr>ss_alloc_id := alloc\<rparr>; i = HASH_ID id'; s = ss_slot ss i in
     if sk_type s = SOCKET_TYPE_INVALID
     then (Some id', put_slot ss i (s\<lparr>sk_type := SOCKET_TYPE_RESERVE, sk_id := id', sk_fd := -1\<rparr>))
     else reserve_loop n ss)"

definition reserve_id :: "socket_server \<Rightarrow> int option \<times> socket_server" where
  "reserve_id ss = reserve_loop MAX_SOCKET ss"

definition empty_socket :: socket where
  "empty_socket = \<lparr>sk_opaque = 0, sk_high = [], sk_low = [], sk_wb_size = 0, sk_fd = 0, sk_id = 0, sk_protocol = PROTOCOL_TCP,
     sk_type = SOCKET_TYPE_INVALID, sk_size = 0, sk_udp_address = [], sk_poll = None\<rparr>"

definition socket_server_create :: socket_server where
  "socket_server_create = \<lparr>ss_slot = (\<lambda>_. empty_socket), ss_alloc_id = 0, ss_checkctrl = True, ss_ev = [], ss_pipe = [], ss_log = []\<rparr>"

text \<open>\<open>sp_add\<close>, \<open>sp_write\<close> and \<open>sp_del\<close>; a change of a socket that is not registered fails and is ignored.\<close>

definition sp_write :: "bool \<Rightarrow> socket \<Rightarrow> socket" where
  "sp_write enable s = s\<lparr>sk_poll := (if sk_poll s = None then None else Some enable)\<rparr>"

definition message_of :: "socket \<Rightarrow> poll_message" where
  "message_of s = \<lparr>pm_id = sk_id s, pm_opaque = sk_opaque s, pm_ud = 0, pm_data = No_Data\<rparr>"

definition force_close :: "socket_server \<Rightarrow> nat \<Rightarrow> (poll_message \<times> socket_server) res" where
  "force_close ss i = (let s = ss_slot ss i in
     if sk_type s = SOCKET_TYPE_INVALID then Inr (message_of s, ss)
     else if sk_type s = SOCKET_TYPE_RESERVE then Inl Assert_Failed
     else let s' = s\<lparr>sk_high := [], sk_low := [],
         sk_poll := (if sk_type s \<noteq> SOCKET_TYPE_PACCEPT \<and> sk_type s \<noteq> SOCKET_TYPE_PLISTEN then None else sk_poll s),
         sk_type := SOCKET_TYPE_INVALID\<rparr>;
       ss = (if sk_type s \<noteq> SOCKET_TYPE_BIND then log_call ss (Sys_Close (sk_fd s)) else ss)
       in Inr (message_of s, put_slot ss i s'))"

text \<open>\<open>new_fd\<close>: whether it succeeded, and the server.\<close>

definition new_fd :: "sys \<Rightarrow> socket_server \<Rightarrow> int \<Rightarrow> int \<Rightarrow> protocol \<Rightarrow> u64 \<Rightarrow> bool \<Rightarrow> (bool \<times> socket_server) res" where
  "new_fd os ss id' fd protocol opaque add = (let i = HASH_ID id'; s = ss_slot ss i in
     if sk_type s \<noteq> SOCKET_TYPE_RESERVE then Inl Assert_Failed
     else if add \<and> os_add_fails os then Inr (False, put_slot ss i (s\<lparr>sk_type := SOCKET_TYPE_INVALID\<rparr>))
     else if sk_high s \<noteq> [] \<or> sk_low s \<noteq> [] then Inl Assert_Failed
     else Inr (True, put_slot ss i (s\<lparr>sk_id := id', sk_fd := fd, sk_protocol := protocol, sk_size := MIN_READ_BUFFER,
       sk_opaque := opaque, sk_wb_size := 0, sk_poll := (if add then Some False else None)\<rparr>)))"

definition set_type :: "socket_server \<Rightarrow> int \<Rightarrow> socket_type_code \<Rightarrow> socket_server" where
  "set_type ss id' t = put_slot ss (HASH_ID id') ((ss_slot ss (HASH_ID id'))\<lparr>sk_type := t\<rparr>)"

text \<open>\<open>open_socket\<close>: the loop over the addresses ends without a socket, connected, or connecting.\<close>

definition open_socket :: "sys \<Rightarrow> int \<Rightarrow> u64 \<Rightarrow> socket_server \<Rightarrow> (poll_result \<times> socket_server) res" where
  "open_socket os id' opaque ss = (let
     msg = \<lparr>pm_id = id', pm_opaque = opaque, pm_ud = 0, pm_data = No_Data\<rparr>;
     failed = (\<lambda>ss d. (Some (SOCKET_ERROR, msg\<lparr>pm_data := d\<rparr>), set_type ss id' SOCKET_TYPE_INVALID));
     limit = (\<lambda>ss fd. failed (log_call ss (Sys_Close fd)) (Text ''reach skynet socket number limit'')) in
     case os_connect os of
       Resolve_Failed e \<Rightarrow> Inr (failed ss (Sys_Text e))
     | No_Socket e \<Rightarrow> Inr (failed ss (Sys_Text e))
     | Connected fd peer \<Rightarrow> res_bind (new_fd os ss id' fd PROTOCOL_TCP opaque True) (\<lambda>(ok, ss). Inr (
         if \<not> ok then limit ss fd
         else (Some (SOCKET_OPEN, msg\<lparr>pm_data := Sys_Text peer\<rparr>), set_type ss id' SOCKET_TYPE_CONNECTED)))
     | In_Progress fd \<Rightarrow> res_bind (new_fd os ss id' fd PROTOCOL_TCP opaque True) (\<lambda>(ok, ss). Inr (
         if \<not> ok then limit ss fd
         else (None, let ss = set_type ss id' SOCKET_TYPE_CONNECTING; i = HASH_ID id' in put_slot ss i (sp_write True (ss_slot ss i))))))"

section \<open>Sending\<close>

definition wb_list :: "priority \<Rightarrow> socket \<Rightarrow> write_buffer list" where
  "wb_list p s = (case p of PRIORITY_HIGH \<Rightarrow> sk_high s | PRIORITY_LOW \<Rightarrow> sk_low s)"

definition put_list :: "priority \<Rightarrow> write_buffer list \<Rightarrow> socket \<Rightarrow> socket" where
  "put_list p l s = (case p of PRIORITY_HIGH \<Rightarrow> s\<lparr>sk_high := l\<rparr> | PRIORITY_LOW \<Rightarrow> s\<lparr>sk_low := l\<rparr>)"

text \<open>The result of a function that closes the socket.\<close>

definition closing :: "(poll_message \<times> socket_server) res \<Rightarrow> poll_type \<Rightarrow> (poll_result \<times> socket_server) res" where
  "closing r t = res_bind r (\<lambda>(msg, ss). Inr (Some (t, msg), ss))"

text \<open>
  \<open>send_list_tcp\<close> with the answers of \<open>write\<close> in order; it returns the answers that are left. \<open>None\<close>: the answers ran out.
\<close>

fun send_list_tcp :: "write_answer list \<Rightarrow> priority \<Rightarrow> nat \<Rightarrow> socket_server \<Rightarrow> (write_answer list \<times> poll_result \<times> socket_server) res option" where
  "send_list_tcp [] p i ss = (if wb_list p (ss_slot ss i) = [] then Some (Inr ([], None, ss)) else None)"
| "send_list_tcp (w # ws) p i ss = (case wb_list p (ss_slot ss i) of
     [] \<Rightarrow> Some (Inr (w # ws, None, ss))
   | tmp # rest \<Rightarrow> (let s = ss_slot ss i in case w of
       W_Intr \<Rightarrow> send_list_tcp ws p i ss
     | W_Again \<Rightarrow> Some (Inr (ws, None, ss))
     | W_Error \<Rightarrow> Some (res_bind (force_close ss i) (\<lambda>(msg, ss). Inr (ws, Some (SOCKET_CLOSE, msg), ss)))
     | Wrote k \<Rightarrow> (let n = min k (wbuf_sz tmp); ss = log_call ss (Sys_Write (sk_fd s) (take n (drop (wbuf_ptr tmp) (wbuf_buffer tmp)))) in
         if n \<noteq> wbuf_sz tmp
         then Some (Inr (ws, None, put_slot ss i ((put_list p (tmp\<lparr>wbuf_ptr := wbuf_ptr tmp + n, wbuf_sz := wbuf_sz tmp - n\<rparr> # rest) s)\<lparr>
           sk_wb_size := sk_wb_size s - int n\<rparr>)))
         else send_list_tcp ws p i (put_slot ss i ((put_list p rest s)\<lparr>sk_wb_size := sk_wb_size s - int n\<rparr>)))))"

text \<open>\<open>udp_socket_address\<close>: the port and address bytes, none when the type does not match.\<close>

definition protocol_code :: "protocol \<Rightarrow> byte" where
  "protocol_code p = (case p of PROTOCOL_TCP \<Rightarrow> 0 | PROTOCOL_UDP \<Rightarrow> 1 | PROTOCOL_UDPv6 \<Rightarrow> 2)"

definition udp_socket_address :: "socket \<Rightarrow> bytes \<Rightarrow> bytes option" where
  "udp_socket_address s addr = (if hd addr \<noteq> protocol_code (sk_protocol s) then None
     else case sk_protocol s of PROTOCOL_UDP \<Rightarrow> Some (take 6 (tl addr)) | PROTOCOL_UDPv6 \<Rightarrow> Some (take 18 (tl addr)) | PROTOCOL_TCP \<Rightarrow> None)"

fun send_list_udp :: "write_answer list \<Rightarrow> priority \<Rightarrow> nat \<Rightarrow> socket_server \<Rightarrow> (write_answer list \<times> poll_result \<times> socket_server) res option" where
  "send_list_udp [] p i ss = (if wb_list p (ss_slot ss i) = [] then Some (Inr ([], None, ss)) else None)"
| "send_list_udp (w # ws) p i ss = (case wb_list p (ss_slot ss i) of
     [] \<Rightarrow> Some (Inr (w # ws, None, ss))
   | tmp # rest \<Rightarrow> (let s = ss_slot ss i in case w of
       Wrote k \<Rightarrow> (let ss = log_call ss (Sys_Sendto (sk_fd s) (udp_socket_address s (wbuf_udp_address tmp)) (drop (wbuf_ptr tmp) (wbuf_buffer tmp)))
         in send_list_udp ws p i (put_slot ss i ((put_list p rest s)\<lparr>sk_wb_size := sk_wb_size s - int (wbuf_sz tmp)\<rparr>)))
     | _ \<Rightarrow> Some (Inr (ws, None, ss))))"

definition send_list :: "write_answer list \<Rightarrow> priority \<Rightarrow> nat \<Rightarrow> socket_server \<Rightarrow> (write_answer list \<times> poll_result \<times> socket_server) res option" where
  "send_list ws p i ss = (if sk_protocol (ss_slot ss i) = PROTOCOL_TCP then send_list_tcp ws p i ss else send_list_udp ws p i ss)"

definition list_uncomplete :: "write_buffer list \<Rightarrow> bool" where
  "list_uncomplete l = (case l of [] \<Rightarrow> False | wb # _ \<Rightarrow> wbuf_ptr wb \<noteq> 0)"

definition raise_uncomplete :: "socket \<Rightarrow> socket res" where
  "raise_uncomplete s = (case sk_low s of [] \<Rightarrow> Inl Bad_Pointer
     | tmp # rest \<Rightarrow> if sk_high s \<noteq> [] then Inl Assert_Failed else Inr (s\<lparr>sk_low := rest, sk_high := [tmp]\<rparr>))"

definition on_slot :: "nat \<Rightarrow> (socket \<Rightarrow> socket) \<Rightarrow> socket_server \<Rightarrow> socket_server" where
  "on_slot i f ss = put_slot ss i (f (ss_slot ss i))"

definition send_buffer :: "write_answer list \<Rightarrow> nat \<Rightarrow> socket_server \<Rightarrow> (write_answer list \<times> poll_result \<times> socket_server) res option" where
  "send_buffer ws i ss =
    (if list_uncomplete (sk_low (ss_slot ss i)) then Some (Inl Assert_Failed)
     else res_obind (send_list ws PRIORITY_HIGH i ss) (\<lambda>(ws, r, ss).
       if r \<noteq> None then Some (Inr (ws, r, ss))
       else let s = ss_slot ss i in
         if sk_high s \<noteq> [] then Some (Inr (ws, None, ss))
         else if sk_low s \<noteq> [] then
           res_obind (send_list ws PRIORITY_LOW i ss) (\<lambda>(ws, r, ss).
             if r \<noteq> None then Some (Inr (ws, r, ss))
             else if list_uncomplete (sk_low (ss_slot ss i))
             then Some (res_bind (raise_uncomplete (ss_slot ss i)) (\<lambda>s. Inr (ws, None, put_slot ss i s)))
             else Some (Inr (ws, None, ss)))
         else let ss = on_slot i (sp_write False) ss in
           if sk_type s = SOCKET_TYPE_HALFCLOSE
           then Some (res_bind (closing (force_close ss i) SOCKET_CLOSE) (\<lambda>(r, ss). Inr (ws, r, ss)))
           else Some (Inr (ws, None, ss))))"

text \<open>
  \<open>append_sendbuffer_\<close> and its three callers: \<open>n\<close> bytes of the message are already written. A negative size would
  call the missing object interface.
\<close>

definition send_object_size :: "bytes \<Rightarrow> int \<Rightarrow> nat res" where
  "send_object_size buffer sz = (if sz < 0 then Inl Bad_Pointer else if sz > int (length buffer) then Inl Out_Of_Bounds else Inr (nat sz))"

definition append_sendbuffer :: "priority \<Rightarrow> bytes \<Rightarrow> nat \<Rightarrow> bytes \<Rightarrow> socket \<Rightarrow> socket" where
  "append_sendbuffer p msg n addr s =
     (put_list p (wb_list p s @ [\<lparr>wbuf_buffer = msg, wbuf_ptr = n, wbuf_sz = length msg - n, wbuf_udp_address = addr\<rparr>]) s)\<lparr>
       sk_wb_size := sk_wb_size s + int (length msg - n)\<rparr>"

definition send_buffer_empty :: "socket \<Rightarrow> bool" where
  "send_buffer_empty s \<longleftrightarrow> sk_high s = [] \<and> sk_low s = []"

text \<open>The first write of \<open>send_socket\<close>; the answer is the first of \<open>os_writes\<close>.\<close>

definition send_socket :: "sys \<Rightarrow> int \<Rightarrow> bytes \<Rightarrow> int \<Rightarrow> priority \<Rightarrow> bytes option \<Rightarrow> socket_server \<Rightarrow> (poll_result \<times> socket_server) res option" where
  "send_socket os id' buffer sz p udp_address ss = (let i = HASH_ID id'; s = ss_slot ss i in
     res_obind (Some (send_object_size buffer sz)) (\<lambda>sz. let msg = take sz buffer in
       if sk_type s = SOCKET_TYPE_INVALID \<or> sk_id s \<noteq> id' \<or> sk_type s = SOCKET_TYPE_HALFCLOSE \<or> sk_type s = SOCKET_TYPE_PACCEPT \<or>
          sk_type s = SOCKET_TYPE_PLISTEN \<or> sk_type s = SOCKET_TYPE_LISTEN
       then Some (Inr (None, ss))
       else let addr = (case udp_address of None \<Rightarrow> sk_udp_address s | Some a \<Rightarrow> a) in
       if send_buffer_empty s \<and> sk_type s = SOCKET_TYPE_CONNECTED then
         (case os_writes os of [] \<Rightarrow> None | w # _ \<Rightarrow>
           if sk_protocol s = PROTOCOL_TCP then
             (if w = W_Error then Some (closing (force_close ss i) SOCKET_CLOSE)
              else let n = (case w of Wrote k \<Rightarrow> min k sz | _ \<Rightarrow> 0); ss = log_call ss (Sys_Write (sk_fd s) (take n msg)) in
                if n = sz then Some (Inr (None, ss))
                else Some (Inr (None, put_slot ss i (sp_write True (append_sendbuffer PRIORITY_HIGH msg n [] s)))))
           else
             (case w of
                Wrote k \<Rightarrow> Some (Inr (None, log_call ss (Sys_Sendto (sk_fd s) (udp_socket_address s addr) msg)))
              | _ \<Rightarrow> Some (Inr (None, put_slot ss i (sp_write True (append_sendbuffer p msg 0 addr s))))))
       else if sk_protocol s = PROTOCOL_TCP then Some (Inr (None, put_slot ss i (append_sendbuffer p msg 0 [] s)))
       else Some (Inr (None, put_slot ss i (append_sendbuffer p msg 0 addr s)))))"

section \<open>The other requests\<close>

definition listen_socket :: "sys \<Rightarrow> int \<Rightarrow> int \<Rightarrow> u64 \<Rightarrow> socket_server \<Rightarrow> (poll_result \<times> socket_server) res" where
  "listen_socket os id' fd opaque ss = res_bind (new_fd os ss id' fd PROTOCOL_TCP opaque False) (\<lambda>(ok, ss). Inr (
     if ok then (None, set_type ss id' SOCKET_TYPE_PLISTEN)
     else (Some (SOCKET_ERROR, \<lparr>pm_id = id', pm_opaque = opaque, pm_ud = 0, pm_data = Text ''reach skynet socket number limit''\<rparr>),
       set_type (log_call ss (Sys_Close fd)) id' SOCKET_TYPE_INVALID)))"

definition close_socket :: "sys \<Rightarrow> int \<Rightarrow> bool \<Rightarrow> u64 \<Rightarrow> socket_server \<Rightarrow> (poll_result \<times> socket_server) res option" where
  "close_socket os id' shutdown opaque ss = (let i = HASH_ID id'; s = ss_slot ss i in
     if sk_type s = SOCKET_TYPE_INVALID \<or> sk_id s \<noteq> id'
     then Some (Inr (Some (SOCKET_CLOSE, \<lparr>pm_id = id', pm_opaque = opaque, pm_ud = 0, pm_data = No_Data\<rparr>), ss))
     else res_obind (if send_buffer_empty s then Some (Inr (os_writes os, None, ss)) else send_buffer (os_writes os) i ss) (\<lambda>(ws, r, ss).
       if r \<noteq> None then Some (Inr (r, ss))
       else if shutdown \<or> send_buffer_empty (ss_slot ss i)
       then Some (res_bind (force_close ss i) (\<lambda>(msg, ss). Inr (Some (SOCKET_CLOSE, msg\<lparr>pm_id := id', pm_opaque := opaque\<rparr>), ss)))
       else Some (Inr (None, set_type ss id' SOCKET_TYPE_HALFCLOSE))))"

definition bind_socket :: "sys \<Rightarrow> int \<Rightarrow> int \<Rightarrow> u64 \<Rightarrow> socket_server \<Rightarrow> (poll_result \<times> socket_server) res" where
  "bind_socket os id' fd opaque ss = (let msg = \<lparr>pm_id = id', pm_opaque = opaque, pm_ud = 0, pm_data = No_Data\<rparr> in
     res_bind (new_fd os ss id' fd PROTOCOL_TCP opaque True) (\<lambda>(ok, ss). Inr (
       if \<not> ok then (Some (SOCKET_ERROR, msg\<lparr>pm_data := Text ''reach skynet socket number limit''\<rparr>), ss)
       else (Some (SOCKET_OPEN, msg\<lparr>pm_data := Text ''binding''\<rparr>), set_type ss id' SOCKET_TYPE_BIND))))"

definition start_socket :: "sys \<Rightarrow> int \<Rightarrow> u64 \<Rightarrow> socket_server \<Rightarrow> (poll_result \<times> socket_server) res" where
  "start_socket os id' opaque ss = (let i = HASH_ID id'; s = ss_slot ss i;
     msg = \<lparr>pm_id = id', pm_opaque = opaque, pm_ud = 0, pm_data = No_Data\<rparr> in
     if sk_type s = SOCKET_TYPE_INVALID \<or> sk_id s \<noteq> id' then Inr (Some (SOCKET_ERROR, msg\<lparr>pm_data := Text ''invalid socket''\<rparr>), ss)
     else if sk_type s = SOCKET_TYPE_PACCEPT \<or> sk_type s = SOCKET_TYPE_PLISTEN then
       (if os_add_fails os
        then res_bind (force_close ss i) (\<lambda>(m, ss). Inr (Some (SOCKET_ERROR, m\<lparr>pm_data := Sys_Text (os_errno os)\<rparr>), ss))
        else Inr (Some (SOCKET_OPEN, msg\<lparr>pm_data := Text ''start''\<rparr>),
          put_slot ss i (s\<lparr>sk_poll := Some False, sk_opaque := opaque,
            sk_type := (if sk_type s = SOCKET_TYPE_PACCEPT then SOCKET_TYPE_CONNECTED else SOCKET_TYPE_LISTEN)\<rparr>)))
     else if sk_type s = SOCKET_TYPE_CONNECTED
     then Inr (Some (SOCKET_OPEN, msg\<lparr>pm_data := Text ''transfer''\<rparr>), put_slot ss i (s\<lparr>sk_opaque := opaque\<rparr>))
     else Inr (None, ss))"

definition add_udp_socket :: "sys \<Rightarrow> int \<Rightarrow> int \<Rightarrow> bool \<Rightarrow> u64 \<Rightarrow> socket_server \<Rightarrow> (poll_result \<times> socket_server) res" where
  "add_udp_socket os id' fd ipv6 opaque ss =
     res_bind (new_fd os ss id' fd (if ipv6 then PROTOCOL_UDPv6 else PROTOCOL_UDP) opaque True) (\<lambda>(ok, ss). Inr (None,
       if \<not> ok then set_type (log_call ss (Sys_Close fd)) id' SOCKET_TYPE_INVALID
       else on_slot (HASH_ID id') (\<lambda>s. s\<lparr>sk_type := SOCKET_TYPE_CONNECTED, sk_udp_address := replicate 19 0\<rparr>) ss))"

definition set_udp_address :: "int \<Rightarrow> bytes \<Rightarrow> socket_server \<Rightarrow> (poll_result \<times> socket_server) res" where
  "set_udp_address id' addr ss = (let i = HASH_ID id'; s = ss_slot ss i in
     if sk_type s = SOCKET_TYPE_INVALID \<or> sk_id s \<noteq> id' then Inr (None, ss)
     else if hd addr \<noteq> protocol_code (sk_protocol s)
     then Inr (Some (SOCKET_ERROR, (message_of s)\<lparr>pm_data := Text ''protocol mismatch''\<rparr>), ss)
     else let n = (if hd addr = protocol_code PROTOCOL_UDP then 7 else 19) in
       Inr (None, put_slot ss i (s\<lparr>sk_udp_address := take n addr @ drop n (sk_udp_address s)\<rparr>)))"

definition ctrl_switch :: "sys \<Rightarrow> ctrl_request \<Rightarrow> socket_server \<Rightarrow> (poll_result \<times> socket_server) res option" where
  "ctrl_switch os req ss = (case req of
     Ctrl_Start id' opaque \<Rightarrow> Some (start_socket os id' opaque ss)
   | Ctrl_Bind id' fd opaque \<Rightarrow> Some (bind_socket os id' fd opaque ss)
   | Ctrl_Listen id' fd opaque \<Rightarrow> Some (listen_socket os id' fd opaque ss)
   | Ctrl_Close id' shutdown opaque \<Rightarrow> close_socket os id' shutdown opaque ss
   | Ctrl_Open id' opaque \<Rightarrow> Some (open_socket os id' opaque ss)
   | Ctrl_Exit \<Rightarrow> Some (Inr (Some (SOCKET_EXIT, \<lparr>pm_id = 0, pm_opaque = 0, pm_ud = 0, pm_data = No_Data\<rparr>), ss))
   | Ctrl_Send id' buffer sz p \<Rightarrow> send_socket os id' buffer sz p None ss
   | Ctrl_Send_Udp id' buffer sz addr \<Rightarrow> send_socket os id' buffer sz PRIORITY_HIGH (Some addr) ss
   | Ctrl_Set_Udp id' addr \<Rightarrow> Some (set_udp_address id' addr ss)
   | Ctrl_Setopt id' what val \<Rightarrow> Some (Inr (None, ss))
   | Ctrl_Udp id' fd ipv6 opaque \<Rightarrow> Some (add_udp_socket os id' fd ipv6 opaque ss))"

text \<open>The oldest request of the pipe.\<close>

definition ctrl_cmd :: "sys \<Rightarrow> socket_server \<Rightarrow> (poll_result \<times> socket_server) res option" where
  "ctrl_cmd os ss = (case ss_pipe ss of [] \<Rightarrow> None | req # rest \<Rightarrow> ctrl_switch os req (ss\<lparr>ss_pipe := rest\<rparr>))"

section \<open>Events\<close>

definition forward_message_tcp :: "sys \<Rightarrow> nat \<Rightarrow> socket_server \<Rightarrow> (poll_result \<times> socket_server) res" where
  "forward_message_tcp os i ss = (let s = ss_slot ss i; sz = sk_size s in
     case os_read os of
       R_Intr \<Rightarrow> Inr (None, ss)
     | R_Again \<Rightarrow> Inr (None, ss)
     | R_Error e \<Rightarrow> res_bind (force_close ss i) (\<lambda>(msg, ss). Inr (Some (SOCKET_ERROR, msg\<lparr>pm_data := Sys_Text e\<rparr>), ss))
     | Got d \<Rightarrow> (let data = take sz d; n = length data in
         if n = 0 then closing (force_close ss i) SOCKET_CLOSE
         else if sk_type s = SOCKET_TYPE_HALFCLOSE then Inr (None, ss)
         else if n = sz \<and> sz * 2 \<ge> 2 ^ 31 then Inl Int_Overflow
         else let size = (if n = sz then sz * 2 else if sz > MIN_READ_BUFFER \<and> n * 2 < sz then sz div 2 else sz) in
           Inr (Some (SOCKET_DATA, \<lparr>pm_id = sk_id s, pm_opaque = sk_opaque s, pm_ud = int n, pm_data = Buffer data\<rparr>),
             put_slot ss i (s\<lparr>sk_size := size\<rparr>))))"

text \<open>\<open>os_peer\<close>: the port and address of the sender of a datagram, 6 bytes for IPv4.\<close>

definition gen_udp_address :: "protocol \<Rightarrow> bytes \<Rightarrow> bytes" where
  "gen_udp_address p peer = protocol_code p # peer"

definition forward_message_udp :: "sys \<Rightarrow> nat \<Rightarrow> socket_server \<Rightarrow> (poll_result \<times> socket_server) res" where
  "forward_message_udp os i ss = (let s = ss_slot ss i in
     case os_read os of
       R_Intr \<Rightarrow> Inr (None, ss)
     | R_Again \<Rightarrow> Inr (None, ss)
     | R_Error e \<Rightarrow> res_bind (force_close ss i) (\<lambda>(msg, ss). Inr (Some (SOCKET_ERROR, msg\<lparr>pm_data := Sys_Text e\<rparr>), ss))
     | Got d \<Rightarrow> (let data = take 65535 d; p = (if length (os_peer os) = 6 then PROTOCOL_UDP else PROTOCOL_UDPv6) in
         if sk_protocol s \<noteq> p then Inr (None, ss)
         else Inr (Some (SOCKET_UDP, \<lparr>pm_id = sk_id s, pm_opaque = sk_opaque s, pm_ud = int (length data),
           pm_data = Buffer (data @ gen_udp_address p (os_peer os))\<rparr>), ss)))"

definition report_connect :: "sys \<Rightarrow> nat \<Rightarrow> socket_server \<Rightarrow> (poll_result \<times> socket_server) res" where
  "report_connect os i ss = (case os_connected os of
     Some e \<Rightarrow> res_bind (force_close ss i) (\<lambda>(msg, ss). Inr (Some (SOCKET_ERROR, msg\<lparr>pm_data := Sys_Text e\<rparr>), ss))
   | None \<Rightarrow> (let s = ss_slot ss i; s' = s\<lparr>sk_type := SOCKET_TYPE_CONNECTED\<rparr> in
       Inr (Some (SOCKET_OPEN, (message_of s)\<lparr>pm_data := Sys_Text (os_errno os)\<rparr>),
         put_slot ss i (if send_buffer_empty s then sp_write False s' else s'))))"

text \<open>\<open>report_accept\<close>: the poller tries again (\<open>None\<close>), or returns a result.\<close>

definition report_accept :: "sys \<Rightarrow> nat \<Rightarrow> socket_server \<Rightarrow> (poll_result \<times> socket_server) res" where
  "report_accept os i ss = (let s = ss_slot ss i in case os_accept os of
     Accept_Limit e \<Rightarrow> Inr (Some (SOCKET_ERROR, (message_of s)\<lparr>pm_data := Sys_Text e\<rparr>), ss)
   | Accept_Failed \<Rightarrow> Inr (None, ss)
   | Accepted fd peer \<Rightarrow> (case reserve_id ss of
       (None, ss) \<Rightarrow> Inr (None, log_call ss (Sys_Close fd))
     | (Some id', ss) \<Rightarrow> res_bind (new_fd os ss id' fd PROTOCOL_TCP (sk_opaque s) False) (\<lambda>(ok, ss). Inr (
         if \<not> ok then (None, log_call ss (Sys_Close fd))
         else (Some (SOCKET_ACCEPT, (message_of s)\<lparr>pm_ud := id', pm_data := Sys_Text peer\<rparr>), set_type ss id' SOCKET_TYPE_PACCEPT)))))"

text \<open>The first waiting event of the closed socket is struck out.\<close>

fun clear_events :: "(nat \<Rightarrow> socket) \<Rightarrow> int \<Rightarrow> poll_event list \<Rightarrow> poll_event list" where
  "clear_events slot id' [] = []"
| "clear_events slot id' (e # es) = (case ev_slot e of
     Some i \<Rightarrow> if sk_type (slot i) = SOCKET_TYPE_INVALID \<and> sk_id (slot i) = id' then e\<lparr>ev_slot := None\<rparr> # es
       else e # clear_events slot id' es
   | None \<Rightarrow> e # clear_events slot id' es)"

definition clear_closed_event :: "poll_result \<Rightarrow> socket_server \<Rightarrow> socket_server" where
  "clear_closed_event r ss = (case r of
     Some (t, msg) \<Rightarrow> if t = SOCKET_CLOSE \<or> t = SOCKET_ERROR then ss\<lparr>ss_ev := clear_events (ss_slot ss) (pm_id msg) (ss_ev ss)\<rparr> else ss
   | None \<Rightarrow> ss)"

text \<open>One round of \<open>socket_server_poll\<close>: it returns a result, or goes round again.\<close>

datatype poll_answer = Again | Return poll_result

definition answer :: "poll_result \<Rightarrow> poll_answer" where
  "answer r = (if r = None then Again else Return r)"

definition dispatch_event :: "sys \<Rightarrow> socket_server \<Rightarrow> (poll_answer \<times> socket_server) res option" where
  "dispatch_event os ss = (case ss_ev ss of [] \<Rightarrow> None | e # es \<Rightarrow>
     let ss' = ss\<lparr>ss_ev := es\<rparr>; plain = (\<lambda>r. Some (res_bind r (\<lambda>(r, ss). Inr (answer r, ss)))) in
     (case ev_slot e of
       None \<Rightarrow> Some (Inr (Again, ss'))
     | Some i \<Rightarrow> (let s = ss_slot ss i in
         if sk_type s = SOCKET_TYPE_CONNECTING then plain (report_connect os i ss')
         else if sk_type s = SOCKET_TYPE_LISTEN then plain (report_accept os i ss')
         else if sk_type s = SOCKET_TYPE_INVALID then Some (Inr (Again, ss'))
         else if ev_read e then
           (if sk_protocol s = PROTOCOL_TCP then
              plain (res_bind (forward_message_tcp os i ss') (\<lambda>(r, ss). Inr (r,
                if ev_write e \<and> (case r of Some (t, _) \<Rightarrow> t \<noteq> SOCKET_CLOSE \<and> t \<noteq> SOCKET_ERROR | None \<Rightarrow> True)
                then ss\<lparr>ss_ev := e\<lparr>ev_read := False\<rparr> # ss_ev ss\<rparr> else ss)))
            else
              plain (res_bind (forward_message_udp os i ss') (\<lambda>(r, ss). Inr (r,
                case r of
                  Some (t, _) \<Rightarrow> (if t = SOCKET_UDP then ss\<lparr>ss_ev := e # ss_ev ss\<rparr>
                    else if ev_write e \<and> t \<noteq> SOCKET_CLOSE \<and> t \<noteq> SOCKET_ERROR then ss\<lparr>ss_ev := e\<lparr>ev_read := False\<rparr> # ss_ev ss\<rparr> else ss)
                | None \<Rightarrow> (if ev_write e then ss\<lparr>ss_ev := e\<lparr>ev_read := False\<rparr> # ss_ev ss\<rparr> else ss)))))
         else if ev_write e then
           res_obind (send_buffer (os_writes os) i ss') (\<lambda>(ws, r, ss). Some (Inr (answer r, ss)))
         else Some (Inr (Again, ss')))))"

definition poll_round :: "sys \<Rightarrow> poll_event list \<Rightarrow> socket_server \<Rightarrow> (poll_answer \<times> socket_server) res option" where
  "poll_round os evs ss =
    (if ss_checkctrl ss \<and> ss_pipe ss \<noteq> [] then
       res_obind (ctrl_cmd os ss) (\<lambda>(r, ss). Some (Inr (answer r, clear_closed_event r ss)))
     else let ss = ss\<lparr>ss_checkctrl := False\<rparr> in
       if ss_ev ss = [] then
         (let ss = ss\<lparr>ss_ev := evs, ss_checkctrl := True\<rparr> in
          if evs = [] then Some (Inr (Return None, ss)) else dispatch_event os ss)
       else dispatch_event os ss)"

section \<open>Calls of the services\<close>

text \<open>
  Each call of a service ends in one \<open>send_request\<close>, whose write to the pipe is atomic. An opening call returns the reserved id,
  \<open>None\<close> stands for -1. The file descriptors that \<open>do_bind\<close>, \<open>do_listen\<close> and \<open>socket\<close> give are arguments.
\<close>

definition send_request :: "ctrl_request \<Rightarrow> socket_server \<Rightarrow> socket_server" where
  "send_request req ss = ss\<lparr>ss_pipe := ss_pipe ss @ [req]\<rparr>"

definition SIZEOF_REQUEST_OPEN :: nat where "SIZEOF_REQUEST_OPEN = 24"

definition socket_server_connect :: "u64 \<Rightarrow> string \<Rightarrow> socket_server \<Rightarrow> int option \<times> socket_server" where
  "socket_server_connect opaque addr ss =
    (if length addr + SIZEOF_REQUEST_OPEN \<ge> 256 then (None, ss)
     else case reserve_id ss of
       (None, ss) \<Rightarrow> (None, ss)
     | (Some id', ss) \<Rightarrow> (Some id', send_request (Ctrl_Open id' opaque) ss))"

text \<open>The calls that send: the size of the buffers before the request, or -1.\<close>

definition free_buffer :: "bytes \<Rightarrow> int \<Rightarrow> unit res" where
  "free_buffer buffer sz = res_bind (send_object_size buffer sz) (\<lambda>_. Inr ())"

definition known_id :: "int \<Rightarrow> socket_server \<Rightarrow> bool" where
  "known_id id' ss \<longleftrightarrow> sk_id (ss_slot ss (HASH_ID id')) = id' \<and> sk_type (ss_slot ss (HASH_ID id')) \<noteq> SOCKET_TYPE_INVALID"

definition socket_server_send :: "int \<Rightarrow> bytes \<Rightarrow> int \<Rightarrow> socket_server \<Rightarrow> (int \<times> socket_server) res" where
  "socket_server_send id' buffer sz ss =
    (if \<not> known_id id' ss then res_bind (free_buffer buffer sz) (\<lambda>_. Inr (-1, ss))
     else Inr (sk_wb_size (ss_slot ss (HASH_ID id')), send_request (Ctrl_Send id' buffer sz PRIORITY_HIGH) ss))"

definition socket_server_send_lowpriority :: "int \<Rightarrow> bytes \<Rightarrow> int \<Rightarrow> socket_server \<Rightarrow> socket_server res" where
  "socket_server_send_lowpriority id' buffer sz ss =
    (if \<not> known_id id' ss then res_bind (free_buffer buffer sz) (\<lambda>_. Inr ss)
     else Inr (send_request (Ctrl_Send id' buffer sz PRIORITY_LOW) ss))"

definition socket_server_exit :: "socket_server \<Rightarrow> socket_server" where
  "socket_server_exit ss = send_request Ctrl_Exit ss"

definition socket_server_close :: "u64 \<Rightarrow> int \<Rightarrow> socket_server \<Rightarrow> socket_server" where
  "socket_server_close opaque id' ss = send_request (Ctrl_Close id' False opaque) ss"

definition socket_server_shutdown :: "u64 \<Rightarrow> int \<Rightarrow> socket_server \<Rightarrow> socket_server" where
  "socket_server_shutdown opaque id' ss = send_request (Ctrl_Close id' True opaque) ss"

definition socket_server_listen :: "u64 \<Rightarrow> int option \<Rightarrow> socket_server \<Rightarrow> int option \<times> socket_server" where
  "socket_server_listen opaque listened ss = (case listened of
     None \<Rightarrow> (None, ss)
   | Some fd \<Rightarrow> (case reserve_id ss of
       (None, ss) \<Rightarrow> (None, log_call ss (Sys_Close fd))
     | (Some id', ss) \<Rightarrow> (Some id', send_request (Ctrl_Listen id' fd opaque) ss)))"

definition socket_server_bind :: "u64 \<Rightarrow> int \<Rightarrow> socket_server \<Rightarrow> int option \<times> socket_server" where
  "socket_server_bind opaque fd ss = (case reserve_id ss of
     (None, ss) \<Rightarrow> (None, ss)
   | (Some id', ss) \<Rightarrow> (Some id', send_request (Ctrl_Bind id' fd opaque) ss))"

definition socket_server_start :: "u64 \<Rightarrow> int \<Rightarrow> socket_server \<Rightarrow> socket_server" where
  "socket_server_start opaque id' ss = send_request (Ctrl_Start id' opaque) ss"

definition socket_server_nodelay :: "int \<Rightarrow> socket_server \<Rightarrow> socket_server" where
  "socket_server_nodelay id' ss = send_request (Ctrl_Setopt id' 1 1) ss"

definition socket_server_udp :: "u64 \<Rightarrow> (int \<times> bool) option \<Rightarrow> socket_server \<Rightarrow> int option \<times> socket_server" where
  "socket_server_udp opaque bound ss = (case bound of
     None \<Rightarrow> (None, ss)
   | Some (fd, ipv6) \<Rightarrow> (case reserve_id ss of
       (None, ss) \<Rightarrow> (None, log_call ss (Sys_Close fd))
     | (Some id', ss) \<Rightarrow> (Some id', send_request (Ctrl_Udp id' fd ipv6 opaque) ss)))"

text \<open>The length of an address by its first byte, 0 when that is neither.\<close>

definition udp_address_size :: "bytes \<Rightarrow> nat" where
  "udp_address_size addr = (if hd addr = protocol_code PROTOCOL_UDP then 1 + 2 + 4
     else if hd addr = protocol_code PROTOCOL_UDPv6 then 1 + 2 + 16 else 0)"

definition socket_server_udp_send :: "int \<Rightarrow> bytes \<Rightarrow> bytes \<Rightarrow> int \<Rightarrow> socket_server \<Rightarrow> (int \<times> socket_server) res" where
  "socket_server_udp_send id' addr buffer sz ss =
    (if \<not> known_id id' ss then res_bind (free_buffer buffer sz) (\<lambda>_. Inr (-1, ss))
     else let n = udp_address_size addr in
       if n = 0 then res_bind (free_buffer buffer sz) (\<lambda>_. Inr (-1, ss))
       else Inr (sk_wb_size (ss_slot ss (HASH_ID id')), send_request (Ctrl_Send_Udp id' buffer sz (take n addr)) ss))"

text \<open>\<open>socket_server_udp_connect\<close>: \<open>getaddrinfo\<close> fails, or gives the port and address (6 bytes for IPv4, 18 for IPv6).\<close>

definition socket_server_udp_connect :: "int \<Rightarrow> bytes option \<Rightarrow> socket_server \<Rightarrow> bool \<times> socket_server" where
  "socket_server_udp_connect id' resolved ss = (case resolved of
     None \<Rightarrow> (False, ss)
   | Some peer \<Rightarrow> (True, send_request (Ctrl_Set_Udp id'
       (gen_udp_address (if length peer = 6 then PROTOCOL_UDP else PROTOCOL_UDPv6) peer)) ss))"

definition socket_server_udp_address :: "bytes \<Rightarrow> nat \<Rightarrow> bytes option" where
  "socket_server_udp_address data ud = (let address = drop ud data; n = udp_address_size address in
     if n = 0 then None else Some (take n address))"

text \<open>\<open>socket_server_release\<close>: every slot that is not reserved is closed.\<close>

fun release_slots :: "nat list \<Rightarrow> socket_server \<Rightarrow> socket_server res" where
  "release_slots [] ss = Inr ss"
| "release_slots (i # is) ss = (if sk_type (ss_slot ss i) = SOCKET_TYPE_RESERVE then release_slots is ss
     else res_bind (force_close ss i) (\<lambda>(_, ss). release_slots is ss))"

definition socket_server_release :: "socket_server \<Rightarrow> socket_server res" where
  "socket_server_release ss = release_slots [0..<MAX_SOCKET] ss"

end
