(* ===== verification/SocketStep.thy ===== *)
theory SocketStep
  imports SocketServer
begin

text \<open>
  The socket server in use: services call it in any order, the socket thread takes requests and events in between. A step is
  a whole call of a service (the reservation of an id and the write to the pipe are not separated) or one round of
  \<open>socket_server_poll\<close>. The invariant shows that no assert of \<open>socket_server.c\<close> fails, that the size of the unsent data is
  exact, and that a connection with unsent data waits for a write event.
\<close>

section \<open>Slots\<close>

lemma put_slot_simps [simp]:
  "ss_slot (put_slot ss i s) = (ss_slot ss)(i := s)" "ss_alloc_id (put_slot ss i s) = ss_alloc_id ss"
  "ss_checkctrl (put_slot ss i s) = ss_checkctrl ss" "ss_ev (put_slot ss i s) = ss_ev ss" "ss_pipe (put_slot ss i s) = ss_pipe ss"
  "ss_log (put_slot ss i s) = ss_log ss"
  by (simp_all add: put_slot_def)

lemma log_call_simps [simp]:
  "ss_slot (log_call ss c) = ss_slot ss" "ss_alloc_id (log_call ss c) = ss_alloc_id ss"
  "ss_checkctrl (log_call ss c) = ss_checkctrl ss" "ss_ev (log_call ss c) = ss_ev ss" "ss_pipe (log_call ss c) = ss_pipe ss"
  "ss_log (log_call ss c) = ss_log ss @ [c]"
  by (simp_all add: log_call_def)

lemma set_type_eq: "set_type ss id' t = put_slot ss (HASH_ID id') ((ss_slot ss (HASH_ID id'))\<lparr>sk_type := t\<rparr>)"
  by (simp add: set_type_def)

definition lsum :: "write_buffer list \<Rightarrow> int" where
  "lsum l = sum_list (map (int \<circ> wbuf_sz) l)"

lemma lsum_simps [simp]: "lsum [] = 0" "lsum (b # l) = int (wbuf_sz b) + lsum l" "lsum (l @ l') = lsum l + lsum l'"
  by (simp_all add: lsum_def)

text \<open>Only the head of a list may be partly sent.\<close>

definition wbs_ok :: "write_buffer list \<Rightarrow> bool" where
  "wbs_ok l \<longleftrightarrow> (\<forall>b \<in> set l. wbuf_ptr b + wbuf_sz b = length (wbuf_buffer b)) \<and> (\<forall>b \<in> set (tl l). wbuf_ptr b = 0)"

lemma wbs_ok_simps [simp]: "wbs_ok []" "wbs_ok (b # l) \<longleftrightarrow> wbuf_ptr b + wbuf_sz b = length (wbuf_buffer b) \<and> wbs_ok l \<and> \<not> list_uncomplete l \<and>
   (\<forall>b \<in> set l. wbuf_ptr b = 0)"
  by (auto simp: wbs_ok_def list_uncomplete_def split: list.splits dest: list.set_sel(2))

lemma wbs_ok_snoc:
  assumes "wbs_ok l" "wbuf_ptr b + wbuf_sz b = length (wbuf_buffer b)" "wbuf_ptr b = 0"
  shows "wbs_ok (l @ [b])"
  using assms by (cases l) (auto simp: wbs_ok_def)

definition unregistered :: "socket_type_code \<Rightarrow> bool" where
  "unregistered t \<longleftrightarrow> t = SOCKET_TYPE_INVALID \<or> t = SOCKET_TYPE_RESERVE \<or> t = SOCKET_TYPE_PACCEPT \<or> t = SOCKET_TYPE_PLISTEN"

definition sock_ok :: "nat \<Rightarrow> socket \<Rightarrow> bool" where
  "sock_ok i s \<longleftrightarrow>
     (sk_type s \<noteq> SOCKET_TYPE_INVALID \<longrightarrow> HASH_ID (sk_id s) = i) \<and>
     (sk_poll s = None \<longleftrightarrow> unregistered (sk_type s)) \<and>
     (unregistered (sk_type s) \<or> sk_type s = SOCKET_TYPE_LISTEN \<longrightarrow> sk_high s = [] \<and> sk_low s = []) \<and>
     wbs_ok (sk_high s) \<and> wbs_ok (sk_low s) \<and> \<not> list_uncomplete (sk_low s) \<and>
     (sk_type s \<noteq> SOCKET_TYPE_INVALID \<and> sk_type s \<noteq> SOCKET_TYPE_RESERVE \<longrightarrow> sk_wb_size s = lsum (sk_high s) + lsum (sk_low s)) \<and>
     (sk_type s = SOCKET_TYPE_CONNECTED \<and> \<not> send_buffer_empty s \<or> sk_type s = SOCKET_TYPE_CONNECTING \<longrightarrow> sk_poll s = Some True) \<and>
     (sk_type s = SOCKET_TYPE_BIND \<longrightarrow> sk_poll s = Some False \<and> sk_protocol s = PROTOCOL_TCP)"

text \<open>A function that works on slot \<open>i\<close> leaves everything else alone.\<close>

definition frame :: "nat \<Rightarrow> socket_server \<Rightarrow> socket_server \<Rightarrow> bool" where
  "frame i ss ss' \<longleftrightarrow> (\<forall>j. j \<noteq> i \<longrightarrow> ss_slot ss' j = ss_slot ss j) \<and> ss_alloc_id ss' = ss_alloc_id ss \<and> ss_pipe ss' = ss_pipe ss \<and>
     ss_ev ss' = ss_ev ss \<and> ss_checkctrl ss' = ss_checkctrl ss"

lemma frame_refl [simp]: "frame i ss ss"
  by (simp add: frame_def)

lemma frame_put [simp]: "frame i ss (put_slot ss' i s) \<longleftrightarrow> frame i ss ss'" if "ss_slot ss' i = ss_slot ss' i"
  by (auto simp: frame_def)

lemma frame_log [simp]: "frame i ss (log_call ss' c) \<longleftrightarrow> frame i ss ss'"
  by (auto simp: frame_def)

lemma frame_trans: "frame i ss ss' \<Longrightarrow> frame i ss' ss'' \<Longrightarrow> frame i ss ss''"
  by (simp add: frame_def)

text \<open>\<open>shut s s'\<close>: the socket is closed.\<close>

definition shut :: "socket \<Rightarrow> socket \<Rightarrow> bool" where
  "shut s s' \<longleftrightarrow> sk_type s' = SOCKET_TYPE_INVALID \<and> sk_id s' = sk_id s \<and> sk_poll s' = None \<and> sk_high s' = [] \<and> sk_low s' = []"

lemma sock_ok_shut: "shut s s' \<Longrightarrow> sock_ok i s'"
  by (simp add: sock_ok_def shut_def unregistered_def list_uncomplete_def send_buffer_empty_def)

lemma force_close_ok:
  assumes ok: "sk_poll (ss_slot ss i) = None \<longleftrightarrow> unregistered (sk_type (ss_slot ss i))"
    and t: "sk_type (ss_slot ss i) \<noteq> SOCKET_TYPE_RESERVE" "sk_type (ss_slot ss i) \<noteq> SOCKET_TYPE_INVALID"
  obtains ss' where "force_close ss i = Inr (message_of (ss_slot ss i), ss')" "frame i ss ss'" "shut (ss_slot ss i) (ss_slot ss' i)"
proof -
  let ?s = "ss_slot ss i"
  let ?l = "if sk_type ?s \<noteq> SOCKET_TYPE_BIND then log_call ss (Sys_Close (sk_fd ?s)) else ss"
  let ?s' = "?s\<lparr>sk_high := [], sk_low := [], sk_poll := None, sk_type := SOCKET_TYPE_INVALID\<rparr>"
  have "(if sk_type ?s \<noteq> SOCKET_TYPE_PACCEPT \<and> sk_type ?s \<noteq> SOCKET_TYPE_PLISTEN then None else sk_poll ?s) = None"
    using ok by (auto simp: unregistered_def)
  then have "force_close ss i = Inr (message_of ?s, put_slot ?l i ?s')"
    using t by (simp add: force_close_def Let_def)
  then show thesis
    by (rule that) (auto simp: shut_def)
qed

section \<open>Sending\<close>

lemma wb_put_list [simp]:
  "wb_list p (put_list p l s) = l" "put_list p l (put_list p l' s) = put_list p l s" "put_list p (wb_list p s) s = s"
  "sk_type (put_list p l s) = sk_type s" "sk_id (put_list p l s) = sk_id s" "sk_poll (put_list p l s) = sk_poll s"
  "sk_protocol (put_list p l s) = sk_protocol s" "sk_wb_size (put_list p l s) = sk_wb_size s" "sk_fd (put_list p l s) = sk_fd s"
  by (cases p; simp add: wb_list_def put_list_def)+

lemma wb_list_size [simp]: "wb_list p (s\<lparr>sk_wb_size := w\<rparr>) = wb_list p s"
  "put_list p l (s\<lparr>sk_wb_size := w\<rparr>) = (put_list p l s)\<lparr>sk_wb_size := w\<rparr>"
  by (cases p; simp add: wb_list_def put_list_def)+

text \<open>A connection whose buffers are valid, for the functions that write from them.\<close>

definition writable :: "nat \<Rightarrow> socket \<Rightarrow> bool" where
  "writable i s \<longleftrightarrow> \<not> unregistered (sk_type s) \<and> sk_type s \<noteq> SOCKET_TYPE_LISTEN \<and> HASH_ID (sk_id s) = i \<and> sk_poll s \<noteq> None \<and>
     wbs_ok (sk_high s) \<and> wbs_ok (sk_low s) \<and> sk_wb_size s = lsum (sk_high s) + lsum (sk_low s)"

text \<open>What a round of writing from one list does: a part of the list is gone, or the socket is closed.\<close>

definition sent :: "priority \<Rightarrow> nat \<Rightarrow> socket_server \<Rightarrow> poll_result \<Rightarrow> socket_server \<Rightarrow> bool" where
  "sent p i ss r ss' \<longleftrightarrow> frame i ss ss' \<and> (let s = ss_slot ss i in
     r = None \<and> (\<exists>l w. ss_slot ss' i = (put_list p l s)\<lparr>sk_wb_size := w\<rparr> \<and> wbs_ok l \<and> w - lsum l = sk_wb_size s - lsum (wb_list p s) \<and>
       (wb_list p s = [] \<longrightarrow> l = [])) \<or>
     r = Some (SOCKET_CLOSE, message_of s) \<and> shut s (ss_slot ss' i))"

lemma sent_refl:
  assumes "wbs_ok (wb_list p (ss_slot ss i))"
  shows "sent p i ss None ss"
  using assms unfolding sent_def Let_def
  by (intro conjI disjI1 refl exI [of _ "wb_list p (ss_slot ss i)"] exI [of _ "sk_wb_size (ss_slot ss i)"]) simp_all

lemma message_of_put [simp]: "message_of (put_list p l s) = message_of s" "message_of (s\<lparr>sk_wb_size := w\<rparr>) = message_of s"
  by (cases p; simp add: message_of_def put_list_def)+

lemma shut_put [simp]: "shut (put_list p l s) = shut s" "shut (s\<lparr>sk_wb_size := w\<rparr>) = shut s"
  by (auto simp: shut_def fun_eq_iff)

lemma sent_trans:
  assumes "frame i ss ss1" "ss_slot ss1 i = (put_list p l (ss_slot ss i))\<lparr>sk_wb_size := w\<rparr>"
    "w - lsum l = sk_wb_size (ss_slot ss i) - lsum (wb_list p (ss_slot ss i))" "wb_list p (ss_slot ss i) \<noteq> []" "sent p i ss1 r ss'"
  shows "sent p i ss r ss'"
proof -
  have f: "frame i ss ss'"
    using assms(1,5) by (auto simp: sent_def Let_def intro: frame_trans)
  show ?thesis
  proof (cases r)
    case None
    then obtain l' w' where "ss_slot ss' i = (put_list p l' (ss_slot ss1 i))\<lparr>sk_wb_size := w'\<rparr>" "wbs_ok l'"
      "w' - lsum l' = sk_wb_size (ss_slot ss1 i) - lsum (wb_list p (ss_slot ss1 i))"
      using assms(5) by (auto simp: sent_def Let_def)
    then show ?thesis
      using f None assms(2,3,4) by (auto simp: sent_def Let_def intro!: exI [of _ l'] exI [of _ w'])
  next
    case (Some m)
    then show ?thesis
      using f assms(2,5) by (simp add: sent_def Let_def)
  qed
qed

text \<open>Writing never faults, and its effect is \<open>sent\<close>.\<close>

definition ok_send :: "priority \<Rightarrow> nat \<Rightarrow> socket_server \<Rightarrow> (write_answer list \<times> poll_result \<times> socket_server) res option \<Rightarrow> bool" where
  "ok_send p i ss x \<longleftrightarrow> (case x of None \<Rightarrow> True | Some (Inl _) \<Rightarrow> False | Some (Inr (_, r, ss')) \<Rightarrow> sent p i ss r ss')"

lemma ok_send_simps [simp]:
  "ok_send p i ss None" "\<not> ok_send p i ss (Some (Inl f))" "ok_send p i ss (Some (Inr (ws, r, ss'))) \<longleftrightarrow> sent p i ss r ss'"
  by (simp_all add: ok_send_def)

lemma ok_send_trans:
  assumes "frame i ss ss1" "ss_slot ss1 i = (put_list p l (ss_slot ss i))\<lparr>sk_wb_size := w\<rparr>"
    "w - lsum l = sk_wb_size (ss_slot ss i) - lsum (wb_list p (ss_slot ss i))" "wb_list p (ss_slot ss i) \<noteq> []" "ok_send p i ss1 x"
  shows "ok_send p i ss x"
  using assms(5) sent_trans [OF assms(1-4)] by (auto simp: ok_send_def split: option.splits sum.splits)

lemma send_list_tcp_ok:
  assumes "wbs_ok (wb_list p (ss_slot ss i))" "sk_poll (ss_slot ss i) \<noteq> None" "\<not> unregistered (sk_type (ss_slot ss i))"
  shows "ok_send p i ss (send_list_tcp ws p i ss)"
  using assms
proof (induction ws arbitrary: ss)
  case Nil
  then show ?case
    using sent_refl [of p ss i] by simp
next
  case (Cons w ws)
  let ?s = "ss_slot ss i"
  show ?case
  proof (cases "wb_list p ?s")
    case Nil
    then show ?thesis
      using sent_refl [of p ss i] by simp
  next
    case (Cons b rest)
    note l = this
    show ?thesis
    proof (cases w)
      case W_Intr
      then show ?thesis
        using Cons.IH [OF Cons.prems] l by simp
    next
      case W_Again
      then show ?thesis
        using l sent_refl [OF Cons.prems(1)] by simp
    next
      case W_Error
      have "sk_poll ?s = None \<longleftrightarrow> unregistered (sk_type ?s)" "sk_type ?s \<noteq> SOCKET_TYPE_RESERVE" "sk_type ?s \<noteq> SOCKET_TYPE_INVALID"
        using Cons.prems by (auto simp: unregistered_def)
      then obtain ss' where "force_close ss i = Inr (message_of ?s, ss')" "frame i ss ss'" "shut ?s (ss_slot ss' i)"
        by (rule force_close_ok)
      then show ?thesis
        using W_Error l by (simp add: sent_def Let_def)
    next
      case (Wrote k)
      define n where "n = min k (wbuf_sz b)"
      define ss1 where "ss1 = log_call ss (Sys_Write (sk_fd ?s) (take n (drop (wbuf_ptr b) (wbuf_buffer b))))"
      have s1: "ss_slot ss1 = ss_slot ss" "frame i ss ss1"
        by (simp_all add: ss1_def)
      have b: "wbuf_ptr b + wbuf_sz b = length (wbuf_buffer b)" "wbs_ok rest" "\<forall>b \<in> set rest. wbuf_ptr b = 0"
        using Cons.prems(1) l by simp_all
      show ?thesis
      proof (cases "n = wbuf_sz b")
        case False
        define b' where "b' = b\<lparr>wbuf_ptr := wbuf_ptr b + n, wbuf_sz := wbuf_sz b - n\<rparr>"
        have n: "n \<le> wbuf_sz b"
          by (simp add: n_def)
        have e: "send_list_tcp (w # ws) p i ss = Some (Inr (ws, None, put_slot ss1 i ((put_list p (b' # rest) ?s)\<lparr>sk_wb_size := sk_wb_size ?s - int n\<rparr>)))"
          using False by (simp add: Wrote l Let_def n_def [symmetric] ss1_def [symmetric] b'_def [symmetric])
        have "wbs_ok (b' # rest)"
          using Cons.prems(1) l n by (auto simp: b'_def)
        then show ?thesis
          unfolding e using s1 n l
          by (auto simp: sent_def Let_def b'_def intro!: exI [of _ "b' # rest"] exI [of _ "sk_wb_size ?s - int n"])
      next
        case True
        define ss2 where "ss2 = put_slot ss1 i ((put_list p rest ?s)\<lparr>sk_wb_size := sk_wb_size ?s - int n\<rparr>)"
        have e: "send_list_tcp (w # ws) p i ss = send_list_tcp ws p i ss2"
          using True by (simp add: Wrote l Let_def n_def ss1_def ss2_def)
        have s2: "ss_slot ss2 i = (put_list p rest ?s)\<lparr>sk_wb_size := sk_wb_size ?s - int n\<rparr>" "frame i ss ss2"
          using s1 by (simp_all add: ss2_def)
        have "ok_send p i ss2 (send_list_tcp ws p i ss2)"
          using Cons.IH [of ss2] Cons.prems b s2 by simp
        then show ?thesis
          unfolding e using ok_send_trans [OF s2(2,1)] True l by simp
      qed
    qed
  qed
qed

lemma send_list_udp_ok:
  assumes "wbs_ok (wb_list p (ss_slot ss i))"
  shows "ok_send p i ss (send_list_udp ws p i ss)"
  using assms
proof (induction ws arbitrary: ss)
  case Nil
  then show ?case
    using sent_refl [of p ss i] by simp
next
  case (Cons w ws)
  let ?s = "ss_slot ss i"
  show ?case
  proof (cases "wb_list p ?s")
    case Nil
    then show ?thesis
      using sent_refl [of p ss i] by simp
  next
    case (Cons b rest)
    note l = this
    show ?thesis
    proof (cases "\<exists>k. w = Wrote k")
      case False
      then show ?thesis
        using l sent_refl [OF Cons.prems(1)] by (cases w) simp_all
    next
      case True
      define ss2 where "ss2 = put_slot (log_call ss (Sys_Sendto (sk_fd ?s) (udp_socket_address ?s (wbuf_udp_address b)) (drop (wbuf_ptr b) (wbuf_buffer b))))
        i ((put_list p rest ?s)\<lparr>sk_wb_size := sk_wb_size ?s - int (wbuf_sz b)\<rparr>)"
      have e: "send_list_udp (w # ws) p i ss = send_list_udp ws p i ss2"
        using True by (auto simp: l Let_def ss2_def)
      have s2: "ss_slot ss2 i = (put_list p rest ?s)\<lparr>sk_wb_size := sk_wb_size ?s - int (wbuf_sz b)\<rparr>" "frame i ss ss2"
        by (simp_all add: ss2_def)
      have "ok_send p i ss2 (send_list_udp ws p i ss2)"
        using Cons.IH [of ss2] Cons.prems l s2 by simp
      then show ?thesis
        unfolding e using ok_send_trans [OF s2(2,1)] l by simp
    qed
  qed
qed

lemma send_list_ok:
  assumes "wbs_ok (wb_list p (ss_slot ss i))" "sk_poll (ss_slot ss i) \<noteq> None" "\<not> unregistered (sk_type (ss_slot ss i))"
  shows "ok_send p i ss (send_list ws p i ss)"
  using send_list_tcp_ok [OF assms] send_list_udp_ok [OF assms(1)] by (simp add: send_list_def)

text \<open>The effect of \<open>send_buffer\<close>: \<open>drained\<close>, when the socket stays open.\<close>

definition drained :: "socket \<Rightarrow> socket \<Rightarrow> bool" where
  "drained s s' \<longleftrightarrow> (\<exists>h l w q. s' = s\<lparr>sk_high := h, sk_low := l, sk_wb_size := w, sk_poll := q\<rparr> \<and> wbs_ok h \<and> wbs_ok l \<and> \<not> list_uncomplete l \<and>
     w = lsum h + lsum l \<and> (send_buffer_empty s \<longrightarrow> h = [] \<and> l = []) \<and>
     (q = sk_poll s \<or> h = [] \<and> l = [] \<and> q = Some False))"

definition flushed :: "nat \<Rightarrow> socket_server \<Rightarrow> poll_result \<Rightarrow> socket_server \<Rightarrow> bool" where
  "flushed i ss r ss' \<longleftrightarrow> frame i ss ss' \<and> (r = None \<and> drained (ss_slot ss i) (ss_slot ss' i) \<or>
     r = Some (SOCKET_CLOSE, message_of (ss_slot ss i)) \<and> shut (ss_slot ss i) (ss_slot ss' i))"

lemma sent_high:
  assumes "sent PRIORITY_HIGH i ss None ss'"
  obtains l w where "ss_slot ss' i = (ss_slot ss i)\<lparr>sk_high := l, sk_wb_size := w\<rparr>" "wbs_ok l"
    "w - lsum l = sk_wb_size (ss_slot ss i) - lsum (sk_high (ss_slot ss i))" "frame i ss ss'" "sk_high (ss_slot ss i) = [] \<longrightarrow> l = []"
  using assms by (auto simp: sent_def Let_def put_list_def wb_list_def)

lemma sent_low:
  assumes "sent PRIORITY_LOW i ss None ss'"
  obtains l w where "ss_slot ss' i = (ss_slot ss i)\<lparr>sk_low := l, sk_wb_size := w\<rparr>" "wbs_ok l"
    "w - lsum l = sk_wb_size (ss_slot ss i) - lsum (sk_low (ss_slot ss i))" "frame i ss ss'" "sk_low (ss_slot ss i) = [] \<longrightarrow> l = []"
  using assms by (auto simp: sent_def Let_def put_list_def wb_list_def)

lemma sent_close:
  "sent p i ss (Some m) ss' \<longleftrightarrow> frame i ss ss' \<and> m = (SOCKET_CLOSE, message_of (ss_slot ss i)) \<and> shut (ss_slot ss i) (ss_slot ss' i)"
  by (auto simp: sent_def Let_def)

lemma ok_sendE:
  assumes "ok_send p i ss x"
  obtains "x = None" | ws r ss' where "x = Some (Inr (ws, r, ss'))" "sent p i ss r ss'"
  using assms by (auto simp: ok_send_def split: option.splits sum.splits)

definition ok_flush :: "nat \<Rightarrow> socket_server \<Rightarrow> (write_answer list \<times> poll_result \<times> socket_server) res option \<Rightarrow> bool" where
  "ok_flush i ss x \<longleftrightarrow> (case x of None \<Rightarrow> True | Some (Inl _) \<Rightarrow> False | Some (Inr (_, r, ss')) \<Rightarrow> flushed i ss r ss')"

lemma ok_flush_simps [simp]:
  "ok_flush i ss None" "\<not> ok_flush i ss (Some (Inl f))" "ok_flush i ss (Some (Inr (ws, r, ss'))) \<longleftrightarrow> flushed i ss r ss'"
  by (simp_all add: ok_flush_def)

lemma ok_flushE:
  assumes "ok_flush i ss x"
  obtains "x = None" | ws r ss' where "x = Some (Inr (ws, r, ss'))" "flushed i ss r ss'"
  using assms by (auto simp: ok_flush_def split: option.splits sum.splits)

lemma drainedI:
  assumes "s' = s\<lparr>sk_high := h, sk_low := l, sk_wb_size := w, sk_poll := q\<rparr>" "wbs_ok h" "wbs_ok l" "\<not> list_uncomplete l"
    "w = lsum h + lsum l" "send_buffer_empty s \<Longrightarrow> h = [] \<and> l = []" "q = sk_poll s \<or> h = [] \<and> l = [] \<and> q = Some False"
  shows "drained s s'"
  using assms unfolding drained_def by blast

lemma list_uncomplete_simps [simp]: "\<not> list_uncomplete []" "list_uncomplete (b # l) \<longleftrightarrow> wbuf_ptr b \<noteq> 0"
  by (simp_all add: list_uncomplete_def)

lemma send_buffer_ok:
  assumes w: "writable i (ss_slot ss i)" and low: "\<not> list_uncomplete (sk_low (ss_slot ss i))"
  shows "ok_flush i ss (send_buffer ws i ss)"
proof -
  let ?s = "ss_slot ss i"
  have s: "wbs_ok (sk_high ?s)" "wbs_ok (sk_low ?s)" "sk_poll ?s \<noteq> None" "\<not> unregistered (sk_type ?s)"
    "sk_wb_size ?s = lsum (sk_high ?s) + lsum (sk_low ?s)"
    using w by (auto simp: writable_def)
  have "ok_send PRIORITY_HIGH i ss (send_list ws PRIORITY_HIGH i ss)"
    using s by (intro send_list_ok) (simp_all add: wb_list_def)
  then show ?thesis
  proof (cases rule: ok_sendE)
    case 1
    then show ?thesis
      using low by (simp add: send_buffer_def)
  next
    case (2 ws1 r ss1)
    show ?thesis
    proof (cases r)
      case (Some m)
      then show ?thesis
        using 2 low by (auto simp: send_buffer_def sent_close flushed_def)
    next
      case None
      then have "sent PRIORITY_HIGH i ss None ss1"
        using 2 by simp
      then obtain h w1 where h: "ss_slot ss1 i = ?s\<lparr>sk_high := h, sk_wb_size := w1\<rparr>" "wbs_ok h"
        "w1 - lsum h = sk_wb_size ?s - lsum (sk_high ?s)" and f1: "frame i ss ss1" and h0: "sk_high ?s = [] \<longrightarrow> h = []"
        by (rule sent_high)
      have w1: "w1 = lsum h + lsum (sk_low ?s)"
        using h(3) s(5) by linarith
      have d1: "drained ?s (ss_slot ss1 i)"
        using h s low w1 h0 by (intro drainedI [where h = h and l = "sk_low ?s" and w = w1 and q = "sk_poll ?s"]) (simp_all add: send_buffer_empty_def)
      consider "h \<noteq> []" | "h = []" "sk_low ?s \<noteq> []" | "h = []" "sk_low ?s = []"
        by blast
      then show ?thesis
      proof cases
        case 1
        then show ?thesis
          using 2 None h low d1 f1 by (simp add: send_buffer_def Let_def flushed_def)
      next
        case c: 2
        have "ok_send PRIORITY_LOW i ss1 (send_list ws1 PRIORITY_LOW i ss1)"
          using s h by (intro send_list_ok) (simp_all add: wb_list_def)
        then show ?thesis
        proof (cases rule: ok_sendE)
          case 1
          then show ?thesis
            using 2 None h low c by (simp add: send_buffer_def Let_def)
        next
          case l: (2 ws2 r2 ss2)
          have e: "send_buffer ws i ss = (if r2 \<noteq> None then Some (Inr (ws2, r2, ss2))
             else if list_uncomplete (sk_low (ss_slot ss2 i))
             then Some (res_bind (raise_uncomplete (ss_slot ss2 i)) (\<lambda>s. Inr (ws2, None, put_slot ss2 i s)))
             else Some (Inr (ws2, None, ss2)))"
            using 2 None h low c l(1) by (simp add: send_buffer_def Let_def)
          show ?thesis
          proof (cases r2)
            case (Some m)
            then show ?thesis
              using e l(2) f1 h by (auto simp: sent_close flushed_def message_of_def shut_def intro: frame_trans)
          next
            case r2: None
            then have "sent PRIORITY_LOW i ss1 None ss2"
              using l by simp
            then obtain l2 w2 where l2: "ss_slot ss2 i = (ss_slot ss1 i)\<lparr>sk_low := l2, sk_wb_size := w2\<rparr>" "wbs_ok l2"
              "w2 - lsum l2 = sk_wb_size (ss_slot ss1 i) - lsum (sk_low (ss_slot ss1 i))" and f2: "frame i ss1 ss2"
              and "sk_low (ss_slot ss1 i) = [] \<longrightarrow> l2 = []"
              by (rule sent_low)
            have w2: "w2 = lsum l2"
              using l2(3) h c w1 by simp
            have s2: "ss_slot ss2 i = ?s\<lparr>sk_high := [], sk_low := l2, sk_wb_size := w2\<rparr>"
              using l2(1) h(1) c by simp
            have f: "frame i ss ss2"
              using f1 f2 by (rule frame_trans)
            show ?thesis
            proof (cases "list_uncomplete l2")
              case True
              then obtain b rest where b: "l2 = b # rest"
                by (cases l2) auto
              have "drained ?s (?s\<lparr>sk_wb_size := w2, sk_low := rest, sk_high := [b]\<rparr>)"
                using l2(2) w2 s b c by (intro drainedI [where h = "[b]" and l = rest and w = w2 and q = "sk_poll ?s"]) (simp_all add: send_buffer_empty_def)
              then show ?thesis
                unfolding e using r2 s2 True b f by (simp add: raise_uncomplete_def flushed_def)
            next
              case False
              have "drained ?s (ss_slot ss2 i)"
                using l2(2) w2 s s2 False c by (intro drainedI [where h = "[]" and l = l2 and w = w2 and q = "sk_poll ?s"]) (simp_all add: send_buffer_empty_def)
              then show ?thesis
                unfolding e using r2 s2 False f by (simp add: flushed_def)
            qed
          qed
        qed
      next
        case c: 3
        define ss2 where "ss2 = on_slot i (sp_write False) ss1"
        have s2: "ss_slot ss2 i = ?s\<lparr>sk_high := [], sk_wb_size := w1, sk_poll := Some False\<rparr>"
          using h(1) c s by (auto simp: ss2_def on_slot_def sp_write_def)
        have f: "frame i ss ss2"
          using f1 by (simp add: ss2_def on_slot_def)
        have e: "send_buffer ws i ss = (if sk_type ?s = SOCKET_TYPE_HALFCLOSE
           then Some (res_bind (closing (force_close ss2 i) SOCKET_CLOSE) (\<lambda>(r, ss). Inr (ws1, r, ss)))
           else Some (Inr (ws1, None, ss2)))"
          using 2 None h low c by (simp add: send_buffer_def Let_def ss2_def)
        show ?thesis
        proof (cases "sk_type ?s = SOCKET_TYPE_HALFCLOSE")
          case True
          have "sk_poll (ss_slot ss2 i) = None \<longleftrightarrow> unregistered (sk_type (ss_slot ss2 i))"
            "sk_type (ss_slot ss2 i) \<noteq> SOCKET_TYPE_RESERVE" "sk_type (ss_slot ss2 i) \<noteq> SOCKET_TYPE_INVALID"
            using s2 True by (simp_all add: unregistered_def)
          then obtain ss' where "force_close ss2 i = Inr (message_of (ss_slot ss2 i), ss')" "frame i ss2 ss'" "shut (ss_slot ss2 i) (ss_slot ss' i)"
            by (rule force_close_ok)
          then show ?thesis
            unfolding e using True f s2 by (auto simp: closing_def flushed_def message_of_def shut_def intro: frame_trans)
        next
          case False
          have "drained ?s (ss_slot ss2 i)"
            using c s s2 w1 by (intro drainedI [where h = "[]" and l = "[]" and w = w1 and q = "Some False"]) (simp_all add: send_buffer_empty_def)
          then show ?thesis
            unfolding e using False f by (simp add: flushed_def)
        qed
      qed
    qed
  qed
qed

section \<open>Requests and events\<close>

text \<open>
  What a request or an event does to its socket: nothing, or it leaves it valid; when the socket loses its registration it is
  closed, and the result says so.
\<close>

definition touched :: "nat \<Rightarrow> socket_server \<Rightarrow> poll_result \<Rightarrow> socket_server \<Rightarrow> bool" where
  "touched i ss r ss' \<longleftrightarrow> frame i ss ss' \<and> (ss_slot ss' i = ss_slot ss i \<or>
     sock_ok i (ss_slot ss' i) \<and> sk_type (ss_slot ss' i) \<noteq> SOCKET_TYPE_RESERVE \<and> sk_type (ss_slot ss i) \<noteq> SOCKET_TYPE_RESERVE \<and>
     (sk_poll (ss_slot ss' i) = None \<longrightarrow> sk_poll (ss_slot ss i) \<noteq> None \<longrightarrow>
        (\<exists>t m. r = Some (t, m) \<and> (t = SOCKET_CLOSE \<or> t = SOCKET_ERROR) \<and> pm_id m = sk_id (ss_slot ss' i)) \<and>
        sk_type (ss_slot ss' i) = SOCKET_TYPE_INVALID))"

lemma touched_refl [simp]: "touched i ss r ss"
  by (simp add: touched_def)

definition ok_touch :: "nat \<Rightarrow> socket_server \<Rightarrow> (poll_result \<times> socket_server) res option \<Rightarrow> bool" where
  "ok_touch i ss x \<longleftrightarrow> (case x of None \<Rightarrow> True | Some (Inl _) \<Rightarrow> False | Some (Inr (r, ss')) \<Rightarrow> touched i ss r ss')"

lemma ok_touch_simps [simp]:
  "ok_touch i ss None" "\<not> ok_touch i ss (Some (Inl f))" "ok_touch i ss (Some (Inr (r, ss'))) \<longleftrightarrow> touched i ss r ss'"
  by (simp_all add: ok_touch_def)

lemma writableI:
  assumes "sock_ok i s" "\<not> unregistered (sk_type s)" "sk_type s \<noteq> SOCKET_TYPE_LISTEN"
  shows "writable i s" "\<not> list_uncomplete (sk_low s)"
  using assms by (auto simp: sock_ok_def writable_def unregistered_def)

lemma drained_ok:
  assumes "sock_ok i s" "\<not> unregistered (sk_type s)" "sk_type s \<noteq> SOCKET_TYPE_LISTEN" "drained s s'"
  shows "sk_type s = SOCKET_TYPE_CONNECTING \<longrightarrow> \<not> send_buffer_empty s' \<Longrightarrow> sock_ok i s'"
    and "sk_type s' = sk_type s" "sk_poll s' \<noteq> None" "sk_id s' = sk_id s"
proof -
  obtain h l w q where s': "s' = s\<lparr>sk_high := h, sk_low := l, sk_wb_size := w, sk_poll := q\<rparr>" and b: "wbs_ok h" "wbs_ok l" "\<not> list_uncomplete l"
     "w = lsum h + lsum l" "send_buffer_empty s \<longrightarrow> h = [] \<and> l = []" and q: "q = sk_poll s \<or> h = [] \<and> l = [] \<and> q = Some False"
    using assms(4) by (auto simp: drained_def)
  have p: "q \<noteq> None"
    using q assms by (auto simp: sock_ok_def)
  then show "sk_type s' = sk_type s" "sk_poll s' \<noteq> None" "sk_id s' = sk_id s"
    by (simp_all add: s')
  show "sock_ok i s'" if "sk_type s = SOCKET_TYPE_CONNECTING \<longrightarrow> \<not> send_buffer_empty s'"
    using that assms p q b by (auto simp: sock_ok_def s' send_buffer_empty_def unregistered_def)
qed

lemma flushed_touched:
  assumes "sock_ok i (ss_slot ss i)" "\<not> unregistered (sk_type (ss_slot ss i))" "sk_type (ss_slot ss i) \<noteq> SOCKET_TYPE_LISTEN" "flushed i ss r ss'"
    "r = None \<Longrightarrow> sk_type (ss_slot ss i) \<noteq> SOCKET_TYPE_CONNECTING"
  shows "touched i ss r ss'"
proof (cases r)
  case None
  then have d: "drained (ss_slot ss i) (ss_slot ss' i)" and f: "frame i ss ss'"
    using assms(4) by (simp_all add: flushed_def)
  then show ?thesis
    using drained_ok [OF assms(1-3) d] assms(2,5) None by (auto simp: touched_def unregistered_def)
next
  case (Some m)
  then have d: "shut (ss_slot ss i) (ss_slot ss' i)" and f: "frame i ss ss'" "m = (SOCKET_CLOSE, message_of (ss_slot ss i))"
    using assms(4) by (simp_all add: flushed_def)
  then show ?thesis
    using Some sock_ok_shut [OF d, of i] assms(2) by (auto simp: touched_def shut_def message_of_def unregistered_def)
qed

lemma force_close_touched:
  assumes "sock_ok i (ss_slot ss i)" "sk_type (ss_slot ss i) \<noteq> SOCKET_TYPE_RESERVE" "sk_type (ss_slot ss i) \<noteq> SOCKET_TYPE_INVALID"
  obtains ss' where "force_close ss i = Inr (message_of (ss_slot ss i), ss')"
    "\<And>t m. t = SOCKET_CLOSE \<or> t = SOCKET_ERROR \<Longrightarrow> pm_id m = sk_id (ss_slot ss i) \<Longrightarrow> touched i ss (Some (t, m)) ss'"
proof -
  have "sk_poll (ss_slot ss i) = None \<longleftrightarrow> unregistered (sk_type (ss_slot ss i))"
    using assms(1) by (simp add: sock_ok_def)
  then obtain ss' where e: "force_close ss i = Inr (message_of (ss_slot ss i), ss')" and f: "frame i ss ss'" and s: "shut (ss_slot ss i) (ss_slot ss' i)"
    using force_close_ok assms(2,3) by metis
  have "touched i ss (Some (t, m)) ss'" if "t = SOCKET_CLOSE \<or> t = SOCKET_ERROR" "pm_id m = sk_id (ss_slot ss i)" for t m
    using that f s sock_ok_shut [OF s, of i] assms(2) by (auto simp: touched_def shut_def)
  with e show thesis
    by (rule that)
qed

text \<open>The requests that name an open socket.\<close>

definition unnamed :: "int \<Rightarrow> socket_server \<Rightarrow> bool" where
  "unnamed id' ss \<longleftrightarrow> \<not> (sk_type (ss_slot ss (HASH_ID id')) = SOCKET_TYPE_RESERVE \<and> sk_id (ss_slot ss (HASH_ID id')) = id')"

lemma pm_id_message_of [simp]: "pm_id (message_of s) = sk_id s"
  by (simp add: message_of_def)

lemma start_socket_ok:
  assumes "sock_ok (HASH_ID id') (ss_slot ss (HASH_ID id'))"
  shows "ok_touch (HASH_ID id') ss (Some (start_socket os id' opaque ss))"
proof -
  define i where "i = HASH_ID id'"
  let ?s = "ss_slot ss i"
  have s: "sock_ok i ?s"
    using assms by (simp add: i_def)
  consider "sk_type ?s = SOCKET_TYPE_INVALID \<or> sk_id ?s \<noteq> id'"
    | "sk_type ?s = SOCKET_TYPE_PACCEPT \<or> sk_type ?s = SOCKET_TYPE_PLISTEN" "sk_id ?s = id'" "os_add_fails os"
    | "sk_type ?s = SOCKET_TYPE_PACCEPT \<or> sk_type ?s = SOCKET_TYPE_PLISTEN" "sk_id ?s = id'" "\<not> os_add_fails os"
    | "sk_type ?s = SOCKET_TYPE_CONNECTED" "sk_id ?s = id'"
    | "\<not> (sk_type ?s = SOCKET_TYPE_INVALID \<or> sk_id ?s \<noteq> id')" "\<not> (sk_type ?s = SOCKET_TYPE_PACCEPT \<or> sk_type ?s = SOCKET_TYPE_PLISTEN)"
      "sk_type ?s \<noteq> SOCKET_TYPE_CONNECTED"
    by blast
  then show ?thesis
  proof cases
    case 2
    then have t: "sk_type ?s \<noteq> SOCKET_TYPE_RESERVE" "sk_type ?s \<noteq> SOCKET_TYPE_INVALID"
      by auto
    obtain ss' where "force_close ss i = Inr (message_of ?s, ss')"
      "\<And>t m. t = SOCKET_CLOSE \<or> t = SOCKET_ERROR \<Longrightarrow> pm_id m = sk_id ?s \<Longrightarrow> touched i ss (Some (t, m)) ss'"
      using force_close_touched [OF s t] by blast
    then show ?thesis
      using 2 t by (auto simp: start_socket_def Let_def i_def [symmetric])
  next
    case 3
    then show ?thesis
      using s by (auto simp: start_socket_def Let_def i_def [symmetric] touched_def sock_ok_def unregistered_def send_buffer_empty_def)
  next
    case 4
    then show ?thesis
      using s by (auto simp: start_socket_def Let_def i_def [symmetric] touched_def sock_ok_def unregistered_def send_buffer_empty_def)
  qed (simp_all add: start_socket_def Let_def i_def [symmetric])
qed

lemma close_socket_ok:
  assumes s: "sock_ok (HASH_ID id') (ss_slot ss (HASH_ID id'))" and u: "unnamed id' ss"
  shows "ok_touch (HASH_ID id') ss (close_socket os id' shutdown opaque ss)"
proof -
  define i where "i = HASH_ID id'"
  let ?s = "ss_slot ss i"
  have s: "sock_ok i ?s"
    using s by (simp add: i_def)
  show ?thesis
  proof (cases "sk_type ?s = SOCKET_TYPE_INVALID \<or> sk_id ?s \<noteq> id'")
    case True
    then show ?thesis
      by (auto simp: close_socket_def Let_def i_def)
  next
    case False
    then have t: "sk_type ?s \<noteq> SOCKET_TYPE_RESERVE" "sk_type ?s \<noteq> SOCKET_TYPE_INVALID" "sk_id ?s = id'"
      using u by (auto simp: unnamed_def i_def)
    let ?k = "\<lambda>ss1. if shutdown \<or> send_buffer_empty (ss_slot ss1 i)
       then Some (res_bind (force_close ss1 i) (\<lambda>(msg, ss). Inr (Some (SOCKET_CLOSE, msg\<lparr>pm_id := id', pm_opaque := opaque\<rparr>), ss)))
       else Some (Inr (None, set_type ss1 id' SOCKET_TYPE_HALFCLOSE))"
    have k: "ok_touch i ss (?k ss1)" if f: "frame i ss ss1" and s1: "\<not> send_buffer_empty (ss_slot ss1 i) \<Longrightarrow> sock_ok i (ss_slot ss1 i)"
      and p1: "sk_poll (ss_slot ss1 i) = None \<longleftrightarrow> unregistered (sk_type (ss_slot ss1 i))" and t1: "sk_type (ss_slot ss1 i) = sk_type ?s" "sk_id (ss_slot ss1 i) = id'" "sk_poll (ss_slot ss1 i) = None \<longrightarrow> sk_poll ?s = None" for ss1
    proof (cases "shutdown \<or> send_buffer_empty (ss_slot ss1 i)")
      case True
      obtain ss' where e: "force_close ss1 i = Inr (message_of (ss_slot ss1 i), ss')" and f1: "frame i ss1 ss'"
        and d: "shut (ss_slot ss1 i) (ss_slot ss' i)"
        using force_close_ok [OF p1] t t1 by metis
      have "touched i ss (Some (SOCKET_CLOSE, (message_of (ss_slot ss1 i))\<lparr>pm_id := id', pm_opaque := opaque\<rparr>)) ss'"
        using frame_trans [OF f f1] sock_ok_shut [OF d, of i] d t1 t(1) by (auto simp: touched_def shut_def)
      then show ?thesis
        using True e by simp
    next
      case False
      then have s2: "sock_ok i (ss_slot ss1 i)"
        using s1 by simp
      then have "\<not> unregistered (sk_type (ss_slot ss1 i))" "sk_type (ss_slot ss1 i) \<noteq> SOCKET_TYPE_LISTEN"
        using False by (auto simp: sock_ok_def send_buffer_empty_def)
      then have "sock_ok i ((ss_slot ss1 i)\<lparr>sk_type := SOCKET_TYPE_HALFCLOSE\<rparr>)" "sk_poll (ss_slot ss1 i) \<noteq> None"
        using s2 by (auto simp: sock_ok_def unregistered_def send_buffer_empty_def)
      then show ?thesis
        using False f t(1) by (auto simp: touched_def set_type_eq i_def [symmetric])
    qed
    have e: "close_socket os id' shutdown opaque ss = res_obind (if send_buffer_empty ?s then Some (Inr (os_writes os, None, ss)) else send_buffer (os_writes os) i ss)
       (\<lambda>(ws, r, ss1). if r \<noteq> None then Some (Inr (r, ss1)) else ?k ss1)"
      unfolding close_socket_def Let_def i_def [symmetric] using t by simp
    show ?thesis
    proof (cases "send_buffer_empty ?s")
      case True
      have "close_socket os id' shutdown opaque ss = ?k ss"
        using True e by simp
      then show ?thesis
        using k [of ss] s t by (auto simp: i_def [symmetric] sock_ok_def)
    next
      case False
      then have nu: "\<not> unregistered (sk_type ?s)" "sk_type ?s \<noteq> SOCKET_TYPE_LISTEN"
        using s by (auto simp: sock_ok_def send_buffer_empty_def)
      have "ok_flush i ss (send_buffer (os_writes os) i ss)"
        by (rule send_buffer_ok) (use writableI [OF s nu] in auto)
      then show ?thesis
      proof (cases rule: ok_flushE)
        case 1
        then show ?thesis
          using e False by simp
      next
        case (2 ws r ss1)
        show ?thesis
        proof (cases r)
          case None
          then have d: "drained ?s (ss_slot ss1 i)" "frame i ss ss1"
            using 2 by (simp_all add: flushed_def)
          have "close_socket os id' shutdown opaque ss = ?k ss1"
            using e False 2 None by simp
          then show ?thesis
            using k [OF d(2)] drained_ok [OF s nu d(1)] nu t by (auto simp: i_def [symmetric])
        next
          case (Some m)
          then show ?thesis
            using e False 2 flushed_touched [OF s nu 2(2)] by (simp add: i_def)
        qed
      qed
    qed
  qed
qed

lemma set_udp_address_ok:
  assumes "sock_ok (HASH_ID id') (ss_slot ss (HASH_ID id'))" and "unnamed id' ss"
  shows "ok_touch (HASH_ID id') ss (Some (set_udp_address id' addr ss))"
  using assms by (auto simp: set_udp_address_def Let_def touched_def sock_ok_def unnamed_def send_buffer_empty_def)

lemma sock_ok_append:
  assumes s: "sock_ok i s" "\<not> unregistered (sk_type s)" "sk_type s \<noteq> SOCKET_TYPE_LISTEN"
    and n: "n \<le> length msg" "n = 0 \<or> p = PRIORITY_HIGH \<and> send_buffer_empty s"
    and q: "q = sk_poll s \<and> (sk_type s = SOCKET_TYPE_CONNECTED \<longrightarrow> \<not> send_buffer_empty s) \<and> (sk_type s = SOCKET_TYPE_CONNECTING \<longrightarrow> q = Some True) \<or>
      q = Some True \<and> sk_type s = SOCKET_TYPE_CONNECTED"
  shows "sock_ok i ((append_sendbuffer p msg n addr s)\<lparr>sk_poll := q\<rparr>)"
proof (cases p)
  case PRIORITY_HIGH
  have "wbs_ok (sk_high s @ [\<lparr>wbuf_buffer = msg, wbuf_ptr = n, wbuf_sz = length msg - n, wbuf_udp_address = addr\<rparr>])"
  proof (cases "n = 0")
    case True
    then show ?thesis
      using s by (intro wbs_ok_snoc) (simp_all add: sock_ok_def)
  next
    case False
    then show ?thesis
      using n by (simp add: send_buffer_empty_def)
  qed
  then show ?thesis
    using s n q PRIORITY_HIGH by (auto simp: sock_ok_def append_sendbuffer_def put_list_def wb_list_def unregistered_def send_buffer_empty_def)
next
  case PRIORITY_LOW
  then have "n = 0"
    using n by simp
  then have w: "wbs_ok (sk_low s @ [\<lparr>wbuf_buffer = msg, wbuf_ptr = n, wbuf_sz = length msg - n, wbuf_udp_address = addr\<rparr>])"
    using s by (intro wbs_ok_snoc) (simp_all add: sock_ok_def)
  moreover have "\<not> list_uncomplete (sk_low s @ [\<lparr>wbuf_buffer = msg, wbuf_ptr = n, wbuf_sz = length msg - n, wbuf_udp_address = addr\<rparr>])"
    using s \<open>n = 0\<close> by (cases "sk_low s") (auto simp: sock_ok_def)
  ultimately show ?thesis
    using s n q PRIORITY_LOW by (auto simp: sock_ok_def append_sendbuffer_def put_list_def wb_list_def unregistered_def send_buffer_empty_def)
qed

lemma touched_put:
  assumes "frame i ss ss1" "sock_ok i s'" "sk_type s' \<noteq> SOCKET_TYPE_RESERVE" "sk_poll s' \<noteq> None" "sk_type (ss_slot ss i) \<noteq> SOCKET_TYPE_RESERVE"
  shows "touched i ss r (put_slot ss1 i s')"
  using assms by (auto simp: touched_def)

lemma touched_log: "touched i ss r (log_call ss c)"
  by (simp add: touched_def)

lemma append_sendbuffer_simps [simp]:
  "sk_type (append_sendbuffer p msg n addr s) = sk_type s" "sk_poll (append_sendbuffer p msg n addr s) = sk_poll s"
  by (simp_all add: append_sendbuffer_def)

lemma send_socket_ok:
  assumes s: "sock_ok (HASH_ID id') (ss_slot ss (HASH_ID id'))" and u: "unnamed id' ss" and sz: "0 \<le> sz" "sz \<le> int (length buffer)"
  shows "ok_touch (HASH_ID id') ss (send_socket os id' buffer sz p addr ss)"
proof -
  define i where "i = HASH_ID id'"
  define msg where "msg = take (nat sz) buffer"
  let ?s = "ss_slot ss i"
  have s: "sock_ok i ?s"
    using s by (simp add: i_def)
  have size: "send_object_size buffer sz = Inr (nat sz)" and msg: "length msg = nat sz"
    using sz by (auto simp: send_object_size_def msg_def)
  let ?refused = "sk_type ?s = SOCKET_TYPE_INVALID \<or> sk_id ?s \<noteq> id' \<or> sk_type ?s = SOCKET_TYPE_HALFCLOSE \<or> sk_type ?s = SOCKET_TYPE_PACCEPT \<or>
          sk_type ?s = SOCKET_TYPE_PLISTEN \<or> sk_type ?s = SOCKET_TYPE_LISTEN"
  show ?thesis
  proof (cases ?refused)
    case True
    then show ?thesis
      by (auto simp: send_socket_def Let_def size i_def [symmetric])
  next
    case nr: False
    then have nu: "\<not> unregistered (sk_type ?s)" "sk_type ?s \<noteq> SOCKET_TYPE_LISTEN" "sk_type ?s \<noteq> SOCKET_TYPE_RESERVE" "sk_type ?s \<noteq> SOCKET_TYPE_INVALID"
      using u by (auto simp: unregistered_def unnamed_def i_def)
    have poll: "sk_poll ?s \<noteq> None"
      using s nu by (auto simp: sock_ok_def)
    define a where "a = (case addr of None \<Rightarrow> sk_udp_address ?s | Some a \<Rightarrow> a)"
    show ?thesis
    proof (cases "send_buffer_empty ?s \<and> sk_type ?s = SOCKET_TYPE_CONNECTED")
      case direct: True
      have queued: "touched i ss None (put_slot ss1 i (sp_write True (append_sendbuffer q msg n b ?s)))"
        if "n \<le> length msg" "n = 0 \<or> q = PRIORITY_HIGH" "frame i ss ss1" for n q b ss1
      proof (rule touched_put [OF that(3)])
        have "sp_write True (append_sendbuffer q msg n b ?s) = (append_sendbuffer q msg n b ?s)\<lparr>sk_poll := Some True\<rparr>"
          using poll by (simp add: sp_write_def)
        then show "sock_ok i (sp_write True (append_sendbuffer q msg n b ?s))" "sk_poll (sp_write True (append_sendbuffer q msg n b ?s)) \<noteq> None"
          using sock_ok_append [OF s nu(1,2) that(1)] that direct by auto
      qed (use nu in \<open>simp_all add: sp_write_def\<close>)
      show ?thesis
      proof (cases "os_writes os")
        case Nil
        then show ?thesis
          using direct nr by (auto simp: send_socket_def Let_def size i_def [symmetric])
      next
        case (Cons w ws)
        show ?thesis
        proof (cases "sk_protocol ?s = PROTOCOL_TCP")
          case tcp: True
          show ?thesis
          proof (cases "w = W_Error")
            case True
            obtain ss' where e: "force_close ss i = Inr (message_of ?s, ss')" and t: "touched i ss (Some (SOCKET_CLOSE, message_of ?s)) ss'"
              using force_close_touched [OF s nu(3,4)] by (metis pm_id_message_of)
            have "send_socket os id' buffer sz p addr ss = Some (closing (force_close ss i) SOCKET_CLOSE)"
              unfolding send_socket_def Let_def i_def [symmetric] using nr direct tcp Cons True size by simp
            then show ?thesis
              using e t by (simp add: closing_def i_def)
          next
            case False
            define n where "n = (case w of Wrote k \<Rightarrow> min k (nat sz) | _ \<Rightarrow> 0)"
            have n: "n \<le> length msg"
              by (auto simp: n_def msg split: write_answer.splits)
            define ss1 where "ss1 = log_call ss (Sys_Write (sk_fd ?s) (take n msg))"
            have "send_socket os id' buffer sz p addr ss = (if n = nat sz then Some (Inr (None, ss1))
                else Some (Inr (None, put_slot ss1 i (sp_write True (append_sendbuffer PRIORITY_HIGH msg n [] ?s)))))"
              unfolding send_socket_def Let_def i_def [symmetric] using nr direct tcp Cons False size
              by (simp add: n_def [symmetric] msg_def [symmetric] ss1_def)
            moreover have "touched i ss None (put_slot ss1 i (sp_write True (append_sendbuffer PRIORITY_HIGH msg n [] ?s)))"
              using n by (intro queued) (simp_all add: ss1_def)
            moreover have "touched i ss None ss1"
              by (simp add: ss1_def touched_log)
            ultimately show ?thesis
              by (simp add: i_def)
          qed
        next
          case udp: False
          have "send_socket os id' buffer sz p addr ss = (case w of
                Wrote k \<Rightarrow> Some (Inr (None, log_call ss (Sys_Sendto (sk_fd ?s) (udp_socket_address ?s a) msg)))
              | _ \<Rightarrow> Some (Inr (None, put_slot ss i (sp_write True (append_sendbuffer p msg 0 a ?s)))))"
            unfolding send_socket_def Let_def i_def [symmetric] using nr direct udp Cons size by (cases w) (simp_all add: msg_def a_def)
          moreover have "touched i ss None (put_slot ss i (sp_write True (append_sendbuffer p msg 0 a ?s)))"
            by (rule queued) simp_all
          moreover have "touched i ss None (log_call ss (Sys_Sendto (sk_fd ?s) (udp_socket_address ?s a) msg))"
            by (rule touched_log)
          ultimately show ?thesis
            by (cases w) (simp_all add: i_def)
        qed
      qed
    next
      case False
      let ?b = "if sk_protocol ?s = PROTOCOL_TCP then [] else a"
      have e: "send_socket os id' buffer sz p addr ss = Some (Inr (None, put_slot ss i (append_sendbuffer p msg 0 ?b ?s)))"
        unfolding send_socket_def Let_def i_def [symmetric] using nr False size by (auto simp: msg_def [symmetric] a_def [symmetric])
      have "sock_ok i ((append_sendbuffer p msg 0 ?b ?s)\<lparr>sk_poll := sk_poll ?s\<rparr>)"
        using False s by (intro sock_ok_append [OF s nu(1,2)]) (auto simp: sock_ok_def)
      moreover have "(append_sendbuffer p msg 0 ?b ?s)\<lparr>sk_poll := sk_poll ?s\<rparr> = append_sendbuffer p msg 0 ?b ?s"
        by (rule socket.equality) simp_all
      ultimately have "touched i ss None (put_slot ss i (append_sendbuffer p msg 0 ?b ?s))"
        using nu poll by (intro touched_put) simp_all
      then show ?thesis
        by (simp add: e i_def)
    qed
  qed
qed

lemma setopt_ok: "ok_touch i ss (Some (Inr (None, ss)))"
  by simp

text \<open>The requests that open a reserved socket.\<close>

definition named :: "int \<Rightarrow> socket_server \<Rightarrow> bool" where
  "named id' ss \<longleftrightarrow> sock_ok (HASH_ID id') (ss_slot ss (HASH_ID id')) \<and> sk_type (ss_slot ss (HASH_ID id')) = SOCKET_TYPE_RESERVE"

definition ok_open :: "nat \<Rightarrow> socket_server \<Rightarrow> (poll_result \<times> socket_server) res \<Rightarrow> bool" where
  "ok_open i ss x \<longleftrightarrow> (case x of Inl _ \<Rightarrow> False | Inr (r, ss') \<Rightarrow>
     frame i ss ss' \<and> sock_ok i (ss_slot ss' i) \<and> sk_type (ss_slot ss' i) \<noteq> SOCKET_TYPE_RESERVE)"

lemmas open_defs = named_def ok_open_def new_fd_def Let_def set_type_eq sock_ok_def unregistered_def send_buffer_empty_def frame_def lsum_def

lemma bind_socket_ok: "named id' ss \<Longrightarrow> ok_open (HASH_ID id') ss (bind_socket os id' fd opaque ss)"
  by (auto simp: bind_socket_def open_defs)

lemma listen_socket_ok: "named id' ss \<Longrightarrow> ok_open (HASH_ID id') ss (listen_socket os id' fd opaque ss)"
  by (auto simp: listen_socket_def open_defs)

lemma add_udp_socket_ok: "named id' ss \<Longrightarrow> ok_open (HASH_ID id') ss (add_udp_socket os id' fd ipv6 opaque ss)"
  by (auto simp: add_udp_socket_def on_slot_def open_defs)

lemma open_socket_ok: "named id' ss \<Longrightarrow> ok_open (HASH_ID id') ss (open_socket os id' opaque ss)"
  by (cases "os_connect os") (auto simp: open_socket_def sp_write_def open_defs)

text \<open>The events. No read returns a gigabyte at once.\<close>

definition answers_ok :: "sys \<Rightarrow> bool" where
  "answers_ok os \<longleftrightarrow> (case os_read os of Got d \<Rightarrow> length d < 2 ^ 30 | _ \<Rightarrow> True)"

lemma registered_types:
  assumes "sock_ok i s" "sk_poll s \<noteq> None"
  shows "\<not> unregistered (sk_type s)" "sk_type s \<noteq> SOCKET_TYPE_RESERVE" "sk_type s \<noteq> SOCKET_TYPE_INVALID"
  using assms by (auto simp: sock_ok_def unregistered_def)

lemma touched_size:
  assumes "sock_ok i (ss_slot ss i)" "sk_poll (ss_slot ss i) \<noteq> None"
  shows "touched i ss r (put_slot ss i ((ss_slot ss i)\<lparr>sk_size := n\<rparr>))"
  using assms registered_types [OF assms] by (intro touched_put) (auto simp: sock_ok_def send_buffer_empty_def)

lemma forward_message_tcp_ok:
  assumes s: "sock_ok i (ss_slot ss i)" "sk_poll (ss_slot ss i) \<noteq> None" and a: "answers_ok os"
  shows "ok_touch i ss (Some (forward_message_tcp os i ss))"
proof -
  let ?s = "ss_slot ss i"
  obtain ss' where e: "force_close ss i = Inr (message_of ?s, ss')"
    and t: "\<And>t m. t = SOCKET_CLOSE \<or> t = SOCKET_ERROR \<Longrightarrow> pm_id m = sk_id ?s \<Longrightarrow> touched i ss (Some (t, m)) ss'"
    using force_close_touched [OF s(1) registered_types(2,3) [OF s]] by blast
  have small: "length (take (sk_size ?s) d) = sk_size ?s \<Longrightarrow> \<not> 2 ^ 31 \<le> sk_size ?s * 2" if "os_read os = Got d" for d
  proof -
    assume "length (take (sk_size ?s) d) = sk_size ?s"
    then have "sk_size ?s \<le> length d"
      by simp
    moreover have "length d < 2 ^ 30"
      using a that by (simp add: answers_ok_def)
    ultimately show ?thesis
      by simp
  qed
  show ?thesis
  proof (cases "os_read os")
    case (Got d)
    let ?d = "take (sk_size ?s) d"
    consider "length ?d = 0" | "length ?d \<noteq> 0" "sk_type ?s = SOCKET_TYPE_HALFCLOSE" | "length ?d \<noteq> 0" "sk_type ?s \<noteq> SOCKET_TYPE_HALFCLOSE"
      by blast
    then show ?thesis
    proof cases
      case 1
      have "forward_message_tcp os i ss = closing (force_close ss i) SOCKET_CLOSE"
        unfolding forward_message_tcp_def Let_def Got by (simp only: read_answer.case if_P [OF 1])
      then show ?thesis
        using e t by (simp add: closing_def)
    next
      case 2
      have "forward_message_tcp os i ss = Inr (None, ss)"
        unfolding forward_message_tcp_def Let_def Got by (simp only: read_answer.case if_not_P [OF 2(1)] if_P [OF 2(2)])
      then show ?thesis
        by simp
    next
      case 3
      have "\<not> (length ?d = sk_size ?s \<and> 2 ^ 31 \<le> sk_size ?s * 2)"
        using small [OF Got] by blast
      moreover have "touched i ss r (put_slot ss i (?s\<lparr>sk_size := n\<rparr>))" for r n
        using s by (rule touched_size)
      ultimately show ?thesis
        using Got 3 unfolding forward_message_tcp_def Let_def by (simp only: read_answer.case if_False simp_thms ok_touch_simps)
    qed
  qed (use e t in \<open>simp_all add: forward_message_tcp_def Let_def\<close>)
qed

lemma forward_message_udp_ok:
  assumes s: "sock_ok i (ss_slot ss i)" "sk_poll (ss_slot ss i) \<noteq> None"
  shows "ok_touch i ss (Some (forward_message_udp os i ss))"
proof -
  obtain ss' where e: "force_close ss i = Inr (message_of (ss_slot ss i), ss')"
    and t: "\<And>t m. t = SOCKET_CLOSE \<or> t = SOCKET_ERROR \<Longrightarrow> pm_id m = sk_id (ss_slot ss i) \<Longrightarrow> touched i ss (Some (t, m)) ss'"
    using force_close_touched [OF s(1) registered_types(2,3) [OF s]] by blast
  then show ?thesis
    by (cases "os_read os") (simp_all add: forward_message_udp_def Let_def)
qed

lemma report_connect_ok:
  assumes s: "sock_ok i (ss_slot ss i)" "sk_type (ss_slot ss i) = SOCKET_TYPE_CONNECTING"
  shows "ok_touch i ss (Some (report_connect os i ss))"
proof (cases "os_connected os")
  case (Some e)
  have "sk_type (ss_slot ss i) \<noteq> SOCKET_TYPE_RESERVE" "sk_type (ss_slot ss i) \<noteq> SOCKET_TYPE_INVALID"
    using s by simp_all
  then obtain ss' where e: "force_close ss i = Inr (message_of (ss_slot ss i), ss')"
    and t: "\<And>t m. t = SOCKET_CLOSE \<or> t = SOCKET_ERROR \<Longrightarrow> pm_id m = sk_id (ss_slot ss i) \<Longrightarrow> touched i ss (Some (t, m)) ss'"
    using force_close_touched [OF s(1)] by blast
  then show ?thesis
    using Some by (simp add: report_connect_def)
next
  case None
  then show ?thesis
    using s by (auto simp: report_connect_def Let_def touched_def sock_ok_def sp_write_def send_buffer_empty_def unregistered_def)
qed

section \<open>The invariant\<close>

fun req_id :: "ctrl_request \<Rightarrow> int option" where
  "req_id (Ctrl_Start i _) = Some i"
| "req_id (Ctrl_Bind i _ _) = Some i"
| "req_id (Ctrl_Listen i _ _) = Some i"
| "req_id (Ctrl_Close i _ _) = Some i"
| "req_id (Ctrl_Open i _) = Some i"
| "req_id Ctrl_Exit = None"
| "req_id (Ctrl_Send i _ _ _) = Some i"
| "req_id (Ctrl_Send_Udp i _ _ _) = Some i"
| "req_id (Ctrl_Set_Udp i _) = Some i"
| "req_id (Ctrl_Setopt i _ _) = Some i"
| "req_id (Ctrl_Udp i _ _ _) = Some i"

definition opens :: "ctrl_request \<Rightarrow> bool" where
  "opens req \<longleftrightarrow> (case req of Ctrl_Bind _ _ _ \<Rightarrow> True | Ctrl_Listen _ _ _ \<Rightarrow> True | Ctrl_Open _ _ \<Rightarrow> True | Ctrl_Udp _ _ _ _ \<Rightarrow> True | _ \<Rightarrow> False)"

definition req_ok :: "int \<Rightarrow> ctrl_request \<Rightarrow> bool" where
  "req_ok m req \<longleftrightarrow> (\<forall>i. req_id req = Some i \<longrightarrow> i \<le> m) \<and>
     (case req of Ctrl_Send _ buffer sz _ \<Rightarrow> 0 \<le> sz \<and> sz \<le> int (length buffer)
      | Ctrl_Send_Udp _ buffer sz _ \<Rightarrow> 0 \<le> sz \<and> sz \<le> int (length buffer) | _ \<Rightarrow> True)"

text \<open>No request that names an id waits before the request that opens it.\<close>

fun in_order :: "ctrl_request list \<Rightarrow> bool" where
  "in_order [] \<longleftrightarrow> True"
| "in_order (r # rs) \<longleftrightarrow> (\<forall>q \<in> set rs. opens q \<longrightarrow> req_id q \<noteq> req_id r) \<and> in_order rs"

lemma in_order_snoc: "in_order (rs @ [q]) \<longleftrightarrow> in_order rs \<and> (opens q \<longrightarrow> (\<forall>r \<in> set rs. req_id q \<noteq> req_id r))"
  by (induction rs) auto

text \<open>The reserved slots are those that a waiting request opens.\<close>

definition pipe_inv :: "(nat \<Rightarrow> socket) \<Rightarrow> int \<Rightarrow> ctrl_request list \<Rightarrow> bool" where
  "pipe_inv slot m pipe \<longleftrightarrow> in_order pipe \<and> (\<forall>r \<in> set pipe. req_ok m r) \<and>
     (\<forall>r \<in> set pipe. \<forall>c. opens r \<longrightarrow> req_id r = Some c \<longrightarrow> sk_type (slot (HASH_ID c)) = SOCKET_TYPE_RESERVE \<and> sk_id (slot (HASH_ID c)) = c) \<and>
     (\<forall>i. sk_type (slot i) = SOCKET_TYPE_RESERVE \<longrightarrow> (\<exists>r \<in> set pipe. opens r \<and> req_id r = Some (sk_id (slot i))))"

definition ev_slots :: "poll_event list \<Rightarrow> nat list" where
  "ev_slots evs = List.map_filter ev_slot evs"

definition ev_inv :: "(nat \<Rightarrow> socket) \<Rightarrow> poll_event list \<Rightarrow> bool" where
  "ev_inv slot evs \<longleftrightarrow> distinct (ev_slots evs) \<and> (\<forall>i \<in> set (ev_slots evs). sk_poll (slot i) \<noteq> None)"

definition ss_inv :: "socket_server \<Rightarrow> bool" where
  "ss_inv ss \<longleftrightarrow> (\<forall>i. sock_ok i (ss_slot ss i)) \<and> pipe_inv (ss_slot ss) (sint (ss_alloc_id ss)) (ss_pipe ss) \<and> ev_inv (ss_slot ss) (ss_ev ss)"

lemma ev_slots_simps [simp]:
  "ev_slots [] = []" "ev_slots (e # es) = (case ev_slot e of None \<Rightarrow> ev_slots es | Some i \<Rightarrow> i # ev_slots es)"
  by (auto simp: ev_slots_def split: option.splits)

text \<open>After an event or a request: a socket that is closed has no waiting event left.\<close>

lemma clear_events_ok:
  assumes "distinct (ev_slots evs)"
    "\<forall>j \<in> set (ev_slots evs). sk_poll (slot j) \<noteq> None \<or> j = i \<and> sk_type (slot j) = SOCKET_TYPE_INVALID \<and> sk_id (slot j) = c"
    "\<And>j. sock_ok j (slot j)"
  shows "ev_inv slot (clear_events slot c evs)"
  using assms(1,2)
proof (induction evs)
  case Nil
  then show ?case by (simp add: ev_inv_def)
next
  case (Cons e es)
  have sub: "set (ev_slots (clear_events slot c es)) \<subseteq> set (ev_slots es)"
    by (induction es) (auto split: option.splits)
  show ?case
  proof (cases "ev_slot e")
    case None
    then show ?thesis
      using Cons by (simp add: ev_inv_def)
  next
    case (Some j)
    show ?thesis
    proof (cases "sk_type (slot j) = SOCKET_TYPE_INVALID \<and> sk_id (slot j) = c")
      case True
      then have "sk_poll (slot j) = None"
        using assms(3) [of j] by (auto simp: sock_ok_def unregistered_def)
      then have "j = i"
        using Cons.prems(2) Some by auto
      then have "\<forall>k \<in> set (ev_slots es). sk_poll (slot k) \<noteq> None"
        using Cons.prems Some by auto
      then show ?thesis
        using Some True Cons.prems by (simp add: ev_inv_def)
    next
      case False
      then have "sk_poll (slot j) \<noteq> None"
        using Cons.prems(2) Some by auto
      moreover have "ev_inv slot (clear_events slot c es)"
        using Cons Some by auto
      ultimately show ?thesis
        using Some False Cons.prems sub by (auto simp: ev_inv_def)
    qed
  qed
qed

lemma pipe_inv_pop:
  assumes "pipe_inv slot m (req # rest)" "\<And>j. sock_ok j (slot j)" "\<And>j. j \<noteq> i \<Longrightarrow> slot' j = slot j"
    and i: "\<not> opens req \<and> slot' i = slot i \<or> \<not> opens req \<and> sk_type (slot' i) \<noteq> SOCKET_TYPE_RESERVE \<and> sk_type (slot i) \<noteq> SOCKET_TYPE_RESERVE \<or>
      opens req \<and> sk_type (slot' i) \<noteq> SOCKET_TYPE_RESERVE \<and> (\<exists>c. req_id req = Some c \<and> i = HASH_ID c)"
  shows "pipe_inv slot' m rest"
proof -
  have ord: "in_order rest" "\<forall>q \<in> set rest. opens q \<longrightarrow> req_id q \<noteq> req_id req" and ok: "\<forall>r \<in> set rest. req_ok m r"
    and res: "\<And>r c. r \<in> set (req # rest) \<Longrightarrow> opens r \<Longrightarrow> req_id r = Some c \<Longrightarrow>
       sk_type (slot (HASH_ID c)) = SOCKET_TYPE_RESERVE \<and> sk_id (slot (HASH_ID c)) = c"
    and wait: "\<And>j. sk_type (slot j) = SOCKET_TYPE_RESERVE \<Longrightarrow> \<exists>r \<in> set (req # rest). opens r \<and> req_id r = Some (sk_id (slot j))"
    using assms(1) unfolding pipe_inv_def by auto
  have "sk_type (slot' (HASH_ID c)) = SOCKET_TYPE_RESERVE \<and> sk_id (slot' (HASH_ID c)) = c"
    if r: "r \<in> set rest" "opens r" "req_id r = Some c" for r c
  proof -
    have c: "sk_type (slot (HASH_ID c)) = SOCKET_TYPE_RESERVE" "sk_id (slot (HASH_ID c)) = c"
      using res [of r c] r by simp_all
    have "HASH_ID c \<noteq> i \<or> slot' i = slot i"
    proof (rule ccontr)
      assume a: "\<not> (HASH_ID c \<noteq> i \<or> slot' i = slot i)"
      then have "opens req"
        using i c by auto
      then obtain c' where c': "req_id req = Some c'" "i = HASH_ID c'"
        using i by auto
      have "sk_id (slot (HASH_ID c')) = c'"
        using res [of req c'] c'(1) \<open>opens req\<close> by simp
      moreover have "HASH_ID c' = HASH_ID c"
        using a c'(2) by auto
      ultimately have "c' = c"
        using c(2) by simp
      then show False
        using ord(2) r c' by auto
    qed
    then show ?thesis
      using c assms(3) [of "HASH_ID c"] by (cases "HASH_ID c = i") auto
  qed
  moreover have "\<exists>r \<in> set rest. opens r \<and> req_id r = Some (sk_id (slot' j))" if j: "sk_type (slot' j) = SOCKET_TYPE_RESERVE" for j
  proof -
    have e: "slot' j = slot j"
      using assms(3) [of j] i j by (cases "j = i") auto
    then obtain r where r: "r \<in> set (req # rest)" "opens r" "req_id r = Some (sk_id (slot j))"
      using wait [of j] j by auto
    have "HASH_ID (sk_id (slot j)) = j"
      using assms(2) [of j] j e by (auto simp: sock_ok_def)
    then have "r \<noteq> req"
      using r i j by auto
    then show ?thesis
      using r e by auto
  qed
  ultimately show ?thesis
    using ord(1) ok unfolding pipe_inv_def by blast
qed

lemma pipe_inv_same:
  assumes "pipe_inv slot m pipe" "\<And>j. j \<noteq> i \<Longrightarrow> slot' j = slot j"
    "slot' i = slot i \<or> sk_type (slot' i) \<noteq> SOCKET_TYPE_RESERVE \<and> sk_type (slot i) \<noteq> SOCKET_TYPE_RESERVE"
  shows "pipe_inv slot' m pipe"
proof -
  have e: "sk_type (slot' j) = SOCKET_TYPE_RESERVE \<longleftrightarrow> sk_type (slot j) = SOCKET_TYPE_RESERVE"
    "sk_type (slot j) = SOCKET_TYPE_RESERVE \<Longrightarrow> sk_id (slot' j) = sk_id (slot j)" for j
    using assms(2) [of j] assms(3) by (cases "j = i"; auto)+
  show ?thesis
    using assms(1) unfolding pipe_inv_def using e by metis
qed

text \<open>The result of a request or an event, with the waiting events cleared.\<close>

lemma clear_closed_event_simps [simp]:
  "ss_slot (clear_closed_event r ss) = ss_slot ss" "ss_alloc_id (clear_closed_event r ss) = ss_alloc_id ss"
  "ss_pipe (clear_closed_event r ss) = ss_pipe ss"
  by (auto simp: clear_closed_event_def split: option.splits prod.splits)

lemma ev_inv_touched:
  assumes "ev_inv (ss_slot ss) (ss_ev ss)" "\<And>j. sock_ok j (ss_slot ss j)" "touched i ss r ss'"
  shows "ev_inv (ss_slot ss') (ss_ev (clear_closed_event r ss'))"
proof -
  have f: "\<And>j. j \<noteq> i \<Longrightarrow> ss_slot ss' j = ss_slot ss j" "ss_ev ss' = ss_ev ss"
    using assms(3) by (simp_all add: touched_def frame_def)
  have d: "distinct (ev_slots (ss_ev ss'))"
    and reg: "\<And>j. j \<in> set (ev_slots (ss_ev ss')) \<Longrightarrow> sk_poll (ss_slot ss j) \<noteq> None"
    using assms(1) f by (auto simp: ev_inv_def)
  have ok: "sock_ok j (ss_slot ss' j)" for j
    using f(1) [of j] assms(2) [of j] assms(3) by (cases "j = i") (auto simp: touched_def)
  have i: "ss_slot ss' i = ss_slot ss i \<or> (sk_poll (ss_slot ss' i) = None \<longrightarrow> sk_poll (ss_slot ss i) \<noteq> None \<longrightarrow>
        (\<exists>t m. r = Some (t, m) \<and> (t = SOCKET_CLOSE \<or> t = SOCKET_ERROR) \<and> pm_id m = sk_id (ss_slot ss' i)) \<and>
        sk_type (ss_slot ss' i) = SOCKET_TYPE_INVALID)"
    using assms(3) by (auto simp: touched_def)
  show ?thesis
  proof (cases "\<exists>t m. r = Some (t, m) \<and> (t = SOCKET_CLOSE \<or> t = SOCKET_ERROR)")
    case True
    then obtain t m where r: "r = Some (t, m)" "t = SOCKET_CLOSE \<or> t = SOCKET_ERROR"
      by blast
    have "sk_poll (ss_slot ss' j) \<noteq> None \<or> j = i \<and> sk_type (ss_slot ss' j) = SOCKET_TYPE_INVALID \<and> sk_id (ss_slot ss' j) = pm_id m"
      if "j \<in> set (ev_slots (ss_ev ss'))" for j
      using reg [OF that] f(1) [of j] i r(1) by (cases "j = i") auto
    then have "ev_inv (ss_slot ss') (clear_events (ss_slot ss') (pm_id m) (ss_ev ss'))"
      using d ok by (intro clear_events_ok) blast+
    moreover have "ss_ev (clear_closed_event r ss') = clear_events (ss_slot ss') (pm_id m) (ss_ev ss')"
      using r by (simp add: clear_closed_event_def)
    ultimately show ?thesis
      by simp
  next
    case False
    then have "ss_ev (clear_closed_event r ss') = ss_ev ss'"
      by (auto simp: clear_closed_event_def split: option.splits)
    moreover have "sk_poll (ss_slot ss' j) \<noteq> None" if "j \<in> set (ev_slots (ss_ev ss'))" for j
      using reg [OF that] f(1) [of j] i False by (cases "j = i") auto
    ultimately show ?thesis
      using d by (auto simp: ev_inv_def)
  qed
qed

lemma touched_sock_ok:
  assumes "\<And>j. sock_ok j (ss_slot ss j)" "touched i ss r ss'"
  shows "sock_ok j (ss_slot ss' j)"
  using assms(1) [of j] assms(2) by (cases "j = i") (auto simp: touched_def frame_def)

lemma clear_closed_pass: "ev_inv slot (ss_ev ss) \<Longrightarrow> (\<And>j. sock_ok j (slot j)) \<Longrightarrow> ss_slot ss = slot \<Longrightarrow> ev_inv slot (ss_ev (clear_closed_event r ss))"
  using ev_inv_touched [of ss 0 r ss] by simp

text \<open>No assert fails, and the invariant and the id counter are as \<open>P\<close> says.\<close>

definition ok_answer :: "('a \<Rightarrow> socket_server \<Rightarrow> bool) \<Rightarrow> ('a \<times> socket_server) res option \<Rightarrow> bool" where
  "ok_answer P x \<longleftrightarrow> (case x of None \<Rightarrow> True | Some (Inl _) \<Rightarrow> False | Some (Inr (a, ss)) \<Rightarrow> P a ss)"

lemma ok_answer_simps [simp]:
  "ok_answer P None" "\<not> ok_answer P (Some (Inl f))" "ok_answer P (Some (Inr (a, ss))) \<longleftrightarrow> P a ss"
  by (simp_all add: ok_answer_def)

lemma ok_answer_mono: "ok_answer P x \<Longrightarrow> (\<And>a ss. P a ss \<Longrightarrow> Q a ss) \<Longrightarrow> ok_answer Q x"
  by (auto simp: ok_answer_def split: option.splits sum.splits)

lemma ok_touch_answer: "ok_touch i ss x \<longleftrightarrow> ok_answer (touched i ss) x"
  by (simp add: ok_touch_def ok_answer_def)

lemma ok_open_answer: "ok_open i ss x \<longleftrightarrow> ok_answer (\<lambda>r ss'. frame i ss ss' \<and> sock_ok i (ss_slot ss' i) \<and> sk_type (ss_slot ss' i) \<noteq> SOCKET_TYPE_RESERVE) (Some x)"
  by (auto simp: ok_open_def ok_answer_def split: sum.splits)

lemma request_inv:
  assumes inv: "ss_inv ss" "ss_pipe ss = req # rest" "\<not> opens req" and t: "touched i (ss\<lparr>ss_pipe := rest\<rparr>) r ss'"
  shows "ss_inv (clear_closed_event r ss')"
proof -
  let ?ss = "ss\<lparr>ss_pipe := rest\<rparr>"
  have ok: "\<And>j. sock_ok j (ss_slot ss j)" and p: "pipe_inv (ss_slot ss) (sint (ss_alloc_id ss)) (req # rest)" and e: "ev_inv (ss_slot ss) (ss_ev ss)"
    using inv by (auto simp: ss_inv_def)
  have f: "\<And>j. j \<noteq> i \<Longrightarrow> ss_slot ss' j = ss_slot ss j" "ss_alloc_id ss' = ss_alloc_id ss" "ss_pipe ss' = rest"
    using t by (simp_all add: touched_def frame_def)
  have "pipe_inv (ss_slot ss') (sint (ss_alloc_id ss)) rest"
    using p ok f(1) by (rule pipe_inv_pop) (use t inv(3) in \<open>auto simp: touched_def\<close>)
  moreover have "sock_ok j (ss_slot ss' j)" for j
    using touched_sock_ok [OF _ t] ok by simp
  moreover have "ev_inv (ss_slot ss') (ss_ev (clear_closed_event r ss'))"
    using ev_inv_touched [OF _ _ t] e ok by simp
  ultimately show ?thesis
    using f by (simp add: ss_inv_def)
qed

lemma open_request_inv:
  assumes inv: "ss_inv ss" "ss_pipe ss = req # rest" "opens req" "req_id req = Some c"
    and t: "frame (HASH_ID c) (ss\<lparr>ss_pipe := rest\<rparr>) ss'" "sock_ok (HASH_ID c) (ss_slot ss' (HASH_ID c))"
      "sk_type (ss_slot ss' (HASH_ID c)) \<noteq> SOCKET_TYPE_RESERVE"
  shows "ss_inv (clear_closed_event r ss')"
proof -
  let ?i = "HASH_ID c"
  have ok: "\<And>j. sock_ok j (ss_slot ss j)" and p: "pipe_inv (ss_slot ss) (sint (ss_alloc_id ss)) (req # rest)" and e: "ev_inv (ss_slot ss) (ss_ev ss)"
    using inv by (auto simp: ss_inv_def)
  have f: "\<And>j. j \<noteq> ?i \<Longrightarrow> ss_slot ss' j = ss_slot ss j" "ss_alloc_id ss' = ss_alloc_id ss" "ss_pipe ss' = rest" "ss_ev ss' = ss_ev ss"
    using t(1) by (simp_all add: frame_def)
  have ok': "sock_ok j (ss_slot ss' j)" for j
    using ok [of j] f(1) [of j] t(2) by (cases "j = ?i") auto
  have "pipe_inv (ss_slot ss') (sint (ss_alloc_id ss)) rest"
    using p ok f(1) by (rule pipe_inv_pop) (use t inv(3,4) in auto)
  moreover have "ev_inv (ss_slot ss') (ss_ev (clear_closed_event r ss'))"
  proof (rule clear_closed_pass)
    have "sk_type (ss_slot ss ?i) = SOCKET_TYPE_RESERVE"
      using p inv(3,4) by (auto simp: pipe_inv_def)
    then have "sk_poll (ss_slot ss ?i) = None"
      using ok [of ?i] by (auto simp: sock_ok_def unregistered_def)
    then have "?i \<notin> set (ev_slots (ss_ev ss))"
      using e by (auto simp: ev_inv_def)
    then show "ev_inv (ss_slot ss') (ss_ev ss')"
      using e f(1,4) unfolding ev_inv_def by metis
  qed (use ok' in auto)
  ultimately show ?thesis
    using f ok' by (simp add: ss_inv_def)
qed

lemma ctrl_cmd_inv:
  assumes inv: "ss_inv ss" and pipe: "ss_pipe ss \<noteq> []"
  shows "ok_answer (\<lambda>r ss'. ss_inv (clear_closed_event r ss')) (ctrl_cmd os ss)"
proof -
  obtain req rest where q: "ss_pipe ss = req # rest"
    using pipe by (cases "ss_pipe ss") auto
  define ss1 where "ss1 = ss\<lparr>ss_pipe := rest\<rparr>"
  have ok: "sock_ok j (ss_slot ss1 j)" for j
    using inv by (simp add: ss_inv_def ss1_def)
  have p: "pipe_inv (ss_slot ss) (sint (ss_alloc_id ss)) (req # rest)"
    using inv q by (simp add: ss_inv_def)
  have req: "req_ok (sint (ss_alloc_id ss)) req" and ord: "\<forall>r \<in> set rest. opens r \<longrightarrow> req_id r \<noteq> req_id req"
    using p by (simp_all add: pipe_inv_def)
  have e: "ctrl_cmd os ss = ctrl_switch os req ss1"
    by (simp add: ctrl_cmd_def q ss1_def)
  show ?thesis
  proof (cases "opens req")
    case True
    then obtain c where c: "req_id req = Some c"
      by (cases req) (simp_all add: opens_def)
    have "sk_type (ss_slot ss1 (HASH_ID c)) = SOCKET_TYPE_RESERVE"
      using p True c by (simp add: pipe_inv_def ss1_def)
    then have n: "named c ss1"
      using ok by (simp add: named_def)
    have "ok_answer (\<lambda>r ss'. frame (HASH_ID c) ss1 ss' \<and> sock_ok (HASH_ID c) (ss_slot ss' (HASH_ID c)) \<and>
        sk_type (ss_slot ss' (HASH_ID c)) \<noteq> SOCKET_TYPE_RESERVE) (ctrl_switch os req ss1)"
      using True c bind_socket_ok [OF n] listen_socket_ok [OF n] open_socket_ok [OF n] add_udp_socket_ok [OF n]
      by (cases req) (simp_all add: opens_def ctrl_switch_def ok_open_answer)
    then show ?thesis
      unfolding e using open_request_inv [OF inv q True c] by (rule ok_answer_mono) (auto simp: ss1_def)
  next
    case False
    have u: "unnamed c ss1" if "req_id req = Some c" for c
    proof (rule ccontr)
      assume "\<not> unnamed c ss1"
      then have "sk_type (ss_slot ss (HASH_ID c)) = SOCKET_TYPE_RESERVE" "sk_id (ss_slot ss (HASH_ID c)) = c"
        by (simp_all add: unnamed_def ss1_def)
      then obtain r where "r \<in> set (req # rest)" "opens r" "req_id r = Some c"
        using p unfolding pipe_inv_def by metis
      then show False
        using False ord that by auto
    qed
    have "\<exists>i. ok_answer (touched i ss1) (ctrl_switch os req ss1)"
    proof (cases req)
      case (Ctrl_Start c opq)
      then show ?thesis
        using start_socket_ok [OF ok, of c os opq] by (auto simp: ctrl_switch_def ok_touch_answer)
    next
      case (Ctrl_Close c sh opq)
      then show ?thesis
        using close_socket_ok [OF ok u, of c os sh opq] by (auto simp: ctrl_switch_def ok_touch_answer)
    next
      case (Ctrl_Send c b sz pr)
      then show ?thesis
        using send_socket_ok [OF ok u, of c sz b os pr None] req by (auto simp: ctrl_switch_def ok_touch_answer req_ok_def)
    next
      case (Ctrl_Send_Udp c b sz ad)
      then show ?thesis
        using send_socket_ok [OF ok u, of c sz b os PRIORITY_HIGH "Some ad"] req by (auto simp: ctrl_switch_def ok_touch_answer req_ok_def)
    next
      case (Ctrl_Set_Udp c ad)
      then show ?thesis
        using set_udp_address_ok [OF ok u, of c ad] by (auto simp: ctrl_switch_def ok_touch_answer)
    qed (use False in \<open>simp_all add: ctrl_switch_def opens_def\<close>)
    then obtain i where "ok_answer (touched i ss1) (ctrl_switch os req ss1)"
      by blast
    then show ?thesis
      unfolding e using request_inv [OF inv q False] by (rule ok_answer_mono) (auto simp: ss1_def)
  qed
qed

section \<open>Ids\<close>

text \<open>The ids have not wrapped around, and will not in the next search.\<close>

definition room :: "socket_server \<Rightarrow> bool" where
  "room ss \<longleftrightarrow> 0 \<le> sint (ss_alloc_id ss) \<and> sint (ss_alloc_id ss) + int MAX_SOCKET < 2 ^ 31"

lemma sint_inc:
  assumes "0 \<le> sint (a :: u32)" "sint a + 1 < 2 ^ 31"
  shows "sint (a + 1) = sint a + 1"
  using assms by (simp add: sint_word_ariths signed_take_bit_int_eq_self)

lemma next_id_eq:
  assumes "0 \<le> sint a" "sint a + 1 < 2 ^ 31"
  shows "next_id a = (sint a + 1, a + 1)"
  using sint_inc [OF assms] assms by (simp add: next_id_def)

definition reserved :: "socket_server \<Rightarrow> int option \<Rightarrow> socket_server \<Rightarrow> bool" where
  "reserved ss r ss' \<longleftrightarrow> sint (ss_alloc_id ss) \<le> sint (ss_alloc_id ss') \<and> ss_pipe ss' = ss_pipe ss \<and> ss_ev ss' = ss_ev ss \<and>
     (case r of None \<Rightarrow> ss_slot ss' = ss_slot ss
      | Some c \<Rightarrow> sint (ss_alloc_id ss) < c \<and> c \<le> sint (ss_alloc_id ss') \<and> sk_type (ss_slot ss (HASH_ID c)) = SOCKET_TYPE_INVALID \<and>
          ss_slot ss' = (ss_slot ss)(HASH_ID c := (ss_slot ss (HASH_ID c))\<lparr>sk_type := SOCKET_TYPE_RESERVE, sk_id := c, sk_fd := -1\<rparr>))"

lemma reserve_loop_ok:
  assumes "0 \<le> sint (ss_alloc_id ss)" "sint (ss_alloc_id ss) + int n < 2 ^ 31" "reserve_loop n ss = (r, ss')"
  shows "reserved ss r ss'"
  using assms
proof (induction n arbitrary: ss)
  case 0
  then show ?case by (simp add: reserved_def)
next
  case (Suc n)
  let ?a = "ss_alloc_id ss"
  define ss1 where "ss1 = ss\<lparr>ss_alloc_id := ?a + 1\<rparr>"
  have inc: "sint (?a + 1) = sint ?a + 1" and nx: "next_id ?a = (sint ?a + 1, ?a + 1)"
    using Suc.prems(1,2) by (auto intro!: sint_inc next_id_eq)
  have e: "reserve_loop (Suc n) ss = (if sk_type (ss_slot ss (HASH_ID (sint ?a + 1))) = SOCKET_TYPE_INVALID
     then (Some (sint ?a + 1), put_slot ss1 (HASH_ID (sint ?a + 1))
        ((ss_slot ss (HASH_ID (sint ?a + 1)))\<lparr>sk_type := SOCKET_TYPE_RESERVE, sk_id := sint ?a + 1, sk_fd := -1\<rparr>))
     else reserve_loop n ss1)"
    by (simp add: nx Let_def ss1_def)
  show ?case
  proof (cases "sk_type (ss_slot ss (HASH_ID (sint ?a + 1))) = SOCKET_TYPE_INVALID")
    case True
    then show ?thesis
      using Suc.prems(3) inc unfolding e by (auto simp: reserved_def ss1_def)
  next
    case False
    then have "reserve_loop n ss1 = (r, ss')"
      using Suc.prems(3) unfolding e by simp
    then have "reserved ss1 r ss'"
      using Suc.prems inc by (intro Suc.IH) (simp_all add: ss1_def)
    then show ?thesis
      using inc by (auto simp: reserved_def ss1_def split: option.splits)
  qed
qed

lemma reserve_id_ok: "room ss \<Longrightarrow> reserve_id ss = (r, ss') \<Longrightarrow> reserved ss r ss'"
  by (rule reserve_loop_ok) (simp_all add: room_def reserve_id_def)

lemma req_ok_mono: "req_ok m req \<Longrightarrow> m \<le> m' \<Longrightarrow> req_ok m' req"
  by (force simp: req_ok_def)

lemma pipe_inv_mono: "pipe_inv slot m pipe \<Longrightarrow> m \<le> m' \<Longrightarrow> pipe_inv slot m' pipe"
  unfolding pipe_inv_def using req_ok_mono by blast

lemma ss_inv_log [simp]: "ss_inv (log_call ss c) \<longleftrightarrow> ss_inv ss"
  by (simp add: ss_inv_def)

lemma reserve_none_inv:
  assumes "ss_inv ss" "reserved ss None ss'"
  shows "ss_inv ss'"
  using assms pipe_inv_mono by (auto simp: ss_inv_def reserved_def)

lemma sock_ok_poll: "sock_ok i s \<Longrightarrow> sk_type s = SOCKET_TYPE_INVALID \<Longrightarrow> sk_poll s = None"
  by (simp add: sock_ok_def unregistered_def)

lemma ev_inv_free:
  assumes "ev_inv slot evs" "sk_poll (slot i) = None" "\<And>j. j \<noteq> i \<Longrightarrow> slot' j = slot j"
  shows "ev_inv slot' evs"
  using assms unfolding ev_inv_def by metis

lemma open_call_inv:
  assumes inv: "ss_inv ss" and r: "reserved ss (Some c) ss1" and req: "opens req" "req_id req = Some c"
  shows "ss_inv (send_request req ss1)"
proof -
  let ?i = "HASH_ID c"
  let ?slot = "ss_slot ss1"
  have ok: "\<And>j. sock_ok j (ss_slot ss j)" and p: "pipe_inv (ss_slot ss) (sint (ss_alloc_id ss)) (ss_pipe ss)" and e: "ev_inv (ss_slot ss) (ss_ev ss)"
    using inv by (auto simp: ss_inv_def)
  have a: "sint (ss_alloc_id ss) < c" "c \<le> sint (ss_alloc_id ss1)" and free: "sk_type (ss_slot ss ?i) = SOCKET_TYPE_INVALID"
    and slot: "?slot = (ss_slot ss)(?i := (ss_slot ss ?i)\<lparr>sk_type := SOCKET_TYPE_RESERVE, sk_id := c, sk_fd := -1\<rparr>)"
    and same: "ss_pipe ss1 = ss_pipe ss" "ss_ev ss1 = ss_ev ss" "sint (ss_alloc_id ss) \<le> sint (ss_alloc_id ss1)"
    using r by (auto simp: reserved_def)
  have rok: "req_ok (sint (ss_alloc_id ss1)) req"
    using req a by (cases req) (simp_all add: req_ok_def opens_def)
  have fresh: "req_id q \<noteq> Some c" if "q \<in> set (ss_pipe ss)" for q
    using p that a(1) by (force simp: pipe_inv_def req_ok_def)
  have "sock_ok j (?slot j)" for j
    using ok [of j] free by (auto simp: slot sock_ok_def unregistered_def send_buffer_empty_def)
  moreover have "ev_inv ?slot (ss_ev ss1)"
    unfolding same(2) using e sock_ok_poll [OF ok free] by (rule ev_inv_free) (simp add: slot)
  moreover have "pipe_inv ?slot (sint (ss_alloc_id ss1)) (ss_pipe ss @ [req])"
  proof -
    have q: "in_order (ss_pipe ss)" "\<forall>q \<in> set (ss_pipe ss). req_ok (sint (ss_alloc_id ss)) q"
      and q3: "\<And>q d. q \<in> set (ss_pipe ss) \<Longrightarrow> opens q \<Longrightarrow> req_id q = Some d \<Longrightarrow>
         sk_type (ss_slot ss (HASH_ID d)) = SOCKET_TYPE_RESERVE \<and> sk_id (ss_slot ss (HASH_ID d)) = d"
      and q4: "\<And>j. sk_type (ss_slot ss j) = SOCKET_TYPE_RESERVE \<Longrightarrow> \<exists>q \<in> set (ss_pipe ss). opens q \<and> req_id q = Some (sk_id (ss_slot ss j))"
      using p unfolding pipe_inv_def by blast+
    have "in_order (ss_pipe ss @ [req])"
      unfolding in_order_snoc using q(1) fresh by (simp add: req(2) eq_commute [of "Some c"])
    moreover have "\<forall>q \<in> set (ss_pipe ss @ [req]). req_ok (sint (ss_alloc_id ss1)) q"
      using q(2) rok req_ok_mono same(3) by auto
    moreover have "sk_type (?slot (HASH_ID d)) = SOCKET_TYPE_RESERVE \<and> sk_id (?slot (HASH_ID d)) = d"
      if "q \<in> set (ss_pipe ss @ [req])" "opens q" "req_id q = Some d" for q d
    proof (cases "q = req")
      case True
      then show ?thesis
        using that req by (simp add: slot)
    next
      case False
      then have t: "sk_type (ss_slot ss (HASH_ID d)) = SOCKET_TYPE_RESERVE \<and> sk_id (ss_slot ss (HASH_ID d)) = d"
        using q3 [of q d] that by simp
      then have "HASH_ID d \<noteq> ?i"
        using free by auto
      then show ?thesis
        using t by (simp add: slot)
    qed
    moreover have "\<exists>q \<in> set (ss_pipe ss @ [req]). opens q \<and> req_id q = Some (sk_id (?slot j))" if "sk_type (?slot j) = SOCKET_TYPE_RESERVE" for j
    proof (cases "j = ?i")
      case True
      then show ?thesis
        using req by (simp add: slot)
    next
      case False
      then show ?thesis
        using q4 [of j] that by (auto simp: slot)
    qed
    ultimately show ?thesis
      unfolding pipe_inv_def by blast
  qed
  ultimately show ?thesis
    using same by (simp add: ss_inv_def send_request_def)
qed

lemma call_inv:
  assumes "ss_inv ss" "\<not> opens req" "req_ok (sint (ss_alloc_id ss)) req"
  shows "ss_inv (send_request req ss)"
  using assms by (auto simp: ss_inv_def send_request_def pipe_inv_def in_order_snoc)

lemma report_accept_inv:
  assumes inv: "ss_inv ss" and r: "room ss"
  shows "ok_answer (\<lambda>_. ss_inv) (Some (report_accept os i ss))"
proof (cases "os_accept os")
  case (Accepted fd peer)
  obtain id' ss1 where e: "reserve_id ss = (id', ss1)"
    by fastforce
  then have res: "reserved ss id' ss1"
    using r by (intro reserve_id_ok)
  show ?thesis
  proof (cases id')
    case None
    then show ?thesis
      using Accepted e res reserve_none_inv [OF inv] by (simp add: report_accept_def)
  next
    case (Some c)
    let ?i = "HASH_ID c"
    have ok: "\<And>j. sock_ok j (ss_slot ss j)" and p: "pipe_inv (ss_slot ss) (sint (ss_alloc_id ss)) (ss_pipe ss)" and ev: "ev_inv (ss_slot ss) (ss_ev ss)"
      using inv by (auto simp: ss_inv_def)
    have free: "sk_type (ss_slot ss ?i) = SOCKET_TYPE_INVALID"
      and slot: "ss_slot ss1 = (ss_slot ss)(?i := (ss_slot ss ?i)\<lparr>sk_type := SOCKET_TYPE_RESERVE, sk_id := c, sk_fd := -1\<rparr>)"
      and same: "ss_pipe ss1 = ss_pipe ss" "ss_ev ss1 = ss_ev ss" "sint (ss_alloc_id ss) \<le> sint (ss_alloc_id ss1)"
      using res Some by (auto simp: reserved_def)
    have empty: "sk_high (ss_slot ss ?i) = []" "sk_low (ss_slot ss ?i) = []"
      using ok [of ?i] free by (auto simp: sock_ok_def unregistered_def)
    define s' where "s' = (ss_slot ss ?i)\<lparr>sk_id := c, sk_fd := fd, sk_protocol := PROTOCOL_TCP, sk_size := MIN_READ_BUFFER,
       sk_opaque := sk_opaque (ss_slot ss i), sk_wb_size := 0, sk_poll := None, sk_type := SOCKET_TYPE_PACCEPT\<rparr>"
    have a: "report_accept os i ss = Inr (Some (SOCKET_ACCEPT, (message_of (ss_slot ss i))\<lparr>pm_ud := c, pm_data := Sys_Text peer\<rparr>), put_slot ss1 ?i s')"
      using Accepted e Some empty by (simp add: report_accept_def new_fd_def Let_def slot set_type_eq s'_def put_slot_def)
    have s': "sock_ok ?i s'" "sk_type s' = SOCKET_TYPE_PACCEPT"
      using empty by (simp_all add: s'_def sock_ok_def unregistered_def send_buffer_empty_def)
    have sl: "ss_slot (put_slot ss1 ?i s') = (ss_slot ss)(?i := s')"
      by (simp add: slot)
    have "pipe_inv (ss_slot ss) (sint (ss_alloc_id ss1)) (ss_pipe ss)"
      using p same(3) by (rule pipe_inv_mono)
    then have "pipe_inv ((ss_slot ss)(?i := s')) (sint (ss_alloc_id ss1)) (ss_pipe ss)"
      by (rule pipe_inv_same [of _ _ _ ?i]) (simp_all add: s'(2) free)
    moreover have "ev_inv ((ss_slot ss)(?i := s')) (ss_ev ss)"
      using ev sock_ok_poll [OF ok free] by (rule ev_inv_free) simp
    ultimately have "ss_inv (put_slot ss1 ?i s')"
      using ok s'(1) same unfolding ss_inv_def sl by simp
    then show ?thesis
      by (simp add: a)
  qed
qed (use inv in \<open>simp_all add: report_accept_def\<close>)

section \<open>Events\<close>

text \<open>What \<open>sp_wait\<close> may give: each registered socket at most once, with a write event only where one was asked for.\<close>

definition waited :: "socket_server \<Rightarrow> poll_event list \<Rightarrow> bool" where
  "waited ss evs \<longleftrightarrow> distinct (ev_slots evs) \<and> (\<forall>e \<in> set evs. case ev_slot e of None \<Rightarrow> True
     | Some i \<Rightarrow> (case sk_poll (ss_slot ss i) of None \<Rightarrow> False | Some w \<Rightarrow> ev_write e \<longrightarrow> w))"

lemma waited_ev_inv: "waited ss evs \<Longrightarrow> ev_inv (ss_slot ss) evs"
proof -
  have "i \<in> set (ev_slots evs) \<Longrightarrow> \<exists>e \<in> set evs. ev_slot e = Some i" for i
    by (induction evs) (auto split: option.splits)
  then show "waited ss evs \<Longrightarrow> ev_inv (ss_slot ss) evs"
    unfolding waited_def ev_inv_def by (fastforce split: option.splits)
qed

definition closes :: "poll_result \<Rightarrow> bool" where
  "closes r \<longleftrightarrow> (\<exists>t m. r = Some (t, m) \<and> (t = SOCKET_CLOSE \<or> t = SOCKET_ERROR))"

lemma event_inv:
  assumes inv: "ss_inv ss" "ss_ev ss = e # es" "ev_slot e = Some i" and t: "touched i (ss\<lparr>ss_ev := es\<rparr>) r ss'"
  shows "ss_inv ss'" "ev_slot e' = Some i \<Longrightarrow> \<not> closes r \<Longrightarrow> ss_inv (ss'\<lparr>ss_ev := e' # ss_ev ss'\<rparr>)"
proof -
  have ok: "\<And>j. sock_ok j (ss_slot ss j)" and p: "pipe_inv (ss_slot ss) (sint (ss_alloc_id ss)) (ss_pipe ss)"
    and ev: "distinct (ev_slots es)" "i \<notin> set (ev_slots es)" "\<And>j. j \<in> set (ev_slots es) \<Longrightarrow> sk_poll (ss_slot ss j) \<noteq> None"
      "sk_poll (ss_slot ss i) \<noteq> None"
    using inv by (auto simp: ss_inv_def ev_inv_def)
  have f: "\<And>j. j \<noteq> i \<Longrightarrow> ss_slot ss' j = ss_slot ss j" "ss_alloc_id ss' = ss_alloc_id ss" "ss_pipe ss' = ss_pipe ss" "ss_ev ss' = es"
    using t by (simp_all add: touched_def frame_def)
  have ok': "sock_ok j (ss_slot ss' j)" for j
    using touched_sock_ok [OF _ t] ok by simp
  have p': "pipe_inv (ss_slot ss') (sint (ss_alloc_id ss)) (ss_pipe ss)"
    using p f(1) by (rule pipe_inv_same) (use t in \<open>auto simp: touched_def\<close>)
  have reg: "sk_poll (ss_slot ss' j) \<noteq> None" if "j \<in> set (ev_slots es)" for j
  proof -
    have "j \<noteq> i"
      using that ev(2) by blast
    then show ?thesis
      using ev(3) [OF that] f(1) by simp
  qed
  then show "ss_inv ss'"
    using ok' p' f ev(1) by (simp add: ss_inv_def ev_inv_def)
  show "ss_inv (ss'\<lparr>ss_ev := e' # ss_ev ss'\<rparr>)" if e': "ev_slot e' = Some i" and r: "\<not> closes r"
  proof -
    have "sk_poll (ss_slot ss' i) \<noteq> None"
      using t ev(4) r unfolding touched_def closes_def by auto
    then show ?thesis
      using ok' p' f ev(1,2) reg e' by (simp add: ss_inv_def ev_inv_def)
  qed
qed

lemma ok_answer_bind:
  assumes "ok_answer P (Some x)" "\<And>a ss. P a ss \<Longrightarrow> \<exists>b ss'. f (a, ss) = Inr (b, ss') \<and> Q b ss'"
  shows "ok_answer Q (Some (res_bind x f))"
  using assms(1)
proof (cases x)
  case (Inr y)
  obtain a ss where y: "y = (a, ss)"
    by fastforce
  then have "P a ss"
    using assms(1) Inr by simp
  then show ?thesis
    using assms(2) [of a ss] Inr y by auto
qed simp

lemma dispatch_event_inv:
  assumes inv: "ss_inv ss" and a: "answers_ok os" and room: "room ss"
  shows "ok_answer (\<lambda>_. ss_inv) (dispatch_event os ss)"
proof (cases "ss_ev ss")
  case Nil
  then show ?thesis
    by (simp add: dispatch_event_def)
next
  case (Cons e es)
  note ev = this
  define ss1 where "ss1 = ss\<lparr>ss_ev := es\<rparr>"
  have inv1: "ss_inv ss1"
    using inv ev by (auto simp: ss_inv_def ev_inv_def ss1_def split: option.splits)
  show ?thesis
  proof (cases "ev_slot e")
    case None
    then show ?thesis
      using ev inv1 by (simp add: dispatch_event_def Let_def ss1_def)
  next
    case (Some i)
    let ?s = "ss_slot ss i"
    have s: "sock_ok i ?s" "sk_poll ?s \<noteq> None"
      using inv ev Some by (auto simp: ss_inv_def ev_inv_def)
    have s1: "ss_slot ss1 i = ?s"
      by (simp add: ss1_def)
    note nu = registered_types [OF s]
    have inv_t: "ss_inv ss'" "\<And>e'. ev_slot e' = Some i \<Longrightarrow> \<not> closes r \<Longrightarrow> ss_inv (ss'\<lparr>ss_ev := e' # ss_ev ss'\<rparr>)"
      if "touched i ss1 r ss'" for r ss'
      using event_inv [OF inv ev Some] that by (auto simp: ss1_def)
    note disp = dispatch_event_def ev list.case Some option.case Let_def ss1_def [symmetric]
    consider "sk_type ?s = SOCKET_TYPE_CONNECTING" | "sk_type ?s = SOCKET_TYPE_LISTEN"
      | "sk_type ?s \<noteq> SOCKET_TYPE_CONNECTING" "sk_type ?s \<noteq> SOCKET_TYPE_LISTEN"
      by blast
    then show ?thesis
    proof cases
      case 1
      have "ok_answer (touched i ss1) (Some (report_connect os i ss1))"
        using report_connect_ok [of i ss1 os] s 1 by (simp add: s1 ok_touch_answer)
      then show ?thesis
        unfolding disp if_P [OF 1] by (rule ok_answer_bind) (use inv_t in auto)
    next
      case 2
      have "room ss1"
        using room by (simp add: room_def ss1_def)
      then have "ok_answer (\<lambda>_. ss_inv) (Some (report_accept os i ss1))"
        by (rule report_accept_inv [OF inv1])
      moreover have "sk_type ?s \<noteq> SOCKET_TYPE_CONNECTING"
        using 2 by simp
      ultimately show ?thesis
        unfolding disp using 2 by (simp only: if_False if_True simp_thms) (erule ok_answer_bind, auto)
    next
      case 3
      show ?thesis
      proof (cases "ev_read e")
        case read: True
        show ?thesis
        proof (cases "sk_protocol ?s = PROTOCOL_TCP")
          case True
          have "ok_answer (touched i ss1) (Some (forward_message_tcp os i ss1))"
            using forward_message_tcp_ok [of i ss1 os] s a by (simp add: s1 ok_touch_answer)
          then have "ok_answer (\<lambda>_. ss_inv) (Some (res_bind (forward_message_tcp os i ss1) (\<lambda>(r, ss). Inr (r,
                if ev_write e \<and> (case r of Some (t, _) \<Rightarrow> t \<noteq> SOCKET_CLOSE \<and> t \<noteq> SOCKET_ERROR | None \<Rightarrow> True)
                then ss\<lparr>ss_ev := e\<lparr>ev_read := False\<rparr> # ss_ev ss\<rparr> else ss))))"
          proof (rule ok_answer_bind)
            fix r ss'
            assume t: "touched i ss1 r ss'"
            have "(case r of Some (t, _) \<Rightarrow> t \<noteq> SOCKET_CLOSE \<and> t \<noteq> SOCKET_ERROR | None \<Rightarrow> True) \<longleftrightarrow> \<not> closes r"
              by (auto simp: closes_def split: option.splits)
            then show "\<exists>b ss''. (case (r, ss') of (r, ss) \<Rightarrow> Inr (r,
                if ev_write e \<and> (case r of Some (t, _) \<Rightarrow> t \<noteq> SOCKET_CLOSE \<and> t \<noteq> SOCKET_ERROR | None \<Rightarrow> True)
                then ss\<lparr>ss_ev := e\<lparr>ev_read := False\<rparr> # ss_ev ss\<rparr> else ss)) = Inr (b, ss'') \<and> ss_inv ss''"
              using inv_t [OF t] Some by auto
          qed
          then show ?thesis
            unfolding disp using 3 nu read True by (simp only: if_False if_True simp_thms) (erule ok_answer_bind, auto)
        next
          case False
          have "ok_answer (touched i ss1) (Some (forward_message_udp os i ss1))"
            using forward_message_udp_ok [of i ss1 os] s by (simp add: s1 ok_touch_answer)
          then have "ok_answer (\<lambda>_. ss_inv) (Some (res_bind (forward_message_udp os i ss1) (\<lambda>(r, ss). Inr (r,
                case r of
                  Some (t, _) \<Rightarrow> (if t = SOCKET_UDP then ss\<lparr>ss_ev := e # ss_ev ss\<rparr>
                    else if ev_write e \<and> t \<noteq> SOCKET_CLOSE \<and> t \<noteq> SOCKET_ERROR then ss\<lparr>ss_ev := e\<lparr>ev_read := False\<rparr> # ss_ev ss\<rparr> else ss)
                | None \<Rightarrow> (if ev_write e then ss\<lparr>ss_ev := e\<lparr>ev_read := False\<rparr> # ss_ev ss\<rparr> else ss)))))"
            by (rule ok_answer_bind) (use inv_t Some in \<open>auto simp: closes_def split: option.splits\<close>)
          then show ?thesis
            unfolding disp using 3 nu read False by (simp only: if_False if_True simp_thms) (erule ok_answer_bind, auto)
        qed
      next
        case noread: False
        show ?thesis
        proof (cases "ev_write e")
          case True
          have w: "writable i (ss_slot ss1 i)" "\<not> list_uncomplete (sk_low (ss_slot ss1 i))"
            using writableI [OF s(1) nu(1) 3(2)] by (simp_all add: s1)
          have "ok_flush i ss1 (send_buffer (os_writes os) i ss1)"
            using w by (rule send_buffer_ok)
          then show ?thesis
          proof (cases rule: ok_flushE)
            case none: 1
            then show ?thesis
              unfolding disp using 3 nu noread True by simp
          next
            case (2 ws r ss2)
            have "touched i ss1 r ss2"
              using s nu 3 2(2) by (intro flushed_touched) (simp_all add: s1)
            then show ?thesis
              unfolding disp using 3 nu noread True 2(1) inv_t by simp
          qed
        next
          case False
          then show ?thesis
            unfolding disp using 3 nu noread inv1 by simp
        qed
      qed
    qed
  qed
qed

lemma poll_round_inv:
  assumes inv: "ss_inv ss" and a: "answers_ok os" and w: "waited ss evs" and room: "room ss"
  shows "ok_answer (\<lambda>_. ss_inv) (poll_round os evs ss)"
proof (cases "ss_checkctrl ss \<and> ss_pipe ss \<noteq> []")
  case True
  then have "ok_answer (\<lambda>r ss'. ss_inv (clear_closed_event r ss')) (ctrl_cmd os ss)"
    using ctrl_cmd_inv [OF inv] by simp
  then show ?thesis
    using True by (auto simp: poll_round_def ok_answer_def res_obind_def split: option.splits sum.splits)
next
  case False
  have i1: "ss_inv (ss\<lparr>ss_checkctrl := False\<rparr>)" "room (ss\<lparr>ss_checkctrl := False\<rparr>)"
    using inv room by (simp_all add: ss_inv_def room_def)
  have i2: "ss_inv (ss\<lparr>ss_checkctrl := True, ss_ev := evs\<rparr>)" "room (ss\<lparr>ss_checkctrl := True, ss_ev := evs\<rparr>)"
    using inv room waited_ev_inv [OF w] by (simp_all add: ss_inv_def room_def)
  have i3: "ss\<lparr>ss_ev := evs', ss_checkctrl := True\<rparr> = ss\<lparr>ss_checkctrl := True, ss_ev := evs'\<rparr>" for evs'
    by simp
  show ?thesis
    unfolding poll_round_def if_not_P [OF False] Let_def
    using dispatch_event_inv [OF i1(1) a i1(2)] dispatch_event_inv [OF i2(1) a i2(2)] i2(1) by (auto simp: i3)
qed

section \<open>Steps\<close>

text \<open>
  Calls of services and rounds of the socket thread. A service names ids that were given out before; what it sends is
  as long as it says.
\<close>

inductive ss_step :: "socket_server \<Rightarrow> socket_server \<Rightarrow> bool" where
  step_connect: "room ss \<Longrightarrow> ss_step ss (snd (socket_server_connect opaque addr ss))"
| step_listen: "room ss \<Longrightarrow> ss_step ss (snd (socket_server_listen opaque listened ss))"
| step_bind: "room ss \<Longrightarrow> ss_step ss (snd (socket_server_bind opaque fd ss))"
| step_udp: "room ss \<Longrightarrow> ss_step ss (snd (socket_server_udp opaque bound ss))"
| step_send: "id' \<le> sint (ss_alloc_id ss) \<Longrightarrow> 0 \<le> sz \<Longrightarrow> sz \<le> int (length buffer) \<Longrightarrow>
    socket_server_send id' buffer sz ss = Inr (n, ss') \<Longrightarrow> ss_step ss ss'"
| step_send_lowpriority: "id' \<le> sint (ss_alloc_id ss) \<Longrightarrow> 0 \<le> sz \<Longrightarrow> sz \<le> int (length buffer) \<Longrightarrow>
    socket_server_send_lowpriority id' buffer sz ss = Inr ss' \<Longrightarrow> ss_step ss ss'"
| step_udp_send: "id' \<le> sint (ss_alloc_id ss) \<Longrightarrow> 0 \<le> sz \<Longrightarrow> sz \<le> int (length buffer) \<Longrightarrow>
    socket_server_udp_send id' addr buffer sz ss = Inr (n, ss') \<Longrightarrow> ss_step ss ss'"
| step_udp_connect: "id' \<le> sint (ss_alloc_id ss) \<Longrightarrow> ss_step ss (snd (socket_server_udp_connect id' resolved ss))"
| step_close: "id' \<le> sint (ss_alloc_id ss) \<Longrightarrow> ss_step ss (socket_server_close opaque id' ss)"
| step_shutdown: "id' \<le> sint (ss_alloc_id ss) \<Longrightarrow> ss_step ss (socket_server_shutdown opaque id' ss)"
| step_start: "id' \<le> sint (ss_alloc_id ss) \<Longrightarrow> ss_step ss (socket_server_start opaque id' ss)"
| step_nodelay: "id' \<le> sint (ss_alloc_id ss) \<Longrightarrow> ss_step ss (socket_server_nodelay id' ss)"
| step_exit: "ss_step ss (socket_server_exit ss)"
| step_poll: "answers_ok os \<Longrightarrow> waited ss evs \<Longrightarrow> room ss \<Longrightarrow> poll_round os evs ss = Some (Inr (a, ss')) \<Longrightarrow> ss_step ss ss'"

inductive ss_run :: "socket_server \<Rightarrow> bool" where
  run_create: "ss_run socket_server_create"
| run_step: "ss_run ss \<Longrightarrow> ss_step ss ss' \<Longrightarrow> ss_run ss'"

lemma ss_inv_create: "ss_inv socket_server_create"
  by (simp add: ss_inv_def socket_server_create_def sock_ok_def empty_socket_def unregistered_def send_buffer_empty_def pipe_inv_def ev_inv_def)

lemma open_call_step:
  assumes "ss_inv ss" "room ss" "\<And>c. opens (req c) \<and> req_id (req c) = Some c" "\<And>ss'. ss_inv ss' \<Longrightarrow> ss_inv (g ss')"
  shows "ss_inv (snd (case reserve_id ss of (None, ss) \<Rightarrow> (None, g ss) | (Some id', ss) \<Rightarrow> (Some id', send_request (req id') ss)))"
proof -
  obtain r ss1 where e: "reserve_id ss = (r, ss1)"
    by fastforce
  then have "reserved ss r ss1"
    using assms(2) by (intro reserve_id_ok)
  then show ?thesis
    using e assms(3,4) reserve_none_inv [OF assms(1)] open_call_inv [OF assms(1)] by (cases r) auto
qed

lemma ss_step_inv:
  assumes "ss_step ss ss'" "ss_inv ss"
  shows "ss_inv ss'"
  using assms
proof (induction rule: ss_step.induct)
  case (step_connect ss opaque addr)
  have "\<And>c. opens (Ctrl_Open c opaque) \<and> req_id (Ctrl_Open c opaque) = Some c"
    by (simp add: opens_def)
  then show ?case
    using open_call_step [of ss "\<lambda>c. Ctrl_Open c opaque" "\<lambda>ss. ss"] step_connect by (simp add: socket_server_connect_def)
next
  case (step_listen ss opaque listened)
  have "\<And>fd c. opens (Ctrl_Listen c fd opaque) \<and> req_id (Ctrl_Listen c fd opaque) = Some c"
    by (simp add: opens_def)
  then show ?case
    using open_call_step [of ss "\<lambda>c. Ctrl_Listen c fd opaque" "\<lambda>ss. log_call ss (Sys_Close fd)" for fd] step_listen
    by (simp add: socket_server_listen_def split: option.splits)
next
  case (step_bind ss opaque fd)
  have "\<And>c. opens (Ctrl_Bind c fd opaque) \<and> req_id (Ctrl_Bind c fd opaque) = Some c"
    by (simp add: opens_def)
  then show ?case
    using open_call_step [of ss "\<lambda>c. Ctrl_Bind c fd opaque" "\<lambda>ss. ss"] step_bind by (simp add: socket_server_bind_def)
next
  case (step_udp ss opaque bound)
  have "\<And>fd v c. opens (Ctrl_Udp c fd v opaque) \<and> req_id (Ctrl_Udp c fd v opaque) = Some c"
    by (simp add: opens_def)
  then show ?case
    using open_call_step [of ss "\<lambda>c. Ctrl_Udp c fd v opaque" "\<lambda>ss. log_call ss (Sys_Close fd)" for fd v] step_udp
    by (simp add: socket_server_udp_def split: option.splits prod.splits)
next
  case (step_poll os ss evs a ss')
  then show ?case
    using poll_round_inv [of ss os evs] by simp
qed (auto simp: socket_server_send_def socket_server_send_lowpriority_def socket_server_udp_send_def socket_server_udp_connect_def
    socket_server_close_def socket_server_shutdown_def socket_server_start_def socket_server_nodelay_def socket_server_exit_def
    opens_def req_ok_def Let_def res_bind_def split: if_splits sum.splits option.splits intro!: call_inv)

lemma ss_run_inv: "ss_run ss \<Longrightarrow> ss_inv ss"
  by (induction rule: ss_run.induct) (auto intro: ss_inv_create ss_step_inv)

section \<open>Properties\<close>


text \<open>A first connection, for the witnesses.\<close>

lemma HASH_ID_small: "0 \<le> i \<Longrightarrow> i < 65536 \<Longrightarrow> HASH_ID i = nat i"
  by (simp add: HASH_ID_def MAX_SOCKET_def)

lemma reserve_first:
  "reserve_id socket_server_create = (Some 1, put_slot (socket_server_create\<lparr>ss_alloc_id := 1\<rparr>) 1
     (empty_socket\<lparr>sk_type := SOCKET_TYPE_RESERVE, sk_id := 1, sk_fd := -1\<rparr>))"
proof -
  have "MAX_SOCKET = Suc 65535"
    by (simp add: MAX_SOCKET_def)
  then have "reserve_id socket_server_create = reserve_loop (Suc 65535) socket_server_create"
    by (simp only: reserve_id_def)
  also have "\<dots> = (Some 1, put_slot (socket_server_create\<lparr>ss_alloc_id := 1\<rparr>) 1
     (empty_socket\<lparr>sk_type := SOCKET_TYPE_RESERVE, sk_id := 1, sk_fd := -1\<rparr>))"
    unfolding reserve_loop.simps by (simp add: next_id_def Let_def socket_server_create_def HASH_ID_small empty_socket_def)
  finally show ?thesis .
qed

definition first_connect :: socket_server where
  "first_connect = snd (socket_server_connect 7 ''localhost'' socket_server_create)"

lemma first_connect_eq:
  "first_connect = send_request (Ctrl_Open 1 7) (put_slot (socket_server_create\<lparr>ss_alloc_id := 1\<rparr>) 1
     (empty_socket\<lparr>sk_type := SOCKET_TYPE_RESERVE, sk_id := 1, sk_fd := -1\<rparr>))"
  by (simp add: first_connect_def socket_server_connect_def SIZEOF_REQUEST_OPEN_def reserve_first)

lemma room_create: "room socket_server_create"
  by (simp add: room_def socket_server_create_def MAX_SOCKET_def)

lemma run_first_connect: "ss_run first_connect"
  unfolding first_connect_def by (intro run_step [OF run_create] step_connect room_create)

definition example_sys :: "connect_answer \<Rightarrow> write_answer list \<Rightarrow> sys" where
  "example_sys conn ws = \<lparr>os_writes = ws, os_add_fails = False, os_errno = [], os_read = R_Again, os_peer = [], os_connect = conn,
     os_connected = None, os_accept = Accept_Failed\<rparr>"

lemma first_connect_open:
  "poll_round (example_sys (Connected 5 ''127.0.0.1'') []) [] first_connect =
     Some (Inr (Return (Some (SOCKET_OPEN, \<lparr>pm_id = 1, pm_opaque = 7, pm_ud = 0, pm_data = Sys_Text ''127.0.0.1''\<rparr>)),
       put_slot (socket_server_create\<lparr>ss_alloc_id := 1\<rparr>) 1 (empty_socket\<lparr>sk_type := SOCKET_TYPE_CONNECTED, sk_id := 1, sk_fd := 5,
         sk_size := MIN_READ_BUFFER, sk_opaque := 7, sk_poll := Some False\<rparr>)))"
  by (simp add: first_connect_eq poll_round_def send_request_def socket_server_create_def put_slot_def ctrl_cmd_def ctrl_switch_def
      open_socket_def example_sys_def new_fd_def Let_def HASH_ID_small set_type_def empty_socket_def answer_def clear_closed_event_def)


text \<open>C18: No unsent data is forgotten. In every reachable state a connected socket with data in its lists waits for a write event, no message
  of the low list is partly sent, and the size the service is told is the number of the unsent bytes.
\<close>

theorem socket_server_no_lost_write:
  assumes "ss_run ss" "sk_type (ss_slot ss i) = SOCKET_TYPE_CONNECTED"
  shows "(send_buffer_empty (ss_slot ss i) \<or> sk_poll (ss_slot ss i) = Some True) \<and> set (map wbuf_ptr (sk_low (ss_slot ss i))) \<subseteq> {0} \<and>
    sk_wb_size (ss_slot ss i) = lsum (sk_high (ss_slot ss i)) + lsum (sk_low (ss_slot ss i))"
proof -
  have s: "sock_ok i (ss_slot ss i)"
    using ss_run_inv [OF assms(1)] by (simp add: ss_inv_def)
  moreover have "set (map wbuf_ptr (sk_low (ss_slot ss i))) \<subseteq> {0}"
    using s by (cases "sk_low (ss_slot ss i)") (auto simp: sock_ok_def)
  ultimately show ?thesis
    using assms(2) by (auto simp: sock_ok_def)
qed

definition first_open :: socket_server where
  "first_open = put_slot (socket_server_create\<lparr>ss_alloc_id := 1\<rparr>) 1 (empty_socket\<lparr>sk_type := SOCKET_TYPE_CONNECTED, sk_id := 1, sk_fd := 5,
     sk_size := MIN_READ_BUFFER, sk_opaque := 7, sk_poll := Some False\<rparr>)"

lemma run_first_open: "ss_run first_open"
proof (rule run_step [OF run_first_connect step_poll])
  show "poll_round (example_sys (Connected 5 ''127.0.0.1'') []) [] first_connect =
     Some (Inr (Return (Some (SOCKET_OPEN, \<lparr>pm_id = 1, pm_opaque = 7, pm_ud = 0, pm_data = Sys_Text ''127.0.0.1''\<rparr>)), first_open))"
    unfolding first_open_def by (rule first_connect_open)
qed (simp_all add: answers_ok_def example_sys_def waited_def room_def first_connect_eq send_request_def MAX_SOCKET_def)

text \<open>Three bytes are sent, \<open>write\<close> takes one.\<close>

definition first_partial :: socket_server where
  "first_partial = put_slot (log_call first_open (Sys_Write 5 [1])) 1 ((ss_slot first_open 1)\<lparr>
     sk_high := [\<lparr>wbuf_buffer = [1, 2, 3], wbuf_ptr = 1, wbuf_sz = 2, wbuf_udp_address = []\<rparr>], sk_wb_size := 2, sk_poll := Some True\<rparr>)"

lemma first_send: "socket_server_send 1 [1, 2, 3] 3 first_open = Inr (0, send_request (Ctrl_Send 1 [1, 2, 3] 3 PRIORITY_HIGH) first_open)"
  by (simp add: socket_server_send_def known_id_def HASH_ID_small first_open_def empty_socket_def)

lemma first_partial_eq:
  "poll_round (example_sys (Resolve_Failed []) [Wrote 1]) [] (send_request (Ctrl_Send 1 [1, 2, 3] 3 PRIORITY_HIGH) first_open) =
     Some (Inr (Again, first_partial))"
  "sk_type (ss_slot first_partial 1) = SOCKET_TYPE_CONNECTED" "\<not> send_buffer_empty (ss_slot first_partial 1)"
  by (simp_all add: numeral_2_eq_2 first_partial_def poll_round_def send_request_def first_open_def socket_server_create_def ctrl_cmd_def ctrl_switch_def
      send_socket_def send_object_size_def example_sys_def Let_def HASH_ID_small empty_socket_def answer_def clear_closed_event_def
      send_buffer_empty_def append_sendbuffer_def put_list_def wb_list_def sp_write_def put_slot_def log_call_def)

lemma run_first_partial: "ss_run first_partial"
proof (rule run_step [OF _ step_poll])
  show "ss_run (send_request (Ctrl_Send 1 [1, 2, 3] 3 PRIORITY_HIGH) first_open)"
    by (rule run_step [OF run_first_open step_send [OF _ _ _ first_send]]) (simp_all add: first_open_def)
  show "poll_round (example_sys (Resolve_Failed []) [Wrote 1]) [] (send_request (Ctrl_Send 1 [1, 2, 3] 3 PRIORITY_HIGH) first_open) =
     Some (Inr (Again, first_partial))"
    by (rule first_partial_eq(1))
qed (simp_all add: answers_ok_def example_sys_def waited_def room_def send_request_def first_open_def MAX_SOCKET_def)

lemma socket_server_no_lost_write_witness:
  "(send_buffer_empty (ss_slot first_partial 1) \<or> sk_poll (ss_slot first_partial 1) = Some True) \<and>
    set (map wbuf_ptr (sk_low (ss_slot first_partial 1))) \<subseteq> {0} \<and>
    sk_wb_size (ss_slot first_partial 1) = lsum (sk_high (ss_slot first_partial 1)) + lsum (sk_low (ss_slot first_partial 1))"
  using socket_server_no_lost_write [OF run_first_partial first_partial_eq(2)] .

text \<open>Data for a bound descriptor is never sent by the socket thread. In every reachable state a socket that \<open>socket_server_bind\<close>
  opened does not wait for write events, and a request to send only appends to its lists; nothing is written before somebody closes it.
\<close>

theorem socket_bind_unsent:
  assumes "ss_run ss" "sk_type (ss_slot ss i) = SOCKET_TYPE_BIND" "0 \<le> sz" "sz \<le> int (length buffer)"
  shows "sk_poll (ss_slot ss i) = Some False \<and>
    send_socket os (sk_id (ss_slot ss i)) buffer sz p None ss =
      Some (Inr (None, put_slot ss i (append_sendbuffer p (take (nat sz) buffer) 0 [] (ss_slot ss i))))"
proof -
  have s: "sock_ok i (ss_slot ss i)"
    using ss_run_inv [OF assms(1)] by (simp add: ss_inv_def)
  then have "HASH_ID (sk_id (ss_slot ss i)) = i" "sk_poll (ss_slot ss i) = Some False" "sk_protocol (ss_slot ss i) = PROTOCOL_TCP"
    using assms(2) by (simp_all add: sock_ok_def)
  then show ?thesis
    using assms(2-4) by (simp add: send_socket_def send_object_size_def Let_def)
qed

definition first_bound :: socket_server where
  "first_bound = put_slot (socket_server_create\<lparr>ss_alloc_id := 1\<rparr>) 1 (empty_socket\<lparr>sk_type := SOCKET_TYPE_BIND, sk_id := 1, sk_fd := 0,
     sk_size := MIN_READ_BUFFER, sk_opaque := 7, sk_poll := Some False\<rparr>)"

lemma first_bind_eq:
  "snd (socket_server_bind 7 0 socket_server_create) = send_request (Ctrl_Bind 1 0 7) (put_slot (socket_server_create\<lparr>ss_alloc_id := 1\<rparr>) 1
     (empty_socket\<lparr>sk_type := SOCKET_TYPE_RESERVE, sk_id := 1, sk_fd := -1\<rparr>))"
  by (simp add: socket_server_bind_def reserve_first)

lemma run_first_bound: "ss_run first_bound"
proof (rule run_step [OF run_step [OF run_create step_bind [OF room_create, of 7 0]] step_poll])
  show "poll_round (example_sys (Resolve_Failed []) []) [] (snd (socket_server_bind 7 0 socket_server_create)) =
     Some (Inr (Return (Some (SOCKET_OPEN, \<lparr>pm_id = 1, pm_opaque = 7, pm_ud = 0, pm_data = Text ''binding''\<rparr>)), first_bound))"
    unfolding first_bind_eq
    by (simp add: first_bound_def poll_round_def send_request_def socket_server_create_def put_slot_def
        ctrl_cmd_def ctrl_switch_def bind_socket_def example_sys_def new_fd_def Let_def HASH_ID_small set_type_def empty_socket_def
        answer_def clear_closed_event_def)
qed (simp_all add: answers_ok_def example_sys_def waited_def room_def first_bind_eq send_request_def MAX_SOCKET_def)

lemma socket_bind_unsent_witness:
  "sk_poll (ss_slot first_bound 1) = Some False \<and>
    send_socket (example_sys (Resolve_Failed []) []) (sk_id (ss_slot first_bound 1)) [65] 1 PRIORITY_HIGH None first_bound =
      Some (Inr (None, put_slot first_bound 1 (append_sendbuffer PRIORITY_HIGH (take (nat 1) [65]) 0 [] (ss_slot first_bound 1))))"
  by (rule socket_bind_unsent [OF run_first_bound]) (simp_all add: first_bound_def)

end
