(* ===== verification/SocketStream.thy ===== *)
theory SocketStream
  imports SocketStep
begin

text \<open>
  What arrives at the other end of a TCP connection. Messages of two priorities go into two lists; the write events and the
  direct writes of \<open>send_socket\<close> take them out in parts. Whatever \<open>write\<close> answers, the bytes on the wire followed by the unsent
  bytes are all the messages, none interrupted by another, those of one priority in the order in which they were sent.
\<close>

definition written :: "int \<Rightarrow> sys_call list \<Rightarrow> bytes" where
  "written fd cs = concat (map (\<lambda>c. case c of Sys_Write f bs \<Rightarrow> (if f = fd then bs else []) | _ \<Rightarrow> []) cs)"

lemma written_simps [simp]:
  "written fd [] = []" "written fd (cs @ cs') = written fd cs @ written fd cs'"
  "written fd (Sys_Write fd bs # cs) = bs @ written fd cs"
  by (simp_all add: written_def)

definition unsent :: "write_buffer list \<Rightarrow> bytes" where
  "unsent l = concat (map (\<lambda>b. drop (wbuf_ptr b) (wbuf_buffer b)) l)"

lemma unsent_simps [simp]:
  "unsent [] = []" "unsent (b # l) = drop (wbuf_ptr b) (wbuf_buffer b) @ unsent l" "unsent (l @ l') = unsent l @ unsent l'"
  by (simp_all add: unsent_def)

definition of_priority :: "priority \<Rightarrow> (priority \<times> bytes) list \<Rightarrow> bytes list" where
  "of_priority p ms = map snd (filter (\<lambda>m. fst m = p) ms)"

lemma of_priority_simps [simp]:
  "of_priority p [] = []" "of_priority p (ms @ ms') = of_priority p ms @ of_priority p ms'"
  "of_priority p (m # ms) = (if fst m = p then snd m # of_priority p ms else of_priority p ms)"
  by (simp_all add: of_priority_def)

definition buffers_ok :: "write_buffer list \<Rightarrow> bool" where
  "buffers_ok l \<longleftrightarrow> (\<forall>b \<in> set l. wbuf_ptr b + wbuf_sz b = length (wbuf_buffer b))"

lemma buffers_ok_simps [simp]:
  "buffers_ok []" "buffers_ok (b # l) \<longleftrightarrow> wbuf_ptr b + wbuf_sz b = length (wbuf_buffer b) \<and> buffers_ok l"
  "buffers_ok (l @ l') \<longleftrightarrow> buffers_ok l \<and> buffers_ok l'"
  by (auto simp: buffers_ok_def)

text \<open>One round of writing: messages \<open>d\<close> leave the list, the bytes written are the front of what was unsent.\<close>

definition wrote :: "priority \<Rightarrow> nat \<Rightarrow> socket_server \<Rightarrow> socket_server \<Rightarrow> bool" where
  "wrote p i ss ss' \<longleftrightarrow> (let s = ss_slot ss i in \<exists>l w d cs. ss_slot ss' i = (put_list p l s)\<lparr>sk_wb_size := w\<rparr> \<and> ss_log ss' = ss_log ss @ cs \<and>
     map wbuf_buffer (wb_list p s) = d @ map wbuf_buffer l \<and> unsent (wb_list p s) = written (sk_fd s) cs @ unsent l \<and>
     buffers_ok l \<and> set (tl l) \<subseteq> set (wb_list p s))"

lemma set_tl: "set (tl l) \<subseteq> set l"
  by (cases l) auto

lemma wrote_refl:
  assumes "buffers_ok (wb_list p (ss_slot ss i))"
  shows "wrote p i ss ss"
  unfolding wrote_def Let_def using assms
  by (intro exI [of _ "wb_list p (ss_slot ss i)"] exI [of _ "sk_wb_size (ss_slot ss i)"] exI [of _ "[]"])
    (simp_all add: set_tl)

lemma send_list_tcp_wrote:
  assumes "buffers_ok (wb_list p (ss_slot ss i))"
    "send_list_tcp ws p i ss = Some (Inr (ws', None, ss'))"
  shows "wrote p i ss ss'"
  using assms
proof (induction ws arbitrary: ss)
  case Nil
  then show ?case
    using wrote_refl [OF Nil.prems(1)] by (auto split: if_splits)
next
  case (Cons w ws)
  let ?s = "ss_slot ss i"
  show ?case
  proof (cases "wb_list p ?s")
    case Nil
    then show ?thesis
      using Cons.prems wrote_refl [OF Cons.prems(1)] by auto
  next
    case (Cons b rest)
    note l = this
    show ?thesis
    proof (cases w)
      case W_Intr
      then show ?thesis
        using Cons.IH [OF Cons.prems(1)] Cons.prems(2) l by simp
    next
      case W_Again
      then show ?thesis
        using Cons.prems(2) l wrote_refl [OF Cons.prems(1)] by simp
    next
      case W_Error
      then show ?thesis
        using Cons.prems(2) l by (auto simp: res_bind_Inr_iff)
    next
      case (Wrote k)
      define n where "n = min k (wbuf_sz b)"
      define bs where "bs = take n (drop (wbuf_ptr b) (wbuf_buffer b))"
      define ss1 where "ss1 = log_call ss (Sys_Write (sk_fd ?s) bs)"
      have s1: "ss_slot ss1 = ss_slot ss" "ss_log ss1 = ss_log ss @ [Sys_Write (sk_fd ?s) bs]"
        by (simp_all add: ss1_def)
      have b: "wbuf_ptr b + wbuf_sz b = length (wbuf_buffer b)" "buffers_ok rest"
        using Cons.prems(1) l by simp_all
      show ?thesis
      proof (cases "n = wbuf_sz b")
        case False
        define b' where "b' = b\<lparr>wbuf_ptr := wbuf_ptr b + n, wbuf_sz := wbuf_sz b - n\<rparr>"
        have "ss' = put_slot ss1 i ((put_list p (b' # rest) ?s)\<lparr>sk_wb_size := sk_wb_size ?s - int n\<rparr>)"
          using Cons.prems(2) False by (simp add: Wrote l Let_def n_def [symmetric] bs_def [symmetric] ss1_def [symmetric] b'_def [symmetric])
        moreover have "drop (wbuf_ptr b) (wbuf_buffer b) = bs @ drop (wbuf_ptr b') (wbuf_buffer b')"
          using append_take_drop_id [of n "drop (wbuf_ptr b) (wbuf_buffer b)"] by (simp add: bs_def b'_def add.commute)
        moreover have "wbuf_buffer b' = wbuf_buffer b"
          by (simp add: b'_def)
        ultimately show ?thesis
          unfolding wrote_def Let_def
          by (intro exI [of _ "b' # rest"] exI [of _ "sk_wb_size ?s - int n"] exI [of _ "[]"] exI [of _ "[Sys_Write (sk_fd ?s) bs]"])
            (use b in \<open>auto simp: l s1 b'_def n_def\<close>)
      next
        case True
        define ss2 where "ss2 = put_slot ss1 i ((put_list p rest ?s)\<lparr>sk_wb_size := sk_wb_size ?s - int n\<rparr>)"
        have "send_list_tcp ws p i ss2 = Some (Inr (ws', None, ss'))"
          using True Cons.prems(2) by (simp add: Wrote l Let_def n_def ss1_def ss2_def bs_def)
        then have "wrote p i ss2 ss'"
          using b by (intro Cons.IH) (simp_all add: ss2_def)
        then obtain l' w' d cs where o: "ss_slot ss' i = (put_list p l' (ss_slot ss2 i))\<lparr>sk_wb_size := w'\<rparr>" "ss_log ss' = ss_log ss2 @ cs"
          "map wbuf_buffer (wb_list p (ss_slot ss2 i)) = d @ map wbuf_buffer l'"
          "unsent (wb_list p (ss_slot ss2 i)) = written (sk_fd (ss_slot ss2 i)) cs @ unsent l'"
          "buffers_ok l'" "set (tl l') \<subseteq> set (wb_list p (ss_slot ss2 i))"
          unfolding wrote_def Let_def by blast
        have "bs = drop (wbuf_ptr b) (wbuf_buffer b)"
          using True b(1) by (simp add: bs_def)
        then show ?thesis
          unfolding wrote_def Let_def using o
          by (intro exI [of _ l'] exI [of _ w'] exI [of _ "wbuf_buffer b # d"] exI [of _ "[Sys_Write (sk_fd ?s) bs] @ cs"])
            (auto simp: l s1 ss2_def)
      qed
    qed
  qed
qed

text \<open>
  The connection \<open>c\<close> after the messages \<open>ms\<close> (with their priorities) since it was in state \<open>ss0\<close>, with nothing unsent: messages are
  sent, write events are handled, and others work on other sockets or read from this one.
\<close>

definition stream_socket :: "int \<Rightarrow> socket \<Rightarrow> bool" where
  "stream_socket c s \<longleftrightarrow> sk_type s = SOCKET_TYPE_CONNECTED \<and> sk_protocol s = PROTOCOL_TCP \<and> sk_id s = c"

inductive stream :: "int \<Rightarrow> socket_server \<Rightarrow> (priority \<times> bytes) list \<Rightarrow> socket_server \<Rightarrow> bool" for c :: int and ss0 :: socket_server where
  stream_start: "stream_socket c (ss_slot ss0 (HASH_ID c)) \<Longrightarrow> send_buffer_empty (ss_slot ss0 (HASH_ID c)) \<Longrightarrow> stream c ss0 [] ss0"
| stream_send: "stream c ss0 ms ss \<Longrightarrow> send_socket os c buffer sz p None ss = Some (Inr (None, ss')) \<Longrightarrow>
    stream c ss0 (ms @ [(p, take (nat sz) buffer)]) ss'"
| stream_write: "stream c ss0 ms ss \<Longrightarrow> send_buffer ws (HASH_ID c) ss = Some (Inr (ws', None, ss')) \<Longrightarrow> stream c ss0 ms ss'"
| stream_other: "stream c ss0 ms ss \<Longrightarrow> stream_socket c (ss_slot ss' (HASH_ID c)) \<Longrightarrow>
    sk_high (ss_slot ss' (HASH_ID c)) = sk_high (ss_slot ss (HASH_ID c)) \<Longrightarrow> sk_low (ss_slot ss' (HASH_ID c)) = sk_low (ss_slot ss (HASH_ID c)) \<Longrightarrow>
    sk_fd (ss_slot ss' (HASH_ID c)) = sk_fd (ss_slot ss (HASH_ID c)) \<Longrightarrow>
    ss_log ss' = ss_log ss @ cs \<Longrightarrow> written (sk_fd (ss_slot ss (HASH_ID c))) cs = [] \<Longrightarrow> stream c ss0 ms ss'"

text \<open>
  The messages are those that left the lists (\<open>d\<close>), then the high list, whose priorities are \<open>th\<close>, since a message of low priority is
  there when it is partly sent, then the low list.
\<close>

definition tagged :: "priority list \<Rightarrow> write_buffer list \<Rightarrow> (priority \<times> bytes) list" where
  "tagged th l = zip th (map wbuf_buffer l)"

definition lows :: "write_buffer list \<Rightarrow> (priority \<times> bytes) list" where
  "lows l = map (\<lambda>b. (PRIORITY_LOW, wbuf_buffer b)) l"

definition stream_inv :: "int \<Rightarrow> socket_server \<Rightarrow> (priority \<times> bytes) list \<Rightarrow> socket_server \<Rightarrow> bool" where
  "stream_inv c ss0 ms ss \<longleftrightarrow> (let s = ss_slot ss (HASH_ID c) in stream_socket c s \<and>
     buffers_ok (sk_high s) \<and> buffers_ok (sk_low s) \<and> (\<forall>b \<in> set (sk_low s). wbuf_ptr b = 0) \<and> sk_fd s = sk_fd (ss_slot ss0 (HASH_ID c)) \<and>
     (\<exists>d th cs. length th = length (sk_high s) \<and> ss_log ss = ss_log ss0 @ cs \<and>
       (\<forall>p. of_priority p ms = of_priority p (d @ tagged th (sk_high s) @ lows (sk_low s))) \<and>
       written (sk_fd s) cs @ unsent (sk_high s) = concat (map snd (d @ tagged th (sk_high s)))))"

lemma unsent_fresh: "\<forall>b \<in> set l. wbuf_ptr b = 0 \<Longrightarrow> unsent l = concat (map snd (lows l))"
  by (induction l) (simp_all add: lows_def)

lemma tagged_split:
  assumes "length th = length l" "map wbuf_buffer l = d @ map wbuf_buffer l'"
  shows "\<exists>td th'. length td = length d \<and> length th' = length l' \<and> tagged th l = zip td d @ tagged th' l'"
proof (intro exI conjI)
  have n: "length l = length d + length l'"
    using arg_cong [OF assms(2), of length] by simp
  show "length (take (length d) th) = length d" "length (drop (length d) th) = length l'"
    using assms(1) n by simp_all
  have "zip (take (length d) th @ drop (length d) th) (d @ map wbuf_buffer l') = zip (take (length d) th) d @ zip (drop (length d) th) (map wbuf_buffer l')"
    using assms(1) n by (intro zip_append) simp
  then show "tagged th l = zip (take (length d) th) d @ tagged (drop (length d) th) l'"
    by (simp add: tagged_def assms(2))
qed

lemma concat_zip: "length td = length d \<Longrightarrow> concat (map snd (zip td d)) = concat d"
  by simp

lemma stream_invI:
  assumes "stream_socket c (ss_slot ss (HASH_ID c))" "buffers_ok (sk_high (ss_slot ss (HASH_ID c)))" "buffers_ok (sk_low (ss_slot ss (HASH_ID c)))"
    "\<forall>b \<in> set (sk_low (ss_slot ss (HASH_ID c))). wbuf_ptr b = 0" "sk_fd (ss_slot ss (HASH_ID c)) = sk_fd (ss_slot ss0 (HASH_ID c))"
    "length th = length (sk_high (ss_slot ss (HASH_ID c)))" "ss_log ss = ss_log ss0 @ cs"
    "\<And>p. of_priority p ms = of_priority p (d @ tagged th (sk_high (ss_slot ss (HASH_ID c))) @ lows (sk_low (ss_slot ss (HASH_ID c))))"
    "written (sk_fd (ss_slot ss (HASH_ID c))) cs @ unsent (sk_high (ss_slot ss (HASH_ID c))) =
       concat (map snd (d @ tagged th (sk_high (ss_slot ss (HASH_ID c)))))"
  shows "stream_inv c ss0 ms ss"
  unfolding stream_inv_def Let_def using assms by blast

lemma stream_invE:
  assumes "stream_inv c ss0 ms ss"
  obtains d th cs where "stream_socket c (ss_slot ss (HASH_ID c))" "buffers_ok (sk_high (ss_slot ss (HASH_ID c)))" "buffers_ok (sk_low (ss_slot ss (HASH_ID c)))"
    "\<forall>b \<in> set (sk_low (ss_slot ss (HASH_ID c))). wbuf_ptr b = 0" "sk_fd (ss_slot ss (HASH_ID c)) = sk_fd (ss_slot ss0 (HASH_ID c))"
    "length th = length (sk_high (ss_slot ss (HASH_ID c)))" "ss_log ss = ss_log ss0 @ cs"
    "\<forall>p. of_priority p ms = of_priority p (d @ tagged th (sk_high (ss_slot ss (HASH_ID c))) @ lows (sk_low (ss_slot ss (HASH_ID c))))"
    "written (sk_fd (ss_slot ss (HASH_ID c))) cs @ unsent (sk_high (ss_slot ss (HASH_ID c))) =
       concat (map snd (d @ tagged th (sk_high (ss_slot ss (HASH_ID c)))))"
  using assms unfolding stream_inv_def Let_def by blast

lemma stream_socket_upd [simp]:
  "stream_socket c (s\<lparr>sk_high := h\<rparr>) = stream_socket c s" "stream_socket c (s\<lparr>sk_low := h\<rparr>) = stream_socket c s"
  "stream_socket c (s\<lparr>sk_wb_size := w\<rparr>) = stream_socket c s" "stream_socket c (s\<lparr>sk_poll := q\<rparr>) = stream_socket c s"
  by (simp_all add: stream_socket_def)

lemma tagged_simps [simp]: "tagged [] [] = []" "tagged (t # th) (b # l) = (t, wbuf_buffer b) # tagged th l"
  "length th = length l \<Longrightarrow> tagged (th @ th') (l @ l') = tagged th l @ tagged th' l'"
  by (simp_all add: tagged_def)

lemma lows_simps [simp]: "lows [] = []" "lows (b # l) = (PRIORITY_LOW, wbuf_buffer b) # lows l" "lows (l @ l') = lows l @ lows l'"
  by (simp_all add: lows_def)

lemma of_priority_lows [simp]: "of_priority PRIORITY_HIGH (lows l) = []"
  by (induction l) simp_all

lemma stream_inv_high:
  assumes inv: "stream_inv c ss0 ms ss" and w: "wrote PRIORITY_HIGH (HASH_ID c) ss ss'"
  shows "stream_inv c ss0 ms ss'"
proof -
  let ?s = "ss_slot ss (HASH_ID c)"
  obtain d th cs where i: "stream_socket c ?s" "buffers_ok (sk_high ?s)" "buffers_ok (sk_low ?s)"
    "\<forall>b \<in> set (sk_low ?s). wbuf_ptr b = 0" "sk_fd ?s = sk_fd (ss_slot ss0 (HASH_ID c))" "length th = length (sk_high ?s)" "ss_log ss = ss_log ss0 @ cs"
    "\<forall>p. of_priority p ms = of_priority p (d @ tagged th (sk_high ?s) @ lows (sk_low ?s))"
    "written (sk_fd ?s) cs @ unsent (sk_high ?s) = concat (map snd (d @ tagged th (sk_high ?s)))"
    using inv by (rule stream_invE)
  obtain l n dn cs' where o: "ss_slot ss' (HASH_ID c) = ?s\<lparr>sk_high := l, sk_wb_size := n\<rparr>" "ss_log ss' = ss_log ss @ cs'"
     "map wbuf_buffer (sk_high ?s) = dn @ map wbuf_buffer l" "unsent (sk_high ?s) = written (sk_fd ?s) cs' @ unsent l" "buffers_ok l"
    using w by (auto simp: wrote_def Let_def wb_list_def put_list_def)
  obtain td th' where t: "length td = length dn" "length th' = length l" "tagged th (sk_high ?s) = zip td dn @ tagged th' l"
    using tagged_split [OF i(6) o(3)] by blast
  show ?thesis
  proof (rule stream_invI [of c ss' ss0 th' "cs @ cs'" ms "d @ zip td dn"])
    show "of_priority p ms = of_priority p ((d @ zip td dn) @ tagged th' (sk_high (ss_slot ss' (HASH_ID c))) @ lows (sk_low (ss_slot ss' (HASH_ID c))))" for p
      using i(8) t(3) o(1) by simp
    show "written (sk_fd (ss_slot ss' (HASH_ID c))) (cs @ cs') @ unsent (sk_high (ss_slot ss' (HASH_ID c))) =
       concat (map snd ((d @ zip td dn) @ tagged th' (sk_high (ss_slot ss' (HASH_ID c)))))"
      using i(9) t(3) o(1,4) by simp
  qed (use i o t in simp_all)
qed

lemma stream_inv_other:
  assumes inv: "stream_inv c ss0 ms ss" and s: "stream_socket c (ss_slot ss' (HASH_ID c))"
    "sk_high (ss_slot ss' (HASH_ID c)) = sk_high (ss_slot ss (HASH_ID c))" "sk_low (ss_slot ss' (HASH_ID c)) = sk_low (ss_slot ss (HASH_ID c))"
    "sk_fd (ss_slot ss' (HASH_ID c)) = sk_fd (ss_slot ss (HASH_ID c))"
    "ss_log ss' = ss_log ss @ cs'" "written (sk_fd (ss_slot ss (HASH_ID c))) cs' = []"
  shows "stream_inv c ss0 ms ss'"
proof -
  let ?s = "ss_slot ss (HASH_ID c)"
  obtain d th cs where i: "stream_socket c ?s" "buffers_ok (sk_high ?s)" "buffers_ok (sk_low ?s)"
    "\<forall>b \<in> set (sk_low ?s). wbuf_ptr b = 0" "sk_fd ?s = sk_fd (ss_slot ss0 (HASH_ID c))" "length th = length (sk_high ?s)" "ss_log ss = ss_log ss0 @ cs"
    "\<forall>p. of_priority p ms = of_priority p (d @ tagged th (sk_high ?s) @ lows (sk_low ?s))"
    "written (sk_fd ?s) cs @ unsent (sk_high ?s) = concat (map snd (d @ tagged th (sk_high ?s)))"
    using inv by (rule stream_invE)
  show ?thesis
    by (rule stream_invI [of c ss' ss0 th "cs @ cs'" ms d]) (use i s in simp_all)
qed

lemma stream_inv_poll:
  assumes "stream_inv c ss0 ms ss"
  shows "stream_inv c ss0 ms (on_slot (HASH_ID c) (sp_write b) ss)"
proof -
  have "stream_socket c (ss_slot ss (HASH_ID c))"
    using assms by (rule stream_invE)
  then show ?thesis
    using stream_inv_other [OF assms, of _ "[]"] by (simp add: on_slot_def sp_write_def)
qed

lemma of_priority_low_map: "of_priority p (map (Pair PRIORITY_LOW) l) = (if p = PRIORITY_LOW then l else [])"
  by (induction l) auto

lemma lows_map: "lows l = map (Pair PRIORITY_LOW) (map wbuf_buffer l)"
  by (simp add: lows_def)

lemma stream_inv_low:
  assumes inv: "stream_inv c ss0 ms ss" and w: "wrote PRIORITY_LOW (HASH_ID c) ss ss'" and h: "sk_high (ss_slot ss (HASH_ID c)) = []"
  shows "if list_uncomplete (sk_low (ss_slot ss' (HASH_ID c)))
    then \<exists>s. raise_uncomplete (ss_slot ss' (HASH_ID c)) = Inr s \<and> stream_inv c ss0 ms (put_slot ss' (HASH_ID c) s)
    else stream_inv c ss0 ms ss'"
proof -
  let ?s = "ss_slot ss (HASH_ID c)"
  obtain d th cs where i: "stream_socket c ?s" "buffers_ok (sk_high ?s)" "buffers_ok (sk_low ?s)"
    "\<forall>b \<in> set (sk_low ?s). wbuf_ptr b = 0" "sk_fd ?s = sk_fd (ss_slot ss0 (HASH_ID c))" "length th = length (sk_high ?s)" "ss_log ss = ss_log ss0 @ cs"
    "\<forall>p. of_priority p ms = of_priority p (d @ tagged th (sk_high ?s) @ lows (sk_low ?s))"
    "written (sk_fd ?s) cs @ unsent (sk_high ?s) = concat (map snd (d @ tagged th (sk_high ?s)))"
    using inv by (rule stream_invE)
  obtain l n dn cs' where o: "ss_slot ss' (HASH_ID c) = ?s\<lparr>sk_low := l, sk_wb_size := n\<rparr>" "ss_log ss' = ss_log ss @ cs'"
     "map wbuf_buffer (sk_low ?s) = dn @ map wbuf_buffer l" "unsent (sk_low ?s) = written (sk_fd ?s) cs' @ unsent l" "buffers_ok l"
     "set (tl l) \<subseteq> set (sk_low ?s)"
    using w by (auto simp: wrote_def Let_def wb_list_def put_list_def)
  have th: "th = []"
    using i(6) h by simp
  have low: "lows (sk_low ?s) = map (Pair PRIORITY_LOW) dn @ lows l"
    by (simp add: lows_map o(3) del: map_map)
  have tl0: "\<forall>b \<in> set (tl l). wbuf_ptr b = 0"
    using o(6) i(4) by blast
  have wr: "written (sk_fd ?s) cs = concat (map snd d)"
    using i(9) h th by simp
  have eq: "written (sk_fd ?s) cs' @ unsent l = concat dn @ concat (map snd (lows l))"
    using o(4) unsent_fresh [OF i(4)] low by (simp add: comp_def)
  show ?thesis
  proof (cases "list_uncomplete l")
    case True
    then obtain b rest where b: "l = b # rest"
      by (cases l) simp_all
    have r0: "\<forall>b \<in> set rest. wbuf_ptr b = 0"
      using tl0 b by simp
    have eq': "written (sk_fd ?s) cs' @ drop (wbuf_ptr b) (wbuf_buffer b) = concat dn @ wbuf_buffer b"
      using eq b unsent_fresh [OF r0] by simp
    define s' where "s' = ?s\<lparr>sk_wb_size := n, sk_low := rest, sk_high := [b]\<rparr>"
    have r: "raise_uncomplete (ss_slot ss' (HASH_ID c)) = Inr s'"
      by (simp add: o(1) raise_uncomplete_def b h s'_def)
    have "stream_inv c ss0 ms (put_slot ss' (HASH_ID c) s')"
    proof (rule stream_invI [of c _ ss0 "[PRIORITY_LOW]" "cs @ cs'" ms "d @ map (Pair PRIORITY_LOW) dn"])
      show "of_priority p ms = of_priority p ((d @ map (Pair PRIORITY_LOW) dn) @
         tagged [PRIORITY_LOW] (sk_high (ss_slot (put_slot ss' (HASH_ID c) s') (HASH_ID c))) @ lows (sk_low (ss_slot (put_slot ss' (HASH_ID c) s') (HASH_ID c))))" for p
        using i(8) low b h th by (simp add: s'_def)
      show "written (sk_fd (ss_slot (put_slot ss' (HASH_ID c) s') (HASH_ID c))) (cs @ cs') @ unsent (sk_high (ss_slot (put_slot ss' (HASH_ID c) s') (HASH_ID c))) =
        concat (map snd ((d @ map (Pair PRIORITY_LOW) dn) @ tagged [PRIORITY_LOW] (sk_high (ss_slot (put_slot ss' (HASH_ID c) s') (HASH_ID c)))))"
        using wr eq' by (simp add: s'_def comp_def)
    qed (use i o b r0 in \<open>simp_all add: s'_def\<close>)
    then show ?thesis
      using True r o(1) by simp
  next
    case False
    then have l0: "\<forall>b \<in> set l. wbuf_ptr b = 0"
      using tl0 by (cases l) simp_all
    have eq': "written (sk_fd ?s) cs' = concat dn"
      using eq unsent_fresh [OF l0] by simp
    have "stream_inv c ss0 ms ss'"
    proof (rule stream_invI [of c _ ss0 "[]" "cs @ cs'" ms "d @ map (Pair PRIORITY_LOW) dn"])
      show "of_priority p ms = of_priority p ((d @ map (Pair PRIORITY_LOW) dn) @
         tagged [] (sk_high (ss_slot ss' (HASH_ID c))) @ lows (sk_low (ss_slot ss' (HASH_ID c))))" for p
        using i(8) low h th by (simp add: o(1))
      show "written (sk_fd (ss_slot ss' (HASH_ID c))) (cs @ cs') @ unsent (sk_high (ss_slot ss' (HASH_ID c))) =
        concat (map snd ((d @ map (Pair PRIORITY_LOW) dn) @ tagged [] (sk_high (ss_slot ss' (HASH_ID c)))))"
        using wr eq' h by (simp add: o(1) comp_def)
    qed (use i o l0 h in simp_all)
    then show ?thesis
      using False o(1) by simp
  qed
qed

lemma res_obindE:
  assumes "res_obind x f = Some (Inr z)"
  obtains y where "x = Some (Inr y)" "f y = Some (Inr z)"
  using assms by (auto simp: res_obind_def split: option.splits sum.splits)

lemma stream_tcp: "stream_inv c ss0 ms ss \<Longrightarrow> send_list ws p (HASH_ID c) ss = send_list_tcp ws p (HASH_ID c) ss"
  by (simp add: send_list_def stream_inv_def Let_def stream_socket_def)

lemma stream_inv_send_buffer:
  assumes inv: "stream_inv c ss0 ms ss" and e: "send_buffer ws (HASH_ID c) ss = Some (Inr (ws', None, ss'))"
  shows "stream_inv c ss0 ms ss'"
proof -
  let ?i = "HASH_ID c"
  have low: "\<not> list_uncomplete (sk_low (ss_slot ss ?i))"
    using e by (auto simp: send_buffer_def split: if_splits)
  obtain ws1 r1 ss1 where s1: "send_list ws PRIORITY_HIGH ?i ss = Some (Inr (ws1, r1, ss1))" and k1: "(if r1 \<noteq> None then Some (Inr (ws1, r1, ss1))
       else let s = ss_slot ss1 ?i in
         if sk_high s \<noteq> [] then Some (Inr (ws1, None, ss1))
         else if sk_low s \<noteq> [] then
           res_obind (send_list ws1 PRIORITY_LOW ?i ss1) (\<lambda>(ws, r, ss).
             if r \<noteq> None then Some (Inr (ws, r, ss))
             else if list_uncomplete (sk_low (ss_slot ss ?i))
             then Some (res_bind (raise_uncomplete (ss_slot ss ?i)) (\<lambda>s. Inr (ws, None, put_slot ss ?i s)))
             else Some (Inr (ws, None, ss)))
         else let ss = on_slot ?i (sp_write False) ss1 in
           if sk_type s = SOCKET_TYPE_HALFCLOSE
           then Some (res_bind (closing (force_close ss ?i) SOCKET_CLOSE) (\<lambda>(r, ss). Inr (ws1, r, ss)))
           else Some (Inr (ws1, None, ss))) = Some (Inr (ws', None, ss'))"
    using e low unfolding send_buffer_def if_not_P [OF low] by (auto elim!: res_obindE)
  have r1: "r1 = None"
    using k1 by (cases r1) auto
  have "buffers_ok (wb_list PRIORITY_HIGH (ss_slot ss ?i))"
    using inv unfolding stream_inv_def Let_def by (simp add: wb_list_def)
  then have "wrote PRIORITY_HIGH ?i ss ss1"
    using s1 r1 stream_tcp [OF inv] by (intro send_list_tcp_wrote) simp_all
  with inv have inv1: "stream_inv c ss0 ms ss1"
    by (rule stream_inv_high)
  have t1: "stream_socket c (ss_slot ss1 ?i)" "buffers_ok (sk_low (ss_slot ss1 ?i))"
    using inv1 unfolding stream_inv_def Let_def by blast+
  consider "sk_high (ss_slot ss1 ?i) \<noteq> []" | "sk_high (ss_slot ss1 ?i) = []" "sk_low (ss_slot ss1 ?i) \<noteq> []"
    | "sk_high (ss_slot ss1 ?i) = []" "sk_low (ss_slot ss1 ?i) = []"
    by blast
  then show ?thesis
  proof cases
    case 1
    then show ?thesis
      using k1 r1 inv1 by simp
  next
    case 2
    obtain ws2 r2 ss2 where s2: "send_list ws1 PRIORITY_LOW ?i ss1 = Some (Inr (ws2, r2, ss2))" and k2: "(if r2 \<noteq> None then Some (Inr (ws2, r2, ss2))
             else if list_uncomplete (sk_low (ss_slot ss2 ?i))
             then Some (res_bind (raise_uncomplete (ss_slot ss2 ?i)) (\<lambda>s. Inr (ws2, None, put_slot ss2 ?i s)))
             else Some (Inr (ws2, None, ss2))) = Some (Inr (ws', None, ss'))"
      using k1 r1 2 by (auto simp: Let_def elim!: res_obindE)
    have r2: "r2 = None"
      using k2 by (cases r2) auto
    have "wrote PRIORITY_LOW ?i ss1 ss2"
      using s2 r2 t1(2) stream_tcp [OF inv1] by (intro send_list_tcp_wrote) (simp_all add: wb_list_def)
    then show ?thesis
      using stream_inv_low [OF inv1 _ 2(1), of ss2] k2 r2 by (auto split: if_splits)
  next
    case 3
    have "ss' = on_slot ?i (sp_write False) ss1"
      using k1 r1 3 t1(1) by (simp add: stream_socket_def)
    then show ?thesis
      using stream_inv_poll [OF inv1] by simp
  qed
qed

lemma stream_inv_append:
  assumes inv: "stream_inv c ss0 ms ss" and p: "p = PRIORITY_LOW \<Longrightarrow> n = 0 \<and> q = PRIORITY_LOW"
    "p = PRIORITY_HIGH \<Longrightarrow> q = PRIORITY_HIGH \<or> send_buffer_empty (ss_slot ss (HASH_ID c))"
    and n: "n \<le> length msg" "n = 0 \<or> send_buffer_empty (ss_slot ss (HASH_ID c))"
    and log: "ss_log ss1 = ss_log ss @ cs'" "written (sk_fd (ss_slot ss (HASH_ID c))) cs' = take n msg"
    and e: "ss_slot ss' (HASH_ID c) = (append_sendbuffer p msg n [] (ss_slot ss (HASH_ID c)))\<lparr>sk_poll := b\<rparr>" "ss_log ss' = ss_log ss1"
  shows "stream_inv c ss0 (ms @ [(q, msg)]) ss'"
proof -
  let ?s = "ss_slot ss (HASH_ID c)"
  obtain d th cs where i: "stream_socket c ?s" "buffers_ok (sk_high ?s)" "buffers_ok (sk_low ?s)"
    "\<forall>b \<in> set (sk_low ?s). wbuf_ptr b = 0" "sk_fd ?s = sk_fd (ss_slot ss0 (HASH_ID c))" "length th = length (sk_high ?s)" "ss_log ss = ss_log ss0 @ cs"
    "\<forall>p. of_priority p ms = of_priority p (d @ tagged th (sk_high ?s) @ lows (sk_low ?s))"
    "written (sk_fd ?s) cs @ unsent (sk_high ?s) = concat (map snd (d @ tagged th (sk_high ?s)))"
    using inv by (rule stream_invE)
  define wb where "wb = \<lparr>wbuf_buffer = msg, wbuf_ptr = n, wbuf_sz = length msg - n, wbuf_udp_address = []\<rparr>"
  have wb: "wbuf_ptr wb + wbuf_sz wb = length (wbuf_buffer wb)" "wbuf_buffer wb = msg" "wbuf_ptr wb = n"
    using n by (simp_all add: wb_def)
  show ?thesis
  proof (cases p)
    case PRIORITY_HIGH
    have s': "ss_slot ss' (HASH_ID c) = ?s\<lparr>sk_high := sk_high ?s @ [wb], sk_wb_size := sk_wb_size ?s + int (length msg - n), sk_poll := b\<rparr>"
      using e PRIORITY_HIGH by (simp add: append_sendbuffer_def put_list_def wb_list_def wb_def)
    have q: "q = PRIORITY_HIGH \<or> sk_low ?s = []"
      using p PRIORITY_HIGH by (auto simp: send_buffer_empty_def)
    have u: "n = 0 \<or> sk_high ?s = []"
      using n by (auto simp: send_buffer_empty_def)
    show ?thesis
    proof (rule stream_invI [of c ss' ss0 "th @ [q]" "cs @ cs'" _ d])
      show "of_priority p (ms @ [(q, msg)]) = of_priority p (d @ tagged (th @ [q]) (sk_high (ss_slot ss' (HASH_ID c))) @ lows (sk_low (ss_slot ss' (HASH_ID c))))" for p
        using i(6,8) q wb by (cases p) (auto simp: s')
      show "written (sk_fd (ss_slot ss' (HASH_ID c))) (cs @ cs') @ unsent (sk_high (ss_slot ss' (HASH_ID c))) =
        concat (map snd (d @ tagged (th @ [q]) (sk_high (ss_slot ss' (HASH_ID c)))))"
        using i(6,9) u wb log by (auto simp: s')
    qed (use i wb log e(2) s' in simp_all)
  next
    case PRIORITY_LOW
    then have z: "n = 0" "q = PRIORITY_LOW"
      using p by simp_all
    have s': "ss_slot ss' (HASH_ID c) = ?s\<lparr>sk_low := sk_low ?s @ [wb], sk_wb_size := sk_wb_size ?s + int (length msg - n), sk_poll := b\<rparr>"
      using e PRIORITY_LOW by (simp add: append_sendbuffer_def put_list_def wb_list_def wb_def)
    show ?thesis
    proof (rule stream_invI [of c ss' ss0 th "cs @ cs'" _ d])
      show "of_priority p (ms @ [(q, msg)]) = of_priority p (d @ tagged th (sk_high (ss_slot ss' (HASH_ID c))) @ lows (sk_low (ss_slot ss' (HASH_ID c))))" for p
        using i(8) z wb by (auto simp: s')
      show "written (sk_fd (ss_slot ss' (HASH_ID c))) (cs @ cs') @ unsent (sk_high (ss_slot ss' (HASH_ID c))) =
        concat (map snd (d @ tagged th (sk_high (ss_slot ss' (HASH_ID c)))))"
        using i(9) z log by (simp add: s')
    qed (use i wb log e(2) s' z in auto)
  qed
qed

lemma stream_inv_send:
  assumes inv: "stream_inv c ss0 ms ss" and e: "send_socket os c buffer sz p None ss = Some (Inr (None, ss'))"
  shows "stream_inv c ss0 (ms @ [(p, take (nat sz) buffer)]) ss'"
proof -
  let ?s = "ss_slot ss (HASH_ID c)"
  define msg where "msg = take (nat sz) buffer"
  have ss: "sk_type ?s = SOCKET_TYPE_CONNECTED" "sk_protocol ?s = PROTOCOL_TCP" "sk_id ?s = c"
    using inv by (auto simp: stream_inv_def Let_def stream_socket_def)
  have sz: "send_object_size buffer sz = Inr (nat sz)" "sz \<ge> 0" "nat sz \<le> length buffer"
    using e by (auto simp: send_socket_def send_object_size_def Let_def split: if_splits)
  then have len: "length msg = nat sz"
    by (simp add: msg_def)
  show ?thesis
  proof (cases "send_buffer_empty ?s")
    case True
    then obtain w ws where w: "os_writes os = w # ws"
      using e ss sz by (cases "os_writes os") (auto simp: send_socket_def Let_def)
    have w_ok: "w \<noteq> W_Error"
      using e True ss sz w by (auto simp: send_socket_def Let_def closing_def res_bind_Inr_iff)
    define n where "n = (case w of Wrote k \<Rightarrow> min k (nat sz) | _ \<Rightarrow> 0)"
    define ss1 where "ss1 = log_call ss (Sys_Write (sk_fd ?s) (take n msg))"
    have n: "n \<le> length msg"
      by (auto simp: n_def len split: write_answer.splits)
    have r: "(if n = nat sz then Some (Inr (None, ss1))
        else Some (Inr (None, put_slot ss1 (HASH_ID c) (sp_write True (append_sendbuffer PRIORITY_HIGH msg n [] ?s))))) = Some (Inr (None, ss'))"
      using e unfolding send_socket_def Let_def using True ss sz w w_ok
      by (cases w) (simp_all add: n_def msg_def ss1_def split: if_splits)
    show ?thesis
    proof (cases "n = nat sz")
      case n': True
      obtain d th cs where i: "stream_socket c ?s" "buffers_ok (sk_high ?s)" "buffers_ok (sk_low ?s)"
        "\<forall>b \<in> set (sk_low ?s). wbuf_ptr b = 0" "sk_fd ?s = sk_fd (ss_slot ss0 (HASH_ID c))" "length th = length (sk_high ?s)" "ss_log ss = ss_log ss0 @ cs"
        "\<forall>p. of_priority p ms = of_priority p (d @ tagged th (sk_high ?s) @ lows (sk_low ?s))"
        "written (sk_fd ?s) cs @ unsent (sk_high ?s) = concat (map snd (d @ tagged th (sk_high ?s)))"
        using inv by (rule stream_invE)
      have "ss' = ss1"
        using r n' by simp
      then have s': "ss_slot ss' = ss_slot ss" "ss_log ss' = ss_log ss @ [Sys_Write (sk_fd ?s) msg]"
        using n' len by (simp_all add: ss1_def)
      have z: "sk_high ?s = []" "sk_low ?s = []" "th = []"
        using True i(6) by (simp_all add: send_buffer_empty_def)
      show ?thesis
        unfolding msg_def [symmetric]
        by (rule stream_invI [of c ss' ss0 th "cs @ [Sys_Write (sk_fd ?s) msg]" _ "d @ [(p, msg)]"]) (use i s' z in simp_all)
    next
      case False
      have "ss' = put_slot ss1 (HASH_ID c) (sp_write True (append_sendbuffer PRIORITY_HIGH msg n [] ?s))"
        using r False by simp
      then show ?thesis
        unfolding msg_def [symmetric] using True n
        by (intro stream_inv_append [OF inv, of PRIORITY_HIGH n p msg ss1 "[Sys_Write (sk_fd ?s) (take n msg)]"])
          (simp_all add: ss1_def sp_write_def)
    qed
  next
    case False
    have a: "(append_sendbuffer p msg 0 [] ?s)\<lparr>sk_poll := sk_poll ?s\<rparr> = append_sendbuffer p msg 0 [] ?s"
      by (rule socket.equality) simp_all
    have "ss' = put_slot ss (HASH_ID c) (append_sendbuffer p msg 0 [] ?s)"
      using e unfolding send_socket_def Let_def using False ss sz by (simp add: msg_def)
    then have "ss_slot ss' (HASH_ID c) = (append_sendbuffer p msg 0 [] ?s)\<lparr>sk_poll := sk_poll ?s\<rparr>" "ss_log ss' = ss_log ss"
      by (simp_all add: a)
    moreover have "p = PRIORITY_LOW \<or> p = PRIORITY_HIGH"
      by (cases p) simp_all
    ultimately show ?thesis
      unfolding msg_def [symmetric]
      by (intro stream_inv_append [OF inv, of p 0 p msg ss "[]" ss' "sk_poll ?s"]) auto
  qed
qed

lemma stream_stream_inv: "stream c ss0 ms ss \<Longrightarrow> stream_inv c ss0 ms ss"
proof (induction rule: stream.induct)
  case stream_start
  then show ?case
    by (intro stream_invI [where th = "[]" and cs = "[]" and d = "[]"]) (simp_all add: send_buffer_empty_def)
next
  case (stream_other ms ss ss' cs)
  then show ?case
    by (intro stream_inv_other [of c ss0 ms ss ss' cs])
qed (rule stream_inv_send stream_inv_send_buffer; assumption)+

text \<open>C5: A TCP connection delivers whole messages in order. Whatever parts \<open>write\<close> takes, and however sending and write events
  alternate, the bytes written to the socket followed by those still in the high and the low list are a sequence of all the
  messages sent, none torn apart, those of each priority in the order of their calls.
\<close>

theorem socket_stream:
  assumes "stream c ss0 ms ss"
  shows "\<exists>order cs. (\<forall>p. of_priority p order = of_priority p ms) \<and> ss_log ss = ss_log ss0 @ cs \<and>
    written (sk_fd (ss_slot ss0 (HASH_ID c))) cs @ unsent (sk_high (ss_slot ss (HASH_ID c))) @ unsent (sk_low (ss_slot ss (HASH_ID c))) =
      concat (map snd order)"
proof -
  let ?s = "ss_slot ss (HASH_ID c)"
  obtain d th cs where i: "stream_socket c ?s" "buffers_ok (sk_high ?s)" "buffers_ok (sk_low ?s)"
    "\<forall>b \<in> set (sk_low ?s). wbuf_ptr b = 0" "sk_fd ?s = sk_fd (ss_slot ss0 (HASH_ID c))" "length th = length (sk_high ?s)" "ss_log ss = ss_log ss0 @ cs"
    "\<forall>p. of_priority p ms = of_priority p (d @ tagged th (sk_high ?s) @ lows (sk_low ?s))"
    "written (sk_fd ?s) cs @ unsent (sk_high ?s) = concat (map snd (d @ tagged th (sk_high ?s)))"
    using stream_stream_inv [OF assms] by (rule stream_invE)
  have "written (sk_fd ?s) cs @ unsent (sk_high ?s) @ unsent (sk_low ?s) = concat (map snd (d @ tagged th (sk_high ?s) @ lows (sk_low ?s)))"
    using i(9) unsent_fresh [OF i(4)] by simp
  then show ?thesis
    using i(5,7,8) by metis
qed

text \<open>One message is partly written by \<open>send_socket\<close>, a second one of low priority waits.\<close>

definition stream_example :: socket_server where
  "stream_example = (case send_socket (example_sys (Resolve_Failed []) []) 1 [9] 1 PRIORITY_LOW None first_partial of
     Some (Inr (r, ss)) \<Rightarrow> ss | _ \<Rightarrow> first_partial)"

lemma stream_example_run: "stream 1 first_open [(PRIORITY_HIGH, [1, 2, 3]), (PRIORITY_LOW, [9])] stream_example"
proof -
  have s0: "stream 1 first_open [] first_open"
    by (rule stream_start) (simp_all add: stream_socket_def first_open_def HASH_ID_small send_buffer_empty_def empty_socket_def)
  have "send_socket (example_sys (Resolve_Failed []) [Wrote 1]) 1 [1, 2, 3] 3 PRIORITY_HIGH None first_open = Some (Inr (None, first_partial))"
    by (simp add: numeral_2_eq_2 first_partial_def first_open_def socket_server_create_def send_socket_def send_object_size_def example_sys_def Let_def
      HASH_ID_small empty_socket_def send_buffer_empty_def append_sendbuffer_def put_list_def wb_list_def sp_write_def put_slot_def log_call_def)
  from stream_send [OF s0 this] have s1: "stream 1 first_open [(PRIORITY_HIGH, [1, 2, 3])] first_partial"
    by simp
  have "send_socket (example_sys (Resolve_Failed []) []) 1 [9] 1 PRIORITY_LOW None first_partial = Some (Inr (None, stream_example))"
    unfolding stream_example_def
    by (simp add: first_partial_def first_open_def send_socket_def send_object_size_def Let_def HASH_ID_small empty_socket_def send_buffer_empty_def)
  from stream_send [OF s1 this] show ?thesis
    by simp
qed

lemma socket_stream_witness:
  "\<exists>order cs. (\<forall>p. of_priority p order = of_priority p [(PRIORITY_HIGH, [1, 2, 3]), (PRIORITY_LOW, [9])]) \<and>
    ss_log stream_example = ss_log first_open @ cs \<and>
    written (sk_fd (ss_slot first_open (HASH_ID 1))) cs @ unsent (sk_high (ss_slot stream_example (HASH_ID 1))) @
      unsent (sk_low (ss_slot stream_example (HASH_ID 1))) = concat (map snd order)"
  by (rule socket_stream [OF stream_example_run])

section \<open>Datagrams\<close>

text \<open>
  An idle UDP socket sends a datagram that the system refuses, and goes on to refuse (it is too long, the address is wrong); other
  datagrams follow, and write events.
\<close>

inductive refused :: "int \<Rightarrow> socket_server \<Rightarrow> bytes list \<Rightarrow> socket_server \<Rightarrow> bool" for c :: int and ss0 :: socket_server where
  refused_first: "sk_type (ss_slot ss0 (HASH_ID c)) = SOCKET_TYPE_CONNECTED \<Longrightarrow> sk_protocol (ss_slot ss0 (HASH_ID c)) \<noteq> PROTOCOL_TCP \<Longrightarrow>
    sk_id (ss_slot ss0 (HASH_ID c)) = c \<Longrightarrow> send_buffer_empty (ss_slot ss0 (HASH_ID c)) \<Longrightarrow> os_writes os = W_Error # ws \<Longrightarrow>
    send_socket os c buffer sz PRIORITY_HIGH addr ss0 = Some (Inr (r, ss)) \<Longrightarrow> refused c ss0 [take (nat sz) buffer] ss"
| refused_next: "refused c ss0 ms ss \<Longrightarrow> send_socket os c buffer sz PRIORITY_HIGH addr ss = Some (Inr (r, ss')) \<Longrightarrow>
    refused c ss0 (ms @ [take (nat sz) buffer]) ss'"
| refused_event: "refused c ss0 ms ss \<Longrightarrow> send_buffer (W_Error # ws) (HASH_ID c) ss = Some (Inr (ws', r, ss')) \<Longrightarrow> refused c ss0 ms ss'"

definition refused_inv :: "int \<Rightarrow> socket_server \<Rightarrow> bytes list \<Rightarrow> socket_server \<Rightarrow> bool" where
  "refused_inv c ss0 ms ss \<longleftrightarrow> (let s = ss_slot ss (HASH_ID c) in ms \<noteq> [] \<and> sk_type s = SOCKET_TYPE_CONNECTED \<and>
     sk_protocol s \<noteq> PROTOCOL_TCP \<and> sk_id s = c \<and> map wbuf_buffer (sk_high s) = ms \<and> sk_low s = [] \<and> ss_log ss = ss_log ss0)"

lemma send_object_size_Inr: "send_object_size buffer sz = Inr n \<longleftrightarrow> 0 \<le> sz \<and> sz \<le> int (length buffer) \<and> n = nat sz"
  by (auto simp: send_object_size_def)

lemma refused_refused_inv: "refused c ss0 ms ss \<Longrightarrow> refused_inv c ss0 ms ss"
proof (induction rule: refused.induct)
  case (refused_first os ws buffer sz addr r ss)
  then have "send_object_size buffer sz = Inr (nat sz)"
    by (auto simp: send_socket_def Let_def send_object_size_Inr elim!: res_obindE)
  then show ?case
    using refused_first
    by (auto simp: send_socket_def Let_def refused_inv_def sp_write_def append_sendbuffer_def put_list_def wb_list_def send_buffer_empty_def)
next
  case (refused_next ms ss os buffer sz addr r ss')
  then have "send_object_size buffer sz = Inr (nat sz)"
    by (auto simp: send_socket_def Let_def send_object_size_Inr elim!: res_obindE)
  moreover have "\<not> send_buffer_empty (ss_slot ss (HASH_ID c))"
    using refused_next.IH by (auto simp: refused_inv_def Let_def send_buffer_empty_def)
  ultimately show ?case
    using refused_next
    by (auto simp: send_socket_def Let_def refused_inv_def append_sendbuffer_def put_list_def wb_list_def)
next
  case (refused_event ms ss ws ws' r ss')
  obtain b rest where b: "sk_high (ss_slot ss (HASH_ID c)) = b # rest"
    using refused_event.IH by (cases "sk_high (ss_slot ss (HASH_ID c))") (auto simp: refused_inv_def Let_def)
  have "sk_protocol (ss_slot ss (HASH_ID c)) \<noteq> PROTOCOL_TCP" "sk_low (ss_slot ss (HASH_ID c)) = []"
    using refused_event.IH by (auto simp: refused_inv_def Let_def)
  then have "ss' = ss"
    using refused_event.hyps(2) b by (auto simp: send_buffer_def send_list_def wb_list_def Let_def)
  then show ?case
    using refused_event.IH by simp
qed

text \<open>One refused datagram blocks a UDP socket. The code means to ignore an error of \<open>sendto\<close>, but keeps the datagram at the head of the
  list: as long as the system refuses it, no later datagram is handed to the system, whatever its address, and all of them pile up in the list.
\<close>

theorem socket_udp_blocked:
  assumes "refused c ss0 ms ss"
  shows "ss_log ss = ss_log ss0 \<and> map wbuf_buffer (sk_high (ss_slot ss (HASH_ID c))) = ms"
  using refused_refused_inv [OF assms] by (simp add: refused_inv_def Let_def)

definition udp_open :: socket_server where
  "udp_open = put_slot socket_server_create 1 (empty_socket\<lparr>sk_type := SOCKET_TYPE_CONNECTED, sk_id := 1, sk_fd := 5,
     sk_protocol := PROTOCOL_UDP, sk_udp_address := replicate 19 0, sk_poll := Some False\<rparr>)"

definition udp_refused :: socket_server where
  "udp_refused = put_slot udp_open 1 (sp_write True (append_sendbuffer PRIORITY_HIGH [1, 2] 0 (replicate 19 0) (ss_slot udp_open 1)))"

lemma udp_refused_run: "refused 1 udp_open [[1, 2]] udp_refused"
proof -
  have "send_socket (example_sys (Resolve_Failed []) [W_Error]) 1 [1, 2] 2 PRIORITY_HIGH None udp_open = Some (Inr (None, udp_refused))"
    by (simp add: udp_refused_def udp_open_def send_socket_def send_object_size_def example_sys_def Let_def HASH_ID_small empty_socket_def send_buffer_empty_def)
  then have "refused 1 udp_open [take (nat 2) [1, 2]] udp_refused"
    by (rule refused_first [rotated 5]) (simp_all add: udp_open_def HASH_ID_small empty_socket_def send_buffer_empty_def example_sys_def)
  then show ?thesis
    by simp
qed

lemma socket_udp_blocked_witness:
  "ss_log udp_refused = ss_log udp_open \<and> map wbuf_buffer (sk_high (ss_slot udp_refused (HASH_ID 1))) = [[1, 2]]"
  by (rule socket_udp_blocked [OF udp_refused_run])

end
