(* ===== verification/Harbor.thy ===== *)
theory Harbor
  imports Server Fifo
begin

text \<open>
  \<open>service_harbor.c\<close>: the service that connects the nodes. It keeps a connection to each other node (a \<open>slave\<close>), queues
  messages until the connection is there, frames them, cuts the frames of the other side out of its stream, and resolves global
  names. What the service asks of the node and of its sockets is a list of events; whether \<open>skynet_send\<close> finds a destination is the argument \<open>alive\<close>.

  A block with its size is a byte list. \<open>recv_buffer\<close> and \<open>size\<close> hold what is filled of them. The slots of a queue that were never
  written hold \<open>blank_msg\<close>. Freeing memory has no effect here.
\<close>

section \<open>Queues\<close>

definition HASH_SIZE :: nat where "HASH_SIZE = 4096"
definition HARBOR_QUEUE_SIZE :: nat where "HARBOR_QUEUE_SIZE = 1024"
definition HEADER_COOKIE_LENGTH :: nat where "HEADER_COOKIE_LENGTH = 12"
definition REMOTE_MAX :: nat where "REMOTE_MAX = 256"

record harbor_msg =
  hm_source :: u32
  hm_destination :: u32
  hm_session :: u32
  hm_buffer :: bytes

record harbor_msg_queue =
  hq_size :: nat
  hq_head :: nat
  hq_tail :: nat
  hq_data :: "harbor_msg list"

definition blank_msg :: harbor_msg where
  "blank_msg = \<lparr>hm_source = 0, hm_destination = 0, hm_session = 0, hm_buffer = []\<rparr>"

definition harbor_new_queue :: harbor_msg_queue where
  "harbor_new_queue = \<lparr>hq_size = HARBOR_QUEUE_SIZE, hq_head = 0, hq_tail = 0, hq_data = replicate HARBOR_QUEUE_SIZE blank_msg\<rparr>"

definition push_queue_msg :: "harbor_msg_queue \<Rightarrow> harbor_msg \<Rightarrow> harbor_msg_queue" where
  "push_queue_msg q m = (let
     q = (if (hq_tail q + 1) mod hq_size q = hq_head q
       then \<lparr>hq_size = hq_size q * 2, hq_head = 0, hq_tail = hq_size q - 1,
         hq_data = map (\<lambda>i. hq_data q ! ((i + hq_head q) mod hq_size q)) [0..<hq_size q - 1] @ replicate (hq_size q + 1) blank_msg\<rparr>
       else q)
     in q\<lparr>hq_data := (hq_data q)[hq_tail q := m], hq_tail := (hq_tail q + 1) mod hq_size q\<rparr>)"

definition pop_queue :: "harbor_msg_queue \<Rightarrow> harbor_msg option \<times> harbor_msg_queue" where
  "pop_queue q = (if hq_head q = hq_tail q then (None, q)
     else (Some (hq_data q ! hq_head q), q\<lparr>hq_head := (hq_head q + 1) mod hq_size q\<rparr>))"

text \<open>The loops \<open>while ((m = pop_queue(q)) != NULL)\<close>: the messages in order, and the queue. A queue of size \<open>n\<close> is empty after \<open>n\<close> rounds.\<close>

fun drain_rounds :: "nat \<Rightarrow> harbor_msg_queue \<Rightarrow> harbor_msg list \<times> harbor_msg_queue" where
  "drain_rounds 0 q = ([], q)"
| "drain_rounds (Suc n) q = (case pop_queue q of
     (None, q) \<Rightarrow> ([], q)
   | (Some m, q) \<Rightarrow> (case drain_rounds n q of (ms, q) \<Rightarrow> (m # ms, q)))"

definition drain :: "harbor_msg_queue \<Rightarrow> harbor_msg list \<times> harbor_msg_queue" where
  "drain q = drain_rounds (hq_size q) q"

section \<open>Global names\<close>

record keyvalue =
  kv_key :: bytes
  kv_hash :: u32
  kv_value :: u32
  kv_queue :: "harbor_msg_queue option"

type_synonym name_map = "nat \<Rightarrow> keyvalue list"

definition name_hash :: "bytes \<Rightarrow> u32" where
  "name_hash name = le_word (take 4 name) XOR le_word (take 4 (drop 4 name)) XOR le_word (take 4 (drop 8 name)) XOR le_word (take 4 (drop 12 name))"

definition bucket :: "u32 \<Rightarrow> nat" where
  "bucket h = unat h mod HASH_SIZE"

definition strncmp_eq :: "bytes \<Rightarrow> bytes \<Rightarrow> bool" where
  "strncmp_eq a b \<longleftrightarrow> takeWhile (\<lambda>c. c \<noteq> 0) (take GLOBALNAME_LENGTH a) = takeWhile (\<lambda>c. c \<noteq> 0) (take GLOBALNAME_LENGTH b)"

text \<open>The position of a node in its chain.\<close>

fun chain_search :: "u32 \<Rightarrow> bytes \<Rightarrow> keyvalue list \<Rightarrow> nat option" where
  "chain_search h name [] = None"
| "chain_search h name (kv # kvs) =
     (if kv_hash kv = h \<and> strncmp_eq (kv_key kv) name then Some 0 else map_option Suc (chain_search h name kvs))"

definition hash_search :: "name_map \<Rightarrow> bytes \<Rightarrow> (nat \<times> nat) option" where
  "hash_search hm name = (let h = name_hash name in map_option (Pair (bucket h)) (chain_search h name (hm (bucket h))))"

definition hash_insert :: "name_map \<Rightarrow> bytes \<Rightarrow> name_map" where
  "hash_insert hm name = (let h = name_hash name in
     hm(bucket h := \<lparr>kv_key = name, kv_hash = h, kv_value = 0, kv_queue = None\<rparr> # hm (bucket h)))"

definition hash_new :: name_map where
  "hash_new = (\<lambda>_. [])"

text \<open>The search with the insertion that follows it when there is no node: a node and the map.\<close>

definition hash_node :: "name_map \<Rightarrow> bytes \<Rightarrow> (nat \<times> nat) \<times> name_map" where
  "hash_node hm name = (case hash_search hm name of None \<Rightarrow> ((bucket (name_hash name), 0), hash_insert hm name) | Some p \<Rightarrow> (p, hm))"

definition kv_at :: "name_map \<Rightarrow> nat \<times> nat \<Rightarrow> keyvalue" where
  "kv_at hm p = hm (fst p) ! snd p"

definition kv_put :: "name_map \<Rightarrow> nat \<times> nat \<Rightarrow> keyvalue \<Rightarrow> name_map" where
  "kv_put hm p kv = hm(fst p := (hm (fst p))[snd p := kv])"

section \<open>State and events\<close>

datatype harbor_status = STATUS_WAIT | STATUS_HANDSHAKE | STATUS_HEADER | STATUS_CONTENT | STATUS_DOWN

record slave =
  sl_fd :: int
  sl_queue :: "harbor_msg_queue option"
  sl_status :: harbor_status
  sl_length :: nat
  sl_read :: nat
  sl_size :: bytes
  sl_recv_buffer :: bytes

record harbor =
  ha_id :: int
  ha_slave :: u32
  ha_map :: name_map
  ha_s :: "nat \<Rightarrow> slave"

datatype harbor_event =
    H_Send u32 u32 u32 u32 bytes
  | H_Socket_Send int bytes
  | H_Socket_Start int
  | H_Socket_Close int
  | H_Error string

type_synonym harbor_result = "(harbor_event list \<times> harbor) res"

definition no_slave :: slave where
  "no_slave = \<lparr>sl_fd = 0, sl_queue = None, sl_status = STATUS_WAIT, sl_length = 0, sl_read = 0, sl_size = [0, 0, 0, 0], sl_recv_buffer = []\<rparr>"

definition harbor_create :: harbor where
  "harbor_create = \<lparr>ha_id = 0, ha_slave = 0, ha_map = hash_new, ha_s = (\<lambda>_. no_slave)\<rparr>"

definition put_slave :: "harbor \<Rightarrow> nat \<Rightarrow> slave \<Rightarrow> harbor" where
  "put_slave h i s = h\<lparr>ha_s := (ha_s h)(i := s)\<rparr>"

text \<open>Events in front of those of a later call.\<close>

definition after :: "harbor_event list \<Rightarrow> harbor_result \<Rightarrow> harbor_result" where
  "after evs r = res_bind r (\<lambda>(evs', h). Inr (evs @ evs', h))"

definition close_harbor :: "harbor \<Rightarrow> nat \<Rightarrow> harbor_event list \<times> harbor" where
  "close_harbor h i = (let s = ha_s h i in
     (if sl_fd s \<noteq> 0 then [H_Socket_Close (sl_fd s)] else [], put_slave h i (s\<lparr>sl_status := STATUS_DOWN, sl_queue := None\<rparr>)))"

definition report_harbor_down :: "harbor \<Rightarrow> nat \<Rightarrow> harbor_event list" where
  "report_harbor_down h i = [H_Send 0 (ha_slave h) (ucast PTYPE_TEXT) 0 (text_bytes (''D '' @ dec_text (int i)))]"

fun release_slaves :: "nat list \<Rightarrow> harbor \<Rightarrow> harbor_event list" where
  "release_slaves [] h = []"
| "release_slaves (i # is) h = (let s = ha_s h i in
     if sl_fd s \<noteq> 0 \<and> sl_status s \<noteq> STATUS_DOWN then (case close_harbor h i of (evs, h) \<Rightarrow> evs @ release_slaves is h) else release_slaves is h)"

definition harbor_release :: "harbor \<Rightarrow> harbor_event list" where
  "harbor_release h = release_slaves [1..<REMOTE_MAX] h"

section \<open>Frames\<close>

definition to_bigendian :: "u32 \<Rightarrow> bytes" where
  "to_bigendian n = [ucast (drop_bit 24 n) AND 0xff, ucast (drop_bit 16 n) AND 0xff, ucast (drop_bit 8 n) AND 0xff, ucast n AND 0xff]"

definition header_to_message :: "harbor_msg \<Rightarrow> bytes" where
  "header_to_message m = to_bigendian (hm_source m) @ to_bigendian (hm_destination m) @ to_bigendian (hm_session m)"

definition from_bigendian :: "bytes \<Rightarrow> u32" where
  "from_bigendian b = push_bit 24 (ucast (b ! 0)) OR push_bit 16 (ucast (b ! 1)) OR push_bit 8 (ucast (b ! 2)) OR ucast (b ! 3)"

text \<open>\<open>message_to_header\<close> on the last twelve bytes of a message, with the bytes in front of them.\<close>

definition message_to_header :: "bytes \<Rightarrow> bytes \<Rightarrow> harbor_msg" where
  "message_to_header cookie msg = \<lparr>hm_source = from_bigendian cookie, hm_destination = from_bigendian (drop 4 cookie),
     hm_session = from_bigendian (drop 8 cookie), hm_buffer = msg\<rparr>"

definition handle_harbor :: "u32 \<Rightarrow> nat" where
  "handle_harbor handle = unat (drop_bit HANDLE_REMOTE_SHIFT handle)"

definition forward_local_message :: "(u32 \<Rightarrow> bool) \<Rightarrow> harbor \<Rightarrow> bytes \<Rightarrow> harbor_event list res" where
  "forward_local_message alive h msg = (let sz = length msg in
     if sz < HEADER_COOKIE_LENGTH then Inl Out_Of_Bounds
     else let m = message_to_header (drop (sz - HEADER_COOKIE_LENGTH) msg) (take (sz - HEADER_COOKIE_LENGTH) msg);
       type = drop_bit HANDLE_REMOTE_SHIFT (hm_destination m);
       destination = (hm_destination m AND HANDLE_MASK) OR push_bit HANDLE_REMOTE_SHIFT (word_of_int (ha_id h)) in
       Inr (H_Send (hm_source m) destination (type OR PTYPE_TAG_DONTCOPY) (hm_session m) (hm_buffer m) #
         (if alive destination then []
          else (if type \<noteq> PTYPE_ERROR then [H_Send destination (hm_source m) PTYPE_ERROR (hm_session m) []] else []) @ [H_Error ''Unknown destination''])))"

definition send_remote :: "int \<Rightarrow> harbor_msg \<Rightarrow> harbor_event list" where
  "send_remote fd m = (let sz_header = length (hm_buffer m) + HEADER_COOKIE_LENGTH in
     if sz_header > 2 ^ 32 - 1 then [H_Error ''remote message is too large'']
     else [H_Socket_Send fd (to_bigendian (word_of_nat sz_header) @ hm_buffer m @ header_to_message m)])"

section \<open>Dispatching queues\<close>

definition or_destination :: "u32 \<Rightarrow> harbor_msg \<Rightarrow> harbor_msg" where
  "or_destination handle m = m\<lparr>hm_destination := hm_destination m OR (handle AND HANDLE_MASK)\<rparr>"

definition dispatch_name_queue :: "harbor \<Rightarrow> nat \<times> nat \<Rightarrow> harbor_event list \<times> harbor" where
  "dispatch_name_queue h p = (let node = kv_at (ha_map h) p; handle = kv_value node; i = handle_harbor handle; s = ha_s h i in
     case kv_queue node of None \<Rightarrow> ([], h) | Some queue \<Rightarrow>
     if sl_fd s = 0 then
       if sl_status s = STATUS_DOWN then ([H_Error ''Drop message''], h)
       else let (sq, nq) = (case sl_queue s of None \<Rightarrow> (queue, None)
           | Some sq \<Rightarrow> (case drain queue of (ms, q) \<Rightarrow> (foldl push_queue_msg sq ms, Some q)));
         h = h\<lparr>ha_map := kv_put (ha_map h) p (node\<lparr>kv_queue := nq\<rparr>)\<rparr> in
         if i = handle_harbor (ha_slave h)
         then (map (\<lambda>m. H_Send (hm_source m) handle (drop_bit HANDLE_REMOTE_SHIFT (hm_destination m) OR PTYPE_TAG_DONTCOPY) (hm_session m) (hm_buffer m)) (fst (drain sq)),
           put_slave h i (s\<lparr>sl_queue := None\<rparr>))
         else ([], put_slave h i (s\<lparr>sl_queue := Some sq\<rparr>))
     else case drain queue of (ms, q) \<Rightarrow>
       (concat (map (send_remote (sl_fd s) \<circ> or_destination handle) ms), h\<lparr>ha_map := kv_put (ha_map h) p (node\<lparr>kv_queue := Some q\<rparr>)\<rparr>))"

definition dispatch_queue :: "harbor \<Rightarrow> nat \<Rightarrow> harbor_result" where
  "dispatch_queue h i = (let s = ha_s h i in
     if sl_fd s = 0 then Inl Assert_Failed
     else case sl_queue s of None \<Rightarrow> Inr ([], h)
       | Some queue \<Rightarrow> Inr (concat (map (send_remote (sl_fd s)) (fst (drain queue))), put_slave h i (s\<lparr>sl_queue := None\<rparr>)))"

section \<open>Socket data\<close>

text \<open>
  The loop of \<open>push_socket_data\<close> on slave \<open>i\<close> with the bytes that are left. In state \<open>STATUS_HEADER\<close> fewer than four bytes of the size
  are there; were there more, \<open>memcpy\<close> would not get a positive size.
\<close>

function read_socket_data :: "(u32 \<Rightarrow> bool) \<Rightarrow> nat \<Rightarrow> harbor \<Rightarrow> bytes \<Rightarrow> harbor_result" where
  "read_socket_data alive i h buffer = (let s = ha_s h i; size = length buffer in
     case sl_status s of
       STATUS_HANDSHAKE \<Rightarrow> (case buffer of [] \<Rightarrow> Inl Out_Of_Bounds | remote_id # rest \<Rightarrow>
         if unat remote_id \<noteq> i then Inr (H_Error ''Invalid shakehand id'' # fst (close_harbor h i), snd (close_harbor h i))
         else res_bind (dispatch_queue (put_slave h i (s\<lparr>sl_status := STATUS_HEADER\<rparr>)) i) (\<lambda>(evs, h).
           if rest = [] then Inr (evs, h) else after evs (read_socket_data alive i h rest)))
     | STATUS_HEADER \<Rightarrow> (let need = 4 - sl_read s in
         if need = 0 then Inl Out_Of_Bounds
         else if size < need
         then Inr ([], put_slave h i (s\<lparr>sl_size := take (sl_read s) (sl_size s) @ buffer @ drop (sl_read s + size) (sl_size s), sl_read := sl_read s + size\<rparr>))
         else let sz = take (sl_read s) (sl_size s) @ take need buffer; rest = drop need buffer; s1 = s\<lparr>sl_size := sz\<rparr>; h1 = put_slave h i s1 in
           if sz ! 0 \<noteq> 0 then Inr (H_Error ''Message is too long'' # fst (close_harbor h1 i), snd (close_harbor h1 i))
           else let h = put_slave h i (s1\<lparr>sl_length := unat (sz ! 1) * 2 ^ 16 + unat (sz ! 2) * 2 ^ 8 + unat (sz ! 3), sl_read := 0,
               sl_recv_buffer := [], sl_status := STATUS_CONTENT\<rparr>) in
             if rest = [] then Inr ([], h) else read_socket_data alive i h rest)
     | STATUS_CONTENT \<Rightarrow> (let need = sl_length s - sl_read s in
         if size < need then Inr ([], put_slave h i (s\<lparr>sl_recv_buffer := sl_recv_buffer s @ buffer, sl_read := sl_read s + size\<rparr>))
         else let rest = drop need buffer in
           res_bind (forward_local_message alive h (sl_recv_buffer s @ take need buffer)) (\<lambda>evs.
             let h = put_slave h i (s\<lparr>sl_length := 0, sl_read := 0, sl_recv_buffer := [], sl_status := STATUS_HEADER\<rparr>) in
             if rest = [] then Inr (evs, h) else after evs (read_socket_data alive i h rest)))
     | _ \<Rightarrow> Inr ([], h))"
  by pat_completeness auto

termination
proof (relation "measure (\<lambda>(alive, i, h, buffer). 2 * length buffer + (if sl_status (ha_s h i) = STATUS_CONTENT then 1 else 0))")
qed (auto simp: put_slave_def)

declare read_socket_data.simps [simp del]

fun find_slave :: "harbor \<Rightarrow> int \<Rightarrow> nat list \<Rightarrow> nat option" where
  "find_slave h fd [] = None"
| "find_slave h fd (i # is) = (if sl_fd (ha_s h i) = fd then Some i else find_slave h fd is)"

definition push_socket_data :: "(u32 \<Rightarrow> bool) \<Rightarrow> harbor \<Rightarrow> int \<Rightarrow> bytes \<Rightarrow> harbor_result" where
  "push_socket_data alive h fd buffer = (case find_slave h fd [1..<REMOTE_MAX] of
     None \<Rightarrow> Inr ([H_Error ''Invalid socket fd''], h)
   | Some i \<Rightarrow> read_socket_data alive i h buffer)"

section \<open>Commands and remote messages\<close>

definition update_name :: "harbor \<Rightarrow> bytes \<Rightarrow> u32 \<Rightarrow> harbor_event list \<times> harbor" where
  "update_name h name handle = (case hash_node (ha_map h) name of (p, hm) \<Rightarrow>
     let h = h\<lparr>ha_map := kv_put hm p ((kv_at hm p)\<lparr>kv_value := handle\<rparr>)\<rparr> in
     if kv_queue (kv_at (ha_map h) p) = None then ([], h)
     else case dispatch_name_queue h p of (evs, h) \<Rightarrow> (evs, h\<lparr>ha_map := kv_put (ha_map h) p ((kv_at (ha_map h) p)\<lparr>kv_queue := None\<rparr>)\<rparr>))"

definition remote_message_of :: "u32 \<Rightarrow> u32 \<Rightarrow> u32 \<Rightarrow> u32 \<Rightarrow> bytes \<Rightarrow> harbor_msg" where
  "remote_message_of source destination type session msg =
     \<lparr>hm_source = source, hm_destination = push_bit HANDLE_REMOTE_SHIFT type OR (destination AND HANDLE_MASK), hm_session = session, hm_buffer = msg\<rparr>"

definition remote_send_handle :: "harbor \<Rightarrow> u32 \<Rightarrow> u32 \<Rightarrow> u32 \<Rightarrow> u32 \<Rightarrow> bytes \<Rightarrow> harbor_event list \<times> harbor" where
  "remote_send_handle h source destination type session msg = (let i = handle_harbor destination; s = ha_s h i in
     if int i = ha_id h then ([H_Send source destination (type OR PTYPE_TAG_DONTCOPY) session msg], h)
     else if sl_fd s = 0 \<or> sl_status s = STATUS_HANDSHAKE then
       (if sl_status s = STATUS_DOWN then ([H_Send destination source PTYPE_ERROR 0 [], H_Error ''Drop message to harbor''], h)
        else let queue = (case sl_queue s of None \<Rightarrow> harbor_new_queue | Some q \<Rightarrow> q) in
          ([], put_slave h i (s\<lparr>sl_queue := Some (push_queue_msg queue (remote_message_of source destination type session msg))\<rparr>)))
     else (send_remote (sl_fd s) (remote_message_of source destination type session msg), h))"

text \<open>The text of a query ends where the name does.\<close>

definition remote_send_name :: "harbor \<Rightarrow> u32 \<Rightarrow> bytes \<Rightarrow> u32 \<Rightarrow> u32 \<Rightarrow> bytes \<Rightarrow> harbor_event list \<times> harbor" where
  "remote_send_name h source name type session msg = (case hash_node (ha_map h) name of (p, hm) \<Rightarrow>
     let h = h\<lparr>ha_map := hm\<rparr>; node = kv_at hm p in
     if kv_value node = 0 then
       let queue = (case kv_queue node of None \<Rightarrow> harbor_new_queue | Some q \<Rightarrow> q);
         m = \<lparr>hm_source = source, hm_destination = push_bit HANDLE_REMOTE_SHIFT type, hm_session = session, hm_buffer = msg\<rparr> in
       ([H_Send 0 (ha_slave h) (ucast PTYPE_TEXT) 0 (text_bytes ''Q '' @ takeWhile (\<lambda>c. c \<noteq> 0) name)],
        h\<lparr>ha_map := kv_put hm p (node\<lparr>kv_queue := Some (push_queue_msg queue m)\<rparr>)\<rparr>)
     else remote_send_handle h source (kv_value node) type session msg)"

definition handshake :: "harbor \<Rightarrow> nat \<Rightarrow> harbor_event list" where
  "handshake h i = [H_Socket_Send (sl_fd (ha_s h i)) [word_of_int (ha_id h)]]"

text \<open>\<open>sscanf\<close> with two numbers: what is not found stays 0.\<close>

definition scan_two :: "string \<Rightarrow> int \<times> int" where
  "scan_two t = (case strtol10 t of (a, rest) \<Rightarrow> if rest = t then (0, 0) else case strtol10 rest of (b, rest') \<Rightarrow>
     (sint (word_of_int a :: u32), if rest' = rest then 0 else sint (word_of_int b :: u32)))"

definition bytes_text :: "bytes \<Rightarrow> string" where
  "bytes_text b = map (\<lambda>c. char_of (unat c)) b"

definition harbor_connect :: "harbor \<Rightarrow> byte \<Rightarrow> int \<Rightarrow> int \<Rightarrow> harbor_result" where
  "harbor_connect h cmd fd id' = (
     if fd = 0 \<or> id' \<le> 0 \<or> id' \<ge> int REMOTE_MAX then Inr ([H_Error ''Invalid command''], h)
     else let i = nat id'; s = ha_s h i in
       if sl_fd s \<noteq> 0 then Inr ([H_Error ''Harbor alreay exist''], h)
       else let h = put_slave h i (s\<lparr>sl_fd := fd\<rparr>); evs = H_Socket_Start fd # handshake h i in
         if cmd = of_char (CHR ''S'') then Inr (evs, put_slave h i (s\<lparr>sl_fd := fd, sl_status := STATUS_HANDSHAKE\<rparr>))
         else after evs (dispatch_queue (put_slave h i (s\<lparr>sl_fd := fd, sl_status := STATUS_HEADER\<rparr>)) i))"

definition harbor_command :: "harbor \<Rightarrow> bytes \<Rightarrow> u32 \<Rightarrow> harbor_result" where
  "harbor_command h msg source = (let name = drop 2 msg; s = int (length msg) - 2 in
     case msg of [] \<Rightarrow> Inl Out_Of_Bounds | cmd # _ \<Rightarrow>
     if cmd = of_char (CHR ''N'') then
       (if s \<le> 0 \<or> s \<ge> int GLOBALNAME_LENGTH then Inr ([H_Error ''Invalid global name''], h)
        else Inr (update_name h (name @ replicate (GLOBALNAME_LENGTH - length name) 0) source))
     else if cmd = of_char (CHR ''S'') \<or> cmd = of_char (CHR ''A'') then
       (if s < 0 then Inl Out_Of_Bounds
        else case scan_two (bytes_text (takeWhile (\<lambda>c. c \<noteq> 0) name)) of (fd, id') \<Rightarrow> harbor_connect h cmd fd id')
     else Inr ([H_Error ''Unknown command''], h))"

text \<open>What the main loop gets: messages of the socket layer, text commands, and messages for other nodes, to a handle or a name.\<close>

datatype harbor_input =
    Socket_Data int bytes
  | Socket_Closed int
  | Socket_Connect
  | Socket_Warning int int
  | Socket_Other
  | Harbor_Text bytes u32
  | Remote_Handle u32 u32 u32 u32 bytes
  | Remote_Name u32 bytes u32 u32 bytes

definition harbor_mainloop :: "(u32 \<Rightarrow> bool) \<Rightarrow> harbor \<Rightarrow> harbor_input \<Rightarrow> harbor_result" where
  "harbor_mainloop alive h inp = (case inp of
     Socket_Data fd buffer \<Rightarrow> push_socket_data alive h fd buffer
   | Socket_Closed fd \<Rightarrow> Inr (case find_slave h fd [1..<REMOTE_MAX] of Some i \<Rightarrow> (report_harbor_down h i, h) | None \<Rightarrow> ([H_Error ''Unkown fd closed''], h))
   | Socket_Connect \<Rightarrow> Inr ([], h)
   | Socket_Warning fd ud \<Rightarrow> Inr (case find_slave h fd [1..<REMOTE_MAX] of Some i \<Rightarrow> ([H_Error ''message havn't send to Harbor''], h) | None \<Rightarrow> ([], h))
   | Socket_Other \<Rightarrow> Inr ([H_Error ''recv invalid socket message type''], h)
   | Harbor_Text msg source \<Rightarrow> harbor_command h msg source
   | Remote_Handle source destination type session msg \<Rightarrow> Inr (remote_send_handle h source destination type session msg)
   | Remote_Name source name type session msg \<Rightarrow> Inr (remote_send_name h source name type session msg))"

definition harbor_init :: "harbor \<Rightarrow> string \<Rightarrow> harbor option" where
  "harbor_init h args = (case strtol10 args of (a, rest) \<Rightarrow>
     let (id', slave) = (if rest = args then (0, 0) else case strtol10 rest of (b, rest') \<Rightarrow>
       (sint (word_of_int a :: u32), if rest' = rest then 0 else word_of_int b)) in
     if slave = 0 then None else Some (h\<lparr>ha_id := id', ha_slave := slave\<rparr>))"

text \<open>A sequence of inputs.\<close>

fun harbor_run :: "(u32 \<Rightarrow> bool) \<Rightarrow> harbor \<Rightarrow> harbor_input list \<Rightarrow> harbor_result" where
  "harbor_run alive h [] = Inr ([], h)"
| "harbor_run alive h (x # xs) = res_bind (harbor_mainloop alive h x) (\<lambda>(evs, h). after evs (harbor_run alive h xs))"

end
