(* ===== verification/HarborRun.thy ===== *)
theory HarborRun
  imports Harbor
begin

text \<open>
  The harbor service at work: its queues are FIFO queues, and its frames survive the way through a stream in any chunks, from the
  service of one node to that of another.
\<close>

section \<open>The queue\<close>

definition hq_inv :: "harbor_msg_queue \<Rightarrow> bool" where
  "hq_inv q \<longleftrightarrow> 1 < hq_size q \<and> length (hq_data q) = hq_size q \<and> hq_head q < hq_size q \<and> hq_tail q < hq_size q"

definition hq_content :: "harbor_msg_queue \<Rightarrow> harbor_msg list" where
  "hq_content q = ring_list (hq_data q) (hq_head q) (hq_tail q)"

lemma mod_ring_next: "i < n \<Longrightarrow> (i + 1) mod n = ring_next n i" "i < n \<Longrightarrow> Suc i mod n = ring_next n i"
  by (auto simp: ring_next_def mod_if)

lemma hq_new: "hq_inv harbor_new_queue" "hq_content harbor_new_queue = []"
  by (simp_all add: hq_inv_def hq_content_def harbor_new_queue_def HARBOR_QUEUE_SIZE_def)

lemma ring_list_full:
  assumes "h < length buf" "t < length buf" "ring_next (length buf) t = h"
  shows "ring_list buf h t = take (length buf - 1) (ring_unroll buf h)"
proof (cases "Suc t < length buf")
  case True
  then have "h = Suc t"
    using assms by (simp add: ring_next_def)
  then show ?thesis
    using assms by (simp add: ring_unroll_rotate ring_list_def min_def)
next
  case False
  then have "h = 0" "t = length buf - 1"
    using assms by (auto simp: ring_next_def)
  then show ?thesis
    using assms by (simp add: ring_unroll_rotate ring_list_def)
qed

lemma push_queue_msg_correct:
  assumes "hq_inv q"
  shows "hq_inv (push_queue_msg q m)" "hq_content (push_queue_msg q m) = hq_content q @ [m]"
proof -
  let ?n = "hq_size q"
  have q: "1 < ?n" "length (hq_data q) = ?n" "hq_head q < ?n" "hq_tail q < ?n"
    using assms by (auto simp: hq_inv_def)
  have "hq_inv (push_queue_msg q m) \<and> hq_content (push_queue_msg q m) = hq_content q @ [m]"
  proof (cases "(hq_tail q + 1) mod ?n = hq_head q")
    case True
    let ?old = "map (\<lambda>i. hq_data q ! ((i + hq_head q) mod ?n)) [0..<?n - 1]"
    let ?q = "\<lparr>hq_size = ?n * 2, hq_head = 0, hq_tail = ?n - 1, hq_data = ?old @ replicate (?n + 1) blank_msg\<rparr>"
    have e: "push_queue_msg q m = ?q\<lparr>hq_data := (hq_data ?q)[?n - 1 := m], hq_tail := (?n - 1 + 1) mod (?n * 2)\<rparr>"
      using True by (simp add: push_queue_msg_def Let_def)
    have t: "(?n - 1 + 1) mod (?n * 2) = ?n"
      using q by simp
    have "take (?n - 1) (ring_unroll (hq_data q) (hq_head q)) = ?old"
      using q by (simp add: ring_unroll_def take_map add.commute)
    then have old: "hq_content q = ?old"
      using ring_list_full [of "hq_head q" "hq_data q" "hq_tail q"] q True by (simp add: hq_content_def mod_ring_next)
    have "(?old @ replicate (?n + 1) blank_msg)[?n - 1 := m] = (?old @ [m]) @ replicate ?n blank_msg"
      by (simp add: list_update_append)
    then show ?thesis
      unfolding e t using q old by (simp add: hq_inv_def hq_content_def ring_list_def)
  next
    case False
    then have e: "push_queue_msg q m = q\<lparr>hq_data := (hq_data q)[hq_tail q := m], hq_tail := ring_next ?n (hq_tail q)\<rparr>"
      using q by (simp add: push_queue_msg_def Let_def mod_ring_next)
    have "ring_next ?n (hq_tail q) \<noteq> hq_head q"
      using False q by (simp add: mod_ring_next)
    then show ?thesis
      unfolding e using q ring_list_push [of "hq_head q" "hq_data q" "hq_tail q" m] ring_next_less [of "hq_tail q" ?n]
      by (simp add: hq_inv_def hq_content_def)
  qed
  then show "hq_inv (push_queue_msg q m)" "hq_content (push_queue_msg q m) = hq_content q @ [m]"
    by simp_all
qed

lemma pop_queue_nil: "hq_inv q \<Longrightarrow> hq_content q = [] \<Longrightarrow> pop_queue q = (None, q)"
  using ring_list_Nil_iff [of "hq_head q" "hq_data q" "hq_tail q"] by (simp add: pop_queue_def hq_inv_def hq_content_def)

lemma pop_queue_cons:
  assumes "hq_inv q" "hq_content q = x # xs"
  obtains q' where "pop_queue q = (Some x, q')" "hq_inv q'" "hq_content q' = xs" "hq_size q' = hq_size q"
proof -
  have q: "length (hq_data q) = hq_size q" "hq_head q < hq_size q" "hq_tail q < hq_size q"
    using assms(1) by (auto simp: hq_inv_def)
  have ne: "hq_head q \<noteq> hq_tail q"
    using assms by (auto simp: hq_content_def)
  let ?q = "q\<lparr>hq_head := ring_next (hq_size q) (hq_head q)\<rparr>"
  have "hq_content q = hq_data q ! hq_head q # hq_content ?q"
    using ring_list_pop [of "hq_head q" "hq_data q" "hq_tail q"] q ne by (simp add: hq_content_def)
  then have p: "pop_queue q = (Some x, ?q)" "hq_content ?q = xs"
    using ne assms(2) q by (simp_all add: pop_queue_def mod_ring_next)
  have "hq_inv ?q"
    using assms(1) ring_next_less [of "hq_head q" "hq_size q"] by (simp add: hq_inv_def)
  with p(1) show thesis
    by (rule that) (use p(2) in simp_all)
qed

interpretation harborq: fifo push_queue_msg pop_queue hq_content hq_inv "\<lambda>_ _. True"
proof unfold_locales
  show "hq_inv (push_queue_msg q m)" "hq_content (push_queue_msg q m) = hq_content q @ [m]" if "hq_inv q" for q m
    using push_queue_msg_correct [OF that] by simp_all
  show "hq_inv (snd (pop_queue q))" if "hq_inv q" for q
    using pop_queue_nil [OF that] pop_queue_cons [OF that] that by (cases "hq_content q") (auto, metis snd_conv)
  show "fst (pop_queue q) = None \<and> hq_content (snd (pop_queue q)) = []" if "hq_inv q" "hq_content q = []" for q
    using pop_queue_nil [OF that] that by simp
  show "fst (pop_queue q) = Some x \<and> hq_content (snd (pop_queue q)) = xs" if "hq_inv q" "hq_content q = x # xs" for q x xs
    using pop_queue_cons [OF that] by (metis fst_conv snd_conv)
qed

text \<open>Draining gives the whole content: it is shorter than the array.\<close>

lemma drain_rounds_content:
  "hq_inv q \<Longrightarrow> length (hq_content q) \<le> n \<Longrightarrow> \<exists>q'. drain_rounds n q = (hq_content q, q') \<and> hq_inv q' \<and> hq_content q' = []"
proof (induction n arbitrary: q)
  case 0
  then show ?case by simp
next
  case (Suc n)
  show ?case
  proof (cases "hq_content q")
    case Nil
    then show ?thesis
      using pop_queue_nil [OF Suc.prems(1)] Suc.prems(1) by simp
  next
    case (Cons x xs)
    obtain q' where q': "pop_queue q = (Some x, q')" "hq_inv q'" "hq_content q' = xs"
      using pop_queue_cons [OF Suc.prems(1) Cons] by blast
    then show ?thesis
      using Suc.IH [of q'] Suc.prems(2) Cons by auto
  qed
qed

lemma drain_content:
  assumes "hq_inv q"
  obtains q' where "drain q = (hq_content q, q')" "hq_inv q'" "hq_content q' = []"
proof -
  have "length (hq_content q) \<le> hq_size q"
    using assms length_ring_list [of "hq_head q" "hq_data q" "hq_tail q"] by (auto simp: hq_inv_def hq_content_def split: if_splits)
  then show thesis
    using drain_rounds_content [OF assms] that unfolding drain_def by blast
qed

section \<open>Frames\<close>

lemma byte_and_ff: "(w :: byte) AND 0xff = w"
proof -
  have "(0xff :: byte) = - 1"
    by simp
  then show ?thesis
    by (simp only: and.right_neutral)
qed

lemma to_bigendian_be: "to_bigendian n = be_bytes 4 n"
proof -
  have "[0..<4] = [0, 1, 2, 3 :: nat]"
    by (simp add: upt_rec numeral_eq_Suc)
  then show ?thesis
    by (simp add: to_bigendian_def be_bytes_def le_bytes_def byte_at_def byte_and_ff)
qed

lemma from_bigendian_be:
  assumes "length b = 4"
  shows "from_bigendian b = be_word b"
proof -
  obtain b0 b1 b2 b3 where "b = [b0, b1, b2, b3]"
    using assms by (auto simp: length_Suc_conv numeral_eq_Suc)
  then show ?thesis
    by (simp add: from_bigendian_def be_word_def push_bit_or or.assoc or.commute or.left_commute)
qed

lemma from_to_bigendian: "from_bigendian (to_bigendian n @ rest) = n"
proof -
  have "from_bigendian (to_bigendian n @ rest) = from_bigendian (to_bigendian n)"
    by (simp add: from_bigendian_def to_bigendian_def)
  also have "\<dots> = n"
    by (simp add: from_bigendian_be to_bigendian_be be_word_be_bytes take_bit_word_eq_self)
  finally show ?thesis .
qed

lemma length_to_bigendian [simp]: "length (to_bigendian n) = 4"
  by (simp add: to_bigendian_def)

lemma message_to_header_to_message: "message_to_header (header_to_message m) (hm_buffer m) = m"
proof -
  have "from_bigendian (drop 8 (header_to_message m)) = from_bigendian (to_bigendian (hm_session m) @ [])"
    by (simp add: header_to_message_def)
  then show ?thesis
    unfolding message_to_header_def using from_to_bigendian [of _ "[]"] by (simp add: header_to_message_def from_to_bigendian)
qed

text \<open>The bytes of a message on the wire, and what the other side makes of its content.\<close>

definition frame_content :: "harbor_msg \<Rightarrow> bytes" where
  "frame_content m = hm_buffer m @ header_to_message m"

definition harbor_frame :: "harbor_msg \<Rightarrow> bytes" where
  "harbor_frame m = to_bigendian (word_of_nat (length (frame_content m))) @ frame_content m"

lemma length_header [simp]: "length (header_to_message m) = 12"
  by (simp add: header_to_message_def)

lemma length_frame_content: "length (frame_content m) = length (hm_buffer m) + 12"
  by (simp add: frame_content_def)

lemma send_remote_frame: "length (frame_content m) < 2 ^ 32 \<Longrightarrow> send_remote fd m = [H_Socket_Send fd (harbor_frame m)]"
  by (simp add: send_remote_def Let_def harbor_frame_def frame_content_def HEADER_COOKIE_LENGTH_def)

definition forwarded :: "(u32 \<Rightarrow> bool) \<Rightarrow> harbor \<Rightarrow> harbor_msg \<Rightarrow> harbor_event list" where
  "forwarded alive h m = (let type = drop_bit HANDLE_REMOTE_SHIFT (hm_destination m);
       destination = (hm_destination m AND HANDLE_MASK) OR push_bit HANDLE_REMOTE_SHIFT (word_of_int (ha_id h)) in
       H_Send (hm_source m) destination (type OR PTYPE_TAG_DONTCOPY) (hm_session m) (hm_buffer m) #
         (if alive destination then []
          else (if type \<noteq> PTYPE_ERROR then [H_Send destination (hm_source m) PTYPE_ERROR (hm_session m) []] else []) @ [H_Error ''Unknown destination'']))"

lemma forward_frame: "forward_local_message alive h (frame_content m) = Inr (forwarded alive h m)"
  by (simp add: forward_local_message_def Let_def frame_content_def HEADER_COOKIE_LENGTH_def forwarded_def message_to_header_to_message)

lemma forwarded_put [simp]: "forwarded alive (put_slave h i s) = forwarded alive h"
  by (simp add: forwarded_def put_slave_def fun_eq_iff)

text \<open>A size below \<open>2 ^ 24\<close>: the first byte is 0 and the others give it.\<close>

lemma unat_frame_byte: "unat (ucast (drop_bit k n) :: byte) = unat (n :: u32) div 2 ^ k mod 256"
proof -
  have "unat (ucast (drop_bit k n) :: byte) = unat (drop_bit k n) mod 2 ^ 8"
    by (simp add: unsigned_ucast_eq take_bit_eq_mod)
  then show ?thesis
    by (simp add: unat_drop_div)
qed

lemma frame_size:
  assumes "n < 2 ^ 24"
  shows "to_bigendian (word_of_nat n) ! 0 = 0"
    "unat (to_bigendian (word_of_nat n) ! 1) * 2 ^ 16 + unat (to_bigendian (word_of_nat n) ! 2) * 2 ^ 8 + unat (to_bigendian (word_of_nat n) ! 3) = n"
proof -
  let ?w = "word_of_nat n :: u32"
  have w: "unat ?w = n"
    using assms by (simp add: unat_of_nat take_bit_nat_eq_self)
  have b: "to_bigendian ?w ! 0 = ucast (drop_bit 24 ?w)" "to_bigendian ?w ! 1 = ucast (drop_bit 16 ?w)"
    "to_bigendian ?w ! 2 = ucast (drop_bit 8 ?w)" "to_bigendian ?w ! 3 = ucast (drop_bit 0 ?w)"
    by (simp_all add: to_bigendian_def byte_and_ff numeral_2_eq_2 numeral_3_eq_3)
  have "unat (to_bigendian ?w ! 0) = 0"
    unfolding b unat_frame_byte w using assms by simp
  then show "to_bigendian ?w ! 0 = 0"
    by (simp add: unat_eq_0)
  have "n div 256 div 256 = n div 65536"
    by (simp add: div_mult2_eq [symmetric])
  moreover have small: "n div 65536 < 256"
    using assms by (simp add: less_mult_imp_div_less)
  ultimately have "n div 65536 mod 256 * 65536 + n div 256 mod 256 * 256 + n mod 256 = n"
    using div_mult_mod_eq [of n 256] div_mult_mod_eq [of "n div 256" 256] by (simp only: mod_less)
  then show "unat (to_bigendian ?w ! 1) * 2 ^ 16 + unat (to_bigendian ?w ! 2) * 2 ^ 8 + unat (to_bigendian ?w ! 3) = n"
    unfolding b unat_frame_byte w using small by simp
qed

section \<open>Reading the stream\<close>

text \<open>A connected slave between two reads: the bytes of the frame that is not complete yet.\<close>

definition reading :: "slave \<Rightarrow> bool" where
  "reading s \<longleftrightarrow> length (sl_size s) = 4 \<and>
     (sl_status s = STATUS_HEADER \<and> sl_read s < 4 \<or>
      sl_status s = STATUS_CONTENT \<and> length (sl_recv_buffer s) = sl_read s \<and> (sl_read s < sl_length s \<or> sl_read s = 0) \<and>
      sl_size s = to_bigendian (word_of_nat (sl_length s)) \<and> sl_length s < 2 ^ 24)"

definition partial_frame :: "slave \<Rightarrow> bytes" where
  "partial_frame s = (if sl_status s = STATUS_HEADER then take (sl_read s) (sl_size s) else sl_size s @ sl_recv_buffer s)"

definition small :: "harbor_msg \<Rightarrow> bool" where
  "small m \<longleftrightarrow> length (frame_content m) < 2 ^ 24"

lemma read_header_split:
  assumes "a @ b @ t = concat (map harbor_frame ms)" "length a < 4" "4 - length a \<le> length b"
  obtains m ms' where "ms = m # ms'" "a @ take (4 - length a) b = to_bigendian (word_of_nat (length (frame_content m)))"
    "drop (4 - length a) b @ t = frame_content m @ concat (map harbor_frame ms')"
proof (cases ms)
  case Nil
  then show thesis
    using assms by simp
next
  case (Cons m ms')
  let ?z = "to_bigendian (word_of_nat (length (frame_content m)))" and ?r = "frame_content m @ concat (map harbor_frame ms')"
  have "a @ b @ t = (a @ take (4 - length a) b) @ (drop (4 - length a) b @ t)"
    by (metis append_assoc append_take_drop_id)
  then have "(a @ take (4 - length a) b) @ (drop (4 - length a) b @ t) = ?z @ ?r"
    using assms(1) Cons by (simp add: harbor_frame_def)
  moreover have "length (a @ take (4 - length a) b) = length ?z"
    using assms by simp
  ultimately have "a @ take (4 - length a) b = ?z \<and> drop (4 - length a) b @ t = ?r"
    by (simp only: append_eq_append_conv simp_thms)
  then show thesis
    using that Cons by blast
qed

lemma put_slave_simps [simp]: "ha_s (put_slave h i s) = (ha_s h)(i := s)" "put_slave (put_slave h i s) i s' = put_slave h i s'"
  "ha_id (put_slave h i s) = ha_id h" "ha_map (put_slave h i s) = ha_map h" "ha_slave (put_slave h i s) = ha_slave h"
  by (simp_all add: put_slave_def)

lemma put_slave_same [simp]: "put_slave h i (ha_s h i) = h"
  by (simp add: put_slave_def)

lemma read_short_header:
  assumes "sl_status (ha_s h i) = STATUS_HEADER" "sl_read (ha_s h i) + length buffer < 4"
  shows "read_socket_data alive i h buffer = Inr ([], put_slave h i ((ha_s h i)\<lparr>
     sl_size := take (sl_read (ha_s h i)) (sl_size (ha_s h i)) @ buffer @ drop (sl_read (ha_s h i) + length buffer) (sl_size (ha_s h i)),
     sl_read := sl_read (ha_s h i) + length buffer\<rparr>))"
proof -
  have "\<not> 4 \<le> sl_read (ha_s h i)" "length buffer < 4 - sl_read (ha_s h i)"
    using assms(2) by linarith+
  then show ?thesis
    using assms(1) by (subst read_socket_data.simps) (simp add: Let_def)
qed

lemma read_header:
  assumes "sl_status (ha_s h i) = STATUS_HEADER" "sl_read (ha_s h i) < 4" "4 - sl_read (ha_s h i) \<le> length buffer"
    "take (sl_read (ha_s h i)) (sl_size (ha_s h i)) @ take (4 - sl_read (ha_s h i)) buffer = to_bigendian (word_of_nat n)" "n < 2 ^ 24"
  shows "read_socket_data alive i h buffer = (let h' = put_slave h i ((ha_s h i)\<lparr>sl_size := to_bigendian (word_of_nat n), sl_length := n, sl_read := 0,
       sl_recv_buffer := [], sl_status := STATUS_CONTENT\<rparr>); rest = drop (4 - sl_read (ha_s h i)) buffer in
     if rest = [] then Inr ([], h') else read_socket_data alive i h' rest)"
proof -
  note z = frame_size [OF assms(5)]
  have "\<not> 4 \<le> sl_read (ha_s h i)" "\<not> length buffer < 4 - sl_read (ha_s h i)"
    using assms(2,3) by linarith+
  then show ?thesis
    using assms(1) z by (subst read_socket_data.simps) (simp add: Let_def assms(4))
qed

lemma read_short_content:
  assumes "sl_status (ha_s h i) = STATUS_CONTENT" "length buffer < sl_length (ha_s h i) - sl_read (ha_s h i)"
  shows "read_socket_data alive i h buffer = Inr ([], put_slave h i ((ha_s h i)\<lparr>sl_recv_buffer := sl_recv_buffer (ha_s h i) @ buffer,
     sl_read := sl_read (ha_s h i) + length buffer\<rparr>))"
  using assms by (subst read_socket_data.simps) (simp add: Let_def)

lemma read_content:
  assumes "sl_status (ha_s h i) = STATUS_CONTENT" "sl_length (ha_s h i) - sl_read (ha_s h i) \<le> length buffer"
    "sl_recv_buffer (ha_s h i) @ take (sl_length (ha_s h i) - sl_read (ha_s h i)) buffer = frame_content m"
  shows "read_socket_data alive i h buffer = (let h' = put_slave h i ((ha_s h i)\<lparr>sl_length := 0, sl_read := 0, sl_recv_buffer := [], sl_status := STATUS_HEADER\<rparr>);
       rest = drop (sl_length (ha_s h i) - sl_read (ha_s h i)) buffer in
     if rest = [] then Inr (forwarded alive h m, h') else after (forwarded alive h m) (read_socket_data alive i h' rest))"
  using assms(1,2) by (subst read_socket_data.simps) (simp add: Let_def assms(3) forward_frame)

text \<open>Reading a piece of a stream of frames: some frames are complete, the rest is kept.\<close>

lemma read_piece:
  assumes "reading (ha_s h i)" "partial_frame (ha_s h i) @ buffer @ t = concat (map harbor_frame ms)" "\<forall>m \<in> set ms. small m" "buffer \<noteq> []"
  shows "\<exists>ms1 ms2 s'. ms = ms1 @ ms2 \<and> read_socket_data alive i h buffer = Inr (concat (map (forwarded alive h) ms1), put_slave h i s') \<and>
    reading s' \<and> partial_frame s' @ t = concat (map harbor_frame ms2) \<and> sl_fd s' = sl_fd (ha_s h i) \<and> sl_queue s' = sl_queue (ha_s h i)"
  using assms
proof (induction "2 * length buffer + (if sl_status (ha_s h i) = STATUS_CONTENT then 1 else 0)" arbitrary: h buffer ms rule: less_induct)
  case less
  let ?s = "ha_s h i"
  note r = less.prems(1) and stream = less.prems(2) and sm = less.prems(3) and ne = less.prems(4)
  show ?case
  proof (cases "sl_status ?s = STATUS_HEADER")
    case H: True
    have len: "length (sl_size ?s) = 4" "sl_read ?s < 4"
      using r H by (auto simp: reading_def)
    let ?a = "take (sl_read ?s) (sl_size ?s)"
    have a: "partial_frame ?s = ?a" "length ?a = sl_read ?s"
      using H len by (simp_all add: partial_frame_def)
    show ?thesis
    proof (cases "sl_read ?s + length buffer < 4")
      case True
      let ?s' = "?s\<lparr>sl_size := ?a @ buffer @ drop (sl_read ?s + length buffer) (sl_size ?s), sl_read := sl_read ?s + length buffer\<rparr>"
      have "read_socket_data alive i h buffer = Inr (concat (map (forwarded alive h) []), put_slave h i ?s')"
        using read_short_header [OF H True] by simp
      moreover have "partial_frame ?s' = partial_frame ?s @ buffer" "reading ?s'"
        using H a True len by (simp_all add: partial_frame_def reading_def)
      ultimately show ?thesis
        using stream by (intro exI [of _ "[]"] exI [of _ ms] exI [of _ ?s']) simp
    next
      case False
      have st: "?a @ buffer @ t = concat (map harbor_frame ms)"
        using stream a by simp
      have "length ?a < 4" "4 - length ?a \<le> length buffer"
        using len a False by auto
      from read_header_split [OF st this] obtain m ms' where m: "ms = m # ms'" "?a @ take (4 - sl_read ?s) buffer = to_bigendian (word_of_nat (length (frame_content m)))"
        "drop (4 - sl_read ?s) buffer @ t = frame_content m @ concat (map harbor_frame ms')"
        unfolding a(2) by blast
      have le: "4 - sl_read ?s \<le> length buffer"
        using False by linarith
      have n: "length (frame_content m) < 2 ^ 24"
        using sm m(1) by (simp add: small_def)
      let ?s' = "?s\<lparr>sl_size := to_bigendian (word_of_nat (length (frame_content m))), sl_length := length (frame_content m), sl_read := 0,
        sl_recv_buffer := [], sl_status := STATUS_CONTENT\<rparr>"
      let ?rest = "drop (4 - sl_read ?s) buffer"
      have e: "read_socket_data alive i h buffer = (if ?rest = [] then Inr ([], put_slave h i ?s') else read_socket_data alive i (put_slave h i ?s') ?rest)"
        using read_header [OF H len(2) le m(2) n, of alive] unfolding Let_def .
      have s': "reading ?s'" "partial_frame ?s' @ ?rest @ t = concat (map harbor_frame ms)"
        using m n by (simp_all add: reading_def partial_frame_def harbor_frame_def)
      show ?thesis
      proof (cases "?rest = []")
        case True
        then show ?thesis
          using e s' m(1) by (intro exI [of _ "[]"] exI [of _ ms] exI [of _ ?s']) simp
      next
        case rest: False
        have "2 * length ?rest + 1 < 2 * length buffer"
          using len False by simp
        then have "\<exists>ms1 ms2 s''. ms = ms1 @ ms2 \<and>
          read_socket_data alive i (put_slave h i ?s') ?rest = Inr (concat (map (forwarded alive (put_slave h i ?s')) ms1), put_slave (put_slave h i ?s') i s'') \<and>
          reading s'' \<and> partial_frame s'' @ t = concat (map harbor_frame ms2) \<and> sl_fd s'' = sl_fd (ha_s (put_slave h i ?s') i) \<and>
          sl_queue s'' = sl_queue (ha_s (put_slave h i ?s') i)"
          using s' sm rest H by (intro less.hyps) simp_all
        then show ?thesis
          using e rest by auto
      qed
    qed
  next
    case False
    then have C: "sl_status ?s = STATUS_CONTENT" and len: "length (sl_recv_buffer ?s) = sl_read ?s" "sl_read ?s < sl_length ?s \<or> sl_read ?s = 0"
      "sl_size ?s = to_bigendian (word_of_nat (sl_length ?s))" "sl_length ?s < 2 ^ 24"
      using r by (auto simp: reading_def)
    have st: "to_bigendian (word_of_nat (sl_length ?s)) @ sl_recv_buffer ?s @ buffer @ t = concat (map harbor_frame ms)"
      using stream C len(3) by (simp add: partial_frame_def)
    then obtain m ms' where ms: "ms = m # ms'"
      using ne by (cases ms) auto
    have sm': "length (frame_content m) < 2 ^ 24"
      using sm ms by (simp add: small_def)
    have sp: "to_bigendian (word_of_nat (sl_length ?s)) = to_bigendian (word_of_nat (length (frame_content m))) \<and>
      sl_recv_buffer ?s @ buffer @ t = frame_content m @ concat (map harbor_frame ms')"
      using st ms by (simp add: harbor_frame_def)
    have n: "sl_length ?s = length (frame_content m)"
      using frame_size(2) [OF len(4)] frame_size(2) [OF sm'] sp by simp
    let ?need = "sl_length ?s - sl_read ?s"
    show ?thesis
    proof (cases "length buffer < ?need")
      case True
      let ?s' = "?s\<lparr>sl_recv_buffer := sl_recv_buffer ?s @ buffer, sl_read := sl_read ?s + length buffer\<rparr>"
      have "read_socket_data alive i h buffer = Inr (concat (map (forwarded alive h) []), put_slave h i ?s')"
        using read_short_content [OF C True] by simp
      moreover have "reading ?s'" "partial_frame ?s' = partial_frame ?s @ buffer"
        using C len True r by (auto simp: reading_def partial_frame_def)
      ultimately show ?thesis
        using stream by (intro exI [of _ "[]"] exI [of _ ms] exI [of _ ?s']) simp
    next
      case False
      let ?rest = "drop ?need buffer"
      let ?s' = "?s\<lparr>sl_length := 0, sl_read := 0, sl_recv_buffer := [], sl_status := STATUS_HEADER\<rparr>"
      have "(sl_recv_buffer ?s @ take ?need buffer) @ (?rest @ t) = frame_content m @ concat (map harbor_frame ms')"
        using sp by (metis append_assoc append_take_drop_id)
      moreover have "length (sl_recv_buffer ?s @ take ?need buffer) = length (frame_content m)"
        using False len(1,2) n by auto
      ultimately have c: "sl_recv_buffer ?s @ take ?need buffer = frame_content m" "?rest @ t = concat (map harbor_frame ms')"
        by (simp_all only: append_eq_append_conv simp_thms)
      have e: "read_socket_data alive i h buffer = (if ?rest = [] then Inr (forwarded alive h m, put_slave h i ?s')
          else after (forwarded alive h m) (read_socket_data alive i (put_slave h i ?s') ?rest))"
        using read_content [OF C _ c(1), of alive] False unfolding Let_def by simp
      have s': "reading ?s'" "partial_frame ?s' @ ?rest @ t = concat (map harbor_frame ms')"
        using c(2) r by (simp_all add: reading_def partial_frame_def)
      show ?thesis
      proof (cases "?rest = []")
        case True
        then show ?thesis
          using e s' ms by (intro exI [of _ "[m]"] exI [of _ ms'] exI [of _ ?s']) simp
      next
        case rest: False
        have "2 * length ?rest < 2 * length buffer + 1"
          by simp
        then have "\<exists>ms1 ms2 s''. ms' = ms1 @ ms2 \<and>
          read_socket_data alive i (put_slave h i ?s') ?rest = Inr (concat (map (forwarded alive (put_slave h i ?s')) ms1), put_slave (put_slave h i ?s') i s'') \<and>
          reading s'' \<and> partial_frame s'' @ t = concat (map harbor_frame ms2) \<and> sl_fd s'' = sl_fd (ha_s (put_slave h i ?s') i) \<and>
          sl_queue s'' = sl_queue (ha_s (put_slave h i ?s') i)"
          using s' sm rest C ms by (intro less.hyps) simp_all
        then obtain ms1 ms2 s'' where o: "ms' = ms1 @ ms2"
          "read_socket_data alive i (put_slave h i ?s') ?rest = Inr (concat (map (forwarded alive h) ms1), put_slave h i s'')"
          "reading s''" "partial_frame s'' @ t = concat (map harbor_frame ms2)" "sl_fd s'' = sl_fd ?s" "sl_queue s'' = sl_queue ?s"
          by auto
        then show ?thesis
          using e rest ms by (intro exI [of _ "m # ms1"] exI [of _ ms2] exI [of _ s'']) (simp add: after_def)
      qed
    qed
  qed
qed

text \<open>At the end of a stream of whole frames nothing is left.\<close>

lemma partial_frame_none:
  assumes "reading s" "partial_frame s = concat (map harbor_frame ms)" "\<forall>m \<in> set ms. small m"
  shows "ms = []" "sl_status s = STATUS_HEADER" "sl_read s = 0"
proof -
  have sz: "length (harbor_frame m) = 4 + length (frame_content m)" "12 \<le> length (frame_content m)" for m
    by (simp_all add: harbor_frame_def length_frame_content)
  show ms: "ms = []"
  proof (rule ccontr)
    assume "ms \<noteq> []"
    then obtain m ms' where m: "ms = m # ms'"
      by (cases ms) auto
    have l: "4 + length (frame_content m) \<le> length (partial_frame s)"
      using assms(2) m sz(1) by simp
    have "sl_status s = STATUS_CONTENT"
      using l sz(2) [of m] assms(1) by (auto simp: partial_frame_def reading_def)
    then have s: "sl_size s = to_bigendian (word_of_nat (sl_length s))" "sl_length s < 2 ^ 24" "length (partial_frame s) = 4 + sl_read s"
      "sl_read s < sl_length s \<or> sl_read s = 0"
      using assms(1) by (auto simp: partial_frame_def reading_def)
    have "sl_size s = to_bigendian (word_of_nat (length (frame_content m)))"
      using assms(2) m \<open>sl_status s = STATUS_CONTENT\<close> s(1) by (simp add: partial_frame_def harbor_frame_def)
    then have "sl_length s = length (frame_content m)"
      using frame_size(2) [OF s(2)] frame_size(2) [of "length (frame_content m)"] assms(3) m s(1) by (simp add: small_def)
    then show False
      using l s sz(2) [of m] by auto
  qed
  show "sl_status s = STATUS_HEADER" "sl_read s = 0"
    using assms(1,2) ms by (auto simp: partial_frame_def reading_def split: if_splits)
qed

text \<open>Slave \<open>i\<close> is the one with the socket \<open>fd\<close>.\<close>

definition owns :: "harbor \<Rightarrow> nat \<Rightarrow> int \<Rightarrow> bool" where
  "owns h i fd \<longleftrightarrow> 0 < i \<and> i < REMOTE_MAX \<and> (\<forall>j \<in> {1..<REMOTE_MAX}. sl_fd (ha_s h j) = fd \<longleftrightarrow> j = i)"

lemma find_slave_Some:
  "i \<in> set is \<Longrightarrow> \<forall>j \<in> set is. sl_fd (ha_s h j) = fd \<longleftrightarrow> j = i \<Longrightarrow> find_slave h fd is = Some i"
  by (induction "is") auto

lemma owns_find: "owns h i fd \<Longrightarrow> find_slave h fd [1..<REMOTE_MAX] = Some i"
  by (rule find_slave_Some) (simp_all add: owns_def)

lemma owns_put: "owns h i fd \<Longrightarrow> sl_fd s = fd \<Longrightarrow> owns (put_slave h i s) i fd"
  by (simp add: owns_def)

lemma run_chunks:
  assumes "owns h i fd" "reading (ha_s h i)" "partial_frame (ha_s h i) @ concat chunks = concat (map harbor_frame ms)"
    "\<forall>m \<in> set ms. small m" "[] \<notin> set chunks"
  shows "\<exists>s'. harbor_run alive h (map (Socket_Data fd) chunks) = Inr (concat (map (forwarded alive h) ms), put_slave h i s') \<and>
    sl_fd s' = fd \<and> sl_status s' = STATUS_HEADER \<and> sl_read s' = 0"
  using assms
proof (induction chunks arbitrary: h ms)
  case Nil
  then have p: "partial_frame (ha_s h i) = concat (map harbor_frame ms)"
    by simp
  have fd: "sl_fd (ha_s h i) = fd"
    using Nil.prems(1) by (simp add: owns_def)
  then show ?case
    using partial_frame_none [OF Nil.prems(2) p Nil.prems(4)] by (auto intro!: exI [of _ "ha_s h i"])
next
  case (Cons c chunks)
  have fd: "sl_fd (ha_s h i) = fd"
    using Cons.prems(1) by (simp add: owns_def)
  have "partial_frame (ha_s h i) @ c @ concat chunks = concat (map harbor_frame ms)" "c \<noteq> []"
    using Cons.prems(3,5) by auto
  from read_piece [OF Cons.prems(2) this(1) Cons.prems(4) this(2), of alive] obtain ms1 ms2 s' where o: "ms = ms1 @ ms2"
    "read_socket_data alive i h c = Inr (concat (map (forwarded alive h) ms1), put_slave h i s')" "reading s'"
    "partial_frame s' @ concat chunks = concat (map harbor_frame ms2)" "sl_fd s' = fd"
    using fd by auto
  have m: "harbor_mainloop alive h (Socket_Data fd c) = Inr (concat (map (forwarded alive h) ms1), put_slave h i s')"
    using owns_find [OF Cons.prems(1)] o(2) by (simp add: harbor_mainloop_def push_socket_data_def)
  obtain s'' where "harbor_run alive (put_slave h i s') (map (Socket_Data fd) chunks) =
      Inr (concat (map (forwarded alive (put_slave h i s')) ms2), put_slave (put_slave h i s') i s'')"
    "sl_fd s'' = fd" "sl_status s'' = STATUS_HEADER" "sl_read s'' = 0"
    using Cons.IH [of "put_slave h i s'" ms2] owns_put [OF Cons.prems(1) o(5)] o Cons.prems(4,5) by auto
  then show ?case
    using m o(1) by (auto simp: after_def intro!: exI [of _ s''])
qed

section \<open>From node to node\<close>

text \<open>The bytes a harbor gives to a socket, and the messages it is asked to send.\<close>

definition socket_bytes :: "int \<Rightarrow> harbor_event list \<Rightarrow> bytes" where
  "socket_bytes fd evs = concat (map (\<lambda>e. case e of H_Socket_Send f b \<Rightarrow> (if f = fd then b else []) | _ \<Rightarrow> []) evs)"

lemma socket_bytes_simps [simp]:
  "socket_bytes fd [] = []" "socket_bytes fd (evs @ evs') = socket_bytes fd evs @ socket_bytes fd evs'"
  "socket_bytes fd (H_Socket_Send f b # evs) = (if f = fd then b else []) @ socket_bytes fd evs"
  "socket_bytes fd (H_Send s d t n b # evs) = socket_bytes fd evs"
  "socket_bytes fd (H_Socket_Start f # evs) = socket_bytes fd evs"
  "socket_bytes fd (H_Socket_Close f # evs) = socket_bytes fd evs"
  "socket_bytes fd (H_Error txt # evs) = socket_bytes fd evs"
  by (simp_all add: socket_bytes_def)

type_synonym sent_message = "u32 \<times> u32 \<times> u32 \<times> u32 \<times> bytes"

definition to_remote :: "sent_message \<Rightarrow> harbor_input" where
  "to_remote m = (case m of (source, destination, type, session, msg) \<Rightarrow> Remote_Handle source destination type session msg)"

definition routed :: "sent_message \<Rightarrow> harbor_msg" where
  "routed m = (case m of (source, destination, type, session, msg) \<Rightarrow> remote_message_of source destination type session msg)"

definition delivery :: "sent_message \<Rightarrow> harbor_event" where
  "delivery m = (case m of (source, destination, type, session, msg) \<Rightarrow> H_Send source destination (type OR PTYPE_TAG_DONTCOPY) session msg)"

text \<open>A message the harbor protocol can carry to node \<open>j\<close>.\<close>

definition sendable :: "nat \<Rightarrow> sent_message \<Rightarrow> bool" where
  "sendable j m \<longleftrightarrow> (case m of (source, destination, type, session, msg) \<Rightarrow>
     handle_harbor destination = j \<and> unat type < 256 \<and> length msg + 12 < 2 ^ 24)"

lemma remote_destination:
  fixes d t :: u32
  assumes "unat t < 256"
  shows "drop_bit 24 (push_bit 24 t OR (d AND HANDLE_MASK)) = t" "(push_bit 24 t OR (d AND HANDLE_MASK)) AND HANDLE_MASK = d AND HANDLE_MASK"
    "(d AND HANDLE_MASK) OR push_bit 24 (word_of_int (int (unat (drop_bit 24 d)))) = d"
proof -
  have t: "take_bit 8 t = t"
    using assms by (simp add: word_unat_eq_iff unsigned_take_bit_eq take_bit_nat_eq_self)
  have bt: "bit t n \<longleftrightarrow> n < 8 \<and> bit t n" for n
    by (metis bit_take_bit_iff t)
  show "drop_bit 24 (push_bit 24 t OR (d AND HANDLE_MASK)) = t"
    by (rule bit_word_eqI) (use bt in \<open>auto simp: HANDLE_MASK_mask bit_simps\<close>)
  show "(push_bit 24 t OR (d AND HANDLE_MASK)) AND HANDLE_MASK = d AND HANDLE_MASK"
    by (rule bit_word_eqI) (auto simp: HANDLE_MASK_mask bit_simps)
  show "(d AND HANDLE_MASK) OR push_bit 24 (word_of_int (int (unat (drop_bit 24 d)))) = d"
    by (rule bit_word_eqI) (auto simp: HANDLE_MASK_mask bit_simps, metis le_add_diff_inverse not_less)
qed

lemma forwarded_routed:
  assumes "sendable (nat (ha_id h)) m" "0 \<le> ha_id h" "\<And>d. alive d"
  shows "forwarded alive h (routed m) = [delivery m]"
proof -
  obtain source destination type session msg where m: "m = (source, destination, type, session, msg)"
    by (cases m) auto
  have t: "unat type < 256" and d: "ha_id h = int (unat (drop_bit 24 destination))"
    using assms(1,2) by (auto simp: m sendable_def handle_harbor_def HANDLE_REMOTE_SHIFT_def)
  show ?thesis
    using remote_destination [OF t, of destination] assms(3)
    by (simp add: m forwarded_def routed_def delivery_def remote_message_of_def Let_def HANDLE_REMOTE_SHIFT_def d)
qed

lemma routed_small: "sendable j m \<Longrightarrow> small (routed m)"
  by (auto simp: sendable_def small_def routed_def remote_message_of_def length_frame_content)

text \<open>A connected harbor sends at once.\<close>

lemma send_connected:
  assumes "sendable j m" "sl_fd (ha_s h j) \<noteq> 0" "sl_status (ha_s h j) \<noteq> STATUS_HANDSHAKE" "int j \<noteq> ha_id h"
  shows "harbor_mainloop alive h (to_remote m) = Inr ([H_Socket_Send (sl_fd (ha_s h j)) (harbor_frame (routed m))], h)"
proof -
  obtain source destination type session msg where m: "m = (source, destination, type, session, msg)"
    by (cases m) auto
  have "length (frame_content (routed m)) < 2 ^ 32"
    using routed_small [OF assms(1)] by (simp add: small_def)
  then show ?thesis
    using assms send_remote_frame [of "routed m" "sl_fd (ha_s h j)"]
    by (simp add: m to_remote_def harbor_mainloop_def remote_send_handle_def sendable_def Let_def routed_def)
qed

lemma run_send_connected:
  assumes "\<forall>m \<in> set msgs. sendable j m" "sl_fd (ha_s h j) \<noteq> 0" "sl_status (ha_s h j) \<noteq> STATUS_HANDSHAKE" "int j \<noteq> ha_id h"
  shows "harbor_run alive h (map to_remote msgs) = Inr (map (H_Socket_Send (sl_fd (ha_s h j)) \<circ> harbor_frame \<circ> routed) msgs, h)"
  using assms(1)
proof (induction msgs)
  case Nil
  then show ?case by simp
next
  case (Cons m msgs)
  then show ?case
    using send_connected [OF _ assms(2-4), of m alive] by (simp add: after_def)
qed

lemma socket_bytes_frames: "socket_bytes fd (map (H_Socket_Send fd \<circ> harbor_frame \<circ> routed) msgs) = concat (map harbor_frame (map routed msgs))"
  by (induction msgs) simp_all



end
