(* ===== verification/HarborNode.thy ===== *)
theory HarborNode
  imports HarborRun
begin

text \<open>
  The harbor service over time: messages for a node leave in the order they came, before and after the connection is made, no assert
  fails, and what happens to messages for a node that is down and to messages by names that are resolved early.
\<close>

section \<open>What reading does\<close>

definition silent :: "harbor_event list \<Rightarrow> bool" where
  "silent evs \<longleftrightarrow> (\<forall>f b. H_Socket_Send f b \<notin> set evs)"

lemma silent_simps [simp]:
  "silent []" "silent (evs @ evs') \<longleftrightarrow> silent evs \<and> silent evs'" "silent (H_Send s d t n b # evs) \<longleftrightarrow> silent evs"
  "\<not> silent (H_Socket_Send f b # evs)" "silent (H_Socket_Start f # evs) \<longleftrightarrow> silent evs" "silent (H_Socket_Close f # evs) \<longleftrightarrow> silent evs"
  "silent (H_Error txt # evs) \<longleftrightarrow> silent evs"
  by (auto simp: silent_def)

lemma silent_forward: "forward_local_message alive h msg = Inr evs \<Longrightarrow> silent evs"
  by (auto simp: forward_local_message_def Let_def split: if_splits)

lemma silent_bytes: "silent evs \<Longrightarrow> socket_bytes fd evs = []"
  by (induction evs) (auto simp: silent_def split: harbor_event.splits, case_tac a, auto)

text \<open>Reading frames sends nothing to sockets; the slave stays connected or is down. The only fault is a frame without a header.\<close>

definition open_status :: "harbor_status \<Rightarrow> bool" where
  "open_status t \<longleftrightarrow> t = STATUS_HEADER \<or> t = STATUS_CONTENT"

definition reads :: "nat \<Rightarrow> harbor \<Rightarrow> harbor_result \<Rightarrow> bool" where
  "reads i h r \<longleftrightarrow> (case r of Inl f \<Rightarrow> f = Out_Of_Bounds | Inr (evs, h') \<Rightarrow> silent evs \<and> (\<exists>s'. h' = put_slave h i s' \<and> sl_fd s' = sl_fd (ha_s h i) \<and>
     (open_status (sl_status s') \<and> sl_queue s' = sl_queue (ha_s h i) \<or> sl_status s' = STATUS_DOWN \<and> sl_queue s' = None)))"

lemma reads_simps [simp]: "reads i h (Inl f) \<longleftrightarrow> f = Out_Of_Bounds"
  by (simp add: reads_def)

lemma readsI:
  "silent evs \<Longrightarrow> sl_fd s' = sl_fd (ha_s h i) \<Longrightarrow> open_status (sl_status s') \<and> sl_queue s' = sl_queue (ha_s h i) \<or> sl_status s' = STATUS_DOWN \<and> sl_queue s' = None \<Longrightarrow>
   reads i h (Inr (evs, put_slave h i s'))"
  by (auto simp: reads_def)

lemma reads_put: "reads i (put_slave h i s) r \<Longrightarrow> sl_fd s = sl_fd (ha_s h i) \<Longrightarrow> sl_queue s = sl_queue (ha_s h i) \<Longrightarrow> reads i h r"
  by (auto simp: reads_def split: sum.splits)

lemma reads_after: "reads i h r \<Longrightarrow> silent evs \<Longrightarrow> reads i h (after evs r)"
  by (cases r) (auto simp: reads_def after_def)

lemma reads_if: "(b \<Longrightarrow> reads i h x) \<Longrightarrow> (\<not> b \<Longrightarrow> reads i h y) \<Longrightarrow> reads i h (if b then x else y)"
  by simp

lemma read_frames:
  assumes "open_status (sl_status (ha_s h i))"
  shows "reads i h (read_socket_data alive i h buffer)"
  using assms
proof (induction "2 * length buffer + (if sl_status (ha_s h i) = STATUS_CONTENT then 1 else 0)" arbitrary: h buffer rule: less_induct)
  case less
  let ?s = "ha_s h i"
  show ?case
  proof (cases "sl_status ?s = STATUS_HEADER")
    case H: True
    let ?need = "4 - sl_read ?s"
    let ?sz = "take (sl_read ?s) (sl_size ?s) @ take ?need buffer" and ?rest = "drop ?need buffer"
    let ?s1 = "?s\<lparr>sl_size := ?sz\<rparr>"
    let ?s2 = "?s1\<lparr>sl_length := unat (?sz ! 1) * 2 ^ 16 + unat (?sz ! 2) * 2 ^ 8 + unat (?sz ! 3), sl_read := 0,
               sl_recv_buffer := [], sl_status := STATUS_CONTENT\<rparr>"
    have e: "read_socket_data alive i h buffer = (if ?need = 0 then Inl Out_Of_Bounds
         else if length buffer < ?need
         then Inr ([], put_slave h i (?s\<lparr>sl_size := take (sl_read ?s) (sl_size ?s) @ buffer @ drop (sl_read ?s + length buffer) (sl_size ?s), sl_read := sl_read ?s + length buffer\<rparr>))
         else if ?sz ! 0 \<noteq> 0 then Inr (H_Error ''Message is too long'' # fst (close_harbor (put_slave h i ?s1) i), snd (close_harbor (put_slave h i ?s1) i))
         else if ?rest = [] then Inr ([], put_slave h i ?s2) else read_socket_data alive i (put_slave h i ?s2) ?rest)"
      by (subst read_socket_data.simps) (simp only: Let_def H harbor_status.case)
    have a: "reads i h (read_socket_data alive i (put_slave h i ?s2) ?rest)" if "?need \<noteq> 0" "\<not> length buffer < ?need"
    proof (rule reads_put)
      show "reads i (put_slave h i ?s2) (read_socket_data alive i (put_slave h i ?s2) ?rest)"
        using that H by (intro less.hyps) (auto simp: open_status_def)
    qed simp_all
    have b: "reads i h (Inr (H_Error ''Message is too long'' # fst (close_harbor (put_slave h i ?s1) i), snd (close_harbor (put_slave h i ?s1) i)))"
      by (auto simp: close_harbor_def Let_def intro!: readsI)
    have c: "reads i h (Inr ([], put_slave h i ?s2))"
      by (rule readsI) (simp_all add: open_status_def)
    have d: "reads i h (Inr ([], put_slave h i (?s\<lparr>sl_size := z, sl_read := n\<rparr>)))" for z n
      using H by (intro readsI) (simp_all add: open_status_def)
    show ?thesis
      unfolding e by (intro reads_if a b c d) simp_all
  next
    case False
    then have C: "sl_status ?s = STATUS_CONTENT"
      using less.prems by (simp add: open_status_def)
    let ?need = "sl_length ?s - sl_read ?s"
    let ?rest = "drop ?need buffer" and ?s1 = "?s\<lparr>sl_length := 0, sl_read := 0, sl_recv_buffer := [], sl_status := STATUS_HEADER\<rparr>"
    have e: "read_socket_data alive i h buffer = (if length buffer < ?need
         then Inr ([], put_slave h i (?s\<lparr>sl_recv_buffer := sl_recv_buffer ?s @ buffer, sl_read := sl_read ?s + length buffer\<rparr>))
         else res_bind (forward_local_message alive h (sl_recv_buffer ?s @ take ?need buffer)) (\<lambda>evs.
             if ?rest = [] then Inr (evs, put_slave h i ?s1) else after evs (read_socket_data alive i (put_slave h i ?s1) ?rest)))"
      by (subst read_socket_data.simps) (simp only: Let_def C harbor_status.case)
    have r: "reads i h (read_socket_data alive i (put_slave h i ?s1) ?rest)"
    proof (rule reads_put)
      show "reads i (put_slave h i ?s1) (read_socket_data alive i (put_slave h i ?s1) ?rest)"
        using C by (intro less.hyps) (auto simp: open_status_def)
    qed simp_all
    have i: "reads i h (Inr (evs, put_slave h i ?s1))" if "silent evs" for evs
      using that by (intro readsI) (simp_all add: open_status_def)
    have k: "reads i h (Inr ([], put_slave h i (?s\<lparr>sl_recv_buffer := z, sl_read := n\<rparr>)))" for z n
      using C by (intro readsI) (simp_all add: open_status_def)
    show ?thesis
    proof (cases "forward_local_message alive h (sl_recv_buffer ?s @ take ?need buffer)")
      case (Inl f)
      then have "f = Out_Of_Bounds"
        by (auto simp: forward_local_message_def Let_def split: if_splits)
      then show ?thesis
        unfolding e using Inl k by simp
    next
      case (Inr evs)
      then show ?thesis
        unfolding e using silent_forward [OF Inr] i k reads_after [OF r] by simp
    qed
  qed
qed

text \<open>The handshake: the id is wrong and the slave is down, or the queue is sent, and reading goes on.\<close>

lemma send_queue_bytes:
  assumes "\<forall>m \<in> set ms. length (frame_content m) < 2 ^ 32"
  shows "socket_bytes f (concat (map (send_remote fd) ms)) = (if f = fd then concat (map harbor_frame ms) else [])"
  using assms by (induction ms) (auto simp: send_remote_frame)

definition qmsgs :: "slave \<Rightarrow> harbor_msg list" where
  "qmsgs s = (case sl_queue s of None \<Rightarrow> [] | Some q \<Rightarrow> hq_content q)"

definition qok :: "slave \<Rightarrow> bool" where
  "qok s \<longleftrightarrow> (case sl_queue s of None \<Rightarrow> True | Some q \<Rightarrow> hq_inv q)"

lemma dispatch_queue_msgs:
  assumes "sl_fd (ha_s h i) \<noteq> 0" "qok (ha_s h i)"
  shows "dispatch_queue h i = Inr (concat (map (send_remote (sl_fd (ha_s h i))) (qmsgs (ha_s h i))), put_slave h i ((ha_s h i)\<lparr>sl_queue := None\<rparr>))"
proof (cases "sl_queue (ha_s h i)")
  case None
  then have "(ha_s h i)\<lparr>sl_queue := None\<rparr> = ha_s h i"
    by simp
  then have "put_slave h i ((ha_s h i)\<lparr>sl_queue := None\<rparr>) = h"
    by (simp only: put_slave_same)
  then show ?thesis
    using None assms(1) by (simp add: dispatch_queue_def Let_def qmsgs_def)
next
  case (Some q)
  then obtain q' where "drain q = (hq_content q, q')"
    using assms(2) drain_content [of q] by (auto simp: qok_def)
  then show ?thesis
    using Some assms(1) by (simp add: dispatch_queue_def Let_def qmsgs_def)
qed

text \<open>Events that send only to one socket.\<close>

definition only_fd :: "int \<Rightarrow> harbor_event list \<Rightarrow> bool" where
  "only_fd fd evs \<longleftrightarrow> (\<forall>f b. H_Socket_Send f b \<in> set evs \<longrightarrow> f = fd)"

lemma only_fd_append [simp]: "only_fd fd (evs @ evs') \<longleftrightarrow> only_fd fd evs \<and> only_fd fd evs'"
  by (auto simp: only_fd_def)

lemma silent_only_fd: "silent evs \<Longrightarrow> only_fd fd evs"
  by (simp add: silent_def only_fd_def)

lemma send_remote_only_fd: "only_fd fd (send_remote fd m)"
  by (simp add: send_remote_def Let_def only_fd_def)

lemma send_queue_only_fd: "only_fd fd (concat (map (send_remote fd) ms))"
  using send_remote_only_fd by (fastforce simp: only_fd_def)

lemma only_fd_bytes: "only_fd fd evs \<Longrightarrow> f \<noteq> fd \<Longrightarrow> socket_bytes f evs = []"
  by (induction evs) (auto simp: only_fd_def socket_bytes_def split: harbor_event.splits)

definition shakes :: "nat \<Rightarrow> harbor \<Rightarrow> harbor_result \<Rightarrow> bool" where
  "shakes i h r \<longleftrightarrow> (let s = ha_s h i in case r of Inl f \<Rightarrow> f = Out_Of_Bounds
     | Inr (evs, h') \<Rightarrow> only_fd (sl_fd s) evs \<and> (\<exists>s'. h' = put_slave h i s' \<and> sl_fd s' = sl_fd s \<and>
         (sl_status s' = STATUS_DOWN \<and> sl_queue s' = None \<or> open_status (sl_status s') \<and> sl_queue s' = None \<and>
           (\<exists>evs2. evs = concat (map (send_remote (sl_fd s)) (qmsgs s)) @ evs2 \<and> silent evs2))))"

lemma read_handshake:
  assumes st: "sl_status (ha_s h i) = STATUS_HANDSHAKE" and fd: "sl_fd (ha_s h i) \<noteq> 0" and q: "qok (ha_s h i)"
  shows "shakes i h (read_socket_data alive i h buffer)"
proof -
  let ?s = "ha_s h i"
  let ?out = "concat (map (send_remote (sl_fd ?s)) (qmsgs ?s))"
  let ?s1 = "?s\<lparr>sl_status := STATUS_HEADER, sl_queue := None\<rparr>"
  show ?thesis
  proof (cases buffer)
    case Nil
    then show ?thesis
      by (subst read_socket_data.simps) (simp add: Let_def st shakes_def)
  next
    case (Cons c rest)
    have d: "dispatch_queue (put_slave h i (?s\<lparr>sl_status := STATUS_HEADER\<rparr>)) i = Inr (?out, put_slave h i ?s1)"
      using dispatch_queue_msgs [of "put_slave h i (?s\<lparr>sl_status := STATUS_HEADER\<rparr>)" i] fd q by (simp add: qok_def qmsgs_def)
    have e: "read_socket_data alive i h buffer = (if unat c \<noteq> i then Inr (H_Error ''Invalid shakehand id'' # fst (close_harbor h i), snd (close_harbor h i))
         else if rest = [] then Inr (?out, put_slave h i ?s1) else after ?out (read_socket_data alive i (put_slave h i ?s1) rest))"
      using d by (subst read_socket_data.simps) (simp add: Let_def st Cons)
    have r: "reads i (put_slave h i ?s1) (read_socket_data alive i (put_slave h i ?s1) rest)"
      by (rule read_frames) (simp add: open_status_def)
    have "shakes i h (Inr (H_Error ''Invalid shakehand id'' # fst (close_harbor h i), snd (close_harbor h i)))"
      by (auto simp: shakes_def close_harbor_def Let_def only_fd_def)
    moreover have "shakes i h (Inr (?out, put_slave h i ?s1))"
      using send_queue_only_fd [of "sl_fd ?s" "qmsgs ?s"] unfolding shakes_def Let_def
      by (auto simp: open_status_def intro!: exI [of _ ?s1])
    moreover have "shakes i h (after ?out (read_socket_data alive i (put_slave h i ?s1) rest))"
    proof (cases "read_socket_data alive i (put_slave h i ?s1) rest")
      case (Inl f)
      then show ?thesis
        using r by (simp add: shakes_def after_def Let_def)
    next
      case (Inr y)
      obtain evs h' where y: "y = (evs, h')"
        by fastforce
      obtain s' where s': "silent evs" "h' = put_slave h i s'" "sl_fd s' = sl_fd ?s"
        "open_status (sl_status s') \<and> sl_queue s' = None \<or> sl_status s' = STATUS_DOWN \<and> sl_queue s' = None"
        using r unfolding reads_def Inr y by auto
      then show ?thesis
        using Inr y send_queue_only_fd [of "sl_fd ?s" "qmsgs ?s"] silent_only_fd [OF s'(1)] unfolding shakes_def Let_def
        by (auto simp: after_def intro!: exI [of _ s'])
    qed
    ultimately show ?thesis
      unfolding e by simp
  qed
qed

section \<open>Messages for one node\<close>

text \<open>
  A history of the harbor service, with the messages \<open>ms\<close> it got for the services of node \<open>i\<close> and the events \<open>evs\<close>: messages for any
  node by handle, commands that connect a node with a socket of its own, and everything of the sockets.
\<close>

definition target :: "sent_message \<Rightarrow> nat" where
  "target m = (case m of (source, destination, type, session, msg) \<Rightarrow> handle_harbor destination)"

inductive harbor_history :: "(u32 \<Rightarrow> bool) \<Rightarrow> nat \<Rightarrow> harbor \<Rightarrow> sent_message list \<Rightarrow> harbor_event list \<Rightarrow> harbor \<Rightarrow> bool" for alive i h0 where
  history_start: "(\<And>j. ha_s h0 j = no_slave) \<Longrightarrow> harbor_history alive i h0 [] [] h0"
| history_send: "harbor_history alive i h0 ms evs h \<Longrightarrow> length (frame_content (routed m)) < 2 ^ 32 \<Longrightarrow>
    harbor_mainloop alive h (to_remote m) = Inr (evs', h') \<Longrightarrow>
    harbor_history alive i h0 (if target m = i then ms @ [m] else ms) (evs @ evs') h'"
| history_connect: "harbor_history alive i h0 ms evs h \<Longrightarrow> (\<And>j. sl_fd (ha_s h j) \<noteq> fd) \<Longrightarrow>
    harbor_connect h cmd fd id' = Inr (evs', h') \<Longrightarrow> harbor_history alive i h0 ms (evs @ evs') h'"
| history_data: "harbor_history alive i h0 ms evs h \<Longrightarrow> harbor_mainloop alive h (Socket_Data fd buffer) = Inr (evs', h') \<Longrightarrow>
    fd \<noteq> 0 \<Longrightarrow> harbor_history alive i h0 ms (evs @ evs') h'"
| history_closed: "harbor_history alive i h0 ms evs h \<Longrightarrow> harbor_mainloop alive h (Socket_Closed fd) = Inr (evs', h') \<Longrightarrow>
    harbor_history alive i h0 ms (evs @ evs') h'"

text \<open>What holds of slave \<open>i\<close>.\<close>

definition channel :: "nat \<Rightarrow> harbor \<Rightarrow> sent_message list \<Rightarrow> harbor_event list \<Rightarrow> bool" where
  "channel i h ms evs \<longleftrightarrow> (let s = ha_s h i; shake = [word_of_int (ha_id h)] in qok s \<and>
     (sl_status s = STATUS_WAIT \<and> sl_fd s = 0 \<and> qmsgs s = map routed ms \<or>
      sl_status s = STATUS_HANDSHAKE \<and> sl_fd s \<noteq> 0 \<and> qmsgs s = map routed ms \<and> socket_bytes (sl_fd s) evs = shake \<or>
      open_status (sl_status s) \<and> sl_fd s \<noteq> 0 \<and> sl_queue s = None \<and> socket_bytes (sl_fd s) evs = shake @ concat (map harbor_frame (map routed ms)) \<or>
      sl_status s = STATUS_DOWN \<and> sl_fd s \<noteq> 0))"

text \<open>What holds of all slaves: their sockets differ, only they were written to, and the queues are valid.\<close>

definition sockets_ok :: "harbor \<Rightarrow> harbor_event list \<Rightarrow> bool" where
  "sockets_ok h evs \<longleftrightarrow> (\<forall>j k. sl_fd (ha_s h j) \<noteq> 0 \<longrightarrow> sl_fd (ha_s h j) = sl_fd (ha_s h k) \<longrightarrow> j = k) \<and>
     (\<forall>f b. H_Socket_Send f b \<in> set evs \<longrightarrow> f \<noteq> 0 \<longrightarrow> (\<exists>j. sl_fd (ha_s h j) = f)) \<and>
     (\<forall>j. qok (ha_s h j) \<and> (sl_status (ha_s h j) = STATUS_WAIT \<longleftrightarrow> sl_fd (ha_s h j) = 0))"

lemma push_to_slave:
  assumes "qok s"
  shows "qok (s\<lparr>sl_queue := Some (push_queue_msg (case sl_queue s of None \<Rightarrow> harbor_new_queue | Some q \<Rightarrow> q) m)\<rparr>)"
    "qmsgs (s\<lparr>sl_queue := Some (push_queue_msg (case sl_queue s of None \<Rightarrow> harbor_new_queue | Some q \<Rightarrow> q) m)\<rparr>) = qmsgs s @ [m]"
  using assms push_queue_msg_correct hq_new by (cases "sl_queue s"; simp add: qok_def qmsgs_def)+

lemma send_cases:
  assumes "harbor_mainloop alive h (to_remote m) = Inr (evs', h')" "sockets_ok h evs" "length (frame_content (routed m)) < 2 ^ 32"
  defines "s \<equiv> ha_s h (target m)"
  obtains (own) "int (target m) = ha_id h" "silent evs'" "h' = h"
  | (wait) "int (target m) \<noteq> ha_id h" "sl_fd s = 0 \<or> sl_status s = STATUS_HANDSHAKE" "evs' = []"
      "h' = put_slave h (target m) (s\<lparr>sl_queue := Some (push_queue_msg (case sl_queue s of None \<Rightarrow> harbor_new_queue | Some q \<Rightarrow> q) (routed m))\<rparr>)"
  | (direct) "int (target m) \<noteq> ha_id h" "sl_fd s \<noteq> 0" "sl_status s \<noteq> STATUS_HANDSHAKE" "evs' = [H_Socket_Send (sl_fd s) (harbor_frame (routed m))]" "h' = h"
proof -
  obtain source destination type session msg where m: "m = (source, destination, type, session, msg)"
    by (cases m) auto
  have "sl_status s = STATUS_WAIT \<longleftrightarrow> sl_fd s = 0"
    using assms(2) by (simp add: sockets_ok_def s_def)
  then have down: "sl_fd s = 0 \<Longrightarrow> sl_status s \<noteq> STATUS_DOWN"
    by auto
  have e: "remote_send_handle h source destination type session msg = (evs', h')"
    using assms(1) by (simp add: m to_remote_def harbor_mainloop_def)
  have t: "target m = handle_harbor destination" "routed m = remote_message_of source destination type session msg"
    by (simp_all add: m target_def routed_def)
  show thesis
  proof (cases "int (target m) = ha_id h")
    case True
    then show thesis
      using e by (intro own) (auto simp: remote_send_handle_def Let_def t)
  next
    case False
    then show thesis
    proof (cases "sl_fd s = 0 \<or> sl_status s = STATUS_HANDSHAKE")
      case w: True
      then have "sl_status s \<noteq> STATUS_DOWN"
        using down by auto
      then show thesis
        using e False w by (intro wait) (auto simp: remote_send_handle_def Let_def t s_def)
    next
      case d: False
      then show thesis
        using e False send_remote_frame [OF assms(3), of "sl_fd s"] by (intro direct) (auto simp: remote_send_handle_def Let_def t s_def)
    qed
  qed
qed

text \<open>A step that leaves the sockets of all slaves alone.\<close>

lemma sockets_ok_step:
  assumes "sockets_ok h evs" "only_fd (sl_fd (ha_s h j)) evs'" "h' = put_slave h j s'" "sl_fd s' = sl_fd (ha_s h j)" "qok s'"
    "sl_status s' = STATUS_WAIT \<longleftrightarrow> sl_fd s' = 0"
  shows "sockets_ok h' (evs @ evs')"
proof -
  have fd: "sl_fd (ha_s h' k) = sl_fd (ha_s h k)" for k
    using assms(3,4) by simp
  show ?thesis
    using assms unfolding sockets_ok_def only_fd_def fd by auto
qed

lemma channel_other:
  assumes "channel i h ms evs" "ha_s h' i = ha_s h i" "ha_id h' = ha_id h" "only_fd f evs'" "f \<noteq> sl_fd (ha_s h i) \<or> silent evs'"
  shows "channel i h' ms (evs @ evs')"
proof -
  have "socket_bytes (sl_fd (ha_s h i)) evs' = []"
    using assms(4,5) only_fd_bytes silent_bytes by metis
  then show ?thesis
    using assms(1-3) by (simp add: channel_def Let_def)
qed

lemma fd_differs: "sockets_ok h evs \<Longrightarrow> j \<noteq> i \<Longrightarrow> sl_fd (ha_s h j) \<noteq> 0 \<Longrightarrow> sl_fd (ha_s h j) \<noteq> sl_fd (ha_s h i)"
  by (auto simp: sockets_ok_def)

lemma silent_sockets_ok: "sockets_ok h evs \<Longrightarrow> silent evs' \<Longrightarrow> sockets_ok h (evs @ evs')"
  by (auto simp: sockets_ok_def silent_def)

lemma history_send_inv:
  assumes c: "channel i h ms evs" and o: "sockets_ok h evs" and i: "int i \<noteq> ha_id h"
    and m: "length (frame_content (routed m)) < 2 ^ 32" "harbor_mainloop alive h (to_remote m) = Inr (evs', h')"
  shows "channel i h' (if target m = i then ms @ [m] else ms) (evs @ evs') \<and> sockets_ok h' (evs @ evs') \<and> ha_id h' = ha_id h"
  using m(2) o m(1)
proof (cases rule: send_cases)
  case own
  then have "target m \<noteq> i"
    using i by auto
  then show ?thesis
    using own channel_other [OF c, of h 0 evs'] silent_only_fd silent_sockets_ok [OF o] by auto
next
  case wait
  let ?s = "ha_s h (target m)"
  let ?s' = "?s\<lparr>sl_queue := Some (push_queue_msg (case sl_queue ?s of None \<Rightarrow> harbor_new_queue | Some q \<Rightarrow> q) (routed m))\<rparr>"
  have q: "qok ?s"
    using o by (simp add: sockets_ok_def)
  have "sockets_ok h' (evs @ evs')"
    using wait push_to_slave(1) [OF q] o by (intro sockets_ok_step [OF o, of "target m" evs' h' ?s']) (simp_all add: only_fd_def sockets_ok_def)
  moreover have "channel i h' (if target m = i then ms @ [m] else ms) (evs @ evs')"
  proof (cases "target m = i")
    case True
    have "sl_status ?s = STATUS_WAIT \<or> sl_status ?s = STATUS_HANDSHAKE"
      using wait(2) o by (auto simp: sockets_ok_def)
    then show ?thesis
      using True wait c push_to_slave [OF q] by (auto simp: channel_def Let_def open_status_def)
  next
    case False
    then show ?thesis
      using wait channel_other [OF c, of h' 0 evs'] by (simp add: only_fd_def)
  qed
  ultimately show ?thesis
    using wait by simp
next
  case direct
  let ?s = "ha_s h (target m)"
  have "sockets_ok h' (evs @ evs')"
    using direct o by (intro sockets_ok_step [OF o, of "target m" evs' h' ?s]) (simp_all add: only_fd_def sockets_ok_def)
  moreover have "channel i h' (if target m = i then ms @ [m] else ms) (evs @ evs')"
  proof (cases "target m = i")
    case True
    then show ?thesis
      using direct c o by (auto simp: channel_def Let_def sockets_ok_def)
  next
    case False
    then show ?thesis
      using direct channel_other [OF c, of h' "sl_fd ?s" evs'] fd_differs [OF o False] by (simp add: only_fd_def)
  qed
  ultimately show ?thesis
    using direct by simp
qed

text \<open>Connecting a node with a socket that no slave has: it has no bytes yet.\<close>

lemma unused_bytes: "sockets_ok h evs \<Longrightarrow> fd \<noteq> 0 \<Longrightarrow> (\<And>j. sl_fd (ha_s h j) \<noteq> fd) \<Longrightarrow> socket_bytes fd evs = []"
  unfolding sockets_ok_def socket_bytes_def by (force split: harbor_event.splits)

lemma connect_cases:
  assumes "harbor_connect h cmd fd id' = Inr (evs', h')" "sockets_ok h evs"
  obtains (refused) "silent evs'" "h' = h"
  | (shake) j where "fd \<noteq> 0" "sl_fd (ha_s h j) = 0" "evs' = [H_Socket_Start fd, H_Socket_Send fd [word_of_int (ha_id h)]]"
      "h' = put_slave h j ((ha_s h j)\<lparr>sl_fd := fd, sl_status := STATUS_HANDSHAKE\<rparr>)"
  | (accept) j where "fd \<noteq> 0" "sl_fd (ha_s h j) = 0"
      "evs' = [H_Socket_Start fd, H_Socket_Send fd [word_of_int (ha_id h)]] @ concat (map (send_remote fd) (qmsgs (ha_s h j)))"
      "h' = put_slave h j ((ha_s h j)\<lparr>sl_fd := fd, sl_status := STATUS_HEADER, sl_queue := None\<rparr>)"
proof -
  define j where "j = nat id'"
  let ?s = "ha_s h j"
  show thesis
  proof (cases "fd = 0 \<or> id' \<le> 0 \<or> id' \<ge> int REMOTE_MAX \<or> sl_fd ?s \<noteq> 0")
    case True
    then show thesis
      using assms(1) by (intro refused) (auto simp: harbor_connect_def Let_def j_def split: if_splits)
  next
    case f: False
    have q: "qok (?s\<lparr>sl_fd := fd, sl_status := STATUS_HEADER\<rparr>)"
      using assms(2) by (simp add: sockets_ok_def qok_def)
    have d: "dispatch_queue (put_slave h j (?s\<lparr>sl_fd := fd, sl_status := STATUS_HEADER\<rparr>)) j =
        Inr (concat (map (send_remote fd) (qmsgs ?s)), put_slave h j (?s\<lparr>sl_fd := fd, sl_status := STATUS_HEADER, sl_queue := None\<rparr>))"
      using dispatch_queue_msgs [of "put_slave h j (?s\<lparr>sl_fd := fd, sl_status := STATUS_HEADER\<rparr>)" j] f q by (simp add: qmsgs_def)
    show thesis
    proof (cases "cmd = of_char (CHR ''S'')")
      case True
      then show thesis
        using assms(1) f by (intro shake [of j]) (auto simp: harbor_connect_def Let_def j_def handshake_def)
    next
      case False
      then show thesis
        using assms(1) f d by (intro accept [of j]) (auto simp: harbor_connect_def Let_def j_def handshake_def after_def)
    qed
  qed
qed

lemma sockets_ok_connect:
  assumes o: "sockets_ok h evs" and fresh: "\<And>k. sl_fd (ha_s h k) \<noteq> fd" and j: "sl_fd (ha_s h j) = 0" "fd \<noteq> 0" and evs: "only_fd fd evs'"
    and s': "sl_fd s' = fd" "sl_status s' \<noteq> STATUS_WAIT" "qok s'"
  shows "sockets_ok (put_slave h j s') (evs @ evs')"
proof -
  let ?h = "put_slave h j s'"
  have "a = b" if "sl_fd (ha_s ?h a) \<noteq> 0" "sl_fd (ha_s ?h a) = sl_fd (ha_s ?h b)" for a b
  proof -
    have "sl_fd (ha_s h a) \<noteq> 0 \<Longrightarrow> sl_fd (ha_s h a) = sl_fd (ha_s h b) \<Longrightarrow> a = b"
      using o unfolding sockets_ok_def by blast
    then show ?thesis
      using that fresh [of a] fresh [of b] s'(1) by (auto split: if_splits)
  qed
  moreover have "\<exists>k. sl_fd (ha_s ?h k) = f" if hs: "H_Socket_Send f b \<in> set (evs @ evs')" "f \<noteq> 0" for f b
  proof (cases "H_Socket_Send f b \<in> set evs'")
    case True
    then show ?thesis
      using evs s'(1) by (intro exI [of _ j]) (auto simp: only_fd_def)
  next
    case False
    then have "H_Socket_Send f b \<in> set evs"
      using hs(1) by simp
    then obtain k where "sl_fd (ha_s h k) = f"
      using hs(2) o unfolding sockets_ok_def by blast
    then show ?thesis
      using hs(2) j(1) by (intro exI [of _ k]) auto
  qed
  moreover have "qok (ha_s ?h k) \<and> (sl_status (ha_s ?h k) = STATUS_WAIT \<longleftrightarrow> sl_fd (ha_s ?h k) = 0)" for k
    using o s' j(2) by (simp add: sockets_ok_def)
  ultimately show ?thesis
    unfolding sockets_ok_def by blast
qed

lemma history_connect_inv:
  assumes c: "channel i h ms evs" and o: "sockets_ok h evs" and i: "int i \<noteq> ha_id h"
    and ms: "\<forall>m \<in> set ms. length (frame_content (routed m)) < 2 ^ 32"
    and fresh: "\<And>j. sl_fd (ha_s h j) \<noteq> fd" and r: "harbor_connect h cmd fd id' = Inr (evs', h')"
  shows "channel i h' ms (evs @ evs') \<and> sockets_ok h' (evs @ evs') \<and> ha_id h' = ha_id h"
  using r o
proof (cases rule: connect_cases)
  case refused
  then show ?thesis
    using channel_other [OF c, of h 0 evs'] silent_only_fd silent_sockets_ok [OF o] by auto
next
  case (shake j)
  let ?s' = "(ha_s h j)\<lparr>sl_fd := fd, sl_status := STATUS_HANDSHAKE\<rparr>"
  have q: "qok ?s'" and w: "sl_status (ha_s h j) = STATUS_WAIT"
    using o shake(2) by (auto simp: sockets_ok_def qok_def)
  have e: "only_fd fd evs'"
    using shake(3) by (simp add: only_fd_def)
  have "sockets_ok h' (evs @ evs')"
    unfolding shake(4) by (rule sockets_ok_connect [OF o fresh shake(2,1) e]) (use q in simp_all)
  moreover have "channel i h' ms (evs @ evs')"
  proof (cases "j = i")
    case True
    then show ?thesis
      using c w q shake unused_bytes [OF o shake(1) fresh] by (auto simp: channel_def Let_def open_status_def qmsgs_def)
  next
    case False
    then show ?thesis
      using shake fresh [of i] e by (intro channel_other [OF c, of h' fd evs']) auto
  qed
  ultimately show ?thesis
    using shake(4) by simp
next
  case (accept j)
  let ?s' = "(ha_s h j)\<lparr>sl_fd := fd, sl_status := STATUS_HEADER, sl_queue := None\<rparr>"
  have q: "qok ?s'" and w: "sl_status (ha_s h j) = STATUS_WAIT"
    using o accept(2) by (auto simp: sockets_ok_def qok_def)
  have e: "only_fd fd evs'"
    using accept(3) send_queue_only_fd [of fd "qmsgs (ha_s h j)"] by (simp add: only_fd_def)
  have "sockets_ok h' (evs @ evs')"
    unfolding accept(4) by (rule sockets_ok_connect [OF o fresh accept(2,1) e]) (use q in simp_all)
  moreover have "channel i h' ms (evs @ evs')"
  proof (cases "j = i")
    case True
    have m: "qmsgs (ha_s h i) = map routed ms"
      using c w True accept(2) by (auto simp: channel_def Let_def open_status_def)
    have "socket_bytes fd (concat (map (send_remote fd) (map routed ms))) = concat (map harbor_frame (map routed ms))"
      using ms by (subst send_queue_bytes) auto
    then have "socket_bytes fd (evs @ evs') = [word_of_int (ha_id h)] @ concat (map harbor_frame (map routed ms))"
      using unused_bytes [OF o accept(1) fresh] accept(3) True m by simp
    then show ?thesis
      using True accept q by (simp add: channel_def Let_def open_status_def)
  next
    case False
    then show ?thesis
      using accept fresh [of i] e by (intro channel_other [OF c, of h' fd evs']) auto
  qed
  ultimately show ?thesis
    using accept(4) by simp
qed

lemma find_slave_fd: "find_slave h fd is = Some j \<Longrightarrow> sl_fd (ha_s h j) = fd"
  by (induction "is") (auto split: if_splits)

lemma history_data_inv:
  assumes c: "channel i h ms evs" and o: "sockets_ok h evs" and ms: "\<forall>m \<in> set ms. length (frame_content (routed m)) < 2 ^ 32"
    and fd: "fd \<noteq> 0" and r: "harbor_mainloop alive h (Socket_Data fd buffer) = Inr (evs', h')"
  shows "channel i h' ms (evs @ evs') \<and> sockets_ok h' (evs @ evs') \<and> ha_id h' = ha_id h"
proof (cases "find_slave h fd [1..<REMOTE_MAX]")
  case None
  then have "silent evs'" "h' = h"
    using r by (auto simp: harbor_mainloop_def push_socket_data_def)
  then show ?thesis
    using channel_other [OF c, of h 0 evs'] silent_only_fd silent_sockets_ok [OF o] by auto
next
  case (Some j)
  let ?s = "ha_s h j"
  have fj: "sl_fd ?s = fd"
    by (rule find_slave_fd [OF Some])
  have q: "qok ?s" and w: "sl_status ?s \<noteq> STATUS_WAIT"
    using o fj fd by (auto simp: sockets_ok_def)
  have e: "read_socket_data alive j h buffer = Inr (evs', h')"
    using r Some by (simp add: harbor_mainloop_def push_socket_data_def)
  have shaken: "?thesis" if st: "sl_status ?s = STATUS_HANDSHAKE"
  proof -
    from read_handshake [OF st _ q, of alive buffer] fj fd have "shakes j h (Inr (evs', h'))"
      unfolding e by simp
    then obtain s' where s': "only_fd fd evs'" "h' = put_slave h j s'" "sl_fd s' = fd"
      "sl_status s' = STATUS_DOWN \<and> sl_queue s' = None \<or> open_status (sl_status s') \<and> sl_queue s' = None \<and>
           (\<exists>evs2. evs' = concat (map (send_remote fd) (qmsgs ?s)) @ evs2 \<and> silent evs2)"
      unfolding shakes_def Let_def fj by auto
    have q': "qok s'" "sl_status s' \<noteq> STATUS_WAIT"
      using s'(4) by (auto simp: qok_def open_status_def)
    have "sockets_ok h' (evs @ evs')"
      using s' q' fj fd by (intro sockets_ok_step [OF o, of j evs' h' s']) simp_all
    moreover have "channel i h' ms (evs @ evs')"
    proof (cases "j = i")
      case False
      then show ?thesis
        using s' fd_differs [OF o False] fj fd by (intro channel_other [OF c, of h' fd evs']) auto
    next
      case True
      show ?thesis
      proof (cases "sl_status s' = STATUS_DOWN")
        case True
        then show ?thesis
          using \<open>j = i\<close> s' q' fd by (simp add: channel_def Let_def)
      next
        case False
        then obtain evs2 where s2: "open_status (sl_status s')" "sl_queue s' = None" "evs' = concat (map (send_remote fd) (qmsgs ?s)) @ evs2" "silent evs2"
          using s'(4) by blast
        have m: "qmsgs ?s = map routed ms" "socket_bytes fd evs = [word_of_int (ha_id h)]"
          using c st \<open>j = i\<close> fj by (auto simp: channel_def Let_def open_status_def)
        have "socket_bytes fd (concat (map (send_remote fd) (map routed ms))) = concat (map harbor_frame (map routed ms))"
          using ms by (subst send_queue_bytes) auto
        then have "socket_bytes fd (evs @ evs') = [word_of_int (ha_id h)] @ concat (map harbor_frame (map routed ms))"
          using m s2 silent_bytes [OF s2(4)] by simp
        then show ?thesis
          using \<open>j = i\<close> s' s2 q' fd by (simp add: channel_def Let_def)
      qed
    qed
    ultimately show ?thesis
      using s'(2) by simp
  qed
  have opened: "?thesis" if st: "open_status (sl_status ?s)"
  proof -
    from read_frames [OF st, of alive buffer] obtain s' where s': "silent evs'" "h' = put_slave h j s'" "sl_fd s' = fd"
      "open_status (sl_status s') \<and> sl_queue s' = sl_queue ?s \<or> sl_status s' = STATUS_DOWN \<and> sl_queue s' = None"
      unfolding reads_def e by (auto simp: fj)
    have q': "qok s'" "sl_status s' \<noteq> STATUS_WAIT"
      using s'(4) q by (auto simp: qok_def open_status_def)
    have "sockets_ok h' (evs @ evs')"
      using s' q' fj fd silent_only_fd [OF s'(1)] by (intro sockets_ok_step [OF o, of j evs' h' s']) simp_all
    moreover have "channel i h' ms (evs @ evs')"
    proof (cases "j = i")
      case False
      then show ?thesis
        using s' silent_only_fd [OF s'(1)] by (intro channel_other [OF c, of h' 0 evs']) auto
    next
      case True
      then show ?thesis
        using c s' q' st fj silent_bytes [OF s'(1)] fd by (auto simp: channel_def Let_def open_status_def)
    qed
    ultimately show ?thesis
      using s'(2) by simp
  qed
  have "?thesis" if st: "sl_status ?s = STATUS_DOWN"
  proof -
    have "evs' = []" "h' = h"
      using e st by (simp_all add: read_socket_data.simps Let_def)
    then show ?thesis
      using c o by simp
  qed
  then show ?thesis
    using shaken opened w by (cases "sl_status ?s") (auto simp: open_status_def)
qed

lemma history_inv:
  assumes "harbor_history alive i h0 ms evs h" "int i \<noteq> ha_id h0"
  shows "channel i h ms evs \<and> sockets_ok h evs \<and> ha_id h = ha_id h0 \<and> (\<forall>m \<in> set ms. length (frame_content (routed m)) < 2 ^ 32)"
  using assms
proof (induction rule: harbor_history.induct)
  case history_start
  then show ?case
    by (simp add: channel_def sockets_ok_def Let_def qok_def qmsgs_def no_slave_def)
next
  case (history_send ms evs h m evs' h')
  then show ?case
    using history_send_inv [of i h ms evs m alive evs' h'] by auto
next
  case (history_connect ms evs h fd cmd id' evs' h')
  then show ?case
    using history_connect_inv [of i h ms evs fd cmd id' evs' h'] by auto
next
  case (history_data ms evs h fd buffer evs' h')
  then show ?case
    using history_data_inv [of i h ms evs fd alive buffer evs' h'] by auto
next
  case (history_closed ms evs h fd evs' h')
  then have "silent evs'" "h' = h"
    by (auto simp: harbor_mainloop_def report_harbor_down_def split: option.splits)
  then show ?case
    using history_closed channel_other [of i h ms evs h 0 evs'] silent_only_fd silent_sockets_ok [of h evs evs'] by auto
qed

text \<open>C12: Messages for a node leave in the order they came. In every state that sends, connections, socket data and closed
  sockets lead to, the slave of another node \<open>i\<close> either waits for its connection or for the id of the other side, with all messages for
  that node in its queue; or it is connected, its queue is empty, and its socket got the id of this node and then the frames of all
  messages for that node, those that waited first; or it is down.
\<close>

theorem harbor_order:
  assumes "harbor_history alive i h0 ms evs h" "int i \<noteq> ha_id h0"
  shows "case sl_status (ha_s h i) of
      STATUS_WAIT \<Rightarrow> sl_fd (ha_s h i) = 0 \<and> qmsgs (ha_s h i) = map routed ms
    | STATUS_HANDSHAKE \<Rightarrow> qmsgs (ha_s h i) = map routed ms \<and> socket_bytes (sl_fd (ha_s h i)) evs = [word_of_int (ha_id h0)]
    | STATUS_DOWN \<Rightarrow> sl_fd (ha_s h i) \<noteq> 0
    | _ \<Rightarrow> sl_queue (ha_s h i) = None \<and>
        socket_bytes (sl_fd (ha_s h i)) evs = word_of_int (ha_id h0) # concat (map harbor_frame (map routed ms))"
  using history_inv [OF assms] by (auto simp: channel_def Let_def open_status_def split: harbor_status.splits)

section \<open>A node that is down\<close>

text \<open>Over all inputs: a slave has a socket exactly when it does not wait for one, and only a short frame can be a fault.\<close>

definition conn_ok :: "harbor \<Rightarrow> bool" where
  "conn_ok h \<longleftrightarrow> (\<forall>j. sl_status (ha_s h j) = STATUS_WAIT \<longleftrightarrow> sl_fd (ha_s h j) = 0)"

definition conn_result :: "harbor_result \<Rightarrow> bool" where
  "conn_result r \<longleftrightarrow> (case r of Inl f \<Rightarrow> f = Out_Of_Bounds | Inr (evs, h) \<Rightarrow> conn_ok h)"

lemma conn_ok_put: "conn_ok h \<Longrightarrow> sl_status s = STATUS_WAIT \<longleftrightarrow> sl_fd s = 0 \<Longrightarrow> conn_ok (put_slave h i s)"
  by (simp add: conn_ok_def)

lemma conn_ok_iff: "conn_ok h \<Longrightarrow> sl_status (ha_s h i) = STATUS_WAIT \<longleftrightarrow> sl_fd (ha_s h i) = 0"
  by (simp add: conn_ok_def)

lemma conn_ok_fd: "conn_ok h \<Longrightarrow> sl_status (ha_s h i) = t \<Longrightarrow> t \<noteq> STATUS_WAIT \<Longrightarrow> sl_fd (ha_s h i) \<noteq> 0"
  using conn_ok_iff [of h i] by auto

lemma conn_ok_map [simp]: "conn_ok (h\<lparr>ha_map := m\<rparr>) \<longleftrightarrow> conn_ok h"
  by (simp add: conn_ok_def)

lemma dispatch_queue_conn:
  assumes "conn_ok h" "sl_fd (ha_s h i) \<noteq> 0"
  obtains evs q where "dispatch_queue h i = Inr (evs, put_slave h i ((ha_s h i)\<lparr>sl_queue := q\<rparr>))"
proof (cases "sl_queue (ha_s h i)")
  case None
  then have "(ha_s h i)\<lparr>sl_queue := None\<rparr> = ha_s h i"
    by simp
  then show thesis
    using that [of "[]" None] None assms(2) by (simp only: put_slave_same dispatch_queue_def Let_def if_False option.case)
next
  case (Some q)
  then show thesis
    using that assms(2) by (simp add: dispatch_queue_def Let_def)
qed

lemma conn_result_after: "conn_result r \<Longrightarrow> conn_result (after evs r)"
  by (cases r) (auto simp: conn_result_def after_def)

lemma read_conn:
  assumes "conn_ok h"
  shows "conn_result (read_socket_data alive i h buffer)"
proof -
  have frames: "conn_result (read_socket_data alive i h buffer)" if "conn_ok h" "open_status (sl_status (ha_s h i))" for h buffer
  proof -
    have "sl_fd (ha_s h i) \<noteq> 0"
      using that(2) conn_ok_iff [OF that(1), of i] by (auto simp: open_status_def)
    then show ?thesis
      using read_frames [OF that(2), of alive buffer] that(1) unfolding reads_def conn_result_def
      by (auto simp: open_status_def intro!: conn_ok_put split: sum.splits)
  qed
  show ?thesis
  proof (cases "sl_status (ha_s h i) = STATUS_HANDSHAKE")
    case True
    let ?h = "put_slave h i ((ha_s h i)\<lparr>sl_status := STATUS_HEADER\<rparr>)"
    have fd: "sl_fd (ha_s h i) \<noteq> 0"
      using conn_ok_fd [OF assms True] by simp
    then have c: "conn_ok ?h"
      using assms by (intro conn_ok_put) simp_all
    obtain evs q where d: "dispatch_queue ?h i = Inr (evs, put_slave ?h i ((ha_s ?h i)\<lparr>sl_queue := q\<rparr>))"
      using dispatch_queue_conn [OF c, of i] fd by auto
    let ?h2 = "put_slave ?h i ((ha_s ?h i)\<lparr>sl_queue := q\<rparr>)"
    have c2: "conn_ok ?h2"
      using fd by (intro conn_ok_put [OF c]) simp
    have "conn_result (read_socket_data alive i ?h2 rest)" for rest
      by (rule frames [OF c2]) (simp add: open_status_def)
    moreover have "conn_ok (snd (close_harbor h i))"
      using fd by (auto simp: close_harbor_def Let_def intro!: conn_ok_put [OF assms])
    ultimately show ?thesis
      using c2 d by (subst read_socket_data.simps)
        (auto simp: Let_def True conn_result_def [of "Inl _"] conn_result_def [of "Inr _"] intro!: conn_result_after split: list.splits)
  next
    case False
    then show ?thesis
    proof (cases "open_status (sl_status (ha_s h i))")
      case True
      then show ?thesis
        by (rule frames [OF assms])
    next
      case closed: False
      then have "read_socket_data alive i h buffer = Inr ([], h)"
        using False by (subst read_socket_data.simps) (auto simp: Let_def open_status_def split: harbor_status.splits)
      then show ?thesis
        using assms by (simp add: conn_result_def)
    qed
  qed
qed

lemma connect_conn:
  assumes "conn_ok h"
  shows "conn_result (harbor_connect h cmd fd id')"
proof -
  let ?i = "nat id'"
  have "conn_result (after evs (dispatch_queue (put_slave h ?i ((ha_s h ?i)\<lparr>sl_fd := fd, sl_status := STATUS_HEADER\<rparr>)) ?i))" if "fd \<noteq> 0" for evs
  proof -
    have c: "conn_ok (put_slave h ?i ((ha_s h ?i)\<lparr>sl_fd := fd, sl_status := STATUS_HEADER\<rparr>))"
      using that by (intro conn_ok_put [OF assms]) simp
    show ?thesis
      by (rule dispatch_queue_conn [OF c, of ?i])
        (use that in \<open>auto simp: conn_result_def after_def intro!: conn_ok_put [OF assms]\<close>)
  qed
  moreover have "conn_ok (put_slave h ?i ((ha_s h ?i)\<lparr>sl_fd := fd, sl_status := STATUS_HANDSHAKE\<rparr>))" if "fd \<noteq> 0"
    using that by (intro conn_ok_put [OF assms]) simp
  ultimately show ?thesis
    using assms by (auto simp: harbor_connect_def Let_def conn_result_def [of "Inr _"])
qed

lemma name_queue_conn:
  assumes "conn_ok h"
  shows "conn_ok (snd (dispatch_name_queue h p))"
  using conn_ok_iff [OF assms] assms
  by (auto simp: dispatch_name_queue_def Let_def split: option.splits prod.splits intro!: conn_ok_put)

lemma send_handle_conn:
  assumes "conn_ok h"
  shows "conn_ok (snd (remote_send_handle h source destination type session msg))"
  using conn_ok_iff [OF assms, of "handle_harbor destination"] assms by (auto simp: remote_send_handle_def Let_def intro!: conn_ok_put)

lemma mainloop_conn:
  assumes "conn_ok h"
  shows "conn_result (harbor_mainloop alive h x)"
proof (cases x)
  case (Socket_Data fd buffer)
  then show ?thesis
    using read_conn [OF assms] assms by (auto simp: harbor_mainloop_def push_socket_data_def conn_result_def [of "Inr _"] split: option.splits)
next
  case (Harbor_Text msg source)
  have "conn_result (Inr (update_name h name handle))" for name handle
  proof -
    obtain p m where n: "hash_node (ha_map h) name = (p, m)"
      by fastforce
    let ?h = "h\<lparr>ha_map := kv_put m p ((kv_at m p)\<lparr>kv_value := handle\<rparr>)\<rparr>"
    obtain evs h2 where "dispatch_name_queue ?h p = (evs, h2)"
      by fastforce
    then show ?thesis
      using name_queue_conn [of ?h p] assms n by (simp add: update_name_def Let_def conn_result_def)
  qed
  then show ?thesis
    using connect_conn [OF assms] assms Harbor_Text
    by (auto simp: harbor_mainloop_def harbor_command_def Let_def conn_result_def [of "Inr (_, _)"] conn_result_def [of "Inl _"] split: list.splits prod.splits)
next
  case (Remote_Handle source destination type session msg)
  then show ?thesis
    using send_handle_conn [OF assms] by (simp add: harbor_mainloop_def conn_result_def case_prod_beta)
next
  case (Remote_Name source name type session msg)
  have "conn_ok (snd (remote_send_name h source name type session msg))"
    using assms send_handle_conn [of "h\<lparr>ha_map := snd (hash_node (ha_map h) name)\<rparr>"]
    by (auto simp: remote_send_name_def Let_def split: prod.splits)
  then show ?thesis
    using Remote_Name by (simp add: harbor_mainloop_def conn_result_def case_prod_beta)
qed (use assms in \<open>auto simp: harbor_mainloop_def conn_result_def split: option.splits\<close>)

lemma run_conn: "conn_ok h \<Longrightarrow> conn_result (harbor_run alive h xs)"
proof (induction xs arbitrary: h)
  case Nil
  then show ?case
    by (simp add: conn_result_def)
next
  case (Cons x xs)
  show ?case
  proof (cases "harbor_mainloop alive h x")
    case (Inl f)
    then show ?thesis
      using mainloop_conn [OF Cons.prems, of alive x] by (simp add: conn_result_def)
  next
    case (Inr r)
    obtain evs h' where r: "r = (evs, h')"
      by fastforce
    have "conn_ok h'"
      using mainloop_conn [OF Cons.prems, of alive x] by (simp add: conn_result_def Inr r)
    from Cons.IH [OF this] show ?thesis
      by (simp add: Inr r conn_result_after)
  qed
qed

lemma init_conn: "harbor_init harbor_create args = Some h \<Longrightarrow> conn_ok h"
  by (auto simp: harbor_init_def conn_ok_def harbor_create_def no_slave_def Let_def split: prod.splits if_splits)

text \<open>C35: No sequence of inputs, from start on, makes an assert of the harbor service fail: \<open>dispatch_queue\<close> only runs
  with a socket.
\<close>

theorem harbor_asserts:
  assumes "harbor_init harbor_create args = Some h"
  shows "harbor_run alive h xs \<noteq> Inl Assert_Failed"
  using run_conn [OF init_conn [OF assms], of alive xs] by (auto simp: conn_result_def)

text \<open>C36: A node that is down never comes back, and nobody learns that messages for it are lost: in every state the service
  can reach, a slave that is down still has its socket. So the branch that answers with an error is dead, each message for the node
  is written to the closed socket, and a new connection with the node is refused.
\<close>

theorem harbor_down:
  assumes "harbor_init harbor_create args = Some h0" "harbor_run alive h0 xs = Inr (evs, h)" "sl_status (ha_s h i) = STATUS_DOWN"
  shows "sl_fd (ha_s h i) \<noteq> 0 \<and>
    (int i \<noteq> ha_id h \<and> handle_harbor destination = i \<longrightarrow> remote_send_handle h source destination type session msg =
      (send_remote (sl_fd (ha_s h i)) (remote_message_of source destination type session msg), h)) \<and>
    (0 < i \<and> i < REMOTE_MAX \<and> fd \<noteq> 0 \<longrightarrow> harbor_connect h cmd fd (int i) = Inr ([H_Error ''Harbor alreay exist''], h))"
proof -
  have "conn_ok h"
    using run_conn [OF init_conn [OF assms(1)], of alive xs] by (simp add: conn_result_def assms(2))
  then have fd: "sl_fd (ha_s h i) \<noteq> 0"
    using conn_ok_iff [of h i] assms(3) by simp
  then show ?thesis
    using assms(3) by (auto simp: remote_send_handle_def harbor_connect_def Let_def)
qed

section \<open>Names\<close>

lemma handle_harbor_less: "handle_harbor handle < REMOTE_MAX"
proof -
  have "unat (drop_bit 24 handle) = unat handle div 2 ^ 24"
    by (simp add: unat_drop_div)
  also have "\<dots> < 256"
  proof -
    have "unat handle < 2 ^ LENGTH(32)"
      by (rule unsigned_less)
    then show ?thesis
      by (simp add: less_mult_imp_div_less)
  qed
  finally show ?thesis
    by (simp add: handle_harbor_def HANDLE_REMOTE_SHIFT_def REMOTE_MAX_def)
qed

lemma harbor_connect_accept:
  assumes "sl_fd (ha_s h i) = 0" "qok (ha_s h i)" "0 < i" "i < REMOTE_MAX" "fd \<noteq> 0" "cmd \<noteq> of_char (CHR ''S'')"
  shows "harbor_connect h cmd fd (int i) = Inr ([H_Socket_Start fd, H_Socket_Send fd [word_of_int (ha_id h)]] @
      concat (map (send_remote fd) (qmsgs (ha_s h i))), put_slave h i ((ha_s h i)\<lparr>sl_fd := fd, sl_status := STATUS_HEADER, sl_queue := None\<rparr>))"
proof -
  have "dispatch_queue (put_slave h i ((ha_s h i)\<lparr>sl_fd := fd, sl_status := STATUS_HEADER\<rparr>)) i =
      Inr (concat (map (send_remote fd) (qmsgs (ha_s h i))), put_slave h i ((ha_s h i)\<lparr>sl_fd := fd, sl_status := STATUS_HEADER, sl_queue := None\<rparr>))"
    using dispatch_queue_msgs [of "put_slave h i ((ha_s h i)\<lparr>sl_fd := fd, sl_status := STATUS_HEADER\<rparr>)" i] assms(2,5)
    by (simp add: qmsgs_def qok_def)
  then show ?thesis
    using assms by (simp add: harbor_connect_def Let_def handshake_def after_def)
qed

text \<open>A message by a name that is not known yet waits in the node of the name; resolved early, it waits in the queue of the slave.\<close>

definition named_node :: "bytes \<Rightarrow> harbor_msg \<Rightarrow> keyvalue" where
  "named_node name m = \<lparr>kv_key = name, kv_hash = name_hash name, kv_value = 0, kv_queue = Some (push_queue_msg harbor_new_queue m)\<rparr>"

lemma name_waits:
  assumes "ha_map h0 = hash_new"
  shows "remote_send_name h0 source name type session msg = ([H_Send 0 (ha_slave h0) (ucast PTYPE_TEXT) 0 (text_bytes ''Q '' @ takeWhile (\<lambda>c. c \<noteq> 0) name)],
    h0\<lparr>ha_map := hash_new(bucket (name_hash name) := [named_node name (remote_message_of source 0 type session msg)])\<rparr>)"
proof -
  have "hash_search hash_new name = None"
    by (simp add: hash_search_def hash_new_def Let_def)
  then show ?thesis
    using assms by (simp add: remote_send_name_def hash_node_def hash_insert_def hash_new_def kv_at_def kv_put_def Let_def remote_message_of_def named_node_def)
qed

lemma find_named: "hash_node (hash_new(bucket (name_hash name) := [named_node name m])) name =
    ((bucket (name_hash name), 0), hash_new(bucket (name_hash name) := [named_node name m]))"
  by (simp add: hash_node_def hash_search_def Let_def strncmp_eq_def named_node_def)

lemma name_early:
  assumes "ha_map h1 = hash_new(bucket (name_hash name) := [named_node name m])" "ha_s h1 i = no_slave" "handle_harbor handle = i"
    "i \<noteq> handle_harbor (ha_slave h1)"
  obtains hm where "update_name h1 name handle = ([], put_slave (h1\<lparr>ha_map := hm\<rparr>) i (no_slave\<lparr>sl_queue := Some (push_queue_msg harbor_new_queue m)\<rparr>))"
proof
  let ?hm = "hash_new(bucket (name_hash name) := [(named_node name m)\<lparr>kv_value := handle, kv_queue := None\<rparr>])"
  show "update_name h1 name handle = ([], put_slave (h1\<lparr>ha_map := ?hm\<rparr>) i (no_slave\<lparr>sl_queue := Some (push_queue_msg harbor_new_queue m)\<rparr>))"
    using assms find_named [of name m]
    by (cases h1) (auto simp: update_name_def Let_def dispatch_name_queue_def kv_at_def kv_put_def no_slave_def put_slave_def named_node_def)
qed

lemma new_push: "hq_inv (push_queue_msg harbor_new_queue m)" "hq_content (push_queue_msg harbor_new_queue m) = [m]"
  using push_queue_msg_correct [OF hq_new(1)] hq_new(2) by simp_all

text \<open>C37: A name that is resolved while its node is connected gives a message the handle the name stands for. When it is resolved
  before the node is connected, the messages that waited for the name move to the queue of the node as they are, and what goes out
  when the connection comes has destination 0: the handle is only put in on the way to an open socket. So the other node delivers
  them to its handle 0.
\<close>

theorem harbor_name:
  assumes "ha_map h0 = hash_new" "\<And>j. ha_s h0 j = no_slave" "handle_harbor handle = i" "0 < i" "i \<noteq> handle_harbor (ha_slave h0)"
    and "fd \<noteq> 0" "cmd \<noteq> of_char (CHR ''S'')" "length msg + 12 < 2 ^ 32" "remote_send_name h0 source name type session msg = (evs1, h1)"
    and "update_name h1 name handle = (evs2, h2)" "harbor_connect h2 cmd fd (int i) = Inr (evs3, h3)"
    and "harbor_connect h1 cmd fd (int i) = Inr (evs4, h4)" "update_name h4 name handle = (evs5, h5)"
  shows "socket_bytes fd (evs1 @ evs4 @ evs5) = word_of_int (ha_id h0) # harbor_frame (remote_message_of source handle type session msg) \<and>
    socket_bytes fd (evs1 @ evs2 @ evs3) = word_of_int (ha_id h0) # harbor_frame (remote_message_of source 0 type session msg)"
proof -
  let ?b = "bucket (name_hash name)" and ?m = "remote_message_of source 0 type session msg"
  let ?q = "push_queue_msg harbor_new_queue ?m"
  have small: "length (frame_content (remote_message_of source d type session msg)) < 2 ^ 32" for d
    using assms(8) by (simp add: length_frame_content remote_message_of_def)
  have i: "i < REMOTE_MAX"
    using handle_harbor_less assms(3) by auto
  have h1: "h1 = h0\<lparr>ha_map := hash_new(?b := [named_node name ?m])\<rparr>" and e1: "socket_bytes fd evs1 = []"
    using name_waits [OF assms(1), of source name type session msg] assms(9) by auto
  obtain q' where d: "drain ?q = ([?m], q')"
    using drain_content [OF new_push(1)] new_push(2) by metis
  obtain hm where "update_name h1 name handle = ([], put_slave (h1\<lparr>ha_map := hm\<rparr>) i (no_slave\<lparr>sl_queue := Some ?q\<rparr>))"
    using assms(2,3,5) by (rule_tac name_early [of h1 name ?m i handle]) (simp_all add: h1)
  then have h2: "evs2 = []" "h2 = put_slave (h1\<lparr>ha_map := hm\<rparr>) i (no_slave\<lparr>sl_queue := Some ?q\<rparr>)"
    using assms(10) by simp_all
  have late: "socket_bytes fd evs3 = word_of_int (ha_id h0) # harbor_frame ?m"
    using assms(11) harbor_connect_accept [of h2 i fd cmd] h2(2) new_push assms(4,6,7) i send_remote_frame [OF small, of fd 0]
    by (auto simp: h1 qok_def qmsgs_def no_slave_def)
  have h4: "evs4 = [H_Socket_Start fd, H_Socket_Send fd [word_of_int (ha_id h0)]]"
    "h4 = put_slave h1 i (no_slave\<lparr>sl_fd := fd, sl_status := STATUS_HEADER, sl_queue := None\<rparr>)"
    using assms(12) harbor_connect_accept [of h1 i fd cmd] assms(2,4,6,7) i by (auto simp: h1 no_slave_def qok_def qmsgs_def)
  have "evs5 = send_remote fd (or_destination handle ?m)"
    using assms(3,6,13) find_named [of name ?m] d
    by (auto simp: h4 h1 update_name_def Let_def dispatch_name_queue_def kv_at_def kv_put_def no_slave_def named_node_def)
  moreover have "or_destination handle ?m = remote_message_of source handle type session msg"
    by (simp add: or_destination_def remote_message_of_def)
  ultimately have "socket_bytes fd evs5 = harbor_frame (remote_message_of source handle type session msg)"
    using send_remote_frame [OF small, of fd handle] by simp
  then show ?thesis
    using late e1 h2(1) h4(1) by simp
qed

section \<open>Instances\<close>

lemma init_example: "harbor_init harbor_create ''1 5'' = Some (harbor_create\<lparr>ha_id := 1, ha_slave := 5\<rparr>)"
proof -
  have "strtol10 ''1 5'' = (1, '' 5'')" "strtol10 '' 5'' = (5, [])"
    by code_simp+
  then show ?thesis
    by (simp add: harbor_init_def Let_def)
qed

lemma down_example:
  "\<exists>evs h. harbor_run (\<lambda>_. True) (harbor_create\<lparr>ha_id := 1, ha_slave := 5\<rparr>)
      [Harbor_Text (text_bytes ''S 5 2'') 0, Socket_Data 5 [3]] = Inr (evs, h) \<and> sl_status (ha_s h 2) = STATUS_DOWN \<and>
      sl_fd (ha_s h 2) = 5 \<and> ha_id h = 1"
proof -
  let ?r = "harbor_run (\<lambda>_. True) (harbor_create\<lparr>ha_id := 1, ha_slave := 5\<rparr>) [Harbor_Text (text_bytes ''S 5 2'') 0, Socket_Data 5 [3]]"
  have "(case ?r of Inr (evs, h) \<Rightarrow> sl_status (ha_s h 2) = STATUS_DOWN \<and> sl_fd (ha_s h 2) = 5 \<and> ha_id h = 1 | Inl _ \<Rightarrow> False)"
    by code_simp
  then show ?thesis
    by (auto split: sum.splits)
qed

lemma harbor_asserts_witness:
  "\<exists>h. harbor_init harbor_create ''1 5'' = Some h \<and>
    harbor_run (\<lambda>_. True) h [Harbor_Text (text_bytes ''S 5 2'') 0, Socket_Data 5 [3]] \<noteq> Inl Assert_Failed"
  using init_example harbor_asserts [OF init_example] by blast

lemma harbor_down_witness:
  "\<exists>h0 evs h. harbor_init harbor_create ''1 5'' = Some h0 \<and>
    harbor_run (\<lambda>_. True) h0 [Harbor_Text (text_bytes ''S 5 2'') 0, Socket_Data 5 [3]] = Inr (evs, h) \<and>
    sl_status (ha_s h 2) = STATUS_DOWN \<and>
    remote_send_handle h 0x01000003 0x02000004 1 7 [65] = (send_remote 5 (remote_message_of 0x01000003 0x02000004 1 7 [65]), h) \<and>
    harbor_connect h (of_char (CHR ''S'')) 9 2 = Inr ([H_Error ''Harbor alreay exist''], h)"
proof -
  obtain evs h where h: "harbor_run (\<lambda>_. True) (harbor_create\<lparr>ha_id := 1, ha_slave := 5\<rparr>)
      [Harbor_Text (text_bytes ''S 5 2'') 0, Socket_Data 5 [3]] = Inr (evs, h)" "sl_status (ha_s h 2) = STATUS_DOWN"
    "sl_fd (ha_s h 2) = 5" "ha_id h = 1"
    using down_example by blast
  have d: "handle_harbor 0x02000004 = 2"
    by (simp add: handle_harbor_def HANDLE_REMOTE_SHIFT_def unat_drop_div)
  note f = harbor_down [OF init_example h(1,2)]
  show ?thesis
    using init_example h d f [where destination = "0x02000004" and source = "0x01000003" and type = "1" and session = "7" and msg = "[65]" and fd = "9" and cmd = "of_char (CHR ''S'')"] by (auto simp: REMOTE_MAX_def)
qed

lemma harbor_order_witness:
  "\<exists>h. harbor_history (\<lambda>_. True) 2 (harbor_create\<lparr>ha_id := 1\<rparr>)
      [(0x01000003, 0x02000004, 1, 7, [65])]
      [H_Socket_Start 5, H_Socket_Send 5 [1], H_Socket_Send 5 (harbor_frame (routed (0x01000003, 0x02000004, 1, 7, [65])))] h \<and>
    sl_status (ha_s h 2) = STATUS_HEADER \<and>
    socket_bytes (sl_fd (ha_s h 2)) [H_Socket_Start 5, H_Socket_Send 5 [1], H_Socket_Send 5 (harbor_frame (routed (0x01000003, 0x02000004, 1, 7, [65])))] =
      1 # concat (map harbor_frame (map routed [(0x01000003, 0x02000004, 1, 7, [65])]))"
proof -
  let ?m = "(0x01000003, 0x02000004, 1, 7, [65]) :: sent_message" and ?h0 = "harbor_create\<lparr>ha_id := 1\<rparr>"
  let ?evs = "[H_Socket_Start 5, H_Socket_Send 5 [1], H_Socket_Send 5 (harbor_frame (routed ?m))]"
  define q where "q = push_queue_msg harbor_new_queue (routed ?m)"
  define h1 where "h1 = put_slave ?h0 2 (no_slave\<lparr>sl_queue := Some q\<rparr>)"
  define h2 where "h2 = put_slave h1 2 ((ha_s h1 2)\<lparr>sl_fd := 5, sl_status := STATUS_HEADER, sl_queue := None\<rparr>)"
  have d: "handle_harbor 0x02000004 = 2"
    by (simp add: handle_harbor_def HANDLE_REMOTE_SHIFT_def unat_drop_div)
  have m: "length (frame_content (routed ?m)) < 2 ^ 32"
    by (simp add: length_frame_content routed_def remote_message_of_def)
  have q: "hq_inv q" "hq_content q = [routed ?m]"
    unfolding q_def using push_queue_msg_correct [OF hq_new(1)] hq_new(2) by simp_all
  have s0: "harbor_history (\<lambda>_. True) 2 ?h0 [] [] ?h0"
    by (rule history_start) (simp add: harbor_create_def)
  have "harbor_mainloop (\<lambda>_. True) ?h0 (to_remote ?m) = Inr ([], h1)"
    by (simp add: to_remote_def harbor_mainloop_def remote_send_handle_def Let_def d h1_def q_def routed_def harbor_create_def no_slave_def)
  from history_send [OF s0 m this] have s1: "harbor_history (\<lambda>_. True) 2 ?h0 [?m] [] h1"
    by (simp add: target_def d)
  have "harbor_connect h1 0 5 2 = Inr (?evs, h2)"
    using harbor_connect_accept [of h1 2 5 0] q send_remote_frame [OF m, of 5]
    by (simp add: h1_def h2_def qok_def qmsgs_def no_slave_def REMOTE_MAX_def harbor_create_def)
  from history_connect [OF s1 _ this] have s2: "harbor_history (\<lambda>_. True) 2 ?h0 [?m] ?evs h2"
    by (simp add: h1_def no_slave_def harbor_create_def)
  have "sl_status (ha_s h2 2) = STATUS_HEADER"
    by (simp add: h2_def)
  then show ?thesis
    using harbor_order [OF s2] s2 by (intro exI [of _ h2]) (simp add: harbor_create_def)
qed

lemma harbor_name_witness:
  "\<exists>evs1 h1 evs2 h2 evs3 h3.
    remote_send_name (harbor_create\<lparr>ha_id := 1, ha_slave := 0x01000001\<rparr>) 0x01000003 (text_bytes ''DB'') 1 7 [65] = (evs1, h1) \<and>
    update_name h1 (text_bytes ''DB'') 0x02000004 = (evs2, h2) \<and> harbor_connect h2 0 5 2 = Inr (evs3, h3) \<and>
    socket_bytes 5 (evs1 @ evs2 @ evs3) = 1 # harbor_frame (remote_message_of 0x01000003 0 1 7 [65])"
proof -
  let ?h0 = "harbor_create\<lparr>ha_id := 1, ha_slave := 0x01000001\<rparr>" and ?name = "text_bytes ''DB''"
  let ?m = "remote_message_of 0x01000003 0 1 7 [65]"
  let ?r1 = "remote_send_name ?h0 0x01000003 ?name 1 7 [65]"
  obtain evs1 h1 where r1: "?r1 = (evs1, h1)"
    by fastforce
  have d: "handle_harbor 0x02000004 = 2" "handle_harbor 0x01000001 = 1"
    by (simp_all add: handle_harbor_def HANDLE_REMOTE_SHIFT_def unat_drop_div)
  have h1: "h1 = ?h0\<lparr>ha_map := hash_new(bucket (name_hash ?name) := [named_node ?name ?m])\<rparr>"
    using name_waits [of ?h0 "0x01000003" ?name 1 7 "[65]"] r1 by (simp add: harbor_create_def)
  obtain hm where u: "update_name h1 ?name 0x02000004 = ([], put_slave (h1\<lparr>ha_map := hm\<rparr>) 2 (no_slave\<lparr>sl_queue := Some (push_queue_msg harbor_new_queue ?m)\<rparr>))"
    using d by (rule_tac name_early [of h1 ?name ?m 2 "0x02000004"]) (simp_all add: h1 harbor_create_def)
  let ?h2 = "put_slave (h1\<lparr>ha_map := hm\<rparr>) 2 (no_slave\<lparr>sl_queue := Some (push_queue_msg harbor_new_queue ?m)\<rparr>)"
  obtain evs3 h3 where c: "harbor_connect ?h2 0 5 (int 2) = Inr (evs3, h3)"
    using harbor_connect_accept [of ?h2 2 5 0] new_push by (simp add: no_slave_def qok_def REMOTE_MAX_def)
  obtain evs4 h4 where c4: "harbor_connect h1 0 5 (int 2) = Inr (evs4, h4)"
    using harbor_connect_accept [of h1 2 5 0] by (simp add: h1 harbor_create_def no_slave_def qok_def REMOTE_MAX_def)
  obtain evs5 h5 where u4: "update_name h4 ?name 0x02000004 = (evs5, h5)"
    by fastforce
  have "socket_bytes 5 (evs1 @ [] @ evs3) = word_of_int (ha_id ?h0) # harbor_frame ?m"
    using harbor_name [OF _ _ d(1) _ _ _ _ _ r1 u c c4 u4] d(2) by (simp add: harbor_create_def)
  then show ?thesis
    using r1 u c by (intro exI [of _ evs1] exI [of _ h1] exI [of _ "[]"] exI [of _ ?h2] exI [of _ evs3] exI [of _ h3]) simp
qed

end
