(* ===== verification/Sha1.thy ===== *)
theory Sha1
  imports Prelude
begin

unbundle bit_operations_syntax

text \<open>
  \<open>lsha1.c\<close>: the hash of a text and the keyed hash of a text, with the rounds on rotated variables and the schedule in a window of
  16 words as the code has them, compared with the definitions of FIPS 180-4 and FIPS 198-1. The machine is little-endian and a
  \<open>size_t\<close> has 64 bits. Wiping of local variables has no effect here.
\<close>

section \<open>The code\<close>

record sha1_ctx =
  sha_state :: "u32 list"
  sha_count0 :: u32
  sha_count1 :: u32
  sha_buffer :: bytes

definition SHA1_DIGEST_SIZE :: nat where "SHA1_DIGEST_SIZE = 20"
definition BLOCKSIZE :: nat where "BLOCKSIZE = 64"

definition rol :: "u32 \<Rightarrow> nat \<Rightarrow> u32" where
  "rol v bits = push_bit bits v OR drop_bit (32 - bits) v"

definition blk0 :: "nat \<Rightarrow> u32 list \<Rightarrow> u32 \<times> u32 list" where
  "blk0 i l = (let b = (rol (l ! i) 24 AND 0xFF00FF00) OR (rol (l ! i) 8 AND 0x00FF00FF) in (b, l[i := b]))"

definition blk :: "nat \<Rightarrow> u32 list \<Rightarrow> u32 \<times> u32 list" where
  "blk i l = (let b = rol (l ! ((i + 13) mod 16) XOR l ! ((i + 8) mod 16) XOR l ! ((i + 2) mod 16) XOR l ! (i mod 16)) 1 in (b, l[i mod 16 := b]))"

text \<open>
  The calls \<open>R0(a,b,c,d,e, 0); R0(e,a,b,c,d, 1); \<dots>\<close>: the place in \<open>a,b,c,d,e\<close> of the \<open>k\<close>-th argument of step \<open>i\<close>, and the step.
\<close>

definition sha_var :: "nat \<Rightarrow> nat \<Rightarrow> nat" where
  "sha_var i k = (k + 4 * i) mod 5"

definition sha_round :: "nat \<Rightarrow> u32 list \<times> u32 list \<Rightarrow> u32 list \<times> u32 list" where
  "sha_round i vl = (case vl of (vars, l) \<Rightarrow>
     let v = vars ! sha_var i 0; w = vars ! sha_var i 1; x = vars ! sha_var i 2; y = vars ! sha_var i 3; z = vars ! sha_var i 4;
       (b, l) = (if i < 16 then blk0 i l else blk i l);
       z = z + (if i < 20 then ((w AND (x XOR y)) XOR y) + b + 0x5A827999
         else if i < 40 then (w XOR x XOR y) + b + 0x6ED9EBA1
         else if i < 60 then (((w OR x) AND y) OR (w AND x)) + b + 0x8F1BBCDC
         else (w XOR x XOR y) + b + 0xCA62C1D6) + rol v 5
     in (vars[sha_var i 4 := z, sha_var i 1 := rol w 30], l))"

definition SHA1_Transform :: "u32 list \<Rightarrow> bytes \<Rightarrow> u32 list" where
  "SHA1_Transform state buffer = (let l = map (\<lambda>i. le_word (take 4 (drop (4 * i) buffer))) [0..<16] in
     map2 (+) state (fst (fold sha_round [0..<80] (state, l))))"

definition sat_SHA1_Init :: sha1_ctx where
  "sat_SHA1_Init = \<lparr>sha_state = [0x67452301, 0xEFCDAB89, 0x98BADCFE, 0x10325476, 0xC3D2E1F0], sha_count0 = 0, sha_count1 = 0,
     sha_buffer = replicate 64 0\<rparr>"

definition buffer_put :: "bytes \<Rightarrow> nat \<Rightarrow> bytes \<Rightarrow> bytes" where
  "buffer_put buf j bs = take j buf @ bs @ drop (j + length bs) buf"

text \<open>The loop over the whole blocks of the data: the state and the data that is left.\<close>

function sha_blocks :: "u32 list \<Rightarrow> bytes \<Rightarrow> u32 list \<times> bytes" where
  "sha_blocks state data = (if 63 < length data then sha_blocks (SHA1_Transform state (take 64 data)) (drop 64 data) else (state, data))"
  by pat_completeness auto

termination
  by (relation "measure (length \<circ> snd)") auto

declare sha_blocks.simps [simp del]

definition sat_SHA1_Update :: "sha1_ctx \<Rightarrow> bytes \<Rightarrow> sha1_ctx" where
  "sat_SHA1_Update ctx data = (let
     len = word_of_nat (length data) :: u64;
     j = unat (drop_bit 3 (sha_count0 ctx) AND 63);
     c0 = sha_count0 ctx + ucast (push_bit 3 len);
     c1 = (if (ucast c0 :: u64) < push_bit 3 len then sha_count1 ctx + 1 else sha_count1 ctx) + ucast (drop_bit 29 len);
     ctx = ctx\<lparr>sha_count0 := c0, sha_count1 := c1\<rparr> in
     if j + length data > 63 then
       let buf = buffer_put (sha_buffer ctx) j (take (64 - j) data);
         (state, rest) = sha_blocks (SHA1_Transform (sha_state ctx) buf) (drop (64 - j) data) in
       ctx\<lparr>sha_state := state, sha_buffer := buffer_put buf 0 rest\<rparr>
     else ctx\<lparr>sha_buffer := buffer_put (sha_buffer ctx) j data\<rparr>)"

definition final_count :: "sha1_ctx \<Rightarrow> bytes" where
  "final_count ctx = map (\<lambda>i. ucast (drop_bit ((3 - i mod 4) * 8) (if i \<ge> 4 then sha_count0 ctx else sha_count1 ctx)) AND 255) [0..<8]"

text \<open>The padding loop: \<open>count[0]\<close> grows by 8 each time, so the place in the block grows by 1.\<close>

definition block_pos :: "u32 \<Rightarrow> nat" where
  "block_pos c = unat c div 8 mod 64"

lemma and_504: "(c :: u32) AND 504 = push_bit 3 (take_bit 6 (drop_bit 3 c))"
proof -
  have "(504 :: u32) = push_bit 3 (mask 6)"
    by (simp add: mask_eq_exp_minus_1 push_bit_eq_mult)
  then show ?thesis
    by (simp add: bit_eq_iff bit_simps) auto
qed

lemma unat_and_504: "unat ((c :: u32) AND 504) = 8 * block_pos c"
proof -
  have "unat (take_bit 6 (drop_bit 3 c)) = unat c div 8 mod 64"
    by (simp add: unsigned_take_bit_eq take_bit_nat_def unat_drop_div)
  moreover from this have "unat (push_bit 3 (take_bit 6 (drop_bit 3 c))) = 8 * (unat c div 8 mod 64)"
    by (simp add: unsigned_push_bit_eq push_bit_nat_def take_bit_nat_def mult.commute)
  ultimately show ?thesis
    by (simp add: and_504 block_pos_def)
qed

lemma at_padded_end: "(c :: u32) AND 504 = 448 \<longleftrightarrow> block_pos c = 56"
proof -
  have "c AND 504 = 448 \<longleftrightarrow> unat (c AND 504) = unat (448 :: u32)"
    by (rule word_unat_eq_iff)
  then show ?thesis
    by (simp add: unat_and_504)
qed

lemma block_pos_next: "block_pos (c + 8) = (block_pos c + 1) mod 64"
proof -
  have "unat (c + 8) div 8 = (unat c div 8 + 1) mod 2 ^ 29"
  proof -
    have "unat (c + 8) = (unat c + 8) mod 2 ^ 32"
      by (simp add: unat_word_ariths)
    also have "\<dots> div 8 = (unat c + 8) div 8 mod 2 ^ 29"
      using div_mult2_eq [of "unat c + 8" 8] mod_mult2_eq [of "unat c + 8" 8 "2 ^ 29"] by simp
    also have "(unat c + 8) div 8 = unat c div 8 + 1"
      by simp
    finally show ?thesis .
  qed
  then show ?thesis
    by (simp add: block_pos_def mod_mod_cancel mod_Suc_eq)
qed

lemma update_byte_count: "sha_count0 (sat_SHA1_Update ctx [b]) = sha_count0 ctx + 8"
  by (simp add: sat_SHA1_Update_def Let_def split: prod.splits)

lemma pad_measure:
  assumes "q \<noteq> 56" "q < (64 :: nat)"
  shows "(120 - (q + 1) mod 64) mod 64 < (120 - q) mod 64"
proof (cases "q = 63")
  case False
  then have "(q + 1) mod 64 = q + 1"
    using assms by simp
  then show ?thesis
    using assms False by (cases "q < 56") (auto simp: mod_if)
qed simp

function sha_pad :: "sha1_ctx \<Rightarrow> sha1_ctx" where
  "sha_pad ctx = (if sha_count0 ctx AND 504 \<noteq> 448 then sha_pad (sat_SHA1_Update ctx [0]) else ctx)"
  by pat_completeness auto

termination
proof (relation "measure (\<lambda>ctx. (120 - block_pos (sha_count0 ctx)) mod 64)")
  fix ctx :: sha1_ctx
  assume "sha_count0 ctx AND 504 \<noteq> 448"
  then have "block_pos (sha_count0 ctx) \<noteq> 56" "block_pos (sha_count0 ctx) < 64"
    by (simp_all add: at_padded_end block_pos_def)
  then show "(sat_SHA1_Update ctx [0], ctx) \<in> measure (\<lambda>ctx. (120 - block_pos (sha_count0 ctx)) mod 64)"
    using pad_measure by (simp add: update_byte_count block_pos_next)
qed simp

declare sha_pad.simps [simp del]

definition sat_SHA1_Final :: "sha1_ctx \<Rightarrow> bytes" where
  "sat_SHA1_Final ctx = (let finalcount = final_count ctx;
     ctx = sat_SHA1_Update (sha_pad (sat_SHA1_Update ctx [128])) finalcount in
     map (\<lambda>i. ucast (drop_bit ((3 - i mod 4) * 8) (sha_state ctx ! (i div 4))) AND 255) [0..<SHA1_DIGEST_SIZE])"

definition lsha1 :: "bytes \<Rightarrow> bytes" where
  "lsha1 buffer = sat_SHA1_Final (sat_SHA1_Update sat_SHA1_Init buffer)"

definition xor_key :: "bytes \<Rightarrow> u32 \<Rightarrow> bytes" where
  "xor_key key x = concat (map (\<lambda>i. le_bytes 4 ((le_word (take 4 (drop (4 * i) key)) :: u32) XOR x)) [0..<BLOCKSIZE div 4])"

definition lhmac_sha1 :: "bytes \<Rightarrow> bytes \<Rightarrow> bytes" where
  "lhmac_sha1 key text = (let
     rkey = (if length key > BLOCKSIZE then buffer_put (replicate BLOCKSIZE 0) 0 (sat_SHA1_Final (sat_SHA1_Update sat_SHA1_Init key))
       else buffer_put (replicate BLOCKSIZE 0) 0 key);
     rkey = xor_key rkey 0x5c5c5c5c;
     ctx1 = sat_SHA1_Update sat_SHA1_Init rkey;
     rkey = xor_key rkey (0x5c5c5c5c XOR 0x36363636);
     ctx2 = sat_SHA1_Update (sat_SHA1_Update sat_SHA1_Init rkey) text;
     digest2 = sat_SHA1_Final ctx2 in
     sat_SHA1_Final (sat_SHA1_Update ctx1 digest2))"

section \<open>The standard\<close>

definition ROTL :: "nat \<Rightarrow> u32 \<Rightarrow> u32" where
  "ROTL n x = push_bit n x OR drop_bit (32 - n) x"

definition sha1_f :: "nat \<Rightarrow> u32 \<Rightarrow> u32 \<Rightarrow> u32 \<Rightarrow> u32" where
  "sha1_f t x y z = (if t < 20 then (x AND y) XOR (NOT x AND z) else if t < 40 then x XOR y XOR z
     else if t < 60 then (x AND y) XOR (x AND z) XOR (y AND z) else x XOR y XOR z)"

definition sha1_K :: "nat \<Rightarrow> u32" where
  "sha1_K t = (if t < 20 then 0x5A827999 else if t < 40 then 0x6ED9EBA1 else if t < 60 then 0x8F1BBCDC else 0xCA62C1D6)"

text \<open>The message schedule of a block of 64 bytes.\<close>

fun sha1_W :: "bytes \<Rightarrow> nat \<Rightarrow> u32" where
  "sha1_W M t = (if t < 16 then be_word (take 4 (drop (4 * t) M))
     else ROTL 1 (sha1_W M (t - 3) XOR sha1_W M (t - 8) XOR sha1_W M (t - 14) XOR sha1_W M (t - 16)))"

declare sha1_W.simps [simp del]

fun sha1_steps :: "bytes \<Rightarrow> nat \<Rightarrow> u32 \<times> u32 \<times> u32 \<times> u32 \<times> u32 \<Rightarrow> u32 \<times> u32 \<times> u32 \<times> u32 \<times> u32" where
  "sha1_steps M 0 h = h"
| "sha1_steps M (Suc t) h = (case sha1_steps M t h of (a, b, c, d, e) \<Rightarrow>
     (ROTL 5 a + sha1_f t b c d + e + sha1_K t + sha1_W M t, a, ROTL 30 b, c, d))"

definition sha1_compress :: "u32 list \<Rightarrow> bytes \<Rightarrow> u32 list" where
  "sha1_compress H M = (case sha1_steps M 80 (H ! 0, H ! 1, H ! 2, H ! 3, H ! 4) of (a, b, c, d, e) \<Rightarrow>
     [a + H ! 0, b + H ! 1, c + H ! 2, d + H ! 3, e + H ! 4])"

text \<open>The padded message, with the number the last eight bytes hold, and the digest of whole blocks.\<close>

definition sha1_padded :: "bytes \<Rightarrow> u64 \<Rightarrow> bytes" where
  "sha1_padded msg bits = msg @ [0x80] @ replicate ((119 - length msg mod 64) mod 64) 0 @ be_bytes 8 bits"

function sha1_chain :: "u32 list \<Rightarrow> bytes \<Rightarrow> u32 list" where
  "sha1_chain H M = (if length M < 64 then H else sha1_chain (sha1_compress H (take 64 M)) (drop 64 M))"
  by pat_completeness auto

termination
  by (relation "measure (length \<circ> snd)") auto

declare sha1_chain.simps [simp del]

definition sha1_H0 :: "u32 list" where
  "sha1_H0 = [0x67452301, 0xEFCDAB89, 0x98BADCFE, 0x10325476, 0xC3D2E1F0]"

definition sha1_digest :: "bytes \<Rightarrow> bytes" where
  "sha1_digest M = concat (map (be_bytes 4) (sha1_chain sha1_H0 M))"

definition sha1_standard :: "bytes \<Rightarrow> bytes" where
  "sha1_standard msg = sha1_digest (sha1_padded msg (word_of_nat (8 * length msg)))"

definition hmac_standard :: "bytes \<Rightarrow> bytes \<Rightarrow> bytes" where
  "hmac_standard key text = (let
     K0 = (if length key \<le> 64 then key @ replicate (64 - length key) 0 else sha1_standard key @ replicate 44 0) in
     sha1_standard (map (\<lambda>b. b XOR 0x5c) K0 @ sha1_standard (map (\<lambda>b. b XOR 0x36) K0 @ text)))"

section \<open>One block\<close>

lemma rol_ROTL: "rol v n = ROTL n v"
  by (simp add: rol_def ROTL_def)

text \<open>The expansion of a word of the block turns it around.\<close>

lemma bit_rol: "n < 32 \<Longrightarrow> i < 32 \<Longrightarrow> bit (rol v n) i \<longleftrightarrow> bit v (if n \<le> i then i - n else 32 + i - n)"
  by (auto simp: rol_def bit_simps dest: bit_imp_le_length)

lemma bit_swap_masks:
  "i < 32 \<Longrightarrow> bit (0xFF00FF00 :: u32) i \<longleftrightarrow> 8 \<le> i \<and> i < 16 \<or> 24 \<le> i"
  "i < 32 \<Longrightarrow> bit (0x00FF00FF :: u32) i \<longleftrightarrow> i < 8 \<or> 16 \<le> i \<and> i < 24"
proof -
  have e: "(0xFF00FF00 :: u32) = push_bit 8 (mask 8) OR push_bit 24 (mask 8)" "(0x00FF00FF :: u32) = mask 8 OR push_bit 16 (mask 8)"
    by (simp_all add: mask_eq_exp_minus_1 push_bit_eq_mult)
  show "i < 32 \<Longrightarrow> bit (0xFF00FF00 :: u32) i \<longleftrightarrow> 8 \<le> i \<and> i < 16 \<or> 24 \<le> i"
    "i < 32 \<Longrightarrow> bit (0x00FF00FF :: u32) i \<longleftrightarrow> i < 8 \<or> 16 \<le> i \<and> i < 24"
    unfolding e by (auto simp: bit_or_iff bit_push_bit_iff bit_mask_iff)
qed

lemma blk0_word:
  assumes "length b = 4"
  shows "(rol (le_word b) 24 AND 0xFF00FF00) OR (rol (le_word b) 8 AND 0x00FF00FF) = be_word b"
proof -
  define p q where pq: "p = (0xFF00FF00 :: u32)" "q = (0x00FF00FF :: u32)"
  have m: "bit p i \<longleftrightarrow> 8 \<le> i \<and> i < 16 \<or> 24 \<le> i" "bit q i \<longleftrightarrow> i < 8 \<or> 16 \<le> i \<and> i < 24" if "i < 32" for i
    using bit_swap_masks [OF that] by (simp_all only: pq)
  obtain b0 b1 b2 b3 where b: "b = [b0, b1, b2, b3]"
    using assms by (auto simp: length_Suc_conv numeral_eq_Suc)
  have l: "bit (le_word b :: u32) k \<longleftrightarrow> bit ([b0, b1, b2, b3] ! (k div 8)) (k mod 8)"
    "bit (be_word b :: u32) k \<longleftrightarrow> bit ([b3, b2, b1, b0] ! (k div 8)) (k mod 8)" if "k < 32" for k
    using that less_mult_imp_div_less [of k 4 8] bit_le_word [of b k, where 'a = 32] bit_le_word [of "rev b" k, where 'a = 32] assms
    by (simp_all only: be_word_def) (simp_all add: b del: le_word.simps)
  have "bit ((rol (le_word b) 24 AND p) OR (rol (le_word b) 8 AND q)) i \<longleftrightarrow> bit (be_word b :: u32) i" if "i < LENGTH(32)" for i
  proof -
    have "\<exists>k < 8. i = 0 + k \<or> i = 8 + k \<or> i = 16 + k \<or> i = 24 + k"
    proof -
      define d k where dk: "d = i div 8" "k = i mod 8"
      have "d < 4"
        using that by (simp add: less_mult_imp_div_less dk)
      then have "d = 0 \<or> d = 1 \<or> d = 2 \<or> d = 3"
        by linarith
      moreover have "i = 8 * d + k" "k < 8"
        unfolding dk by simp_all
      ultimately show ?thesis
        by (intro exI [of _ k]) auto
    qed
    then obtain k where "k < 8" "i = 0 + k \<or> i = 8 + k \<or> i = 16 + k \<or> i = 24 + k"
      by blast
    moreover have "(24 + k) mod 8 = k" "(16 + k) mod 8 = k"
    proof -
      have "24 + k = k + 3 * 8" "16 + k = k + 2 * 8"
        by simp_all
      then show "(24 + k) mod 8 = k" "(16 + k) mod 8 = k"
        using \<open>k < 8\<close> by (simp_all only: mod_mult_self1 mod_less)
    qed
    ultimately show ?thesis
      by (elim disjE; hypsubst) (simp_all add: bit_or_iff bit_and_iff m bit_rol l)
  qed
  then show ?thesis
    unfolding pq [symmetric] by (intro bit_word_eqI) blast
qed

text \<open>The three functions, as the code writes them.\<close>

lemma choose_eq: "(w AND (x XOR y)) XOR y = (w AND x) XOR (NOT w AND (y :: u32))"
  by (rule bit_word_eqI) (auto simp: bit_simps)

lemma majority_eq: "((w OR x) AND y) OR (w AND x) = (w AND x) XOR (w AND y) XOR (x AND (y :: u32))"
  by (rule bit_word_eqI) (auto simp: bit_simps)

text \<open>The places of the variables: distinct, and one further in each step.\<close>

lemma sha_var_less [simp]: "sha_var i k < 5"
  by (simp add: sha_var_def)

lemma sha_var_Suc: "sha_var (Suc i) 0 = sha_var i 4" "sha_var (Suc i) (Suc k) = sha_var i k"
proof -
  show "sha_var (Suc i) 0 = sha_var i 4"
    by (simp add: sha_var_def)
  have "Suc k + 4 * Suc i = (k + 4 * i) + 5"
    by simp
  then show "sha_var (Suc i) (Suc k) = sha_var i k"
    unfolding sha_var_def by (metis mod_add_self2)
qed

lemma sha_var_next: "sha_var (Suc i) 1 = sha_var i 0" "sha_var (Suc i) 2 = sha_var i 1" "sha_var (Suc i) 3 = sha_var i 2"
  "sha_var (Suc i) 4 = sha_var i 3"
  using sha_var_Suc(2) [of i 0] sha_var_Suc(2) [of i 1] sha_var_Suc(2) [of i 2] sha_var_Suc(2) [of i 3] by (simp_all add: numeral_eq_Suc)

lemma sha_var_inj: "k < 5 \<Longrightarrow> k' < 5 \<Longrightarrow> sha_var i k = sha_var i k' \<longleftrightarrow> k = k'"
proof
  assume k: "k < 5" "k' < 5" "sha_var i k = sha_var i k'"
  from k(3) have "(k + 4 * i + i) mod 5 = (k' + 4 * i + i) mod 5"
    unfolding sha_var_def by (rule mod_add_cong [OF _ refl])
  moreover have "k + 4 * i + i = k + i * 5" "k' + 4 * i + i = k' + i * 5"
    by simp_all
  ultimately show "k = k'"
    using k by (simp only: mod_mult_self1 mod_less)
qed simp

definition args :: "nat \<Rightarrow> u32 list \<Rightarrow> u32 \<times> u32 \<times> u32 \<times> u32 \<times> u32" where
  "args i vars = (vars ! sha_var i 0, vars ! sha_var i 1, vars ! sha_var i 2, vars ! sha_var i 3, vars ! sha_var i 4)"

text \<open>The window of the schedule before step \<open>i\<close>: the last 16 words, and those of the block that are not expanded yet.\<close>

definition window :: "bytes \<Rightarrow> nat \<Rightarrow> u32 list \<Rightarrow> bool" where
  "window M i l \<longleftrightarrow> length l = 16 \<and> (\<forall>t. t < i \<longrightarrow> i \<le> t + 16 \<longrightarrow> l ! (t mod 16) = sha1_W M t) \<and>
     (\<forall>t. i \<le> t \<longrightarrow> t < 16 \<longrightarrow> l ! t = le_word (take 4 (drop (4 * t) M)))"

lemma window_update:
  assumes "window M i l" "b = sha1_W M i"
  shows "window M (Suc i) (l[i mod 16 := b])"
proof -
  have "l[i mod 16 := b] ! (t mod 16) = sha1_W M t" if "t < Suc i" "Suc i \<le> t + 16" for t
  proof (cases "t = i")
    case True
    then show ?thesis
      using assms by (simp add: window_def)
  next
    case False
    then have "t mod 16 \<noteq> i mod 16"
      using that mod_eq_dvd_iff_nat [of t i 16] dvd_imp_le [of 16 "i - t"] by auto
    then show ?thesis
      using assms that False by (simp add: window_def)
  qed
  then show ?thesis
    using assms by (simp add: window_def)
qed

lemma window_word:
  assumes "window M i l" "length M = 64"
  shows "(if i < 16 then blk0 i l else blk i l) = (sha1_W M i, l[i mod 16 := sha1_W M i])"
proof (cases "i < 16")
  case True
  then have "length (take 4 (drop (4 * i) M)) = 4"
    using assms(2) by simp
  then show ?thesis
    using True assms(1) by (simp add: blk0_def Let_def window_def blk0_word sha1_W.simps [of M i])
next
  case False
  then have i: "i - 3 + 16 = i + 13" "i - 8 + 16 = i + 8" "i - 14 + 16 = i + 2" "i - 16 + 16 = i"
    by simp_all
  have w: "l ! (t mod 16) = sha1_W M t" if "t < i" "i \<le> t + 16" for t
    using assms(1) that by (simp add: window_def)
  have "l ! ((i + 13) mod 16) = sha1_W M (i - 3)" "l ! ((i + 8) mod 16) = sha1_W M (i - 8)"
    "l ! ((i + 2) mod 16) = sha1_W M (i - 14)" "l ! (i mod 16) = sha1_W M (i - 16)"
  proof -
    have m: "(i + 13) mod 16 = (i - 3) mod 16" "(i + 8) mod 16 = (i - 8) mod 16" "(i + 2) mod 16 = (i - 14) mod 16" "i mod 16 = (i - 16) mod 16"
      using mod_add_self2 [of "i - 3" 16] mod_add_self2 [of "i - 8" 16] mod_add_self2 [of "i - 14" 16] mod_add_self2 [of "i - 16" 16]
      unfolding i by blast+
    show "l ! ((i + 13) mod 16) = sha1_W M (i - 3)" "l ! ((i + 8) mod 16) = sha1_W M (i - 8)"
      "l ! ((i + 2) mod 16) = sha1_W M (i - 14)" "l ! (i mod 16) = sha1_W M (i - 16)"
      unfolding m by (rule w; use False in linarith)+
  qed
  then show ?thesis
    using False by (simp add: blk_def Let_def rol_ROTL sha1_W.simps [of M i])
qed

lemma sha_round_step:
  assumes "window M i l" "length M = 64" "length vars = 5" "args i vars = (a, b, c, d, e)"
  shows "\<exists>vars' l'. sha_round i (vars, l) = (vars', l') \<and> window M (Suc i) l' \<and> length vars' = 5 \<and>
    args (Suc i) vars' = (ROTL 5 a + sha1_f i b c d + e + sha1_K i + sha1_W M i, a, ROTL 30 b, c, d)"
proof -
  define z where "z = ROTL 5 a + sha1_f i b c d + e + sha1_K i + sha1_W M i"
  define w where "w = ROTL 30 b"
  have v: "vars ! sha_var i 0 = a" "vars ! sha_var i 1 = b" "vars ! sha_var i 2 = c" "vars ! sha_var i 3 = d" "vars ! sha_var i 4 = e"
    using assms(4) by (simp_all add: args_def)
  have "sha_round i (vars, l) = (vars[sha_var i 4 := z, sha_var i 1 := w], l[i mod 16 := sha1_W M i])"
    unfolding z_def w_def sha_round_def window_word [OF assms(1,2)] Let_def prod.case v choose_eq majority_eq rol_ROTL sha1_f_def sha1_K_def
    by (simp add: add_ac)
  moreover have "args (Suc i) (vars[sha_var i 4 := z, sha_var i 1 := w]) = (z, a, w, c, d)"
    unfolding args_def sha_var_Suc(1) sha_var_next using assms(3) v by (simp add: nth_list_update sha_var_inj del: One_nat_def)
  ultimately show ?thesis
    using window_update [OF assms(1) refl] assms(3) by (simp add: z_def w_def)
qed

lemma transform_steps:
  assumes "length M = 64" "length H = 5"
  shows "\<exists>vars l. fold sha_round [0..<n] (H, map (\<lambda>i. le_word (take 4 (drop (4 * i) M))) [0..<16]) = (vars, l) \<and> window M n l \<and>
    length vars = 5 \<and> args n vars = sha1_steps M n (H ! 0, H ! 1, H ! 2, H ! 3, H ! 4)"
proof (induction n)
  case 0
  then show ?case
    using assms by (simp add: window_def args_def sha_var_def)
next
  case (Suc n)
  then obtain vars l where "fold sha_round [0..<n] (H, map (\<lambda>i. le_word (take 4 (drop (4 * i) M))) [0..<16]) = (vars, l)" "window M n l"
    "length vars = 5" "args n vars = sha1_steps M n (H ! 0, H ! 1, H ! 2, H ! 3, H ! 4)"
    by blast
  moreover obtain a b c d e where "args n vars = (a, b, c, d, e)"
    by (cases "args n vars") auto
  ultimately show ?case
    using sha_round_step [of M n l vars a b c d e] assms(1) by (simp split: prod.splits) (metis prod.inject)
qed

lemma SHA1_Transform_compress:
  assumes "length M = 64" "length H = 5"
  shows "SHA1_Transform H M = sha1_compress H M" "length (SHA1_Transform H M) = 5"
proof -
  obtain vars l where f: "fold sha_round [0..<80] (H, map (\<lambda>i. le_word (take 4 (drop (4 * i) M))) [0..<16]) = (vars, l)"
    "length vars = 5" "args 80 vars = sha1_steps M 80 (H ! 0, H ! 1, H ! 2, H ! 3, H ! 4)"
    using transform_steps [OF assms, of 80] by blast
  have "args 80 vars = (vars ! 0, vars ! 1, vars ! 2, vars ! 3, vars ! 4)"
    by (simp add: args_def sha_var_def)
  then have s: "sha1_steps M 80 (H ! 0, H ! 1, H ! 2, H ! 3, H ! 4) = (vars ! 0, vars ! 1, vars ! 2, vars ! 3, vars ! 4)"
    using f(3) by simp
  obtain v0 v1 v2 v3 v4 where v: "vars = [v0, v1, v2, v3, v4]"
    using f(2) by (auto simp: length_Suc_conv numeral_eq_Suc)
  obtain h0 h1 h2 h3 h4 where h: "H = [h0, h1, h2, h3, h4]"
    using assms(2) by (auto simp: length_Suc_conv numeral_eq_Suc)
  have "SHA1_Transform H M = map2 (+) H vars"
    unfolding SHA1_Transform_def Let_def f(1) by simp
  then show "SHA1_Transform H M = sha1_compress H M" "length (SHA1_Transform H M) = 5"
    unfolding sha1_compress_def s by (simp_all add: v h add.commute)
qed

section \<open>The stream\<close>

lemma length_chain: "length H = 5 \<Longrightarrow> length (sha1_chain H M) = 5"
proof (induction "length M" arbitrary: H M rule: less_induct)
  case less
  then show ?case
    using less.hyps [of "drop 64 M" "sha1_compress H (take 64 M)"] SHA1_Transform_compress [of "take 64 M" H]
    by (subst sha1_chain.simps) auto
qed

lemma chain_append: "length H = 5 \<Longrightarrow> 64 dvd length a \<Longrightarrow> sha1_chain H (a @ b) = sha1_chain (sha1_chain H a) b"
proof (induction "length a" arbitrary: H a rule: less_induct)
  case less
  show ?case
  proof (cases "length a < 64")
    case True
    then have "a = []"
      using less.prems(2) by (auto dest: dvd_imp_le)
    then show ?thesis
      by (simp add: sha1_chain.simps [of H "[]"])
  next
    case False
    have l: "length (sha1_compress H (take 64 a)) = 5"
      using SHA1_Transform_compress [of "take 64 a" H] less.prems(1) False by simp
    have "64 dvd length (drop 64 a)"
      using less.prems(2) False by (simp add: dvd_diff_nat)
    from less.hyps [OF _ l this] False show ?thesis
      using sha1_chain.simps [of H "a @ b"] sha1_chain.simps [of H a] by simp
  qed
qed

lemma chain_short: "length M < 64 \<Longrightarrow> sha1_chain H M = H"
  by (subst sha1_chain.simps) simp

lemma sha_blocks_chain:
  "length H = 5 \<Longrightarrow> sha_blocks H data = (sha1_chain H data, drop (64 * (length data div 64)) data)"
proof (induction "length data" arbitrary: H data rule: less_induct)
  case less
  show ?case
  proof (cases "length data < 64")
    case True
    then show ?thesis
      by (simp add: sha_blocks.simps [of H data] chain_short)
  next
    case False
    have t: "SHA1_Transform H (take 64 data) = sha1_compress H (take 64 data)" "length (sha1_compress H (take 64 data)) = 5"
      using SHA1_Transform_compress [of "take 64 data" H] less.prems False by simp_all
    have d: "64 * (length data div 64) = 64 + 64 * (length (drop 64 data) div 64)"
      using False le_div_geq [of 64 "length data"] by simp
    show ?thesis
      using less.hyps [OF _ t(2), of "drop 64 data"] False
      by (simp add: sha_blocks.simps [of H data] sha1_chain.simps [of H data] t(1) d add.commute)
  qed
qed

text \<open>A context that was given the bytes \<open>msg\<close>: the blocks are in the state, the rest is in the buffer.\<close>

definition sha_data :: "sha1_ctx \<Rightarrow> bytes \<Rightarrow> bool" where
  "sha_data ctx msg \<longleftrightarrow> (\<exists>B r. msg = B @ r \<and> 64 dvd length B \<and> length r < 64 \<and> sha_state ctx = sha1_chain sha1_H0 B \<and>
     length (sha_buffer ctx) = 64 \<and> block_pos (sha_count0 ctx) = length r \<and> take (length r) (sha_buffer ctx) = r)"

lemma sha_dataI: "msg = B @ r \<Longrightarrow> 64 dvd length B \<Longrightarrow> length r < 64 \<Longrightarrow> sha_state ctx = sha1_chain sha1_H0 B \<Longrightarrow> length (sha_buffer ctx) = 64 \<Longrightarrow>
    block_pos (sha_count0 ctx) = length r \<Longrightarrow> take (length r) (sha_buffer ctx) = r \<Longrightarrow> sha_data ctx msg"
  unfolding sha_data_def by (rule exI [of _ B], rule exI [of _ r]) simp

lemma sha_data_init: "sha_data sat_SHA1_Init []"
  by (simp add: sha_data_def sat_SHA1_Init_def block_pos_def chain_short sha1_H0_def)

lemma place_in_block: "unat (drop_bit 3 c AND 63) = block_pos (c :: u32)"
proof -
  have m: "(63 :: u32) = mask 6"
    by (simp add: mask_eq_exp_minus_1)
  show ?thesis
    unfolding m unat_and_mask by (simp add: block_pos_def unat_drop_div)
qed

lemma ucast_of_nat_u64: "(ucast (word_of_nat n :: u64) :: u32) = word_of_nat n"
proof -
  have "unat (ucast (word_of_nat n :: u64) :: u32) = n mod 2 ^ 64 mod 2 ^ 32"
    by (simp only: unsigned_ucast_eq) (simp only: unat_of_nat take_bit_eq_mod len_num1 len_num0 len_bit0; simp)
  also have "\<dots> = unat (word_of_nat n :: u32)"
    unfolding unat_of_nat by (simp add: mod_mod_cancel)
  finally show ?thesis
    by (simp only: word_unat_eq_iff)
qed

lemma ucast_count: "ucast (push_bit 3 (word_of_nat n :: u64)) = (word_of_nat (8 * n) :: u32)"
proof -
  have "push_bit 3 (word_of_nat n :: u64) = word_of_nat (8 * n)"
    by (simp add: push_bit_eq_mult mult.commute)
  then show ?thesis
    by (simp only: ucast_of_nat_u64)
qed

lemma update_count0: "sha_count0 (sat_SHA1_Update ctx data) = sha_count0 ctx + word_of_nat (8 * length data)"
  unfolding sat_SHA1_Update_def Let_def ucast_count by (simp split: prod.splits)

lemma block_pos_add: "block_pos (c + word_of_nat (8 * n)) = (block_pos c + n) mod 64"
proof (induction n)
  case 0
  then show ?case
    by (simp add: block_pos_def)
next
  case (Suc n)
  have "c + word_of_nat (8 * Suc n) = (c + word_of_nat (8 * n)) + 8"
    by simp
  then have "block_pos (c + word_of_nat (8 * Suc n)) = (block_pos (c + word_of_nat (8 * n)) + 1) mod 64"
    by (simp only: block_pos_next)
  then show ?case
    unfolding Suc.IH by (simp add: mod_Suc_eq)
qed

lemma buffer_put_full: "j + length bs = length buf \<Longrightarrow> buffer_put buf j bs = take j buf @ bs"
  by (simp add: buffer_put_def)

lemma buffer_put_part:
  assumes "j + length bs \<le> length buf"
  shows "length (buffer_put buf j bs) = length buf" "take (j + length bs) (buffer_put buf j bs) = take j buf @ bs"
  using assms by (cases bs; simp add: buffer_put_def min_def)+

text \<open>The longest front of whole blocks.\<close>

lemma blocks_front:
  fixes M :: bytes
  defines "n \<equiv> 64 * (length M div 64)"
  shows "n \<le> length M" "64 dvd length (take n M)" "length (drop n M) = length M mod 64" "length H = 5 \<Longrightarrow> sha1_chain H M = sha1_chain H (take n M)"
proof -
  show "n \<le> length M"
    by (simp add: n_def)
  then have "length (take n M) = n"
    by simp
  then show d: "64 dvd length (take n M)"
    by (simp only:) (simp add: n_def)
  show r: "length (drop n M) = length M mod 64"
    by (simp add: n_def minus_mult_div_eq_mod)
  then have "sha1_chain G (drop n M) = G" for G
    by (intro chain_short) simp
  then show "length H = 5 \<Longrightarrow> sha1_chain H M = sha1_chain H (take n M)"
    using chain_append [OF _ d, of H "drop n M"] by simp
qed

lemma sha_data_update:
  assumes "sha_data ctx msg"
  shows "sha_data (sat_SHA1_Update ctx data) (msg @ data)"
proof -
  let ?ctx = "sat_SHA1_Update ctx data"
  obtain B r where c: "msg = B @ r" "64 dvd length B" "length r < 64" "sha_state ctx = sha1_chain sha1_H0 B"
    "length (sha_buffer ctx) = 64" "block_pos (sha_count0 ctx) = length r" "take (length r) (sha_buffer ctx) = r"
    using assms by (auto simp: sha_data_def)
  have h: "length (sha_state ctx) = 5"
    unfolding c(4) by (rule length_chain) (simp add: sha1_H0_def)
  have pos: "block_pos (sha_count0 ?ctx) = (length r + length data) mod 64"
    unfolding update_count0 block_pos_add c(6) ..
  show ?thesis
  proof (cases "length r + length data > 63")
    case False
    then have "sha_state ?ctx = sha_state ctx" "sha_buffer ?ctx = buffer_put (sha_buffer ctx) (length r) data"
      by (simp_all add: sat_SHA1_Update_def Let_def place_in_block c(6))
    moreover have "block_pos (sha_count0 ?ctx) = length (r @ data)"
      unfolding pos using False by simp
    moreover have "length (buffer_put (sha_buffer ctx) (length r) data) = 64"
      "take (length (r @ data)) (buffer_put (sha_buffer ctx) (length r) data) = r @ data"
      using buffer_put_part [of "length r" data "sha_buffer ctx"] c(5,7) False by simp_all
    ultimately show ?thesis
      using c(1,2,4) False unfolding sha_data_def by (intro exI [of _ B] exI [of _ "r @ data"]) simp
  next
    case True
    let ?buf = "r @ take (64 - length r) data" and ?rest = "drop (64 - length r) data"
    let ?n = "64 * (length ?rest div 64)"
    have buf: "buffer_put (sha_buffer ctx) (length r) (take (64 - length r) data) = ?buf" "length ?buf = 64"
      using buffer_put_full [of "length r" "take (64 - length r) data" "sha_buffer ctx"] c(3,5,7) True by simp_all
    have t: "SHA1_Transform (sha_state ctx) ?buf = sha1_compress (sha_state ctx) ?buf" "length (sha1_compress (sha_state ctx) ?buf) = 5"
      using SHA1_Transform_compress [OF buf(2) h] by simp_all
    have e: "sha_state ?ctx = sha1_chain (sha1_compress (sha_state ctx) ?buf) ?rest" "sha_buffer ?ctx = buffer_put ?buf 0 (drop ?n ?rest)"
      using True sha_blocks_chain [OF t(2), of ?rest] by (simp_all add: sat_SHA1_Update_def Let_def place_in_block c(6) buf t(1))
    have b: "64 dvd length ?buf" "64 dvd length (take ?n ?rest)" "length (drop ?n ?rest) = length ?rest mod 64"
      unfolding buf(2) using blocks_front(2,3) [of ?rest] by simp_all
    have "sha1_chain (sha_state ctx) ?buf = sha1_compress (sha_state ctx) ?buf"
      unfolding sha1_chain.simps [of "sha_state ctx" ?buf] using buf(2) by (simp add: chain_short)
    then have s: "sha_state ?ctx = sha1_chain sha1_H0 (B @ ?buf @ take ?n ?rest)"
      using trans [OF e(1) blocks_front(4) [OF t(2), of ?rest]] chain_append [OF h b(1), of "take ?n ?rest"] chain_append [OF _ c(2), of sha1_H0 "?buf @ take ?n ?rest"] c(4)
      by (simp add: sha1_H0_def)
    have "length r + length data = length ?rest + 64"
      using True c(3) by simp
    then have p: "block_pos (sha_count0 ?ctx) = length (drop ?n ?rest)"
      unfolding b(3) pos by (simp only: mod_add_self2)
    have m: "msg @ data = (B @ ?buf @ take ?n ?rest) @ drop ?n ?rest"
      by (simp only: append_assoc append_take_drop_id c(1))
    have d: "64 dvd length (B @ ?buf @ take ?n ?rest)"
      using b(1,2) c(2) by (metis dvd_add length_append)
    have l: "length (drop ?n ?rest) < 64"
      unfolding b(3) by simp
    have f: "0 + length (drop ?n ?rest) \<le> length ?buf"
      unfolding buf(2) using l by (simp only: add_0 less_imp_le_nat)
    have q: "length (sha_buffer ?ctx) = 64" "take (length (drop ?n ?rest)) (sha_buffer ?ctx) = drop ?n ?rest"
      unfolding e(2) using buffer_put_part [OF f] buf(2) by (simp_all only: add_0 take_0 append_Nil)
    show ?thesis
      by (rule sha_dataI [OF m d l s q(1) p q(2)])
  qed
qed

text \<open>The padding loop adds the zeros that are missing to 56 bytes in the last block.\<close>

lemma sha_data_pos: "sha_data ctx msg \<Longrightarrow> block_pos (sha_count0 ctx) = length msg mod 64"
proof -
  assume "sha_data ctx msg"
  then obtain B r where "msg = B @ r" "64 dvd length B" "length r < 64" "block_pos (sha_count0 ctx) = length r"
    unfolding sha_data_def by blast
  moreover from this(2) obtain k where "length B = 64 * k"
    by (rule dvdE)
  ultimately show ?thesis
    by simp
qed

lemma pad_mod: "(q :: nat) < 64 \<Longrightarrow> (120 - q) mod 64 = (if q \<le> 56 then 56 - q else 120 - q)"
proof -
  assume "q < 64"
  have "(120 - q) mod 64 = 56 - q" if "q \<le> 56"
  proof -
    have "120 - q = (56 - q) + 64"
      using that by simp
    then have "(120 - q) mod 64 = (56 - q) mod 64"
      by (simp only: mod_add_self2)
    then show ?thesis
      by simp
  qed
  then show ?thesis
    using \<open>q < 64\<close> by simp
qed

lemma pad_step: "q < 64 \<Longrightarrow> q \<noteq> 56 \<Longrightarrow> (120 - q) mod 64 = Suc ((120 - Suc q mod 64) mod 64)"
  using pad_mod [of q] pad_mod [of "Suc q"] by (cases "q = 63") auto

lemma sha_pad_data:
  "sha_data ctx msg \<Longrightarrow> sha_data (sha_pad ctx) (msg @ replicate ((120 - length msg mod 64) mod 64) 0)"
proof (induction ctx arbitrary: msg rule: sha_pad.induct)
  case (1 ctx)
  let ?q = "length msg mod 64"
  have q: "block_pos (sha_count0 ctx) = ?q"
    by (rule sha_data_pos [OF 1(2)])
  show ?case
  proof (cases "?q = 56")
    case True
    then show ?thesis
      using 1(2) q by (simp add: sha_pad.simps [of ctx] at_padded_end)
  next
    case False
    then have ne: "sha_count0 ctx AND 504 \<noteq> 448"
      by (simp add: at_padded_end q)
    have d: "sha_data (sat_SHA1_Update ctx [0]) (msg @ [0])"
      by (rule sha_data_update [OF 1(2)])
    have n: "(120 - ?q) mod 64 = Suc ((120 - length (msg @ [0]) mod 64) mod 64)"
      using pad_step [of ?q] False by (simp add: mod_Suc_eq)
    show ?thesis
      using 1(1) [OF ne d] ne unfolding n by (simp add: sha_pad.simps [of ctx])
  qed
qed

lemma sha_pad_zeros: "(120 - length (msg @ [b]) mod 64) mod 64 = (119 - length msg mod 64) mod 64"
proof (cases "length msg mod 64 = 63")
  case False
  then have "length (msg @ [b]) mod 64 = Suc (length msg mod 64)"
    by (simp add: mod_Suc)
  then show ?thesis
    by simp
qed (simp add: mod_Suc)

text \<open>The digest of a context; the last eight bytes are those of its count.\<close>

definition sha_count :: "sha1_ctx \<Rightarrow> u64" where
  "sha_count ctx = push_bit 32 (ucast (sha_count1 ctx)) OR ucast (sha_count0 ctx)"

lemma upt_numerals: "[0..<4] = [0, 1, 2, 3]" "[0..<8] = [0, 1, 2, 3, 4, 5, 6, 7]" "[0..<20] = [0, 1, 2, 3, 4, 5, 6, 7, 8, 9, 10, 11, 12, 13, 14, 15, 16, 17, 18, 19]"
  by (simp_all add: upt_rec)

lemma and_byte_255: "(b :: byte) AND 255 = b"
proof -
  have "(255 :: byte) = - 1"
    by simp
  then show ?thesis
    by (simp only: and.right_neutral)
qed

lemma count_bytes:
  "k < 4 \<Longrightarrow> byte_at (push_bit 32 (ucast (c1 :: u32)) OR ucast c0 :: u64) k = ucast (drop_bit (8 * k) c0)"
  "k < 4 \<Longrightarrow> byte_at (push_bit 32 (ucast c1) OR ucast (c0 :: u32) :: u64) (k + 4) = ucast (drop_bit (8 * k) c1)"
  by (rule bit_word_eqI; auto simp: byte_at_def bit_simps dest: bit_imp_le_length)+

lemma final_count_bytes: "final_count ctx = be_bytes 8 (sha_count ctx)"
  unfolding final_count_def be_bytes_def le_bytes_def upt_numerals sha_count_def and_byte_255
  using count_bytes [of 0] count_bytes [of 1] count_bytes [of 2] count_bytes [of 3] by simp

lemma be_bytes_4: "be_bytes 4 (h :: u32) = [ucast (drop_bit 24 h), ucast (drop_bit 16 h), ucast (drop_bit 8 h), ucast h]"
  unfolding be_bytes_def le_bytes_def upt_numerals by (simp add: byte_at_def)

lemma digest_bytes:
  fixes H :: "u32 list"
  assumes "length H = 5"
  shows "map (\<lambda>i. ucast (drop_bit ((3 - i mod 4) * 8) (H ! (i div 4))) AND 255) [0..<SHA1_DIGEST_SIZE] = concat (map (be_bytes 4) H)"
proof -
  obtain h0 h1 h2 h3 h4 where h: "H = [h0, h1, h2, h3, h4]"
    using assms by (auto simp: length_Suc_conv numeral_eq_Suc)
  show ?thesis
    unfolding h SHA1_DIGEST_SIZE_def upt_numerals and_byte_255 list.map concat.simps be_bytes_4 append.simps by simp
qed

lemma sha_digest_data:
  assumes "sha_data ctx msg"
  shows "sat_SHA1_Final ctx = sha1_digest (sha1_padded msg (sha_count ctx))"
proof -
  let ?P = "sha1_padded msg (sha_count ctx)"
  let ?ctx = "sat_SHA1_Update (sha_pad (sat_SHA1_Update ctx [128])) (final_count ctx)"
  have z: "(120 - length (msg @ [128]) mod 64) mod 64 = (119 - length msg mod 64) mod 64"
    by (rule sha_pad_zeros)
  have "sha_data ?ctx (((msg @ [128]) @ replicate ((120 - length (msg @ [128]) mod 64) mod 64) 0) @ final_count ctx)"
    by (intro sha_data_update sha_pad_data assms)
  then have d: "sha_data ?ctx ?P"
    unfolding z by (simp add: sha1_padded_def final_count_bytes)
  then obtain B r where c: "?P = B @ r" "64 dvd length B" "length r < 64" "sha_state ?ctx = sha1_chain sha1_H0 B"
    unfolding sha_data_def by blast
  have "64 dvd length ?P"
  proof -
    define q k where "q = length (msg @ [128]) mod 64" "k = length (msg @ [128]) div 64"
    then have "Suc (length msg) = 64 * k + q" "q < 64"
      using mult_div_mod_eq [of 64 "length (msg @ [128])"] by simp_all
    moreover have "length ?P = Suc (length msg) + (120 - q) mod 64 + 8"
      unfolding \<open>q = _\<close> z by (simp add: sha1_padded_def)
    ultimately have "length ?P = 64 * (k + 1) \<or> length ?P = 64 * (k + 2)"
      using pad_mod [of q] by auto
    then show ?thesis
      by (elim disjE) (simp_all only: dvd_triv_left)
  qed
  then have "r = []"
    using c(1-3) by (metis dvd_add_right_iff dvd_imp_le length_append length_greater_0_conv not_less)
  then have s: "sha_state ?ctx = sha1_chain sha1_H0 ?P"
    using c(1,4) by simp
  have "length (sha_state ?ctx) = 5"
    unfolding s by (rule length_chain) (simp add: sha1_H0_def)
  then show ?thesis
    unfolding sat_SHA1_Final_def Let_def using digest_bytes [of "sha_state ?ctx"] by (simp add: sha1_digest_def s)
qed

section \<open>The count\<close>

text \<open>In pieces below 512 MB the count is the number of bits. One piece of 512 MB or more gets a carry it has not earned.\<close>

lemma sha_count_sum: "sha_count ctx = word_of_nat (unat (sha_count1 ctx) * 2 ^ 32 + unat (sha_count0 ctx))"
proof -
  have "sha_count ctx = push_bit 32 (ucast (sha_count1 ctx)) + ucast (sha_count0 ctx)"
    unfolding sha_count_def by (rule disjunctive_add [symmetric]) (auto simp: bit_simps dest: bit_imp_le_length)
  then show ?thesis
    by (simp add: push_bit_eq_mult)
qed

lemma high_word: "word_of_nat ((x mod 2 ^ 32) * 2 ^ 32 + y) = (word_of_nat (x * 2 ^ 32 + y) :: u64)"
proof -
  have "(x * 2 ^ 32) mod (2 ^ 32 * 2 ^ 32) = (x mod 2 ^ 32) * 2 ^ 32"
    by (rule mod_mult_mult2)
  then have "((x mod 2 ^ 32) * 2 ^ 32) mod 2 ^ 64 = (x * 2 ^ 32) mod 2 ^ 64"
    by simp
  then have "((x mod 2 ^ 32) * 2 ^ 32 + y) mod 2 ^ 64 = (x * 2 ^ 32 + y) mod 2 ^ 64"
    by (rule mod_add_cong) (rule refl)
  then show ?thesis
    by (simp only: word_unat_eq_iff unat_of_nat) simp
qed

lemma count_arith:
  fixes c n :: nat
  assumes "c < 2 ^ 32"
  defines "k \<equiv> (if (c + 8 * n) mod 2 ^ 32 < 8 * n then 1 else 0)"
  shows "(k + n div 2 ^ 29) * 2 ^ 32 + (c + 8 * n) mod 2 ^ 32 =
    c + 8 * n + (if 2 ^ 29 \<le> n \<and> c + 8 * (n mod 2 ^ 29) < 2 ^ 32 then 2 ^ 32 else 0)"
proof -
  define d r where dr: "d = n div 2 ^ 29" "r = n mod 2 ^ 29"
  have n: "n = 2 ^ 29 * d + r" "r < 2 ^ 29"
    by (simp_all add: dr)
  have m: "(c + 8 * n) mod 2 ^ 32 = (c + 8 * r) mod 2 ^ 32"
  proof -
    have "c + 8 * n = c + 8 * r + d * 2 ^ 32"
      by (simp add: n)
    then show ?thesis
      by (simp only: mod_mult_self1)
  qed
  have big: "2 ^ 29 \<le> n \<longleftrightarrow> 0 < d"
    using n by (cases d) auto
  show ?thesis
  proof (cases "c + 8 * r < 2 ^ 32")
    case True
    then have "(c + 8 * n) mod 2 ^ 32 = c + 8 * r"
      unfolding m by simp
    then show ?thesis
      unfolding k_def big dr(1) [symmetric] dr(2) [symmetric] using True n by (cases d) auto
  next
    case False
    then have "c + 8 * r = (c + 8 * r - 2 ^ 32) + 2 ^ 32" "c + 8 * r - 2 ^ 32 < 2 ^ 32"
      using assms(1) n(2) by simp_all
    then have "(c + 8 * n) mod 2 ^ 32 = c + 8 * r - 2 ^ 32"
      unfolding m by (metis mod_add_self2 mod_less)
    then show ?thesis
      unfolding k_def big dr(1) [symmetric] dr(2) [symmetric] using False assms(1) n by (cases d) auto
  qed
qed

lemma count_update:
  assumes "length data < 2 ^ 61"
  shows "sha_count (sat_SHA1_Update ctx data) = sha_count ctx + word_of_nat (8 * length data) +
    (if 2 ^ 29 \<le> length data \<and> unat (sha_count0 ctx) + 8 * (length data mod 2 ^ 29) < 2 ^ 32 then 2 ^ 32 else 0)"
proof -
  let ?n = "length data" and ?c0 = "unat (sha_count0 ctx)" and ?ctx = "sat_SHA1_Update ctx data"
  let ?len = "word_of_nat ?n :: u64"
  define k :: nat where "k = (if (?c0 + 8 * ?n) mod 2 ^ 32 < 8 * ?n then 1 else 0)"
  have push: "push_bit 3 ?len = word_of_nat (8 * ?n)"
    by (simp add: push_bit_eq_mult mult.commute)
  have len: "unat ?len = ?n" "unat (push_bit 3 ?len) = 8 * ?n"
  proof -
    show "unat ?len = ?n"
      using assms by (simp add: unat_of_nat take_bit_nat_eq_self)
    show "unat (push_bit 3 ?len) = 8 * ?n"
      unfolding push unat_of_nat using assms by (intro mod_less) simp
  qed
  have c0: "unat (sha_count0 ?ctx) = (?c0 + 8 * ?n) mod 2 ^ 32"
  proof -
    have "unat (word_of_nat (8 * ?n) :: u32) = 8 * ?n mod 2 ^ 32"
      unfolding unat_of_nat by simp
    then show ?thesis
      unfolding update_count0 unat_word_ariths by (simp add: mod_add_right_eq)
  qed
  have high: "(ucast (drop_bit 29 ?len) :: u32) = word_of_nat (?n div 2 ^ 29)"
  proof -
    have "drop_bit 29 ?len = word_of_nat (?n div 2 ^ 29)"
      by (intro word_unat_eq_iff [THEN iffD2]) (use assms in \<open>simp add: unat_drop_div len(1) unat_of_nat\<close>)
    then show ?thesis
      by (simp only: ucast_of_nat_u64)
  qed
  have less: "(ucast (sha_count0 ?ctx) :: u64) < push_bit 3 ?len \<longleftrightarrow> k = 1"
  proof -
    have "unat (sha_count0 ?ctx) < 2 ^ 64"
      unfolding c0 by (rule less_trans [of _ "2 ^ 32"]) simp_all
    then have "unat (ucast (sha_count0 ?ctx) :: u64) = unat (sha_count0 ?ctx)"
      by (simp add: unsigned_ucast_eq take_bit_nat_eq_self)
    then show ?thesis
      unfolding word_less_nat_alt len c0 k_def by simp
  qed
  have c1: "sha_count1 ?ctx = sha_count1 ctx + word_of_nat (k + ?n div 2 ^ 29)"
  proof -
    have "sha_count1 ?ctx = (if (ucast (sha_count0 ?ctx) :: u64) < push_bit 3 ?len then sha_count1 ctx + 1 else sha_count1 ctx) + ucast (drop_bit 29 ?len)"
      unfolding update_count0 ucast_count [symmetric] by (simp add: sat_SHA1_Update_def Let_def split: prod.splits)
    then show ?thesis
      unfolding less high by (simp add: k_def)
  qed
  have "unat (sha_count1 ?ctx) = (unat (sha_count1 ctx) + (k + ?n div 2 ^ 29)) mod 2 ^ 32"
  proof -
    have "unat (word_of_nat (k + ?n div 2 ^ 29) :: u32) = (k + ?n div 2 ^ 29) mod 2 ^ 32"
      unfolding unat_of_nat by simp
    then show ?thesis
      unfolding c1 unat_word_ariths by (simp add: mod_add_right_eq)
  qed
  then have "sha_count ?ctx = word_of_nat ((unat (sha_count1 ctx) + (k + ?n div 2 ^ 29)) * 2 ^ 32 + (?c0 + 8 * ?n) mod 2 ^ 32)"
    by (simp only: sha_count_sum [of ?ctx] c0 high_word)
  also have "\<dots> = word_of_nat (unat (sha_count1 ctx) * 2 ^ 32 + ((k + ?n div 2 ^ 29) * 2 ^ 32 + (?c0 + 8 * ?n) mod 2 ^ 32))"
    by (simp only: distrib_right add.assoc)
  also have "\<dots> = word_of_nat (unat (sha_count1 ctx) * 2 ^ 32 + (?c0 + 8 * ?n + (if 2 ^ 29 \<le> ?n \<and> ?c0 + 8 * (?n mod 2 ^ 29) < 2 ^ 32 then 2 ^ 32 else 0)))"
    using count_arith [of ?c0 ?n] unsigned_less [of "sha_count0 ctx", where 'a = nat] by (simp add: k_def)
  finally show ?thesis
    unfolding sha_count_sum [of ctx] by (simp add: add.assoc)
qed

text \<open>C28: The hash is SHA-1 of FIPS 180-4 for every text below 512 MB. A longer text is hashed as the standard says but
  with a wrong length: \<open>count[0]\<close>, which has 32 bits, is compared with the 64 bits of \<open>len << 3\<close>, so one is carried
  into \<open>count[1]\<close> for which there is no reason, and the length in the last block is 2 to the power 32 too large.
\<close>

theorem sha1_correct:
  assumes "length msg < 2 ^ 61"
  shows "lsha1 msg = (if length msg < 2 ^ 29 then sha1_standard msg else sha1_digest (sha1_padded msg (word_of_nat (8 * length msg) + 2 ^ 32)))"
proof -
  have "sha_data (sat_SHA1_Update sat_SHA1_Init msg) ([] @ msg)"
    by (rule sha_data_update [OF sha_data_init])
  then have "lsha1 msg = sha1_digest (sha1_padded msg (sha_count (sat_SHA1_Update sat_SHA1_Init msg)))"
    using sha_digest_data [of "sat_SHA1_Update sat_SHA1_Init msg" msg] by (simp add: lsha1_def)
  moreover have "sha_count sat_SHA1_Init = 0" "sha_count0 sat_SHA1_Init = 0"
    by (simp_all add: sha_count_def sat_SHA1_Init_def)
  ultimately show ?thesis
    using count_update [OF assms, of sat_SHA1_Init] by (simp add: sha1_standard_def)
qed

section \<open>The keyed hash\<close>

text \<open>A context in which the count is right too.\<close>

definition sha_good :: "sha1_ctx \<Rightarrow> bytes \<Rightarrow> bool" where
  "sha_good ctx msg \<longleftrightarrow> sha_data ctx msg \<and> sha_count ctx = word_of_nat (8 * length msg)"

lemma sha_good_init: "sha_good sat_SHA1_Init []"
  using sha_data_init by (simp add: sha_good_def sha_count_def sat_SHA1_Init_def)

lemma sha_good_update: "sha_good ctx msg \<Longrightarrow> length data < 2 ^ 29 \<Longrightarrow> sha_good (sat_SHA1_Update ctx data) (msg @ data)"
  using sha_data_update [of ctx msg data] count_update [of data ctx] by (simp add: sha_good_def distrib_left)

lemma sha_good_final: "sha_good ctx msg \<Longrightarrow> sat_SHA1_Final ctx = sha1_standard msg"
  using sha_digest_data [of ctx msg] by (simp add: sha_good_def sha1_standard_def)

lemma length_sha1_standard: "length (sha1_standard msg) = 20"
proof -
  have "length (concat (map (be_bytes 4) (H :: u32 list))) = 4 * length H" for H
    by (induction H) simp_all
  then show ?thesis
    unfolding sha1_standard_def sha1_digest_def by (simp add: length_chain sha1_H0_def)
qed

lemma xor_le_word: "(le_word bs :: 'a::len word) XOR le_word (replicate (length bs) c) = le_word (map (\<lambda>x. x XOR c) bs)"
proof (induction bs)
  case (Cons b bs)
  have "(ucast b OR push_bit 8 v) XOR (ucast c OR push_bit 8 w) = (ucast (b XOR c) OR push_bit 8 (v XOR w) :: 'a word)" for v w
    by (rule bit_word_eqI) (auto simp: bit_simps dest: bit_imp_le_length)
  then show ?case
    by (simp add: Cons.IH [symmetric])
qed simp

lemma xor_four:
  assumes "length b = 4"
  shows "le_bytes 4 ((le_word b :: u32) XOR le_word [c, c, c, c]) = map (\<lambda>x. x XOR c) b"
proof -
  have "le_bytes (length (map (\<lambda>x. x XOR c) b)) (le_word (map (\<lambda>x. x XOR c) b) :: u32) = map (\<lambda>x. x XOR c) b"
    by (rule le_bytes_le_word) (simp add: assms)
  moreover have "(le_word b :: u32) XOR le_word (replicate (length b) c) = le_word (map (\<lambda>x. x XOR c) b)"
    by (rule xor_le_word)
  moreover have "[c, c, c, c] = replicate (length b) c"
    by (simp add: assms numeral_eq_Suc)
  ultimately show ?thesis
    using assms by (simp only: length_map)
qed

lemma concat_chunks:
  "length xs = 4 * n \<Longrightarrow> concat (map (\<lambda>i. map f (take 4 (drop (4 * i) xs))) [0..<n]) = map f xs"
proof (induction n arbitrary: xs)
  case (Suc n)
  have "concat (map (\<lambda>i. map f (take 4 (drop (4 * i) xs))) [0..<Suc n]) =
      map f (take 4 xs) @ concat (map (\<lambda>i. map f (take 4 (drop (4 * i) (drop 4 xs)))) [0..<n])"
    by (simp add: upt_conv_Cons map_Suc_upt [symmetric] comp_def add.commute del: upt_Suc)
  also have "\<dots> = map f (take 4 xs) @ map f (drop 4 xs)"
    using Suc.IH [of "drop 4 xs"] Suc.prems by simp
  finally show ?case
    by (metis append_take_drop_id map_append)
qed simp

lemma xor_key_map:
  assumes "length key = 64" "x = le_word [c, c, c, c]"
  shows "xor_key key x = map (\<lambda>b. b XOR c) key"
proof -
  have "xor_key key x = concat (map (\<lambda>i. map (\<lambda>b. b XOR c) (take 4 (drop (4 * i) key))) [0..<16])"
    unfolding xor_key_def BLOCKSIZE_def assms(2) using xor_four assms(1)
    by (intro arg_cong [where f = concat] map_cong) simp_all
  then show ?thesis
    using concat_chunks [of key 16 "\<lambda>b. b XOR c"] assms(1) by simp
qed

text \<open>C29: The keyed hash is HMAC of FIPS 198-1 with SHA-1, for a key and a text below 512 MB, although the code turns one key buffer
  from the outer into the inner pad, four bytes at a time.
\<close>

theorem hmac_sha1_correct:
  assumes "length key < 2 ^ 29" "length text < 2 ^ 29"
  shows "lhmac_sha1 key text = hmac_standard key text"
proof -
  let ?K = "if length key \<le> 64 then key @ replicate (64 - length key) 0 else sha1_standard key @ replicate 44 0"
  let ?o = "map (\<lambda>b. b XOR 0x5c) ?K" and ?i = "map (\<lambda>b. b XOR 0x36) ?K"
  have rkey: "(if length key > BLOCKSIZE then buffer_put (replicate BLOCKSIZE 0) 0 (sat_SHA1_Final (sat_SHA1_Update sat_SHA1_Init key))
       else buffer_put (replicate BLOCKSIZE 0) 0 key) = ?K"
    using sha_good_final [OF sha_good_update [OF sha_good_init assms(1)]] length_sha1_standard [of key]
    by (simp add: buffer_put_def BLOCKSIZE_def)
  have K: "length ?K = 64"
    by (simp add: length_sha1_standard)
  have c: "(0x5c5c5c5c :: u32) = le_word [0x5c, 0x5c, 0x5c, 0x5c]" "(0x5c5c5c5c XOR 0x36363636 :: u32) = le_word [0x6a, 0x6a, 0x6a, 0x6a]"
    by (simp_all add: push_bit_eq_mult)
  have o: "xor_key ?K 0x5c5c5c5c = ?o"
    by (rule xor_key_map [OF K c(1)])
  have "xor_key ?o (0x5c5c5c5c XOR 0x36363636) = map (\<lambda>b. b XOR 0x6a) ?o"
    using K by (intro xor_key_map c(2)) simp
  also have "\<dots> = ?i"
    by (simp add: xor.assoc)
  finally have i: "xor_key ?o (0x5c5c5c5c XOR 0x36363636) = ?i" .
  have g: "sha_good (sat_SHA1_Update sat_SHA1_Init p) p" if "length p = 64" for p
    using sha_good_update [OF sha_good_init, of p] that by simp
  have "sat_SHA1_Final (sat_SHA1_Update (sat_SHA1_Update sat_SHA1_Init ?i) text) = sha1_standard (?i @ text)"
    using K by (intro sha_good_final sha_good_update g assms(2)) simp
  moreover have "sat_SHA1_Final (sat_SHA1_Update (sat_SHA1_Update sat_SHA1_Init ?o) d) = sha1_standard (?o @ d)" if "length d = 20" for d
    using K that by (intro sha_good_final sha_good_update g) simp_all
  ultimately show ?thesis
    unfolding lhmac_sha1_def hmac_standard_def Let_def rkey o i using length_sha1_standard by simp
qed

lemma sha1_correct_witness:
  "lsha1 [0x61, 0x62, 0x63] = sha1_standard [0x61, 0x62, 0x63] \<and>
   lsha1 (replicate (2 ^ 29) 0) = sha1_digest (sha1_padded (replicate (2 ^ 29) 0) (word_of_nat (8 * 2 ^ 29) + 2 ^ 32))"
proof
  show "lsha1 [0x61, 0x62, 0x63] = sha1_standard [0x61, 0x62, 0x63]"
    using sha1_correct [of "[0x61, 0x62, 0x63]"] by simp
  define n :: nat where "n = 2 ^ 29"
  have "n < 2 ^ 61" "\<not> n < 2 ^ 29"
    by (simp_all add: n_def)
  then have "lsha1 (replicate n 0) = sha1_digest (sha1_padded (replicate n 0) (word_of_nat (8 * n) + 2 ^ 32))"
    using sha1_correct [of "replicate n 0"] by (simp only: length_replicate if_False)
  then show "lsha1 (replicate (2 ^ 29) 0) = sha1_digest (sha1_padded (replicate (2 ^ 29) 0) (word_of_nat (8 * 2 ^ 29) + 2 ^ 32))"
    by (simp only: n_def)
qed

lemma hmac_sha1_correct_witness: "lhmac_sha1 [1, 2, 3] [4, 5] = hmac_standard [1, 2, 3] [4, 5]"
  using hmac_sha1_correct [of "[1, 2, 3]" "[4, 5]"] by simp

end
