(* ===== verification/SprotoPack.thy ===== *)
theory SprotoPack
  imports Prelude
begin

text \<open>
  The zero packing of \<open>sproto.c\<close> and its use in \<open>lsproto.c\<close>. A buffer is the list of its bytes, a pointer into it a position.
  Reading behind the source and writing behind the buffer are faults. A pointer into the source is the list of the bytes from there on
  (\<open>src\<close> or the copy \<open>tmp\<close> of the last piece). Sizes are far below \<open>2 ^ 31\<close>.
\<close>

section \<open>Packing\<close>

definition buf_store :: "bytes \<Rightarrow> nat \<Rightarrow> byte \<Rightarrow> bytes res" where
  "buf_store buf p b = (if p < length buf then Inr (buf[p := b]) else Inl Out_Of_Bounds)"

fun buf_copy :: "bytes \<Rightarrow> nat \<Rightarrow> bytes \<Rightarrow> bytes res" where
  "buf_copy buf p [] = Inr buf"
| "buf_copy buf p (b # bs) = res_bind (buf_store buf p b) (\<lambda>buf. buf_copy buf (p + 1) bs)"

text \<open>The loop of \<open>pack_seg\<close> over the eight bytes: the buffer, the header and the number of bytes that are not zero.\<close>

fun pack_bytes :: "bytes \<Rightarrow> nat \<Rightarrow> bytes \<Rightarrow> nat \<Rightarrow> int \<Rightarrow> byte \<Rightarrow> nat \<Rightarrow> (bytes \<times> byte \<times> nat) res" where
  "pack_bytes [] i buf p sz header notzero = Inr (buf, header, notzero)"
| "pack_bytes (b # bs) i buf p sz header notzero =
     (if b \<noteq> 0 then
        let header = header OR push_bit i 1; notzero = notzero + 1 in
        if sz > 0 then res_bind (buf_store buf p b) (\<lambda>buf. pack_bytes bs (i + 1) buf (p + 1) (sz - 1) header notzero)
        else pack_bytes bs (i + 1) buf p sz header notzero
      else pack_bytes bs (i + 1) buf p sz header notzero)"

definition pack_seg :: "bytes \<Rightarrow> bytes \<Rightarrow> nat \<Rightarrow> int \<Rightarrow> nat \<Rightarrow> (bytes \<times> nat) res" where
  "pack_seg src buf p sz n = (if length src < 8 then Inl Out_Of_Bounds else
     res_bind (pack_bytes (take 8 src) 0 buf (p + 1) (sz - 1) 0 0) (\<lambda>(buf, header, notzero).
       let notzero = (if (notzero = 7 \<or> notzero = 6) \<and> n > 0 then 8 else notzero) in
       if notzero = 8 then Inr (buf, if n > 0 then 8 else 10)
       else res_bind (if sz - 1 < 0 then Inr buf else buf_store buf p header) (\<lambda>buf. Inr (buf, notzero + 1))))"

definition write_ff :: "bytes \<Rightarrow> bytes \<Rightarrow> nat \<Rightarrow> nat \<Rightarrow> bytes res" where
  "write_ff src buf des n = (let align8_n = (n + 7) div 8 * 8 in
     if length src < n then Inl Out_Of_Bounds
     else buf_copy buf des ([0xff, word_of_int (int (align8_n div 8) - 1)] @ take n src @ replicate (align8_n - n) 0))"

record pack_state =
  pk_buf :: bytes
  pk_pos :: nat
  pk_bufsz :: int
  pk_size :: nat
  pk_ff_src :: bytes
  pk_ff_off :: nat
  pk_ff_des :: nat
  pk_ff_n :: nat

definition flush_ff :: "nat \<Rightarrow> pack_state \<Rightarrow> pack_state res" where
  "flush_ff n st = (if pk_bufsz st \<ge> 0
     then res_bind (write_ff (pk_ff_src st) (pk_buf st) (pk_ff_des st) n) (\<lambda>buf. Inr (st\<lparr>pk_buf := buf\<rparr>))
     else Inr st)"

text \<open>One round of the loop of \<open>sproto_pack\<close> at offset \<open>i\<close>, with the source from there on.\<close>

definition pack_round :: "nat \<Rightarrow> bytes \<Rightarrow> pack_state \<Rightarrow> pack_state res" where
  "pack_round i rem st = (let
     src = (if length rem < 8 then rem @ replicate (8 - length rem) 0 else rem) in
     res_bind (pack_seg src (pk_buf st) (pk_pos st) (pk_bufsz st) (pk_ff_n st)) (\<lambda>(buf, n).
     let p = pk_pos st; st = st\<lparr>pk_buf := buf, pk_bufsz := pk_bufsz st - int n\<rparr> in
     res_bind (if n = 10 then Inr (st\<lparr>pk_ff_src := src, pk_ff_off := i, pk_ff_des := p, pk_ff_n := 1\<rparr>)
       else if n = 8 \<and> pk_ff_n st > 0 then
         let st = st\<lparr>pk_ff_n := pk_ff_n st + 1\<rparr> in
         if pk_ff_n st = 256 then res_bind (flush_ff (256 * 8) st) (\<lambda>st. Inr (st\<lparr>pk_ff_n := 0\<rparr>)) else Inr st
       else if pk_ff_n st > 0 then res_bind (flush_ff (pk_ff_n st * 8) st) (\<lambda>st. Inr (st\<lparr>pk_ff_n := 0\<rparr>))
       else Inr st)
     (\<lambda>st. Inr (st\<lparr>pk_pos := pk_pos st + n, pk_size := pk_size st + n\<rparr>))))"

function pack_loop :: "nat \<Rightarrow> bytes \<Rightarrow> pack_state \<Rightarrow> pack_state res" where
  "pack_loop i rem st = (if rem = [] then Inr st else res_bind (pack_round i rem st) (pack_loop (i + 8) (drop 8 rem)))"
  by pat_completeness auto

termination
  by (relation "measure (\<lambda>(i, rem, st). length rem)") auto

declare pack_loop.simps [simp del]

text \<open>The buffer and the size that is needed.\<close>

definition sproto_pack :: "bytes \<Rightarrow> bytes \<Rightarrow> nat \<Rightarrow> (bytes \<times> nat) res" where
  "sproto_pack srcv buf bufsz = res_bind (pack_loop 0 srcv
       \<lparr>pk_buf = buf, pk_pos = 0, pk_bufsz = int bufsz, pk_size = 0, pk_ff_src = [], pk_ff_off = 0, pk_ff_des = 0, pk_ff_n = 0\<rparr>) (\<lambda>st.
     res_bind (if pk_ff_n st = 1 then flush_ff 8 st
       else if pk_ff_n st > 1 then flush_ff (length srcv - pk_ff_off st) st
       else Inr st) (\<lambda>st. Inr (pk_buf st, pk_size st)))"

section \<open>Unpacking\<close>

text \<open>
  The eight bits of a header: the source that is left, the buffer, its position and what is free of it. \<open>srcsz\<close> is the length of the source,
  or -1 when a byte behind the source was passed over; \<open>None\<close> is the result -1.
\<close>

fun unpack_bits :: "nat \<Rightarrow> byte \<Rightarrow> bytes \<Rightarrow> int \<Rightarrow> bytes \<Rightarrow> nat \<Rightarrow> int \<Rightarrow> (bytes \<times> bytes \<times> nat \<times> int) option res" where
  "unpack_bits 0 header src srcsz buf p bufsz = Inr (Some (src, buf, p, bufsz))"
| "unpack_bits (Suc k) header src srcsz buf p bufsz =
     (if bit header (7 - k) then
        if srcsz < 0 then Inr None
        else if bufsz > 0 then (case src of [] \<Rightarrow> Inl Out_Of_Bounds
          | b # src \<Rightarrow> res_bind (buf_store buf p b) (\<lambda>buf. unpack_bits k header src (srcsz - 1) buf (p + 1) (bufsz - 1)))
        else unpack_bits k header (tl src) (srcsz - 1) buf p bufsz
      else if bufsz > 0 then res_bind (buf_store buf p 0) (\<lambda>buf. unpack_bits k header src srcsz buf (p + 1) (bufsz - 1))
      else unpack_bits k header src srcsz buf p bufsz)"

lemma unpack_bits_shorter:
  "unpack_bits k header src srcsz buf p bufsz = Inr (Some (src', buf', p', bufsz')) \<Longrightarrow> length src' \<le> length src"
proof (induction k arbitrary: src srcsz buf p bufsz)
  case (Suc k)
  then show ?case
    by (auto simp: res_bind_Inr_iff split: if_splits list.splits) (fastforce dest: Suc.IH)+
qed simp

function unpack_loop :: "bytes \<Rightarrow> bytes \<Rightarrow> nat \<Rightarrow> int \<Rightarrow> nat \<Rightarrow> (bytes \<times> nat) option res" where
  "unpack_loop [] buf p bufsz sz = Inr (Some (buf, sz))"
| "unpack_loop (header # src) buf p bufsz sz =
     (if header = 0xff then (case src of [] \<Rightarrow> Inl Out_Of_Bounds | c # src \<Rightarrow>
        let n = (unat c + 1) * 8 in
        if length src < n then Inr None
        else res_bind (if bufsz \<ge> int n then buf_copy buf p (take n src) else Inr buf)
          (\<lambda>buf. unpack_loop (drop n src) buf (p + n) (bufsz - int n) (sz + n)))
      else (case unpack_bits 8 header src (int (length src)) buf p bufsz of Inl f \<Rightarrow> Inl f | Inr None \<Rightarrow> Inr None
        | Inr (Some (src, buf, p, bufsz)) \<Rightarrow> unpack_loop src buf p bufsz (sz + 8)))"
  by pat_completeness auto

termination
  by (relation "measure (\<lambda>(src, buf, p, bufsz, sz). length src)") (auto simp: Let_def dest: unpack_bits_shorter)

definition sproto_unpack :: "bytes \<Rightarrow> bytes \<Rightarrow> nat \<Rightarrow> (bytes \<times> nat) option res" where
  "sproto_unpack srcv buf bufsz = unpack_loop srcv buf 0 (int bufsz) 0"

section \<open>In Lua\<close>

text \<open>
  \<open>lpack\<close> and \<open>lunpack\<close> are closures with a buffer and its size (the length of the list). \<open>fresh\<close> is the memory of a new userdata, and
  \<open>luaL_error\<close> leaves the function with an error. The buffer is never empty, so the loop of \<open>expand_buffer\<close> ends.
\<close>

datatype sproto_error = Object_Too_Large | Packing_Error | Invalid_Unpack_Stream

definition ENCODE_BUFFERSIZE :: nat where
  "ENCODE_BUFFERSIZE = 2050"

definition ENCODE_MAXSIZE :: nat where
  "ENCODE_MAXSIZE = 0x1000000"

function double_until :: "nat \<Rightarrow> nat \<Rightarrow> nat" where
  "double_until osz nsz = (if 0 < osz \<and> osz * 2 < nsz then double_until (osz * 2) nsz else osz * 2)"
  by pat_completeness auto

termination
  by (relation "measure (\<lambda>(osz, nsz). nsz - osz)") auto

declare double_until.simps [simp del]

definition expand_buffer :: "(nat \<Rightarrow> bytes) \<Rightarrow> nat \<Rightarrow> nat \<Rightarrow> sproto_error + bytes" where
  "expand_buffer fresh osz nsz = (let osz = double_until osz nsz in if osz > ENCODE_MAXSIZE then Inl Object_Too_Large else Inr (fresh osz))"

text \<open>The string and the buffer of the closure.\<close>

definition sproto_lpack :: "(nat \<Rightarrow> bytes) \<Rightarrow> bytes \<Rightarrow> bytes \<Rightarrow> (sproto_error + bytes \<times> bytes) res" where
  "sproto_lpack fresh output buffer = (let sz = length buffer; maxsz = (sz + 2047) div 2048 * 2 + sz + 2; osz = length output in
     (case if osz < maxsz then expand_buffer fresh osz maxsz else Inr output of Inl e \<Rightarrow> Inr (Inl e) | Inr output \<Rightarrow>
        res_bind (sproto_pack buffer output maxsz) (\<lambda>(output, bytes).
          if bytes > maxsz then Inr (Inl Packing_Error) else Inr (Inr (take bytes output, output)))))"

definition sproto_lunpack :: "(nat \<Rightarrow> bytes) \<Rightarrow> bytes \<Rightarrow> bytes \<Rightarrow> (sproto_error + bytes \<times> bytes) res" where
  "sproto_lunpack fresh output buffer = (let osz = length output in
     res_bind (sproto_unpack buffer output osz) (\<lambda>o1. case o1 of None \<Rightarrow> Inr (Inl Invalid_Unpack_Stream) | Some (output, r) \<Rightarrow>
       if r > osz then (case expand_buffer fresh osz r of Inl e \<Rightarrow> Inr (Inl e) | Inr output \<Rightarrow>
         res_bind (sproto_unpack buffer output r) (\<lambda>o2. case o2 of None \<Rightarrow> Inr (Inl Invalid_Unpack_Stream)
           | Some (output, r) \<Rightarrow> Inr (Inr (take r output, output))))
       else Inr (Inr (take r output, output))))"

section \<open>What packing makes\<close>

text \<open>The pieces of eight bytes, the last one filled with zeros; a piece as header and non-zero bytes; a run of whole pieces.\<close>

definition padded8 :: "bytes \<Rightarrow> bytes" where
  "padded8 xs = xs @ replicate (8 - length xs) 0"

function segments :: "bytes \<Rightarrow> bytes list" where
  "segments xs = (if xs = [] then [] else padded8 (take 8 xs) # segments (drop 8 xs))"
  by pat_completeness auto

termination
  by (relation "measure length") auto

declare segments.simps [simp del]

definition nonzero :: "bytes \<Rightarrow> bytes" where
  "nonzero s = filter (\<lambda>b. b \<noteq> 0) s"

fun seg_header :: "nat \<Rightarrow> bytes \<Rightarrow> byte" where
  "seg_header i [] = 0"
| "seg_header i (b # bs) = (if b \<noteq> 0 then push_bit i 1 else 0) OR seg_header (i + 1) bs"

definition packed_seg :: "bytes \<Rightarrow> bytes" where
  "packed_seg s = seg_header 0 s # nonzero s"

definition packed_run :: "bytes \<Rightarrow> bytes" where
  "packed_run R = (if R = [] then [] else [0xff, word_of_int (int (length R div 8) - 1)] @ R)"

definition pack_step :: "bytes \<times> bytes \<Rightarrow> bytes \<Rightarrow> bytes \<times> bytes" where
  "pack_step S s = (case S of (out, R) \<Rightarrow>
     if R = [] then (if length (nonzero s) = 8 then (out, s) else (out @ packed_seg s, []))
     else if length (nonzero s) \<ge> 6 then (if length R = 2040 then (out @ packed_run (R @ s), []) else (out, R @ s))
     else (out @ packed_run R @ packed_seg s, []))"

definition sproto_packed :: "bytes \<Rightarrow> bytes" where
  "sproto_packed src = (case foldl pack_step ([], []) (segments src) of (out, R) \<Rightarrow> out @ packed_run R)"

section \<open>The buffer\<close>

lemma buf_copy_correct:
  "p + length bs \<le> length buf \<Longrightarrow> buf_copy buf p bs = Inr (take p buf @ bs @ drop (p + length bs) buf)"
proof (induction bs arbitrary: buf p)
  case (Cons b bs)
  have "take (p + 1) (buf[p := b]) = take p buf @ [b]" "drop (p + 1 + length bs) (buf[p := b]) = drop (p + 1 + length bs) buf"
    using Cons.prems by (simp_all add: take_Suc_conv_app_nth)
  then show ?case
    using Cons by (simp add: buf_store_def)
qed simp

lemma nonzero_simps [simp]: "nonzero [] = []" "nonzero (b # bs) = (if b \<noteq> 0 then b # nonzero bs else nonzero bs)"
  by (simp_all add: nonzero_def)

lemma length_nonzero: "length (nonzero s) \<le> length s"
  by (simp add: nonzero_def)

lemma pack_bytes_correct:
  "(0 < sz \<Longrightarrow> int p + sz \<le> int (length buf)) \<Longrightarrow>
   \<exists>buf'. pack_bytes bs i buf p sz h n = Inr (buf', h OR seg_header i bs, n + length (nonzero bs)) \<and> length buf' = length buf \<and>
     take p buf' = take p buf \<and> (int (length (nonzero bs)) \<le> sz \<longrightarrow> take (p + length (nonzero bs)) buf' = take p buf @ nonzero bs)"
proof (induction bs arbitrary: i buf p sz h n)
  case (Cons b bs)
  show ?case
  proof (cases "b = 0")
    case True
    then show ?thesis
      using Cons.IH [OF Cons.prems, of "i + 1" h n] by simp
  next
    case nz: False
    show ?thesis
    proof (cases "0 < sz")
      case True
      then have p: "p < length buf"
        using Cons.prems by simp
      obtain buf' where b: "pack_bytes bs (i + 1) (buf[p := b]) (p + 1) (sz - 1) (h OR push_bit i 1) (n + 1) =
          Inr (buf', (h OR push_bit i 1) OR seg_header (i + 1) bs, n + 1 + length (nonzero bs))" "length buf' = length buf"
        "take (p + 1) buf' = take (p + 1) (buf[p := b])"
        "int (length (nonzero bs)) \<le> sz - 1 \<longrightarrow> take (p + 1 + length (nonzero bs)) buf' = take (p + 1) (buf[p := b]) @ nonzero bs"
        using Cons.IH [of "sz - 1" "p + 1" "buf[p := b]" "i + 1" "h OR push_bit i 1" "n + 1"] Cons.prems True by auto
      have t: "take (p + 1) (buf[p := b]) = take p buf @ [b]"
        using p by (simp add: take_Suc_conv_app_nth)
      have "take p buf' = take p (take (p + 1) buf')"
        by (simp add: min_def)
      then have "take p buf' = take p buf"
        unfolding b(3) t using p by simp
      then show ?thesis
        using b t p nz True by (simp add: buf_store_def or.assoc)
    next
      case False
      then show ?thesis
        using Cons.IH [of sz p buf "i + 1" "h OR push_bit i 1" "n + 1"] nz by (auto simp: or.assoc)
    qed
  qed
qed simp

definition in_run :: "bytes \<Rightarrow> nat \<Rightarrow> bool" where
  "in_run s n \<longleftrightarrow> length (nonzero s) = 8 \<or> 0 < n \<and> 6 \<le> length (nonzero s)"

definition seg_cost :: "bytes \<Rightarrow> nat \<Rightarrow> nat" where
  "seg_cost s n = (if in_run s n then if 0 < n then 8 else 10 else length (nonzero s) + 1)"

lemma pack_seg_correct:
  assumes "length s = 8" "int p + sz \<le> int (length buf)"
  shows "\<exists>buf'. pack_seg (s @ rest) buf p sz n = Inr (buf', seg_cost s n) \<and> length buf' = length buf \<and> take p buf' = take p buf \<and>
    (\<not> in_run s n \<and> int (seg_cost s n) \<le> sz \<longrightarrow> take (p + seg_cost s n) buf' = take p buf @ packed_seg s)"
proof -
  let ?k = "length (nonzero s)"
  obtain b where b: "pack_bytes s 0 buf (p + 1) (sz - 1) 0 0 = Inr (b, seg_header 0 s, ?k)" "length b = length buf" "take (p + 1) b = take (p + 1) buf"
    "int ?k \<le> sz - 1 \<longrightarrow> take (p + 1 + ?k) b = take (p + 1) buf @ nonzero s"
    using pack_bytes_correct [of "sz - 1" "p + 1" buf s 0 0 0] assms(2) by auto
  have tp: "take p b = take p buf"
  proof -
    have "take p (take (p + 1) b) = take p (take (p + 1) buf)"
      using b(3) by simp
    then show ?thesis
      by (simp add: min_def)
  qed
  have k: "?k \<le> 8"
    using length_nonzero [of s] assms(1) by simp
  show ?thesis
  proof (cases "in_run s n")
    case True
    then have e: "(if (?k = 7 \<or> ?k = 6) \<and> 0 < n then 8 else ?k) = 8"
      using k by (auto simp: in_run_def)
    then show ?thesis
      using True b assms(1) tp by (simp add: pack_seg_def e seg_cost_def)
  next
    case False
    then have e: "(if (?k = 7 \<or> ?k = 6) \<and> 0 < n then 8 else ?k) = ?k" "?k \<noteq> 8"
      by (auto simp: in_run_def)
    show ?thesis
    proof (cases "sz - 1 < 0")
      case True
      then show ?thesis
        using False b assms(1) tp e(2) by (simp add: pack_seg_def e(1) seg_cost_def)
    next
      case room: False
      then have p: "p < length b"
        using assms(2) b(2) by simp
      let ?b = "b[p := seg_header 0 s]"
      have "take (p + (?k + 1)) ?b = take p buf @ packed_seg s" if "int (?k + 1) \<le> sz"
      proof -
        have f: "take (p + 1 + ?k) b = take (p + 1) buf @ nonzero s"
          using b(4) that by simp
        have "p + 1 + ?k \<le> length b"
          using that assms(2) b(2) by simp
        then have "take (p + 1 + ?k) ?b = (take (p + 1 + ?k) b)[p := seg_header 0 s]"
          by (simp add: take_update_swap)
        also have "\<dots> = take p buf @ packed_seg s"
          unfolding f using p b(2) by (simp add: packed_seg_def take_Suc_conv_app_nth list_update_append)
        finally show ?thesis
          by simp
      qed
      then show ?thesis
        using False b assms(1) tp e(2) room p by (simp add: pack_seg_def e(1) seg_cost_def buf_store_def)
    qed
  qed
qed

section \<open>The loop\<close>

definition run_of :: "bytes \<Rightarrow> bytes \<Rightarrow> bool" where
  "run_of R f \<longleftrightarrow> R = take (length R) f @ replicate (length R - length f) 0"

text \<open>
  Between two rounds at offset \<open>i\<close> with output \<open>out\<close> and a pending run \<open>R\<close>: as long as everything fits, the buffer begins with \<open>out\<close>;
  the run lies in the source, from where it is copied when it ends.
\<close>

definition pack_inv :: "bytes \<Rightarrow> nat \<Rightarrow> nat \<Rightarrow> bytes \<times> bytes \<Rightarrow> pack_state \<Rightarrow> bool" where
  "pack_inv src bufsz i S st \<longleftrightarrow> (case S of (out, R) \<Rightarrow>
     int (pk_pos st) + pk_bufsz st = int bufsz \<and> bufsz \<le> length (pk_buf st) \<and> pk_size st = pk_pos st \<and>
     pk_pos st = length out + (if R = [] then 0 else 2 + length R) \<and>
     (0 \<le> pk_bufsz st \<longrightarrow> take (length out) (pk_buf st) = out) \<and>
     length R = 8 * pk_ff_n st \<and> pk_ff_n st < 256 \<and>
     (R \<noteq> [] \<longrightarrow> pk_ff_des st = length out \<and> pk_ff_src st = drop (pk_ff_off st) src \<and> pk_ff_off st + length R = i \<and>
       8 \<le> length (pk_ff_src st) \<and> run_of R (pk_ff_src st)))"

lemma write_ff_run:
  assumes R: "run_of R f" and k: "length R = 8 * k" "0 < k"
    and n: "n \<le> length f" "(n + 7) div 8 = k" "n = min (length R) (length f)" and buf: "des + 2 + length R \<le> length buf" "take des buf = out" "des = length out"
  shows "\<exists>buf'. write_ff f buf des n = Inr buf' \<and> length buf' = length buf \<and> take (des + 2 + length R) buf' = out @ packed_run R \<and>
    drop (des + 2 + length R) buf' = drop (des + 2 + length R) buf"
proof -
  have "take n f @ replicate (8 * k - n) 0 = R"
    unfolding k(1) [symmetric] n(3) using R by (auto simp: min_def run_of_def)
  moreover have "packed_run R = [0xff, word_of_int (int k - 1)] @ R"
    using k by (auto simp: packed_run_def)
  ultimately have "[0xff, word_of_int (int ((n + 7) div 8 * 8 div 8) - 1)] @ take n f @ replicate ((n + 7) div 8 * 8 - n) 0 = packed_run R"
    using n(2) by (simp add: mult.commute)
  moreover have l: "length (packed_run R) = 2 + length R"
    using k by (auto simp: packed_run_def)
  moreover have "buf_copy buf des (packed_run R) = Inr (take des buf @ packed_run R @ drop (des + length (packed_run R)) buf)"
    using buf(1) l by (intro buf_copy_correct) simp
  ultimately have "write_ff f buf des n = Inr (take des buf @ packed_run R @ drop (des + length (packed_run R)) buf)"
    unfolding write_ff_def Let_def using n(1) by simp
  then show ?thesis
    using l buf by simp
qed

lemma flush_run:
  assumes "run_of R (pk_ff_src st)" "length R = 8 * k" "0 < k"
    "n \<le> length (pk_ff_src st)" "(n + 7) div 8 = k" "n = min (length R) (length (pk_ff_src st))"
    "0 \<le> pk_bufsz st \<longrightarrow> pk_ff_des st + 2 + length R \<le> length (pk_buf st) \<and> take (pk_ff_des st) (pk_buf st) = out" "pk_ff_des st = length out"
  shows "\<exists>buf'. flush_ff n st = Inr (st\<lparr>pk_buf := buf'\<rparr>) \<and> length buf' = length (pk_buf st) \<and>
    drop (length out + 2 + length R) buf' = drop (length out + 2 + length R) (pk_buf st) \<and>
    (0 \<le> pk_bufsz st \<longrightarrow> take (length out + 2 + length R) buf' = out @ packed_run R)"
proof (cases "0 \<le> pk_bufsz st")
  case True
  then obtain buf' where "write_ff (pk_ff_src st) (pk_buf st) (pk_ff_des st) n = Inr buf'" "length buf' = length (pk_buf st)"
    "take (pk_ff_des st + 2 + length R) buf' = out @ packed_run R"
    "drop (pk_ff_des st + 2 + length R) buf' = drop (pk_ff_des st + 2 + length R) (pk_buf st)"
    using write_ff_run [OF assms(1-6), of "pk_ff_des st" "pk_buf st" out] assms(7,8) by auto
  then show ?thesis
    using True assms(8) by (intro exI [of _ buf']) (simp add: flush_ff_def)
next
  case False
  then show ?thesis
    by (intro exI [of _ "pk_buf st"]) (simp add: flush_ff_def)
qed

lemma piece:
  "rem \<noteq> [] \<Longrightarrow> (if length rem < 8 then rem @ replicate (8 - length rem) 0 else rem) = padded8 (take 8 rem) @ drop 8 rem"
  "rem \<noteq> [] \<Longrightarrow> length (padded8 (take 8 rem)) = 8"
  by (simp_all add: padded8_def)

lemma full_piece:
  assumes "length (nonzero (padded8 (take 8 rem))) = 8"
  shows "8 \<le> length rem"
proof (rule ccontr)
  assume a: "\<not> 8 \<le> length rem"
  then have "padded8 (take 8 rem) = rem @ replicate (8 - length rem) 0"
    by (simp add: padded8_def)
  then have "nonzero (padded8 (take 8 rem)) = nonzero rem"
    by (simp add: nonzero_def filter_empty_conv)
  then show False
    using assms a length_nonzero [of rem] by simp
qed

text \<open>The run with the next piece, as long as the run lies in the source.\<close>

lemma run_grows:
  assumes "run_of R f" "length R < length f" "rem = drop (length R) f"
  shows "run_of (R @ padded8 (take 8 rem)) f"
proof -
  have "R = take (length R) f"
    using assms(1,2) by (simp add: run_of_def)
  then have "R @ padded8 (take 8 rem) = take (length R) f @ take 8 (drop (length R) f) @ replicate (8 - length (take 8 (drop (length R) f))) 0"
    using assms(3) by (simp add: padded8_def)
  also have "\<dots> = take (length R + 8) f @ replicate (8 - length (take 8 (drop (length R) f))) 0"
    by (simp add: take_add)
  also have "8 - length (take 8 (drop (length R) f)) = length R + 8 - length f"
    using assms(2) by simp
  also have "length R + 8 = length (R @ padded8 (take 8 rem))"
    using piece(2) [of rem] assms(2,3) by simp
  finally show ?thesis
    by (simp only: run_of_def)
qed

lemma run_of_take: "n \<le> length f \<Longrightarrow> run_of (take n f) f"
  by (simp add: run_of_def min_def)

lemma take_append_drop_eq: "take n xs = take n ys \<Longrightarrow> drop n xs = drop n ys \<Longrightarrow> xs = ys"
  by (metis append_take_drop_id)

lemma take_more: "take n a = xs \<Longrightarrow> length xs = n \<Longrightarrow> take m (drop n a) = ys \<Longrightarrow> take (n + m) a = xs @ ys"
  by (simp add: take_add)

lemma drop_of_take: "take (n + m) b = x @ ys \<Longrightarrow> length x = n \<Longrightarrow> take m (drop n b) = ys"
  by (simp add: take_drop add.commute)

lemma pack_round_inv:
  assumes inv: "pack_inv src bufsz i (out, R) st" and rem: "rem = drop i src" "rem \<noteq> []" "i \<le> length src"
    and ok: "length R = 2040 \<Longrightarrow> 6 \<le> length (nonzero (padded8 (take 8 rem))) \<Longrightarrow> 8 \<le> length rem"
  shows "\<exists>st'. pack_round i rem st = Inr st' \<and> pack_inv src bufsz (i + 8) (pack_step (out, R) (padded8 (take 8 rem))) st'"
proof -
  define s where "s = padded8 (take 8 rem)"
  let ?k = "length (nonzero s)" and ?n = "pk_ff_n st" and ?p = "pk_pos st"
  have ls: "length s = 8"
    unfolding s_def by (rule piece(2) [OF rem(2)])
  have sne: "s \<noteq> []"
    using ls by auto
  have k: "?k \<le> 8"
    using length_nonzero [of s] ls by simp
  have padded: "(if length rem < 8 then rem @ replicate (8 - length rem) 0 else rem) = s @ drop 8 rem"
    unfolding s_def by (rule piece(1) [OF rem(2)])
  have pos: "int ?p + pk_bufsz st = int bufsz" "bufsz \<le> length (pk_buf st)" "pk_size st = ?p" "length R = 8 * ?n" "?n < 256"
    "?p = length out + (if R = [] then 0 else 2 + length R)"
    and pre: "0 \<le> pk_bufsz st \<Longrightarrow> take (length out) (pk_buf st) = out"
    and run: "R \<noteq> [] \<Longrightarrow> pk_ff_des st = length out" "R \<noteq> [] \<Longrightarrow> pk_ff_src st = drop (pk_ff_off st) src" "R \<noteq> [] \<Longrightarrow> pk_ff_off st + length R = i"
      "R \<noteq> [] \<Longrightarrow> run_of R (pk_ff_src st)" "R \<noteq> [] \<Longrightarrow> 8 \<le> length (pk_ff_src st)"
    using inv by (auto simp: pack_inv_def)
  obtain buf' where seg: "pack_seg (s @ drop 8 rem) (pk_buf st) ?p (pk_bufsz st) ?n = Inr (buf', seg_cost s ?n)" "length buf' = length (pk_buf st)"
    "take ?p buf' = take ?p (pk_buf st)"
    "\<not> in_run s ?n \<and> int (seg_cost s ?n) \<le> pk_bufsz st \<longrightarrow> take (?p + seg_cost s ?n) buf' = take ?p (pk_buf st) @ packed_seg s"
    using pack_seg_correct [OF ls, of ?p "pk_bufsz st" "pk_buf st" "drop 8 rem" ?n] pos(1,2) by auto
  have lo: "length out \<le> ?p"
    using pos(6) by simp
  have pre': "take (length out) buf' = out" if "0 \<le> pk_bufsz st"
  proof -
    have "take (length out) (take ?p buf') = take (length out) (take ?p (pk_buf st))"
      using seg(3) by simp
    then show ?thesis
      using pre [OF that] lo by (simp add: min_def)
  qed
  show ?thesis
  proof (cases "R = []")
    case True
    then have n0: "?n = 0"
      using pos(4) by simp
    show ?thesis
    proof (cases "?k = 8")
      case full: True
      have "8 \<le> length rem"
        using full_piece full unfolding s_def by blast
      then have "s = take 8 rem" "s @ drop 8 rem = rem"
        by (simp_all add: s_def padded8_def)
      then have f: "s @ drop 8 rem = drop i src" "8 \<le> length (drop i src)" "run_of s (drop i src)"
        using rem(1) \<open>8 \<le> length rem\<close> run_of_take [of 8 rem] by simp_all
      have "seg_cost s ?n = 10"
        using full n0 by (simp add: seg_cost_def in_run_def)
      then show ?thesis
        using full True n0 seg(1,2) pos pre' padded f ls sne
        by (simp add: pack_round_def pack_inv_def pack_step_def s_def [symmetric])
    next
      case False
      then have c: "\<not> in_run s 0" "seg_cost s 0 = ?k + 1" "?k < 8"
        using k by (simp_all add: seg_cost_def in_run_def)
      have l: "length (packed_seg s) = ?k + 1"
        by (simp add: packed_seg_def)
      have "take (length out + (?k + 1)) buf' = out @ packed_seg s" if "int (?k + 1) \<le> pk_bufsz st"
        using seg(4) c that n0 pos(6) True pre that by simp
      then show ?thesis
        using False True n0 seg(1,2) pos padded ls c l
        by (simp add: pack_round_def pack_inv_def pack_step_def s_def [symmetric])
    qed
  next
    case Rne: False
    then have p: "?p = length out + 2 + length R"
      using pos(6) by simp
    have n0: "0 < ?n"
      using Rne pos(4) by (cases "?n = 0") auto
    have lf: "length R + length rem = length (pk_ff_src st)" "drop (length R) (pk_ff_src st) = rem" "length R < length (pk_ff_src st)"
      using run(2,3) [OF Rne] rem by (auto simp: add.commute)
    show ?thesis
    proof (cases "in_run s ?n")
      case True
      then have c: "seg_cost s ?n = 8" "6 \<le> ?k"
        using n0 by (auto simp: seg_cost_def in_run_def)
      have grown: "run_of (R @ s) (pk_ff_src st)"
        unfolding s_def by (rule run_grows [OF run(4) [OF Rne] lf(3) lf(2) [symmetric]])
      show ?thesis
      proof (cases "?n = 255")
        case False
        then have "length R \<noteq> 2040" "?n + 1 < 256"
          using pos(4,5) by auto
        then show ?thesis
          using False Rne n0 seg(1,2) pos padded ls c pre' run grown
          by (simp add: pack_round_def pack_inv_def pack_step_def s_def [symmetric])
      next
        case full: True
        then have lR: "length R = 2040"
          using pos(4) by simp
        have len: "2048 \<le> length (pk_ff_src st)"
          using ok c(2) lf(1) lR by (simp add: s_def)
        define st1 where "st1 = st\<lparr>pk_buf := buf', pk_bufsz := pk_bufsz st - 8, pk_ff_n := 256\<rparr>"
        have room: "0 \<le> pk_bufsz st1 \<longrightarrow> pk_ff_des st1 + 2 + length (R @ s) \<le> length (pk_buf st1) \<and> take (pk_ff_des st1) (pk_buf st1) = out"
          using pos(1,2) p run(1) [OF Rne] seg(2) ls pre' by (auto simp: st1_def)
        have g: "run_of (R @ s) (pk_ff_src st1)" "length (R @ s) = 8 * 256" "(0::nat) < 256" "2048 \<le> length (pk_ff_src st1)"
          "(2048 + 7) div 8 = (256::nat)" "2048 = min (length (R @ s)) (length (pk_ff_src st1))" "pk_ff_des st1 = length out"
          using grown lR ls len run(1) [OF Rne] by (simp_all add: st1_def)
        obtain b where b: "flush_ff 2048 st1 = Inr (st1\<lparr>pk_buf := b\<rparr>)" "length b = length (pk_buf st1)"
          "0 \<le> pk_bufsz st1 \<longrightarrow> take (length out + 2 + length (R @ s)) b = out @ packed_run (R @ s)"
          using flush_run [OF g(1-6) room g(7)] by blast
        have l: "length (packed_run (R @ s)) = 2 + length (R @ s)"
          using Rne by (simp add: packed_run_def)
        have "pack_round i rem st = Inr (st1\<lparr>pk_buf := b, pk_ff_n := 0, pk_pos := ?p + 8, pk_size := pk_size st + 8\<rparr>)"
          using b(1) full seg(1) padded c by (simp add: pack_round_def st1_def)
        moreover have "pack_step (out, R) s = (out @ packed_run (R @ s), [])"
          using Rne lR c(2) by (simp add: pack_step_def)
        ultimately show ?thesis
          using b(2,3) l lR ls pos p seg(2) by (simp add: pack_inv_def st1_def s_def [symmetric] add.commute [of "length out" 2050] del: append_assoc)
      qed
    next
      case False
      then have c: "seg_cost s ?n = ?k + 1" "?k < 6"
        using n0 by (auto simp: seg_cost_def in_run_def)
      define st1 where "st1 = st\<lparr>pk_buf := buf', pk_bufsz := pk_bufsz st - int (?k + 1)\<rparr>"
      have lR: "length R \<le> length (pk_ff_src st)" "(?n * 8 + 7) div 8 = ?n"
        using lf(3) by simp_all
      have room: "0 \<le> pk_bufsz st1 \<longrightarrow> pk_ff_des st1 + 2 + length R \<le> length (pk_buf st1) \<and> take (pk_ff_des st1) (pk_buf st1) = out"
        using pos(1,2) p run(1) [OF Rne] seg(2) pre' by (auto simp: st1_def)
      have g: "run_of R (pk_ff_src st1)" "length R = 8 * ?n" "0 < ?n" "?n * 8 \<le> length (pk_ff_src st1)" "(?n * 8 + 7) div 8 = ?n"
        "?n * 8 = min (length R) (length (pk_ff_src st1))" "pk_ff_des st1 = length out"
        using lR n0 pos(4) run(1,4) [OF Rne] by (simp_all add: st1_def)
      obtain b where b: "flush_ff (?n * 8) st1 = Inr (st1\<lparr>pk_buf := b\<rparr>)" "length b = length (pk_buf st1)"
        "0 \<le> pk_bufsz st1 \<longrightarrow> take (length out + 2 + length R) b = out @ packed_run R"
        "drop (length out + 2 + length R) b = drop (length out + 2 + length R) (pk_buf st1)"
        using flush_run [OF g(1-6) room g(7)] by blast
      have l: "length (packed_run R) = 2 + length R" "length (packed_seg s) = ?k + 1"
        using Rne by (simp_all add: packed_run_def packed_seg_def)
      have content: "take (?p + (?k + 1)) b = (out @ packed_run R) @ packed_seg s" if "0 \<le> pk_bufsz st1"
      proof (rule take_more)
        show "take ?p b = out @ packed_run R"
          using b(3) that p by simp
        show "length (out @ packed_run R) = ?p"
          using l(1) p by simp
        have "take (?p + (?k + 1)) buf' = take ?p (pk_buf st) @ packed_seg s"
          using seg(4) False c(1) that by (simp add: st1_def)
        then have "take (?k + 1) (drop ?p buf') = packed_seg s"
          using pos(1,2) that by (intro drop_of_take) (auto simp: st1_def)
        then show "take (?k + 1) (drop ?p b) = packed_seg s"
          using b(4) p by (simp add: st1_def)
      qed
      have "pack_round i rem st = Inr (st1\<lparr>pk_buf := b, pk_ff_n := 0, pk_pos := ?p + (?k + 1), pk_size := pk_size st + (?k + 1)\<rparr>)"
        using b(1) n0 seg(1) padded c by (simp add: pack_round_def st1_def)
      moreover have "pack_step (out, R) s = (out @ packed_run R @ packed_seg s, [])"
        using Rne c(2) by (simp add: pack_step_def)
      moreover have "pack_inv src bufsz (i + 8) (out @ packed_run R @ packed_seg s, [])
          (st1\<lparr>pk_buf := b, pk_ff_n := 0, pk_pos := ?p + (?k + 1), pk_size := pk_size st + (?k + 1)\<rparr>)"
      proof -
        have "length (out @ packed_run R @ packed_seg s) = ?p + (?k + 1)" "length b = length (pk_buf st)"
          "int (?p + (?k + 1)) + (pk_bufsz st - int (?k + 1)) = int bufsz"
          using b(2) l p pos(1) seg(2) by (simp_all add: st1_def)
        then show ?thesis
          using content pos(2,3) by (simp only: pack_inv_def) (simp add: st1_def)
      qed
      ultimately show ?thesis
        by (simp only: s_def [symmetric]) blast
    qed
  qed
qed

lemma segments_count: "length xs \<le> 8 * length (segments xs) \<and> 8 * length (segments xs) < length xs + 8"
proof (induction xs rule: segments.induct)
  case (1 xs)
  show ?case
  proof (cases "xs = []")
    case False
    then have "segments xs = padded8 (take 8 xs) # segments (drop 8 xs)"
      by (subst segments.simps) simp
    moreover have "0 < length xs"
      using False by simp
    ultimately show ?thesis
      using 1 [OF False] by (simp only: length_Cons length_drop) arith
  qed (simp add: segments.simps)
qed

lemma pack_loop_inv:
  assumes "pack_inv src bufsz i S st" "rem = drop i src" "i mod 8 = 0" "length src < 2046 \<or> length src mod 8 < 6"
  shows "\<exists>st'. pack_loop i rem st = Inr st' \<and> pack_inv src bufsz (i + 8 * length (segments rem)) (foldl pack_step S (segments rem)) st'"
  using assms
proof (induction "length rem" arbitrary: i S st rem rule: less_induct)
  case less
  show ?case
  proof (cases "rem = []")
    case True
    then show ?thesis
      using less.prems(1) by (simp add: pack_loop.simps segments.simps)
  next
    case False
    obtain out R where S: "S = (out, R)"
      by (cases S) blast
    have ok: "8 \<le> length rem" if "length R = 2040" "6 \<le> length (nonzero (padded8 (take 8 rem)))"
    proof (rule ccontr)
      assume short: "\<not> 8 \<le> length rem"
      then have "padded8 (take 8 rem) = rem @ replicate (8 - length rem) 0"
        by (simp add: padded8_def)
      then have "nonzero (padded8 (take 8 rem)) = nonzero rem"
        by (simp add: nonzero_def filter_empty_conv)
      then have "6 \<le> length rem"
        using that(2) length_nonzero [of rem] by simp
      moreover have "length src = i + length rem"
        using less.prems(2) False by simp
      moreover have "(i + length rem) mod 8 = length rem"
        using mod_add_left_eq [of i 8 "length rem"] less.prems(3) short by simp
      moreover have "R \<noteq> []"
        using that(1) by auto
      then have "2040 \<le> i"
        using less.prems(1) that(1) by (auto simp: S pack_inv_def)
      ultimately show False
        using less.prems(4) by simp
    qed
    have round: "\<exists>st'. pack_round i rem st = Inr st' \<and> pack_inv src bufsz (i + 8) (pack_step S (padded8 (take 8 rem))) st'"
      unfolding S by (rule pack_round_inv) (use less.prems False ok in \<open>simp_all add: S\<close>)
    then obtain st1 where st1: "pack_round i rem st = Inr st1" "pack_inv src bufsz (i + 8) (pack_step S (padded8 (take 8 rem))) st1"
      by blast
    have "\<exists>st'. pack_loop (i + 8) (drop 8 rem) st1 = Inr st' \<and>
        pack_inv src bufsz (i + 8 + 8 * length (segments (drop 8 rem))) (foldl pack_step (pack_step S (padded8 (take 8 rem))) (segments (drop 8 rem))) st'"
      by (rule less.hyps [OF _ st1(2)]) (use False less.prems in \<open>simp_all add: add.commute\<close>)
    then obtain st' where st': "pack_loop (i + 8) (drop 8 rem) st1 = Inr st'"
      "pack_inv src bufsz (i + 8 + 8 * length (segments (drop 8 rem))) (foldl pack_step (pack_step S (padded8 (take 8 rem))) (segments (drop 8 rem))) st'"
      by blast
    have "segments rem = padded8 (take 8 rem) # segments (drop 8 rem)"
      using False by (subst segments.simps) simp
    then show ?thesis
      using st' st1(1) False by (subst pack_loop.simps) (simp add: ac_simps)
  qed
qed

text \<open>The run that is pending at the end is written as far as the source goes.\<close>

lemma last_flush:
  assumes inv: "pack_inv src bufsz i (out, R) st" and i: "length src \<le> i" "i < length src + 8"
  shows "\<exists>buf. (if pk_ff_n st = 1 then flush_ff 8 st else if pk_ff_n st > 1 then flush_ff (length src - pk_ff_off st) st else Inr st) =
      Inr (st\<lparr>pk_buf := buf\<rparr>) \<and> length buf = length (pk_buf st) \<and>
      (0 \<le> pk_bufsz st \<longrightarrow> take (length (out @ packed_run R)) buf = out @ packed_run R)"
proof -
  have pos: "int (pk_pos st) + pk_bufsz st = int bufsz" "bufsz \<le> length (pk_buf st)" "length R = 8 * pk_ff_n st"
    "pk_pos st = length out + (if R = [] then 0 else 2 + length R)"
    and pre: "0 \<le> pk_bufsz st \<Longrightarrow> take (length out) (pk_buf st) = out"
    using inv by (auto simp: pack_inv_def)
  show ?thesis
  proof (cases "R = []")
    case True
    then have "pk_ff_n st = 0"
      using pos(3) by simp
    then show ?thesis
      using True pre by (intro exI [of _ "pk_buf st"]) (simp add: packed_run_def)
  next
    case False
    then have f: "pk_ff_des st = length out" "pk_ff_src st = drop (pk_ff_off st) src" "pk_ff_off st + length R = i" "8 \<le> length (pk_ff_src st)"
      "run_of R (pk_ff_src st)"
      using inv by (auto simp: pack_inv_def)
    have n0: "0 < pk_ff_n st"
      using False pos(3) by (cases "pk_ff_n st = 0") auto
    define n where "n = (if pk_ff_n st = 1 then 8 else length src - pk_ff_off st)"
    have l: "length (pk_ff_src st) = length src - pk_ff_off st"
      unfolding f(2) by simp
    have n: "n \<le> length (pk_ff_src st)" "(n + 7) div 8 = pk_ff_n st" "n = min (length R) (length (pk_ff_src st))"
    proof -
      show "n \<le> length (pk_ff_src st)"
        using f(4) l by (simp add: n_def)
      have b: "length src - pk_ff_off st \<le> 8 * pk_ff_n st" "8 * pk_ff_n st < length src - pk_ff_off st + 8"
        using i f(3,4) l pos(3) by simp_all
      show "(n + 7) div 8 = pk_ff_n st"
      proof (cases "pk_ff_n st = 1")
        case False
        then have "n = length src - pk_ff_off st"
          by (simp add: n_def)
        then show ?thesis
          using b by (intro div_nat_eqI) simp_all
      qed (simp add: n_def)
      show "n = min (length R) (length (pk_ff_src st))"
        using b f(4) l pos(3) by (simp add: n_def)
    qed
    have room: "0 \<le> pk_bufsz st \<longrightarrow> pk_ff_des st + 2 + length R \<le> length (pk_buf st) \<and> take (pk_ff_des st) (pk_buf st) = out"
      using pos(1,2,4) False f(1) pre by auto
    obtain b where b: "flush_ff n st = Inr (st\<lparr>pk_buf := b\<rparr>)" "length b = length (pk_buf st)"
      "0 \<le> pk_bufsz st \<longrightarrow> take (length out + 2 + length R) b = out @ packed_run R"
      using flush_run [OF f(5) pos(3) n0 n room f(1)] by blast
    have "(if pk_ff_n st = 1 then flush_ff 8 st else if pk_ff_n st > 1 then flush_ff (length src - pk_ff_off st) st else Inr st) = flush_ff n st"
      using n0 by (auto simp: n_def)
    moreover have "length (out @ packed_run R) = length out + 2 + length R"
      using False by (simp add: packed_run_def)
    ultimately show ?thesis
      using b by (intro exI [of _ b]) simp
  qed
qed

text \<open>The buffer keeps its length.\<close>

lemma buf_store_length: "buf_store buf p b = Inr buf' \<Longrightarrow> length buf' = length buf"
  by (auto simp: buf_store_def split: if_splits)

lemma buf_copy_length: "buf_copy buf p bs = Inr buf' \<Longrightarrow> length buf' = length buf"
  by (induction bs arbitrary: buf p) (auto simp: res_bind_Inr_iff dest!: buf_store_length)

lemma pack_bytes_length: "pack_bytes bs i buf p sz h n = Inr (buf', h', n') \<Longrightarrow> length buf' = length buf"
  by (induction bs arbitrary: i buf p sz h n) (auto simp: res_bind_Inr_iff Let_def dest!: buf_store_length split: if_splits)

lemma pack_seg_length: "pack_seg src buf p sz n = Inr (buf', m) \<Longrightarrow> length buf' = length buf"
  by (auto simp: pack_seg_def Let_def res_bind_Inr_iff dest!: buf_store_length pack_bytes_length split: if_splits)

lemma flush_ff_length: "flush_ff n st = Inr st' \<Longrightarrow> length (pk_buf st') = length (pk_buf st)"
  unfolding flush_ff_def write_ff_def Let_def by (auto simp: res_bind_Inr_iff simp del: buf_copy.simps append.simps dest!: buf_copy_length split: if_splits)

lemma pack_round_length:
  assumes "pack_round i rem st = Inr st'"
  shows "length (pk_buf st') = length (pk_buf st)"
proof -
  obtain buf n where s: "pack_seg (if length rem < 8 then rem @ replicate (8 - length rem) 0 else rem) (pk_buf st) (pk_pos st) (pk_bufsz st) (pk_ff_n st) = Inr (buf, n)"
    using assms unfolding pack_round_def Let_def res_bind_Inr_iff by auto
  show ?thesis
    using assms pack_seg_length [OF s] unfolding pack_round_def Let_def s
    by (auto simp: res_bind_Inr_iff dest!: flush_ff_length split: if_splits)
qed

lemma pack_loop_length: "pack_loop i rem st = Inr st' \<Longrightarrow> length (pk_buf st') = length (pk_buf st)"
proof (induction i rem st rule: pack_loop.induct)
  case (1 i rem st)
  show ?case
  proof (cases "rem = []")
    case True
    then show ?thesis
      using 1(2) by (simp add: pack_loop.simps)
  next
    case False
    then have "res_bind (pack_round i rem st) (pack_loop (i + 8) (drop 8 rem)) = Inr st'"
      using 1(2) by (simp add: pack_loop.simps [of i rem st])
    then obtain st1 where "pack_round i rem st = Inr st1" "pack_loop (i + 8) (drop 8 rem) st1 = Inr st'"
      by (auto simp: res_bind_Inr_iff)
    then show ?thesis
      using 1(1) [OF False] pack_round_length [of i rem st st1] by simp
  qed
qed

lemma pack_correct:
  assumes "bufsz \<le> length buf" "length src < 2046 \<or> length src mod 8 < 6"
  shows "\<exists>buf'. sproto_pack src buf bufsz = Inr (buf', length (sproto_packed src)) \<and> length buf' = length buf \<and>
    (length (sproto_packed src) \<le> bufsz \<longrightarrow> take (length (sproto_packed src)) buf' = sproto_packed src)"
proof -
  let ?st = "\<lparr>pk_buf = buf, pk_pos = 0, pk_bufsz = int bufsz, pk_size = 0, pk_ff_src = [], pk_ff_off = 0, pk_ff_des = 0, pk_ff_n = 0\<rparr>"
  have init: "pack_inv src bufsz 0 ([], []) ?st"
    using assms(1) by (simp add: pack_inv_def)
  obtain out R where S: "foldl pack_step ([], []) (segments src) = (out, R)"
    by (cases "foldl pack_step ([], []) (segments src)") blast
  obtain st where st: "pack_loop 0 src ?st = Inr st" "pack_inv src bufsz (8 * length (segments src)) (out, R) st"
    using pack_loop_inv [OF init, of src] assms(2) S by auto
  obtain b where b: "(if pk_ff_n st = 1 then flush_ff 8 st else if pk_ff_n st > 1 then flush_ff (length src - pk_ff_off st) st else Inr st) =
      Inr (st\<lparr>pk_buf := b\<rparr>)" "length b = length (pk_buf st)"
      "0 \<le> pk_bufsz st \<longrightarrow> take (length (out @ packed_run R)) b = out @ packed_run R"
    using last_flush [OF st(2)] segments_count [of src] by blast
  have p: "sproto_packed src = out @ packed_run R"
    by (simp add: sproto_packed_def S)
  have sz: "pk_size st = length (out @ packed_run R)" "int (pk_size st) + pk_bufsz st = int bufsz" "length (pk_buf st) = length buf"
    using st(2) pack_loop_length [OF st(1)] by (auto simp: pack_inv_def packed_run_def)
  show ?thesis
    using b st(1) sz(2,3) unfolding p sz(1) [symmetric] by (intro exI [of _ b]) (simp add: sproto_pack_def)
qed

section \<open>What unpacking makes\<close>

text \<open>The bytes a packed string stands for, without buffers; \<open>None\<close> where it is cut off.\<close>

fun expand_bits :: "nat \<Rightarrow> byte \<Rightarrow> bytes \<Rightarrow> (bytes \<times> bytes) option" where
  "expand_bits 0 h src = Some ([], src)"
| "expand_bits (Suc k) h src = (if bit h (7 - k)
     then (case src of [] \<Rightarrow> None | b # src \<Rightarrow> map_option (\<lambda>(s, src). (b # s, src)) (expand_bits k h src))
     else map_option (\<lambda>(s, src). (0 # s, src)) (expand_bits k h src))"

lemma expand_bits_shorter: "expand_bits k h src = Some (s, src') \<Longrightarrow> length src' \<le> length src \<and> length s = k"
proof (induction k arbitrary: src s)
  case (Suc k)
  then show ?case
    by (fastforce split: if_splits list.splits)
qed simp

function unpacked :: "bytes \<Rightarrow> bytes option" where
  "unpacked [] = Some []"
| "unpacked (h # src) = (if h = 0xff then (case src of [] \<Rightarrow> None | c # src \<Rightarrow>
       let n = (unat c + 1) * 8 in if length src < n then None else map_option (\<lambda>r. take n src @ r) (unpacked (drop n src)))
     else (case expand_bits 8 h src of None \<Rightarrow> None | Some (s, src) \<Rightarrow> map_option (\<lambda>r. s @ r) (unpacked src)))"
  by pat_completeness auto

termination
  by (relation "measure length") (auto simp: Let_def dest: expand_bits_shorter)

lemma unpack_bits_correct:
  assumes "expand_bits k h src = Some (s, src')" "0 < bufsz \<Longrightarrow> int p + bufsz \<le> int (length buf)"
  shows "\<exists>buf' p' bufsz'. unpack_bits k h src (int (length src)) buf p bufsz = Inr (Some (src', buf', p', bufsz')) \<and> length buf' = length buf \<and>
    p \<le> p' \<and> take p buf' = take p buf \<and> (0 < bufsz' \<longrightarrow> int p' + bufsz' \<le> int (length buf)) \<and>
    (int k \<le> bufsz \<longrightarrow> p' = p + k \<and> bufsz' = bufsz - int k \<and> take p' buf' = take p buf @ s) \<and> (0 \<le> bufsz' \<longrightarrow> int p' + bufsz' = int p + bufsz) \<and>
    (bufsz < int k \<longrightarrow> bufsz' \<le> 0)"
  using assms
proof (induction k arbitrary: src s buf p bufsz)
  case (Suc k)
  define v where "v = (if bit h (7 - k) then hd src else 0)"
  define rest where "rest = (if bit h (7 - k) then tl src else src)"
  obtain s1 where s1: "expand_bits k h rest = Some (s1, src')" "s = v # s1" and ne: "bit h (7 - k) \<Longrightarrow> src \<noteq> []"
    using Suc.prems(1) by (auto simp: v_def rest_def split: if_splits list.splits)
  have len: "int (length src) - 1 = int (length rest)" if "bit h (7 - k)"
    using that ne by (cases src) (simp_all add: rest_def)
  show ?case
  proof (cases "0 < bufsz")
    case True
    then have p: "p < length buf"
      using Suc.prems(2) by simp
    let ?b = "buf[p := v]"
    have t: "take (p + 1) ?b = take p buf @ [v]"
      using p by (simp add: take_Suc_conv_app_nth)
    have step: "unpack_bits (Suc k) h src (int (length src)) buf p bufsz = unpack_bits k h rest (int (length rest)) ?b (p + 1) (bufsz - 1)"
      using True p ne len by (cases src) (auto simp: v_def rest_def buf_store_def)
    have "0 < bufsz - 1 \<Longrightarrow> int (p + 1) + (bufsz - 1) \<le> int (length ?b)"
      using Suc.prems(2) by simp
    from Suc.IH [OF s1(1) this] obtain buf' p' bufsz' where
      b: "unpack_bits k h rest (int (length rest)) ?b (p + 1) (bufsz - 1) = Inr (Some (src', buf', p', bufsz'))" "length buf' = length ?b"
        "p + 1 \<le> p'" "take (p + 1) buf' = take (p + 1) ?b" "0 < bufsz' \<longrightarrow> int p' + bufsz' \<le> int (length ?b)"
        "int k \<le> bufsz - 1 \<longrightarrow> p' = p + 1 + k \<and> bufsz' = bufsz - 1 - int k \<and> take p' buf' = take (p + 1) ?b @ s1"
        "0 \<le> bufsz' \<longrightarrow> int p' + bufsz' = int (p + 1) + (bufsz - 1)" "bufsz - 1 < int k \<longrightarrow> bufsz' \<le> 0"
      by blast
    have "take p (take (p + 1) buf') = take p (take (p + 1) ?b)"
      using b(4) by simp
    then have "take p buf' = take p buf"
      unfolding t using p by (simp add: min_def)
    then show ?thesis
      using b s1(2) unfolding step t by (intro exI [of _ buf'] exI [of _ p'] exI [of _ bufsz']) auto
  next
    case False
    have step: "unpack_bits (Suc k) h src (int (length src)) buf p bufsz = unpack_bits k h rest (int (length rest)) buf p bufsz"
      using False ne len by (cases src) (auto simp: rest_def)
    obtain buf' p' bufsz' where
      b: "unpack_bits k h rest (int (length rest)) buf p bufsz = Inr (Some (src', buf', p', bufsz'))" "length buf' = length buf"
        "p \<le> p'" "take p buf' = take p buf" "0 < bufsz' \<longrightarrow> int p' + bufsz' \<le> int (length buf)"
        "int k \<le> bufsz \<longrightarrow> bufsz' = bufsz - int k" "0 \<le> bufsz' \<longrightarrow> int p' + bufsz' = int p + bufsz" "bufsz < int k \<longrightarrow> bufsz' \<le> 0"
      using Suc.IH [OF s1(1), of bufsz p buf] False by blast
    then show ?thesis
      using False unfolding step by (intro exI [of _ buf'] exI [of _ p'] exI [of _ bufsz']) auto
  qed
qed simp

lemma expand_bits_append: "expand_bits k h src = Some (s, src') \<Longrightarrow> expand_bits k h (src @ rest) = Some (s, src' @ rest)"
proof (induction k arbitrary: src s)
  case (Suc k)
  then show ?case
    by (auto split: if_splits list.splits)
qed simp

lemma unpack_loop_prefix:
  assumes "unpacked src = Some out" "0 < bufsz \<Longrightarrow> int p + bufsz \<le> int (length buf)"
  shows "\<exists>buf' p' bufsz'. unpack_loop (src @ rest) buf p bufsz sz = unpack_loop rest buf' p' bufsz' (sz + length out) \<and>
    length buf' = length buf \<and> p \<le> p' \<and> take p buf' = take p buf \<and> (0 < bufsz' \<longrightarrow> int p' + bufsz' \<le> int (length buf)) \<and>
    (int (length out) \<le> bufsz \<longrightarrow> p' = p + length out \<and> bufsz' = bufsz - int (length out) \<and> take p' buf' = take p buf @ out)"
  using assms
proof (induction "length src" arbitrary: src out buf p bufsz sz rule: less_induct)
  case less
  show ?case
  proof (cases src)
    case Nil
    then show ?thesis
      using less.prems by (intro exI [of _ buf] exI [of _ p] exI [of _ bufsz]) simp
  next
    case (Cons h r)
    show ?thesis
    proof (cases "h = 0xff")
      case True
      obtain c r' where r: "r = c # r'"
        using less.prems(1) True Cons by (auto split: list.splits)
      define n where "n = (unat c + 1) * 8"
      have n: "\<not> length r' < n" "0 < n"
        using less.prems(1) True Cons r by (auto simp: Let_def n_def)
      obtain o1 where o1: "unpacked (drop n r') = Some o1" "out = take n r' @ o1"
        using less.prems(1) True Cons r n by (auto simp: Let_def n_def)
      define b1 where "b1 = (if bufsz \<ge> int n then take p buf @ take n r' @ drop (p + n) buf else buf)"
      have b1: "(if bufsz \<ge> int n then buf_copy buf p (take n r') else Inr buf) = Inr b1"
        using less.prems(2) n buf_copy_correct [of p "take n r'" buf] by (auto simp: b1_def min_def)
      have l1: "length b1 = length buf"
        using less.prems(2) n by (auto simp: b1_def)
      have t1: "take p b1 = take p buf" "int n \<le> bufsz \<Longrightarrow> take (p + n) b1 = take p buf @ take n r'"
        using less.prems(2) n by (auto simp: b1_def)
      have s: "src @ rest = h # c # r' @ rest" "take n (r' @ rest) = take n r'" "drop n (r' @ rest) = drop n r' @ rest" "\<not> length (r' @ rest) < n"
        using Cons r n by simp_all
      have step: "unpack_loop (src @ rest) buf p bufsz sz = unpack_loop (drop n r' @ rest) b1 (p + n) (bufsz - int n) (sz + n)"
        unfolding s(1) unpack_loop.simps Let_def list.case n_def [symmetric] s(2,3) using b1 s(4) True by simp
      have dec: "length (drop n r') < length src"
        using Cons r by simp
      have "0 < bufsz - int n \<Longrightarrow> int (p + n) + (bufsz - int n) \<le> int (length b1)"
        using less.prems(2) l1 by simp
      from less.hyps [OF dec o1(1) this, of "sz + n"] obtain buf' p' bufsz' where
        b: "unpack_loop (drop n r' @ rest) b1 (p + n) (bufsz - int n) (sz + n) = unpack_loop rest buf' p' bufsz' (sz + n + length o1)"
          "length buf' = length b1" "p + n \<le> p'" "take (p + n) buf' = take (p + n) b1" "0 < bufsz' \<longrightarrow> int p' + bufsz' \<le> int (length b1)"
          "int (length o1) \<le> bufsz - int n \<longrightarrow> p' = p + n + length o1 \<and> bufsz' = bufsz - int n - int (length o1) \<and> take p' buf' = take (p + n) b1 @ o1"
        by blast
      have "take p (take (p + n) buf') = take p (take (p + n) b1)"
        using b(4) by simp
      then have "take p buf' = take p buf"
        using t1(1) by (simp add: min_def)
      moreover have "length out = n + length o1"
        using o1(2) n by simp
      ultimately show ?thesis
        using b l1 t1 o1(2) unfolding step by (intro exI [of _ buf'] exI [of _ p'] exI [of _ bufsz']) (auto simp: add.assoc)
    next
      case False
      obtain s r' where e: "expand_bits 8 h r = Some (s, r')"
        using less.prems(1) False Cons by (auto split: option.splits)
      obtain o1 where o1: "unpacked r' = Some o1" "out = s @ o1"
        using less.prems(1) False Cons e by auto
      have ls: "length s = 8" "length r' \<le> length r"
        using expand_bits_shorter [OF e] by simp_all
      obtain b1 p1 z1 where u: "unpack_bits 8 h (r @ rest) (int (length (r @ rest))) buf p bufsz = Inr (Some (r' @ rest, b1, p1, z1))"
        "length b1 = length buf" "p \<le> p1" "take p b1 = take p buf" "0 < z1 \<longrightarrow> int p1 + z1 \<le> int (length buf)"
        "int 8 \<le> bufsz \<longrightarrow> p1 = p + 8 \<and> z1 = bufsz - int 8 \<and> take p1 b1 = take p buf @ s"
        using unpack_bits_correct [OF expand_bits_append [OF e] less.prems(2)] by blast
      have dec: "length r' < length src"
        using Cons ls by simp
      have "0 < z1 \<Longrightarrow> int p1 + z1 \<le> int (length b1)"
        using u(2,5) by simp
      from less.hyps [OF dec o1(1) this, of "sz + 8"] obtain buf' p' bufsz' where
        b: "unpack_loop (r' @ rest) b1 p1 z1 (sz + 8) = unpack_loop rest buf' p' bufsz' (sz + 8 + length o1)"
          "length buf' = length b1" "p1 \<le> p'" "take p1 buf' = take p1 b1" "0 < bufsz' \<longrightarrow> int p' + bufsz' \<le> int (length b1)"
          "int (length o1) \<le> z1 \<longrightarrow> p' = p1 + length o1 \<and> bufsz' = z1 - int (length o1) \<and> take p' buf' = take p1 b1 @ o1"
        by blast
      have step: "unpack_loop (src @ rest) buf p bufsz sz = unpack_loop (r' @ rest) b1 p1 z1 (sz + 8)"
        using False u(1) Cons by simp
      have "take p (take p1 buf') = take p (take p1 b1)"
        using b(4) by simp
      then have "take p buf' = take p buf"
        using u(3,4) by (simp add: min_def)
      moreover have "length out = 8 + length o1"
        using o1(2) ls by simp
      ultimately show ?thesis
        using b u(2-6) o1(2) unfolding step by (intro exI [of _ buf'] exI [of _ p'] exI [of _ bufsz']) (auto simp: add.assoc)
    qed
  qed
qed

lemma unpack_loop_correct:
  assumes "unpacked src = Some out" "0 < bufsz \<Longrightarrow> int p + bufsz \<le> int (length buf)"
  shows "\<exists>buf'. unpack_loop src buf p bufsz sz = Inr (Some (buf', sz + length out)) \<and> length buf' = length buf \<and> take p buf' = take p buf \<and>
    (int (length out) \<le> bufsz \<longrightarrow> take (p + length out) buf' = take p buf @ out)"
  using unpack_loop_prefix [OF assms, of "[]" sz] by auto

lemma unpack_correct:
  assumes "unpacked src = Some out" "bufsz \<le> length buf"
  shows "\<exists>buf'. sproto_unpack src buf bufsz = Inr (Some (buf', length out)) \<and> length buf' = length buf \<and>
    (length out \<le> bufsz \<longrightarrow> take (length out) buf' = out)"
  using unpack_loop_correct [OF assms(1), of "int bufsz" 0 buf 0] assms(2) by (auto simp: sproto_unpack_def)

section \<open>Unpacking what packing makes\<close>

lemma bit_seg_header: "m < 8 \<Longrightarrow> bit (seg_header i bs) m \<longleftrightarrow> i \<le> m \<and> m < i + length bs \<and> bs ! (m - i) \<noteq> 0"
proof (induction bs arbitrary: i)
  case (Cons b bs)
  have "bit (push_bit i 1 :: byte) m \<longleftrightarrow> m = i"
    using Cons.prems by (auto simp: bit_exp_iff)
  then have h: "bit (if b \<noteq> 0 then push_bit i 1 else (0 :: byte)) m \<longleftrightarrow> b \<noteq> 0 \<and> m = i"
    by simp
  show ?case
  proof (cases "m = i")
    case True
    then show ?thesis
      using Cons h by (simp add: bit_or_iff)
  next
    case False
    show ?thesis
    proof (cases "i + 1 \<le> m")
      case True
      then have "(b # bs) ! (m - i) = bs ! (m - (i + 1))"
        by (simp add: nth_Cons')
      then show ?thesis
        using Cons h False True by (auto simp: bit_or_iff)
    next
      case less: False
      then show ?thesis
        using Cons h False by (auto simp: bit_or_iff)
    qed
  qed
qed simp

lemma expand_packed:
  "length t \<le> 8 \<Longrightarrow> (\<And>j. j < length t \<Longrightarrow> bit h (8 - length t + j) \<longleftrightarrow> t ! j \<noteq> 0) \<Longrightarrow> expand_bits (length t) h (nonzero t @ rest) = Some (t, rest)"
proof (induction t)
  case (Cons b t)
  have b: "bit h (7 - length t) \<longleftrightarrow> b \<noteq> 0"
    using Cons.prems(2) [of 0] Cons.prems(1) by simp
  have "expand_bits (length t) h (nonzero t @ rest) = Some (t, rest)"
  proof (rule Cons.IH)
    fix j assume j: "j < length t"
    have e: "8 - length (b # t) + Suc j = 8 - length t + j"
      using Cons.prems(1) by simp
    have "bit h (8 - length (b # t) + Suc j) \<longleftrightarrow> (b # t) ! Suc j \<noteq> 0"
      using j by (intro Cons.prems(2)) simp
    then show "bit h (8 - length t + j) \<longleftrightarrow> t ! j \<noteq> 0"
      unfolding e by simp
  qed (use Cons.prems(1) in simp)
  then show ?case
    using b by simp
qed simp

lemma seg_header_not_ff:
  assumes "length s = 8" "length (nonzero s) < 8"
  shows "seg_header 0 s \<noteq> 0xff"
proof
  assume ff: "seg_header 0 s = 0xff"
  have "nonzero s \<noteq> s"
    using assms by auto
  then obtain j where j: "j < 8" "s ! j = 0"
    using assms(1) by (auto simp: nonzero_def filter_id_conv in_set_conv_nth)
  have "\<not> bit (seg_header 0 s) j"
    using bit_seg_header [OF j(1), of 0 s] j assms(1) by simp
  moreover have "bit (mask 8 :: byte) j"
    using j(1) by (simp add: bit_mask_iff)
  moreover have "(mask 8 :: byte) = 0xff"
    by (simp add: mask_eq_exp_minus_1)
  ultimately show False
    using ff by simp
qed

text \<open>\<open>a\<close> stands for \<open>x\<close> wherever it stands.\<close>

definition packs :: "bytes \<Rightarrow> bytes \<Rightarrow> bool" where
  "packs a x \<longleftrightarrow> (\<forall>rest. unpacked (a @ rest) = map_option (\<lambda>r. x @ r) (unpacked rest))"

lemma packs_Nil: "packs [] []"
  by (simp add: packs_def option.map_ident)

lemma packs_append: "packs a x \<Longrightarrow> packs b y \<Longrightarrow> packs (a @ b) (x @ y)"
  by (simp add: packs_def option.map_comp comp_def)

lemma packs_seg:
  assumes "length s = 8" "length (nonzero s) < 8"
  shows "packs (packed_seg s) s"
proof -
  have "expand_bits 8 (seg_header 0 s) (nonzero s @ rest) = Some (s, rest)" for rest
    using expand_packed [of s "seg_header 0 s" rest] assms(1) by (simp add: bit_seg_header)
  then show ?thesis
    using seg_header_not_ff [OF assms] by (simp add: packs_def packed_seg_def)
qed

lemma packs_run:
  assumes "length R = 8 * k" "k \<le> 256"
  shows "packs (packed_run R) R"
proof (cases "R = []")
  case True
  then show ?thesis
    by (simp add: packed_run_def packs_Nil)
next
  case False
  define c :: byte where "c = word_of_int (int k - 1)"
  have k: "0 < k"
    using False assms(1) by (cases "k = 0") auto
  then have "int k - 1 = int (k - 1)"
    by simp
  then have "c = of_nat (k - 1)"
    unfolding c_def by (simp only: of_int_of_nat_eq)
  then have "unat c = k - 1"
    using assms(2) by (simp add: unat_of_nat)
  then have n: "(unat c + 1) * 8 = length R"
    using k assms(1) by simp
  have "packed_run R = 0xff # c # R"
    using False assms(1) by (simp add: packed_run_def c_def)
  then show ?thesis
    by (simp only: packs_def append_Cons unpacked.simps Let_def list.case n simp_thms if_True) simp
qed

lemma fold_packs:
  assumes "\<forall>s \<in> set segs. length s = 8" "packs out x" "length R = 8 * k" "k < 256"
  shows "\<exists>out' y R' k'. foldl pack_step (out, R) segs = (out', R') \<and> packs out' y \<and> length R' = 8 * k' \<and> k' < 256 \<and> y @ R' = x @ R @ concat segs"
  using assms
proof (induction segs arbitrary: out x R k)
  case (Cons s segs)
  have ls: "length s = 8" "length (nonzero s) \<le> 8"
    using Cons.prems(1) length_nonzero [of s] by simp_all
  have step: "\<exists>out' y R' k'. pack_step (out, R) s = (out', R') \<and> packs out' y \<and> length R' = 8 * k' \<and> k' < 256 \<and> y @ R' = x @ R @ s"
  proof -
    consider (first) "R = []" "length (nonzero s) = 8" | (plain) "R = []" "length (nonzero s) < 8"
      | (last) "R \<noteq> []" "6 \<le> length (nonzero s)" "length R = 2040" | (grow) "R \<noteq> []" "6 \<le> length (nonzero s)" "length R \<noteq> 2040"
      | (close) "R \<noteq> []" "length (nonzero s) < 6"
      using ls(2) by linarith
    then show ?thesis
    proof cases
      case first
      then show ?thesis
        using Cons.prems ls by (intro exI [of _ out] exI [of _ x] exI [of _ s] exI [of _ 1]) (simp add: pack_step_def)
    next
      case plain
      then show ?thesis
        using Cons.prems(2) packs_append packs_seg [OF ls(1)]
        by (intro exI [of _ "out @ packed_seg s"] exI [of _ "x @ s"] exI [of _ "[]"] exI [of _ 0]) (simp add: pack_step_def)
    next
      case last
      then have "packs (packed_run (R @ s)) (R @ s)"
        using packs_run [of "R @ s" 256] ls by simp
      then show ?thesis
        using last Cons.prems(2) packs_append
        by (intro exI [of _ "out @ packed_run (R @ s)"] exI [of _ "x @ R @ s"] exI [of _ "[]"] exI [of _ 0]) (simp add: pack_step_def)
    next
      case grow
      then show ?thesis
        using Cons.prems ls by (intro exI [of _ out] exI [of _ x] exI [of _ "R @ s"] exI [of _ "k + 1"]) (simp add: pack_step_def)
    next
      case close
      then have "packs (packed_run R @ packed_seg s) (R @ s)"
        using packs_append [OF packs_run [OF Cons.prems(3)] packs_seg [OF ls(1)]] Cons.prems(4) by simp
      then show ?thesis
        using close Cons.prems(2) packs_append
        by (intro exI [of _ "out @ packed_run R @ packed_seg s"] exI [of _ "x @ R @ s"] exI [of _ "[]"] exI [of _ 0]) (simp add: pack_step_def)
    qed
  qed
  then obtain out1 y1 R1 k1 where s1: "pack_step (out, R) s = (out1, R1)" "packs out1 y1" "length R1 = 8 * k1" "k1 < 256" "y1 @ R1 = x @ R @ s"
    by blast
  obtain out' y R' k' where s2: "foldl pack_step (out1, R1) segs = (out', R')" "packs out' y" "length R' = 8 * k'" "k' < 256"
    "y @ R' = y1 @ R1 @ concat segs"
    using Cons.IH [OF _ s1(2-4)] Cons.prems(1) by auto
  have "y @ R' = x @ R @ concat (s # segs)"
    using s2(5) s1(5) by (simp add: append_assoc [symmetric] del: append_assoc)
  then show ?case
    using s1(1) s2 by (intro exI [of _ out'] exI [of _ y] exI [of _ R'] exI [of _ k']) simp
qed auto

definition padded_src :: "bytes \<Rightarrow> bytes" where
  "padded_src src = src @ replicate ((8 - length src mod 8) mod 8) 0"

lemma segments_length: "s \<in> set (segments xs) \<Longrightarrow> length s = 8"
proof (induction xs rule: segments.induct)
  case (1 xs)
  show ?case
  proof (cases "xs = []")
    case False
    then have "segments xs = padded8 (take 8 xs) # segments (drop 8 xs)"
      by (subst segments.simps) simp
    then show ?thesis
      using 1 False piece(2) [of xs] by auto
  qed (use 1 in \<open>simp add: segments.simps\<close>)
qed

lemma concat_segments: "concat (segments xs) = padded_src xs"
proof (induction xs rule: segments.induct)
  case (1 xs)
  show ?case
  proof (cases "xs = []")
    case False
    then have s: "segments xs = padded8 (take 8 xs) # segments (drop 8 xs)"
      by (subst segments.simps) simp
    show ?thesis
    proof (cases "length xs < 8")
      case True
      then show ?thesis
        using False by (simp add: s padded_src_def padded8_def segments.simps [of "[]"])
    next
      case long: False
      then have "length xs mod 8 = (length xs - 8) mod 8"
        by (simp add: mod_if)
      then show ?thesis
        using 1 [OF False] long unfolding s by (simp add: padded_src_def padded8_def append_assoc [symmetric] del: append_assoc)
    qed
  qed (simp add: segments.simps padded_src_def)
qed

lemma unpacked_packed: "unpacked (sproto_packed src) = Some (padded_src src)"
proof -
  obtain out y R k where f: "foldl pack_step ([], []) (segments src) = (out, R)" "packs out y" "length R = 8 * k" "k < 256"
    "y @ R = concat (segments src)"
    using fold_packs [of "segments src" "[]" "[]" "[]" 0] packs_Nil segments_length by auto
  have "packs (sproto_packed src) (y @ R)"
    unfolding sproto_packed_def f(1) using packs_append [OF f(2) packs_run [OF f(3)]] f(4) by simp
  then have "unpacked (sproto_packed src @ []) = map_option (\<lambda>r. (y @ R) @ r) (unpacked [])"
    unfolding packs_def by blast
  then show ?thesis
    using f(5) by (simp add: concat_segments)
qed

section \<open>How long it gets\<close>

definition cost_inv :: "nat \<Rightarrow> bytes \<times> bytes \<Rightarrow> bool" where
  "cost_inv m S \<longleftrightarrow> (\<exists>m0 r. m = m0 + r \<and> length (snd S) = 8 * r \<and> r < 256 \<and> length (fst S) \<le> 8 * m0 + 2 * (m0 div 256))"

lemma cost_inv_Nil: "length out \<le> 8 * m + 2 * (m div 256) \<Longrightarrow> cost_inv m (out, [])"
  by (simp add: cost_inv_def)

lemma cost_sum: "L = l + c \<Longrightarrow> l \<le> 8 * m + 2 * q \<Longrightarrow> q \<le> q' \<Longrightarrow> c \<le> 8 * (r + 1) \<Longrightarrow> L \<le> 8 * (m + r + 1) + 2 * (q' :: nat)"
  by simp

lemma cost_step:
  assumes "cost_inv m (out, R)" "length s = 8"
  shows "cost_inv (m + 1) (pack_step (out, R) s)"
proof -
  obtain m0 r where c: "m = m0 + r" "length R = 8 * r" "r < 256" "length out \<le> 8 * m0 + 2 * (m0 div 256)"
    using assms(1) by (auto simp: cost_inv_def)
  have k: "length (nonzero s) \<le> 8"
    using length_nonzero [of s] assms(2) by simp
  have mono: "m0 div 256 \<le> (m0 + d) div 256" for d
    by (intro div_le_mono) simp
  consider (first) "R = []" "length (nonzero s) = 8" | (plain) "R = []" "length (nonzero s) < 8"
    | (last) "R \<noteq> []" "6 \<le> length (nonzero s)" "length R = 2040" | (grow) "R \<noteq> []" "6 \<le> length (nonzero s)" "length R \<noteq> 2040"
    | (close) "R \<noteq> []" "length (nonzero s) < 6"
    using k by linarith
  then show ?thesis
  proof cases
    case first
    then show ?thesis
      unfolding cost_inv_def using c assms(2) by (intro exI [of _ m0] exI [of _ 1]) (simp add: pack_step_def)
  next
    case plain
    then have "pack_step (out, R) s = (out @ packed_seg s, [])" "m = m0" "length (out @ packed_seg s) = length out + length (nonzero s) + 1"
      using c by (auto simp: pack_step_def packed_seg_def)
    moreover from this have "length (out @ packed_seg s) \<le> 8 * (m + 1) + 2 * ((m + 1) div 256)"
      using cost_sum [OF _ c(4) mono [of 1], of _ "length (nonzero s) + 1" 0] plain(2) \<open>m = m0\<close> by simp
    ultimately show ?thesis
      by (simp only: cost_inv_Nil)
  next
    case last
    then have m: "m + 1 = m0 + 256" "(m + 1) div 256 = m0 div 256 + 1"
      using c by simp_all
    have "pack_step (out, R) s = (out @ packed_run (R @ s), [])" "length (out @ packed_run (R @ s)) = length out + 2050"
      using last assms(2) by (auto simp: pack_step_def packed_run_def)
    moreover from this have "length (out @ packed_run (R @ s)) \<le> 8 * (m + 1) + 2 * ((m + 1) div 256)"
      unfolding m(2) unfolding m(1) using c(4) by simp
    ultimately show ?thesis
      by (simp only: cost_inv_Nil)
  next
    case grow
    then show ?thesis
      unfolding cost_inv_def using c assms(2) by (intro exI [of _ m0] exI [of _ "r + 1"]) (simp add: pack_step_def)
  next
    case close
    then have "pack_step (out, R) s = (out @ packed_run R @ packed_seg s, [])"
      "length (out @ packed_run R @ packed_seg s) = length out + (2 + 8 * r) + length (nonzero s) + 1"
      using c by (auto simp: pack_step_def packed_seg_def packed_run_def)
    moreover from this have "length (out @ packed_run R @ packed_seg s) \<le> 8 * (m + 1) + 2 * ((m + 1) div 256)"
      using cost_sum [OF _ c(4) mono [of "r + 1"], of _ "2 + 8 * r + length (nonzero s) + 1" r] close(2) c(1) by (simp add: add.assoc)
    ultimately show ?thesis
      by (simp only: cost_inv_Nil)
  qed
qed

lemma cost_last:
  assumes "cost_inv m (out, R)" "0 < length b" "length b \<le> 8" "pack_step (out, R) (padded8 b) = (out', R')"
  shows "length (out' @ packed_run R') \<le> 8 * m + length b + 4 + 2 * (m div 256)"
proof -
  let ?s = "padded8 b"
  obtain m0 r where c: "m = m0 + r" "length R = 8 * r" "r < 256" "length out \<le> 8 * m0 + 2 * (m0 div 256)"
    using assms(1) by (auto simp: cost_inv_def)
  have "nonzero ?s = nonzero b"
    by (simp add: padded8_def nonzero_def filter_empty_conv)
  then have k: "length (nonzero ?s) \<le> length b" "length ?s = 8"
    using length_nonzero [of b] assms(3) by (simp_all add: padded8_def)
  have mono: "m0 div 256 \<le> m div 256"
    unfolding c(1) by (intro div_le_mono) simp
  consider (first) "R = []" "length (nonzero ?s) = 8" | (plain) "R = []" "length (nonzero ?s) < 8"
    | (last) "R \<noteq> []" "6 \<le> length (nonzero ?s)" "length R = 2040" | (grow) "R \<noteq> []" "6 \<le> length (nonzero ?s)" "length R \<noteq> 2040"
    | (close) "R \<noteq> []" "length (nonzero ?s) < 6"
    using k(1) assms(3) by linarith
  then show ?thesis
  proof cases
    case first
    then have "out' = out" "R' = ?s" "?s \<noteq> []"
      using assms(4) k(2) by (auto simp: pack_step_def)
    then show ?thesis
      using first c k mono assms(3) by (simp add: packed_run_def)
  next
    case plain
    then show ?thesis
      using assms(4) c k mono by (auto simp: pack_step_def packed_run_def packed_seg_def)
  next
    case last
    then have "out' = out @ packed_run (R @ ?s)" "R' = []"
      using assms(4) by (auto simp: pack_step_def)
    then show ?thesis
      using last c k mono by (simp add: packed_run_def)
  next
    case grow
    then have "out' = out" "R' = R @ ?s"
      using assms(4) by (auto simp: pack_step_def)
    then show ?thesis
      using grow c k mono by (simp add: packed_run_def)
  next
    case close
    then have "out' = out @ packed_run R @ packed_seg ?s" "R' = []"
      using assms(4) by (auto simp: pack_step_def)
    then show ?thesis
      using close c k mono by (simp add: packed_run_def packed_seg_def)
  qed
qed

lemma cost_fold:
  assumes "src \<noteq> []" "cost_inv m (out, R)" "foldl pack_step (out, R) (segments src) = (out', R')"
  shows "length (out' @ packed_run R') \<le> (8 * m + length src + 2047) div 2048 * 2 + (8 * m + length src) + 2"
  using assms
proof (induction "length src" arbitrary: src m out R rule: less_induct)
  case less
  have s: "segments src = padded8 (take 8 src) # segments (drop 8 src)"
    using less.prems(1) by (subst segments.simps) simp
  obtain out1 R1 where st: "pack_step (out, R) (padded8 (take 8 src)) = (out1, R1)"
    by (cases "pack_step (out, R) (padded8 (take 8 src))") blast
  show ?case
  proof (cases "length src \<le> 8")
    case True
    then have "out' = out1" "R' = R1"
      using less.prems(3) st unfolding s by (simp_all add: segments.simps)
    moreover have "length (out1 @ packed_run R1) \<le> 8 * m + length (take 8 src) + 4 + 2 * (m div 256)"
      by (rule cost_last [OF less.prems(2) _ _ st]) (use less.prems(1) in simp_all)
    moreover have "(8 * m + length src + 2047) div 2048 = m div 256 + 1"
    proof -
      have "0 < length src"
        using less.prems(1) by simp
      then show ?thesis
        using True by linarith
    qed
    ultimately show ?thesis
      using True by simp
  next
    case False
    have "cost_inv (m + 1) (out1, R1)"
      using cost_step [OF less.prems(2) piece(2) [OF less.prems(1)]] st by simp
    moreover have "foldl pack_step (out1, R1) (segments (drop 8 src)) = (out', R')"
      using less.prems(3) st unfolding s by simp
    moreover have "8 * (m + 1) + length (drop 8 src) = 8 * m + length src"
      using False by simp
    ultimately show ?thesis
      using less.hyps [of "drop 8 src" "m + 1" out1 R1] False less.prems(1) by simp
  qed
qed

lemma packed_length: "length (sproto_packed src) \<le> (length src + 2047) div 2048 * 2 + length src + 2"
proof (cases "src = []")
  case True
  then show ?thesis
    by (simp add: sproto_packed_def segments.simps packed_run_def)
next
  case False
  obtain out R where f: "foldl pack_step ([], []) (segments src) = (out, R)"
    by (cases "foldl pack_step ([], []) (segments src)") blast
  have "cost_inv 0 ([], [])"
    by (simp add: cost_inv_def)
  from cost_fold [OF False this f] show ?thesis
    by (simp add: sproto_packed_def f)
qed

section \<open>The functions of Lua\<close>

lemma double_until_bounds: "0 < osz \<Longrightarrow> nsz \<le> double_until osz nsz \<and> (osz < nsz \<longrightarrow> double_until osz nsz < 2 * nsz)"
proof (induction osz nsz rule: double_until.induct)
  case (1 osz nsz)
  show ?case
  proof (cases "osz * 2 < nsz")
    case True
    then show ?thesis
      using 1 by (simp add: double_until.simps [of osz nsz])
  next
    case False
    then show ?thesis
      using 1(2) by (simp add: double_until.simps [of osz nsz])
  qed
qed

lemma expand_buffer_correct:
  assumes "0 < osz" "osz < nsz" "2 * nsz \<le> ENCODE_MAXSIZE" "\<And>n. length (fresh n) = n"
  shows "\<exists>b. expand_buffer fresh osz nsz = Inr b \<and> nsz \<le> length b"
  using double_until_bounds [OF assms(1), of nsz] assms by (simp add: expand_buffer_def Let_def)

lemma sproto_lpack_correct:
  assumes "\<And>n. length (fresh n) = n" "output \<noteq> []" "length src \<le> 2 ^ 22" "length src < 2046 \<or> length src mod 8 < 6"
  shows "\<exists>output'. sproto_lpack fresh output src = Inr (Inr (sproto_packed src, output')) \<and> (length src + 2047) div 2048 * 2 + length src + 2 \<le> length output'"
proof -
  define maxsz where "maxsz = (length src + 2047) div 2048 * 2 + length src + 2"
  have "(length src + 2047) div 2048 \<le> (2 ^ 22 + 2047) div 2048"
    by (rule div_le_mono) (use assms(3) in simp)
  then have m: "2 * maxsz \<le> ENCODE_MAXSIZE"
    using assms(3) by (simp add: maxsz_def ENCODE_MAXSIZE_def)
  obtain b where b: "(if length output < maxsz then expand_buffer fresh (length output) maxsz else Inr output) = Inr b" "maxsz \<le> length b"
    using expand_buffer_correct [of "length output" maxsz fresh] assms(1,2) m by (cases "length output < maxsz") auto
  obtain buf' where p: "sproto_pack src b maxsz = Inr (buf', length (sproto_packed src))" "length buf' = length b"
    "length (sproto_packed src) \<le> maxsz \<longrightarrow> take (length (sproto_packed src)) buf' = sproto_packed src"
    using pack_correct [OF b(2) assms(4)] by blast
  have l: "length (sproto_packed src) \<le> maxsz"
    using packed_length [of src] by (simp add: maxsz_def)
  have "sproto_lpack fresh output src = Inr (Inr (sproto_packed src, buf'))"
    unfolding sproto_lpack_def Let_def maxsz_def [symmetric] b(1) using p(1,3) l by simp
  then show ?thesis
    using p(2) b(2) by (auto simp: maxsz_def)
qed

lemma sproto_lunpack_correct:
  assumes "\<And>n. length (fresh n) = n" "output \<noteq> []" "unpacked z = Some src" "2 * length src \<le> ENCODE_MAXSIZE"
  shows "\<exists>output'. sproto_lunpack fresh output z = Inr (Inr (src, output'))"
proof -
  obtain b1 where u: "sproto_unpack z output (length output) = Inr (Some (b1, length src))" "length b1 = length output"
    "length src \<le> length output \<longrightarrow> take (length src) b1 = src"
    using unpack_correct [OF assms(3), where bufsz = "length output" and buf = "output"] by auto
  show ?thesis
  proof (cases "length output < length src")
    case True
    obtain b where b: "expand_buffer fresh (length output) (length src) = Inr b" "length src \<le> length b"
      using expand_buffer_correct [OF _ True assms(4,1)] assms(2) by auto
    obtain b2 where "sproto_unpack z b (length src) = Inr (Some (b2, length src))" "take (length src) b2 = src"
      using unpack_correct [OF assms(3) b(2)] by auto
    then show ?thesis
      using u(1) b(1) True by (simp add: sproto_lunpack_def Let_def)
  next
    case False
    then show ?thesis
      using u by (simp add: sproto_lunpack_def Let_def)
  qed
qed

section \<open>Where the bounds are not checked\<close>

lemma cut_off_bits:
  assumes "bit h j" "8 - k \<le> j" "j < 8" "int k \<le> bufsz" "int p + bufsz \<le> int (length buf)"
  shows "unpack_bits k h [] 0 buf p bufsz = Inl Out_Of_Bounds"
  using assms
proof (induction k arbitrary: buf p bufsz)
  case (Suc k)
  show ?case
  proof (cases "bit h (7 - k)")
    case False
    then have "j \<noteq> 7 - k"
      using Suc.prems(1) by blast
    then have "8 - k \<le> j"
      using Suc.prems(2,3) by simp
    then have "unpack_bits k h [] 0 (buf[p := 0]) (p + 1) (bufsz - 1) = Inl Out_Of_Bounds"
      using Suc.prems by (intro Suc.IH) simp_all
    then show ?thesis
      using False Suc.prems(4,5) by (simp add: buf_store_def)
  qed (use Suc.prems(4) in simp)
qed simp

lemma cut_off:
  assumes "h \<noteq> 0" "8 \<le> bufsz" "int p + bufsz \<le> int (length buf)"
  shows "unpack_loop [h] buf p bufsz sz = Inl Out_Of_Bounds"
proof -
  obtain j where j: "bit h j"
    using assms(1) by (auto simp: bit_eq_iff)
  then have "j < 8"
    using bit_imp_le_length [OF j] by simp
  then have "unpack_bits 8 h [] 0 buf p bufsz = Inl Out_Of_Bounds"
    using cut_off_bits [OF j, of 8] assms(2,3) by simp
  then show ?thesis
    by simp
qed

lemma cut_off_run:
  assumes "length body < (unat c + 1) * 8"
  shows "unpack_loop (0xff # c # body) buf p bufsz sz = Inr None"
  using assms by (simp add: Let_def)

text \<open>\<open>n\<close> rounds over a source without zeros are one run.\<close>

lemma nonzero_all: "0 \<notin> set xs \<Longrightarrow> nonzero xs = xs"
  by (auto simp: nonzero_def filter_id_conv)

lemma long_run:
  assumes st: "pack_inv src bufsz 0 ([], []) st" and src: "0 \<notin> set src" "8 * n \<le> length src" "n < 256"
  shows "\<exists>st'. pack_loop 0 src st = pack_loop (8 * n) (drop (8 * n) src) st' \<and> pack_inv src bufsz (8 * n) ([], take (8 * n) src) st'"
  using src(2,3)
proof (induction n)
  case 0
  then show ?case
    using st by (intro exI [of _ st]) simp
next
  case (Suc n)
  then obtain st' where st': "pack_loop 0 src st = pack_loop (8 * n) (drop (8 * n) src) st'" "pack_inv src bufsz (8 * n) ([], take (8 * n) src) st'"
    by auto
  define rem where "rem = drop (8 * n) src"
  have rem: "8 \<le> length rem" "rem \<noteq> []"
    using Suc.prems(1) by (auto simp: rem_def)
  have "0 \<notin> set (take 8 rem)"
    using src(1) unfolding rem_def by (blast dest: in_set_takeD in_set_dropD)
  then have s: "padded8 (take 8 rem) = take 8 rem" "length (nonzero (take 8 rem)) = 8"
    using rem(1) nonzero_all [of "take 8 rem"] by (simp_all add: padded8_def)
  obtain st1 where st1: "pack_round (8 * n) rem st' = Inr st1" "pack_inv src bufsz (8 * n + 8) (pack_step ([], take (8 * n) src) (take 8 rem)) st1"
    using pack_round_inv [OF st'(2) rem_def rem(2)] Suc.prems(1) rem(1) s(1) by auto
  have "take (8 * Suc n) src = take (8 * n) src @ take 8 rem"
    unfolding rem_def mult_Suc_right add.commute [of 8] by (rule take_add)
  moreover have "length (take (8 * n) src) \<noteq> 2040"
    using Suc.prems by simp
  ultimately have "pack_step ([], take (8 * n) src) (take 8 rem) = ([], take (8 * Suc n) src)"
    using s(2) by (auto simp: pack_step_def)
  moreover have "pack_loop (8 * n) rem st' = pack_loop (8 * Suc n) (drop (8 * Suc n) src) st1"
    using rem(2) st1(1) by (subst pack_loop.simps) (simp add: rem_def add.commute)
  ultimately show ?case
    using st' st1(2) by (auto simp: rem_def add.commute)
qed

lemma run_overread:
  assumes src: "0 \<notin> set src" "2046 \<le> length src" "length src < 2048" and buf: "2050 \<le> bufsz" "bufsz \<le> length buf"
  shows "sproto_pack src buf bufsz = Inl Out_Of_Bounds"
proof -
  let ?st = "\<lparr>pk_buf = buf, pk_pos = 0, pk_bufsz = int bufsz, pk_size = 0, pk_ff_src = [], pk_ff_off = 0, pk_ff_des = 0, pk_ff_n = 0\<rparr>"
  have "pack_inv src bufsz 0 ([], []) ?st"
    using buf(2) by (simp add: pack_inv_def)
  from long_run [OF this src(1), of 255] src(2) obtain st where
    st: "pack_loop 0 src ?st = pack_loop 2040 (drop 2040 src) st" "pack_inv src bufsz 2040 ([], take 2040 src) st"
    by auto
  define rem where "rem = drop 2040 src"
  define s where "s = padded8 (take 8 rem)"
  have rem: "6 \<le> length rem" "length rem < 8" "rem \<noteq> []"
    using src by (auto simp: rem_def)
  have run: "take 2040 src \<noteq> []" "length (take 2040 src) = 2040"
    using src(2) by auto
  have ff: "pk_ff_n st = 255" "pk_pos st = 2042" "pk_bufsz st = int bufsz - 2042" "bufsz \<le> length (pk_buf st)" "pk_ff_src st = src"
  proof -
    have i: "int (pk_pos st) + pk_bufsz st = int bufsz" "bufsz \<le> length (pk_buf st)" "pk_pos st = 2042" "8 * pk_ff_n st = 2040" "pk_ff_off st + 2040 = 2040"
      "pk_ff_src st = drop (pk_ff_off st) src"
      using st(2) run unfolding pack_inv_def prod.case by simp_all
    then have "pk_ff_off st = 0"
      by linarith
    then show "pk_ff_n st = 255" "pk_pos st = 2042" "pk_bufsz st = int bufsz - 2042" "bufsz \<le> length (pk_buf st)" "pk_ff_src st = src"
      using i by simp_all
  qed
  have "nonzero s = nonzero rem"
    using rem(2) by (simp add: s_def padded8_def nonzero_def filter_empty_conv)
  moreover have "nonzero rem = rem"
    using src(1) by (intro nonzero_all) (auto simp: rem_def dest: in_set_dropD)
  ultimately have cost: "seg_cost s 255 = 8"
    using rem(1) by (simp add: seg_cost_def in_run_def)
  have ls: "length s = 8"
    unfolding s_def by (rule piece(2) [OF rem(3)])
  obtain buf' where seg: "pack_seg (s @ drop 8 rem) (pk_buf st) 2042 (int bufsz - 2042) 255 = Inr (buf', 8)"
    using pack_seg_correct [OF ls, of 2042 "int bufsz - 2042" "pk_buf st" "drop 8 rem" 255] ff(4) cost by auto
  have padded: "(if length rem < 8 then rem @ replicate (8 - length rem) 0 else rem) = s @ drop 8 rem"
    unfolding s_def by (rule piece(1) [OF rem(3)])
  have "pack_round 2040 rem st = Inl Out_Of_Bounds"
    using seg ff src(3) buf(1) by (simp add: pack_round_def padded flush_ff_def write_ff_def Let_def)
  then have "pack_loop 2040 rem st = Inl Out_Of_Bounds"
    using rem(3) by (subst pack_loop.simps) simp
  then show ?thesis
    using st(1) by (simp add: sproto_pack_def rem_def)
qed

section \<open>Properties\<close>





text \<open>C33: a packed string that is cut off inside the body of a run is refused with -1, but one that ends right behind
  a header makes \<open>sproto_unpack\<close> read the byte behind the string: its tests are \<open>srcsz < 0\<close> where \<open>srcsz < 1\<close> is meant.\<close>

theorem sproto_unpack_cut_off:
  assumes "h \<noteq> 0" "length src + 15 \<le> bufsz" "bufsz \<le> length buf" "length body < (unat c + 1) * 8"
  shows "sproto_unpack (sproto_packed src @ [0xff, c] @ body) buf bufsz = Inr None \<and>
    sproto_unpack (sproto_packed src @ [h]) buf bufsz = Inl Out_Of_Bounds"
proof
  have l: "length (padded_src src) \<le> length src + 7"
    by (simp add: padded_src_def)
  obtain buf1 p1 z1 where "unpack_loop (sproto_packed src @ [0xff, c] @ body) buf 0 (int bufsz) 0 =
      unpack_loop ([0xff, c] @ body) buf1 p1 z1 (0 + length (padded_src src))"
    using unpack_loop_prefix [OF unpacked_packed, of "int bufsz" 0 buf src "[0xff, c] @ body" 0] assms(3) by auto
  then show "sproto_unpack (sproto_packed src @ [0xff, c] @ body) buf bufsz = Inr None"
    using cut_off_run [OF assms(4)] by (simp add: sproto_unpack_def)
  obtain buf2 p2 z2 where u: "unpack_loop (sproto_packed src @ [h]) buf 0 (int bufsz) 0 = unpack_loop [h] buf2 p2 z2 (0 + length (padded_src src))"
    "length buf2 = length buf" "0 < z2 \<longrightarrow> int p2 + z2 \<le> int (length buf)"
    "int (length (padded_src src)) \<le> int bufsz \<longrightarrow> z2 = int bufsz - int (length (padded_src src))"
    using unpack_loop_prefix [OF unpacked_packed, of "int bufsz" 0 buf src "[h]" 0] assms(3) by auto
  then have "unpack_loop [h] buf2 p2 z2 (0 + length (padded_src src)) = Inl Out_Of_Bounds"
    using l assms(2) by (intro cut_off [OF assms(1)]) auto
  then show "sproto_unpack (sproto_packed src @ [h]) buf bufsz = Inl Out_Of_Bounds"
    using u(1) by (simp add: sproto_unpack_def)
qed

theorem sproto_unpack_cut_off_witness:
  "sproto_unpack (sproto_packed [25] @ [0xff, 0, 1, 2]) (replicate 20 0) 20 = Inr None \<and>
   sproto_unpack (sproto_packed [25] @ [0x51]) (replicate 20 0) 20 = Inl Out_Of_Bounds"
  using sproto_unpack_cut_off [of "0x51" "[25]" 20 "replicate 20 0" "[1, 2]" 0] by simp

text \<open>C32: a source of 2046 or 2047 bytes none of which is zero is one run whose 256th piece is not whole; the run is
  written with all its \<open>256 * 8\<close> bytes, so up to two bytes behind the source are read.\<close>

theorem sproto_pack_overread:
  assumes "0 \<notin> set src" "2046 \<le> length src" "length src < 2048" "2050 \<le> bufsz" "bufsz \<le> length buf"
  shows "sproto_pack src buf bufsz = Inl Out_Of_Bounds"
  using assms by (rule run_overread)

theorem sproto_pack_overread_witness: "sproto_pack (replicate 2046 1) (replicate 2050 0) 2050 = Inl Out_Of_Bounds"
  using sproto_pack_overread [of "replicate 2046 1" 2050 "replicate 2050 0"] by simp

end
