(* ===== verification/SkynetSocket.thy ===== *)
theory SkynetSocket
  imports Server SocketServer
begin

text \<open>
  \<open>skynet_socket.c\<close>: the socket thread turns each result of the socket server into a message of the service that owns the
  socket; the calls of the services pass their handle on as the \<open>opaque\<close> of the socket. \<open>socket_unpack\<close> is the function of
  \<open>lua-socket.c\<close> that takes such a message apart in a Lua service.
\<close>

section \<open>The socket thread\<close>

definition PTYPE_SOCKET :: u64 where "PTYPE_SOCKET = 6"

text \<open>The text behind a padded message: the C string \<open>result->data\<close>, cut at 128 characters.\<close>

definition padding_text :: "poll_data \<Rightarrow> string res" where
  "padding_text data = (case data of
     No_Data \<Rightarrow> Inr []
   | Text s \<Rightarrow> Inr (take 128 s)
   | Sys_Text s \<Rightarrow> Inr (take 128 s)
   | Buffer bs \<Rightarrow> if 0 \<in> set bs then Inr (take 128 (map (\<lambda>b. char_of (unat b)) (takeWhile (\<lambda>b. b \<noteq> 0) bs))) else Inl Out_Of_Bounds)"

definition buffer_of :: "poll_data \<Rightarrow> bytes option" where
  "buffer_of data = (case data of No_Data \<Rightarrow> None | Buffer bs \<Rightarrow> Some bs | Text s \<Rightarrow> Some (text_bytes s @ [0]) | Sys_Text s \<Rightarrow> Some (text_bytes s @ [0]))"

definition forward_message :: "services \<Rightarrow> socket_type \<Rightarrow> bool \<Rightarrow> poll_message \<Rightarrow> node \<Rightarrow> node res" where
  "forward_message sv type padding result nd =
     res_bind (if padding then padding_text (pm_data result) else Inr []) (\<lambda>txt.
     let sz = SIZEOF_SOCKET_MESSAGE + length txt;
         sm = \<lparr>sm_type = type, sm_id = word_of_int (pm_id result), sm_ud = word_of_int (pm_ud result),
           sm_buffer = (if padding then None else buffer_of (pm_data result)), sm_padding = txt\<rparr> in
     res_bind (skynet_context_push sv nd (ucast (pm_opaque result))
       \<lparr>msg_source = 0, msg_session = 0, msg_data = Some (Sock sm), msg_sz = word_of_nat sz OR push_bit MESSAGE_TYPE_SHIFT PTYPE_SOCKET\<rparr>)
     (\<lambda>(_, nd). Inr nd))"

text \<open>
  \<open>socket_server_poll\<close> goes round until a round gives a result; each round has its answers of the operating system and its
  events. \<open>mr\<close> (\<open>more\<close>) is cleared when it waits for events. \<open>None\<close>: the answers do not suffice, it still waits.
\<close>

fun socket_server_poll :: "(sys \<times> poll_event list) list \<Rightarrow> bool \<Rightarrow> socket_server \<Rightarrow> (poll_result \<times> bool \<times> socket_server) res option" where
  "socket_server_poll [] mr ss = None"
| "socket_server_poll ((os, evs) # env) mr ss =
     (let waits = (\<not> (ss_checkctrl ss \<and> ss_pipe ss \<noteq> []) \<and> ss_ev ss = []); mr = (mr \<and> \<not> waits) in
      (case poll_round os evs ss of None \<Rightarrow> None | Some (Inl e) \<Rightarrow> Some (Inl e)
       | Some (Inr (Return r, ss)) \<Rightarrow> Some (Inr (r, mr, ss))
       | Some (Inr (Again, ss)) \<Rightarrow> socket_server_poll env mr ss))"

definition forward_result :: "services \<Rightarrow> poll_type \<Rightarrow> poll_message \<Rightarrow> node \<Rightarrow> node res" where
  "forward_result sv type result nd = (case type of
     SOCKET_EXIT \<Rightarrow> Inr nd
   | SOCKET_DATA \<Rightarrow> forward_message sv T_Data False result nd
   | SOCKET_CLOSE \<Rightarrow> forward_message sv T_Close False result nd
   | SOCKET_OPEN \<Rightarrow> forward_message sv T_Connect True result nd
   | SOCKET_ERROR \<Rightarrow> forward_message sv T_Error True result nd
   | SOCKET_ACCEPT \<Rightarrow> forward_message sv T_Accept True result nd
   | SOCKET_UDP \<Rightarrow> forward_message sv T_Udp False result nd)"

definition skynet_socket_poll ::
    "services \<Rightarrow> (sys \<times> poll_event list) list \<Rightarrow> socket_server \<Rightarrow> node \<Rightarrow> (int \<times> socket_server \<times> node) res option" where
  "skynet_socket_poll sv env ss nd = res_obind (socket_server_poll env True ss) (\<lambda>(r, mr, ss). Some (case r of
     None \<Rightarrow> res_bind (skynet_error sv nd None ''Unknown socket message type -1.'') (\<lambda>nd. Inr (-1, ss, nd))
   | Some (type, result) \<Rightarrow>
       if type = SOCKET_EXIT then Inr (0, ss, nd)
       else res_bind (forward_result sv type result nd) (\<lambda>nd. Inr (if mr then -1 else 1, ss, nd))))"

section \<open>Calls of the services\<close>

definition handle_opaque :: "node \<Rightarrow> addr \<Rightarrow> u64 res" where
  "handle_opaque nd ctx = res_bind (skynet_context_handle nd ctx) (\<lambda>h. Inr (ucast h))"

text \<open>More than 1 MB waits to be sent: the service warns itself.\<close>

definition check_wsz :: "services \<Rightarrow> addr \<Rightarrow> int \<Rightarrow> int \<Rightarrow> node \<Rightarrow> (int \<times> node) res" where
  "check_wsz sv ctx id' wsz nd =
     (if wsz < 0 then Inr (-1, nd)
      else if wsz > 1024 * 1024 then
        (let tmp = \<lparr>sm_type = T_Warning, sm_id = word_of_int id', sm_ud = word_of_int (wsz div 1024), sm_buffer = None, sm_padding = []\<rparr> in
         res_bind (skynet_context_handle nd ctx) (\<lambda>h.
         res_bind (skynet_send sv nd (Some ctx) 0 h (ucast PTYPE_SOCKET) 0 (Some (Sock tmp)) (word_of_nat SIZEOF_SOCKET_MESSAGE)) (\<lambda>(_, nd).
           Inr (0, nd))))
      else Inr (0, nd))"

definition skynet_socket_send :: "services \<Rightarrow> addr \<Rightarrow> int \<Rightarrow> bytes \<Rightarrow> int \<Rightarrow> socket_server \<times> node \<Rightarrow> (int \<times> socket_server \<times> node) res" where
  "skynet_socket_send sv ctx id' buffer sz = (\<lambda>(ss, nd). res_bind (socket_server_send id' buffer sz ss) (\<lambda>(wsz, ss).
     res_bind (check_wsz sv ctx id' wsz nd) (\<lambda>(r, nd). Inr (r, ss, nd))))"

definition skynet_socket_send_lowpriority :: "int \<Rightarrow> bytes \<Rightarrow> int \<Rightarrow> socket_server \<Rightarrow> socket_server res" where
  "skynet_socket_send_lowpriority id' buffer sz ss = socket_server_send_lowpriority id' buffer sz ss"

definition skynet_socket_listen :: "node \<Rightarrow> addr \<Rightarrow> int option \<Rightarrow> socket_server \<Rightarrow> (int option \<times> socket_server) res" where
  "skynet_socket_listen nd ctx listened ss = res_bind (handle_opaque nd ctx) (\<lambda>source. Inr (socket_server_listen source listened ss))"

definition skynet_socket_connect :: "node \<Rightarrow> addr \<Rightarrow> string \<Rightarrow> socket_server \<Rightarrow> (int option \<times> socket_server) res" where
  "skynet_socket_connect nd ctx host ss = res_bind (handle_opaque nd ctx) (\<lambda>source. Inr (socket_server_connect source host ss))"

definition skynet_socket_bind :: "node \<Rightarrow> addr \<Rightarrow> int \<Rightarrow> socket_server \<Rightarrow> (int option \<times> socket_server) res" where
  "skynet_socket_bind nd ctx fd ss = res_bind (handle_opaque nd ctx) (\<lambda>source. Inr (socket_server_bind source fd ss))"

definition skynet_socket_close :: "node \<Rightarrow> addr \<Rightarrow> int \<Rightarrow> socket_server \<Rightarrow> socket_server res" where
  "skynet_socket_close nd ctx id' ss = res_bind (handle_opaque nd ctx) (\<lambda>source. Inr (socket_server_close source id' ss))"

definition skynet_socket_shutdown :: "node \<Rightarrow> addr \<Rightarrow> int \<Rightarrow> socket_server \<Rightarrow> socket_server res" where
  "skynet_socket_shutdown nd ctx id' ss = res_bind (handle_opaque nd ctx) (\<lambda>source. Inr (socket_server_shutdown source id' ss))"

definition skynet_socket_start :: "node \<Rightarrow> addr \<Rightarrow> int \<Rightarrow> socket_server \<Rightarrow> socket_server res" where
  "skynet_socket_start nd ctx id' ss = res_bind (handle_opaque nd ctx) (\<lambda>source. Inr (socket_server_start source id' ss))"

definition skynet_socket_nodelay :: "int \<Rightarrow> socket_server \<Rightarrow> socket_server" where
  "skynet_socket_nodelay id' ss = socket_server_nodelay id' ss"

definition skynet_socket_udp :: "node \<Rightarrow> addr \<Rightarrow> (int \<times> bool) option \<Rightarrow> socket_server \<Rightarrow> (int option \<times> socket_server) res" where
  "skynet_socket_udp nd ctx bound ss = res_bind (handle_opaque nd ctx) (\<lambda>source. Inr (socket_server_udp source bound ss))"

definition skynet_socket_udp_connect :: "int \<Rightarrow> bytes option \<Rightarrow> socket_server \<Rightarrow> bool \<times> socket_server" where
  "skynet_socket_udp_connect id' resolved ss = socket_server_udp_connect id' resolved ss"

definition skynet_socket_udp_send ::
    "services \<Rightarrow> addr \<Rightarrow> int \<Rightarrow> bytes \<Rightarrow> bytes \<Rightarrow> int \<Rightarrow> socket_server \<times> node \<Rightarrow> (int \<times> socket_server \<times> node) res" where
  "skynet_socket_udp_send sv ctx id' address buffer sz = (\<lambda>(ss, nd). res_bind (socket_server_udp_send id' address buffer sz ss) (\<lambda>(wsz, ss).
     res_bind (check_wsz sv ctx id' wsz nd) (\<lambda>(r, nd). Inr (r, ss, nd))))"

definition skynet_socket_udp_address :: "socket_message \<Rightarrow> bytes option res" where
  "skynet_socket_udp_address msg = (if sm_type msg \<noteq> T_Udp then Inr None
     else case sm_buffer msg of None \<Rightarrow> Inl Bad_Pointer
       | Some data \<Rightarrow> if length data \<le> unat (sm_ud msg) then Inl Out_Of_Bounds else Inr (socket_server_udp_address data (unat (sm_ud msg))))"

section \<open>In a Lua service\<close>

text \<open>What \<open>lunpack\<close> returns: type, id and ud as numbers, a string or the buffer, and the address of a datagram.\<close>

fun type_number :: "socket_type \<Rightarrow> int" where
  "type_number T_Data = 1" | "type_number T_Connect = 2" | "type_number T_Close = 3" | "type_number T_Accept = 4"
| "type_number T_Error = 5" | "type_number T_Udp = 6" | "type_number T_Warning = 7"

definition socket_unpack :: "socket_message \<Rightarrow> int \<Rightarrow> (int \<times> int \<times> int \<times> (string + bytes) \<times> bytes option) res" where
  "socket_unpack message sz =
     res_bind (case sm_buffer message of
         None \<Rightarrow> if sz < int SIZEOF_SOCKET_MESSAGE \<or> int SIZEOF_SOCKET_MESSAGE + int (length (sm_padding message)) < sz then Inl Out_Of_Bounds
           else Inr (Inl (take (nat sz - SIZEOF_SOCKET_MESSAGE) (sm_padding message)))
       | Some buffer \<Rightarrow> Inr (Inr buffer)) (\<lambda>data.
     res_bind (if sm_type message = T_Udp then skynet_socket_udp_address message else Inr None) (\<lambda>addr.
       Inr (type_number (sm_type message), sint (sm_id message), sint (sm_ud message), data, addr)))"

section \<open>The results of the socket server\<close>

text \<open>What comes with each type: data, a datagram with the address of its sender behind it, nothing, or a text.\<close>

definition is_text :: "poll_data \<Rightarrow> bool" where
  "is_text d \<longleftrightarrow> (\<exists>s. d = Text s \<or> d = Sys_Text s)"

definition is_datagram :: "poll_message \<Rightarrow> bool" where
  "is_datagram m \<longleftrightarrow> (\<exists>d p peer. pm_data m = Buffer (d @ gen_udp_address p peer) \<and> pm_ud m = int (length d) \<and> length d < 2 ^ 16 \<and>
     (p = PROTOCOL_UDP \<and> length peer = 6 \<or> p = PROTOCOL_UDPv6 \<and> length peer = 18))"

definition result_ok :: "poll_result \<Rightarrow> bool" where
  "result_ok r \<longleftrightarrow> (case r of None \<Rightarrow> True | Some (t, m) \<Rightarrow> (case t of
     SOCKET_DATA \<Rightarrow> (\<exists>bs. pm_data m = Buffer bs \<and> bs \<noteq> [] \<and> pm_ud m = int (length bs))
   | SOCKET_UDP \<Rightarrow> is_datagram m
   | SOCKET_CLOSE \<Rightarrow> pm_data m = No_Data \<and> pm_ud m = 0
   | SOCKET_EXIT \<Rightarrow> True
   | _ \<Rightarrow> is_text (pm_data m)))"

lemma result_ok_simps [simp]:
  "result_ok None"
  "result_ok (Some (SOCKET_DATA, m)) \<longleftrightarrow> (\<exists>bs. pm_data m = Buffer bs \<and> bs \<noteq> [] \<and> pm_ud m = int (length bs))"
  "result_ok (Some (SOCKET_UDP, m)) \<longleftrightarrow> is_datagram m"
  "result_ok (Some (SOCKET_CLOSE, m)) \<longleftrightarrow> pm_data m = No_Data \<and> pm_ud m = 0"
  "result_ok (Some (SOCKET_EXIT, m))"
  "result_ok (Some (SOCKET_OPEN, m)) \<longleftrightarrow> is_text (pm_data m)"
  "result_ok (Some (SOCKET_ERROR, m)) \<longleftrightarrow> is_text (pm_data m)"
  "result_ok (Some (SOCKET_ACCEPT, m)) \<longleftrightarrow> is_text (pm_data m)"
  "is_text (Text s)" "is_text (Sys_Text s)"
  by (simp_all add: result_ok_def is_text_def)

lemma force_close_message: "force_close ss i = Inr (m, ss') \<Longrightarrow> pm_data m = No_Data \<and> pm_ud m = 0"
  by (auto simp: force_close_def Let_def message_of_def split: if_splits)

lemma closing_ok: "closing (force_close ss i) SOCKET_CLOSE = Inr (r, ss') \<Longrightarrow> result_ok r"
  by (auto simp: closing_def res_bind_Inr_iff dest: force_close_message)

lemma send_list_event: "send_list ws p i ss = Some (Inr (ws', r, ss')) \<Longrightarrow> result_ok r"
proof -
  have tcp: "send_list_tcp ws p i ss = Some (Inr (ws', r, ss')) \<Longrightarrow> result_ok r"
    by (induction ws p i ss rule: send_list_tcp.induct)
      (auto simp: Let_def res_bind_Inr_iff split: if_splits list.splits write_answer.splits dest: force_close_message)
  have udp: "send_list_udp ws p i ss = Some (Inr (ws', r, ss')) \<Longrightarrow> result_ok r"
    by (induction ws p i ss rule: send_list_udp.induct) (auto simp: Let_def split: if_splits list.splits write_answer.splits)
  assume "send_list ws p i ss = Some (Inr (ws', r, ss'))"
  then show ?thesis
    using tcp udp by (auto simp: send_list_def split: if_splits)
qed

lemma res_obind_Some_Inr: "res_obind r f = Some (Inr y) \<longleftrightarrow> (\<exists>x. r = Some (Inr x) \<and> f x = Some (Inr y))"
  by (auto simp: res_obind_def split: option.splits sum.splits)

lemma send_buffer_event: "send_buffer ws i ss = Some (Inr (ws', r, ss')) \<Longrightarrow> result_ok r"
  by (auto simp: send_buffer_def Let_def res_obind_Some_Inr res_bind_Inr_iff closing_def split: if_splits dest: send_list_event force_close_message)

lemma send_socket_event: "send_socket os id' buffer sz p addr ss = Some (Inr (r, ss')) \<Longrightarrow> result_ok r"
  by (auto simp: send_socket_def Let_def res_obind_Some_Inr split: if_splits list.splits write_answer.splits dest: closing_ok)

lemma close_socket_event: "close_socket os id' sh opaque ss = Some (Inr (r, ss')) \<Longrightarrow> result_ok r"
  by (auto simp: close_socket_def Let_def res_obind_Some_Inr res_bind_Inr_iff split: if_splits dest: send_buffer_event force_close_message)

lemma ctrl_switch_ok: "ctrl_switch os req ss = Some (Inr (r, ss')) \<Longrightarrow> result_ok r"
  by (cases req)
    (auto simp: ctrl_switch_def start_socket_def bind_socket_def listen_socket_def open_socket_def set_udp_address_def add_udp_socket_def Let_def
      res_bind_Inr_iff split: if_splits connect_answer.splits dest: send_socket_event close_socket_event)

lemma report_connect_event: "report_connect os i ss = Inr (r, ss') \<Longrightarrow> result_ok r"
  by (auto simp: report_connect_def Let_def res_bind_Inr_iff split: option.splits)

lemma report_accept_ok: "report_accept os i ss = Inr (r, ss') \<Longrightarrow> result_ok r"
  by (auto simp: report_accept_def Let_def res_bind_Inr_iff split: accept_answer.splits option.splits prod.splits if_splits)

lemma forward_message_tcp_event: "forward_message_tcp os i ss = Inr (r, ss') \<Longrightarrow> result_ok r"
  by (auto simp: forward_message_tcp_def Let_def res_bind_Inr_iff split: read_answer.splits if_splits dest: closing_ok)

lemma forward_message_udp_event:
  assumes "length (os_peer os) = 6 \<or> length (os_peer os) = 18" "forward_message_udp os i ss = Inr (r, ss')"
  shows "result_ok r"
proof (cases "os_read os")
  case (Got d)
  define p where "p = (if length (os_peer os) = 6 then PROTOCOL_UDP else PROTOCOL_UDPv6)"
  have "p = PROTOCOL_UDP \<and> length (os_peer os) = 6 \<or> p = PROTOCOL_UDPv6 \<and> length (os_peer os) = 18"
    using assms(1) by (auto simp: p_def)
  moreover have "r = None \<or> r = Some (SOCKET_UDP, \<lparr>pm_id = sk_id (ss_slot ss i), pm_opaque = sk_opaque (ss_slot ss i),
      pm_ud = int (length (take 65535 d)), pm_data = Buffer (take 65535 d @ gen_udp_address p (os_peer os))\<rparr>)"
    using assms(2) Got by (auto simp: forward_message_udp_def Let_def p_def split: if_splits)
  ultimately show ?thesis
    unfolding is_datagram_def by (elim disjE) (fastforce simp: is_datagram_def)+
qed (use assms(2) in \<open>auto simp: forward_message_udp_def Let_def res_bind_Inr_iff\<close>)

lemma plain_ok:
  "res_bind q (\<lambda>(r, ss). Inr (answer r, ss)) = Inr (Return r', ss') \<Longrightarrow> (\<And>r ss. q = Inr (r, ss) \<Longrightarrow> result_ok r) \<Longrightarrow> result_ok r'"
  by (auto simp: res_bind_Inr_iff answer_def split: if_splits)

lemma bind_pair_ok: "res_bind q (\<lambda>(r, ss). Inr (r, f r ss)) = Inr (r', ss') \<Longrightarrow> \<exists>ss. q = Inr (r', ss)"
  by (auto simp: res_bind_Inr_iff)

lemma dispatch_event_ok:
  assumes peer: "length (os_peer os) = 6 \<or> length (os_peer os) = 18" and r: "dispatch_event os ss = Some (Inr (Return r, ss'))"
  shows "result_ok r"
proof -
  obtain e es where ev: "ss_ev ss = e # es"
    using r by (cases "ss_ev ss") (simp_all add: dispatch_event_def)
  obtain i where i: "ev_slot e = Some i"
    using r ev by (cases "ev_slot e") (simp_all add: dispatch_event_def)
  note d = dispatch_event_def [of os ss, unfolded ev list.case Let_def i option.case]
  let ?t = "sk_type (ss_slot ss i)"
  consider (connecting) "?t = SOCKET_TYPE_CONNECTING" | (listening) "?t = SOCKET_TYPE_LISTEN" | (invalid) "?t = SOCKET_TYPE_INVALID"
    | (reading) "?t \<noteq> SOCKET_TYPE_CONNECTING" "?t \<noteq> SOCKET_TYPE_LISTEN" "?t \<noteq> SOCKET_TYPE_INVALID" "ev_read e"
    | (writing) "?t \<noteq> SOCKET_TYPE_CONNECTING" "?t \<noteq> SOCKET_TYPE_LISTEN" "?t \<noteq> SOCKET_TYPE_INVALID" "\<not> ev_read e"
    by blast
  then show ?thesis
  proof cases
    case connecting
    then show ?thesis
      using r unfolding d by (auto intro: plain_ok report_connect_event)
  next
    case listening
    then show ?thesis
      using r unfolding d by (auto intro: plain_ok report_accept_ok)
  next
    case invalid
    then show ?thesis
      using r unfolding d by simp
  next
    case reading
    show ?thesis
    proof (cases "sk_protocol (ss_slot ss i) = PROTOCOL_TCP")
      case True
      then show ?thesis
        using r reading unfolding d by (auto elim!: plain_ok dest!: bind_pair_ok dest: forward_message_tcp_event)
    next
      case False
      then show ?thesis
        using r reading unfolding d by (auto elim!: plain_ok dest!: bind_pair_ok dest: forward_message_udp_event [OF peer])
    qed
  next
    case writing
    then show ?thesis
      using r unfolding d by (auto simp: res_obind_Some_Inr answer_def split: if_splits dest: send_buffer_event)
  qed
qed

lemma poll_round_ok:
  assumes "length (os_peer os) = 6 \<or> length (os_peer os) = 18" "poll_round os evs ss = Some (Inr (Return r, ss'))"
  shows "result_ok r"
  using assms(2)
  by (auto simp: poll_round_def ctrl_cmd_def Let_def answer_def res_obind_Some_Inr split: list.splits if_splits
      dest: ctrl_switch_ok dispatch_event_ok [OF assms(1)])

lemma socket_server_poll_ok:
  "socket_server_poll env mr ss = Some (Inr (r, mr', ss')) \<Longrightarrow> \<forall>(os, evs) \<in> set env. length (os_peer os) = 6 \<or> length (os_peer os) = 18 \<Longrightarrow>
    result_ok r"
proof (induction env mr ss rule: socket_server_poll.induct)
  case (2 os evs env mr ss)
  show ?case
  proof (cases "poll_round os evs ss")
    case (Some x)
    show ?thesis
    proof (cases x)
      case (Inr y)
      obtain a ss1 where y: "y = (a, ss1)"
        by (cases y) blast
      show ?thesis
      proof (cases a)
        case Again
        then show ?thesis
          using 2 Some Inr y by (auto simp: Let_def)
      next
        case (Return r')
          have "length (os_peer os) = 6 \<or> length (os_peer os) = 18"
            using 2(3) by simp
          moreover have "poll_round os evs ss = Some (Inr (Return r, ss1))"
            using 2(2) Some Inr y Return by (simp add: Let_def)
          ultimately show ?thesis
            by (rule poll_round_ok)
      qed
    qed (use 2(2) Some in \<open>simp add: Let_def\<close>)
  qed (use 2(2) in \<open>simp add: Let_def\<close>)
qed simp

section \<open>From the event to the service\<close>

fun event_type :: "poll_type \<Rightarrow> int" where
  "event_type SOCKET_DATA = 1" | "event_type SOCKET_OPEN = 2" | "event_type SOCKET_CLOSE = 3" | "event_type SOCKET_ACCEPT = 4"
| "event_type SOCKET_ERROR = 5" | "event_type SOCKET_UDP = 6" | "event_type SOCKET_EXIT = 0"

definition int32 :: "int \<Rightarrow> int" where
  "int32 i = sint (word_of_int i :: u32)"

text \<open>What the service should see of an event: a datagram with the address of its sender, texts up to 128 characters.\<close>

definition event_seen :: "poll_type \<Rightarrow> poll_message \<Rightarrow> int \<times> int \<times> int \<times> (string + bytes) \<times> bytes option" where
  "event_seen t m = (event_type t, int32 (pm_id m), int32 (pm_ud m),
     (case pm_data m of Buffer bs \<Rightarrow> Inr bs | Text s \<Rightarrow> Inl (take 128 s) | Sys_Text s \<Rightarrow> Inl (take 128 s) | No_Data \<Rightarrow> Inl []),
     (case pm_data m of Buffer bs \<Rightarrow> if t = SOCKET_UDP then Some (drop (nat (pm_ud m)) bs) else None | _ \<Rightarrow> None))"

lemma datagram_address:
  assumes "is_datagram m"
  obtains bs where "pm_data m = Buffer bs" "nat (pm_ud m) < length bs" "unat (word_of_int (pm_ud m) :: u32) = nat (pm_ud m)"
    "socket_server_udp_address bs (nat (pm_ud m)) = Some (drop (nat (pm_ud m)) bs)"
proof -
  obtain d p peer where m: "pm_data m = Buffer (d @ gen_udp_address p peer)" "pm_ud m = int (length d)" "length d < 2 ^ 16"
    and p: "p = PROTOCOL_UDP \<and> length peer = 6 \<or> p = PROTOCOL_UDPv6 \<and> length peer = 18"
    using assms by (auto simp: is_datagram_def)
  have u: "unat (word_of_int (pm_ud m) :: u32) = nat (pm_ud m)"
    using m(2,3) by (simp add: unat_of_nat)
  show thesis
    using p by (intro that [OF m(1) _ u]) (auto simp: m(2) socket_server_udp_address_def Let_def udp_address_size_def gen_udp_address_def protocol_code_def)
qed

lemma forward_result_eq:
  assumes "result_ok (Some (t, m))" "t \<noteq> SOCKET_EXIT"
  shows "\<exists>sm n. forward_result sv t m nd = res_bind (skynet_context_push sv nd (ucast (pm_opaque m))
      \<lparr>msg_source = 0, msg_session = 0, msg_data = Some (Sock sm), msg_sz = word_of_nat n OR push_bit MESSAGE_TYPE_SHIFT PTYPE_SOCKET\<rparr>) (\<lambda>(_, nd). Inr nd) \<and>
    n \<le> 152 \<and> socket_unpack sm (int n) = Inr (event_seen t m)"
proof -
  let ?sm = "\<lambda>ty. \<lparr>sm_type = ty, sm_id = word_of_int (pm_id m), sm_ud = word_of_int (pm_ud m), sm_buffer = buffer_of (pm_data m), sm_padding = []\<rparr>"
  let ?tm = "\<lambda>ty s. \<lparr>sm_type = ty, sm_id = word_of_int (pm_id m), sm_ud = word_of_int (pm_ud m), sm_buffer = None, sm_padding = take 128 s\<rparr>"
  have texts: "\<exists>sm n. forward_message sv ty True m nd = res_bind (skynet_context_push sv nd (ucast (pm_opaque m))
      \<lparr>msg_source = 0, msg_session = 0, msg_data = Some (Sock sm), msg_sz = word_of_nat n OR push_bit MESSAGE_TYPE_SHIFT PTYPE_SOCKET\<rparr>) (\<lambda>(_, nd). Inr nd) \<and>
      n \<le> 152 \<and> socket_unpack sm (int n) = Inr (event_seen t m)"
    if tx: "is_text (pm_data m)" "type_number ty = event_type t" "ty \<noteq> T_Udp" for ty
  proof -
    obtain s where s: "pm_data m = Text s \<or> pm_data m = Sys_Text s"
      using tx(1) by (auto simp: is_text_def)
    show ?thesis
      using s tx(2,3)
      by (intro exI [of _ "?tm ty s"] exI [of _ "SIZEOF_SOCKET_MESSAGE + length (take 128 s)"])
        (auto simp: forward_message_def padding_text_def Let_def SIZEOF_SOCKET_MESSAGE_def socket_unpack_def event_seen_def int32_def nat_add_distrib min_def)
  qed
  have plain: "\<exists>sm n. forward_message sv ty False m nd = res_bind (skynet_context_push sv nd (ucast (pm_opaque m))
      \<lparr>msg_source = 0, msg_session = 0, msg_data = Some (Sock sm), msg_sz = word_of_nat n OR push_bit MESSAGE_TYPE_SHIFT PTYPE_SOCKET\<rparr>) (\<lambda>(_, nd). Inr nd) \<and>
      n \<le> 152 \<and> socket_unpack sm (int n) = Inr (event_seen t m)"
    if "socket_unpack (?sm ty) (int SIZEOF_SOCKET_MESSAGE) = Inr (event_seen t m)" for ty
    using that
    by (intro exI [of _ "?sm ty"] exI [of _ SIZEOF_SOCKET_MESSAGE]) (simp add: forward_message_def Let_def SIZEOF_SOCKET_MESSAGE_def)
  show ?thesis
  proof (cases t)
    case SOCKET_DATA
    then show ?thesis
      using assms(1) unfolding forward_result_def SOCKET_DATA poll_type.case
      by (intro plain [unfolded SOCKET_DATA]) (auto simp: socket_unpack_def buffer_of_def event_seen_def int32_def)
  next
    case SOCKET_CLOSE
    then show ?thesis
      using assms(1) unfolding forward_result_def SOCKET_CLOSE poll_type.case
      by (intro plain [unfolded SOCKET_CLOSE]) (auto simp: socket_unpack_def buffer_of_def event_seen_def int32_def)
  next
    case SOCKET_UDP
    then have "is_datagram m"
      using assms(1) by simp
    then obtain bs where "pm_data m = Buffer bs" "nat (pm_ud m) < length bs" "unat (word_of_int (pm_ud m) :: u32) = nat (pm_ud m)"
      "socket_server_udp_address bs (nat (pm_ud m)) = Some (drop (nat (pm_ud m)) bs)"
      by (rule datagram_address)
    then show ?thesis
      unfolding forward_result_def SOCKET_UDP poll_type.case
      by (intro plain [unfolded SOCKET_UDP]) (simp add: socket_unpack_def buffer_of_def event_seen_def int32_def skynet_socket_udp_address_def)
  next
    case SOCKET_OPEN
    then show ?thesis
      using assms(1) unfolding forward_result_def SOCKET_OPEN poll_type.case by (intro texts [unfolded SOCKET_OPEN]) simp_all
  next
    case SOCKET_ACCEPT
    then show ?thesis
      using assms(1) unfolding forward_result_def SOCKET_ACCEPT poll_type.case by (intro texts [unfolded SOCKET_ACCEPT]) simp_all
  next
    case SOCKET_ERROR
    then show ?thesis
      using assms(1) unfolding forward_result_def SOCKET_ERROR poll_type.case by (intro texts [unfolded SOCKET_ERROR]) simp_all
  qed (use assms(2) in simp)
qed

lemma small_size:
  assumes "n \<le> 152"
  shows "(word_of_nat n :: u64) AND MESSAGE_TYPE_MASK = word_of_nat n" "unat (word_of_nat n :: u64) = n"
proof -
  have "take_bit 56 n = n"
    using assms by (intro take_bit_nat_eq_self) simp
  then show "(word_of_nat n :: u64) AND MESSAGE_TYPE_MASK = word_of_nat n"
    unfolding type_mask take_bit_eq_mask [symmetric] take_bit_of_nat by simp
  show "unat (word_of_nat n :: u64) = n"
    using assms by (simp add: unat_of_nat)
qed
text \<open>A connected socket of service 1 on which two bytes, or nothing, can be read.\<close>

definition demo_server :: "int \<Rightarrow> socket_server" where
  "demo_server wb = socket_server_create\<lparr>ss_slot := (\<lambda>_. empty_socket)(7 := empty_socket\<lparr>sk_id := 7, sk_opaque := 1,
     sk_type := SOCKET_TYPE_CONNECTED, sk_size := 64, sk_wb_size := wb\<rparr>)\<rparr>"

definition demo_sys :: sys where
  "demo_sys = \<lparr>os_writes = [], os_add_fails = False, os_errno = [], os_read = Got [104, 105], os_peer = replicate 6 0,
     os_connect = No_Socket [], os_connected = None, os_accept = Accept_Failed\<rparr>"

definition demo_event :: poll_event where
  "demo_event = \<lparr>ev_slot = Some 7, ev_read = True, ev_write = False\<rparr>"

text \<open>C6: every event the socket thread reports (data, a datagram, an opened, accepted, failed or closed connection)
  reaches the service that owns the socket: if its handle is registered, one message of type \<open>PTYPE_SOCKET\<close> is appended to its ring
  and to no other, and a Lua service that takes it apart sees the kind of the event, the id, the number \<open>ud\<close>, the bytes that were read,
  for a datagram the address of its sender, or the text. The result tells the thread whether there is more to do.\<close>

theorem socket_event_delivered:
  assumes poll: "socket_server_poll env True ss = Some (Inr (Some (t, result), mr, ss'))" "t \<noteq> SOCKET_EXIT"
    and peers: "\<forall>(os, evs) \<in> set env. length (os_peer os) = 6 \<or> length (os_peer os) = 18"
    and svc: "deliverable nd (ucast (pm_opaque result)) a c q as"
  shows "\<exists>nd' m sm. skynet_socket_poll sv env ss nd = Some (Inr (if mr then -1 else 1, ss', nd')) \<and> delivered nd nd' c q as m \<and>
    msg_source m = 0 \<and> msg_session m = 0 \<and> msg_data m = Some (Sock sm) \<and> drop_bit MESSAGE_TYPE_SHIFT (msg_sz m) = PTYPE_SOCKET \<and>
    socket_unpack sm (int (unat (msg_sz m AND MESSAGE_TYPE_MASK))) = Inr (event_seen t result)"
proof -
  obtain sm n where f: "forward_result sv t result nd = res_bind (skynet_context_push sv nd (ucast (pm_opaque result))
      \<lparr>msg_source = 0, msg_session = 0, msg_data = Some (Sock sm), msg_sz = word_of_nat n OR push_bit MESSAGE_TYPE_SHIFT PTYPE_SOCKET\<rparr>) (\<lambda>(_, nd). Inr nd)"
    "n \<le> 152" "socket_unpack sm (int n) = Inr (event_seen t result)"
    using forward_result_eq [OF socket_server_poll_ok [OF poll(1) peers] poll(2)] by blast
  define m where "m = \<lparr>msg_source = 0, msg_session = 0, msg_data = Some (Sock sm), msg_sz = word_of_nat n OR push_bit MESSAGE_TYPE_SHIFT PTYPE_SOCKET\<rparr>"
  obtain nd' where p: "skynet_context_push sv nd (ucast (pm_opaque result)) m = Inr (0, nd')" "delivered nd nd' c q as m"
    using context_push_spec [OF svc] by blast
  have "PTYPE_SOCKET AND 0xff = PTYPE_SOCKET"
    by (simp add: PTYPE_SOCKET_def)
  note w = msg_sz_split [OF small_size(1) [OF f(2)] this]
  have "skynet_socket_poll sv env ss nd = Some (Inr (if mr then -1 else 1, ss', nd'))"
    using poll p(1) f(1) by (simp add: skynet_socket_poll_def m_def)
  then show ?thesis
    using p(2) f(3) w small_size(2) [OF f(2)] by (intro exI [of _ nd'] exI [of _ m] exI [of _ sm]) (simp add: m_def)
qed

theorem socket_event_delivered_witness:
  "\<forall>sv. \<exists>ss' nd' m sm. skynet_socket_poll sv [(demo_sys, [demo_event])] (demo_server 0) demo_node = Some (Inr (1, ss', nd')) \<and>
    delivered demo_node nd' demo_context (mq_fresh 1) [] m \<and> msg_data m = Some (Sock sm) \<and>
    socket_unpack sm (int (unat (msg_sz m AND MESSAGE_TYPE_MASK))) = Inr (1, 7, 2, Inr [104, 105], None)"
proof
  fix sv
  let ?r = "\<lparr>pm_id = 7, pm_opaque = 1, pm_ud = 2, pm_data = Buffer [104, 105]\<rparr>"
  obtain ss' where p: "socket_server_poll [(demo_sys, [demo_event])] True (demo_server 0) = Some (Inr (Some (SOCKET_DATA, ?r), False, ss'))"
    by (simp add: Let_def demo_server_def demo_sys_def demo_event_def poll_round_def dispatch_event_def socket_server_create_def empty_socket_def
        forward_message_tcp_def put_slot_def answer_def)
  have d: "deliverable demo_node (ucast (pm_opaque ?r)) 70 demo_context (mq_fresh 1) []"
    using demo_deliverable by simp
  have "event_seen SOCKET_DATA ?r = (1, 7, 2, Inr [104, 105], None)"
    by (simp add: event_seen_def int32_def)
  then show "\<exists>ss' nd' m sm. skynet_socket_poll sv [(demo_sys, [demo_event])] (demo_server 0) demo_node = Some (Inr (1, ss', nd')) \<and>
    delivered demo_node nd' demo_context (mq_fresh 1) [] m \<and> msg_data m = Some (Sock sm) \<and>
    socket_unpack sm (int (unat (msg_sz m AND MESSAGE_TYPE_MASK))) = Inr (1, 7, 2, Inr [104, 105], None)"
    using socket_event_delivered [OF p _ _ d, of sv] by (auto simp: demo_sys_def)
qed

text \<open>What is reported to a handle that is not registered is dropped.\<close>

theorem socket_event_dropped:
  assumes "socket_server_poll env True ss = Some (Inr (Some (t, result), mr, ss'))" "t \<noteq> SOCKET_EXIT"
    "\<forall>(os, evs) \<in> set env. length (os_peer os) = 6 \<or> length (os_peer os) = 18"
    "skynet_handle_grab (hof_of nd) (nd_storage nd) (ucast (pm_opaque result)) = None"
  shows "skynet_socket_poll sv env ss nd = Some (Inr (if mr then -1 else 1, ss', nd))"
proof -
  obtain sm n where "forward_result sv t result nd = res_bind (skynet_context_push sv nd (ucast (pm_opaque result))
      \<lparr>msg_source = 0, msg_session = 0, msg_data = Some (Sock sm), msg_sz = word_of_nat n OR push_bit MESSAGE_TYPE_SHIFT PTYPE_SOCKET\<rparr>) (\<lambda>(_, nd). Inr nd)"
    using forward_result_eq [OF socket_server_poll_ok [OF assms(1,3)] assms(2)] by blast
  then show ?thesis
    using assms(1,2) context_push_unknown [OF assms(4)] by (simp add: skynet_socket_poll_def)
qed

text \<open>A service that sends while more than 1 MB waits on the socket gets a warning message with the size in KB
  behind what is already in its ring, and its bytes are handed to the socket thread all the same.\<close>

theorem socket_send_warns:
  assumes known: "known_id id' ss" "sk_wb_size (ss_slot ss (HASH_ID id')) > 1024 * 1024"
    and ctx: "nd_ctx nd ctx = Some cx" "cx_handle cx \<noteq> 0" "nd_harbor nd \<noteq> - 1"
      "cx_handle cx AND NOT HANDLE_MASK = nd_harbor nd \<or> cx_handle cx AND NOT HANDLE_MASK = 0"
    and svc: "deliverable nd (cx_handle cx) a c q as"
  shows "\<exists>nd' m sm. skynet_socket_send sv ctx id' buffer sz (ss, nd) = Inr (0, send_request (Ctrl_Send id' buffer sz PRIORITY_HIGH) ss, nd') \<and>
    delivered nd nd' c q as m \<and> msg_data m = Some (Sock sm) \<and> drop_bit MESSAGE_TYPE_SHIFT (msg_sz m) = PTYPE_SOCKET \<and>
    socket_unpack sm (int (unat (msg_sz m AND MESSAGE_TYPE_MASK))) =
      Inr (7, int32 id', int32 (sk_wb_size (ss_slot ss (HASH_ID id')) div 1024), Inl [], None)"
proof -
  define wsz where "wsz = sk_wb_size (ss_slot ss (HASH_ID id'))"
  define sm where "sm = \<lparr>sm_type = T_Warning, sm_id = word_of_int id', sm_ud = word_of_int (wsz div 1024), sm_buffer = None, sm_padding = []\<rparr>"
  define m where "m = \<lparr>msg_source = cx_handle cx, msg_session = 0, msg_data = Some (Sock sm),
    msg_sz = word_of_nat SIZEOF_SOCKET_MESSAGE OR push_bit MESSAGE_TYPE_SHIFT PTYPE_SOCKET\<rparr>"
  have n: "SIZEOF_SOCKET_MESSAGE \<le> 152"
    by (simp add: SIZEOF_SOCKET_MESSAGE_def)
  have "PTYPE_SOCKET AND 0xff = PTYPE_SOCKET"
    by (simp add: PTYPE_SOCKET_def)
  note w = msg_sz_split [OF small_size(1) [OF n] this]
  obtain nd' where p: "skynet_context_push sv nd (cx_handle cx) m = Inr (0, nd')" "delivered nd nd' c q as m"
    using context_push_spec [OF svc] by blast
  have h: "skynet_context_handle nd ctx = Inr (cx_handle cx)"
    using ctx(1) by (simp add: skynet_context_handle_def)
  have "filter_args nd (Some ctx) (ucast PTYPE_SOCKET) 0 (Some (Sock sm)) (word_of_nat SIZEOF_SOCKET_MESSAGE) =
      Inr (0, Some (Sock sm), word_of_nat SIZEOF_SOCKET_MESSAGE OR push_bit MESSAGE_TYPE_SHIFT PTYPE_SOCKET, nd)"
    by (simp add: filter_args_def PTYPE_SOCKET_def PTYPE_TAG_DONTCOPY_def PTYPE_TAG_ALLOCSESSION_def SIZEOF_SOCKET_MESSAGE_def sm_def)
  then have "skynet_send sv nd (Some ctx) 0 (cx_handle cx) (ucast PTYPE_SOCKET) 0 (Some (Sock sm)) (word_of_nat SIZEOF_SOCKET_MESSAGE) = Inr (0, nd')"
    using h p(1) ctx(2) isremote_local [OF ctx(3,4)] small_size(1) [OF n] by (simp add: skynet_send_def m_def)
  then have "check_wsz sv ctx id' wsz nd = Inr (0, nd')"
    using h known(2) by (simp add: check_wsz_def sm_def wsz_def Let_def)
  then have "skynet_socket_send sv ctx id' buffer sz (ss, nd) = Inr (0, send_request (Ctrl_Send id' buffer sz PRIORITY_HIGH) ss, nd')"
    using known(1) by (simp add: skynet_socket_send_def socket_server_send_def wsz_def)
  moreover have "socket_unpack sm (int SIZEOF_SOCKET_MESSAGE) = Inr (7, int32 id', int32 (wsz div 1024), Inl [], None)"
    by (simp add: socket_unpack_def sm_def int32_def)
  ultimately show ?thesis
    using p(2) w small_size(2) [OF n] unfolding wsz_def by (intro exI [of _ nd'] exI [of _ m] exI [of _ sm]) (simp add: m_def)
qed

theorem socket_send_warns_witness:
  "\<forall>sv. \<exists>nd' m sm. skynet_socket_send sv 70 7 [1] 1 (demo_server 2097152, demo_node) =
      Inr (0, send_request (Ctrl_Send 7 [1] 1 PRIORITY_HIGH) (demo_server 2097152), nd') \<and>
    delivered demo_node nd' demo_context (mq_fresh 1) [] m \<and> msg_data m = Some (Sock sm) \<and>
    socket_unpack sm (int (unat (msg_sz m AND MESSAGE_TYPE_MASK))) = Inr (7, 7, 2048, Inl [], None)"
proof
  fix sv
  have k: "known_id 7 (demo_server 2097152)" "sk_wb_size (ss_slot (demo_server 2097152) (HASH_ID 7)) = 2097152"
    by (simp_all add: known_id_def HASH_ID_def MAX_SOCKET_def demo_server_def)
  have c: "nd_ctx demo_node 70 = Some demo_context" "cx_handle demo_context = 1" "nd_harbor demo_node \<noteq> - 1" "(1 :: u32) AND NOT HANDLE_MASK = 0"
    by (simp_all add: demo_node_def demo_context_def HANDLE_MASK_def)
  show "\<exists>nd' m sm. skynet_socket_send sv 70 7 [1] 1 (demo_server 2097152, demo_node) =
      Inr (0, send_request (Ctrl_Send 7 [1] 1 PRIORITY_HIGH) (demo_server 2097152), nd') \<and>
    delivered demo_node nd' demo_context (mq_fresh 1) [] m \<and> msg_data m = Some (Sock sm) \<and>
    socket_unpack sm (int (unat (msg_sz m AND MESSAGE_TYPE_MASK))) = Inr (7, 7, 2048, Inl [], None)"
    using socket_send_warns [OF k(1) _ c(1) _ c(3), of 70 demo_context "mq_fresh 1" "[]" sv "[1]" 1] k(2) c(2,4) demo_deliverable
    by (auto simp: int32_def)
qed

end
