(* ===== verification/LuaSocket.thy ===== *)
theory LuaSocket
  imports Prelude
begin

text \<open>
  \<open>lua-socket.c\<close>: the bytes a Lua service has received from its sockets and not yet read. Each socket has a \<open>socket_buffer\<close>, a
  linked list of the blocks the socket thread handed over; the nodes come from one pool of the service, a Lua table whose first
  element is the free list. Nodes of all sockets live in one store, so a node on two lists would show. A block is the list of its
  bytes, a freed one is \<open>None\<close>.
\<close>

section \<open>State\<close>

definition LARGE_PAGE_NODE :: nat where "LARGE_PAGE_NODE = 12"

record buffer_node =
  bn_msg :: "bytes option"
  bn_sz :: int
  bn_next :: "addr option"

record socket_buffer =
  sb_size :: int
  sb_offset :: int
  sb_head :: "addr option"
  sb_tail :: "addr option"

text \<open>The pool: \<open>pl_len\<close> is the length of the Lua table, \<open>pl_brk\<close> the first address that no chunk uses.\<close>

record buffer_pool =
  pl_node :: "addr \<Rightarrow> buffer_node option"
  pl_brk :: addr
  pl_len :: nat
  pl_free :: "addr option"

definition lnewbuffer :: socket_buffer where
  "lnewbuffer = \<lparr>sb_size = 0, sb_offset = 0, sb_head = None, sb_tail = None\<rparr>"

definition empty_pool :: buffer_pool where
  "empty_pool = \<lparr>pl_node = (\<lambda>_. None), pl_brk = 0, pl_len = 0, pl_free = None\<rparr>"

section \<open>Operations\<close>

definition lnewpool :: "buffer_pool \<Rightarrow> nat \<Rightarrow> addr \<times> buffer_pool" where
  "lnewpool pl sz = (let base = pl_brk pl in
     (base, pl\<lparr>pl_node := (\<lambda>a. if base \<le> a \<and> a < base + sz
                 then Some \<lparr>bn_msg = None, bn_sz = 0, bn_next = (if a + 1 = base + sz then None else Some (a + 1))\<rparr>
                 else pl_node pl a),
               pl_brk := base + sz\<rparr>))"

text \<open>The free node that \<open>lpushbuffer\<close> uses, from a new chunk if there is none.\<close>

definition get_free_node :: "buffer_pool \<Rightarrow> addr \<times> buffer_pool" where
  "get_free_node pl = (case pl_free pl of Some a \<Rightarrow> (a, pl) | None \<Rightarrow>
     let tsz = (if pl_len pl = 0 then 1 else pl_len pl);
         sz = (if tsz \<le> LARGE_PAGE_NODE - 3 then 8 * 2 ^ tsz else 8 * 2 ^ (LARGE_PAGE_NODE - 3));
         (a, pl) = lnewpool pl sz in (a, pl\<lparr>pl_len := tsz + 1\<rparr>))"

definition put_node :: "addr \<Rightarrow> buffer_node \<Rightarrow> buffer_pool \<Rightarrow> buffer_pool" where
  "put_node a n pl = pl\<lparr>pl_node := (pl_node pl)(a \<mapsto> n)\<rparr>"

definition lpushbuffer :: "socket_buffer \<Rightarrow> buffer_pool \<Rightarrow> bytes \<Rightarrow> int \<Rightarrow> (int \<times> socket_buffer \<times> buffer_pool) res" where
  "lpushbuffer sb pl msg sz = (let (free_node, pl) = get_free_node pl in
     res_bind (deref (pl_node pl) free_node) (\<lambda>n.
     let pl = put_node free_node \<lparr>bn_msg = Some msg, bn_sz = sz, bn_next = None\<rparr> (pl\<lparr>pl_free := bn_next n\<rparr>) in
     res_bind (case sb_head sb of
         None \<Rightarrow> if sb_tail sb \<noteq> None then Inl Assert_Failed else Inr (sb\<lparr>sb_head := Some free_node, sb_tail := Some free_node\<rparr>, pl)
       | Some _ \<Rightarrow> (case sb_tail sb of None \<Rightarrow> Inl Bad_Pointer | Some t \<Rightarrow>
           res_bind (deref (pl_node pl) t) (\<lambda>tn. Inr (sb\<lparr>sb_tail := Some free_node\<rparr>, put_node t (tn\<lparr>bn_next := Some free_node\<rparr>) pl)))) (\<lambda>(sb, pl).
     if sb_size sb + sz \<ge> 2 ^ 31 \<or> sb_size sb + sz < - (2 ^ 31) then Inl Int_Overflow
     else Inr (sb_size sb + sz, sb\<lparr>sb_size := sb_size sb + sz\<rparr>, pl))))"

definition return_free_node :: "socket_buffer \<Rightarrow> buffer_pool \<Rightarrow> (socket_buffer \<times> buffer_pool) res" where
  "return_free_node sb pl = (case sb_head sb of None \<Rightarrow> Inl Bad_Pointer | Some a \<Rightarrow>
     res_bind (deref (pl_node pl) a) (\<lambda>n.
       Inr (sb\<lparr>sb_offset := 0, sb_head := bn_next n, sb_tail := (if bn_next n = None then None else sb_tail sb)\<rparr>,
         (put_node a \<lparr>bn_msg = None, bn_sz = 0, bn_next = pl_free pl\<rparr> pl)\<lparr>pl_free := Some a\<rparr>)))"

definition head_node :: "socket_buffer \<Rightarrow> buffer_pool \<Rightarrow> buffer_node res" where
  "head_node sb pl = (case sb_head sb of None \<Rightarrow> Inl Bad_Pointer | Some a \<Rightarrow> deref (pl_node pl) a)"

text \<open>The loop of \<open>pop_lstring\<close>; \<open>b\<close> is what is collected.\<close>

partial_function (option) pop_loop :: "socket_buffer \<Rightarrow> buffer_pool \<Rightarrow> bytes \<Rightarrow> int \<Rightarrow> int \<Rightarrow> (bytes \<times> socket_buffer \<times> buffer_pool) res option" where
  "pop_loop sb pl b sz skip = (if sb_head sb = None then Some (Inl Assert_Failed) else case head_node sb pl of Inl e \<Rightarrow> Some (Inl e) | Inr current \<Rightarrow>
     let bytes = bn_sz current - sb_offset sb in
     if bytes \<ge> sz then
       Some (res_bind (if sz > skip then mem_read (bn_msg current) (sb_offset sb) (sz - skip) else Inr []) (\<lambda>d.
         let sb = sb\<lparr>sb_offset := sb_offset sb + sz\<rparr> in
         if bytes = sz then res_bind (return_free_node sb pl) (\<lambda>(sb, pl). Inr (b @ d, sb, pl)) else Inr (b @ d, sb, pl)))
     else let real_sz = sz - skip in
       (case res_bind (if real_sz > 0 then mem_read (bn_msg current) (sb_offset sb) (if real_sz < bytes then real_sz else bytes) else Inr []) (\<lambda>d.
           res_bind (return_free_node sb pl) (\<lambda>(sb, pl). Inr (b @ d, sb, pl))) of
          Inl e \<Rightarrow> Some (Inl e)
        | Inr (b, sb, pl) \<Rightarrow> if sz - bytes = 0 then Some (Inr (b, sb, pl)) else pop_loop sb pl b (sz - bytes) skip))"

declare pop_loop.simps [code]

definition pop_lstring :: "socket_buffer \<Rightarrow> buffer_pool \<Rightarrow> int \<Rightarrow> int \<Rightarrow> (bytes \<times> socket_buffer \<times> buffer_pool) res option" where
  "pop_lstring sb pl sz skip = (case head_node sb pl of Inl e \<Rightarrow> Some (Inl e) | Inr current \<Rightarrow>
     if sz < bn_sz current - sb_offset sb then
       Some (res_bind (mem_read (bn_msg current) (sb_offset sb) (sz - skip)) (\<lambda>d. Inr (d, sb\<lparr>sb_offset := sb_offset sb + sz\<rparr>, pl)))
     else if sz = bn_sz current - sb_offset sb then
       Some (res_bind (mem_read (bn_msg current) (sb_offset sb) (sz - skip)) (\<lambda>d.
         res_bind (return_free_node sb pl) (\<lambda>(sb, pl). Inr (d, sb, pl))))
     else pop_loop sb pl [] sz skip)"

text \<open>\<open>lheader\<close>: a header of one to four bytes, big endian.\<close>

definition lheader :: "bytes \<Rightarrow> int lua" where
  "lheader s = (if length s > 4 \<or> length s < 1 then luaL_error ''Invalid read'' else Inr (foldl (\<lambda>sz b. sz * 256 + uint b) 0 s))"

text \<open>\<open>lpopbuffer\<close>: the bytes or nil, and the size that is left.\<close>

definition lpopbuffer :: "socket_buffer \<Rightarrow> buffer_pool \<Rightarrow> int \<Rightarrow> (bytes option \<times> int \<times> socket_buffer \<times> buffer_pool) res option" where
  "lpopbuffer sb pl sz =
     (if sb_size sb < sz \<or> sz = 0 then Some (Inr (None, sb_size sb, sb, pl))
      else res_obind (pop_lstring sb pl sz 0) (\<lambda>(d, sb, pl).
        let sb = sb\<lparr>sb_size := sb_size sb - sz\<rparr> in Some (Inr (Some d, sb_size sb, sb, pl))))"

partial_function (option) return_all :: "socket_buffer \<Rightarrow> buffer_pool \<Rightarrow> (socket_buffer \<times> buffer_pool) res option" where
  "return_all sb pl = (if sb_head sb = None then Some (Inr (sb, pl)) else case return_free_node sb pl of Inl e \<Rightarrow> Some (Inl e)
     | Inr (sb, pl) \<Rightarrow> return_all sb pl)"

declare return_all.simps [code]

definition lclearbuffer :: "socket_buffer \<Rightarrow> buffer_pool \<Rightarrow> (socket_buffer \<times> buffer_pool) res option" where
  "lclearbuffer sb pl = res_obind (return_all sb pl) (\<lambda>(sb, pl). Some (Inr (sb\<lparr>sb_size := 0\<rparr>, pl)))"

partial_function (option) readall_loop :: "socket_buffer \<Rightarrow> buffer_pool \<Rightarrow> bytes \<Rightarrow> (bytes \<times> socket_buffer \<times> buffer_pool) res option" where
  "readall_loop sb pl b = (if sb_head sb = None then Some (Inr (b, sb, pl)) else
     (case res_bind (head_node sb pl) (\<lambda>current. res_bind (mem_read (bn_msg current) (sb_offset sb) (bn_sz current - sb_offset sb)) (\<lambda>d.
         res_bind (return_free_node sb pl) (\<lambda>(sb, pl). Inr (b @ d, sb, pl)))) of
        Inl e \<Rightarrow> Some (Inl e) | Inr (b, sb, pl) \<Rightarrow> readall_loop sb pl b))"

declare readall_loop.simps [code]

definition lreadall :: "socket_buffer \<Rightarrow> buffer_pool \<Rightarrow> (bytes \<times> socket_buffer \<times> buffer_pool) res option" where
  "lreadall sb pl = res_obind (readall_loop sb pl []) (\<lambda>(b, sb, pl). Some (Inr (b, sb\<lparr>sb_size := 0\<rparr>, pl)))"

partial_function (option) check_sep :: "buffer_pool \<Rightarrow> addr option \<Rightarrow> int \<Rightarrow> bytes \<Rightarrow> bool res option" where
  "check_sep pl node from sep = (case node of None \<Rightarrow> Some (Inl Bad_Pointer) | Some a \<Rightarrow> (case deref (pl_node pl) a of Inl e \<Rightarrow> Some (Inl e) | Inr n \<Rightarrow>
     let sz = bn_sz n - from in
     if sz \<ge> int (length sep) then Some (res_bind (mem_read (bn_msg n) from (int (length sep))) (\<lambda>d. Inr (d = sep)))
     else if sz < 0 then Some (Inl Out_Of_Bounds)
     else (case (if sz > 0 then mem_read (bn_msg n) from sz else Inr []) of Inl e \<Rightarrow> Some (Inl e) | Inr d \<Rightarrow>
       if d \<noteq> take (nat sz) sep then Some (Inr False) else check_sep pl (bn_next n) 0 (drop (nat sz) sep))))"

declare check_sep.simps [code]

text \<open>The loop of \<open>lreadline\<close> at byte \<open>i\<close>: where the separator is, if it is there.\<close>

partial_function (option) line_loop :: "buffer_pool \<Rightarrow> bytes \<Rightarrow> int \<Rightarrow> int \<Rightarrow> addr \<Rightarrow> int \<Rightarrow> int \<Rightarrow> int option res option" where
  "line_loop pl sep sz i current from bytes =
     (if i \<le> sz - int (length sep) then
        (case check_sep pl (Some current) from sep of None \<Rightarrow> None | Some (Inl e) \<Rightarrow> Some (Inl e) | Some (Inr found) \<Rightarrow>
          if found then Some (Inr (Some i))
          else if bytes - 1 = 0 then
            (case deref (pl_node pl) current of Inl e \<Rightarrow> Some (Inl e) | Inr n \<Rightarrow>
              (case bn_next n of None \<Rightarrow> Some (Inr None)
               | Some nx \<Rightarrow> (case deref (pl_node pl) nx of Inl e \<Rightarrow> Some (Inl e) | Inr n' \<Rightarrow> line_loop pl sep sz (i + 1) nx 0 (bn_sz n'))))
          else line_loop pl sep sz (i + 1) current (from + 1) (bytes - 1))
      else Some (Inr None))"

declare line_loop.simps [code]

datatype line = No_Line | Has_Line | Line bytes

definition lreadline :: "socket_buffer \<Rightarrow> buffer_pool \<Rightarrow> bool \<Rightarrow> bytes \<Rightarrow> (line \<times> socket_buffer \<times> buffer_pool) res option" where
  "lreadline sb pl check sep = (case sb_head sb of None \<Rightarrow> Some (Inr (No_Line, sb, pl)) | Some current \<Rightarrow>
     (case deref (pl_node pl) current of Inl e \<Rightarrow> Some (Inl e) | Inr n \<Rightarrow>
       res_obind (line_loop pl sep (sb_size sb) 0 current (sb_offset sb) (bn_sz n - sb_offset sb)) (\<lambda>r. case r of
         None \<Rightarrow> Some (Inr (No_Line, sb, pl))
       | Some i \<Rightarrow> if check then Some (Inr (Has_Line, sb, pl))
           else res_obind (pop_lstring sb pl (i + int (length sep)) (int (length sep))) (\<lambda>(d, sb, pl).
             Some (Inr (Line d, sb\<lparr>sb_size := sb_size sb - (i + int (length sep))\<rparr>, pl))))))"

section \<open>What a buffer holds\<close>

text \<open>The nodes of a list, what is in them, and what one buffer and the free list own.\<close>

fun chain :: "buffer_pool \<Rightarrow> addr option \<Rightarrow> addr list \<Rightarrow> bool" where
  "chain pl p [] \<longleftrightarrow> p = None"
| "chain pl p (a # l) \<longleftrightarrow> p = Some a \<and> (case pl_node pl a of None \<Rightarrow> False | Some n \<Rightarrow> chain pl (bn_next n) l)"

definition node_bytes :: "buffer_pool \<Rightarrow> addr \<Rightarrow> bytes" where
  "node_bytes pl a = (case pl_node pl a of None \<Rightarrow> [] | Some n \<Rightarrow> (case bn_msg n of None \<Rightarrow> [] | Some b \<Rightarrow> take (nat (bn_sz n)) b))"

definition full_node :: "buffer_pool \<Rightarrow> addr \<Rightarrow> bool" where
  "full_node pl a \<longleftrightarrow> (\<exists>n b. pl_node pl a = Some n \<and> bn_msg n = Some b \<and> 0 < bn_sz n \<and> bn_sz n \<le> int (length b))"

definition held_in :: "buffer_pool \<Rightarrow> addr list \<Rightarrow> bytes" where
  "held_in pl l = concat (map (node_bytes pl) l)"

lemma held_simps [simp]: "held_in pl [] = []" "held_in pl (a # l) = node_bytes pl a @ held_in pl l" "held_in pl (l @ l') = held_in pl l @ held_in pl l'"
  by (simp_all add: held_in_def)

definition sb_list :: "buffer_pool \<Rightarrow> socket_buffer \<Rightarrow> addr list \<Rightarrow> bool" where
  "sb_list pl sb l \<longleftrightarrow> chain pl (sb_head sb) l \<and> sb_tail sb = (if l = [] then None else Some (last l)) \<and> (\<forall>a \<in> set l. full_node pl a) \<and>
     0 \<le> sb_offset sb \<and> (l = [] \<longrightarrow> sb_offset sb = 0) \<and> (l \<noteq> [] \<longrightarrow> sb_offset sb < int (length (node_bytes pl (hd l))))"

definition unread :: "buffer_pool \<Rightarrow> socket_buffer \<Rightarrow> addr list \<Rightarrow> bytes" where
  "unread pl sb l = drop (nat (sb_offset sb)) (held_in pl l)"

definition pool_ok :: "buffer_pool \<Rightarrow> addr list \<Rightarrow> bool" where
  "pool_ok pl fl \<longleftrightarrow> chain pl (pl_free pl) fl \<and> (\<forall>a. pl_node pl a \<noteq> None \<longrightarrow> a < pl_brk pl)"

definition own :: "buffer_pool \<Rightarrow> socket_buffer \<Rightarrow> addr list \<Rightarrow> addr list \<Rightarrow> bool" where
  "own pl sb fl l \<longleftrightarrow> sb_list pl sb l \<and> pool_ok pl fl \<and> distinct (fl @ l)"

text \<open>What an operation may touch: the nodes it owns, and new ones.\<close>

definition chunk_frame :: "buffer_pool \<Rightarrow> addr set \<Rightarrow> buffer_pool \<Rightarrow> addr set \<Rightarrow> bool" where
  "chunk_frame pl A pl' A' \<longleftrightarrow> pl_brk pl \<le> pl_brk pl' \<and> (\<forall>a < pl_brk pl. a \<notin> A \<longrightarrow> pl_node pl' a = pl_node pl a) \<and>
     (\<forall>a \<in> A'. a \<in> A \<or> pl_brk pl \<le> a)"

lemma chunk_frame_refl: "chunk_frame pl A pl A"
  by (simp add: chunk_frame_def)

lemma chunk_frame_trans:
  assumes "chunk_frame pl A pl' A'" "chunk_frame pl' A' pl'' A''"
  shows "chunk_frame pl A pl'' A''"
  unfolding chunk_frame_def
proof (intro conjI allI impI ballI)
  show "pl_brk pl \<le> pl_brk pl''"
    using assms by (simp add: chunk_frame_def)
  fix a
  show "pl_node pl'' a = pl_node pl a" if a: "a < pl_brk pl" "a \<notin> A"
  proof -
    have "pl_node pl' a = pl_node pl a" "a \<notin> A'" "a < pl_brk pl'"
      using assms(1) a by (auto simp: chunk_frame_def)
    then show ?thesis
      using assms(2) by (simp add: chunk_frame_def)
  qed
  show "a \<in> A \<or> pl_brk pl \<le> a" if a: "a \<in> A''"
  proof -
    have "a \<in> A' \<or> pl_brk pl' \<le> a"
      using assms(2) a by (simp add: chunk_frame_def)
    then show ?thesis
      using assms(1) by (auto simp: chunk_frame_def)
  qed
qed

lemma chain_cong: "chain pl p l \<Longrightarrow> \<forall>a \<in> set l. pl_node pl' a = pl_node pl a \<Longrightarrow> chain pl' p l"
  by (induction l arbitrary: p) (auto split: option.splits)

lemma chain_alloc: "chain pl p l \<Longrightarrow> a \<in> set l \<Longrightarrow> pl_node pl a \<noteq> None"
  by (induction l arbitrary: p) (auto split: option.splits)

lemma buffer_node_cong: "pl_node pl' a = pl_node pl a \<Longrightarrow> node_bytes pl' a = node_bytes pl a \<and> full_node pl' a = full_node pl a"
  by (simp add: node_bytes_def full_node_def)

lemma held_cong: "\<forall>a \<in> set l. pl_node pl' a = pl_node pl a \<Longrightarrow> held_in pl' l = held_in pl l"
  unfolding held_in_def by (rule arg_cong [of _ _ concat], rule map_cong [OF refl], rule buffer_node_cong [THEN conjunct1]) blast

lemma sb_list_cong:
  assumes "sb_list pl sb l" "\<forall>a \<in> set l. pl_node pl' a = pl_node pl a"
  shows "sb_list pl' sb l" "unread pl' sb l = unread pl sb l"
proof -
  have "node_bytes pl' (hd l) = node_bytes pl (hd l)" if "l \<noteq> []"
    using assms(2) buffer_node_cong [of pl' "hd l" pl] that by simp
  moreover have "full_node pl' a" if "a \<in> set l" for a
    using assms buffer_node_cong [of pl' a pl] that by (simp add: sb_list_def)
  ultimately show "sb_list pl' sb l"
    using assms chain_cong [of pl "sb_head sb" l pl'] by (simp add: sb_list_def)
  show "unread pl' sb l = unread pl sb l"
    using held_cong [OF assms(2)] by (simp add: unread_def)
qed

lemma full_nodeE:
  assumes "full_node pl a"
  obtains n b where "pl_node pl a = Some n" "bn_msg n = Some b" "bn_sz n = int (length (node_bytes pl a))" "node_bytes pl a = take (nat (bn_sz n)) b"
    "0 < bn_sz n" "bn_sz n \<le> int (length b)"
proof -
  obtain n b where "pl_node pl a = Some n" "bn_msg n = Some b" "0 < bn_sz n" "bn_sz n \<le> int (length b)"
    using assms by (auto simp: full_node_def)
  then show thesis
    by (intro that [of n b]) (simp_all add: node_bytes_def)
qed

text \<open>Reading inside of a node.\<close>

lemma read_node:
  assumes "full_node pl a" "pl_node pl a = Some n" "0 \<le> off" "0 \<le> k" "off + k \<le> bn_sz n"
  shows "mem_read (bn_msg n) off k = Inr (take (nat k) (drop (nat off) (node_bytes pl a)))"
proof -
  obtain b where b: "bn_msg n = Some b" "node_bytes pl a = take (nat (bn_sz n)) b" "bn_sz n \<le> int (length b)"
    using full_nodeE [OF assms(1)] assms(2) by (metis option.inject)
  have "nat k + nat off \<le> nat (bn_sz n)"
    using assms(3-5) by linarith
  then have "take (nat k) (drop (nat off) (take (nat (bn_sz n)) b)) = take (nat k) (drop (nat off) b)"
    by (simp add: drop_take min_def le_diff_conv)
  then show ?thesis
    using assms(3-5) b by (simp add: mem_read_def)
qed

lemma put_node_simps [simp]: "pl_node (put_node a n pl) = (pl_node pl)(a \<mapsto> n)" "pl_brk (put_node a n pl) = pl_brk pl" "pl_free (put_node a n pl) = pl_free pl"
  by (simp_all add: put_node_def)

section \<open>Each operation\<close>

text \<open>The head of a buffer that is not empty.\<close>

lemma own_head:
  assumes "own pl sb fl (a # l)"
  obtains n where "sb_head sb = Some a" "pl_node pl a = Some n" "head_node sb pl = Inr n" "full_node pl a" "bn_sz n = int (length (node_bytes pl a))"
    "0 < bn_sz n" "chain pl (bn_next n) l" "0 \<le> sb_offset sb" "sb_offset sb < bn_sz n" "a < pl_brk pl"
proof -
  have s: "chain pl (sb_head sb) (a # l)" "full_node pl a" "0 \<le> sb_offset sb" "sb_offset sb < int (length (node_bytes pl a))"
    using assms by (simp_all add: own_def sb_list_def)
  obtain n b where n: "pl_node pl a = Some n" "bn_sz n = int (length (node_bytes pl a))" "0 < bn_sz n"
    using full_nodeE [OF s(2)] by metis
  show thesis
    using s n assms by (intro that [of n]) (auto simp: head_node_def own_def pool_ok_def)
qed

lemma return_free_node_spec:
  assumes "own pl sb fl (a # l)"
  shows "\<exists>sb' pl'. return_free_node (sb\<lparr>sb_offset := off\<rparr>) pl = Inr (sb', pl') \<and> own pl' sb' (a # fl) l \<and> unread pl' sb' l = held_in pl l \<and>
    chunk_frame pl (set (fl @ a # l)) pl' (set ((a # fl) @ l)) \<and> sb_size sb' = sb_size sb"
proof -
  obtain n where n: "sb_head sb = Some a" "pl_node pl a = Some n" "chain pl (bn_next n) l" "a < pl_brk pl"
    using own_head [OF assms] by metis
  have d: "distinct (fl @ a # l)" "chain pl (pl_free pl) fl" "\<forall>x. pl_node pl x \<noteq> None \<longrightarrow> x < pl_brk pl" "sb_tail sb = Some (last (a # l))"
    "\<forall>x \<in> set l. full_node pl x"
    using assms by (simp_all add: own_def pool_ok_def sb_list_def)
  define sb' where "sb' = sb\<lparr>sb_offset := 0, sb_head := bn_next n, sb_tail := (if bn_next n = None then None else sb_tail sb)\<rparr>"
  define pl' where "pl' = (put_node a \<lparr>bn_msg = None, bn_sz = 0, bn_next = pl_free pl\<rparr> pl)\<lparr>pl_free := Some a\<rparr>"
  have same: "\<forall>x \<in> set l. pl_node pl' x = pl_node pl x" "\<forall>x \<in> set fl. pl_node pl' x = pl_node pl x"
    using d(1) by (auto simp: pl'_def)
  have nx: "bn_next n = None \<longleftrightarrow> l = []"
    using n(3) by (cases l) auto
  have full: "full_node pl' x" if "x \<in> set l" for x
    using d(5) same(1) that buffer_node_cong [of pl' x pl] by simp
  have "sb_list pl' sb' l"
  proof -
    have "0 < length (node_bytes pl' (hd l))" if "l \<noteq> []"
      using full_nodeE [OF full [of "hd l"]] that by (metis hd_in_set of_nat_0_less_iff)
    then show ?thesis
      using chain_cong [OF n(3) same(1)] d(4) nx full by (auto simp: sb_list_def sb'_def)
  qed
  moreover have "pool_ok pl' (a # fl)"
    using chain_cong [OF d(2) same(2)] d(3) n(4) by (auto simp: pool_ok_def pl'_def)
  moreover have "unread pl' sb' l = held_in pl l"
    using held_cong [OF same(1)] by (simp add: unread_def sb'_def)
  moreover have "chunk_frame pl (set (fl @ a # l)) pl' (set ((a # fl) @ l))"
    by (auto simp: chunk_frame_def pl'_def)
  moreover have "return_free_node (sb\<lparr>sb_offset := off\<rparr>) pl = Inr (sb', pl')"
    using n(1,2) by (simp add: return_free_node_def sb'_def pl'_def)
  ultimately show ?thesis
    using d(1) by (intro exI [of _ sb'] exI [of _ pl']) (auto simp: own_def sb'_def)
qed

definition popped :: "buffer_pool \<Rightarrow> socket_buffer \<Rightarrow> addr list \<Rightarrow> addr list \<Rightarrow> nat \<Rightarrow> socket_buffer \<Rightarrow> buffer_pool \<Rightarrow> addr list \<Rightarrow> addr list \<Rightarrow> bool" where
  "popped pl sb fl l k sb' pl' fl' l' \<longleftrightarrow> own pl' sb' fl' l' \<and> unread pl' sb' l' = drop k (unread pl sb l) \<and>
     chunk_frame pl (set (fl @ l)) pl' (set (fl' @ l')) \<and> sb_size sb' = sb_size sb"

lemma unread_Cons:
  assumes "own pl sb fl (a # l)"
  shows "unread pl sb (a # l) = drop (nat (sb_offset sb)) (node_bytes pl a) @ held_in pl l"
proof -
  obtain n :: buffer_node where "bn_sz n = int (length (node_bytes pl a))" "0 \<le> sb_offset sb" "sb_offset sb < bn_sz n"
    by (rule own_head [OF assms]) blast
  then have "nat (sb_offset sb) \<le> length (node_bytes pl a)"
    by simp
  then show ?thesis
    by (simp add: unread_def)
qed

lemma skip_in_node:
  assumes "own pl sb fl (a # l)" "0 \<le> k" "sb_offset sb + k < int (length (node_bytes pl a))"
  shows "popped pl sb fl (a # l) (nat k) (sb\<lparr>sb_offset := sb_offset sb + k\<rparr>) pl fl (a # l)"
proof -
  have o: "0 \<le> sb_offset sb"
    using assms(1) by (simp add: own_def sb_list_def)
  then have "nat (sb_offset sb + k) = nat k + nat (sb_offset sb)"
    using assms(2) by simp
  then show ?thesis
    using assms o chunk_frame_refl by (simp add: popped_def own_def sb_list_def unread_def add.commute del: held_simps)
qed

lemma return_popped:
  assumes "own pl sb fl (a # l)"
  shows "\<exists>sb' pl'. return_free_node (sb\<lparr>sb_offset := off\<rparr>) pl = Inr (sb', pl') \<and>
    popped pl sb fl (a # l) (length (node_bytes pl a) - nat (sb_offset sb)) sb' pl' (a # fl) l \<and> unread pl' sb' l = held_in pl l"
  using return_free_node_spec [OF assms, of off] unread_Cons [OF assms] by (auto simp: popped_def)

lemma popped_trans:
  assumes "popped pl sb fl l j sb1 pl1 fl1 l1" "popped pl1 sb1 fl1 l1 k sb2 pl2 fl2 l2"
  shows "popped pl sb fl l (j + k) sb2 pl2 fl2 l2"
  using assms chunk_frame_trans by (auto simp: popped_def add.commute)

lemma pop_loop_spec:
  assumes "0 \<le> skip" and own: "own pl sb fl l" "0 < sz" "nat sz \<le> length (unread pl sb l)"
  shows "\<exists>sb' pl' fl' l'. pop_loop sb pl b sz skip = Some (Inr (b @ take (nat (sz - skip)) (unread pl sb l), sb', pl')) \<and> popped pl sb fl l (nat sz) sb' pl' fl' l'"
  using own
proof (induction l arbitrary: pl sb fl b sz)
  case Nil
  then show ?case
    by (simp add: unread_def)
next
  case (Cons a l)
  obtain n where n: "sb_head sb = Some a" "pl_node pl a = Some n" "head_node sb pl = Inr n" "full_node pl a"
    "bn_sz n = int (length (node_bytes pl a))" "0 \<le> sb_offset sb" "sb_offset sb < bn_sz n"
    using own_head [OF Cons.prems(1)] by metis
  define E where "E = drop (nat (sb_offset sb)) (node_bytes pl a)"
  define bytes where "bytes = bn_sz n - sb_offset sb"
  have E: "bytes = int (length E)" "0 < bytes" "nat bytes = length (node_bytes pl a) - nat (sb_offset sb)"
    using n(5-7) by (auto simp: E_def bytes_def of_nat_diff nat_diff_distrib)
  have u: "unread pl sb (a # l) = E @ held_in pl l"
    using unread_Cons [OF Cons.prems(1)] by (simp add: E_def)
  have read: "(if k > 0 then mem_read (bn_msg n) (sb_offset sb) k else Inr []) = Inr (take (nat k) E)" if "k \<le> bytes" for k
    using read_node [OF n(4,2,6), of k] that by (auto simp: E_def bytes_def)
  consider (inside) "sz < bytes" | (all) "sz = bytes" | (more) "bytes < sz"
    by linarith
  then show ?case
  proof cases
    case inside
    have "sb_offset sb + sz < int (length (node_bytes pl a))"
      using inside n(5) by (simp add: bytes_def)
    from skip_in_node [OF Cons.prems(1) _ this] Cons.prems(2)
    have p: "popped pl sb fl (a # l) (nat sz) (sb\<lparr>sb_offset := sb_offset sb + sz\<rparr>) pl fl (a # l)"
      by simp
    have "(if sz > skip then mem_read (bn_msg n) (sb_offset sb) (sz - skip) else Inr []) = Inr (take (nat (sz - skip)) E)"
      using read [of "sz - skip"] inside \<open>0 \<le> skip\<close> by simp
    then have "pop_loop sb pl b sz skip = Some (Inr (b @ take (nat (sz - skip)) E, sb\<lparr>sb_offset := sb_offset sb + sz\<rparr>, pl))"
      using n(1,3) inside by (subst pop_loop.simps) (simp add: Let_def bytes_def)
    moreover have "nat (sz - skip) \<le> length E"
      using inside E(1) \<open>0 \<le> skip\<close> by linarith
    then have "take (nat (sz - skip)) (E @ held_in pl l) = take (nat (sz - skip)) E"
      by simp
    ultimately show ?thesis
      unfolding u using p by metis
  next
    case all
    obtain sb' pl' where r: "return_free_node (sb\<lparr>sb_offset := sb_offset sb + sz\<rparr>) pl = Inr (sb', pl')" "popped pl sb fl (a # l) (nat bytes) sb' pl' (a # fl) l"
      using return_popped [OF Cons.prems(1)] unfolding E(3) by blast
    have "(if sz > skip then mem_read (bn_msg n) (sb_offset sb) (sz - skip) else Inr []) = Inr (take (nat (sz - skip)) E)"
      using read [of "sz - skip"] all \<open>0 \<le> skip\<close> by simp
    then have "pop_loop sb pl b sz skip = Some (Inr (b @ take (nat (sz - skip)) E, sb', pl'))"
      using n(1,3) all r(1) by (subst pop_loop.simps) (simp add: Let_def bytes_def)
    moreover have "nat (sz - skip) \<le> length E"
      using all E(1) \<open>0 \<le> skip\<close> by linarith
    then have "take (nat (sz - skip)) (E @ held_in pl l) = take (nat (sz - skip)) E"
      by simp
    ultimately show ?thesis
      unfolding u using r(2) all by metis
  next
    case more
    obtain sb' pl' where r: "return_free_node sb pl = Inr (sb', pl')" "popped pl sb fl (a # l) (nat bytes) sb' pl' (a # fl) l" "unread pl' sb' l = held_in pl l"
      using return_popped [OF Cons.prems(1), of "sb_offset sb"] unfolding E(3) by auto
    have rd: "(if sz - skip > 0 then mem_read (bn_msg n) (sb_offset sb) (if sz - skip < bytes then sz - skip else bytes) else Inr []) = Inr (take (nat (sz - skip)) E)"
      using read [of "sz - skip"] read [of bytes] E(1,2) by auto
    have "\<not> sz \<le> bytes" "sz - bytes \<noteq> 0"
      using more by simp_all
    then have step: "pop_loop sb pl b sz skip = pop_loop sb' pl' (b @ take (nat (sz - skip)) E) (sz - bytes) skip"
      by (subst pop_loop.simps) (simp only: n(1,3) sum.case Let_def bytes_def [symmetric] rd res_bind_simps r(1) prod.case option.distinct if_False)
    have o: "own pl' sb' (a # fl) l"
      using r(2) by (simp add: popped_def)
    have len: "0 < sz - bytes" "nat (sz - bytes) \<le> length (unread pl' sb' l)"
      using more Cons.prems(3) E(1) unfolding u r(3) by simp_all
    obtain sb2 pl2 fl2 l2 where i: "pop_loop sb' pl' (b @ take (nat (sz - skip)) E) (sz - bytes) skip =
        Some (Inr ((b @ take (nat (sz - skip)) E) @ take (nat (sz - bytes - skip)) (unread pl' sb' l), sb2, pl2))"
      "popped pl' sb' (a # fl) l (nat (sz - bytes)) sb2 pl2 fl2 l2"
      using Cons.IH [OF o len] by blast
    have "nat (sz - bytes - skip) = nat (sz - skip) - length E" "nat bytes + nat (sz - bytes) = nat sz"
      using E(1) more Cons.prems(2) by simp_all
    then show ?thesis
      using i popped_trans [OF r(2) i(2)] unfolding step u r(3) by (intro exI [of _ sb2] exI [of _ pl2] exI [of _ fl2] exI [of _ l2]) simp
  qed
qed

lemma pop_lstring_spec:
  assumes "own pl sb fl l" "l \<noteq> []" "0 \<le> skip" "skip \<le> sz" "nat sz \<le> length (unread pl sb l)"
  shows "\<exists>sb' pl' fl' l'. pop_lstring sb pl sz skip = Some (Inr (take (nat (sz - skip)) (unread pl sb l), sb', pl')) \<and> popped pl sb fl l (nat sz) sb' pl' fl' l'"
proof -
  obtain a r where l: "l = a # r"
    using assms(2) by (cases l) auto
  note own = assms(1) [unfolded l]
  obtain n where n: "sb_head sb = Some a" "pl_node pl a = Some n" "head_node sb pl = Inr n" "full_node pl a"
    "bn_sz n = int (length (node_bytes pl a))" "0 \<le> sb_offset sb" "sb_offset sb < bn_sz n"
    using own_head [OF own] by metis
  define E where "E = drop (nat (sb_offset sb)) (node_bytes pl a)"
  have E: "bn_sz n - sb_offset sb = int (length E)"
    using n(5-7) by (auto simp: E_def of_nat_diff)
  have u: "unread pl sb (a # r) = E @ held_in pl r"
    using unread_Cons [OF own] by (simp add: E_def)
  have read: "mem_read (bn_msg n) (sb_offset sb) (sz - skip) = Inr (take (nat (sz - skip)) E)" if "sz \<le> int (length E)"
    using read_node [OF n(4,2,6), of "sz - skip"] that assms(3,4) E by (auto simp: E_def)
  have tk: "take (nat (sz - skip)) (E @ held_in pl r) = take (nat (sz - skip)) E" if "sz \<le> int (length E)"
    using that assms(3) by simp
  consider (inside) "sz < int (length E)" | (all) "sz = int (length E)" | (more) "int (length E) < sz"
    by linarith
  then show ?thesis
  proof cases
    case inside
    have "sb_offset sb + sz < int (length (node_bytes pl a))"
      using inside n(5) E by simp
    from skip_in_node [OF own _ this] assms(3,4)
    have "popped pl sb fl (a # r) (nat sz) (sb\<lparr>sb_offset := sb_offset sb + sz\<rparr>) pl fl (a # r)"
      by simp
    moreover have "pop_lstring sb pl sz skip = Some (Inr (take (nat (sz - skip)) E, sb\<lparr>sb_offset := sb_offset sb + sz\<rparr>, pl))"
      using n(3) inside read E by (simp add: pop_lstring_def)
    ultimately show ?thesis
      unfolding l u using tk inside by auto
  next
    case all
    have "length (node_bytes pl a) - nat (sb_offset sb) = nat sz"
      using all by (simp add: E_def)
    then obtain sb' pl' where r: "return_free_node sb pl = Inr (sb', pl')" "popped pl sb fl (a # r) (nat sz) sb' pl' (a # fl) r"
      using return_popped [OF own, of "sb_offset sb"] by auto
    moreover have "pop_lstring sb pl sz skip = Some (Inr (take (nat (sz - skip)) E, sb', pl'))"
      using n(3) all read E r(1) by (simp add: pop_lstring_def)
    ultimately show ?thesis
      unfolding l u using tk all by auto
  next
    case more
    then have "pop_lstring sb pl sz skip = pop_loop sb pl [] sz skip"
      using n(3) E by (simp add: pop_lstring_def)
    then show ?thesis
      using pop_loop_spec [OF assms(3,1) _ assms(5), of "[]"] more by simp
  qed
qed

lemma return_all_spec:
  assumes "own pl sb fl l"
  shows "\<exists>sb' pl' fl'. return_all sb pl = Some (Inr (sb', pl')) \<and> own pl' sb' fl' [] \<and> chunk_frame pl (set (fl @ l)) pl' (set fl') \<and> sb_size sb' = sb_size sb"
  using assms
proof (induction l arbitrary: pl sb fl)
  case Nil
  then have "return_all sb pl = Some (Inr (sb, pl))"
    by (subst return_all.simps) (simp add: own_def sb_list_def)
  then show ?case
    using Nil chunk_frame_refl by (intro exI [of _ sb] exI [of _ pl] exI [of _ fl]) simp
next
  case (Cons a l)
  obtain sb1 pl1 where r: "return_free_node sb pl = Inr (sb1, pl1)" "own pl1 sb1 (a # fl) l"
    "chunk_frame pl (set (fl @ a # l)) pl1 (set ((a # fl) @ l))" "sb_size sb1 = sb_size sb"
    using return_free_node_spec [OF Cons.prems, of "sb_offset sb"] by auto
  have "sb_head sb = Some a"
    using own_head [OF Cons.prems] by metis
  then have step: "return_all sb pl = return_all sb1 pl1"
    using r(1) by (subst return_all.simps) simp
  show ?case
    unfolding step using Cons.IH [OF r(2)] chunk_frame_trans [OF r(3)] r(4) by metis
qed

lemma readall_loop_spec:
  assumes "own pl sb fl l"
  shows "\<exists>sb' pl' fl'. readall_loop sb pl b = Some (Inr (b @ unread pl sb l, sb', pl')) \<and> own pl' sb' fl' [] \<and> chunk_frame pl (set (fl @ l)) pl' (set fl') \<and>
    sb_size sb' = sb_size sb"
  using assms
proof (induction l arbitrary: pl sb fl b)
  case Nil
  then have "readall_loop sb pl b = Some (Inr (b, sb, pl))"
    by (subst readall_loop.simps) (simp add: own_def sb_list_def)
  then show ?case
    using Nil chunk_frame_refl by (intro exI [of _ sb] exI [of _ pl] exI [of _ fl]) (simp add: unread_def)
next
  case (Cons a l)
  obtain sb1 pl1 where r: "return_free_node sb pl = Inr (sb1, pl1)" "own pl1 sb1 (a # fl) l" "unread pl1 sb1 l = held_in pl l"
    "chunk_frame pl (set (fl @ a # l)) pl1 (set ((a # fl) @ l))" "sb_size sb1 = sb_size sb"
    using return_free_node_spec [OF Cons.prems, of "sb_offset sb"] by auto
  obtain n where n: "sb_head sb = Some a" "pl_node pl a = Some n" "head_node sb pl = Inr n" "full_node pl a"
    "bn_sz n = int (length (node_bytes pl a))" "0 \<le> sb_offset sb" "sb_offset sb < bn_sz n"
    using own_head [OF Cons.prems] by metis
  have "mem_read (bn_msg n) (sb_offset sb) (bn_sz n - sb_offset sb) = Inr (drop (nat (sb_offset sb)) (node_bytes pl a))"
    using read_node [OF n(4,2,6), of "bn_sz n - sb_offset sb"] n(5-7) by (simp add: nat_diff_distrib)
  then have step: "readall_loop sb pl b = readall_loop sb1 pl1 (b @ drop (nat (sb_offset sb)) (node_bytes pl a))"
    using r(1) n(1,3) by (subst readall_loop.simps) simp
  have "unread pl sb (a # l) = drop (nat (sb_offset sb)) (node_bytes pl a) @ unread pl1 sb1 l"
    using unread_Cons [OF Cons.prems] r(3) by simp
  then show ?case
    unfolding step using Cons.IH [OF r(2), of "b @ drop (nat (sb_offset sb)) (node_bytes pl a)"] chunk_frame_trans [OF r(4)] r(5) by (metis append_assoc)
qed

lemma get_free_node_spec:
  assumes "pool_ok pl fl" "distinct fl"
  shows "\<exists>a pl' fl' n. get_free_node pl = (a, pl') \<and> pl_node pl' a = Some n \<and> chain pl' (bn_next n) fl' \<and> distinct (a # fl') \<and>
    pl_brk pl \<le> pl_brk pl' \<and> (\<forall>x < pl_brk pl. pl_node pl' x = pl_node pl x) \<and> (\<forall>x \<in> set (a # fl'). x \<in> set fl \<or> pl_brk pl \<le> x) \<and>
    (\<forall>x. pl_node pl' x \<noteq> None \<longrightarrow> x < pl_brk pl')"
proof (cases "pl_free pl")
  case (Some a)
  then obtain fl' n where "fl = a # fl'" "pl_node pl a = Some n" "chain pl (bn_next n) fl'"
    using assms(1) by (cases fl) (auto simp: pool_ok_def split: option.splits)
  then show ?thesis
    using Some assms by (intro exI [of _ a] exI [of _ pl] exI [of _ fl'] exI [of _ n]) (auto simp: get_free_node_def pool_ok_def)
next
  case None
  define tsz where "tsz = (if pl_len pl = 0 then 1 else pl_len pl)"
  define sz :: nat where "sz = (if tsz \<le> LARGE_PAGE_NODE - 3 then 8 * 2 ^ tsz else 8 * 2 ^ (LARGE_PAGE_NODE - 3))"
  define base where "base = pl_brk pl"
  define pl' where "pl' = (snd (lnewpool pl sz))\<lparr>pl_len := tsz + 1\<rparr>"
  have sz: "0 < sz"
    by (simp add: sz_def)
  have g: "get_free_node pl = (base, pl')"
  proof -
    have "get_free_node pl = (fst (lnewpool pl sz), pl')"
      using None by (simp add: get_free_node_def Let_def tsz_def [symmetric] sz_def [symmetric] pl'_def split_def)
    then show ?thesis
      by (simp add: lnewpool_def Let_def base_def)
  qed
  have node: "pl_node pl' x = (if base \<le> x \<and> x < base + sz then Some \<lparr>bn_msg = None, bn_sz = 0, bn_next = (if x + 1 = base + sz then None else Some (x + 1))\<rparr>
      else pl_node pl x)" and brk: "pl_brk pl' = base + sz" for x
    by (simp_all add: pl'_def lnewpool_def Let_def base_def)
  have ch: "chain pl' (if k = base + sz then None else Some k) [k..<base + sz]" if "base \<le> k" "k \<le> base + sz" for k
    using that
  proof (induction "base + sz - k" arbitrary: k)
    case (Suc m)
    then have "[k..<base + sz] = k # [k + 1..<base + sz]"
      by (simp add: upt_conv_Cons)
    moreover have "chain pl' (if k + 1 = base + sz then None else Some (k + 1)) [k + 1..<base + sz]"
      using Suc.hyps(1) [of "k + 1"] Suc.hyps(2) Suc.prems by (cases "k + 1 = base + sz") simp_all
    ultimately show ?case
      using Suc.hyps(2) Suc.prems by (simp add: node)
  qed simp
  have "chain pl' (bn_next (the (pl_node pl' base))) [base + 1..<base + sz]"
    using ch [of "base + 1"] sz by (simp add: node)
  moreover have "\<forall>x. pl_node pl' x \<noteq> None \<longrightarrow> x < pl_brk pl'"
    using assms(1) by (auto simp: node brk pool_ok_def base_def intro: less_le_trans)
  ultimately show ?thesis
    using g sz by (intro exI [of _ base] exI [of _ pl'] exI [of _ "[base + 1..<base + sz]"] exI [of _ "the (pl_node pl' base)"])
      (auto simp: node brk base_def)
qed

lemma chain_snoc:
  assumes "chain pl p l" "distinct l" "a \<notin> set l" "pl_node pl a = Some n" "bn_next n = None" "l \<noteq> []" "pl_node pl (last l) = Some tn"
  shows "chain (put_node (last l) (tn\<lparr>bn_next := Some a\<rparr>) pl) p (l @ [a])"
  using assms
proof (induction l arbitrary: p)
  case (Cons x l)
  show ?case
  proof (cases "l = []")
    case True
    then show ?thesis
      using Cons.prems by (auto split: option.splits)
  next
    case False
    then have "x \<noteq> last l"
      using Cons.prems(2) last_in_set [of l] by auto
    then show ?thesis
      using Cons False by (auto split: option.splits)
  qed
qed simp

lemma lpushbuffer_spec:
  assumes own: "own pl sb fl l" and sz: "0 < sz" "sz \<le> int (length b)" "0 \<le> sb_size sb" "sb_size sb + sz < 2 ^ 31"
  shows "\<exists>sb' pl' fl' l'. lpushbuffer sb pl b sz = Inr (sb_size sb + sz, sb', pl') \<and> own pl' sb' fl' l' \<and>
    unread pl' sb' l' = unread pl sb l @ take (nat sz) b \<and> chunk_frame pl (set (fl @ l)) pl' (set (fl' @ l')) \<and> sb_size sb' = sb_size sb + sz"
proof -
  have o: "sb_list pl sb l" "pool_ok pl fl" "distinct fl" "distinct l" "set fl \<inter> set l = {}"
    using own by (simp_all add: own_def)
  obtain a pl1 fl' n where g: "get_free_node pl = (a, pl1)" "pl_node pl1 a = Some n" "chain pl1 (bn_next n) fl'" "distinct (a # fl')"
    "pl_brk pl \<le> pl_brk pl1" "\<forall>x < pl_brk pl. pl_node pl1 x = pl_node pl x" "\<forall>x \<in> set (a # fl'). x \<in> set fl \<or> pl_brk pl \<le> x"
    "\<forall>x. pl_node pl1 x \<noteq> None \<longrightarrow> x < pl_brk pl1"
    using get_free_node_spec [OF o(2,3)] by blast
  have lt: "x < pl_brk pl" if "x \<in> set l" for x
    using o(1,2) that chain_alloc [of pl "sb_head sb" l x] by (simp add: sb_list_def pool_ok_def)
  have new: "x \<notin> set l" if "x \<in> set (a # fl')" for x
    using g(7) that o(5) lt by (metis disjoint_iff linorder_not_le)
  define nn where "nn = \<lparr>bn_msg = Some b, bn_sz = sz, bn_next = None\<rparr>"
  define pl2 where "pl2 = put_node a nn (pl1\<lparr>pl_free := bn_next n\<rparr>)"
  have same: "\<forall>x \<in> set l. pl_node pl2 x = pl_node pl x"
    using new g(6) lt by (auto simp: pl2_def)
  have l2: "sb_list pl2 sb l" "unread pl2 sb l = unread pl sb l"
    using sb_list_cong [OF o(1) same] by simp_all
  have na: "full_node pl2 a" "node_bytes pl2 a = take (nat sz) b"
    using sz by (auto simp: full_node_def node_bytes_def pl2_def nn_def)
  have al: "a < pl_brk pl1"
    using g(2,8) by blast
  show ?thesis
  proof (cases l)
    case Nil
    define sb' where "sb' = sb\<lparr>sb_head := Some a, sb_tail := Some a, sb_size := sb_size sb + sz\<rparr>"
    have "sb_head sb = None" "sb_tail sb = None" "sb_offset sb = 0"
      using o(1) Nil by (simp_all add: sb_list_def)
    then have r: "lpushbuffer sb pl b sz = Inr (sb_size sb + sz, sb', pl2)"
      using g(1,2) sz by (simp add: lpushbuffer_def Let_def pl2_def nn_def sb'_def)
    have "pl_node pl2 a = Some nn"
      by (simp add: pl2_def)
    then have "sb_list pl2 sb' [a]"
      using na sz \<open>sb_offset sb = 0\<close> by (simp add: sb_list_def sb'_def nn_def)
    moreover have "pool_ok pl2 fl'"
      using chain_cong [OF g(3), of pl2] g(4,8) al by (auto simp: pool_ok_def pl2_def)
    moreover have "chunk_frame pl (set (fl @ l)) pl2 (set (fl' @ [a]))"
      using g(5,6,7) by (auto simp: chunk_frame_def pl2_def)
    moreover have "unread pl2 sb' [a] = unread pl sb l @ take (nat sz) b"
      using na(2) Nil \<open>sb_offset sb = 0\<close> by (simp add: unread_def sb'_def)
    ultimately show ?thesis
      using r g(4) by (intro exI [of _ sb'] exI [of _ pl2] exI [of _ fl'] exI [of _ "[a]"]) (simp add: own_def sb'_def)
  next
    case (Cons h r)
    then have ne: "l \<noteq> []"
      by simp
    have "full_node pl2 (last l)"
      using l2(1) ne by (simp add: sb_list_def)
    then obtain tn where tn: "pl_node pl2 (last l) = Some tn"
      by (auto simp: full_node_def)
    define pl3 where "pl3 = put_node (last l) (tn\<lparr>bn_next := Some a\<rparr>) pl2"
    define sb' where "sb' = sb\<lparr>sb_tail := Some a, sb_size := sb_size sb + sz\<rparr>"
    have hd: "sb_head sb = Some h" "sb_tail sb = Some (last l)"
      using o(1) Cons by (simp_all add: sb_list_def)
    have "deref ((pl_node pl1)(a \<mapsto> \<lparr>bn_msg = Some b, bn_sz = sz, bn_next = None\<rparr>)) (last l) = Inr tn"
      using tn by (simp add: pl2_def nn_def)
    then have r: "lpushbuffer sb pl b sz = Inr (sb_size sb + sz, sb', pl3)"
      using g(1,2) sz hd by (simp add: lpushbuffer_def Let_def pl2_def [unfolded nn_def, symmetric] sb'_def pl3_def)
    have nl: "a \<notin> set l"
      using new by simp
    have nodes: "full_node pl3 x = full_node pl2 x" "node_bytes pl3 x = node_bytes pl2 x" for x
      using tn by (auto simp: full_node_def node_bytes_def pl3_def split: option.splits)
    have "chain pl3 (sb_head sb) (l @ [a])"
      unfolding pl3_def using l2(1) tn ne nl o(4) by (intro chain_snoc [where n = nn]) (simp_all add: sb_list_def pl2_def nn_def)
    then have "sb_list pl3 sb' (l @ [a])"
      using l2(1) na(1) ne by (auto simp: sb_list_def sb'_def nodes)
    moreover have "unread pl3 sb' (l @ [a]) = unread pl sb l @ take (nat sz) b"
    proof -
      have "held_in pl3 l = held_in pl2 l" "node_bytes pl3 a = take (nat sz) b"
        using na(2) by (simp_all add: held_in_def nodes cong: map_cong)
      moreover have "nat (sb_offset sb) < length (node_bytes pl2 h)"
        using l2(1) Cons by (simp add: sb_list_def nat_less_iff)
      then have "nat (sb_offset sb) \<le> length (held_in pl2 l)"
        using Cons by simp
      ultimately show ?thesis
        using l2(2) by (simp add: unread_def sb'_def)
    qed
    moreover have fl': "\<forall>x \<in> set fl'. pl_node pl3 x = pl_node pl1 x"
    proof
      fix x
      assume x: "x \<in> set fl'"
      then have "x \<noteq> last l" "x \<noteq> a"
        using new [of x] ne g(4) by auto
      then show "pl_node pl3 x = pl_node pl1 x"
        by (simp add: pl3_def pl2_def)
    qed
    have "last l < pl_brk pl1"
      using lt [of "last l"] ne g(5) by simp
    then have "pool_ok pl3 fl'"
      using chain_cong [OF g(3) fl'] g(8) al by (auto simp: pool_ok_def pl3_def pl2_def)
    moreover have "chunk_frame pl (set (fl @ l)) pl3 (set (fl' @ l @ [a]))"
      using g(5,6,7) ne by (auto simp: chunk_frame_def pl3_def pl2_def)
    moreover have "distinct (fl' @ l @ [a])"
      using g(4) o(4) new by auto
    ultimately show ?thesis
      using r by (intro exI [of _ sb'] exI [of _ pl3] exI [of _ fl'] exI [of _ "l @ [a]"]) (simp add: own_def sb'_def)
  qed
qed

section \<open>Looking for a separator\<close>

lemma check_sep_spec:
  assumes "chain pl p l" "\<forall>a \<in> set l. full_node pl a" "l \<noteq> []" "0 \<le> from" "from \<le> int (length (node_bytes pl (hd l)))"
    "length sep \<le> length (drop (nat from) (held_in pl l))"
  shows "check_sep pl p from sep = Some (Inr (take (length sep) (drop (nat from) (held_in pl l)) = sep))"
  using assms
proof (induction l arbitrary: p "from" sep)
  case (Cons a l)
  obtain n where n: "p = Some a" "pl_node pl a = Some n" "chain pl (bn_next n) l"
    using Cons.prems(1) by (auto split: option.splits)
  have f: "full_node pl a" "bn_sz n = int (length (node_bytes pl a))"
    using Cons.prems(2) n(2) by (auto elim!: full_nodeE)
  define E where "E = drop (nat from) (node_bytes pl a)"
  have E: "bn_sz n - from = int (length E)"
    using f(2) Cons.prems(4,5) by (simp add: E_def of_nat_diff)
  have h: "drop (nat from) (held_in pl (a # l)) = E @ held_in pl l"
    using Cons.prems(4,5) by (simp add: E_def)
  have read: "mem_read (bn_msg n) from k = Inr (take (nat k) E)" if "0 \<le> k" "k \<le> int (length E)" for k
    using read_node [OF f(1) n(2) Cons.prems(4) that(1)] that(2) E by (simp add: E_def)
  show ?case
  proof (cases "length sep \<le> length E")
    case True
    then show ?thesis
      unfolding h using n E read [of "int (length sep)"] by (subst check_sep.simps) (simp add: Let_def)
  next
    case False
    have rd: "(if int (length E) > 0 then mem_read (bn_msg n) from (int (length E)) else Inr []) = Inr E"
      using read [of "int (length E)"] by auto
    have "check_sep pl p from sep = (if E \<noteq> take (length E) sep then Some (Inr False) else check_sep pl (bn_next n) 0 (drop (length E) sep))"
      using False by (subst check_sep.simps) (simp only: n(1) option.case n(2) deref_Some sum.case Let_def E rd, simp)
    moreover have "check_sep pl (bn_next n) 0 (drop (length E) sep) = Some (Inr (take (length (drop (length E) sep)) (held_in pl l) = drop (length E) sep))"
    proof -
      have len: "length sep - length E \<le> length (held_in pl l)"
        using Cons.prems(6) unfolding h by simp
      then have "l \<noteq> []"
        using False by auto
      then show ?thesis
        using Cons.IH [OF n(3), of 0 "drop (length E) sep"] Cons.prems(2) len by simp
    qed
    moreover have "take (length sep) (E @ held_in pl l) = sep \<longleftrightarrow> E = take (length E) sep \<and> take (length sep - length E) (held_in pl l) = drop (length E) sep"
      using False append_eq_conv_conj [of E "take (length sep - length E) (held_in pl l)" sep] by (auto simp: eq_commute)
    ultimately show ?thesis
      unfolding h by simp
  qed
qed simp

text \<open>The place of the first separator.\<close>

fun find_sep :: "bytes \<Rightarrow> bytes \<Rightarrow> nat option" where
  "find_sep sep s = (if take (length sep) s = sep then Some 0 else case s of [] \<Rightarrow> None | b # s \<Rightarrow> map_option Suc (find_sep sep s))"

declare find_sep.simps [simp del]

lemma find_sep_short: "length s < length sep \<Longrightarrow> find_sep sep s = None"
proof (induction s)
  case (Cons b s)
  then show ?case
    by (subst find_sep.simps) (auto dest: arg_cong [of _ _ length])
qed (auto simp: find_sep.simps)

lemma find_sep_Some: "find_sep sep s = Some k \<Longrightarrow> take (length sep) (drop k s) = sep \<and> k + length sep \<le> length s"
proof (induction s arbitrary: k)
  case Nil
  then show ?case
    by (simp add: find_sep.simps split: if_splits)
next
  case (Cons b s)
  show ?case
  proof (cases "take (length sep) (b # s) = sep")
    case True
    then have "length sep \<le> length (b # s)"
      by (metis length_take min.cobounded1)
    then show ?thesis
      using Cons.prems True by (subst (asm) find_sep.simps) auto
  next
    case False
    then obtain j where "find_sep sep s = Some j" "k = Suc j"
      using Cons.prems by (subst (asm) find_sep.simps) auto
    then show ?thesis
      using Cons.IH by simp
  qed
qed

lemma find_sep_Nil: "find_sep sep [] = (if sep = [] then Some 0 else None)"
  by (simp add: find_sep.simps eq_commute)

lemma find_sep_Cons: "find_sep sep (b # s) = (if take (length sep) (b # s) = sep then Some 0 else map_option Suc (find_sep sep s))"
  by (subst find_sep.simps) simp

lemma line_loop_spec:
  assumes "chain pl (Some cur) (cur # l)" "\<forall>a \<in> set (cur # l). full_node pl a" "0 \<le> from" "from < int (length (node_bytes pl cur))"
    "bytes = int (length (node_bytes pl cur)) - from" "R = drop (nat from) (held_in pl (cur # l))" "sz = i + int (length R)"
  shows "line_loop pl sep sz i cur from bytes = Some (Inr (map_option (\<lambda>k. i + int k) (find_sep sep R)))"
  using assms
proof (induction "length R" arbitrary: R i cur l "from" bytes rule: less_induct)
  case less
  have nb: "nat from < length (node_bytes pl cur)"
    using less.prems(3,4) by (simp add: nat_less_iff)
  then have "nat from < length (held_in pl (cur # l))"
    by simp
  then obtain b R' where R: "R = b # R'" "R' = drop (nat from + 1) (held_in pl (cur # l))"
    using less.prems(6) Cons_nth_drop_Suc [of "nat from" "held_in pl (cur # l)"] by (metis Suc_eq_plus1)
  show ?case
  proof (cases "length sep \<le> length R")
    case True
    have chk: "check_sep pl (Some cur) from sep = Some (Inr (take (length sep) R = sep))"
      using check_sep_spec [OF less.prems(1,2) _ less.prems(3), of sep] less.prems(4,6) True by simp
    have cond: "i \<le> sz - int (length sep)"
      using True less.prems(7) by simp
    show ?thesis
    proof (cases "take (length sep) R = sep")
      case found: True
      then have "find_sep sep R = Some 0"
        unfolding R(1) by (subst find_sep_Cons) simp
      then show ?thesis
        using chk cond found by (subst line_loop.simps) simp
    next
      case not_found: False
      have f: "find_sep sep R = map_option Suc (find_sep sep R')" "sep \<noteq> []"
        using not_found R(1) by (auto simp: find_sep_Cons)
      have len: "length R' < length R" "sz = i + 1 + int (length R')"
        using R(1) less.prems(7) by simp_all
      have goal: "map_option (\<lambda>k. i + 1 + int k) (find_sep sep R') = map_option (\<lambda>k. i + int k) (find_sep sep R)"
        unfolding f(1) by (simp add: option.map_comp comp_def add.assoc)
      obtain n where n: "pl_node pl cur = Some n" "chain pl (bn_next n) l"
        using less.prems(1) by (auto split: option.splits)
      show ?thesis
      proof (cases "bytes - 1 = 0")
        case last: True
        then have k: "nat from + 1 = length (node_bytes pl cur)"
          using less.prems(3,5) nb by linarith
        then have R': "R' = held_in pl l"
          unfolding R(2) by simp
        show ?thesis
        proof (cases l)
          case Nil
          then have "find_sep sep R' = None"
            using f(2) R' by (simp add: find_sep_Nil)
          then show ?thesis
            using chk cond not_found last n Nil f(1) by (subst line_loop.simps) simp
        next
          case (Cons nx l')
          then have nx: "bn_next n = Some nx"
            using n(2) by simp
          have fn: "full_node pl nx"
            using less.prems(2) Cons by simp
          then obtain n' where n': "pl_node pl nx = Some n'" "bn_sz n' = int (length (node_bytes pl nx))" "0 < bn_sz n'"
            by (rule full_nodeE)
          have "line_loop pl sep sz (i + 1) nx 0 (bn_sz n') = Some (Inr (map_option (\<lambda>k. i + 1 + int k) (find_sep sep R')))"
            by (rule less.hyps [OF len(1)]) (use n(2) nx Cons less.prems(2) n' R' len(2) in simp_all)
          then show ?thesis
            using chk cond not_found last n(1) nx n'(1) goal by (subst line_loop.simps) simp
        qed
      next
        case inside: False
        have "line_loop pl sep sz (i + 1) cur (from + 1) (bytes - 1) = Some (Inr (map_option (\<lambda>k. i + 1 + int k) (find_sep sep R')))"
        proof (rule less.hyps [OF len(1) less.prems(1,2)])
          show "R' = drop (nat (from + 1)) (held_in pl (cur # l))"
            using R(2) less.prems(3) by (simp add: nat_add_distrib)
        qed (use less.prems(3,4,5) inside len(2) in simp_all)
        then show ?thesis
          using chk cond not_found inside goal by (subst line_loop.simps) simp
      qed
    qed
  next
    case False
    then have "find_sep sep R = None"
      by (simp add: find_sep_short)
    moreover have "\<not> i \<le> sz - int (length sep)"
      using False less.prems(7) by simp
    ultimately show ?thesis
      by (subst line_loop.simps) simp
  qed
qed

text \<open>What the line is; an empty buffer has none, whatever the separator.\<close>

definition line_end :: "bytes \<Rightarrow> bytes \<Rightarrow> nat option" where
  "line_end sep s = (if s = [] then None else find_sep sep s)"

lemma unread_empty: "own pl sb fl l \<Longrightarrow> unread pl sb l = [] \<longleftrightarrow> l = []"
  using unread_Cons [of pl sb fl] by (cases l) (auto simp: unread_def own_def sb_list_def)

lemma lreadline_spec:
  assumes own: "own pl sb fl l" and size: "sb_size sb = int (length (unread pl sb l))"
  shows "case line_end sep (unread pl sb l) of None \<Rightarrow> lreadline sb pl check sep = Some (Inr (No_Line, sb, pl))
    | Some k \<Rightarrow> if check then lreadline sb pl check sep = Some (Inr (Has_Line, sb, pl))
        else \<exists>sb' pl' fl' l'. lreadline sb pl check sep = Some (Inr (Line (take k (unread pl sb l)), sb'\<lparr>sb_size := sb_size sb - int (k + length sep)\<rparr>, pl')) \<and>
          popped pl sb fl l (k + length sep) sb' pl' fl' l'"
proof (cases l)
  case Nil
  then have "sb_head sb = None" "unread pl sb l = []"
    using own by (simp_all add: own_def sb_list_def unread_def)
  then show ?thesis
    by (simp add: line_end_def lreadline_def)
next
  case (Cons a r)
  obtain n where n: "sb_head sb = Some a" "pl_node pl a = Some n" "bn_sz n = int (length (node_bytes pl a))" "0 \<le> sb_offset sb" "sb_offset sb < bn_sz n"
    using own_head [OF own [unfolded Cons]] by metis
  have c: "chain pl (Some a) (a # r)" "\<forall>x \<in> set (a # r). full_node pl x"
    using own Cons n(1) by (auto simp: own_def sb_list_def)
  let ?u = "unread pl sb l"
  have "line_loop pl sep (sb_size sb) 0 a (sb_offset sb) (bn_sz n - sb_offset sb) = Some (Inr (map_option (\<lambda>k. 0 + int k) (find_sep sep ?u)))"
    by (rule line_loop_spec [OF c n(4)]) (use n(3,5) size Cons in \<open>simp_all add: unread_def\<close>)
  then have ll: "line_loop pl sep (sb_size sb) 0 a (sb_offset sb) (bn_sz n - sb_offset sb) = Some (Inr (map_option int (find_sep sep ?u)))"
    by simp
  have "?u \<noteq> []"
    using unread_empty [OF own] Cons by simp
  then have e: "line_end sep ?u = find_sep sep ?u"
    by (simp add: line_end_def)
  show ?thesis
  proof (cases "find_sep sep ?u")
    case None
    then show ?thesis
      using e ll n(1,2) by (simp add: lreadline_def)
  next
    case (Some k)
    then have k: "k + length sep \<le> length ?u"
      using find_sep_Some by blast
    show ?thesis
    proof (cases check)
      case True
      then show ?thesis
        using e ll n(1,2) Some by (simp add: lreadline_def)
    next
      case False
      have "nat (int k + int (length sep)) \<le> length ?u"
        using k by simp
      then obtain sb' pl' fl' l' where p: "pop_lstring sb pl (int k + int (length sep)) (int (length sep)) = Some (Inr (take k ?u, sb', pl'))"
        "popped pl sb fl l (nat (int k + int (length sep))) sb' pl' fl' l'"
        using pop_lstring_spec [OF own, of "int (length sep)" "int k + int (length sep)"] Cons by auto
      have "sb_size sb' = sb_size sb" "nat (int k + int (length sep)) = k + length sep"
        using p(2) by (simp_all add: popped_def)
      then have "lreadline sb pl check sep = Some (Inr (Line (take k ?u), sb'\<lparr>sb_size := sb_size sb - int (k + length sep)\<rparr>, pl'))"
        using False ll n(1,2) Some p(1) by (simp add: lreadline_def)
      then show ?thesis
        using e Some False p(2) \<open>nat (int k + int (length sep)) = k + length sep\<close> by auto
    qed
  qed
qed

section \<open>All sockets of a service\<close>

text \<open>Calls on the buffers of a service, which share its pool, and what they return.\<close>

datatype sock_call = C_Push nat bytes int | C_Pop nat int | C_Line nat bool bytes | C_All nat | C_Clear nat

datatype sock_answer = A_Size int | A_Bytes "bytes option" int | A_Line line | A_All bytes | A_Done

type_synonym sock_world = "(nat \<Rightarrow> socket_buffer) \<times> buffer_pool"

definition sock_call :: "sock_call \<Rightarrow> sock_world \<Rightarrow> (sock_answer \<times> sock_world) res option" where
  "sock_call c = (\<lambda>(B, pl). case c of
     C_Push i msg sz \<Rightarrow> Some (res_bind (lpushbuffer (B i) pl msg sz) (\<lambda>(n, sb, pl). Inr (A_Size n, B(i := sb), pl)))
   | C_Pop i sz \<Rightarrow> res_obind (lpopbuffer (B i) pl sz) (\<lambda>(d, n, sb, pl). Some (Inr (A_Bytes d n, B(i := sb), pl)))
   | C_Line i check sep \<Rightarrow> res_obind (lreadline (B i) pl check sep) (\<lambda>(r, sb, pl). Some (Inr (A_Line r, B(i := sb), pl)))
   | C_All i \<Rightarrow> res_obind (lreadall (B i) pl) (\<lambda>(d, sb, pl). Some (Inr (A_All d, B(i := sb), pl)))
   | C_Clear i \<Rightarrow> res_obind (lclearbuffer (B i) pl) (\<lambda>(sb, pl). Some (Inr (A_Done, B(i := sb), pl))))"

fun sock_calls :: "sock_call list \<Rightarrow> sock_world \<Rightarrow> (sock_answer list \<times> sock_world) res option" where
  "sock_calls [] W = Some (Inr ([], W))"
| "sock_calls (c # cs) W = res_obind (sock_call c W) (\<lambda>(r, W). res_obind (sock_calls cs W) (\<lambda>(rs, W). Some (Inr (r # rs, W))))"

text \<open>The same on byte streams.\<close>

definition stream_call :: "sock_call \<Rightarrow> (nat \<Rightarrow> bytes) \<Rightarrow> sock_answer \<times> (nat \<Rightarrow> bytes)" where
  "stream_call c S = (case c of
     C_Push i msg sz \<Rightarrow> (A_Size (int (length (S i)) + sz), S(i := S i @ take (nat sz) msg))
   | C_Pop i sz \<Rightarrow> if int (length (S i)) < sz \<or> sz = 0 then (A_Bytes None (int (length (S i))), S)
       else (A_Bytes (Some (take (nat sz) (S i))) (int (length (S i)) - sz), S(i := drop (nat sz) (S i)))
   | C_Line i check sep \<Rightarrow> (case line_end sep (S i) of None \<Rightarrow> (A_Line No_Line, S)
       | Some k \<Rightarrow> if check then (A_Line Has_Line, S) else (A_Line (Line (take k (S i))), S(i := drop (k + length sep) (S i))))
   | C_All i \<Rightarrow> (A_All (S i), S(i := []))
   | C_Clear i \<Rightarrow> (A_Done, S(i := [])))"

fun stream_calls :: "sock_call list \<Rightarrow> (nat \<Rightarrow> bytes) \<Rightarrow> sock_answer list \<times> (nat \<Rightarrow> bytes)" where
  "stream_calls [] S = ([], S)"
| "stream_calls (c # cs) S = (let (r, S) = stream_call c S; (rs, S) = stream_calls cs S in (r # rs, S))"

text \<open>Blocks are not empty and as long as said, a buffer stays below 2 GB, no negative size is asked for.\<close>

definition call_ok :: "sock_call \<Rightarrow> (nat \<Rightarrow> bytes) \<Rightarrow> bool" where
  "call_ok c S = (case c of C_Push i msg sz \<Rightarrow> 0 < sz \<and> sz \<le> int (length msg) \<and> int (length (S i)) + sz < 2 ^ 31 | C_Pop i sz \<Rightarrow> 0 \<le> sz | _ \<Rightarrow> True)"

fun calls_ok :: "sock_call list \<Rightarrow> (nat \<Rightarrow> bytes) \<Rightarrow> bool" where
  "calls_ok [] S = True"
| "calls_ok (c # cs) S = (call_ok c S \<and> calls_ok cs (snd (stream_call c S)))"

definition world_rep :: "sock_world \<Rightarrow> (nat \<Rightarrow> bytes) \<Rightarrow> addr list \<Rightarrow> (nat \<Rightarrow> addr list) \<Rightarrow> bool" where
  "world_rep W S fl L \<longleftrightarrow> (\<forall>i. own (snd W) (fst W i) fl (L i) \<and> unread (snd W) (fst W i) (L i) = S i \<and> sb_size (fst W i) = int (length (S i))) \<and>
     (\<forall>i j. i \<noteq> j \<longrightarrow> set (L i) \<inter> set (L j) = {})"

lemma own_size: "own pl (sb\<lparr>sb_size := n\<rparr>) fl l = own pl sb fl l" "unread pl (sb\<lparr>sb_size := n\<rparr>) l = unread pl sb l"
  by (simp_all add: own_def sb_list_def unread_def)

text \<open>An operation on one buffer leaves the others alone.\<close>

lemma world_step:
  assumes W: "world_rep (B, pl) S fl L" and op: "own pl' sb' fl' l'" "chunk_frame pl (set (fl @ L i)) pl' (set (fl' @ l'))"
    and s: "unread pl' sb' l' = s" "sb_size sb' = int (length s)"
  shows "world_rep (B(i := sb'), pl') (S(i := s)) fl' (L(i := l'))"
proof -
  have w: "own pl (B j) fl (L j)" "unread pl (B j) (L j) = S j" "sb_size (B j) = int (length (S j))" for j
    using W by (simp_all add: world_rep_def)
  have dis: "set (L j) \<inter> set (L k) = {}" if "j \<noteq> k" for j k
    using W that by (simp add: world_rep_def)
  have lt: "x < pl_brk pl" if "x \<in> set (L j)" for x j
    using w(1) [of j] that chain_alloc [of pl "sb_head (B j)" "L j" x] by (auto simp: own_def sb_list_def pool_ok_def)
  have notA: "x \<notin> set (fl @ L i)" if "x \<in> set (L j)" "j \<noteq> i" for x j
    using w(1) [of j] dis [OF that(2)] that(1) by (auto simp: own_def)
  have same: "\<forall>x \<in> set (L j). pl_node pl' x = pl_node pl x" if "j \<noteq> i" for j
    using op(2) lt notA that by (simp add: chunk_frame_def)
  have new: "set (fl' @ l') \<inter> set (L j) = {}" if "j \<noteq> i" for j
  proof (rule ccontr)
    assume "set (fl' @ l') \<inter> set (L j) \<noteq> {}"
    then obtain x where x: "x \<in> set (fl' @ l')" "x \<in> set (L j)"
      by blast
    then have "x \<in> set (fl @ L i) \<or> pl_brk pl \<le> x"
      using op(2) by (simp add: chunk_frame_def)
    then show False
      using notA [OF x(2) that] lt [OF x(2)] by simp
  qed
  have others: "own pl' (B j) fl' (L j) \<and> unread pl' (B j) (L j) = S j" if "j \<noteq> i" for j
  proof -
    have "sb_list pl (B j) (L j)" "distinct (L j)"
      using w(1) [of j] by (simp_all add: own_def)
    then show ?thesis
      using sb_list_cong [OF _ same [OF that]] op(1) new [OF that] w(2) [of j] by (auto simp: own_def)
  qed
  show ?thesis
    using op(1) s others w(3) dis new unfolding world_rep_def by (auto simp: disjoint_iff)
qed

lemma world_same: "world_rep (B, pl) S fl L \<Longrightarrow> world_rep (B(i := B i), pl) S fl L"
  by simp

lemma sock_call_correct:
  assumes W: "world_rep W S fl L" and ok: "call_ok c S"
  shows "\<exists>W' fl' L'. sock_call c W = Some (Inr (fst (stream_call c S), W')) \<and> world_rep W' (snd (stream_call c S)) fl' L'"
proof -
  obtain B pl where Wd: "W = (B, pl)"
    by (cases W) blast
  have w: "own pl (B i) fl (L i)" "unread pl (B i) (L i) = S i" "sb_size (B i) = int (length (S i))" for i
    using W by (simp_all add: world_rep_def Wd)
  show ?thesis
  proof (cases c)
    case (C_Push i msg sz)
    obtain sb' pl' fl' l' where p: "lpushbuffer (B i) pl msg sz = Inr (sb_size (B i) + sz, sb', pl')" "own pl' sb' fl' l'"
      "unread pl' sb' l' = unread pl (B i) (L i) @ take (nat sz) msg" "chunk_frame pl (set (fl @ L i)) pl' (set (fl' @ l'))" "sb_size sb' = sb_size (B i) + sz"
      using lpushbuffer_spec [OF w(1) [of i], of sz msg] ok w(3) [of i] by (auto simp: call_ok_def C_Push)
    have "sb_size sb' = int (length (S i @ take (nat sz) msg))"
      using p(5) w(3) [of i] ok by (auto simp: call_ok_def C_Push min_def)
    from world_step [OF W [unfolded Wd] p(2,4) p(3) [unfolded w(2)] this]
    have "world_rep (B(i := sb'), pl') (S(i := S i @ take (nat sz) msg)) fl' (L(i := l'))" .
    moreover have "sock_call c W = Some (Inr (A_Size (int (length (S i)) + sz), B(i := sb'), pl'))"
      using p(1) w(3) [of i] by (simp add: sock_call_def C_Push Wd)
    ultimately show ?thesis
      by (intro exI [of _ "(B(i := sb'), pl')"] exI [of _ fl'] exI [of _ "L(i := l')"]) (simp add: stream_call_def C_Push)
  next
    case (C_Pop i sz)
    show ?thesis
    proof (cases "int (length (S i)) < sz \<or> sz = 0")
      case True
      then have "sock_call c W = Some (Inr (A_Bytes None (int (length (S i))), B(i := B i), pl))"
        using w(3) [of i] by (simp add: sock_call_def C_Pop Wd lpopbuffer_def)
      then show ?thesis
        using W True by (intro exI [of _ W] exI [of _ fl] exI [of _ L]) (simp add: stream_call_def C_Pop Wd)
    next
      case False
      then have sz: "0 < sz" "nat sz \<le> length (unread pl (B i) (L i))"
        using ok w(2) by (auto simp: call_ok_def C_Pop)
      have ne: "L i \<noteq> []"
        using sz w(2) [of i] unread_empty [OF w(1) [of i]] by auto
      obtain sb' pl' fl' l' where p: "pop_lstring (B i) pl sz 0 = Some (Inr (take (nat sz) (S i), sb', pl'))" "popped pl (B i) fl (L i) (nat sz) sb' pl' fl' l'"
        using pop_lstring_spec [OF w(1) [of i] ne order_refl _ sz(2)] sz(1) w(2) [of i] by auto
      define sb'' where "sb'' = sb'\<lparr>sb_size := sb_size sb' - sz\<rparr>"
      have o: "own pl' sb'' fl' l'" "chunk_frame pl (set (fl @ L i)) pl' (set (fl' @ l'))" "unread pl' sb'' l' = drop (nat sz) (S i)"
        using p(2) w(2) [of i] by (simp_all add: popped_def sb''_def own_size)
      have size: "sb_size sb'' = int (length (drop (nat sz) (S i)))" "sb_size sb'' = int (length (S i)) - sz"
        using p(2) w(3) [of i] False sz(1) by (simp_all add: popped_def sb''_def of_nat_diff)
      have "sock_call c W = Some (Inr (A_Bytes (Some (take (nat sz) (S i))) (int (length (S i)) - sz), B(i := sb''), pl'))"
        using p(1) False w(3) [of i] size(2) by (simp add: sock_call_def C_Pop Wd lpopbuffer_def Let_def sb''_def)
      then show ?thesis
        using world_step [OF W [unfolded Wd] o size(1)] False
        by (intro exI [of _ "(B(i := sb''), pl')"] exI [of _ fl'] exI [of _ "L(i := l')"]) (simp add: stream_call_def C_Pop)
    qed
  next
    case (C_Line i check sep)
    note spec = lreadline_spec [OF w(1) [of i], unfolded w(2), OF w(3) [of i], where sep = sep and check = check]
    show ?thesis
    proof (cases "line_end sep (S i)")
      case None
      then have "sock_call c W = Some (Inr (A_Line No_Line, B(i := B i), pl))"
        using spec by (simp add: sock_call_def C_Line Wd)
      then show ?thesis
        using W None by (intro exI [of _ W] exI [of _ fl] exI [of _ L]) (simp add: stream_call_def C_Line Wd)
    next
      case (Some k)
      show ?thesis
      proof (cases check)
        case True
        then have "sock_call c W = Some (Inr (A_Line Has_Line, B(i := B i), pl))"
          using spec Some by (simp add: sock_call_def C_Line Wd)
        then show ?thesis
          using W True Some by (intro exI [of _ W] exI [of _ fl] exI [of _ L]) (simp add: stream_call_def C_Line Wd)
      next
        case False
        obtain sb' pl' fl' l' where p: "lreadline (B i) pl check sep = Some (Inr (Line (take k (S i)), sb'\<lparr>sb_size := sb_size (B i) - int (k + length sep)\<rparr>, pl'))"
          "popped pl (B i) fl (L i) (k + length sep) sb' pl' fl' l'"
          using spec Some False by auto
        define sb'' where "sb'' = sb'\<lparr>sb_size := sb_size (B i) - int (k + length sep)\<rparr>"
        have k: "k + length sep \<le> length (S i)"
          using Some find_sep_Some [of sep "S i" k] by (simp add: line_end_def split: if_splits)
        have o: "own pl' sb'' fl' l'" "chunk_frame pl (set (fl @ L i)) pl' (set (fl' @ l'))" "unread pl' sb'' l' = drop (k + length sep) (S i)"
          using p(2) w(2) [of i] by (simp_all add: popped_def sb''_def own_size)
        have size: "sb_size sb'' = int (length (drop (k + length sep) (S i)))"
          using w(3) [of i] k by (simp add: sb''_def of_nat_diff)
        have "sock_call c W = Some (Inr (A_Line (Line (take k (S i))), B(i := sb''), pl'))"
          using p(1) by (simp add: sock_call_def C_Line Wd sb''_def)
        then show ?thesis
          using world_step [OF W [unfolded Wd] o size] False Some
          by (intro exI [of _ "(B(i := sb''), pl')"] exI [of _ fl'] exI [of _ "L(i := l')"]) (simp add: stream_call_def C_Line)
      qed
    qed
  next
    case (C_All i)
    obtain sb' pl' fl' where p: "readall_loop (B i) pl [] = Some (Inr (S i, sb', pl'))" "own pl' sb' fl' []" "chunk_frame pl (set (fl @ L i)) pl' (set (fl' @ []))"
      using readall_loop_spec [OF w(1) [of i], of "[]"] w(2) [of i] by auto
    have u: "unread pl' (sb'\<lparr>sb_size := 0\<rparr>) [] = []"
      by (simp add: unread_def)
    have o: "own pl' (sb'\<lparr>sb_size := 0\<rparr>) fl' []"
      using p(2) by (simp add: own_size)
    have "sock_call c W = Some (Inr (A_All (S i), B(i := sb'\<lparr>sb_size := 0\<rparr>), pl'))"
      using p(1) by (simp add: sock_call_def C_All Wd lreadall_def)
    then show ?thesis
      using world_step [OF W [unfolded Wd] o p(3) u]
      by (intro exI [of _ "(B(i := sb'\<lparr>sb_size := 0\<rparr>), pl')"] exI [of _ fl'] exI [of _ "L(i := [])"]) (simp add: stream_call_def C_All)
  next
    case (C_Clear i)
    obtain sb' pl' fl' where p: "return_all (B i) pl = Some (Inr (sb', pl'))" "own pl' sb' fl' []" "chunk_frame pl (set (fl @ L i)) pl' (set (fl' @ []))"
      using return_all_spec [OF w(1) [of i]] by auto
    have u: "unread pl' (sb'\<lparr>sb_size := 0\<rparr>) [] = []"
      by (simp add: unread_def)
    have o: "own pl' (sb'\<lparr>sb_size := 0\<rparr>) fl' []"
      using p(2) by (simp add: own_size)
    have "sock_call c W = Some (Inr (A_Done, B(i := sb'\<lparr>sb_size := 0\<rparr>), pl'))"
      using p(1) by (simp add: sock_call_def C_Clear Wd lclearbuffer_def)
    then show ?thesis
      using world_step [OF W [unfolded Wd] o p(3) u]
      by (intro exI [of _ "(B(i := sb'\<lparr>sb_size := 0\<rparr>), pl')"] exI [of _ fl'] exI [of _ "L(i := [])"]) (simp add: stream_call_def C_Clear)
  qed
qed

lemma sock_calls_correct:
  "world_rep W S fl L \<Longrightarrow> calls_ok cs S \<Longrightarrow> \<exists>W'. sock_calls cs W = Some (Inr (fst (stream_calls cs S), W'))"
proof (induction cs arbitrary: W S fl L)
  case (Cons c cs)
  have ok: "call_ok c S" "calls_ok cs (snd (stream_call c S))"
    using Cons.prems(2) by simp_all
  obtain W1 fl1 L1 where 1: "sock_call c W = Some (Inr (fst (stream_call c S), W1))" "world_rep W1 (snd (stream_call c S)) fl1 L1"
    using sock_call_correct [OF Cons.prems(1) ok(1)] by blast
  obtain W2 where 2: "sock_calls cs W1 = Some (Inr (fst (stream_calls cs (snd (stream_call c S))), W2))"
    using Cons.IH [OF 1(2) ok(2)] by blast
  show ?case
    using 1(1) 2 by (simp add: split_def Let_def)
qed simp

definition new_world :: sock_world where
  "new_world = (\<lambda>_. lnewbuffer, empty_pool)"

lemma new_world_rep: "world_rep new_world (\<lambda>_. []) [] (\<lambda>_. [])"
  by (simp add: world_rep_def new_world_def own_def sb_list_def pool_ok_def lnewbuffer_def empty_pool_def unread_def)

text \<open>C22: for every sequence of calls on the buffers of a service, which share one pool of nodes, each call returns what
  it would on plain byte streams: pushed blocks are read back byte by byte in order and only from their own socket, in pieces of any
  size; a line is what stands before the first separator, also where the separator lies in several blocks; and no access of the code is
  outside of a node, no node is used twice and every loop ends.\<close>

theorem lua_socket_streams:
  assumes "calls_ok cs (\<lambda>_. [])"
  shows "\<exists>W'. sock_calls cs new_world = Some (Inr (fst (stream_calls cs (\<lambda>_. [])), W'))"
  using sock_calls_correct [OF new_world_rep assms] .

theorem lua_socket_streams_witness:
  "\<exists>W'. sock_calls [C_Push 1 [72, 105, 13] 3, C_Push 2 [7] 1, C_Push 1 [10, 89, 111] 3, C_Line 1 False [13, 10], C_Pop 1 3, C_All 1] new_world =
    Some (Inr ([A_Size 3, A_Size 1, A_Size 6, A_Line (Line [72, 105]), A_Bytes None 2, A_All [89, 111]], W'))"
proof -
  let ?cs = "[C_Push 1 [72, 105, 13] 3, C_Push 2 [7] 1, C_Push 1 [10, 89, 111] 3, C_Line 1 False [13, 10], C_Pop 1 3, C_All 1]"
  have s: "fst (stream_calls ?cs (\<lambda>_. [])) = [A_Size 3, A_Size 1, A_Size 6, A_Line (Line [72, 105]), A_Bytes None 2, A_All [89, 111]]"
    by (simp add: stream_call_def line_end_def find_sep_Cons find_sep_Nil)
  have "calls_ok ?cs (\<lambda>_. [])"
    by (simp add: call_ok_def stream_call_def line_end_def find_sep_Cons find_sep_Nil)
  from lua_socket_streams [OF this] show ?thesis
    unfolding s .
qed

end
