(* ===== verification/LuaSocketCalls.thy ===== *)
theory LuaSocketCalls
  imports LuaSocket SkynetSocket CText
begin

text \<open>
  The calls of \<open>lua-socket.c\<close> that reach the socket server: taking an address apart, collecting what is to be sent from a string, a
  table of strings or a buffer, and the bindings of \<open>skynet_socket.c\<close>. An argument of a wrong type raises a Lua error before the call
  and is left out. A C string is its characters without the 0.
\<close>

section \<open>Addresses\<close>

fun strchr :: "string \<Rightarrow> char \<Rightarrow> nat option" where
  "strchr [] c = None"
| "strchr (x # s) c = (if x = c then Some 0 else map_option Suc (strchr s c))"

text \<open>\<open>strtoul\<close> with base 10, and its value as an \<open>int\<close>.\<close>

definition strtoul10 :: "string \<Rightarrow> u64" where
  "strtoul10 s = (case strip_sign (dropWhile is_space s) of (neg, s1) \<Rightarrow>
     let v = fst (digits_value 10 0 s1) in if v > 2 ^ 64 - 1 then - 1 else if neg then - word_of_nat v else word_of_nat v)"

definition port_value :: "string \<Rightarrow> int" where
  "port_value s = sint (ucast (strtoul10 s) :: u32)"

definition invalid_address :: "string \<Rightarrow> 'a lua" where
  "invalid_address addr = luaL_error (''Invalid address '' @ addr @ ''.'')"

text \<open>The host and the port; \<open>memcpy\<close> with the length \<open>sep - host\<close> is a fault when that is negative.\<close>

definition address_port :: "string \<Rightarrow> int option \<Rightarrow> (string \<times> int) lua" where
  "address_port addr port = (case port of Some p \<Rightarrow> Inr (addr, p) | None \<Rightarrow>
     (case strchr addr (CHR ''['') of
        Some i \<Rightarrow> (let host = i + 1 in case strchr addr (CHR '']'') of None \<Rightarrow> invalid_address addr | Some sep \<Rightarrow>
          if sep < host then Inl (C_Fault Out_Of_Bounds)
          else let tmp = take (sep - host) (drop host addr) in
            (case strchr (drop (sep + 1) addr) (CHR '':'') of None \<Rightarrow> invalid_address addr
             | Some k \<Rightarrow> Inr (tmp, port_value (drop (sep + 1 + k + 1) addr))))
      | None \<Rightarrow> (case strchr addr (CHR '':'') of None \<Rightarrow> invalid_address addr
          | Some sep \<Rightarrow> Inr (take sep addr, port_value (drop (sep + 1) addr)))))"

section \<open>What is sent\<close>

text \<open>A string, a table with its elements up to the first nil (\<open>None\<close>: neither a string nor a number), or a buffer with its size.\<close>

datatype send_arg = Send_String bytes | Send_Table "bytes option list" | Send_Buffer bytes int

fun count_size :: "bytes option list \<Rightarrow> nat lua" where
  "count_size [] = Inr 0"
| "count_size (None # t) = luaL_error ''string expected''"
| "count_size (Some s # t) = res_bind (count_size t) (\<lambda>n. Inr (length s + n))"

fun concat_strings :: "bytes option list \<Rightarrow> bytes \<Rightarrow> nat \<Rightarrow> bytes \<times> nat" where
  "concat_strings [] ptr tlen = (ptr, tlen)"
| "concat_strings (None # t) ptr tlen = (ptr, tlen)"
| "concat_strings (Some s # t) ptr tlen = (if tlen < length s then (ptr, tlen) else concat_strings t (ptr @ s) (tlen - length s))"

definition concat_table :: "bytes option list \<Rightarrow> nat \<Rightarrow> bytes lua" where
  "concat_table t tlen = (case concat_strings t [] tlen of (ptr, tlen) \<Rightarrow> if tlen \<noteq> 0 then luaL_error ''Invalid strings table'' else Inr ptr)"

definition sock_get_buffer :: "send_arg \<Rightarrow> (bytes \<times> int) lua" where
  "sock_get_buffer arg = (case arg of
     Send_Buffer buffer sz \<Rightarrow> Inr (buffer, sz)
   | Send_Table t \<Rightarrow> res_bind (count_size t) (\<lambda>len. res_bind (concat_table t len) (\<lambda>buffer. Inr (buffer, int32 (int len))))
   | Send_String s \<Rightarrow> Inr (s, int32 (int (length s))))"

section \<open>Bindings\<close>

definition lsend :: "services \<Rightarrow> addr \<Rightarrow> int \<Rightarrow> send_arg \<Rightarrow> socket_server \<times> node \<Rightarrow> (bool \<times> socket_server \<times> node) lua" where
  "lsend sv ctx id' arg w = res_bind (sock_get_buffer arg) (\<lambda>(buffer, sz).
     lift_fault (res_bind (skynet_socket_send sv ctx id' buffer sz w) (\<lambda>(err, w). Inr (err = 0, w))))"

definition lsendlow :: "int \<Rightarrow> send_arg \<Rightarrow> socket_server \<Rightarrow> socket_server lua" where
  "lsendlow id' arg ss = res_bind (sock_get_buffer arg) (\<lambda>(buffer, sz). lift_fault (skynet_socket_send_lowpriority id' buffer sz ss))"

definition lconnect :: "node \<Rightarrow> addr \<Rightarrow> string \<Rightarrow> int option \<Rightarrow> socket_server \<Rightarrow> (int \<times> socket_server) lua" where
  "lconnect nd ctx addr parg ss = res_bind (address_port addr parg) (\<lambda>(host, port).
     if port = 0 then luaL_error ''Invalid port''
     else lift_fault (res_bind (skynet_socket_connect nd ctx host ss) (\<lambda>(id', ss). Inr (case id' of None \<Rightarrow> -1 | Some i \<Rightarrow> i, ss))))"

definition llisten :: "node \<Rightarrow> addr \<Rightarrow> int option \<Rightarrow> socket_server \<Rightarrow> (int \<times> socket_server) lua" where
  "llisten nd ctx listened ss = res_bind (lift_fault (skynet_socket_listen nd ctx listened ss)) (\<lambda>(id', ss).
     case id' of None \<Rightarrow> luaL_error ''Listen error'' | Some i \<Rightarrow> Inr (i, ss))"

definition ludp :: "node \<Rightarrow> addr \<Rightarrow> string option \<Rightarrow> int option \<Rightarrow> (string option \<Rightarrow> int \<Rightarrow> (int \<times> bool) option) \<Rightarrow> socket_server \<Rightarrow> (int \<times> socket_server) lua" where
  "ludp nd ctx addr parg bound ss =
     res_bind (case addr of None \<Rightarrow> Inr (None, 0) | Some a \<Rightarrow> res_bind (address_port a parg) (\<lambda>(host, port). Inr (Some host, port))) (\<lambda>(host, port).
     res_bind (lift_fault (skynet_socket_udp nd ctx (bound host port) ss)) (\<lambda>(id', ss).
       case id' of None \<Rightarrow> luaL_error ''udp init failed'' | Some i \<Rightarrow> Inr (i, ss)))"

definition ludp_connect :: "int \<Rightarrow> string \<Rightarrow> int option \<Rightarrow> (string \<Rightarrow> int \<Rightarrow> bytes option) \<Rightarrow> socket_server \<Rightarrow> socket_server lua" where
  "ludp_connect id' addr parg resolve ss = res_bind (address_port addr parg) (\<lambda>(host, port).
     case skynet_socket_udp_connect id' (resolve host port) ss of (ok, ss) \<Rightarrow> if ok then Inr ss else luaL_error ''udp connect failed'')"

definition ludp_send :: "services \<Rightarrow> addr \<Rightarrow> int \<Rightarrow> bytes \<Rightarrow> send_arg \<Rightarrow> socket_server \<times> node \<Rightarrow> (bool \<times> socket_server \<times> node) lua" where
  "ludp_send sv ctx id' address arg w = res_bind (sock_get_buffer arg) (\<lambda>(buffer, sz).
     lift_fault (res_bind (skynet_socket_udp_send sv ctx id' address buffer sz w) (\<lambda>(err, w). Inr (err = 0, w))))"

text \<open>\<open>ludp_address\<close>: the address bytes and the port, which is read before the length is checked; a Lua string ends with a 0.\<close>

definition ludp_address :: "bytes \<Rightarrow> (bytes \<times> u16) lua" where
  "ludp_address addr = res_bind (lift_fault (mem_read (Some (addr @ [0])) 1 2)) (\<lambda>p.
     if length addr \<noteq> 1 + 2 + 4 \<and> length addr \<noteq> 1 + 2 + 16 then luaL_error ''Invalid udp address''
     else Inr (drop 3 addr, be_word p))"

section \<open>Properties\<close>

lemma strchr_None: "c \<notin> set s \<Longrightarrow> strchr s c = None"
  by (induction s) auto

lemma strchr_append: "c \<notin> set s \<Longrightarrow> strchr (s @ c # t) c = Some (length s)"
  by (induction s) auto

lemma port_value_dec:
  assumes "p < 2 ^ 31"
  shows "port_value (dec_text (int p)) = int p"
proof -
  let ?s = "number_text hex_lower 10 p"
  have d: "digits_value 10 0 ?s = (p, [])"
    using digits_value_number [of 10 0 p] by simp
  have c: "char_code c \<noteq> 45 \<and> char_code c \<noteq> 43 \<and> \<not> is_space c" if "c \<in> set ?s" for c
    using number_text_hex [of 10 c p] that hex_digit_code(1) by auto
  have "dropWhile is_space ?s = ?s"
    using c by (cases ?s) auto
  moreover have "strip_sign ?s = (False, ?s)"
    using c by (cases ?s) auto
  ultimately have "strtoul10 (dec_text (int p)) = word_of_nat p"
    using d assms by (simp add: strtoul10_def dec_text_def)
  moreover have "take_bit 64 p = p"
    using assms by (intro take_bit_nat_eq_self) simp
  then have "(ucast (word_of_nat p :: u64) :: u32) = word_of_nat p"
    by (simp only: unsigned_of_nat len_of_numeral_defs) simp
  ultimately show ?thesis
    using assms by (simp add: port_value_def signed_of_nat signed_take_bit_int_eq_self)
qed

lemma concat_strings_correct: "concat_strings (map Some ss @ t) ptr (length (concat ss) + n) = concat_strings t (ptr @ concat ss) n"
  by (induction ss arbitrary: ptr) (simp_all add: add.assoc)

lemma count_size_correct: "count_size (map Some ss) = Inr (length (concat ss))"
  by (induction ss) simp_all

lemma get_buffer_table:
  assumes "length (concat ss) < 2 ^ 31"
  shows "sock_get_buffer (Send_Table (map Some ss)) = Inr (concat ss, int (length (concat ss)))"
proof -
  have "concat_strings (map Some ss) [] (length (concat ss)) = (concat ss, 0)"
    using concat_strings_correct [of ss "[]" "[]" 0] by simp
  moreover have "int32 (int (length (concat ss))) = int (length (concat ss))"
    using assms by (simp add: int32_def signed_of_nat signed_take_bit_int_eq_self)
  ultimately show ?thesis
    by (simp add: sock_get_buffer_def count_size_correct concat_table_def)
qed

text \<open>A table of strings is sent as one message, and the call tells whether the socket is known.\<close>

theorem lsend_table:
  assumes "length (concat ss) < 2 ^ 31" "sk_wb_size (ss_slot s (HASH_ID id')) \<le> 1024 * 1024" "0 \<le> sk_wb_size (ss_slot s (HASH_ID id'))"
  shows "lsend sv ctx id' (Send_Table (map Some ss)) (s, nd) =
    (if known_id id' s then Inr (True, send_request (Ctrl_Send id' (concat ss) (int (length (concat ss))) PRIORITY_HIGH) s, nd) else Inr (False, s, nd))"
  using assms
  by (simp add: lsend_def get_buffer_table skynet_socket_send_def socket_server_send_def check_wsz_def free_buffer_def send_object_size_def)



end
