(* ===== verification/Spec2Isabelle.thy ===== *)
theory Spec2Isabelle
  imports Scheduler Timer Server Crypt Base64 Gate Rwlock Seri Cluster SocketStream HarborNode Sha1 SprotoPack SkynetSocket LuaSocket
    LuaSocketCalls
begin

text \<open>
  A verification development of skynet, the C core of the game server (\<open>src/skynet\<close>): an actor framework in which
  services, each with a message queue, run on a pool of worker threads and talk by messages.

  \<^bold>\<open>The program.\<close> A node (\<open>skynet-src\<close>) has a table of services (\<open>skynet_handle.c\<close>), each with a context
  (\<open>skynet_server.c\<close>) that owns a message ring (\<open>skynet_mq.c\<close>). Rings that have messages are on one global list, from
  which the workers (\<open>skynet_start.c\<close>) take a ring, dispatch some of its messages to the callback of its service and put it
  back. A timer (\<open>skynet_timer.c\<close>) sends the timeouts services ask for; \<open>skynet_harbor.c\<close> gives messages for other
  nodes to one service, the harbor service (\<open>service-src\<close>), which keeps the connections between nodes. The socket server
  (\<open>socket_server.c\<close>) serves all sockets in one thread; services ask it by commands through a pipe and get its reports as
  messages. The gate (\<open>service-src\<close>) is the service between client sockets and agents. The C libraries of Lua
  services (\<open>lualib-src\<close>) cut socket streams into packages, encode values, and encrypt and encode the login exchange.

  \<^bold>\<open>Conventions\<close> (theory \<open>Prelude\<close>). A struct is a record with the field names of the source behind a prefix, an address is a
  number, NULL is \<open>None\<close>, memory that \<open>malloc\<close> left uninitialised is \<open>None\<close>. A function that may fail an \<open>assert\<close>,
  follow a wrong pointer or leave a buffer returns \<open>fault + 'a\<close>; one that may also raise a Lua error returns
  \<open>lua_exn + 'a\<close>. So every theorem that says a function returns \<open>Inr\<close> also says that no assert of it fails and no access
  is out of bounds. Words are kept at their width where wrapping matters (time, handles, sessions, bytes, cryptography).
  Loops that are not structural have a measure, a partial function in the option type, or fuel with a theorem that enough
  fuel gives a result.

  \<^bold>\<open>Interfaces.\<close> Three locales state what components promise: \<open>fifo\<close> (theory \<open>Fifo\<close>) for the message ring, the global
  list, the package ring and the queues of the harbor service; \<open>table\<close> (theory \<open>Table\<close>) for the handle storage, the connection table and the table of
  unfinished packages; \<open>calendar\<close> (theory \<open>Calendar\<close>) for the timing wheel. What a client sees of a whole run is proved
  once in the locale, and the properties of the components rest on its interpretations.

  \<^bold>\<open>Theories and sources.\<close>
  \<^item> \<open>MessageQueue\<close>, \<open>GlobalQueue\<close>, \<open>RingStore\<close>: \<open>skynet_mq.c\<close>. Rings live in a store, since the global list is threaded
    through their own \<open>next\<close> fields. The lemmas show FIFO order across the wrap and the growth of a ring, FIFO service of the
    global list, the overload threshold, and describe each operation by what the scheduler needs to know of a ring.
  \<^item> \<open>HandleStorage\<close>: \<open>skynet_handle.c\<close>. Registration with doubling, retirement, lookup; the sorted name table. The lemmas
    give a map from handles to contexts for every history, the name table as a map, and the two cases in which the code
    misbehaves: the counter that wraps to the reserved handle 0, and a registration whose handle is not assigned yet.
  \<^item> \<open>Rwlock\<close>: \<open>rwlock.h\<close>, all interleavings of its atomic accesses: exclusion and that it can always be released.
  \<^item> \<open>Timer\<close>: \<open>skynet_timer.c\<close>. Every event fires on exactly its tick, in order, across the five levels and the wrap of the
    32-bit time.
  \<^item> \<open>Server\<close>, \<open>CText\<close>: \<open>skynet_server.c\<close> with \<open>skynet_harbor.c\<close>, \<open>skynet_error.c\<close> and \<open>skynet_env.c\<close>: sending,
    dispatching, launching, exiting and the text commands on one node record; the code of services is the argument
    \<open>services\<close>.
  \<^item> \<open>Scheduler\<close>: \<open>skynet_context_message_dispatch\<close>, sending, launching, retiring and grabbing as a step relation whose
    steps are the critical sections of the code, for any number of threads. The invariant gives that a ring is dispatched by
    one worker at a time, that no wake-up is lost, that reference counts are exact and that no assert fails.
  \<^item> \<open>SocketServer\<close>: \<open>socket_server.c\<close>: slots and ids, the commands of the pipe, buffers and their lists, reading, accepting,
    the event loop and the calls of services. What the operating system answers is an argument, the record \<open>sys\<close>.
    \<open>SocketStep\<close> runs calls and rounds of \<open>socket_server_poll\<close> in any order: no assert fails, no access is wrong, and what is
    buffered waits for a write event. \<open>SocketStream\<close> shows that what is written of a connection is the sent messages, each whole,
    in order within a priority.
  \<^item> \<open>SocketMessage\<close>, \<open>SkynetSocket\<close>: \<open>skynet_socket.h\<close> and \<open>skynet_socket.c\<close>, between the socket thread and the services. Every
    event reaches the service that owns the socket, with what the event reported; a sender is warned of a long buffer.
  \<^item> \<open>LuaSocket\<close>, \<open>LuaSocketCalls\<close>: \<open>lua-socket.c\<close>. The buffers of all sockets of a service share one pool of list nodes; every
    sequence of calls on them returns what it would on plain byte streams. The calls take addresses apart and collect what is sent.
  \<^item> \<open>Harbor\<close>: \<open>service_harbor.c\<close>; \<open>HarborRun\<close> shows that messages travel unchanged from the service of one node to that of
    another, whatever the stream is cut into; \<open>HarborNode\<close> that messages leave in order across the handshake, that no assert
    fails, and what happens to nodes that are down and to names that are resolved early.
  \<^item> \<open>Netpack\<close>: \<open>lua-netpack.c\<close>; \<open>HashId\<close>, \<open>DataBuffer\<close>, \<open>Gate\<close>: \<open>hashid.h\<close>, \<open>databuffer.h\<close> and
    \<open>service_gate.c\<close>. Framing is proved against the specification that cuts the whole stream, however it arrives in chunks;
    connections that share one node pool are independent; the callback of the gate keeps its tables consistent.
  \<^item> \<open>Seri\<close>: \<open>lua-seri.c\<close>. Packed values are unpacked unchanged; any bytes can be unpacked without reading outside of them.
  \<^item> \<open>Cluster\<close>: \<open>lua-cluster.c\<close> with the receiving side of \<open>clusterd.lua\<close> and \<open>socketchannel.lua\<close>. Requests and
    responses in parts arrive whole among packages of other sessions; two nodes with equal sessions destroy each other's requests.
  \<^item> \<open>Sha1\<close>: \<open>lsha1.c\<close>. The streaming hash with its rotated variables is SHA-1 of the standard, and the keyed hash is HMAC, below
    512 MB; beyond, the exact deviation.
  \<^item> \<open>SprotoPack\<close>: the zero packing of \<open>sproto.c\<close> and \<open>lsproto.c\<close>. What is packed is unpacked unchanged up to the padding, the
    buffer that is provided is long enough, and the two places where the source is read behind its end.
  \<^item> \<open>Des\<close>, \<open>Crypt\<close>, \<open>Base64\<close>: \<open>lua-crypt.c\<close>. Decoding reverses encoding for DES, base64 and hexadecimal texts, and the
    Diffie-Hellman exchange agrees; exact conditions of the four slips of the code.

  \<^bold>\<open>Bounds and fuel.\<close> The reader of \<open>lua-seri.c\<close> takes fuel; \<open>4 * len + 2\<close> is enough for a buffer of \<open>len\<close> bytes
  (\<open>luaseri_unpack_total\<close>), since every call reads a byte within four steps. Popping every package of a ring takes at most its capacity.
  The dispatch loops of the server and the gate are partial functions in the option type; that they end is part of the
  theorems about them. Lengths that are \<open>int\<close> in the code are numbers below \<open>2 ^ 31\<close> where the theory says so.

  \<^bold>\<open>Assumptions.\<close> \<open>malloc\<close> never fails (\<open>malloc_hook.c\<close> aborts). Code loaded at run time (modules, callbacks), the
  operating system's clocks, sockets and \<open>random\<close> are arguments. In the steps of the socket server the ids have not wrapped
  around, a read is shorter than 1 GB, and closing a socket and dropping its waiting event is one step. A handle of a service that is
  being launched is not the handle of a ring that is still alive, which holds until the 24-bit counter has wrapped around.
  What a lock protects from its first to its last access is one step.

  \<^bold>\<open>Not modelled.\<close> System calls and what only wraps them: the pollers \<open>socket_epoll.h\<close> and \<open>socket_kqueue.h\<close>,
  \<open>skynet_main.c\<close>, \<open>skynet_daemon.c\<close>, thread creation and start-up in \<open>skynet_start.c\<close>, \<open>skynet_module.c\<close>, log files,
  \<open>malloc_hook.c\<close>. Services and libraries that are left: \<open>service_snlua.c\<close>, \<open>service_logger.c\<close>,
  \<open>lua-bson.c\<close>, \<open>lua-mongo.c\<close>, \<open>lua-sharedata.c\<close>, \<open>lua-stm.c\<close>, \<open>lua-multicast.c\<close>, \<open>lua-clientsocket.c\<close>,
  the Lua bindings of the node, and the debugging libraries. Of \<open>lua-socket.c\<close> the functions that only free or copy one block
  or pass an id on. Third-party code: Lua, LPeg, md5. The Lua code. Of \<open>sproto.c\<close> the schemas, \<open>sproto_encode\<close> and
  \<open>sproto_decode\<close>.
\<close>

end
